(* ===== verification/Prelude.thy ===== *)
theory Prelude
  imports Main "HOL-Library.Word" "HOL-Library.Multiset"
begin

text \<open>
  What the component theories share: names for the machine integer types of the C++ code,
  the error type of \<^verbatim>\<open>elog(ERROR)\<close> / \<^verbatim>\<open>ereport(ERROR)\<close>, sequencing of fallible steps,
  facts on power-of-two masks (the hash tables and the task queue index with
  \<^verbatim>\<open>x & (capacity - 1)\<close>), facts on list updates, and the collections of simp rules.
\<close>

unbundle bit_operations_syntax

named_theorems layout_simps \<open>facts on the widths and offsets of the row layout\<close>
named_theorems mem_simps \<open>facts on reads after writes of byte rows\<close>
named_theorems res_simps \<open>facts on fallible steps\<close>

type_synonym u8 = "8 word"
type_synonym u16 = "16 word"
type_synonym u32 = "32 word"
type_synonym u64 = "64 word"

lemma unat_less_u8: "unat (b :: u8) < 256"
  using unsigned_less [where 'a = nat, of b] by simp

lemma unat_less_u16: "unat (b :: u16) < 65536"
  using unsigned_less [where 'a = nat, of b] by simp

lemma unat_less_u32: "unat (v :: u32) < 4294967296"
  using unsigned_less [where 'a = nat, of v] by simp

lemma unat_less_u64: "unat (v :: u64) < 18446744073709551616"
  using unsigned_less [where 'a = nat, of v] by simp

lemma unat_of_nat_u32: "n < 2 ^ 32 \<Longrightarrow> unat (word_of_nat n :: u32) = n"
  by (simp add: unat_of_nat)

lemma unat_of_nat_u64: "n < 2 ^ 64 \<Longrightarrow> unat (word_of_nat n :: u64) = n"
  by (simp add: unat_of_nat)

text \<open>
  Counters and sizes are naturals where that keeps the statements readable; sums and products of
  them are then cut back to the width of the C type with these.
\<close>

definition wrap32 :: "nat \<Rightarrow> nat" where
  "wrap32 n = n mod 2 ^ 32"

definition wrap64 :: "nat \<Rightarrow> nat" where
  "wrap64 n = n mod 2 ^ 64"

text \<open>Subtraction of unsigned 64-bit values, with its borrow out of the word.\<close>

definition sub64 :: "nat \<Rightarrow> nat \<Rightarrow> nat" where
  "sub64 a b = (a + 2 ^ 64 - b mod 2 ^ 64) mod 2 ^ 64"

lemma wrap32_id [simp]: "n < 2 ^ 32 \<Longrightarrow> wrap32 n = n"
  by (simp add: wrap32_def)

lemma wrap64_id [simp]: "n < 2 ^ 64 \<Longrightarrow> wrap64 n = n"
  by (simp add: wrap64_def)

lemma sub64_id [simp]: "b \<le> a \<Longrightarrow> a < 2 ^ 64 \<Longrightarrow> sub64 a b = a - b"
  by (simp add: sub64_def mod_if)

lemma sub64_borrow: "a < b \<Longrightarrow> b < 2 ^ 64 \<Longrightarrow> sub64 a b = a + 2 ^ 64 - b"
  by (simp add: sub64_def)

definition UINT32_MAX :: nat where
  "UINT32_MAX = 2 ^ 32 - 1"

section \<open>Errors\<close>

text \<open>
  A PostgreSQL error raised by \<^verbatim>\<open>elog(ERROR, ...)\<close> or \<^verbatim>\<open>ereport(ERROR, ...)\<close> leaves the function by
  a long jump. The model returns it as the left alternative, with the message's fixed part.
\<close>

datatype pg_error = Elog string

type_synonym 'a result = "pg_error + 'a"

fun rbind :: "'a result \<Rightarrow> ('a \<Rightarrow> 'b result) \<Rightarrow> 'b result" where
  "rbind (Inl e) f = Inl e"
| "rbind (Inr a) f = f a"

lemma rbind_cong [fundef_cong]:
  "m = m' \<Longrightarrow> (\<And>a. m' = Inr a \<Longrightarrow> f a = f' a) \<Longrightarrow> rbind m f = rbind m' f'"
  by (cases m') auto

lemma rbind_Inr_iff [res_simps]:
  "rbind m f = Inr b \<longleftrightarrow> (\<exists>a. m = Inr a \<and> f a = Inr b)"
  by (cases m) auto

lemma rbind_Inl_iff [res_simps]:
  "rbind m f = Inl e \<longleftrightarrow> m = Inl e \<or> (\<exists>a. m = Inr a \<and> f a = Inl e)"
  by (cases m) auto

lemma if_Inl_else_Inr_iff [res_simps]:
  "(if c then Inl e else m) = Inr x \<longleftrightarrow> \<not> c \<and> m = Inr x"
  by auto

text \<open>Loops over a vector whose body may raise: the first error ends the loop.\<close>

fun fold_res :: "('a \<Rightarrow> 's \<Rightarrow> 's result) \<Rightarrow> 'a list \<Rightarrow> 's \<Rightarrow> 's result" where
  "fold_res f [] s = Inr s"
| "fold_res f (x # xs) s = rbind (f x s) (fold_res f xs)"

lemma fold_res_append:
  "fold_res f (xs @ ys) s = rbind (fold_res f xs s) (fold_res f ys)"
proof (induction xs arbitrary: s)
  case Nil
  then show ?case by simp
next
  case (Cons x xs)
  then show ?case by (cases "f x s") auto
qed

lemma fold_res_invariant:
  assumes "fold_res f xs s = Inr t" and "P s"
    and "\<And>x a b. x \<in> set xs \<Longrightarrow> P a \<Longrightarrow> f x a = Inr b \<Longrightarrow> P b"
  shows "P t"
  using assms
proof (induction xs arbitrary: s)
  case Nil
  then show ?case by simp
next
  case (Cons x xs)
  then obtain a where "f x s = Inr a" and "fold_res f xs a = Inr t"
    by (auto simp: res_simps)
  with Cons show ?case by (metis list.set_intros)
qed

section \<open>Power-of-two masks\<close>

text \<open>The macro test \<^verbatim>\<open>v >= 2 && (v & (v - 1)) == 0\<close> of the code, on naturals.\<close>

definition is_pow2 :: "nat \<Rightarrow> bool" where
  "is_pow2 n \<longleftrightarrow> (\<exists>k. n = 2 ^ k)"

lemma is_pow2_pos [simp]: "is_pow2 n \<Longrightarrow> 0 < n"
  by (auto simp: is_pow2_def)

lemma is_pow2_power [simp, intro]: "is_pow2 (2 ^ k)"
  by (auto simp: is_pow2_def)

lemma is_pow2_1 [simp]: "is_pow2 (Suc 0)"
  by (auto simp: is_pow2_def intro: exI [of _ 0])

lemma is_pow2_double [intro]: "is_pow2 n \<Longrightarrow> is_pow2 (2 * n)"
  by (auto simp: is_pow2_def intro: exI [of _ "Suc _"])

lemma nat_and_mask: "n AND (2 ^ k - 1) = n mod 2 ^ k" for n :: nat
proof -
  have "n AND mask k = take_bit k n"
    by (simp add: take_bit_eq_mask)
  then show ?thesis by (simp add: mask_eq_exp_minus_1 take_bit_eq_mod)
qed

lemma nat_and_pow2_mask: "is_pow2 c \<Longrightarrow> n AND (c - 1) = n mod c" for n :: nat
  using nat_and_mask by (auto simp: is_pow2_def)

text \<open>
  The same on machine words: indexing by \<^verbatim>\<open>w & (c - 1)\<close> with a power of two \<^verbatim>\<open>c\<close> is the
  remainder, so the slot is always inside the table.
\<close>

lemma unat_and_pow2_mask:
  fixes w c :: "'a::len word"
  assumes "is_pow2 (unat c)"
  shows "unat (w AND (c - 1)) = unat w mod unat c"
proof -
  from assms have "0 < unat c" by simp
  then have "c \<noteq> 0" by auto
  then have "unat (c - 1) = unat c - 1"
    by (simp add: unat_minus_one)
  then show ?thesis
    using nat_and_pow2_mask [OF assms, of "unat w"] by (simp add: unsigned_and_eq)
qed

lemma coprime_odd_pow2: "odd s \<Longrightarrow> is_pow2 c \<Longrightarrow> coprime s c" for s :: nat
  by (auto simp: is_pow2_def)

section \<open>Probe sequences\<close>

text \<open>
  A probe walks \<^verbatim>\<open>slot = (slot + step) mod capacity\<close>. With a step coprime to the capacity the
  first \<^verbatim>\<open>capacity\<close> positions are all different, so they are all positions: a full scan of
  the table.
\<close>

definition probe_pos :: "nat \<Rightarrow> nat \<Rightarrow> nat \<Rightarrow> nat \<Rightarrow> nat" where
  "probe_pos cap start step i = (start + i * step) mod cap"

lemma probe_pos_less [simp]: "0 < cap \<Longrightarrow> probe_pos cap start step i < cap"
  by (simp add: probe_pos_def)

lemma probe_pos_Suc:
  "(probe_pos cap start step i + step) mod cap = probe_pos cap start step (Suc i)"
  by (simp add: probe_pos_def mod_simps algebra_simps)

lemma probe_pos_inj:
  assumes "coprime step cap" and "0 < cap"
  shows "inj_on (probe_pos cap start step) {..<cap}"
proof (rule linorder_inj_onI)
  fix i j
  assume "i < j" and "i \<in> {..<cap}" "j \<in> {..<cap}"
  show "probe_pos cap start step i \<noteq> probe_pos cap start step j"
  proof
    assume "probe_pos cap start step i = probe_pos cap start step j"
    then have "cap dvd (start + j * step) - (start + i * step)"
      using \<open>i < j\<close> unfolding probe_pos_def
      by (metis mod_eq_dvd_iff_nat add_le_cancel_left less_imp_le mult_le_mono1)
    then have "cap dvd (j - i) * step"
      by (simp add: diff_mult_distrib)
    then have "cap dvd j - i"
      using assms by (simp add: coprime_commute coprime_dvd_mult_left_iff)
    then show False
      using \<open>i < j\<close> \<open>j \<in> {..<cap}\<close> by (auto dest: dvd_imp_le)
  qed
qed auto

lemma probe_pos_surj:
  assumes "coprime step cap" and "0 < cap" and "s < cap"
  shows "\<exists>i<cap. probe_pos cap start step i = s"
proof -
  have "probe_pos cap start step ` {..<cap} = {..<cap}"
    using probe_pos_inj [OF assms(1,2)] assms(2)
    by (intro endo_inj_surj) auto
  with assms(3) have "s \<in> probe_pos cap start step ` {..<cap}" by simp
  then show ?thesis by auto
qed

section \<open>Lists\<close>

lemma nth_list_update_if:
  "j < length xs \<Longrightarrow> xs[i := x] ! j = (if i = j then x else xs ! j)"
  by (cases "i < length xs") (auto simp: nth_list_update)

lemma all_set_list_update:
  "\<forall>x\<in>set xs. P x \<Longrightarrow> P y \<Longrightarrow> \<forall>x\<in>set (xs[i := y]). P x"
  using set_update_subset_insert [of xs i y] by blast

lemma concat_map_filter_singleton:
  "concat (map (\<lambda>x. if P x then [x] else []) xs) = filter P xs"
  by (induction xs) auto

end
