(* ===== verification/TupleLayout.thy ===== *)
theory TupleLayout
  imports Prelude
begin

text \<open>
  The row layout of the tuple data collections: pipeline/tuple_data_layout.hpp and
  tuple_data_layout.cpp. A layout lists the group columns, then the aggregate states, with their
  byte offset and width in the row. Fixed-size C arrays with a live count are the list of their
  live prefix; the count field of the struct is the length of that list. Offsets and widths are
  \<^verbatim>\<open>uint16_t\<close>, so every sum is taken on 16-bit words and the lemmas show that the caps of the
  code keep it from wrapping.
\<close>

section \<open>Data\<close>

datatype tdc_column_kind = INT32 | INT64 | DOUBLE | STRING_REF

datatype tdc_agg_kind =
    SUM_INT64 | COUNT_STAR | COUNT_NONNULL | COUNT_DISTINCT_NONNULL | SUM_NUMERIC
  | AVG_NUMERIC | MIN_INT64 | MIN_NUMERIC | MAX_INT64 | MAX_NUMERIC

record tdc_column_desc =
  col_kind :: tdc_column_kind
  col_offset :: u16
  col_width :: u16
  col_src_col_idx :: u16
  col_numeric_scale :: u16
  col_pg_type_oid :: u32

record tdc_aggregate_desc =
  agg_kind :: tdc_agg_kind
  agg_offset :: u16
  agg_width :: u16
  agg_src_col_idx :: u16
  agg_numeric_scale :: u16
  agg_pg_agg_oid :: u32

record tuple_data_layout =
  columns :: "tdc_column_desc list"
  aggregates :: "tdc_aggregate_desc list"
  layout_row_width :: u16
  validity_width :: u16

definition TUPLE_DATA_MAX_COLUMNS :: nat where
  "TUPLE_DATA_MAX_COLUMNS = 32"

definition column_count :: "tuple_data_layout \<Rightarrow> nat" where
  "column_count l = length (columns l)"

definition aggregate_count :: "tuple_data_layout \<Rightarrow> nat" where
  "aggregate_count l = length (aggregates l)"

section \<open>Operations\<close>

text \<open>\<^verbatim>\<open>sizeof(VecStringRef)\<close> is 16: a 32-bit length, a 32-bit offset and a 64-bit prefix.\<close>

fun TupleDataLayoutColumnWidth :: "tdc_column_kind \<Rightarrow> u16" where
  "TupleDataLayoutColumnWidth INT32 = 4"
| "TupleDataLayoutColumnWidth INT64 = 8"
| "TupleDataLayoutColumnWidth DOUBLE = 8"
| "TupleDataLayoutColumnWidth STRING_REF = 16"

fun TupleDataLayoutAggregateWidth :: "tdc_agg_kind \<Rightarrow> u16" where
  "TupleDataLayoutAggregateWidth SUM_INT64 = 8"
| "TupleDataLayoutAggregateWidth COUNT_STAR = 8"
| "TupleDataLayoutAggregateWidth COUNT_NONNULL = 8"
| "TupleDataLayoutAggregateWidth COUNT_DISTINCT_NONNULL = 8"
| "TupleDataLayoutAggregateWidth SUM_NUMERIC = 8"
| "TupleDataLayoutAggregateWidth AVG_NUMERIC = 16"
| "TupleDataLayoutAggregateWidth MIN_INT64 = 8"
| "TupleDataLayoutAggregateWidth MIN_NUMERIC = 8"
| "TupleDataLayoutAggregateWidth MAX_INT64 = 8"
| "TupleDataLayoutAggregateWidth MAX_NUMERIC = 8"

definition TupleDataLayoutInit :: tuple_data_layout where
  "TupleDataLayoutInit =
     \<lparr>columns = [], aggregates = [], layout_row_width = 0, validity_width = 0\<rparr>"

text \<open>
  \<^verbatim>\<open>static_cast<uint16_t>((width + 7u) & ~7u)\<close>: the sum and the mask are 32-bit unsigned, the
  result is cut back to 16 bits.
\<close>

definition aligned_advance :: "u16 \<Rightarrow> u16" where
  "aligned_advance width = ucast ((ucast width + 7 :: u32) AND NOT 7)"

definition TupleDataLayoutAppendColumn ::
  "tuple_data_layout \<Rightarrow> tdc_column_kind \<Rightarrow> u16 \<Rightarrow> u32 \<Rightarrow> u16 \<Rightarrow> (tuple_data_layout \<times> nat) result" where
  "TupleDataLayoutAppendColumn l kind src oid scale =
     (if column_count l \<ge> TUPLE_DATA_MAX_COLUMNS then Inl (Elog ''TupleDataLayout column overflow'')
      else
        let idx = column_count l;
            width = TupleDataLayoutColumnWidth kind;
            col = \<lparr>col_kind = kind, col_offset = layout_row_width l, col_width = width,
                   col_src_col_idx = src, col_numeric_scale = scale, col_pg_type_oid = oid\<rparr>;
            advance = aligned_advance width
        in Inr (l\<lparr>columns := columns l @ [col], layout_row_width := layout_row_width l + advance\<rparr>, idx))"

definition TupleDataLayoutAppendAggregate ::
  "tuple_data_layout \<Rightarrow> tdc_agg_kind \<Rightarrow> u16 \<Rightarrow> u32 \<Rightarrow> u16 \<Rightarrow> (tuple_data_layout \<times> nat) result" where
  "TupleDataLayoutAppendAggregate l kind src oid scale =
     (if aggregate_count l \<ge> TUPLE_DATA_MAX_COLUMNS then Inl (Elog ''TupleDataLayout aggregate overflow'')
      else
        let idx = aggregate_count l;
            width = TupleDataLayoutAggregateWidth kind;
            advance = aligned_advance width;
            agg = \<lparr>agg_kind = kind, agg_offset = layout_row_width l, agg_width = width,
                   agg_src_col_idx = src, agg_numeric_scale = scale, agg_pg_agg_oid = oid\<rparr>
        in Inr (l\<lparr>aggregates := aggregates l @ [agg], layout_row_width := layout_row_width l + advance\<rparr>, idx))"

definition TupleDataLayoutSeal :: "tuple_data_layout \<Rightarrow> tuple_data_layout" where
  "TupleDataLayoutSeal l =
     (let rem = layout_row_width l mod 8
      in if rem \<noteq> 0 then l\<lparr>layout_row_width := layout_row_width l + (8 - rem)\<rparr> else l)"

text \<open>
  A builder calls the append operations in some order and then seals: the requests as data, so that
  statements about every layout the code can build are statements about request lists.
\<close>

datatype layout_request =
    ReqColumn tdc_column_kind u16 u32 u16
  | ReqAggregate tdc_agg_kind u16 u32 u16

fun apply_request :: "layout_request \<Rightarrow> tuple_data_layout \<Rightarrow> tuple_data_layout result" where
  "apply_request (ReqColumn k src oid sc) l =
     rbind (TupleDataLayoutAppendColumn l k src oid sc) (\<lambda>(l', _). Inr l')"
| "apply_request (ReqAggregate k src oid sc) l =
     rbind (TupleDataLayoutAppendAggregate l k src oid sc) (\<lambda>(l', _). Inr l')"

definition build_layout :: "layout_request list \<Rightarrow> tuple_data_layout result" where
  "build_layout reqs =
     rbind (fold_res apply_request reqs TupleDataLayoutInit) (\<lambda>l. Inr (TupleDataLayoutSeal l))"

section \<open>The fields of a row\<close>

text \<open>
  Every field of a row as (offset, width) in bytes: the columns, then the aggregate states.
\<close>

definition row_fields :: "tuple_data_layout \<Rightarrow> (nat \<times> nat) list" where
  "row_fields l =
     map (\<lambda>c. (unat (col_offset c), unat (col_width c))) (columns l) @
     map (\<lambda>a. (unat (agg_offset a), unat (agg_width a))) (aggregates l)"

text \<open>The byte ranges of two fields do not meet.\<close>

definition apart :: "nat \<times> nat \<Rightarrow> nat \<times> nat \<Rightarrow> bool" where
  "apart f g \<longleftrightarrow> fst f + snd f \<le> fst g \<or> fst g + snd g \<le> fst f"

text \<open>
  The layout invariant: the kinds give the widths, fields are 8-aligned, inside the row and pairwise
  apart, and the row is at most 16 bytes per field.
\<close>

definition layout_ok :: "tuple_data_layout \<Rightarrow> bool" where
  "layout_ok l \<longleftrightarrow>
     (\<forall>c\<in>set (columns l). col_width c = TupleDataLayoutColumnWidth (col_kind c)) \<and>
     (\<forall>a\<in>set (aggregates l). agg_width a = TupleDataLayoutAggregateWidth (agg_kind a)) \<and>
     (\<forall>f\<in>set (row_fields l). 8 dvd fst f \<and> fst f + snd f \<le> unat (layout_row_width l)) \<and>
     pairwise apart (set (row_fields l)) \<and> distinct (row_fields l) \<and>
     8 dvd unat (layout_row_width l) \<and>
     length (columns l) \<le> 32 \<and> length (aggregates l) \<le> 32 \<and>
     unat (layout_row_width l) \<le> 16 * (length (columns l) + length (aggregates l))"

lemma advance_column [layout_simps]:
  "unat (aligned_advance (TupleDataLayoutColumnWidth k)) = (if k = STRING_REF then 16 else 8)"
  by (cases k) (simp_all add: aligned_advance_def)

lemma advance_aggregate [layout_simps]:
  "unat (aligned_advance (TupleDataLayoutAggregateWidth k)) = (if k = AVG_NUMERIC then 16 else 8)"
  by (cases k) (simp_all add: aligned_advance_def)

lemma unat_column_width [layout_simps]:
  "unat (TupleDataLayoutColumnWidth k) =
     (case k of INT32 \<Rightarrow> 4 | INT64 \<Rightarrow> 8 | DOUBLE \<Rightarrow> 8 | STRING_REF \<Rightarrow> 16)"
  by (cases k) simp_all

lemma unat_aggregate_width [layout_simps]:
  "unat (TupleDataLayoutAggregateWidth k) = (if k = AVG_NUMERIC then 16 else 8)"
  by (cases k) simp_all

text \<open>Adding at most 16 to a row of at most 64 fields cannot wrap.\<close>

lemma row_width_add:
  assumes "unat w \<le> 1008" and "unat (a :: u16) \<le> 16"
  shows "unat (w + a) = unat w + unat a"
  using assms by (simp add: unat_word_ariths)

lemma layout_ok_Init: "layout_ok TupleDataLayoutInit"
  by (simp add: layout_ok_def TupleDataLayoutInit_def row_fields_def)

text \<open>
  Both append operations put a field at the old end of the row and move the end past it; the
  common step of the two preservation proofs.
\<close>

lemma fields_extend:
  assumes ok: "\<forall>f\<in>set fs. 8 dvd fst f \<and> fst f + snd f \<le> w" "pairwise apart (set fs)" "distinct fs"
    and w: "8 dvd w" "8 dvd a" and d: "0 < d" "d \<le> a"
  shows "\<forall>f\<in>insert (w, d) (set fs). 8 dvd fst f \<and> fst f + snd f \<le> w + a"
    and "pairwise apart (insert (w, d) (set fs))" and "(w, d) \<notin> set fs"
proof -
  show "\<forall>f\<in>insert (w, d) (set fs). 8 dvd fst f \<and> fst f + snd f \<le> w + a"
    using ok(1) w d by force
  show "pairwise apart (insert (w, d) (set fs))"
    using ok(1,2) by (fastforce simp: pairwise_insert apart_def)
  show "(w, d) \<notin> set fs" using ok(1) d by force
qed

text \<open>The invariant read at single fields.\<close>

lemma layout_ok_column:
  assumes "layout_ok l" "c \<in> set (columns l)"
  shows "unat (col_offset c) + unat (col_width c) \<le> unat (layout_row_width l)"
    and "col_width c = TupleDataLayoutColumnWidth (col_kind c)" and "8 dvd unat (col_offset c)"
proof -
  have "(unat (col_offset c), unat (col_width c)) \<in> set (row_fields l)"
    using assms(2) by (auto simp: row_fields_def)
  with assms show "unat (col_offset c) + unat (col_width c) \<le> unat (layout_row_width l)"
    "col_width c = TupleDataLayoutColumnWidth (col_kind c)" "8 dvd unat (col_offset c)"
    unfolding layout_ok_def by force+
qed

lemma layout_ok_aggregate:
  assumes "layout_ok l" "a \<in> set (aggregates l)"
  shows "unat (agg_offset a) + unat (agg_width a) \<le> unat (layout_row_width l)"
    and "agg_width a = TupleDataLayoutAggregateWidth (agg_kind a)" and "8 dvd unat (agg_offset a)"
proof -
  have "(unat (agg_offset a), unat (agg_width a)) \<in> set (row_fields l)"
    using assms(2) by (auto simp: row_fields_def)
  with assms show "unat (agg_offset a) + unat (agg_width a) \<le> unat (layout_row_width l)"
    "agg_width a = TupleDataLayoutAggregateWidth (agg_kind a)" "8 dvd unat (agg_offset a)"
    unfolding layout_ok_def by force+
qed

lemma AppendColumn_ok:
  assumes "layout_ok l" and "TupleDataLayoutAppendColumn l k src oid sc = Inr (l', idx)"
  shows "layout_ok l'"
proof -
  define a where "a = aligned_advance (TupleDataLayoutColumnWidth k)"
  have len: "length (columns l) < 32"
    and l': "l' = l\<lparr>columns := columns l @ [\<lparr>col_kind = k, col_offset = layout_row_width l,
        col_width = TupleDataLayoutColumnWidth k, col_src_col_idx = src, col_numeric_scale = sc,
        col_pg_type_oid = oid\<rparr>], layout_row_width := layout_row_width l + a\<rparr>"
    using assms(2) by (auto simp: TupleDataLayoutAppendColumn_def column_count_def
        TUPLE_DATA_MAX_COLUMNS_def Let_def a_def split: if_splits)
  have a: "unat a = (if k = STRING_REF then 16 else 8)" by (simp add: a_def layout_simps)
  have w: "unat (layout_row_width l + a) = unat (layout_row_width l) + unat a"
    using assms(1) len a by (intro row_width_add) (auto simp: layout_ok_def)
  define d where "d = unat (TupleDataLayoutColumnWidth k)"
  have "8 dvd unat a" "0 < d" "d \<le> unat a"
    by (auto simp: a d_def layout_simps split: tdc_column_kind.splits)
  moreover have "set (row_fields l') = insert (unat (layout_row_width l), d) (set (row_fields l))"
    and "distinct (row_fields l') \<longleftrightarrow> (unat (layout_row_width l), d) \<notin> set (row_fields l) \<and> distinct (row_fields l)"
    by (auto simp: l' row_fields_def d_def)
  ultimately show ?thesis
    using assms(1) len fields_extend [of "row_fields l" "unat (layout_row_width l)" "unat a" d]
    by (auto simp: layout_ok_def l' w a)
qed

lemma AppendAggregate_ok:
  assumes "layout_ok l" and "TupleDataLayoutAppendAggregate l k src oid sc = Inr (l', idx)"
  shows "layout_ok l'"
proof -
  define a where "a = aligned_advance (TupleDataLayoutAggregateWidth k)"
  have len: "length (aggregates l) < 32"
    and l': "l' = l\<lparr>aggregates := aggregates l @ [\<lparr>agg_kind = k, agg_offset = layout_row_width l,
        agg_width = TupleDataLayoutAggregateWidth k, agg_src_col_idx = src, agg_numeric_scale = sc,
        agg_pg_agg_oid = oid\<rparr>], layout_row_width := layout_row_width l + a\<rparr>"
    using assms(2) by (auto simp: TupleDataLayoutAppendAggregate_def aggregate_count_def
        TUPLE_DATA_MAX_COLUMNS_def Let_def a_def split: if_splits)
  have a: "unat a = (if k = AVG_NUMERIC then 16 else 8)" by (simp add: a_def layout_simps)
  have w: "unat (layout_row_width l + a) = unat (layout_row_width l) + unat a"
    using assms(1) len a by (intro row_width_add) (auto simp: layout_ok_def)
  define d where "d = unat (TupleDataLayoutAggregateWidth k)"
  have "8 dvd unat a" "0 < d" "d \<le> unat a"
    by (auto simp: a d_def layout_simps)
  moreover have "set (row_fields l') = insert (unat (layout_row_width l), d) (set (row_fields l))"
    and "distinct (row_fields l') \<longleftrightarrow> (unat (layout_row_width l), d) \<notin> set (row_fields l) \<and> distinct (row_fields l)"
    by (auto simp: l' row_fields_def d_def)
  ultimately show ?thesis
    using assms(1) len fields_extend [of "row_fields l" "unat (layout_row_width l)" "unat a" d]
    by (auto simp: layout_ok_def l' w a)
qed

lemma Seal_noop: "layout_ok l \<Longrightarrow> TupleDataLayoutSeal l = l"
  by (auto simp: TupleDataLayoutSeal_def layout_ok_def Let_def word_unat_eq_iff unat_mod)

lemma apply_request_ok:
  assumes "layout_ok l" and "apply_request r l = Inr l'"
  shows "layout_ok l'"
  using assms
  by (cases r) (auto simp: res_simps intro: AppendColumn_ok AppendAggregate_ok)

section \<open>Every layout the code can build\<close>

fun column_requests :: "layout_request list \<Rightarrow> tdc_column_kind list" where
  "column_requests [] = []"
| "column_requests (ReqColumn k src oid sc # rs) = k # column_requests rs"
| "column_requests (ReqAggregate k src oid sc # rs) = column_requests rs"

fun aggregate_requests :: "layout_request list \<Rightarrow> tdc_agg_kind list" where
  "aggregate_requests [] = []"
| "aggregate_requests (ReqColumn k src oid sc # rs) = aggregate_requests rs"
| "aggregate_requests (ReqAggregate k src oid sc # rs) = k # aggregate_requests rs"

lemma AppendColumn_cases:
  "TupleDataLayoutAppendColumn l k src oid sc = Inr (l', idx) \<Longrightarrow>
   length (columns l) < 32 \<and> idx = length (columns l) \<and>
   map col_kind (columns l') = map col_kind (columns l) @ [k] \<and> aggregates l' = aggregates l"
  by (auto simp: TupleDataLayoutAppendColumn_def column_count_def TUPLE_DATA_MAX_COLUMNS_def
      Let_def split: if_splits)

lemma AppendAggregate_cases:
  "TupleDataLayoutAppendAggregate l k src oid sc = Inr (l', idx) \<Longrightarrow>
   length (aggregates l) < 32 \<and> idx = length (aggregates l) \<and>
   map agg_kind (aggregates l') = map agg_kind (aggregates l) @ [k] \<and> columns l' = columns l"
  by (auto simp: TupleDataLayoutAppendAggregate_def aggregate_count_def TUPLE_DATA_MAX_COLUMNS_def
      Let_def split: if_splits)

lemma AppendColumn_total:
  "(\<exists>r. TupleDataLayoutAppendColumn l k src oid sc = Inr r) \<longleftrightarrow> length (columns l) < 32"
  by (auto simp: TupleDataLayoutAppendColumn_def column_count_def TUPLE_DATA_MAX_COLUMNS_def Let_def)

lemma AppendAggregate_total:
  "(\<exists>r. TupleDataLayoutAppendAggregate l k src oid sc = Inr r) \<longleftrightarrow> length (aggregates l) < 32"
  by (auto simp: TupleDataLayoutAppendAggregate_def aggregate_count_def TUPLE_DATA_MAX_COLUMNS_def
      Let_def)

lemma requests_kinds:
  "fold_res apply_request reqs l = Inr l' \<Longrightarrow>
   map col_kind (columns l') = map col_kind (columns l) @ column_requests reqs \<and>
   map agg_kind (aggregates l') = map agg_kind (aggregates l) @ aggregate_requests reqs"
proof (induction reqs arbitrary: l)
  case Nil
  then show ?case by simp
next
  case (Cons r reqs)
  then obtain m where m: "apply_request r l = Inr m" "fold_res apply_request reqs m = Inr l'"
    by (auto simp: res_simps)
  show ?case
    using Cons.IH [OF m(2)] m(1)
    by (cases r) (auto simp: res_simps dest!: AppendColumn_cases AppendAggregate_cases)
qed

lemma column_request_ex:
  "(\<exists>m. apply_request (ReqColumn k src oid sc) l = Inr m \<and>
      Q (length (columns m)) (length (aggregates m))) \<longleftrightarrow>
   length (columns l) < 32 \<and> Q (Suc (length (columns l))) (length (aggregates l))"
  by (simp add: TupleDataLayoutAppendColumn_def column_count_def TUPLE_DATA_MAX_COLUMNS_def Let_def)

lemma aggregate_request_ex:
  "(\<exists>m. apply_request (ReqAggregate k src oid sc) l = Inr m \<and>
      Q (length (columns m)) (length (aggregates m))) \<longleftrightarrow>
   length (aggregates l) < 32 \<and> Q (length (columns l)) (Suc (length (aggregates l)))"
  by (simp add: TupleDataLayoutAppendAggregate_def aggregate_count_def TUPLE_DATA_MAX_COLUMNS_def
      Let_def)

definition within32 :: "nat \<Rightarrow> nat \<Rightarrow> bool" where
  "within32 requested present \<longleftrightarrow> requested = 0 \<or> present + requested \<le> 32"

lemma within32_Suc: "n < 32 \<and> within32 k (Suc n) \<longleftrightarrow> within32 (Suc k) n"
  by (auto simp: within32_def)

lemma requests_total:
  "(\<exists>l'. fold_res apply_request reqs l = Inr l') \<longleftrightarrow>
   within32 (length (column_requests reqs)) (length (columns l)) \<and>
   within32 (length (aggregate_requests reqs)) (length (aggregates l))"
proof (induction reqs arbitrary: l)
  case Nil
  then show ?case by (simp add: within32_def)
next
  case (Cons r reqs)
  define Q where "Q = (\<lambda>c a. within32 (length (column_requests reqs)) c \<and>
    within32 (length (aggregate_requests reqs)) a)"
  have step: "(\<exists>l'. fold_res apply_request (r # reqs) l = Inr l') \<longleftrightarrow>
    (\<exists>m. apply_request r l = Inr m \<and> Q (length (columns m)) (length (aggregates m)))"
    unfolding Q_def Cons.IH [symmetric] by (auto simp: res_simps simp del: apply_request.simps)
  show ?case
  proof (cases r)
    case (ReqColumn k src oid sc)
    show ?thesis unfolding step unfolding ReqColumn column_request_ex
      by (auto simp: Q_def within32_Suc [symmetric])
  next
    case (ReqAggregate k src oid sc)
    show ?thesis unfolding step unfolding ReqAggregate aggregate_request_ex
      by (auto simp: Q_def within32_Suc [symmetric])
  qed
qed

lemma build_layout_ok: "build_layout reqs = Inr l \<Longrightarrow> layout_ok l"
  by (auto simp: build_layout_def res_simps Seal_noop
      dest!: fold_res_invariant [where P = layout_ok, OF _ layout_ok_Init apply_request_ok])

text \<open>In every layout the builder can produce the columns and aggregate states occupy pairwise
  disjoint, 8-aligned byte ranges inside the row, the row is at most 1024 bytes (no 16-bit offset
  wraps), and the descriptors are exactly the requested kinds in request order.\<close>

theorem build_layout_fields:
  assumes "build_layout reqs = Inr l"
  shows "pairwise apart (set (row_fields l)) \<and> distinct (row_fields l) \<and>
    (\<forall>f\<in>set (row_fields l). 8 dvd fst f \<and> fst f + snd f \<le> unat (layout_row_width l)) \<and>
    8 dvd unat (layout_row_width l) \<and> unat (layout_row_width l) \<le> 1024 \<and>
    map col_kind (columns l) = column_requests reqs \<and>
    map agg_kind (aggregates l) = aggregate_requests reqs"
proof -
  note ok = build_layout_ok [OF assms]
  obtain m where m: "fold_res apply_request reqs TupleDataLayoutInit = Inr m"
    and l: "l = TupleDataLayoutSeal m"
    using assms by (auto simp: build_layout_def res_simps)
  have "columns l = columns m" "aggregates l = aggregates m"
    by (simp_all add: l TupleDataLayoutSeal_def Let_def)
  then show ?thesis
    using ok requests_kinds [OF m] by (auto simp: layout_ok_def TupleDataLayoutInit_def)
qed

definition q1_requests :: "layout_request list" where
  "q1_requests = [ReqColumn STRING_REF 0 25 0, ReqColumn INT32 1 23 0, ReqAggregate AVG_NUMERIC 2 2103 2,
     ReqAggregate COUNT_STAR 0 2803 0]"

lemma aligned_advance_values:
  "aligned_advance 4 = 8" "aligned_advance 8 = 8" "aligned_advance 16 = 16"
  by (simp_all add: aligned_advance_def)

lemma Seal_48: "layout_row_width l = 48 \<Longrightarrow> TupleDataLayoutSeal l = l"
  by (simp add: TupleDataLayoutSeal_def word_unat_eq_iff unat_mod)

lemma q1_layout:
  "build_layout q1_requests = Inr
    \<lparr>columns = [\<lparr>col_kind = STRING_REF, col_offset = 0, col_width = 16, col_src_col_idx = 0,
                 col_numeric_scale = 0, col_pg_type_oid = 25\<rparr>,
                \<lparr>col_kind = INT32, col_offset = 16, col_width = 4, col_src_col_idx = 1,
                 col_numeric_scale = 0, col_pg_type_oid = 23\<rparr>],
     aggregates = [\<lparr>agg_kind = AVG_NUMERIC, agg_offset = 24, agg_width = 16, agg_src_col_idx = 2,
                    agg_numeric_scale = 2, agg_pg_agg_oid = 2103\<rparr>,
                   \<lparr>agg_kind = COUNT_STAR, agg_offset = 40, agg_width = 8, agg_src_col_idx = 0,
                    agg_numeric_scale = 0, agg_pg_agg_oid = 2803\<rparr>],
     layout_row_width = 48, validity_width = 0\<rparr>"
  by (simp add: q1_requests_def build_layout_def TupleDataLayoutInit_def TupleDataLayoutAppendColumn_def
      TupleDataLayoutAppendAggregate_def Let_def column_count_def aggregate_count_def
      TUPLE_DATA_MAX_COLUMNS_def aligned_advance_values Seal_48)

theorem build_layout_fields_witness:
  "\<exists>l. build_layout q1_requests = Inr l \<and> pairwise apart (set (row_fields l)) \<and>
    map agg_kind (aggregates l) = [AVG_NUMERIC, COUNT_STAR]"
  using build_layout_fields [OF q1_layout] q1_layout by (auto simp: q1_requests_def)

text \<open>Building a layout fails exactly when more than 32 columns or more than 32 aggregates are
  requested, in whatever order.\<close>

theorem build_layout_total:
  "(\<exists>l. build_layout reqs = Inr l) =
   (length (column_requests reqs) \<le> 32 \<and> length (aggregate_requests reqs) \<le> 32)"
  using requests_total [of reqs TupleDataLayoutInit]
  by (auto simp: build_layout_def res_simps TupleDataLayoutInit_def within32_def)

end
