(* ===== verification/Bytes.thy ===== *)
theory Bytes
  imports Prelude
begin

text \<open>
  Byte memory as the row store uses it: a row is a list of bytes and \<^verbatim>\<open>memcpy\<close> of a value
  reads or writes a range of them. Integers are stored little-endian, as on the platforms
  PostgreSQL runs the engine on; nothing the engine computes depends on that choice, because every
  range is written and read through the same width.
\<close>

section \<open>Little-endian integers\<close>

fun le_bytes :: "nat \<Rightarrow> nat \<Rightarrow> u8 list" where
  "le_bytes 0 n = []"
| "le_bytes (Suc k) n = word_of_nat n # le_bytes k (n div 256)"

fun le_nat :: "u8 list \<Rightarrow> nat" where
  "le_nat [] = 0"
| "le_nat (b # bs) = unat b + 256 * le_nat bs"

lemma length_le_bytes [simp]: "length (le_bytes k n) = k"
  by (induction k arbitrary: n) auto

lemma le_nat_le_bytes: "le_nat (le_bytes k n) = n mod 256 ^ k"
proof (induction k arbitrary: n)
  case 0
  then show ?case by simp
next
  case (Suc k)
  have "unat (word_of_nat n :: u8) = n mod 256"
    by (simp add: unat_of_nat)
  then show ?case
    by (simp add: Suc mod_mult2_eq)
qed

lemma le_nat_less: "le_nat bs < 256 ^ length bs"
proof (induction bs)
  case Nil
  then show ?case by simp
next
  case (Cons b bs)
  have "unat b < 256" using unat_less_u8 [of b] by simp
  with Cons show ?case by simp
qed

lemma le_bytes_le_nat: "le_bytes (length bs) (le_nat bs) = bs"
proof (induction bs)
  case Nil
  then show ?case by simp
next
  case (Cons b bs)
  have "unat b < 256" using unat_less_u8 [of b] by simp
  then have "(unat b + 256 * le_nat bs) div 256 = le_nat bs" by simp
  moreover have "(word_of_nat (unat b + 256 * le_nat bs) :: u8) = b"
  proof -
    have "(256 :: u8) = 0" by simp
    then have "(256 :: u8) * word_of_nat (le_nat bs) = 0" by (simp only: mult_zero_left)
    then show ?thesis by simp
  qed
  ultimately show ?case using Cons by simp
qed

section \<open>Ranges of a row\<close>

definition mem_read :: "nat \<Rightarrow> nat \<Rightarrow> u8 list \<Rightarrow> u8 list" where
  "mem_read off n row = take n (drop off row)"

definition mem_write :: "nat \<Rightarrow> u8 list \<Rightarrow> u8 list \<Rightarrow> u8 list" where
  "mem_write off bs row = take off row @ bs @ drop (off + length bs) row"

lemma length_mem_read [simp]: "off + n \<le> length row \<Longrightarrow> length (mem_read off n row) = n"
  by (simp add: mem_read_def)

lemma length_mem_write [simp]:
  "off + length bs \<le> length row \<Longrightarrow> length (mem_write off bs row) = length row"
  by (simp add: mem_write_def)

lemma mem_read_write [mem_simps]:
  "off + length bs \<le> length row \<Longrightarrow> n = length bs \<Longrightarrow> mem_read off n (mem_write off bs row) = bs"
  by (simp add: mem_read_def mem_write_def)

lemma nth_mem_write:
  assumes "off + length bs \<le> length row" and "i < length row"
  shows "mem_write off bs row ! i =
    (if off \<le> i \<and> i < off + length bs then bs ! (i - off) else row ! i)"
  using assms by (auto simp: mem_write_def nth_append min_def)

lemma mem_read_write_apart [mem_simps]:
  assumes "off + length bs \<le> length row" and "o2 + n \<le> off \<or> off + length bs \<le> o2"
    and "o2 + n \<le> length row"
  shows "mem_read o2 n (mem_write off bs row) = mem_read o2 n row"
  by (rule nth_equalityI) (use assms in \<open>auto simp: mem_read_def nth_mem_write\<close>)

lemma mem_write_read_same:
  "off + n \<le> length row \<Longrightarrow> mem_write off (mem_read off n row) row = row"
  by (simp add: mem_read_def mem_write_def min_def)
    (metis add.commute append_take_drop_id drop_drop)

lemma mem_write_write:
  "off + length bs \<le> length row \<Longrightarrow> length cs = length bs \<Longrightarrow>
   mem_write off cs (mem_write off bs row) = mem_write off cs row"
  by (simp add: mem_write_def)

section \<open>Integers in a row\<close>

definition get_u32 :: "nat \<Rightarrow> u8 list \<Rightarrow> u32" where
  "get_u32 off row = word_of_nat (le_nat (mem_read off 4 row))"

definition put_u32 :: "nat \<Rightarrow> u32 \<Rightarrow> u8 list \<Rightarrow> u8 list" where
  "put_u32 off v row = mem_write off (le_bytes 4 (unat v)) row"

definition get_u64 :: "nat \<Rightarrow> u8 list \<Rightarrow> u64" where
  "get_u64 off row = word_of_nat (le_nat (mem_read off 8 row))"

definition put_u64 :: "nat \<Rightarrow> u64 \<Rightarrow> u8 list \<Rightarrow> u8 list" where
  "put_u64 off v row = mem_write off (le_bytes 8 (unat v)) row"

lemma length_put_u32 [simp]: "off + 4 \<le> length row \<Longrightarrow> length (put_u32 off v row) = length row"
  by (simp add: put_u32_def)

lemma length_put_u64 [simp]: "off + 8 \<le> length row \<Longrightarrow> length (put_u64 off v row) = length row"
  by (simp add: put_u64_def)

lemma le_nat_unat_u32: "le_nat (le_bytes 4 (unat v)) = unat (v :: u32)"
  using unat_less_u32 [of v] by (simp add: le_nat_le_bytes)

lemma le_nat_unat_u64: "le_nat (le_bytes 8 (unat v)) = unat (v :: u64)"
  using unat_less_u64 [of v] by (simp add: le_nat_le_bytes)

lemma get_put_u32 [mem_simps]: "off + 4 \<le> length row \<Longrightarrow> get_u32 off (put_u32 off v row) = v"
  by (simp add: get_u32_def put_u32_def mem_read_write le_nat_unat_u32)

lemma get_put_u64 [mem_simps]: "off + 8 \<le> length row \<Longrightarrow> get_u64 off (put_u64 off v row) = v"
  by (simp add: get_u64_def put_u64_def mem_read_write le_nat_unat_u64)

lemma get_u64_write_apart [mem_simps]:
  assumes "off + length bs \<le> length row" "o2 + 8 \<le> length row" "o2 + 8 \<le> off \<or> off + length bs \<le> o2"
  shows "get_u64 o2 (mem_write off bs row) = get_u64 o2 row"
  using assms by (auto simp: get_u64_def mem_read_write_apart)

lemma get_u32_write_apart [mem_simps]:
  assumes "off + length bs \<le> length row" "o2 + 4 \<le> length row" "o2 + 4 \<le> off \<or> off + length bs \<le> o2"
  shows "get_u32 o2 (mem_write off bs row) = get_u32 o2 row"
  using assms by (auto simp: get_u32_def mem_read_write_apart)

lemma get_put_u64_apart [mem_simps]:
  assumes "off + 8 \<le> length row" "o2 + 8 \<le> length row" "o2 + 8 \<le> off \<or> off + 8 \<le> o2"
  shows "get_u64 o2 (put_u64 off v row) = get_u64 o2 row"
  using assms by (simp add: put_u64_def get_u64_write_apart)

lemma mem_read_put_u64_apart [mem_simps]:
  assumes "off + 8 \<le> length row" "o2 + n \<le> length row" "o2 + n \<le> off \<or> off + 8 \<le> o2"
  shows "mem_read o2 n (put_u64 off v row) = mem_read o2 n row"
  using assms by (simp add: put_u64_def mem_read_write_apart)

lemma put_u64_put_u64 [mem_simps]:
  "off + 8 \<le> length row \<Longrightarrow> put_u64 off b (put_u64 off a row) = put_u64 off b row"
  by (simp add: put_u64_def mem_write_write)

lemma put_get_u64: "off + 8 \<le> length row \<Longrightarrow> put_u64 off (get_u64 off row) row = row"
proof -
  assume len: "off + 8 \<le> length row"
  have "le_nat (mem_read off 8 row) < 2 ^ 64"
    using le_nat_less [of "mem_read off 8 row"] len by simp
  then have "unat (get_u64 off row) = le_nat (mem_read off 8 row)"
    by (simp add: get_u64_def unat_of_nat)
  then have "le_bytes 8 (unat (get_u64 off row)) = mem_read off 8 row"
    using le_bytes_le_nat [of "mem_read off 8 row"] len by simp
  then show ?thesis using len by (simp add: put_u64_def mem_write_read_same)
qed

lemma get_u32_eq_iff:
  assumes "off + 4 \<le> length r" "o2 + 4 \<le> length s"
  shows "get_u32 off r = get_u32 o2 s \<longleftrightarrow> mem_read off 4 r = mem_read o2 4 s"
proof
  assume eq: "get_u32 off r = get_u32 o2 s"
  have "le_nat (mem_read off 4 r) < 2 ^ 32" "le_nat (mem_read o2 4 s) < 2 ^ 32"
    using le_nat_less [of "mem_read off 4 r"] le_nat_less [of "mem_read o2 4 s"] assms by simp_all
  with eq have "le_nat (mem_read off 4 r) = le_nat (mem_read o2 4 s)"
    unfolding get_u32_def by (metis unat_of_nat_u32)
  then show "mem_read off 4 r = mem_read o2 4 s"
    by (metis assms le_bytes_le_nat length_mem_read)
qed (simp add: get_u32_def)

lemma get_u64_eq_iff:
  assumes "off + 8 \<le> length r" "o2 + 8 \<le> length s"
  shows "get_u64 off r = get_u64 o2 s \<longleftrightarrow> mem_read off 8 r = mem_read o2 8 s"
proof
  assume eq: "get_u64 off r = get_u64 o2 s"
  have "le_nat (mem_read off 8 r) < 2 ^ 64" "le_nat (mem_read o2 8 s) < 2 ^ 64"
    using le_nat_less [of "mem_read off 8 r"] le_nat_less [of "mem_read o2 8 s"] assms by simp_all
  with eq have "le_nat (mem_read off 8 r) = le_nat (mem_read o2 8 s)"
    unfolding get_u64_def by (metis unat_of_nat_u64)
  then show "mem_read off 8 r = mem_read o2 8 s"
    by (metis assms le_bytes_le_nat length_mem_read)
qed (simp add: get_u64_def)

end
