(* ===== verification/Chunk.thy ===== *)
theory Chunk
  imports Bytes
begin

text \<open>
  The columnar batch DataChunk of core/data_chunk.hpp: sixteen column slots per storage class, each
  either plain or dictionary-coded over another slot of its class, null flags, and the string arena
  that out-of-line strings point into. Doubles are kept as their 64-bit pattern: the code modelled
  here only copies and compares their bits.
\<close>

section \<open>String references\<close>

record vec_string_ref =
  ref_len :: u32
  ref_offset :: u32
  ref_prefix :: u64

definition kVecStringInlineOffset :: u32 where
  "kVecStringInlineOffset = 4294967295"

definition VecStringRefIsInline :: "vec_string_ref \<Rightarrow> bool" where
  "VecStringRefIsInline r \<longleftrightarrow>
     ref_len r > 0 \<and> ref_len r \<le> 8 \<and> ref_offset r = kVecStringInlineOffset"

text \<open>
  The pointer the code returns is modelled by the \<^verbatim>\<open>len\<close> bytes behind it; the null pointer by
  \<^verbatim>\<open>None\<close>. The arena is the bytes behind \<^verbatim>\<open>arena_base\<close>, \<^verbatim>\<open>None\<close> for a null base.
\<close>

definition VecStringRefDataPtr :: "vec_string_ref \<Rightarrow> u8 list option \<Rightarrow> u8 list option" where
  "VecStringRefDataPtr r arena =
     (if ref_len r = 0 then Some []
      else if VecStringRefIsInline r then Some (take (unat (ref_len r)) (le_bytes 8 (unat (ref_prefix r))))
      else case arena of None \<Rightarrow> None
           | Some base \<Rightarrow> Some (mem_read (unat (ref_offset r)) (unat (ref_len r)) base))"

text \<open>\<^verbatim>\<open>memcpy(&ref.prefix, data, len > 8 ? 8 : len)\<close> into a zeroed 64-bit field.\<close>

definition string_prefix :: "u8 list \<Rightarrow> u64" where
  "string_prefix data = word_of_nat (le_nat (take 8 data))"

lemma le_nat_append_zeros: "le_nat (bs @ replicate k 0) = le_nat bs"
  by (induction bs) (auto, induction k, auto)

lemma le_bytes_prefix:
  assumes "length data \<le> 8"
  shows "take (length data) (le_bytes 8 (unat (string_prefix data))) = data"
proof -
  let ?pad = "data @ replicate (8 - length data) 0"
  have "le_nat data < 2 ^ 64"
    using le_nat_less [of ?pad] assms by (simp add: le_nat_append_zeros)
  then have "unat (string_prefix data) = le_nat ?pad"
    using assms by (simp add: string_prefix_def unat_of_nat_u64 le_nat_append_zeros)
  then have "le_bytes 8 (unat (string_prefix data)) = ?pad"
    using le_bytes_le_nat [of ?pad] assms by simp
  then show ?thesis by simp
qed

section \<open>The chunk\<close>

definition N_SLOTS :: nat where
  "N_SLOTS = 16"

text \<open>One storage class: the cells by slot and row, and the dictionary coding of each slot.\<close>

record 'a column_class =
  cells :: "nat \<Rightarrow> nat \<Rightarrow> 'a"
  dict_active :: "nat \<Rightarrow> bool"
  dict_source :: "nat \<Rightarrow> nat"
  dict_indices :: "nat \<Rightarrow> nat \<Rightarrow> nat"

record data_chunk =
  chunk_count :: nat
  double_class :: "u64 column_class"
  int64_class :: "u64 column_class"
  int32_class :: "u32 column_class"
  string_class :: "vec_string_ref column_class"
  nulls :: "nat \<Rightarrow> nat \<Rightarrow> u8"
  string_arena :: "u8 list"

definition get_cell :: "'a column_class \<Rightarrow> nat \<Rightarrow> nat \<Rightarrow> 'a" where
  "get_cell cc slot row =
     (if dict_active cc slot then cells cc (dict_source cc slot) (dict_indices cc slot row)
      else cells cc slot row)"

definition get_int32 :: "data_chunk \<Rightarrow> nat \<Rightarrow> nat \<Rightarrow> u32" where
  "get_int32 ch = get_cell (int32_class ch)"

definition get_int64 :: "data_chunk \<Rightarrow> nat \<Rightarrow> nat \<Rightarrow> u64" where
  "get_int64 ch = get_cell (int64_class ch)"

definition get_double :: "data_chunk \<Rightarrow> nat \<Rightarrow> nat \<Rightarrow> u64" where
  "get_double ch = get_cell (double_class ch)"

definition get_string_ref :: "data_chunk \<Rightarrow> nat \<Rightarrow> nat \<Rightarrow> vec_string_ref" where
  "get_string_ref ch = get_cell (string_class ch)"

definition get_string_ptr :: "data_chunk \<Rightarrow> nat \<Rightarrow> nat \<Rightarrow> u8 list option" where
  "get_string_ptr ch slot row =
     VecStringRefDataPtr (get_string_ref ch slot row) (Some (string_arena ch))"

definition set_dictionary ::
  "nat \<Rightarrow> nat \<Rightarrow> (nat \<Rightarrow> nat) \<Rightarrow> nat \<Rightarrow> 'a column_class \<Rightarrow> 'a column_class" where
  "set_dictionary slot source indices logical_count cc =
     cc\<lparr>dict_active := (dict_active cc)(slot := True),
        dict_source := (dict_source cc)(slot := source),
        dict_indices := (dict_indices cc)(slot :=
          (\<lambda>i. if i < logical_count then indices i else dict_indices cc slot i))\<rparr>"

definition clear_dictionary :: "nat \<Rightarrow> 'a column_class \<Rightarrow> 'a column_class" where
  "clear_dictionary slot cc =
     cc\<lparr>dict_active := (dict_active cc)(slot := False), dict_source := (dict_source cc)(slot := 0)\<rparr>"

definition clear_dictionaries_class :: "'a column_class \<Rightarrow> 'a column_class" where
  "clear_dictionaries_class cc = fold clear_dictionary [0..<N_SLOTS] cc"

definition clear_dictionaries :: "data_chunk \<Rightarrow> data_chunk" where
  "clear_dictionaries ch =
     ch\<lparr>double_class := clear_dictionaries_class (double_class ch),
        int64_class := clear_dictionaries_class (int64_class ch),
        int32_class := clear_dictionaries_class (int32_class ch),
        string_class := clear_dictionaries_class (string_class ch)\<rparr>"

definition reset_lightweight :: "data_chunk \<Rightarrow> data_chunk" where
  "reset_lightweight ch =
     (clear_dictionaries (ch\<lparr>chunk_count := 0\<rparr>))\<lparr>string_arena := []\<rparr>"

definition chunk_reset :: "data_chunk \<Rightarrow> data_chunk" where
  "chunk_reset ch = (reset_lightweight ch)\<lparr>nulls := (\<lambda>slot row. 0)\<rparr>"

definition has_any_dictionary :: "data_chunk \<Rightarrow> bool" where
  "has_any_dictionary ch \<longleftrightarrow>
     list_ex (\<lambda>i. dict_active (double_class ch) i \<or> dict_active (int64_class ch) i \<or>
                  dict_active (int32_class ch) i \<or> dict_active (string_class ch) i) [0..<N_SLOTS]"

text \<open>
  One slot of \<^verbatim>\<open>flatten()\<close>: the logical values of the live rows are copied to a temporary
  array, written over the slot's own cells, and the dictionary is dropped.
\<close>

definition flatten_slot :: "nat \<Rightarrow> nat \<Rightarrow> 'a column_class \<Rightarrow> 'a column_class" where
  "flatten_slot cnt slot cc =
     (if dict_active cc slot then
        let tmp = get_cell cc slot
        in clear_dictionary slot
             (cc\<lparr>cells := (cells cc)(slot := (\<lambda>row. if row < cnt then tmp row else cells cc slot row))\<rparr>)
      else cc)"

definition flatten :: "data_chunk \<Rightarrow> data_chunk" where
  "flatten ch =
     fold (\<lambda>slot c. c\<lparr>int32_class := flatten_slot (chunk_count c) slot (int32_class c),
                      int64_class := flatten_slot (chunk_count c) slot (int64_class c),
                      double_class := flatten_slot (chunk_count c) slot (double_class c),
                      string_class := flatten_slot (chunk_count c) slot (string_class c)\<rparr>)
       [0..<N_SLOTS] ch"

definition store_string_bytes ::
  "u8 list option \<Rightarrow> u32 \<Rightarrow> data_chunk \<Rightarrow> (vec_string_ref \<times> data_chunk) result" where
  "store_string_bytes data len ch =
     (let ref = \<lparr>ref_len = len, ref_offset = 0, ref_prefix = 0\<rparr>
      in case data of
           None \<Rightarrow> Inr (ref, ch)
         | Some bytes \<Rightarrow>
             if len = 0 then Inr (ref, ch)
             else if len > 65536 then Inl (Elog ''suspicious string length'')
             else
               let ref' = ref\<lparr>ref_prefix := string_prefix (take (unat len) bytes)\<rparr>
               in if len \<le> 8 then Inr (ref'\<lparr>ref_offset := kVecStringInlineOffset\<rparr>, ch)
                  else Inr (ref'\<lparr>ref_offset := word_of_nat (length (string_arena ch))\<rparr>,
                            ch\<lparr>string_arena := string_arena ch @ take (unat len) bytes\<rparr>))"

section \<open>Flattening\<close>

text \<open>
  The loop overwrites slot by slot, so a slot may read another coded slot only if that one is
  flattened later.
\<close>

definition flattenable :: "'a column_class \<Rightarrow> bool" where
  "flattenable cc \<longleftrightarrow>
     list_all (\<lambda>s. dict_active cc s \<longrightarrow> dict_source cc s < s \<longrightarrow> \<not> dict_active cc (dict_source cc s))
       [0..<N_SLOTS]"

definition flatten_class :: "nat \<Rightarrow> 'a column_class \<Rightarrow> 'a column_class" where
  "flatten_class cnt cc = fold (flatten_slot cnt) [0..<N_SLOTS] cc"

lemma flatten_fold:
  "fold (\<lambda>slot c. c\<lparr>int32_class := flatten_slot (chunk_count c) slot (int32_class c),
                    int64_class := flatten_slot (chunk_count c) slot (int64_class c),
                    double_class := flatten_slot (chunk_count c) slot (double_class c),
                    string_class := flatten_slot (chunk_count c) slot (string_class c)\<rparr>) slots ch =
   ch\<lparr>int32_class := fold (flatten_slot (chunk_count ch)) slots (int32_class ch),
      int64_class := fold (flatten_slot (chunk_count ch)) slots (int64_class ch),
      double_class := fold (flatten_slot (chunk_count ch)) slots (double_class ch),
      string_class := fold (flatten_slot (chunk_count ch)) slots (string_class ch)\<rparr>"
  by (induction slots arbitrary: ch) auto

lemma flatten_classes:
  "flatten ch =
   ch\<lparr>int32_class := flatten_class (chunk_count ch) (int32_class ch),
      int64_class := flatten_class (chunk_count ch) (int64_class ch),
      double_class := flatten_class (chunk_count ch) (double_class ch),
      string_class := flatten_class (chunk_count ch) (string_class ch)\<rparr>"
  by (simp add: flatten_def flatten_class_def flatten_fold)

text \<open>The state after the first \<^verbatim>\<open>k\<close> slots, and one more round of the loop.\<close>

definition flattened :: "nat \<Rightarrow> nat \<Rightarrow> 'a column_class \<Rightarrow> 'a column_class \<Rightarrow> bool" where
  "flattened cnt k cc c \<longleftrightarrow>
     (\<forall>s. dict_active c s = (k \<le> s \<and> dict_active cc s)) \<and>
     (\<forall>s\<ge>k. dict_source c s = dict_source cc s) \<and>
     dict_indices c = dict_indices cc \<and>
     (\<forall>s. k \<le> s \<or> \<not> dict_active cc s \<longrightarrow> cells c s = cells cc s) \<and>
     (\<forall>s<k. \<forall>row<cnt. cells c s row = get_cell cc s row)"

lemma flattened_step:
  assumes fl: "flattenable cc" and k: "k < N_SLOTS" and c: "flattened cnt k cc c"
  shows "flattened cnt (Suc k) cc (flatten_slot cnt k c)"
proof (cases "dict_active cc k")
  case True
  then have src: "k \<le> dict_source cc k \<or> \<not> dict_active cc (dict_source cc k)"
    using fl k by (auto simp: flattenable_def list_all_iff)
  have act: "dict_active c k" using c True by (simp add: flattened_def)
  have "get_cell c k = get_cell cc k"
    using src c act True by (auto simp: get_cell_def flattened_def fun_eq_iff)
  then show ?thesis
    using c act True
    by (auto simp: flattened_def flatten_slot_def clear_dictionary_def Let_def less_Suc_eq)
next
  case False
  then have "\<not> dict_active c k" using c by (simp add: flattened_def)
  moreover have "cells c k = cells cc k" and "get_cell cc k = cells cc k"
    using c False by (simp_all add: flattened_def get_cell_def fun_eq_iff)
  ultimately show ?thesis
    using c False
    by (auto simp: flattened_def flatten_slot_def less_Suc_eq Suc_le_eq le_less)
qed

lemma flattened_prefix:
  assumes "flattenable cc" and "k \<le> N_SLOTS"
  shows "flattened cnt k cc (fold (flatten_slot cnt) [0..<k] cc)"
  using assms(2)
proof (induction k)
  case 0
  then show ?case by (simp add: flattened_def)
next
  case (Suc k)
  then show ?case using flattened_step [OF assms(1)] by simp
qed

lemma flatten_class_get:
  assumes "flattenable cc" and "slot < N_SLOTS" and "row < cnt"
  shows "get_cell (flatten_class cnt cc) slot row = get_cell cc slot row"
  using flattened_prefix [OF assms(1) order_refl, of cnt] assms(2,3)
  by (simp add: flatten_class_def get_cell_def [of "fold _ _ _"] flattened_def)

lemma flatten_class_plain:
  assumes "flattenable cc" and "slot < N_SLOTS"
  shows "\<not> dict_active (flatten_class cnt cc) slot"
  using flattened_prefix [OF assms(1) order_refl, of cnt] assms(2)
  by (simp add: flatten_class_def flattened_def)

section \<open>Strings\<close>

text \<open>Strings already stored stay readable when the arena grows.\<close>

lemma mem_read_append: "off + n \<le> length a \<Longrightarrow> mem_read off n (a @ b) = mem_read off n a"
  by (simp add: mem_read_def)

lemma mem_read_suffix: "mem_read (length a) (length b) (a @ b) = b"
  by (simp add: mem_read_def)

definition plain_class :: "'a \<Rightarrow> 'a column_class" where
  "plain_class v = \<lparr>cells = (\<lambda>_ _. v), dict_active = (\<lambda>_. False), dict_source = (\<lambda>_. 0),
     dict_indices = (\<lambda>_ _. 0)\<rparr>"

definition empty_chunk :: data_chunk where
  "empty_chunk = \<lparr>chunk_count = 0, double_class = plain_class 0, int64_class = plain_class 0,
     int32_class = plain_class 0,
     string_class = plain_class \<lparr>ref_len = 0, ref_offset = 0, ref_prefix = 0\<rparr>,
     nulls = (\<lambda>_ _. 0), string_arena = []\<rparr>"

text \<open>C38: A string of at most 65536 bytes stored in a chunk reads back byte for byte through its
  reference, and every out-of-line string stored before still reads back, since the arena only
  grows; a longer one is refused with an error.\<close>

theorem store_string_bytes_roundtrip:
  assumes "unat len = length bs" and "length (string_arena ch) + length bs < 2 ^ 32 - 1"
  shows "case store_string_bytes (Some bs) len ch of
      Inl e \<Rightarrow> 65536 < length bs
    | Inr (r, ch') \<Rightarrow> length bs \<le> 65536 \<and> ref_len r = len \<and>
        VecStringRefDataPtr r (Some (string_arena ch')) = Some bs \<and>
        (\<forall>off n. off + n \<le> length (string_arena ch) \<longrightarrow>
          mem_read off n (string_arena ch') = mem_read off n (string_arena ch))"
proof -
  have len: "len = 0 \<longleftrightarrow> bs = []" "len > 65536 \<longleftrightarrow> length bs > 65536" "len \<le> 8 \<longleftrightarrow> length bs \<le> 8"
    using assms(1) by (auto simp: unat_eq_0 word_less_nat_alt word_le_nat_alt)
  have off: "unat (word_of_nat (length (string_arena ch)) :: u32) = length (string_arena ch)"
    using assms(2) by (intro unat_of_nat_u32) simp
  have prefix: "length bs \<le> 8 \<Longrightarrow> take (length bs) (le_bytes 8 (unat (string_prefix bs))) = bs"
    by (rule le_bytes_prefix)
  show ?thesis
    using assms len off prefix
    by (auto simp: store_string_bytes_def Let_def VecStringRefDataPtr_def VecStringRefIsInline_def
        mem_read_append mem_read_suffix word_gt_0)
qed

theorem store_string_bytes_roundtrip_witness:
  "\<exists>r ch'. store_string_bytes (Some [72, 101, 108, 108, 111, 32, 119, 111, 114, 108, 100]) 11
      empty_chunk = Inr (r, ch') \<and>
    VecStringRefDataPtr r (Some (string_arena ch')) =
      Some [72, 101, 108, 108, 111, 32, 119, 111, 114, 108, 100]"
  using store_string_bytes_roundtrip [of 11 "[72, 101, 108, 108, 111, 32, 119, 111, 114, 108, 100]"
      empty_chunk]
  by (auto simp: empty_chunk_def split: sum.splits)

text \<open>C39: Flattening a chunk in which no dictionary refers to a lower-numbered dictionary slot keeps
  every logical value of the live rows in all four storage classes, and leaves no dictionary.\<close>

theorem flatten_keeps_values:
  assumes "flattenable (int32_class ch)" "flattenable (int64_class ch)"
    "flattenable (double_class ch)" "flattenable (string_class ch)"
  shows "(slot < N_SLOTS \<and> row < chunk_count ch \<longrightarrow>
      get_int32 (flatten ch) slot row = get_int32 ch slot row \<and>
      get_int64 (flatten ch) slot row = get_int64 ch slot row \<and>
      get_double (flatten ch) slot row = get_double ch slot row \<and>
      get_string_ptr (flatten ch) slot row = get_string_ptr ch slot row) \<and>
    \<not> has_any_dictionary (flatten ch) \<and> chunk_count (flatten ch) = chunk_count ch"
  using assms
  by (auto simp: flatten_class_plain flatten_class_get flatten_classes get_int32_def get_int64_def get_double_def get_string_ptr_def
      get_string_ref_def has_any_dictionary_def list_ex_iff)

definition coded_chunk :: data_chunk where
  "coded_chunk = empty_chunk\<lparr>chunk_count := 2, int32_class := set_dictionary 1 0 (\<lambda>i. 1 - i) 2
     (plain_class 0\<lparr>cells := (\<lambda>slot row. of_nat (10 * slot + row))\<rparr>)\<rparr>"

theorem flatten_keeps_values_witness:
  "get_int32 (flatten coded_chunk) 1 0 = 1 \<and> get_int32 (flatten coded_chunk) 1 1 = 0 \<and>
   \<not> has_any_dictionary (flatten coded_chunk)"
proof -
  have "flattenable (plain_class v)" for v :: 'a
    by (simp add: flattenable_def plain_class_def list_all_iff)
  moreover have "flattenable (int32_class coded_chunk)"
    by (simp add: flattenable_def coded_chunk_def empty_chunk_def set_dictionary_def plain_class_def
        list_all_iff)
  ultimately show ?thesis
    using flatten_keeps_values [of coded_chunk 1 0] flatten_keeps_values [of coded_chunk 1 1]
    by (simp add: coded_chunk_def empty_chunk_def N_SLOTS_def get_int32_def get_cell_def
        set_dictionary_def flattenable_def plain_class_def list_all_iff)
qed

end
