(* ===== verification/TupleCollection.thy ===== *)
theory TupleCollection
  imports TupleLayout Chunk
begin

text \<open>
  The append-only row buffer of pipeline/tuple_data_collection.hpp and tuple_data_collection.cpp:
  a fixed number of fixed-width rows, a bump-allocated heap for long strings, and a cursor that
  parallel scanners share. The flat buffer is kept as the list of its rows; \<^verbatim>\<open>GetRow\<close> is
  indexing. The spinlock makes each operation that takes it one step. The offset of the row
  buffer in the struct depends on PostgreSQL's lock type, so it is the parameter \<^verbatim>\<open>hdr\<close>.
\<close>

record tuple_data_collection =
  tdc_row_width :: nat
  tdc_row_capacity :: nat
  tdc_row_count :: nat
  tdc_heap_capacity :: nat
  tdc_heap_used :: nat
  tdc_scan_cursor :: nat
  tdc_finalized :: bool
  tdc_rows :: "u8 list list"
  tdc_heap :: "u8 list"

definition TDC_INVALID_ROW_INDEX :: nat where
  "TDC_INVALID_ROW_INDEX = UINT32_MAX"

definition kTupleDataCollectionMaxFlatAllocBytes :: nat where
  "kTupleDataCollectionMaxFlatAllocBytes = 3 * 1024 * 1024 * 1024"

section \<open>Sizes\<close>

definition TupleDataCollectionRowBytes :: "nat \<Rightarrow> nat \<Rightarrow> nat" where
  "TupleDataCollectionRowBytes row_capacity row_width = wrap64 (row_capacity * row_width)"

definition TupleDataCollectionAllocSize :: "nat \<Rightarrow> nat \<Rightarrow> nat \<Rightarrow> nat \<Rightarrow> nat" where
  "TupleDataCollectionAllocSize hdr row_capacity row_width heap_capacity =
     wrap64 (hdr + TupleDataCollectionRowBytes row_capacity row_width + heap_capacity)"

definition TupleDataCollectionDefaultHeapCapacity :: "tuple_data_layout option \<Rightarrow> nat \<Rightarrow> nat" where
  "TupleDataCollectionDefaultHeapCapacity layout row_capacity =
     (case layout of None \<Rightarrow> 0
      | Some l \<Rightarrow>
          let string_columns = length (filter (\<lambda>c. col_kind c = STRING_REF) (columns l))
          in if string_columns = 0 then 0
             else let bytes = wrap64 (row_capacity * string_columns * 96)
                  in if bytes > UINT32_MAX then UINT32_MAX else bytes)"

definition TupleDataCollectionCheckFlatAllocSize :: "nat \<Rightarrow> nat \<Rightarrow> nat \<Rightarrow> nat \<Rightarrow> unit result" where
  "TupleDataCollectionCheckFlatAllocSize hdr row_capacity row_width heap_capacity =
     (let alloc_size = wrap64 (hdr + row_capacity * row_width + heap_capacity)
      in if alloc_size \<ge> kTupleDataCollectionMaxFlatAllocBytes
         then Inl (Elog ''TDC flat allocation exceeds limit'') else Inr ())"

definition TupleDataCollectionCheckedAllocSize :: "nat \<Rightarrow> nat \<Rightarrow> nat \<Rightarrow> nat \<Rightarrow> nat result" where
  "TupleDataCollectionCheckedAllocSize hdr row_capacity row_width heap_capacity =
     rbind (TupleDataCollectionCheckFlatAllocSize hdr row_capacity row_width heap_capacity)
       (\<lambda>_. Inr (TupleDataCollectionAllocSize hdr row_capacity row_width heap_capacity))"

definition TupleDataCollectionGrowHeapCapacity ::
  "nat \<Rightarrow> tuple_data_layout option \<Rightarrow> tuple_data_collection \<Rightarrow> nat \<Rightarrow> nat \<Rightarrow> nat result" where
  "TupleDataCollectionGrowHeapCapacity hdr layout old_tdc new_row_capacity required_heap_bytes =
     (if layout = None \<or> tdc_heap_capacity old_tdc = 0 then
        let heap_capacity = TupleDataCollectionDefaultHeapCapacity layout new_row_capacity
        in rbind (TupleDataCollectionCheckFlatAllocSize hdr new_row_capacity
                    (tdc_row_width old_tdc) heap_capacity) (\<lambda>_. Inr heap_capacity)
      else
        let min_required = wrap64 (tdc_heap_used old_tdc + required_heap_bytes);
            grown = wrap64 (tdc_heap_capacity old_tdc +
                      max (tdc_heap_capacity old_tdc div 2) (1024 * 1024));
            next_capacity = (if grown < min_required then min_required else grown);
            row_bytes = TupleDataCollectionRowBytes new_row_capacity (tdc_row_width old_tdc)
        in if wrap64 (row_bytes + hdr) \<ge> kTupleDataCollectionMaxFlatAllocBytes
           then Inl (Elog ''TDC row buffer exceeds flat allocation limit'')
           else
             let max_heap_capacity =
                   sub64 (sub64 kTupleDataCollectionMaxFlatAllocBytes row_bytes) hdr
             in if min_required > max_heap_capacity
                then Inl (Elog ''TDC string heap exceeds flat allocation limit'')
                else
                  let capped = (if next_capacity > max_heap_capacity then max_heap_capacity
                                else next_capacity)
                  in Inr (if capped > UINT32_MAX then UINT32_MAX else capped))"

definition TupleDataCollectionClampRowCapacity ::
  "nat \<Rightarrow> nat \<Rightarrow> nat \<Rightarrow> nat \<Rightarrow> nat \<Rightarrow> nat result" where
  "TupleDataCollectionClampRowCapacity hdr proposed row_width required_heap_bytes minimum =
     (if row_width = 0 then Inl (Elog ''TDC clamp received zero row width'')
      else if required_heap_bytes \<ge> kTupleDataCollectionMaxFlatAllocBytes
      then Inl (Elog ''TDC required heap exceeds flat allocation limit'')
      else
        let max_row_bytes =
              sub64 (sub64 kTupleDataCollectionMaxFlatAllocBytes hdr) required_heap_bytes;
            max_rows = max_row_bytes div row_width
        in if max_rows < minimum
           then Inl (Elog ''TDC row buffer exceeds flat allocation limit'')
           else Inr (if proposed > max_rows then wrap32 max_rows else proposed))"

section \<open>Initialisation and rows\<close>

text \<open>\<^verbatim>\<open>dsa_allocate0\<close> hands out zeroed memory; Init only fills in the header.\<close>

definition TupleDataCollectionInit :: "nat \<Rightarrow> nat \<Rightarrow> nat \<Rightarrow> tuple_data_collection" where
  "TupleDataCollectionInit row_capacity row_width heap_capacity =
     \<lparr>tdc_row_width = row_width, tdc_row_capacity = row_capacity, tdc_row_count = 0,
      tdc_heap_capacity = heap_capacity, tdc_heap_used = 0, tdc_scan_cursor = 0,
      tdc_finalized = False,
      tdc_rows = replicate row_capacity (replicate row_width 0),
      tdc_heap = replicate heap_capacity 0\<rparr>"

definition TupleDataCollectionGetRow :: "tuple_data_collection \<Rightarrow> nat \<Rightarrow> u8 list" where
  "TupleDataCollectionGetRow tdc row_idx = tdc_rows tdc ! row_idx"

text \<open>Writes through a row pointer.\<close>

definition set_row :: "nat \<Rightarrow> u8 list \<Rightarrow> tuple_data_collection \<Rightarrow> tuple_data_collection" where
  "set_row row_idx row tdc = tdc\<lparr>tdc_rows := (tdc_rows tdc)[row_idx := row]\<rparr>"

definition TupleDataCollectionHasSpaceForAppend :: "tuple_data_collection \<Rightarrow> nat \<Rightarrow> bool" where
  "TupleDataCollectionHasSpaceForAppend tdc required_heap_bytes =
     (if tdc_row_count tdc \<ge> tdc_row_capacity tdc then False
      else if required_heap_bytes = 0 then True
      else tdc_heap_used tdc \<le> tdc_heap_capacity tdc \<and>
           required_heap_bytes \<le> tdc_heap_capacity tdc - tdc_heap_used tdc)"

definition TupleDataCollectionAppendRow :: "tuple_data_collection \<Rightarrow> nat \<times> tuple_data_collection" where
  "TupleDataCollectionAppendRow tdc =
     (if tdc_row_count tdc \<ge> tdc_row_capacity tdc then (TDC_INVALID_ROW_INDEX, tdc)
      else (tdc_row_count tdc, tdc\<lparr>tdc_row_count := wrap32 (tdc_row_count tdc + 1)\<rparr>))"

section \<open>The string heap\<close>

definition TupleDataCollectionStoreStringBytes ::
  "tuple_data_collection \<Rightarrow> u8 list option \<Rightarrow> u32 \<Rightarrow>
   bool \<times> vec_string_ref \<times> tuple_data_collection" where
  "TupleDataCollectionStoreStringBytes tdc data len =
     (let ref = \<lparr>ref_len = len, ref_offset = 0, ref_prefix = 0\<rparr>
      in case data of
           None \<Rightarrow> (True, ref, tdc)
         | Some bytes \<Rightarrow>
             if len = 0 then (True, ref, tdc)
             else
               let ref' = ref\<lparr>ref_prefix := string_prefix (take (unat len) bytes)\<rparr>
               in if len \<le> 8 then (True, ref'\<lparr>ref_offset := kVecStringInlineOffset\<rparr>, tdc)
                  else
                    let heap_used = tdc_heap_used tdc
                    in if heap_used > tdc_heap_capacity tdc \<or>
                          unat len > tdc_heap_capacity tdc - heap_used
                       then (False, ref', tdc)
                       else (True, ref'\<lparr>ref_offset := word_of_nat heap_used\<rparr>,
                             tdc\<lparr>tdc_heap_used := wrap32 (heap_used + unat len),
                                 tdc_heap := mem_write heap_used (take (unat len) bytes)
                                               (tdc_heap tdc)\<rparr>))"

definition HeapBytesNeededForStringLength :: "nat \<Rightarrow> nat" where
  "HeapBytesNeededForStringLength len = (if len > 8 then len else 0)"

definition TupleDataCollectionRequiredHeapBytesForChunkRow ::
  "tuple_data_layout \<Rightarrow> data_chunk \<Rightarrow> nat \<Rightarrow> nat" where
  "TupleDataCollectionRequiredHeapBytesForChunkRow layout chunk row_idx =
     (let required = fold (\<lambda>c required.
            if col_kind c \<noteq> STRING_REF then required
            else wrap64 (required + HeapBytesNeededForStringLength
                   (unat (ref_len (get_string_ref chunk (unat (col_src_col_idx c)) row_idx)))))
          (columns layout) 0
      in if required > UINT32_MAX then UINT32_MAX else required)"

text \<open>A \<^verbatim>\<open>VecStringRef\<close> inside a row: length, offset, prefix, sixteen bytes.\<close>

definition read_string_ref :: "nat \<Rightarrow> u8 list \<Rightarrow> vec_string_ref" where
  "read_string_ref off row =
     \<lparr>ref_len = get_u32 off row, ref_offset = get_u32 (off + 4) row,
      ref_prefix = get_u64 (off + 8) row\<rparr>"

definition write_string_ref :: "nat \<Rightarrow> vec_string_ref \<Rightarrow> u8 list \<Rightarrow> u8 list" where
  "write_string_ref off r row =
     mem_write off (le_bytes 4 (unat (ref_len r)) @ le_bytes 4 (unat (ref_offset r)) @
                    le_bytes 8 (unat (ref_prefix r))) row"

definition heap_base :: "tuple_data_collection option \<Rightarrow> u8 list option" where
  "heap_base tdc = map_option tdc_heap tdc"

definition TupleDataCollectionRequiredHeapBytesForRow ::
  "tuple_data_layout \<Rightarrow> tuple_data_collection option \<Rightarrow> u8 list \<Rightarrow> nat result" where
  "TupleDataCollectionRequiredHeapBytesForRow layout tdc row =
     rbind (fold_res (\<lambda>c required.
        if col_kind c \<noteq> STRING_REF then Inr required
        else let ref = read_string_ref (unat (col_offset c)) row
             in if ref_len ref \<noteq> 0 \<and> VecStringRefDataPtr ref (heap_base tdc) = None
                then Inl (Elog ''STRING_REF row-store copy missing heap backing'')
                else Inr (wrap64 (required + HeapBytesNeededForStringLength (unat (ref_len ref)))))
        (columns layout) 0)
       (\<lambda>required. Inr (if required > UINT32_MAX then UINT32_MAX else required))"

section \<open>The shared scan cursor\<close>

text \<open>
  \<^verbatim>\<open>ClaimScanRow\<close> is three atomic accesses: the row count is read, the cursor is fetched and
  incremented, and on an over-claim a compare-and-swap pulls it back. Each scanner is at one of
  these points; any scanner may move next. The last two fields of the state are ghosts: who got
  which row, and how many fetches found the cursor past the end.
\<close>

datatype scan_pc =
    ScanStart
  | ScanTotal nat
  | ScanOver nat nat
  | ScanDone nat

record scan_state =
  sc_cursor :: nat
  sc_count :: nat
  sc_pc :: "nat \<Rightarrow> scan_pc"
  sc_claims :: "(nat \<times> nat) list"
  sc_overclaims :: nat

definition sc_move :: "nat \<Rightarrow> scan_pc \<Rightarrow> scan_state \<Rightarrow> scan_state" where
  "sc_move w pc s = s\<lparr>sc_pc := (sc_pc s)(w := pc)\<rparr>"

inductive claim_step :: "scan_state \<Rightarrow> scan_state \<Rightarrow> bool" where
  read_total: "sc_pc s w = ScanStart \<Longrightarrow> claim_step s (sc_move w (ScanTotal (sc_count s)) s)"
| claim_ok: "sc_pc s w = ScanTotal n \<Longrightarrow> sc_cursor s < n \<Longrightarrow>
    claim_step s (sc_move w (ScanDone (sc_cursor s))
      (s\<lparr>sc_cursor := wrap32 (sc_cursor s + 1), sc_claims := (w, sc_cursor s) # sc_claims s\<rparr>))"
| over_claim: "sc_pc s w = ScanTotal n \<Longrightarrow> \<not> sc_cursor s < n \<Longrightarrow>
    claim_step s (sc_move w (ScanOver n (wrap32 (sc_cursor s + 1)))
      (s\<lparr>sc_cursor := wrap32 (sc_cursor s + 1), sc_overclaims := sc_overclaims s + 1\<rparr>))"
| pull_back: "sc_pc s w = ScanOver n expected \<Longrightarrow> sc_cursor s = expected \<Longrightarrow>
    claim_step s (sc_move w (ScanDone TDC_INVALID_ROW_INDEX) (s\<lparr>sc_cursor := n\<rparr>))"
| leave: "sc_pc s w = ScanOver n expected \<Longrightarrow> sc_cursor s \<noteq> expected \<Longrightarrow>
    claim_step s (sc_move w (ScanDone TDC_INVALID_ROW_INDEX) s)"
| again: "sc_pc s w = ScanDone r \<Longrightarrow> claim_step s (sc_move w ScanStart s)"

inductive_cases claim_stepE: "claim_step s t"

text \<open>One scanner running alone: the whole function.\<close>

definition TupleDataCollectionClaimScanRow :: "tuple_data_collection \<Rightarrow> nat \<times> tuple_data_collection" where
  "TupleDataCollectionClaimScanRow tdc =
     (let total = tdc_row_count tdc; claimed = tdc_scan_cursor tdc;
          tdc' = tdc\<lparr>tdc_scan_cursor := wrap32 (claimed + 1)\<rparr>
      in if claimed \<ge> total
         then (TDC_INVALID_ROW_INDEX,
               if tdc_scan_cursor tdc' = wrap32 (claimed + 1) then tdc'\<lparr>tdc_scan_cursor := total\<rparr> else tdc')
         else (claimed, tdc'))"

definition TupleDataCollectionResetScan :: "tuple_data_collection \<Rightarrow> tuple_data_collection" where
  "TupleDataCollectionResetScan tdc = tdc\<lparr>tdc_scan_cursor := 0\<rparr>"

section \<open>The invariant of a collection\<close>

definition tdc_ok :: "tuple_data_collection \<Rightarrow> bool" where
  "tdc_ok t \<longleftrightarrow>
     length (tdc_rows t) = tdc_row_capacity t \<and>
     (\<forall>r\<in>set (tdc_rows t). length r = tdc_row_width t) \<and>
     tdc_row_count t \<le> tdc_row_capacity t \<and> tdc_row_capacity t < 2 ^ 32 \<and>
     length (tdc_heap t) = tdc_heap_capacity t \<and>
     tdc_heap_used t \<le> tdc_heap_capacity t \<and> tdc_heap_capacity t < 2 ^ 32"

lemma tdc_ok_Init: "cap < 2 ^ 32 \<Longrightarrow> hc < 2 ^ 32 \<Longrightarrow> tdc_ok (TupleDataCollectionInit cap w hc)"
  by (simp add: tdc_ok_def TupleDataCollectionInit_def)

lemma tdc_ok_set_row:
  "tdc_ok t \<Longrightarrow> length r = tdc_row_width t \<Longrightarrow> tdc_ok (set_row i r t)"
  using set_update_subset_insert [of "tdc_rows t" i r] by (auto simp: tdc_ok_def set_row_def)

lemma tdc_ok_AppendRow:
  "tdc_ok t \<Longrightarrow> TupleDataCollectionAppendRow t = (i, t') \<Longrightarrow> tdc_ok t'"
  by (auto simp: tdc_ok_def TupleDataCollectionAppendRow_def split: if_splits)

lemma AppendRow_index:
  assumes "tdc_ok t" and "TupleDataCollectionAppendRow t = (i, t')"
  shows "if tdc_row_count t < tdc_row_capacity t
         then i = tdc_row_count t \<and> t' = t\<lparr>tdc_row_count := tdc_row_count t + 1\<rparr>
         else i = TDC_INVALID_ROW_INDEX \<and> t' = t"
  using assms by (auto simp: TupleDataCollectionAppendRow_def tdc_ok_def)

lemma AppendRow_valid:
  assumes "tdc_ok t" and "TupleDataCollectionAppendRow t = (i, t')"
  shows "i \<noteq> TDC_INVALID_ROW_INDEX \<longleftrightarrow> tdc_row_count t < tdc_row_capacity t"
  using AppendRow_index [OF assms] assms(1)
  by (auto simp: tdc_ok_def TDC_INVALID_ROW_INDEX_def UINT32_MAX_def split: if_splits)

section \<open>What a reference denotes\<close>

text \<open>
  A reference made by one of the store functions: the prefix is that of the string it denotes, short
  strings are inline, long ones lie in the used part of the arena.
\<close>

definition ref_ok :: "u8 list \<Rightarrow> nat \<Rightarrow> vec_string_ref \<Rightarrow> bool" where
  "ref_ok arena used r \<longleftrightarrow>
     (if ref_len r = 0 then ref_prefix r = 0
      else if ref_len r \<le> 8 then VecStringRefIsInline r \<and>
        ref_prefix r = string_prefix (take (unat (ref_len r)) (le_bytes 8 (unat (ref_prefix r))))
      else unat (ref_offset r) + unat (ref_len r) \<le> used \<and> used \<le> length arena \<and>
        ref_prefix r = string_prefix (mem_read (unat (ref_offset r)) (unat (ref_len r)) arena))"

definition ref_string :: "u8 list \<Rightarrow> vec_string_ref \<Rightarrow> u8 list" where
  "ref_string arena r = the (VecStringRefDataPtr r (Some arena))"

lemma DataPtr_Some [simp]: "VecStringRefDataPtr r (Some a) = Some (ref_string a r)"
  by (simp add: ref_string_def VecStringRefDataPtr_def)

lemma unat_le_8: "(w :: u32) \<le> 8 \<longleftrightarrow> unat w \<le> 8"
  by (simp add: word_le_nat_alt)

lemma unat_eq_0_u32: "(w :: u32) = 0 \<longleftrightarrow> unat w = 0"
  by (simp add: unat_eq_0)

lemma ref_string_cases:
  assumes "ref_ok a n r"
  shows "ref_string a r =
    (if ref_len r = 0 then []
     else if ref_len r \<le> 8 then take (unat (ref_len r)) (le_bytes 8 (unat (ref_prefix r)))
     else mem_read (unat (ref_offset r)) (unat (ref_len r)) a)"
  using assms
  by (auto simp: ref_string_def VecStringRefDataPtr_def ref_ok_def VecStringRefIsInline_def
      split: if_splits)

lemma length_ref_string: "ref_ok a n r \<Longrightarrow> length (ref_string a r) = unat (ref_len r)"
  by (subst ref_string_cases, assumption) (auto simp: ref_ok_def unat_le_8 unat_eq_0_u32)

lemma ref_prefix_string: "ref_ok a n r \<Longrightarrow> ref_prefix r = string_prefix (ref_string a r)"
  by (subst ref_string_cases, assumption) (auto simp: ref_ok_def string_prefix_def)

text \<open>Writing the unused part of the arena, or using more of it, keeps every reference.\<close>

lemma ref_ok_grow:
  assumes "ref_ok a n r" and "n \<le> m" and "m \<le> length b"
    and "\<And>off k. off + k \<le> n \<Longrightarrow> mem_read off k b = mem_read off k a"
  shows "ref_ok b m r" and "ref_string b r = ref_string a r"
proof -
  show ok: "ref_ok b m r"
    using assms by (auto simp: ref_ok_def)
  show "ref_string b r = ref_string a r"
    using assms by (auto simp: ref_string_cases [OF ok] ref_string_cases [OF assms(1)] ref_ok_def)
qed

lemma StoreString_frame:
  assumes "tdc_ok t" and "TupleDataCollectionStoreStringBytes t data len = (ok, r, t')"
    and "\<And>bs. data = Some bs \<Longrightarrow> unat len \<le> length bs"
  shows "tdc_ok t'" "tdc_rows t' = tdc_rows t" "tdc_row_count t' = tdc_row_count t"
    "tdc_row_width t' = tdc_row_width t" "tdc_row_capacity t' = tdc_row_capacity t"
    "tdc_heap_capacity t' = tdc_heap_capacity t" "tdc_heap_used t \<le> tdc_heap_used t'"
    "off + k \<le> tdc_heap_used t \<Longrightarrow> mem_read off k (tdc_heap t') = mem_read off k (tdc_heap t)"
  using assms
  by (auto simp: TupleDataCollectionStoreStringBytes_def Let_def tdc_ok_def mem_read_write_apart
      split: option.splits if_splits)

lemma string_prefix_Nil [simp]: "string_prefix [] = 0"
  by (simp add: string_prefix_def)

lemma StoreString_ref:
  assumes t: "tdc_ok t" and s: "TupleDataCollectionStoreStringBytes t (Some bs) len = (True, r, t')"
    and len: "unat len = length bs"
  shows "ref_ok (tdc_heap t') (tdc_heap_used t') r" and "ref_string (tdc_heap t') r = bs"
    and "ref_len r = len" and "tdc_heap_used t' =
      tdc_heap_used t + HeapBytesNeededForStringLength (length bs)"
proof -
  consider "len = 0" "bs = []" | "len \<noteq> 0" "len \<le> 8" "length bs \<le> 8"
    | "\<not> len \<le> 8" "length bs > 8" "len \<noteq> 0"
    using len by (cases "len = 0"; cases "len \<le> 8") (auto simp: unat_le_8)
  then have "ref_ok (tdc_heap t') (tdc_heap_used t') r \<and> ref_string (tdc_heap t') r = bs \<and>
    ref_len r = len \<and>
    tdc_heap_used t' = tdc_heap_used t + HeapBytesNeededForStringLength (length bs)"
  proof cases
    case 1
    with s show ?thesis
      by (auto simp: TupleDataCollectionStoreStringBytes_def ref_ok_def ref_string_def
          VecStringRefDataPtr_def HeapBytesNeededForStringLength_def)
  next
    case 2
    have "take (length bs) (le_bytes 8 (unat (string_prefix bs))) = bs"
      by (rule le_bytes_prefix) (use 2 in simp)
    moreover have "VecStringRefIsInline \<lparr>ref_len = len, ref_offset = kVecStringInlineOffset,
        ref_prefix = string_prefix bs\<rparr>"
      using 2 by (simp add: VecStringRefIsInline_def word_gt_0)
    ultimately show ?thesis
      using 2 s len
      by (auto simp: TupleDataCollectionStoreStringBytes_def ref_ok_def ref_string_def
          VecStringRefDataPtr_def HeapBytesNeededForStringLength_def Let_def)
  next
    case 3
    have used: "tdc_heap_used t \<le> tdc_heap_capacity t"
      "length bs \<le> tdc_heap_capacity t - tdc_heap_used t"
      and r: "r = \<lparr>ref_len = len, ref_offset = word_of_nat (tdc_heap_used t),
        ref_prefix = string_prefix bs\<rparr>"
      and t': "t' = t\<lparr>tdc_heap_used := wrap32 (tdc_heap_used t + length bs),
        tdc_heap := mem_write (tdc_heap_used t) bs (tdc_heap t)\<rparr>"
      using 3 s len
      by (auto simp: TupleDataCollectionStoreStringBytes_def Let_def split: if_splits)
    have "unat (word_of_nat (tdc_heap_used t) :: u32) = tdc_heap_used t"
      using t by (intro unat_of_nat_u32) (auto simp: tdc_ok_def)
    moreover have "tdc_heap_used t + length bs < 2 ^ 32"
      using t used by (auto simp: tdc_ok_def)
    ultimately show ?thesis
      using 3 t used len
      by (auto simp: r t' ref_ok_def ref_string_def VecStringRefDataPtr_def mem_read_write
          VecStringRefIsInline_def HeapBytesNeededForStringLength_def tdc_ok_def)
  qed
  then show "ref_ok (tdc_heap t') (tdc_heap_used t') r" and "ref_string (tdc_heap t') r = bs"
    and "ref_len r = len" and "tdc_heap_used t' =
      tdc_heap_used t + HeapBytesNeededForStringLength (length bs)"
    by blast+
qed

lemma StoreString_succeeds:
  assumes "tdc_ok t" and "unat len = length bs"
    and "HeapBytesNeededForStringLength (length bs) \<le> tdc_heap_capacity t - tdc_heap_used t"
  shows "fst (TupleDataCollectionStoreStringBytes t (Some bs) len)"
  using assms
  by (auto simp: TupleDataCollectionStoreStringBytes_def Let_def tdc_ok_def
      HeapBytesNeededForStringLength_def unat_le_8 split: if_splits)

lemma mem_read_inside:
  assumes "i + n \<le> length bs" and "off + length bs \<le> length row"
  shows "mem_read (off + i) n (mem_write off bs row) = mem_read i n bs"
  using assms by (intro nth_equalityI) (auto simp: mem_read_def nth_mem_write)

lemma read_write_string_ref [mem_simps]:
  assumes "off + 16 \<le> length row"
  shows "read_string_ref off (write_string_ref off r row) = r"
proof -
  define bs where "bs = le_bytes 4 (unat (ref_len r)) @ le_bytes 4 (unat (ref_offset r)) @
             le_bytes 8 (unat (ref_prefix r))"
  have len: "length bs = 16" by (simp add: bs_def)
  have sub: "mem_read (off + i) n (mem_write off bs row) = mem_read i n bs" if "i + n \<le> 16" for i n
    using that assms by (intro mem_read_inside) (simp_all add: len)
  have "mem_read 0 4 bs = le_bytes 4 (unat (ref_len r))" "mem_read 4 4 bs = le_bytes 4 (unat (ref_offset r))"
    "mem_read 8 8 bs = le_bytes 8 (unat (ref_prefix r))"
    by (simp_all add: mem_read_def bs_def)
  with sub [of 0 4] sub [of 4 4] sub [of 8 8] show ?thesis
    by (simp add: read_string_ref_def write_string_ref_def get_u32_def get_u64_def bs_def
        le_nat_unat_u32 le_nat_unat_u64)
qed

lemma length_write_string_ref [simp]:
  "off + 16 \<le> length row \<Longrightarrow> length (write_string_ref off r row) = length row"
  by (simp add: write_string_ref_def)

section \<open>Scanning\<close>

text \<open>
  With the row count fixed (sinks finish before sources start) the invariant of the scan: claimed
  indices are the ones below the cursor, each once. Two scanners that keep fetching past the end can
  push the cursor up by one per fetch, because each makes the other's pull-back fail; so the cursor
  is bounded by the count plus the over-claims made, and does not wrap while that is below
  \<^verbatim>\<open>2 ^ 32\<close>.
\<close>

definition scan_start :: "nat \<Rightarrow> scan_state" where
  "scan_start cnt = \<lparr>sc_cursor = 0, sc_count = cnt, sc_pc = (\<lambda>w. ScanStart), sc_claims = [],
     sc_overclaims = 0\<rparr>"

definition scan_inv :: "nat \<Rightarrow> scan_state \<Rightarrow> bool" where
  "scan_inv cnt s \<longleftrightarrow>
     sc_count s = cnt \<and>
     (\<forall>w n. sc_pc s w = ScanTotal n \<longrightarrow> n = cnt) \<and>
     (\<forall>w n e. sc_pc s w = ScanOver n e \<longrightarrow> n = cnt \<and> cnt \<le> sc_cursor s) \<and>
     sc_cursor s \<le> cnt + sc_overclaims s \<and>
     distinct (map snd (sc_claims s)) \<and>
     set (map snd (sc_claims s)) = {..<min (sc_cursor s) cnt}"

lemma scan_inv_start: "scan_inv cnt (scan_start cnt)"
  by (simp add: scan_inv_def scan_start_def)

lemma claim_step_overclaims: "claim_step s t \<Longrightarrow> sc_overclaims s \<le> sc_overclaims t"
  by (auto elim!: claim_stepE simp: sc_move_def)

lemma scan_inv_step:
  assumes "scan_inv cnt s" and "claim_step s t" and "cnt + sc_overclaims t < 2 ^ 32"
  shows "scan_inv cnt t"
proof -
  have pcs: "\<And>v m. sc_pc s v = ScanTotal m \<Longrightarrow> m = cnt"
    "\<And>v m e. sc_pc s v = ScanOver m e \<Longrightarrow> m = cnt"
    and ge: "\<And>v m e. sc_pc s v = ScanOver m e \<Longrightarrow> cnt \<le> sc_cursor s"
    using assms(1) unfolding scan_inv_def by blast+
  have rest: "sc_count s = cnt" "sc_cursor s \<le> cnt + sc_overclaims s"
    "distinct (map snd (sc_claims s))"
    "set (map snd (sc_claims s)) = {..<min (sc_cursor s) cnt}"
    using assms(1) by (auto simp: scan_inv_def)
  show ?thesis
    using assms(2)
  proof (cases rule: claim_step.cases)
    case (read_total w)
    then show ?thesis using rest by (auto simp: scan_inv_def sc_move_def dest: pcs ge)
  next
    case (claim_ok w n)
    have lt: "sc_cursor s < cnt" using claim_ok pcs by auto
    have wr: "wrap32 (Suc (sc_cursor s)) = Suc (sc_cursor s)" using lt assms(3) by simp
    have "set (map snd (sc_claims s)) = {..<sc_cursor s}" using rest lt by (simp add: min_def)
    moreover have "insert (sc_cursor s) {..<sc_cursor s} = {..<min (Suc (sc_cursor s)) cnt}"
      using lt by (auto simp: min_def)
    ultimately show ?thesis
      using rest lt by (auto simp: claim_ok(1) scan_inv_def sc_move_def wr dest: pcs ge)
  next
    case (over_claim w n)
    have le: "cnt \<le> sc_cursor s" using over_claim pcs by auto
    have "wrap32 (Suc (sc_cursor s)) = Suc (sc_cursor s)"
      using assms(3) over_claim rest by (simp add: sc_move_def)
    moreover have "min (Suc (sc_cursor s)) cnt = min (sc_cursor s) cnt" using le by simp
    ultimately show ?thesis
      using rest le pcs over_claim by (auto simp: scan_inv_def sc_move_def dest: pcs)
  next
    case (pull_back w n expected)
    then have "n = cnt" "cnt \<le> sc_cursor s" using pcs ge by blast+
    then show ?thesis using rest by (auto simp: pull_back(1) scan_inv_def sc_move_def dest: pcs)
  next
    case (leave w n expected)
    then show ?thesis using rest by (auto simp: scan_inv_def sc_move_def dest: pcs ge)
  next
    case (again w r)
    then show ?thesis using rest by (auto simp: scan_inv_def sc_move_def dest: pcs ge)
  qed
qed

lemma scan_inv_reach:
  assumes "claim_step\<^sup>*\<^sup>* (scan_start cnt) s" and "cnt + sc_overclaims s < 2 ^ 32"
  shows "scan_inv cnt s"
  using assms
proof (induction rule: rtranclp_induct)
  case base
  then show ?case by (simp add: scan_inv_start)
next
  case (step s t)
  then show ?case using scan_inv_step claim_step_overclaims by fastforce
qed

text \<open>C40: Parallel scanners of a row collection split it: at every moment of every interleaving of
  the three atomic accesses of ClaimScanRow the indices handed out are distinct and are exactly the
  rows below the cursor, so once the cursor has reached the row count every row has been given to
  exactly one scanner, as long as the over-claims have not wrapped the 32-bit cursor.\<close>

theorem scan_claims_each_row_once:
  assumes "claim_step\<^sup>*\<^sup>* (scan_start cnt) s" and "cnt + sc_overclaims s < 2 ^ 32"
  shows "distinct (map snd (sc_claims s)) \<and>
    set (map snd (sc_claims s)) = {..<min (sc_cursor s) cnt} \<and>
    (cnt \<le> sc_cursor s \<longrightarrow> mset (map snd (sc_claims s)) = mset [0..<cnt])"
proof -
  have inv: "distinct (map snd (sc_claims s))"
    "set (map snd (sc_claims s)) = {..<min (sc_cursor s) cnt}"
    using scan_inv_reach [OF assms] by (auto simp: scan_inv_def)
  moreover have "mset (map snd (sc_claims s)) = mset [0..<cnt]" if "cnt \<le> sc_cursor s"
    
  proof -
    from that have "min (sc_cursor s) cnt = cnt" by simp
    with inv(2) have "set (map snd (sc_claims s)) = set [0..<cnt]"
      by (simp add: atLeast0LessThan)
    then show ?thesis
      using set_eq_iff_mset_eq_distinct [OF inv(1) distinct_upt] by blast
  qed
  ultimately show ?thesis by blast
qed

lemma scan_run_one:
  "claim_step\<^sup>*\<^sup>* (scan_start 1) \<lparr>sc_cursor = 1, sc_count = 1, sc_pc = (\<lambda>w. ScanStart)(0 := ScanDone 0),
     sc_claims = [(0, 0)], sc_overclaims = 0\<rparr>"
proof -
  have 1: "claim_step (scan_start 1) (sc_move 0 (ScanTotal 1) (scan_start 1))"
    using claim_step.read_total [of "scan_start 1" 0] by (simp add: scan_start_def)
  have 2: "claim_step (sc_move 0 (ScanTotal 1) (scan_start 1))
    \<lparr>sc_cursor = 1, sc_count = 1, sc_pc = (\<lambda>w. ScanStart)(0 := ScanDone 0),
     sc_claims = [(0, 0)], sc_overclaims = 0\<rparr>"
    using claim_step.claim_ok [of "sc_move 0 (ScanTotal 1) (scan_start 1)" 0 1]
    by (simp add: scan_start_def sc_move_def)
  show ?thesis using 1 2 by (meson r_into_rtranclp rtranclp.rtrancl_into_rtrancl)
qed

theorem scan_claims_each_row_once_witness:
  "\<exists>s. claim_step\<^sup>*\<^sup>* (scan_start 1) s \<and> sc_cursor s = 1 \<and> distinct (map snd (sc_claims s))"
proof (intro exI conjI)
  show "distinct (map snd (sc_claims \<lparr>sc_cursor = 1, sc_count = 1,
     sc_pc = (\<lambda>w. ScanStart)(0 := ScanDone 0), sc_claims = [(0, 0)], sc_overclaims = 0\<rparr>))"
    using scan_claims_each_row_once [OF scan_run_one] by simp
qed (use scan_run_one in simp_all)

section \<open>Size limits\<close>

lemma kMax_less: "kTupleDataCollectionMaxFlatAllocBytes < 2 ^ 32"
  by (simp add: kTupleDataCollectionMaxFlatAllocBytes_def)

lemma div_mult_le_trans: "(n::nat) \<le> a div w \<Longrightarrow> n * w \<le> a"
  by (metis div_times_less_eq_dividend le_trans mult_le_mono1)

lemma row_bytes_less: "(cap :: nat) < 2 ^ 32 \<Longrightarrow> w < 2 ^ 16 \<Longrightarrow> cap * w < 2 ^ 48"
  using mult_strict_mono' [of cap "2 ^ 32" w "2 ^ 16"] by simp

lemma RowBytes_exact:
  "cap < 2 ^ 32 \<Longrightarrow> w < 2 ^ 16 \<Longrightarrow> TupleDataCollectionRowBytes cap w = cap * w"
  using row_bytes_less [of cap w] by (simp add: TupleDataCollectionRowBytes_def)

text \<open>What the growth computes once its sums are known not to wrap.\<close>

lemma GrowHeap_cases:
  assumes "tdc_ok t" "tdc_heap_capacity t \<noteq> 0" "hdr < 2 ^ 16" "cap < 2 ^ 32"
      "tdc_row_width t < 2 ^ 16" "required < 2 ^ 32"
  shows "TupleDataCollectionGrowHeapCapacity hdr (Some l) t cap required =
    (let next = max (tdc_heap_used t + required)
                    (tdc_heap_capacity t + max (tdc_heap_capacity t div 2) (1024 * 1024));
         fixed = cap * tdc_row_width t + hdr
     in if fixed \<ge> kTupleDataCollectionMaxFlatAllocBytes
        then Inl (Elog ''TDC row buffer exceeds flat allocation limit'')
        else if tdc_heap_used t + required > kTupleDataCollectionMaxFlatAllocBytes - fixed
        then Inl (Elog ''TDC string heap exceeds flat allocation limit'')
        else Inr (min next (kTupleDataCollectionMaxFlatAllocBytes - fixed)))"
proof -
  have less: "tdc_heap_used t < 2 ^ 32" "tdc_heap_capacity t < 2 ^ 32"
    "cap * tdc_row_width t < 2 ^ 48"
    using assms row_bytes_less [of cap "tdc_row_width t"] by (auto simp: tdc_ok_def)
  define K where "K = kTupleDataCollectionMaxFlatAllocBytes"
  have K: "K < 4294967296" using kMax_less by (simp add: K_def)
  define U H R where "U = tdc_heap_used t" and "H = tdc_heap_capacity t" and "R = cap * tdc_row_width t"
  have lt: "U < 4294967296" "H < 4294967296" "R < 281474976710656" "H \<noteq> 0" "hdr < 65536"
    "required < 4294967296"
    using less assms by (simp_all add: U_def H_def R_def)
  have RB: "TupleDataCollectionRowBytes cap (tdc_row_width t) = R"
    using RowBytes_exact assms by (simp add: R_def)
  define M where "M = max (H div 2) (1024 * 1024)"
  have M: "M < 4294967296" using lt by (simp add: M_def)
  have sums: "wrap64 (U + required) = U + required" "wrap64 (H + M) = H + M" "wrap64 (R + hdr) = R + hdr"
    using lt M K by simp_all
  have sub: "sub64 (sub64 K R) hdr = K - (R + hdr)" if "\<not> K \<le> R + hdr"
    using lt K that by simp
  show ?thesis
  proof (cases "K \<le> R + hdr")
    case True
    then show ?thesis
      using lt(4) by (simp add: TupleDataCollectionGrowHeapCapacity_def Let_def RB sums
        K_def [symmetric] U_def [symmetric] H_def [symmetric] R_def [symmetric])
  next
    case False
    define N where "N = max (U + required) (H + M)"
    have "(if H + M < U + required then U + required else H + M) = N" by (simp add: N_def max_def)
    moreover have "(if K - (R + hdr) < N then K - (R + hdr) else N) = min N (K - (R + hdr))"
      by (simp add: min_def)
    moreover have "\<not> 2 ^ 32 - 1 < min N (K - (R + hdr))" 
    proof -
      have "K - (R + hdr) \<le> 2 ^ 32 - 1" using K by simp
      then show ?thesis by (metis leD min.coboundedI2)
    qed
    ultimately show ?thesis
      using lt(4) False
      unfolding TupleDataCollectionGrowHeapCapacity_def Let_def RB K_def [symmetric]
        U_def [symmetric] H_def [symmetric] R_def [symmetric] UINT32_MAX_def
      unfolding M_def [symmetric] sums sub [OF False]
      by (simp only: N_def [symmetric] if_False simp_thms option.distinct)
  qed
qed

lemma GrowHeap_Inr:
  assumes "TupleDataCollectionGrowHeapCapacity hdr (Some l) t cap required = Inr hc"
    and "tdc_ok t" "tdc_heap_capacity t \<noteq> 0" "hdr < 2 ^ 16" "cap < 2 ^ 32"
      "tdc_row_width t < 2 ^ 16" "required < 2 ^ 32"
  shows "cap * tdc_row_width t + hdr < kTupleDataCollectionMaxFlatAllocBytes"
    and "tdc_heap_used t + required \<le>
      kTupleDataCollectionMaxFlatAllocBytes - (cap * tdc_row_width t + hdr)"
    and "hc = min (max (tdc_heap_used t + required)
                  (tdc_heap_capacity t + max (tdc_heap_capacity t div 2) (1024 * 1024)))
              (kTupleDataCollectionMaxFlatAllocBytes - (cap * tdc_row_width t + hdr))"
  using assms(1) unfolding GrowHeap_cases [OF assms(2-7)] Let_def res_simps
  by (simp_all only: not_le not_less sum.inject)

text \<open>Growing the string heap of a collection leaves room for what is used and for what the next
  row needs, and header, rows and heap together stay within the 3 GiB limit.\<close>

theorem GrowHeapCapacity_fits:
  assumes "TupleDataCollectionGrowHeapCapacity hdr (Some l) t cap required = Inr hc"
    and "tdc_ok t" "tdc_heap_capacity t \<noteq> 0" "hdr < 2 ^ 16" "cap < 2 ^ 32"
      "tdc_row_width t < 2 ^ 16" "required < 2 ^ 32"
  shows "tdc_heap_used t + required \<le> hc \<and>
    hdr + cap * tdc_row_width t + hc \<le> kTupleDataCollectionMaxFlatAllocBytes"
proof -
  note G = GrowHeap_Inr [OF assms]
  have "hc \<le> kTupleDataCollectionMaxFlatAllocBytes - (cap * tdc_row_width t + hdr)"
    unfolding G(3) by simp
  moreover have "tdc_heap_used t + required \<le> hc" unfolding G(3) using G(2) by simp
  ultimately show ?thesis using G(1) by linarith
qed

definition small_tdc :: tuple_data_collection where
  "small_tdc = TupleDataCollectionInit 2 8 16"

lemma small_tdc_ok: "tdc_ok small_tdc" "tdc_heap_capacity small_tdc = 16" "tdc_heap_used small_tdc = 0"
  "tdc_row_width small_tdc = 8"
  by (simp_all add: small_tdc_def tdc_ok_Init) (simp_all add: TupleDataCollectionInit_def)

lemma small_tdc_grow:
  "TupleDataCollectionGrowHeapCapacity 64 (Some TupleDataLayoutInit) small_tdc 4 100 = Inr (16 + 1024 * 1024)"
  by (subst GrowHeap_cases) (simp_all add: small_tdc_ok kTupleDataCollectionMaxFlatAllocBytes_def)

theorem GrowHeapCapacity_fits_witness:
  "64 + 4 * tdc_row_width small_tdc + (16 + 1024 * 1024) \<le> kTupleDataCollectionMaxFlatAllocBytes"
  using GrowHeapCapacity_fits [OF small_tdc_grow] small_tdc_ok by simp

text \<open>When the growth step is cut back to the 3 GiB limit, the allocation that follows is always
  refused: the cut leaves the total exactly at the limit, and the size check rejects a total that
  is equal to it. So near the limit the heap is not grown to what would fit.\<close>

theorem GrowHeapCapacity_capped_is_refused:
  assumes "TupleDataCollectionGrowHeapCapacity hdr (Some l) t cap required = Inr hc"
    and "tdc_ok t" "tdc_heap_capacity t \<noteq> 0" "hdr < 2 ^ 16" "cap < 2 ^ 32"
      "tdc_row_width t < 2 ^ 16" "required < 2 ^ 32"
    and "hdr + cap * tdc_row_width t + (tdc_heap_capacity t +
           max (tdc_heap_capacity t div 2) (1024 * 1024)) \<ge> kTupleDataCollectionMaxFlatAllocBytes"
  shows "TupleDataCollectionCheckedAllocSize hdr cap (tdc_row_width t) hc =
    Inl (Elog ''TDC flat allocation exceeds limit'')"
proof -
  have "hdr + cap * tdc_row_width t + hc = kTupleDataCollectionMaxFlatAllocBytes"
    using GrowHeap_Inr [OF assms(1-7)] assms(8) by simp
  then show ?thesis
    using kMax_less
    by (simp add: TupleDataCollectionCheckedAllocSize_def TupleDataCollectionCheckFlatAllocSize_def)
qed

text \<open>A collection whose rows take all of the limit but two MiB.\<close>

lemma capped_grow:
  "TupleDataCollectionGrowHeapCapacity 64 (Some TupleDataLayoutInit) small_tdc 402653000 100 =
     Inr (3 * 1024 * 1024 * 1024 - 64 - 402653000 * 8)"
  by (subst GrowHeap_cases) (simp_all add: small_tdc_ok kTupleDataCollectionMaxFlatAllocBytes_def)

theorem GrowHeapCapacity_capped_is_refused_witness:
  "TupleDataCollectionCheckedAllocSize 64 402653000 8 (3 * 1024 * 1024 * 1024 - 64 - 402653000 * 8) =
     Inl (Elog ''TDC flat allocation exceeds limit'')"
  using GrowHeapCapacity_capped_is_refused [OF capped_grow] small_tdc_ok
  by (simp add: kTupleDataCollectionMaxFlatAllocBytes_def)

text \<open>Clamping the row capacity keeps header, rows and the required heap within the limit and
  never goes below the minimum it was asked to respect, when header and required heap fit; but when
  the required heap is below the limit and header plus heap is above it the subtraction wraps and
  nothing is clamped.\<close>

theorem ClampRowCapacity_result:
  assumes "0 < w" "w < 2 ^ 16" "hdr < 2 ^ 16" "proposed < 2 ^ 32" "minimum \<le> proposed"
    and "required < kTupleDataCollectionMaxFlatAllocBytes"
    and "TupleDataCollectionClampRowCapacity hdr proposed w required minimum = Inr n"
  shows "if hdr + required \<le> kTupleDataCollectionMaxFlatAllocBytes
    then hdr + n * w + required \<le> kTupleDataCollectionMaxFlatAllocBytes \<and> minimum \<le> n \<and> n \<le> proposed
    else n = proposed"
proof -
  define K where "K = kTupleDataCollectionMaxFlatAllocBytes"
  have K: "K = 3221225472" by (simp add: K_def kTupleDataCollectionMaxFlatAllocBytes_def)
  define rows where "rows = sub64 (sub64 K hdr) required div w"
  have n: "n = (if proposed > rows then wrap32 rows else proposed)" "minimum \<le> rows"
    using assms by (auto simp: TupleDataCollectionClampRowCapacity_def Let_def K_def [symmetric]
        rows_def [symmetric] split: if_splits)
  show ?thesis
  proof (cases "hdr + required \<le> K")
    case True
    then have r: "rows = (K - hdr - required) div w"
      using K assms by (simp add: rows_def)
    then have le: "rows * w \<le> K - hdr - required" by (simp add: div_times_less_eq_dividend)
    have "rows \<le> K" using div_le_dividend [of "K - hdr - required" w] r by linarith
    then have "rows < 2 ^ 32" using K by simp
    then have "n \<le> rows" "n = min proposed rows" using n by (auto simp: min_def)
    then have "n * w \<le> K - hdr - required" using le by (meson le_trans mult_le_mono1)
    then show ?thesis using True n \<open>n = min proposed rows\<close> assms by (auto simp: K_def [symmetric])
  next
    case False
    moreover have "sub64 K hdr = K - hdr" using K assms(3) by (intro sub64_id) simp_all
    ultimately have big: "sub64 (sub64 K hdr) required \<ge> 2 ^ 63"
      using sub64_borrow [of "K - hdr" required] K assms(3,6) by (simp add: K_def [symmetric])
    have "proposed * w \<le> 2 ^ 48" using row_bytes_less [of proposed w] assms by simp
    then have "proposed * w \<le> sub64 (sub64 K hdr) required" using big by simp
    then have "proposed \<le> rows" using assms(1) by (simp add: rows_def less_eq_div_iff_mult_less_eq)
    then show ?thesis using False n by (simp add: K_def [symmetric])
  qed
qed

theorem ClampRowCapacity_result_witness:
  "\<exists>n. TupleDataCollectionClampRowCapacity 64 500000000 16 1000 1 = Inr n \<and>
     64 + n * 16 + 1000 \<le> kTupleDataCollectionMaxFlatAllocBytes \<and> n \<le> 500000000"
proof -
  have c: "TupleDataCollectionClampRowCapacity 64 500000000 16 1000 1 = Inr 201326525"
    by (simp add: TupleDataCollectionClampRowCapacity_def kTupleDataCollectionMaxFlatAllocBytes_def)
  show ?thesis
    using ClampRowCapacity_result [OF _ _ _ _ _ _ c] c
    by (simp add: kTupleDataCollectionMaxFlatAllocBytes_def)
qed

end
