(* ===== verification/GroupKeys.thy ===== *)
theory GroupKeys
  imports TupleOps
begin

text \<open>
  What the hashing, matching and scattering routines of TupleOps compute, stated on group keys: the
  list of the key's values. A key in a chunk, a key in a row and the scatter between them are related
  by equality of these lists.
\<close>

section \<open>Keys\<close>

datatype gval = GInt32 u32 | GInt64 u64 | GDouble u64 | GString "u8 list"

definition chunk_val :: "data_chunk \<Rightarrow> nat \<Rightarrow> tdc_column_desc \<Rightarrow> gval" where
  "chunk_val ch i c =
     (let src = unat (col_src_col_idx c)
      in case col_kind c of
           INT32 \<Rightarrow> GInt32 (get_int32 ch src i)
         | INT64 \<Rightarrow> GInt64 (get_int64 ch src i)
         | DOUBLE \<Rightarrow> GDouble (get_double ch src i)
         | STRING_REF \<Rightarrow> GString (ref_string (string_arena ch) (get_string_ref ch src i)))"

definition chunk_key :: "tuple_data_layout \<Rightarrow> data_chunk \<Rightarrow> nat \<Rightarrow> gval list" where
  "chunk_key l ch i = map (chunk_val ch i) (columns l)"

definition row_val :: "u8 list \<Rightarrow> u8 list \<Rightarrow> tdc_column_desc \<Rightarrow> gval" where
  "row_val heap row c =
     (let off = unat (col_offset c)
      in case col_kind c of
           INT32 \<Rightarrow> GInt32 (get_u32 off row)
         | INT64 \<Rightarrow> GInt64 (get_u64 off row)
         | DOUBLE \<Rightarrow> GDouble (get_u64 off row)
         | STRING_REF \<Rightarrow> GString (ref_string heap (read_string_ref off row)))"

definition row_key :: "tuple_data_layout \<Rightarrow> u8 list \<Rightarrow> u8 list \<Rightarrow> gval list" where
  "row_key l heap row = map (row_val heap row) (columns l)"

text \<open>The string references that a chunk row and a collection row hold are sound.\<close>

definition chunk_row_ok :: "tuple_data_layout \<Rightarrow> data_chunk \<Rightarrow> nat \<Rightarrow> bool" where
  "chunk_row_ok l ch i \<longleftrightarrow>
     (\<forall>c\<in>set (columns l). col_kind c = STRING_REF \<longrightarrow>
        ref_ok (string_arena ch) (length (string_arena ch))
          (get_string_ref ch (unat (col_src_col_idx c)) i))"

definition row_refs_ok :: "tuple_data_layout \<Rightarrow> u8 list \<Rightarrow> nat \<Rightarrow> u8 list \<Rightarrow> bool" where
  "row_refs_ok l heap used row \<longleftrightarrow>
     (\<forall>c\<in>set (columns l). col_kind c = STRING_REF \<longrightarrow>
        ref_ok heap used (read_string_ref (unat (col_offset c)) row))"

text \<open>The bytes behind a 32-bit column up to the next 8-byte boundary are never written.\<close>

definition row_pad_ok :: "tuple_data_layout \<Rightarrow> u8 list \<Rightarrow> bool" where
  "row_pad_ok l row \<longleftrightarrow>
     (\<forall>c\<in>set (columns l). col_kind c = INT32 \<longrightarrow> mem_read (unat (col_offset c) + 4) 4 row = replicate 4 0)"

definition row_ok :: "tuple_data_layout \<Rightarrow> u8 list \<Rightarrow> nat \<Rightarrow> u8 list \<Rightarrow> bool" where
  "row_ok l heap used row \<longleftrightarrow>
     length row = unat (layout_row_width l) \<and> row_refs_ok l heap used row \<and> row_pad_ok l row"

section \<open>Hashing\<close>

text \<open>The reference hash of a key.\<close>

definition hash_bytes :: "nat \<Rightarrow> u8 list \<Rightarrow> u64" where
  "hash_bytes i bs =
     fold (\<lambda>(b, byte) value. HashCombine value (ucast byte) ((i + b) mod 65536))
       (enumerate 0 bs) (Mix64 (string_prefix bs XOR word_of_nat (length bs)))"

fun hash_val :: "nat \<Rightarrow> gval \<Rightarrow> u64" where
  "hash_val i (GInt32 v) = ucast v"
| "hash_val i (GInt64 v) = v"
| "hash_val i (GDouble v) = v"
| "hash_val i (GString bs) = hash_bytes i bs"

definition hash_key :: "gval list \<Rightarrow> u64" where
  "hash_key ks =
     Mix64 (fold (\<lambda>(i, k) h. HashCombine h (hash_val i k) i) (enumerate 0 ks) HashStart XOR
            word_of_nat (length ks))"

lemma ucast_len: "length bs = unat len \<Longrightarrow> (ucast (len :: u32) :: u64) = word_of_nat (length bs)"
  by (simp add: unsigned_ucast_eq word_eq_iff_unsigned)

lemma hash_string_bytes_ref:
  "ref_ok a n r \<Longrightarrow> hash_string_bytes i r (ref_string a r) = hash_bytes i (ref_string a r)"
  by (simp add: hash_string_bytes_def hash_bytes_def ref_prefix_string length_ref_string ucast_len
      flip: ucast_len)

lemma hash_columns:
  assumes "\<And>i c h. c \<in> set cs \<Longrightarrow> f (i, c) h = Inr (HashCombine h (hash_val i (g c)) i)"
  shows "fold_res f (enumerate n cs) h =
    Inr (fold (\<lambda>(i, k) h. HashCombine h (hash_val i k) i) (enumerate n (map g cs)) h)"
  using assms by (induction cs arbitrary: n h) auto

lemma hash_chunk_column_val:
  assumes "col_kind c = STRING_REF \<Longrightarrow> ref_ok (string_arena ch) n (get_string_ref ch (unat (col_src_col_idx c)) i)"
  shows "hash_chunk_column ch i (k, c) h = Inr (HashCombine h (hash_val k (chunk_val ch i c)) k)"
  using assms
  by (cases "col_kind c")
    (auto simp: hash_chunk_column_def chunk_val_def get_string_ptr_def hash_string_bytes_ref)

lemma hash_row_column_val:
  assumes "col_kind c = STRING_REF \<Longrightarrow> ref_ok (tdc_heap t) n (read_string_ref (unat (col_offset c)) row)"
  shows "hash_row_column (Some t) row (k, c) h = Inr (HashCombine h (hash_val k (row_val (tdc_heap t) row c)) k)"
  using assms
  by (cases "col_kind c")
    (auto simp: hash_row_column_def row_val_def heap_base_def hash_string_bytes_ref)

text \<open>The fast paths of a single integer column compute the general formula.\<close>

lemma hash_key_single:
  "hash_key [GInt32 v] = HashSingleGroupInt32Value v"
  "hash_key [GInt64 w] = HashSingleGroupInt64Value w"
  by (simp_all add: hash_key_def HashSingleGroupInt32Value_def HashSingleGroupInt64Value_def)

lemma HashGroup_key:
  assumes "chunk_row_ok l ch i"
  shows "HashGroup l ch i = Inr (hash_key (chunk_key l ch i))"
proof -
  have gen: "rbind (fold_res (hash_chunk_column ch i) (enumerate 0 (columns l)) HashStart)
      (\<lambda>h. Inr (Mix64 (h XOR word_of_nat (column_count l)))) = Inr (hash_key (chunk_key l ch i))"
    using assms
    by (subst hash_columns [where g = "chunk_val ch i"])
      (auto simp: chunk_row_ok_def hash_key_def chunk_key_def column_count_def intro!: hash_chunk_column_val)
  show ?thesis
  proof (cases "column_count l = 1")
    case True
    then obtain c where c: "columns l = [c]" by (auto simp: column_count_def length_Suc_conv)
    then show ?thesis
      using gen by (cases "col_kind c")
        (auto simp: HashGroup_def True chunk_key_def chunk_val_def hash_key_single)
  qed (use gen in \<open>simp add: HashGroup_def\<close>)
qed

lemma HashGroupRow_key:
  assumes "row_refs_ok l (tdc_heap t) n row"
  shows "HashGroupRow l (Some t) row = Inr (hash_key (row_key l (tdc_heap t) row))"
proof -
  have gen: "rbind (fold_res (hash_row_column (Some t) row) (enumerate 0 (columns l)) HashStart)
      (\<lambda>h. Inr (Mix64 (h XOR word_of_nat (column_count l)))) = Inr (hash_key (row_key l (tdc_heap t) row))"
    using assms
    by (subst hash_columns [where g = "row_val (tdc_heap t) row"])
      (auto simp: row_refs_ok_def hash_key_def row_key_def column_count_def intro!: hash_row_column_val)
  show ?thesis
  proof (cases "column_count l = 1")
    case True
    then obtain c where c: "columns l = [c]" by (auto simp: column_count_def length_Suc_conv)
    then show ?thesis
      using gen by (cases "col_kind c")
        (auto simp: HashGroupRow_def True row_key_def row_val_def hash_key_single)
  qed (use gen in \<open>simp add: HashGroupRow_def\<close>)
qed

section \<open>Matching\<close>

lemma all_res_total:
  "(\<And>x. x \<in> set xs \<Longrightarrow> f x = Inr (P x)) \<Longrightarrow> all_res f xs = Inr (list_all P xs)"
  by (induction xs) auto

lemma ref_string_short_eq:
  assumes "ref_ok a n r" "ref_ok b m s" "ref_len r = ref_len s" "ref_prefix r = ref_prefix s" "ref_len r \<le> 8"
  shows "ref_string a r = ref_string b s"
  using assms by (simp add: ref_string_cases [OF assms(1)] ref_string_cases [OF assms(2)])

text \<open>The three-stage comparison decides equality of the strings.\<close>

lemma match_string_refs_exact:
  assumes a: "ref_ok heap_a n r" and b: "ref_ok heap_b m s"
  shows "match_string_refs err r (VecStringRefDataPtr r (Some heap_a)) s (VecStringRefDataPtr s (Some heap_b)) =
    Inr (ref_string heap_a r = ref_string heap_b s)"
proof (cases "ref_len r = ref_len s \<and> ref_prefix r = ref_prefix s")
  case False
  then have "ref_string heap_a r \<noteq> ref_string heap_b s"
    using length_ref_string [OF a] length_ref_string [OF b] ref_prefix_string [OF a] ref_prefix_string [OF b]
    by (metis word_unat_eq_iff)
  then show ?thesis using False by (simp add: match_string_refs_def)
next
  case True
  show ?thesis
  proof (cases "ref_len r \<le> 8")
    case le: True
    then show ?thesis
      using True ref_string_short_eq [OF a b] by (simp add: match_string_refs_def)
  next
    case False
    have "take (unat (ref_len r)) (ref_string heap_a r) = ref_string heap_a r"
      "take (unat (ref_len r)) (ref_string heap_b s) = ref_string heap_b s"
      using length_ref_string [OF a] length_ref_string [OF b] True by simp_all
    then show ?thesis using True False by (simp add: match_string_refs_def)
  qed
qed

lemma match_chunk_column_exact:
  assumes "col_kind rc = STRING_REF \<Longrightarrow> ref_ok (tdc_heap t) n (read_string_ref (unat (col_offset rc)) row)"
    and "col_kind rc = STRING_REF \<Longrightarrow>
      ref_ok (string_arena ch) m (get_string_ref ch (unat (col_src_col_idx cc)) i)"
    and "col_kind rc = col_kind cc"
  shows "match_chunk_column err (Some t) row ch i rc cc = Inr (row_val (tdc_heap t) row rc = chunk_val ch i cc)"
  using assms
  by (cases "col_kind rc")
    (auto simp: match_chunk_column_def row_val_def chunk_val_def heap_base_def get_string_ptr_def
      match_string_refs_exact simp del: DataPtr_Some)

lemma key_eq_all:
  "map f xs = map g ys \<longleftrightarrow> length xs = length ys \<and> list_all (\<lambda>(x, y). f x = g y) (zip xs ys)"
  by (induction xs arbitrary: ys) (case_tac ys, auto)+

lemma MatchGroup_key:
  assumes "row_refs_ok l (tdc_heap t) n row" "chunk_row_ok l ch i"
  shows "MatchGroup l (Some t) row ch i = Inr (row_key l (tdc_heap t) row = chunk_key l ch i)"
proof -
  have "MatchGroup l (Some t) row ch i =
    Inr (list_all (\<lambda>c. row_val (tdc_heap t) row c = chunk_val ch i c) (columns l))"
    unfolding MatchGroup_def using assms
    by (intro all_res_total match_chunk_column_exact) (auto simp: row_refs_ok_def chunk_row_ok_def)
  then show ?thesis
    by (simp add: row_key_def chunk_key_def list_all_iff)
qed

text \<open>Values of different kinds differ, so the kind test of the two-layout variant is the key test.\<close>

lemma vals_kind: "row_val heap row rc = chunk_val ch i cc \<Longrightarrow> col_kind rc = col_kind cc"
  by (cases "col_kind rc"; cases "col_kind cc") (auto simp: row_val_def chunk_val_def Let_def)

lemma MatchGroupLayouts_key:
  assumes "row_refs_ok l (tdc_heap t) n row" "chunk_row_ok m ch i" "layout_ok l" "layout_ok m"
  shows "MatchGroupLayouts l (Some t) row m ch i = Inr (row_key l (tdc_heap t) row = chunk_key m ch i)"
proof -
  define P where "P = (\<lambda>(rc, cc). row_val (tdc_heap t) row rc = chunk_val ch i cc)"
  have at: "(if col_kind rc \<noteq> col_kind cc \<or> col_width rc \<noteq> col_width cc then Inr False
      else match_chunk_column err (Some t) row ch i rc cc) = Inr (P (rc, cc))"
    if "rc \<in> set (columns l)" "cc \<in> set (columns m)" for rc cc err
  proof (cases "col_kind rc = col_kind cc")
    case True
    then have "col_width rc = col_width cc" using that assms(3,4) by (auto simp: layout_ok_def)
    moreover have "match_chunk_column err (Some t) row ch i rc cc = Inr (P (rc, cc))"
      unfolding P_def prod.case using True that assms(1,2)
      by (intro match_chunk_column_exact) (auto simp: row_refs_ok_def chunk_row_ok_def)
    ultimately show ?thesis using True by simp
  qed (use vals_kind in \<open>auto simp: P_def\<close>)
  have key: "row_key l (tdc_heap t) row = chunk_key m ch i \<longleftrightarrow>
    length (columns l) = length (columns m) \<and> list_all P (zip (columns l) (columns m))"
    unfolding row_key_def chunk_key_def P_def by (rule key_eq_all)
  show ?thesis
  proof (cases "length (columns l) = length (columns m)")
    case len: True
    have loop: "all_res (\<lambda>(rc, cc). if col_kind rc \<noteq> col_kind cc \<or> col_width rc \<noteq> col_width cc then Inr False
        else match_chunk_column err (Some t) row ch i rc cc) (zip (columns l) (columns m)) =
      Inr (list_all P (zip (columns l) (columns m)))" for err
    proof (rule all_res_total)
      fix x assume x: "x \<in> set (zip (columns l) (columns m))"
      obtain rc cc where "x = (rc, cc)" by (cases x)
      then show "(case x of (rc, cc) \<Rightarrow> if col_kind rc \<noteq> col_kind cc \<or> col_width rc \<noteq> col_width cc
          then Inr False else match_chunk_column err (Some t) row ch i rc cc) = Inr (P x)"
        using x at [OF set_zip_leftD set_zip_rightD] by fastforce
    qed
    consider (one) "length (columns l) = 1" | (two) "length (columns l) = 2"
      "col_kind (columns l ! 0) = INT32" "col_kind (columns l ! 1) = INT32"
      "col_kind (columns m ! 0) = INT32" "col_kind (columns m ! 1) = INT32"
      | (other) "length (columns l) \<noteq> 1" "\<not> (length (columns l) = 2 \<and>
          col_kind (columns l ! 0) = INT32 \<and> col_kind (columns l ! 1) = INT32 \<and>
          col_kind (columns m ! 0) = INT32 \<and> col_kind (columns m ! 1) = INT32)"
      by blast
    then show ?thesis
    proof cases
      case one
      then obtain c d where "columns l = [c]" "columns m = [d]"
        using len by (auto simp: length_Suc_conv)
      then show ?thesis
        unfolding key using at [of c d] loop
        by (simp add: MatchGroupLayouts_def column_count_def Let_def)
    next
      case two
      then obtain c d c' d' where c: "columns l = [c, d]" "columns m = [c', d']"
        using len by (auto simp: length_Suc_conv numeral_2_eq_2)
      then show ?thesis
        unfolding key using two
        by (auto simp: MatchGroupLayouts_def column_count_def LayoutHasStringColumns_def P_def
            row_val_def chunk_val_def)
    next
      case other
      then show ?thesis
        unfolding key using loop len
        by (auto simp: MatchGroupLayouts_def column_count_def Let_def)
    qed
  qed (simp add: key MatchGroupLayouts_def column_count_def)
qed

section \<open>Comparing two rows\<close>

text \<open>
  Without string columns the whole group region of two rows is compared at once. That is the
  comparison of the keys when the region holds the columns and nothing else: the columns were
  appended before the aggregates, and the gaps are the zero bytes of the allocation.
\<close>

fun tiled :: "nat \<Rightarrow> tdc_column_desc list \<Rightarrow> bool" where
  "tiled off [] = True"
| "tiled off (c # cs) \<longleftrightarrow>
     unat (col_offset c) = off \<and> tiled (off + unat (aligned_advance (col_width c))) cs"

fun tiled_end :: "nat \<Rightarrow> tdc_column_desc list \<Rightarrow> nat" where
  "tiled_end off [] = off"
| "tiled_end off (c # cs) = tiled_end (off + unat (aligned_advance (col_width c))) cs"

lemma tiled_append:
  "tiled off (cs @ [c]) \<longleftrightarrow> tiled off cs \<and> unat (col_offset c) = tiled_end off cs"
  "tiled_end off (cs @ [c]) = tiled_end off cs + unat (aligned_advance (col_width c))"
  by (induction cs arbitrary: off) auto

text \<open>Columns first: the builders append every column before the first aggregate.\<close>

fun columns_first :: "layout_request list \<Rightarrow> bool" where
  "columns_first [] = True"
| "columns_first (ReqColumn k src oid sc # rs) = columns_first rs"
| "columns_first (ReqAggregate k src oid sc # rs) \<longleftrightarrow> column_requests rs = []"

definition group_first :: "tuple_data_layout \<Rightarrow> bool" where
  "group_first l \<longleftrightarrow> tiled 0 (columns l)"

lemma no_more_columns:
  "fold_res apply_request rs l = Inr l' \<Longrightarrow> column_requests rs = [] \<Longrightarrow> columns l' = columns l"
proof (induction rs arbitrary: l)
  case Nil
  then show ?case by simp
next
  case (Cons r rs)
  then obtain m where "apply_request r l = Inr m" "fold_res apply_request rs m = Inr l'"
    by (auto simp: res_simps)
  with Cons show ?case by (cases r) (auto simp: res_simps dest!: AppendAggregate_cases)
qed

lemma AppendColumn_tiled:
  assumes "layout_ok l" "TupleDataLayoutAppendColumn l k src oid sc = Inr (l', idx)"
    and "tiled 0 (columns l)" "tiled_end 0 (columns l) = unat (layout_row_width l)" "aggregates l = []"
  shows "tiled 0 (columns l')" "tiled_end 0 (columns l') = unat (layout_row_width l')" "aggregates l' = []"
proof -
  have len: "length (columns l) < 32"
    and l': "l' = l\<lparr>columns := columns l @ [\<lparr>col_kind = k, col_offset = layout_row_width l,
        col_width = TupleDataLayoutColumnWidth k, col_src_col_idx = src, col_numeric_scale = sc,
        col_pg_type_oid = oid\<rparr>],
        layout_row_width := layout_row_width l + aligned_advance (TupleDataLayoutColumnWidth k)\<rparr>"
    using assms(2) by (auto simp: TupleDataLayoutAppendColumn_def column_count_def
        TUPLE_DATA_MAX_COLUMNS_def Let_def split: if_splits)
  have "unat (layout_row_width l + aligned_advance (TupleDataLayoutColumnWidth k)) =
    unat (layout_row_width l) + unat (aligned_advance (TupleDataLayoutColumnWidth k))"
    using assms(1,5) len by (intro row_width_add) (auto simp: layout_ok_def advance_column)
  then show "tiled 0 (columns l')" "tiled_end 0 (columns l') = unat (layout_row_width l')" "aggregates l' = []"
    using assms(3-5) by (simp_all add: l' tiled_append)
qed

lemma columns_first_tiled:
  "fold_res apply_request rs l = Inr l' \<Longrightarrow> columns_first rs \<Longrightarrow> layout_ok l \<Longrightarrow> aggregates l = [] \<Longrightarrow>
   tiled 0 (columns l) \<Longrightarrow> tiled_end 0 (columns l) = unat (layout_row_width l) \<Longrightarrow> tiled 0 (columns l')"
proof (induction rs arbitrary: l)
  case Nil
  then show ?case by simp
next
  case (Cons r rs)
  obtain m where m: "apply_request r l = Inr m" "fold_res apply_request rs m = Inr l'"
    using Cons.prems(1) by (auto simp: res_simps)
  show ?case
  proof (cases r)
    case (ReqColumn k src oid sc)
    then obtain idx where "TupleDataLayoutAppendColumn l k src oid sc = Inr (m, idx)"
      using m by (auto simp: res_simps)
    from AppendColumn_tiled [OF _ this] AppendColumn_ok [OF _ this] show ?thesis
      using Cons m ReqColumn by auto
  next
    case (ReqAggregate k src oid sc)
    then have "columns m = columns l" using m by (auto simp: res_simps dest!: AppendAggregate_cases)
    then show ?thesis using no_more_columns [OF m(2)] Cons.prems ReqAggregate by simp
  qed
qed

lemma build_group_first:
  assumes "build_layout rs = Inr l" "columns_first rs"
  shows "group_first l"
proof -
  obtain m where m: "fold_res apply_request rs TupleDataLayoutInit = Inr m" "l = TupleDataLayoutSeal m"
    using assms by (auto simp: build_layout_def res_simps)
  have "tiled 0 (columns m)"
    by (rule columns_first_tiled [OF m(1) assms(2) layout_ok_Init])
      (simp_all add: TupleDataLayoutInit_def)
  then show ?thesis by (simp add: m(2) group_first_def TupleDataLayoutSeal_def Let_def)
qed

text \<open>Every byte below the end of a tiling belongs to one column.\<close>

lemma tiled_covers:
  "tiled off cs \<Longrightarrow> off \<le> i \<Longrightarrow> i < tiled_end off cs \<Longrightarrow>
   \<exists>c\<in>set cs. unat (col_offset c) \<le> i \<and> i < unat (col_offset c) + unat (aligned_advance (col_width c))"
proof (induction cs arbitrary: off)
  case Nil
  then show ?case by simp
next
  case (Cons c cs)
  then show ?case by (cases "i < off + unat (aligned_advance (col_width c))") auto
qed

lemma tiled_end_ge:
  "off \<le> tiled_end off cs"
  by (induction cs arbitrary: off) (auto intro: order.trans [OF le_add1])

lemma tiled_fields_le:
  "tiled off cs \<Longrightarrow> c \<in> set cs \<Longrightarrow> col_width c = TupleDataLayoutColumnWidth (col_kind c) \<Longrightarrow>
   unat (col_offset c) + unat (col_width c) \<le> tiled_end off cs"
proof (induction cs arbitrary: off)
  case Nil
  then show ?case by simp
next
  case (Cons d cs)
  show ?case
  proof (cases "c = d")
    case True
    have "unat (col_width c) \<le> unat (aligned_advance (col_width c))"
      unfolding Cons.prems(3) by (cases "col_kind c") (simp_all add: aligned_advance_values)
    then show ?thesis
      using True Cons.prems(1) tiled_end_ge [of "off + unat (aligned_advance (col_width c))" cs] by simp
  qed (use Cons in auto)
qed

lemma fold_max_bounds:
  fixes f :: "'a \<Rightarrow> 'b::linorder"
  shows "w \<le> fold (\<lambda>x w. max w (f x)) xs w \<and> (\<forall>x\<in>set xs. f x \<le> fold (\<lambda>x w. max w (f x)) xs w) \<and>
    fold (\<lambda>x w. max w (f x)) xs w \<in> insert w (f ` set xs)"
proof (induction xs arbitrary: w)
  case Nil
  then show ?case by simp
next
  case (Cons x xs)
  from Cons [of "max w (f x)"] show ?case by (auto simp: max_def split: if_splits)
qed

lemma region_width:
  assumes "layout_ok l" "group_first l"
  shows "unat (LayoutGroupRegionWidth l) \<le> tiled_end 0 (columns l)"
    and "c \<in> set (columns l) \<Longrightarrow> unat (col_offset c) + unat (col_width c) \<le> unat (LayoutGroupRegionWidth l)"
    and "unat (LayoutGroupRegionWidth l) \<le> unat (layout_row_width l)"
proof -
  have "unat (layout_row_width l) \<le> 16 * 64" using assms(1) by (auto simp: layout_ok_def)
  moreover have in_row: "unat (col_offset c) + unat (col_width c) \<le> unat (layout_row_width l)"
    if "c \<in> set (columns l)" for c
    using layout_ok_column [OF assms(1) that] by simp
  ultimately have sum: "unat (col_offset c + col_width c) = unat (col_offset c) + unat (col_width c)"
    if "c \<in> set (columns l)" for c
    using that by (subst unat_word_ariths) (fastforce intro: mod_less)
  note F = fold_max_bounds [of 0 "\<lambda>c. col_offset c + col_width c" "columns l",
      folded LayoutGroupRegionWidth_def]
  have "unat (col_offset c) + unat (col_width c) \<le> tiled_end 0 (columns l)"
    if "c \<in> set (columns l)" for c
    using that assms by (intro tiled_fields_le) (auto simp: layout_ok_def group_first_def)
  then show "unat (LayoutGroupRegionWidth l) \<le> tiled_end 0 (columns l)"
    using F sum by auto
  show "unat (LayoutGroupRegionWidth l) \<le> unat (layout_row_width l)"
    using F sum in_row by auto
  show "c \<in> set (columns l) \<Longrightarrow>
    unat (col_offset c) + unat (col_width c) \<le> unat (LayoutGroupRegionWidth l)"
    using F sum [of c] by (metis word_le_nat_alt)
qed

lemma mem_read_eq_iff_nth:
  "off + n \<le> length a \<Longrightarrow> off + n \<le> length b \<Longrightarrow>
   mem_read off n a = mem_read off n b \<longleftrightarrow> (\<forall>i<n. a ! (off + i) = b ! (off + i))"
  by (auto simp: mem_read_def list_eq_iff_nth_eq)

text \<open>Equal values of a column are equal bytes of its field, and with the padding of its block.\<close>

lemma row_val_bytes:
  assumes "col_kind c \<noteq> STRING_REF" "col_width c = TupleDataLayoutColumnWidth (col_kind c)"
    and "unat (col_offset c) + unat (col_width c) \<le> length a" "length a = length b"
  shows "row_val ha a c = row_val hb b c \<longleftrightarrow>
    mem_read (unat (col_offset c)) (unat (col_width c)) a = mem_read (unat (col_offset c)) (unat (col_width c)) b"
  using assms
  by (cases "col_kind c") (auto simp: row_val_def get_u32_eq_iff get_u64_eq_iff)

lemma pad_bytes:
  assumes "row_pad_ok l row" "c \<in> set (columns l)" "col_kind c = INT32" "k < 4"
    and "unat (col_offset c) + 8 \<le> length row"
  shows "row ! (unat (col_offset c) + 4 + k) = 0"
proof -
  have "mem_read (unat (col_offset c) + 4) 4 row ! k = replicate 4 0 ! k"
    using assms(1-3) by (simp add: row_pad_ok_def)
  then show ?thesis using assms(4,5) by (simp add: mem_read_def)
qed

lemma region_eq_iff:
  assumes l: "layout_ok l" "group_first l" "\<not> LayoutHasStringColumns l"
    and a: "length a = unat (layout_row_width l)" "row_pad_ok l a"
    and b: "length b = unat (layout_row_width l)" "row_pad_ok l b"
  shows "mem_read 0 (unat (LayoutGroupRegionWidth l)) a = mem_read 0 (unat (LayoutGroupRegionWidth l)) b
    \<longleftrightarrow> row_key l ha a = row_key l hb b" (is "?region \<longleftrightarrow> _")
proof -
  let ?W = "unat (LayoutGroupRegionWidth l)"
  have region: "?region \<longleftrightarrow> (\<forall>i<?W. a ! i = b ! i)"
    using region_width(3) [OF l(1,2)] a(1) b(1) mem_read_eq_iff_nth [of 0 ?W a b] by simp
  have no_string: "col_kind c \<noteq> STRING_REF" if "c \<in> set (columns l)" for c
    using l(3) that by (auto simp: LayoutHasStringColumns_def list_ex_iff)
  have val: "row_val ha a c = row_val hb b c \<longleftrightarrow>
      (\<forall>k<unat (col_width c). a ! (unat (col_offset c) + k) = b ! (unat (col_offset c) + k))"
    if "c \<in> set (columns l)" for c
    using layout_ok_column [OF l(1) that] no_string [OF that] a(1) b(1)
    by (subst row_val_bytes) (simp_all add: mem_read_eq_iff_nth)
  have "(\<forall>i<?W. a ! i = b ! i) \<longleftrightarrow> (\<forall>c\<in>set (columns l). row_val ha a c = row_val hb b c)"
  proof (intro iffI ballI allI impI)
    fix c assume "\<forall>i<?W. a ! i = b ! i" and c: "c \<in> set (columns l)"
    then show "row_val ha a c = row_val hb b c"
      using region_width(2) [OF l(1,2) c] by (simp add: val [OF c])
  next
    fix i assume eq: "\<forall>c\<in>set (columns l). row_val ha a c = row_val hb b c" and i: "i < ?W"
    then obtain c where c: "c \<in> set (columns l)" "unat (col_offset c) \<le> i"
      "i < unat (col_offset c) + unat (aligned_advance (col_width c))"
      using tiled_covers [of 0 "columns l" i] region_width(1) [OF l(1,2)] l(2)
      by (auto simp: group_first_def)
    have w: "col_width c = TupleDataLayoutColumnWidth (col_kind c)"
      using layout_ok_column(2) [OF l(1) c(1)] .
    show "a ! i = b ! i"
    proof (cases "i < unat (col_offset c) + unat (col_width c)")
      case True
      then have "i - unat (col_offset c) < unat (col_width c)" using c(2) by simp
      then show ?thesis using eq c(1,2) val [OF c(1)] by fastforce
    next
      case False
      then have k: "col_kind c = INT32"
        using c w no_string by (cases "col_kind c") (auto simp: aligned_advance_values)
      define k where "k = i - unat (col_offset c) - 4"
      have i: "i = unat (col_offset c) + 4 + k" "k < 4"
        using False c k w by (auto simp: k_def aligned_advance_values)
      have "unat (col_offset c) + 8 \<le> unat (layout_row_width l)"
      proof -
        have "8 dvd unat (col_offset c)" "8 dvd unat (layout_row_width l)"
          "unat (col_offset c) + 4 \<le> unat (layout_row_width l)"
          using layout_ok_column [OF l(1) c(1)] l(1) k by (auto simp: layout_ok_def)
        then show ?thesis by presburger
      qed
      then show ?thesis using a b c(1) k i by (simp add: pad_bytes)
    qed
  qed
  then show ?thesis by (simp add: region row_key_def)
qed

lemma MatchGroupRow_key:
  assumes l: "layout_ok l" "group_first l"
    and a: "row_ok l (tdc_heap ta) ua a" and b: "row_ok l (tdc_heap tb) ub b"
  shows "MatchGroupRow l (Some ta) a (Some tb) b =
    Inr (row_key l (tdc_heap ta) a = row_key l (tdc_heap tb) b)"
proof (cases "LayoutHasStringColumns l")
  case False
  then show ?thesis
    using region_eq_iff [OF l False] a b by (simp add: MatchGroupRow_def row_ok_def)
next
  case True
  have len: "length a = unat (layout_row_width l)" "length b = unat (layout_row_width l)"
    using a b by (simp_all add: row_ok_def)
  have "all_res (\<lambda>col.
        let off = unat (col_offset col)
        in if col_kind col = STRING_REF
           then let ref_a = read_string_ref off a; ref_b = read_string_ref off b
                in match_string_refs ''STRING_REF row-store match missing heap backing''
                     ref_a (VecStringRefDataPtr ref_a (heap_base (Some ta)))
                     ref_b (VecStringRefDataPtr ref_b (heap_base (Some tb)))
           else Inr (mem_read off (unat (col_width col)) a = mem_read off (unat (col_width col)) b))
        (columns l) =
    Inr (list_all (\<lambda>c. row_val (tdc_heap ta) a c = row_val (tdc_heap tb) b c) (columns l))"
  proof (rule all_res_total)
    fix c assume c: "c \<in> set (columns l)"
    show "(let off = unat (col_offset c)
        in if col_kind c = STRING_REF
           then let ref_a = read_string_ref off a; ref_b = read_string_ref off b
                in match_string_refs ''STRING_REF row-store match missing heap backing''
                     ref_a (VecStringRefDataPtr ref_a (heap_base (Some ta)))
                     ref_b (VecStringRefDataPtr ref_b (heap_base (Some tb)))
           else Inr (mem_read off (unat (col_width c)) a = mem_read off (unat (col_width c)) b)) =
      Inr (row_val (tdc_heap ta) a c = row_val (tdc_heap tb) b c)"
    proof (cases "col_kind c = STRING_REF")
      case True
      then have "ref_ok (tdc_heap ta) ua (read_string_ref (unat (col_offset c)) a)"
        "ref_ok (tdc_heap tb) ub (read_string_ref (unat (col_offset c)) b)"
        using a b c by (auto simp: row_ok_def row_refs_ok_def)
      then show ?thesis
        using True by (simp add: heap_base_def row_val_def match_string_refs_exact Let_def del: DataPtr_Some)
    next
      case False
      then show ?thesis
        using layout_ok_column [OF l(1) c] len by (simp add: row_val_bytes Let_def)
    qed
  qed
  then show ?thesis
    unfolding MatchGroupRow_def using True by (simp only: row_key_def list_all_iff) simp
qed

section \<open>Scattering a key into a row\<close>

text \<open>What a store leaves alone: everything but the unused end of the string heap.\<close>

definition tdc_ext :: "tuple_data_collection \<Rightarrow> tuple_data_collection \<Rightarrow> bool" where
  "tdc_ext t u \<longleftrightarrow>
     tdc_rows u = tdc_rows t \<and> tdc_row_count u = tdc_row_count t \<and>
     tdc_row_width u = tdc_row_width t \<and> tdc_row_capacity u = tdc_row_capacity t \<and>
     tdc_heap_capacity u = tdc_heap_capacity t \<and> tdc_heap_used t \<le> tdc_heap_used u \<and>
     (\<forall>off k. off + k \<le> tdc_heap_used t \<longrightarrow> mem_read off k (tdc_heap u) = mem_read off k (tdc_heap t))"

lemma tdc_ext_refl [simp]: "tdc_ext t t"
  by (simp add: tdc_ext_def)

lemma tdc_ext_trans: "tdc_ext t u \<Longrightarrow> tdc_ext u v \<Longrightarrow> tdc_ext t v"
  by (auto simp: tdc_ext_def)

text \<open>References made before a store keep their strings.\<close>

lemma tdc_ext_ref:
  assumes "tdc_ext t u" "tdc_ok u" "ref_ok (tdc_heap t) (tdc_heap_used t) r"
  shows "ref_ok (tdc_heap u) (tdc_heap_used u) r" "ref_string (tdc_heap u) r = ref_string (tdc_heap t) r"
  using ref_ok_grow [OF assms(3), of "tdc_heap_used u" "tdc_heap u"] assms(1,2)
  by (auto simp: tdc_ext_def tdc_ok_def)

lemma tdc_ext_row:
  assumes "tdc_ext t u" "tdc_ok u" "row_refs_ok l (tdc_heap t) (tdc_heap_used t) row"
  shows "row_refs_ok l (tdc_heap u) (tdc_heap_used u) row"
    and "row_key l (tdc_heap u) row = row_key l (tdc_heap t) row"
proof -
  show "row_refs_ok l (tdc_heap u) (tdc_heap_used u) row"
    using assms tdc_ext_ref by (auto simp: row_refs_ok_def)
  show "row_key l (tdc_heap u) row = row_key l (tdc_heap t) row"
    using assms tdc_ext_ref
    by (auto simp: row_key_def row_val_def row_refs_ok_def Let_def split: tdc_column_kind.splits)
qed

lemma tdc_ext_row_ok:
  "tdc_ext t u \<Longrightarrow> tdc_ok u \<Longrightarrow> row_ok l (tdc_heap t) (tdc_heap_used t) row \<Longrightarrow>
   row_ok l (tdc_heap u) (tdc_heap_used u) row"
  using tdc_ext_row by (auto simp: row_ok_def)

text \<open>The heap bytes that a row's long strings take.\<close>

definition string_need :: "data_chunk \<Rightarrow> nat \<Rightarrow> tdc_column_desc \<Rightarrow> nat" where
  "string_need ch i c =
     (if col_kind c = STRING_REF
      then HeapBytesNeededForStringLength (unat (ref_len (get_string_ref ch (unat (col_src_col_idx c)) i)))
      else 0)"

definition key_need :: "tuple_data_layout \<Rightarrow> data_chunk \<Rightarrow> nat \<Rightarrow> nat" where
  "key_need l ch i = sum_list (map (string_need ch i) (columns l))"

lemma read_string_ref_apart:
  assumes "off + length bs \<le> length row" "o2 + 16 \<le> length row" "o2 + 16 \<le> off \<or> off + length bs \<le> o2"
  shows "read_string_ref o2 (mem_write off bs row) = read_string_ref o2 row"
  using assms by (auto simp: read_string_ref_def get_u32_write_apart get_u64_write_apart)

text \<open>A write outside a column's field does not change the column's value.\<close>

lemma row_val_apart:
  assumes "layout_ok l" "c \<in> set (columns l)" "length row = unat (layout_row_width l)"
    and "off + length bs \<le> length row"
    and "unat (col_offset c) + unat (col_width c) \<le> off \<or> off + length bs \<le> unat (col_offset c)"
  shows "row_val heap (mem_write off bs row) c = row_val heap row c"
    and "col_kind c = STRING_REF \<Longrightarrow>
      read_string_ref (unat (col_offset c)) (mem_write off bs row) = read_string_ref (unat (col_offset c)) row"
  using layout_ok_column [OF assms(1,2)] assms(3-5)
  by (cases "col_kind c"; auto simp: row_val_def read_string_ref_apart get_u32_write_apart get_u64_write_apart)+

lemma scatter_column:
  assumes l: "layout_ok l" "d \<in> set (columns l)" and t: "tdc_ok t"
    and ch: "chunk_row_ok l ch i" and len: "length row = unat (layout_row_width l)"
    and room: "string_need ch i d \<le> tdc_heap_capacity t - tdc_heap_used t"
  shows "\<exists>bs u. ScatterGroupColumn ch i d (row, Some t) = Inr (mem_write (unat (col_offset d)) bs row, Some u) \<and>
    length bs = unat (col_width d) \<and> tdc_ok u \<and> tdc_ext t u \<and>
    tdc_heap_used u = tdc_heap_used t + string_need ch i d \<and>
    row_val (tdc_heap u) (mem_write (unat (col_offset d)) bs row) d = chunk_val ch i d \<and>
    (col_kind d = STRING_REF \<longrightarrow> ref_ok (tdc_heap u) (tdc_heap_used u)
      (read_string_ref (unat (col_offset d)) (mem_write (unat (col_offset d)) bs row)))"
proof (cases "col_kind d = STRING_REF")
  case False
  have "unat (col_offset d) + unat (col_width d) \<le> length row"
    using layout_ok_column(1) [OF l] len by simp
  then show ?thesis
    using False layout_ok_column(2) [OF l] t
    by (cases "col_kind d")
      (auto simp: ScatterGroupColumn_def string_need_def put_u32_def put_u64_def row_val_def chunk_val_def
        mem_simps [unfolded put_u32_def put_u64_def])
next
  case True
  define src where "src = get_string_ref ch (unat (col_src_col_idx d)) i"
  define s where "s = ref_string (string_arena ch) src"
  have src: "ref_ok (string_arena ch) (length (string_arena ch)) src"
    using ch l(2) True by (auto simp: chunk_row_ok_def src_def)
  have slen: "unat (ref_len src) = length s"
    using length_ref_string [OF src] by (simp add: s_def)
  have need: "string_need ch i d = HeapBytesNeededForStringLength (length s)"
    using True slen by (simp add: string_need_def src_def [symmetric])
  obtain r u where st: "TupleDataCollectionStoreStringBytes t (Some s) (ref_len src) = (True, r, u)"
    using StoreString_succeeds [OF t slen] room need
    by (cases "TupleDataCollectionStoreStringBytes t (Some s) (ref_len src)") auto
  note ref = StoreString_ref [OF t st slen]
  have frame: "tdc_ok u" "tdc_ext t u"
    using StoreString_frame [OF t st] slen by (auto simp: tdc_ext_def)
  have off: "unat (col_offset d) + 16 \<le> length row"
    using layout_ok_column [OF l] len True by simp
  let ?bs = "le_bytes 4 (unat (ref_len r)) @ le_bytes 4 (unat (ref_offset r)) @ le_bytes 8 (unat (ref_prefix r))"
  have w: "write_string_ref (unat (col_offset d)) r row = mem_write (unat (col_offset d)) ?bs row"
    by (simp add: write_string_ref_def)
  have rd: "read_string_ref (unat (col_offset d)) (mem_write (unat (col_offset d)) ?bs row) = r"
    using read_write_string_ref [OF off, of r] by (simp only: w)
  have "ScatterGroupColumn ch i d (row, Some t) = Inr (mem_write (unat (col_offset d)) ?bs row, Some u)"
    using True st by (simp add: ScatterGroupColumn_def get_string_ptr_def src_def [symmetric]
        s_def [symmetric] w [symmetric] Let_def)
  moreover have "row_val (tdc_heap u) (mem_write (unat (col_offset d)) ?bs row) d = chunk_val ch i d"
    using True ref(2) by (simp add: row_val_def chunk_val_def rd src_def [symmetric] s_def [symmetric])
  ultimately show ?thesis
    using True frame ref need layout_ok_column(2) [OF l] rd
    by (intro exI [of _ ?bs] exI [of _ u]) simp
qed

text \<open>
  Scattering from a chunk and copying from another row are the same loop over the columns: each step
  writes the column's field so that it holds the value \<^verbatim>\<open>val d\<close> and takes \<^verbatim>\<open>need d\<close> bytes of the heap.
\<close>

definition column_step ::
  "tuple_data_layout \<Rightarrow> (tdc_column_desc \<Rightarrow> gval) \<Rightarrow> (tdc_column_desc \<Rightarrow> nat) \<Rightarrow> (tuple_data_collection \<Rightarrow> 't) \<Rightarrow>
   (tdc_column_desc \<Rightarrow> u8 list \<times> 't \<Rightarrow> (u8 list \<times> 't) result) \<Rightarrow> bool" where
  "column_step l val need W F \<longleftrightarrow>
     (\<forall>d\<in>set (columns l). \<forall>row t. tdc_ok t \<longrightarrow> length row = unat (layout_row_width l) \<longrightarrow>
        need d \<le> tdc_heap_capacity t - tdc_heap_used t \<longrightarrow>
        (\<exists>bs u. F d (row, W t) = Inr (mem_write (unat (col_offset d)) bs row, W u) \<and>
          length bs = unat (col_width d) \<and> tdc_ok u \<and> tdc_ext t u \<and>
          tdc_heap_used u = tdc_heap_used t + need d \<and>
          row_val (tdc_heap u) (mem_write (unat (col_offset d)) bs row) d = val d \<and>
          (col_kind d = STRING_REF \<longrightarrow> ref_ok (tdc_heap u) (tdc_heap_used u)
            (read_string_ref (unat (col_offset d)) (mem_write (unat (col_offset d)) bs row)))))"

lemma column_step_scatter:
  "layout_ok l \<Longrightarrow> chunk_row_ok l ch i \<Longrightarrow>
   column_step l (chunk_val ch i) (string_need ch i) Some (ScatterGroupColumn ch i)"
  unfolding column_step_def by (intro ballI allI impI scatter_column)

text \<open>The state of the loop after the columns of \<^verbatim>\<open>done\<close>.\<close>

definition scatter_inv ::
  "tuple_data_layout \<Rightarrow> (tdc_column_desc \<Rightarrow> gval) \<Rightarrow> u8 list \<Rightarrow> tdc_column_desc list \<Rightarrow> u8 list \<Rightarrow>
   tuple_data_collection \<Rightarrow> bool" where
  "scatter_inv l val row0 done row t \<longleftrightarrow>
     tdc_ok t \<and> length row = unat (layout_row_width l) \<and> row_pad_ok l row \<and>
     (\<forall>c\<in>set done. row_val (tdc_heap t) row c = val c \<and>
        (col_kind c = STRING_REF \<longrightarrow>
           ref_ok (tdc_heap t) (tdc_heap_used t) (read_string_ref (unat (col_offset c)) row))) \<and>
     (\<forall>off n. off + n \<le> length row \<longrightarrow>
        (\<forall>c\<in>set (columns l). apart (off, n) (unat (col_offset c), unat (col_width c))) \<longrightarrow>
        mem_read off n row = mem_read off n row0)"

lemma columns_apart:
  assumes "layout_ok l" "columns l = xs @ d # ys" "c \<in> set xs \<union> set ys"
  shows "unat (col_offset c) + unat (col_width c) \<le> unat (col_offset d) \<or>
    unat (col_offset d) + unat (col_width d) \<le> unat (col_offset c)"
proof -
  define f :: "tdc_column_desc \<Rightarrow> nat \<times> nat"
    where "f = (\<lambda>c. (unat (col_offset c), unat (col_width c)))"
  have "distinct (map f (columns l))" and ap: "pairwise apart (set (row_fields l))"
    using assms(1) by (auto simp: layout_ok_def row_fields_def f_def)
  then have "f d \<notin> f ` set xs" "f d \<notin> f ` set ys"
    by (simp_all add: assms(2))
  then have "f c \<noteq> f d" using assms(3) by (metis UnE imageI)
  moreover have "f c \<in> set (row_fields l)" "f d \<in> set (row_fields l)"
    using assms(2,3) by (auto simp: row_fields_def f_def)
  ultimately have "apart (f c) (f d)" using ap by (simp add: pairwise_def)
  then show ?thesis by (simp add: apart_def f_def)
qed

lemma column_aggregate_apart:
  assumes "layout_ok l" "c \<in> set (columns l)" "a \<in> set (aggregates l)"
  shows "apart (unat (col_offset c), unat (col_width c)) (unat (agg_offset a), unat (agg_width a))"
proof -
  let ?f = "\<lambda>c. (unat (col_offset c), unat (col_width c))" and ?g = "\<lambda>a. (unat (agg_offset a), unat (agg_width a))"
  have "distinct (row_fields l)" "pairwise apart (set (row_fields l))"
    using assms(1) by (auto simp: layout_ok_def)
  moreover have "?f c \<in> ?f ` set (columns l)" "?g a \<in> ?g ` set (aggregates l)" using assms by blast+
  ultimately show ?thesis
    unfolding row_fields_def pairwise_def
    by (metis (no_types, lifting) IntI UnCI distinct_append empty_iff list.set_map set_append)
qed

text \<open>Padding is outside every field that starts on an 8-byte boundary.\<close>

lemma pad_kept:
  assumes "row_pad_ok l row" "layout_ok l" "length row = unat (layout_row_width l)" "8 dvd off"
    and "off + length bs \<le> length row"
    and "\<And>c. c \<in> set (columns l) \<Longrightarrow> col_kind c = INT32 \<Longrightarrow>
      unat (col_offset c) + 4 \<le> off \<or> off + length bs \<le> unat (col_offset c) + 4"
  shows "row_pad_ok l (mem_write off bs row)"
  unfolding row_pad_ok_def
proof (intro ballI impI)
  fix c assume c: "c \<in> set (columns l)" "col_kind c = INT32"
  have a: "8 dvd unat (col_offset c)" "8 dvd unat (layout_row_width l)"
    "unat (col_offset c) + 4 \<le> unat (layout_row_width l)"
    using layout_ok_column [OF assms(2) c(1)] assms(2) c(2) by (auto simp: layout_ok_def)
  then have in_row: "unat (col_offset c) + 8 \<le> unat (layout_row_width l)" by presburger
  have "unat (col_offset c) + 8 \<le> off \<or> off + length bs \<le> unat (col_offset c) + 4"
    using assms(6) [OF c] a(1) assms(4) by presburger
  then have "mem_read (unat (col_offset c) + 4) 4 (mem_write off bs row) = mem_read (unat (col_offset c) + 4) 4 row"
    using in_row assms(3,5) by (intro mem_read_write_apart) auto
  then show "mem_read (unat (col_offset c) + 4) 4 (mem_write off bs row) = replicate 4 0"
    using assms(1) c by (simp add: row_pad_ok_def)
qed

lemma apart_dvd:
  "8 dvd (a :: nat) \<Longrightarrow> 8 dvd b \<Longrightarrow> a + 4 \<le> b \<or> b + k \<le> a \<Longrightarrow> a + 4 \<le> b \<or> b + k \<le> a + 4"
  by auto

lemma scatter_inv_step:
  assumes l: "layout_ok l" "columns l = done @ d # rest" and F: "column_step l val need W F"
    and inv: "scatter_inv l val row0 done row t"
    and room: "need d \<le> tdc_heap_capacity t - tdc_heap_used t"
  shows "\<exists>row' u. F d (row, W t) = Inr (row', W u) \<and>
    scatter_inv l val row0 (done @ [d]) row' u \<and> tdc_ext t u \<and>
    tdc_heap_used u = tdc_heap_used t + need d"
proof -
  have d: "d \<in> set (columns l)" by (simp add: l(2))
  have t: "tdc_ok t" and len: "length row = unat (layout_row_width l)" and pad: "row_pad_ok l row"
    using inv by (auto simp: scatter_inv_def)
  obtain bs u where u: "F d (row, W t) = Inr (mem_write (unat (col_offset d)) bs row, W u)"
      "length bs = unat (col_width d)" "tdc_ok u" "tdc_ext t u"
      "tdc_heap_used u = tdc_heap_used t + need d"
      "row_val (tdc_heap u) (mem_write (unat (col_offset d)) bs row) d = val d"
      "col_kind d = STRING_REF \<Longrightarrow> ref_ok (tdc_heap u) (tdc_heap_used u)
        (read_string_ref (unat (col_offset d)) (mem_write (unat (col_offset d)) bs row))"
    using F d t len room unfolding column_step_def by blast
  define row' where "row' = mem_write (unat (col_offset d)) bs row"
  have in_row: "unat (col_offset d) + length bs \<le> length row"
    using layout_ok_column(1) [OF l(1) d] len u(2) by simp
  have old: "row_val (tdc_heap u) row' c = val c \<and> (col_kind c = STRING_REF \<longrightarrow>
      ref_ok (tdc_heap u) (tdc_heap_used u) (read_string_ref (unat (col_offset c)) row'))"
    if c: "c \<in> set done" for c
  proof -
    have cl: "c \<in> set (columns l)" using c by (simp add: l(2))
    have ap: "unat (col_offset c) + unat (col_width c) \<le> unat (col_offset d) \<or>
        unat (col_offset d) + length bs \<le> unat (col_offset c)"
      using columns_apart [OF l, of c] c u(2) by simp
    note same = row_val_apart [OF l(1) cl len in_row ap, folded row'_def]
    have t_c: "row_val (tdc_heap t) row c = val c"
      "col_kind c = STRING_REF \<Longrightarrow> ref_ok (tdc_heap t) (tdc_heap_used t) (read_string_ref (unat (col_offset c)) row)"
      using inv c by (auto simp: scatter_inv_def)
    have "row_val (tdc_heap u) row c = row_val (tdc_heap t) row c"
      using tdc_ext_ref(2) [OF u(4,3) t_c(2)]
      by (cases "col_kind c") (simp_all add: row_val_def)
    then show ?thesis using same t_c tdc_ext_ref(1) [OF u(4,3) t_c(2)] by simp
  qed
  have "row_pad_ok l row'"
    unfolding row'_def
  proof (rule pad_kept [OF pad l(1) len _ in_row])
    show "8 dvd unat (col_offset d)" using layout_ok_column(3) [OF l(1) d] .
    fix c assume c: "c \<in> set (columns l)" "col_kind c = INT32"
    show "unat (col_offset c) + 4 \<le> unat (col_offset d) \<or>
      unat (col_offset d) + length bs \<le> unat (col_offset c) + 4"
    proof (cases "c = d")
      case True
      then show ?thesis using c u(2) layout_ok_column(2) [OF l(1) d] by simp
    next
      case False
      then show ?thesis
        using columns_apart [OF l, of c] c layout_ok_column(2) [OF l(1) c(1)] u(2) l(2) by auto
    qed
  qed
  moreover have "mem_read off n row' = mem_read off n row0"
    if "off + n \<le> length row" "\<forall>c\<in>set (columns l). apart (off, n) (unat (col_offset c), unat (col_width c))"
    for off n
  proof -
    have "mem_read off n row' = mem_read off n row"
      unfolding row'_def using that d in_row u(2)
      by (intro mem_read_write_apart) (auto simp: apart_def)
    then show ?thesis using inv that by (simp add: scatter_inv_def)
  qed
  ultimately have "scatter_inv l val row0 (done @ [d]) row' u"
    using old u len in_row by (auto simp: scatter_inv_def row'_def)
  then show ?thesis using u row'_def by blast
qed

lemma scatter_loop:
  assumes "layout_ok l" "column_step l val need W F"
  shows "columns l = done @ rest \<Longrightarrow> scatter_inv l val row0 done row t \<Longrightarrow>
    sum_list (map need rest) \<le> tdc_heap_capacity t - tdc_heap_used t \<Longrightarrow>
    \<exists>row' u. fold_res (F) rest (row, W t) = Inr (row', W u) \<and>
      scatter_inv l val row0 (columns l) row' u \<and> tdc_ext t u \<and>
      tdc_heap_used u = tdc_heap_used t + sum_list (map need rest)"
proof (induction rest arbitrary: "done" row t)
  case Nil
  then show ?case by (intro exI [of _ row] exI [of _ t]) simp
next
  case (Cons d rest)
  have "need d \<le> tdc_heap_capacity t - tdc_heap_used t" using Cons.prems(3) by simp
  from scatter_inv_step [OF assms(1) Cons.prems(1) assms(2) Cons.prems(2) this]
  obtain row1 u1 where 1: "F d (row, W t) = Inr (row1, W u1)"
    "scatter_inv l val row0 (done @ [d]) row1 u1" "tdc_ext t u1"
    "tdc_heap_used u1 = tdc_heap_used t + need d" by blast
  have "sum_list (map need rest) \<le> tdc_heap_capacity u1 - tdc_heap_used u1"
    using Cons.prems(3) 1(3,4) by (simp add: tdc_ext_def)
  from Cons.IH [OF _ 1(2) this] obtain row2 u2 where
    "fold_res (F) rest (row1, W u1) = Inr (row2, W u2)"
    "scatter_inv l val row0 (columns l) row2 u2" "tdc_ext u1 u2"
    "tdc_heap_used u2 = tdc_heap_used u1 + sum_list (map need rest)"
    using Cons.prems(1) by auto
  then show ?case using 1 by (auto intro: tdc_ext_trans)
qed

text \<open>The whole loop on a row with clean padding.\<close>

lemma column_loop:
  assumes "layout_ok l" "column_step l val need W F" "tdc_ok t"
    and "length row = unat (layout_row_width l)" "row_pad_ok l row"
    and "sum_list (map need (columns l)) \<le> tdc_heap_capacity t - tdc_heap_used t"
  obtains row' u where "fold_res F (columns l) (row, W t) = Inr (row', W u)"
    and "row_ok l (tdc_heap u) (tdc_heap_used u) row'" and "row_key l (tdc_heap u) row' = map val (columns l)"
    and "tdc_ok u" and "tdc_ext t u" and "tdc_heap_used u = tdc_heap_used t + sum_list (map need (columns l))"
    and "\<And>a. a \<in> set (aggregates l) \<Longrightarrow> mem_read (unat (agg_offset a)) (unat (agg_width a)) row' =
      mem_read (unat (agg_offset a)) (unat (agg_width a)) row"
proof -
  have "scatter_inv l val row [] row t" using assms by (simp add: scatter_inv_def)
  from scatter_loop [OF assms(1,2) _ this, of "columns l"] assms(6)
  obtain row' u where *: "fold_res F (columns l) (row, W t) = Inr (row', W u)"
    "scatter_inv l val row (columns l) row' u" "tdc_ext t u"
    "tdc_heap_used u = tdc_heap_used t + sum_list (map need (columns l))"
    by auto
  have "mem_read (unat (agg_offset a)) (unat (agg_width a)) row' =
      mem_read (unat (agg_offset a)) (unat (agg_width a)) row" if a: "a \<in> set (aggregates l)" for a
  proof -
    have "\<forall>c\<in>set (columns l). apart (unat (agg_offset a), unat (agg_width a)) (unat (col_offset c), unat (col_width c))"
      using column_aggregate_apart [OF assms(1) _ a] by (auto simp: apart_def)
    moreover have "unat (agg_offset a) + unat (agg_width a) \<le> length row'"
      using *(2) layout_ok_aggregate(1) [OF assms(1) a] by (simp add: scatter_inv_def)
    ultimately show ?thesis using *(2) unfolding scatter_inv_def by blast
  qed
  then show thesis
    using * that [of row' u]
    by (auto simp: scatter_inv_def row_ok_def row_refs_ok_def row_key_def)
qed

lemma ScatterGroupColumns_ok:
  assumes "layout_ok l" "chunk_row_ok l ch i" "tdc_ok t"
    and "length row = unat (layout_row_width l)" "row_pad_ok l row"
    and "key_need l ch i \<le> tdc_heap_capacity t - tdc_heap_used t"
  obtains row' u where "ScatterGroupColumns l ch i (row, Some t) = Inr (row', Some u)"
    and "row_ok l (tdc_heap u) (tdc_heap_used u) row'" and "row_key l (tdc_heap u) row' = chunk_key l ch i"
    and "tdc_ok u" and "tdc_ext t u" and "tdc_heap_used u = tdc_heap_used t + key_need l ch i"
    and "\<And>a. a \<in> set (aggregates l) \<Longrightarrow> mem_read (unat (agg_offset a)) (unat (agg_width a)) row' =
      mem_read (unat (agg_offset a)) (unat (agg_width a)) row"
  using column_loop [OF assms(1) column_step_scatter [OF assms(1,2)] assms(3-5)] assms(6)
  unfolding ScatterGroupColumns_def key_need_def chunk_key_def by metis

section \<open>The heap requirement\<close>

lemma need_bound: "string_need ch i c < 2 ^ 32"
  using unat_less_u32 by (simp add: string_need_def HeapBytesNeededForStringLength_def)

lemma required_sum:
  assumes "r0 + sum_list (map (string_need ch i) cs) < 2 ^ 64"
  shows "fold (\<lambda>c required. if col_kind c \<noteq> STRING_REF then required
      else wrap64 (required + HeapBytesNeededForStringLength
             (unat (ref_len (get_string_ref ch (unat (col_src_col_idx c)) i))))) cs r0 =
    r0 + sum_list (map (string_need ch i) cs)"
  using assms
proof (induction cs arbitrary: r0)
  case Nil
  then show ?case by simp
next
  case (Cons c cs)
  show ?case
  proof (cases "col_kind c = STRING_REF")
    case True
    have "wrap64 (r0 + HeapBytesNeededForStringLength
             (unat (ref_len (get_string_ref ch (unat (col_src_col_idx c)) i)))) = r0 + string_need ch i c"
      using Cons.prems True by (simp add: string_need_def)
    then show ?thesis using Cons.IH [of "r0 + string_need ch i c"] Cons.prems True by simp
  next
    case False
    then show ?thesis using Cons by (simp add: string_need_def)
  qed
qed

lemma key_need_bound:
  assumes "layout_ok l"
  shows "key_need l ch i < 2 ^ 64"
proof -
  have "sum_list (map (string_need ch i) cs) \<le> length cs * 2 ^ 32" for cs
  proof (induction cs)
    case Nil
    then show ?case by simp
  next
    case (Cons c cs)
    then show ?case using need_bound [of ch i c] by simp
  qed
  from this [of "columns l"] show ?thesis
    using assms by (simp add: key_need_def layout_ok_def)
qed

lemma RequiredHeapBytesForChunkRow_need:
  "layout_ok l \<Longrightarrow> TupleDataCollectionRequiredHeapBytesForChunkRow l ch i = min (key_need l ch i) UINT32_MAX"
  using key_need_bound [of l ch i]
  by (simp add: TupleDataCollectionRequiredHeapBytesForChunkRow_def key_need_def Let_def min_def
      required_sum [of 0, simplified])

lemma HasSpace_need:
  assumes "layout_ok l" "tdc_ok t" "tdc_heap_capacity t < UINT32_MAX"
    and "TupleDataCollectionHasSpaceForAppend t (TupleDataCollectionRequiredHeapBytesForChunkRow l ch i)"
  shows "tdc_row_count t < tdc_row_capacity t" "key_need l ch i \<le> tdc_heap_capacity t - tdc_heap_used t"
  using assms
  by (auto simp: TupleDataCollectionHasSpaceForAppend_def RequiredHeapBytesForChunkRow_need min_def
      split: if_splits)

section \<open>Fresh rows\<close>

text \<open>Zeroed memory is a sound row: every string is empty and the padding is zero.\<close>

lemma le_nat_zeros [simp]: "le_nat (replicate k 0) = 0"
  by (induction k) auto

lemma mem_read_zeros: "off + n \<le> k \<Longrightarrow> mem_read off n (replicate k 0) = replicate n 0"
  by (simp add: mem_read_def)

lemma read_string_ref_zeros:
  "off + 16 \<le> k \<Longrightarrow> read_string_ref off (replicate k 0) = \<lparr>ref_len = 0, ref_offset = 0, ref_prefix = 0\<rparr>"
  by (simp add: read_string_ref_def get_u32_def get_u64_def mem_read_zeros)

lemma zero_row_ok:
  assumes "layout_ok l"
  shows "row_ok l heap used (replicate (unat (layout_row_width l)) 0)"
proof -
  have "mem_read (unat (col_offset c) + 4) 4 (replicate (unat (layout_row_width l)) 0) = replicate 4 0"
    if "c \<in> set (columns l)" "col_kind c = INT32" for c
  proof (rule mem_read_zeros)
    have "8 dvd unat (col_offset c)" "8 dvd unat (layout_row_width l)"
      "unat (col_offset c) + 4 \<le> unat (layout_row_width l)"
      using layout_ok_column [OF assms that(1)] assms that(2) by (auto simp: layout_ok_def)
    then show "unat (col_offset c) + 4 + 4 \<le> unat (layout_row_width l)" by presburger
  qed
  moreover have "unat (col_offset c) + 16 \<le> unat (layout_row_width l)"
    if "c \<in> set (columns l)" "col_kind c = STRING_REF" for c
    using layout_ok_column [OF assms that(1)] that(2) by simp
  ultimately show ?thesis
    by (auto simp: row_ok_def row_refs_ok_def row_pad_ok_def mem_read_zeros read_string_ref_zeros ref_ok_def)
qed

text \<open>A small instance: a string and an integer column, two aggregates, one chunk row.\<close>

definition demo_layout :: tuple_data_layout where
  "demo_layout = (case build_layout q1_requests of Inr l \<Rightarrow> l | Inl e \<Rightarrow> TupleDataLayoutInit)"

definition demo_chunk :: data_chunk where
  "demo_chunk = empty_chunk\<lparr>chunk_count := 1, int32_class := set_cell 1 0 7 (int32_class empty_chunk)\<rparr>"

definition demo_tdc :: tuple_data_collection where
  "demo_tdc = TupleDataCollectionInit 4 48 64"

definition demo_row :: "u8 list" where
  "demo_row = replicate 48 0"

lemma demo_facts:
  "build_layout q1_requests = Inr demo_layout" "layout_ok demo_layout" "group_first demo_layout"
  "unat (layout_row_width demo_layout) = 48" "tdc_ok demo_tdc" "chunk_row_ok demo_layout demo_chunk 0"
  "row_ok demo_layout (tdc_heap demo_tdc) (tdc_heap_used demo_tdc) demo_row"
proof -
  show b: "build_layout q1_requests = Inr demo_layout" by (simp add: demo_layout_def q1_layout)
  show ok: "layout_ok demo_layout" by (rule build_layout_ok [OF b])
  show "group_first demo_layout" by (rule build_group_first [OF b]) (simp add: q1_requests_def)
  show w: "unat (layout_row_width demo_layout) = 48" by (simp add: demo_layout_def q1_layout)
  show "tdc_ok demo_tdc" by (simp add: demo_tdc_def tdc_ok_Init)
  show "chunk_row_ok demo_layout demo_chunk 0"
    by (simp add: chunk_row_ok_def demo_chunk_def get_string_ref_def get_cell_def empty_chunk_def
        plain_class_def ref_ok_def)
  show "row_ok demo_layout (tdc_heap demo_tdc) (tdc_heap_used demo_tdc) demo_row"
    using zero_row_ok [OF ok] by (simp add: demo_row_def w)
qed

lemma demo_key: "chunk_key demo_layout demo_chunk 0 = [GString [], GInt32 7]"
  by (simp add: chunk_key_def chunk_val_def demo_layout_def q1_layout demo_chunk_def get_string_ref_def
      get_int32_def get_cell_def empty_chunk_def plain_class_def set_cell_def ref_string_def
      VecStringRefDataPtr_def)

lemma demo_row_key: "row_key demo_layout (tdc_heap demo_tdc) demo_row = [GString [], GInt32 0]"
  by (simp add: row_key_def row_val_def demo_layout_def q1_layout demo_row_def read_string_ref_zeros
      ref_string_def VecStringRefDataPtr_def get_u32_def mem_read_zeros)

section \<open>Properties\<close>

text \<open>C32: A group key hashes to the same value in a chunk and in the row it was scattered to, whatever
  mix of integer, double and string columns it has, including the single-integer fast paths; hashing
  a row never raises the missing-heap error on sound references.\<close>

theorem group_hash_agrees:
  assumes "chunk_row_ok l ch i" and "row_refs_ok l (tdc_heap t) n row"
  shows "\<exists>h g. HashGroup l ch i = Inr h \<and> HashGroupRow l (Some t) row = Inr g \<and>
    (row_key l (tdc_heap t) row = chunk_key l ch i \<longrightarrow> h = g)"
  using HashGroup_key [OF assms(1)] HashGroupRow_key [OF assms(2)] by simp

theorem group_hash_agrees_witness:
  "\<exists>h g. HashGroup demo_layout demo_chunk 0 = Inr h \<and> HashGroupRow demo_layout (Some demo_tdc) demo_row = Inr g"
  using group_hash_agrees [of demo_layout demo_chunk 0 demo_tdc "tdc_heap_used demo_tdc" demo_row] demo_facts
  by (auto simp: row_ok_def)

text \<open>C31: MatchGroup, MatchGroupLayouts and MatchGroupRow decide equality of the group keys exactly:
  the byte comparison of the whole group region, the prefix tests on strings and the fast paths for
  one or two integer columns never accept different keys nor reject equal ones.\<close>

theorem group_match_exact:
  assumes "layout_ok l" "layout_ok m" "group_first l" "chunk_row_ok l ch i" "chunk_row_ok m ch i"
    and "row_ok l (tdc_heap t) n row" "row_ok l (tdc_heap u) k other"
  shows "MatchGroup l (Some t) row ch i = Inr (row_key l (tdc_heap t) row = chunk_key l ch i) \<and>
    MatchGroupLayouts l (Some t) row m ch i = Inr (row_key l (tdc_heap t) row = chunk_key m ch i) \<and>
    MatchGroupRow l (Some t) row (Some u) other =
      Inr (row_key l (tdc_heap t) row = row_key l (tdc_heap u) other)"
  using MatchGroup_key MatchGroupLayouts_key MatchGroupRow_key assms by (auto simp: row_ok_def)

theorem group_match_exact_witness:
  "MatchGroup demo_layout (Some demo_tdc) demo_row demo_chunk 0 = Inr False \<and>
   MatchGroupRow demo_layout (Some demo_tdc) demo_row (Some demo_tdc) demo_row = Inr True"
  using group_match_exact [of demo_layout demo_layout demo_chunk 0 demo_tdc "tdc_heap_used demo_tdc" demo_row
      demo_tdc "tdc_heap_used demo_tdc" demo_row] demo_facts demo_key demo_row_key
  by simp

text \<open>C30: When the space check with the computed heap requirement succeeds, appending a row and
  scattering a chunk row into it succeeds, the row then holds exactly the chunk row's key, and every
  row that was sound before stays sound and keeps its key.\<close>

theorem append_scatter_succeeds:
  assumes "layout_ok l" "chunk_row_ok l ch i" "tdc_ok t" "tdc_heap_capacity t < UINT32_MAX"
    and "TupleDataCollectionHasSpaceForAppend t (TupleDataCollectionRequiredHeapBytesForChunkRow l ch i)"
    and "length row = unat (layout_row_width l)" "row_pad_ok l row"
    and "TupleDataCollectionAppendRow t = (idx, t1)"
  shows "idx = tdc_row_count t \<and> idx < tdc_row_capacity t \<and>
    (\<exists>row' u. ScatterGroupColumns l ch i (row, Some t1) = Inr (row', Some u) \<and> tdc_ok u \<and>
      row_ok l (tdc_heap u) (tdc_heap_used u) row' \<and> row_key l (tdc_heap u) row' = chunk_key l ch i \<and>
      (\<forall>old. row_ok l (tdc_heap t) (tdc_heap_used t) old \<longrightarrow>
         row_ok l (tdc_heap u) (tdc_heap_used u) old \<and>
         row_key l (tdc_heap u) old = row_key l (tdc_heap t) old))"
proof -
  note space = HasSpace_need [OF assms(1,3-5)]
  have t1: "idx = tdc_row_count t" "t1 = t\<lparr>tdc_row_count := tdc_row_count t + 1\<rparr>"
    using AppendRow_index [OF assms(3,8)] space(1) by simp_all
  have "tdc_ok t1" using tdc_ok_AppendRow [OF assms(3,8)] .
  moreover have "key_need l ch i \<le> tdc_heap_capacity t1 - tdc_heap_used t1"
    using space(2) by (simp add: t1)
  ultimately obtain row' u where *: "ScatterGroupColumns l ch i (row, Some t1) = Inr (row', Some u)"
    "row_ok l (tdc_heap u) (tdc_heap_used u) row'" "row_key l (tdc_heap u) row' = chunk_key l ch i"
    "tdc_ok u" "tdc_ext t1 u"
    using ScatterGroupColumns_ok [OF assms(1,2) _ assms(6,7)] by metis
  have "row_ok l (tdc_heap u) (tdc_heap_used u) old \<and>
         row_key l (tdc_heap u) old = row_key l (tdc_heap t) old"
    if "row_ok l (tdc_heap t) (tdc_heap_used t) old" for old
    using tdc_ext_row_ok [OF *(5,4), of l old] tdc_ext_row(2) [OF *(5,4), of l old] that
    by (simp add: t1 row_ok_def)
  then show ?thesis using * t1 space(1) by blast
qed

theorem append_scatter_succeeds_witness:
  "\<exists>row' u. ScatterGroupColumns demo_layout demo_chunk 0
      (demo_row, Some (demo_tdc\<lparr>tdc_row_count := 1\<rparr>)) = Inr (row', Some u) \<and>
    row_key demo_layout (tdc_heap u) row' = [GString [], GInt32 7]"
proof -
  have app: "TupleDataCollectionAppendRow demo_tdc = (0, demo_tdc\<lparr>tdc_row_count := 1\<rparr>)"
    by (simp add: TupleDataCollectionAppendRow_def demo_tdc_def TupleDataCollectionInit_def)
  have "key_need demo_layout demo_chunk 0 = 0"
    by (simp add: key_need_def string_need_def demo_layout_def q1_layout demo_chunk_def get_string_ref_def
        get_cell_def empty_chunk_def plain_class_def HeapBytesNeededForStringLength_def)
  then have space: "TupleDataCollectionHasSpaceForAppend demo_tdc
      (TupleDataCollectionRequiredHeapBytesForChunkRow demo_layout demo_chunk 0)"
    by (simp add: RequiredHeapBytesForChunkRow_need demo_facts TupleDataCollectionHasSpaceForAppend_def
        demo_tdc_def TupleDataCollectionInit_def)
  have "tdc_heap_capacity demo_tdc < UINT32_MAX" "length demo_row = unat (layout_row_width demo_layout)"
    "row_pad_ok demo_layout demo_row"
    using demo_facts(7) by (simp_all add: demo_tdc_def TupleDataCollectionInit_def UINT32_MAX_def row_ok_def)
  from append_scatter_succeeds [OF demo_facts(2,6,5) this(1) space this(2,3) app] show ?thesis
    unfolding demo_key by metis
qed

end
