(* ===== verification/Probe.thy ===== *)
theory Probe
  imports Prelude
begin

text \<open>
  Open addressing without deletion, the scheme of the aggregate hash table, of the delta directory of
  the batched aggregate update and of the join hash table. A table is a partial function from slots
  to entries; a key has a probe sequence of slots; a search walks the sequence to the first slot that
  is empty or holds the key. The locale states what a probe sequence must provide and proves, once,
  that searching and claiming the empty slot it ends in implement a map from keys to entries.
\<close>

text \<open>The search along a list of slots: the slot where it stopped, and the entry if it matched.\<close>

fun search :: "(nat \<Rightarrow> 'e option) \<Rightarrow> ('e \<Rightarrow> bool) \<Rightarrow> nat list \<Rightarrow> (nat \<times> 'e option) option" where
  "search tab P [] = None"
| "search tab P (s # ss) =
     (case tab s of
        None \<Rightarrow> Some (s, None)
      | Some e \<Rightarrow> if P e then Some (s, Some e) else search tab P ss)"

text \<open>
  Every entry is found before an empty slot on its own probe sequence, and no key is entered twice.
\<close>

definition table_ok :: "nat \<Rightarrow> ('k \<Rightarrow> nat \<Rightarrow> nat) \<Rightarrow> ('e \<Rightarrow> 'k) \<Rightarrow> (nat \<Rightarrow> 'e option) \<Rightarrow> bool" where
  "table_ok N sq key tab \<longleftrightarrow>
     (\<forall>s e. tab s = Some e \<longrightarrow> s < N \<and> (\<exists>i<N. sq (key e) i = s \<and> (\<forall>j<i. tab (sq (key e) j) \<noteq> None))) \<and>
     (\<forall>s t e f. tab s = Some e \<longrightarrow> tab t = Some f \<longrightarrow> key e = key f \<longrightarrow> s = t)"

lemma table_ok_empty [simp]: "table_ok N sq key (\<lambda>_. None)"
  by (simp add: table_ok_def)

lemma table_ok_cong:
  "(\<And>s e. tab s = Some e \<Longrightarrow> key' e = key e) \<Longrightarrow> table_ok N sq key tab \<Longrightarrow> table_ok N sq key' tab"
  unfolding table_ok_def by metis

lemma search_cong:
  "(\<And>s e. s \<in> set ss \<Longrightarrow> tab s = Some e \<Longrightarrow> P e = Q e) \<Longrightarrow> search tab P ss = search tab Q ss"
  by (induction ss) (auto split: option.splits)

lemma search_skip:
  "(\<And>s. s \<in> set ss \<Longrightarrow> \<exists>e. tab s = Some e \<and> \<not> P e) \<Longrightarrow> search tab P (ss @ ts) = search tab P ts"
  by (induction ss) force+

text \<open>Where a search can stop.\<close>

lemma search_stops:
  "search tab P ss = Some (s, res) \<Longrightarrow>
   \<exists>i<length ss. s = ss ! i \<and> tab s = res \<and> (\<forall>j<i. \<exists>e. tab (ss ! j) = Some e \<and> \<not> P e) \<and>
     (\<forall>e. res = Some e \<longrightarrow> P e)"
proof (induction ss)
  case Nil
  then show ?case by simp
next
  case (Cons t ss)
  show ?case
  proof (cases "\<exists>e. tab t = Some e \<and> \<not> P e")
    case True
    then have "search tab P ss = Some (s, res)" using Cons.prems by auto
    from Cons.IH [OF this] obtain i where "i < length ss" "s = ss ! i" "tab s = res"
      "\<forall>j<i. \<exists>e. tab (ss ! j) = Some e \<and> \<not> P e" "\<forall>e. res = Some e \<longrightarrow> P e" by blast
    with True show ?thesis by (intro exI [of _ "Suc i"]) (auto simp: less_Suc_eq_0_disj)
  next
    case False
    then show ?thesis using Cons.prems by (intro exI [of _ 0]) (auto split: option.splits if_splits)
  qed
qed

lemma search_None: "search tab P ss = None \<Longrightarrow> s \<in> set ss \<Longrightarrow> tab s \<noteq> None"
  by (induction ss) (auto split: option.splits if_splits)

locale probe_table =
  fixes N :: nat and sq :: "'k \<Rightarrow> nat \<Rightarrow> nat"
  assumes sq_less: "i < N \<Longrightarrow> sq k i < N"
    and sq_inj: "inj_on (sq k) {..<N}"
begin

lemma sq_onto: "s < N \<Longrightarrow> \<exists>i<N. sq k i = s"
proof -
  assume "s < N"
  have "sq k ` {..<N} = {..<N}"
    using sq_inj sq_less by (intro endo_inj_surj) auto
  with \<open>s < N\<close> have "s \<in> sq k ` {..<N}" by simp
  then show "\<exists>i<N. sq k i = s" by auto
qed

lemma search_hit:
  assumes ok: "table_ok N sq key tab" and e: "tab s = Some e"
  shows "search tab (\<lambda>f. key f = key e) (map (sq (key e)) [0..<N]) = Some (s, Some e)"
proof -
  obtain i where i: "i < N" "sq (key e) i = s" "\<forall>j<i. tab (sq (key e) j) \<noteq> None"
    using ok e unfolding table_ok_def by blast
  have before: "\<exists>f. tab t = Some f \<and> key f \<noteq> key e" if t: "t \<in> set (map (sq (key e)) [0..<i])" for t
  proof -
    obtain j where j: "j < i" "t = sq (key e) j" using t by auto
    then obtain f where f: "tab t = Some f" using i(3) by auto
    have "t \<noteq> s"
      using j i sq_inj [of "key e"] by (metis inj_onD lessThan_iff less_irrefl order.strict_trans)
    then have "key f \<noteq> key e" using ok e f unfolding table_ok_def by blast
    with f show ?thesis by blast
  qed
  have "[0..<N] = [0..<i] @ i # [Suc i..<N]"
    using i(1) upt_conv_Cons [of i N] upt_add_eq_append [of 0 i "N - i"] by simp
  then have "search tab (\<lambda>f. key f = key e) (map (sq (key e)) [0..<N]) =
    search tab (\<lambda>f. key f = key e) (map (sq (key e)) (i # [Suc i..<N]))"
    by (simp only: map_append search_skip [OF before])
  then show ?thesis using e i(2) by simp
qed

lemma search_miss:
  assumes ok: "table_ok N sq key tab" and new: "\<And>s e. tab s = Some e \<Longrightarrow> key e \<noteq> k"
    and free: "s0 < N" "tab s0 = None"
  obtains s where "search tab (\<lambda>f. key f = k) (map (sq k) [0..<N]) = Some (s, None)"
    and "s < N" and "tab s = None" and "\<And>e. key e = k \<Longrightarrow> table_ok N sq key (tab(s \<mapsto> e))"
proof (cases "search tab (\<lambda>f. key f = k) (map (sq k) [0..<N])")
  case None
  moreover have "s0 \<in> set (map (sq k) [0..<N])" using sq_onto [OF free(1), of k] by auto
  ultimately have False using search_None free(2) by metis
  then show thesis ..
next
  case (Some r)
  obtain s res where r: "r = (s, res)" by fastforce
  obtain i where i: "i < N" "s = sq k i" "tab s = res"
    "\<forall>j<i. \<exists>e. tab (sq k j) = Some e" "\<forall>e. res = Some e \<longrightarrow> key e = k"
  proof -
    from search_stops [OF Some [unfolded r]] obtain i where
      "i < length (map (sq k) [0..<N])" "s = map (sq k) [0..<N] ! i" "tab s = res"
      "\<forall>j<i. \<exists>e. tab (map (sq k) [0..<N] ! j) = Some e \<and> key e \<noteq> k" "\<forall>e. res = Some e \<longrightarrow> key e = k"
      by blast
    then show thesis by (intro that [of i]) auto
  qed
  have res: "res = None" using i(3,5) new by (cases res) auto
  have "table_ok N sq key (tab(s \<mapsto> e))" if e: "key e = k" for e
    unfolding table_ok_def
  proof (rule conjI; clarify)
    fix t f assume f: "(tab(s \<mapsto> e)) t = Some f"
    show "t < N \<and> (\<exists>i<N. sq (key f) i = t \<and> (\<forall>j<i. (tab(s \<mapsto> e)) (sq (key f) j) \<noteq> None))"
    proof (cases "t = s")
      case True
      then have "f = e" using f by simp
      then show ?thesis using True i e sq_less by (auto intro!: exI [of _ i])
    next
      case False
      then have "tab t = Some f" using f by simp
      then obtain j where "t < N" "j < N" "sq (key f) j = t" "\<forall>m<j. tab (sq (key f) m) \<noteq> None"
        using ok unfolding table_ok_def by blast
      then show ?thesis by auto
    qed
  next
    fix t u f g assume "(tab(s \<mapsto> e)) t = Some f" "(tab(s \<mapsto> e)) u = Some g" "key f = key g"
    then show "t = u"
      using ok new e unfolding table_ok_def by (auto split: if_splits; metis)
  qed
  then show thesis using that [of s] Some r res i sq_less by auto
qed

text \<open>A table with fewer entries than slots has a free one.\<close>

lemma free_slot:
  assumes ok: "table_ok N sq key tab" and B: "finite B" "card B < N"
    and keys: "\<And>s e. tab s = Some e \<Longrightarrow> key e \<in> B"
  shows "\<exists>s<N. tab s = None"
proof (rule ccontr)
  define k where "k = (\<lambda>s. key (the (tab s)))"
  assume "\<not> (\<exists>s<N. tab s = None)"
  then have full: "\<exists>e. tab s = Some e" if "s < N" for s using that by auto
  have "inj_on k {..<N}"
  proof (rule inj_onI)
    fix s t assume "s \<in> {..<N}" "t \<in> {..<N}" "k s = k t"
    moreover obtain e f where "tab s = Some e" "tab t = Some f"
      using full [of s] full [of t] calculation by auto
    ultimately have "tab s = Some e" "tab t = Some f" "key e = key f"
      by (simp_all add: k_def)
    then show "s = t" using ok unfolding table_ok_def by blast
  qed
  moreover have "k ` {..<N} \<subseteq> B" using full keys by (fastforce simp: k_def)
  ultimately have "card {..<N} \<le> card B" using B(1) by (metis card_inj_on_le)
  then show False using B(2) by simp
qed

end

text \<open>Arithmetic probe sequences: a start and a step coprime to the capacity.\<close>

lemma probe_table_arith:
  assumes "0 < N" and "\<And>k. coprime (step k) N"
  shows "probe_table N (\<lambda>k. probe_pos N (start k) (step k))"
  by unfold_locales (use assms probe_pos_inj in auto)

end
