(* ===== verification/AggStates.thy ===== *)
theory AggStates
  imports GroupKeys Probe
begin

text \<open>
  The aggregate states of a row: what the update, combine and batched-update routines of TupleOps
  compute on them. A state is read from its field as a pair (the second component is the count of an
  average); the routines are the reference steps on these pairs, and the batched update through
  per-row deltas equals the row-at-a-time update.
\<close>

section \<open>Independent cells\<close>

text \<open>
  Fields that can be read and written independently. The lemmas on loops over distinct fields are
  proved here once, for any such store.
\<close>

locale cells =
  fixes view :: "'c \<Rightarrow> 's \<Rightarrow> 'v" and put :: "'c \<Rightarrow> 'v \<Rightarrow> 's \<Rightarrow> 's"
    and fits :: "'c \<Rightarrow> 's \<Rightarrow> bool" and indep :: "'c \<Rightarrow> 'c \<Rightarrow> bool" and norm :: "'c \<Rightarrow> 'v \<Rightarrow> 'v"
  assumes view_put: "fits c s \<Longrightarrow> view c (put c v s) = norm c v"
    and fits_put: "fits c s \<Longrightarrow> fits d s \<Longrightarrow> fits d (put c v s)"
    and put_put: "fits c s \<Longrightarrow> put c v (put c w s) = put c v s"
    and put_commute: "indep c d \<Longrightarrow> fits c s \<Longrightarrow> fits d s \<Longrightarrow> put c v (put d w s) = put d w (put c v s)"
    and view_other: "indep c d \<Longrightarrow> fits c s \<Longrightarrow> fits d s \<Longrightarrow> view d (put c v s) = view d s"
    and put_view: "fits c s \<Longrightarrow> put c (view c s) s = s"
    and norm_view: "norm c (view c s) = view c s"
    and put_norm: "put c (norm c v) s = put c v s"
    and indep_sym: "indep c d \<Longrightarrow> indep d c"
begin

definition modify :: "('c \<Rightarrow> 'v \<Rightarrow> 'v) \<Rightarrow> 'c \<Rightarrow> 's \<Rightarrow> 's" where
  "modify f c s = put c (f c (view c s)) s"

definition all_fit :: "'c list \<Rightarrow> 's \<Rightarrow> bool" where
  "all_fit cs s \<longleftrightarrow> (\<forall>c\<in>set cs. fits c s)"

lemma fits_modify: "fits c s \<Longrightarrow> fits d s \<Longrightarrow> fits d (modify f c s)"
  by (simp add: modify_def fits_put)

lemma all_fit_modify: "all_fit cs s \<Longrightarrow> fits c s \<Longrightarrow> all_fit cs (modify f c s)"
  by (simp add: all_fit_def fits_modify)

lemma all_fit_fold: "all_fit cs s \<Longrightarrow> set ds \<subseteq> set cs \<Longrightarrow> all_fit cs (fold (modify f) ds s)"
  by (induction ds arbitrary: s) (auto simp: all_fit_modify, auto simp: all_fit_def fits_modify)

lemma modify_commute:
  "indep c d \<Longrightarrow> fits c s \<Longrightarrow> fits d s \<Longrightarrow> modify f c (modify g d s) = modify g d (modify f c s)"
  using indep_sym by (simp add: modify_def view_other put_commute)

lemma modify_fold_commute:
  "\<forall>d\<in>set ds. indep c d \<Longrightarrow> fits c s \<Longrightarrow> all_fit ds s \<Longrightarrow>
   modify f c (fold (modify g) ds s) = fold (modify g) ds (modify f c s)"
proof (induction ds arbitrary: s)
  case Nil
  then show ?case by simp
next
  case (Cons d ds)
  then have "fits d s" "all_fit ds s" by (auto simp: all_fit_def)
  then have "modify f c (fold (modify g) ds (modify g d s)) = fold (modify g) ds (modify f c (modify g d s))"
    using Cons.prems by (intro Cons.IH) (auto simp: fits_modify all_fit_modify)
  moreover have "modify f c (modify g d s) = modify g d (modify f c s)"
    using Cons.prems \<open>fits d s\<close> by (intro modify_commute) simp_all
  ultimately show ?case by simp
qed

lemma view_modify: "fits c s \<Longrightarrow> view c (modify f c s) = norm c (f c (view c s))"
  by (simp add: modify_def view_put)

lemma view_modify_other:
  "indep c d \<Longrightarrow> fits c s \<Longrightarrow> fits d s \<Longrightarrow> view d (modify f c s) = view d s"
  by (simp add: modify_def view_other)

text \<open>Every cell is modified once: the view after the loop.\<close>

lemma view_fold:
  "distinct ds \<Longrightarrow> pairwise indep (set ds) \<Longrightarrow> all_fit ds s \<Longrightarrow> c \<in> set ds \<Longrightarrow>
   view c (fold (modify f) ds s) = norm c (f c (view c s))"
proof (induction ds arbitrary: s)
  case Nil
  then show ?case by simp
next
  case (Cons d ds)
  have fit: "fits d s" "fits c s" "all_fit ds (modify f d s)"
    using Cons.prems by (auto simp: all_fit_def fits_modify)
  show ?case
  proof (cases "c = d")
    case True
    have ind: "\<forall>e\<in>set ds. indep d e" using Cons.prems(1,2) by (auto simp: pairwise_insert)
    have "view d (fold (modify f) es t) = view d t"
      if "\<forall>e\<in>set es. indep d e" "fits d t" "all_fit es t" for es t
      using that
    proof (induction es arbitrary: t)
      case Nil
      then show ?case by simp
    next
      case (Cons e es)
      then have "fits e t" "indep e d" using indep_sym by (auto simp: all_fit_def)
      then have "view d (modify f e t) = view d t" using Cons.prems by (simp add: view_modify_other)
      moreover have "fits d (modify f e t)" "all_fit es (modify f e t)"
        using Cons.prems \<open>fits e t\<close> by (auto simp: all_fit_def fits_modify)
      ultimately show ?case using Cons.IH [of "modify f e t"] Cons.prems(1) by simp
    qed
    from this [OF ind _ fit(3)] have "view d (fold (modify f) ds (modify f d s)) = view d (modify f d s)"
      using fit(1) by (simp add: fits_modify)
    then show ?thesis using True fit(1) by (simp add: view_modify)
  next
    case False
    then have c: "c \<in> set ds" "indep d c" using Cons.prems by (auto simp: pairwise_insert)
    have "view c (fold (modify f) ds (modify f d s)) = norm c (f c (view c (modify f d s)))"
      using Cons.prems fit(3) c by (intro Cons.IH) (auto simp: pairwise_insert)
    then show ?thesis using c fit by (simp add: view_modify_other)
  qed
qed

text \<open>Two loops over the same cells are one loop.\<close>

lemma fold_fuse:
  assumes "distinct ds" "pairwise indep (set ds)" "all_fit ds s"
    and "\<And>c v. c \<in> set ds \<Longrightarrow> norm c (f c (norm c (g c v))) = norm c (h c v)"
  shows "fold (modify f) ds (fold (modify g) ds s) = fold (modify h) ds s"
  using assms
proof (induction ds arbitrary: s)
  case Nil
  then show ?case by simp
next
  case (Cons d ds)
  have fit: "fits d s" "all_fit ds (modify g d s)"
    using Cons.prems by (auto simp: all_fit_def fits_modify)
  have "\<forall>e\<in>set ds. indep d e" using Cons.prems(1,2) by (auto simp: pairwise_insert)
  then have "modify f d (fold (modify g) ds (modify g d s)) = fold (modify g) ds (modify f d (modify g d s))"
    using fit by (intro modify_fold_commute) (auto simp: fits_modify)
  moreover have "modify f d (modify g d s) = modify h d s"
    using fit(1) Cons.prems(4) [of d "view d s"] put_norm [of d _ s]
    by (simp add: modify_def view_put put_put) metis
  moreover have "fold (modify f) ds (fold (modify g) ds (modify h d s)) = fold (modify h) ds (modify h d s)"
    using Cons.prems by (intro Cons.IH) (auto simp: all_fit_def fits_modify pairwise_insert)
  ultimately show ?case by simp
qed

lemma fold_modify_cong:
  "all_fit cs s \<Longrightarrow> set ds \<subseteq> set cs \<Longrightarrow> (\<And>c t. c \<in> set ds \<Longrightarrow> fits c t \<Longrightarrow> F c t = modify f c t) \<Longrightarrow>
   fold F ds s = fold (modify f) ds s"
proof (induction ds arbitrary: s)
  case Nil
  then show ?case by simp
next
  case (Cons d ds)
  then have d: "fits d s" by (auto simp: all_fit_def)
  then have "F d s = modify f d s" using Cons.prems by simp
  moreover have "all_fit cs (modify f d s)" using Cons.prems(1) d by (rule all_fit_modify)
  ultimately show ?case using Cons by simp
qed

lemma modify_id: "fits c s \<Longrightarrow> f c (view c s) = view c s \<Longrightarrow> modify f c s = s"
  by (simp add: modify_def put_view)

lemma fold_id:
  "all_fit ds s \<Longrightarrow> (\<And>c. c \<in> set ds \<Longrightarrow> f c (view c s) = view c s) \<Longrightarrow> fold (modify f) ds s = s"
  by (induction ds) (auto simp: all_fit_def modify_id)

end

section \<open>The state of an aggregate in a row\<close>

definition agg_view :: "tdc_aggregate_desc \<Rightarrow> u8 list \<Rightarrow> u64 \<times> u64" where
  "agg_view a row =
     (get_u64 (unat (agg_offset a)) row,
      if agg_kind a = AVG_NUMERIC then get_u64 (unat (agg_offset a) + 8) row else 0)"

definition agg_put :: "tdc_aggregate_desc \<Rightarrow> u64 \<times> u64 \<Rightarrow> u8 list \<Rightarrow> u8 list" where
  "agg_put a v row =
     (let row' = put_u64 (unat (agg_offset a)) (fst v) row
      in if agg_kind a = AVG_NUMERIC then put_u64 (unat (agg_offset a) + 8) (snd v) row' else row')"

definition agg_size :: "tdc_aggregate_desc \<Rightarrow> nat" where
  "agg_size a = (if agg_kind a = AVG_NUMERIC then 16 else 8)"

definition agg_fits :: "tdc_aggregate_desc \<Rightarrow> u8 list \<Rightarrow> bool" where
  "agg_fits a row \<longleftrightarrow> unat (agg_offset a) + agg_size a \<le> length row"

definition agg_apart :: "tdc_aggregate_desc \<Rightarrow> tdc_aggregate_desc \<Rightarrow> bool" where
  "agg_apart a b \<longleftrightarrow> apart (unat (agg_offset a), agg_size a) (unat (agg_offset b), agg_size b)"

definition agg_norm :: "tdc_aggregate_desc \<Rightarrow> u64 \<times> u64 \<Rightarrow> u64 \<times> u64" where
  "agg_norm a v = (fst v, if agg_kind a = AVG_NUMERIC then snd v else 0)"

lemma mem_write_commute:
  assumes "off + length bs \<le> length row" "o2 + length cs \<le> length row"
    and "o2 + length cs \<le> off \<or> off + length bs \<le> o2"
  shows "mem_write off bs (mem_write o2 cs row) = mem_write o2 cs (mem_write off bs row)"
proof (rule nth_equalityI)
  show len: "length (mem_write off bs (mem_write o2 cs row)) = length (mem_write o2 cs (mem_write off bs row))"
    using assms by simp
  fix i assume "i < length (mem_write off bs (mem_write o2 cs row))"
  then have i: "i < length row" using assms by simp
  then show "mem_write off bs (mem_write o2 cs row) ! i = mem_write o2 cs (mem_write off bs row) ! i"
    using assms by (auto simp: nth_mem_write)
qed

lemma put_u64_commute:
  "off + 8 \<le> length row \<Longrightarrow> o2 + 8 \<le> length row \<Longrightarrow> o2 + 8 \<le> off \<or> off + 8 \<le> o2 \<Longrightarrow>
   put_u64 off v (put_u64 o2 w row) = put_u64 o2 w (put_u64 off v row)"
  unfolding put_u64_def by (intro mem_write_commute) auto

lemma put_u64_agg_put:
  assumes "agg_fits b row" "off + 8 \<le> length row"
    and "off + 8 \<le> unat (agg_offset b) \<or> unat (agg_offset b) + agg_size b \<le> off"
  shows "put_u64 off x (agg_put b w row) = agg_put b w (put_u64 off x row)"
  using assms
  by (auto simp: agg_put_def agg_fits_def agg_size_def Let_def
      put_u64_commute [of off _ "unat (agg_offset b)"] put_u64_commute [of off _ "unat (agg_offset b) + 8"]
      split: if_splits)

lemma length_agg_put [simp]: "agg_fits a row \<Longrightarrow> length (agg_put a v row) = length row"
  by (auto simp: agg_put_def agg_fits_def agg_size_def Let_def)

interpretation agg_cells: cells agg_view agg_put agg_fits agg_apart agg_norm
proof unfold_locales
  fix a b :: tdc_aggregate_desc and row v w
  show "agg_fits a row \<Longrightarrow> agg_view a (agg_put a v row) = agg_norm a v"
    by (auto simp: agg_view_def agg_put_def agg_norm_def agg_fits_def agg_size_def Let_def mem_simps)
  show "agg_fits a row \<Longrightarrow> agg_fits b row \<Longrightarrow> agg_fits b (agg_put a v row)"
    by (simp add: agg_fits_def [of b])
  show "agg_fits a row \<Longrightarrow> agg_put a v (agg_put a w row) = agg_put a v row"
    by (auto simp: agg_put_def agg_fits_def agg_size_def Let_def mem_simps
        put_u64_commute [of "unat (agg_offset a)" _ "unat (agg_offset a) + 8"])
  show "agg_apart a b \<Longrightarrow> agg_fits a row \<Longrightarrow> agg_fits b row \<Longrightarrow>
      agg_put a v (agg_put b w row) = agg_put b w (agg_put a v row)"
  proof -
    assume ap: "agg_apart a b" and fit: "agg_fits a row" "agg_fits b row"
    have b1: "put_u64 (unat (agg_offset a)) x (agg_put b w r) = agg_put b w (put_u64 (unat (agg_offset a)) x r)"
      if "length r = length row" for x r
      using ap fit that by (intro put_u64_agg_put) (auto simp: agg_apart_def apart_def agg_fits_def agg_size_def split: if_splits)
    have b2: "put_u64 (unat (agg_offset a) + 8) x (agg_put b w r) = agg_put b w (put_u64 (unat (agg_offset a) + 8) x r)"
      if "length r = length row" "agg_kind a = AVG_NUMERIC" for x r
      using ap fit that by (intro put_u64_agg_put) (auto simp: agg_apart_def apart_def agg_fits_def agg_size_def split: if_splits)
    show ?thesis
      unfolding agg_put_def [of a] Let_def using fit b1 b2 by (auto simp: agg_fits_def agg_size_def)
  qed
  show "agg_apart a b \<Longrightarrow> agg_fits a row \<Longrightarrow> agg_fits b row \<Longrightarrow> agg_view b (agg_put a v row) = agg_view b row"
    by (auto simp: agg_view_def agg_put_def agg_fits_def agg_size_def Let_def agg_apart_def apart_def
        mem_simps split: if_splits)
  show "agg_fits a row \<Longrightarrow> agg_put a (agg_view a row) row = row"
    by (auto simp: agg_view_def agg_put_def agg_fits_def agg_size_def Let_def put_get_u64)
  show "agg_norm a (agg_view a row) = agg_view a row"
    by (simp add: agg_norm_def agg_view_def)
  show "agg_put a (agg_norm a v) row = agg_put a v row"
    by (simp add: agg_norm_def agg_put_def)
  show "agg_apart a b \<Longrightarrow> agg_apart b a"
    by (auto simp: agg_apart_def apart_def)
qed

text \<open>The aggregates of a layout are independent cells of every row of its width.\<close>

lemma aggregates_cells:
  assumes "layout_ok l" and "length row = unat (layout_row_width l)"
  shows "distinct (aggregates l)" "pairwise agg_apart (set (aggregates l))"
    "agg_cells.all_fit (aggregates l) row"
proof -
  define g :: "tdc_aggregate_desc \<Rightarrow> nat \<times> nat" where "g = (\<lambda>a. (unat (agg_offset a), unat (agg_width a)))"
  have size: "unat (agg_width a) = agg_size a" if "a \<in> set (aggregates l)" for a
    using layout_ok_aggregate(2) [OF assms(1) that] by (simp add: agg_size_def layout_simps)
  have d: "distinct (map g (aggregates l))" and ap: "pairwise apart (set (row_fields l))"
    using assms(1) by (auto simp: layout_ok_def row_fields_def g_def)
  show "distinct (aggregates l)" using d by (simp add: distinct_map)
  show "agg_cells.all_fit (aggregates l) row"
    using layout_ok_aggregate(1) [OF assms(1)] assms(2) size
    by (simp add: agg_cells.all_fit_def agg_fits_def)
  show "pairwise agg_apart (set (aggregates l))"
  proof (rule pairwiseI)
    fix a b assume ab: "a \<in> set (aggregates l)" "b \<in> set (aggregates l)" "a \<noteq> b"
    then have "g a \<noteq> g b" using d by (auto simp: distinct_map inj_on_def)
    moreover have "g a \<in> set (row_fields l)" "g b \<in> set (row_fields l)"
      using ab by (auto simp: row_fields_def g_def)
    ultimately have "apart (g a) (g b)" using ap by (simp add: pairwise_def)
    then show "agg_apart a b" using ab size by (simp add: agg_apart_def g_def)
  qed
qed

section \<open>Reference steps\<close>

definition smin :: "u64 \<Rightarrow> u64 \<Rightarrow> u64" where
  "smin a b = (if a <s b then a else b)"

definition smax :: "u64 \<Rightarrow> u64 \<Rightarrow> u64" where
  "smax a b = (if b <s a then a else b)"

text \<open>One input row added to a state.\<close>

definition upd_step :: "data_chunk \<Rightarrow> nat \<Rightarrow> tdc_aggregate_desc \<Rightarrow> u64 \<times> u64 \<Rightarrow> u64 \<times> u64" where
  "upd_step ch i a s =
     (let v = get_int64 ch (unat (agg_src_col_idx a)) i;
          present = (nulls ch (unat (agg_src_col_idx a)) i = 0)
      in case agg_kind a of
           SUM_INT64 \<Rightarrow> (fst s + v, snd s)
         | SUM_NUMERIC \<Rightarrow> (fst s + v, snd s)
         | COUNT_STAR \<Rightarrow> (fst s + 1, snd s)
         | COUNT_NONNULL \<Rightarrow> (if present then fst s + 1 else fst s, snd s)
         | COUNT_DISTINCT_NONNULL \<Rightarrow> (if present then fst s + 1 else fst s, snd s)
         | AVG_NUMERIC \<Rightarrow> (fst s + v, snd s + 1)
         | MIN_INT64 \<Rightarrow> (smin v (fst s), snd s)
         | MIN_NUMERIC \<Rightarrow> (smin v (fst s), snd s)
         | MAX_INT64 \<Rightarrow> (smax v (fst s), snd s)
         | MAX_NUMERIC \<Rightarrow> (smax v (fst s), snd s))"

text \<open>Two partial states of one group merged.\<close>

definition merge_step :: "tdc_aggregate_desc \<Rightarrow> u64 \<times> u64 \<Rightarrow> u64 \<times> u64 \<Rightarrow> u64 \<times> u64" where
  "merge_step a src dst =
     (if is_min_kind (agg_kind a) then (smin (fst src) (fst dst), snd dst)
      else if is_max_kind (agg_kind a) then (smax (fst src) (fst dst), snd dst)
      else if agg_kind a = AVG_NUMERIC then (fst dst + fst src, snd dst + snd src)
      else (fst dst + fst src, snd dst))"

text \<open>An accumulated delta added to a state.\<close>

definition apply_step :: "tdc_aggregate_desc \<Rightarrow> u64 \<times> u64 \<Rightarrow> u64 \<times> u64 \<Rightarrow> u64 \<times> u64" where
  "apply_step a vc s =
     (if is_min_kind (agg_kind a) then (if snd vc \<noteq> 0 then smin (fst vc) (fst s) else fst s, snd s)
      else if is_max_kind (agg_kind a) then (if snd vc \<noteq> 0 then smax (fst vc) (fst s) else fst s, snd s)
      else if agg_kind a = AVG_NUMERIC then (fst s + fst vc, snd s + snd vc)
      else (fst s + fst vc, snd s))"

text \<open>The initial state of a group: the neutral element of the aggregate.\<close>

definition agg_zero :: "tdc_aggregate_desc \<Rightarrow> u64 \<times> u64" where
  "agg_zero a =
     (if is_min_kind (agg_kind a) then (INT64_MAX, 0)
      else if is_max_kind (agg_kind a) then (INT64_MIN, 0) else (0, 0))"

lemmas minmax_kinds = is_min_kind_def is_max_kind_def

lemma sint_INT64_MAX: "sint INT64_MAX = 2 ^ 63 - 1"
  by (simp add: INT64_MAX_def)

lemma sint_INT64_MIN: "sint INT64_MIN = - (2 ^ 63)"
  by (simp add: INT64_MIN_def)

lemma sint_u64_bounds: "sint (v :: u64) \<le> 2 ^ 63 - 1" "- (2 ^ 63) \<le> sint (v :: u64)"
  using sint_lt [of v] sint_ge [of v] by simp_all

lemma sint_inj: "a = b \<longleftrightarrow> sint a = sint b" for a b :: u64
  using signed_word_eqI [where 'a = int, of a b] by auto

lemma MAX_top: "\<not> v <s INT64_MAX \<Longrightarrow> v = INT64_MAX"
  using sint_u64_bounds [of v] by (simp add: word_sless_alt sint_inj sint_INT64_MAX)

lemma MIN_bot: "\<not> INT64_MIN <s v \<Longrightarrow> v = INT64_MIN"
  using sint_u64_bounds [of v] by (simp add: word_sless_alt sint_inj sint_INT64_MIN)

text \<open>The tests of the code on the sentinels are subsumed by the comparison.\<close>

lemma smin_put: "(if cur = INT64_MAX \<or> v <s cur then v else cur) = smin v cur"
  using MAX_top [of v] by (auto simp: smin_def)

lemma smax_put: "(if cur = INT64_MIN \<or> cur <s v then v else cur) = smax v cur"
  using MIN_bot [of v] by (auto simp: smax_def)

lemma sint_smin: "sint (smin a b) = min (sint a) (sint b)"
  by (simp add: smin_def word_sless_alt)

lemma sint_smax: "sint (smax a b) = max (sint a) (sint b)"
  by (simp add: smax_def word_sless_alt)

lemma smin_assoc: "smin (smin a b) c = smin a (smin b c)" and smin_commute: "smin a b = smin b a"
  by (simp add: sint_inj sint_smin min.assoc) (simp add: sint_inj sint_smin min.commute)

lemma smax_assoc: "smax (smax a b) c = smax a (smax b c)" and smax_commute: "smax a b = smax b a"
  by (simp add: sint_inj sint_smax max.assoc) (simp add: sint_inj sint_smax max.commute)

lemma smin_MAX: "smin v INT64_MAX = v" "smin INT64_MAX v = v"
  using sint_u64_bounds [of v]
  by (simp_all add: sint_inj sint_smin sint_INT64_MAX)

lemma smax_MIN: "smax v INT64_MIN = v" "smax INT64_MIN v = v"
  using sint_u64_bounds [of v]
  by (simp_all add: sint_inj sint_smax sint_INT64_MIN)

text \<open>The byte-level routines modify exactly their cell, by the reference step.\<close>

lemma put_if: "off + 8 \<le> length row \<Longrightarrow>
  (if b then put_u64 off v row else row) = put_u64 off (if b then v else get_u64 off row) row"
  by (simp add: put_get_u64)

lemma update_aggregate_modify:
  assumes "agg_fits a row"
  shows "update_aggregate ch i a row = agg_cells.modify (upd_step ch i) a row"
proof -
  have fit: "unat (agg_offset a) + 8 \<le> length row" using assms by (auto simp: agg_fits_def agg_size_def split: if_splits)
  show ?thesis
    using assms fit
    by (cases "agg_kind a")
      (simp_all add: update_aggregate_def agg_cells.modify_def upd_step_def agg_view_def agg_put_def Let_def
        AddInt64At_def ReadInt64At_def put_if smin_put smax_put get_put_u64_apart put_get_u64
        agg_fits_def agg_size_def)
qed

lemma combine_aggregate_modify:
  assumes "agg_fits a row"
  shows "combine_aggregate src a row = agg_cells.modify (\<lambda>a. merge_step a (agg_view a src)) a row"
proof -
  have fit: "unat (agg_offset a) + 8 \<le> length row" using assms by (auto simp: agg_fits_def agg_size_def split: if_splits)
  show ?thesis
    using assms fit
    by (cases "agg_kind a")
      (simp_all add: combine_aggregate_def agg_cells.modify_def merge_step_def agg_view_def agg_put_def Let_def
        AddInt64At_def ReadInt64At_def put_if smin_put smax_put get_put_u64_apart minmax_kinds
        agg_fits_def agg_size_def)
qed

lemma put_if_and: "off + 8 \<le> length row \<Longrightarrow>
  (if c \<and> b then put_u64 off v row else row) =
    put_u64 off (if c then (if b then v else get_u64 off row) else get_u64 off row) row"
  by (simp add: put_get_u64)

lemma apply_value_modify:
  assumes "agg_fits a row"
  shows "apply_value (a, g a) row = agg_cells.modify (\<lambda>a. apply_step a (g a)) a row"
proof -
  have fit: "unat (agg_offset a) + 8 \<le> length row" using assms by (auto simp: agg_fits_def agg_size_def split: if_splits)
  obtain v c where g: "g a = (v, c)" by fastforce
  show ?thesis
    using assms fit
    by (cases "agg_kind a")
      (simp_all only: apply_value_def agg_cells.modify_def apply_step_def agg_view_def agg_put_def Let_def g
        prod.case fst_conv snd_conv tdc_agg_kind.case tdc_agg_kind.distinct if_False if_True simp_thms
        AddInt64At_def ReadInt64At_def put_if_and smin_put smax_put get_put_u64_apart minmax_kinds
        agg_fits_def agg_size_def, simp_all add: get_put_u64_apart)
qed

lemma init_aggregate_modify:
  assumes "agg_fits a row" "\<not> is_min_kind (agg_kind a) \<Longrightarrow> \<not> is_max_kind (agg_kind a) \<Longrightarrow> agg_view a row = (0, 0)"
  shows "init_aggregate a row = agg_cells.modify (\<lambda>a s. agg_zero a) a row"
proof -
  have fit: "unat (agg_offset a) + 8 \<le> length row" using assms by (auto simp: agg_fits_def agg_size_def split: if_splits)
  show ?thesis
  proof (cases "is_min_kind (agg_kind a) \<or> is_max_kind (agg_kind a)")
    case True
    then show ?thesis
      by (auto simp: init_aggregate_def agg_cells.modify_def agg_zero_def agg_put_def Let_def minmax_kinds)
  next
    case False
    then have "agg_zero a = agg_view a row" using assms(2) by (simp add: agg_zero_def)
    then show ?thesis
      using False agg_cells.put_view [OF assms(1)] by (simp add: init_aggregate_def agg_cells.modify_def)
  qed
qed

text \<open>Accumulating into a delta and applying it is the same as updating.\<close>

lemma apply_accumulate:
  "apply_step a (accumulate_value ch i a vc) s = upd_step ch i a (apply_step a vc s)"
  by (cases "agg_kind a"; cases vc; cases s)
    (auto simp: apply_step_def accumulate_value_def upd_step_def Let_def minmax_kinds
      smin_assoc smax_assoc smin_def [symmetric] smax_def [symmetric])

lemma apply_zero: "apply_step a (0, 0) s = s"
  by (simp add: apply_step_def)

lemma apply_accumulated:
  "apply_step a (fold (\<lambda>i. accumulate_value ch i a) is vc) s =
   fold (\<lambda>i. upd_step ch i a) is (apply_step a vc s)"
  by (induction "is" arbitrary: vc) (simp_all add: apply_accumulate)

section \<open>The routines on a whole row\<close>

lemma length_modify [simp]: "agg_fits a row \<Longrightarrow> length (agg_cells.modify f a row) = length row"
  by (simp add: agg_cells.modify_def)

lemma length_fold_modify:
  "agg_cells.all_fit as row \<Longrightarrow> set bs \<subseteq> set as \<Longrightarrow> length (fold (agg_cells.modify f) bs row) = length row"
proof (induction bs arbitrary: row)
  case Nil
  then show ?case by simp
next
  case (Cons b bs)
  then have "agg_fits b row" by (auto simp: agg_cells.all_fit_def)
  then show ?case
    using Cons by (simp add: agg_cells.all_fit_modify)
qed

lemma UpdateAggregates_modify:
  assumes "layout_ok l" "length row = unat (layout_row_width l)"
  shows "UpdateAggregates l ch i row = fold (agg_cells.modify (upd_step ch i)) (aggregates l) row"
  unfolding UpdateAggregates_def
  by (rule agg_cells.fold_modify_cong [OF aggregates_cells(3) [OF assms] order_refl update_aggregate_modify])

lemma CombineAggregates_modify:
  assumes "layout_ok l" "length row = unat (layout_row_width l)"
  shows "CombineAggregates l row src =
    fold (agg_cells.modify (\<lambda>a. merge_step a (agg_view a src))) (aggregates l) row"
  unfolding CombineAggregates_def
  by (rule agg_cells.fold_modify_cong [OF aggregates_cells(3) [OF assms] order_refl combine_aggregate_modify])

lemma apply_modify:
  assumes "layout_ok l" "length row = unat (layout_row_width l)"
  shows "fold apply_value (zip (aggregates l) (map g (aggregates l))) row =
    fold (agg_cells.modify (\<lambda>a. apply_step a (g a))) (aggregates l) row"
proof -
  have "zip (aggregates l) (map g (aggregates l)) = map (\<lambda>a. (a, g a)) (aggregates l)"
    by (simp add: zip_map2 zip_same_conv_map)
  then have "fold apply_value (zip (aggregates l) (map g (aggregates l))) row =
    fold (\<lambda>a. apply_value (a, g a)) (aggregates l) row"
    by (simp add: fold_map comp_def)
  also have "\<dots> = fold (agg_cells.modify (\<lambda>a. apply_step a (g a))) (aggregates l) row"
    by (rule agg_cells.fold_modify_cong [OF aggregates_cells(3) [OF assms] order_refl apply_value_modify])
  finally show ?thesis .
qed

lemma length_UpdateAggregates [simp]:
  "layout_ok l \<Longrightarrow> length row = unat (layout_row_width l) \<Longrightarrow> length (UpdateAggregates l ch i row) = length row"
  by (simp add: UpdateAggregates_modify length_fold_modify [OF aggregates_cells(3)])

lemma length_CombineAggregates [simp]:
  "layout_ok l \<Longrightarrow> length row = unat (layout_row_width l) \<Longrightarrow> length (CombineAggregates l row src) = length row"
  by (simp add: CombineAggregates_modify length_fold_modify [OF aggregates_cells(3)])

lemma upd_norm: "agg_norm a (upd_step ch i a (agg_norm a s)) = agg_norm a (upd_step ch i a s)"
  by (cases "agg_kind a") (simp_all add: agg_norm_def upd_step_def Let_def)

lemma fold_upd_norm:
  "agg_norm a (fold (\<lambda>i. upd_step ch i a) is (agg_norm a s)) = agg_norm a (fold (\<lambda>i. upd_step ch i a) is s)"
proof (induction "is" arbitrary: s)
  case Nil
  then show ?case by (simp add: agg_norm_def)
next
  case (Cons i "is")
  show ?case using Cons.IH [of "upd_step ch i a (agg_norm a s)"] Cons.IH [of "upd_step ch i a s"]
    by (simp add: upd_norm)
qed

lemma UpdateAggregates_many:
  assumes "layout_ok l" "length row = unat (layout_row_width l)"
  shows "fold (UpdateAggregates l ch) is row =
    fold (agg_cells.modify (\<lambda>a. fold (\<lambda>i. upd_step ch i a) is)) (aggregates l) row"
  using assms(2)
proof (induction "is" arbitrary: row)
  case Nil
  then show ?case
    using agg_cells.fold_id [OF aggregates_cells(3) [OF assms(1)], where f = "\<lambda>a s. s"] by simp
next
  case (Cons i "is")
  have "fold (UpdateAggregates l ch) is (UpdateAggregates l ch i row) =
    fold (agg_cells.modify (\<lambda>a. fold (\<lambda>i. upd_step ch i a) is)) (aggregates l) (UpdateAggregates l ch i row)"
    using Cons.prems assms(1) by (intro Cons.IH) simp
  also have "\<dots> = fold (agg_cells.modify (\<lambda>a. fold (\<lambda>i. upd_step ch i a) (i # is))) (aggregates l) row"
    unfolding UpdateAggregates_modify [OF assms(1) Cons.prems]
    by (rule agg_cells.fold_fuse) (use aggregates_cells [OF assms(1) Cons.prems] fold_upd_norm in auto)
  finally show ?case by (simp add: comp_def)
qed

section \<open>Batched updates\<close>

definition row_inputs :: "nat \<Rightarrow> (nat \<times> nat) list \<Rightarrow> nat list" where
  "row_inputs r ps = map snd (filter (\<lambda>p. fst p = r) ps)"

text \<open>The specification: one input row after the other.\<close>

definition update_rows ::
  "tuple_data_layout \<Rightarrow> data_chunk \<Rightarrow> (nat \<times> nat) list \<Rightarrow> (nat \<Rightarrow> u8 list) \<Rightarrow> nat \<Rightarrow> u8 list" where
  "update_rows l ch ps rows = fold (\<lambda>(r, i) rows. rows(r := UpdateAggregates l ch i (rows r))) ps rows"

lemma update_rows_at:
  "update_rows l ch ps rows r = fold (UpdateAggregates l ch) (row_inputs r ps) (rows r)"
proof (induction ps arbitrary: rows)
  case Nil
  then show ?case by (simp add: update_rows_def row_inputs_def)
next
  case (Cons p ps)
  then show ?case by (cases p) (simp add: update_rows_def row_inputs_def)
qed

definition dir_seq :: "(nat \<Rightarrow> nat) \<Rightarrow> nat \<Rightarrow> nat \<Rightarrow> nat" where
  "dir_seq slot_key r i = (slot_key r + i) mod AGG_DELTA_HASH_SLOTS"

interpretation delta_dir: probe_table AGG_DELTA_HASH_SLOTS "dir_seq slot_key" for slot_key
proof -
  have "dir_seq slot_key = (\<lambda>r. probe_pos AGG_DELTA_HASH_SLOTS (slot_key r) 1)"
    by (simp add: fun_eq_iff dir_seq_def probe_pos_def)
  moreover have "probe_table AGG_DELTA_HASH_SLOTS (\<lambda>r. probe_pos AGG_DELTA_HASH_SLOTS (slot_key r) 1)"
    by (rule probe_table_arith) (simp_all add: AGG_DELTA_HASH_SLOTS_def)
  ultimately show "probe_table AGG_DELTA_HASH_SLOTS (dir_seq slot_key)" by simp
qed

lemma slots_mask: "n AND (AGG_DELTA_HASH_SLOTS - 1) = n mod AGG_DELTA_HASH_SLOTS"
proof -
  have "is_pow2 AGG_DELTA_HASH_SLOTS"
    unfolding is_pow2_def AGG_DELTA_HASH_SLOTS_def by (rule exI [of _ 12]) simp
  then show ?thesis by (rule nat_and_pow2_mask)
qed

lemma find_delta_search:
  "find_delta fuel slots deltas row (s mod AGG_DELTA_HASH_SLOTS) =
   search slots (\<lambda>e. delta_row (deltas ! e) = row) (map (\<lambda>i. (s + i) mod AGG_DELTA_HASH_SLOTS) [0..<fuel])"
proof (induction fuel arbitrary: s)
  case 0
  then show ?case by simp
next
  case (Suc fuel)
  have "map (\<lambda>i. (s + i) mod AGG_DELTA_HASH_SLOTS) [0..<Suc fuel] =
    s mod AGG_DELTA_HASH_SLOTS # map (\<lambda>i. (Suc s + i) mod AGG_DELTA_HASH_SLOTS) [0..<fuel]"
    by (simp add: upt_conv_Cons map_Suc_upt [symmetric] del: upt_Suc)
  moreover have "(s mod AGG_DELTA_HASH_SLOTS + 1) AND (AGG_DELTA_HASH_SLOTS - 1) = Suc s mod AGG_DELTA_HASH_SLOTS"
    by (simp only: slots_mask) (simp add: mod_simps)
  ultimately show ?case
    using Suc [of "Suc s"] by (simp only: find_delta.simps search.simps)
qed

text \<open>The directory and the deltas after the inputs \<^verbatim>\<open>ps\<close>.\<close>

definition deltas_inv ::
  "tuple_data_layout \<Rightarrow> data_chunk \<Rightarrow> (nat \<Rightarrow> nat) \<Rightarrow> (nat \<times> nat) list \<Rightarrow>
   (nat \<Rightarrow> nat option) \<times> agg_delta list \<Rightarrow> bool" where
  "deltas_inv l ch slot_key ps st \<longleftrightarrow>
     (let (slots, deltas) = st
      in table_ok AGG_DELTA_HASH_SLOTS (dir_seq slot_key)
           (\<lambda>e. delta_row (deltas ! e)) slots \<and>
         (\<forall>s e. slots s = Some e \<longrightarrow> e < length deltas) \<and>
         (\<forall>e<length deltas. \<exists>s. slots s = Some e) \<and>
         distinct (map delta_row deltas) \<and> set (map delta_row deltas) = fst ` set ps \<and>
         (\<forall>d\<in>set deltas. delta_vals d =
            map (\<lambda>a. fold (\<lambda>i. accumulate_value ch i a) (row_inputs (delta_row d) ps) (0, 0)) (aggregates l)))"

lemma accumulate_map:
  "delta_vals (AccumulateAggDelta l ch i d) =
     map2 (accumulate_value ch i) (aggregates l) (delta_vals d)"
  "delta_row (AccumulateAggDelta l ch i d) = delta_row d"
  by (simp_all add: AccumulateAggDelta_def)

lemma map2_map_self: "map2 f xs (map g xs) = map (\<lambda>x. f x (g x)) xs"
  by (induction xs) auto

lemma row_inputs_snoc:
  "row_inputs r (ps @ [(q, i)]) = (if q = r then row_inputs r ps @ [i] else row_inputs r ps)"
  by (simp add: row_inputs_def)

lemma find_delta_row:
  "find_delta AGG_DELTA_HASH_SLOTS slots deltas r (slot_key r AND (AGG_DELTA_HASH_SLOTS - 1)) =
   search slots (\<lambda>e. delta_row (deltas ! e) = r)
     (map (dir_seq slot_key r) [0..<AGG_DELTA_HASH_SLOTS])"
  unfolding slots_mask find_delta_search by (simp add: dir_seq_def [abs_def])

lemma delta_step_old:
  assumes inv: "deltas_inv l ch slot_key ps (slots, deltas)" and r: "r \<in> fst ` set ps"
  shows "\<exists>st'. delta_step l ch slot_key (r, i) (slots, deltas) = Some st' \<and>
    deltas_inv l ch slot_key (ps @ [(r, i)]) st'"
proof -
  let ?key = "\<lambda>e. delta_row (deltas ! e)"
  have ok: "table_ok AGG_DELTA_HASH_SLOTS (dir_seq slot_key) ?key slots"
    and used: "\<And>e. e < length deltas \<Longrightarrow> \<exists>s. slots s = Some e"
    and rows: "distinct (map delta_row deltas)" "set (map delta_row deltas) = fst ` set ps"
    and vals: "\<And>d. d \<in> set deltas \<Longrightarrow> delta_vals d =
      map (\<lambda>a. fold (\<lambda>i. accumulate_value ch i a) (row_inputs (delta_row d) ps) (0, 0)) (aggregates l)"
    and range: "\<forall>s e. slots s = Some e \<longrightarrow> e < length deltas"
    using inv by (auto simp: deltas_inv_def)
  have "r \<in> set (map delta_row deltas)" using r rows(2) by simp
  then obtain e where e: "e < length deltas" "?key e = r" by (auto simp: in_set_conv_nth)
  obtain s where s: "slots s = Some e" using used e(1) by blast
  have hit: "find_delta AGG_DELTA_HASH_SLOTS slots deltas r (slot_key r AND (AGG_DELTA_HASH_SLOTS - 1)) = Some (s, Some e)"
    using delta_dir.search_hit [OF ok s] e(2) by (simp only: find_delta_row)
  define d' where "d' = AccumulateAggDelta l ch i (deltas ! e)"
  have d': "delta_row d' = r" "delta_vals d' =
      map (\<lambda>a. fold (\<lambda>i. accumulate_value ch i a) (row_inputs r (ps @ [(r, i)])) (0, 0)) (aggregates l)"
    using vals [of "deltas ! e"] e by (simp_all add: d'_def accumulate_map map2_map_self row_inputs_snoc)
  have same: "map delta_row (deltas[e := d']) = map delta_row deltas"
    using e d'(1) by (simp add: map_update list_update_same_conv)
  have keys: "delta_row (deltas[e := d'] ! f) = ?key f" if "f < length deltas" for f
    using that e d'(1) by (cases "e = f") auto
  have "table_ok AGG_DELTA_HASH_SLOTS (dir_seq slot_key)
      (\<lambda>f. delta_row (deltas[e := d'] ! f)) slots"
    by (rule table_ok_cong [OF _ ok]) (use range keys in blast)
  moreover have "delta_vals d =
      map (\<lambda>a. fold (\<lambda>i. accumulate_value ch i a) (row_inputs (delta_row d) (ps @ [(r, i)])) (0, 0)) (aggregates l)"
    if dset: "d \<in> set (deltas[e := d'])" for d
  proof -
    obtain f where f: "f < length deltas" "d = deltas[e := d'] ! f"
      using dset [unfolded in_set_conv_nth length_list_update] by blast
    show ?thesis
    proof (cases "f = e")
      case True
      then show ?thesis using f d' e by simp
    next
      case False
      then have d: "d = deltas ! f" "d \<in> set deltas" using f by simp_all
      moreover have "delta_row d \<noteq> r"
        using rows(1) f(1) e False d by (metis distinct_conv_nth length_map nth_map)
      ultimately show ?thesis using vals by (simp add: row_inputs_snoc)
    qed
  qed
  moreover have "fst ` set (ps @ [(r, i)]) = fst ` set ps" using r by (auto simp: image_iff)
  ultimately have "deltas_inv l ch slot_key (ps @ [(r, i)]) (slots, deltas[e := d'])"
    using rows range used by (simp add: deltas_inv_def same del: set_map)
  then show ?thesis
    by (intro exI conjI) (simp_all only: delta_step_def Let_def prod.case hit option.case d'_def)
qed

lemma delta_step_new:
  assumes inv: "deltas_inv l ch slot_key ps (slots, deltas)" and r: "r \<notin> fst ` set ps"
    and few: "length deltas < AGG_DELTA_HASH_SLOTS"
  shows "\<exists>st'. delta_step l ch slot_key (r, i) (slots, deltas) = Some st' \<and>
    deltas_inv l ch slot_key (ps @ [(r, i)]) st'"
proof -
  let ?key = "\<lambda>e. delta_row (deltas ! e)"
  have ok: "table_ok AGG_DELTA_HASH_SLOTS (dir_seq slot_key) ?key slots"
    and used: "\<And>e. e < length deltas \<Longrightarrow> \<exists>s. slots s = Some e"
    and rows: "distinct (map delta_row deltas)" "set (map delta_row deltas) = fst ` set ps"
    and vals: "\<And>d. d \<in> set deltas \<Longrightarrow> delta_vals d =
      map (\<lambda>a. fold (\<lambda>i. accumulate_value ch i a) (row_inputs (delta_row d) ps) (0, 0)) (aggregates l)"
    and range: "\<And>s e. slots s = Some e \<Longrightarrow> e < length deltas"
    using inv by (auto simp: deltas_inv_def)
  define d' where "d' = AccumulateAggDelta l ch i (InitAggDelta r (aggregate_count l))"
  define key' where "key' = (\<lambda>e. delta_row ((deltas @ [d']) ! e))"
  have notin: "r \<notin> set (map delta_row deltas)" using r rows(2) by simp
  have ok': "table_ok AGG_DELTA_HASH_SLOTS (dir_seq slot_key) key' slots"
    by (rule table_ok_cong [OF _ ok]) (auto dest: range simp: key'_def nth_append)
  have new: "key' e \<noteq> r" if "slots s = Some e" for s e
    using notin range [OF that] by (auto simp: key'_def nth_append)
  have "\<exists>s<AGG_DELTA_HASH_SLOTS. slots s = None"
  proof (rule delta_dir.free_slot [OF ok])
    show "card (set (map delta_row deltas)) < AGG_DELTA_HASH_SLOTS"
      using few card_length [of "map delta_row deltas"] by simp
    show "\<And>s e. slots s = Some e \<Longrightarrow> ?key e \<in> set (map delta_row deltas)"
      using range by force
  qed simp
  then obtain s0 where s0: "s0 < AGG_DELTA_HASH_SLOTS" "slots s0 = None" by blast
  obtain s where s:
    "search slots (\<lambda>f. key' f = r) (map (dir_seq slot_key r) [0..<AGG_DELTA_HASH_SLOTS]) = Some (s, None)"
    "slots s = None" "\<And>e. key' e = r \<Longrightarrow> table_ok AGG_DELTA_HASH_SLOTS
      (dir_seq slot_key) key' (slots(s \<mapsto> e))"
    using delta_dir.search_miss [OF ok' _ s0] new by metis
  have "search slots (\<lambda>f. ?key f = r) ss = search slots (\<lambda>f. key' f = r) ss" for ss
    by (rule search_cong) (auto dest: range simp: key'_def nth_append)
  then have miss: "find_delta AGG_DELTA_HASH_SLOTS slots deltas r (slot_key r AND (AGG_DELTA_HASH_SLOTS - 1)) = Some (s, None)"
    using s(1) by (simp only: find_delta_row)
  have empty: "row_inputs r ps = []" using r by (force simp: row_inputs_def filter_empty_conv)
  have "replicate (aggregate_count l) (0, 0) = map (\<lambda>a. (0 :: u64, 0 :: u64)) (aggregates l)"
    by (simp add: aggregate_count_def map_replicate_const)
  then have d': "delta_row d' = r" "delta_vals d' =
      map (\<lambda>a. fold (\<lambda>i. accumulate_value ch i a) (row_inputs r (ps @ [(r, i)])) (0, 0)) (aggregates l)"
    using empty by (simp_all add: d'_def accumulate_map InitAggDelta_def map2_map_self row_inputs_snoc)
  have tab: "table_ok AGG_DELTA_HASH_SLOTS (dir_seq slot_key)
      key' (slots(s \<mapsto> length deltas))"
    by (rule s(3)) (simp add: key'_def d')
  have "delta_vals d =
      map (\<lambda>a. fold (\<lambda>i. accumulate_value ch i a) (row_inputs (delta_row d) (ps @ [(r, i)])) (0, 0)) (aggregates l)"
    if "d \<in> set deltas" for d
  proof -
    have "delta_row d \<noteq> r" using that notin by auto
    then show ?thesis using vals [OF that] by (simp add: row_inputs_snoc)
  qed
  moreover have "\<exists>t. (slots(s \<mapsto> length deltas)) t = Some e" if "e < Suc (length deltas)" for e
  proof (cases "e = length deltas")
    case False
    then have "e < length deltas" using that by simp
    then obtain t where "slots t = Some e" using used by blast
    then show ?thesis using s(2) by (intro exI [of _ t]) auto
  qed auto
  ultimately have "deltas_inv l ch slot_key (ps @ [(r, i)]) (slots(s \<mapsto> length deltas), deltas @ [d'])"
    using tab rows notin d' range
    by (auto simp: deltas_inv_def key'_def less_Suc_eq split: if_splits)
  then show ?thesis
    by (intro exI conjI) (simp_all only: delta_step_def Let_def prod.case miss option.case d'_def)
qed

text \<open>
  The directory never overflows: a batch is one chunk, at most 2048 rows, in 4096 slots.
\<close>

lemma card_rows: "deltas_inv l ch slot_key ps (slots, deltas) \<Longrightarrow> length deltas \<le> length ps"
proof -
  assume "deltas_inv l ch slot_key ps (slots, deltas)"
  then have "distinct (map delta_row deltas)" "set (map delta_row deltas) = fst ` set ps"
    by (auto simp: deltas_inv_def)
  then have "length deltas = card (fst ` set ps)" by (metis distinct_card length_map)
  then show ?thesis using card_image_le [of "set ps" fst] card_length [of ps] by simp
qed

lemma collect_ok:
  "length ps + length rest \<le> AGG_DELTA_HASH_SLOTS \<Longrightarrow> deltas_inv l ch slot_key ps st \<Longrightarrow>
   \<exists>st'. collect_deltas l ch slot_key rest st = Some st' \<and> deltas_inv l ch slot_key (ps @ rest) st'"
proof (induction rest arbitrary: ps st)
  case Nil
  then show ?case by simp
next
  case (Cons p rest)
  obtain r i where p: "p = (r, i)" by fastforce
  obtain slots deltas where st: "st = (slots, deltas)" by fastforce
  have "length deltas < AGG_DELTA_HASH_SLOTS"
    using card_rows Cons.prems unfolding st by fastforce
  then obtain st1 where 1: "delta_step l ch slot_key p st = Some st1" "deltas_inv l ch slot_key (ps @ [p]) st1"
    using delta_step_old delta_step_new Cons.prems(2) unfolding p st by metis
  have "\<exists>st'. collect_deltas l ch slot_key rest st1 = Some st' \<and> deltas_inv l ch slot_key ((ps @ [p]) @ rest) st'"
    using Cons.prems(1) 1(2) by (intro Cons.IH) auto
  then show ?case using 1(1) by simp
qed

lemma apply_deltas_at:
  "distinct (map delta_row deltas) \<Longrightarrow>
   fold (ApplyAggDelta l) deltas rows r =
     (case find (\<lambda>d. delta_row d = r) deltas of
        None \<Rightarrow> rows r
      | Some d \<Rightarrow> fold apply_value (zip (aggregates l) (delta_vals d)) (rows r))"
proof (induction deltas arbitrary: rows)
  case Nil
  then show ?case by simp
next
  case (Cons d deltas)
  have "find (\<lambda>e. delta_row e = delta_row d) deltas = None"
    unfolding find_None_iff using Cons.prems by (auto simp: image_iff)
  then show ?case using Cons by (auto simp: ApplyAggDelta_def split: option.splits)
qed

lemma update_grouped_eq:
  assumes "layout_ok l" "\<And>r. r \<in> fst ` set ps \<Longrightarrow> length (rows r) = unat (layout_row_width l)"
    and "length ps \<le> AGG_DELTA_HASH_SLOTS"
  shows "update_grouped l ch slot_key ps rows = Some (update_rows l ch ps rows)"
proof -
  have "deltas_inv l ch slot_key [] (\<lambda>_. None, [])"
    by (simp add: deltas_inv_def)
  from collect_ok [OF _ this, of ps] assms(3) obtain slots deltas where
    c: "collect_deltas l ch slot_key ps (\<lambda>_. None, []) = Some (slots, deltas)"
      "deltas_inv l ch slot_key ps (slots, deltas)"
    by auto
  have inv: "distinct (map delta_row deltas)" "set (map delta_row deltas) = fst ` set ps"
    "\<And>d. d \<in> set deltas \<Longrightarrow> delta_vals d =
      map (\<lambda>a. fold (\<lambda>i. accumulate_value ch i a) (row_inputs (delta_row d) ps) (0, 0)) (aggregates l)"
    using c(2) by (auto simp: deltas_inv_def)
  have "fold (ApplyAggDelta l) deltas rows r = update_rows l ch ps rows r" for r
  proof (cases "find (\<lambda>d. delta_row d = r) deltas")
    case None
    then have "r \<notin> set (map delta_row deltas)" by (auto simp: find_None_iff)
    then have "r \<notin> fst ` set ps" unfolding inv(2) .
    then have "row_inputs r ps = []" by (force simp: row_inputs_def filter_empty_conv)
    then show ?thesis by (simp add: apply_deltas_at [OF inv(1)] None update_rows_at)
  next
    case (Some d)
    then have d: "d \<in> set deltas" "delta_row d = r"
      by (auto simp: find_Some_iff)
    then have "r \<in> set (map delta_row deltas)" by auto
    then have len: "length (rows r) = unat (layout_row_width l)" unfolding inv(2) by (rule assms(2))
    define g where "g = (\<lambda>a. fold (\<lambda>i. accumulate_value ch i a) (row_inputs r ps) (0, 0))"
    have "fold apply_value (zip (aggregates l) (delta_vals d)) (rows r) =
      fold (agg_cells.modify (\<lambda>a. apply_step a (g a))) (aggregates l) (rows r)"
      using inv(3) [OF d(1)] apply_modify [OF assms(1) len, of g] by (simp add: d(2) g_def)
    also have "(\<lambda>a. apply_step a (g a)) = (\<lambda>a. fold (\<lambda>i. upd_step ch i a) (row_inputs r ps))"
      by (simp add: fun_eq_iff g_def apply_accumulated apply_zero)
    finally show ?thesis
      by (simp add: apply_deltas_at [OF inv(1)] Some update_rows_at UpdateAggregates_many [OF assms(1) len])
  qed
  then show ?thesis by (simp add: update_grouped_def c(1) fun_eq_iff)
qed

section \<open>Merging partial states\<close>

lemma merge_zero: "merge_step a (agg_zero a) s = s"
  by (simp add: merge_step_def agg_zero_def smin_MAX smax_MIN)

lemma merge_upd: "merge_step a (upd_step ch i a src) s = upd_step ch i a (merge_step a src s)"
  by (cases "agg_kind a")
    (simp_all add: merge_step_def upd_step_def Let_def minmax_kinds smin_assoc smax_assoc)

text \<open>The state of a group after the inputs \<^verbatim>\<open>ins\<close>, given as chunk and row index.\<close>

definition agg_state :: "tdc_aggregate_desc \<Rightarrow> (data_chunk \<times> nat) list \<Rightarrow> u64 \<times> u64" where
  "agg_state a ins = fold (\<lambda>(ch, i). upd_step ch i a) ins (agg_zero a)"

lemma merge_states: "merge_step a (fold (\<lambda>(ch, i). upd_step ch i a) ins x) s =
    fold (\<lambda>(ch, i). upd_step ch i a) ins (merge_step a x s)"
  by (induction ins arbitrary: x) (auto simp: merge_upd)

lemma merge_agg_state:
  "merge_step a (agg_state a ins) (agg_state a js) = agg_state a (js @ ins)"
  by (simp add: agg_state_def merge_states merge_zero)

lemma agg_state_snd: "agg_kind a \<noteq> AVG_NUMERIC \<Longrightarrow> snd (agg_state a ins) = 0"
proof -
  assume k: "agg_kind a \<noteq> AVG_NUMERIC"
  have "snd (fold (\<lambda>(ch, i). upd_step ch i a) ins s) = snd s" for s
    using k by (induction ins arbitrary: s) (auto simp: upd_step_def Let_def split: tdc_agg_kind.splits)
  then show ?thesis by (simp add: agg_state_def agg_zero_def)
qed

lemma agg_state_norm: "agg_norm a (agg_state a ins) = agg_state a ins"
  using agg_state_snd [of a ins] by (auto simp: agg_norm_def prod_eq_iff)

text \<open>A row that holds, for every aggregate, the state of the inputs \<^verbatim>\<open>ins\<close>.\<close>

definition holds_states :: "tuple_data_layout \<Rightarrow> u8 list \<Rightarrow> (data_chunk \<times> nat) list \<Rightarrow> bool" where
  "holds_states l row ins \<longleftrightarrow> (\<forall>a\<in>set (aggregates l). agg_view a row = agg_state a ins)"

lemma UpdateAggregates_states:
  assumes "layout_ok l" "length row = unat (layout_row_width l)" "holds_states l row ins"
  shows "holds_states l (UpdateAggregates l ch i row) (ins @ [(ch, i)])"
  unfolding holds_states_def
proof
  fix a assume a: "a \<in> set (aggregates l)"
  note cells = aggregates_cells [OF assms(1,2)]
  have "agg_view a (UpdateAggregates l ch i row) = agg_norm a (upd_step ch i a (agg_view a row))"
    unfolding UpdateAggregates_modify [OF assms(1,2)] by (rule agg_cells.view_fold [OF cells a])
  also have "\<dots> = agg_norm a (agg_state a (ins @ [(ch, i)]))"
    using assms(3) a by (simp add: holds_states_def agg_state_def)
  finally show "agg_view a (UpdateAggregates l ch i row) = agg_state a (ins @ [(ch, i)])"
    by (simp add: agg_state_norm)
qed

lemma CombineAggregates_states:
  assumes "layout_ok l" "length dst = unat (layout_row_width l)"
    and "holds_states l dst js" "holds_states l src ins"
  shows "holds_states l (CombineAggregates l dst src) (js @ ins)"
  unfolding holds_states_def
proof
  fix a assume a: "a \<in> set (aggregates l)"
  note cells = aggregates_cells [OF assms(1,2)]
  have "agg_view a (CombineAggregates l dst src) =
      agg_norm a (merge_step a (agg_view a src) (agg_view a dst))"
    unfolding CombineAggregates_modify [OF assms(1,2)] by (rule agg_cells.view_fold [OF cells a])
  then show "agg_view a (CombineAggregates l dst src) = agg_state a (js @ ins)"
    using assms(3,4) a by (simp add: holds_states_def merge_agg_state agg_state_norm)
qed

section \<open>Keys and states do not interfere\<close>

lemma agg_put_row:
  assumes l: "layout_ok l" and a: "a \<in> set (aggregates l)" and row: "row_ok l heap used row"
  shows "row_ok l heap used (agg_put a v row)" and "row_key l heap (agg_put a v row) = row_key l heap row"
proof -
  have len: "length row = unat (layout_row_width l)" using row by (simp add: row_ok_def)
  have size: "unat (agg_width a) = agg_size a"
    using layout_ok_aggregate(2) [OF l a] by (simp add: agg_size_def layout_simps)
  have one: "row_ok l heap used (put_u64 off x r) \<and> row_key l heap (put_u64 off x r) = row_key l heap r"
    if r: "row_ok l heap used r" and off: "8 dvd off" "unat (agg_offset a) \<le> off"
      "off + 8 \<le> unat (agg_offset a) + agg_size a" for off x r
  proof -
    have rl: "length r = unat (layout_row_width l)" using r by (simp add: row_ok_def)
    have in_row: "off + length (le_bytes 8 (unat x)) \<le> length r"
      using off layout_ok_aggregate(1) [OF l a] size rl by simp
    have ap: "unat (col_offset c) + unat (col_width c) \<le> off \<or>
        off + length (le_bytes 8 (unat x)) \<le> unat (col_offset c)" if "c \<in> set (columns l)" for c
      using column_aggregate_apart [OF l that a] off size by (auto simp: apart_def)
    have "row_pad_ok l (put_u64 off x r)"
      unfolding put_u64_def
    proof (rule pad_kept [OF _ l rl off(1) in_row])
      show "row_pad_ok l r" using r by (simp add: row_ok_def)
      fix c assume c: "c \<in> set (columns l)" "col_kind c = INT32"
      then show "unat (col_offset c) + 4 \<le> off \<or>
          off + length (le_bytes 8 (unat x)) \<le> unat (col_offset c) + 4"
        using ap [OF c(1)] layout_ok_column(2) [OF l c(1)] by auto
    qed
    moreover have vals: "row_val heap (put_u64 off x r) c = row_val heap r c" if "c \<in> set (columns l)" for c
      unfolding put_u64_def by (rule row_val_apart(1) [OF l that rl in_row ap [OF that]])
    moreover have "read_string_ref (unat (col_offset c)) (put_u64 off x r) = read_string_ref (unat (col_offset c)) r"
      if "c \<in> set (columns l)" "col_kind c = STRING_REF" for c
      unfolding put_u64_def by (rule row_val_apart(2) [OF l that(1) rl in_row ap [OF that(1)] that(2)])
    moreover have "length (put_u64 off x r) = length r" using in_row by (intro length_put_u64) simp
    ultimately have "row_ok l heap used (put_u64 off x r)"
      using r unfolding row_ok_def row_refs_ok_def by metis
    moreover have "row_key l heap (put_u64 off x r) = row_key l heap r"
      unfolding row_key_def by (rule map_cong [OF refl]) (fact vals)
    ultimately show ?thesis ..
  qed
  have dv: "8 dvd unat (agg_offset a)" using layout_ok_aggregate(3) [OF l a] .
  have fst: "row_ok l heap used (put_u64 (unat (agg_offset a)) (fst v) row) \<and>
    row_key l heap (put_u64 (unat (agg_offset a)) (fst v) row) = row_key l heap row"
    by (rule one [OF row dv]) (simp_all add: agg_size_def)
  have snd: "row_ok l heap used (put_u64 (unat (agg_offset a) + 8) x r) \<and>
    row_key l heap (put_u64 (unat (agg_offset a) + 8) x r) = row_key l heap r"
    if "row_ok l heap used r" "agg_kind a = AVG_NUMERIC" for x r
    by (rule one [OF that(1)]) (use dv that(2) in \<open>auto simp: agg_size_def\<close>)
  show "row_ok l heap used (agg_put a v row)" "row_key l heap (agg_put a v row) = row_key l heap row"
    using fst snd by (auto simp: agg_put_def Let_def)
qed

lemma fold_modify_row:
  "layout_ok l \<Longrightarrow> row_ok l heap used row \<Longrightarrow> set as \<subseteq> set (aggregates l) \<Longrightarrow>
   row_ok l heap used (fold (agg_cells.modify f) as row) \<and>
   row_key l heap (fold (agg_cells.modify f) as row) = row_key l heap row"
  by (induction as arbitrary: row) (auto simp: agg_cells.modify_def agg_put_row)

lemma UpdateAggregates_row:
  "layout_ok l \<Longrightarrow> row_ok l heap used row \<Longrightarrow>
   row_ok l heap used (UpdateAggregates l ch i row) \<and> row_key l heap (UpdateAggregates l ch i row) = row_key l heap row"
  by (subst (1 2) UpdateAggregates_modify) (simp_all add: fold_modify_row, simp_all add: row_ok_def)

lemma CombineAggregates_row:
  "layout_ok l \<Longrightarrow> row_ok l heap used row \<Longrightarrow>
   row_ok l heap used (CombineAggregates l row src) \<and> row_key l heap (CombineAggregates l row src) = row_key l heap row"
  by (subst (1 2) CombineAggregates_modify) (simp_all add: fold_modify_row, simp_all add: row_ok_def)

section \<open>A new group row\<close>

definition init_step :: "tdc_aggregate_desc \<Rightarrow> u64 \<times> u64 \<Rightarrow> u64 \<times> u64" where
  "init_step a s = (if is_min_kind (agg_kind a) \<or> is_max_kind (agg_kind a) then agg_zero a else s)"

lemma init_aggregate_step: "agg_fits a row \<Longrightarrow> init_aggregate a row = agg_cells.modify init_step a row"
  using agg_cells.put_view [of a row]
  by (auto simp: init_aggregate_def agg_cells.modify_def init_step_def agg_zero_def agg_put_def Let_def
      minmax_kinds)

lemma init_aggregates:
  assumes "layout_ok l" "row_ok l heap used row"
    and "\<And>a. a \<in> set (aggregates l) \<Longrightarrow> agg_view a row = (0, 0)"
  shows "row_ok l heap used (fold init_aggregate (aggregates l) row)"
    "row_key l heap (fold init_aggregate (aggregates l) row) = row_key l heap row"
    "holds_states l (fold init_aggregate (aggregates l) row) []"
proof -
  have len: "length row = unat (layout_row_width l)" using assms(2) by (simp add: row_ok_def)
  note cells = aggregates_cells [OF assms(1) len]
  have eq: "fold init_aggregate (aggregates l) row = fold (agg_cells.modify init_step) (aggregates l) row"
    by (rule agg_cells.fold_modify_cong [OF cells(3) order_refl init_aggregate_step])
  show "row_ok l heap used (fold init_aggregate (aggregates l) row)"
    "row_key l heap (fold init_aggregate (aggregates l) row) = row_key l heap row"
    unfolding eq using fold_modify_row [OF assms(1,2) order_refl] by blast+
  show "holds_states l (fold init_aggregate (aggregates l) row) []"
    unfolding eq holds_states_def
  proof
    fix a assume a: "a \<in> set (aggregates l)"
    show "agg_view a (fold (agg_cells.modify init_step) (aggregates l) row) = agg_state a []"
      using agg_cells.view_fold [OF cells a, of init_step] assms(3) [OF a]
      by (auto simp: agg_state_def init_step_def agg_zero_def agg_norm_def)
  qed
qed

lemma agg_view_bytes:
  assumes "layout_ok l" "a \<in> set (aggregates l)" "length r = unat (layout_row_width l)" "length q = length r"
    and "mem_read (unat (agg_offset a)) (unat (agg_width a)) r = mem_read (unat (agg_offset a)) (unat (agg_width a)) q"
  shows "agg_view a r = agg_view a q"
proof -
  have w: "unat (agg_width a) = agg_size a" "unat (agg_offset a) + agg_size a \<le> length r"
    using layout_ok_aggregate(1,2) [OF assms(1,2)] assms(3) by (simp_all add: agg_size_def layout_simps)
  have "\<forall>i<agg_size a. r ! (unat (agg_offset a) + i) = q ! (unat (agg_offset a) + i)"
    using assms(4,5) w mem_read_eq_iff_nth [of "unat (agg_offset a)" "agg_size a" r q] by simp
  then have "mem_read (unat (agg_offset a) + k) 8 r = mem_read (unat (agg_offset a) + k) 8 q"
    if "k + 8 \<le> agg_size a" for k
    using that w assms(4) by (subst mem_read_eq_iff_nth) (auto simp: add.assoc)
  from this [of 0] this [of 8] show ?thesis
    by (auto simp: agg_view_def get_u64_def agg_size_def)
qed

lemma zero_views:
  assumes "layout_ok l" "a \<in> set (aggregates l)"
  shows "agg_view a (replicate (unat (layout_row_width l)) 0) = (0, 0)"
  using layout_ok_aggregate(1,2) [OF assms]
  by (auto simp: agg_view_def get_u64_def mem_read_zeros layout_simps split: if_splits)

lemma ScatterGroupOnly_ok:
  assumes "layout_ok l" "chunk_row_ok l ch i" "tdc_ok t"
    and "key_need l ch i \<le> tdc_heap_capacity t - tdc_heap_used t"
  obtains row u where
    "ScatterGroupOnly l ch i (replicate (unat (layout_row_width l)) 0, Some t) = Inr (row, Some u)"
    and "row_ok l (tdc_heap u) (tdc_heap_used u) row" and "row_key l (tdc_heap u) row = chunk_key l ch i"
    and "holds_states l row []" and "tdc_ok u" and "tdc_ext t u"
    and "tdc_heap_used u = tdc_heap_used t + key_need l ch i"
proof -
  let ?z = "replicate (unat (layout_row_width l)) 0"
  have z: "length ?z = unat (layout_row_width l)" "row_pad_ok l ?z"
    using zero_row_ok [OF assms(1)] by (auto simp: row_ok_def)
  from ScatterGroupColumns_ok [OF assms(1-3) z assms(4)] obtain r u where
    r: "ScatterGroupColumns l ch i (?z, Some t) = Inr (r, Some u)"
      "row_ok l (tdc_heap u) (tdc_heap_used u) r" "row_key l (tdc_heap u) r = chunk_key l ch i"
      "tdc_ok u" "tdc_ext t u" "tdc_heap_used u = tdc_heap_used t + key_need l ch i"
      "\<And>a. a \<in> set (aggregates l) \<Longrightarrow> mem_read (unat (agg_offset a)) (unat (agg_width a)) r =
        mem_read (unat (agg_offset a)) (unat (agg_width a)) ?z" by metis
  have "agg_view a r = (0, 0)" if "a \<in> set (aggregates l)" for a
    using agg_view_bytes [OF assms(1) that _ _ r(7) [OF that]] zero_views [OF assms(1) that] r(2)
    by (simp add: row_ok_def)
  note init = init_aggregates [OF assms(1) r(2) this]
  show thesis
    using that [of "fold init_aggregate (aggregates l) r" u] r init by (simp add: ScatterGroupOnly_def)
qed

section \<open>Properties\<close>

text \<open>C19: Updating a batch of input rows through one delta per distinct group row gives byte for byte
  the rows that updating them one input at a time gives, for every mix of aggregates, for both the
  address-keyed and the index-keyed directory; the directory search always ends.\<close>

theorem batched_update_is_sequential:
  assumes "layout_ok l" and "\<And>r. length (rows r) = unat (layout_row_width l)" and "length ps \<le> 2048"
  shows "UpdateAggregatesBatchGroupedGeneric l ch addr ps rows = Some (update_rows l ch ps rows) \<and>
    UpdateAggregatesGatherGroupedGeneric l ch ps rows = Some (update_rows l ch ps rows)"
proof -
  have "length ps \<le> AGG_DELTA_HASH_SLOTS" using assms(3) by (simp add: AGG_DELTA_HASH_SLOTS_def)
  then show ?thesis
    using update_grouped_eq [OF assms(1,2)]
    by (simp add: UpdateAggregatesBatchGroupedGeneric_def UpdateAggregatesGatherGroupedGeneric_def)
qed

theorem batched_update_is_sequential_witness:
  "UpdateAggregatesGatherGroupedGeneric demo_layout demo_chunk [(0, 0), (1, 0), (0, 0)] (\<lambda>r. demo_row) =
     Some (update_rows demo_layout demo_chunk [(0, 0), (1, 0), (0, 0)] (\<lambda>r. demo_row))"
  using batched_update_is_sequential [of demo_layout "\<lambda>r. demo_row" "[(0, 0), (1, 0), (0, 0)]"] demo_facts
  by (simp add: demo_row_def)

text \<open>C18: Merging the partial state of one group row into another gives the state of all the inputs of
  both, the destination's first, for every aggregate kind; the key of the destination row is kept.
  So aggregating in parallel and combining equals aggregating sequentially.\<close>

theorem combine_is_append:
  assumes "layout_ok l" "row_ok l heap used dst" "holds_states l dst js" "holds_states l src ins"
  shows "holds_states l (CombineAggregates l dst src) (js @ ins) \<and>
    row_ok l heap used (CombineAggregates l dst src) \<and>
    row_key l heap (CombineAggregates l dst src) = row_key l heap dst"
  using CombineAggregates_states [OF assms(1) _ assms(3,4)] CombineAggregates_row [OF assms(1,2)] assms(2)
  by (simp add: row_ok_def)

lemma demo_states: "holds_states demo_layout demo_row []"
  by (simp add: holds_states_def demo_layout_def q1_layout)
    (simp add: agg_state_def agg_view_def agg_zero_def minmax_kinds demo_row_def get_u64_def mem_read_zeros)

theorem combine_is_append_witness:
  "holds_states demo_layout
     (CombineAggregates demo_layout (UpdateAggregates demo_layout demo_chunk 0 demo_row)
        (UpdateAggregates demo_layout demo_chunk 0 demo_row)) [(demo_chunk, 0), (demo_chunk, 0)]"
proof -
  have h: "holds_states demo_layout (UpdateAggregates demo_layout demo_chunk 0 demo_row) ([] @ [(demo_chunk, 0)])"
    by (rule UpdateAggregates_states) (use demo_facts demo_states in \<open>simp_all add: row_ok_def\<close>)
  have r: "row_ok demo_layout (tdc_heap demo_tdc) (tdc_heap_used demo_tdc)
      (UpdateAggregates demo_layout demo_chunk 0 demo_row)"
    using UpdateAggregates_row demo_facts by blast
  show ?thesis using combine_is_append [OF demo_facts(2) r h h] by simp
qed

end
