(* ===== verification/AggHash.thy ===== *)
theory AggHash
  imports AggStates
begin

text \<open>
  The aggregate hash table of pipeline/aggregate_hash_table.hpp and aggregate_hash_table.cpp: an
  open-addressed directory of packed entries (16 bits of salt, 48 bits of row index) over the rows of a
  collection. The spinlock makes each operation one step; the prefetches have no effect on the state.
\<close>

section \<open>Entries\<close>

definition AHT_INVALID_ROW_INDEX :: nat where
  "AHT_INVALID_ROW_INDEX = UINT32_MAX"

definition AHT_EMPTY_ENTRY_VALUE :: u64 where
  "AHT_EMPTY_ENTRY_VALUE = 0xFFFFFFFFFFFFFFFF"

definition AHT_ROW_INDEX_MASK :: u64 where
  "AHT_ROW_INDEX_MASK = 0x0000FFFFFFFFFFFF"

definition HashSalt :: "u64 \<Rightarrow> u16" where
  "HashSalt hash = ucast (drop_bit 48 hash)"

definition ProbeStep :: "u64 \<Rightarrow> nat" where
  "ProbeStep hash = unat (ucast (drop_bit 59 hash OR 1) :: u32)"

definition PackEntry :: "u16 \<Rightarrow> nat \<Rightarrow> u64" where
  "PackEntry salt row_index = push_bit 48 (ucast salt) OR (word_of_nat row_index AND AHT_ROW_INDEX_MASK)"

definition EntryIsEmpty :: "u64 \<Rightarrow> bool" where
  "EntryIsEmpty value \<longleftrightarrow> value = AHT_EMPTY_ENTRY_VALUE"

definition EntrySalt :: "u64 \<Rightarrow> u16" where
  "EntrySalt value = ucast (drop_bit 48 value)"

definition EntryRowIndex :: "u64 \<Rightarrow> nat" where
  "EntryRowIndex value = unat (ucast (value AND AHT_ROW_INDEX_MASK) :: u32)"

section \<open>The table\<close>

record aggregate_hash_table =
  aht_capacity :: nat
  aht_capacity_mask :: nat
  aht_entries :: "u64 list"

record probe_meta =
  pm_salt :: u16
  pm_slot :: nat
  pm_step :: nat

definition BuildProbeMeta :: "aggregate_hash_table \<Rightarrow> u64 \<Rightarrow> probe_meta" where
  "BuildProbeMeta aht hash =
     \<lparr>pm_salt = HashSalt hash, pm_slot = unat (ucast hash :: u32) AND aht_capacity_mask aht,
      pm_step = ProbeStep hash\<rparr>"

text \<open>\<^verbatim>\<open>while (pow2 < needed) pow2 <<= 1\<close>; the fuel is the width of the type.\<close>

fun round_up_pow2 :: "nat \<Rightarrow> nat \<Rightarrow> nat \<Rightarrow> nat" where
  "round_up_pow2 0 needed pow2 = pow2"
| "round_up_pow2 (Suc fuel) needed pow2 =
     (if pow2 < needed then round_up_pow2 fuel needed (wrap32 (2 * pow2)) else pow2)"

definition AggregateHashTableChooseCapacity :: "nat \<Rightarrow> nat" where
  "AggregateHashTableChooseCapacity max_groups =
     (let kMinCapacity = 32; kMaxCapacity = 2 ^ 22;
          needed = (if max_groups < 1 then 1 else max_groups);
          needed = needed + needed div 2 + 1;
          needed = (if needed < kMinCapacity then kMinCapacity else needed);
          needed = (if needed > kMaxCapacity then kMaxCapacity else needed)
      in round_up_pow2 32 needed 1)"

definition HashAggChoosePartitionCount :: "nat \<Rightarrow> nat \<Rightarrow> nat" where
  "HashAggChoosePartitionCount worker_count row_width =
     (let width_target = (if row_width < 32 then 2 ^ 8 else if row_width < 64 then 2 ^ 7 else 2 ^ 6);
          target = (if worker_count < 1 then 1 else wrap32 (worker_count * 4));
          target = (if target > width_target then width_target else target);
          target = (if target < 8 then 8 else target);
          target = (if target > 32 then 32 else target)
      in round_up_pow2 32 target 1)"

fun bit_count :: "nat \<Rightarrow> nat \<Rightarrow> nat" where
  "bit_count 0 tmp = 0"
| "bit_count (Suc fuel) tmp = (if tmp \<noteq> 0 then Suc (bit_count fuel (tmp div 2)) else 0)"

definition HashAggPartitionShift :: "nat \<Rightarrow> nat" where
  "HashAggPartitionShift partition_mask =
     (if partition_mask = 0 then 0 else 64 - bit_count 32 partition_mask)"

definition HashAggPartitionIndex :: "u64 \<Rightarrow> nat \<Rightarrow> nat" where
  "HashAggPartitionIndex hash partition_mask =
     unat (ucast (drop_bit (HashAggPartitionShift partition_mask) hash) :: u32) AND partition_mask"

definition AggregateHashTableInit :: "nat \<Rightarrow> aggregate_hash_table" where
  "AggregateHashTableInit capacity =
     \<lparr>aht_capacity = capacity, aht_capacity_mask = capacity - 1,
      aht_entries = replicate capacity AHT_EMPTY_ENTRY_VALUE\<rparr>"

definition set_entry :: "nat \<Rightarrow> u64 \<Rightarrow> aggregate_hash_table \<Rightarrow> aggregate_hash_table" where
  "set_entry slot value aht = aht\<lparr>aht_entries := (aht_entries aht)[slot := value]\<rparr>"

section \<open>Find or insert\<close>

text \<open>
  The probe loop; the first argument is the number of tries left. The result is whether the candidate
  row was inserted, the canonical row index and the table.
\<close>

fun FindOrInsertFromSlotLocked ::
  "nat \<Rightarrow> aggregate_hash_table \<Rightarrow> tuple_data_collection \<Rightarrow> tuple_data_layout \<Rightarrow> nat \<Rightarrow> u8 list \<Rightarrow>
   probe_meta \<Rightarrow> nat \<Rightarrow> (bool \<times> nat \<times> aggregate_hash_table) result" where
  "FindOrInsertFromSlotLocked 0 aht tdc layout group_row_idx group_row meta slot =
     Inl (Elog ''AggregateHashTable full'')"
| "FindOrInsertFromSlotLocked (Suc tries) aht tdc layout group_row_idx group_row meta slot =
     (let e = aht_entries aht ! slot;
          next_slot = wrap32 (slot + pm_step meta) AND aht_capacity_mask aht;
          continue = FindOrInsertFromSlotLocked tries aht tdc layout group_row_idx group_row meta next_slot
      in if EntryIsEmpty e
         then Inr (True, group_row_idx, set_entry slot (PackEntry (pm_salt meta) group_row_idx) aht)
         else if EntrySalt e = pm_salt meta
         then let existing_idx = EntryRowIndex e
              in rbind (MatchGroupRow layout (Some tdc) group_row (Some tdc)
                          (TupleDataCollectionGetRow tdc existing_idx))
                   (\<lambda>matched. if matched then Inr (False, existing_idx, aht) else continue)
         else continue)"

definition AggregateHashTableFindOrInsert ::
  "aggregate_hash_table \<Rightarrow> tuple_data_collection \<Rightarrow> tuple_data_layout \<Rightarrow> nat \<Rightarrow> u8 list \<Rightarrow> u64 \<Rightarrow>
   (bool \<times> nat \<times> aggregate_hash_table) result" where
  "AggregateHashTableFindOrInsert aht tdc layout group_row_idx group_row hash =
     (let meta = BuildProbeMeta aht hash
      in FindOrInsertFromSlotLocked (aht_capacity aht) aht tdc layout group_row_idx group_row meta (pm_slot meta))"

definition AggregateHashTableShouldResize :: "aggregate_hash_table \<Rightarrow> tuple_data_collection \<Rightarrow> bool" where
  "AggregateHashTableShouldResize aht tdc \<longleftrightarrow> tdc_row_count tdc * 3 \<ge> aht_capacity aht * 2"

section \<open>Rehash\<close>

fun rehash_probe :: "nat \<Rightarrow> u64 \<Rightarrow> nat \<Rightarrow> nat \<Rightarrow> aggregate_hash_table \<Rightarrow> aggregate_hash_table result" where
  "rehash_probe 0 value step slot aht = Inl (Elog ''AggregateHashTable rehash failed'')"
| "rehash_probe (Suc tries) value step slot aht =
     (if EntryIsEmpty (aht_entries aht ! slot) then Inr (set_entry slot value aht)
      else rehash_probe tries value step (wrap32 (slot + step) AND aht_capacity_mask aht) aht)"

definition AggregateHashTableRehash ::
  "tuple_data_collection \<Rightarrow> tuple_data_layout \<Rightarrow> aggregate_hash_table \<Rightarrow> aggregate_hash_table result" where
  "AggregateHashTableRehash tdc layout aht =
     fold_res (\<lambda>row_idx aht.
        rbind (HashGroupRow layout (Some tdc) (TupleDataCollectionGetRow tdc row_idx))
          (\<lambda>hash. rehash_probe (aht_capacity aht) (PackEntry (HashSalt hash) row_idx) (ProbeStep hash)
                     (unat (ucast hash :: u32) AND aht_capacity_mask aht) aht))
       [0..<tdc_row_count tdc]
       (aht\<lparr>aht_entries := replicate (aht_capacity aht) AHT_EMPTY_ENTRY_VALUE\<rparr>)"

section \<open>Combine\<close>

definition CopyGroupColumn ::
  "tuple_data_collection option \<Rightarrow> u8 list \<Rightarrow> tdc_column_desc \<Rightarrow> u8 list \<times> tuple_data_collection \<Rightarrow>
   (u8 list \<times> tuple_data_collection) result" where
  "CopyGroupColumn src_tdc src_row col st =
     (let (dst_row, dst_tdc) = st; off = unat (col_offset col)
      in if col_kind col \<noteq> STRING_REF
         then Inr (mem_write off (mem_read off (unat (col_width col)) src_row) dst_row, dst_tdc)
         else let src_ref = read_string_ref off src_row;
                  src_ptr = VecStringRefDataPtr src_ref (heap_base src_tdc);
                  err = Inl (Elog ''aggregate hash table string group copy failed'')
              in if src_ptr = None \<and> ref_len src_ref \<noteq> 0 then err
                 else (case TupleDataCollectionStoreStringBytes dst_tdc src_ptr (ref_len src_ref) of
                         (ok, dst_ref, dst_tdc') \<Rightarrow>
                           if ok then Inr (write_string_ref off dst_ref dst_row, dst_tdc') else err))"

definition CopyGroupColumns ::
  "tuple_data_layout \<Rightarrow> tuple_data_collection option \<Rightarrow> u8 list \<Rightarrow> u8 list \<times> tuple_data_collection \<Rightarrow>
   (u8 list \<times> tuple_data_collection) result" where
  "CopyGroupColumns layout src_tdc src_row st = fold_res (CopyGroupColumn src_tdc src_row) (columns layout) st"

fun combine_probe ::
  "nat \<Rightarrow> aggregate_hash_table \<Rightarrow> tuple_data_collection \<Rightarrow> tuple_data_layout \<Rightarrow>
   tuple_data_collection option \<Rightarrow> u8 list \<Rightarrow> u16 \<Rightarrow> nat \<Rightarrow> nat \<Rightarrow>
   (aggregate_hash_table \<times> tuple_data_collection) result" where
  "combine_probe 0 aht tdc layout src_tdc src_row our_salt step slot =
     Inl (Elog ''AggregateHashTableCombineRow AHT full'')"
| "combine_probe (Suc tries) aht tdc layout src_tdc src_row our_salt step slot =
     (let e = aht_entries aht ! slot;
          continue = combine_probe tries aht tdc layout src_tdc src_row our_salt step
                       (wrap32 (slot + step) AND aht_capacity_mask aht)
      in if EntryIsEmpty e then
           (case TupleDataCollectionAppendRow tdc of
              (new_idx, tdc1) \<Rightarrow>
                if new_idx = TDC_INVALID_ROW_INDEX
                then Inl (Elog ''AggregateHashTableCombineRow TDC full'')
                else rbind (CopyGroupColumns layout src_tdc src_row (TupleDataCollectionGetRow tdc1 new_idx, tdc1))
                  (\<lambda>(new_row, tdc2).
                     let new_row' = fold init_aggregate (aggregates layout) new_row
                     in Inr (set_entry slot (PackEntry our_salt new_idx) aht,
                             set_row new_idx (CombineAggregates layout new_row' src_row) tdc2)))
         else if EntrySalt e = our_salt then
           let existing_idx = EntryRowIndex e; existing = TupleDataCollectionGetRow tdc existing_idx
           in rbind (MatchGroupRow layout src_tdc src_row (Some tdc) existing)
                (\<lambda>matched. if matched
                   then Inr (aht, set_row existing_idx (CombineAggregates layout existing src_row) tdc)
                   else continue)
         else continue)"

definition AggregateHashTableCombineRow ::
  "aggregate_hash_table \<Rightarrow> tuple_data_collection \<Rightarrow> tuple_data_layout \<Rightarrow> tuple_data_collection option \<Rightarrow>
   u8 list \<Rightarrow> u64 \<Rightarrow> (aggregate_hash_table \<times> tuple_data_collection) result" where
  "AggregateHashTableCombineRow aht tdc layout src_tdc src_row hash =
     combine_probe (aht_capacity aht) aht tdc layout src_tdc src_row (HashSalt hash) (ProbeStep hash)
       (unat (ucast hash :: u32) AND aht_capacity_mask aht)"

section \<open>Packing\<close>

lemma ROW_MASK: "AHT_ROW_INDEX_MASK = mask 48"
  by (simp add: AHT_ROW_INDEX_MASK_def mask_eq_exp_minus_1)

lemma EntrySalt_Pack: "EntrySalt (PackEntry salt r) = salt"
  unfolding EntrySalt_def PackEntry_def ROW_MASK
  by (rule bit_eqI) (auto simp: bit_simps)

lemma Pack_low: "PackEntry salt r AND AHT_ROW_INDEX_MASK = word_of_nat r AND AHT_ROW_INDEX_MASK"
  unfolding PackEntry_def ROW_MASK
  by (rule bit_eqI) (auto simp: bit_simps)

lemma low_row: "r < 2 ^ 32 \<Longrightarrow> word_of_nat r AND AHT_ROW_INDEX_MASK = (word_of_nat r :: u64)"
  unfolding ROW_MASK
  by (simp add: take_bit_eq_mask [symmetric] word_unat_eq_iff unsigned_take_bit_eq take_bit_nat_eq_self
      unat_of_nat take_bit_nat_eq_self_iff)

lemma EntryRowIndex_Pack: "r < 2 ^ 32 \<Longrightarrow> EntryRowIndex (PackEntry salt r) = r"
  by (simp add: EntryRowIndex_def Pack_low low_row unsigned_ucast_eq unat_of_nat take_bit_nat_eq_self)

lemma Pack_not_empty:
  assumes "r < 2 ^ 32 - 1"
  shows "\<not> EntryIsEmpty (PackEntry salt r)"
proof
  assume "EntryIsEmpty (PackEntry salt r)"
  then have "word_of_nat r = AHT_EMPTY_ENTRY_VALUE AND AHT_ROW_INDEX_MASK"
    using Pack_low [of salt r] low_row [of r] assms by (simp add: EntryIsEmpty_def)
  then have "(word_of_nat r :: u64) = 0x0000FFFFFFFFFFFF"
    by (simp add: AHT_EMPTY_ENTRY_VALUE_def AHT_ROW_INDEX_MASK_def)
  then have "unat (word_of_nat r :: u64) = 0x0000FFFFFFFFFFFF" by simp
  then show False using assms by (simp add: unat_of_nat)
qed

lemma odd_ProbeStep: "odd (ProbeStep hash)"
proof -
  have "bit (ProbeStep hash) 0" by (simp add: ProbeStep_def bit_simps)
  then show ?thesis by (simp add: bit_0)
qed

lemma ProbeStep_less: "ProbeStep hash < 32"
proof -
  have "drop_bit 59 hash OR 1 = take_bit 5 (drop_bit 59 hash OR (1 :: u64))"
    by (rule bit_eqI) (auto simp: bit_simps dest: bit_imp_le_length)
  then have "unat (drop_bit 59 hash OR 1) < 2 ^ 5"
    by (metis unsigned_take_bit_eq take_bit_nat_less_exp)
  then show ?thesis
    by (simp add: ProbeStep_def unsigned_ucast_eq take_bit_nat_eq_self)
qed

section \<open>The table as a map from keys to rows\<close>

definition aht_tab :: "aggregate_hash_table \<Rightarrow> nat \<Rightarrow> nat option" where
  "aht_tab h s =
     (if s < aht_capacity h \<and> \<not> EntryIsEmpty (aht_entries h ! s)
      then Some (EntryRowIndex (aht_entries h ! s)) else None)"

definition aht_seq :: "nat \<Rightarrow> gval list \<Rightarrow> nat \<Rightarrow> nat" where
  "aht_seq N k i = probe_pos N (unat (ucast (hash_key k) :: u32)) (ProbeStep (hash_key k)) i"

definition key_of :: "tuple_data_layout \<Rightarrow> tuple_data_collection \<Rightarrow> nat \<Rightarrow> gval list" where
  "key_of l t e = row_key l (tdc_heap t) (tdc_rows t ! e)"

text \<open>The rows of the backing collection: appended rows are sound, the others still zero.\<close>

definition rows_ok :: "tuple_data_layout \<Rightarrow> tuple_data_collection \<Rightarrow> bool" where
  "rows_ok l t \<longleftrightarrow>
     tdc_ok t \<and> tdc_row_width t = unat (layout_row_width l) \<and>
     (\<forall>r<tdc_row_count t. row_ok l (tdc_heap t) (tdc_heap_used t) (tdc_rows t ! r)) \<and>
     (\<forall>r. tdc_row_count t \<le> r \<longrightarrow> r < tdc_row_capacity t \<longrightarrow>
        tdc_rows t ! r = replicate (unat (layout_row_width l)) 0)"

definition aht_ok :: "tuple_data_layout \<Rightarrow> tuple_data_collection \<Rightarrow> aggregate_hash_table \<Rightarrow> bool" where
  "aht_ok l t h \<longleftrightarrow>
     is_pow2 (aht_capacity h) \<and> aht_capacity h \<le> 2 ^ 31 \<and>
     aht_capacity_mask h = aht_capacity h - 1 \<and> length (aht_entries h) = aht_capacity h \<and>
     table_ok (aht_capacity h) (aht_seq (aht_capacity h)) (key_of l t) (aht_tab h) \<and>
     (\<forall>s e. aht_tab h s = Some e \<longrightarrow> e < tdc_row_count t \<and>
        EntrySalt (aht_entries h ! s) = HashSalt (hash_key (key_of l t e)))"

text \<open>The abstract contents: the canonical row of a key.\<close>

definition aht_map :: "tuple_data_layout \<Rightarrow> tuple_data_collection \<Rightarrow> aggregate_hash_table \<Rightarrow> gval list \<Rightarrow> nat option" where
  "aht_map l t h k = List.find (\<lambda>e. key_of l t e = k) (List.map_filter (aht_tab h) [0..<aht_capacity h])"

definition aht_full :: "aggregate_hash_table \<Rightarrow> bool" where
  "aht_full h \<longleftrightarrow> list_all (\<lambda>v. \<not> EntryIsEmpty v) (aht_entries h)"

interpretation aht_dir: probe_table "2 ^ k" "aht_seq (2 ^ k)" for k
proof -
  have "probe_table (2 ^ k) (\<lambda>key. probe_pos (2 ^ k) (unat (ucast (hash_key key) :: u32)) (ProbeStep (hash_key key)))"
    by (rule probe_table_arith) (simp_all add: odd_ProbeStep)
  moreover have "aht_seq (2 ^ k) =
    (\<lambda>key. probe_pos (2 ^ k) (unat (ucast (hash_key key) :: u32)) (ProbeStep (hash_key key)))"
    by (simp add: fun_eq_iff aht_seq_def)
  ultimately show "probe_table (2 ^ k) (aht_seq (2 ^ k))" by simp
qed

lemma aht_probe_table: "aht_ok l t h \<Longrightarrow> probe_table (aht_capacity h) (aht_seq (aht_capacity h))"
  using aht_dir.probe_table_axioms by (auto simp: aht_ok_def is_pow2_def)

lemma aht_map_iff:
  assumes "aht_ok l t h"
  shows "aht_map l t h k = Some e \<longleftrightarrow> (\<exists>s. aht_tab h s = Some e \<and> key_of l t e = k)"
proof -
  have uniq: "e = f" if "aht_tab h s = Some e" "aht_tab h u = Some f" "key_of l t e = key_of l t f" for s u e f
    using assms that unfolding aht_ok_def table_ok_def by (metis option.inject)
  have mem: "e \<in> set (List.map_filter (aht_tab h) [0..<aht_capacity h]) \<longleftrightarrow> (\<exists>s. aht_tab h s = Some e)" for e
  proof -
    have "s < aht_capacity h" if "aht_tab h s = Some e" for s
      using that by (auto simp: aht_tab_def split: if_splits)
    then show ?thesis by (force simp: map_filter_def)
  qed
  show ?thesis
  proof
    assume "aht_map l t h k = Some e"
    then have "e \<in> set (List.map_filter (aht_tab h) [0..<aht_capacity h])" "key_of l t e = k"
      by (auto simp: aht_map_def find_Some_iff)
    then show "\<exists>s. aht_tab h s = Some e \<and> key_of l t e = k" using mem by blast
  next
    assume "\<exists>s. aht_tab h s = Some e \<and> key_of l t e = k"
    then obtain s where s: "aht_tab h s = Some e" "key_of l t e = k" by blast
    then have "e \<in> set (List.map_filter (aht_tab h) [0..<aht_capacity h])" using mem by blast
    then have "aht_map l t h k \<noteq> None" using s(2) by (auto simp: aht_map_def find_None_iff)
    then obtain f where f: "aht_map l t h k = Some f" by blast
    then have "f \<in> set (List.map_filter (aht_tab h) [0..<aht_capacity h])" "key_of l t f = k"
      by (auto simp: aht_map_def find_Some_iff)
    then show "aht_map l t h k = Some e" using f s uniq mem by metis
  qed
qed

lemma aht_map_None: "aht_ok l t h \<Longrightarrow> aht_map l t h k = None \<Longrightarrow> aht_tab h s = Some e \<Longrightarrow> key_of l t e \<noteq> k"
  using aht_map_iff by (metis option.distinct(1))

lemma aht_full_iff: "aht_ok l t h \<Longrightarrow> aht_full h \<longleftrightarrow> (\<forall>s<aht_capacity h. aht_tab h s \<noteq> None)"
  by (auto simp: aht_full_def aht_tab_def list_all_length aht_ok_def)

lemma aht_ok_Init:
  "is_pow2 N \<Longrightarrow> N \<le> 2 ^ 31 \<Longrightarrow> aht_ok l t (AggregateHashTableInit N)"
  and aht_tab_Init: "aht_tab (AggregateHashTableInit N) = (\<lambda>_. None)"
  by (auto simp: aht_ok_def AggregateHashTableInit_def aht_tab_def table_ok_def EntryIsEmpty_def)

text \<open>The next slot of the code is the next position of the sequence.\<close>

lemma aht_seq_next:
  assumes "aht_ok l t h" and "aht_capacity_mask h = aht_capacity h - 1"
  shows "wrap32 (aht_seq (aht_capacity h) k i + ProbeStep (hash_key k)) AND aht_capacity_mask h =
    aht_seq (aht_capacity h) k (Suc i)"
proof -
  have p: "is_pow2 (aht_capacity h)" "aht_capacity h \<le> 2 ^ 31" using assms(1) by (simp_all add: aht_ok_def)
  then have "aht_seq (aht_capacity h) k i < 2 ^ 31"
    using probe_pos_less [of "aht_capacity h"] unfolding aht_seq_def by (metis is_pow2_pos order_less_le_trans)
  then have "wrap32 (aht_seq (aht_capacity h) k i + ProbeStep (hash_key k)) =
      aht_seq (aht_capacity h) k i + ProbeStep (hash_key k)"
    using ProbeStep_less [of "hash_key k"] by (intro wrap32_id) simp
  then show ?thesis
    using p by (simp only: assms(2) nat_and_pow2_mask aht_seq_def probe_pos_Suc)
qed

lemma aht_first_slot:
  assumes "aht_ok l t h"
  shows "unat (ucast (hash_key k) :: u32) AND aht_capacity_mask h = aht_seq (aht_capacity h) k 0"
proof -
  have "is_pow2 (aht_capacity h)" "aht_capacity_mask h = aht_capacity h - 1"
    using assms by (simp_all add: aht_ok_def)
  then show ?thesis by (simp only: nat_and_pow2_mask aht_seq_def probe_pos_def) simp
qed

text \<open>What the test of an entry decides.\<close>

lemma entry_test:
  assumes l: "layout_ok l" "group_first l" and t: "rows_ok l t" and h: "aht_ok l t h"
    and row: "row_ok l (tdc_heap u) used row" and s: "aht_tab h s = Some e"
  shows "EntryRowIndex (aht_entries h ! s) = e"
    and "EntrySalt (aht_entries h ! s) \<noteq> HashSalt (hash_key (row_key l (tdc_heap u) row)) \<Longrightarrow>
      key_of l t e \<noteq> row_key l (tdc_heap u) row"
    and "MatchGroupRow l (Some u) row (Some t) (TupleDataCollectionGetRow t e) =
      Inr (key_of l t e = row_key l (tdc_heap u) row)"
proof -
  show "EntryRowIndex (aht_entries h ! s) = e"
    using s by (auto simp: aht_tab_def split: if_splits)
  have e: "e < tdc_row_count t" "EntrySalt (aht_entries h ! s) = HashSalt (hash_key (key_of l t e))"
    using h s by (auto simp: aht_ok_def)
  then show "EntrySalt (aht_entries h ! s) \<noteq> HashSalt (hash_key (row_key l (tdc_heap u) row)) \<Longrightarrow>
      key_of l t e \<noteq> row_key l (tdc_heap u) row"
    by auto
  have "row_ok l (tdc_heap t) (tdc_heap_used t) (tdc_rows t ! e)"
    using t e(1) by (simp add: rows_ok_def)
  from MatchGroupRow_key [OF l row this]
  show "MatchGroupRow l (Some u) row (Some t) (TupleDataCollectionGetRow t e) =
      Inr (key_of l t e = row_key l (tdc_heap u) row)"
    by (auto simp: TupleDataCollectionGetRow_def key_of_def)
qed

lemma upt_step: "n > 0 \<Longrightarrow> [i..<i + n] = i # [Suc i..<Suc i + (n - 1)]"
  by (simp add: upt_conv_Cons)

text \<open>The probe loop is the search of the probe sequence for the key.\<close>

lemma probe_loop:
  assumes l: "layout_ok l" "group_first l" and t: "rows_ok l t" and h: "aht_ok l t h"
    and row: "row_ok l (tdc_heap t) (tdc_heap_used t) row"
    and k: "k = row_key l (tdc_heap t) row"
    and meta: "pm_salt meta = HashSalt (hash_key k)" "pm_step meta = ProbeStep (hash_key k)"
  shows "FindOrInsertFromSlotLocked n h t l g row meta (aht_seq (aht_capacity h) k i) =
    (case search (aht_tab h) (\<lambda>e. key_of l t e = k) (map (aht_seq (aht_capacity h) k) [i..<i + n]) of
       None \<Rightarrow> Inl (Elog ''AggregateHashTable full'')
     | Some (s, None) \<Rightarrow> Inr (True, g, set_entry s (PackEntry (HashSalt (hash_key k)) g) h)
     | Some (s, Some e) \<Rightarrow> Inr (False, e, h))"
proof (induction n arbitrary: i)
  case 0
  then show ?case by simp
next
  case (Suc n)
  let ?s = "aht_seq (aht_capacity h) k i"
  have mask: "aht_capacity_mask h = aht_capacity h - 1" using h by (simp add: aht_ok_def)
  have in_range: "?s < aht_capacity h"
    using h by (auto simp: aht_seq_def aht_ok_def intro!: probe_pos_less)
  note nxt = aht_seq_next [OF h mask, of k i]
  have list: "[i..<i + Suc n] = i # [Suc i..<Suc i + n]" by (simp add: upt_conv_Cons)
  show ?case
  proof (cases "aht_tab h ?s")
    case None
    then have "EntryIsEmpty (aht_entries h ! ?s)" using in_range by (auto simp: aht_tab_def split: if_splits)
    then show ?thesis unfolding list using None meta by simp
  next
    case (Some e)
    then have ne: "\<not> EntryIsEmpty (aht_entries h ! ?s)" by (auto simp: aht_tab_def split: if_splits)
    note test = entry_test [OF l t h row Some, folded k]
    have rest: "FindOrInsertFromSlotLocked n h t l g row meta (wrap32 (?s + pm_step meta) AND aht_capacity_mask h) =
      (case search (aht_tab h) (\<lambda>e. key_of l t e = k) (map (aht_seq (aht_capacity h) k) [Suc i..<Suc i + n]) of
         None \<Rightarrow> Inl (Elog ''AggregateHashTable full'')
       | Some (s, None) \<Rightarrow> Inr (True, g, set_entry s (PackEntry (HashSalt (hash_key k)) g) h)
       | Some (s, Some e) \<Rightarrow> Inr (False, e, h))"
      unfolding meta(2) nxt by (rule Suc)
    show ?thesis
      using ne test Some meta(1)
      by (simp only: FindOrInsertFromSlotLocked.simps Let_def list list.map search.simps option.case rest)
        (auto simp: Let_def)
  qed
qed

text \<open>Claiming an empty slot for a key that is not in the table.\<close>

lemma set_entry_tab:
  assumes "length (aht_entries h) = aht_capacity h" "s < aht_capacity h" "g < 2 ^ 32 - 1"
  shows "aht_tab (set_entry s (PackEntry salt g) h) = (aht_tab h)(s \<mapsto> g)"
  using assms Pack_not_empty [OF assms(3)] EntryRowIndex_Pack [of g]
  by (auto simp: aht_tab_def set_entry_def fun_eq_iff nth_list_update)

lemma claim_ok:
  assumes h: "aht_ok l t h" and tab: "table_ok (aht_capacity h) (aht_seq (aht_capacity h)) (key_of l u) ((aht_tab h)(s \<mapsto> g))"
    and s: "s < aht_capacity h" "aht_tab h s = None" and g: "g < 2 ^ 32 - 1" "g < tdc_row_count u"
    and keys: "\<And>e. e < tdc_row_count t \<Longrightarrow> key_of l u e = key_of l t e" and cnt: "tdc_row_count t \<le> tdc_row_count u"
    and salt: "salt = HashSalt (hash_key (key_of l u g))"
  shows "aht_ok l u (set_entry s (PackEntry salt g) h)"
proof -
  have len: "length (aht_entries h) = aht_capacity h" using h by (simp add: aht_ok_def)
  have old: "e < tdc_row_count u \<and> EntrySalt (aht_entries (set_entry s (PackEntry salt g) h) ! r) = HashSalt (hash_key (key_of l u e))"
    if "((aht_tab h)(s \<mapsto> g)) r = Some e" for r e
  proof (cases "r = s")
    case True
    then show ?thesis using that g s(1) len salt by (auto simp: set_entry_def EntrySalt_Pack)
  next
    case False
    then have "aht_tab h r = Some e" using that by simp
    then have "e < tdc_row_count t" "EntrySalt (aht_entries h ! r) = HashSalt (hash_key (key_of l t e))"
      using h by (auto simp: aht_ok_def)
    then show ?thesis using False keys cnt by (simp add: set_entry_def)
  qed
  show ?thesis
    unfolding aht_ok_def set_entry_tab [OF len s(1) g(1)]
    using h tab old by (simp add: aht_ok_def set_entry_def)
qed

lemma rows_key_of:
  "rows_ok l t \<Longrightarrow> e < tdc_row_count t \<Longrightarrow> row_ok l (tdc_heap t) (tdc_heap_used t) (tdc_rows t ! e)"
  by (simp add: rows_ok_def)

lemma aht_search_hit:
  assumes "aht_ok l t h" "aht_tab h s = Some e" "key_of l t e = k"
  shows "search (aht_tab h) (\<lambda>e. key_of l t e = k) (map (aht_seq (aht_capacity h) k) [0..<aht_capacity h]) =
    Some (s, Some e)"
proof -
  obtain j where "aht_capacity h = 2 ^ j" using assms(1) by (auto simp: aht_ok_def is_pow2_def)
  then show ?thesis
    using aht_dir.search_hit [of j "key_of l t" "aht_tab h" s e] assms by (simp add: aht_ok_def)
qed

lemma aht_search_miss:
  assumes h: "aht_ok l t h" and new: "\<And>s e. aht_tab h s = Some e \<Longrightarrow> key_of l t e \<noteq> k" and free: "\<not> aht_full h"
  obtains s where "search (aht_tab h) (\<lambda>e. key_of l t e = k)
      (map (aht_seq (aht_capacity h) k) [0..<aht_capacity h]) = Some (s, None)"
    and "s < aht_capacity h" "aht_tab h s = None"
    and "\<And>g key. (\<And>s e. aht_tab h s = Some e \<Longrightarrow> key e = key_of l t e) \<Longrightarrow> key g = k \<Longrightarrow>
      table_ok (aht_capacity h) (aht_seq (aht_capacity h)) key ((aht_tab h)(s \<mapsto> g))"
proof -
  obtain j where j: "aht_capacity h = 2 ^ j" using h by (auto simp: aht_ok_def is_pow2_def)
  obtain s0 where s0: "s0 < 2 ^ j" "aht_tab h s0 = None" using free aht_full_iff [OF h] j by auto
  have ok: "table_ok (2 ^ j) (aht_seq (2 ^ j)) (key_of l t) (aht_tab h)" using h j by (simp add: aht_ok_def)
  obtain s where s: "search (aht_tab h) (\<lambda>e. key_of l t e = k) (map (aht_seq (2 ^ j) k) [0..<2 ^ j]) = Some (s, None)"
    "s < 2 ^ j" "aht_tab h s = None"
    by (rule aht_dir.search_miss [OF ok _ s0, of k]) (erule new, rule that, assumption+)
  have "table_ok (2 ^ j) (aht_seq (2 ^ j)) key ((aht_tab h)(s \<mapsto> g))"
    if same: "\<And>s e. aht_tab h s = Some e \<Longrightarrow> key e = key_of l t e" and g: "key g = k" for g key
  proof -
    have ok': "table_ok (2 ^ j) (aht_seq (2 ^ j)) key (aht_tab h)"
      by (rule table_ok_cong [OF _ ok]) (rule same)
    have new': "\<And>s e. aht_tab h s = Some e \<Longrightarrow> key e \<noteq> k" using new same by simp
    have srch: "search (aht_tab h) (\<lambda>e. key e = k) ss = search (aht_tab h) (\<lambda>e. key_of l t e = k) ss" for ss
      by (rule search_cong) (simp add: same)
    obtain u where u: "search (aht_tab h) (\<lambda>e. key e = k) (map (aht_seq (2 ^ j) k) [0..<2 ^ j]) = Some (u, None)"
      "\<And>e. key e = k \<Longrightarrow> table_ok (2 ^ j) (aht_seq (2 ^ j)) key ((aht_tab h)(u \<mapsto> e))"
      by (rule aht_dir.search_miss [OF ok' _ s0, of k]) (erule new', rule that, assumption+)
    then have "u = s" using s(1) srch by simp
    then show ?thesis using u(2) g by simp
  qed
  then show thesis using that [of s] s j by simp
qed

text \<open>When the search finds neither the key nor an empty slot.\<close>

lemma aht_search_full:
  assumes h: "aht_ok l t h" and new: "\<And>s e. aht_tab h s = Some e \<Longrightarrow> key_of l t e \<noteq> k" and full: "aht_full h"
  shows "search (aht_tab h) (\<lambda>e. key_of l t e = k) (map (aht_seq (aht_capacity h) k) [0..<aht_capacity h]) = None"
proof (cases "search (aht_tab h) (\<lambda>e. key_of l t e = k) (map (aht_seq (aht_capacity h) k) [0..<aht_capacity h])")
  case (Some r)
  obtain s res where r: "r = (s, res)" by fastforce
  obtain i where i: "i < aht_capacity h" "s = aht_seq (aht_capacity h) k i" "aht_tab h s = res" "\<forall>e. res = Some e \<longrightarrow> key_of l t e = k"
    using search_stops [OF Some [unfolded r]] by auto
  have "s < aht_capacity h" unfolding i(2) aht_seq_def using h by (auto simp: aht_ok_def intro!: probe_pos_less)
  then have "res \<noteq> None" using full aht_full_iff [OF h] i(3) by auto
  then show ?thesis using i(3,4) new by auto
qed

text \<open>The abstract effect of claiming a slot.\<close>

lemma aht_map_claim:
  assumes h: "aht_ok l t h" and h': "aht_ok l u h'" and tab: "aht_tab h' = (aht_tab h)(s \<mapsto> g)" "aht_tab h s = None"
    and keys: "\<And>s e. aht_tab h s = Some e \<Longrightarrow> key_of l u e = key_of l t e" and g: "key_of l u g = k"
    and new: "aht_map l t h k = None"
  shows "aht_map l u h' = (aht_map l t h)(k \<mapsto> g)"
proof
  fix k'
  have "aht_map l u h' k' = Some e \<longleftrightarrow> ((aht_map l t h)(k \<mapsto> g)) k' = Some e" for e
    unfolding aht_map_iff [OF h'] tab using aht_map_iff [OF h] keys g tab(2) new
    by (auto simp: fun_upd_apply split: if_splits) (metis option.distinct(1))+
  then show "aht_map l u h' k' = ((aht_map l t h)(k \<mapsto> g)) k'" by (metis not_None_eq)
qed

text \<open>C10: Find-or-insert is the insertion of a finite map from group keys to row indices: a key that is
  present returns its canonical row and leaves the table alone, a new key makes the candidate row
  canonical and changes no other key, and the only failure is a full table without the key. The
  probe with its hash-dependent odd step reaches every slot, and the salt never hides a match.\<close>

theorem FindOrInsert_is_map_update:
  assumes "layout_ok l" "group_first l" "rows_ok l t" "aht_ok l t h" "g < tdc_row_count t"
    and "k = key_of l t g"
  shows "case AggregateHashTableFindOrInsert h t l g (TupleDataCollectionGetRow t g) (hash_key k) of
      Inl err \<Rightarrow> aht_map l t h k = None \<and> aht_full h
    | Inr (inserted, e, h') \<Rightarrow> inserted = (aht_map l t h k = None) \<and> aht_ok l t h' \<and>
        (inserted \<longrightarrow> \<not> aht_full h) \<and> (\<not> inserted \<longrightarrow> h' = h) \<and>
        aht_map l t h' = (if inserted then (aht_map l t h)(k \<mapsto> g) else aht_map l t h) \<and>
        aht_map l t h' k = Some e"
proof -
  note l = assms(1,2) and t = assms(3) and h = assms(4) and g = assms(5) and k = assms(6)
  define meta where "meta = BuildProbeMeta h (hash_key k)"
  define srch where "srch = search (aht_tab h) (\<lambda>e. key_of l t e = k)
    (map (aht_seq (aht_capacity h) k) [0..<aht_capacity h])"
  have meta: "pm_salt meta = HashSalt (hash_key k)" "pm_step meta = ProbeStep (hash_key k)"
    "pm_slot meta = aht_seq (aht_capacity h) k 0"
    using aht_first_slot [OF h, of k] by (simp_all add: meta_def BuildProbeMeta_def)
  have row: "row_ok l (tdc_heap t) (tdc_heap_used t) (TupleDataCollectionGetRow t g)"
    "k = row_key l (tdc_heap t) (TupleDataCollectionGetRow t g)"
    using rows_key_of [OF t g] k by (simp_all add: TupleDataCollectionGetRow_def key_of_def)
  have run: "AggregateHashTableFindOrInsert h t l g (TupleDataCollectionGetRow t g) (hash_key k) =
    (case srch of
       None \<Rightarrow> Inl (Elog ''AggregateHashTable full'')
     | Some (s, None) \<Rightarrow> Inr (True, g, set_entry s (PackEntry (HashSalt (hash_key k)) g) h)
     | Some (s, Some e) \<Rightarrow> Inr (False, e, h))"
    using probe_loop [OF l t h row meta(1,2), of "aht_capacity h" g 0]
    by (simp add: AggregateHashTableFindOrInsert_def meta_def [symmetric] meta(3) srch_def)
  show ?thesis
  proof (cases "aht_map l t h k")
    case (Some e)
    then obtain s where s: "aht_tab h s = Some e" "key_of l t e = k" using aht_map_iff [OF h] by blast
    show ?thesis using aht_search_hit [OF h s] Some h by (simp add: run srch_def)
  next
    case None
    note new = aht_map_None [OF h None]
    show ?thesis
    proof (cases "aht_full h")
      case True
      then show ?thesis using aht_search_full [OF h new True] None by (simp add: run srch_def)
    next
      case False
      have g32: "g < 2 ^ 32 - 1" using g t by (auto simp: rows_ok_def tdc_ok_def)
      obtain s where s: "srch = Some (s, None)" "s < aht_capacity h" "aht_tab h s = None"
        "table_ok (aht_capacity h) (aht_seq (aht_capacity h)) (key_of l t) ((aht_tab h)(s \<mapsto> g))"
      proof (rule aht_search_miss [OF h _ False, of k])
        fix s e assume "aht_tab h s = Some e"
        then show "key_of l t e \<noteq> k" by (rule new)
      next
        fix s
        assume "search (aht_tab h) (\<lambda>e. key_of l t e = k)
            (map (aht_seq (aht_capacity h) k) [0..<aht_capacity h]) = Some (s, None)"
          "s < aht_capacity h" "aht_tab h s = None"
          and tab: "\<And>g key. (\<And>s e. aht_tab h s = Some e \<Longrightarrow> key e = key_of l t e) \<Longrightarrow> key g = k \<Longrightarrow>
            table_ok (aht_capacity h) (aht_seq (aht_capacity h)) key ((aht_tab h)(s \<mapsto> g))"
        moreover have "table_ok (aht_capacity h) (aht_seq (aht_capacity h)) (key_of l t) ((aht_tab h)(s \<mapsto> g))"
          by (rule tab) (simp_all add: k)
        ultimately show thesis by (intro that [of s]) (simp_all add: srch_def)
      qed
      let ?h' = "set_entry s (PackEntry (HashSalt (hash_key k)) g) h"
      have h': "aht_ok l t ?h'"
        by (rule claim_ok [OF h s(4,2,3) g32 g]) (simp_all add: k)
      have "aht_tab ?h' = (aht_tab h)(s \<mapsto> g)"
        using set_entry_tab [OF _ s(2) g32] h by (simp add: aht_ok_def)
      from aht_map_claim [OF h h' this s(3) refl k [symmetric] None] show ?thesis
        using h' None False by (simp add: run s(1))
    qed
  qed
qed

definition demo_table :: tuple_data_collection where
  "demo_table = demo_tdc\<lparr>tdc_row_count := 1\<rparr>"

lemma demo_table_ok: "rows_ok demo_layout demo_table" "tdc_row_count demo_table = 1"
proof -
  have "tdc_ok demo_table"
    using demo_facts(5) by (simp add: demo_table_def tdc_ok_def demo_tdc_def TupleDataCollectionInit_def)
  moreover have "tdc_rows demo_table ! r = demo_row" if "r < 4" for r
    using that by (simp add: demo_table_def demo_tdc_def TupleDataCollectionInit_def demo_row_def)
  ultimately show "rows_ok demo_layout demo_table"
    using demo_facts(4,7)
    by (simp add: rows_ok_def demo_table_def demo_tdc_def TupleDataCollectionInit_def)
      (simp add: demo_row_def)
  show "tdc_row_count demo_table = 1" by (simp add: demo_table_def)
qed

theorem FindOrInsert_is_map_update_witness:
  "\<exists>h'. AggregateHashTableFindOrInsert (AggregateHashTableInit 32) demo_table demo_layout 0
      (TupleDataCollectionGetRow demo_table 0) (hash_key (key_of demo_layout demo_table 0)) = Inr (True, 0, h') \<and>
    aht_map demo_layout demo_table h' (key_of demo_layout demo_table 0) = Some 0"
proof -
  have p: "is_pow2 32" unfolding is_pow2_def by (rule exI [of _ 5]) simp
  have ok: "aht_ok demo_layout demo_table (AggregateHashTableInit 32)" by (rule aht_ok_Init [OF p]) simp
  have none: "aht_map demo_layout demo_table (AggregateHashTableInit 32) k = None" for k
    using aht_map_iff [OF ok, of k] aht_tab_Init by (metis not_None_eq option.distinct(1))
  have "\<not> aht_full (AggregateHashTableInit 32)"
    by (simp add: aht_full_def AggregateHashTableInit_def EntryIsEmpty_def list_all_iff)
  then show ?thesis
    using FindOrInsert_is_map_update [OF demo_facts(2,3) demo_table_ok(1) ok _ refl, of 0] none
      demo_table_ok(2)
    by (auto split: sum.splits)
qed

section \<open>Combining a row into the table\<close>

definition copy_need :: "u8 list \<Rightarrow> tdc_column_desc \<Rightarrow> nat" where
  "copy_need row c =
     (if col_kind c = STRING_REF
      then HeapBytesNeededForStringLength (unat (ref_len (read_string_ref (unat (col_offset c)) row)))
      else 0)"

lemma column_step_copy:
  assumes l: "layout_ok l" and src: "row_ok l (tdc_heap s) used src_row"
  shows "column_step l (row_val (tdc_heap s) src_row) (copy_need src_row) (\<lambda>t. t) (CopyGroupColumn (Some s) src_row)"
  unfolding column_step_def
proof (intro ballI allI impI)
  fix d t and row :: "u8 list"
  assume d: "d \<in> set (columns l)" and t: "tdc_ok t" and len: "length row = unat (layout_row_width l)"
    and room: "copy_need src_row d \<le> tdc_heap_capacity t - tdc_heap_used t"
  note col = layout_ok_column [OF l d]
  have slen: "length src_row = unat (layout_row_width l)" using src by (simp add: row_ok_def)
  let ?off = "unat (col_offset d)"
  show "\<exists>bs u. CopyGroupColumn (Some s) src_row d (row, t) = Inr (mem_write ?off bs row, u) \<and>
      length bs = unat (col_width d) \<and> tdc_ok u \<and> tdc_ext t u \<and>
      tdc_heap_used u = tdc_heap_used t + copy_need src_row d \<and>
      row_val (tdc_heap u) (mem_write ?off bs row) d = row_val (tdc_heap s) src_row d \<and>
      (col_kind d = STRING_REF \<longrightarrow> ref_ok (tdc_heap u) (tdc_heap_used u) (read_string_ref ?off (mem_write ?off bs row)))"
  proof (cases "col_kind d = STRING_REF")
    case False
    define bs where "bs = mem_read ?off (unat (col_width d)) src_row"
    have bs: "length bs = unat (col_width d)" "?off + length bs \<le> length row"
      using col(1) len slen by (simp_all add: bs_def)
    have "row_val (tdc_heap t) (mem_write ?off bs row) d = row_val (tdc_heap s) src_row d"
      using row_val_bytes [OF False col(2), of "mem_write ?off bs row" src_row] bs col(1) len slen
      by (simp add: mem_read_write bs_def)
    then show ?thesis
      using False t bs by (intro exI [of _ bs] exI [of _ t]) (simp add: CopyGroupColumn_def copy_need_def bs_def Let_def)
  next
    case True
    define src_ref where "src_ref = read_string_ref ?off src_row"
    define str where "str = ref_string (tdc_heap s) src_ref"
    have ok: "ref_ok (tdc_heap s) used src_ref"
      using src d True by (auto simp: row_ok_def row_refs_ok_def src_ref_def)
    have strlen: "unat (ref_len src_ref) = length str"
      using length_ref_string [OF ok] by (simp add: str_def)
    have need: "copy_need src_row d = HeapBytesNeededForStringLength (length str)"
      using True strlen by (simp add: copy_need_def src_ref_def [symmetric])
    obtain r u where st: "TupleDataCollectionStoreStringBytes t (Some str) (ref_len src_ref) = (True, r, u)"
      using StoreString_succeeds [OF t strlen] room need
      by (cases "TupleDataCollectionStoreStringBytes t (Some str) (ref_len src_ref)") auto
    note ref = StoreString_ref [OF t st strlen]
    have frame: "tdc_ok u" "tdc_ext t u"
      using StoreString_frame [OF t st] strlen by (auto simp: tdc_ext_def)
    have off: "?off + 16 \<le> length row" using col len True by simp
    let ?bs = "le_bytes 4 (unat (ref_len r)) @ le_bytes 4 (unat (ref_offset r)) @ le_bytes 8 (unat (ref_prefix r))"
    have w: "write_string_ref ?off r row = mem_write ?off ?bs row" by (simp add: write_string_ref_def)
    have rd: "read_string_ref ?off (mem_write ?off ?bs row) = r"
      using read_write_string_ref [OF off, of r] by (simp only: w)
    have "CopyGroupColumn (Some s) src_row d (row, t) = Inr (mem_write ?off ?bs row, u)"
      using True st by (simp add: CopyGroupColumn_def heap_base_def src_ref_def [symmetric]
          str_def [symmetric] w [symmetric] Let_def)
    moreover have "row_val (tdc_heap u) (mem_write ?off ?bs row) d = row_val (tdc_heap s) src_row d"
      using True ref(2) by (simp add: row_val_def rd src_ref_def [symmetric] str_def [symmetric])
    ultimately show ?thesis
      using True frame ref need col(2) rd by (intro exI [of _ ?bs] exI [of _ u]) simp
  qed
qed

text \<open>A fresh zero row becomes the group row of the source's key, with every aggregate at its zero.\<close>

lemma CopyGroup_ok:
  assumes l: "layout_ok l" and src: "row_ok l (tdc_heap s) used src_row" and t: "tdc_ok t"
    and room: "sum_list (map (copy_need src_row) (columns l)) \<le> tdc_heap_capacity t - tdc_heap_used t"
  obtains row u where
    "CopyGroupColumns l (Some s) src_row (replicate (unat (layout_row_width l)) 0, t) = Inr (row, u)"
    and "tdc_ok u" "tdc_ext t u"
    and "row_ok l (tdc_heap u) (tdc_heap_used u) (fold init_aggregate (aggregates l) row)"
    and "row_key l (tdc_heap u) (fold init_aggregate (aggregates l) row) = row_key l (tdc_heap s) src_row"
    and "holds_states l (fold init_aggregate (aggregates l) row) []"
proof -
  let ?z = "replicate (unat (layout_row_width l)) (0 :: u8)"
  have z: "length ?z = unat (layout_row_width l)" "row_pad_ok l ?z"
    using zero_row_ok [OF l] by (auto simp: row_ok_def)
  obtain r u where
    r: "fold_res (CopyGroupColumn (Some s) src_row) (columns l) (?z, t) = Inr (r, u)"
      "row_ok l (tdc_heap u) (tdc_heap_used u) r" "row_key l (tdc_heap u) r = map (row_val (tdc_heap s) src_row) (columns l)"
      "tdc_ok u" "tdc_ext t u"
      "\<And>a. a \<in> set (aggregates l) \<Longrightarrow> mem_read (unat (agg_offset a)) (unat (agg_width a)) r =
        mem_read (unat (agg_offset a)) (unat (agg_width a)) ?z"
    by (rule column_loop [OF l column_step_copy [OF l src] t z room]) (rule that; assumption)
  have "agg_view a r = (0, 0)" if "a \<in> set (aggregates l)" for a
    using agg_view_bytes [OF l that _ _ r(6) [OF that]] zero_views [OF l that] r(2)
    by (simp add: row_ok_def)
  note init = init_aggregates [OF l r(2) this]
  show thesis
    using that [of r u] r init by (simp add: CopyGroupColumns_def row_key_def)
qed

text \<open>Conversely a copy that succeeds has taken exactly the bytes its strings need.\<close>

lemma copy_success:
  "fold_res (CopyGroupColumn (Some s) src_row) cs (row, t) = Inr (row', u) \<Longrightarrow> tdc_ok t \<Longrightarrow>
   (\<And>c. c \<in> set cs \<Longrightarrow> col_kind c = STRING_REF \<Longrightarrow>
      ref_ok (tdc_heap s) used (read_string_ref (unat (col_offset c)) src_row)) \<Longrightarrow>
   tdc_ok u \<and> tdc_heap_capacity u = tdc_heap_capacity t \<and>
   tdc_heap_used u = tdc_heap_used t + sum_list (map (copy_need src_row) cs)"
proof (induction cs arbitrary: row t)
  case Nil
  then show ?case by simp
next
  case (Cons c cs)
  obtain row1 t1 where 1: "CopyGroupColumn (Some s) src_row c (row, t) = Inr (row1, t1)"
    "fold_res (CopyGroupColumn (Some s) src_row) cs (row1, t1) = Inr (row', u)"
    using Cons.prems(1) by (auto simp: res_simps)
  have "tdc_ok t1 \<and> tdc_heap_capacity t1 = tdc_heap_capacity t \<and>
    tdc_heap_used t1 = tdc_heap_used t + copy_need src_row c"
  proof (cases "col_kind c = STRING_REF")
    case False
    then show ?thesis using 1(1) Cons.prems(2) by (simp add: CopyGroupColumn_def copy_need_def Let_def)
  next
    case True
    define ref where "ref = read_string_ref (unat (col_offset c)) src_row"
    define str where "str = ref_string (tdc_heap s) ref"
    have ok: "ref_ok (tdc_heap s) used ref" using Cons.prems(3) True by (simp add: ref_def)
    have len: "unat (ref_len ref) = length str" using length_ref_string [OF ok] by (simp add: str_def)
    obtain r where st: "TupleDataCollectionStoreStringBytes t (Some str) (ref_len ref) = (True, r, t1)"
      using 1(1) True
      by (auto simp: CopyGroupColumn_def heap_base_def Let_def ref_def [symmetric] str_def [symmetric]
          split: prod.splits if_splits)
    show ?thesis
      using StoreString_ref(4) [OF Cons.prems(2) st len] StoreString_frame [OF Cons.prems(2) st] len True
      by (simp add: copy_need_def ref_def [symmetric])
  qed
  then show ?case using Cons.IH [OF 1(2)] Cons.prems(3) by simp
qed

text \<open>The abstract contents of a table: the inputs aggregated so far for each key.\<close>

definition table_holds ::
  "tuple_data_layout \<Rightarrow> tuple_data_collection \<Rightarrow> aggregate_hash_table \<Rightarrow>
   (gval list \<Rightarrow> (data_chunk \<times> nat) list option) \<Rightarrow> bool" where
  "table_holds l t h m \<longleftrightarrow>
     (\<forall>k. case m k of
        None \<Rightarrow> aht_map l t h k = None
      | Some ins \<Rightarrow> \<exists>e. aht_map l t h k = Some e \<and> holds_states l (tdc_rows t ! e) ins)"

lemma combine_loop:
  assumes l: "layout_ok l" "group_first l" and t: "rows_ok l t" and h: "aht_ok l t h"
    and row: "row_ok l (tdc_heap s) used src_row" and k: "k = row_key l (tdc_heap s) src_row"
  shows "combine_probe n h t l (Some s) src_row (HashSalt (hash_key k)) (ProbeStep (hash_key k))
      (aht_seq (aht_capacity h) k i) =
    (case search (aht_tab h) (\<lambda>e. key_of l t e = k) (map (aht_seq (aht_capacity h) k) [i..<i + n]) of
       None \<Rightarrow> Inl (Elog ''AggregateHashTableCombineRow AHT full'')
     | Some (s', None) \<Rightarrow>
         (case TupleDataCollectionAppendRow t of
            (g, t1) \<Rightarrow>
              if g = TDC_INVALID_ROW_INDEX
              then Inl (Elog ''AggregateHashTableCombineRow TDC full'')
              else rbind (CopyGroupColumns l (Some s) src_row (TupleDataCollectionGetRow t1 g, t1))
                (\<lambda>(new_row, t2). Inr (set_entry s' (PackEntry (HashSalt (hash_key k)) g) h,
                   set_row g (CombineAggregates l (fold init_aggregate (aggregates l) new_row) src_row) t2)))
     | Some (s', Some e) \<Rightarrow>
         Inr (h, set_row e (CombineAggregates l (TupleDataCollectionGetRow t e) src_row) t))"
proof (induction n arbitrary: i)
  case 0
  then show ?case by simp
next
  case (Suc n)
  let ?s = "aht_seq (aht_capacity h) k i"
  have mask: "aht_capacity_mask h = aht_capacity h - 1" using h by (simp add: aht_ok_def)
  have in_range: "?s < aht_capacity h"
    using h by (auto simp: aht_seq_def aht_ok_def intro!: probe_pos_less)
  note nxt = aht_seq_next [OF h mask, of k i]
  have list: "[i..<i + Suc n] = i # [Suc i..<Suc i + n]" by (simp add: upt_conv_Cons)
  show ?case
  proof (cases "aht_tab h ?s")
    case None
    then have "EntryIsEmpty (aht_entries h ! ?s)" using in_range by (auto simp: aht_tab_def split: if_splits)
    then show ?thesis
      unfolding list using None
      by (simp add: Let_def split: prod.splits)
  next
    case (Some e)
    then have ne: "\<not> EntryIsEmpty (aht_entries h ! ?s)" by (auto simp: aht_tab_def split: if_splits)
    note test = entry_test [OF l t h row Some, folded k]
    show ?thesis
      using ne test Some
      by (simp only: combine_probe.simps Let_def list list.map search.simps option.case nxt Suc)
        (auto simp: Let_def)
  qed
qed

lemma rows_ok_update:
  assumes l: "layout_ok l" and t: "rows_ok l t" and e: "e < tdc_row_count t"
    and r: "row_ok l (tdc_heap t) (tdc_heap_used t) r"
  shows "rows_ok l (set_row e r t)"
  using assms tdc_ok_set_row [of t r e]
  by (auto simp: rows_ok_def set_row_def row_ok_def nth_list_update_if tdc_ok_def nth_list_update)

lemma combine_hit:
  assumes l: "layout_ok l" and t: "rows_ok l t" and h: "aht_ok l t h" and m: "table_holds l t h m"
    and e: "aht_map l t h k = Some e" and src: "holds_states l src_row ins"
  defines "t' \<equiv> set_row e (CombineAggregates l (TupleDataCollectionGetRow t e) src_row) t"
  shows "rows_ok l t' \<and> aht_ok l t' h \<and> table_holds l t' h (m(k \<mapsto> the (m k) @ ins))"
proof -
  obtain s where s: "aht_tab h s = Some e" "key_of l t e = k" using e aht_map_iff [OF h] by blast
  have e_count: "e < tdc_row_count t" using h s by (auto simp: aht_ok_def)
  note row = rows_key_of [OF t e_count]
  let ?r = "CombineAggregates l (tdc_rows t ! e) src_row"
  have r: "row_ok l (tdc_heap t) (tdc_heap_used t) ?r" "row_key l (tdc_heap t) ?r = row_key l (tdc_heap t) (tdc_rows t ! e)"
    using CombineAggregates_row [OF l row] by blast+
  have t': "t' = set_row e ?r t" by (simp add: t'_def TupleDataCollectionGetRow_def)
  have rows': "tdc_rows t' = (tdc_rows t)[e := ?r]" by (simp add: t' set_row_def)
  have ok: "rows_ok l t'" unfolding t' by (rule rows_ok_update [OF l t e_count r(1)])
  have e_cap: "e < length (tdc_rows t)" using t e_count by (auto simp: rows_ok_def tdc_ok_def)
  have keys: "key_of l t' f = key_of l t f" for f
    using e_cap r(2) by (cases "f = e") (simp_all add: key_of_def t' set_row_def)
  have "table_ok (aht_capacity h) (aht_seq (aht_capacity h)) (key_of l t') (aht_tab h)"
    by (rule table_ok_cong [where key = "key_of l t"]) (use h keys in \<open>simp_all add: aht_ok_def\<close>)
  then have h': "aht_ok l t' h"
    using h keys by (simp add: aht_ok_def) (simp add: t' set_row_def)
  have map_eq: "aht_map l t' h = aht_map l t h" by (simp add: aht_map_def fun_eq_iff keys)
  have uniq: "e' \<noteq> e" if "aht_map l t h k' = Some e'" "k' \<noteq> k" for k' e'
    using that s(2) aht_map_iff [OF h] by auto
  obtain js where js: "m k = Some js" "holds_states l (tdc_rows t ! e) js"
    using m e by (fastforce simp: table_holds_def split: option.splits)
  have "holds_states l ?r (js @ ins)"
    using CombineAggregates_states [OF l _ js(2) src] row by (simp add: row_ok_def)
  then have "table_holds l t' h (m(k \<mapsto> the (m k) @ ins))"
    unfolding table_holds_def
  proof (intro allI)
    fix k'
    show "case (m(k \<mapsto> the (m k) @ ins)) k' of None \<Rightarrow> aht_map l t' h k' = None
      | Some ins' \<Rightarrow> \<exists>e. aht_map l t' h k' = Some e \<and> holds_states l (tdc_rows t' ! e) ins'"
    proof (cases "k' = k")
      case True
      then show ?thesis using e js e_cap \<open>holds_states l ?r (js @ ins)\<close> by (simp add: map_eq rows')
    next
      case False
      have "case m k' of None \<Rightarrow> aht_map l t h k' = None
        | Some ins' \<Rightarrow> \<exists>e. aht_map l t h k' = Some e \<and> holds_states l (tdc_rows t ! e) ins'"
        using m unfolding table_holds_def by blast
      moreover have "tdc_rows t' ! e' = tdc_rows t ! e'" if "aht_map l t h k' = Some e'" for e'
        using uniq [OF that False] by (simp add: rows')
      ultimately show ?thesis using False by (auto simp: map_eq split: option.splits)
    qed
  qed
  then show ?thesis using ok h' by simp
qed

text \<open>Claiming an empty slot for the row appended last.\<close>

lemma claim_row:
  assumes t: "rows_ok l t" and h: "aht_ok l t h" and m: "table_holds l t h m"
    and space: "tdc_row_count t < tdc_row_capacity t" and g_def: "g = tdc_row_count t"
    and t2: "tdc_ok t2" "tdc_ext (t\<lparr>tdc_row_count := g + 1\<rparr>) t2"
    and r: "row_ok l (tdc_heap t2) (tdc_heap_used t2) r" "row_key l (tdc_heap t2) r = k" and r_states: "holds_states l r ins"
    and none: "aht_map l t h k = None" and slot: "s' < aht_capacity h" "aht_tab h s' = None"
    and tab: "\<And>g key. (\<And>s e. aht_tab h s = Some e \<Longrightarrow> key e = key_of l t e) \<Longrightarrow> key g = k \<Longrightarrow>
      table_ok (aht_capacity h) (aht_seq (aht_capacity h)) key ((aht_tab h)(s' \<mapsto> g))"
  defines "t' \<equiv> set_row g r t2" and "h' \<equiv> set_entry s' (PackEntry (HashSalt (hash_key k)) g) h"
  shows "rows_ok l t' \<and> aht_ok l t' h' \<and> table_holds l t' h' (m(k \<mapsto> ins)) \<and>
    aht_map l t' h' = (aht_map l t h)(k \<mapsto> g) \<and> aht_tab h' = (aht_tab h)(s' \<mapsto> g) \<and>
    (\<forall>e<g. key_of l t' e = key_of l t e)"
proof -
  have tok: "tdc_ok t" using t by (simp add: rows_ok_def)
  have same: "tdc_rows t2 = tdc_rows t" "tdc_row_count t2 = g + 1" "tdc_row_width t2 = tdc_row_width t"
    "tdc_row_capacity t2 = tdc_row_capacity t"
    using t2(2) by (simp_all add: tdc_ext_def)
  have g_len: "g < length (tdc_rows t)" using tok space by (simp add: tdc_ok_def g_def)
  have old_row: "row_ok l (tdc_heap t2) (tdc_heap_used t2) (tdc_rows t ! e)"
    "row_key l (tdc_heap t2) (tdc_rows t ! e) = row_key l (tdc_heap t) (tdc_rows t ! e)" if "e < g" for e
    using tdc_ext_row_ok [OF t2(2,1), of l "tdc_rows t ! e"] tdc_ext_row(2) [OF t2(2,1), of l "tdc_rows t ! e"]
      rows_key_of [OF t, of e] that by (simp_all add: g_def row_ok_def)
  have ok: "rows_ok l t'"
    unfolding rows_ok_def
  proof (intro conjI allI impI)
    show "tdc_ok t'" unfolding t'_def using t2(1) r(1) t same by (intro tdc_ok_set_row) (simp_all add: row_ok_def rows_ok_def)
    show "tdc_row_width t' = unat (layout_row_width l)" using t same by (simp add: t'_def set_row_def rows_ok_def)
    show "row_ok l (tdc_heap t') (tdc_heap_used t') (tdc_rows t' ! e)" if "e < tdc_row_count t'" for e
      using that old_row(1) [of e] r(1) g_len same by (cases "e = g") (auto simp: t'_def set_row_def)
    show "tdc_rows t' ! e = replicate (unat (layout_row_width l)) 0" if "tdc_row_count t' \<le> e" "e < tdc_row_capacity t'" for e
      using that t same g_len by (auto simp: t'_def set_row_def rows_ok_def g_def)
  qed
  have key_g: "key_of l t' g = k"
    using r(2) g_len same by (simp add: key_of_def t'_def set_row_def)
  have keys: "key_of l t' e = key_of l t e" if "e < g" for e
    using old_row(2) [OF that] that same by (simp add: key_of_def t'_def set_row_def)
  have used: "e < g" if "aht_tab h u = Some e" for u e using h that by (auto simp: aht_ok_def g_def)
  have g32: "g < 2 ^ 32 - 1" using tok space by (auto simp: tdc_ok_def g_def)
  have h': "aht_ok l t' h'"
    unfolding h'_def
  proof (rule claim_ok [OF h _ slot g32])
    show "table_ok (aht_capacity h) (aht_seq (aht_capacity h)) (key_of l t') ((aht_tab h)(s' \<mapsto> g))"
      by (rule tab) (use keys used key_g in auto)
    show "g < tdc_row_count t'" "tdc_row_count t \<le> tdc_row_count t'"
      using same by (simp_all add: t'_def set_row_def g_def)
    show "\<And>e. e < tdc_row_count t \<Longrightarrow> key_of l t' e = key_of l t e" using keys by (simp add: g_def)
    show "HashSalt (hash_key k) = HashSalt (hash_key (key_of l t' g))" by (simp add: key_g)
  qed
  have tab': "aht_tab h' = (aht_tab h)(s' \<mapsto> g)"
    unfolding h'_def using h by (intro set_entry_tab [OF _ slot(1) g32]) (simp add: aht_ok_def)
  have map_eq: "aht_map l t' h' = (aht_map l t h)(k \<mapsto> g)"
    by (rule aht_map_claim [OF h h' tab' slot(2) _ key_g none]) (use keys used in auto)
  have states: "tdc_rows t' ! e = tdc_rows t ! e" if "e < g" for e
    using that same by (simp add: t'_def set_row_def)
  have "table_holds l t' h' (m(k \<mapsto> ins))"
    unfolding table_holds_def
  proof
    fix k'
    show "case (m(k \<mapsto> ins)) k' of None \<Rightarrow> aht_map l t' h' k' = None
      | Some ins' \<Rightarrow> \<exists>e. aht_map l t' h' k' = Some e \<and> holds_states l (tdc_rows t' ! e) ins'"
    proof (cases "k' = k")
      case True
      have "tdc_rows t' ! g = r" using g_len same by (simp add: t'_def set_row_def)
      then show ?thesis using r_states True by (simp add: map_eq)
    next
      case False
      have "case m k' of None \<Rightarrow> aht_map l t h k' = None
        | Some ins' \<Rightarrow> \<exists>e. aht_map l t h k' = Some e \<and> holds_states l (tdc_rows t ! e) ins'"
        using m unfolding table_holds_def by blast
      moreover have "e < g" if "aht_map l t h k' = Some e" for e
        using that used aht_map_iff [OF h] by blast
      ultimately show ?thesis using False states by (auto simp: map_eq split: option.splits)
    qed
  qed
  then show ?thesis using ok h' map_eq tab' keys by simp
qed

lemma combine_miss:
  assumes l: "layout_ok l" and t: "rows_ok l t" and h: "aht_ok l t h" and m: "table_holds l t h m"
    and k: "k = row_key l (tdc_heap s) src_row" and src: "row_ok l (tdc_heap s) used src_row" "holds_states l src_row ins"
    and none: "aht_map l t h k = None" and space: "tdc_row_count t < tdc_row_capacity t"
    and room: "sum_list (map (copy_need src_row) (columns l)) \<le> tdc_heap_capacity t - tdc_heap_used t"
    and slot: "s' < aht_capacity h" "aht_tab h s' = None"
    and tab: "\<And>g key. (\<And>s e. aht_tab h s = Some e \<Longrightarrow> key e = key_of l t e) \<Longrightarrow> key g = k \<Longrightarrow>
      table_ok (aht_capacity h) (aht_seq (aht_capacity h)) key ((aht_tab h)(s' \<mapsto> g))"
  shows "\<exists>g t1 new_row t2. TupleDataCollectionAppendRow t = (g, t1) \<and> g \<noteq> TDC_INVALID_ROW_INDEX \<and>
    CopyGroupColumns l (Some s) src_row (TupleDataCollectionGetRow t1 g, t1) = Inr (new_row, t2) \<and>
    (let h' = set_entry s' (PackEntry (HashSalt (hash_key k)) g) h;
         t' = set_row g (CombineAggregates l (fold init_aggregate (aggregates l) new_row) src_row) t2
     in rows_ok l t' \<and> aht_ok l t' h' \<and> table_holds l t' h' (m(k \<mapsto> ins)))"
proof -
  define g where "g = tdc_row_count t"
  define t1 where "t1 = t\<lparr>tdc_row_count := g + 1\<rparr>"
  have tok: "tdc_ok t" using t by (simp add: rows_ok_def)
  have app: "TupleDataCollectionAppendRow t = (g, t1)"
    using AppendRow_index [OF tok] space by (cases "TupleDataCollectionAppendRow t") (auto simp: g_def t1_def)
  have t1: "tdc_ok t1" "tdc_heap t1 = tdc_heap t" "tdc_heap_used t1 = tdc_heap_used t"
    "tdc_heap_capacity t1 = tdc_heap_capacity t"
    using tdc_ok_AppendRow [OF tok app] by (simp_all add: t1_def)
  have fresh: "TupleDataCollectionGetRow t1 g = replicate (unat (layout_row_width l)) 0"
    using t space by (simp add: rows_ok_def TupleDataCollectionGetRow_def t1_def g_def)
  have room1: "sum_list (map (copy_need src_row) (columns l)) \<le> tdc_heap_capacity t1 - tdc_heap_used t1"
    using room t1 by simp
  obtain new_row t2 where copy0: "CopyGroupColumns l (Some s) src_row (replicate (unat (layout_row_width l)) 0, t1) = Inr (new_row, t2)"
    and t2: "tdc_ok t2" "tdc_ext t1 t2"
    and init: "row_ok l (tdc_heap t2) (tdc_heap_used t2) (fold init_aggregate (aggregates l) new_row)"
      "row_key l (tdc_heap t2) (fold init_aggregate (aggregates l) new_row) = row_key l (tdc_heap s) src_row"
      "holds_states l (fold init_aggregate (aggregates l) new_row) []"
    by (rule CopyGroup_ok [OF l src(1) t1(1) room1]) (rule that, assumption+)
  have copy: "CopyGroupColumns l (Some s) src_row (TupleDataCollectionGetRow t1 g, t1) = Inr (new_row, t2)"
    using copy0 by (simp only: fresh)
  let ?r = "CombineAggregates l (fold init_aggregate (aggregates l) new_row) src_row"
  define t' where "t' = set_row g ?r t2"
  define h' where "h' = set_entry s' (PackEntry (HashSalt (hash_key k)) g) h"
  have r: "row_ok l (tdc_heap t2) (tdc_heap_used t2) ?r" "row_key l (tdc_heap t2) ?r = k"
    using CombineAggregates_row [OF l init(1)] init(2) k by simp_all
  have r_states: "holds_states l ?r ins"
    using CombineAggregates_states [OF l _ init(3) src(2)] init(1) by (simp add: row_ok_def)
  have "rows_ok l t' \<and> aht_ok l t' h' \<and> table_holds l t' h' (m(k \<mapsto> ins)) \<and>
      aht_map l t' h' = (aht_map l t h)(k \<mapsto> g) \<and> aht_tab h' = (aht_tab h)(s' \<mapsto> g)"
    unfolding t'_def h'_def
    using claim_row [OF t h m space g_def t2(1) t2(2) [unfolded t1_def] r r_states none slot tab] by blast
  moreover have "g < 2 ^ 32 - 1" using tok space by (auto simp: tdc_ok_def g_def)
  ultimately show ?thesis
    using app copy TDC_INVALID_ROW_INDEX_def unfolding Let_def t'_def h'_def
    by (intro exI [of _ g] exI [of _ t1] exI [of _ new_row] exI [of _ t2])
      (simp add: UINT32_MAX_def)
qed

text \<open>C9: Combining a partial group row into the shared table adds exactly its inputs to its group: if
  the key is in the table its canonical row's states absorb them, otherwise a new canonical row with
  that key and exactly these states is created, every other group is untouched, and the table and
  row invariants are kept. The call fails only for a new key when the table is full, the collection
  has no row left, or the string heap cannot hold the key.\<close>

theorem CombineRow_adds_inputs:
  assumes "layout_ok l" "group_first l" "rows_ok l t" "aht_ok l t h" "table_holds l t h m"
    and "row_ok l (tdc_heap s) used src_row" "holds_states l src_row ins"
    and "k = row_key l (tdc_heap s) src_row"
  shows "case AggregateHashTableCombineRow h t l (Some s) src_row (hash_key k) of
      Inl err \<Rightarrow> m k = None \<and> (aht_full h \<or> tdc_row_capacity t \<le> tdc_row_count t \<or>
        tdc_heap_capacity t - tdc_heap_used t < sum_list (map (copy_need src_row) (columns l)))
    | Inr (h', t') \<Rightarrow> rows_ok l t' \<and> aht_ok l t' h' \<and>
        table_holds l t' h' (m(k \<mapsto> (case m k of None \<Rightarrow> ins | Some js \<Rightarrow> js @ ins)))"
proof -
  note l = assms(1,2) and t = assms(3) and h = assms(4) and m = assms(5) and src = assms(6,7) and k = assms(8)
  define srch where "srch = search (aht_tab h) (\<lambda>e. key_of l t e = k)
    (map (aht_seq (aht_capacity h) k) [0..<aht_capacity h])"
  note run = combine_loop [OF l t h src(1) k, of "aht_capacity h" 0, folded aht_first_slot [OF h, of k],
      folded AggregateHashTableCombineRow_def, simplified, folded srch_def]
  have tok: "tdc_ok t" using t by (simp add: rows_ok_def)
  have mk: "(m k = None) = (aht_map l t h k = None)"
  proof -
    have "case m k of None \<Rightarrow> aht_map l t h k = None
      | Some ins \<Rightarrow> \<exists>e. aht_map l t h k = Some e \<and> holds_states l (tdc_rows t ! e) ins"
      using m unfolding table_holds_def by blast
    then show ?thesis by (auto split: option.splits)
  qed
  show ?thesis
  proof (cases "aht_map l t h k")
    case (Some e)
    then obtain u where u: "aht_tab h u = Some e" "key_of l t e = k" using aht_map_iff [OF h] by blast
    have "srch = Some (u, Some e)" unfolding srch_def by (rule aht_search_hit [OF h u])
    moreover obtain js where "m k = Some js" using mk Some by auto
    ultimately show ?thesis using combine_hit [OF l(1) t h m Some src(2)] by (simp add: run)
  next
    case None
    note new = aht_map_None [OF h None]
    show ?thesis
    proof (cases "aht_full h")
      case True
      have "srch = None" unfolding srch_def by (rule aht_search_full [OF h _ True]) (rule new)
      then show ?thesis using True None mk by (simp add: run)
    next
      case free: False
      obtain u where u0: "search (aht_tab h) (\<lambda>e. key_of l t e = k)
          (map (aht_seq (aht_capacity h) k) [0..<aht_capacity h]) = Some (u, None)"
        and slot: "u < aht_capacity h" "aht_tab h u = None"
        and tab: "\<And>g key. (\<And>s e. aht_tab h s = Some e \<Longrightarrow> key e = key_of l t e) \<Longrightarrow> key g = k \<Longrightarrow>
          table_ok (aht_capacity h) (aht_seq (aht_capacity h)) key ((aht_tab h)(u \<mapsto> g))"
      proof (rule aht_search_miss [OF h _ free, of k])
        fix s e assume "aht_tab h s = Some e"
        then show "key_of l t e \<noteq> k" by (rule new)
      next
        fix u
        assume A: "search (aht_tab h) (\<lambda>e. key_of l t e = k)
            (map (aht_seq (aht_capacity h) k) [0..<aht_capacity h]) = Some (u, None)"
          "u < aht_capacity h" "aht_tab h u = None"
        assume tab: "\<And>g key. (\<And>s e. aht_tab h s = Some e \<Longrightarrow> key e = key_of l t e) \<Longrightarrow> key g = k \<Longrightarrow>
          table_ok (aht_capacity h) (aht_seq (aht_capacity h)) key ((aht_tab h)(u \<mapsto> g))"
        show thesis by (rule that [OF A tab])
      qed
      have u: "srch = Some (u, None)" using u0 by (simp only: srch_def)
      show ?thesis
      proof (cases "tdc_row_count t < tdc_row_capacity t \<and>
          sum_list (map (copy_need src_row) (columns l)) \<le> tdc_heap_capacity t - tdc_heap_used t")
        case True
        obtain g t1 new_row t2 where
          "TupleDataCollectionAppendRow t = (g, t1)" "g \<noteq> TDC_INVALID_ROW_INDEX"
          "CopyGroupColumns l (Some s) src_row (TupleDataCollectionGetRow t1 g, t1) = Inr (new_row, t2)"
          "let h' = set_entry u (PackEntry (HashSalt (hash_key k)) g) h;
             t' = set_row g (CombineAggregates l (fold init_aggregate (aggregates l) new_row) src_row) t2
           in rows_ok l t' \<and> aht_ok l t' h' \<and> table_holds l t' h' (m(k \<mapsto> ins))"
          using combine_miss [OF l(1) t h m k src None True [THEN conjunct1] True [THEN conjunct2] slot tab]
          by blast
        then show ?thesis using None mk by (simp add: run u Let_def)
      next
        case False
        obtain g t1 where app: "TupleDataCollectionAppendRow t = (g, t1)" by fastforce
        show ?thesis
        proof (cases "g = TDC_INVALID_ROW_INDEX")
          case True
          then have "tdc_row_capacity t \<le> tdc_row_count t" using AppendRow_valid [OF tok app] by simp
          then show ?thesis using True None mk by (simp add: run u app)
        next
          case valid: False
          have t1: "tdc_ok t1" "tdc_heap_used t1 = tdc_heap_used t" "tdc_heap_capacity t1 = tdc_heap_capacity t"
            using tdc_ok_AppendRow [OF tok app] app
            by (auto simp: TupleDataCollectionAppendRow_def split: if_splits)
          have short: "tdc_heap_capacity t - tdc_heap_used t < sum_list (map (copy_need src_row) (columns l))"
            using False AppendRow_valid [OF tok app] valid by auto
          have "False" if "CopyGroupColumns l (Some s) src_row (TupleDataCollectionGetRow t1 g, t1) = Inr (row', u)" for row' u
          proof -
            have "tdc_ok u \<and> tdc_heap_capacity u = tdc_heap_capacity t1 \<and>
                tdc_heap_used u = tdc_heap_used t1 + sum_list (map (copy_need src_row) (columns l))"
              by (rule copy_success [where used = used and s = s, OF _ t1(1)])
                (use that src(1) in \<open>auto simp: CopyGroupColumns_def row_ok_def row_refs_ok_def\<close>)
            then have "tdc_heap_used u \<le> tdc_heap_capacity t"
              "tdc_heap_used u = tdc_heap_used t + sum_list (map (copy_need src_row) (columns l))"
              using t1 by (simp_all add: tdc_ok_def)
            then show False using short by linarith
          qed
          then obtain err where "CopyGroupColumns l (Some s) src_row (TupleDataCollectionGetRow t1 g, t1) = Inl err"
            by (cases "CopyGroupColumns l (Some s) src_row (TupleDataCollectionGetRow t1 g, t1)") auto
          then show ?thesis using None mk short valid by (simp add: run u app)
        qed
      qed
    qed
  qed
qed

theorem CombineRow_adds_inputs_witness:
  "\<exists>h' t'. AggregateHashTableCombineRow (AggregateHashTableInit 32) demo_tdc demo_layout (Some demo_tdc) demo_row
      (hash_key [GString [], GInt32 0]) = Inr (h', t') \<and>
    table_holds demo_layout t' h' [[GString [], GInt32 0] \<mapsto> []]"
proof -
  have p: "is_pow2 32" unfolding is_pow2_def by (rule exI [of _ 5]) simp
  have t: "rows_ok demo_layout demo_tdc"
    using demo_facts(4,5) by (simp add: rows_ok_def demo_tdc_def TupleDataCollectionInit_def)
  have ok: "aht_ok demo_layout demo_tdc (AggregateHashTableInit 32)" by (rule aht_ok_Init [OF p]) simp
  have none: "aht_map demo_layout demo_tdc (AggregateHashTableInit 32) k = None" for k
    using aht_map_iff [OF ok, of k] aht_tab_Init by (metis not_None_eq option.distinct(1))
  have m: "table_holds demo_layout demo_tdc (AggregateHashTableInit 32) Map.empty"
    by (simp add: table_holds_def none)
  have free: "\<not> aht_full (AggregateHashTableInit 32)"
    by (simp add: aht_full_def AggregateHashTableInit_def EntryIsEmpty_def list_all_iff)
  have space: "tdc_row_count demo_tdc < tdc_row_capacity demo_tdc" "tdc_heap_used demo_tdc \<le> tdc_heap_capacity demo_tdc"
    by (simp_all add: demo_tdc_def TupleDataCollectionInit_def)
  have need: "sum_list (map (copy_need demo_row) (columns demo_layout)) = 0"
    by (simp add: demo_layout_def q1_layout copy_need_def demo_row_def read_string_ref_def
        HeapBytesNeededForStringLength_def get_u32_def mem_read_zeros)
  have fits: "\<not> tdc_heap_capacity demo_tdc - tdc_heap_used demo_tdc < sum_list (map (copy_need demo_row) (columns demo_layout))"
    unfolding need by simp
  show ?thesis
    using CombineRow_adds_inputs [OF demo_facts(2,3) t ok m demo_facts(7) demo_states refl]
      free space fits demo_row_key
    by (auto split: sum.splits)
qed

end
