(* ===== verification/AggSizing.thy ===== *)
theory AggSizing
  imports AggHash
begin

text \<open>
  The sizes of the aggregate hash table (aggregate_hash_table.cpp): the directory capacity, the number
  of partitions and the partition of a hash.
\<close>

lemma round_up_pow2_result:
  "needed \<le> 2 ^ 31 \<Longrightarrow> j \<le> 31 \<Longrightarrow> 31 - j \<le> fuel \<Longrightarrow>
   \<exists>i. round_up_pow2 fuel needed (2 ^ j) = 2 ^ i \<and> j \<le> i \<and> i \<le> 31 \<and> needed \<le> 2 ^ i \<and>
       (i = j \<or> 2 ^ i < 2 * needed)"
proof (induction fuel arbitrary: j)
  case 0
  then have "j = 31" by simp
  then show ?case using 0 by (intro exI [of _ j]) simp
next
  case (Suc fuel)
  show ?case
  proof (cases "2 ^ j < needed")
    case True
    then have j: "Suc j \<le> 31"
      using Suc.prems(1,2) by (metis Suc_leI le_neq_implies_less linorder_not_le)
    then have "(2 :: nat) ^ Suc j \<le> 2 ^ 31" by (intro power_increasing) simp_all
    then have w: "wrap32 (2 * 2 ^ j) = 2 ^ Suc j" by (simp add: wrap32_def)
    obtain i where "round_up_pow2 fuel needed (2 ^ Suc j) = 2 ^ i" "Suc j \<le> i" "i \<le> 31" "needed \<le> 2 ^ i"
      "i = Suc j \<or> 2 ^ i < 2 * needed"
      using Suc.IH [OF Suc.prems(1) j] Suc.prems(3) by force
    then show ?thesis using True w by (intro exI [of _ i]) auto
  next
    case False
    then show ?thesis using Suc.prems by (intro exI [of _ j]) simp
  qed
qed

lemmas round_up_pow2_from_1 = round_up_pow2_result [where j = 0, simplified]

lemma ChooseCapacity_result:
  "\<exists>i. AggregateHashTableChooseCapacity m = 2 ^ i \<and> 32 \<le> (2 :: nat) ^ i \<and> (2 :: nat) ^ i \<le> 2 ^ 22 \<and>
     (m + m div 2 + 1 \<le> 2 ^ 22 \<longrightarrow> m + m div 2 + 1 \<le> 2 ^ i) \<and>
     ((2 :: nat) ^ i < 2 * max 32 (m + m div 2 + 1))"
proof -
  define n where "n = min (2 ^ 22) (max 32 (max 1 m + max 1 m div 2 + 1))"
  have n: "32 \<le> n" "n \<le> 2 ^ 22" by (simp_all add: n_def)
  obtain i where i: "round_up_pow2 32 n 1 = 2 ^ i" "n \<le> 2 ^ i" "i = 0 \<or> 2 ^ i < 2 * n"
    using round_up_pow2_from_1 [of n 32] n by auto
  have eq: "AggregateHashTableChooseCapacity m = 2 ^ i"
    using i(1) by (simp add: AggregateHashTableChooseCapacity_def Let_def n_def max_def min_def split: if_splits)
  have lt: "2 ^ i < 2 * n" using i(3) n by auto
  have "(2 :: nat) ^ i < 2 ^ 23" using lt n(2) by simp
  then have "i < 23" by (rule power_less_imp_less_exp [rotated]) simp
  then have le: "(2 :: nat) ^ i \<le> 2 ^ 22" by (intro power_increasing) simp_all
  have "n \<le> max 32 (m + m div 2 + 1)" by (auto simp: n_def max_def)
  moreover have "m + m div 2 + 1 \<le> n" if "m + m div 2 + 1 \<le> 2 ^ 22" using that by (auto simp: n_def max_def)
  ultimately show ?thesis using eq lt le i(2) n(1) by (intro exI [of _ i]) auto
qed

text \<open>The directory capacity chosen for an expected number of groups is a power of two between 32 and
  2^22 and less than twice the padded need, and while the padded need is under the upper limit, a table
  holding at most the expected number of rows never asks to be resized.\<close>

theorem ChooseCapacity_keeps_load:
  "is_pow2 (AggregateHashTableChooseCapacity m) \<and>
   32 \<le> AggregateHashTableChooseCapacity m \<and> AggregateHashTableChooseCapacity m \<le> 2 ^ 22 \<and>
   AggregateHashTableChooseCapacity m < 2 * max 32 (m + m div 2 + 1) \<and>
   (m + m div 2 + 1 \<le> 2 ^ 22 \<longrightarrow>
     (\<forall>aht tdc. aht_capacity aht = AggregateHashTableChooseCapacity m \<and> tdc_row_count tdc \<le> m \<longrightarrow>
        \<not> AggregateHashTableShouldResize aht tdc))"
proof -
  obtain i where i: "AggregateHashTableChooseCapacity m = 2 ^ i" "32 \<le> (2 :: nat) ^ i" "(2 :: nat) ^ i \<le> 2 ^ 22"
    "m + m div 2 + 1 \<le> 2 ^ 22 \<longrightarrow> m + m div 2 + 1 \<le> 2 ^ i" "(2 :: nat) ^ i < 2 * max 32 (m + m div 2 + 1)"
    using ChooseCapacity_result by blast
  show ?thesis
  proof (intro conjI impI allI)
    fix aht :: aggregate_hash_table and tdc :: tuple_data_collection
    assume m: "m + m div 2 + 1 \<le> 2 ^ 22"
      and a: "aht_capacity aht = AggregateHashTableChooseCapacity m \<and> tdc_row_count tdc \<le> m"
    have "tdc_row_count tdc * 3 \<le> m * 3" using a by simp
    also have "m * 3 < 2 * (m + m div 2 + 1)" by presburger
    also have "\<dots> \<le> 2 * aht_capacity aht" using a i(1,4) m by simp
    finally show "\<not> AggregateHashTableShouldResize aht tdc" by (simp add: AggregateHashTableShouldResize_def)
  qed (use i in \<open>auto simp: is_pow2_def\<close>)
qed

theorem ChooseCapacity_keeps_load_witness:
  "\<not> AggregateHashTableShouldResize (AggregateHashTableInit (AggregateHashTableChooseCapacity 100))
       (TupleDataCollectionInit 100 16 0)"
  using ChooseCapacity_keeps_load [of 100]
  by (simp add: AggregateHashTableInit_def TupleDataCollectionInit_def)

lemma bit_count_mask: "k \<le> n \<Longrightarrow> bit_count n (2 ^ k - 1) = k"
proof (induction n arbitrary: k)
  case 0
  then show ?case by simp
next
  case (Suc n)
  show ?case
  proof (cases k)
    case (Suc j)
    have "((2 :: nat) ^ Suc j - 1) div 2 = 2 ^ j - 1" by simp
    moreover have "(2 :: nat) ^ Suc j - 1 \<noteq> 0" using one_less_power [of "2 :: nat" "Suc j"] by linarith
    ultimately show ?thesis using Suc.IH [of j] Suc.prems Suc by simp
  qed simp
qed

lemma ChoosePartitionCount_result:
  "\<exists>k. HashAggChoosePartitionCount w rw = 2 ^ k \<and> 3 \<le> k \<and> k \<le> 5"
proof -
  define wt :: nat where "wt = (if rw < 32 then 2 ^ 8 else if rw < 64 then 2 ^ 7 else 2 ^ 6)"
  define a where "a = (if w < 1 then 1 else wrap32 (w * 4))"
  define b where "b = (if a > wt then wt else a)"
  define c where "c = (if b < 8 then 8 else b)"
  define t where "t = (if c > 32 then 32 else c)"
  have t: "8 \<le> t" "t \<le> 32" by (simp_all add: t_def c_def)
  have run: "HashAggChoosePartitionCount w rw = round_up_pow2 32 t 1"
    unfolding HashAggChoosePartitionCount_def Let_def t_def c_def b_def a_def wt_def by (rule refl)
  obtain i where i: "round_up_pow2 32 t 1 = 2 ^ i" "t \<le> 2 ^ i" "i = 0 \<or> 2 ^ i < 2 * t"
    using round_up_pow2_from_1 [of t 32] t by auto
  have eq: "HashAggChoosePartitionCount w rw = 2 ^ i" using run i(1) by simp
  have "(2 :: nat) ^ i < 2 ^ 6" using i(3) t by auto
  then have "i < 6" by (rule power_less_imp_less_exp [rotated]) simp
  moreover have "(2 :: nat) ^ 3 \<le> 2 ^ i" using i(2) t by simp
  then have "3 \<le> i" by (rule power_le_imp_le_exp [rotated]) simp
  ultimately show ?thesis using eq by auto
qed

lemma PartitionIndex_top_bits:
  assumes "0 < k" "k \<le> 32"
  shows "HashAggPartitionIndex hash (2 ^ k - 1) = unat hash div 2 ^ (64 - k)"
proof -
  have sh: "HashAggPartitionShift (2 ^ k - 1) = 64 - k"
    using assms bit_count_mask [of k 32] one_less_power [of "2 :: nat" k]
    by (simp add: HashAggPartitionShift_def)
  have lt: "unat hash div 2 ^ (64 - k) < 2 ^ k"
    using unsigned_less [of hash] assms by (intro less_mult_imp_div_less) (simp add: power_add [symmetric])
  have "(2 :: nat) ^ k \<le> 2 ^ 32" using assms by (intro power_increasing) simp_all
  then have "drop_bit (64 - k) (unat hash) < 2 ^ 32" using lt by (simp add: drop_bit_eq_div)
  then have "unat (ucast (drop_bit (64 - k) hash) :: u32) = unat hash div 2 ^ (64 - k)"
    by (simp add: unat_drop_bit_eq unsigned_ucast_eq take_bit_nat_eq_self)
      (simp add: drop_bit_eq_div)
  then show ?thesis
    unfolding HashAggPartitionIndex_def sh
    unfolding mask_eq_exp_minus_1 [symmetric] take_bit_eq_mask [symmetric]
    using lt by (simp only: take_bit_nat_eq_self)
qed

text \<open>The partition count is 8, 16 or 32 for every worker count and row width, and the partition of
  a hash is the index of the equal slice of the 64-bit range it falls in, hence always a valid
  partition.\<close>

theorem partition_of_hash:
  "HashAggChoosePartitionCount w rw \<in> {8, 16, 32} \<and>
   HashAggPartitionIndex hash (HashAggChoosePartitionCount w rw - 1) =
     unat hash div (2 ^ 64 div HashAggChoosePartitionCount w rw) \<and>
   HashAggPartitionIndex hash (HashAggChoosePartitionCount w rw - 1) < HashAggChoosePartitionCount w rw"
proof -
  obtain k where k: "HashAggChoosePartitionCount w rw = 2 ^ k" "3 \<le> k" "k \<le> 5"
    using ChoosePartitionCount_result by blast
  have "k = 3 \<or> k = 4 \<or> k = 5" using k by linarith
  moreover have "(2 :: nat) ^ 64 div 2 ^ k = 2 ^ (64 - k)" using k by (simp add: power_diff)
  moreover have "unat hash div 2 ^ (64 - k) < 2 ^ k"
    using unsigned_less [of hash] k by (intro less_mult_imp_div_less) (simp add: power_add [symmetric])
  ultimately show ?thesis using PartitionIndex_top_bits [of k hash] k by auto
qed

end
