(* ===== verification/AggBatch.thy ===== *)
theory AggBatch
  imports AggHash
begin

text \<open>
  The batched find-or-insert of aggregate_hash_table.cpp: the inputs of a batch are probed in vectors of
  eight lanes, the lanes that meet an occupied slot of another group are deferred to the next round
  with the next slot of their sequence, and a group is scattered when its probe meets an empty slot.
\<close>

section \<open>The probe vector\<close>

definition kWidth :: nat where
  "kWidth = 8"

record probe_vector =
  pv_lanes :: "(nat \<times> u64) list"
  pv_empty_mask :: u16
  pv_salt_match_mask :: u16

definition ProbeVectorInit :: probe_vector where
  "ProbeVectorInit = \<lparr>pv_lanes = [], pv_empty_mask = 0, pv_salt_match_mask = 0\<rparr>"

definition ProbeVectorAppend :: "nat \<Rightarrow> u64 \<Rightarrow> u16 \<Rightarrow> probe_vector \<Rightarrow> probe_vector" where
  "ProbeVectorAppend input_idx entry_value wanted_salt vec =
     (let lane = length (pv_lanes vec);
          vec = vec\<lparr>pv_lanes := pv_lanes vec @ [(input_idx, entry_value)]\<rparr>
      in if EntryIsEmpty entry_value
         then vec\<lparr>pv_empty_mask := pv_empty_mask vec OR push_bit lane 1\<rparr>
         else if EntrySalt entry_value = wanted_salt
         then vec\<lparr>pv_salt_match_mask := pv_salt_match_mask vec OR push_bit lane 1\<rparr>
         else vec)"

section \<open>The batch\<close>

text \<open>
  The arrays are functions of the input index; \<^verbatim>\<open>resolved\<close> is the domain of the results.
\<close>

record probe_result =
  pr_row_idx :: nat
  pr_canonical_row_idx :: nat
  pr_inserted :: bool

record batch_state =
  bs_aht :: aggregate_hash_table
  bs_tdc :: tuple_data_collection
  bs_slot :: "nat \<Rightarrow> nat"
  bs_tries :: "nat \<Rightarrow> nat"
  bs_results :: "nat \<Rightarrow> probe_result option"

definition probe_next :: "(nat \<Rightarrow> probe_meta) \<Rightarrow> nat \<Rightarrow> batch_state \<Rightarrow> batch_state" where
  "probe_next metas i st =
     st\<lparr>bs_slot := (bs_slot st)(i := wrap32 (bs_slot st i + pm_step (metas i)) AND aht_capacity_mask (bs_aht st)),
        bs_tries := (bs_tries st)(i := Suc (bs_tries st i))\<rparr>"

definition fill_lane :: "(nat \<Rightarrow> probe_meta) \<Rightarrow> batch_state \<Rightarrow> nat \<Rightarrow> probe_vector \<Rightarrow> probe_vector result" where
  "fill_lane metas st input_idx vec =
     (if aht_capacity (bs_aht st) \<le> bs_tries st input_idx
      then Inl (Elog ''AggregateHashTable full'')
      else Inr (ProbeVectorAppend input_idx (aht_entries (bs_aht st) ! bs_slot st input_idx)
                  (pm_salt (metas input_idx)) vec))"

definition probe_lane ::
  "tuple_data_layout \<Rightarrow> data_chunk \<Rightarrow> (nat \<times> u64) list \<Rightarrow> (nat \<Rightarrow> probe_meta) \<Rightarrow> probe_vector \<Rightarrow> nat \<Rightarrow>
   batch_state \<times> (nat \<times> nat) list \<times> nat list \<Rightarrow> (batch_state \<times> (nat \<times> nat) list \<times> nat list) result" where
  "probe_lane layout chunk inputs metas vec lane = (\<lambda>(st, matches, deferred).
     let input_idx = fst (pv_lanes vec ! lane); slot = bs_slot st input_idx;
         value = aht_entries (bs_aht st) ! slot; row_idx = fst (inputs ! input_idx)
     in if bit (pv_empty_mask vec) lane \<and> EntryIsEmpty value then
          (case TupleDataCollectionAppendRow (bs_tdc st) of
             (candidate_idx, tdc1) \<Rightarrow>
               if candidate_idx = TDC_INVALID_ROW_INDEX
               then Inl (Elog ''local hash aggregate row capacity exceeded'')
               else rbind (ScatterGroupOnly layout chunk row_idx
                             (TupleDataCollectionGetRow tdc1 candidate_idx, Some tdc1))
                 (\<lambda>(row, tdc2). Inr
                   (st\<lparr>bs_aht := set_entry slot (PackEntry (pm_salt (metas input_idx)) candidate_idx) (bs_aht st),
                       bs_tdc := set_row candidate_idx row (the tdc2),
                       bs_results := (bs_results st)(input_idx \<mapsto>
                         \<lparr>pr_row_idx = row_idx, pr_canonical_row_idx = candidate_idx, pr_inserted = True\<rparr>)\<rparr>,
                    matches, deferred)))
        else if \<not> EntryIsEmpty value \<and> EntrySalt value = pm_salt (metas input_idx)
        then Inr (st, matches @ [(input_idx, EntryRowIndex value)], deferred)
        else Inr (probe_next metas input_idx st, matches, deferred @ [input_idx]))"

definition match_lane ::
  "(nat \<times> u64) list \<Rightarrow> (nat \<Rightarrow> probe_meta) \<Rightarrow> (nat \<times> nat) \<times> bool \<Rightarrow> batch_state \<times> nat list \<Rightarrow> batch_state \<times> nat list" where
  "match_lane inputs metas = (\<lambda>((input_idx, existing_idx), matched) (st, deferred).
     if matched
     then (st\<lparr>bs_results := (bs_results st)(input_idx \<mapsto>
             \<lparr>pr_row_idx = fst (inputs ! input_idx), pr_canonical_row_idx = existing_idx, pr_inserted = False\<rparr>)\<rparr>,
           deferred)
     else (probe_next metas input_idx st, deferred @ [input_idx]))"

text \<open>One vector: fill the lanes, probe them, then compare the rows of the lanes whose salt matched.\<close>

definition probe_vector_step ::
  "tuple_data_layout \<Rightarrow> data_chunk \<Rightarrow> (nat \<times> u64) list \<Rightarrow> (nat \<Rightarrow> probe_meta) \<Rightarrow> nat list \<Rightarrow>
   batch_state \<times> nat list \<Rightarrow> (batch_state \<times> nat list) result" where
  "probe_vector_step layout chunk inputs metas lanes = (\<lambda>(st, deferred).
     rbind (fold_res (fill_lane metas st) lanes ProbeVectorInit) (\<lambda>vec.
     rbind (fold_res (probe_lane layout chunk inputs metas vec) [0..<length (pv_lanes vec)] (st, [], deferred))
       (\<lambda>(st, matches, deferred).
          if matches = [] then Inr (st, deferred)
          else rbind (MatchGroupBatch layout (Some (bs_tdc st))
                        (map (\<lambda>(i, e). (Some (TupleDataCollectionGetRow (bs_tdc st) e), fst (inputs ! i))) matches) chunk)
                 (\<lambda>match_results. Inr (fold (match_lane inputs metas) (zip matches match_results) (st, deferred))))))"

fun take_vectors :: "nat list \<Rightarrow> nat list list" where
  "take_vectors [] = []"
| "take_vectors (i # is) = (i # take (kWidth - 1) is) # take_vectors (drop (kWidth - 1) is)"

text \<open>
  The rounds. An input that is deferred has tried one slot more, and after as many tries as the table has
  slots the code reports a full table, so one round more than slots is enough fuel.
\<close>

fun probe_rounds ::
  "nat \<Rightarrow> tuple_data_layout \<Rightarrow> data_chunk \<Rightarrow> (nat \<times> u64) list \<Rightarrow> (nat \<Rightarrow> probe_meta) \<Rightarrow> nat list \<Rightarrow>
   batch_state \<Rightarrow> batch_state option result" where
  "probe_rounds 0 layout chunk inputs metas active st = (if active = [] then Inr (Some st) else Inr None)"
| "probe_rounds (Suc fuel) layout chunk inputs metas active st =
     (if active = [] then Inr (Some st)
      else rbind (fold_res (probe_vector_step layout chunk inputs metas) (take_vectors active) (st, []))
             (\<lambda>(st, deferred). probe_rounds fuel layout chunk inputs metas deferred st))"

definition AggregateHashTableFindOrInsertBatch ::
  "aggregate_hash_table \<Rightarrow> tuple_data_collection \<Rightarrow> tuple_data_layout \<Rightarrow> data_chunk \<Rightarrow> (nat \<times> u64) list \<Rightarrow>
   batch_state option result" where
  "AggregateHashTableFindOrInsertBatch aht tdc layout chunk inputs =
     (let metas = (\<lambda>i. BuildProbeMeta aht (snd (inputs ! i)))
      in probe_rounds (Suc (aht_capacity aht)) layout chunk inputs metas [0..<length inputs]
           \<lparr>bs_aht = aht, bs_tdc = tdc, bs_slot = (\<lambda>i. pm_slot (metas i)), bs_tries = (\<lambda>_. 0),
            bs_results = Map.empty\<rparr>)"

section \<open>Claiming the slot a probe ends in\<close>

lemma aht_claim_at:
  assumes h: "aht_ok l t h" and i: "i < aht_capacity h"
    and passed: "\<And>p. p < i \<Longrightarrow> \<exists>e. aht_tab h (aht_seq (aht_capacity h) k p) = Some e \<and> key_of l t e \<noteq> k"
    and empty: "aht_tab h (aht_seq (aht_capacity h) k i) = None"
  shows "aht_map l t h k = None" and "aht_seq (aht_capacity h) k i < aht_capacity h"
    and "\<And>g key. (\<And>s e. aht_tab h s = Some e \<Longrightarrow> key e = key_of l t e) \<Longrightarrow> key g = k \<Longrightarrow>
      table_ok (aht_capacity h) (aht_seq (aht_capacity h)) key ((aht_tab h)(aht_seq (aht_capacity h) k i \<mapsto> g))"
proof -
  let ?N = "aht_capacity h" and ?sq = "aht_seq (aht_capacity h) k"
  have new: "key_of l t e \<noteq> k" if e: "aht_tab h s = Some e" for s e
  proof
    assume k: "key_of l t e = k"
    obtain j where j: "?sq j = s" "\<forall>m<j. aht_tab h (?sq m) \<noteq> None"
      using h e k unfolding aht_ok_def table_ok_def by blast
    have "\<not> i < j" using j(2) empty by blast
    moreover have "i \<noteq> j" using j(1) e empty by auto
    moreover have "\<not> j < i" using passed [of j] j(1) e k by auto
    ultimately show False by simp
  qed
  show none: "aht_map l t h k = None"
    using aht_map_iff [OF h, of k] new by (metis not_None_eq)
  show less: "?sq i < ?N"
    unfolding aht_seq_def using h by (auto simp: aht_ok_def intro!: probe_pos_less)
  have free: "\<not> aht_full h" using aht_full_iff [OF h] less empty by blast
  fix g key
  assume key: "\<And>s e. aht_tab h s = Some e \<Longrightarrow> key e = key_of l t e" "key g = k"
  show "table_ok ?N (aht_seq ?N) key ((aht_tab h)(?sq i \<mapsto> g))"
  proof (rule aht_search_miss [OF h _ free, of k])
    fix s e assume "aht_tab h s = Some e"
    then show "key_of l t e \<noteq> k" by (rule new)
  next
    fix s
    assume s: "search (aht_tab h) (\<lambda>e. key_of l t e = k) (map ?sq [0..<?N]) = Some (s, None)"
    assume tab: "\<And>g key. (\<And>s e. aht_tab h s = Some e \<Longrightarrow> key e = key_of l t e) \<Longrightarrow> key g = k \<Longrightarrow>
      table_ok ?N (aht_seq ?N) key ((aht_tab h)(s \<mapsto> g))"
    obtain j where j: "s = ?sq j" "aht_tab h s = None" "\<forall>m<j. \<exists>e. aht_tab h (?sq m) = Some e"
    proof -
      from search_stops [OF s] obtain j where "j < length (map ?sq [0..<?N])" "s = map ?sq [0..<?N] ! j"
        "aht_tab h s = None" "\<forall>m<j. \<exists>e. aht_tab h (map ?sq [0..<?N] ! m) = Some e \<and> key_of l t e \<noteq> k"
        by blast
      then show thesis by (intro that [of j]) auto
    qed
    have "\<not> i < j" using j(3) empty by auto
    moreover have "\<not> j < i" using passed [of j] j(1,2) by auto
    ultimately have "s = ?sq i" using j(1) by simp
    then show ?thesis using tab [of key g] key by simp
  qed
qed

section \<open>The state of a batch\<close>

definition input_key :: "tuple_data_layout \<Rightarrow> data_chunk \<Rightarrow> (nat \<times> u64) list \<Rightarrow> nat \<Rightarrow> gval list" where
  "input_key l ch inputs i = chunk_key l ch (fst (inputs ! i))"

definition inserted_inputs :: "(nat \<Rightarrow> probe_result option) \<Rightarrow> nat set" where
  "inserted_inputs res = {i. \<exists>r. res i = Some r \<and> pr_inserted r}"

definition add_groups :: "(gval list \<Rightarrow> (data_chunk \<times> nat) list option) \<Rightarrow> gval list set \<Rightarrow>
    gval list \<Rightarrow> (data_chunk \<times> nat) list option" where
  "add_groups m S k = (if k \<in> S then Some [] else m k)"

text \<open>The slots of the first tries hold other groups.\<close>

definition passed ::
  "tuple_data_layout \<Rightarrow> tuple_data_collection \<Rightarrow> aggregate_hash_table \<Rightarrow> gval list \<Rightarrow> nat \<Rightarrow> bool" where
  "passed l t h k n \<longleftrightarrow>
     (\<forall>p<n. \<exists>e. aht_tab h (aht_seq (aht_capacity h) k p) = Some e \<and> key_of l t e \<noteq> k)"

text \<open>What holds of the tables, the accounting of the space, the results and the unresolved inputs.\<close>

definition batch_tables ::
  "tuple_data_layout \<Rightarrow> data_chunk \<Rightarrow> (nat \<times> u64) list \<Rightarrow> tuple_data_collection \<Rightarrow> aggregate_hash_table \<Rightarrow>
   (gval list \<Rightarrow> (data_chunk \<times> nat) list option) \<Rightarrow> batch_state \<Rightarrow> bool" where
  "batch_tables l ch inputs t0 h0 m st \<longleftrightarrow>
     rows_ok l (bs_tdc st) \<and> aht_ok l (bs_tdc st) (bs_aht st) \<and>
     table_holds l (bs_tdc st) (bs_aht st)
       (add_groups m (input_key l ch inputs ` inserted_inputs (bs_results st))) \<and>
     (\<forall>k e. aht_map l t0 h0 k = Some e \<longrightarrow> aht_map l (bs_tdc st) (bs_aht st) k = Some e) \<and>
     inj_on (input_key l ch inputs) (inserted_inputs (bs_results st)) \<and>
     input_key l ch inputs ` inserted_inputs (bs_results st) \<inter> dom m = {}"

definition batch_space ::
  "tuple_data_layout \<Rightarrow> data_chunk \<Rightarrow> (nat \<times> u64) list \<Rightarrow> tuple_data_collection \<Rightarrow> aggregate_hash_table \<Rightarrow>
   batch_state \<Rightarrow> bool" where
  "batch_space l ch inputs t0 h0 st \<longleftrightarrow>
     aht_capacity (bs_aht st) = aht_capacity h0 \<and>
     tdc_row_capacity (bs_tdc st) = tdc_row_capacity t0 \<and> tdc_heap_capacity (bs_tdc st) = tdc_heap_capacity t0 \<and>
     tdc_row_count (bs_tdc st) = tdc_row_count t0 + card (inserted_inputs (bs_results st)) \<and>
     tdc_heap_used (bs_tdc st) =
       tdc_heap_used t0 + (\<Sum>i\<in>inserted_inputs (bs_results st). key_need l ch (fst (inputs ! i))) \<and>
     card (dom (aht_tab (bs_aht st))) = card (dom (aht_tab h0)) + card (inserted_inputs (bs_results st))"

definition batch_results ::
  "tuple_data_layout \<Rightarrow> data_chunk \<Rightarrow> (nat \<times> u64) list \<Rightarrow> nat set \<Rightarrow> batch_state \<Rightarrow> bool" where
  "batch_results l ch inputs pend st \<longleftrightarrow>
     pend \<subseteq> {..<length inputs} \<and> dom (bs_results st) = {..<length inputs} - pend \<and>
     (\<forall>i r. bs_results st i = Some r \<longrightarrow> pr_row_idx r = fst (inputs ! i) \<and>
        aht_map l (bs_tdc st) (bs_aht st) (input_key l ch inputs i) = Some (pr_canonical_row_idx r)) \<and>
     (\<forall>i\<in>pend. bs_slot st i = aht_seq (aht_capacity (bs_aht st)) (input_key l ch inputs i) (bs_tries st i) \<and>
        passed l (bs_tdc st) (bs_aht st) (input_key l ch inputs i) (bs_tries st i))"

definition batch_inv ::
  "tuple_data_layout \<Rightarrow> data_chunk \<Rightarrow> (nat \<times> u64) list \<Rightarrow> tuple_data_collection \<Rightarrow> aggregate_hash_table \<Rightarrow>
   (gval list \<Rightarrow> (data_chunk \<times> nat) list option) \<Rightarrow> nat set \<Rightarrow> batch_state \<Rightarrow> bool" where
  "batch_inv l ch inputs t0 h0 m pend st \<longleftrightarrow>
     batch_tables l ch inputs t0 h0 m st \<and> batch_space l ch inputs t0 h0 st \<and>
     batch_results l ch inputs pend st"

text \<open>The room a batch needs, and what its inputs must be.\<close>

definition batch_room ::
  "tuple_data_layout \<Rightarrow> data_chunk \<Rightarrow> (nat \<times> u64) list \<Rightarrow> tuple_data_collection \<Rightarrow> aggregate_hash_table \<Rightarrow> bool" where
  "batch_room l ch inputs t h \<longleftrightarrow>
     tdc_row_count t + length inputs \<le> tdc_row_capacity t \<and>
     tdc_heap_used t + sum_list (map (key_need l ch \<circ> fst) inputs) \<le> tdc_heap_capacity t \<and>
     card (dom (aht_tab h)) + length inputs \<le> aht_capacity h"

definition batch_inputs_ok :: "tuple_data_layout \<Rightarrow> data_chunk \<Rightarrow> (nat \<times> u64) list \<Rightarrow> bool" where
  "batch_inputs_ok l ch inputs \<longleftrightarrow>
     (\<forall>(r, hash)\<in>set inputs. chunk_row_ok l ch r \<and> HashGroup l ch r = Inr hash)"

lemma input_hash:
  "batch_inputs_ok l ch inputs \<Longrightarrow> i < length inputs \<Longrightarrow>
   chunk_row_ok l ch (fst (inputs ! i)) \<and> snd (inputs ! i) = hash_key (input_key l ch inputs i)"
  using HashGroup_key [of l ch "fst (inputs ! i)"] nth_mem [of i inputs]
  by (cases "inputs ! i") (auto simp: batch_inputs_ok_def input_key_def)

lemma inserted_finite:
  "batch_results l ch inputs pend st \<Longrightarrow> inserted_inputs (bs_results st) \<subseteq> {..<length inputs} - pend"
  by (auto simp: batch_results_def inserted_inputs_def)

lemma aht_tab_finite: "finite (dom (aht_tab h))"
proof -
  have "dom (aht_tab h) \<subseteq> {..<aht_capacity h}" by (auto simp: aht_tab_def split: if_splits)
  then show ?thesis using finite_subset by blast
qed

text \<open>With room left, an unresolved input has a slot it has not tried.\<close>

lemma tries_less:
  assumes inv: "batch_inv l ch inputs t0 h0 m pend st" and room: "batch_room l ch inputs t0 h0"
    and i: "i \<in> pend"
  shows "bs_tries st i < aht_capacity (bs_aht st)"
proof (rule ccontr)
  let ?N = "aht_capacity (bs_aht st)" and ?I = "inserted_inputs (bs_results st)"
  assume "\<not> ?thesis"
  then have le: "?N \<le> bs_tries st i" by simp
  have pass: "passed l (bs_tdc st) (bs_aht st) (input_key l ch inputs i) (bs_tries st i)"
    using inv i unfolding batch_inv_def batch_results_def by blast
  have all: "\<exists>e. aht_tab (bs_aht st) (aht_seq ?N (input_key l ch inputs i) p) = Some e" if "p < ?N" for p
  proof -
    have "p < bs_tries st i" using that le by simp
    then show ?thesis using pass unfolding passed_def by blast
  qed
  have h: "aht_ok l (bs_tdc st) (bs_aht st)" using inv by (simp add: batch_inv_def batch_tables_def)
  obtain j where j: "?N = 2 ^ j" using h by (auto simp: aht_ok_def is_pow2_def)
  have "{..<?N} \<subseteq> dom (aht_tab (bs_aht st))"
  proof
    fix s assume "s \<in> {..<?N}"
    then obtain p where "p < ?N" "aht_seq ?N (input_key l ch inputs i) p = s"
      using aht_dir.sq_onto [of s j "input_key l ch inputs i"] j by auto
    then show "s \<in> dom (aht_tab (bs_aht st))" using all [of p] by auto
  qed
  from card_mono [OF aht_tab_finite this] have "?N \<le> card (dom (aht_tab (bs_aht st)))" by simp
  moreover have "?I \<subseteq> {..<length inputs} - {i}"
    using inserted_finite [of l ch inputs pend st] inv i by (auto simp: batch_inv_def)
  then have "card ?I \<le> card ({..<length inputs} - {i})" by (intro card_mono) auto
  moreover have "i < length inputs" using inv i by (auto simp: batch_inv_def batch_results_def)
  ultimately show False
    using inv room by (auto simp: batch_inv_def batch_space_def batch_room_def)
qed

section \<open>The three outcomes of a probe\<close>

definition metas_ok :: "(nat \<Rightarrow> probe_meta) \<Rightarrow> tuple_data_layout \<Rightarrow> data_chunk \<Rightarrow> (nat \<times> u64) list \<Rightarrow> bool" where
  "metas_ok metas l ch inputs \<longleftrightarrow>
     (\<forall>i<length inputs. pm_step (metas i) = ProbeStep (hash_key (input_key l ch inputs i)) \<and>
        pm_salt (metas i) = HashSalt (hash_key (input_key l ch inputs i)))"

lemma pend_less: "batch_inv l ch inputs t0 h0 m pend st \<Longrightarrow> i \<in> pend \<Longrightarrow> i < length inputs"
  by (auto simp: batch_inv_def batch_results_def)

lemma pend_slot:
  assumes "batch_inv l ch inputs t0 h0 m pend st" "i \<in> pend"
  shows "bs_slot st i = aht_seq (aht_capacity (bs_aht st)) (input_key l ch inputs i) (bs_tries st i)"
    and "passed l (bs_tdc st) (bs_aht st) (input_key l ch inputs i) (bs_tries st i)"
  using assms unfolding batch_inv_def batch_results_def by blast+

lemma passed_Suc:
  "passed l t h k n \<Longrightarrow> aht_tab h (aht_seq (aht_capacity h) k n) = Some e \<Longrightarrow> key_of l t e \<noteq> k \<Longrightarrow>
   passed l t h k (Suc n)"
  by (auto simp: passed_def less_Suc_eq)

lemma batch_next:
  assumes inv: "batch_inv l ch inputs t0 h0 m pend st" and metas: "metas_ok metas l ch inputs"
    and i: "i \<in> pend" and e: "aht_tab (bs_aht st) (bs_slot st i) = Some e"
      "key_of l (bs_tdc st) e \<noteq> input_key l ch inputs i"
  shows "batch_inv l ch inputs t0 h0 m pend (probe_next metas i st)"
proof -
  note s = pend_slot [OF inv i]
  have h: "aht_ok l (bs_tdc st) (bs_aht st)" using inv by (simp add: batch_inv_def batch_tables_def)
  have step: "wrap32 (bs_slot st i + pm_step (metas i)) AND aht_capacity_mask (bs_aht st) =
    aht_seq (aht_capacity (bs_aht st)) (input_key l ch inputs i) (Suc (bs_tries st i))"
    using aht_seq_next [OF h] h metas pend_less [OF inv i] by (simp add: s(1) metas_ok_def aht_ok_def)
  have p: "passed l (bs_tdc st) (bs_aht st) (input_key l ch inputs i) (Suc (bs_tries st i))"
    using passed_Suc [OF s(2)] e s(1) by simp
  have "batch_tables l ch inputs t0 h0 m (probe_next metas i st) = batch_tables l ch inputs t0 h0 m st"
    "batch_space l ch inputs t0 h0 (probe_next metas i st) = batch_space l ch inputs t0 h0 st"
    by (simp_all add: batch_tables_def batch_space_def probe_next_def)
  moreover have "batch_results l ch inputs pend (probe_next metas i st)"
    unfolding batch_results_def
  proof (intro conjI ballI allI)
    fix j assume j: "j \<in> pend"
    note sj = pend_slot [OF inv j]
    show "bs_slot (probe_next metas i st) j = aht_seq (aht_capacity (bs_aht (probe_next metas i st)))
        (input_key l ch inputs j) (bs_tries (probe_next metas i st) j)"
      using sj(1) step by (simp add: probe_next_def)
    show "passed l (bs_tdc (probe_next metas i st)) (bs_aht (probe_next metas i st)) (input_key l ch inputs j)
        (bs_tries (probe_next metas i st) j)"
      using sj(2) p by (simp add: probe_next_def)
  qed (use inv in \<open>simp_all add: batch_inv_def batch_results_def probe_next_def\<close>)
  ultimately show ?thesis using inv by (simp add: batch_inv_def)
qed

definition resolve :: "(nat \<times> u64) list \<Rightarrow> nat \<Rightarrow> nat \<Rightarrow> bool \<Rightarrow> batch_state \<Rightarrow> batch_state" where
  "resolve inputs i e ins st = st\<lparr>bs_results := (bs_results st)(i \<mapsto>
     \<lparr>pr_row_idx = fst (inputs ! i), pr_canonical_row_idx = e, pr_inserted = ins\<rparr>)\<rparr>"

lemma pend_unresolved: "batch_inv l ch inputs t0 h0 m pend st \<Longrightarrow> i \<in> pend \<Longrightarrow> bs_results st i = None"
  unfolding batch_inv_def batch_results_def by blast

lemma batch_hit:
  assumes inv: "batch_inv l ch inputs t0 h0 m pend st" and i: "i \<in> pend"
    and e: "aht_tab (bs_aht st) (bs_slot st i) = Some e" "key_of l (bs_tdc st) e = input_key l ch inputs i"
  shows "batch_inv l ch inputs t0 h0 m (pend - {i}) (resolve inputs i e False st)"
proof -
  have h: "aht_ok l (bs_tdc st) (bs_aht st)" using inv by (simp add: batch_inv_def batch_tables_def)
  have m: "aht_map l (bs_tdc st) (bs_aht st) (input_key l ch inputs i) = Some e"
    using aht_map_iff [OF h] e by blast
  have "inserted_inputs (bs_results (resolve inputs i e False st)) = inserted_inputs (bs_results st)"
    using pend_unresolved [OF inv i] by (auto simp: inserted_inputs_def resolve_def)
  then have "batch_tables l ch inputs t0 h0 m (resolve inputs i e False st) = batch_tables l ch inputs t0 h0 m st"
    "batch_space l ch inputs t0 h0 (resolve inputs i e False st) = batch_space l ch inputs t0 h0 st"
    by (simp_all add: batch_tables_def batch_space_def resolve_def)
  moreover have "batch_results l ch inputs (pend - {i}) (resolve inputs i e False st)"
  proof -
    have "batch_results l ch inputs pend st" using inv by (simp add: batch_inv_def)
    then show ?thesis using m i by (auto simp: batch_results_def resolve_def)
  qed
  ultimately show ?thesis using inv by (simp add: batch_inv_def)
qed

lemma passed_grow:
  assumes "passed l t h k n" "aht_capacity h' = aht_capacity h"
    and "\<And>s e. aht_tab h s = Some e \<Longrightarrow> aht_tab h' s = Some e \<and> key_of l t' e = key_of l t e"
  shows "passed l t' h' k n"
  using assms unfolding passed_def by metis

text \<open>The room left for one more insertion.\<close>

lemma insert_room:
  assumes inv: "batch_inv l ch inputs t0 h0 m pend st" and room: "batch_room l ch inputs t0 h0" and i: "i \<in> pend"
  shows "tdc_row_count (bs_tdc st) < tdc_row_capacity (bs_tdc st)"
    and "key_need l ch (fst (inputs ! i)) \<le> tdc_heap_capacity (bs_tdc st) - tdc_heap_used (bs_tdc st)"
    and "finite (inserted_inputs (bs_results st))" "i \<notin> inserted_inputs (bs_results st)"
proof -
  let ?I = "inserted_inputs (bs_results st)" and ?need = "\<lambda>i. key_need l ch (fst (inputs ! i))"
  have sub: "?I \<subseteq> {..<length inputs} - pend" using inserted_finite [of l ch inputs pend st] inv by (simp add: batch_inv_def)
  have i': "i < length inputs" by (rule pend_less [OF inv i])
  show fin: "finite ?I" using sub finite_subset by blast
  show new: "i \<notin> ?I" using sub i by auto
  have ins: "insert i ?I \<subseteq> {..<length inputs}" using sub i' by auto
  then have "card (insert i ?I) \<le> card {..<length inputs}" by (intro card_mono) auto
  then have "card ?I < length inputs" using fin new by simp
  then show "tdc_row_count (bs_tdc st) < tdc_row_capacity (bs_tdc st)"
    using inv room by (auto simp: batch_inv_def batch_space_def batch_room_def)
  have "sum ?need (insert i ?I) \<le> sum ?need {..<length inputs}" by (intro sum_mono2 ins) auto
  also have "\<dots> = sum_list (map (key_need l ch \<circ> fst) inputs)"
    by (simp add: sum_list_sum_nth atLeast0LessThan)
  finally have "?need i + sum ?need ?I \<le> sum_list (map (key_need l ch \<circ> fst) inputs)" using fin new by simp
  then show "?need i \<le> tdc_heap_capacity (bs_tdc st) - tdc_heap_used (bs_tdc st)"
    using inv room by (auto simp: batch_inv_def batch_space_def batch_room_def)
qed

lemma add_groups_insert: "(add_groups m S)(k \<mapsto> []) = add_groups m (insert k S)"
  by (auto simp: add_groups_def fun_eq_iff)

lemma inserted_resolve:
  "bs_results st i = None \<Longrightarrow>
   inserted_inputs (bs_results (resolve inputs i g True st)) = insert i (inserted_inputs (bs_results st))"
  by (auto simp: inserted_inputs_def resolve_def)

lemma table_holds_None: "table_holds l t h m \<Longrightarrow> aht_map l t h k = None \<Longrightarrow> m k = None"
  unfolding table_holds_def by (drule spec [of _ k]) (auto split: option.splits)

definition claimed :: "nat \<Rightarrow> u16 \<Rightarrow> nat \<Rightarrow> u8 list \<Rightarrow> tuple_data_collection \<Rightarrow> batch_state \<Rightarrow> batch_state" where
  "claimed slot salt g row t2 st =
     st\<lparr>bs_aht := set_entry slot (PackEntry salt g) (bs_aht st), bs_tdc := set_row g row t2\<rparr>"

lemma batch_insert:
  assumes l: "layout_ok l" and inv: "batch_inv l ch inputs t0 h0 m pend st"
    and room: "batch_room l ch inputs t0 h0" and inputs: "batch_inputs_ok l ch inputs"
    and metas: "metas_ok metas l ch inputs" and i: "i \<in> pend" and empty: "aht_tab (bs_aht st) (bs_slot st i) = None"
  obtains g t1 row t2 where "TupleDataCollectionAppendRow (bs_tdc st) = (g, t1)" "g \<noteq> TDC_INVALID_ROW_INDEX"
    and "ScatterGroupOnly l ch (fst (inputs ! i)) (TupleDataCollectionGetRow t1 g, Some t1) = Inr (row, Some t2)"
    and "batch_inv l ch inputs t0 h0 m (pend - {i})
      (resolve inputs i g True (claimed (bs_slot st i) (pm_salt (metas i)) g row t2 st))"
    and "aht_tab (set_entry (bs_slot st i) (PackEntry (pm_salt (metas i)) g) (bs_aht st)) =
      (aht_tab (bs_aht st))(bs_slot st i \<mapsto> g)"
proof -
  let ?t = "bs_tdc st" and ?h = "bs_aht st" and ?k = "input_key l ch inputs i" and ?s = "bs_slot st i"
  let ?I = "inserted_inputs (bs_results st)" and ?need = "\<lambda>i. key_need l ch (fst (inputs ! i))"
  have tabs: "batch_tables l ch inputs t0 h0 m st" and space: "batch_space l ch inputs t0 h0 st"
    and res: "batch_results l ch inputs pend st" using inv by (simp_all add: batch_inv_def)
  have t: "rows_ok l ?t" and h: "aht_ok l ?t ?h"
    and holds: "table_holds l ?t ?h (add_groups m (input_key l ch inputs ` ?I))"
    using tabs by (simp_all add: batch_tables_def)
  have i': "i < length inputs" by (rule pend_less [OF inv i])
  note rm = insert_room [OF inv room i] and sl = pend_slot [OF inv i]
  define g where "g = tdc_row_count ?t"
  define t1 where "t1 = ?t\<lparr>tdc_row_count := g + 1\<rparr>"
  have tok: "tdc_ok ?t" using t by (simp add: rows_ok_def)
  have app: "TupleDataCollectionAppendRow ?t = (g, t1)"
    using AppendRow_index [OF tok] rm(1) by (cases "TupleDataCollectionAppendRow ?t") (auto simp: g_def t1_def)
  have t1: "tdc_ok t1" "tdc_heap_capacity t1 = tdc_heap_capacity ?t" "tdc_heap_used t1 = tdc_heap_used ?t"
    using tdc_ok_AppendRow [OF tok app] by (simp_all add: t1_def)
  have fresh: "TupleDataCollectionGetRow t1 g = replicate (unat (layout_row_width l)) 0"
    using t rm(1) by (simp add: rows_ok_def TupleDataCollectionGetRow_def t1_def g_def)
  have ch: "chunk_row_ok l ch (fst (inputs ! i))" using input_hash [OF inputs i'] by blast
  have need: "key_need l ch (fst (inputs ! i)) \<le> tdc_heap_capacity t1 - tdc_heap_used t1" using rm(2) t1 by simp
  obtain row t2 where sc: "ScatterGroupOnly l ch (fst (inputs ! i)) (replicate (unat (layout_row_width l)) 0, Some t1) = Inr (row, Some t2)"
    and row: "row_ok l (tdc_heap t2) (tdc_heap_used t2) row" "row_key l (tdc_heap t2) row = chunk_key l ch (fst (inputs ! i))"
    "holds_states l row []"
    and t2: "tdc_ok t2" "tdc_ext t1 t2" "tdc_heap_used t2 = tdc_heap_used t1 + key_need l ch (fst (inputs ! i))"
    by (rule ScatterGroupOnly_ok [OF l ch t1(1) need]) (rule that, assumption+)
  have key: "row_key l (tdc_heap t2) row = ?k" using row(2) by (simp add: input_key_def)
  have pass: "\<exists>e. aht_tab ?h (aht_seq (aht_capacity ?h) ?k p) = Some e \<and> key_of l ?t e \<noteq> ?k" if "p < bs_tries st i" for p
    using sl(2) that by (simp add: passed_def)
  have at: "aht_map l ?t ?h ?k = None" "?s < aht_capacity ?h"
    "\<And>g key. (\<And>s e. aht_tab ?h s = Some e \<Longrightarrow> key e = key_of l ?t e) \<Longrightarrow> key g = ?k \<Longrightarrow>
      table_ok (aht_capacity ?h) (aht_seq (aht_capacity ?h)) key ((aht_tab ?h)(?s \<mapsto> g))"
    using aht_claim_at [OF h tries_less [OF inv room i] pass] empty unfolding sl(1) by blast+
  define t' where "t' = set_row g row t2"
  define h' where "h' = set_entry ?s (PackEntry (pm_salt (metas i)) g) ?h"
  define st' where "st' = resolve inputs i g True (claimed ?s (pm_salt (metas i)) g row t2 st)"
  have salt: "pm_salt (metas i) = HashSalt (hash_key ?k)" using metas i' by (simp add: metas_ok_def)
  from claim_row [OF t h holds rm(1) g_def t2(1) t2(2) [unfolded t1_def] row(1) key row(3) at(1,2) empty at(3)]
  have new: "rows_ok l t'" "aht_ok l t' h'"
    "table_holds l t' h' (add_groups m (insert ?k (input_key l ch inputs ` ?I)))"
    "aht_map l t' h' = (aht_map l ?t ?h)(?k \<mapsto> g)" "aht_tab h' = (aht_tab ?h)(?s \<mapsto> g)"
    "\<And>e. e < g \<Longrightarrow> key_of l t' e = key_of l ?t e"
    unfolding t'_def h'_def salt add_groups_insert by blast+
  have st': "bs_tdc st' = t'" "bs_aht st' = h'" "bs_slot st' = bs_slot st" "bs_tries st' = bs_tries st"
    "inserted_inputs (bs_results st') = insert i ?I"
    "bs_results st' = (bs_results st)(i \<mapsto> \<lparr>pr_row_idx = fst (inputs ! i), pr_canonical_row_idx = g, pr_inserted = True\<rparr>)"
    using inserted_resolve [of "claimed ?s (pm_salt (metas i)) g row t2 st" i inputs g] pend_unresolved [OF inv i]
    by (simp_all add: st'_def claimed_def resolve_def t'_def h'_def)
  have m_none: "add_groups m (input_key l ch inputs ` ?I) ?k = None" by (rule table_holds_None [OF holds at(1)])
  have "batch_tables l ch inputs t0 h0 m st'"
    unfolding batch_tables_def st'(1,2,5)
  proof (intro conjI allI impI)
    fix k e assume "aht_map l t0 h0 k = Some e"
    then have "aht_map l ?t ?h k = Some e" using tabs by (simp add: batch_tables_def)
    then show "aht_map l t' h' k = Some e" using at(1) by (auto simp: new(4))
  qed (use new(1-3) tabs m_none rm(4) in \<open>auto simp: batch_tables_def add_groups_def split: if_splits\<close>)
  moreover have "batch_space l ch inputs t0 h0 st'"
  proof -
    have "dom (aht_tab h') = insert ?s (dom (aht_tab ?h))" by (simp add: new(5))
    then have "card (dom (aht_tab h')) = Suc (card (dom (aht_tab ?h)))"
      using aht_tab_finite [of ?h] empty by (simp add: domIff)
    moreover have "aht_capacity h' = aht_capacity ?h" by (simp add: h'_def set_entry_def)
    moreover have "tdc_row_capacity t' = tdc_row_capacity ?t" "tdc_heap_capacity t' = tdc_heap_capacity ?t"
      "tdc_row_count t' = Suc (tdc_row_count ?t)" "tdc_heap_used t' = tdc_heap_used ?t + ?need i"
      using t2 t1 by (simp_all add: t'_def set_row_def tdc_ext_def t1_def g_def)
    ultimately show ?thesis using space rm(3,4) unfolding batch_space_def st'(1,2,5) by simp
  qed
  moreover have "batch_results l ch inputs (pend - {i}) st'"
    unfolding batch_results_def st'(1-4)
  proof (intro conjI allI impI ballI)
    show "pend - {i} \<subseteq> {..<length inputs}" "dom (bs_results st') = {..<length inputs} - (pend - {i})"
      using res i i' by (auto simp: batch_results_def st'(6))
    fix j r assume j: "bs_results st' j = Some r"
    show "pr_row_idx r = fst (inputs ! j)" using j res by (auto simp: st'(6) batch_results_def split: if_splits)
    show "aht_map l t' h' (input_key l ch inputs j) = Some (pr_canonical_row_idx r)"
    proof (cases "j = i")
      case True
      then show ?thesis using j by (auto simp: st'(6) new(4))
    next
      case False
      then have "aht_map l ?t ?h (input_key l ch inputs j) = Some (pr_canonical_row_idx r)"
        using j res by (simp add: st'(6) batch_results_def)
      then show ?thesis using at(1) by (auto simp: new(4))
    qed
  next
    fix j assume j: "j \<in> pend - {i}"
    have cap: "aht_capacity h' = aht_capacity ?h" by (simp add: h'_def set_entry_def)
    show "bs_slot st j = aht_seq (aht_capacity h') (input_key l ch inputs j) (bs_tries st j)"
      using pend_slot(1) [OF inv] j by (simp add: cap)
    have "aht_tab h' s = Some e \<and> key_of l t' e = key_of l ?t e" if "aht_tab ?h s = Some e" for s e
      using that new(5,6) h empty by (auto simp: aht_ok_def g_def)
    then show "passed l t' h' (input_key l ch inputs j) (bs_tries st j)"
      using passed_grow [OF pend_slot(2) [OF inv] cap] j by blast
  qed
  ultimately have "batch_inv l ch inputs t0 h0 m (pend - {i}) st'" by (simp add: batch_inv_def)
  moreover have "g \<noteq> TDC_INVALID_ROW_INDEX" using AppendRow_valid [OF tok app] rm(1) by simp
  ultimately show thesis
    using that [OF app _ _ _ ] sc new(5) unfolding st'_def h'_def fresh by blast
qed

section \<open>The phases of a round\<close>

lemma fold_res_progress:
  assumes "\<And>x xs s. P (x # xs) s \<Longrightarrow> \<exists>s'. f x s = Inr s' \<and> P xs s'"
  shows "P xs s \<Longrightarrow> \<exists>s'. fold_res f xs s = Inr s' \<and> P [] s'"
proof (induction xs arbitrary: s)
  case Nil
  then show ?case by simp
next
  case (Cons x xs)
  then obtain s1 where "f x s = Inr s1" "P xs s1" using assms by blast
  then show ?case using Cons.IH by simp
qed

definition phase_inv ::
  "tuple_data_layout \<Rightarrow> data_chunk \<Rightarrow> (nat \<times> u64) list \<Rightarrow> tuple_data_collection \<Rightarrow> aggregate_hash_table \<Rightarrow>
   (gval list \<Rightarrow> (data_chunk \<times> nat) list option) \<Rightarrow> nat \<Rightarrow> nat list \<Rightarrow> (nat \<times> nat) list \<Rightarrow> nat list \<Rightarrow>
   batch_state \<Rightarrow> bool" where
  "phase_inv l ch inputs t0 h0 m r todo matches deferred st \<longleftrightarrow>
     distinct (todo @ map fst matches @ deferred) \<and>
     batch_inv l ch inputs t0 h0 m (set (todo @ map fst matches @ deferred)) st \<and>
     (\<forall>i\<in>set (todo @ map fst matches). bs_tries st i = r) \<and> (\<forall>i\<in>set deferred. bs_tries st i = Suc r) \<and>
     (\<forall>(i, e)\<in>set matches. aht_tab (bs_aht st) (bs_slot st i) = Some e)"

lemma pend_slot_less:
  assumes "batch_inv l ch inputs t0 h0 m pend st" "i \<in> pend"
  shows "bs_slot st i < aht_capacity (bs_aht st)"
proof -
  have "aht_ok l (bs_tdc st) (bs_aht st)" using assms(1) by (simp add: batch_inv_def batch_tables_def)
  then show ?thesis
    unfolding pend_slot(1) [OF assms] aht_seq_def by (auto simp: aht_ok_def intro!: probe_pos_less)
qed

lemma ProbeVectorAppend_facts:
  "pv_lanes (ProbeVectorAppend i v w vec) = pv_lanes vec @ [(i, v)]"
  "length (pv_lanes vec) < 16 \<Longrightarrow> bit (pv_empty_mask (ProbeVectorAppend i v w vec)) j \<longleftrightarrow>
     bit (pv_empty_mask vec) j \<or> (j = length (pv_lanes vec) \<and> EntryIsEmpty v)"
  by (auto simp: ProbeVectorAppend_def Let_def bit_or_iff bit_push_bit_iff bit_1_iff bit_exp_iff)

lemma fill_lanes:
  assumes "\<forall>i\<in>set lanes. bs_tries st i < aht_capacity (bs_aht st)" "length lanes \<le> 16"
  shows "\<exists>vec. fold_res (fill_lane metas st) lanes ProbeVectorInit = Inr vec \<and>
    pv_lanes vec = map (\<lambda>i. (i, aht_entries (bs_aht st) ! bs_slot st i)) lanes \<and>
    (\<forall>j. bit (pv_empty_mask vec) j \<longleftrightarrow> j < length lanes \<and> EntryIsEmpty (aht_entries (bs_aht st) ! bs_slot st (lanes ! j)))"
  using assms
proof (induction lanes rule: rev_induct)
  case Nil
  then show ?case by (simp add: ProbeVectorInit_def)
next
  case (snoc i lanes)
  then obtain vec where vec: "fold_res (fill_lane metas st) lanes ProbeVectorInit = Inr vec"
    "pv_lanes vec = map (\<lambda>i. (i, aht_entries (bs_aht st) ! bs_slot st i)) lanes"
    "\<forall>j. bit (pv_empty_mask vec) j \<longleftrightarrow> j < length lanes \<and> EntryIsEmpty (aht_entries (bs_aht st) ! bs_slot st (lanes ! j))"
    by auto
  have run: "fold_res (fill_lane metas st) (lanes @ [i]) ProbeVectorInit = Inr (ProbeVectorAppend i
    (aht_entries (bs_aht st) ! bs_slot st i) (pm_salt (metas i)) vec)"
    using snoc.prems(1) by (simp add: fold_res_append vec(1) fill_lane_def)
  have len: "length (pv_lanes vec) = length lanes" "length (pv_lanes vec) < 16"
    using vec(2) snoc.prems(2) by simp_all
  have "bit (pv_empty_mask (ProbeVectorAppend i (aht_entries (bs_aht st) ! bs_slot st i) (pm_salt (metas i)) vec)) j \<longleftrightarrow>
    j < length (lanes @ [i]) \<and> EntryIsEmpty (aht_entries (bs_aht st) ! bs_slot st ((lanes @ [i]) ! j))" for j
    unfolding ProbeVectorAppend_facts(2) [OF len(2)] using vec(3) len(1)
    by (cases "j = length lanes") (auto simp: nth_append)
  then show ?case unfolding run by (auto simp: ProbeVectorAppend_facts(1) vec(2))
qed

text \<open>One lane: insert, remember for comparison, or defer.\<close>

lemma lane_step:
  assumes l: "layout_ok l" and room: "batch_room l ch inputs t0 h0" and inputs: "batch_inputs_ok l ch inputs"
    and metas: "metas_ok metas l ch inputs"
    and ph: "phase_inv l ch inputs t0 h0 m r (fst (pv_lanes vec ! j) # todo) ms ds st"
    and bits: "\<And>k. k \<in> insert j js \<Longrightarrow> aht_tab (bs_aht st) (bs_slot st (fst (pv_lanes vec ! k))) = None \<Longrightarrow>
      bit (pv_empty_mask vec) k"
  shows "\<exists>st' ms' ds'. probe_lane l ch inputs metas vec j (st, ms, ds) = Inr (st', ms', ds') \<and>
    phase_inv l ch inputs t0 h0 m r todo ms' ds' st' \<and>
    (\<forall>k\<in>js. fst (pv_lanes vec ! k) \<in> set todo \<longrightarrow>
       aht_tab (bs_aht st') (bs_slot st' (fst (pv_lanes vec ! k))) = None \<longrightarrow> bit (pv_empty_mask vec) k)"
proof -
  define i where "i = fst (pv_lanes vec ! j)"
  let ?pend = "set ((i # todo) @ map fst ms @ ds)" and ?s = "bs_slot st i"
  let ?e = "aht_entries (bs_aht st) ! bs_slot st i"
  have inv: "batch_inv l ch inputs t0 h0 m ?pend st" and dist: "distinct ((i # todo) @ map fst ms @ ds)"
    and tries: "\<forall>k\<in>set ((i # todo) @ map fst ms). bs_tries st k = r" "\<forall>k\<in>set ds. bs_tries st k = Suc r"
    and tabs: "\<forall>(k, e)\<in>set ms. aht_tab (bs_aht st) (bs_slot st k) = Some e"
    using ph by (simp_all add: phase_inv_def i_def)
  have i: "i \<in> ?pend" by simp
  have rest: "?pend - {i} = set (todo @ map fst ms @ ds)" using dist by auto
  have h: "aht_ok l (bs_tdc st) (bs_aht st)" using inv by (simp add: batch_inv_def batch_tables_def)
  have s: "?s < aht_capacity (bs_aht st)" by (rule pend_slot_less [OF inv i])
  show ?thesis
  proof (cases "aht_tab (bs_aht st) ?s")
    case None
    then have e: "EntryIsEmpty ?e" "bit (pv_empty_mask vec) j"
      using s bits [of j] by (auto simp: aht_tab_def i_def split: if_splits)
    obtain g t1 row t2 where app: "TupleDataCollectionAppendRow (bs_tdc st) = (g, t1)" "g \<noteq> TDC_INVALID_ROW_INDEX"
      and sc: "ScatterGroupOnly l ch (fst (inputs ! i)) (TupleDataCollectionGetRow t1 g, Some t1) = Inr (row, Some t2)"
      and inv': "batch_inv l ch inputs t0 h0 m (?pend - {i})
        (resolve inputs i g True (claimed ?s (pm_salt (metas i)) g row t2 st))"
      and tab': "aht_tab (set_entry ?s (PackEntry (pm_salt (metas i)) g) (bs_aht st)) = (aht_tab (bs_aht st))(?s \<mapsto> g)"
      by (rule batch_insert [OF l inv room inputs metas i None]) (rule that, assumption+)
    define st' where "st' = resolve inputs i g True (claimed ?s (pm_salt (metas i)) g row t2 st)"
    have st': "bs_slot st' = bs_slot st" "bs_tries st' = bs_tries st"
      "aht_tab (bs_aht st') = (aht_tab (bs_aht st))(?s \<mapsto> g)"
      by (simp_all add: st'_def resolve_def claimed_def tab')
    have "probe_lane l ch inputs metas vec j (st, ms, ds) = Inr (st', ms, ds)"
      using e app sc
      by (simp add: probe_lane_def Let_def i_def [symmetric] st'_def resolve_def claimed_def)
    moreover have "phase_inv l ch inputs t0 h0 m r todo ms ds st'"
      unfolding phase_inv_def st'
    proof (intro conjI)
      show "batch_inv l ch inputs t0 h0 m (set (todo @ map fst ms @ ds)) st'" using inv' rest by (simp add: st'_def)
      show "\<forall>(k, e)\<in>set ms. ((aht_tab (bs_aht st))(?s \<mapsto> g)) (bs_slot st k) = Some e"
        using tabs None by fastforce
    qed (use dist tries in auto)
    ultimately show ?thesis using bits unfolding st'(1,3) [symmetric]
      by (intro exI [of _ st'] exI [of _ ms] exI [of _ ds]) (auto simp: st'(1,3) split: if_splits)
  next
    case (Some e)
    then have e: "\<not> EntryIsEmpty ?e" "EntryRowIndex ?e = e" by (auto simp: aht_tab_def split: if_splits)
    show ?thesis
    proof (cases "EntrySalt ?e = pm_salt (metas i)")
      case True
      then have "probe_lane l ch inputs metas vec j (st, ms, ds) = Inr (st, ms @ [(i, e)], ds)"
        using e by (simp add: probe_lane_def Let_def i_def [symmetric])
      moreover have "phase_inv l ch inputs t0 h0 m r todo (ms @ [(i, e)]) ds st"
      proof -
        have "set (todo @ map fst (ms @ [(i, e)]) @ ds) = ?pend" by auto
        then have "batch_inv l ch inputs t0 h0 m (set (todo @ map fst (ms @ [(i, e)]) @ ds)) st" using inv by simp
        then show ?thesis using dist tries tabs Some unfolding phase_inv_def by auto
      qed
      ultimately show ?thesis using bits
        by (intro exI [of _ st] exI [of _ "ms @ [(i, e)]"] exI [of _ ds]) auto
    next
      case False
      define st' where "st' = probe_next metas i st"
      have st': "bs_aht st' = bs_aht st" "\<And>k. k \<noteq> i \<Longrightarrow> bs_slot st' k = bs_slot st k"
        "\<And>k. k \<noteq> i \<Longrightarrow> bs_tries st' k = bs_tries st k" "bs_tries st' i = Suc (bs_tries st i)"
        by (simp_all add: st'_def probe_next_def)
      have salt: "pm_salt (metas i) = HashSalt (hash_key (input_key l ch inputs i))"
        using metas pend_less [OF inv i] by (simp add: metas_ok_def)
      have "EntrySalt ?e = HashSalt (hash_key (key_of l (bs_tdc st) e))" using h Some by (simp add: aht_ok_def)
      then have "key_of l (bs_tdc st) e \<noteq> input_key l ch inputs i" using False salt by auto
      from batch_next [OF inv metas i Some this]
      have inv': "batch_inv l ch inputs t0 h0 m ?pend st'" by (simp add: st'_def)
      have "probe_lane l ch inputs metas vec j (st, ms, ds) = Inr (st', ms, ds @ [i])"
        using e False by (simp add: probe_lane_def Let_def i_def [symmetric] st'_def)
      moreover have "phase_inv l ch inputs t0 h0 m r todo ms (ds @ [i]) st'"
      proof -
        have "set (todo @ map fst ms @ ds @ [i]) = ?pend" by auto
        then have "batch_inv l ch inputs t0 h0 m (set (todo @ map fst ms @ ds @ [i])) st'" using inv' by simp
        moreover have "k \<noteq> i" if "k \<in> set todo \<or> k \<in> set (map fst ms) \<or> k \<in> set ds" for k using that dist by auto
        then have "\<forall>k\<in>set todo \<union> set (map fst ms). bs_tries st' k = r" "\<forall>k\<in>set ds. bs_tries st' k = Suc r"
          "\<forall>(k, e)\<in>set ms. aht_tab (bs_aht st') (bs_slot st' k) = Some e"
          using tries tabs by (fastforce simp: st')+
        ultimately show ?thesis using dist tries st'(4) unfolding phase_inv_def by auto
      qed
      moreover have "k \<noteq> i" if "k \<in> set todo" for k using that dist by auto
      ultimately show ?thesis using bits
        by (intro exI [of _ st'] exI [of _ ms] exI [of _ "ds @ [i]"]) (auto simp: st')
    qed
  qed
qed

text \<open>The comparisons of a vector.\<close>

lemma match_batch_keys:
  assumes t: "rows_ok l t"
    and "\<forall>(i, e)\<in>set ms. e < tdc_row_count t \<and> chunk_row_ok l ch (fst (inputs ! i))"
  shows "MatchGroupBatch l (Some t) (map (\<lambda>(i, e). (Some (TupleDataCollectionGetRow t e), fst (inputs ! i))) ms) ch =
    Inr (map (\<lambda>(i, e). key_of l t e = input_key l ch inputs i) ms)"
  using assms(2)
proof (induction ms)
  case Nil
  then show ?case by simp
next
  case (Cons p ms)
  obtain i e where p: "p = (i, e)" by fastforce
  have "row_ok l (tdc_heap t) (tdc_heap_used t) (tdc_rows t ! e)" using t Cons.prems p by (simp add: rows_ok_def)
  then have "MatchGroup l (Some t) (TupleDataCollectionGetRow t e) ch (fst (inputs ! i)) =
    Inr (key_of l t e = input_key l ch inputs i)"
    using MatchGroup_key [of l t "tdc_heap_used t" "tdc_rows t ! e" ch "fst (inputs ! i)"] Cons.prems p
    by (simp add: row_ok_def key_of_def input_key_def TupleDataCollectionGetRow_def)
  then show ?case using Cons p by simp
qed

lemma match_phase:
  assumes metas: "metas_ok metas l ch inputs"
  shows "phase_inv l ch inputs t0 h0 m r todo ms ds st \<Longrightarrow> bs_tdc st = t \<Longrightarrow>
    (case fold (match_lane inputs metas)
       (zip ms (map (\<lambda>(i, e). key_of l t e = input_key l ch inputs i) ms)) (st, ds) of
       (st', ds') \<Rightarrow> phase_inv l ch inputs t0 h0 m r todo [] ds' st')"
proof (induction ms arbitrary: st ds)
  case Nil
  then show ?case by simp
next
  case (Cons p ms)
  obtain i e where p: "p = (i, e)" by fastforce
  let ?pend = "set (todo @ map fst (p # ms) @ ds)"
  have inv: "batch_inv l ch inputs t0 h0 m ?pend st" and dist: "distinct (todo @ i # map fst ms @ ds)"
    and tries: "\<forall>k\<in>set todo \<union> set (map fst ms). bs_tries st k = r" "bs_tries st i = r" "\<forall>k\<in>set ds. bs_tries st k = Suc r"
    and tabs: "\<forall>(k, e)\<in>set ms. aht_tab (bs_aht st) (bs_slot st k) = Some e" "aht_tab (bs_aht st) (bs_slot st i) = Some e"
    using Cons.prems(1) by (simp_all add: phase_inv_def p)
  have i: "i \<in> ?pend" by (simp add: p)
  have ne: "k \<noteq> i" if "k \<in> set todo \<or> k \<in> set (map fst ms) \<or> k \<in> set ds" for k using that dist by auto
  show ?case
  proof (cases "key_of l t e = input_key l ch inputs i")
    case True
    define st1 where "st1 = resolve inputs i e False st"
    have st1: "bs_aht st1 = bs_aht st" "bs_tdc st1 = bs_tdc st" "bs_slot st1 = bs_slot st" "bs_tries st1 = bs_tries st"
      by (simp_all add: st1_def resolve_def)
    have S: "set (todo @ map fst ms @ ds) = ?pend - {i}" using dist p by auto
    have "batch_inv l ch inputs t0 h0 m (?pend - {i}) st1"
      unfolding st1_def by (rule batch_hit [OF inv i tabs(2)]) (use True Cons.prems(2) in simp)
    then have "batch_inv l ch inputs t0 h0 m (set (todo @ map fst ms @ ds)) st1" by (simp only: S)
    then have "phase_inv l ch inputs t0 h0 m r todo ms ds st1"
      using dist tries tabs unfolding phase_inv_def st1 by auto
    from Cons.IH [OF this] show ?thesis
      using True Cons.prems(2) st1(2) by (simp add: p match_lane_def st1_def resolve_def)
  next
    case False
    define st1 where "st1 = probe_next metas i st"
    have st1: "bs_aht st1 = bs_aht st" "bs_tdc st1 = bs_tdc st" "\<And>k. k \<noteq> i \<Longrightarrow> bs_slot st1 k = bs_slot st k"
      "\<And>k. k \<noteq> i \<Longrightarrow> bs_tries st1 k = bs_tries st k" "bs_tries st1 i = Suc (bs_tries st i)"
      by (simp_all add: st1_def probe_next_def)
    have S: "set (todo @ map fst ms @ ds @ [i]) = ?pend" using p by auto
    have "batch_inv l ch inputs t0 h0 m ?pend st1"
      unfolding st1_def by (rule batch_next [OF inv metas i tabs(2)]) (use False Cons.prems(2) in simp)
    then have inv': "batch_inv l ch inputs t0 h0 m (set (todo @ map fst ms @ ds @ [i])) st1" by (simp only: S)
    have "\<forall>k\<in>set todo \<union> set (map fst ms). bs_tries st1 k = r" "\<forall>k\<in>set ds. bs_tries st1 k = Suc r"
      "\<forall>(k, e)\<in>set ms. aht_tab (bs_aht st1) (bs_slot st1 k) = Some e"
      using ne tries tabs by (fastforce simp: st1)+
    then have "phase_inv l ch inputs t0 h0 m r todo ms (ds @ [i]) st1"
      using inv' dist tries(2) st1(5) unfolding phase_inv_def by auto
    from Cons.IH [OF this] show ?thesis
      using False Cons.prems(2) st1(2) by (simp add: p match_lane_def st1_def)
  qed
qed

lemma vector_step:
  assumes l: "layout_ok l" and room: "batch_room l ch inputs t0 h0" and inputs: "batch_inputs_ok l ch inputs"
    and metas: "metas_ok metas l ch inputs" and len: "length lanes \<le> 16"
    and ph: "phase_inv l ch inputs t0 h0 m r (lanes @ todo) [] ds st"
  shows "\<exists>st' ds'. probe_vector_step l ch inputs metas lanes (st, ds) = Inr (st', ds') \<and>
    phase_inv l ch inputs t0 h0 m r todo [] ds' st'"
proof -
  have inv: "batch_inv l ch inputs t0 h0 m (set (lanes @ todo @ ds)) st"
    using ph by (simp add: phase_inv_def)
  have "\<forall>i\<in>set lanes. bs_tries st i < aht_capacity (bs_aht st)"
    using tries_less [OF inv room] by simp
  from fill_lanes [OF this len] obtain vec where vec: "fold_res (fill_lane metas st) lanes ProbeVectorInit = Inr vec"
    "pv_lanes vec = map (\<lambda>i. (i, aht_entries (bs_aht st) ! bs_slot st i)) lanes"
    "\<forall>j. bit (pv_empty_mask vec) j \<longleftrightarrow> j < length lanes \<and> EntryIsEmpty (aht_entries (bs_aht st) ! bs_slot st (lanes ! j))"
    by blast
  let ?in = "\<lambda>j. fst (pv_lanes vec ! j)"
  define P where "P = (\<lambda>js (st, ms, ds). phase_inv l ch inputs t0 h0 m r (map ?in js @ todo) ms ds st \<and>
    (\<forall>k\<in>set js. aht_tab (bs_aht st) (bs_slot st (?in k)) = None \<longrightarrow> bit (pv_empty_mask vec) k))"
  have step: "\<exists>s'. probe_lane l ch inputs metas vec j s = Inr s' \<and> P js s'" if Pj: "P (j # js) s" for j js s
  proof -
    obtain a ms ds' where s: "s = (a, ms, ds')" using prod_cases3 by blast
    have ph': "phase_inv l ch inputs t0 h0 m r (?in j # map ?in js @ todo) ms ds' a"
      and b: "\<And>k. k \<in> insert j (set js) \<Longrightarrow> aht_tab (bs_aht a) (bs_slot a (?in k)) = None \<Longrightarrow> bit (pv_empty_mask vec) k"
      using Pj by (auto simp: P_def s)
    from lane_step [OF l room inputs metas ph' b]
    show ?thesis by (fastforce simp: P_def s)
  qed
  have idx: "map ?in [0..<length (pv_lanes vec)] = lanes"
    by (rule nth_equalityI) (simp_all add: vec(2))
  have "P [0..<length (pv_lanes vec)] (st, [], ds)"
    unfolding P_def prod.case idx using ph vec(3) pend_slot_less [OF inv]
    by (auto simp: vec(2) aht_tab_def split: if_splits)
  from fold_res_progress [where P = P and f = "probe_lane l ch inputs metas vec", OF step this]
  obtain s1 where lanes: "fold_res (probe_lane l ch inputs metas vec) [0..<length (pv_lanes vec)] (st, [], ds) = Inr s1" "P [] s1"
    by blast
  obtain st1 ms ds1 where s1: "s1 = (st1, ms, ds1)" using prod_cases3 by blast
  have ph1: "phase_inv l ch inputs t0 h0 m r todo ms ds1 st1" using lanes(2) by (simp add: P_def s1)
  have inv1: "batch_inv l ch inputs t0 h0 m (set (todo @ map fst ms @ ds1)) st1" using ph1 by (simp add: phase_inv_def)
  have t1: "rows_ok l (bs_tdc st1)" "aht_ok l (bs_tdc st1) (bs_aht st1)"
    using inv1 by (simp_all add: batch_inv_def batch_tables_def)
  have ok: "\<forall>(i, e)\<in>set ms. e < tdc_row_count (bs_tdc st1) \<and> chunk_row_ok l ch (fst (inputs ! i))"
  proof clarify
    fix i e assume ie: "(i, e) \<in> set ms"
    then have "i \<in> set (todo @ map fst ms @ ds1)" by force
    then have "chunk_row_ok l ch (fst (inputs ! i))" using input_hash [OF inputs pend_less [OF inv1]] by blast
    moreover have "aht_tab (bs_aht st1) (bs_slot st1 i) = Some e" using ph1 ie by (auto simp: phase_inv_def)
    then have "e < tdc_row_count (bs_tdc st1)" using t1(2) by (auto simp: aht_ok_def)
    ultimately show "e < tdc_row_count (bs_tdc st1) \<and> chunk_row_ok l ch (fst (inputs ! i))" by simp
  qed
  show ?thesis
  proof (cases "ms = []")
    case True
    then show ?thesis using vec(1) lanes(1) ph1 by (simp add: probe_vector_step_def s1)
  next
    case False
    obtain st2 ds2 where f: "fold (match_lane inputs metas)
        (zip ms (map (\<lambda>(i, e). key_of l (bs_tdc st1) e = input_key l ch inputs i) ms)) (st1, ds1) = (st2, ds2)"
      by fastforce
    have "phase_inv l ch inputs t0 h0 m r todo [] ds2 st2"
      using match_phase [OF metas ph1 refl] by (simp add: f)
    then show ?thesis using vec(1) lanes(1) False f match_batch_keys [OF t1(1) ok]
      by (simp add: probe_vector_step_def s1)
  qed
qed

section \<open>The rounds\<close>

lemma take_vectors_concat: "concat (take_vectors active) = active"
  and take_vectors_length: "\<forall>v\<in>set (take_vectors active). length v \<le> 16"
  by (induction active rule: take_vectors.induct) (auto simp: kWidth_def)

lemma round_step:
  assumes "layout_ok l" "batch_room l ch inputs t0 h0" "batch_inputs_ok l ch inputs" "metas_ok metas l ch inputs"
    and ph: "phase_inv l ch inputs t0 h0 m r active [] [] st"
  shows "\<exists>st' ds. fold_res (probe_vector_step l ch inputs metas) (take_vectors active) (st, []) = Inr (st', ds) \<and>
    phase_inv l ch inputs t0 h0 m (Suc r) ds [] [] st'"
proof -
  define P where "P = (\<lambda>vs (st, ds). phase_inv l ch inputs t0 h0 m r (concat vs) [] ds st \<and> (\<forall>v\<in>set vs. length v \<le> 16))"
  have step: "\<exists>s'. probe_vector_step l ch inputs metas v s = Inr s' \<and> P vs s'" if "P (v # vs) s" for v vs s
    using vector_step [OF assms(1-4), of v m r "concat vs"] that by (fastforce simp: P_def split: prod.splits)
  have "P (take_vectors active) (st, [])" using ph take_vectors_length by (simp add: P_def take_vectors_concat)
  from fold_res_progress [where P = P and f = "probe_vector_step l ch inputs metas", OF step this] obtain st' ds where
    "fold_res (probe_vector_step l ch inputs metas) (take_vectors active) (st, []) = Inr (st', ds)" "P [] (st', ds)"
    by fastforce
  then show ?thesis by (auto simp: P_def phase_inv_def)
qed

lemma rounds_finish:
  assumes "layout_ok l" "batch_room l ch inputs t0 h0" "batch_inputs_ok l ch inputs" "metas_ok metas l ch inputs"
  shows "phase_inv l ch inputs t0 h0 m r active [] [] st \<Longrightarrow> aht_capacity h0 \<le> r + fuel \<Longrightarrow>
    \<exists>st'. probe_rounds fuel l ch inputs metas active st = Inr (Some st') \<and> batch_inv l ch inputs t0 h0 m {} st'"
proof (induction fuel arbitrary: r active st)
  case 0
  have inv: "batch_inv l ch inputs t0 h0 m (set active) st" using 0 by (simp add: phase_inv_def)
  have "active = []"
  proof (rule ccontr)
    assume "active \<noteq> []"
    then obtain i where i: "i \<in> set active" by fastforce
    then have "r < aht_capacity (bs_aht st)" using tries_less [OF inv assms(2)] 0 by (auto simp: phase_inv_def)
    moreover have "aht_capacity (bs_aht st) = aht_capacity h0" using inv by (simp add: batch_inv_def batch_space_def)
    ultimately show False using 0 by simp
  qed
  then show ?case using inv by simp
next
  case (Suc fuel)
  show ?case
  proof (cases "active = []")
    case True
    then show ?thesis using Suc.prems by (simp add: phase_inv_def)
  next
    case False
    obtain st1 ds where r: "fold_res (probe_vector_step l ch inputs metas) (take_vectors active) (st, []) = Inr (st1, ds)"
      "phase_inv l ch inputs t0 h0 m (Suc r) ds [] [] st1"
      using round_step [OF assms Suc.prems(1)] by blast
    then show ?thesis using Suc.IH [OF r(2)] Suc.prems(2) False by simp
  qed
qed

section \<open>The batch as a map update\<close>

lemma batch_start:
  assumes t: "rows_ok l t" and h: "aht_ok l t h" and m: "table_holds l t h m" and inputs: "batch_inputs_ok l ch inputs"
    and slots: "\<And>i. slots i = pm_slot (BuildProbeMeta h (snd (inputs ! i)))"
  shows "phase_inv l ch inputs t h m 0 [0..<length inputs] [] []
    \<lparr>bs_aht = h, bs_tdc = t, bs_slot = slots, bs_tries = (\<lambda>_. 0), bs_results = Map.empty\<rparr>"
proof -
  have none: "inserted_inputs Map.empty = {}" by (simp add: inserted_inputs_def)
  have empty: "add_groups m {} = m" by (simp add: add_groups_def fun_eq_iff)
  have "slots i = aht_seq (aht_capacity h) (input_key l ch inputs i) 0" if "i < length inputs" for i
    using aht_first_slot [OF h] input_hash [OF inputs that] by (simp add: slots BuildProbeMeta_def)
  then show ?thesis
    using t h m
    by (auto simp: phase_inv_def batch_inv_def batch_tables_def batch_space_def batch_results_def none empty passed_def)
qed

lemma batch_metas_ok: "batch_inputs_ok l ch inputs \<Longrightarrow> metas_ok (\<lambda>i. BuildProbeMeta h (snd (inputs ! i))) l ch inputs"
  using input_hash by (simp add: metas_ok_def BuildProbeMeta_def)

text \<open>C3: A batch of chunk rows with room for its groups always completes, and resolves every input
  to the canonical row of its own group: groups that were in the table keep their row and their state,
  every other group of the batch gets exactly one new row with empty aggregate state, claimed by
  exactly one of the inputs of that group, and nothing else enters the table.\<close>

theorem FindOrInsertBatch_resolves_groups:
  assumes "layout_ok l" "rows_ok l t" "aht_ok l t h" "table_holds l t h m"
    and "batch_inputs_ok l ch inputs" "batch_room l ch inputs t h"
  shows "\<exists>st. AggregateHashTableFindOrInsertBatch h t l ch inputs = Inr (Some st) \<and>
    rows_ok l (bs_tdc st) \<and> aht_ok l (bs_tdc st) (bs_aht st) \<and>
    table_holds l (bs_tdc st) (bs_aht st) (add_groups m (input_key l ch inputs ` {..<length inputs} - dom m)) \<and>
    (\<forall>k e. aht_map l t h k = Some e \<longrightarrow> aht_map l (bs_tdc st) (bs_aht st) k = Some e) \<and>
    (\<forall>i<length inputs. \<exists>r. bs_results st i = Some r \<and> pr_row_idx r = fst (inputs ! i) \<and>
       aht_map l (bs_tdc st) (bs_aht st) (input_key l ch inputs i) = Some (pr_canonical_row_idx r)) \<and>
    inj_on (input_key l ch inputs) (inserted_inputs (bs_results st)) \<and>
    input_key l ch inputs ` inserted_inputs (bs_results st) = input_key l ch inputs ` {..<length inputs} - dom m"
proof -
  let ?K = "input_key l ch inputs"
  obtain st where run: "AggregateHashTableFindOrInsertBatch h t l ch inputs = Inr (Some st)"
    and inv: "batch_inv l ch inputs t h m {} st"
    using rounds_finish [OF assms(1,6,5) batch_metas_ok [OF assms(5)] batch_start [OF assms(2-5) refl],
        of "Suc (aht_capacity h)"]
    by (auto simp: AggregateHashTableFindOrInsertBatch_def Let_def simp del: probe_rounds.simps)
  let ?I = "inserted_inputs (bs_results st)" and ?S = "?K ` {..<length inputs} - dom m"
  have tabs: "batch_tables l ch inputs t h m st" and res: "batch_results l ch inputs {} st"
    using inv by (simp_all add: batch_inv_def)
  have found: "\<exists>r. bs_results st i = Some r \<and> pr_row_idx r = fst (inputs ! i) \<and>
       aht_map l (bs_tdc st) (bs_aht st) (?K i) = Some (pr_canonical_row_idx r)" if "i < length inputs" for i
  proof -
    have "i \<in> dom (bs_results st)" using res that by (simp add: batch_results_def)
    then obtain r where "bs_results st i = Some r" by blast
    then show ?thesis using res by (simp add: batch_results_def)
  qed
  have "?K ` ?I = ?S"
  proof (intro equalityI subsetI)
    fix k assume "k \<in> ?K ` ?I"
    then show "k \<in> ?S" using tabs inserted_finite [OF res] by (auto simp: batch_tables_def)
  next
    fix k assume k: "k \<in> ?S"
    then have "aht_map l (bs_tdc st) (bs_aht st) k \<noteq> None" using found by fastforce
    then have "add_groups m (?K ` ?I) k \<noteq> None"
      using tabs unfolding batch_tables_def table_holds_def by (auto split: option.splits dest!: spec [of _ k])
    then show "k \<in> ?K ` ?I" using k by (auto simp: add_groups_def domIff split: if_splits)
  qed
  then show ?thesis using run tabs found by (auto simp: batch_tables_def)
qed

theorem FindOrInsertBatch_resolves_groups_witness:
  "let hash = hash_key (chunk_key demo_layout demo_chunk 0)
   in \<exists>st r0 r1. AggregateHashTableFindOrInsertBatch (AggregateHashTableInit 32) demo_tdc demo_layout demo_chunk
        [(0, hash), (0, hash)] = Inr (Some st) \<and>
      bs_results st 0 = Some r0 \<and> bs_results st 1 = Some r1 \<and> pr_canonical_row_idx r0 = pr_canonical_row_idx r1"
proof -
  define hash where "hash = hash_key (chunk_key demo_layout demo_chunk 0)"
  let ?in = "[(0 :: nat, hash), (0, hash)]"
  have p: "is_pow2 32" unfolding is_pow2_def by (rule exI [of _ 5]) simp
  have t: "rows_ok demo_layout demo_tdc"
    using demo_facts(4,5) by (simp add: rows_ok_def demo_tdc_def TupleDataCollectionInit_def)
  have ok: "aht_ok demo_layout demo_tdc (AggregateHashTableInit 32)" by (rule aht_ok_Init [OF p]) simp
  have none: "aht_map demo_layout demo_tdc (AggregateHashTableInit 32) k = None" for k
    using aht_map_iff [OF ok, of k] aht_tab_Init by (metis not_None_eq option.distinct(1))
  have m: "table_holds demo_layout demo_tdc (AggregateHashTableInit 32) Map.empty"
    by (simp add: table_holds_def none)
  have inputs: "batch_inputs_ok demo_layout demo_chunk ?in"
    using demo_facts(6) HashGroup_key [OF demo_facts(6)] by (simp add: batch_inputs_ok_def hash_def)
  have need: "key_need demo_layout demo_chunk 0 = 0"
    by (simp add: key_need_def string_need_def demo_layout_def q1_layout demo_chunk_def get_string_ref_def get_cell_def
        empty_chunk_def plain_class_def HeapBytesNeededForStringLength_def)
  have room: "batch_room demo_layout demo_chunk ?in demo_tdc (AggregateHashTableInit 32)"
    by (simp add: batch_room_def need aht_tab_Init) (simp add: demo_tdc_def TupleDataCollectionInit_def AggregateHashTableInit_def)
  obtain st where st: "AggregateHashTableFindOrInsertBatch (AggregateHashTableInit 32) demo_tdc demo_layout demo_chunk ?in = Inr (Some st)"
    "\<forall>i<length ?in. \<exists>r. bs_results st i = Some r \<and> pr_row_idx r = fst (?in ! i) \<and>
       aht_map demo_layout (bs_tdc st) (bs_aht st) (input_key demo_layout demo_chunk ?in i) = Some (pr_canonical_row_idx r)"
    using FindOrInsertBatch_resolves_groups [OF demo_facts(2) t ok m inputs room] by blast
  obtain r0 where r0: "bs_results st 0 = Some r0"
    "aht_map demo_layout (bs_tdc st) (bs_aht st) (input_key demo_layout demo_chunk ?in 0) = Some (pr_canonical_row_idx r0)"
    using st(2) [rule_format, of 0] by auto
  obtain r1 where r1: "bs_results st 1 = Some r1"
    "aht_map demo_layout (bs_tdc st) (bs_aht st) (input_key demo_layout demo_chunk ?in 1) = Some (pr_canonical_row_idx r1)"
    using st(2) [rule_format, of 1] by auto
  have "pr_canonical_row_idx r0 = pr_canonical_row_idx r1" using r0(2) r1(2) by (simp add: input_key_def)
  then show ?thesis using st(1) r0(1) r1(1) unfolding Let_def hash_def [symmetric] by blast
qed

end
