(* ===== verification/TaskQueue.thy ===== *)
theory TaskQueue
  imports Prelude
begin

text \<open>
  The bounded multi-producer multi-consumer queue of pipeline/dsm_task_queue.hpp and
  dsm_task_queue.cpp. A call runs as a sequence of atomic accesses: every load, compare-and-swap and
  store of shared memory is one step of the calling process, and the steps of any number of
  processes interleave. The cells that follow the header in shared memory are functions of the index.
\<close>

section \<open>The queue and its operations\<close>

datatype task_kind = TK_RUN | TK_COMBINE | TK_FINALIZE

record task_descriptor =
  td_pipeline_id :: nat
  td_event_id :: nat
  td_partition_id :: nat
  td_worker_index :: int
  td_kind :: task_kind

record dsm_task_queue =
  q_capacity :: nat
  q_mask :: nat
  q_worker_pids :: "int list"
  q_enqueue_pos :: nat
  q_dequeue_pos :: nat
  q_sequence :: "nat \<Rightarrow> nat"
  q_desc :: "nat \<Rightarrow> task_descriptor"
  q_latches :: "int set"

definition no_task :: task_descriptor where
  "no_task = \<lparr>td_pipeline_id = 0, td_event_id = 0, td_partition_id = 0, td_worker_index = 0, td_kind = TK_RUN\<rparr>"

definition InitInPlace :: "nat \<Rightarrow> dsm_task_queue" where
  "InitInPlace capacity =
     \<lparr>q_capacity = capacity, q_mask = capacity - 1, q_worker_pids = [], q_enqueue_pos = 0, q_dequeue_pos = 0,
      q_sequence = (\<lambda>i. i), q_desc = (\<lambda>_. no_task), q_latches = {}\<rparr>"

definition EstimateSize :: "nat \<Rightarrow> nat" where
  "EstimateSize capacity = 288 + capacity * 28"

definition RegisterWorkerPids :: "int list \<Rightarrow> dsm_task_queue \<Rightarrow> dsm_task_queue" where
  "RegisterWorkerPids pids q = q\<lparr>q_worker_pids := pids\<rparr>"

text \<open>\<^verbatim>\<open>BackendPidGetProc\<close> is the parameter \<open>live\<close>: it finds the running processes.\<close>

definition WakeRegisteredWorkers :: "(int \<Rightarrow> bool) \<Rightarrow> dsm_task_queue \<Rightarrow> dsm_task_queue" where
  "WakeRegisteredWorkers live q =
     q\<lparr>q_latches := q_latches q \<union> set (filter (\<lambda>pid. pid \<noteq> 0 \<and> live pid) (q_worker_pids q))\<rparr>"

text \<open>
  Where a call stands. A pop for a worker carries its index, a plain pop carries \<^verbatim>\<open>None\<close>.
\<close>

datatype call =
    Idle
  | PushLoad task_descriptor
  | PushSeq task_descriptor nat
  | PushCas task_descriptor nat
  | PushCopy task_descriptor nat
  | PushPublish task_descriptor nat
  | PushWake
  | PushRet bool
  | PopLoad "int option"
  | PopSeq "int option" nat
  | PopAffine int nat
  | PopCas "int option" nat
  | PopCopy "int option" nat
  | PopRelease "int option" nat task_descriptor
  | PopWake task_descriptor
  | PopRet "task_descriptor option"

definition seq_diff :: "dsm_task_queue \<Rightarrow> nat \<Rightarrow> nat \<Rightarrow> int" where
  "seq_diff q pos ticket = int (q_sequence q (pos AND q_mask q)) - int (wrap32 ticket)"

fun TryPush :: "(int \<Rightarrow> bool) \<Rightarrow> dsm_task_queue \<Rightarrow> call \<Rightarrow> dsm_task_queue \<times> call" where
  "TryPush live q (PushLoad desc) = (q, PushSeq desc (q_enqueue_pos q))"
| "TryPush live q (PushSeq desc pos) =
     (let diff = seq_diff q pos pos
      in (q, if diff = 0 then PushCas desc pos else if diff < 0 then PushRet False else PushLoad desc))"
| "TryPush live q (PushCas desc pos) =
     (if q_enqueue_pos q = pos then (q\<lparr>q_enqueue_pos := wrap64 (pos + 1)\<rparr>, PushCopy desc pos)
      else (q, PushSeq desc (q_enqueue_pos q)))"
| "TryPush live q (PushCopy desc pos) =
     (q\<lparr>q_desc := (q_desc q)(pos AND q_mask q := desc)\<rparr>, PushPublish desc pos)"
| "TryPush live q (PushPublish desc pos) =
     (q\<lparr>q_sequence := (q_sequence q)(pos AND q_mask q := wrap32 (pos + 1))\<rparr>, PushWake)"
| "TryPush live q PushWake = (WakeRegisteredWorkers live q, PushRet True)"
| "TryPush live q c = (q, c)"

text \<open>\<^verbatim>\<open>TryPop\<close> and \<^verbatim>\<open>TryPopForWorker\<close> differ in the affinity test before the swap and the wake after it.\<close>

fun TryPop :: "(int \<Rightarrow> bool) \<Rightarrow> dsm_task_queue \<Rightarrow> call \<Rightarrow> dsm_task_queue \<times> call" where
  "TryPop live q (PopLoad who) = (q, PopSeq who (q_dequeue_pos q))"
| "TryPop live q (PopSeq who pos) =
     (let diff = seq_diff q pos (wrap64 (pos + 1))
      in (q, if diff = 0 then (case who of None \<Rightarrow> PopCas None pos | Some w \<Rightarrow> PopAffine w pos)
             else if diff < 0 then PopRet None else PopLoad who))"
| "TryPop live q (PopAffine w pos) =
     (q, if td_worker_index (q_desc q (pos AND q_mask q)) \<noteq> w then PopRet None else PopCas (Some w) pos)"
| "TryPop live q (PopCas who pos) =
     (if q_dequeue_pos q = pos then (q\<lparr>q_dequeue_pos := wrap64 (pos + 1)\<rparr>, PopCopy who pos)
      else (q, PopSeq who (q_dequeue_pos q)))"
| "TryPop live q (PopCopy who pos) = (q, PopRelease who pos (q_desc q (pos AND q_mask q)))"
| "TryPop live q (PopRelease who pos out) =
     (q\<lparr>q_sequence := (q_sequence q)(pos AND q_mask q := wrap32 (pos + q_capacity q))\<rparr>,
      case who of None \<Rightarrow> PopRet (Some out) | Some w \<Rightarrow> PopWake out)"
| "TryPop live q (PopWake out) = (WakeRegisteredWorkers live q, PopRet (Some out))"
| "TryPop live q c = (q, c)"

section \<open>Interleaved calls\<close>

text \<open>
  The system: the queue, where each process stands, and the history: what was written at each
  position, and which process call took what from which position.
\<close>

record queue_system =
  sys_queue :: dsm_task_queue
  sys_calls :: "nat \<Rightarrow> call"
  sys_pushed :: "nat \<Rightarrow> task_descriptor option"
  sys_popped :: "(nat \<times> int option \<times> task_descriptor) list"

definition at_rest :: "call \<Rightarrow> bool" where
  "at_rest c \<longleftrightarrow> (case c of Idle \<Rightarrow> True | PushRet _ \<Rightarrow> True | PopRet _ \<Rightarrow> True | _ \<Rightarrow> False)"

definition is_push :: "call \<Rightarrow> bool" where
  "is_push c \<longleftrightarrow> (case c of PushLoad _ \<Rightarrow> True | PushSeq _ _ \<Rightarrow> True | PushCas _ _ \<Rightarrow> True | PushCopy _ _ \<Rightarrow> True
     | PushPublish _ _ \<Rightarrow> True | PushWake \<Rightarrow> True | PushRet _ \<Rightarrow> True | _ \<Rightarrow> False)"

definition run_step :: "(int \<Rightarrow> bool) \<Rightarrow> nat \<Rightarrow> queue_system \<Rightarrow> queue_system" where
  "run_step live p s =
     (let c = sys_calls s p;
          (q, c') = (if is_push c then TryPush live (sys_queue s) c else TryPop live (sys_queue s) c)
      in s\<lparr>sys_queue := q, sys_calls := (sys_calls s)(p := c'),
           sys_pushed := (case c of PushCopy desc pos \<Rightarrow> (sys_pushed s)(pos \<mapsto> desc) | _ \<Rightarrow> sys_pushed s),
           sys_popped := (case c of PopRelease who pos out \<Rightarrow> sys_popped s @ [(pos, who, out)] | _ \<Rightarrow> sys_popped s)\<rparr>)"

definition start_system :: "nat \<Rightarrow> int list \<Rightarrow> queue_system" where
  "start_system capacity pids =
     \<lparr>sys_queue = RegisterWorkerPids pids (InitInPlace capacity), sys_calls = (\<lambda>_. Idle),
      sys_pushed = Map.empty, sys_popped = []\<rparr>"

definition call_push :: "nat \<Rightarrow> task_descriptor \<Rightarrow> queue_system \<Rightarrow> queue_system" where
  "call_push p desc s = s\<lparr>sys_calls := (sys_calls s)(p := PushLoad desc)\<rparr>"

definition call_pop :: "nat \<Rightarrow> int option \<Rightarrow> queue_system \<Rightarrow> queue_system" where
  "call_pop p who s = s\<lparr>sys_calls := (sys_calls s)(p := PopLoad who)\<rparr>"

inductive queue_step :: "queue_system \<Rightarrow> queue_system \<Rightarrow> bool" where
  push: "at_rest (sys_calls s p) \<Longrightarrow> queue_step s (call_push p desc s)"
| pop: "at_rest (sys_calls s p) \<Longrightarrow> queue_step s (call_pop p who s)"
| run: "queue_step s (run_step live p s)"

text \<open>
  The runs in which the 32-bit tickets do not wrap: fewer than 2^32 - capacity tasks have been pushed.
\<close>

inductive reachable :: "nat \<Rightarrow> queue_system \<Rightarrow> bool" for capacity where
  start: "reachable capacity (start_system capacity pids)"
| step: "reachable capacity s \<Longrightarrow> q_enqueue_pos (sys_queue s) + capacity < 2 ^ 32 \<Longrightarrow> queue_step s s' \<Longrightarrow>
    reachable capacity s'"

inductive_simps queue_step_iff: "queue_step s s'"

section \<open>Positions\<close>

text \<open>The position a producer has claimed and not yet published, and a consumer not yet released.\<close>

fun prod_pos :: "call \<Rightarrow> nat option" where
  "prod_pos (PushCopy desc pos) = Some pos"
| "prod_pos (PushPublish desc pos) = Some pos"
| "prod_pos c = None"

fun cons_pos :: "call \<Rightarrow> nat option" where
  "cons_pos (PopCopy who pos) = Some pos"
| "cons_pos (PopRelease who pos out) = Some pos"
| "cons_pos c = None"

abbreviation enq :: "queue_system \<Rightarrow> nat" where "enq s \<equiv> q_enqueue_pos (sys_queue s)"
abbreviation deq :: "queue_system \<Rightarrow> nat" where "deq s \<equiv> q_dequeue_pos (sys_queue s)"
abbreviation cap :: "queue_system \<Rightarrow> nat" where "cap s \<equiv> q_capacity (sys_queue s)"

text \<open>The ticket and the descriptor in the cell of a position.\<close>

definition ticket :: "queue_system \<Rightarrow> nat \<Rightarrow> nat" where
  "ticket s p = q_sequence (sys_queue s) (p mod cap s)"

definition cell_desc :: "queue_system \<Rightarrow> nat \<Rightarrow> task_descriptor" where
  "cell_desc s p = q_desc (sys_queue s) (p mod cap s)"

definition shape_inv :: "queue_system \<Rightarrow> bool" where
  "shape_inv s \<longleftrightarrow> is_pow2 (cap s) \<and> 2 \<le> cap s \<and> q_mask (sys_queue s) = cap s - 1 \<and> deq s \<le> enq s"

definition producers_inv :: "queue_system \<Rightarrow> bool" where
  "producers_inv s \<longleftrightarrow>
     (\<forall>t p. prod_pos (sys_calls s t) = Some p \<longrightarrow> deq s \<le> p \<and> p < enq s \<and> ticket s p = p) \<and>
     (\<forall>t u p. prod_pos (sys_calls s t) = Some p \<longrightarrow> prod_pos (sys_calls s u) = Some p \<longrightarrow> t = u)"

definition consumers_inv :: "queue_system \<Rightarrow> bool" where
  "consumers_inv s \<longleftrightarrow>
     (\<forall>t p. cons_pos (sys_calls s t) = Some p \<longrightarrow> p < deq s \<and> ticket s p = p + 1) \<and>
     (\<forall>t u p. cons_pos (sys_calls s t) = Some p \<longrightarrow> cons_pos (sys_calls s u) = Some p \<longrightarrow> t = u)"

definition tickets_inv :: "queue_system \<Rightarrow> bool" where
  "tickets_inv s \<longleftrightarrow>
     (\<forall>p. deq s \<le> p \<longrightarrow> p < enq s \<longrightarrow>
        ticket s p = p + 1 \<or> ticket s p = p \<and> (\<exists>t. prod_pos (sys_calls s t) = Some p)) \<and>
     (\<forall>p<deq s. p + 1 \<le> ticket s p) \<and>
     (\<forall>p. enq s \<le> p \<longrightarrow> p < deq s + cap s \<longrightarrow>
        ticket s p = p \<or> cap s \<le> p \<and> (\<exists>t. cons_pos (sys_calls s t) = Some (p - cap s)))"

definition reads_inv :: "queue_system \<Rightarrow> bool" where
  "reads_inv s \<longleftrightarrow>
     (\<forall>t. case sys_calls s t of
        PushSeq d p \<Rightarrow> p \<le> enq s
      | PushCas d p \<Rightarrow> p \<le> enq s \<and> (p = enq s \<longrightarrow> ticket s p = p)
      | PopSeq w p \<Rightarrow> p \<le> deq s
      | PopAffine w p \<Rightarrow> p \<le> deq s \<and> (p = deq s \<longrightarrow> p < enq s \<and> ticket s p = p + 1)
      | PopCas w p \<Rightarrow> p \<le> deq s \<and> (p = deq s \<longrightarrow> p < enq s \<and> ticket s p = p + 1)
      | _ \<Rightarrow> True)"

definition pushed_inv :: "queue_system \<Rightarrow> bool" where
  "pushed_inv s \<longleftrightarrow>
     (\<forall>p. sys_pushed s p = None \<longleftrightarrow> enq s \<le> p \<or> (\<exists>t d. sys_calls s t = PushCopy d p)) \<and>
     (\<forall>t d p. sys_calls s t = PushPublish d p \<longrightarrow> sys_pushed s p = Some d \<and> cell_desc s p = d) \<and>
     (\<forall>p<enq s. ticket s p = p + 1 \<longrightarrow> sys_pushed s p = Some (cell_desc s p))"

definition popped_inv :: "queue_system \<Rightarrow> bool" where
  "popped_inv s \<longleftrightarrow>
     distinct (map fst (sys_popped s)) \<and>
     (\<forall>(p, who, d)\<in>set (sys_popped s). p < deq s \<and> sys_pushed s p = Some d \<and>
        (\<forall>t. cons_pos (sys_calls s t) \<noteq> Some p) \<and> (\<forall>w. who = Some w \<longrightarrow> td_worker_index d = w)) \<and>
     (\<forall>p<deq s. p \<in> fst ` set (sys_popped s) \<or> (\<exists>t. cons_pos (sys_calls s t) = Some p)) \<and>
     (\<forall>t. case sys_calls s t of
        PopCas (Some w) p \<Rightarrow> p = deq s \<longrightarrow> td_worker_index (cell_desc s p) = w
      | PopCopy (Some w) p \<Rightarrow> td_worker_index (cell_desc s p) = w
      | PopRelease who p d \<Rightarrow> sys_pushed s p = Some d \<and> (\<forall>w. who = Some w \<longrightarrow> td_worker_index d = w)
      | _ \<Rightarrow> True)"

definition queue_inv :: "queue_system \<Rightarrow> bool" where
  "queue_inv s \<longleftrightarrow> shape_inv s \<and> producers_inv s \<and> consumers_inv s \<and> tickets_inv s \<and> reads_inv s \<and>
     pushed_inv s \<and> popped_inv s"

lemma queue_inv_start: "is_pow2 capacity \<Longrightarrow> 2 \<le> capacity \<Longrightarrow> queue_inv (start_system capacity pids)"
  by (auto simp: queue_inv_def shape_inv_def producers_inv_def consumers_inv_def tickets_inv_def reads_inv_def
      pushed_inv_def popped_inv_def start_system_def RegisterWorkerPids_def InitInPlace_def ticket_def)

section \<open>Every step keeps the invariant\<close>

text \<open>What may be true of a process that owns no position.\<close>

definition read_ok :: "queue_system \<Rightarrow> call \<Rightarrow> bool" where
  "read_ok s c \<longleftrightarrow>
     (case c of
        PushSeq d p \<Rightarrow> p \<le> enq s
      | PushCas d p \<Rightarrow> p \<le> enq s \<and> (p = enq s \<longrightarrow> ticket s p = p)
      | PopSeq w p \<Rightarrow> p \<le> deq s
      | PopAffine w p \<Rightarrow> p \<le> deq s \<and> (p = deq s \<longrightarrow> p < enq s \<and> ticket s p = p + 1)
      | PopCas w p \<Rightarrow> p \<le> deq s \<and> (p = deq s \<longrightarrow> p < enq s \<and> ticket s p = p + 1 \<and>
          (\<forall>i. w = Some i \<longrightarrow> td_worker_index (cell_desc s p) = i))
      | _ \<Rightarrow> True)"

definition same_queue :: "queue_system \<Rightarrow> queue_system \<Rightarrow> bool" where
  "same_queue s s' \<longleftrightarrow>
     enq s' = enq s \<and> deq s' = deq s \<and> cap s' = cap s \<and> q_mask (sys_queue s') = q_mask (sys_queue s) \<and>
     q_sequence (sys_queue s') = q_sequence (sys_queue s) \<and> q_desc (sys_queue s') = q_desc (sys_queue s) \<and>
     sys_pushed s' = sys_pushed s \<and> sys_popped s' = sys_popped s"

lemma quiet_step:
  assumes inv: "queue_inv s" and same: "same_queue s s'" and calls: "sys_calls s' = (sys_calls s)(t := c')"
    and free: "prod_pos (sys_calls s t) = None" "cons_pos (sys_calls s t) = None" "prod_pos c' = None" "cons_pos c' = None"
    and ok: "read_ok s c'"
  shows "queue_inv s'"
proof -
  have q: "enq s' = enq s" "deq s' = deq s" "cap s' = cap s" "q_mask (sys_queue s') = q_mask (sys_queue s)"
    "sys_pushed s' = sys_pushed s" "sys_popped s' = sys_popped s"
    "ticket s' = ticket s" "cell_desc s' = cell_desc s"
    using same by (simp_all add: same_queue_def ticket_def cell_desc_def fun_eq_iff)
  have p: "prod_pos (sys_calls s' u) = prod_pos (sys_calls s u)" "cons_pos (sys_calls s' u) = cons_pos (sys_calls s u)" for u
    using free by (simp_all add: calls)
  have copy: "sys_calls s' u = PushCopy d x \<longleftrightarrow> sys_calls s u = PushCopy d x"
    "sys_calls s' u = PushPublish d x \<longleftrightarrow> sys_calls s u = PushPublish d x" for u d x
    using free by (auto simp: calls)
  have "reads_inv s'"
    using inv ok unfolding queue_inv_def reads_inv_def
    by (auto simp: calls q read_ok_def split: call.splits)
  moreover have "popped_inv s'"
  proof -
    have 1: "case sys_calls s' u of
        PopCas (Some w) p \<Rightarrow> p = deq s \<longrightarrow> td_worker_index (cell_desc s p) = w
      | PopCopy (Some w) p \<Rightarrow> td_worker_index (cell_desc s p) = w
      | PopRelease who p d \<Rightarrow> sys_pushed s p = Some d \<and> (\<forall>w. who = Some w \<longrightarrow> td_worker_index d = w)
      | _ \<Rightarrow> True" for u
    proof (cases "u = t")
      case True
      then show ?thesis using ok free by (auto simp: calls read_ok_def split: call.splits option.splits)
    next
      case False
      then show ?thesis using inv by (simp add: calls queue_inv_def popped_inv_def)
    qed
    then show ?thesis using inv unfolding queue_inv_def popped_inv_def q p by blast
  qed
  moreover have "shape_inv s' = shape_inv s" "producers_inv s' = producers_inv s" "consumers_inv s' = consumers_inv s"
    "tickets_inv s' = tickets_inv s" "pushed_inv s' = pushed_inv s"
    by (simp_all only: shape_inv_def producers_inv_def consumers_inv_def tickets_inv_def pushed_inv_def q p copy)
  ultimately show ?thesis using inv by (simp add: queue_inv_def)
qed

lemma mask_mod: "shape_inv s \<Longrightarrow> p AND q_mask (sys_queue s) = p mod cap s"
  by (simp only: shape_inv_def nat_and_pow2_mask)

lemma same_cell: "p mod n = q mod n \<Longrightarrow> p < q \<Longrightarrow> p + n \<le> q" for p q n :: nat
  by (metis add_diff_cancel_left' add_leD1 dvd_imp_le less_imp_le_nat mod_eq_dvd_iff_nat nat_add_left_cancel_le le_add_diff_inverse zero_less_diff)

text \<open>The parts of the invariant, for a process and a position.\<close>

lemma queue_invD:
  assumes "queue_inv s"
  shows "shape_inv s" "producers_inv s" "consumers_inv s" "tickets_inv s" "reads_inv s" "pushed_inv s" "popped_inv s"
  using assms by (simp_all add: queue_inv_def)

lemma readsD: "reads_inv s \<Longrightarrow> popped_inv s \<Longrightarrow> read_ok s (sys_calls s t)"
  unfolding reads_inv_def popped_inv_def
  by (drule spec [of _ t], elim conjE, drule spec [of _ t]) (auto simp: read_ok_def split: call.splits option.splits)

definition own_ok :: "queue_system \<Rightarrow> call \<Rightarrow> bool" where
  "own_ok s c \<longleftrightarrow>
     (case c of
        PopCopy (Some w) p \<Rightarrow> td_worker_index (cell_desc s p) = w
      | PopRelease who p d \<Rightarrow> sys_pushed s p = Some d \<and> (\<forall>w. who = Some w \<longrightarrow> td_worker_index d = w)
      | _ \<Rightarrow> True)"

lemma calls_inv_iff:
  "reads_inv s \<and> popped_inv s \<longleftrightarrow> (\<forall>t. read_ok s (sys_calls s t) \<and> own_ok s (sys_calls s t)) \<and>
     distinct (map fst (sys_popped s)) \<and>
     (\<forall>(p, who, d)\<in>set (sys_popped s). p < deq s \<and> sys_pushed s p = Some d \<and>
        (\<forall>t. cons_pos (sys_calls s t) \<noteq> Some p) \<and> (\<forall>w. who = Some w \<longrightarrow> td_worker_index d = w)) \<and>
     (\<forall>p<deq s. p \<in> fst ` set (sys_popped s) \<or> (\<exists>t. cons_pos (sys_calls s t) = Some p))"
proof -
  have "(case sys_calls s t of
        PushSeq d p \<Rightarrow> p \<le> enq s
      | PushCas d p \<Rightarrow> p \<le> enq s \<and> (p = enq s \<longrightarrow> ticket s p = p)
      | PopSeq w p \<Rightarrow> p \<le> deq s
      | PopAffine w p \<Rightarrow> p \<le> deq s \<and> (p = deq s \<longrightarrow> p < enq s \<and> ticket s p = p + 1)
      | PopCas w p \<Rightarrow> p \<le> deq s \<and> (p = deq s \<longrightarrow> p < enq s \<and> ticket s p = p + 1)
      | _ \<Rightarrow> True) \<and>
    (case sys_calls s t of
        PopCas (Some w) p \<Rightarrow> p = deq s \<longrightarrow> td_worker_index (cell_desc s p) = w
      | PopCopy (Some w) p \<Rightarrow> td_worker_index (cell_desc s p) = w
      | PopRelease who p d \<Rightarrow> sys_pushed s p = Some d \<and> (\<forall>w. who = Some w \<longrightarrow> td_worker_index d = w)
      | _ \<Rightarrow> True) \<longleftrightarrow> read_ok s (sys_calls s t) \<and> own_ok s (sys_calls s t)" for t
    by (auto simp: read_ok_def own_ok_def split: call.splits option.splits)
  then show ?thesis unfolding reads_inv_def popped_inv_def by blast
qed

lemma callsD: "queue_inv s \<Longrightarrow> read_ok s (sys_calls s u) \<and> own_ok s (sys_calls s u)"
  using calls_inv_iff by (metis queue_inv_def)

lemma prodD:
  "queue_inv s \<Longrightarrow> prod_pos (sys_calls s u) = Some x \<Longrightarrow> deq s \<le> x \<and> x < enq s \<and> ticket s x = x"
  "queue_inv s \<Longrightarrow> prod_pos (sys_calls s u) = Some x \<Longrightarrow> prod_pos (sys_calls s t) = Some x \<Longrightarrow> u = t"
  by (auto simp: queue_inv_def producers_inv_def)

lemma consD:
  "queue_inv s \<Longrightarrow> cons_pos (sys_calls s u) = Some x \<Longrightarrow> x < deq s \<and> ticket s x = x + 1"
  "queue_inv s \<Longrightarrow> cons_pos (sys_calls s u) = Some x \<Longrightarrow> cons_pos (sys_calls s t) = Some x \<Longrightarrow> u = t"
  by (auto simp: queue_inv_def consumers_inv_def)

lemma poppedD:
  assumes "queue_inv s"
  shows "distinct (map fst (sys_popped s))"
    and "\<And>p who d. (p, who, d) \<in> set (sys_popped s) \<Longrightarrow> p < deq s \<and> sys_pushed s p = Some d \<and>
      (\<forall>t. cons_pos (sys_calls s t) \<noteq> Some p) \<and> (\<forall>w. who = Some w \<longrightarrow> td_worker_index d = w)"
    and "\<And>p. p < deq s \<Longrightarrow> p \<in> fst ` set (sys_popped s) \<or> (\<exists>t. cons_pos (sys_calls s t) = Some p)"
  using assms unfolding queue_inv_def popped_inv_def by blast+

text \<open>How the two parts on the calls are shown for the state after a step.\<close>

lemma calls_invI:
  assumes "\<And>u. read_ok s (sys_calls s u)" "\<And>u. own_ok s (sys_calls s u)" "distinct (map fst (sys_popped s))"
    and "\<And>p who d. (p, who, d) \<in> set (sys_popped s) \<Longrightarrow> p < deq s \<and> sys_pushed s p = Some d \<and>
      (\<forall>t. cons_pos (sys_calls s t) \<noteq> Some p) \<and> (\<forall>w. who = Some w \<longrightarrow> td_worker_index d = w)"
    and "\<And>p. p < deq s \<Longrightarrow> p \<in> fst ` set (sys_popped s) \<or> (\<exists>t. cons_pos (sys_calls s t) = Some p)"
  shows "reads_inv s \<and> popped_inv s"
  unfolding calls_inv_iff using assms by blast

lemma ex_upd2: "(\<exists>u e. (f(t := c)) u = g e) \<longleftrightarrow> (\<exists>e. c = g e) \<or> (\<exists>u e. u \<noteq> t \<and> f u = g e)"
  by auto

lemma claim_push_step:
  assumes inv: "queue_inv s" and c: "sys_calls s t = PushCas d (enq s)"
    and s': "s' = s\<lparr>sys_queue := (sys_queue s)\<lparr>q_enqueue_pos := enq s + 1\<rparr>, sys_calls := (sys_calls s)(t := PushCopy d (enq s))\<rparr>"
  shows "queue_inv s'"
proof -
  note I = queue_invD [OF inv]
  have q: "enq s' = enq s + 1" "deq s' = deq s" "cap s' = cap s" "q_mask (sys_queue s') = q_mask (sys_queue s)"
    "sys_pushed s' = sys_pushed s" "sys_popped s' = sys_popped s" "ticket s' = ticket s" "cell_desc s' = cell_desc s"
    "sys_calls s' = (sys_calls s)(t := PushCopy d (enq s))"
    by (simp_all add: s' ticket_def cell_desc_def fun_eq_iff)
  have tk: "ticket s (enq s) = enq s" using readsD [OF I(5,7), of t] by (simp add: c read_ok_def)
  have own: "prod_pos (sys_calls s' u) = (if u = t then Some (enq s) else prod_pos (sys_calls s u))"
    "cons_pos (sys_calls s' u) = cons_pos (sys_calls s u)" for u by (simp_all add: q c)
  have t0: "prod_pos (sys_calls s t) = None" by (simp add: c)
  have "producers_inv s'"
    using I(1,2) tk unfolding producers_inv_def shape_inv_def q(1-8) own by (auto split: if_splits dest: less_imp_not_less intro: less_SucI)
  moreover have "consumers_inv s' = consumers_inv s" by (simp only: consumers_inv_def q(1-8) own)
  moreover have "tickets_inv s'"
  proof -
    have "\<exists>u. prod_pos (sys_calls s' u) = Some p" if "\<exists>u. prod_pos (sys_calls s u) = Some p" for p
      using that t0 unfolding own by (metis option.distinct(1))
    moreover have "\<exists>u. prod_pos (sys_calls s' u) = Some (enq s)" unfolding own by (rule exI [of _ t]) simp
    ultimately show ?thesis using I(4) tk unfolding tickets_inv_def q(1-8) own(2) less_Suc_eq add_0_right add_Suc_right
      by (metis Suc_eq_plus1 Suc_leD less_Suc_eq)
  qed
  moreover have "pushed_inv s'"
  proof -
    have copying: "(\<exists>u e. sys_calls s' u = PushCopy e x) \<longleftrightarrow> x = enq s \<or> (\<exists>u e. sys_calls s u = PushCopy e x)" for x
    proof -
      have "u \<noteq> t" if "sys_calls s u = PushCopy e x" for u e using that c by auto
      then show ?thesis unfolding q ex_upd2 by blast
    qed
    have pub: "sys_calls s' u = PushPublish e x \<longleftrightarrow> sys_calls s u = PushPublish e x" for u e x by (auto simp: q c)
    show ?thesis using I(6) tk unfolding pushed_inv_def copying pub q(1-8) by (auto simp: less_Suc_eq)
  qed
  moreover have "reads_inv s' \<and> popped_inv s'"
  proof -
    have ok: "read_ok s' (sys_calls s' u) \<and> own_ok s' (sys_calls s' u)" for u
      using callsD [OF inv, of u] I(1)
      by (auto simp: q read_ok_def own_ok_def shape_inv_def split: call.splits option.splits)
    show ?thesis
      by (rule calls_invI) (use ok poppedD [OF inv] in \<open>simp_all add: own q(1-8)\<close>)
  qed
  moreover have "shape_inv s'" using I(1) by (simp add: shape_inv_def q)
  ultimately show ?thesis using I(3) by (simp add: queue_inv_def)
qed

lemma ticket_cong: "x mod cap s = p mod cap s \<Longrightarrow> ticket s x = ticket s p"
  by (simp add: ticket_def)

lemma mod_Suc_neq: "2 \<le> n \<Longrightarrow> Suc x mod n \<noteq> x mod n"
  by (metis Suc_n_not_le_n eq_imp_le mod_Suc nat_less_le not_numeral_le_zero numeral_2_eq_2 zero_less_Suc)

lemma cell_apart: "ticket s p = p \<Longrightarrow> ticket s x = x + 1 \<Longrightarrow> 2 \<le> cap s \<Longrightarrow> x mod cap s \<noteq> p mod cap s"
  using ticket_cong [of x s p] mod_Suc_neq [of "cap s" x] by auto

lemma copy_desc_step:
  assumes inv: "queue_inv s" and c: "sys_calls s t = PushCopy d p"
    and s': "s' = s\<lparr>sys_queue := (sys_queue s)\<lparr>q_desc := (q_desc (sys_queue s))(p mod cap s := d)\<rparr>,
      sys_calls := (sys_calls s)(t := PushPublish d p), sys_pushed := (sys_pushed s)(p \<mapsto> d)\<rparr>"
  shows "queue_inv s'"
proof -
  note I = queue_invD [OF inv]
  have q: "enq s' = enq s" "deq s' = deq s" "cap s' = cap s" "q_mask (sys_queue s') = q_mask (sys_queue s)"
    "sys_popped s' = sys_popped s" "ticket s' = ticket s" "sys_pushed s' = (sys_pushed s)(p \<mapsto> d)"
    "sys_calls s' = (sys_calls s)(t := PushPublish d p)"
    by (simp_all add: s' ticket_def fun_eq_iff)
  have cd: "cell_desc s' x = (if x mod cap s = p mod cap s then d else cell_desc s x)" for x
    by (simp add: s' cell_desc_def)
  have N: "2 \<le> cap s" using I(1) by (simp add: shape_inv_def)
  have p: "deq s \<le> p" "p < enq s" "ticket s p = p" "\<And>u. prod_pos (sys_calls s u) = Some p \<Longrightarrow> u = t"
    using prodD(1) [OF inv, of t p] prodD(2) [OF inv, of _ p t] c by simp_all
  have own: "prod_pos (sys_calls s' u) = prod_pos (sys_calls s u)" "cons_pos (sys_calls s' u) = cons_pos (sys_calls s u)" for u
    by (simp_all add: q c)
  have apart: "x mod cap s \<noteq> p mod cap s" if "ticket s x = x + 1" for x
    using cell_apart [OF p(3) that N] .
  have "shape_inv s' = shape_inv s" "producers_inv s' = producers_inv s" "consumers_inv s' = consumers_inv s"
    "tickets_inv s' = tickets_inv s"
    by (simp_all only: shape_inv_def producers_inv_def consumers_inv_def tickets_inv_def q(1-6) own)
  moreover have "pushed_inv s'"
    unfolding pushed_inv_def
  proof (intro conjI allI impI)
    fix x
    have "(\<exists>u e. sys_calls s' u = PushCopy e x) \<longleftrightarrow> x \<noteq> p \<and> (\<exists>u e. sys_calls s u = PushCopy e x)"
    proof (cases "x = p")
      case True
      then show ?thesis using p(4) unfolding q ex_upd2 by fastforce
    next
      case False
      have "u \<noteq> t" if "sys_calls s u = PushCopy e x" for u e using that c False by auto
      then show ?thesis using False unfolding q ex_upd2 by blast
    qed
    then show "sys_pushed s' x = None \<longleftrightarrow> enq s' \<le> x \<or> (\<exists>u e. sys_calls s' u = PushCopy e x)"
      using I(6) p(2) by (auto simp: pushed_inv_def q(1,7))
    show "sys_pushed s' x = Some (cell_desc s' x)" if "x < enq s'" "ticket s' x = x + 1"
      using I(6) that apart [of x] p(3) by (auto simp: pushed_inv_def q cd)
  next
    fix u e x assume u: "sys_calls s' u = PushPublish e x"
    have "sys_pushed s' x = Some e \<and> cell_desc s' x = e"
    proof (cases "u = t")
      case True
      then show ?thesis using u by (simp add: q cd)
    next
      case False
      then have uc: "sys_calls s u = PushPublish e x" using u by (simp add: q)
      then have "ticket s x = x" using prodD(1) [OF inv, of u x] by simp
      moreover have "x \<noteq> p" using p(4) [of u] False uc by auto
      ultimately have "x mod cap s \<noteq> p mod cap s" using ticket_cong [of x s p] p(3) by auto
      then show ?thesis using I(6) uc \<open>x \<noteq> p\<close> by (simp add: pushed_inv_def q cd)
    qed
    then show "sys_pushed s' x = Some e" "cell_desc s' x = e" by auto
  qed
  moreover have "reads_inv s' \<and> popped_inv s'"
  proof -
    have ok: "read_ok s' (sys_calls s' u) \<and> own_ok s' (sys_calls s' u)" for u
    proof (cases "u = t")
      case True
      then show ?thesis by (simp add: q read_ok_def own_ok_def)
    next
      case False
      then show ?thesis
        using callsD [OF inv, of u] consD(1) [OF inv, of u] apart p(1)
        by (auto simp: q(1-7) q(8) cd read_ok_def own_ok_def split: call.splits option.splits)
    qed
    have "sys_pushed s' x = sys_pushed s x" if "x < deq s" for x using that p(1) by (simp add: q)
    then show ?thesis
      by (intro calls_invI) (use ok poppedD [OF inv] in \<open>simp_all add: own q(1-6)\<close>)
  qed
  ultimately show ?thesis using I by (simp add: queue_inv_def)
qed

lemma publish_step:
  assumes inv: "queue_inv s" and c: "sys_calls s t = PushPublish d p"
    and s': "s' = s\<lparr>sys_queue := (sys_queue s)\<lparr>q_sequence := (q_sequence (sys_queue s))(p mod cap s := p + 1)\<rparr>,
      sys_calls := (sys_calls s)(t := PushWake)\<rparr>"
  shows "queue_inv s'"
proof -
  note I = queue_invD [OF inv]
  have q: "enq s' = enq s" "deq s' = deq s" "cap s' = cap s" "q_mask (sys_queue s') = q_mask (sys_queue s)"
    "sys_popped s' = sys_popped s" "sys_pushed s' = sys_pushed s" "cell_desc s' = cell_desc s"
    "sys_calls s' = (sys_calls s)(t := PushWake)"
    by (simp_all add: s' cell_desc_def fun_eq_iff)
  have tk: "ticket s' x = (if x mod cap s = p mod cap s then p + 1 else ticket s x)" for x
    by (simp add: s' ticket_def)
  have N: "2 \<le> cap s" using I(1) by (simp add: shape_inv_def)
  have p: "deq s \<le> p" "p < enq s" "ticket s p = p" "\<And>u. prod_pos (sys_calls s u) = Some p \<Longrightarrow> u = t"
    using prodD(1) [OF inv, of t p] prodD(2) [OF inv, of _ p t] c by simp_all
  have same: "ticket s x = p" if "x mod cap s = p mod cap s" for x using ticket_cong [OF that] p(3) by simp
  have apart: "x mod cap s \<noteq> p mod cap s" if "ticket s x = x + 1" for x using cell_apart [OF p(3) that N] .
  have prod: "prod_pos (sys_calls s' u) = Some x \<longleftrightarrow> u \<noteq> t \<and> prod_pos (sys_calls s u) = Some x" for u x by (simp add: q)
  have cons: "cons_pos (sys_calls s' u) = cons_pos (sys_calls s u)" for u by (simp add: q c)
  have "shape_inv s'" using I(1) by (simp add: shape_inv_def q)
  moreover have "producers_inv s'"
    unfolding producers_inv_def prod
  proof (intro conjI allI impI; elim conjE)
    fix u x assume u: "u \<noteq> t" "prod_pos (sys_calls s u) = Some x"
    have "x \<noteq> p" using p(4) u by auto
    then show "deq s' \<le> x" "x < enq s'" "ticket s' x = x"
      using prodD(1) [OF inv u(2)] same [of x] by (auto simp: q tk)
  next
    fix u v x assume "prod_pos (sys_calls s u) = Some x" "prod_pos (sys_calls s v) = Some x"
    then show "u = v" by (rule prodD(2) [OF inv])
  qed
  moreover have "consumers_inv s'"
    using consD [OF inv] apart unfolding consumers_inv_def cons q(1-4) by (auto simp: tk)
  moreover have "tickets_inv s'"
    unfolding tickets_inv_def
  proof (intro conjI allI impI)
    fix x assume x: "deq s' \<le> x" "x < enq s'"
    have old: "ticket s x = x + 1 \<or> ticket s x = x \<and> (\<exists>u. prod_pos (sys_calls s u) = Some x)"
      using I(4) x by (simp add: tickets_inv_def q)
    show "ticket s' x = x + 1 \<or> ticket s' x = x \<and> (\<exists>u. prod_pos (sys_calls s' u) = Some x)"
    proof (cases "x mod cap s = p mod cap s")
      case True
      then show ?thesis using old same [OF True] apart [of x] by (auto simp: tk)
    next
      case False
      then have "u \<noteq> t" if "prod_pos (sys_calls s u) = Some x" for u using that c by auto
      then show ?thesis using old False unfolding prod tk by auto
    qed
  next
    fix x assume "x < deq s'"
    then show "x + 1 \<le> ticket s' x" using I(4) same [of x] by (fastforce simp: tickets_inv_def q tk)
  next
    fix x assume x: "enq s' \<le> x" "x < deq s' + cap s'"
    have "x mod cap s \<noteq> p mod cap s" using same_cell [of p "cap s" x] x p(1,2) by (auto simp: q)
    then show "ticket s' x = x \<or> cap s' \<le> x \<and> (\<exists>u. cons_pos (sys_calls s' u) = Some (x - cap s'))"
      using I(4) x unfolding tickets_inv_def cons q(1-4) tk by auto
  qed
  moreover have "pushed_inv s'"
  proof -
    have calls: "sys_calls s' u = PushCopy e x \<longleftrightarrow> sys_calls s u = PushCopy e x"
      "sys_calls s' u = PushPublish e x \<Longrightarrow> sys_calls s u = PushPublish e x" for u e x by (auto simp: q c split: if_splits)
    have "sys_pushed s x = Some (cell_desc s x)" if "x < enq s" "ticket s' x = x + 1" for x
    proof (cases "x mod cap s = p mod cap s")
      case True
      then have "x = p" using that by (simp add: tk)
      then show ?thesis using I(6) c by (simp add: pushed_inv_def)
    next
      case False
      then show ?thesis using I(6) that by (simp add: pushed_inv_def tk)
    qed
    then show ?thesis using I(6) calls(2) unfolding pushed_inv_def calls(1) q(1-7) by blast
  qed
  moreover have "reads_inv s' \<and> popped_inv s'"
  proof -
    have ok: "read_ok s' (sys_calls s' u) \<and> own_ok s' (sys_calls s' u)" for u
    proof (cases "u = t")
      case True
      then show ?thesis by (simp add: q read_ok_def own_ok_def)
    next
      case False
      then show ?thesis
        using callsD [OF inv, of u] apart same p(2)
        by (auto simp: q tk read_ok_def own_ok_def split: call.splits option.splits)
    qed
    show ?thesis by (rule calls_invI) (use ok poppedD [OF inv] in \<open>simp_all add: cons q(1-7)\<close>)
  qed
  ultimately show ?thesis by (simp add: queue_inv_def)
qed

lemma claim_pop_step:
  assumes inv: "queue_inv s" and c: "sys_calls s t = PopCas who (deq s)"
    and s': "s' = s\<lparr>sys_queue := (sys_queue s)\<lparr>q_dequeue_pos := deq s + 1\<rparr>, sys_calls := (sys_calls s)(t := PopCopy who (deq s))\<rparr>"
  shows "queue_inv s'"
proof -
  note I = queue_invD [OF inv]
  have q: "enq s' = enq s" "deq s' = deq s + 1" "cap s' = cap s" "q_mask (sys_queue s') = q_mask (sys_queue s)"
    "sys_pushed s' = sys_pushed s" "sys_popped s' = sys_popped s" "ticket s' = ticket s" "cell_desc s' = cell_desc s"
    "sys_calls s' = (sys_calls s)(t := PopCopy who (deq s))"
    by (simp_all add: s' ticket_def cell_desc_def fun_eq_iff)
  have N: "2 \<le> cap s" using I(1) by (simp add: shape_inv_def)
  have tk: "deq s < enq s" "ticket s (deq s) = deq s + 1" "\<forall>w. who = Some w \<longrightarrow> td_worker_index (cell_desc s (deq s)) = w"
    using callsD [OF inv, of t] by (simp_all add: c read_ok_def)
  have prod: "prod_pos (sys_calls s' u) = prod_pos (sys_calls s u)" for u by (simp add: q c)
  have cons: "cons_pos (sys_calls s' u) = (if u = t then Some (deq s) else cons_pos (sys_calls s u))" for u by (simp add: q)
  have t0: "cons_pos (sys_calls s t) = None" by (simp add: c)
  have more: "\<exists>u. cons_pos (sys_calls s' u) = Some x" if "\<exists>u. cons_pos (sys_calls s u) = Some x" for x
    using that t0 unfolding cons by (metis option.distinct(1))
  have own: "\<exists>u. cons_pos (sys_calls s' u) = Some (deq s)" unfolding cons by (rule exI [of _ t]) simp
  have "shape_inv s'" using I(1) tk(1) by (simp add: shape_inv_def q)
  moreover have "producers_inv s'"
    unfolding producers_inv_def prod q(1-8)
  proof (intro conjI allI impI)
    fix u x assume u: "prod_pos (sys_calls s u) = Some x"
    have "x \<noteq> deq s" using prodD(1) [OF inv u] tk(2) by auto
    then show "deq s + 1 \<le> x" "x < enq s" "ticket s x = x" using prodD(1) [OF inv u] by auto
  qed (use prodD(2) [OF inv] in blast)
  moreover have "consumers_inv s'"
  proof -
    have "x < deq s" if "cons_pos (sys_calls s u) = Some x" for u x using consD(1) [OF inv that] by simp
    then show ?thesis
      using consD [OF inv] tk(2) unfolding consumers_inv_def cons q(1-8) by (auto split: if_splits intro: less_SucI)
  qed
  moreover have "tickets_inv s'"
    unfolding tickets_inv_def prod
  proof (intro conjI allI impI)
    fix x assume x: "deq s' \<le> x" "x < enq s'"
    then show "ticket s' x = x + 1 \<or> ticket s' x = x \<and> (\<exists>u. prod_pos (sys_calls s u) = Some x)"
      using I(4) by (simp add: tickets_inv_def q)
  next
    fix x assume "x < deq s'"
    then show "x + 1 \<le> ticket s' x" using I(4) tk(2) by (cases "x = deq s") (auto simp: tickets_inv_def q)
  next
    fix x assume x: "enq s' \<le> x" "x < deq s' + cap s'"
    show "ticket s' x = x \<or> cap s' \<le> x \<and> (\<exists>u. cons_pos (sys_calls s' u) = Some (x - cap s'))"
    proof (cases "x = deq s + cap s")
      case True
      then show ?thesis using own by (simp add: q(3))
    next
      case False
      then have "ticket s x = x \<or> cap s \<le> x \<and> (\<exists>u. cons_pos (sys_calls s u) = Some (x - cap s))"
        using I(4) x by (simp add: tickets_inv_def q)
      then show ?thesis using more [of "x - cap s"] unfolding q(3,7) by blast
    qed
  qed
  moreover have "pushed_inv s'"
  proof -
    have calls: "sys_calls s' u = PushCopy e x \<longleftrightarrow> sys_calls s u = PushCopy e x"
      "sys_calls s' u = PushPublish e x \<longleftrightarrow> sys_calls s u = PushPublish e x" for u e x by (auto simp: q c)
    show ?thesis using I(6) unfolding pushed_inv_def calls q(1-8) .
  qed
  moreover have "reads_inv s' \<and> popped_inv s'"
  proof (rule calls_invI)
    fix u
    have ok: "read_ok s' (sys_calls s' u) \<and> own_ok s' (sys_calls s' u)"
    proof (cases "u = t")
      case True
      then show ?thesis using tk(3) by (auto simp: q read_ok_def own_ok_def split: option.splits)
    next
      case False
      then show ?thesis
        using callsD [OF inv, of u] by (auto simp: q read_ok_def own_ok_def split: call.splits option.splits)
    qed
    then show "read_ok s' (sys_calls s' u)" "own_ok s' (sys_calls s' u)" by auto
  next
    show "distinct (map fst (sys_popped s'))" using poppedD(1) [OF inv] by (simp add: q)
  next
    fix x w d assume "(x, w, d) \<in> set (sys_popped s')"
    then have old: "x < deq s \<and> sys_pushed s x = Some d \<and> (\<forall>u. cons_pos (sys_calls s u) \<noteq> Some x) \<and> (\<forall>i. w = Some i \<longrightarrow> td_worker_index d = i)"
      using poppedD(2) [OF inv] by (simp add: q)
    then show "x < deq s' \<and> sys_pushed s' x = Some d \<and> (\<forall>u. cons_pos (sys_calls s' u) \<noteq> Some x) \<and> (\<forall>i. w = Some i \<longrightarrow> td_worker_index d = i)"
      unfolding cons q(2,5) by auto
  next
    fix x assume "x < deq s'"
    then show "x \<in> fst ` set (sys_popped s') \<or> (\<exists>u. cons_pos (sys_calls s' u) = Some x)"
      using poppedD(3) [OF inv, of x] more [of x] own unfolding q(2,6) by (cases "x = deq s") auto
  qed
  ultimately show ?thesis by (simp add: queue_inv_def)
qed

lemma copy_out_step:
  assumes inv: "queue_inv s" and c: "sys_calls s t = PopCopy who p"
    and s': "s' = s\<lparr>sys_calls := (sys_calls s)(t := PopRelease who p (cell_desc s p))\<rparr>"
  shows "queue_inv s'"
proof -
  note I = queue_invD [OF inv]
  have q: "sys_queue s' = sys_queue s" "sys_pushed s' = sys_pushed s" "sys_popped s' = sys_popped s"
    "ticket s' = ticket s" "cell_desc s' = cell_desc s"
    "sys_calls s' = (sys_calls s)(t := PopRelease who p (cell_desc s p))"
    by (simp_all add: s' ticket_def cell_desc_def fun_eq_iff)
  have p: "p < deq s" "ticket s p = p + 1" using consD(1) [OF inv, of t p] c by simp_all
  have own: "prod_pos (sys_calls s' u) = prod_pos (sys_calls s u)" "cons_pos (sys_calls s' u) = cons_pos (sys_calls s u)" for u
    by (simp_all add: q c)
  have calls: "sys_calls s' u = PushCopy e x \<longleftrightarrow> sys_calls s u = PushCopy e x"
    "sys_calls s' u = PushPublish e x \<longleftrightarrow> sys_calls s u = PushPublish e x" for u e x by (auto simp: q c)
  have "p < enq s" using p(1) I(1) by (simp add: shape_inv_def)
  then have pushed: "sys_pushed s p = Some (cell_desc s p)" using I(6) p(2) by (simp add: pushed_inv_def)
  have "shape_inv s' = shape_inv s" "producers_inv s' = producers_inv s" "consumers_inv s' = consumers_inv s"
    "tickets_inv s' = tickets_inv s" "pushed_inv s' = pushed_inv s"
    by (simp_all only: shape_inv_def producers_inv_def consumers_inv_def tickets_inv_def pushed_inv_def q(1-5) own calls)
  moreover have "reads_inv s' \<and> popped_inv s'"
  proof -
    have ok: "read_ok s' (sys_calls s' u) \<and> own_ok s' (sys_calls s' u)" for u
    proof (cases "u = t")
      case True
      then show ?thesis
        using callsD [OF inv, of t] pushed c by (auto simp: q read_ok_def own_ok_def split: option.splits)
    next
      case False
      then show ?thesis
        using callsD [OF inv, of u] by (auto simp: q read_ok_def own_ok_def split: call.splits option.splits)
    qed
    show ?thesis by (rule calls_invI) (use ok poppedD [OF inv] in \<open>simp_all add: own q(1-5)\<close>)
  qed
  ultimately show ?thesis using I by (simp add: queue_inv_def)
qed

lemma release_step:
  assumes inv: "queue_inv s" and c: "sys_calls s t = PopRelease who p out"
    and c': "prod_pos c' = None" "cons_pos c' = None" "\<And>s. read_ok s c' \<and> own_ok s c'"
    and s': "s' = s\<lparr>sys_queue := (sys_queue s)\<lparr>q_sequence := (q_sequence (sys_queue s))(p mod cap s := p + cap s)\<rparr>,
      sys_calls := (sys_calls s)(t := c'), sys_popped := sys_popped s @ [(p, who, out)]\<rparr>"
  shows "queue_inv s'"
proof -
  note I = queue_invD [OF inv]
  have q: "enq s' = enq s" "deq s' = deq s" "cap s' = cap s" "q_mask (sys_queue s') = q_mask (sys_queue s)"
    "sys_popped s' = sys_popped s @ [(p, who, out)]" "sys_pushed s' = sys_pushed s" "cell_desc s' = cell_desc s"
    "sys_calls s' = (sys_calls s)(t := c')"
    by (simp_all add: s' cell_desc_def fun_eq_iff)
  have tk: "ticket s' x = (if x mod cap s = p mod cap s then p + cap s else ticket s x)" for x
    by (simp add: s' ticket_def)
  have N: "2 \<le> cap s" using I(1) by (simp add: shape_inv_def)
  have p: "p < deq s" "ticket s p = p + 1" "\<And>u. cons_pos (sys_calls s u) = Some p \<Longrightarrow> u = t"
    using consD(1) [OF inv, of t p] consD(2) [OF inv, of _ p t] c by simp_all
  have out: "sys_pushed s p = Some out" "\<forall>w. who = Some w \<longrightarrow> td_worker_index out = w"
    using callsD [OF inv, of t] by (simp_all add: c own_ok_def)
  have same: "ticket s x = p + 1" if "x mod cap s = p mod cap s" for x using ticket_cong [OF that] p(2) by simp
  have apart: "x mod cap s \<noteq> p mod cap s" if "ticket s x = x" for x
    using cell_apart [OF that p(2) N] by simp
  have prod: "prod_pos (sys_calls s' u) = prod_pos (sys_calls s u)" for u using c' c by (simp add: q)
  have cons: "cons_pos (sys_calls s' u) = Some x \<longleftrightarrow> u \<noteq> t \<and> cons_pos (sys_calls s u) = Some x" for u x
    using c' by (simp add: q)
  have other: "u \<noteq> t \<longleftrightarrow> x \<noteq> p" if "cons_pos (sys_calls s u) = Some x" for u x using that c p(3) by auto
  have "shape_inv s'" using I(1) by (simp add: shape_inv_def q)
  moreover have "producers_inv s'"
    using prodD [OF inv] apart unfolding producers_inv_def prod q(1-4) by (auto simp: tk)
  moreover have "consumers_inv s'"
    unfolding consumers_inv_def cons
  proof (intro conjI allI impI; elim conjE)
    fix u x assume u: "u \<noteq> t" "cons_pos (sys_calls s u) = Some x"
    have "x \<noteq> p" using other [OF u(2)] u(1) by simp
    then show "x < deq s'" "ticket s' x = x + 1" using consD(1) [OF inv u(2)] same [of x] by (auto simp: q tk)
  next
    fix u v x assume "cons_pos (sys_calls s u) = Some x" "cons_pos (sys_calls s v) = Some x"
    then show "u = v" by (rule consD(2) [OF inv])
  qed
  moreover have "tickets_inv s'"
    unfolding tickets_inv_def prod
  proof (intro conjI allI impI)
    fix x assume x: "deq s' \<le> x" "x < enq s'"
    have old: "ticket s x = x + 1 \<or> ticket s x = x \<and> (\<exists>u. prod_pos (sys_calls s u) = Some x)"
      using I(4) x by (simp add: tickets_inv_def q)
    have "x mod cap s \<noteq> p mod cap s" using old same [of x] apart [of x] x(1) p(1) by (auto simp: q)
    then show "ticket s' x = x + 1 \<or> ticket s' x = x \<and> (\<exists>u. prod_pos (sys_calls s u) = Some x)"
      using old by (simp add: tk)
  next
    fix x assume "x < deq s'"
    then have "x + 1 \<le> ticket s x" using I(4) by (simp add: tickets_inv_def q)
    then show "x + 1 \<le> ticket s' x" using same [of x] N by (auto simp: tk)
  next
    fix x assume x: "enq s' \<le> x" "x < deq s' + cap s'"
    have old: "ticket s x = x \<or> cap s \<le> x \<and> (\<exists>u. cons_pos (sys_calls s u) = Some (x - cap s))"
      using I(4) x by (simp add: tickets_inv_def q)
    show "ticket s' x = x \<or> cap s' \<le> x \<and> (\<exists>u. cons_pos (sys_calls s' u) = Some (x - cap s'))"
    proof (cases "x mod cap s = p mod cap s")
      case True
      then obtain u where u: "cap s \<le> x" "cons_pos (sys_calls s u) = Some (x - cap s)" using old apart by blast
      have "ticket s (x - cap s) = x - cap s + 1" using consD(1) [OF inv u(2)] by simp
      moreover have "(x - cap s) mod cap s = p mod cap s" using True u(1) by (simp add: le_mod_geq)
      ultimately have "x = p + cap s" using same [of "x - cap s"] u(1) by simp
      then show ?thesis by (simp add: tk)
    next
      case False
      have "u \<noteq> t" if "cap s \<le> x" "cons_pos (sys_calls s u) = Some (x - cap s)" for u
        using other [OF that(2)] False that(1) by (metis le_mod_geq)
      then show ?thesis using old False unfolding cons q(3) by (auto simp: tk)
    qed
  qed
  moreover have "pushed_inv s'"
  proof -
    have calls: "sys_calls s' u = PushCopy e x \<longleftrightarrow> sys_calls s u = PushCopy e x"
      "sys_calls s' u = PushPublish e x \<longleftrightarrow> sys_calls s u = PushPublish e x" for u e x
      using c'(1) by (auto simp: q c)
    have "sys_pushed s x = Some (cell_desc s x)" if "x < enq s" "ticket s' x = x + 1" for x
    proof (cases "x mod cap s = p mod cap s")
      case True
      then have x: "x + 1 = p + cap s" using that by (simp add: tk)
      then have "(x + 1) mod cap s = x mod cap s" using True by simp
      then show ?thesis using mod_Suc_neq [OF N, of x] by simp
    next
      case False
      then show ?thesis using I(6) that by (simp add: pushed_inv_def tk)
    qed
    then show ?thesis using I(6) unfolding pushed_inv_def calls q(1-7) by blast
  qed
  moreover have "reads_inv s' \<and> popped_inv s'"
  proof (rule calls_invI)
    fix u
    have "read_ok s' (sys_calls s' u) \<and> own_ok s' (sys_calls s' u)"
    proof (cases "u = t")
      case True
      then show ?thesis using c'(3) by (simp add: q)
    next
      case False
      then show ?thesis
        using callsD [OF inv, of u] apart same p(1)
        by (auto simp: q tk read_ok_def own_ok_def split: call.splits option.splits)
    qed
    then show "read_ok s' (sys_calls s' u)" "own_ok s' (sys_calls s' u)" by auto
  next
    have "p \<notin> fst ` set (sys_popped s)"
    proof
      assume "p \<in> fst ` set (sys_popped s)"
      then obtain w d where "(p, w, d) \<in> set (sys_popped s)" by auto
      then have "cons_pos (sys_calls s t) \<noteq> Some p" using poppedD(2) [OF inv] by blast
      then show False using c by simp
    qed
    then show "distinct (map fst (sys_popped s'))" using poppedD(1) [OF inv] by (simp add: q)
  next
    fix x w d assume "(x, w, d) \<in> set (sys_popped s')"
    then consider "(x, w, d) \<in> set (sys_popped s)" | "x = p" "w = who" "d = out" by (auto simp: q)
    then show "x < deq s' \<and> sys_pushed s' x = Some d \<and> (\<forall>u. cons_pos (sys_calls s' u) \<noteq> Some x) \<and> (\<forall>i. w = Some i \<longrightarrow> td_worker_index d = i)"
    proof cases
      case 1
      then show ?thesis using poppedD(2) [OF inv 1] unfolding cons q(2,6) by blast
    next
      case 2
      then show ?thesis using p(1,3) out unfolding cons q(2,6) by auto
    qed
  next
    fix x assume "x < deq s'"
    then have "x \<in> fst ` set (sys_popped s) \<or> (\<exists>u. cons_pos (sys_calls s u) = Some x)"
      using poppedD(3) [OF inv] by (simp add: q)
    then show "x \<in> fst ` set (sys_popped s') \<or> (\<exists>u. cons_pos (sys_calls s' u) = Some x)"
      using other unfolding cons q(5) by (cases "x = p") auto
  qed
  ultimately show ?thesis by (simp add: queue_inv_def)
qed

section \<open>Reachable states\<close>

lemma seq_diff_cases:
  assumes "shape_inv s" "tk < 2 ^ 32"
  shows "seq_diff (sys_queue s) p tk = int (ticket s p) - int tk"
  using assms(2) mask_mod [OF assms(1), of p] by (simp add: seq_diff_def ticket_def)

text \<open>Positions stay under the 32-bit tickets as long as fewer than 2^32 - capacity tasks were pushed.\<close>

lemma run_step_inv:
  assumes inv: "queue_inv s" and bound: "enq s + cap s < 2 ^ 32"
  shows "queue_inv (run_step live t s)"
proof -
  note I = queue_invD [OF inv]
  have N: "2 \<le> cap s" "deq s \<le> enq s" using I(1) by (simp_all add: shape_inv_def)
  let ?s = "run_step live t s"
  define out where "out = (if is_push (sys_calls s t) then TryPush live (sys_queue s) (sys_calls s t)
    else TryPop live (sys_queue s) (sys_calls s t))"
  have quiet: "queue_inv ?s" if o: "out = (q, c')" and same: "same_queue s (s\<lparr>sys_queue := q\<rparr>)"
    and free: "prod_pos (sys_calls s t) = None" "cons_pos (sys_calls s t) = None" "prod_pos c' = None" "cons_pos c' = None"
    and ok: "read_ok s c'" for q c'
  proof -
    have "?s = s\<lparr>sys_queue := q, sys_calls := (sys_calls s)(t := c')\<rparr>"
      using o free(1,2) unfolding run_step_def Let_def out_def [symmetric] by (cases "sys_calls s t") auto
    then show ?thesis
      by (intro quiet_step [OF inv _ _ free(1,2), where c' = c'])
        (use same free ok in \<open>simp_all add: same_queue_def\<close>)
  qed
  note read = callsD [OF inv, of t, THEN conjunct1]
  have sd: "seq_diff (sys_queue s) p p = int (ticket s p) - int p" if "p \<le> enq s" for p
    using seq_diff_cases [OF I(1)] that bound by simp
  have sd1: "seq_diff (sys_queue s) p (wrap64 (p + 1)) = int (ticket s p) - int (p + 1)" if "p \<le> deq s" for p
    using seq_diff_cases [OF I(1), of "p + 1" p] that bound N by simp
  have deq_less: "p < enq s" if pp: "p = deq s" "ticket s p = p + 1" for p
  proof (rule ccontr)
    assume "\<not> p < enq s"
    then have "ticket s p = p \<or> cap s \<le> p \<and> (\<exists>u. cons_pos (sys_calls s u) = Some (p - cap s))"
      using I(4) N pp(1) by (auto simp: tickets_inv_def)
    then obtain u where u: "cap s \<le> p" "cons_pos (sys_calls s u) = Some (p - cap s)" using pp(2) by auto
    have "ticket s (p - cap s) = p - cap s + 1" using consD(1) [OF inv u(2)] by simp
    moreover have "ticket s (p - cap s) = ticket s p" using u(1) by (simp add: ticket_def le_mod_geq)
    ultimately show False using pp(2) u(1) N by simp
  qed
  show ?thesis
  proof (cases "sys_calls s t")
    case (PushSeq d p)
    then show ?thesis using read sd [of p]
      by (intro quiet) (auto simp: out_def is_push_def Let_def read_ok_def same_queue_def)
  next
    case (PushCas d p)
    show ?thesis
    proof (cases "enq s = p")
      case True
      then show ?thesis
        using PushCas bound by (intro claim_push_step [OF inv, of t d]) (simp_all add: run_step_def is_push_def)
    next
      case False
      then show ?thesis using PushCas by (intro quiet) (auto simp: out_def is_push_def read_ok_def same_queue_def)
    qed
  next
    case (PushCopy d p)
    then show ?thesis
      by (intro copy_desc_step [OF inv PushCopy]) (simp add: run_step_def is_push_def mask_mod [OF I(1)])
  next
    case (PushPublish d p)
    have "p < enq s" using prodD(1) [OF inv, of t p] PushPublish by simp
    then show ?thesis using bound
      by (intro publish_step [OF inv PushPublish]) (simp add: run_step_def is_push_def mask_mod [OF I(1)] PushPublish)
  next
    case (PopSeq w p)
    then show ?thesis using read sd1 [of p] deq_less [of p]
      by (intro quiet) (auto simp: out_def is_push_def Let_def read_ok_def same_queue_def split: option.splits)
  next
    case (PopAffine w p)
    then show ?thesis using read mask_mod [OF I(1), of p]
      by (intro quiet) (auto simp: out_def is_push_def read_ok_def same_queue_def cell_desc_def)
  next
    case (PopCas w p)
    show ?thesis
    proof (cases "deq s = p")
      case True
      then show ?thesis
        using PopCas bound N by (intro claim_pop_step [OF inv, of t w]) (simp_all add: run_step_def is_push_def)
    next
      case False
      then show ?thesis using PopCas by (intro quiet) (auto simp: out_def is_push_def read_ok_def same_queue_def)
    qed
  next
    case (PopCopy w p)
    then show ?thesis
      by (intro copy_out_step [OF inv PopCopy]) (simp add: run_step_def is_push_def mask_mod [OF I(1)] cell_desc_def)
  next
    case (PopRelease w p out)
    have "p < deq s" using consD(1) [OF inv, of t p] PopRelease by simp
    then show ?thesis using bound N
      by (intro release_step [OF inv PopRelease, where c' = "case w of None \<Rightarrow> PopRet (Some out) | Some w \<Rightarrow> PopWake out"])
        (auto simp: run_step_def is_push_def mask_mod [OF I(1)] PopRelease read_ok_def own_ok_def split: option.splits)
  next
    case Idle
    then show ?thesis
      by (intro quiet) (auto simp: out_def is_push_def read_ok_def same_queue_def WakeRegisteredWorkers_def)
  next
    case (PushLoad d)
    then show ?thesis
      by (intro quiet) (auto simp: out_def is_push_def read_ok_def same_queue_def WakeRegisteredWorkers_def)
  next
    case PushWake
    then show ?thesis
      by (intro quiet [where q = "WakeRegisteredWorkers live (sys_queue s)" and c' = "PushRet True"]) (auto simp: out_def is_push_def read_ok_def same_queue_def WakeRegisteredWorkers_def)
  next
    case (PushRet b)
    then show ?thesis
      by (intro quiet) (auto simp: out_def is_push_def read_ok_def same_queue_def WakeRegisteredWorkers_def)
  next
    case (PopLoad w)
    then show ?thesis
      by (intro quiet) (auto simp: out_def is_push_def read_ok_def same_queue_def WakeRegisteredWorkers_def)
  next
    case (PopWake d)
    then show ?thesis
      by (intro quiet [where q = "WakeRegisteredWorkers live (sys_queue s)" and c' = "PopRet (Some d)"]) (auto simp: out_def is_push_def read_ok_def same_queue_def WakeRegisteredWorkers_def)
  next
    case (PopRet r)
    then show ?thesis
      by (intro quiet) (auto simp: out_def is_push_def read_ok_def same_queue_def WakeRegisteredWorkers_def)
  qed
qed

lemma call_step_inv:
  assumes inv: "queue_inv s" and rest: "at_rest (sys_calls s t)" and c': "c' = PushLoad d \<or> c' = PopLoad w"
  shows "queue_inv (s\<lparr>sys_calls := (sys_calls s)(t := c')\<rparr>)"
  by (rule quiet_step [OF inv, where t = t and c' = c'])
    (use rest c' in \<open>auto simp: same_queue_def at_rest_def read_ok_def split: call.splits\<close>)

lemma cap_step: "queue_step s s' \<Longrightarrow> cap s' = cap s"
proof (induction rule: queue_step.induct)
  case (run s live p)
  have "q_capacity (fst (TryPush live q c)) = q_capacity q" "q_capacity (fst (TryPop live q c)) = q_capacity q" for q c
    by (cases c; simp add: Let_def WakeRegisteredWorkers_def)+
  then show ?case by (simp add: run_step_def Let_def split: prod.splits) (metis fst_conv)
qed (simp_all add: call_push_def call_pop_def)

lemma reachable_inv:
  assumes "is_pow2 capacity" "2 \<le> capacity"
  shows "reachable capacity s \<Longrightarrow> queue_inv s \<and> cap s = capacity"
proof (induction rule: reachable.induct)
  case (start pids)
  then show ?case
    using queue_inv_start [OF assms] by (simp add: start_system_def RegisterWorkerPids_def InitInPlace_def)
next
  case (step s s')
  then have inv: "queue_inv s" and c: "cap s = capacity" by auto
  have "queue_inv s'"
    using step.hyps(3)
  proof cases
    case (push p desc)
    then show ?thesis using call_step_inv [OF inv] by (simp add: call_push_def)
  next
    case (pop p who)
    then show ?thesis using call_step_inv [OF inv] by (simp add: call_pop_def)
  next
    case (run live p)
    then show ?thesis using run_step_inv [OF inv] step.hyps(2) c by simp
  qed
  then show ?case using cap_step [OF step.hyps(3)] c by simp
qed

section \<open>The queue as a bounded sequence\<close>

definition contents :: "queue_system \<Rightarrow> task_descriptor list" where
  "contents s = map (the \<circ> sys_pushed s) [deq s..<enq s]"

definition quiescent :: "queue_system \<Rightarrow> bool" where
  "quiescent s \<longleftrightarrow> (\<forall>t. at_rest (sys_calls s t))"

lemma queue_inv_bound: "queue_inv s \<Longrightarrow> enq s \<le> deq s + cap s"
proof (rule ccontr)
  assume inv: "queue_inv s" and "\<not> enq s \<le> deq s + cap s"
  note I = queue_invD [OF inv]
  have N: "2 \<le> cap s" using I(1) by (simp add: shape_inv_def)
  have "ticket s p = p \<or> ticket s p = p + 1" if "deq s \<le> p" "p < enq s" for p
    using I(4) that by (auto simp: tickets_inv_def)
  from this [of "deq s"] this [of "deq s + cap s"] have "ticket s (deq s) \<noteq> ticket s (deq s + cap s)"
    using N \<open>\<not> enq s \<le> deq s + cap s\<close> by auto
  then show False by (simp add: ticket_def)
qed

lemma at_rest_pos: "at_rest c \<Longrightarrow> prod_pos c = None \<and> cons_pos c = None \<and> c \<noteq> PushCopy d p"
  by (cases c) (auto simp: at_rest_def)

lemma at_rest_free:
  assumes "quiescent s"
  shows "prod_pos (sys_calls s t) = None" "cons_pos (sys_calls s t) = None" "sys_calls s t \<noteq> PushCopy d p"
  using assms at_rest_pos [of "sys_calls s t"] by (auto simp: quiescent_def)

text \<open>C12: In every interleaving of any number of pushing and popping processes, each task that is handed
  out is the one pushed at its position, no position is handed out twice, a worker is only given tasks
  that carry its index, positions are handed out in the order they were pushed without a gap, and
  never more than the capacity are in the queue.\<close>

theorem queue_hands_out_each_task_once:
  assumes "is_pow2 capacity" "2 \<le> capacity" "reachable capacity s"
  shows "distinct (map fst (sys_popped s)) \<and>
    (\<forall>(p, who, d)\<in>set (sys_popped s). p < deq s \<and> sys_pushed s p = Some d \<and>
       (\<forall>w. who = Some w \<longrightarrow> td_worker_index d = w)) \<and>
    deq s \<le> enq s \<and> enq s \<le> deq s + capacity \<and> (\<forall>p. enq s \<le> p \<longrightarrow> sys_pushed s p = None) \<and>
    (quiescent s \<longrightarrow> fst ` set (sys_popped s) = {..<deq s} \<and> dom (sys_pushed s) = {..<enq s})"
proof -
  have inv: "queue_inv s" and c: "cap s = capacity" using reachable_inv [OF assms] by auto
  note I = queue_invD [OF inv]
  have pushed: "sys_pushed s p = None \<longleftrightarrow> enq s \<le> p \<or> (\<exists>t d. sys_calls s t = PushCopy d p)" for p
    using I(6) by (simp add: pushed_inv_def)
  have "fst ` set (sys_popped s) = {..<deq s} \<and> dom (sys_pushed s) = {..<enq s}" if "quiescent s"
  proof
    show "fst ` set (sys_popped s) = {..<deq s}"
      using poppedD(2,3) [OF inv] at_rest_free(2) [OF that] by force
    show "dom (sys_pushed s) = {..<enq s}"
      using pushed at_rest_free(3) [OF that] by (auto simp: domIff set_eq_iff)
  qed
  moreover have "deq s \<le> enq s" using I(1) by (simp add: shape_inv_def)
  moreover have "\<forall>(p, who, d)\<in>set (sys_popped s). p < deq s \<and> sys_pushed s p = Some d \<and>
       (\<forall>w. who = Some w \<longrightarrow> td_worker_index d = w)"
    using poppedD(2) [OF inv] by blast
  ultimately show ?thesis
    using poppedD(1) [OF inv] queue_inv_bound [OF inv] pushed unfolding c by blast
qed

text \<open>The ticket of the next position to push and to pop, when no call is under way.\<close>

lemma quiescent_tickets:
  assumes inv: "queue_inv s" and q: "quiescent s"
  shows "enq s < deq s + cap s \<Longrightarrow> ticket s (enq s) = enq s"
    and "enq s = deq s + cap s \<Longrightarrow> ticket s (enq s) = deq s + 1"
    and "deq s < enq s \<Longrightarrow> ticket s (deq s) = deq s + 1 \<and> sys_pushed s (deq s) = Some (cell_desc s (deq s))"
    and "deq s = enq s \<Longrightarrow> ticket s (deq s) = deq s"
proof -
  note I = queue_invD [OF inv]
  have N: "2 \<le> cap s" using I(1) by (simp add: shape_inv_def)
  show free: "ticket s (enq s) = enq s" if "enq s < deq s + cap s"
    using I(4) that at_rest_free(2) [OF q] by (auto simp: tickets_inv_def)
  then show "deq s = enq s \<Longrightarrow> ticket s (deq s) = deq s" using N by simp
  show used: "ticket s (deq s) = deq s + 1 \<and> sys_pushed s (deq s) = Some (cell_desc s (deq s))" if "deq s < enq s"
    using I(4,6) that at_rest_free(1) [OF q] by (auto simp: tickets_inv_def pushed_inv_def)
  have "ticket s (deq s + cap s) = ticket s (deq s)" by (simp add: ticket_def)
  then show "ticket s (enq s) = deq s + 1" if "enq s = deq s + cap s" using used that N by simp
qed

lemma contents_length: "queue_inv s \<Longrightarrow> length (contents s) = enq s - deq s"
  by (simp add: contents_def)

lemma funpow_numeral: "(f ^^ numeral k) x = (f ^^ pred_numeral k) (f x)"
  by (simp add: numeral_eq_Suc funpow_swap1)

text \<open>A call that runs to its end while the other processes rest.\<close>

definition solo_push :: "(int \<Rightarrow> bool) \<Rightarrow> nat \<Rightarrow> task_descriptor \<Rightarrow> queue_system \<Rightarrow> queue_system" where
  "solo_push live t d s = (run_step live t ^^ 6) (call_push t d s)"

definition solo_pop :: "(int \<Rightarrow> bool) \<Rightarrow> nat \<Rightarrow> int option \<Rightarrow> queue_system \<Rightarrow> queue_system" where
  "solo_pop live t who s = (run_step live t ^^ 7) (call_pop t who s)"

lemmas solo_simps = run_step_def call_push_def call_pop_def is_push_def Let_def funpow_numeral WakeRegisteredWorkers_def

text \<open>A push that runs while no other call is under way appends its task and wakes every registered
  running worker if fewer tasks than the capacity are queued, and otherwise reports a full queue and
  changes nothing.\<close>

theorem push_appends:
  assumes "is_pow2 capacity" "2 \<le> capacity" "reachable capacity s" "quiescent s" "enq s + capacity < 2 ^ 32"
  shows "let s' = solo_push live t d s in
    if length (contents s) < capacity
    then sys_calls s' t = PushRet True \<and> contents s' = contents s @ [d] \<and>
      (\<forall>pid\<in>set (q_worker_pids (sys_queue s)). pid \<noteq> 0 \<and> live pid \<longrightarrow> pid \<in> q_latches (sys_queue s'))
    else sys_calls s' t = PushRet False \<and> contents s' = contents s"
proof -
  define s' where "s' = solo_push live t d s"
  have inv: "queue_inv s" and c: "cap s = capacity" using reachable_inv [OF assms(1-3)] by auto
  note I = queue_invD [OF inv]
  note tk = quiescent_tickets [OF inv assms(4)] and m = mask_mod [OF I(1)]
  have N: "deq s \<le> enq s" "enq s \<le> deq s + cap s" "2 \<le> cap s"
    using I(1) queue_inv_bound [OF inv] by (simp_all add: shape_inv_def)
  have sd: "seq_diff (sys_queue s) (enq s) (enq s) = int (ticket s (enq s)) - int (enq s)"
    by (rule seq_diff_cases [OF I(1)]) (use assms(5) in simp)
  have "if length (contents s) < capacity
    then sys_calls s' t = PushRet True \<and> contents s' = contents s @ [d] \<and>
      (\<forall>pid\<in>set (q_worker_pids (sys_queue s)). pid \<noteq> 0 \<and> live pid \<longrightarrow> pid \<in> q_latches (sys_queue s'))
    else sys_calls s' t = PushRet False \<and> contents s' = contents s" (is ?main)
  proof (cases "length (contents s) < capacity")
    case True
    then have "ticket s (enq s) = enq s" using tk(1) N c by (simp add: contents_length [OF inv])
    then have z: "seq_diff (sys_queue s) (enq s) (enq s) = 0" by (simp add: sd)
    have w: "wrap64 (Suc (enq s)) = Suc (enq s)" using assms(5) by (simp add: wrap64_id)
    have run: "s' = s\<lparr>sys_calls := (sys_calls s)(t := PushRet True), sys_pushed := (sys_pushed s)(enq s \<mapsto> d),
      sys_queue := (sys_queue s)\<lparr>q_enqueue_pos := Suc (enq s),
        q_desc := (q_desc (sys_queue s))(enq s AND q_mask (sys_queue s) := d),
        q_sequence := (q_sequence (sys_queue s))(enq s AND q_mask (sys_queue s) := wrap32 (Suc (enq s))),
        q_latches := q_latches (sys_queue s) \<union> set (filter (\<lambda>pid. pid \<noteq> 0 \<and> live pid) (q_worker_pids (sys_queue s)))\<rparr>\<rparr>"
      unfolding s'_def solo_push_def solo_pop_def by (simp add: solo_simps z w)
    have "contents s' = contents s @ [d]"
      using N(1) by (simp add: contents_def run)
    then show ?main using True by (simp add: run)
  next
    case False
    then have full: "enq s = deq s + cap s" using N c by (simp add: contents_length [OF inv])
    have "seq_diff (sys_queue s) (enq s) (enq s) < 0" unfolding sd tk(2) [OF full] using full N(3) by simp
    then have "s' = s\<lparr>sys_calls := (sys_calls s)(t := PushRet False)\<rparr>" unfolding s'_def solo_push_def solo_pop_def by (simp add: solo_simps)
    then show ?main using False by (simp add: contents_def)
  qed
  then show ?thesis by (simp only: Let_def s'_def)
qed

text \<open>A pop that runs while no other call is under way takes the oldest task, provided it is for the
  asking worker; otherwise it returns nothing and leaves the queue as it is.\<close>

theorem pop_takes_oldest:
  assumes "is_pow2 capacity" "2 \<le> capacity" "reachable capacity s" "quiescent s" "enq s + capacity < 2 ^ 32"
  shows "let s' = solo_pop live t who s in
    case contents s of
      d # ds \<Rightarrow> if \<forall>w. who = Some w \<longrightarrow> td_worker_index d = w
        then sys_calls s' t = PopRet (Some d) \<and> contents s' = ds
        else sys_calls s' t = PopRet None \<and> contents s' = contents s
    | [] \<Rightarrow> sys_calls s' t = PopRet None \<and> contents s' = []"
proof -
  define s' where "s' = solo_pop live t who s"
  have inv: "queue_inv s" and c: "cap s = capacity" using reachable_inv [OF assms(1-3)] by auto
  note I = queue_invD [OF inv]
  note tk = quiescent_tickets [OF inv assms(4)] and m = mask_mod [OF I(1)]
  have N: "deq s \<le> enq s" "2 \<le> cap s" using I(1) by (simp_all add: shape_inv_def)
  have w: "wrap64 (Suc (deq s)) = Suc (deq s)" using assms(5) N by (simp add: wrap64_id)
  have sd: "seq_diff (sys_queue s) (deq s) (Suc (deq s)) = int (ticket s (deq s)) - int (Suc (deq s))"
    by (rule seq_diff_cases [OF I(1)]) (use assms(5) N c in simp)
  have desc: "q_desc (sys_queue s) (deq s AND q_mask (sys_queue s)) = cell_desc s (deq s)"
    by (simp add: cell_desc_def m)
  have "case contents s of
      d # ds \<Rightarrow> if \<forall>w. who = Some w \<longrightarrow> td_worker_index d = w
        then sys_calls s' t = PopRet (Some d) \<and> contents s' = ds
        else sys_calls s' t = PopRet None \<and> contents s' = contents s
    | [] \<Rightarrow> sys_calls s' t = PopRet None \<and> contents s' = []" (is ?main)
  proof (cases "deq s = enq s")
    case True
    have "seq_diff (sys_queue s) (deq s) (Suc (deq s)) < 0" unfolding sd tk(4) [OF True] by simp
    then have "s' = s\<lparr>sys_calls := (sys_calls s)(t := PopRet None)\<rparr>" unfolding s'_def solo_push_def solo_pop_def by (simp add: solo_simps w)
    then show ?main using True by (simp add: contents_def)
  next
    case False
    then have lt: "deq s < enq s" using N by simp
    then have z: "seq_diff (sys_queue s) (deq s) (Suc (deq s)) = 0" using tk(3) by (simp add: sd)
    have cs: "contents s = cell_desc s (deq s) # map (the \<circ> sys_pushed s) [Suc (deq s)..<enq s]"
      using lt tk(3) by (simp add: contents_def upt_conv_Cons)
    show ?main
    proof (cases "\<forall>w. who = Some w \<longrightarrow> td_worker_index (cell_desc s (deq s)) = w")
      case True
      then have "sys_calls s' t = PopRet (Some (cell_desc s (deq s))) \<and> deq s' = Suc (deq s) \<and> enq s' = enq s \<and>
          sys_pushed s' = sys_pushed s"
        unfolding s'_def solo_pop_def by (cases who) (simp_all add: solo_simps z w desc)
      then show ?main using True by (simp add: cs) (simp add: contents_def)
    next
      case other: False
      then obtain i where i: "who = Some i" "td_worker_index (cell_desc s (deq s)) \<noteq> i" by blast
      then have "s' = s\<lparr>sys_calls := (sys_calls s)(t := PopRet None)\<rparr>"
        unfolding s'_def solo_push_def solo_pop_def by (simp add: solo_simps z w desc)
      then have "sys_calls s' t = PopRet None" "contents s' = contents s" by (simp_all add: contents_def)
      then show ?main using other i cs by simp
    qed
  qed
  then show ?thesis by (simp only: Let_def s'_def)
qed

text \<open>A queue of two cells with one task for worker 0, used by the witnesses.\<close>

definition demo_task :: task_descriptor where
  "demo_task = no_task\<lparr>td_pipeline_id := 3\<rparr>"

definition demo_queue :: queue_system where
  "demo_queue = solo_push (\<lambda>_. True) 0 demo_task (start_system 2 [7])"

lemma reachable_funpow:
  "reachable c s \<Longrightarrow> (\<And>i. i < n \<Longrightarrow> enq ((run_step live t ^^ i) s) + c < 2 ^ 32) \<Longrightarrow> reachable c ((run_step live t ^^ n) s)"
proof (induction n)
  case (Suc n)
  then show ?case using reachable.step [OF _ _ queue_step.run, of c "(run_step live t ^^ n) s" live t] by simp
qed simp

lemma demo_queue_facts:
  "is_pow2 2" "reachable 2 (start_system 2 [7])" "quiescent (start_system 2 [7])"
  "reachable 2 demo_queue" "quiescent demo_queue" "contents demo_queue = [demo_task]"
  "sys_pushed demo_queue 0 = Some demo_task" "enq demo_queue = 1"
proof -
  show p: "is_pow2 2" unfolding is_pow2_def by (rule exI [of _ 1]) simp
  show r: "reachable 2 (start_system 2 [7])" by (rule reachable.start)
  show q: "quiescent (start_system 2 [7])" by (simp add: quiescent_def start_system_def at_rest_def)
  have at0: "at_rest (sys_calls (start_system 2 [7]) 0)" using q by (simp add: quiescent_def)
  have r1: "reachable 2 (call_push 0 demo_task (start_system 2 [7]))"
    by (rule reachable.step [OF r _ queue_step.push [OF at0]])
      (simp add: start_system_def RegisterWorkerPids_def InitInPlace_def)
  have "enq ((run_step (\<lambda>_. True) 0 ^^ i) (call_push 0 demo_task (start_system 2 [7]))) + 2 < 2 ^ 32" if "i < 6" for i
  proof -
    have "i = 0 \<or> i = 1 \<or> i = 2 \<or> i = 3 \<or> i = 4 \<or> i = 5" using that by linarith
    then show ?thesis
      by (elim disjE; simp add: solo_simps start_system_def RegisterWorkerPids_def InitInPlace_def seq_diff_def)
  qed
  then show "reachable 2 demo_queue" unfolding demo_queue_def solo_push_def by (intro reachable_funpow r1) simp
  have s: "demo_queue = (start_system 2 [7])\<lparr>sys_calls := (\<lambda>_. Idle)(0 := PushRet True), sys_pushed := [0 \<mapsto> demo_task],
      sys_queue := (sys_queue (start_system 2 [7]))\<lparr>q_enqueue_pos := 1, q_desc := (\<lambda>_. no_task)(0 := demo_task),
        q_sequence := (\<lambda>i. i)(0 := 1), q_latches := {7}\<rparr>\<rparr>"
    unfolding demo_queue_def solo_push_def
    by (simp add: solo_simps start_system_def RegisterWorkerPids_def InitInPlace_def seq_diff_def)
  show "quiescent demo_queue" unfolding s by (simp add: quiescent_def start_system_def at_rest_def)
  show "contents demo_queue = [demo_task]" unfolding s
    by (simp add: contents_def start_system_def RegisterWorkerPids_def InitInPlace_def)
  show "sys_pushed demo_queue 0 = Some demo_task" "enq demo_queue = 1" unfolding s by simp_all
qed

theorem queue_hands_out_each_task_once_witness:
  "fst ` set (sys_popped demo_queue) = {..<deq demo_queue} \<and> dom (sys_pushed demo_queue) = {..<1}"
  using queue_hands_out_each_task_once [OF demo_queue_facts(1) order_refl demo_queue_facts(4)] demo_queue_facts(5,8)
  by simp

theorem push_appends_witness:
  "let s' = solo_push (\<lambda>_. True) 1 no_task demo_queue
   in sys_calls s' 1 = PushRet True \<and> contents s' = [demo_task, no_task]"
  using push_appends [OF demo_queue_facts(1) order_refl demo_queue_facts(4,5), of "\<lambda>_. True" 1 no_task] demo_queue_facts(6,8)
  by (simp add: Let_def)

theorem pop_takes_oldest_witness:
  "let s' = solo_pop (\<lambda>_. True) 1 (Some 0) demo_queue
   in sys_calls s' 1 = PopRet (Some demo_task) \<and> contents s' = []"
  using pop_takes_oldest [OF demo_queue_facts(1) order_refl demo_queue_facts(4,5), of "\<lambda>_. True" 1 "Some 0"]
    demo_queue_facts(6,8)
  by (simp add: Let_def demo_task_def no_task_def)

section \<open>After the tickets wrap\<close>

text \<open>
  A full queue of two cells whose next position is 2^32: its cells hold the tickets of the last two
  pushes, and the 32-bit ticket of the next position is 0.
\<close>

definition wrapped_full :: "nat \<Rightarrow> queue_system" where
  "wrapped_full t =
     (let q = InitInPlace 2
      in (start_system 2 [])\<lparr>sys_queue := q\<lparr>q_enqueue_pos := 2 ^ 32, q_dequeue_pos := 2 ^ 32 - 2,
           q_sequence := (\<lambda>i. if i = 0 then 2 ^ 32 - 1 else 0)\<rparr>, sys_calls := (\<lambda>_. Idle)(t := PushLoad no_task)\<rparr>)"

text \<open>Once 2^32 tasks have been pushed, a push into a full queue need not report it: the difference
  between the 32-bit ticket of the cell and the truncated position is positive, so the call
  re-reads the cursor and tries again for ever while no consumer runs.\<close>

theorem wrapped_push_spins:
  "sys_calls ((run_step live t ^^ n) (wrapped_full t)) t \<in> {PushLoad no_task, PushSeq no_task (2 ^ 32)} \<and>
   enq (wrapped_full t) = deq (wrapped_full t) + cap (wrapped_full t)"
proof -
  define seq where "seq = (wrapped_full t)\<lparr>sys_calls := (\<lambda>_. Idle)(t := PushSeq no_task (2 ^ 32))\<rparr>"
  have m: "(2 ^ 32 :: nat) AND 1 = 0" by (simp add: and_one_eq)
  have 1: "run_step live t (wrapped_full t) = seq"
    by (simp add: seq_def wrapped_full_def run_step_def is_push_def Let_def start_system_def)
  have 2: "run_step live t seq = wrapped_full t"
    by (simp add: seq_def wrapped_full_def run_step_def is_push_def Let_def start_system_def seq_diff_def
        InitInPlace_def wrap32_def m [simplified] and_one_eq)
  have "(run_step live t ^^ n) (wrapped_full t) \<in> {wrapped_full t, seq}"
  proof (induction n)
    case (Suc n)
    then show ?case using 1 2 by (elim insertE) simp_all
  qed simp
  moreover have "sys_calls (wrapped_full t) t = PushLoad no_task" "sys_calls seq t = PushSeq no_task (2 ^ 32)"
    by (simp_all add: seq_def wrapped_full_def Let_def)
  ultimately show ?thesis
    by (auto simp: wrapped_full_def Let_def InitInPlace_def start_system_def)
qed

end
