(* ===== verification/EventDag.thy ===== *)
theory EventDag
  imports TaskQueue
begin

text \<open>
  The event graph of a query: pipeline/event.hpp, event.cpp and the scheduler's part of it in
  task_scheduler.cpp. Every pipeline has a run, a combine and a finalize event; events notify their
  dependents when they finish or abort. Calls of the cascade nest in the code; the model keeps the calls
  still to be made as a stack and makes them in the order the recursion does. The task queue appears
  as the sequence of its contents, which TaskQueue justifies.
\<close>

section \<open>Events and pipelines\<close>

datatype event_state = PENDING | SCHEDULED | RUNNING | COMBINE_PENDING | FINISHED | ABORTED

record event =
  ev_pipeline_id :: nat
  ev_kind :: task_kind
  ev_state :: event_state
  ev_pending_dependencies :: int
  ev_saw_aborted_dependency :: bool
  ev_dependents :: "nat list"

datatype sink_type = SINK_HASH_AGGREGATE | SINK_PERFECT_HASH_AGGREGATE | SINK_HASH_JOIN | SINK_CROSS_PRODUCT | SINK_OTHER

text \<open>
  A pipeline with what the scheduler asks of its operators: whether the source is parallel, the
  thread limits, the kind of the sink, whether its phases are trivial, the partition count of its shared
  payload (\<^verbatim>\<open>None\<close> when there is no payload) and whether its finalize is ready.
\<close>

record pipeline =
  pl_depends_on :: "nat list"
  pl_parallel_source :: bool
  pl_source_max_threads :: int
  pl_ops_max_threads :: "int list"
  pl_sink_max_threads :: int
  pl_sink_type :: sink_type
  pl_combine_is_trivial :: bool
  pl_finalize_is_trivial :: bool
  pl_payload_partitions :: "nat option"
  pl_finalize_ready :: bool

record scheduler =
  sc_pipelines :: "pipeline list"
  sc_worker_count :: nat
  sc_events :: "nat \<Rightarrow> event"
  sc_run_task_counts :: "nat \<Rightarrow> nat"
  sc_tasks_remaining :: "nat \<Rightarrow> nat"
  sc_queue :: "task_descriptor list"
  sc_queue_capacity :: nat

definition event_count :: "scheduler \<Rightarrow> nat" where
  "event_count s = 3 * length (sc_pipelines s)"

definition update_event :: "nat \<Rightarrow> (event \<Rightarrow> event) \<Rightarrow> scheduler \<Rightarrow> scheduler" where
  "update_event eid f s = s\<lparr>sc_events := (sc_events s)(eid := f (sc_events s eid))\<rparr>"

section \<open>Building the graph\<close>

definition new_event :: "nat \<Rightarrow> task_kind \<Rightarrow> event" where
  "new_event pid kind = \<lparr>ev_pipeline_id = pid, ev_kind = kind, ev_state = PENDING,
     ev_pending_dependencies = 0, ev_saw_aborted_dependency = False, ev_dependents = []\<rparr>"

definition AddDependency :: "nat \<Rightarrow> nat \<Rightarrow> (nat \<Rightarrow> event) \<Rightarrow> nat \<Rightarrow> event" where
  "AddDependency child parent ev =
     (let ev = ev(child := (ev child)\<lparr>ev_pending_dependencies := ev_pending_dependencies (ev child) + 1\<rparr>)
      in ev(parent := (ev parent)\<lparr>ev_dependents := ev_dependents (ev parent) @ [child]\<rparr>))"

definition event_kind_of :: "nat \<Rightarrow> task_kind" where
  "event_kind_of eid = (if eid mod 3 = 0 then TK_RUN else if eid mod 3 = 1 then TK_COMBINE else TK_FINALIZE)"

text \<open>The dependencies in the order the code adds them, as pairs of child and parent.\<close>

definition dependency_edges :: "pipeline list \<Rightarrow> (nat \<times> nat) list" where
  "dependency_edges ps =
     concat (map (\<lambda>p. [(3 * p + 1, 3 * p), (3 * p + 2, 3 * p + 1)]) [0..<length ps]) @
     concat (map (\<lambda>i. map (\<lambda>d. (3 * i, 3 * d + 2)) (pl_depends_on (ps ! i))) [0..<length ps])"

definition BuildEvents :: "pipeline list \<Rightarrow> nat \<Rightarrow> nat \<Rightarrow> scheduler" where
  "BuildEvents ps worker_count queue_capacity =
     \<lparr>sc_pipelines = ps, sc_worker_count = worker_count,
      sc_events = fold (\<lambda>(child, parent). AddDependency child parent) (dependency_edges ps)
        (\<lambda>eid. new_event (eid div 3) (event_kind_of eid)),
      sc_run_task_counts = (\<lambda>_. 0), sc_tasks_remaining = (\<lambda>_. 0), sc_queue = [], sc_queue_capacity = queue_capacity\<rparr>"

section \<open>Enqueueing the tasks of an event\<close>

definition DeriveRunTaskCount :: "nat \<Rightarrow> pipeline \<Rightarrow> nat" where
  "DeriveRunTaskCount worker_count p =
     (let limit = (\<lambda>v bound. if v > 0 then min bound (nat v) else bound);
          bound = fold limit ((if pl_parallel_source p then pl_source_max_threads p else 1) #
                    pl_ops_max_threads p @ [pl_sink_max_threads p]) worker_count
      in if bound = 0 then 1 else bound)"

definition RememberRunTaskCount :: "nat \<Rightarrow> nat \<Rightarrow> scheduler \<Rightarrow> scheduler" where
  "RememberRunTaskCount pid task_count s =
     s\<lparr>sc_run_task_counts := (sc_run_task_counts s)(pid := max 1 task_count)\<rparr>"

definition RememberedRunTaskCount :: "nat \<Rightarrow> scheduler \<Rightarrow> nat" where
  "RememberedRunTaskCount pid s = (if sc_run_task_counts s pid \<noteq> 0 then sc_run_task_counts s pid else 1)"

definition set_tasks_remaining :: "nat \<Rightarrow> nat \<Rightarrow> scheduler \<Rightarrow> scheduler" where
  "set_tasks_remaining eid n s = s\<lparr>sc_tasks_remaining := (sc_tasks_remaining s)(eid := n)\<rparr>"

definition task_desc :: "nat \<Rightarrow> pipeline \<Rightarrow> nat \<Rightarrow> task_kind \<Rightarrow> nat \<Rightarrow> nat \<Rightarrow> task_descriptor" where
  "task_desc worker_count p pid kind event_id i =
     (if kind = TK_COMBINE \<and> pl_sink_type p = SINK_HASH_AGGREGATE
      then \<lparr>td_pipeline_id = pid, td_event_id = event_id, td_partition_id = i,
            td_worker_index = int (i mod DeriveRunTaskCount worker_count p), td_kind = kind\<rparr>
      else \<lparr>td_pipeline_id = pid, td_event_id = event_id, td_partition_id = UINT32_MAX,
            td_worker_index = int i, td_kind = kind\<rparr>)"

text \<open>The combine tasks of the kinds of sink; \<^verbatim>\<open>None\<close> when a needed payload is missing.\<close>

definition combine_task_count :: "pipeline \<Rightarrow> nat \<Rightarrow> scheduler \<Rightarrow> nat option" where
  "combine_task_count p pid s =
     (case pl_sink_type p of
        SINK_HASH_AGGREGATE \<Rightarrow> pl_payload_partitions p
      | SINK_PERFECT_HASH_AGGREGATE \<Rightarrow> map_option (\<lambda>_. 1) (pl_payload_partitions p)
      | SINK_HASH_JOIN \<Rightarrow> map_option (\<lambda>_. RememberedRunTaskCount pid s) (pl_payload_partitions p)
      | SINK_CROSS_PRODUCT \<Rightarrow> map_option (\<lambda>_. RememberedRunTaskCount pid s) (pl_payload_partitions p)
      | SINK_OTHER \<Rightarrow> Some (RememberedRunTaskCount pid s))"

definition push_tasks :: "task_descriptor list \<Rightarrow> scheduler \<Rightarrow> scheduler result" where
  "push_tasks ds s =
     (if length (sc_queue s) + length ds \<le> sc_queue_capacity s then Inr (s\<lparr>sc_queue := sc_queue s @ ds\<rparr>)
      else Inl (Elog ''task queue full while enqueuing event''))"

datatype event_call = CompleteDependency nat bool | TrySchedule nat | AbortEvent nat | FinishEvent nat | ClearDependents nat

definition EnqueueTasks :: "nat \<Rightarrow> scheduler \<Rightarrow> (event_call list \<times> scheduler) result" where
  "EnqueueTasks eid s =
     (let pid = ev_pipeline_id (sc_events s eid); kind = ev_kind (sc_events s eid); p = sc_pipelines s ! pid;
          push = (\<lambda>n s. rbind (push_tasks (map (task_desc (sc_worker_count s) p pid kind eid) [0..<n])
                            (set_tasks_remaining eid n s)) (\<lambda>s. Inr ([], s)))
      in case kind of
           TK_RUN \<Rightarrow>
             let n = DeriveRunTaskCount (sc_worker_count s) p in push n (RememberRunTaskCount pid n s)
         | TK_COMBINE \<Rightarrow>
             if pl_combine_is_trivial p then Inr ([FinishEvent eid], set_tasks_remaining eid 0 s)
             else (case combine_task_count p pid s of
                     None \<Rightarrow> Inl (Elog ''payload missing during COMBINE scheduling'')
                   | Some n \<Rightarrow> push n s)
         | TK_FINALIZE \<Rightarrow>
             if pl_finalize_is_trivial p
             then if pl_finalize_ready p then Inr ([FinishEvent eid], set_tasks_remaining eid 0 s)
                  else Inl (Elog ''trivial finalize did not finish'')
             else Inr ([], set_tasks_remaining eid 1 s))"

section \<open>The life of an event\<close>

definition NotifyDependents :: "nat \<Rightarrow> bool \<Rightarrow> scheduler \<Rightarrow> event_call list" where
  "NotifyDependents eid propagate_abort s =
     map (\<lambda>child. CompleteDependency child propagate_abort) (ev_dependents (sc_events s eid)) @ [ClearDependents eid]"

text \<open>One call: the calls it makes, in order, and the state after its own updates.\<close>

fun make_call :: "event_call \<Rightarrow> scheduler \<Rightarrow> (event_call list \<times> scheduler) result" where
  "make_call (CompleteDependency eid upstream_aborted) s =
     (let s = (if upstream_aborted then update_event eid (\<lambda>e. e\<lparr>ev_saw_aborted_dependency := True\<rparr>) s else s);
          prev = ev_pending_dependencies (sc_events s eid);
          s = update_event eid (\<lambda>e. e\<lparr>ev_pending_dependencies := prev - 1\<rparr>) s
      in if prev \<noteq> 1 then Inr ([], s)
         else if ev_saw_aborted_dependency (sc_events s eid) then Inr ([AbortEvent eid], s)
         else Inr ([TrySchedule eid], s))"
| "make_call (TrySchedule eid) s =
     (if ev_state (sc_events s eid) = PENDING
      then EnqueueTasks eid (update_event eid (\<lambda>e. e\<lparr>ev_state := SCHEDULED\<rparr>) s)
      else Inr ([], s))"
| "make_call (AbortEvent eid) s =
     (let prev = ev_state (sc_events s eid); s = update_event eid (\<lambda>e. e\<lparr>ev_state := ABORTED\<rparr>) s
      in Inr (if prev = ABORTED then [] else NotifyDependents eid True s, s))"
| "make_call (FinishEvent eid) s =
     (let prev = ev_state (sc_events s eid); s = update_event eid (\<lambda>e. e\<lparr>ev_state := FINISHED\<rparr>) s
      in Inr (if prev = FINISHED \<or> prev = ABORTED then [] else NotifyDependents eid False s, s))"
| "make_call (ClearDependents eid) s = Inr ([], update_event eid (\<lambda>e. e\<lparr>ev_dependents := []\<rparr>) s)"

text \<open>Running a stack of calls to its end; \<^verbatim>\<open>None\<close> is the fuel running out.\<close>

fun run_calls :: "nat \<Rightarrow> event_call list \<Rightarrow> scheduler \<Rightarrow> scheduler result option" where
  "run_calls fuel [] s = Some (Inr s)"
| "run_calls 0 (c # cs) s = None"
| "run_calls (Suc fuel) (c # cs) s =
     (case make_call c s of
        Inl err \<Rightarrow> Some (Inl err)
      | Inr (new, s') \<Rightarrow> run_calls fuel (new @ cs) s')"

section \<open>Every cascade ends\<close>

text \<open>
  With at most \<open>D\<close> dependents per event, a finish or abort spawns at most \<open>D + 1\<close> calls, and an event
  with dependencies left is decided at most once.
\<close>

fun call_weight :: "nat \<Rightarrow> event_call \<Rightarrow> nat" where
  "call_weight D (CompleteDependency eid a) = 1"
| "call_weight D (TrySchedule eid) = D + 3"
| "call_weight D (AbortEvent eid) = D + 2"
| "call_weight D (FinishEvent eid) = D + 2"
| "call_weight D (ClearDependents eid) = 1"

definition event_weight :: "nat \<Rightarrow> event \<Rightarrow> nat" where
  "event_weight D e = (if 1 \<le> ev_pending_dependencies e then D + 3 else 0)"

definition cascade_bound :: "nat \<Rightarrow> event_call list \<Rightarrow> scheduler \<Rightarrow> nat" where
  "cascade_bound D cs s =
     sum_list (map (call_weight D) cs) + (\<Sum>eid<event_count s. event_weight D (sc_events s eid))"

fun call_event :: "event_call \<Rightarrow> nat" where
  "call_event (CompleteDependency eid a) = eid"
| "call_event (TrySchedule eid) = eid"
| "call_event (AbortEvent eid) = eid"
| "call_event (FinishEvent eid) = eid"
| "call_event (ClearDependents eid) = eid"

definition calls_ok :: "nat \<Rightarrow> event_call list \<Rightarrow> scheduler \<Rightarrow> bool" where
  "calls_ok D cs s \<longleftrightarrow>
     (\<forall>c\<in>set cs. call_event c < event_count s) \<and>
     (\<forall>eid<event_count s. length (ev_dependents (sc_events s eid)) \<le> D \<and>
        (\<forall>d\<in>set (ev_dependents (sc_events s eid)). d < event_count s))"

lemma EnqueueTasks_frame:
  "EnqueueTasks eid s = Inr (new, s') \<Longrightarrow>
   sc_events s' = sc_events s \<and> sc_pipelines s' = sc_pipelines s \<and> sc_worker_count s' = sc_worker_count s \<and>
   sc_queue_capacity s' = sc_queue_capacity s \<and> (new = [] \<or> new = [FinishEvent eid])"
  by (auto simp: EnqueueTasks_def Let_def push_tasks_def set_tasks_remaining_def RememberRunTaskCount_def
      split: task_kind.splits if_splits option.splits sum.splits)

lemma update_event_simps [simp]:
  "event_count (update_event eid f s) = event_count s"
  "sc_events (update_event eid f s) = (sc_events s)(eid := f (sc_events s eid))"
  "sc_pipelines (update_event eid f s) = sc_pipelines s"
  "sc_tasks_remaining (update_event eid f s) = sc_tasks_remaining s"
  "sc_queue (update_event eid f s) = sc_queue s"
  "sc_worker_count (update_event eid f s) = sc_worker_count s"
  "sc_run_task_counts (update_event eid f s) = sc_run_task_counts s"
  "sc_queue_capacity (update_event eid f s) = sc_queue_capacity s"
  by (simp_all add: update_event_def event_count_def)

lemma event_count_frame: "sc_pipelines s' = sc_pipelines s \<Longrightarrow> event_count s' = event_count s"
  by (simp add: event_count_def)

lemma NotifyDependents_update [simp]:
  "NotifyDependents eid a (update_event eid (\<lambda>e. e\<lparr>ev_state := st\<rparr>) s) = NotifyDependents eid a s"
  by (simp add: NotifyDependents_def)

lemma make_call_ok:
  assumes "make_call c s = Inr (new, s')" "calls_ok D (c # cs) s"
  shows "calls_ok D (new @ cs) s'"
proof (cases c)
  case (TrySchedule eid)
  show ?thesis
  proof (cases "ev_state (sc_events s eid) = PENDING")
    case True
    then have enq: "EnqueueTasks eid (update_event eid (\<lambda>e. e\<lparr>ev_state := SCHEDULED\<rparr>) s) = Inr (new, s')"
      using assms(1) TrySchedule by simp
    note fr = EnqueueTasks_frame [OF enq]
    then have "event_count s' = event_count s" using event_count_frame by (metis update_event_simps(3))
    moreover have "ev_dependents (sc_events s' x) = ev_dependents (sc_events s x)" for x using fr by simp
    ultimately show ?thesis using fr assms(2) TrySchedule by (auto simp: calls_ok_def)
  qed (use assms TrySchedule in \<open>auto simp: calls_ok_def\<close>)
qed (use assms in \<open>auto simp: calls_ok_def Let_def NotifyDependents_def split: if_splits\<close>)

lemma weight_update:
  assumes "eid < event_count s"
  shows "(\<Sum>x<event_count s. event_weight D (((sc_events s)(eid := e)) x)) + event_weight D (sc_events s eid) =
    (\<Sum>x<event_count s. event_weight D (sc_events s x)) + event_weight D e"
proof -
  have "(\<Sum>x<event_count s. event_weight D (f x)) = event_weight D (f eid) + (\<Sum>x\<in>{..<event_count s} - {eid}. event_weight D (f x))"
    for f using assms by (intro sum.remove) auto
  from this [of "(sc_events s)(eid := e)"] this [of "sc_events s"] show ?thesis by simp
qed

lemma cascade_decreases:
  assumes "make_call c s = Inr (new, s')" "calls_ok D (c # cs) s"
  shows "cascade_bound D (new @ cs) s' < cascade_bound D (c # cs) s"
proof -
  have lt: "call_event c < event_count s" using assms(2) by (simp add: calls_ok_def)
  have notify: "sum_list (map (call_weight D) (NotifyDependents (call_event c) a s)) \<le> D + 1" for a
    using assms(2) lt by (simp add: NotifyDependents_def o_def sum_list_triv calls_ok_def)
  have quiet: "cascade_bound D (new @ cs) s' < cascade_bound D (c # cs) s"
    if "event_count s' = event_count s" "\<And>x. event_weight D (sc_events s' x) = event_weight D (sc_events s x)"
      "sum_list (map (call_weight D) new) < call_weight D c"
    using that by (simp add: cascade_bound_def)
  show ?thesis
  proof (cases c)
    case (CompleteDependency eid a)
    define prev where "prev = ev_pending_dependencies (sc_events s eid)"
    define e where "e = sc_events s' eid"
    have s': "sc_events s' = (sc_events s)(eid := e)" "event_count s' = event_count s" "ev_pending_dependencies e = prev - 1"
      using assms(1) CompleteDependency by (auto simp: Let_def e_def prev_def fun_eq_iff split: if_splits)
    show ?thesis
    proof (cases "prev = 1")
      case True
      then have "sum_list (map (call_weight D) new) \<le> D + 3"
        using assms(1) CompleteDependency by (auto simp: Let_def prev_def split: if_splits)
      moreover have "event_weight D (sc_events s eid) = D + 3" "event_weight D e = 0"
        using True s'(3) by (simp_all add: event_weight_def prev_def)
      ultimately show ?thesis
        using weight_update [of eid s D e] lt CompleteDependency s'(1,2) by (simp add: cascade_bound_def)
    next
      case False
      then have "new = []" using assms(1) CompleteDependency by (auto simp: Let_def prev_def split: if_splits)
      moreover have "event_weight D (sc_events s' x) = event_weight D (sc_events s x)" for x
        using False s'(1,3) by (auto simp: event_weight_def prev_def)
      ultimately show ?thesis using CompleteDependency s'(2) by (intro quiet) simp_all
    qed
  next
    case (TrySchedule eid)
    show ?thesis
    proof (cases "ev_state (sc_events s eid) = PENDING")
      case True
      then have enq: "EnqueueTasks eid (update_event eid (\<lambda>e. e\<lparr>ev_state := SCHEDULED\<rparr>) s) = Inr (new, s')"
        using assms(1) TrySchedule by simp
      note fr = EnqueueTasks_frame [OF enq]
      then have "event_count s' = event_count s" using event_count_frame by (metis update_event_simps(3))
      moreover have "event_weight D (sc_events s' x) = event_weight D (sc_events s x)" for x
        using fr by (simp add: event_weight_def)
      ultimately show ?thesis using fr TrySchedule by (intro quiet) auto
    qed (use assms(1) TrySchedule in \<open>simp add: cascade_bound_def\<close>)
  next
    case (AbortEvent eid)
    show ?thesis
      by (rule quiet) (use assms(1) notify AbortEvent in \<open>auto simp: Let_def event_weight_def le_imp_less_Suc split: if_splits\<close>)
  next
    case (FinishEvent eid)
    show ?thesis
      by (rule quiet) (use assms(1) notify FinishEvent in \<open>auto simp: Let_def event_weight_def le_imp_less_Suc split: if_splits\<close>)
  next
    case (ClearDependents eid)
    show ?thesis by (rule quiet) (use assms(1) ClearDependents in \<open>auto simp: event_weight_def split: if_splits\<close>)
  qed
qed

lemma run_calls_total: "calls_ok D cs s \<Longrightarrow> cascade_bound D cs s \<le> fuel \<Longrightarrow> run_calls fuel cs s \<noteq> None"
proof (induction fuel cs s rule: run_calls.induct)
  case (2 c cs s)
  then show ?case by (cases c) (auto simp: cascade_bound_def)
next
  case (3 fuel c cs s)
  show ?case
  proof (cases "make_call c s")
    case (Inr r)
    then obtain new s' where r: "make_call c s = Inr (new, s')" by (cases r) auto
    show ?thesis
      using "3.IH" [OF r refl make_call_ok [OF r "3.prems"(1)]] cascade_decreases [OF r "3.prems"(1)] "3.prems"(2) r
      by simp
  qed simp
qed simp

section \<open>The state of a running graph\<close>

definition terminal :: "scheduler \<Rightarrow> nat \<Rightarrow> bool" where
  "terminal s e \<longleftrightarrow> ev_state (sc_events s e) = FINISHED \<or> ev_state (sc_events s e) = ABORTED"

definition children :: "(nat \<times> nat) list \<Rightarrow> nat \<Rightarrow> nat list" where
  "children E e = map fst (filter (\<lambda>(c, p). p = e) E)"

definition waits_for :: "(nat \<times> nat) list \<Rightarrow> scheduler \<Rightarrow> nat \<Rightarrow> nat" where
  "waits_for E s e = length (filter (\<lambda>(c, p). c = e \<and> \<not> terminal s p) E)"

fun completes :: "nat \<Rightarrow> event_call \<Rightarrow> bool" where
  "completes e (CompleteDependency c a) = (c = e)"
| "completes e c = False"

definition announced :: "event_call list \<Rightarrow> nat \<Rightarrow> nat" where
  "announced cs e = length (filter (completes e) cs)"

text \<open>The calls that decide about an event; each event has at most one of them under way.\<close>

fun decides :: "event_call \<Rightarrow> bool" where
  "decides (TrySchedule e) = True"
| "decides (AbortEvent e) = True"
| "decides (FinishEvent e) = True"
| "decides c = False"

definition decisions :: "event_call list \<Rightarrow> nat list" where
  "decisions cs = map call_event (filter decides cs)"

text \<open>
  The invariant, for the edges \<open>E\<close>, the initial events \<open>U\<close> that the leader has still to schedule, the
  events \<open>X\<close> that were aborted from outside, and the calls under way.
\<close>

definition states_inv :: "(nat \<times> nat) list \<Rightarrow> nat set \<Rightarrow> event_call list \<Rightarrow> scheduler \<Rightarrow> bool" where
  "states_inv E U cs s \<longleftrightarrow>
     (\<forall>e. ev_state (sc_events s e) \<in> {PENDING, SCHEDULED, FINISHED, ABORTED}) \<and>
     (\<forall>e. ev_dependents (sc_events s e) = children E e \<or> terminal s e \<and> ev_dependents (sc_events s e) = []) \<and>
     (\<forall>e. ev_pending_dependencies (sc_events s e) = int (waits_for E s e + announced cs e)) \<and>
     (\<forall>e. ev_state (sc_events s e) \<noteq> PENDING \<longrightarrow> ev_pending_dependencies (sc_events s e) = 0) \<and>
     (\<forall>e. ev_state (sc_events s e) = PENDING \<longrightarrow>
        0 < ev_pending_dependencies (sc_events s e) \<or> e \<in> set (decisions cs) \<or> e \<in> U \<or> \<not> e < event_count s)"

definition calls_inv :: "(nat \<times> nat) list \<Rightarrow> event_call list \<Rightarrow> scheduler \<Rightarrow> bool" where
  "calls_inv E cs s \<longleftrightarrow>
     distinct (decisions cs) \<and> (\<forall>c\<in>set cs. call_event c < event_count s) \<and>
     (\<forall>e\<in>set (decisions cs). ev_pending_dependencies (sc_events s e) = 0) \<and>
     (\<forall>e. TrySchedule e \<in> set cs \<longrightarrow> ev_state (sc_events s e) = PENDING \<and>
        (\<forall>p. (e, p) \<in> set E \<longrightarrow> ev_state (sc_events s p) = FINISHED)) \<and>
     (\<forall>e. AbortEvent e \<in> set cs \<longrightarrow> ev_state (sc_events s e) \<in> {PENDING, SCHEDULED}) \<and>
     (\<forall>e. FinishEvent e \<in> set cs \<longrightarrow> ev_state (sc_events s e) = SCHEDULED) \<and>
     (\<forall>e. ClearDependents e \<in> set cs \<longrightarrow> terminal s e)"

definition aborts_inv :: "(nat \<times> nat) list \<Rightarrow> nat set \<Rightarrow> event_call list \<Rightarrow> scheduler \<Rightarrow> bool" where
  "aborts_inv E X cs s \<longleftrightarrow>
     (\<forall>e p. ev_state (sc_events s e) \<in> {SCHEDULED, FINISHED} \<longrightarrow> (e, p) \<in> set E \<longrightarrow> ev_state (sc_events s p) = FINISHED) \<and>
     (\<forall>e p. (e, p) \<in> set E \<longrightarrow> ev_state (sc_events s p) = ABORTED \<longrightarrow>
        ev_saw_aborted_dependency (sc_events s e) \<or> CompleteDependency e True \<in> set cs) \<and>
     (\<forall>e. ev_saw_aborted_dependency (sc_events s e) \<or> CompleteDependency e True \<in> set cs \<longrightarrow>
        (\<exists>p. (e, p) \<in> set E \<and> ev_state (sc_events s p) = ABORTED)) \<and>
     (\<forall>e. AbortEvent e \<in> set cs \<longrightarrow> e \<in> X \<or> ev_saw_aborted_dependency (sc_events s e)) \<and>
     (\<forall>e. ev_state (sc_events s e) = ABORTED \<longrightarrow> e \<in> X \<or> (\<exists>p. (e, p) \<in> set E \<and> ev_state (sc_events s p) = ABORTED))"

definition roots_inv :: "(nat \<times> nat) list \<Rightarrow> nat set \<Rightarrow> event_call list \<Rightarrow> scheduler \<Rightarrow> bool" where
  "roots_inv E U cs s \<longleftrightarrow>
     (\<forall>e\<in>U. ev_state (sc_events s e) = PENDING \<and> e \<notin> set (decisions cs) \<and> (\<forall>p. (e, p) \<notin> set E)) \<and>
     (\<forall>e a. CompleteDependency e a \<in> set cs \<longrightarrow> (\<exists>p. (e, p) \<in> set E))"

definition edges_ok :: "(nat \<times> nat) list \<Rightarrow> nat \<Rightarrow> bool" where
  "edges_ok E n \<longleftrightarrow> (\<forall>(c, p)\<in>set E. c < n \<and> p < n)"

definition dag_inv :: "(nat \<times> nat) list \<Rightarrow> nat set \<Rightarrow> nat set \<Rightarrow> event_call list \<Rightarrow> scheduler \<Rightarrow> bool" where
  "dag_inv E U X cs s \<longleftrightarrow>
     edges_ok E (event_count s) \<and> states_inv E U cs s \<and> calls_inv E cs s \<and> aborts_inv E X cs s \<and>
     roots_inv E U cs s"

lemma decisions_simps [simp]:
  "decisions [] = []" "decisions (CompleteDependency e a # cs) = decisions cs"
  "decisions (TrySchedule e # cs) = e # decisions cs" "decisions (AbortEvent e # cs) = e # decisions cs"
  "decisions (FinishEvent e # cs) = e # decisions cs" "decisions (ClearDependents e # cs) = decisions cs"
  "decisions (cs @ ds) = decisions cs @ decisions ds"
  by (simp_all add: decisions_def)

lemma announced_simps [simp]:
  "announced [] e = 0" "announced (CompleteDependency d a # cs) e = (if d = e then 1 else 0) + announced cs e"
  "announced (TrySchedule d # cs) e = announced cs e" "announced (AbortEvent d # cs) e = announced cs e"
  "announced (FinishEvent d # cs) e = announced cs e" "announced (ClearDependents d # cs) e = announced cs e"
  "announced (cs @ ds) e = announced cs e + announced ds e"
  by (simp_all add: announced_def)

lemma decision_in: "TrySchedule e \<in> set cs \<Longrightarrow> e \<in> set (decisions cs)" "AbortEvent e \<in> set cs \<Longrightarrow> e \<in> set (decisions cs)"
  "FinishEvent e \<in> set cs \<Longrightarrow> e \<in> set (decisions cs)"
  by (force simp: decisions_def)+

lemma announced_pos: "CompleteDependency e a \<in> set cs \<Longrightarrow> 0 < announced cs e"
  by (force simp: announced_def length_pos_if_in_set filter_empty_conv)

lemma waits_for_0: "waits_for E s e = 0 \<longleftrightarrow> (\<forall>p. (e, p) \<in> set E \<longrightarrow> terminal s p)"
  by (auto simp: waits_for_def filter_empty_conv)

lemma notify_calls:
  "announced (map (\<lambda>c. CompleteDependency c a) (children E e)) d = length (filter (\<lambda>(c, p). c = d \<and> p = e) E)"
  "decisions (map (\<lambda>c. CompleteDependency c a) (children E e)) = []"
  "CompleteDependency d b \<in> set (map (\<lambda>c. CompleteDependency c a) (children E e)) \<longleftrightarrow> b = a \<and> (d, e) \<in> set E"
  by (induction E) (auto simp: children_def decisions_def announced_def)

lemma waits_for_terminal:
  assumes "\<not> terminal s e" "\<And>d. terminal s' d \<longleftrightarrow> terminal s d \<or> d = e"
  shows "waits_for E s d = waits_for E s' d + length (filter (\<lambda>(c, p). c = d \<and> p = e) E)"
  unfolding waits_for_def using assms by (induction E) (auto split: if_splits)

section \<open>Every call keeps the invariant\<close>

lemma dag_invD:
  assumes "dag_inv E U X cs s"
  shows "edges_ok E (event_count s)" "states_inv E U cs s" "calls_inv E cs s" "aborts_inv E X cs s" "roots_inv E U cs s"
  using assms by (simp_all add: dag_inv_def)

lemma states_invD:
  assumes "states_inv E U cs s"
  shows "ev_state (sc_events s e) \<in> {PENDING, SCHEDULED, FINISHED, ABORTED}"
    "ev_dependents (sc_events s e) = children E e \<or> terminal s e \<and> ev_dependents (sc_events s e) = []"
    "ev_pending_dependencies (sc_events s e) = int (waits_for E s e + announced cs e)"
    "ev_state (sc_events s e) \<noteq> PENDING \<Longrightarrow> ev_pending_dependencies (sc_events s e) = 0"
    "ev_state (sc_events s e) = PENDING \<Longrightarrow> e < event_count s \<Longrightarrow>
       0 < ev_pending_dependencies (sc_events s e) \<or> e \<in> set (decisions cs) \<or> e \<in> U"
  using assms unfolding states_inv_def by blast+

lemma calls_invD:
  assumes "calls_inv E cs s"
  shows "distinct (decisions cs)" "c \<in> set cs \<Longrightarrow> call_event c < event_count s"
    "e \<in> set (decisions cs) \<Longrightarrow> ev_pending_dependencies (sc_events s e) = 0"
    "TrySchedule e \<in> set cs \<Longrightarrow> ev_state (sc_events s e) = PENDING"
    "TrySchedule e \<in> set cs \<Longrightarrow> (e, p) \<in> set E \<Longrightarrow> ev_state (sc_events s p) = FINISHED"
    "AbortEvent e \<in> set cs \<Longrightarrow> ev_state (sc_events s e) \<in> {PENDING, SCHEDULED}"
    "FinishEvent e \<in> set cs \<Longrightarrow> ev_state (sc_events s e) = SCHEDULED"
    "ClearDependents e \<in> set cs \<Longrightarrow> terminal s e"
  using assms unfolding calls_inv_def by blast+

lemma aborts_invD:
  assumes "aborts_inv E X cs s"
  shows "ev_state (sc_events s e) \<in> {SCHEDULED, FINISHED} \<Longrightarrow> (e, p) \<in> set E \<Longrightarrow> ev_state (sc_events s p) = FINISHED"
    "(e, p) \<in> set E \<Longrightarrow> ev_state (sc_events s p) = ABORTED \<Longrightarrow>
       ev_saw_aborted_dependency (sc_events s e) \<or> CompleteDependency e True \<in> set cs"
    "ev_saw_aborted_dependency (sc_events s e) \<or> CompleteDependency e True \<in> set cs \<Longrightarrow>
       \<exists>p. (e, p) \<in> set E \<and> ev_state (sc_events s p) = ABORTED"
    "AbortEvent e \<in> set cs \<Longrightarrow> e \<in> X \<or> ev_saw_aborted_dependency (sc_events s e)"
    "ev_state (sc_events s e) = ABORTED \<Longrightarrow> e \<in> X \<or> (\<exists>p. (e, p) \<in> set E \<and> ev_state (sc_events s p) = ABORTED)"
  using assms unfolding aborts_inv_def by blast+

lemma roots_invD:
  assumes "roots_inv E U cs s"
  shows "e \<in> U \<Longrightarrow> ev_state (sc_events s e) = PENDING" "e \<in> U \<Longrightarrow> e \<notin> set (decisions cs)"
    "e \<in> U \<Longrightarrow> (e, p) \<notin> set E" "CompleteDependency e a \<in> set cs \<Longrightarrow> \<exists>p. (e, p) \<in> set E"
  using assms unfolding roots_inv_def by blast+

lemma terminal_cong: "ev_state (sc_events s' e) = ev_state (sc_events s e) \<Longrightarrow> terminal s' e = terminal s e"
  by (simp add: terminal_def)

lemma complete_step:
  assumes run: "make_call (CompleteDependency e a) s = Inr (new, s')"
    and inv: "dag_inv E U X (CompleteDependency e a # cs) s"
  shows "dag_inv E U X (new @ cs) s'"
proof -
  note I = dag_invD [OF inv]
  define prev where "prev = ev_pending_dependencies (sc_events s e)"
  define saw where "saw = (ev_saw_aborted_dependency (sc_events s e) \<or> a)"
  have new: "new = (if prev \<noteq> 1 then [] else if saw then [AbortEvent e] else [TrySchedule e])"
    using run by (auto simp: Let_def prev_def saw_def split: if_splits)
  have s': "ev_pending_dependencies (sc_events s' d) = (if d = e then prev - 1 else ev_pending_dependencies (sc_events s d))"
    "ev_saw_aborted_dependency (sc_events s' d) = (if d = e then saw else ev_saw_aborted_dependency (sc_events s d))"
    "ev_state (sc_events s' d) = ev_state (sc_events s d)" "ev_dependents (sc_events s' d) = ev_dependents (sc_events s d)"
    "event_count s' = event_count s" for d
    using run by (auto simp: Let_def prev_def saw_def split: if_splits)
  have tm: "terminal s' d = terminal s d" for d by (simp add: terminal_def s')
  have wf: "waits_for E s' d = waits_for E s d" for d by (simp add: waits_for_def tm)
  have prev: "prev = int (waits_for E s e + (1 + announced cs e))"
    using I(2) by (simp add: states_inv_def prev_def)
  have pend: "ev_state (sc_events s e) = PENDING" using states_invD(4) [OF I(2), of e] prev by (auto simp: prev_def)
  have undecided: "e \<notin> set (decisions cs)" using calls_invD(3) [OF I(3), of e] prev by (auto simp: prev_def)
  have root: "e \<notin> U" using roots_invD(3,4) [OF I(5), of e] by (metis list.set_intros(1))
  have lt: "e < event_count s" using I(3) by (simp add: calls_inv_def)
  have settled: "waits_for E s e = 0" "announced cs e = 0" if "prev = 1" using prev that by auto
  have fin: "ev_state (sc_events s p) = FINISHED" if "prev = 1" "\<not> saw" "(e, p) \<in> set E" for p
  proof -
    have "terminal s p" using settled(1) [OF that(1)] that(3) waits_for_0 by blast
    moreover have "ev_state (sc_events s p) \<noteq> ABORTED"
    proof
      assume "ev_state (sc_events s p) = ABORTED"
      then have "ev_saw_aborted_dependency (sc_events s e) \<or> CompleteDependency e True \<in> set (CompleteDependency e a # cs)"
        using I(4) that(3) unfolding aborts_inv_def by blast
      then have "CompleteDependency e True \<in> set cs" using that(2) by (auto simp: saw_def)
      then show False using announced_pos settled(2) [OF that(1)] by fastforce
    qed
    ultimately show ?thesis by (simp add: terminal_def)
  qed
  have dec: "decisions (new @ cs) = (if prev = 1 then e # decisions cs else decisions cs)" by (simp add: new)
  have in_new: "c \<in> set (new @ cs) \<longleftrightarrow> c \<in> set cs \<or> prev = 1 \<and> (saw \<and> c = AbortEvent e \<or> \<not> saw \<and> c = TrySchedule e)" for c
    by (auto simp: new)
  have "edges_ok E (event_count s')" using I(1) s'(5) by simp
  moreover have "states_inv E U (new @ cs) s'"
    unfolding states_inv_def s' tm wf dec
  proof (intro conjI allI impI)
    fix d
    show "(if d = e then prev - 1 else ev_pending_dependencies (sc_events s d)) = int (waits_for E s d + announced (new @ cs) d)"
      using I(2) prev by (auto simp: states_inv_def new)
    show "(if d = e then prev - 1 else ev_pending_dependencies (sc_events s d)) = 0" if "ev_state (sc_events s d) \<noteq> PENDING"
      using that pend I(2) by (auto simp: states_inv_def)
    show "0 < (if d = e then prev - 1 else ev_pending_dependencies (sc_events s d)) \<or>
        d \<in> set (if prev = 1 then e # decisions cs else decisions cs) \<or> d \<in> U \<or> \<not> d < event_count s"
      if "ev_state (sc_events s d) = PENDING"
      using that I(2) prev by (auto simp: states_inv_def)
  qed (use I(2) in \<open>auto simp: states_inv_def\<close>)
  moreover have "calls_inv E (new @ cs) s'"
  proof -
    have "\<forall>c\<in>set (new @ cs). call_event c < event_count s" using calls_invD(2) [OF I(3)] lt by (auto simp: new)
    then show ?thesis unfolding calls_inv_def s' tm in_new dec
      using I(3) undecided pend fin by (auto simp: calls_inv_def simp del: set_append)
  qed
  moreover have "aborts_inv E X (new @ cs) s'"
  proof -
    have saw': "saw \<or> CompleteDependency e True \<in> set cs \<longleftrightarrow>
        ev_saw_aborted_dependency (sc_events s e) \<or> CompleteDependency e True \<in> set (CompleteDependency e a # cs)"
      by (auto simp: saw_def)
    note A = aborts_invD [OF I(4)]
    show ?thesis unfolding aborts_inv_def s' in_new
    proof (intro conjI allI impI)
      fix d p assume dp: "(d, p) \<in> set E" "ev_state (sc_events s p) = ABORTED"
      show "(if d = e then saw else ev_saw_aborted_dependency (sc_events s d)) \<or>
          CompleteDependency d True \<in> set cs \<or>
          prev = 1 \<and> (saw \<and> CompleteDependency d True = AbortEvent e \<or> \<not> saw \<and> CompleteDependency d True = TrySchedule e)"
        using A(2) [OF dp] saw' by auto
    next
      fix d
      assume "(if d = e then saw else ev_saw_aborted_dependency (sc_events s d)) \<or>
          CompleteDependency d True \<in> set cs \<or>
          prev = 1 \<and> (saw \<and> CompleteDependency d True = AbortEvent e \<or> \<not> saw \<and> CompleteDependency d True = TrySchedule e)"
      then have "ev_saw_aborted_dependency (sc_events s d) \<or> CompleteDependency d True \<in> set (CompleteDependency e a # cs)"
        using saw' by (auto split: if_splits)
      then show "\<exists>p. (d, p) \<in> set E \<and> ev_state (sc_events s p) = ABORTED" by (rule A(3))
    next
      fix d assume "AbortEvent d \<in> set cs \<or> prev = 1 \<and> (saw \<and> AbortEvent d = AbortEvent e \<or> \<not> saw \<and> AbortEvent d = TrySchedule e)"
      then show "d \<in> X \<or> (if d = e then saw else ev_saw_aborted_dependency (sc_events s d))"
        using A(4) [of d] by (auto simp: saw_def)
    qed (use A(1,5) in blast)+
  qed
  moreover have "roots_inv E U (new @ cs) s'"
    using I(5) root unfolding roots_inv_def s' in_new dec by auto
  ultimately show ?thesis by (simp add: dag_inv_def)
qed

lemma schedule_step:
  assumes run: "make_call (TrySchedule e) s = Inr (new, s')" and inv: "dag_inv E U X (TrySchedule e # cs) s"
  shows "dag_inv E U X (new @ cs) s'"
proof -
  note I = dag_invD [OF inv]
  have pend: "ev_state (sc_events s e) = PENDING" "\<And>p. (e, p) \<in> set E \<Longrightarrow> ev_state (sc_events s p) = FINISHED"
    using I(3) by (simp_all add: calls_inv_def)
  have zero: "ev_pending_dependencies (sc_events s e) = 0" "e \<notin> set (decisions cs)" "e < event_count s"
    using I(3) by (simp_all add: calls_inv_def)
  have enq: "EnqueueTasks e (update_event e (\<lambda>ev. ev\<lparr>ev_state := SCHEDULED\<rparr>) s) = Inr (new, s')"
    using run pend by simp
  note fr = EnqueueTasks_frame [OF enq]
  have new: "new = [] \<or> new = [FinishEvent e]" using fr by simp
  have cnt: "event_count s' = event_count s" using fr event_count_frame by (metis update_event_simps(3))
  have s': "ev_pending_dependencies (sc_events s' d) = ev_pending_dependencies (sc_events s d)"
    "ev_saw_aborted_dependency (sc_events s' d) = ev_saw_aborted_dependency (sc_events s d)"
    "ev_state (sc_events s' d) = (if d = e then SCHEDULED else ev_state (sc_events s d))"
    "ev_dependents (sc_events s' d) = ev_dependents (sc_events s d)" for d
    using fr by auto
  have tm: "terminal s' d = terminal s d" for d using pend by (simp add: terminal_def s')
  have wf: "waits_for E s' d = waits_for E s d" for d by (simp add: waits_for_def tm)
  have ann: "announced (new @ cs) d = announced cs d" for d using new by auto
  have dec: "set (decisions (new @ cs)) \<subseteq> insert e (set (decisions cs))" "set (decisions cs) \<subseteq> set (decisions (new @ cs))"
    "distinct (decisions (new @ cs))" using new I(3) by (auto simp: calls_inv_def)
  have "states_inv E U (new @ cs) s'"
    using I(2) zero(1) dec(2) unfolding states_inv_def s' tm wf ann cnt by auto
  moreover have "calls_inv E (new @ cs) s'"
  proof -
    have other: "d \<noteq> e" if "TrySchedule d \<in> set cs \<or> AbortEvent d \<in> set cs \<or> FinishEvent d \<in> set cs" for d
      using that zero(2) decision_in by blast
    have in_new: "c \<in> set (new @ cs) \<Longrightarrow> c \<in> set cs \<or> c = FinishEvent e" for c using new by auto
    show ?thesis
      unfolding calls_inv_def s' tm cnt
    proof (intro conjI allI impI ballI)
      show "distinct (decisions (new @ cs))" by (rule dec(3))
      show "call_event c < event_count s" if "c \<in> set (new @ cs)" for c
        using in_new [OF that] I(3) zero(3) by (auto simp: calls_inv_def)
      show "ev_pending_dependencies (sc_events s d) = 0" if "d \<in> set (decisions (new @ cs))" for d
        using that dec(1) I(3) zero(1) by (auto simp: calls_inv_def)
    next
      fix d assume "TrySchedule d \<in> set (new @ cs)"
      then have d: "TrySchedule d \<in> set cs" using in_new by blast
      then show "(if d = e then SCHEDULED else ev_state (sc_events s d)) = PENDING" using other I(3) by (auto simp: calls_inv_def)
      fix p assume "(d, p) \<in> set E"
      then have "ev_state (sc_events s p) = FINISHED" using d I(3) by (auto simp: calls_inv_def)
      then show "(if p = e then SCHEDULED else ev_state (sc_events s p)) = FINISHED" using pend by auto
    next
      fix d assume "AbortEvent d \<in> set (new @ cs)"
      then have "AbortEvent d \<in> set cs" using in_new by blast
      then show "(if d = e then SCHEDULED else ev_state (sc_events s d)) \<in> {PENDING, SCHEDULED}" using I(3) by (auto simp: calls_inv_def)
    next
      fix d assume "FinishEvent d \<in> set (new @ cs)"
      then show "(if d = e then SCHEDULED else ev_state (sc_events s d)) = SCHEDULED" using in_new I(3) by (fastforce simp: calls_inv_def)
    next
      fix d assume "ClearDependents d \<in> set (new @ cs)"
      then show "terminal s d" using in_new I(3) by (fastforce simp: calls_inv_def)
    qed
  qed
  moreover have "aborts_inv E X (new @ cs) s'"
  proof -
    have keep: "CompleteDependency d b \<in> set (new @ cs) \<longleftrightarrow> CompleteDependency d b \<in> set cs"
      "AbortEvent d \<in> set (new @ cs) \<longleftrightarrow> AbortEvent d \<in> set cs" for d b using new by auto
    note A = aborts_invD [OF I(4)]
    have keep': "CompleteDependency d True \<in> set (TrySchedule e # cs) \<longleftrightarrow> CompleteDependency d True \<in> set cs" for d by simp
    have ab: "(if d = e then SCHEDULED else ev_state (sc_events s d)) = ABORTED \<longleftrightarrow> ev_state (sc_events s d) = ABORTED" for d
      using pend(1) by simp
    show ?thesis unfolding aborts_inv_def keep s' ab
    proof (intro conjI allI impI)
      fix d p assume "(if d = e then SCHEDULED else ev_state (sc_events s d)) \<in> {SCHEDULED, FINISHED}" and dp: "(d, p) \<in> set E"
      then have "ev_state (sc_events s p) = FINISHED" using pend(2) A(1) [of d p] by (cases "d = e") simp_all
      then show "(if p = e then SCHEDULED else ev_state (sc_events s p)) = FINISHED" using pend(1) by auto
    next
      fix d assume "AbortEvent d \<in> set cs"
      then show "d \<in> X \<or> ev_saw_aborted_dependency (sc_events s d)" using A(4) [of d] by simp
    qed (use A(2,3,5) keep' in blast)+
  qed
  moreover have "roots_inv E U (new @ cs) s'"
    using I(5) dec(1) new unfolding roots_inv_def s' by auto
  ultimately show ?thesis using I(1) cnt by (simp add: dag_inv_def)
qed

text \<open>Aborting and finishing an event differ in the state they leave and in what they tell the children.\<close>

lemma terminate_step:
  assumes c: "c = AbortEvent e \<and> st = ABORTED \<and> a \<or> c = FinishEvent e \<and> st = FINISHED \<and> \<not> a"
    and inv: "dag_inv E U X (c # cs) s"
    and new: "new = map (\<lambda>d. CompleteDependency d a) (children E e) @ [ClearDependents e]"
    and s': "s' = update_event e (\<lambda>ev. ev\<lparr>ev_state := st\<rparr>) s"
  shows "dag_inv E U X (new @ cs) s'"
proof -
  note I = dag_invD [OF inv]
  note S = states_invD [OF I(2)] and C = calls_invD [OF I(3)] and A = aborts_invD [OF I(4)] and R = roots_invD [OF I(5)]
  have dec: "decisions (c # cs) = e # decisions cs" "decisions (new @ cs) = decisions cs"
    using c by (auto simp: new notify_calls)
  have old: "ev_state (sc_events s e) \<in> {PENDING, SCHEDULED}" "c = FinishEvent e \<Longrightarrow> ev_state (sc_events s e) = SCHEDULED"
    using c C(6,7) [of e] by auto
  have und: "e \<notin> set (decisions cs)" using C(1) dec(1) by simp
  have ev: "ev_state (sc_events s' d) = (if d = e then st else ev_state (sc_events s d))"
    "ev_pending_dependencies (sc_events s' d) = ev_pending_dependencies (sc_events s d)"
    "ev_saw_aborted_dependency (sc_events s' d) = ev_saw_aborted_dependency (sc_events s d)"
    "ev_dependents (sc_events s' d) = ev_dependents (sc_events s d)" "event_count s' = event_count s" for d
    by (simp_all add: s')
  have st: "st = ABORTED \<or> st = FINISHED" "st \<noteq> PENDING" "st \<noteq> SCHEDULED" using c by auto
  have tm: "terminal s' d \<longleftrightarrow> terminal s d \<or> d = e" for d using st by (auto simp: terminal_def ev)
  have ntm: "\<not> terminal s e" using old by (auto simp: terminal_def)
  have count: "waits_for E s' d + announced (new @ cs) d = waits_for E s d + announced (c # cs) d" for d
    using waits_for_terminal [OF ntm tm, of E d] c by (auto simp: new notify_calls)
  have told: "CompleteDependency d b \<in> set (new @ cs) \<longleftrightarrow> b = a \<and> (d, e) \<in> set E \<or> CompleteDependency d b \<in> set (c # cs)" for d b
    using c by (auto simp: new notify_calls simp flip: set_map)
  have other: "x \<in> set (new @ cs) \<Longrightarrow> decides x \<Longrightarrow> x \<in> set (c # cs) \<and> call_event x \<noteq> e" for x
    using und by (auto simp: new decisions_def)
  have "states_inv E U (new @ cs) s'"
    unfolding states_inv_def ev tm dec count
  proof (intro conjI allI impI)
    fix d
    show "(if d = e then st else ev_state (sc_events s d)) \<in> {PENDING, SCHEDULED, FINISHED, ABORTED}" using S(1) st by auto
    show "ev_dependents (sc_events s d) = children E d \<or> (terminal s d \<or> d = e) \<and> ev_dependents (sc_events s d) = []"
      using S(2) by blast
    show "ev_pending_dependencies (sc_events s d) = int (waits_for E s d + announced (c # cs) d)" by (rule S(3))
    show "ev_pending_dependencies (sc_events s d) = 0" if "(if d = e then st else ev_state (sc_events s d)) \<noteq> PENDING"
      using that S(4) [of d] C(3) [of e] dec(1) by (cases "d = e") simp_all
    show "0 < ev_pending_dependencies (sc_events s d) \<or> d \<in> set (decisions cs) \<or> d \<in> U \<or> \<not> d < event_count s"
      if "(if d = e then st else ev_state (sc_events s d)) = PENDING"
      using that S(5) [of d] st dec(1) by (cases "d = e") auto
  qed
  moreover have "calls_inv E (new @ cs) s'"
    unfolding calls_inv_def ev tm dec
  proof (intro conjI allI impI ballI)
    show "distinct (decisions cs)" using C(1) dec(1) by simp
    show "call_event x < event_count s" if "x \<in> set (new @ cs)" for x
      using that C(2) [of x] C(2) [of c] I(1) c by (auto simp: new children_def edges_ok_def)
    show "ev_pending_dependencies (sc_events s d) = 0" if "d \<in> set (decisions cs)" for d
      using that C(3) [of d] dec(1) by simp
  next
    fix d assume "TrySchedule d \<in> set (new @ cs)"
    then have d: "TrySchedule d \<in> set (c # cs)" "d \<noteq> e" using other by force+
    then show "(if d = e then st else ev_state (sc_events s d)) = PENDING" using C(4) by simp
    fix p assume "(d, p) \<in> set E"
    then have "ev_state (sc_events s p) = FINISHED" using d C(5) by blast
    then show "(if p = e then st else ev_state (sc_events s p)) = FINISHED" using old by auto
  next
    fix d assume "AbortEvent d \<in> set (new @ cs)"
    then have d: "AbortEvent d \<in> set (c # cs)" "d \<noteq> e" using other by force+
    then show "(if d = e then st else ev_state (sc_events s d)) \<in> {PENDING, SCHEDULED}" using C(6) by simp
  next
    fix d assume "FinishEvent d \<in> set (new @ cs)"
    then have d: "FinishEvent d \<in> set (c # cs)" "d \<noteq> e" using other by force+
    then show "(if d = e then st else ev_state (sc_events s d)) = SCHEDULED" using C(7) by simp
  next
    fix d assume "ClearDependents d \<in> set (new @ cs)"
    then have "d = e \<or> ClearDependents d \<in> set (c # cs)" by (auto simp: new)
    then show "terminal s d \<or> d = e" using C(8) by blast
  qed
  moreover have "aborts_inv E X (new @ cs) s'"
    unfolding aborts_inv_def ev told
  proof (intro conjI allI impI)
    fix d p assume d: "(if d = e then st else ev_state (sc_events s d)) \<in> {SCHEDULED, FINISHED}" and dp: "(d, p) \<in> set E"
    then have "ev_state (sc_events s d) \<in> {SCHEDULED, FINISHED}" using c old(2) by (cases "d = e") auto
    then have "ev_state (sc_events s p) = FINISHED" using A(1) dp by blast
    then show "(if p = e then st else ev_state (sc_events s p)) = FINISHED" using old(1) by auto
  next
    fix d p assume dp: "(d, p) \<in> set E" and p: "(if p = e then st else ev_state (sc_events s p)) = ABORTED"
    show "ev_saw_aborted_dependency (sc_events s d) \<or>
        (True = a \<and> (d, e) \<in> set E \<or> CompleteDependency d True \<in> set (c # cs))"
      using A(2) [OF dp] dp p c by (cases "p = e") auto
  next
    fix d assume "ev_saw_aborted_dependency (sc_events s d) \<or>
        (True = a \<and> (d, e) \<in> set E \<or> CompleteDependency d True \<in> set (c # cs))"
    then consider "a" "(d, e) \<in> set E" | "ev_saw_aborted_dependency (sc_events s d) \<or> CompleteDependency d True \<in> set (c # cs)"
      by blast
    then show "\<exists>p. (d, p) \<in> set E \<and> (if p = e then st else ev_state (sc_events s p)) = ABORTED"
    proof cases
      case 2
      then obtain p where "(d, p) \<in> set E" "ev_state (sc_events s p) = ABORTED" using A(3) by blast
      then show ?thesis using old(1) by (intro exI [of _ p]) auto
    qed (use c in auto)
  next
    fix d assume "AbortEvent d \<in> set (new @ cs)"
    then have "AbortEvent d \<in> set (c # cs)" using other by force
    then show "d \<in> X \<or> ev_saw_aborted_dependency (sc_events s d)" by (rule A(4))
  next
    fix d assume d: "(if d = e then st else ev_state (sc_events s d)) = ABORTED"
    have "d \<in> X \<or> (\<exists>p. (d, p) \<in> set E \<and> ev_state (sc_events s p) = ABORTED)"
    proof (cases "d = e")
      case True
      then have "AbortEvent e \<in> set (c # cs)" using d c by auto
      then show ?thesis using A(3,4) True by blast
    qed (use d A(5) in simp)
    then show "d \<in> X \<or> (\<exists>p. (d, p) \<in> set E \<and> (if p = e then st else ev_state (sc_events s p)) = ABORTED)"
      using old(1) by fastforce
  qed
  moreover have "roots_inv E U (new @ cs) s'"
    unfolding roots_inv_def ev told dec using R dec(1) by (metis list.set_intros(1,2))
  ultimately show ?thesis using I(1) by (simp add: dag_inv_def ev)
qed

lemma dag_step:
  assumes run: "make_call c s = Inr (new, s')" and inv: "dag_inv E U X (c # cs) s"
  shows "dag_inv E U X (new @ cs) s'"
proof -
  note I = dag_invD [OF inv]
  have dependents: "ev_dependents (sc_events s e) = children E e" if "ev_state (sc_events s e) \<in> {PENDING, SCHEDULED}" for e
    using states_invD(2) [OF I(2), of e] that by (auto simp: terminal_def)
  show ?thesis
  proof (cases c)
    case (CompleteDependency e a)
    then show ?thesis using complete_step run inv by blast
  next
    case (TrySchedule e)
    then show ?thesis using schedule_step run inv by blast
  next
    case (AbortEvent e)
    then have st: "ev_state (sc_events s e) \<in> {PENDING, SCHEDULED}" using calls_invD(6) [OF I(3), of e] by simp
    then show ?thesis
      using run AbortEvent dependents [OF st]
      by (intro terminate_step [where c = c and e = e and st = ABORTED and a = True, OF _ inv])
        (auto simp: Let_def NotifyDependents_def)
  next
    case (FinishEvent e)
    then have st: "ev_state (sc_events s e) = SCHEDULED" using calls_invD(7) [OF I(3), of e] by simp
    then show ?thesis
      using run FinishEvent dependents [of e]
      by (intro terminate_step [where c = c and e = e and st = FINISHED and a = False, OF _ inv])
        (auto simp: Let_def NotifyDependents_def)
  next
    case (ClearDependents e)
    have t: "terminal s e" using calls_invD(8) [OF I(3), of e] ClearDependents by simp
    have s': "new = []" "s' = update_event e (\<lambda>ev. ev\<lparr>ev_dependents := []\<rparr>) s" using run ClearDependents by auto
    have ev: "ev_state (sc_events s' d) = ev_state (sc_events s d)" "terminal s' d = terminal s d"
      "ev_pending_dependencies (sc_events s' d) = ev_pending_dependencies (sc_events s d)"
      "ev_saw_aborted_dependency (sc_events s' d) = ev_saw_aborted_dependency (sc_events s d)" "event_count s' = event_count s"
      "d \<noteq> e \<Longrightarrow> ev_dependents (sc_events s' d) = ev_dependents (sc_events s d)" for d
      by (simp_all add: s' terminal_def)
    have wf: "waits_for E s' d = waits_for E s d" for d by (simp add: waits_for_def ev)
    have in_cs: "x \<in> set (c # cs) \<longleftrightarrow> x = ClearDependents e \<or> x \<in> set cs" for x using ClearDependents by auto
    have "states_inv E U cs s'"
    proof -
      have "ev_dependents (sc_events s' d) = children E d \<or> terminal s d \<and> ev_dependents (sc_events s' d) = []" for d
        using states_invD(2) [OF I(2), of d] t by (cases "d = e") (simp_all add: s')
      moreover have "states_inv E U cs s"
        using I(2) unfolding states_inv_def ClearDependents decisions_simps announced_simps .
      ultimately show ?thesis unfolding states_inv_def ev(1-5) wf by blast
    qed
    moreover have "calls_inv E cs s'"
      using I(3) ClearDependents unfolding calls_inv_def ev in_cs by simp
    moreover have "aborts_inv E X cs s'"
    proof -
      have "aborts_inv E X cs s"
        using I(4) unfolding aborts_inv_def in_cs by (simp only: event_call.distinct simp_thms)
      then show ?thesis unfolding aborts_inv_def ev(1-4) .
    qed
    moreover have "roots_inv E U cs s'"
      using I(5) ClearDependents unfolding roots_inv_def ev in_cs by simp
    ultimately show ?thesis using I(1) ev(5) by (simp add: dag_inv_def s'(1))
  qed
qed

lemma run_calls_inv: "run_calls fuel cs s = Some (Inr s') \<Longrightarrow> dag_inv E U X cs s \<Longrightarrow> dag_inv E U X [] s'"
proof (induction fuel cs s rule: run_calls.induct)
  case (3 fuel c cs s)
  then show ?case using dag_step by (fastforce split: sum.splits)
qed simp_all

lemma dag_calls_ok:
  assumes "dag_inv E U X cs s"
  shows "calls_ok (length E) cs s"
proof -
  note I = dag_invD [OF assms]
  have "length (ev_dependents (sc_events s e)) \<le> length E" "set (ev_dependents (sc_events s e)) \<subseteq> set (children E e)" for e
    using states_invD(2) [OF I(2), of e] by (auto simp: children_def)
  moreover have "set (children E e) \<subseteq> {..<event_count s}" for e
    using I(1) by (auto simp: children_def edges_ok_def)
  ultimately show ?thesis using calls_invD(2) [OF I(3)] by (fastforce simp: calls_ok_def)
qed

section \<open>The graph that is built\<close>

lemma AddDependency_simps [simp]:
  "ev_dependents (AddDependency c p ev e) = ev_dependents (ev e) @ (if p = e then [c] else [])"
  "ev_pending_dependencies (AddDependency c p ev e) = ev_pending_dependencies (ev e) + (if c = e then 1 else 0)"
  "ev_state (AddDependency c p ev e) = ev_state (ev e)"
  "ev_saw_aborted_dependency (AddDependency c p ev e) = ev_saw_aborted_dependency (ev e)"
  "ev_pipeline_id (AddDependency c p ev e) = ev_pipeline_id (ev e)"
  "ev_kind (AddDependency c p ev e) = ev_kind (ev e)"
  by (simp_all add: AddDependency_def Let_def)

lemma AddDependency_fold:
  "ev_dependents (fold (\<lambda>(c, p). AddDependency c p) E ev e) = ev_dependents (ev e) @ children E e"
  "ev_pending_dependencies (fold (\<lambda>(c, p). AddDependency c p) E ev e) =
     ev_pending_dependencies (ev e) + int (length (filter (\<lambda>(c, p). c = e) E))"
  "ev_state (fold (\<lambda>(c, p). AddDependency c p) E ev e) = ev_state (ev e)"
  "ev_saw_aborted_dependency (fold (\<lambda>(c, p). AddDependency c p) E ev e) = ev_saw_aborted_dependency (ev e)"
  "ev_pipeline_id (fold (\<lambda>(c, p). AddDependency c p) E ev e) = ev_pipeline_id (ev e)"
  "ev_kind (fold (\<lambda>(c, p). AddDependency c p) E ev e) = ev_kind (ev e)"
  by (induction E arbitrary: ev) (simp_all add: children_def case_prod_unfold)

definition initial_events :: "pipeline list \<Rightarrow> nat list" where
  "initial_events ps = map (\<lambda>i. 3 * i) (filter (\<lambda>i. pl_depends_on (ps ! i) = []) [0..<length ps])"

text \<open>A pipeline only waits for pipelines created after it.\<close>

definition later_dependencies :: "pipeline list \<Rightarrow> bool" where
  "later_dependencies ps \<longleftrightarrow> (\<forall>i<length ps. \<forall>d\<in>set (pl_depends_on (ps ! i)). i < d \<and> d < length ps)"

lemma dependency_edges_iff:
  "(c, p) \<in> set (dependency_edges ps) \<longleftrightarrow>
     (\<exists>i<length ps. c = 3 * i + 1 \<and> p = 3 * i \<or> c = 3 * i + 2 \<and> p = 3 * i + 1 \<or>
        (\<exists>d\<in>set (pl_depends_on (ps ! i)). c = 3 * i \<and> p = 3 * d + 2))"
  by (auto simp: dependency_edges_def)

lemma event_count_BuildEvents [simp]: "event_count (BuildEvents ps w q) = 3 * length ps"
  by (simp add: event_count_def BuildEvents_def)

lemma BuildEvents_event:
  "sc_events (BuildEvents ps w q) e =
     \<lparr>ev_pipeline_id = e div 3, ev_kind = event_kind_of e, ev_state = PENDING,
      ev_pending_dependencies = int (length (filter (\<lambda>(c, p). c = e) (dependency_edges ps))),
      ev_saw_aborted_dependency = False, ev_dependents = children (dependency_edges ps) e\<rparr>"
  by (rule event.equality) (simp_all add: BuildEvents_def AddDependency_fold new_event_def)

lemma BuildEvents_inv:
  assumes "later_dependencies ps"
  shows "dag_inv (dependency_edges ps) (set (initial_events ps)) {} [] (BuildEvents ps w q)"
proof -
  let ?E = "dependency_edges ps" and ?s = "BuildEvents ps w q"
  have "edges_ok ?E (event_count ?s)"
  proof -
    have "c < 3 * length ps \<and> p < 3 * length ps" if edge: "(c, p) \<in> set ?E" for c p
    proof -
      obtain i where i: "i < length ps" "c = 3 * i + 1 \<and> p = 3 * i \<or> c = 3 * i + 2 \<and> p = 3 * i + 1 \<or>
          (\<exists>d\<in>set (pl_depends_on (ps ! i)). c = 3 * i \<and> p = 3 * d + 2)"
        using edge unfolding dependency_edges_iff by blast
      moreover have "d < length ps" if "d \<in> set (pl_depends_on (ps ! i))" for d
        using assms that i(1) unfolding later_dependencies_def by blast
      ultimately show ?thesis by fastforce
    qed
    then show ?thesis by (auto simp: edges_ok_def)
  qed
  moreover have "states_inv ?E (set (initial_events ps)) [] ?s"
  proof -
    have "waits_for ?E ?s e = length (filter (\<lambda>(c, p). c = e) ?E)" for e
      by (simp add: waits_for_def terminal_def BuildEvents_event case_prod_unfold)
    moreover have "e \<in> set (initial_events ps)" if "filter (\<lambda>(c, p). c = e) ?E = []" "e < 3 * length ps" for e
    proof -
      have none: "(e, p) \<notin> set ?E" for p using that(1) by (auto simp: filter_empty_conv)
      define i where "i = e div 3"
      have i: "i < length ps" using that(2) by (auto simp: i_def)
      consider "e = 3 * i" | "e = 3 * i + 1" | "e = 3 * i + 2" unfolding i_def by linarith
      then show ?thesis
      proof cases
        case 1
        then have "pl_depends_on (ps ! i) = []" using none [unfolded dependency_edges_iff] i by (metis list.set_intros(1) neq_Nil_conv)
        then show ?thesis using 1 i by (simp add: initial_events_def)
      qed (use none i dependency_edges_iff in blast)+
    qed
    ultimately show ?thesis by (auto simp: states_inv_def BuildEvents_event)
  qed
  moreover have "calls_inv ?E [] ?s" "aborts_inv ?E {} [] ?s"
    by (simp_all add: calls_inv_def aborts_inv_def BuildEvents_event)
  moreover have "roots_inv ?E (set (initial_events ps)) [] ?s"
    by (auto simp: roots_inv_def BuildEvents_event initial_events_def dependency_edges_iff) presburger+
  ultimately show ?thesis by (simp add: dag_inv_def)
qed

lemma aborts_inv_quiet:
  assumes "aborts_inv E X [] s" "\<And>e. CompleteDependency e True \<notin> set cs" "\<And>e. AbortEvent e \<notin> set cs"
  shows "aborts_inv E X cs s"
proof -
  note A = aborts_invD [OF assms(1)]
  show ?thesis unfolding aborts_inv_def
  proof (intro conjI allI impI)
    fix e p assume "ev_state (sc_events s e) \<in> {SCHEDULED, FINISHED}" "(e, p) \<in> set E"
    then show "ev_state (sc_events s p) = FINISHED" by (rule A(1))
  next
    fix e p assume "(e, p) \<in> set E" "ev_state (sc_events s p) = ABORTED"
    then show "ev_saw_aborted_dependency (sc_events s e) \<or> CompleteDependency e True \<in> set cs"
      using A(2) by fastforce
  next
    fix e assume "ev_saw_aborted_dependency (sc_events s e) \<or> CompleteDependency e True \<in> set cs"
    then show "\<exists>p. (e, p) \<in> set E \<and> ev_state (sc_events s p) = ABORTED" using A(3) assms(2) by blast
  next
    fix e assume "ev_state (sc_events s e) = ABORTED"
    then show "e \<in> X \<or> (\<exists>p. (e, p) \<in> set E \<and> ev_state (sc_events s p) = ABORTED)" by (rule A(5))
  qed (use assms(3) in blast)
qed

text \<open>What the leader starts from a state at rest: an initial event, and the end of a scheduled one.\<close>

lemma start_initial:
  assumes inv: "dag_inv E U X [] s" and e: "e \<in> U" "e < event_count s"
  shows "dag_inv E (U - {e}) X [TrySchedule e] s"
proof -
  note I = dag_invD [OF inv]
  note R = roots_invD [OF I(5)]
  have "waits_for E s e = 0" using R(3) [OF e(1)] by (simp add: waits_for_0)
  then have zero: "ev_pending_dependencies (sc_events s e) = 0" using states_invD(3) [OF I(2), of e] by simp
  have "states_inv E (U - {e}) [TrySchedule e] s"
    using I(2) unfolding states_inv_def decisions_simps announced_simps list.set by blast
  moreover have "calls_inv E [TrySchedule e] s" using zero R(1,3) e by (simp add: calls_inv_def)
  moreover have "aborts_inv E X [TrySchedule e] s" by (rule aborts_inv_quiet [OF I(4)]) simp_all
  moreover have "roots_inv E (U - {e}) [TrySchedule e] s" using I(5) unfolding roots_inv_def by auto
  ultimately show ?thesis using I(1) by (simp add: dag_inv_def)
qed

lemma start_finish:
  assumes inv: "dag_inv E U X [] s" and e: "ev_state (sc_events s e) = SCHEDULED" "e < event_count s"
  shows "dag_inv E U X [FinishEvent e] s"
proof -
  note I = dag_invD [OF inv]
  have zero: "ev_pending_dependencies (sc_events s e) = 0" using states_invD(4) [OF I(2), of e] e by simp
  have "states_inv E U [FinishEvent e] s"
    using I(2) unfolding states_inv_def decisions_simps announced_simps list.set by blast
  moreover have "calls_inv E [FinishEvent e] s" using zero e by (simp add: calls_inv_def)
  moreover have "aborts_inv E X [FinishEvent e] s" by (rule aborts_inv_quiet [OF I(4)]) simp_all
  moreover have "roots_inv E U [FinishEvent e] s" using I(5) e unfolding roots_inv_def by auto
  ultimately show ?thesis using I(1) by (simp add: dag_inv_def)
qed

text \<open>
  No event waits for ever: a graph at rest whose initial events are scheduled, and in which no event is
  scheduled, is over. The rank of an event decreases along its dependencies.
\<close>

definition event_rank :: "nat \<Rightarrow> nat \<Rightarrow> nat" where
  "event_rank n e = 3 * (n - e div 3) + e mod 3"

lemma rank_decreases:
  assumes "later_dependencies ps" "(c, p) \<in> set (dependency_edges ps)"
  shows "event_rank (length ps) p < event_rank (length ps) c"
proof -
  obtain i where i: "i < length ps" "c = 3 * i + 1 \<and> p = 3 * i \<or> c = 3 * i + 2 \<and> p = 3 * i + 1 \<or>
      (\<exists>d\<in>set (pl_depends_on (ps ! i)). c = 3 * i \<and> p = 3 * d + 2)"
    using assms(2) unfolding dependency_edges_iff by blast
  from i(2) show ?thesis
  proof (elim disjE bexE conjE)
    fix d assume d: "d \<in> set (pl_depends_on (ps ! i))" "c = 3 * i" "p = 3 * d + 2"
    then have "i < d" "d < length ps" using assms(1) i(1) unfolding later_dependencies_def by blast+
    moreover have "p div 3 = d" "p mod 3 = 2" using d(3) by presburger+
    ultimately show ?thesis using d(2) by (simp add: event_rank_def)
  next
    assume c: "c = 3 * i + 1" "p = 3 * i"
    then have "c div 3 = i" "c mod 3 = 1" by presburger+
    then show ?thesis using c by (simp add: event_rank_def)
  next
    assume c: "c = 3 * i + 2" "p = 3 * i + 1"
    then have "c div 3 = i" "c mod 3 = 2" "p div 3 = i" "p mod 3 = 1" by presburger+
    then show ?thesis by (simp add: event_rank_def)
  qed
qed

lemma at_rest_is_over:
  assumes inv: "dag_inv (dependency_edges ps) {} X [] s" and ps: "later_dependencies ps"
    and none: "\<And>e. e < event_count s \<Longrightarrow> ev_state (sc_events s e) \<noteq> SCHEDULED" and "e < event_count s"
  shows "terminal s e"
  using \<open>e < event_count s\<close>
proof (induction "event_rank (length ps) e" arbitrary: e rule: less_induct)
  case less
  note I = dag_invD [OF inv]
  have "ev_state (sc_events s e) \<noteq> PENDING"
  proof
    assume "ev_state (sc_events s e) = PENDING"
    then have "0 < ev_pending_dependencies (sc_events s e)" using states_invD(5) [OF I(2), of e] less.prems by (metis decisions_simps(1) empty_iff empty_set)
    then have "waits_for (dependency_edges ps) s e \<noteq> 0" using states_invD(3) [OF I(2), of e] by simp
    then obtain p where p: "(e, p) \<in> set (dependency_edges ps)" "\<not> terminal s p" by (auto simp: waits_for_0)
    moreover have "p < event_count s" using I(1) p(1) unfolding edges_ok_def by blast
    ultimately show False using less.hyps [OF rank_decreases [OF ps p(1)]] by blast
  qed
  moreover have "ev_state (sc_events s e) \<noteq> SCHEDULED" using none less.prems .
  ultimately show ?case using states_invD(1) [OF I(2), of e] unfolding terminal_def by blast
qed

end
