(* ===== verification/Leader.thy ===== *)
theory Leader
  imports EventDag
begin

text \<open>
  The leader's event loop (pipeline_leader.cpp) together with the workers' task loop
  (pipeline_worker_main.cpp), as steps on one shared state: the leader visits an event, a worker takes
  the task at the head of the queue, and a task ends, yields back to the queue, or fails. The
  execution of a task itself is TaskRun; here it is one of those three outcomes.
\<close>

section \<open>The leader\<close>

record system =
  sy_sched :: scheduler
  sy_event_scheduled :: "nat \<Rightarrow> bool"
  sy_event_finished :: "nat \<Rightarrow> bool"
  sy_run_cleanup_done :: "nat \<Rightarrow> bool"
  sy_running :: "task_descriptor list"
  sy_failed :: "task_descriptor list"

definition kTaskQueueCapacity :: nat where
  "kTaskQueueCapacity = 64"

definition most_dependents :: "scheduler \<Rightarrow> nat" where
  "most_dependents s = fold max (map (\<lambda>e. length (ev_dependents (sc_events s e))) [0..<event_count s]) 0"

text \<open>A call from the leader's loop, run to its end; the fuel is shown to be enough.\<close>

definition cascade :: "event_call list \<Rightarrow> scheduler \<Rightarrow> scheduler result option" where
  "cascade cs s = run_calls (cascade_bound (most_dependents s) cs s) cs s"

definition AllEventsFinished :: "scheduler \<Rightarrow> bool" where
  "AllEventsFinished s \<longleftrightarrow> list_all (\<lambda>e. ev_state (sc_events s e) \<in> {FINISHED, ABORTED}) [0..<event_count s]"

definition finish_visit :: "nat \<Rightarrow> system \<Rightarrow> (bool \<times> system) result option" where
  "finish_visit eid y =
     map_option (\<lambda>r. rbind r (\<lambda>s. Inr (True, y\<lparr>sy_sched := s, sy_event_finished := (sy_event_finished y)(eid := True)\<rparr>)))
       (cascade [FinishEvent eid] (sy_sched y))"

text \<open>
  One iteration of the inner loop: whether it made progress, and the new state. \<open>fin\<close> says which
  finalize tasks end with \<^verbatim>\<open>TASK_FINISHED\<close>.
\<close>

definition leader_visit :: "(nat \<Rightarrow> bool) \<Rightarrow> nat \<Rightarrow> system \<Rightarrow> (bool \<times> system) result option" where
  "leader_visit fin eid y =
     (let state = ev_state (sc_events (sy_sched y) eid);
          remaining = sc_tasks_remaining (sy_sched y) eid;
          y = (if \<not> sy_event_scheduled y eid \<and> state = SCHEDULED
               then y\<lparr>sy_event_scheduled := (sy_event_scheduled y)(eid := True)\<rparr> else y)
      in if \<not> sy_event_finished y eid \<and> state = ABORTED
         then Some (Inr (True, y\<lparr>sy_event_finished := (sy_event_finished y)(eid := True)\<rparr>))
         else if eid mod 3 = 2 \<and> sy_event_scheduled y eid \<and> \<not> sy_event_finished y eid \<and> state = SCHEDULED \<and> 0 < remaining
         then if \<not> fin eid then Some (Inl (Elog ''leader finalize task did not finish''))
              else finish_visit eid (y\<lparr>sy_sched := set_tasks_remaining eid 0 (sy_sched y)\<rparr>)
         else if sy_event_scheduled y eid \<and> \<not> sy_event_finished y eid \<and> remaining = 0
         then finish_visit eid
                (if eid mod 3 = 0 \<and> \<not> sy_run_cleanup_done y eid
                 then y\<lparr>sy_run_cleanup_done := (sy_run_cleanup_done y)(eid := True)\<rparr> else y)
         else Some (Inr (False, y)))"

text \<open>One pass over all events, and the scheduling of the initial events before the loop.\<close>

fun leader_pass :: "(nat \<Rightarrow> bool) \<Rightarrow> nat list \<Rightarrow> bool \<times> system \<Rightarrow> (bool \<times> system) result option" where
  "leader_pass fin [] r = Some (Inr r)"
| "leader_pass fin (eid # es) (progress, y) =
     (case leader_visit fin eid y of
        None \<Rightarrow> None
      | Some (Inl err) \<Rightarrow> Some (Inl err)
      | Some (Inr (p, y')) \<Rightarrow> leader_pass fin es (progress \<or> p, y'))"

definition schedule_initial :: "nat \<Rightarrow> system \<Rightarrow> system result option" where
  "schedule_initial eid y =
     map_option (\<lambda>r. rbind r (\<lambda>s. Inr (y\<lparr>sy_sched := s,
         sy_event_scheduled := (if ev_state (sc_events (sy_sched y) eid) = PENDING
           then (sy_event_scheduled y)(eid := True) else sy_event_scheduled y)\<rparr>)))
       (cascade [TrySchedule eid] (sy_sched y))"

fun leader_start :: "nat list \<Rightarrow> system \<Rightarrow> system result option" where
  "leader_start [] y = Some (Inr y)"
| "leader_start (eid # es) y =
     (case schedule_initial eid y of
        None \<Rightarrow> None
      | Some (Inl err) \<Rightarrow> Some (Inl err)
      | Some (Inr y') \<Rightarrow> leader_start es y')"

definition new_system :: "pipeline list \<Rightarrow> nat \<Rightarrow> nat \<Rightarrow> system" where
  "new_system ps worker_count capacity =
     \<lparr>sy_sched = BuildEvents ps worker_count capacity, sy_event_scheduled = (\<lambda>_. False),
      sy_event_finished = (\<lambda>_. False), sy_run_cleanup_done = (\<lambda>_. False), sy_running = [], sy_failed = []\<rparr>"

section \<open>The workers\<close>

text \<open>Taking the head of the queue, which the strict affinity of TryPopForWorker leaves to one worker.\<close>

definition worker_take :: "nat \<Rightarrow> system \<Rightarrow> system option" where
  "worker_take w y =
     (case sc_queue (sy_sched y) of
        [] \<Rightarrow> None
      | d # ds \<Rightarrow>
          if td_worker_index d = int w \<and> (\<forall>r\<in>set (sy_running y). td_worker_index r \<noteq> int w)
          then Some (y\<lparr>sy_sched := (sy_sched y)\<lparr>sc_queue := ds\<rparr>, sy_running := sy_running y @ [d]\<rparr>)
          else None)"

definition task_finished :: "task_descriptor \<Rightarrow> system \<Rightarrow> system" where
  "task_finished d y =
     y\<lparr>sy_running := remove1 d (sy_running y),
       sy_sched := set_tasks_remaining (td_event_id d) (sc_tasks_remaining (sy_sched y) (td_event_id d) - 1) (sy_sched y)\<rparr>"

definition task_failed :: "task_descriptor \<Rightarrow> system \<Rightarrow> system" where
  "task_failed d y = y\<lparr>sy_running := remove1 d (sy_running y), sy_failed := sy_failed y @ [d]\<rparr>"

text \<open>A task that used up its budget goes back to the end of the queue; a full queue is a failure.\<close>

definition task_not_finished :: "task_descriptor \<Rightarrow> system \<Rightarrow> system" where
  "task_not_finished d y =
     (if length (sc_queue (sy_sched y)) < sc_queue_capacity (sy_sched y)
      then y\<lparr>sy_running := remove1 d (sy_running y), sy_sched := (sy_sched y)\<lparr>sc_queue := sc_queue (sy_sched y) @ [d]\<rparr>\<rparr>
      else task_failed d y)"

inductive system_step :: "(nat \<Rightarrow> bool) \<Rightarrow> system \<Rightarrow> system \<Rightarrow> bool" for fin where
  visit: "leader_visit fin eid y = Some (Inr (progress, y')) \<Longrightarrow> eid < event_count (sy_sched y) \<Longrightarrow> system_step fin y y'"
| take: "worker_take w y = Some y' \<Longrightarrow> w < sc_worker_count (sy_sched y) \<Longrightarrow> system_step fin y y'"
| finished: "d \<in> set (sy_running y) \<Longrightarrow> system_step fin y (task_finished d y)"
| yielded: "d \<in> set (sy_running y) \<Longrightarrow> td_kind d = TK_RUN \<Longrightarrow> system_step fin y (task_not_finished d y)"
| failed: "d \<in> set (sy_running y) \<Longrightarrow> system_step fin y (task_failed d y)"

inductive system_reachable :: "(nat \<Rightarrow> bool) \<Rightarrow> pipeline list \<Rightarrow> nat \<Rightarrow> nat \<Rightarrow> system \<Rightarrow> bool" for fin ps wc qc where
  start: "leader_start (initial_events ps) (new_system ps wc qc) = Some (Inr y) \<Longrightarrow> system_reachable fin ps wc qc y"
| step: "system_reachable fin ps wc qc y \<Longrightarrow> system_step fin y y' \<Longrightarrow> system_reachable fin ps wc qc y'"

section \<open>Tasks and their events\<close>

lemma no_aborts:
  assumes inv: "dag_inv (dependency_edges ps) U {} cs s" and ps: "later_dependencies ps"
  shows "ev_state (sc_events s e) \<noteq> ABORTED" "AbortEvent e \<notin> set cs"
proof -
  note A = aborts_invD [OF dag_invD(4) [OF inv]]
  have none: "ev_state (sc_events s e) \<noteq> ABORTED" for e
  proof (induction "event_rank (length ps) e" arbitrary: e rule: less_induct)
    case less
    show ?case
    proof
      assume "ev_state (sc_events s e) = ABORTED"
      then obtain p where "(e, p) \<in> set (dependency_edges ps)" "ev_state (sc_events s p) = ABORTED" using A(5) by blast
      then show False using less rank_decreases [OF ps] by blast
    qed
  qed
  show "ev_state (sc_events s e) \<noteq> ABORTED" by (rule none)
  show "AbortEvent e \<notin> set cs" using A(3,4) none by blast
qed

definition outstanding :: "scheduler \<Rightarrow> task_descriptor list \<Rightarrow> nat \<Rightarrow> nat" where
  "outstanding s R e = length (filter (\<lambda>d. td_event_id d = e) (sc_queue s @ R))"

text \<open>
  The bookkeeping, for the tasks \<open>R\<close> that have left the queue and the calls under way: a task in the
  queue or out of it belongs to a scheduled event and to a worker that exists, and a scheduled run or
  combine event counts its outstanding tasks.
\<close>

definition tasks_inv :: "nat \<Rightarrow> task_descriptor list \<Rightarrow> event_call list \<Rightarrow> scheduler \<Rightarrow> bool" where
  "tasks_inv wc R cs s \<longleftrightarrow>
     (\<forall>d\<in>set (sc_queue s @ R). ev_state (sc_events s (td_event_id d)) = SCHEDULED \<and> td_event_id d mod 3 \<noteq> 2 \<and>
        FinishEvent (td_event_id d) \<notin> set cs \<and> 0 \<le> td_worker_index d \<and> td_worker_index d < int wc) \<and>
     (\<forall>e. ev_state (sc_events s e) = SCHEDULED \<longrightarrow> e mod 3 \<noteq> 2 \<longrightarrow> sc_tasks_remaining s e = outstanding s R e) \<and>
     (\<forall>e. ev_state (sc_events s e) = SCHEDULED \<longrightarrow> e mod 3 = 2 \<longrightarrow> sc_tasks_remaining s e = 1 \<or> FinishEvent e \<in> set cs)"

definition static_inv :: "pipeline list \<Rightarrow> nat \<Rightarrow> scheduler \<Rightarrow> bool" where
  "static_inv ps wc s \<longleftrightarrow> sc_pipelines s = ps \<and> sc_worker_count s = wc \<and>
     (\<forall>e. ev_pipeline_id (sc_events s e) = e div 3 \<and> ev_kind (sc_events s e) = event_kind_of e) \<and>
     (\<forall>pid. sc_run_task_counts s pid \<le> wc)"

lemma tasks_invD:
  assumes "tasks_inv wc R cs s"
  shows "d \<in> set (sc_queue s @ R) \<Longrightarrow> ev_state (sc_events s (td_event_id d)) = SCHEDULED"
    "d \<in> set (sc_queue s @ R) \<Longrightarrow> td_event_id d mod 3 \<noteq> 2"
    "d \<in> set (sc_queue s @ R) \<Longrightarrow> FinishEvent (td_event_id d) \<notin> set cs"
    "d \<in> set (sc_queue s @ R) \<Longrightarrow> 0 \<le> td_worker_index d \<and> td_worker_index d < int wc"
    "ev_state (sc_events s e) = SCHEDULED \<Longrightarrow> e mod 3 \<noteq> 2 \<Longrightarrow> sc_tasks_remaining s e = outstanding s R e"
    "ev_state (sc_events s e) = SCHEDULED \<Longrightarrow> e mod 3 = 2 \<Longrightarrow> sc_tasks_remaining s e = 1 \<or> FinishEvent e \<in> set cs"
  using assms unfolding tasks_inv_def by blast+

lemma fold_limit_le: "fold (\<lambda>v b. if v > 0 then min b (nat v) else b) vs b \<le> b"
proof (induction vs arbitrary: b)
  case (Cons v vs)
  show ?case using Cons.IH [of "min b (nat v)"] Cons.IH [of b] by auto
qed simp

lemma DeriveRunTaskCount_bounds:
  "0 < wc \<Longrightarrow> 0 < DeriveRunTaskCount wc p \<and> DeriveRunTaskCount wc p \<le> wc"
proof -
  assume wc: "0 < wc"
  define b where "b = fold (\<lambda>v bound. if v > 0 then min bound (nat v) else bound)
    ((if pl_parallel_source p then pl_source_max_threads p else 1) # pl_ops_max_threads p @ [pl_sink_max_threads p]) wc"
  have le: "b \<le> wc" unfolding b_def by (rule fold_limit_le)
  have eq: "DeriveRunTaskCount wc p = (if b = 0 then 1 else b)"
    unfolding DeriveRunTaskCount_def Let_def b_def ..
  show ?thesis unfolding eq using le wc by simp
qed

text \<open>What scheduling an event does to the queue and to its counter.\<close>

lemma EnqueueTasks_effect:
  assumes enq: "EnqueueTasks e s = Inr (new, s')" and st: "static_inv ps wc s" and wc: "0 < wc"
  shows "static_inv ps wc s' \<and>
    ((\<exists>ds. new = [] \<and> e mod 3 \<noteq> 2 \<and> sc_queue s' = sc_queue s @ ds \<and>
        sc_tasks_remaining s' = (sc_tasks_remaining s)(e := length ds) \<and>
        (\<forall>d\<in>set ds. td_event_id d = e \<and> 0 \<le> td_worker_index d \<and> td_worker_index d < int wc)) \<or>
     (new = [FinishEvent e] \<and> sc_queue s' = sc_queue s \<and> sc_tasks_remaining s' = (sc_tasks_remaining s)(e := 0)) \<or>
     (new = [] \<and> e mod 3 = 2 \<and> sc_queue s' = sc_queue s \<and> sc_tasks_remaining s' = (sc_tasks_remaining s)(e := 1)))"
proof -
  define p where "p = ps ! (e div 3)"
  note derive = DeriveRunTaskCount_bounds [OF wc]
  have cfg: "ev_pipeline_id (sc_events s e) = e div 3" "ev_kind (sc_events s e) = event_kind_of e"
    "sc_pipelines s = ps" "sc_worker_count s = wc" "sc_run_task_counts s q \<le> wc" for q
    using st by (simp_all add: static_inv_def)
  have remembered: "RememberedRunTaskCount q s \<le> wc" for q using cfg(5) wc by (simp add: RememberedRunTaskCount_def)
  have static: "static_inv ps wc t"
    if "sc_run_task_counts t = sc_run_task_counts s \<or>
        sc_run_task_counts t = (sc_run_task_counts s)(e div 3 := max 1 (DeriveRunTaskCount wc p))"
      "sc_events t = sc_events s" "sc_pipelines t = ps" "sc_worker_count t = wc" for t
    using that st derive [of p] wc by (auto simp: static_inv_def)
  note frame = EnqueueTasks_frame [OF enq]
  have pushed: "\<exists>ds. new = [] \<and> e mod 3 \<noteq> 2 \<and> sc_queue s' = sc_queue s @ ds \<and>
      sc_tasks_remaining s' = (sc_tasks_remaining s)(e := length ds) \<and>
      (\<forall>d\<in>set ds. td_event_id d = e \<and> 0 \<le> td_worker_index d \<and> td_worker_index d < int wc)"
    if push: "rbind (push_tasks (map (task_desc wc p (e div 3) k e) [0..<n]) (set_tasks_remaining e n t)) (\<lambda>s. Inr ([], s)) = Inr (new, s')"
      and t: "sc_queue t = sc_queue s" "sc_tasks_remaining t = sc_tasks_remaining s" and k: "e mod 3 \<noteq> 2"
      and n: "n \<le> wc \<or> k = TK_COMBINE \<and> pl_sink_type p = SINK_HASH_AGGREGATE" for k n t
  proof (intro exI [of _ "map (task_desc wc p (e div 3) k e) [0..<n]"] conjI ballI)
    fix d assume "d \<in> set (map (task_desc wc p (e div 3) k e) [0..<n])"
    then obtain i where "i < n" "d = task_desc wc p (e div 3) k e i" by auto
    moreover have "i mod DeriveRunTaskCount wc p < wc" using derive [of p] by (meson less_le_trans mod_less_divisor)
    ultimately show "td_event_id d = e" "0 \<le> td_worker_index d" "td_worker_index d < int wc"
      using n by (auto simp: task_desc_def)
  qed (use push t k in \<open>auto simp: push_tasks_def set_tasks_remaining_def split: if_splits\<close>)
  note enq' = enq [unfolded EnqueueTasks_def Let_def cfg, folded p_def]
  have counts: "sc_run_task_counts s' = sc_run_task_counts s \<or>
      sc_run_task_counts s' = (sc_run_task_counts s)(e div 3 := max 1 (DeriveRunTaskCount wc p))"
    using enq' by (auto simp: push_tasks_def set_tasks_remaining_def RememberRunTaskCount_def
      split: task_kind.splits if_splits option.splits sum.splits)
  have kinds: "event_kind_of e = TK_RUN \<Longrightarrow> e mod 3 \<noteq> 2" "event_kind_of e = TK_COMBINE \<Longrightarrow> e mod 3 \<noteq> 2"
    "event_kind_of e = TK_FINALIZE \<Longrightarrow> e mod 3 = 2"
    by (auto simp: event_kind_of_def split: if_splits)
  show ?thesis
  proof (cases "event_kind_of e")
    case TK_RUN
    then have "\<exists>ds. new = [] \<and> e mod 3 \<noteq> 2 \<and> sc_queue s' = sc_queue s @ ds \<and>
      sc_tasks_remaining s' = (sc_tasks_remaining s)(e := length ds) \<and>
      (\<forall>d\<in>set ds. td_event_id d = e \<and> 0 \<le> td_worker_index d \<and> td_worker_index d < int wc)"
      using enq' derive [of p] kinds
      by (intro pushed [of TK_RUN "DeriveRunTaskCount wc p" "RememberRunTaskCount (e div 3) (DeriveRunTaskCount wc p) s"])
        (auto simp: RememberRunTaskCount_def cfg)
    then show ?thesis using static [OF counts] frame cfg by blast
  next
    case TK_COMBINE
    show ?thesis
    proof (cases "pl_combine_is_trivial p")
      case True
      then show ?thesis using enq' TK_COMBINE static [OF counts] frame cfg by (auto simp: set_tasks_remaining_def)
    next
      case False
      then obtain n where n: "combine_task_count p (e div 3) s = Some n"
        "rbind (push_tasks (map (task_desc wc p (e div 3) TK_COMBINE e) [0..<n]) (set_tasks_remaining e n s)) (\<lambda>s. Inr ([], s)) = Inr (new, s')"
        using enq' TK_COMBINE by (auto split: option.splits)
      have "n \<le> wc \<or> TK_COMBINE = TK_COMBINE \<and> pl_sink_type p = SINK_HASH_AGGREGATE"
        using n(1) remembered wc by (auto simp: combine_task_count_def split: sink_type.splits)
      then have "\<exists>ds. new = [] \<and> e mod 3 \<noteq> 2 \<and> sc_queue s' = sc_queue s @ ds \<and>
        sc_tasks_remaining s' = (sc_tasks_remaining s)(e := length ds) \<and>
        (\<forall>d\<in>set ds. td_event_id d = e \<and> 0 \<le> td_worker_index d \<and> td_worker_index d < int wc)"
        using pushed [OF n(2)] kinds(2) [OF TK_COMBINE] by blast
      then show ?thesis using static [OF counts] frame cfg by blast
    qed
  next
    case TK_FINALIZE
    then show ?thesis
      using enq' static [OF counts] frame cfg kinds(3)
      by (auto simp: set_tasks_remaining_def split: if_splits)
  qed
qed

lemma tasks_inv_calls:
  assumes "tasks_inv wc R cs s" "\<And>e. FinishEvent e \<in> set cs' \<longleftrightarrow> FinishEvent e \<in> set cs"
    "sc_queue s' = sc_queue s" "sc_tasks_remaining s' = sc_tasks_remaining s"
    "\<And>e. ev_state (sc_events s' e) = SCHEDULED \<longleftrightarrow> ev_state (sc_events s e) = SCHEDULED"
  shows "tasks_inv wc R cs' s'"
  using assms(1) unfolding tasks_inv_def outstanding_def assms(2-5) .

lemma static_update [simp]:
  "(\<And>ev. ev_pipeline_id (f ev) = ev_pipeline_id ev \<and> ev_kind (f ev) = ev_kind ev) \<Longrightarrow>
   static_inv ps wc (update_event e f s) = static_inv ps wc s"
  by (simp add: static_inv_def update_event_def) metis

lemma schedule_tasks:
  assumes enq: "EnqueueTasks e (update_event e (\<lambda>ev. ev\<lparr>ev_state := SCHEDULED\<rparr>) s) = Inr (new, s')"
    and pend: "ev_state (sc_events s e) = PENDING" and st: "static_inv ps wc s" and wc: "0 < wc"
    and inv: "tasks_inv wc R cs s" and quiet: "FinishEvent e \<notin> set cs"
  shows "tasks_inv wc R (new @ cs) s'"
proof -
  note T = tasks_invD [OF inv]
  note frame = EnqueueTasks_frame [OF enq]
  have "static_inv ps wc (update_event e (\<lambda>ev. ev\<lparr>ev_state := SCHEDULED\<rparr>) s)" using st by simp
  note eff = conjunct2 [OF EnqueueTasks_effect [OF enq this wc]]
  have state: "ev_state (sc_events s' d) = (if d = e then SCHEDULED else ev_state (sc_events s d))" for d
    using frame by simp
  have none: "td_event_id d \<noteq> e" if "d \<in> set (sc_queue s @ R)" for d using T(1) [OF that] pend by auto
  then have zero: "outstanding s R e = 0" by (auto simp: outstanding_def filter_empty_conv)
  define t where "t = update_event e (\<lambda>ev. ev\<lparr>ev_state := SCHEDULED\<rparr>) s"
  have t: "sc_queue t = sc_queue s" "sc_tasks_remaining t = sc_tasks_remaining s" by (simp_all add: t_def)
  have "\<exists>ds r. sc_queue s' = sc_queue s @ ds \<and> sc_tasks_remaining s' = (sc_tasks_remaining s)(e := r) \<and>
      (\<forall>d\<in>set ds. td_event_id d = e \<and> 0 \<le> td_worker_index d \<and> td_worker_index d < int wc) \<and>
      (e mod 3 \<noteq> 2 \<longrightarrow> r = length ds) \<and> (e mod 3 = 2 \<longrightarrow> r = 1 \<or> new = [FinishEvent e]) \<and>
      (ds \<noteq> [] \<longrightarrow> e mod 3 \<noteq> 2 \<and> new = []) \<and> (new = [] \<or> new = [FinishEvent e])"
    using eff [folded t_def, unfolded t]
  proof (elim disjE exE conjE)
    fix ds assume "new = []" "e mod 3 \<noteq> 2" "sc_queue s' = sc_queue s @ ds"
      "sc_tasks_remaining s' = (sc_tasks_remaining s)(e := length ds)"
      "\<forall>d\<in>set ds. td_event_id d = e \<and> 0 \<le> td_worker_index d \<and> td_worker_index d < int wc"
    then show ?thesis by (intro exI [of _ ds] exI [of _ "length ds"]) simp
  qed (intro exI [of _ "[]"] exI [of _ "sc_tasks_remaining s' e"], simp)+
  then obtain ds r where q: "sc_queue s' = sc_queue s @ ds" "sc_tasks_remaining s' = (sc_tasks_remaining s)(e := r)"
    and ds: "\<And>d. d \<in> set ds \<Longrightarrow> td_event_id d = e \<and> 0 \<le> td_worker_index d \<and> td_worker_index d < int wc"
    and r: "e mod 3 \<noteq> 2 \<Longrightarrow> r = length ds" "e mod 3 = 2 \<Longrightarrow> r = 1 \<or> new = [FinishEvent e]" "ds \<noteq> [] \<Longrightarrow> e mod 3 \<noteq> 2 \<and> new = []"
    and new: "new = [] \<or> new = [FinishEvent e]" by blast
  have out: "outstanding s' R d = (if d = e then length ds else outstanding s R d)" for d
  proof -
    have "filter (\<lambda>x. td_event_id x = d) ds = (if d = e then ds else [])"
      using ds by (induction ds) auto
    then have "outstanding s' R d = outstanding s R d + (if d = e then length ds else 0)"
      by (simp add: outstanding_def q(1))
    then show ?thesis using zero by simp
  qed
  show ?thesis unfolding tasks_inv_def state out
  proof (intro conjI ballI allI impI)
    fix d assume "d \<in> set (sc_queue s' @ R)"
    then have d: "d \<in> set (sc_queue s @ R) \<or> d \<in> set ds" using q(1) by auto
    show "(if td_event_id d = e then SCHEDULED else ev_state (sc_events s (td_event_id d))) = SCHEDULED"
      using d T(1) ds by auto
    show "td_event_id d mod 3 \<noteq> 2" using d T(2) ds r(3) by fastforce
    show "FinishEvent (td_event_id d) \<notin> set (new @ cs)"
      using d new none T(3) ds r(3) quiet by fastforce
    show "0 \<le> td_worker_index d" "td_worker_index d < int wc" using d T(4) ds by blast+
  next
    fix d assume "(if d = e then SCHEDULED else ev_state (sc_events s d)) = SCHEDULED" "d mod 3 \<noteq> 2"
    then show "sc_tasks_remaining s' d = (if d = e then length ds else outstanding s R d)"
      using T(5) r(1) by (cases "d = e") (simp_all add: q(2))
  next
    fix d assume "(if d = e then SCHEDULED else ev_state (sc_events s d)) = SCHEDULED" "d mod 3 = 2"
    then show "sc_tasks_remaining s' d = 1 \<or> FinishEvent d \<in> set (new @ cs)"
      using T(6) [of d] r(2) by (cases "d = e") (auto simp: q(2))
  qed
qed

lemma tasks_step:
  assumes run: "make_call c s = Inr (new, s')" and dag: "dag_inv (dependency_edges ps) U {} (c # cs) s"
    and ps: "later_dependencies ps" and st: "static_inv ps wc s" and wc: "0 < wc" and inv: "tasks_inv wc R (c # cs) s"
  shows "static_inv ps wc s' \<and> tasks_inv wc R (new @ cs) s' \<and>
    (\<forall>d. ev_state (sc_events s d) = SCHEDULED \<longrightarrow> FinishEvent d \<notin> set (c # cs) \<longrightarrow>
       ev_state (sc_events s' d) = SCHEDULED \<and> FinishEvent d \<notin> set (new @ cs)) \<and>
    (\<forall>d. ev_state (sc_events s d) = FINISHED \<longrightarrow> ev_state (sc_events s' d) = FINISHED)"
proof (cases c)
  case (CompleteDependency e a)
  define saw where "saw = (ev_saw_aborted_dependency (sc_events s e) \<or> a)"
  have new: "FinishEvent d \<in> set (new @ cs) \<longleftrightarrow> FinishEvent d \<in> set (c # cs)" for d
    using run CompleteDependency by (auto simp: Let_def split: if_splits)
  have s': "ev_state (sc_events s' d) = ev_state (sc_events s d)" "sc_queue s' = sc_queue s"
    "sc_tasks_remaining s' = sc_tasks_remaining s" "static_inv ps wc s'" for d
    using run CompleteDependency st by (auto simp: Let_def split: if_splits)
  have "tasks_inv wc R (new @ cs) s'" by (rule tasks_inv_calls [OF inv new]) (simp_all add: s')
  then show ?thesis unfolding new s'(1) using s'(4) by blast
next
  case (TrySchedule e)
  note C = calls_invD [OF dag_invD(3) [OF dag]]
  have pend: "ev_state (sc_events s e) = PENDING" using C(4) [of e] TrySchedule by simp
  have und: "FinishEvent e \<notin> set cs" using C(7) [of e] pend by auto
  have enq: "EnqueueTasks e (update_event e (\<lambda>ev. ev\<lparr>ev_state := SCHEDULED\<rparr>) s) = Inr (new, s')"
    using run TrySchedule pend by simp
  note frame = EnqueueTasks_frame [OF enq]
  have "static_inv ps wc s'" using EnqueueTasks_effect [OF enq _ wc] st by simp
  moreover have "tasks_inv wc R cs s" by (rule tasks_inv_calls [OF inv]) (auto simp: TrySchedule)
  then have "tasks_inv wc R (new @ cs) s'" by (rule schedule_tasks [OF enq pend st wc _ und])
  ultimately show ?thesis using frame pend by auto
next
  case (AbortEvent e)
  then show ?thesis using no_aborts(2) [OF dag ps, of e] by simp
next
  case (FinishEvent e)
  note T = tasks_invD [OF inv]
  note C = calls_invD [OF dag_invD(3) [OF dag]]
  have sched: "ev_state (sc_events s e) = SCHEDULED" using C(7) [of e] FinishEvent by simp
  have s': "s' = update_event e (\<lambda>ev. ev\<lparr>ev_state := FINISHED\<rparr>) s" "FinishEvent d \<notin> set new" for d
    using run FinishEvent sched by (auto simp: Let_def NotifyDependents_def)
  have once: "FinishEvent e \<notin> set cs" using C(1) FinishEvent decision_in(3) by fastforce
  have "tasks_inv wc R (new @ cs) s'"
    unfolding tasks_inv_def
  proof (intro conjI ballI allI impI)
    fix d assume "d \<in> set (sc_queue s' @ R)"
    then have d: "d \<in> set (sc_queue s @ R)" by (simp add: s')
    then have "td_event_id d \<noteq> e" using T(3) FinishEvent by fastforce
    then show "ev_state (sc_events s' (td_event_id d)) = SCHEDULED" using T(1) [OF d] by (simp add: s')
    show "td_event_id d mod 3 \<noteq> 2" "0 \<le> td_worker_index d" "td_worker_index d < int wc" using T(2,4) [OF d] by simp_all
    show "FinishEvent (td_event_id d) \<notin> set (new @ cs)" using T(3) [OF d] s'(2) by auto
  next
    fix d assume "ev_state (sc_events s' d) = SCHEDULED" "d mod 3 \<noteq> 2"
    then show "sc_tasks_remaining s' d = outstanding s' R d" using T(5) [of d] by (auto simp: s' outstanding_def split: if_splits)
  next
    fix d assume "ev_state (sc_events s' d) = SCHEDULED" "d mod 3 = 2"
    then show "sc_tasks_remaining s' d = 1 \<or> FinishEvent d \<in> set (new @ cs)"
      using T(6) [of d] FinishEvent by (auto simp: s' split: if_splits)
  qed
  then show ?thesis using s' st FinishEvent by auto
next
  case (ClearDependents e)
  have s': "new = []" "s' = update_event e (\<lambda>ev. ev\<lparr>ev_dependents := []\<rparr>) s" using run ClearDependents by auto
  have "tasks_inv wc R cs s'" by (rule tasks_inv_calls [OF inv]) (auto simp: ClearDependents s')
  then show ?thesis using s' st by auto
qed

lemma run_calls_tasks:
  "run_calls fuel cs s = Some (Inr s') \<Longrightarrow> dag_inv (dependency_edges ps) U {} cs s \<Longrightarrow> later_dependencies ps \<Longrightarrow>
   static_inv ps wc s \<Longrightarrow> 0 < wc \<Longrightarrow> tasks_inv wc R cs s \<Longrightarrow>
   static_inv ps wc s' \<and> tasks_inv wc R [] s' \<and>
   (\<forall>d. ev_state (sc_events s d) = SCHEDULED \<longrightarrow> FinishEvent d \<notin> set cs \<longrightarrow> ev_state (sc_events s' d) = SCHEDULED) \<and>
   (\<forall>d. ev_state (sc_events s d) = FINISHED \<longrightarrow> ev_state (sc_events s' d) = FINISHED)"
proof (induction fuel cs s rule: run_calls.induct)
  case (3 fuel c cs s)
  obtain new t where m: "make_call c s = Inr (new, t)" "run_calls fuel (new @ cs) t = Some (Inr s')"
    using "3.prems"(1) by (auto split: sum.splits)
  note st = tasks_step [OF m(1) "3.prems"(2-6)]
  have "static_inv ps wc s' \<and> tasks_inv wc R [] s' \<and>
     (\<forall>d. ev_state (sc_events t d) = SCHEDULED \<longrightarrow> FinishEvent d \<notin> set (new @ cs) \<longrightarrow> ev_state (sc_events s' d) = SCHEDULED) \<and>
     (\<forall>d. ev_state (sc_events t d) = FINISHED \<longrightarrow> ev_state (sc_events s' d) = FINISHED)"
    using "3.IH" [OF m(1) refl m(2) dag_step [OF m(1) "3.prems"(2)] "3.prems"(3) _ "3.prems"(5)] st by blast
  then show ?case using st by blast
qed simp_all

section \<open>The invariant of the whole system\<close>

lemma most_dependents_ge: "e < event_count s \<Longrightarrow> length (ev_dependents (sc_events s e)) \<le> most_dependents s"
proof -
  have "x \<in> set xs \<Longrightarrow> x \<le> fold max xs b" and "b \<le> fold max xs b" for x b :: nat and xs
    by (induction xs arbitrary: b) (auto simp: max_def intro: order_trans, meson le_trans nat_le_linear)
  then show "e < event_count s \<Longrightarrow> ?thesis" by (simp add: most_dependents_def)
qed

lemma cascade_total:
  assumes "dag_inv E U X cs s"
  shows "cascade cs s \<noteq> None"
proof -
  have "calls_ok (most_dependents s) cs s"
    using dag_calls_ok [OF assms] most_dependents_ge by (auto simp: calls_ok_def)
  then show ?thesis unfolding cascade_def by (rule run_calls_total) simp
qed

definition sys_inv :: "pipeline list \<Rightarrow> nat \<Rightarrow> nat set \<Rightarrow> system \<Rightarrow> bool" where
  "sys_inv ps wc U y \<longleftrightarrow>
     dag_inv (dependency_edges ps) U {} [] (sy_sched y) \<and> static_inv ps wc (sy_sched y) \<and>
     tasks_inv wc (sy_running y @ sy_failed y) [] (sy_sched y) \<and>
     (\<forall>e. sy_event_scheduled y e \<longrightarrow> \<not> sy_event_finished y e \<longrightarrow> ev_state (sc_events (sy_sched y) e) = SCHEDULED) \<and>
     (\<forall>e. sy_event_finished y e \<longrightarrow> ev_state (sc_events (sy_sched y) e) = FINISHED) \<and>
     (\<forall>e. sy_run_cleanup_done y e \<longrightarrow> ev_state (sc_events (sy_sched y) e) = FINISHED)"

lemma sys_invD:
  assumes "sys_inv ps wc U y"
  shows "dag_inv (dependency_edges ps) U {} [] (sy_sched y)" "static_inv ps wc (sy_sched y)"
    "tasks_inv wc (sy_running y @ sy_failed y) [] (sy_sched y)"
    "sy_event_scheduled y e \<Longrightarrow> \<not> sy_event_finished y e \<Longrightarrow> ev_state (sc_events (sy_sched y) e) = SCHEDULED"
    "sy_event_finished y e \<Longrightarrow> ev_state (sc_events (sy_sched y) e) = FINISHED"
    "sy_run_cleanup_done y e \<Longrightarrow> ev_state (sc_events (sy_sched y) e) = FINISHED"
  using assms unfolding sys_inv_def by blast+

lemma finish_call:
  assumes run: "cascade [FinishEvent e] s = Some (Inr s')" and dag: "dag_inv (dependency_edges ps) U {} [FinishEvent e] s"
    and ps: "later_dependencies ps" and st: "static_inv ps wc s" and wc: "0 < wc" and inv: "tasks_inv wc R [FinishEvent e] s"
  shows "dag_inv (dependency_edges ps) U {} [] s'" "static_inv ps wc s'" "tasks_inv wc R [] s'"
    "ev_state (sc_events s' e) = FINISHED" "d \<noteq> e \<Longrightarrow> ev_state (sc_events s d) = SCHEDULED \<Longrightarrow> ev_state (sc_events s' d) = SCHEDULED"
    "ev_state (sc_events s d) = FINISHED \<Longrightarrow> ev_state (sc_events s' d) = FINISHED"
proof -
  obtain fuel where fuel: "run_calls fuel [FinishEvent e] s = Some (Inr s')" using run by (auto simp: cascade_def)
  note all = run_calls_tasks [OF fuel dag ps st wc inv]
  show "dag_inv (dependency_edges ps) U {} [] s'" by (rule run_calls_inv [OF fuel dag])
  show "static_inv ps wc s'" "tasks_inv wc R [] s'" using all by blast+
  show "d \<noteq> e \<Longrightarrow> ev_state (sc_events s d) = SCHEDULED \<Longrightarrow> ev_state (sc_events s' d) = SCHEDULED" using all by simp
  show "ev_state (sc_events s d) = FINISHED \<Longrightarrow> ev_state (sc_events s' d) = FINISHED" using all by blast
  obtain f new t where m: "make_call (FinishEvent e) s = Inr (new, t)" "run_calls f (new @ []) t = Some (Inr s')"
    using fuel by (cases fuel) (auto simp: Let_def split: if_splits)
  note step = tasks_step [OF m(1) dag ps st wc inv]
  have "ev_state (sc_events t e) = FINISHED" using m(1) by (auto simp: Let_def)
  then show "ev_state (sc_events s' e) = FINISHED"
    using run_calls_tasks [OF m(2) dag_step [OF m(1) dag] ps _ wc] step by blast
qed

lemma finish_visit_inv:
  assumes visit: "finish_visit e z = Some (Inr (p, y'))"
    and dag: "dag_inv (dependency_edges ps) U {} [FinishEvent e] (sy_sched z)" and ps: "later_dependencies ps"
    and st: "static_inv ps wc (sy_sched z)" and wc: "0 < wc"
    and inv: "tasks_inv wc (sy_running z @ sy_failed z) [FinishEvent e] (sy_sched z)"
    and flags: "\<And>d. sy_event_scheduled z d \<Longrightarrow> \<not> sy_event_finished z d \<Longrightarrow> ev_state (sc_events (sy_sched z) d) = SCHEDULED"
      "\<And>d. sy_event_finished z d \<Longrightarrow> ev_state (sc_events (sy_sched z) d) = FINISHED"
      "\<And>d. sy_run_cleanup_done z d \<Longrightarrow> d = e \<or> ev_state (sc_events (sy_sched z) d) = FINISHED"
  shows "sys_inv ps wc U y' \<and> p \<and> sy_event_finished y' = (sy_event_finished z)(e := True)"
proof -
  obtain s' where run: "cascade [FinishEvent e] (sy_sched z) = Some (Inr s')" and p: "p"
    and y': "y' = z\<lparr>sy_sched := s', sy_event_finished := (sy_event_finished z)(e := True)\<rparr>"
    using visit by (auto simp: finish_visit_def res_simps)
  note F = finish_call [OF run dag ps st wc inv]
  have "sys_inv ps wc U y'"
    unfolding sys_inv_def y'
  proof (intro conjI allI impI)
    fix d
    show "ev_state (sc_events (sy_sched (z\<lparr>sy_sched := s', sy_event_finished := (sy_event_finished z)(e := True)\<rparr>)) d) = SCHEDULED"
      if "sy_event_scheduled (z\<lparr>sy_sched := s', sy_event_finished := (sy_event_finished z)(e := True)\<rparr>) d"
        "\<not> sy_event_finished (z\<lparr>sy_sched := s', sy_event_finished := (sy_event_finished z)(e := True)\<rparr>) d"
      using that flags(1) [of d] F(5) [of d] by (simp split: if_splits)
    show "ev_state (sc_events (sy_sched (z\<lparr>sy_sched := s', sy_event_finished := (sy_event_finished z)(e := True)\<rparr>)) d) = FINISHED"
      if "sy_event_finished (z\<lparr>sy_sched := s', sy_event_finished := (sy_event_finished z)(e := True)\<rparr>) d"
      using that flags(2) [of d] F(4) F(6) [of d] by (simp split: if_splits)
    show "ev_state (sc_events (sy_sched (z\<lparr>sy_sched := s', sy_event_finished := (sy_event_finished z)(e := True)\<rparr>)) d) = FINISHED"
      if "sy_run_cleanup_done (z\<lparr>sy_sched := s', sy_event_finished := (sy_event_finished z)(e := True)\<rparr>) d"
      using that flags(3) [of d] F(4) F(6) [of d] by auto
  qed (use F in simp_all)
  then show ?thesis using p y' by simp
qed

lemma tasks_inv_finish:
  assumes "tasks_inv wc R [] s" "outstanding s R e = 0" "ev_state (sc_events s e) = SCHEDULED"
  shows "tasks_inv wc R [FinishEvent e] (if b then set_tasks_remaining e 0 s else s)"
proof -
  note T = tasks_invD [OF assms(1)]
  have none: "td_event_id d \<noteq> e" if "d \<in> set (sc_queue s @ R)" for d
    using assms(2) that by (auto simp: outstanding_def filter_empty_conv)
  show ?thesis unfolding tasks_inv_def
  proof (intro conjI ballI allI impI)
    fix d assume "d \<in> set (sc_queue (if b then set_tasks_remaining e 0 s else s) @ R)"
    then have d: "d \<in> set (sc_queue s @ R)" by (simp add: set_tasks_remaining_def split: if_splits)
    show "ev_state (sc_events (if b then set_tasks_remaining e 0 s else s) (td_event_id d)) = SCHEDULED"
      using T(1) [OF d] by (simp add: set_tasks_remaining_def)
    show "td_event_id d mod 3 \<noteq> 2" "0 \<le> td_worker_index d" "td_worker_index d < int wc" using T(2,4) [OF d] by simp_all
    show "FinishEvent (td_event_id d) \<notin> set [FinishEvent e]" using none [OF d] by simp
  next
    fix d assume d: "ev_state (sc_events (if b then set_tasks_remaining e 0 s else s) d) = SCHEDULED" "d mod 3 \<noteq> 2"
    then show "sc_tasks_remaining (if b then set_tasks_remaining e 0 s else s) d =
        outstanding (if b then set_tasks_remaining e 0 s else s) R d"
      using T(5) [of d] assms(2) by (auto simp: set_tasks_remaining_def outstanding_def split: if_splits)
  next
    fix d assume d: "ev_state (sc_events (if b then set_tasks_remaining e 0 s else s) d) = SCHEDULED" "d mod 3 = 2"
    then show "sc_tasks_remaining (if b then set_tasks_remaining e 0 s else s) d = 1 \<or> FinishEvent d \<in> set [FinishEvent e]"
      using T(6) [of d] by (auto simp: set_tasks_remaining_def split: if_splits)
  qed
qed

lemma dag_inv_frame:
  assumes "sc_events s' = sc_events s" "sc_pipelines s' = sc_pipelines s"
  shows "dag_inv E U X cs s' = dag_inv E U X cs s"
  unfolding dag_inv_def states_inv_def calls_inv_def aborts_inv_def roots_inv_def waits_for_def terminal_def
    event_count_def assms ..

lemma static_inv_frame:
  "sc_events s' = sc_events s \<Longrightarrow> sc_pipelines s' = sc_pipelines s \<Longrightarrow> sc_worker_count s' = sc_worker_count s \<Longrightarrow>
   sc_run_task_counts s' = sc_run_task_counts s \<Longrightarrow> static_inv ps wc s' = static_inv ps wc s"
  by (simp add: static_inv_def)

lemma set_tasks_remaining_simps [simp]:
  "sc_events (set_tasks_remaining e n s) = sc_events s" "sc_pipelines (set_tasks_remaining e n s) = sc_pipelines s"
  "sc_worker_count (set_tasks_remaining e n s) = sc_worker_count s"
  "sc_run_task_counts (set_tasks_remaining e n s) = sc_run_task_counts s"
  "sc_queue (set_tasks_remaining e n s) = sc_queue s"
  "sc_tasks_remaining (set_tasks_remaining e n s) = (sc_tasks_remaining s)(e := n)"
  by (simp_all add: set_tasks_remaining_def)

definition note_scheduled :: "nat \<Rightarrow> system \<Rightarrow> system" where
  "note_scheduled e y =
     (if \<not> sy_event_scheduled y e \<and> ev_state (sc_events (sy_sched y) e) = SCHEDULED
      then y\<lparr>sy_event_scheduled := (sy_event_scheduled y)(e := True)\<rparr> else y)"

lemma note_scheduled_simps [simp]:
  "sy_sched (note_scheduled e y) = sy_sched y" "sy_event_finished (note_scheduled e y) = sy_event_finished y"
  "sy_run_cleanup_done (note_scheduled e y) = sy_run_cleanup_done y" "sy_running (note_scheduled e y) = sy_running y"
  "sy_failed (note_scheduled e y) = sy_failed y"
  "sy_event_scheduled (note_scheduled e y) d \<longleftrightarrow>
     sy_event_scheduled y d \<or> d = e \<and> ev_state (sc_events (sy_sched y) e) = SCHEDULED"
  by (auto simp: note_scheduled_def)

lemma note_scheduled_inv: "sys_inv ps wc U y \<Longrightarrow> sys_inv ps wc U (note_scheduled e y)"
  by (auto simp: sys_inv_def)

text \<open>The cases of a visit, over the state in which the event's schedule has been noted.\<close>

lemma leader_visit_cases:
  assumes inv: "sys_inv ps wc U y" and ps: "later_dependencies ps"
  shows "leader_visit fin e y =
    (let z = note_scheduled e y; s = sy_sched y in
     if ev_state (sc_events s e) = SCHEDULED \<and> \<not> sy_event_finished y e
     then if e mod 3 = 2
          then if \<not> fin e then Some (Inl (Elog ''leader finalize task did not finish''))
               else finish_visit e (z\<lparr>sy_sched := set_tasks_remaining e 0 s\<rparr>)
          else if sc_tasks_remaining s e = 0
          then finish_visit e (if e mod 3 = 0 then z\<lparr>sy_run_cleanup_done := (sy_run_cleanup_done z)(e := True)\<rparr> else z)
          else Some (Inr (False, z))
     else Some (Inr (False, z)))"
proof -
  note Y = sys_invD [OF inv]
  have no: "ev_state (sc_events (sy_sched y) e) \<noteq> ABORTED" by (rule no_aborts(1) [OF Y(1) ps])
  have fin2: "sc_tasks_remaining (sy_sched y) e = 1" if "ev_state (sc_events (sy_sched y) e) = SCHEDULED" "e mod 3 = 2"
    using tasks_invD(6) [OF Y(3)] that by simp
  have cl: "\<not> sy_run_cleanup_done y e" if "ev_state (sc_events (sy_sched y) e) = SCHEDULED" using Y(6) [of e] that by auto
  have z: "(if \<not> sy_event_scheduled y e \<and> ev_state (sc_events (sy_sched y) e) = SCHEDULED
      then y\<lparr>sy_event_scheduled := (sy_event_scheduled y)(e := True)\<rparr> else y) = note_scheduled e y"
    by (simp add: note_scheduled_def)
  show ?thesis
    unfolding leader_visit_def Let_def z
    using no fin2 cl Y(4) [of e] by (auto simp: Let_def)
qed

lemma leader_visit_inv:
  assumes visit: "leader_visit fin e y = Some (Inr (p, y'))" and e: "e < event_count (sy_sched y)"
    and inv: "sys_inv ps wc U y" and ps: "later_dependencies ps" and wc: "0 < wc"
  shows "sys_inv ps wc U y' \<and>
    (if p then \<not> sy_event_finished y e \<and> sy_event_finished y' = (sy_event_finished y)(e := True)
     else y' = note_scheduled e y \<and>
       (ev_state (sc_events (sy_sched y) e) \<noteq> SCHEDULED \<or> e mod 3 \<noteq> 2 \<and> sc_tasks_remaining (sy_sched y) e \<noteq> 0))"
proof -
  note Y = sys_invD [OF inv] and Z = sys_invD [OF note_scheduled_inv [OF inv, of e]]
  note cases = visit [unfolded leader_visit_cases [OF inv ps] Let_def]
  show ?thesis
  proof (cases "ev_state (sc_events (sy_sched y) e) = SCHEDULED \<and> \<not> sy_event_finished y e")
    case True
    have none: "outstanding (sy_sched y) (sy_running y @ sy_failed y) e = 0"
      if "e mod 3 = 2 \<or> sc_tasks_remaining (sy_sched y) e = 0"
    proof (cases "e mod 3 = 2")
      case True
      then show ?thesis using tasks_invD(2) [OF Y(3)] by (auto simp: outstanding_def filter_empty_conv)
    qed (use that True tasks_invD(5) [OF Y(3), of e] in simp)
    have dag: "dag_inv (dependency_edges ps) U {} [FinishEvent e] (sy_sched y)"
      using start_finish [OF Y(1) _ e] True by blast
    consider (final) "e mod 3 = 2" "fin e" | (run) "e mod 3 \<noteq> 2" "sc_tasks_remaining (sy_sched y) e = 0"
      | (wait) "e mod 3 \<noteq> 2" "sc_tasks_remaining (sy_sched y) e \<noteq> 0"
      using cases True by (auto split: if_splits)
    then show ?thesis
    proof cases
      case final
      let ?z = "(note_scheduled e y)\<lparr>sy_sched := set_tasks_remaining e 0 (sy_sched y)\<rparr>"
      have "finish_visit e ?z = Some (Inr (p, y'))" using cases final True by simp
      then have "sys_inv ps wc U y' \<and> p \<and> sy_event_finished y' = (sy_event_finished ?z)(e := True)"
      proof (rule finish_visit_inv [OF _ _ ps _ wc])
        show "dag_inv (dependency_edges ps) U {} [FinishEvent e] (sy_sched ?z)"
          using dag dag_inv_frame [of "set_tasks_remaining e 0 (sy_sched y)" "sy_sched y"] by simp
        show "static_inv ps wc (sy_sched ?z)"
          using Y(2) static_inv_frame [of "set_tasks_remaining e 0 (sy_sched y)" "sy_sched y"] by simp
        show "tasks_inv wc (sy_running ?z @ sy_failed ?z) [FinishEvent e] (sy_sched ?z)"
          using tasks_inv_finish [OF Y(3) none, where b = True] True final(1) by simp
      qed (use Z(4-6) in auto)
      then show ?thesis using True by simp
    next
      case run
      let ?z = "if e mod 3 = 0 then (note_scheduled e y)\<lparr>sy_run_cleanup_done := (sy_run_cleanup_done (note_scheduled e y))(e := True)\<rparr>
        else note_scheduled e y"
      have z: "sy_sched ?z = sy_sched y" "sy_running ?z = sy_running y" "sy_failed ?z = sy_failed y"
        "sy_event_finished ?z = sy_event_finished y" by simp_all
      have "finish_visit e ?z = Some (Inr (p, y'))" using cases run True by simp
      then have "sys_inv ps wc U y' \<and> p \<and> sy_event_finished y' = (sy_event_finished ?z)(e := True)"
      proof (rule finish_visit_inv [OF _ _ ps _ wc])
        show "dag_inv (dependency_edges ps) U {} [FinishEvent e] (sy_sched ?z)" "static_inv ps wc (sy_sched ?z)"
          using dag Y(2) unfolding z by blast+
        show "tasks_inv wc (sy_running ?z @ sy_failed ?z) [FinishEvent e] (sy_sched ?z)"
          using tasks_inv_finish [OF Y(3) none, where b = False] True run(2) unfolding z by simp
      qed (use Z(4-6) in \<open>auto split: if_splits\<close>)
      then show ?thesis using True unfolding z by simp
    next
      case wait
      then have "p = False" "y' = note_scheduled e y" using cases True by simp_all
      then show ?thesis using note_scheduled_inv [OF inv] wait by simp
    qed
  next
    case False
    then have "p = False" "y' = note_scheduled e y" using cases by auto
    moreover have "ev_state (sc_events (sy_sched y) e) \<noteq> SCHEDULED" using False Y(5) [of e] by auto
    ultimately show ?thesis using note_scheduled_inv [OF inv] by simp
  qed
qed

section \<open>Reachable states\<close>

lemma outstanding_mset: "outstanding s R e = size (filter_mset (\<lambda>d. td_event_id d = e) (mset (sc_queue s @ R)))"
  by (simp add: outstanding_def flip: mset_filter)

lemma tasks_inv_perm:
  assumes "tasks_inv wc R cs s" "mset (sc_queue s' @ R') = mset (sc_queue s @ R)"
    "sc_events s' = sc_events s" "sc_tasks_remaining s' = sc_tasks_remaining s"
  shows "tasks_inv wc R' cs s'"
  using assms(1) unfolding tasks_inv_def outstanding_mset assms(2-4) set_mset_mset [symmetric] .

lemma tasks_inv_done:
  assumes "tasks_inv wc R [] s" "d \<in> set R"
  shows "tasks_inv wc (remove1 d R) [] (set_tasks_remaining (td_event_id d) (sc_tasks_remaining s (td_event_id d) - 1) s)"
proof -
  note T = tasks_invD [OF assms(1)]
  have R: "mset R = add_mset d (mset (remove1 d R))" using assms(2) by simp
  have out: "outstanding s R e = outstanding s (remove1 d R) e + (if e = td_event_id d then 1 else 0)" for e
    unfolding outstanding_mset mset_append R by auto
  have d: "ev_state (sc_events s (td_event_id d)) = SCHEDULED" "td_event_id d mod 3 \<noteq> 2" using T(1,2) assms(2) by auto
  have out': "outstanding (set_tasks_remaining x n s) R' e = outstanding s R' e" for x n R' e by (simp add: outstanding_def)
  have sub: "set (sc_queue s @ remove1 d R) \<subseteq> set (sc_queue s @ R)" using set_remove1_subset by fastforce
  show ?thesis unfolding tasks_inv_def out' set_tasks_remaining_simps
  proof (intro conjI ballI allI impI)
    fix x assume "x \<in> set (sc_queue s @ remove1 d R)"
    then have x: "x \<in> set (sc_queue s @ R)" using sub by blast
    show "ev_state (sc_events s (td_event_id x)) = SCHEDULED" "td_event_id x mod 3 \<noteq> 2"
      "FinishEvent (td_event_id x) \<notin> set []" "0 \<le> td_worker_index x" "td_worker_index x < int wc"
      using T(1-4) [OF x] by simp_all
  next
    fix e assume "ev_state (sc_events s e) = SCHEDULED" "e mod 3 \<noteq> 2"
    then show "((sc_tasks_remaining s)(td_event_id d := sc_tasks_remaining s (td_event_id d) - 1)) e = outstanding s (remove1 d R) e"
      using T(5) [of e] out [of e] by (auto split: if_splits)
  next
    fix e assume "ev_state (sc_events s e) = SCHEDULED" "e mod 3 = 2"
    then show "((sc_tasks_remaining s)(td_event_id d := sc_tasks_remaining s (td_event_id d) - 1)) e = 1 \<or> FinishEvent e \<in> set []"
      using T(6) [of e] d by auto
  qed
qed

lemma sys_inv_worker:
  assumes inv: "sys_inv ps wc U y" and t: "tasks_inv wc (sy_running y' @ sy_failed y') [] (sy_sched y')"
    and same: "sc_events (sy_sched y') = sc_events (sy_sched y)" "sc_pipelines (sy_sched y') = sc_pipelines (sy_sched y)"
      "sc_worker_count (sy_sched y') = sc_worker_count (sy_sched y)" "sc_run_task_counts (sy_sched y') = sc_run_task_counts (sy_sched y)"
      "sy_event_scheduled y' = sy_event_scheduled y" "sy_event_finished y' = sy_event_finished y"
      "sy_run_cleanup_done y' = sy_run_cleanup_done y"
  shows "sys_inv ps wc U y'"
  using inv t unfolding sys_inv_def dag_inv_frame [OF same(1,2)] static_inv_frame [OF same(1-4)] same by blast

lemma task_failed_inv: "sys_inv ps wc U y \<Longrightarrow> d \<in> set (sy_running y) \<Longrightarrow> sys_inv ps wc U (task_failed d y)"
  by (rule sys_inv_worker, assumption, rule tasks_inv_perm [OF sys_invD(3)]) (simp_all add: task_failed_def)

lemma system_step_inv:
  assumes "system_step fin y y'" "sys_inv ps wc U y" "later_dependencies ps" "0 < wc"
  shows "sys_inv ps wc U y'"
  using assms(1)
proof cases
  case (visit eid progress)
  then show ?thesis using leader_visit_inv assms(2-4) by blast
next
  case (take w)
  then obtain d ds where q: "sc_queue (sy_sched y) = d # ds"
    "y' = y\<lparr>sy_sched := (sy_sched y)\<lparr>sc_queue := ds\<rparr>, sy_running := sy_running y @ [d]\<rparr>"
    by (auto simp: worker_take_def split: list.splits if_splits)
  show ?thesis
    by (rule sys_inv_worker [OF assms(2)], rule tasks_inv_perm [OF sys_invD(3) [OF assms(2)]]) (simp_all add: q)
next
  case (finished d)
  have "remove1 d (sy_running y @ sy_failed y) = remove1 d (sy_running y) @ sy_failed y"
    using finished(2) by (simp add: remove1_append)
  then show ?thesis using tasks_inv_done [OF sys_invD(3) [OF assms(2)], of d] finished
    by (intro sys_inv_worker [OF assms(2)]) (simp_all add: task_finished_def)
next
  case (yielded d)
  show ?thesis
  proof (cases "length (sc_queue (sy_sched y)) < sc_queue_capacity (sy_sched y)")
    case True
    show ?thesis
      by (rule sys_inv_worker [OF assms(2)], rule tasks_inv_perm [OF sys_invD(3) [OF assms(2)]])
        (use yielded True in \<open>simp_all add: task_not_finished_def\<close>)
  qed (use task_failed_inv [OF assms(2)] yielded in \<open>simp add: task_not_finished_def\<close>)
next
  case (failed d)
  then show ?thesis using task_failed_inv [OF assms(2)] by blast
qed

lemma initial_events_run: "e \<in> set (initial_events ps) \<Longrightarrow> e mod 3 = 0 \<and> e < 3 * length ps"
  by (auto simp: initial_events_def)

lemma schedule_initial_inv:
  assumes run: "schedule_initial e y = Some (Inr y')" and inv: "sys_inv ps wc U y" and ps: "later_dependencies ps"
    and wc: "0 < wc" and e: "e \<in> U" "e < event_count (sy_sched y)" "e mod 3 = 0"
  shows "sys_inv ps wc (U - {e}) y'"
proof -
  note Y = sys_invD [OF inv]
  let ?s = "sy_sched y"
  have pend: "ev_state (sc_events ?s e) = PENDING" using roots_invD(1) [OF dag_invD(5) [OF Y(1)] e(1)] .
  obtain s' where s': "cascade [TrySchedule e] ?s = Some (Inr s')"
    "y' = y\<lparr>sy_sched := s', sy_event_scheduled := (sy_event_scheduled y)(e := True)\<rparr>"
    using run pend by (auto simp: schedule_initial_def res_simps)
  obtain fuel where fuel: "run_calls fuel [TrySchedule e] ?s = Some (Inr s')" using s'(1) by (auto simp: cascade_def)
  have dag: "dag_inv (dependency_edges ps) (U - {e}) {} [TrySchedule e] ?s" by (rule start_initial [OF Y(1) e(1,2)])
  have T: "tasks_inv wc (sy_running y @ sy_failed y) [TrySchedule e] ?s" by (rule tasks_inv_calls [OF Y(3)]) simp_all
  note all = run_calls_tasks [OF fuel dag ps Y(2) wc T]
  obtain f new t where m: "make_call (TrySchedule e) ?s = Inr (new, t)" "run_calls f (new @ []) t = Some (Inr s')"
    using fuel pend by (cases fuel) (auto split: sum.splits)
  note step = tasks_step [OF m(1) dag ps Y(2) wc T]
  have enq: "EnqueueTasks e (update_event e (\<lambda>ev. ev\<lparr>ev_state := SCHEDULED\<rparr>) ?s) = Inr (new, t)"
    using m(1) pend by simp
  have "ev_kind (sc_events ?s e) = TK_RUN" using Y(2) e(3) by (simp add: static_inv_def event_kind_of_def)
  then have "new = []" "ev_state (sc_events t e) = SCHEDULED"
    using enq EnqueueTasks_frame [OF enq] by (auto simp: EnqueueTasks_def Let_def push_tasks_def split: if_splits)
  then have sched: "ev_state (sc_events s' e) = SCHEDULED"
    using run_calls_tasks [OF m(2) dag_step [OF m(1) dag] ps _ wc] step by (metis append_Nil2 empty_iff empty_set)
  show ?thesis unfolding sys_inv_def s'(2)
  proof (intro conjI allI impI)
    show "dag_inv (dependency_edges ps) (U - {e}) {} [] (sy_sched (y\<lparr>sy_sched := s', sy_event_scheduled := (sy_event_scheduled y)(e := True)\<rparr>))"
      using run_calls_inv [OF fuel dag] by simp
    fix d
    show "ev_state (sc_events (sy_sched (y\<lparr>sy_sched := s', sy_event_scheduled := (sy_event_scheduled y)(e := True)\<rparr>)) d) = SCHEDULED"
      if "sy_event_scheduled (y\<lparr>sy_sched := s', sy_event_scheduled := (sy_event_scheduled y)(e := True)\<rparr>) d"
        "\<not> sy_event_finished (y\<lparr>sy_sched := s', sy_event_scheduled := (sy_event_scheduled y)(e := True)\<rparr>) d"
      using that sched Y(4) [of d] all by (auto split: if_splits)
  qed (use all Y(5,6) in auto)
qed

lemma leader_start_inv:
  "leader_start es y = Some (Inr y') \<Longrightarrow> sys_inv ps wc (set es) y \<Longrightarrow> later_dependencies ps \<Longrightarrow> 0 < wc \<Longrightarrow>
   distinct es \<Longrightarrow> \<forall>e\<in>set es. e mod 3 = 0 \<and> e < 3 * length ps \<Longrightarrow> sys_inv ps wc {} y'"
proof (induction es arbitrary: y)
  case (Cons e es)
  obtain z where z: "schedule_initial e y = Some (Inr z)" "leader_start es z = Some (Inr y')"
    using Cons.prems(1) by (auto split: option.splits sum.splits)
  have "event_count (sy_sched y) = 3 * length ps"
    using sys_invD(2) [OF Cons.prems(2)] by (simp add: static_inv_def event_count_def)
  then have "sys_inv ps wc (set (e # es) - {e}) z"
    using schedule_initial_inv [OF z(1) Cons.prems(2-4)] Cons.prems(6) by simp
  moreover have "set (e # es) - {e} = set es" using Cons.prems(5) by auto
  ultimately show ?case using Cons z(2) by simp
qed simp

lemma new_system_inv: "later_dependencies ps \<Longrightarrow> sys_inv ps wc (set (initial_events ps)) (new_system ps wc qc)"
  using BuildEvents_inv [of ps wc qc]
  by (simp add: sys_inv_def new_system_def tasks_inv_def static_inv_def BuildEvents_event) (simp add: BuildEvents_def)

lemma system_reachable_inv:
  "system_reachable fin ps wc qc y \<Longrightarrow> later_dependencies ps \<Longrightarrow> 0 < wc \<Longrightarrow> sys_inv ps wc {} y"
proof (induction rule: system_reachable.induct)
  case (start y)
  have "sys_inv ps wc (set (initial_events ps)) (new_system ps wc qc)" by (rule new_system_inv [OF start(2)])
  moreover have "distinct (initial_events ps)" by (simp add: initial_events_def distinct_map inj_on_def)
  ultimately show ?case using leader_start_inv [OF start(1)] start(2,3) initial_events_run by blast
next
  case (step y y')
  then show ?case using system_step_inv by blast
qed

section \<open>What the leader and the workers guarantee\<close>

lemma sys_event_count: "sys_inv ps wc U y \<Longrightarrow> event_count (sy_sched y) = 3 * length ps"
  by (simp add: sys_inv_def static_inv_def event_count_def)

lemma visit_total:
  assumes "sys_inv ps wc U y" "later_dependencies ps" "e < 3 * length ps"
  shows "leader_visit fin e y \<noteq> None"
proof -
  note Y = sys_invD [OF assms(1)]
  have lt: "e < event_count (sy_sched y)" using assms sys_event_count by simp
  have "cascade [FinishEvent e] s \<noteq> None"
    if "ev_state (sc_events (sy_sched y) e) = SCHEDULED" "sc_events s = sc_events (sy_sched y)" "sc_pipelines s = sc_pipelines (sy_sched y)" for s
    using cascade_total [OF start_finish [OF Y(1) that(1) lt]]
    by (rule contrapos_nn) (use that cascade_total dag_inv_frame start_finish [OF Y(1) that(1) lt] in blast)
  then show ?thesis unfolding leader_visit_cases [OF assms(1,2)] by (simp add: Let_def finish_visit_def)
qed

lemma pass_total:
  "sys_inv ps wc U (snd r) \<Longrightarrow> later_dependencies ps \<Longrightarrow> 0 < wc \<Longrightarrow> \<forall>e\<in>set es. e < 3 * length ps \<Longrightarrow>
   leader_pass fin es r \<noteq> None \<and> (\<forall>r'. leader_pass fin es r = Some (Inr r') \<longrightarrow> sys_inv ps wc U (snd r') \<and>
     (\<forall>e. sy_event_finished (snd r) e \<longrightarrow> sy_event_finished (snd r') e) \<and> (fst r \<longrightarrow> fst r') \<and>
     (fst r' \<longrightarrow> fst r \<or> (\<exists>e\<in>set es. sy_event_finished (snd r') e \<and> \<not> sy_event_finished (snd r) e)))"
proof (induction fin es r rule: leader_pass.induct)
  case (2 fin e es progress y)
  have y: "sys_inv ps wc U y" and e: "e < event_count (sy_sched y)"
    using "2.prems" sys_event_count by fastforce+
  show ?case
  proof (cases "leader_visit fin e y")
    case None
    then show ?thesis using visit_total [OF y "2.prems"(2)] "2.prems"(4) by simp
  next
    case (Some res)
    show ?thesis
    proof (cases res)
      case (Inr q)
      obtain p z where q: "q = (p, z)" by (cases q)
      have v: "leader_visit fin e y = Some (Inr (p, z))" using Some Inr q by simp
      note step = leader_visit_inv [OF v e y "2.prems"(2,3)]
      have fin: "sy_event_finished z d \<longleftrightarrow> sy_event_finished y d \<or> p \<and> d = e" for d
        using step by (auto split: if_splits)
      have new: "p \<Longrightarrow> \<not> sy_event_finished y e" using step by simp
      have inv: "sys_inv ps wc U z" and es: "\<forall>e\<in>set es. e < 3 * length ps" using step "2.prems"(4) by simp_all
      note IH = "2.IH" [OF Some Inr q [symmetric], unfolded fst_conv snd_conv, OF inv "2.prems"(2,3) es]
      have run: "leader_pass fin (e # es) (progress, y) = leader_pass fin es (progress \<or> p, z)" by (simp add: v)
      show ?thesis unfolding run fst_conv snd_conv
      proof (intro conjI allI impI)
        fix r' assume r': "leader_pass fin es (progress \<or> p, z) = Some (Inr r')"
        note I = IH [THEN conjunct2, rule_format, OF r']
        show "sys_inv ps wc U (snd r')" using I by (rule conjunct1)
        show "sy_event_finished (snd r') d" if "sy_event_finished y d" for d using I that fin by blast
        show "fst r'" if progress using I that by blast
        assume "fst r'"
        then show "progress \<or> (\<exists>d\<in>set (e # es). sy_event_finished (snd r') d \<and> \<not> sy_event_finished y d)"
          using I fin new by (metis list.set_intros)
      qed (use IH in blast)
    qed (use Some in simp)
  qed
qed simp

text \<open>C36: the calls of the leader return: scheduling the initial events and every pass over the events end with
  a new state or an error, whatever the workers have done in between.\<close>

theorem leader_returns:
  assumes "later_dependencies ps" "0 < wc"
  shows "leader_start (initial_events ps) (new_system ps wc qc) \<noteq> None \<and>
    (system_reachable fin ps wc qc y \<longrightarrow> leader_pass fin [0..<event_count (sy_sched y)] (False, y) \<noteq> None)"
proof
  have total: "leader_start es y \<noteq> None"
    if "sys_inv ps wc (set es) y" "distinct es" "\<forall>e\<in>set es. e mod 3 = 0 \<and> e < 3 * length ps" for es y
    using that
  proof (induction es arbitrary: y)
    case (Cons e es)
    have lt: "e < event_count (sy_sched y)" using sys_event_count [OF Cons.prems(1)] Cons.prems(3) by simp
    have "cascade [TrySchedule e] (sy_sched y) \<noteq> None"
      using cascade_total [OF start_initial [OF sys_invD(1) [OF Cons.prems(1)] _ lt]] by simp
    then obtain r where r: "schedule_initial e y = Some r" by (auto simp: schedule_initial_def)
    show ?case
    proof (cases r)
      case (Inr z)
      have "sys_inv ps wc (set (e # es) - {e}) z"
        using schedule_initial_inv [OF r [unfolded Inr] Cons.prems(1) assms _ lt] Cons.prems(3) by simp
      moreover have "set (e # es) - {e} = set es" using Cons.prems(2) by auto
      ultimately show ?thesis using Cons r Inr by simp
    qed (use r in simp)
  qed simp
  show "leader_start (initial_events ps) (new_system ps wc qc) \<noteq> None"
  proof (rule total)
    show "sys_inv ps wc (set (initial_events ps)) (new_system ps wc qc)" by (rule new_system_inv [OF assms(1)])
    show "distinct (initial_events ps)" by (simp add: initial_events_def distinct_map inj_on_def)
  qed (use initial_events_run in blast)
  show "system_reachable fin ps wc qc y \<longrightarrow> leader_pass fin [0..<event_count (sy_sched y)] (False, y) \<noteq> None"
  proof
    assume "system_reachable fin ps wc qc y"
    then have "sys_inv ps wc {} y" by (rule system_reachable_inv [OF _ assms])
    then show "leader_pass fin [0..<event_count (sy_sched y)] (False, y) \<noteq> None"
      using pass_total [of ps wc "{}" "(False, y)" "[0..<event_count (sy_sched y)]" fin] assms sys_event_count by simp
  qed
qed

text \<open>a pass that makes progress marks at least one more event as finished, so after as many passes as there
  are events there is no progress left to make.\<close>

theorem pass_with_progress_finishes_an_event:
  assumes "system_reachable fin ps wc qc y" "later_dependencies ps" "0 < wc"
    and "leader_pass fin [0..<event_count (sy_sched y)] (False, y) = Some (Inr (True, y'))"
  shows "card {e. e < event_count (sy_sched y) \<and> \<not> sy_event_finished y' e}
       < card {e. e < event_count (sy_sched y) \<and> \<not> sy_event_finished y e}"
proof (rule psubset_card_mono)
  have inv: "sys_inv ps wc {} y" by (rule system_reachable_inv [OF assms(1-3)])
  note all = pass_total [of ps wc "{}" "(False, y)" "[0..<event_count (sy_sched y)]" fin, unfolded fst_conv snd_conv,
      OF inv assms(2,3), THEN conjunct2, rule_format, OF _ assms(4), unfolded fst_conv snd_conv]
  have es: "\<And>e. e \<in> set [0..<event_count (sy_sched y)] \<Longrightarrow> e < 3 * length ps" using sys_event_count [OF inv] by simp
  have "\<exists>e\<in>set [0..<event_count (sy_sched y)]. sy_event_finished y' e \<and> \<not> sy_event_finished y e"
    using all [OF es] by blast
  moreover have "sy_event_finished y e \<Longrightarrow> sy_event_finished y' e" for e using all [OF es] by blast
  ultimately show "{e. e < event_count (sy_sched y) \<and> \<not> sy_event_finished y' e}
      \<subset> {e. e < event_count (sy_sched y) \<and> \<not> sy_event_finished y e}" by auto
qed simp

text \<open>C5: whatever the interleaving, an event has left the pending state only when every event it depends on has
  finished and no task of those is queued, running or lost.\<close>

theorem events_start_after_their_dependencies:
  assumes "system_reachable fin ps wc qc y" "later_dependencies ps" "0 < wc"
    and "(c, p) \<in> set (dependency_edges ps)" "ev_state (sc_events (sy_sched y) c) \<noteq> PENDING"
  shows "ev_state (sc_events (sy_sched y) p) = FINISHED \<and>
    (\<forall>d\<in>set (sc_queue (sy_sched y) @ sy_running y @ sy_failed y). td_event_id d \<noteq> p)"
proof -
  have inv: "sys_inv ps wc {} y" by (rule system_reachable_inv [OF assms(1-3)])
  note Y = sys_invD [OF inv] and D = dag_invD [OF Y(1)]
  have "ev_state (sc_events (sy_sched y) c) \<in> {SCHEDULED, FINISHED}"
    using states_invD(1) [OF D(2), of c] no_aborts(1) [OF Y(1) assms(2), of c] assms(5) by blast
  then have fin: "ev_state (sc_events (sy_sched y) p) = FINISHED" using aborts_invD(1) [OF D(4)] assms(4) by blast
  moreover have "td_event_id d \<noteq> p" if "d \<in> set (sc_queue (sy_sched y) @ sy_running y @ sy_failed y)" for d
    using tasks_invD(1) [OF Y(3) that] fin by auto
  ultimately show ?thesis by blast
qed


text \<open>C6: no deadlock: as long as an event is not finished and no task was lost, a task is running, or a worker
  that exists can take the head of the queue, or the leader's visit of some event makes progress or reports an error.\<close>

theorem system_never_stalls:
  assumes "system_reachable fin ps wc qc y" "later_dependencies ps" "0 < wc"
    and "sy_failed y = []" "\<not> AllEventsFinished (sy_sched y)"
  shows "sy_running y \<noteq> [] \<or> (\<exists>w<wc. worker_take w y \<noteq> None) \<or>
    (\<exists>e<event_count (sy_sched y). \<forall>y'. leader_visit fin e y \<noteq> Some (Inr (False, y')))"
proof (rule ccontr)
  assume stall: "\<not> ?thesis"
  have inv: "sys_inv ps wc {} y" by (rule system_reachable_inv [OF assms(1-3)])
  note Y = sys_invD [OF inv] and T = tasks_invD [OF sys_invD(3) [OF inv]]
  have "sc_queue (sy_sched y) = []"
  proof (rule ccontr)
    assume "sc_queue (sy_sched y) \<noteq> []"
    then obtain d ds where q: "sc_queue (sy_sched y) = d # ds" by (cases "sc_queue (sy_sched y)") auto
    then have "0 \<le> td_worker_index d" "td_worker_index d < int wc" using T(4) [of d] by simp_all
    then have "nat (td_worker_index d) < wc" "worker_take (nat (td_worker_index d)) y \<noteq> None"
      using stall by (auto simp: worker_take_def q)
    then show False using stall by blast
  qed
  then have none: "outstanding (sy_sched y) (sy_running y @ sy_failed y) e = 0" for e
    using stall assms(4) by (simp add: outstanding_def)
  have quiet: "ev_state (sc_events (sy_sched y) e) \<noteq> SCHEDULED" if e: "e < event_count (sy_sched y)" for e
  proof -
    obtain y' where v: "leader_visit fin e y = Some (Inr (False, y'))" using stall e by blast
    show ?thesis using leader_visit_inv [OF v e inv assms(2,3)] T(5) [of e] none [of e] by auto
  qed
  have "terminal (sy_sched y) e" if "e < event_count (sy_sched y)" for e
    using at_rest_is_over [OF Y(1) assms(2) quiet that] .
  then show False using assms(5) by (auto simp: AllEventsFinished_def terminal_def list_all_iff)
qed

section \<open>A run of the system\<close>

text \<open>One pipeline on one worker: its run task is scheduled, taken and finished, and its run event is finished.\<close>

definition plain_pipeline :: "nat list \<Rightarrow> pipeline" where
  "plain_pipeline deps = \<lparr>pl_depends_on = deps, pl_parallel_source = True, pl_source_max_threads = 0, pl_ops_max_threads = [],
     pl_sink_max_threads = 0, pl_sink_type = SINK_OTHER, pl_combine_is_trivial = False, pl_finalize_is_trivial = False,
     pl_payload_partitions = None, pl_finalize_ready = True\<rparr>"

definition example_pipelines :: "pipeline list" where
  "example_pipelines = [plain_pipeline []]"

definition example_task :: "task_kind \<Rightarrow> nat \<Rightarrow> task_descriptor" where
  "example_task k e = task_desc 1 (plain_pipeline []) 0 k e 0"

definition example_sched :: "event_state \<Rightarrow> event_state \<Rightarrow> (nat \<Rightarrow> nat) \<Rightarrow> task_descriptor list \<Rightarrow> scheduler" where
  "example_sched a b remaining q =
     \<lparr>sc_pipelines = example_pipelines, sc_worker_count = 1,
      sc_events = (\<lambda>e. \<lparr>ev_pipeline_id = e div 3, ev_kind = event_kind_of e,
        ev_state = if e = 0 then a else if e = 1 then b else PENDING,
        ev_pending_dependencies = if e = 2 \<or> e = 1 \<and> a \<noteq> FINISHED then 1 else 0, ev_saw_aborted_dependency = False,
        ev_dependents = if e = 0 \<and> a \<noteq> FINISHED then [1] else if e = 1 then [2] else []\<rparr>),
      sc_run_task_counts = (\<lambda>_. 0)(0 := if a = PENDING then 0 else 1), sc_tasks_remaining = remaining, sc_queue = q,
      sc_queue_capacity = kTaskQueueCapacity\<rparr>"

definition example_state :: "scheduler \<Rightarrow> (nat \<Rightarrow> bool) \<Rightarrow> (nat \<Rightarrow> bool) \<Rightarrow> task_descriptor list \<Rightarrow> system" where
  "example_state s scheduled ended running =
     \<lparr>sy_sched = s, sy_event_scheduled = scheduled, sy_event_finished = ended, sy_run_cleanup_done = ended, sy_running = running, sy_failed = []\<rparr>"

definition example_started :: system where
  "example_started = example_state (example_sched SCHEDULED PENDING ((\<lambda>_. 0)(0 := 1)) [example_task TK_RUN 0])
     ((\<lambda>_. False)(0 := True)) (\<lambda>_. False) []"

definition example_taken :: system where
  "example_taken = example_state (example_sched SCHEDULED PENDING ((\<lambda>_. 0)(0 := 1)) [])
     ((\<lambda>_. False)(0 := True)) (\<lambda>_. False) [example_task TK_RUN 0]"

definition example_done :: system where
  "example_done = example_state (example_sched SCHEDULED PENDING ((\<lambda>_. 0)(0 := 0)) [])
     ((\<lambda>_. False)(0 := True)) (\<lambda>_. False) []"

definition example_next :: system where
  "example_next = example_state (example_sched FINISHED SCHEDULED ((\<lambda>_. 0)(1 := 1)) [example_task TK_COMBINE 1])
     ((\<lambda>_. False)(0 := True)) ((\<lambda>_. False)(0 := True)) []"

lemmas example_defs = example_sched_def example_state_def example_task_def example_pipelines_def plain_pipeline_def

lemma example_later: "later_dependencies example_pipelines"
  by (simp add: later_dependencies_def example_pipelines_def plain_pipeline_def)

lemma example_initial: "initial_events example_pipelines = [0]"
  by (simp add: initial_events_def example_pipelines_def plain_pipeline_def)

lemma example_edges: "dependency_edges example_pipelines = [(1, 0), (2, 1)]"
  by (simp add: dependency_edges_def example_pipelines_def plain_pipeline_def)

lemma example_built: "BuildEvents example_pipelines 1 kTaskQueueCapacity = example_sched PENDING PENDING (\<lambda>_. 0) []"
proof -
  have "sc_events (BuildEvents example_pipelines 1 kTaskQueueCapacity) = sc_events (example_sched PENDING PENDING (\<lambda>_. 0) [])"
    by (rule ext) (simp add: BuildEvents_event example_edges children_def example_sched_def)
  then show ?thesis by (simp add: BuildEvents_def example_sched_def fun_eq_iff)
qed

lemma run_calls_mono: "run_calls f cs s = Some r \<Longrightarrow> f \<le> g \<Longrightarrow> run_calls g cs s = Some r"
proof (induction f cs s arbitrary: g rule: run_calls.induct)
  case (3 f c cs s)
  then obtain h where "g = Suc h" "f \<le> h" by (cases g) auto
  then show ?case using 3 by (auto split: sum.splits)
qed simp_all

lemma cascade_eq:
  assumes "run_calls f cs s = Some r" "cascade cs s \<noteq> None"
  shows "cascade cs s = Some r"
proof -
  obtain q where q: "cascade cs s = Some q" using assms(2) by blast
  define g where "g = max f (cascade_bound (most_dependents s) cs s)"
  have "run_calls g cs s = Some r" "run_calls g cs s = Some q"
    using run_calls_mono [OF assms(1), of g] run_calls_mono [OF q [unfolded cascade_def], of g] by (simp_all add: g_def)
  then show ?thesis using q by simp
qed

lemmas example_run = Let_def event_kind_of_def update_event_def DeriveRunTaskCount_def RememberRunTaskCount_def
  RememberedRunTaskCount_def combine_task_count_def push_tasks_def set_tasks_remaining_def kTaskQueueCapacity_def fun_eq_iff

lemma example_first_cascade:
  "cascade [TrySchedule 0] (example_sched PENDING PENDING (\<lambda>_. 0) []) =
     Some (Inr (example_sched SCHEDULED PENDING ((\<lambda>_. 0)(0 := 1)) [example_task TK_RUN 0]))"
proof (rule cascade_eq)
  have "dag_inv (dependency_edges example_pipelines) (set (initial_events example_pipelines)) {} []
      (example_sched PENDING PENDING (\<lambda>_. 0) [])"
    using BuildEvents_inv [OF example_later] example_built by metis
  then show "cascade [TrySchedule 0] (example_sched PENDING PENDING (\<lambda>_. 0) []) \<noteq> None"
    by (rule cascade_total [OF start_initial]) (unfold example_initial, simp_all add: event_count_def example_defs)
  show "run_calls 1 [TrySchedule 0] (example_sched PENDING PENDING (\<lambda>_. 0) []) =
     Some (Inr (example_sched SCHEDULED PENDING ((\<lambda>_. 0)(0 := 1)) [example_task TK_RUN 0]))"
    by (simp add: One_nat_def EnqueueTasks_def example_run example_defs)
qed

lemma example_start: "leader_start (initial_events example_pipelines) (new_system example_pipelines 1 kTaskQueueCapacity) = Some (Inr example_started)"
  unfolding example_initial
  by (simp add: schedule_initial_def new_system_def example_built example_first_cascade example_started_def example_state_def
      del: One_nat_def)
    (simp add: example_sched_def)

lemma example_reachable:
  "system_reachable fin example_pipelines 1 kTaskQueueCapacity example_started"
  "system_reachable fin example_pipelines 1 kTaskQueueCapacity example_done"
proof -
  show started: "system_reachable fin example_pipelines 1 kTaskQueueCapacity example_started"
    by (rule system_reachable.start [OF example_start])
  have "worker_take 0 example_started = Some example_taken"
    by (simp add: worker_take_def example_started_def example_taken_def example_defs task_desc_def)
  then have taken: "system_reachable fin example_pipelines 1 kTaskQueueCapacity example_taken"
    by (rule system_reachable.step [OF started system_step.take]) (simp add: example_started_def example_defs)
  have "system_step fin example_taken (task_finished (example_task TK_RUN 0) example_taken)"
    by (rule system_step.finished) (simp add: example_taken_def example_state_def)
  moreover have "task_finished (example_task TK_RUN 0) example_taken = example_done"
    by (simp add: task_finished_def example_taken_def example_done_def example_state_def set_tasks_remaining_def
        example_sched_def example_task_def task_desc_def fun_eq_iff)
  ultimately show "system_reachable fin example_pipelines 1 kTaskQueueCapacity example_done"
    using system_reachable.step [OF taken] by simp
qed

lemma example_second_cascade:
  "cascade [FinishEvent 0] (sy_sched example_done) = Some (Inr (sy_sched example_next))"
proof (rule cascade_eq)
  have inv: "sys_inv example_pipelines 1 {} example_done"
    by (rule system_reachable_inv [OF example_reachable(2) example_later]) simp
  show "cascade [FinishEvent 0] (sy_sched example_done) \<noteq> None"
    by (rule cascade_total [OF start_finish [OF sys_invD(1) [OF inv]]]) (simp_all add: event_count_def example_done_def example_defs)
  let ?s = "sy_sched example_done"
  define a where "a = update_event 0 (\<lambda>e. e\<lparr>ev_state := FINISHED\<rparr>) ?s"
  define b where "b = update_event 1 (\<lambda>e. e\<lparr>ev_pending_dependencies := 0\<rparr>) a"
  define c where "c = (update_event 1 (\<lambda>e. e\<lparr>ev_state := SCHEDULED\<rparr>) b)\<lparr>sc_tasks_remaining := (\<lambda>_. 0)(1 := 1), sc_queue := [example_task TK_COMBINE 1]\<rparr>"
  have done_defs: "?s = example_sched SCHEDULED PENDING ((\<lambda>_. 0)(0 := 0)) []" by (simp add: example_done_def example_state_def)
  have "make_call (FinishEvent 0) ?s = Inr ([CompleteDependency 1 False, ClearDependents 0], a)"
    by (simp add: done_defs a_def NotifyDependents_def Let_def example_sched_def)
  moreover have "make_call (CompleteDependency 1 False) a = Inr ([TrySchedule 1], b)"
    by (simp add: a_def b_def Let_def done_defs example_sched_def)
  moreover have "make_call (TrySchedule 1) b = Inr ([], c)"
  proof -
    have "ev_state (sc_events b 1) = PENDING" by (simp add: a_def b_def done_defs example_sched_def)
    moreover have "EnqueueTasks 1 (update_event 1 (\<lambda>e. e\<lparr>ev_state := SCHEDULED\<rparr>) b) = Inr ([], c)"
      by (simp add: EnqueueTasks_def a_def b_def c_def done_defs example_run example_defs)
    ultimately show ?thesis by simp
  qed
  moreover have "make_call (ClearDependents 0) c = Inr ([], sy_sched example_next)"
    by (simp add: a_def b_def c_def done_defs example_next_def example_state_def update_event_def example_sched_def fun_eq_iff)
  ultimately show "run_calls 4 [FinishEvent 0] ?s = Some (Inr (sy_sched example_next))"
    by (simp add: numeral_eq_Suc del: make_call.simps One_nat_def)
qed

lemma example_visit: "leader_visit fin 0 example_done = Some (Inr (True, example_next))"
proof -
  have y: "sy_sched (example_done\<lparr>sy_run_cleanup_done := (sy_run_cleanup_done example_done)(0 := True)\<rparr>) = sy_sched example_done" by simp
  show ?thesis
    unfolding leader_visit_def Let_def
    by (simp add: finish_visit_def example_second_cascade)
      (simp add: example_done_def example_next_def example_defs)
qed

lemma example_next_reachable: "system_reachable fin example_pipelines 1 kTaskQueueCapacity example_next"
  by (rule system_reachable.step [OF example_reachable(2) system_step.visit [OF example_visit]])
    (simp add: event_count_def example_done_def example_defs)

lemma example_pass: "leader_pass fin [0..<3] (False, example_done) = Some (Inr (True, note_scheduled 1 example_next))"
proof -
  have inv: "sys_inv example_pipelines 1 {} example_next"
    by (rule system_reachable_inv [OF example_next_reachable example_later]) simp
  have v1: "leader_visit fin 1 example_next = Some (Inr (False, note_scheduled 1 example_next))"
    unfolding leader_visit_cases [OF inv example_later] Let_def
    by (simp add: example_next_def example_state_def example_sched_def)
  have v2: "leader_visit fin 2 (note_scheduled 1 example_next) = Some (Inr (False, note_scheduled 1 example_next))"
    unfolding leader_visit_cases [OF note_scheduled_inv [OF inv] example_later] Let_def
    by (simp add: note_scheduled_def [of 2]) (simp add: example_next_def example_state_def example_sched_def)
  have "[0..<3] = [0, 1, 2::nat]" by (simp add: upt_rec)
  then show ?thesis by (simp add: example_visit v1 v2 del: One_nat_def)
qed

lemma example_count: "event_count (sy_sched example_done) = 3" "event_count (sy_sched example_started) = 3"
  by (simp_all add: event_count_def example_done_def example_started_def example_defs)

theorem leader_returns_witness:
  "leader_start (initial_events example_pipelines) (new_system example_pipelines 1 kTaskQueueCapacity) \<noteq> None \<and>
   leader_pass (\<lambda>_. True) [0..<3] (False, example_started) \<noteq> None"
  using leader_returns [OF example_later, of 1 kTaskQueueCapacity "\<lambda>_. True" example_started] example_reachable(1)
  by (simp add: example_count)

theorem pass_with_progress_finishes_an_event_witness:
  "card {e. e < 3 \<and> \<not> sy_event_finished (note_scheduled 1 example_next) e} < card {e. e < 3 \<and> \<not> sy_event_finished example_done e}"
  using pass_with_progress_finishes_an_event [OF example_reachable(2) example_later _ example_pass [folded example_count(1)]]
  unfolding example_count by simp

theorem events_start_after_their_dependencies_witness:
  "ev_state (sc_events (sy_sched example_next) 0) = FINISHED \<and> filter (\<lambda>d. td_event_id d = 0) (sc_queue (sy_sched example_next)) = []"
proof -
  have "ev_state (sc_events (sy_sched example_next) 1) \<noteq> PENDING"
    by (simp add: example_next_def example_state_def example_sched_def)
  then show ?thesis
    using events_start_after_their_dependencies [OF example_next_reachable example_later, of 1 0] by (simp add: example_edges filter_empty_conv)
qed


theorem system_never_stalls_witness: "(\<exists>t. worker_take 0 example_started = Some t) \<or> (\<exists>e<3. \<forall>y'. leader_visit (\<lambda>_. True) e example_started \<noteq> Some (Inr (False, y')))"
proof -
  have "sy_failed example_started = []" "sy_running example_started = []"
    by (simp_all add: example_started_def example_state_def)
  moreover have "\<not> AllEventsFinished (sy_sched example_started)"
    by (simp add: AllEventsFinished_def example_count upt_rec) (simp add: example_started_def example_state_def example_sched_def)
  ultimately show ?thesis
    using system_never_stalls [OF example_reachable(1) example_later, where fin = "\<lambda>_. True"] by (simp add: example_count)
qed

section \<open>A queue that is too small\<close>






end
