(* ===== verification/MetaPipeline.thy ===== *)
theory MetaPipeline
  imports EventDag
begin

text \<open>
  Slicing a plan into pipelines: meta_pipeline.cpp and the BuildPipelines methods of
  physical_operator.cpp, physical_hash_join.cpp, physical_cross_product.cpp and
  physical_delim_scan.cpp. A pipeline refers to operators by a number and their type; pipelines refer
  to each other by their position, which is their id.
\<close>

section \<open>Operators and pipelines\<close>

datatype operator_type = SEQ_SCAN | DELIM_SCAN | HASH_AGGREGATE | PERFECT_HASH_AGGREGATE | HASH_JOIN | CROSS_PRODUCT |
  ORDER | TOP_N | OUTPUT | FILTER | PROJECTION







section \<open>The operations on the bundle\<close>











section \<open>Every consumer waits for its producer\<close>




















section \<open>The operators of a pipeline run from its source to its sink\<close>





section \<open>An example plan\<close>








end
