(* ===== verification/TaskRun.thy ===== *)
theory TaskRun
  imports Prelude
begin

text \<open>
  Running a pipeline: task.cpp. A run task pulls chunks from the source and pushes each through the
  operators into the sink. The operators are behind the interface of operator.hpp; here an operator is
  the function its Execute computes, from its state and its input to its output, its result and its new
  state. The two scratch chunks that the operators share are kept as a store, because an operator reads
  its input again after the operators behind it have run.
\<close>

section \<open>Operators, sources and sinks\<close>

datatype operator_result = OP_NEED_MORE_INPUT | OP_HAVE_MORE_OUTPUT | OP_FINISHED | OP_BLOCKED

datatype source_result = SRC_HAVE_MORE_OUTPUT | SRC_FINISHED | SRC_BLOCKED

datatype sink_result = SINK_NEED_MORE_INPUT | SINK_FINISHED | SINK_BLOCKED

datatype drain_result = DRAIN_NEED_MORE_INPUT | DRAIN_FINISHED

datatype task_result = TASK_FINISHED | TASK_NOT_FINISHED

type_synonym ('s, 'c) execute = "'s \<Rightarrow> 'c \<Rightarrow> 'c \<times> operator_result \<times> 's"
type_synonym ('g, 'c) get_data = "'g \<Rightarrow> 'c \<times> source_result \<times> 'g"
type_synonym ('k, 'c) sink_chunk = "'k \<Rightarrow> 'c \<Rightarrow> sink_result \<times> 'k"

text \<open>The chunks of a task: the one the source fills, and the two scratch chunks.\<close>

datatype buffer = SrcChunk | ScratchA | ScratchB

record ('s, 'c, 'k) task_state =
  ts_ops :: "'s list"
  ts_chunks :: "buffer \<Rightarrow> 'c"
  ts_sink :: 'k

definition RaiseBlockedForbidden :: "'a result" where
  "RaiseBlockedForbidden = Inl (Elog ''pipeline returned BLOCKED in 3g.2 (forbidden)'')"

section \<open>Draining one chunk\<close>

text \<open>
  One fuel unit is one call of Execute or SinkChunk; \<^verbatim>\<open>None\<close> is the fuel running out. A round of the
  loop that got output goes into the suffix and comes back to the same operator.
\<close>

fun DrainOperatorSuffix :: "nat \<Rightarrow> ('s, 'c) execute list \<Rightarrow> ('k, 'c) sink_chunk \<Rightarrow> nat \<Rightarrow> buffer \<Rightarrow>
    ('s, 'c, 'k) task_state \<Rightarrow> (drain_result \<times> ('s, 'c, 'k) task_state) result option" where
  "DrainOperatorSuffix 0 ops sink i input st = None"
| "DrainOperatorSuffix (Suc fuel) ops sink i input st =
     (if length ops \<le> i
      then (case sink (ts_sink st) (ts_chunks st input) of
              (SINK_BLOCKED, k) \<Rightarrow> Some RaiseBlockedForbidden
            | (SINK_FINISHED, k) \<Rightarrow> Some (Inr (DRAIN_FINISHED, st\<lparr>ts_sink := k\<rparr>))
            | (SINK_NEED_MORE_INPUT, k) \<Rightarrow> Some (Inr (DRAIN_NEED_MORE_INPUT, st\<lparr>ts_sink := k\<rparr>)))
      else let out = (if input = ScratchA then ScratchB else ScratchA);
               (chunk, res, s) = (ops ! i) (ts_ops st ! i) (ts_chunks st input);
               st = st\<lparr>ts_ops := (ts_ops st)[i := s], ts_chunks := (ts_chunks st)(out := chunk)\<rparr>
           in case res of
                OP_BLOCKED \<Rightarrow> Some RaiseBlockedForbidden
              | OP_FINISHED \<Rightarrow> Some (Inr (DRAIN_FINISHED, st))
              | OP_NEED_MORE_INPUT \<Rightarrow> Some (Inr (DRAIN_NEED_MORE_INPUT, st))
              | OP_HAVE_MORE_OUTPUT \<Rightarrow>
                  (case DrainOperatorSuffix fuel ops sink (Suc i) out st of
                     Some (Inr (DRAIN_NEED_MORE_INPUT, st)) \<Rightarrow> DrainOperatorSuffix fuel ops sink i input st
                   | r \<Rightarrow> r))"

section \<open>The run task\<close>

definition chunk_budget :: nat where
  "chunk_budget = 32"

text \<open>
  The loop with \<open>n\<close> chunks of its budget left; \<open>shutdown\<close> says whether the shutdown flag is seen when
  that many are left.
\<close>

fun run_loop :: "nat \<Rightarrow> (nat \<Rightarrow> bool) \<Rightarrow> ('s, 'c) execute list \<Rightarrow> ('g, 'c) get_data \<Rightarrow> ('k, 'c) sink_chunk \<Rightarrow> nat \<Rightarrow>
    'g \<times> ('s, 'c, 'k) task_state \<Rightarrow> (task_result \<times> 'g \<times> ('s, 'c, 'k) task_state) result option" where
  "run_loop fuel shutdown ops source sink 0 (g, st) =
     Some (Inr (if shutdown 0 then TASK_FINISHED else TASK_NOT_FINISHED, g, st))"
| "run_loop fuel shutdown ops source sink (Suc n) (g, st) =
     (if shutdown (Suc n) then Some (Inr (TASK_FINISHED, g, st))
      else let (chunk, sres, g) = source g; st = st\<lparr>ts_chunks := (ts_chunks st)(SrcChunk := chunk)\<rparr>
           in case sres of
                SRC_BLOCKED \<Rightarrow> Some RaiseBlockedForbidden
              | SRC_FINISHED \<Rightarrow> Some (Inr (TASK_FINISHED, g, st))
              | SRC_HAVE_MORE_OUTPUT \<Rightarrow>
                  (case DrainOperatorSuffix fuel ops sink 0 SrcChunk st of
                     None \<Rightarrow> None
                   | Some (Inl err) \<Rightarrow> Some (Inl err)
                   | Some (Inr (DRAIN_FINISHED, st)) \<Rightarrow> Some (Inr (TASK_FINISHED, g, st))
                   | Some (Inr (DRAIN_NEED_MORE_INPUT, st)) \<Rightarrow> run_loop fuel shutdown ops source sink n (g, st)))"

definition RunTask_Execute :: "nat \<Rightarrow> (nat \<Rightarrow> bool) \<Rightarrow> ('s, 'c) execute list \<Rightarrow> ('g, 'c) get_data \<Rightarrow> ('k, 'c) sink_chunk \<Rightarrow>
    'g \<times> ('s, 'c, 'k) task_state \<Rightarrow> (task_result \<times> 'g \<times> ('s, 'c, 'k) task_state) result option" where
  "RunTask_Execute fuel shutdown ops source sink st = run_loop fuel shutdown ops source sink chunk_budget st"

section \<open>The operators as they see their inputs\<close>

text \<open>The same loop with every operator keeping its input to itself.\<close>

fun drain_private :: "nat \<Rightarrow> ('s, 'c) execute list \<Rightarrow> ('k, 'c) sink_chunk \<Rightarrow> nat \<Rightarrow> 'c \<Rightarrow> 's list \<times> 'k \<Rightarrow>
    (drain_result \<times> 's list \<times> 'k) result option" where
  "drain_private 0 ops sink i c (ss, k) = None"
| "drain_private (Suc fuel) ops sink i c (ss, k) =
     (if length ops \<le> i
      then (case sink k c of
              (SINK_BLOCKED, k) \<Rightarrow> Some RaiseBlockedForbidden
            | (SINK_FINISHED, k) \<Rightarrow> Some (Inr (DRAIN_FINISHED, ss, k))
            | (SINK_NEED_MORE_INPUT, k) \<Rightarrow> Some (Inr (DRAIN_NEED_MORE_INPUT, ss, k)))
      else let (chunk, res, s) = (ops ! i) (ss ! i) c; ss = ss[i := s]
           in case res of
                OP_BLOCKED \<Rightarrow> Some RaiseBlockedForbidden
              | OP_FINISHED \<Rightarrow> Some (Inr (DRAIN_FINISHED, ss, k))
              | OP_NEED_MORE_INPUT \<Rightarrow> Some (Inr (DRAIN_NEED_MORE_INPUT, ss, k))
              | OP_HAVE_MORE_OUTPUT \<Rightarrow>
                  (case drain_private fuel ops sink (Suc i) chunk (ss, k) of
                     Some (Inr (DRAIN_NEED_MORE_INPUT, ss, k)) \<Rightarrow> drain_private fuel ops sink i c (ss, k)
                   | r \<Rightarrow> r))"

definition drained :: "(drain_result \<times> ('s, 'c, 'k) task_state) result option \<Rightarrow> (drain_result \<times> 's list \<times> 'k) result option" where
  "drained = map_option (map_sum id (\<lambda>(d, st). (d, ts_ops st, ts_sink st)))"

text \<open>
  An operator that, once it has produced output, no longer looks at its input until it asks for more.
\<close>

definition insensitive :: "('s, 'c) execute \<Rightarrow> 's \<Rightarrow> bool" where
  "insensitive f s \<longleftrightarrow> (\<forall>c d. f s c = f s d)"

definition one_shot :: "('s, 'c) execute \<Rightarrow> bool" where
  "one_shot f \<longleftrightarrow> (\<forall>s c o1 s1. f s c = (o1, OP_HAVE_MORE_OUTPUT, s1) \<longrightarrow> insensitive f s1)"

definition buffer_of :: "nat \<Rightarrow> buffer" where
  "buffer_of i = (if i = 0 then SrcChunk else if odd i then ScratchA else ScratchB)"

lemma buffer_of_Suc: "(if buffer_of i = ScratchA then ScratchB else ScratchA) = buffer_of (Suc i)"
  by (simp add: buffer_of_def)

lemma buffer_of_not_src [simp]: "buffer_of (Suc i) \<noteq> SrcChunk" "SrcChunk \<noteq> buffer_of (Suc i)"
  by (simp_all add: buffer_of_def)

text \<open>One round of each loop, by the result of the operator.\<close>

lemma private_round:
  assumes "i < length ops" "(ops ! i) (ss ! i) c = (chunk, res, s)"
  shows "drain_private (Suc fuel) ops sink i c (ss, k) =
    (case res of
       OP_BLOCKED \<Rightarrow> Some RaiseBlockedForbidden
     | OP_FINISHED \<Rightarrow> Some (Inr (DRAIN_FINISHED, ss[i := s], k))
     | OP_NEED_MORE_INPUT \<Rightarrow> Some (Inr (DRAIN_NEED_MORE_INPUT, ss[i := s], k))
     | OP_HAVE_MORE_OUTPUT \<Rightarrow>
         (case drain_private fuel ops sink (Suc i) chunk (ss[i := s], k) of
            Some (Inr (DRAIN_NEED_MORE_INPUT, ss, k)) \<Rightarrow> drain_private fuel ops sink i c (ss, k)
          | r \<Rightarrow> r))"
  using assms by (simp add: Let_def)

definition after_execute :: "nat \<Rightarrow> 'c \<Rightarrow> 's \<Rightarrow> ('s, 'c, 'k) task_state \<Rightarrow> ('s, 'c, 'k) task_state" where
  "after_execute i chunk s st = st\<lparr>ts_ops := (ts_ops st)[i := s], ts_chunks := (ts_chunks st)(buffer_of (Suc i) := chunk)\<rparr>"

lemma Drain_round:
  assumes "i < length ops" "(ops ! i) (ts_ops st ! i) (ts_chunks st (buffer_of i)) = (chunk, res, s)"
  shows "DrainOperatorSuffix (Suc fuel) ops sink i (buffer_of i) st =
    (case res of
       OP_BLOCKED \<Rightarrow> Some RaiseBlockedForbidden
     | OP_FINISHED \<Rightarrow> Some (Inr (DRAIN_FINISHED, after_execute i chunk s st))
     | OP_NEED_MORE_INPUT \<Rightarrow> Some (Inr (DRAIN_NEED_MORE_INPUT, after_execute i chunk s st))
     | OP_HAVE_MORE_OUTPUT \<Rightarrow>
         (case DrainOperatorSuffix fuel ops sink (Suc i) (buffer_of (Suc i)) (after_execute i chunk s st) of
            Some (Inr (DRAIN_NEED_MORE_INPUT, st)) \<Rightarrow> DrainOperatorSuffix fuel ops sink i (buffer_of i) st
          | r \<Rightarrow> r))"
  unfolding after_execute_def using assms by (simp add: Let_def buffer_of_Suc)

lemma after_execute_simps [simp]:
  "ts_ops (after_execute i chunk s st) = (ts_ops st)[i := s]" "ts_sink (after_execute i chunk s st) = ts_sink st"
  "ts_chunks (after_execute i chunk s st) = (ts_chunks st)(buffer_of (Suc i) := chunk)"
  by (simp_all add: after_execute_def)

text \<open>The cases in which a round with output goes on or ends.\<close>

lemma drain_result_cases:
  obtains (none) "r = None" | (err) e where "r = Some (Inl e)" | (over) x where "r = Some (Inr (DRAIN_FINISHED, x))"
    | (more) x where "r = Some (Inr (DRAIN_NEED_MORE_INPUT, x))"
proof (cases r)
  case (Some q)
  show ?thesis
  proof (cases q)
    case (Inr p)
    then show ?thesis using Some over more by (cases p, cases "fst p") auto
  qed (use Some err in blast)
qed (use none in blast)

lemma drain_private_frame:
  "drain_private fuel ops sink i c (ss, k) = Some (Inr (d, ss', k')) \<Longrightarrow> length ss' = length ss \<and> (\<forall>j<i. ss' ! j = ss ! j)"
proof (induction fuel arbitrary: i c ss k d ss' k')
  case (Suc fuel)
  show ?case
  proof (cases "i < length ops")
    case True
    obtain chunk res s where e: "(ops ! i) (ss ! i) c = (chunk, res, s)" by (metis prod_cases3)
    note round = Suc.prems [unfolded private_round [OF True e]]
    show ?thesis
    proof (cases res)
      case OP_HAVE_MORE_OUTPUT
      show ?thesis
      proof (cases "drain_private fuel ops sink (Suc i) chunk (ss[i := s], k)" rule: drain_result_cases)
        case (over x)
        then have "drain_private fuel ops sink (Suc i) chunk (ss[i := s], k) = Some (Inr (d, ss', k'))"
          using round OP_HAVE_MORE_OUTPUT by simp
        then show ?thesis using Suc.IH by fastforce
      next
        case (more x)
        obtain s1 k1 where x: "x = (s1, k1)" by (cases x)
        then have "drain_private fuel ops sink i c (s1, k1) = Some (Inr (d, ss', k'))"
          using round OP_HAVE_MORE_OUTPUT more by simp
        then show ?thesis using Suc.IH [of i c s1 k1] Suc.IH [OF more [unfolded x]] by simp
      qed (use round OP_HAVE_MORE_OUTPUT in simp_all)
    qed (use round in \<open>auto simp: RaiseBlockedForbidden_def\<close>)
  qed (use Suc.prems in \<open>auto simp: RaiseBlockedForbidden_def split: prod.splits sink_result.splits\<close>)
qed simp

lemma drain_private_insensitive:
  assumes "one_shot (ops ! i)" "i < length ops"
  shows "insensitive (ops ! i) (ss ! i) \<Longrightarrow> i < length ss \<Longrightarrow>
    drain_private fuel ops sink i c (ss, k) = drain_private fuel ops sink i d (ss, k)"
proof (induction fuel arbitrary: ss k)
  case (Suc fuel)
  obtain chunk res s where e: "(ops ! i) (ss ! i) c = (chunk, res, s)" by (metis prod_cases3)
  then have e': "(ops ! i) (ss ! i) d = (chunk, res, s)" using Suc.prems(1) by (metis insensitive_def)
  show ?case
  proof (cases "drain_private fuel ops sink (Suc i) chunk (ss[i := s], k)" rule: drain_result_cases)
    case (more x)
    obtain s1 k1 where x: "x = (s1, k1)" by (cases x)
    have frame: "s1 ! i = s" "length s1 = length ss" using drain_private_frame [OF more [unfolded x]] Suc.prems(2) by simp_all
    have "drain_private fuel ops sink i c (s1, k1) = drain_private fuel ops sink i d (s1, k1)" if "res = OP_HAVE_MORE_OUTPUT"
    proof -
      have "insensitive (ops ! i) s" using assms(1) e that by (metis one_shot_def)
      then show ?thesis using Suc.IH frame Suc.prems(2) by simp
    qed
    then show ?thesis unfolding private_round [OF assms(2) e] private_round [OF assms(2) e'] using more x
      by (cases res) simp_all
  qed (simp_all add: private_round [OF assms(2) e] private_round [OF assms(2) e'] split: operator_result.splits del: drain_private.simps)
qed simp

text \<open>The source chunk is never written; the sink, and the operators before a suffix, are not touched by it.\<close>

lemma Drain_frame:
  "DrainOperatorSuffix fuel ops sink i (buffer_of i) st = Some (Inr (d, st')) \<Longrightarrow>
   ts_chunks st' SrcChunk = ts_chunks st SrcChunk \<and> (length ops \<le> i \<longrightarrow> ts_chunks st' = ts_chunks st)"
proof (induction fuel arbitrary: i st d st')
  case (Suc fuel)
  show ?case
  proof (cases "i < length ops")
    case True
    obtain chunk res s where e: "(ops ! i) (ts_ops st ! i) (ts_chunks st (buffer_of i)) = (chunk, res, s)" by (metis prod_cases3)
    note round = Suc.prems [unfolded Drain_round [OF True e]]
    show ?thesis
    proof (cases res)
      case OP_HAVE_MORE_OUTPUT
      show ?thesis
      proof (cases "DrainOperatorSuffix fuel ops sink (Suc i) (buffer_of (Suc i)) (after_execute i chunk s st)" rule: drain_result_cases)
        case (over x)
        then show ?thesis using round OP_HAVE_MORE_OUTPUT Suc.IH [of "Suc i" "after_execute i chunk s st"] True by simp
      next
        case (more x)
        then have "DrainOperatorSuffix fuel ops sink i (buffer_of i) x = Some (Inr (d, st'))"
          using round OP_HAVE_MORE_OUTPUT by simp
        then show ?thesis using Suc.IH [of i x] True Suc.IH [OF more] by simp
      qed (use round OP_HAVE_MORE_OUTPUT in simp_all)
    qed (use round True in \<open>auto simp: RaiseBlockedForbidden_def\<close>)
  qed (use Suc.prems in \<open>auto simp: RaiseBlockedForbidden_def split: prod.splits sink_result.splits\<close>)
qed simp

lemma drained_simps [simp]:
  "drained None = None" "drained (Some (Inl e)) = Some (Inl e)" "drained (Some (Inr (d, st))) = Some (Inr (d, ts_ops st, ts_sink st))"
  "drained (Some RaiseBlockedForbidden) = Some RaiseBlockedForbidden"
  by (simp_all add: drained_def RaiseBlockedForbidden_def)

lemma drained_Some: "drained r = Some (Inr (d, ss, k)) \<longleftrightarrow> (\<exists>st. r = Some (Inr (d, st)) \<and> ts_ops st = ss \<and> ts_sink st = k)"
  by (cases r rule: drain_result_cases) (auto simp: drained_def)

lemma drained_private:
  assumes shots: "\<And>j. 0 < j \<Longrightarrow> Suc j < length ops \<Longrightarrow> one_shot (ops ! j)"
  shows "length (ts_ops st) = length ops \<Longrightarrow>
    drained (DrainOperatorSuffix fuel ops sink i (buffer_of i) st) =
    drain_private fuel ops sink i (ts_chunks st (buffer_of i)) (ts_ops st, ts_sink st)"
proof (induction fuel arbitrary: i st)
  case (Suc fuel)
  show ?case
  proof (cases "i < length ops")
    case True
    obtain chunk res s where e: "(ops ! i) (ts_ops st ! i) (ts_chunks st (buffer_of i)) = (chunk, res, s)" by (metis prod_cases3)
    note rounds = Drain_round [OF True e] private_round [OF True e]
    show ?thesis
    proof (cases res)
      case OP_HAVE_MORE_OUTPUT
      let ?mid = "after_execute i chunk s st"
      have inner: "drained (DrainOperatorSuffix fuel ops sink (Suc i) (buffer_of (Suc i)) ?mid) =
          drain_private fuel ops sink (Suc i) chunk ((ts_ops st)[i := s], ts_sink st)"
        using Suc.IH [of ?mid "Suc i"] Suc.prems by simp
      show ?thesis
      proof (cases "DrainOperatorSuffix fuel ops sink (Suc i) (buffer_of (Suc i)) ?mid" rule: drain_result_cases)
        case (more x)
        have p: "drain_private fuel ops sink (Suc i) chunk ((ts_ops st)[i := s], ts_sink st) =
            Some (Inr (DRAIN_NEED_MORE_INPUT, ts_ops x, ts_sink x))" using inner more by simp
        have x: "length (ts_ops x) = length ops" "ts_ops x ! i = s" using drain_private_frame [OF p] Suc.prems True by simp_all
        have "drain_private fuel ops sink i (ts_chunks x (buffer_of i)) (ts_ops x, ts_sink x) =
            drain_private fuel ops sink i (ts_chunks st (buffer_of i)) (ts_ops x, ts_sink x)"
        proof (cases "0 < i \<and> Suc i < length ops")
          case True
          then have "one_shot (ops ! i)" "insensitive (ops ! i) (ts_ops x ! i)"
            using shots e OP_HAVE_MORE_OUTPUT x(2) by (metis one_shot_def)+
          then show ?thesis using drain_private_insensitive \<open>i < length ops\<close> x(1) by metis
        next
          case False
          then have "ts_chunks x (buffer_of i) = ts_chunks st (buffer_of i)"
            using Drain_frame [OF more] by (cases "i = 0") (auto simp: buffer_of_def)
          then show ?thesis by simp
        qed
        then show ?thesis
          unfolding rounds using OP_HAVE_MORE_OUTPUT more p Suc.IH [OF x(1), of i] by simp
      qed (unfold rounds, simp_all add: OP_HAVE_MORE_OUTPUT inner [symmetric])
    qed (simp_all add: rounds del: DrainOperatorSuffix.simps drain_private.simps)
  qed (simp split: prod.splits sink_result.splits)
qed simp

text \<open>C23: the two scratch chunks are enough as long as no operator reads its input again after an operator two
  places behind it has run: with at most two operators, or when all operators but the first and the last take
  in their whole input before they give output, draining a chunk is the same as with private inputs.\<close>

theorem scratch_chunks_suffice:
  assumes "\<forall>j. 0 < j \<longrightarrow> Suc j < length ops \<longrightarrow> one_shot (ops ! j)" "length (ts_ops st) = length ops"
  shows "drained (DrainOperatorSuffix fuel ops sink 0 SrcChunk st) =
    drain_private fuel ops sink 0 (ts_chunks st SrcChunk) (ts_ops st, ts_sink st)"
  using drained_private [OF _ assms(2), where i = 0] assms(1) by (simp add: buffer_of_def)

text \<open>Two operators that pass each input on once, and a sink that keeps its inputs.\<close>

definition pass_once :: "(bool, nat list) execute" where
  "pass_once done_once c = (if done_once then ([], OP_NEED_MORE_INPUT, False) else (c, OP_HAVE_MORE_OUTPUT, True))"

definition keep_sink :: "('c list, 'c) sink_chunk" where
  "keep_sink kept c = (SINK_NEED_MORE_INPUT, kept @ [c])"

theorem scratch_chunks_suffice_witness:
  "drained (DrainOperatorSuffix 9 [pass_once, pass_once] keep_sink 0 SrcChunk
      \<lparr>ts_ops = [False, False], ts_chunks = (\<lambda>_. [7, 8]), ts_sink = []\<rparr>) =
    Some (Inr (DRAIN_NEED_MORE_INPUT, [False, False], [[7, 8]]))"
proof -
  have "drain_private 9 [pass_once, pass_once] keep_sink 0 [7, 8] ([False, False], []) =
      Some (Inr (DRAIN_NEED_MORE_INPUT, [False, False], [[7, 8]]))"
    by (simp add: eval_nat_numeral pass_once_def keep_sink_def)
  then show ?thesis
    using scratch_chunks_suffice [of "[pass_once, pass_once]" "\<lparr>ts_ops = [False, False], ts_chunks = (\<lambda>_. [7, 8]), ts_sink = []\<rparr>" 9 keep_sink]
    by (simp add: one_shot_def insensitive_def pass_once_def)
qed

section \<open>What a chain of operators computes\<close>

text \<open>The contract of an operator: in an idle state it answers an input with a list of outputs and is idle again.\<close>

fun emits :: "('s \<Rightarrow> bool) \<Rightarrow> ('s \<Rightarrow> 'c \<Rightarrow> 'd \<times> operator_result \<times> 's) \<Rightarrow> 's \<Rightarrow> 'c \<Rightarrow> 'd list \<Rightarrow> bool" where
  "emits idle f s c [] = (case f s c of (d, res, s') \<Rightarrow> res = OP_NEED_MORE_INPUT \<and> idle s')"
| "emits idle f s c (d # ds) = (case f s c of (d', res, s') \<Rightarrow> res = OP_HAVE_MORE_OUTPUT \<and> d' = d \<and> emits idle f s' c ds)"

fun flow :: "('c \<Rightarrow> 'c list) list \<Rightarrow> 'c \<Rightarrow> 'c list" where
  "flow [] c = [c]"
| "flow (f # fs) c = concat (map (flow fs) (f c))"

text \<open>A source that supplies a list of chunks and then finishes.\<close>

fun supplies :: "('g, 'c) get_data \<Rightarrow> 'g \<Rightarrow> 'c list \<Rightarrow> bool" where
  "supplies source g [] = (case source g of (d, res, g') \<Rightarrow> res = SRC_FINISHED)"
| "supplies source g (c # cs) = (case source g of (d, res, g') \<Rightarrow> res = SRC_HAVE_MORE_OUTPUT \<and> d = c \<and> supplies source g' cs)"

text \<open>A worker's executions of one task: as long as it yields, it comes back from the queue.\<close>

fun run_again :: "nat \<Rightarrow> nat \<Rightarrow> ('s, 'c) execute list \<Rightarrow> ('g, 'c) get_data \<Rightarrow> ('k, 'c) sink_chunk \<Rightarrow>
    'g \<times> ('s, 'c, 'k) task_state \<Rightarrow> (task_result \<times> 'g \<times> ('s, 'c, 'k) task_state) result option" where
  "run_again 0 fuel ops source sink st = Some (Inr (TASK_NOT_FINISHED, st))"
| "run_again (Suc n) fuel ops source sink st =
     (case RunTask_Execute fuel (\<lambda>_. False) ops source sink st of
        Some (Inr (TASK_NOT_FINISHED, st)) \<Rightarrow> run_again n fuel ops source sink st
      | r \<Rightarrow> r)"

locale operator_chain =
  fixes ops :: "('s, 'c) execute list" and idle :: "nat \<Rightarrow> 's \<Rightarrow> bool" and outs :: "('c \<Rightarrow> 'c list) list"
    and sink :: "('k, 'c) sink_chunk" and absorb :: "'k \<Rightarrow> 'c \<Rightarrow> 'k"
  assumes outs: "length outs = length ops"
    and answers: "i < length ops \<Longrightarrow> idle i s \<Longrightarrow> emits (idle i) (ops ! i) s c ((outs ! i) c)"
    and absorbs: "sink k c = (SINK_NEED_MORE_INPUT, absorb k c)"
    and shots: "0 < j \<Longrightarrow> Suc j < length ops \<Longrightarrow> one_shot (ops ! j)"
begin

definition idle_from :: "nat \<Rightarrow> 's list \<Rightarrow> bool" where
  "idle_from i ss \<longleftrightarrow> length ss = length ops \<and> (\<forall>j. i \<le> j \<longrightarrow> j < length ops \<longrightarrow> idle j (ss ! j))"

definition drains :: "nat \<Rightarrow> 'c \<Rightarrow> 's list \<Rightarrow> 'k \<Rightarrow> 'c list \<Rightarrow> bool" where
  "drains i c ss k ds \<longleftrightarrow> (\<exists>F ss'. idle_from i ss' \<and>
     (\<forall>fuel\<ge>F. drain_private fuel ops sink i c (ss, k) = Some (Inr (DRAIN_NEED_MORE_INPUT, ss', foldl absorb k ds))))"

lemma drains_loop:
  assumes i: "i < length ops" and inner: "\<And>d ss k. idle_from (Suc i) ss \<Longrightarrow> drains (Suc i) d ss k (f d)"
  shows "emits (idle i) (ops ! i) (ss ! i) c ds \<Longrightarrow> idle_from (Suc i) ss \<Longrightarrow> drains i c ss k (concat (map f ds))"
proof (induction ds arbitrary: ss k)
  case Nil
  then obtain d s' where e: "(ops ! i) (ss ! i) c = (d, OP_NEED_MORE_INPUT, s')" "idle i s'" by (auto split: prod.splits)
  have "drain_private fuel ops sink i c (ss, k) = Some (Inr (DRAIN_NEED_MORE_INPUT, ss[i := s'], k))" if "1 \<le> fuel" for fuel
    using that i e by (cases fuel) (simp_all add: Let_def)
  moreover have "idle_from i (ss[i := s'])" using Nil.prems(2) e(2) i by (auto simp: idle_from_def nth_list_update)
  ultimately show ?case unfolding drains_def by (intro exI [of _ 1] exI [of _ "ss[i := s']"]) simp
next
  case (Cons d ds)
  then obtain s' where e: "(ops ! i) (ss ! i) c = (d, OP_HAVE_MORE_OUTPUT, s')" "emits (idle i) (ops ! i) s' c ds"
    by (auto split: prod.splits)
  have "idle_from (Suc i) (ss[i := s'])" using Cons.prems(2) by (simp add: idle_from_def)
  from inner [OF this, of d k] obtain F ss1 where in1: "idle_from (Suc i) ss1"
    "\<And>fuel. F \<le> fuel \<Longrightarrow> drain_private fuel ops sink (Suc i) d (ss[i := s'], k) = Some (Inr (DRAIN_NEED_MORE_INPUT, ss1, foldl absorb k (f d)))"
    unfolding drains_def by blast
  have "ss1 ! i = s'" using drain_private_frame [OF in1(2) [OF order_refl]] Cons.prems(2) i by (simp add: idle_from_def)
  then obtain G ss2 where in2: "idle_from i ss2"
    "\<And>fuel. G \<le> fuel \<Longrightarrow> drain_private fuel ops sink i c (ss1, foldl absorb k (f d)) =
       Some (Inr (DRAIN_NEED_MORE_INPUT, ss2, foldl absorb (foldl absorb k (f d)) (concat (map f ds))))"
    using Cons.IH [of ss1 "foldl absorb k (f d)"] e(2) in1(1) unfolding drains_def by blast
  have "drain_private fuel ops sink i c (ss, k) = Some (Inr (DRAIN_NEED_MORE_INPUT, ss2, foldl absorb k (concat (map f (d # ds)))))"
    if enough: "Suc (max F G) \<le> fuel" for fuel
  proof -
    obtain g where g: "fuel = Suc g" "F \<le> g" "G \<le> g" using enough by (cases fuel) auto
    show ?thesis unfolding g(1) private_round [OF i e(1)] using in1(2) [OF g(2)] in2(2) [OF g(3)] by simp
  qed
  then show ?case unfolding drains_def using in2(1) by blast
qed

lemma private_flow: "i \<le> length ops \<Longrightarrow> idle_from i ss \<Longrightarrow> drains i c ss k (flow (drop i outs) c)"
proof (induction "length ops - i" arbitrary: i ss c k)
  case 0
  then have "drain_private fuel ops sink i c (ss, k) = Some (Inr (DRAIN_NEED_MORE_INPUT, ss, absorb k c))" if "1 \<le> fuel" for fuel
    using that by (cases fuel) (simp_all add: absorbs)
  then show ?case using 0 outs unfolding drains_def by (intro exI [of _ 1] exI [of _ ss]) simp
next
  case (Suc m)
  then have i: "i < length ops" by simp
  have "emits (idle i) (ops ! i) (ss ! i) c ((outs ! i) c)" "idle_from (Suc i) ss"
    using Suc.prems(2) i answers by (simp_all add: idle_from_def)
  moreover have "drop i outs = outs ! i # drop (Suc i) outs" using i outs by (simp add: Cons_nth_drop_Suc)
  ultimately show ?case
    using drains_loop [OF i Suc.hyps(1) [of "Suc i"], of ss c] Suc.hyps(2) i by simp
qed

text \<open>The loops over the chunks of the source.\<close>

lemma drain_flow:
  assumes "idle_from 0 ss"
  shows "\<exists>F ss'. idle_from 0 ss' \<and> (\<forall>fuel\<ge>F. \<forall>st. ts_ops st = ss \<longrightarrow> ts_sink st = k \<longrightarrow> ts_chunks st SrcChunk = c \<longrightarrow>
    (\<exists>st'. DrainOperatorSuffix fuel ops sink 0 SrcChunk st = Some (Inr (DRAIN_NEED_MORE_INPUT, st')) \<and>
      ts_ops st' = ss' \<and> ts_sink st' = foldl absorb k (flow outs c)))"
proof -
  obtain F ss' where F: "idle_from 0 ss'" "\<And>fuel. F \<le> fuel \<Longrightarrow> drain_private fuel ops sink 0 c (ss, k) =
      Some (Inr (DRAIN_NEED_MORE_INPUT, ss', foldl absorb k (flow outs c)))"
    using private_flow [of 0 ss c k] assms unfolding drains_def by auto
  have "\<exists>st'. DrainOperatorSuffix fuel ops sink 0 SrcChunk st = Some (Inr (DRAIN_NEED_MORE_INPUT, st')) \<and>
      ts_ops st' = ss' \<and> ts_sink st' = foldl absorb k (flow outs c)"
    if "F \<le> fuel" "ts_ops st = ss" "ts_sink st = k" "ts_chunks st SrcChunk = c" for fuel st
  proof -
    have "length (ts_ops st) = length ops" using that(2) assms by (simp add: idle_from_def)
    then have "drained (DrainOperatorSuffix fuel ops sink 0 SrcChunk st) = drain_private fuel ops sink 0 c (ss, k)"
      using drained_private [of ops st fuel sink 0] shots that(2-4) by (simp add: buffer_of_def)
    then show ?thesis unfolding F(2) [OF that(1)] drained_Some .
  qed
  then show ?thesis using F(1) by blast
qed

lemma run_loop_flow:
  "supplies source g cs \<Longrightarrow> idle_from 0 ss \<Longrightarrow>
   \<exists>F ss' g'. idle_from 0 ss' \<and> (n \<le> length cs \<longrightarrow> supplies source g' (drop n cs)) \<and>
     (\<forall>fuel\<ge>F. \<forall>st. ts_ops st = ss \<longrightarrow> ts_sink st = k \<longrightarrow>
       (\<exists>st'. run_loop fuel (\<lambda>_. False) ops source sink n (g, st) =
           Some (Inr (if n \<le> length cs then TASK_NOT_FINISHED else TASK_FINISHED, g', st')) \<and>
         ts_ops st' = ss' \<and> ts_sink st' = foldl absorb k (concat (map (flow outs) (take n cs)))))"
proof (induction n arbitrary: g cs ss k)
  case 0
  then show ?case by (intro exI [of _ 0] exI [of _ ss] exI [of _ g]) auto
next
  case (Suc n)
  show ?case
  proof (cases cs)
    case Nil
    then obtain d g' where "source g = (d, SRC_FINISHED, g')" using Suc.prems(1) by (auto split: prod.splits)
    then show ?thesis using Nil Suc.prems(2)
      by (intro exI [of _ 0] exI [of _ ss] exI [of _ g']) (auto simp: Let_def)
  next
    case (Cons c cs')
    then obtain g1 where g1: "source g = (c, SRC_HAVE_MORE_OUTPUT, g1)" "supplies source g1 cs'"
      using Suc.prems(1) by (auto split: prod.splits)
    obtain F ss1 where F: "idle_from 0 ss1"
      "\<And>fuel st. F \<le> fuel \<Longrightarrow> ts_ops st = ss \<Longrightarrow> ts_sink st = k \<Longrightarrow> ts_chunks st SrcChunk = c \<Longrightarrow>
        \<exists>st'. DrainOperatorSuffix fuel ops sink 0 SrcChunk st = Some (Inr (DRAIN_NEED_MORE_INPUT, st')) \<and>
          ts_ops st' = ss1 \<and> ts_sink st' = foldl absorb k (flow outs c)"
      using drain_flow [OF Suc.prems(2), of k c] by blast
    let ?k = "foldl absorb k (flow outs c)"
    obtain G ss2 g2 where G: "idle_from 0 ss2" "n \<le> length cs' \<longrightarrow> supplies source g2 (drop n cs')"
      "\<And>fuel st. G \<le> fuel \<Longrightarrow> ts_ops st = ss1 \<Longrightarrow> ts_sink st = ?k \<Longrightarrow>
        \<exists>st'. run_loop fuel (\<lambda>_. False) ops source sink n (g1, st) =
           Some (Inr (if n \<le> length cs' then TASK_NOT_FINISHED else TASK_FINISHED, g2, st')) \<and>
         ts_ops st' = ss2 \<and> ts_sink st' = foldl absorb ?k (concat (map (flow outs) (take n cs')))"
      using Suc.IH [OF g1(2) F(1), of ?k] by blast
    have "\<exists>st'. run_loop fuel (\<lambda>_. False) ops source sink (Suc n) (g, st) =
           Some (Inr (if Suc n \<le> length cs then TASK_NOT_FINISHED else TASK_FINISHED, g2, st')) \<and>
         ts_ops st' = ss2 \<and> ts_sink st' = foldl absorb k (concat (map (flow outs) (take (Suc n) cs)))"
      if st: "max F G \<le> fuel" "ts_ops st = ss" "ts_sink st = k" for fuel st
    proof -
      let ?st = "st\<lparr>ts_chunks := (ts_chunks st)(SrcChunk := c)\<rparr>"
      obtain st1 where st1: "DrainOperatorSuffix fuel ops sink 0 SrcChunk ?st = Some (Inr (DRAIN_NEED_MORE_INPUT, st1))"
        "ts_ops st1 = ss1" "ts_sink st1 = ?k" using F(2) [of fuel ?st] st by auto
      obtain st' where st': "run_loop fuel (\<lambda>_. False) ops source sink n (g1, st1) =
           Some (Inr (if n \<le> length cs' then TASK_NOT_FINISHED else TASK_FINISHED, g2, st'))"
         "ts_ops st' = ss2" "ts_sink st' = foldl absorb ?k (concat (map (flow outs) (take n cs')))"
        using G(3) [of fuel st1] st st1(2,3) by auto
      have "run_loop fuel (\<lambda>_. False) ops source sink (Suc n) (g, st) = run_loop fuel (\<lambda>_. False) ops source sink n (g1, st1)"
        using g1(1) st1(1) by (simp add: Let_def)
      then show ?thesis using st' Cons by simp
    qed
    then show ?thesis using G(1,2) Cons by (intro exI [of _ "max F G"] exI [of _ ss2] exI [of _ g2]) simp
  qed
qed

lemma run_again_flow:
  "supplies source g cs \<Longrightarrow> idle_from 0 ss \<Longrightarrow> length cs < n * chunk_budget \<Longrightarrow>
   \<exists>F. \<forall>fuel\<ge>F. \<forall>st. ts_ops st = ss \<longrightarrow> ts_sink st = k \<longrightarrow>
     (\<exists>g' st'. run_again n fuel ops source sink (g, st) = Some (Inr (TASK_FINISHED, g', st')) \<and>
       ts_sink st' = foldl absorb k (concat (map (flow outs) cs)))"
proof (induction n arbitrary: g cs ss k)
  case (Suc n)
  obtain F ss1 g1 where F: "idle_from 0 ss1" "chunk_budget \<le> length cs \<longrightarrow> supplies source g1 (drop chunk_budget cs)"
    "\<And>fuel st. F \<le> fuel \<Longrightarrow> ts_ops st = ss \<Longrightarrow> ts_sink st = k \<Longrightarrow>
      \<exists>st'. run_loop fuel (\<lambda>_. False) ops source sink chunk_budget (g, st) =
           Some (Inr (if chunk_budget \<le> length cs then TASK_NOT_FINISHED else TASK_FINISHED, g1, st')) \<and>
         ts_ops st' = ss1 \<and> ts_sink st' = foldl absorb k (concat (map (flow outs) (take chunk_budget cs)))"
    using run_loop_flow [OF Suc.prems(1,2), of chunk_budget k] by blast
  show ?case
  proof (cases "chunk_budget \<le> length cs")
    case True
    let ?k = "foldl absorb k (concat (map (flow outs) (take chunk_budget cs)))"
    have "length (drop chunk_budget cs) < n * chunk_budget" using Suc.prems(3) True by simp
    then obtain G where G: "\<And>fuel st. G \<le> fuel \<Longrightarrow> ts_ops st = ss1 \<Longrightarrow> ts_sink st = ?k \<Longrightarrow>
      \<exists>g' st'. run_again n fuel ops source sink (g1, st) = Some (Inr (TASK_FINISHED, g', st')) \<and>
        ts_sink st' = foldl absorb ?k (concat (map (flow outs) (drop chunk_budget cs)))"
      using Suc.IH [OF _ F(1), of g1 "drop chunk_budget cs" ?k] F(2) True by blast
    have join: "foldl absorb ?k (concat (map (flow outs) (drop chunk_budget cs))) = foldl absorb k (concat (map (flow outs) cs))"
      by (simp flip: foldl_append concat_append map_append)
    have "\<exists>g' st'. run_again (Suc n) fuel ops source sink (g, st) = Some (Inr (TASK_FINISHED, g', st')) \<and>
        ts_sink st' = foldl absorb k (concat (map (flow outs) cs))"
      if st: "max F G \<le> fuel" "ts_ops st = ss" "ts_sink st = k" for fuel st
    proof -
      obtain st1 where "RunTask_Execute fuel (\<lambda>_. False) ops source sink (g, st) = Some (Inr (TASK_NOT_FINISHED, g1, st1))"
        "ts_ops st1 = ss1" "ts_sink st1 = ?k" using F(3) [of fuel st] st True by (auto simp: RunTask_Execute_def)
      then show ?thesis using G [of fuel st1] st(1) by (simp add: join)
    qed
    then show ?thesis by blast
  next
    case False
    then have "take chunk_budget cs = cs" by simp
    then show ?thesis using F(3) False by (intro exI [of _ F]) (fastforce simp: RunTask_Execute_def)
  qed
qed simp

end

end
