(* ===== verification/JoinRows.thy ===== *)
theory JoinRows
  imports GroupKeys
begin

text \<open>
  How the joins write their output rows: the column mapping and the copy loops of
  physical_hash_join_fast_probe.cpp, which the hash join and the cross product share. An output column
  takes its value from a row of the probe chunk or from a row of the build collection; a build row may be
  absent (an unmatched probe row of an outer join). The reference is the list of cells that a pair of rows
  makes; the copy loop appends exactly these.
\<close>

section \<open>The column mapping\<close>

datatype column_decode_kind =
    DECODE_NONE | INT32_CHAR | INT32_DATE | INT32_INT4 | INT64_INT8 | INT64_NUMERIC_SCALED
  | DOUBLE_FLOAT8 | DECODE_STRING_REF

datatype output_side = LEFT_SIDE | RIGHT_SIDE

record output_column =
  oc_side :: output_side
  oc_input_chunk_slot :: nat
  oc_decode_kind :: column_decode_kind
  oc_output_chunk_slot :: nat

record resolved_column = output_column +
  oc_right_col :: "tdc_column_desc option"

fun ColumnDecodeKindToTdcKind :: "column_decode_kind \<Rightarrow> tdc_column_kind option" where
  "ColumnDecodeKindToTdcKind INT32_CHAR = Some INT32"
| "ColumnDecodeKindToTdcKind INT32_DATE = Some INT32"
| "ColumnDecodeKindToTdcKind INT32_INT4 = Some INT32"
| "ColumnDecodeKindToTdcKind INT64_INT8 = Some INT64"
| "ColumnDecodeKindToTdcKind INT64_NUMERIC_SCALED = Some INT64"
| "ColumnDecodeKindToTdcKind DOUBLE_FLOAT8 = Some DOUBLE"
| "ColumnDecodeKindToTdcKind DECODE_STRING_REF = Some STRING_REF"
| "ColumnDecodeKindToTdcKind DECODE_NONE = None"

definition FindRightColumnBySlotAndKind ::
  "tuple_data_layout \<Rightarrow> nat \<Rightarrow> column_decode_kind \<Rightarrow> tdc_column_desc option result" where
  "FindRightColumnBySlotAndKind right_layout slot decode_kind =
     (case ColumnDecodeKindToTdcKind decode_kind of
        None \<Rightarrow> Inl (Elog ''invalid hash join right payload decode kind'')
      | Some expected \<Rightarrow>
          Inr (List.find (\<lambda>col. unat (col_src_col_idx col) = slot \<and> col_kind col = expected) (columns right_layout)))"

definition resolve_column :: "tuple_data_layout \<Rightarrow> output_column \<Rightarrow> resolved_column result" where
  "resolve_column build_row_layout oc =
     (let resolved = output_column.extend oc \<lparr>oc_right_col = None\<rparr>
      in if oc_decode_kind oc = DECODE_NONE then Inr resolved
         else if oc_side oc = RIGHT_SIDE
         then rbind (FindRightColumnBySlotAndKind build_row_layout (oc_input_chunk_slot oc) (oc_decode_kind oc))
                (\<lambda>col. if col = None then Inl (Elog ''hash join output column mapping missing right payload column'')
                       else Inr (resolved\<lparr>oc_right_col := col\<rparr>))
         else Inr resolved)"

fun resolve_columns :: "tuple_data_layout \<Rightarrow> output_column list \<Rightarrow> resolved_column list result" where
  "resolve_columns l [] = Inr []"
| "resolve_columns l (oc # ocs) = rbind (resolve_column l oc) (\<lambda>c. rbind (resolve_columns l ocs) (\<lambda>cs. Inr (c # cs)))"

section \<open>Copying\<close>

definition set_null :: "nat \<Rightarrow> nat \<Rightarrow> u8 \<Rightarrow> data_chunk \<Rightarrow> data_chunk" where
  "set_null slot row v ch = ch\<lparr>nulls := (nulls ch)(slot := (nulls ch slot)(row := v))\<rparr>"

text \<open>A fixed-width cell and its null flag: from the probe chunk, of an absent build row, from a build row.\<close>

definition fixed_cell ::
  "resolved_column \<Rightarrow> data_chunk \<Rightarrow> nat \<Rightarrow> u8 list option \<Rightarrow> (data_chunk \<Rightarrow> nat \<Rightarrow> nat \<Rightarrow> 'a::zero) \<Rightarrow>
   (nat \<Rightarrow> u8 list \<Rightarrow> 'a) \<Rightarrow> 'a \<times> u8" where
  "fixed_cell desc left i right_row from_left from_right =
     (let inp = oc_input_chunk_slot desc
      in if oc_side desc = LEFT_SIDE then (from_left left inp i, nulls left inp i)
         else case right_row of
                None \<Rightarrow> (0, 1)
              | Some bytes \<Rightarrow> (from_right (unat (col_offset (the (oc_right_col desc)))) bytes, 0))"

definition put_int32 :: "nat \<Rightarrow> nat \<Rightarrow> data_chunk \<Rightarrow> u32 \<times> u8 \<Rightarrow> data_chunk" where
  "put_int32 slot row out vn = set_null slot row (snd vn) (out\<lparr>int32_class := set_cell slot row (fst vn) (int32_class out)\<rparr>)"

definition put_int64 :: "nat \<Rightarrow> nat \<Rightarrow> data_chunk \<Rightarrow> u64 \<times> u8 \<Rightarrow> data_chunk" where
  "put_int64 slot row out vn = set_null slot row (snd vn) (out\<lparr>int64_class := set_cell slot row (fst vn) (int64_class out)\<rparr>)"

definition put_double :: "nat \<Rightarrow> nat \<Rightarrow> data_chunk \<Rightarrow> u64 \<times> u8 \<Rightarrow> data_chunk" where
  "put_double slot row out vn = set_null slot row (snd vn) (out\<lparr>double_class := set_cell slot row (fst vn) (double_class out)\<rparr>)"

definition put_string :: "nat \<Rightarrow> nat \<Rightarrow> u8 \<Rightarrow> vec_string_ref \<times> data_chunk \<Rightarrow> data_chunk result" where
  "put_string slot row n ro =
     Inr (set_null slot row n ((snd ro)\<lparr>string_class := set_cell slot row (fst ro) (string_class (snd ro))\<rparr>))"

definition copy_join_column ::
  "data_chunk \<Rightarrow> nat \<Rightarrow> tuple_data_collection option \<Rightarrow> u8 list option \<Rightarrow> nat \<Rightarrow> resolved_column \<Rightarrow>
   data_chunk \<Rightarrow> data_chunk result" where
  "copy_join_column left i right_tdc right_row row desc out =
     (let slot = oc_output_chunk_slot desc; inp = oc_input_chunk_slot desc;
          int32_cell = Inr (put_int32 slot row out (fixed_cell desc left i right_row get_int32 get_u32));
          int64_cell = Inr (put_int64 slot row out (fixed_cell desc left i right_row get_int64 get_u64));
          double_cell = Inr (put_double slot row out (fixed_cell desc left i right_row get_double get_u64))
      in case oc_decode_kind desc of
           INT32_CHAR \<Rightarrow> int32_cell
         | INT32_DATE \<Rightarrow> int32_cell
         | INT32_INT4 \<Rightarrow> int32_cell
         | INT64_INT8 \<Rightarrow> int64_cell
         | INT64_NUMERIC_SCALED \<Rightarrow> int64_cell
         | DOUBLE_FLOAT8 \<Rightarrow> double_cell
         | DECODE_STRING_REF \<Rightarrow>
             if oc_side desc = LEFT_SIDE
             then rbind (store_string_bytes (get_string_ptr left inp i) (ref_len (get_string_ref left inp i)) out)
                    (put_string slot row (nulls left inp i))
             else (case right_row of
                     None \<Rightarrow> put_string slot row 1 (\<lparr>ref_len = 0, ref_offset = 0, ref_prefix = 0\<rparr>, out)
                   | Some bytes \<Rightarrow>
                       let ref = read_string_ref (unat (col_offset (the (oc_right_col desc)))) bytes;
                           ptr = VecStringRefDataPtr ref (heap_base right_tdc)
                       in if ptr = None \<and> ref_len ref \<noteq> 0
                          then Inl (Elog ''hash join output string missing backing storage'')
                          else rbind (store_string_bytes ptr (ref_len ref) out) (put_string slot row 0))
         | DECODE_NONE \<Rightarrow> Inr (set_null slot row 1 out))"

definition CopyResolvedJoinRow ::
  "data_chunk \<Rightarrow> nat \<Rightarrow> tuple_data_collection option \<Rightarrow> u8 list option \<Rightarrow> resolved_column list \<Rightarrow>
   data_chunk \<Rightarrow> nat \<Rightarrow> data_chunk result" where
  "CopyResolvedJoinRow left i right_tdc right_row resolved_columns out row =
     fold_res (copy_join_column left i right_tdc right_row row) resolved_columns out"

text \<open>A matched pair: the probe row's index, the build row's collection and the build row.\<close>

type_synonym matched = "nat \<times> tuple_data_collection option \<times> u8 list option"

definition CopyRowsByResolvedMappingBatch ::
  "data_chunk \<Rightarrow> matched list \<Rightarrow> resolved_column list \<Rightarrow> data_chunk \<Rightarrow> nat \<Rightarrow> data_chunk result" where
  "CopyRowsByResolvedMappingBatch left batch resolved_columns out out_row_base =
     fold_res (\<lambda>(batch_idx, i, tdc, bytes) out.
         CopyResolvedJoinRow left i tdc bytes resolved_columns out ((out_row_base + batch_idx) mod 65536))
       (enumerate 0 batch) out"

text \<open>The step of both Execute methods that copies a non-empty batch behind the rows already there.\<close>

definition append_batch ::
  "data_chunk \<Rightarrow> resolved_column list \<Rightarrow> matched list \<Rightarrow> data_chunk \<Rightarrow> data_chunk result" where
  "append_batch left cols batch out =
     (if batch = [] then Inr out
      else rbind (CopyRowsByResolvedMappingBatch left batch cols out (chunk_count out))
             (\<lambda>out. Inr (out\<lparr>chunk_count := chunk_count out + length batch\<rparr>)))"

section \<open>The cells of a joined row\<close>

text \<open>A cell is its null flag and, for a column that is written at all, its value.\<close>

type_synonym cell = "u8 \<times> gval option"

fun slot_val :: "tdc_column_kind \<Rightarrow> data_chunk \<Rightarrow> nat \<Rightarrow> nat \<Rightarrow> gval" where
  "slot_val INT32 ch slot row = GInt32 (get_int32 ch slot row)"
| "slot_val INT64 ch slot row = GInt64 (get_int64 ch slot row)"
| "slot_val DOUBLE ch slot row = GDouble (get_double ch slot row)"
| "slot_val STRING_REF ch slot row = GString (ref_string (string_arena ch) (get_string_ref ch slot row))"

fun absent_val :: "tdc_column_kind \<Rightarrow> gval" where
  "absent_val INT32 = GInt32 0"
| "absent_val INT64 = GInt64 0"
| "absent_val DOUBLE = GDouble 0"
| "absent_val STRING_REF = GString []"

fun bytes_val :: "tdc_column_kind \<Rightarrow> u8 list \<Rightarrow> nat \<Rightarrow> u8 list \<Rightarrow> gval" where
  "bytes_val INT32 heap off row = GInt32 (get_u32 off row)"
| "bytes_val INT64 heap off row = GInt64 (get_u64 off row)"
| "bytes_val DOUBLE heap off row = GDouble (get_u64 off row)"
| "bytes_val STRING_REF heap off row = GString (ref_string heap (read_string_ref off row))"

definition join_cell :: "data_chunk \<Rightarrow> matched \<Rightarrow> resolved_column \<Rightarrow> cell" where
  "join_cell left m desc =
     (let (i, tdc, row) = m
      in case ColumnDecodeKindToTdcKind (oc_decode_kind desc) of
           None \<Rightarrow> (1, None)
         | Some k \<Rightarrow>
             if oc_side desc = LEFT_SIDE
             then (nulls left (oc_input_chunk_slot desc) i, Some (slot_val k left (oc_input_chunk_slot desc) i))
             else (case row of
                     None \<Rightarrow> (1, Some (absent_val k))
                   | Some bytes \<Rightarrow>
                       (0, Some (bytes_val k (case tdc of None \<Rightarrow> [] | Some t \<Rightarrow> tdc_heap t)
                             (unat (col_offset (the (oc_right_col desc)))) bytes))))"

definition join_row :: "data_chunk \<Rightarrow> resolved_column list \<Rightarrow> matched \<Rightarrow> cell list" where
  "join_row left cols m = map (join_cell left m) cols"

definition out_cell :: "data_chunk \<Rightarrow> nat \<Rightarrow> resolved_column \<Rightarrow> cell" where
  "out_cell out row desc =
     (nulls out (oc_output_chunk_slot desc) row,
      map_option (\<lambda>k. slot_val k out (oc_output_chunk_slot desc) row) (ColumnDecodeKindToTdcKind (oc_decode_kind desc)))"

definition out_rows :: "resolved_column list \<Rightarrow> data_chunk \<Rightarrow> cell list list" where
  "out_rows cols out = map (\<lambda>row. map (out_cell out row) cols) [0..<chunk_count out]"

section \<open>The copy loop\<close>

text \<open>The output chunk between copies: no dictionaries, sound string references, a bounded arena.\<close>

definition plain_slots :: "data_chunk \<Rightarrow> bool" where
  "plain_slots ch \<longleftrightarrow>
     (\<forall>slot<N_SLOTS. \<not> dict_active (int32_class ch) slot \<and> \<not> dict_active (int64_class ch) slot \<and>
        \<not> dict_active (double_class ch) slot \<and> \<not> dict_active (string_class ch) slot)"

definition cell_ok :: "data_chunk \<Rightarrow> nat \<Rightarrow> resolved_column \<Rightarrow> bool" where
  "cell_ok out row desc \<longleftrightarrow>
     (ColumnDecodeKindToTdcKind (oc_decode_kind desc) = Some STRING_REF \<longrightarrow>
        ref_ok (string_arena out) (length (string_arena out)) (get_string_ref out (oc_output_chunk_slot desc) row))"

definition cols_ok :: "resolved_column list \<Rightarrow> bool" where
  "cols_ok cols \<longleftrightarrow> distinct (map oc_output_chunk_slot cols) \<and> (\<forall>d\<in>set cols. oc_output_chunk_slot d < N_SLOTS)"

text \<open>The strings a matched pair brings are sound and short enough to be stored.\<close>

definition short_ref :: "u8 list \<Rightarrow> nat \<Rightarrow> vec_string_ref \<Rightarrow> bool" where
  "short_ref arena used r \<longleftrightarrow> ref_ok arena used r \<and> unat (ref_len r) \<le> 65536"

definition match_ok :: "data_chunk \<Rightarrow> resolved_column list \<Rightarrow> matched \<Rightarrow> bool" where
  "match_ok left cols m \<longleftrightarrow>
     (let (i, tdc, row) = m
      in \<forall>d\<in>set cols. oc_decode_kind d = DECODE_STRING_REF \<longrightarrow>
           (if oc_side d = LEFT_SIDE
            then short_ref (string_arena left) (length (string_arena left)) (get_string_ref left (oc_input_chunk_slot d) i)
            else row \<noteq> None \<longrightarrow> (\<exists>t n. tdc = Some t \<and>
              short_ref (tdc_heap t) n (read_string_ref (unat (col_offset (the (oc_right_col d)))) (the row)))))"

lemma store_string_ok:
  assumes "unat len = length bs" "length bs \<le> 65536" "length (string_arena ch) + length bs < 2 ^ 32 - 1"
  shows "\<exists>r ext. store_string_bytes (Some bs) len ch = Inr (r, ch\<lparr>string_arena := string_arena ch @ ext\<rparr>) \<and>
    length ext \<le> 65536 \<and> ref_ok (string_arena ch @ ext) (length (string_arena ch @ ext)) r \<and>
    ref_string (string_arena ch @ ext) r = bs"
proof -
  have len: "len = 0 \<longleftrightarrow> bs = []" "\<not> 65536 < len" "len \<le> 8 \<longleftrightarrow> length bs \<le> 8"
    using assms(1,2) by (auto simp: unat_eq_0 word_less_nat_alt word_le_nat_alt)
  have off: "unat (word_of_nat (length (string_arena ch)) :: u32) = length (string_arena ch)"
    using assms(3) by (intro unat_of_nat_u32) simp
  have prefix: "length bs \<le> 8 \<Longrightarrow> take (length bs) (le_bytes 8 (unat (string_prefix bs))) = bs"
    by (rule le_bytes_prefix)
  consider "bs = []" | "bs \<noteq> []" "length bs \<le> 8" | "8 < length bs" by fastforce
  then show ?thesis
  proof cases
    case 1
    then show ?thesis using len
      by (intro exI [of _ "\<lparr>ref_len = len, ref_offset = 0, ref_prefix = 0\<rparr>"] exI [of _ "[]"])
        (simp add: store_string_bytes_def Let_def ref_ok_def ref_string_def VecStringRefDataPtr_def)
  next
    case 2
    let ?r = "\<lparr>ref_len = len, ref_offset = kVecStringInlineOffset, ref_prefix = string_prefix bs\<rparr>"
    show ?thesis using 2 len prefix assms
      by (intro exI [of _ ?r] exI [of _ "[]"])
        (simp add: store_string_bytes_def Let_def ref_ok_def ref_string_def VecStringRefDataPtr_def VecStringRefIsInline_def word_gt_0)
  next
    case 3
    let ?r = "\<lparr>ref_len = len, ref_offset = word_of_nat (length (string_arena ch)), ref_prefix = string_prefix bs\<rparr>"
    show ?thesis using 3 len off assms
      by (intro exI [of _ ?r] exI [of _ bs])
        (auto simp: store_string_bytes_def Let_def ref_ok_def ref_string_def VecStringRefDataPtr_def VecStringRefIsInline_def
          mem_read_suffix)
  qed
qed

lemma string_cell_kept:
  assumes "ref_ok a (length a) r"
  shows "ref_ok (a @ ext) (length (a @ ext)) r" "ref_string (a @ ext) r = ref_string a r"
  using ref_ok_grow [OF assms, of "length (a @ ext)" "a @ ext"] by (simp_all add: mem_read_append)

text \<open>The effect of copying one column: its own cell, the growth of the arena, and every other cell.\<close>

definition column_copied ::
  "resolved_column \<Rightarrow> nat \<Rightarrow> cell \<Rightarrow> data_chunk \<Rightarrow> data_chunk \<Rightarrow> bool" where
  "column_copied desc row v out out' \<longleftrightarrow>
     plain_slots out' \<and> chunk_count out' = chunk_count out \<and>
     (\<exists>ext. string_arena out' = string_arena out @ ext \<and> length ext \<le> 65536) \<and>
     out_cell out' row desc = v \<and> cell_ok out' row desc \<and>
     (\<forall>d r. oc_output_chunk_slot d \<noteq> oc_output_chunk_slot desc \<or> r \<noteq> row \<longrightarrow>
        oc_output_chunk_slot d < N_SLOTS \<longrightarrow> cell_ok out r d \<longrightarrow>
        cell_ok out' r d \<and> out_cell out' r d = out_cell out r d)"

lemmas class_defs = set_null_def set_cell_def get_cell_def get_int32_def get_int64_def get_double_def get_string_ref_def

lemma slot_val_case:
  "slot_val k ch slot row =
    (case k of INT32 \<Rightarrow> GInt32 (get_int32 ch slot row) | INT64 \<Rightarrow> GInt64 (get_int64 ch slot row)
     | DOUBLE \<Rightarrow> GDouble (get_double ch slot row)
     | STRING_REF \<Rightarrow> GString (ref_string (string_arena ch) (get_string_ref ch slot row)))"
  by (cases k) simp_all

text \<open>The writes of the four classes.\<close>

lemma none_copied:
  assumes "plain_slots out" "oc_decode_kind desc = DECODE_NONE"
  shows "column_copied desc row (1, None) out (set_null (oc_output_chunk_slot desc) row 1 out)"
  using assms by (auto simp: column_copied_def plain_slots_def cell_ok_def out_cell_def class_defs slot_val_case
      intro!: option.map_cong split: tdc_column_kind.splits)

lemma int32_copied:
  assumes "plain_slots out" "ColumnDecodeKindToTdcKind (oc_decode_kind desc) = Some INT32" "oc_output_chunk_slot desc < N_SLOTS"
  shows "column_copied desc row (n, Some (GInt32 v)) out (put_int32 (oc_output_chunk_slot desc) row out (v, n))"
  using assms by (auto simp: column_copied_def plain_slots_def cell_ok_def out_cell_def class_defs slot_val_case put_int32_def
      intro!: option.map_cong split: tdc_column_kind.splits)

lemma int64_copied:
  assumes "plain_slots out" "ColumnDecodeKindToTdcKind (oc_decode_kind desc) = Some INT64" "oc_output_chunk_slot desc < N_SLOTS"
  shows "column_copied desc row (n, Some (GInt64 v)) out (put_int64 (oc_output_chunk_slot desc) row out (v, n))"
  using assms by (auto simp: column_copied_def plain_slots_def cell_ok_def out_cell_def class_defs slot_val_case put_int64_def
      intro!: option.map_cong split: tdc_column_kind.splits)

lemma double_copied:
  assumes "plain_slots out" "ColumnDecodeKindToTdcKind (oc_decode_kind desc) = Some DOUBLE" "oc_output_chunk_slot desc < N_SLOTS"
  shows "column_copied desc row (n, Some (GDouble v)) out (put_double (oc_output_chunk_slot desc) row out (v, n))"
  using assms by (auto simp: column_copied_def plain_slots_def cell_ok_def out_cell_def class_defs slot_val_case put_double_def
      intro!: option.map_cong split: tdc_column_kind.splits)

lemma string_copied:
  assumes "plain_slots out" "ColumnDecodeKindToTdcKind (oc_decode_kind desc) = Some STRING_REF"
    "oc_output_chunk_slot desc < N_SLOTS" "length ext \<le> 65536"
    "ref_ok (string_arena out @ ext) (length (string_arena out @ ext)) r" "ref_string (string_arena out @ ext) r = bs"
  obtains out' where
    "put_string (oc_output_chunk_slot desc) row n (r, out\<lparr>string_arena := string_arena out @ ext\<rparr>) = Inr out'"
    "column_copied desc row (n, Some (GString bs)) out out'"
proof -
  let ?out = "set_null (oc_output_chunk_slot desc) row n
    (out\<lparr>string_arena := string_arena out @ ext, string_class := set_cell (oc_output_chunk_slot desc) row r (string_class out)\<rparr>)"
  note [simp] = string_cell_kept [unfolded length_append]
  have "column_copied desc row (n, Some (GString bs)) out ?out"
    using assms by (auto simp: column_copied_def plain_slots_def cell_ok_def out_cell_def class_defs slot_val_case
      intro!: option.map_cong split: tdc_column_kind.splits)
  then show ?thesis using that by (simp add: put_string_def)
qed

lemma copy_join_column_ok:
  assumes "plain_slots out" "oc_output_chunk_slot d < N_SLOTS" "match_ok left cols (i, tdc, bytes)" "d \<in> set cols"
    and arena: "length (string_arena out) + 65536 < 2 ^ 32 - 1"
  obtains out' where "copy_join_column left i tdc bytes row d out = Inr out'"
    "column_copied d row (join_cell left (i, tdc, bytes) d) out out'"
proof (cases "oc_decode_kind d = DECODE_STRING_REF")
  case True
  have store: "\<exists>out'. rbind (store_string_bytes (Some (ref_string a r)) (ref_len r) out) (put_string (oc_output_chunk_slot d) row n) = Inr out' \<and>
      column_copied d row (n, Some (GString (ref_string a r))) out out'" if "short_ref a k r" for a k r n
  proof -
    have "unat (ref_len r) = length (ref_string a r)" "length (ref_string a r) \<le> 65536"
      using that length_ref_string by (auto simp: short_ref_def)
    then obtain r' ext where r': "store_string_bytes (Some (ref_string a r)) (ref_len r) out = Inr (r', out\<lparr>string_arena := string_arena out @ ext\<rparr>)"
      "length ext \<le> 65536" "ref_ok (string_arena out @ ext) (length (string_arena out @ ext)) r'"
      "ref_string (string_arena out @ ext) r' = ref_string a r"
      using store_string_ok [of "ref_len r" "ref_string a r" out] arena by auto
    show ?thesis using string_copied [OF assms(1) _ assms(2) r'(2-4), of row n] True r'(1) by auto
  qed
  show ?thesis
  proof (cases "oc_side d")
    case LEFT_SIDE
    then have "short_ref (string_arena left) (length (string_arena left)) (get_string_ref left (oc_input_chunk_slot d) i)"
      using assms(3,4) True by (auto simp: match_ok_def)
    from store [OF this, of "nulls left (oc_input_chunk_slot d) i"] show ?thesis
      using that True LEFT_SIDE by (auto simp: copy_join_column_def join_cell_def get_string_ptr_def)
  next
    case RIGHT_SIDE
    show ?thesis
    proof (cases bytes)
      case None
      have "ref_ok (string_arena out @ []) (length (string_arena out @ [])) \<lparr>ref_len = 0, ref_offset = 0, ref_prefix = 0\<rparr>"
        "ref_string (string_arena out @ []) \<lparr>ref_len = 0, ref_offset = 0, ref_prefix = 0\<rparr> = []"
        by (simp_all add: ref_ok_def ref_string_def VecStringRefDataPtr_def)
      from string_copied [OF assms(1) _ assms(2) _ this, of row 1] show ?thesis
        using that True RIGHT_SIDE None by (auto simp: copy_join_column_def join_cell_def)
    next
      case (Some b)
      then obtain t k where t: "tdc = Some t" "short_ref (tdc_heap t) k (read_string_ref (unat (col_offset (the (oc_right_col d)))) b)"
        using assms(3,4) True RIGHT_SIDE by (fastforce simp: match_ok_def)
      from store [OF t(2), of 0] show ?thesis
        using that True RIGHT_SIDE Some t(1) by (auto simp: copy_join_column_def join_cell_def heap_base_def Let_def)
    qed
  qed
next
  case False
  then show ?thesis
    using that none_copied [OF assms(1)] int32_copied [OF assms(1) _ assms(2)] int64_copied [OF assms(1) _ assms(2)]
      double_copied [OF assms(1) _ assms(2)]
    by (cases "oc_decode_kind d"; cases "oc_side d"; cases bytes)
      (auto simp: copy_join_column_def join_cell_def fixed_cell_def Let_def)
qed

definition row_copied ::
  "resolved_column list \<Rightarrow> nat \<Rightarrow> (resolved_column \<Rightarrow> cell) \<Rightarrow> data_chunk \<Rightarrow> data_chunk \<Rightarrow> bool" where
  "row_copied ds row v out out' \<longleftrightarrow>
     plain_slots out' \<and> chunk_count out' = chunk_count out \<and>
     length (string_arena out') \<le> length (string_arena out) + 65536 * length ds \<and>
     (\<forall>d\<in>set ds. out_cell out' row d = v d \<and> cell_ok out' row d) \<and>
     (\<forall>d r. oc_output_chunk_slot d \<notin> oc_output_chunk_slot ` set ds \<or> r \<noteq> row \<longrightarrow>
        oc_output_chunk_slot d < N_SLOTS \<longrightarrow> cell_ok out r d \<longrightarrow>
        cell_ok out' r d \<and> out_cell out' r d = out_cell out r d)"

lemma copy_columns:
  assumes "match_ok left cols (i, tdc, bytes)"
  shows "set ds \<subseteq> set cols \<Longrightarrow> cols_ok ds \<Longrightarrow> plain_slots out \<Longrightarrow>
    length (string_arena out) + 65536 * length ds < 2 ^ 32 - 1 \<Longrightarrow>
    \<exists>out'. fold_res (copy_join_column left i tdc bytes row) ds out = Inr out' \<and>
      row_copied ds row (join_cell left (i, tdc, bytes)) out out'"
proof (induction ds arbitrary: out)
  case Nil
  then show ?case by (auto simp: row_copied_def)
next
  case (Cons d ds)
  have d: "oc_output_chunk_slot d < N_SLOTS" "d \<in> set cols" "oc_output_chunk_slot d \<notin> oc_output_chunk_slot ` set ds" "cols_ok ds"
    "\<forall>e\<in>set ds. oc_output_chunk_slot e < N_SLOTS"
    using Cons.prems(1,2) by (auto simp: cols_ok_def)
  obtain out1 where out1: "copy_join_column left i tdc bytes row d out = Inr out1"
    "column_copied d row (join_cell left (i, tdc, bytes) d) out out1"
    using copy_join_column_ok [OF Cons.prems(3) d(1) assms d(2)] Cons.prems(4) by auto
  have "plain_slots out1" "length (string_arena out1) + 65536 * length ds < 2 ^ 32 - 1"
    using out1(2) Cons.prems(4) by (auto simp: column_copied_def)
  then obtain out2 where out2: "fold_res (copy_join_column left i tdc bytes row) ds out1 = Inr out2"
    "row_copied ds row (join_cell left (i, tdc, bytes)) out1 out2"
    using Cons.IH [OF _ d(4)] Cons.prems(1) by auto
  have "row_copied (d # ds) row (join_cell left (i, tdc, bytes)) out out2"
    unfolding row_copied_def
  proof (intro conjI)
    show "plain_slots out2" "chunk_count out2 = chunk_count out"
      "length (string_arena out2) \<le> length (string_arena out) + 65536 * length (d # ds)"
      using out1(2) out2(2) by (auto simp: column_copied_def row_copied_def)
    show "\<forall>e\<in>set (d # ds). out_cell out2 row e = join_cell left (i, tdc, bytes) e \<and> cell_ok out2 row e"
      using out1(2) out2(2) d(1,3) by (auto simp: column_copied_def row_copied_def)
    show "\<forall>e r. oc_output_chunk_slot e \<notin> oc_output_chunk_slot ` set (d # ds) \<or> r \<noteq> row \<longrightarrow>
        oc_output_chunk_slot e < N_SLOTS \<longrightarrow> cell_ok out r e \<longrightarrow> cell_ok out2 r e \<and> out_cell out2 r e = out_cell out r e"
      using out1(2) out2(2) unfolding column_copied_def row_copied_def by (metis image_insert insert_iff list.simps(15))
  qed
  then show ?case using out1(1) out2(1) by simp
qed

section \<open>Appending rows\<close>

definition PIPELINE_DEFAULT_CHUNK_SIZE :: nat where
  "PIPELINE_DEFAULT_CHUNK_SIZE = 2048"

definition filled :: "resolved_column list \<Rightarrow> nat \<Rightarrow> data_chunk \<Rightarrow> bool" where
  "filled cols n out \<longleftrightarrow> plain_slots out \<and> (\<forall>r<n. \<forall>d\<in>set cols. cell_ok out r d) \<and>
     length (string_arena out) \<le> 65536 * length cols * n"

definition first_rows :: "resolved_column list \<Rightarrow> nat \<Rightarrow> data_chunk \<Rightarrow> cell list list" where
  "first_rows cols n out = map (\<lambda>row. map (out_cell out row) cols) [0..<n]"

lemma cols_ok_length: "cols_ok cols \<Longrightarrow> length cols \<le> 16"
  using card_mono [of "{..<N_SLOTS}" "oc_output_chunk_slot ` set cols"] distinct_card [of "map oc_output_chunk_slot cols"]
  by (auto simp: cols_ok_def N_SLOTS_def)

lemma copy_row:
  assumes "cols_ok cols" "match_ok left cols (i, tdc, bytes)" "filled cols n out" "n < PIPELINE_DEFAULT_CHUNK_SIZE"
  obtains out' where "CopyResolvedJoinRow left i tdc bytes cols out n = Inr out'" "filled cols (Suc n) out'"
    "chunk_count out' = chunk_count out"
    "first_rows cols (Suc n) out' = first_rows cols n out @ [join_row left cols (i, tdc, bytes)]"
proof -
  have "length cols * n \<le> 16 * 2047"
    using cols_ok_length [OF assms(1)] assms(4) by (intro mult_le_mono) (simp_all add: PIPELINE_DEFAULT_CHUNK_SIZE_def)
  then have "length (string_arena out) + 65536 * length cols < 2 ^ 32 - 1"
    using assms(3) cols_ok_length [OF assms(1)] by (simp add: filled_def)
  then obtain out' where out': "CopyResolvedJoinRow left i tdc bytes cols out n = Inr out'"
    "row_copied cols n (join_cell left (i, tdc, bytes)) out out'"
    using copy_columns [OF assms(2) order_refl assms(1), of out n] assms(3) by (auto simp: filled_def CopyResolvedJoinRow_def)
  have kept: "cell_ok out' r d \<and> out_cell out' r d = out_cell out r d" if "r < n" "d \<in> set cols" for r d
    using out'(2) that assms(1,3) by (auto simp: row_copied_def cols_ok_def filled_def)
  have "filled cols (Suc n) out'"
    using out'(2) kept assms(3) by (auto simp: filled_def row_copied_def less_Suc_eq algebra_simps)
  moreover have "first_rows cols (Suc n) out' = first_rows cols n out @ [join_row left cols (i, tdc, bytes)]"
    using out'(2) kept by (auto simp: first_rows_def row_copied_def join_row_def)
  ultimately show ?thesis using that out' by (simp add: row_copied_def)
qed

lemma copy_batch:
  assumes "cols_ok cols"
  shows "\<forall>m\<in>set batch. match_ok left cols m \<Longrightarrow> filled cols (base + k) out \<Longrightarrow>
    base + k + length batch \<le> PIPELINE_DEFAULT_CHUNK_SIZE \<Longrightarrow>
    \<exists>out'. fold_res (\<lambda>(batch_idx, i, tdc, bytes) out.
         CopyResolvedJoinRow left i tdc bytes cols out ((base + batch_idx) mod 65536)) (enumerate k batch) out = Inr out' \<and>
      filled cols (base + k + length batch) out' \<and> chunk_count out' = chunk_count out \<and>
      first_rows cols (base + k + length batch) out' = first_rows cols (base + k) out @ map (join_row left cols) batch"
proof (induction batch arbitrary: k out)
  case Nil
  then show ?case by simp
next
  case (Cons m batch)
  obtain i tdc bytes where m: "m = (i, tdc, bytes)" by (metis prod_cases3)
  have n: "base + k < PIPELINE_DEFAULT_CHUNK_SIZE" "match_ok left cols (i, tdc, bytes)" using Cons.prems(1,3) m by simp_all
  have idx: "(base + k) mod 65536 = base + k" using n(1) by (simp add: PIPELINE_DEFAULT_CHUNK_SIZE_def)
  obtain out1 where out1: "CopyResolvedJoinRow left i tdc bytes cols out (base + k) = Inr out1" "filled cols (Suc (base + k)) out1"
    "chunk_count out1 = chunk_count out"
    "first_rows cols (Suc (base + k)) out1 = first_rows cols (base + k) out @ [join_row left cols (i, tdc, bytes)]"
    using copy_row [OF assms n(2) Cons.prems(2) n(1)] by blast
  show ?case using Cons.IH [of "Suc k" out1] Cons.prems(1,3) out1 m idx by auto
qed

text \<open>What a chunk under construction must satisfy, and the rows it holds.\<close>

definition out_ok :: "resolved_column list \<Rightarrow> data_chunk \<Rightarrow> bool" where
  "out_ok cols out \<longleftrightarrow> filled cols (chunk_count out) out"

lemma out_rows_first: "out_rows cols out = first_rows cols (chunk_count out) out"
  by (simp add: out_rows_def first_rows_def)

lemma append_batch_ok:
  assumes "cols_ok cols" "\<forall>m\<in>set batch. match_ok left cols m" "out_ok cols out"
    "chunk_count out + length batch \<le> PIPELINE_DEFAULT_CHUNK_SIZE"
  shows "\<exists>out'. append_batch left cols batch out = Inr out' \<and> out_ok cols out' \<and>
    chunk_count out' = chunk_count out + length batch \<and>
    out_rows cols out' = out_rows cols out @ map (join_row left cols) batch"
proof (cases "batch = []")
  case True
  then show ?thesis using assms(3) by (simp add: append_batch_def)
next
  case False
  obtain out' where out': "CopyRowsByResolvedMappingBatch left batch cols out (chunk_count out) = Inr out'"
    "filled cols (chunk_count out + length batch) out'" "chunk_count out' = chunk_count out"
    "first_rows cols (chunk_count out + length batch) out' = first_rows cols (chunk_count out) out @ map (join_row left cols) batch"
    using copy_batch [OF assms(1,2), of "chunk_count out" 0 out] assms(3,4)
    by (auto simp: out_ok_def CopyRowsByResolvedMappingBatch_def)
  have count: "filled cols n (out'\<lparr>chunk_count := c\<rparr>) = filled cols n out'" "out_cell (out'\<lparr>chunk_count := c\<rparr>) = out_cell out'" for n c
    by (auto simp: filled_def plain_slots_def cell_ok_def out_cell_def slot_val_case class_defs fun_eq_iff
        split: tdc_column_kind.splits intro!: option.map_cong)
  show ?thesis using False out' by (simp add: append_batch_def out_ok_def count out_rows_first) (simp add: first_rows_def count)
qed

lemma fold_clear: "dict_active (fold clear_dictionary slots cc) s \<longleftrightarrow> dict_active cc s \<and> s \<notin> set slots"
  by (induction slots arbitrary: cc) (auto simp: clear_dictionary_def)

lemma reset_ok [simp]:
  "out_ok cols (chunk_reset ch)" "out_rows cols (chunk_reset ch) = []" "chunk_count (chunk_reset ch) = 0"
  by (simp_all add: out_ok_def filled_def plain_slots_def out_rows_def chunk_reset_def reset_lightweight_def
      clear_dictionaries_def clear_dictionaries_class_def fold_clear)

section \<open>Resolved columns\<close>

definition resolved_for :: "tuple_data_layout \<Rightarrow> resolved_column \<Rightarrow> bool" where
  "resolved_for l d \<longleftrightarrow>
     (oc_side d = RIGHT_SIDE \<longrightarrow> oc_decode_kind d \<noteq> DECODE_NONE \<longrightarrow>
        (\<exists>c\<in>set (columns l). oc_right_col d = Some c \<and> unat (col_src_col_idx c) = oc_input_chunk_slot d \<and>
           Some (col_kind c) = ColumnDecodeKindToTdcKind (oc_decode_kind d)))"

lemma find_found: "List.find P xs = Some x \<Longrightarrow> x \<in> set xs \<and> P x"
  by (induction xs) (auto split: if_splits)

lemma resolve_column_ok:
  assumes "resolve_column l oc = Inr d"
  shows "resolved_for l d \<and> oc_output_chunk_slot d = oc_output_chunk_slot oc"
proof (cases "oc_decode_kind oc \<noteq> DECODE_NONE \<and> oc_side oc = RIGHT_SIDE")
  case True
  then obtain k where k: "ColumnDecodeKindToTdcKind (oc_decode_kind oc) = Some k" by (cases "oc_decode_kind oc") auto
  then obtain c where c: "List.find (\<lambda>col. unat (col_src_col_idx col) = oc_input_chunk_slot oc \<and> col_kind col = k) (columns l) = Some c"
    "d = (output_column.extend oc \<lparr>oc_right_col = Some c\<rparr>)"
    using assms True by (auto simp: resolve_column_def FindRightColumnBySlotAndKind_def output_column.defs split: if_splits)
  show ?thesis using find_found [OF c(1)] c(2) k by (auto simp: resolved_for_def output_column.defs)
next
  case False
  then show ?thesis using assms by (auto simp: resolve_column_def resolved_for_def Let_def output_column.defs split: if_splits)
qed

lemma resolve_columns_ok:
  "resolve_columns l ocs = Inr cols \<Longrightarrow>
   (\<forall>d\<in>set cols. resolved_for l d) \<and> map oc_output_chunk_slot cols = map oc_output_chunk_slot ocs"
  by (induction ocs arbitrary: cols) (auto simp: res_simps dest: resolve_column_ok)

lemma resolved_cell:
  assumes "resolved_for l d" "oc_side d = RIGHT_SIDE" "oc_decode_kind d \<noteq> DECODE_NONE"
  shows "\<exists>c\<in>set (columns l). unat (col_src_col_idx c) = oc_input_chunk_slot d \<and>
    (\<forall>i t row. join_cell left (i, Some t, Some row) d = (0, Some (row_val (tdc_heap t) row c)))"
  using assms by (cases "oc_decode_kind d") (auto simp: resolved_for_def join_cell_def row_val_def Let_def)

text \<open>C27: Copying a batch of matched pairs appends exactly one output row per pair, in order, and changes no
  row before them: a probe-side column holds the probe row's value and null flag, a build-side column the
  value of the layout column with its slot and kind, an absent build row gives nulls, and strings come out
  byte for byte. It cannot fail while every string is sound and at most 65536 bytes long.\<close>

theorem joined_rows_appended:
  assumes "resolve_columns l ocs = Inr cols" "distinct (map oc_output_chunk_slot ocs)"
    "\<forall>oc\<in>set ocs. oc_output_chunk_slot oc < N_SLOTS" "\<forall>m\<in>set batch. match_ok left cols m" "out_ok cols out"
    "chunk_count out + length batch \<le> PIPELINE_DEFAULT_CHUNK_SIZE"
  shows "(\<exists>out'. append_batch left cols batch out = Inr out' \<and> out_ok cols out' \<and>
      chunk_count out' = chunk_count out + length batch \<and>
      out_rows cols out' = out_rows cols out @ map (join_row left cols) batch) \<and>
    (\<forall>d\<in>set cols. oc_side d = RIGHT_SIDE \<and> oc_decode_kind d \<noteq> DECODE_NONE \<longrightarrow>
      (\<exists>c\<in>set (columns l). unat (col_src_col_idx c) = oc_input_chunk_slot d \<and>
        (\<forall>i t row. join_cell left (i, Some t, Some row) d = (0, Some (row_val (tdc_heap t) row c)))))"
proof -
  have slots: "map oc_output_chunk_slot cols = map oc_output_chunk_slot ocs" using resolve_columns_ok [OF assms(1)] ..
  then have "oc_output_chunk_slot ` set cols = oc_output_chunk_slot ` set ocs" by (metis list.set_map)
  then have "cols_ok cols" using assms(2,3) slots by (auto simp: cols_ok_def) (metis image_eqI imageE)
  from append_batch_ok [OF this assms(4-6)] show ?thesis
    using resolve_columns_ok [OF assms(1)] resolved_cell by blast
qed

definition demo_columns :: "output_column list" where
  "demo_columns =
     [\<lparr>oc_side = LEFT_SIDE, oc_input_chunk_slot = 1, oc_decode_kind = INT32_INT4, oc_output_chunk_slot = 0\<rparr>,
      \<lparr>oc_side = RIGHT_SIDE, oc_input_chunk_slot = 0, oc_decode_kind = DECODE_STRING_REF, oc_output_chunk_slot = 1\<rparr>]"

definition demo_resolved :: "resolved_column list" where
  "demo_resolved =
     [\<lparr>oc_side = LEFT_SIDE, oc_input_chunk_slot = 1, oc_decode_kind = INT32_INT4, oc_output_chunk_slot = 0, oc_right_col = None\<rparr>,
      \<lparr>oc_side = RIGHT_SIDE, oc_input_chunk_slot = 0, oc_decode_kind = DECODE_STRING_REF, oc_output_chunk_slot = 1,
       oc_right_col = Some (columns demo_layout ! 0)\<rparr>]"

lemma demo_resolve: "resolve_columns demo_layout demo_columns = Inr demo_resolved"
  by (simp add: demo_columns_def demo_resolved_def resolve_column_def FindRightColumnBySlotAndKind_def demo_layout_def
      q1_layout output_column.defs Let_def)

theorem joined_rows_appended_witness:
  "\<exists>out'. append_batch demo_chunk demo_resolved [(0, Some demo_tdc, Some demo_row), (0, None, None)] (chunk_reset demo_chunk) = Inr out' \<and>
    out_rows demo_resolved out' = [[(0, Some (GInt32 7)), (0, Some (GString []))], [(0, Some (GInt32 7)), (1, Some (GString []))]]"
proof -
  have ref: "read_string_ref 0 demo_row = \<lparr>ref_len = 0, ref_offset = 0, ref_prefix = 0\<rparr>"
    by (simp add: demo_row_def read_string_ref_zeros)
  have "\<forall>m\<in>set [(0, Some demo_tdc, Some demo_row), (0, None, None)]. match_ok demo_chunk demo_resolved m"
    by (simp add: match_ok_def demo_resolved_def short_ref_def ref_ok_def demo_layout_def q1_layout ref)
  moreover have "distinct (map oc_output_chunk_slot demo_columns)" "\<forall>oc\<in>set demo_columns. oc_output_chunk_slot oc < N_SLOTS"
    by (simp_all add: demo_columns_def N_SLOTS_def)
  moreover have "map (join_row demo_chunk demo_resolved) [(0, Some demo_tdc, Some demo_row), (0, None, None)] =
      [[(0, Some (GInt32 7)), (0, Some (GString []))], [(0, Some (GInt32 7)), (1, Some (GString []))]]"
    by (simp add: join_row_def join_cell_def demo_resolved_def demo_layout_def q1_layout ref
        demo_chunk_def empty_chunk_def class_defs plain_class_def ref_string_def VecStringRefDataPtr_def)
  moreover have "length [(0 :: nat, Some demo_tdc, Some demo_row), (0, None, None)] \<le> PIPELINE_DEFAULT_CHUNK_SIZE"
    by (simp add: PIPELINE_DEFAULT_CHUNK_SIZE_def)
  ultimately show ?thesis
    using joined_rows_appended [OF demo_resolve, of "[(0, Some demo_tdc, Some demo_row), (0, None, None)]" demo_chunk "chunk_reset demo_chunk"]
    unfolding reset_ok(2,3) by force
qed

end
