(* ===== verification/CrossProduct.thy ===== *)
theory CrossProduct
  imports JoinRows TaskRun
begin

text \<open>
  The cross product, physical_cross_product.cpp. The sink side collects the build rows of each worker and
  combines them into one collection in shared memory; the operator side pairs each probe row with each build
  row and resumes where a full output chunk stopped it. Shared memory is a store of collections: a process's
  pointer to the global collection and the pointer that the payload publishes are addresses of that store.
\<close>

section \<open>Collecting the build side\<close>

definition LayoutHasStringRef :: "tuple_data_layout \<Rightarrow> bool" where
  "LayoutHasStringRef layout \<longleftrightarrow> list_ex (\<lambda>c. col_kind c = STRING_REF) (columns layout)"

definition copy_build_column ::
  "tuple_data_collection option \<Rightarrow> u8 list \<Rightarrow> tdc_column_desc \<Rightarrow> u8 list \<times> tuple_data_collection \<Rightarrow>
   (u8 list \<times> tuple_data_collection) result" where
  "copy_build_column src_tdc src_row col dst =
     (let off = unat (col_offset col); (dst_row, dst_tdc) = dst
      in if col_kind col \<noteq> STRING_REF
         then Inr (mem_write off (mem_read off (unat (col_width col)) src_row) dst_row, dst_tdc)
         else let src_ref = read_string_ref off src_row
              in case TupleDataCollectionStoreStringBytes dst_tdc (VecStringRefDataPtr src_ref (heap_base src_tdc)) (ref_len src_ref) of
                   (ok, dst_ref, dst_tdc) \<Rightarrow>
                     if ok then Inr (write_string_ref off dst_ref dst_row, dst_tdc)
                     else Inl (Elog ''cross product build-row copy ran out of heap''))"

definition CopyBuildRow ::
  "tuple_data_layout \<Rightarrow> tuple_data_collection option \<Rightarrow> u8 list \<Rightarrow> u8 list \<times> tuple_data_collection \<Rightarrow>
   (u8 list \<times> tuple_data_collection) result" where
  "CopyBuildRow layout src_tdc src_row dst = fold_res (copy_build_column src_tdc src_row) (columns layout) dst"

definition TdcNeedsGrowForChunkRow :: "tuple_data_layout \<Rightarrow> tuple_data_collection \<Rightarrow> data_chunk \<Rightarrow> nat \<Rightarrow> bool" where
  "TdcNeedsGrowForChunkRow layout tdc chunk row_idx \<longleftrightarrow>
     \<not> TupleDataCollectionHasSpaceForAppend tdc (TupleDataCollectionRequiredHeapBytesForChunkRow layout chunk row_idx)"

definition TdcNeedsGrowForStoredRow ::
  "tuple_data_layout \<Rightarrow> tuple_data_collection \<Rightarrow> tuple_data_collection \<Rightarrow> u8 list \<Rightarrow> bool result" where
  "TdcNeedsGrowForStoredRow layout tdc src_tdc src_row =
     rbind (TupleDataCollectionRequiredHeapBytesForRow layout (Some src_tdc) src_row)
       (\<lambda>required. Inr (\<not> TupleDataCollectionHasSpaceForAppend tdc required))"

text \<open>Appending a copy of a stored row: the two halves of the copy loops below.\<close>

definition append_copy ::
  "string \<Rightarrow> tuple_data_layout \<Rightarrow> tuple_data_collection \<Rightarrow> u8 list \<Rightarrow> tuple_data_collection \<Rightarrow> tuple_data_collection result" where
  "append_copy err layout src_tdc src_row dst =
     (let (idx, dst) = TupleDataCollectionAppendRow dst
      in if idx = TDC_INVALID_ROW_INDEX then Inl (Elog err)
         else rbind (CopyBuildRow layout (Some src_tdc) src_row (TupleDataCollectionGetRow dst idx, dst))
                (\<lambda>(row, dst). Inr (set_row idx row dst)))"

definition GrowTdcCopyRows ::
  "nat \<Rightarrow> tuple_data_layout \<Rightarrow> tuple_data_collection \<Rightarrow> nat \<Rightarrow> tuple_data_collection result" where
  "GrowTdcCopyRows hdr layout old_tdc minimum_row_capacity =
     (let old_capacity = tdc_row_capacity old_tdc;
          new_capacity = max minimum_row_capacity (if old_capacity < 2 ^ 30 then old_capacity * 2 else old_capacity)
      in rbind (if LayoutHasStringRef layout
                then TupleDataCollectionGrowHeapCapacity hdr (Some layout) old_tdc new_capacity 0 else Inr 0)
           (\<lambda>heap_capacity.
             rbind (TupleDataCollectionCheckedAllocSize hdr new_capacity (unat (layout_row_width layout)) heap_capacity)
               (\<lambda>_. fold_res (\<lambda>row_idx new_tdc.
                      append_copy ''cross product grow TDC capacity copy failed'' layout old_tdc
                        (TupleDataCollectionGetRow old_tdc row_idx) new_tdc)
                   [0..<tdc_row_count old_tdc]
                   (TupleDataCollectionInit new_capacity (unat (layout_row_width layout)) heap_capacity))))"

definition sink_row ::
  "nat \<Rightarrow> tuple_data_layout \<Rightarrow> data_chunk \<Rightarrow> nat \<Rightarrow> tuple_data_collection \<Rightarrow> tuple_data_collection result" where
  "sink_row hdr layout chunk row_idx tdc =
     rbind (if TdcNeedsGrowForChunkRow layout tdc chunk row_idx
            then GrowTdcCopyRows hdr layout tdc (tdc_row_capacity tdc + 1) else Inr tdc)
       (\<lambda>tdc. let (idx, tdc) = TupleDataCollectionAppendRow tdc
          in if idx = TDC_INVALID_ROW_INDEX then Inl (Elog ''cross product local build row capacity exceeded'')
             else rbind (ScatterGroupOnly layout chunk row_idx (TupleDataCollectionGetRow tdc idx, Some tdc))
                    (\<lambda>(row, tdc). Inr (set_row idx row (the tdc))))"

text \<open>The local sink state is the worker's own collection.\<close>

definition CrossSinkChunk :: "nat \<Rightarrow> tuple_data_layout \<Rightarrow> tuple_data_collection \<Rightarrow> data_chunk \<Rightarrow>
    (sink_result \<times> tuple_data_collection) result" where
  "CrossSinkChunk hdr layout build_rows chunk =
     rbind (fold_res (sink_row hdr layout chunk) [0..<chunk_count chunk] build_rows)
       (\<lambda>build_rows. Inr (SINK_NEED_MORE_INPUT, build_rows))"

section \<open>Combining\<close>

text \<open>
  The shared payload, the store of collections it points into, and the next free address. Combine works
  on the collection that its own process's pointer names.
\<close>

record cross_payload =
  cp_collections :: "nat \<Rightarrow> tuple_data_collection"
  cp_next_address :: nat
  cp_build_rows_dp :: nat
  cp_finalized :: bool
  cp_release_state :: nat
  cp_combined_row_count :: nat

text \<open>One row: grow until it fits (one fuel unit per growth), then append the copy.\<close>

fun grow_until_fits :: "nat \<Rightarrow> nat \<Rightarrow> tuple_data_layout \<Rightarrow> tuple_data_collection \<Rightarrow> u8 list \<Rightarrow> cross_payload \<times> nat \<Rightarrow>
    (cross_payload \<times> nat) result option" where
  "grow_until_fits 0 hdr layout src src_row (p, build_rows) = None"
| "grow_until_fits (Suc fuel) hdr layout src src_row (p, build_rows) =
     (case TdcNeedsGrowForStoredRow layout (cp_collections p build_rows) src src_row of
        Inl e \<Rightarrow> Some (Inl e)
      | Inr False \<Rightarrow> Some (Inr (p, build_rows))
      | Inr True \<Rightarrow>
          (case GrowTdcCopyRows hdr layout (cp_collections p build_rows) (tdc_row_capacity (cp_collections p build_rows) + 1) of
             Inl e \<Rightarrow> Some (Inl e)
           | Inr grown \<Rightarrow>
               grow_until_fits fuel hdr layout src src_row
                 (p\<lparr>cp_collections := (cp_collections p)(cp_next_address p := grown),
                    cp_next_address := cp_next_address p + 1\<rparr>, cp_next_address p)))"

definition combine_row :: "nat \<Rightarrow> nat \<Rightarrow> tuple_data_layout \<Rightarrow> tuple_data_collection \<Rightarrow> nat \<Rightarrow> cross_payload \<times> nat \<Rightarrow>
    (cross_payload \<times> nat) result option" where
  "combine_row fuel hdr layout src row_idx st =
     (let src_row = TupleDataCollectionGetRow src row_idx
      in case grow_until_fits fuel hdr layout src src_row st of
           None \<Rightarrow> None
         | Some (Inl e) \<Rightarrow> Some (Inl e)
         | Some (Inr (p, build_rows)) \<Rightarrow>
             Some (rbind (append_copy ''cross product global build row capacity exceeded during combine'' layout src src_row
                     (cp_collections p build_rows))
               (\<lambda>tdc. Inr (p\<lparr>cp_collections := (cp_collections p)(build_rows := tdc)\<rparr>, build_rows))))"

text \<open>The rows of a worker; between batches of 64 the lock is released, so other workers' rows may come between.\<close>

fun combine_rows :: "nat \<Rightarrow> nat \<Rightarrow> tuple_data_layout \<Rightarrow> tuple_data_collection \<Rightarrow> nat list \<Rightarrow> cross_payload \<times> nat \<Rightarrow>
    (cross_payload \<times> nat) result option" where
  "combine_rows fuel hdr layout src [] st = Some (Inr st)"
| "combine_rows fuel hdr layout src (i # is) st =
     (case combine_row fuel hdr layout src i st of
        Some (Inr st) \<Rightarrow> combine_rows fuel hdr layout src is st
      | r \<Rightarrow> r)"

definition combine_batch :: "nat \<Rightarrow> nat \<Rightarrow> tuple_data_layout \<Rightarrow> tuple_data_collection \<Rightarrow> nat \<Rightarrow> cross_payload \<times> nat \<Rightarrow>
    (nat \<times> cross_payload \<times> nat) result option" where
  "combine_batch fuel hdr layout src row_idx st =
     (let batch_end = min (row_idx + 64) (tdc_row_count src)
      in map_option (map_sum id (Pair batch_end)) (combine_rows fuel hdr layout src [row_idx..<batch_end] st))"

definition CrossFinalize :: "nat \<Rightarrow> cross_payload \<times> nat \<Rightarrow> cross_payload result" where
  "CrossFinalize max_rows st =
     (let (p, build_rows) = st; cnt = tdc_row_count (cp_collections p build_rows)
      in if cnt > max_rows then Inl (Elog ''cross product build side exceeded max rows'')
         else Inr (p\<lparr>cp_combined_row_count := cnt, cp_finalized := True,
           cp_collections := (cp_collections p)(build_rows :=
             (TupleDataCollectionResetScan (cp_collections p build_rows))\<lparr>tdc_finalized := True\<rparr>)\<rparr>))"

text \<open>Releasing the payload happens once; the first caller wins the flag.\<close>

definition ReleaseBuildPayloadAfterConsumerRun :: "cross_payload \<Rightarrow> cross_payload" where
  "ReleaseBuildPayloadAfterConsumerRun p = (if cp_release_state p \<noteq> 0 then p else p\<lparr>cp_release_state := 2\<rparr>)"

section \<open>Probing\<close>

record cross_state =
  xs_drained :: bool
  xs_probe_row_idx :: nat
  xs_build_row_idx :: nat

definition GetCrossOperatorState :: cross_state where
  "GetCrossOperatorState = \<lparr>xs_drained = False, xs_probe_row_idx = 0, xs_build_row_idx = 0\<rparr>"

lemma copy_join_column_count: "copy_join_column left i tdc bytes row d out = Inr out' \<Longrightarrow> chunk_count out' = chunk_count out"
  by (cases "oc_decode_kind d")
    (auto simp: copy_join_column_def Let_def put_int32_def put_int64_def put_double_def put_string_def set_null_def
      store_string_bytes_def res_simps split: if_splits option.splits)

lemma append_batch_count: "append_batch left cols batch out = Inr out' \<Longrightarrow> chunk_count out' = chunk_count out + length batch"
proof -
  assume *: "append_batch left cols batch out = Inr out'"
  have row: "CopyResolvedJoinRow left i tdc bytes cols out1 k = Inr out2 \<Longrightarrow> chunk_count out2 = chunk_count out1" for i tdc bytes k out1 out2
    unfolding CopyResolvedJoinRow_def
    by (rule fold_res_invariant [where P = "\<lambda>w. chunk_count w = chunk_count out1"]) (auto dest: copy_join_column_count)
  have "CopyRowsByResolvedMappingBatch left batch cols out k = Inr out2 \<Longrightarrow> chunk_count out2 = chunk_count out" for k out2
    unfolding CopyRowsByResolvedMappingBatch_def
    by (rule fold_res_invariant [where P = "\<lambda>w. chunk_count w = chunk_count out"]) (auto dest: row)
  then show ?thesis using * by (auto simp: append_batch_def res_simps split: if_splits)
qed

text \<open>
  The outer loop of Execute from its cursor; the inner loop that fills a batch stops at the end of the build
  rows or of the room in the chunk. \<open>cancel\<close> says whether a cancellation is seen at a probe row.
\<close>

function cross_loop ::
  "(nat \<Rightarrow> bool) \<Rightarrow> data_chunk \<Rightarrow> resolved_column list \<Rightarrow> tuple_data_collection \<Rightarrow> nat \<Rightarrow> nat \<Rightarrow> data_chunk \<Rightarrow>
   (nat \<times> nat \<times> data_chunk) result" where
  "cross_loop cancel left cols build p b out =
     (if p < chunk_count left \<and> chunk_count out < PIPELINE_DEFAULT_CHUNK_SIZE \<and> \<not> cancel p
      then let n = min (tdc_row_count build - b) (PIPELINE_DEFAULT_CHUNK_SIZE - chunk_count out);
               batch = map (\<lambda>j. (p, Some build, Some (TupleDataCollectionGetRow build j))) [b..<b + n]
           in rbind (append_batch left cols batch out)
                (\<lambda>out. if tdc_row_count build \<le> b + n then cross_loop cancel left cols build (p + 1) 0 out
                       else cross_loop cancel left cols build p (b + n) out)
      else Inr (p, b, out))"
  by pat_completeness auto
termination
  by (relation "measures [\<lambda>(cancel, left, cols, build, p, b, out). chunk_count left - p,
      \<lambda>(cancel, left, cols, build, p, b, out). PIPELINE_DEFAULT_CHUNK_SIZE - chunk_count out]")
    (auto dest!: append_batch_count)

declare cross_loop.simps [simp del]

definition CrossExecute ::
  "(nat \<Rightarrow> bool) \<Rightarrow> cross_payload option \<Rightarrow> tuple_data_layout \<Rightarrow> output_column list \<Rightarrow> data_chunk \<Rightarrow> data_chunk \<Rightarrow>
   cross_state \<Rightarrow> (data_chunk \<times> operator_result \<times> cross_state) result" where
  "CrossExecute cancel payload build_row_layout output_columns input out st =
     (if xs_drained st then Inr (chunk_reset out, OP_NEED_MORE_INPUT, st\<lparr>xs_drained := False\<rparr>)
      else case payload of
             None \<Rightarrow> Inl (Elog ''cross product probe ran before build/finalize completed'')
           | Some p \<Rightarrow>
               if \<not> cp_finalized p then Inl (Elog ''cross product probe ran before build/finalize completed'')
               else if cp_release_state p \<noteq> 0 then Inl (Elog ''cross product payload used after release'')
               else if output_columns = [] then Inl (Elog ''cross product probe missing output column mapping'')
               else rbind (resolve_columns build_row_layout output_columns) (\<lambda>cols.
                 rbind (cross_loop cancel input cols (cp_collections p (cp_build_rows_dp p))
                          (xs_probe_row_idx st) (xs_build_row_idx st) (chunk_reset out)) (\<lambda>(pr, b, out).
                   let st = (if chunk_count input \<le> pr
                             then \<lparr>xs_drained = 0 < chunk_count out, xs_probe_row_idx = 0, xs_build_row_idx = 0\<rparr>
                             else st\<lparr>xs_probe_row_idx := pr, xs_build_row_idx := b\<rparr>)
                   in Inr (out, if 0 < chunk_count out then OP_HAVE_MORE_OUTPUT else OP_NEED_MORE_INPUT, st))))"

section \<open>The pairs an execution makes\<close>

text \<open>
  The reference: with \<open>nb\<close> build rows, the \<open>q\<close>-th pair of a chunk is row \<open>q div nb\<close> with build row
  \<open>q mod nb\<close>, and an execution makes the pairs from its cursor up to the next chunk boundary.
\<close>

definition nth_pair :: "nat \<Rightarrow> nat \<Rightarrow> nat \<times> nat" where
  "nth_pair nb q = (q div nb, q mod nb)"

definition cursor_pos :: "nat \<Rightarrow> nat \<Rightarrow> nat \<Rightarrow> nat" where
  "cursor_pos nb p b = p * nb + b"

lemma nth_pair_in_row: "j < nb \<Longrightarrow> nth_pair nb (cursor_pos nb p j) = (p, j)"
  by (simp add: nth_pair_def cursor_pos_def div_mult_self3)

lemma row_pairs:
  assumes "b + n \<le> nb"
  shows "map (Pair p) [b..<b + n] = map (nth_pair nb) [cursor_pos nb p b..<cursor_pos nb p b + n]"
proof (rule nth_equalityI)
  fix i assume "i < length (map (Pair p) [b..<b + n])"
  then show "map (Pair p) [b..<b + n] ! i = map (nth_pair nb) [cursor_pos nb p b..<cursor_pos nb p b + n] ! i"
    using nth_pair_in_row [of "b + i" nb p] assms by (simp add: cursor_pos_def add.assoc)
qed simp

definition cross_match :: "tuple_data_collection \<Rightarrow> nat \<times> nat \<Rightarrow> matched" where
  "cross_match build = (\<lambda>(i, j). (i, Some build, Some (TupleDataCollectionGetRow build j)))"

lemma cursor_inside:
  assumes "p < np" "b < nb \<or> b = 0"
  shows "cursor_pos nb p b \<le> np * nb" "0 < nb \<Longrightarrow> cursor_pos nb p b < np * nb"
proof -
  have "p * nb + nb \<le> np * nb" using mult_le_mono1 [of "Suc p" np nb] assms(1) by simp
  then show "cursor_pos nb p b \<le> np * nb" "0 < nb \<Longrightarrow> cursor_pos nb p b < np * nb"
    using assms(2) unfolding cursor_pos_def by linarith+
qed

text \<open>One batch: the pairs of one probe row from its cursor on.\<close>

lemma cross_batch:
  fixes left build cols
  defines "nb \<equiv> tdc_row_count build" and "np \<equiv> chunk_count left"
  assumes cols: "cols_ok cols"
    and matches: "\<And>j. j < nb \<Longrightarrow> match_ok left cols (cross_match build (p, j))"
    and out: "out_ok cols out" "chunk_count out + n \<le> PIPELINE_DEFAULT_CHUNK_SIZE"
    and n: "p < np" "b < nb \<or> b = 0" "n \<le> nb - b"
  obtains out1 where
    "append_batch left cols (map (\<lambda>j. (p, Some build, Some (TupleDataCollectionGetRow build j))) [b..<b + n]) out = Inr out1"
    "out_ok cols out1" "chunk_count out1 = chunk_count out + n"
    "out_rows cols out1 = out_rows cols out @
       map (join_row left cols \<circ> cross_match build \<circ> nth_pair nb) [cursor_pos nb p b..<cursor_pos nb p b + n]"
    "cursor_pos nb p b + n \<le> np * nb"
proof -
  let ?batch = "map (\<lambda>j. (p, Some build, Some (TupleDataCollectionGetRow build j))) [b..<b + n]"
  have "\<forall>m\<in>set ?batch. match_ok left cols m" using matches n by (auto simp: cross_match_def)
  then have appended: "\<exists>out1. append_batch left cols ?batch out = Inr out1 \<and> out_ok cols out1 \<and>
      chunk_count out1 = chunk_count out + length ?batch \<and> out_rows cols out1 = out_rows cols out @ map (join_row left cols) ?batch"
    using out by (intro append_batch_ok [OF cols]) simp_all
  have "?batch = map (cross_match build) (map (Pair p) [b..<b + n])" by (simp add: cross_match_def)
  moreover have "map (Pair p) [b..<b + n] = map (nth_pair nb) [cursor_pos nb p b..<cursor_pos nb p b + n]"
    using n by (cases "n = 0") (simp_all add: row_pairs)
  ultimately have rows: "map (join_row left cols) ?batch =
      map (join_row left cols \<circ> cross_match build \<circ> nth_pair nb) [cursor_pos nb p b..<cursor_pos nb p b + n]"
    "length ?batch = n" by simp_all
  have "p * nb + nb \<le> np * nb" using mult_le_mono1 [of "Suc p" np nb] n(1) by simp
  then have "cursor_pos nb p b + n \<le> np * nb" using n(2,3) unfolding cursor_pos_def by linarith
  then show ?thesis using that appended rows by auto
qed

lemma cross_loop_step:
  assumes "p < chunk_count left" "chunk_count out < PIPELINE_DEFAULT_CHUNK_SIZE"
    and "n = min (tdc_row_count build - b) (PIPELINE_DEFAULT_CHUNK_SIZE - chunk_count out)"
    and "append_batch left cols (map (\<lambda>j. (p, Some build, Some (TupleDataCollectionGetRow build j))) [b..<b + n]) out = Inr out1"
  shows "cross_loop (\<lambda>_. False) left cols build p b out =
    (if tdc_row_count build \<le> b + n then cross_loop (\<lambda>_. False) left cols build (p + 1) 0 out1
     else cross_loop (\<lambda>_. False) left cols build p (b + n) out1)"
  unfolding cross_loop.simps [of "\<lambda>_. False" left cols build p b out] Let_def assms(3) [symmetric] assms(4)
  using assms(1,2) by simp

text \<open>The loop appends the pairs from its cursor to the end of the input or of the output chunk.\<close>

lemma cross_loop_pairs:
  fixes left build cols
  defines "nb \<equiv> tdc_row_count build" and "np \<equiv> chunk_count left"
    and "joined \<equiv> join_row left cols \<circ> cross_match build \<circ> nth_pair (tdc_row_count build)"
  assumes cols: "cols_ok cols"
    and matches: "\<And>i j. i < np \<Longrightarrow> j < nb \<Longrightarrow> match_ok left cols (cross_match build (i, j))"
  shows "out_ok cols out \<Longrightarrow> chunk_count out \<le> PIPELINE_DEFAULT_CHUNK_SIZE \<Longrightarrow> p \<le> np \<Longrightarrow>
    b < nb \<or> b = 0 \<Longrightarrow> p = np \<longrightarrow> b = 0 \<Longrightarrow> nb = 0 \<longrightarrow> chunk_count out < PIPELINE_DEFAULT_CHUNK_SIZE \<Longrightarrow>
    q = cursor_pos nb p b \<Longrightarrow> q' = min (np * nb) (q + (PIPELINE_DEFAULT_CHUNK_SIZE - chunk_count out)) \<Longrightarrow>
    \<exists>p' b' out'. cross_loop (\<lambda>_. False) left cols build p b out = Inr (p', b', out') \<and> out_ok cols out' \<and>
      chunk_count out' = chunk_count out + (q' - q) \<and>
      out_rows cols out' = out_rows cols out @ map joined [q..<q'] \<and>
      p' \<le> np \<and> (b' < nb \<or> b' = 0) \<and> (p' = np \<longrightarrow> b' = 0) \<and> q' = cursor_pos nb p' b' \<and>
      (p' = np \<longleftrightarrow> np * nb \<le> q')"
proof (induction "(np - p) + (PIPELINE_DEFAULT_CHUNK_SIZE - chunk_count out)" arbitrary: p b out q q' rule: less_induct)
  case less
  let ?N = PIPELINE_DEFAULT_CHUNK_SIZE
  note step = cross_loop.simps [of "\<lambda>_. False" left cols build p b out]
  show ?case
  proof (cases "p < np \<and> chunk_count out < ?N")
    case False
    then have "q' = q" "p = np \<longleftrightarrow> np * nb \<le> q"
      using less.prems cursor_inside [of p np b nb] by (auto simp: cursor_pos_def min_def)
    then show ?thesis using False less.prems by (subst step) (auto simp: np_def)
  next
    case True
    define n where "n = min (nb - b) (?N - chunk_count out)"
    have n: "n \<le> nb - b" "chunk_count out + n \<le> ?N" using True by (auto simp: n_def)
    obtain out1 where out1:
      "append_batch left cols (map (\<lambda>j. (p, Some build, Some (TupleDataCollectionGetRow build j))) [b..<b + n]) out = Inr out1"
      "out_ok cols out1" "chunk_count out1 = chunk_count out + n"
      "out_rows cols out1 = out_rows cols out @ map joined [q..<q + n]" "q + n \<le> np * nb"
      using cross_batch [OF cols _ less.prems(1) n(2), of build left p b thesis] True less.prems(4,7) n(1) matches
      by (simp add: np_def nb_def joined_def)
    have q: "q + n \<le> q'" "q' = min (np * nb) (q + n + (?N - chunk_count out1))" "q' - q = n + (q' - (q + n))"
      using less.prems(8) n(2) out1(3,5) by auto
    have goal: "\<exists>p' b' out'. cross_loop (\<lambda>_. False) left cols build p b out = Inr (p', b', out') \<and> out_ok cols out' \<and>
      chunk_count out' = chunk_count out + (q' - q) \<and>
      out_rows cols out' = out_rows cols out @ map joined [q..<q'] \<and>
      p' \<le> np \<and> (b' < nb \<or> b' = 0) \<and> (p' = np \<longrightarrow> b' = 0) \<and> q' = cursor_pos nb p' b' \<and>
      (p' = np \<longleftrightarrow> np * nb \<le> q')"
      if next_loop: "cross_loop (\<lambda>_. False) left cols build p b out = cross_loop (\<lambda>_. False) left cols build p2 b2 out1"
        and p2: "p2 \<le> np" "b2 < nb \<or> b2 = 0" "p2 = np \<longrightarrow> b2 = 0" "q + n = cursor_pos nb p2 b2"
        and progress: "(np - p2) + (?N - chunk_count out1) < (np - p) + (?N - chunk_count out)"
        for p2 b2
    proof -
      have "chunk_count out1 \<le> ?N" "nb = 0 \<longrightarrow> chunk_count out1 < ?N" using out1(3) n True by (auto simp: n_def)
      from less.hyps [OF progress out1(2) this(1) p2(1,2,3) this(2) p2(4) q(2)]
      have "\<exists>p' b' out'. cross_loop (\<lambda>_. False) left cols build p2 b2 out1 = Inr (p', b', out') \<and> out_ok cols out' \<and>
          chunk_count out' = chunk_count out1 + (q' - (q + n)) \<and>
          out_rows cols out' = out_rows cols out1 @ map joined [q + n..<q'] \<and>
          p' \<le> np \<and> (b' < nb \<or> b' = 0) \<and> (p' = np \<longrightarrow> b' = 0) \<and> q' = cursor_pos nb p' b' \<and>
          (p' = np \<longleftrightarrow> np * nb \<le> q')" .
      moreover have "map joined [q..<q + n] @ map joined [q + n..<q'] = map joined [q..<q']"
        using q(1) upt_add_eq_append [of q "q + n" "q' - (q + n)"] by (simp flip: map_append)
      ultimately show ?thesis unfolding next_loop out1(3,4) q(3) append_assoc by (simp add: add.assoc)
    qed
    show ?thesis
    proof (cases "nb \<le> b + n")
      case row_end: True
      then have "n = nb - b" by (auto simp: n_def)
      then have "q + n = cursor_pos nb (p + 1) 0" using less.prems(4,7) by (auto simp: cursor_pos_def)
      moreover have "cross_loop (\<lambda>_. False) left cols build p b out = cross_loop (\<lambda>_. False) left cols build (p + 1) 0 out1"
        using cross_loop_step [OF _ _ n_def [unfolded nb_def] out1(1)] True row_end by (simp add: np_def nb_def)
      ultimately show ?thesis using goal [of "p + 1" 0] True out1(3) by auto
    next
      case more: False
      then have "0 < n" "b + n < nb" using True by (auto simp: n_def)
      moreover have "q + n = cursor_pos nb p (b + n)" using less.prems(7) by (simp add: cursor_pos_def)
      moreover have "cross_loop (\<lambda>_. False) left cols build p b out = cross_loop (\<lambda>_. False) left cols build p (b + n) out1"
        using cross_loop_step [OF _ _ n_def [unfolded nb_def] out1(1)] True more by (simp add: np_def nb_def)
      ultimately show ?thesis using goal [of p "b + n"] True out1(3) n(2) by auto
    qed
  qed
qed

section \<open>Rows\<close>

text \<open>
  The abstract operator: chunks are lists of rows, an execution takes the next chunk-sized piece of the
  list of pairs, and the cursor is the position in that list.
\<close>

definition cross_rows :: "nat \<Rightarrow> ('p \<Rightarrow> 'b \<Rightarrow> 'r) \<Rightarrow> 'b list \<Rightarrow> cross_state \<Rightarrow> 'p list \<Rightarrow> 'r list \<times> operator_result \<times> cross_state" where
  "cross_rows N join bs st rows =
     (if xs_drained st then ([], OP_NEED_MORE_INPUT, st\<lparr>xs_drained := False\<rparr>)
      else let nb = length bs; total = length rows * nb;
               q = cursor_pos nb (xs_probe_row_idx st) (xs_build_row_idx st); q' = min total (q + N);
               out = map (\<lambda>k. case nth_pair nb k of (i, j) \<Rightarrow> join (rows ! i) (bs ! j)) [q..<q'];
               st = (if total \<le> q' then \<lparr>xs_drained = out \<noteq> [], xs_probe_row_idx = 0, xs_build_row_idx = 0\<rparr>
                     else st\<lparr>xs_probe_row_idx := q' div nb, xs_build_row_idx := q' mod nb\<rparr>)
           in (out, if out \<noteq> [] then OP_HAVE_MORE_OUTPUT else OP_NEED_MORE_INPUT, st))"

text \<open>The cursors that Execute leaves behind on an input with \<open>np\<close> rows.\<close>

definition cursor_ok :: "nat \<Rightarrow> nat \<Rightarrow> cross_state \<Rightarrow> bool" where
  "cursor_ok np nb st \<longleftrightarrow> (xs_probe_row_idx st < np \<or> xs_probe_row_idx st = 0 \<and> xs_build_row_idx st = 0) \<and>
     (xs_build_row_idx st < nb \<or> xs_build_row_idx st = 0)"

lemma cross_execute_rows:
  assumes payload: "cp_finalized p" "cp_release_state p = 0" "cp_collections p (cp_build_rows_dp p) = build"
    and cols: "ocs \<noteq> []" "resolve_columns l ocs = Inr cols" "cols_ok cols"
    and matches: "\<And>i j. i < chunk_count input \<Longrightarrow> j < tdc_row_count build \<Longrightarrow> match_ok input cols (cross_match build (i, j))"
    and cursor: "cursor_ok (chunk_count input) (tdc_row_count build) st"
  shows "\<exists>out' res st'. CrossExecute (\<lambda>_. False) (Some p) l ocs input out st = Inr (out', res, st') \<and> out_ok cols out' \<and>
    cross_rows PIPELINE_DEFAULT_CHUNK_SIZE (\<lambda>i j. join_row input cols (cross_match build (i, j))) [0..<tdc_row_count build] st
      [0..<chunk_count input] = (out_rows cols out', res, st') \<and> cursor_ok (chunk_count input) (tdc_row_count build) st'"
proof (cases "xs_drained st")
  case True
  then show ?thesis using cursor by (auto simp: CrossExecute_def cross_rows_def cursor_ok_def)
next
  case False
  let ?nb = "tdc_row_count build" and ?np = "chunk_count input"
  let ?q = "cursor_pos ?nb (xs_probe_row_idx st) (xs_build_row_idx st)"
  let ?q' = "min (?np * ?nb) (?q + PIPELINE_DEFAULT_CHUNK_SIZE)"
  obtain pr b out' where loop:
    "cross_loop (\<lambda>_. False) input cols build (xs_probe_row_idx st) (xs_build_row_idx st) (chunk_reset out) = Inr (pr, b, out')"
    "out_ok cols out'" "chunk_count out' = ?q' - ?q"
    "out_rows cols out' = map (join_row input cols \<circ> cross_match build \<circ> nth_pair ?nb) [?q..<?q']"
    "pr \<le> ?np" "b < ?nb \<or> b = 0" "pr = ?np \<longrightarrow> b = 0" "?q' = cursor_pos ?nb pr b" "pr = ?np \<longleftrightarrow> ?np * ?nb \<le> ?q'"
    using cross_loop_pairs [OF cols(3) matches, of "chunk_reset out" "xs_probe_row_idx st" "xs_build_row_idx st" ?q ?q'] cursor
    by (fastforce simp: cursor_ok_def PIPELINE_DEFAULT_CHUNK_SIZE_def)
  have index: "map (join_row input cols \<circ> cross_match build \<circ> nth_pair ?nb) [?q..<?q'] =
      map (\<lambda>k. case nth_pair ?nb k of (i, j) \<Rightarrow> join_row input cols (cross_match build ([0..<?np] ! i, [0..<?nb] ! j))) [?q..<?q']"
  proof (rule map_cong [OF refl])
    fix k assume "k \<in> set [?q..<?q']"
    then have "k div ?nb < ?np" "k mod ?nb < ?nb" using less_mult_imp_div_less [of k ?np ?nb] by (auto intro!: mod_less_divisor Nat.gr0I)
    then show "(join_row input cols \<circ> cross_match build \<circ> nth_pair ?nb) k =
        (case nth_pair ?nb k of (i, j) \<Rightarrow> join_row input cols (cross_match build ([0..<?np] ! i, [0..<?nb] ! j)))"
      by (simp add: nth_pair_def)
  qed
  have cursor': "?q' div ?nb = pr" "?q' mod ?nb = b" "0 < ?nb" if "pr \<noteq> ?np"
  proof -
    have "0 < ?nb" using loop(9) that by (auto intro: Nat.gr0I)
    then show "?q' div ?nb = pr" "?q' mod ?nb = b" "0 < ?nb"
      using nth_pair_in_row [of b ?nb pr] loop(6) unfolding loop(8) [symmetric] nth_pair_def by auto
  qed
  let ?st = "if ?np \<le> pr then \<lparr>xs_drained = 0 < chunk_count out', xs_probe_row_idx = 0, xs_build_row_idx = 0\<rparr>
    else st\<lparr>xs_probe_row_idx := pr, xs_build_row_idx := b\<rparr>"
  let ?res = "if 0 < chunk_count out' then OP_HAVE_MORE_OUTPUT else OP_NEED_MORE_INPUT"
  have "CrossExecute (\<lambda>_. False) (Some p) l ocs input out st = Inr (out', ?res, ?st)"
    using False payload cols(1,2) loop(1) by (simp add: CrossExecute_def Let_def)
  moreover have "cross_rows PIPELINE_DEFAULT_CHUNK_SIZE (\<lambda>i j. join_row input cols (cross_match build (i, j))) [0..<?nb] st [0..<?np] =
      (out_rows cols out', ?res, ?st)"
  proof -
    have "out_rows cols out' \<noteq> [] \<longleftrightarrow> 0 < chunk_count out'" "0 < PIPELINE_DEFAULT_CHUNK_SIZE"
      by (simp_all add: out_rows_def PIPELINE_DEFAULT_CHUNK_SIZE_def)
    then show ?thesis
      using False loop(5,9) cursor' unfolding cross_rows_def Let_def length_upt diff_zero loop(4) index by (cases "pr = ?np") auto
  qed
  moreover have "cursor_ok ?np ?nb ?st" using loop(5,6) by (simp add: cursor_ok_def)
  ultimately show ?thesis using loop(2) by blast
qed

text \<open>All pairs of an input, in chunk-sized pieces.\<close>

function chunked :: "nat \<Rightarrow> 'a list \<Rightarrow> 'a list list" where
  "chunked N xs = (if xs = [] \<or> N = 0 then [] else take N xs # chunked N (drop N xs))"
  by pat_completeness auto
termination
  by (relation "measure (\<lambda>(N, xs). length xs)") auto

declare chunked.simps [simp del]

lemma concat_chunked: "0 < N \<Longrightarrow> concat (chunked N xs) = xs"
  by (induction N xs rule: chunked.induct) (subst chunked.simps, auto)

lemma chunked_sizes: "c \<in> set (chunked N xs) \<Longrightarrow> c \<noteq> [] \<and> length c \<le> N"
proof (induction N xs rule: chunked.induct)
  case (1 N xs)
  show ?case using "1.prems" by (subst (asm) chunked.simps) (use "1.IH" in \<open>auto split: if_splits\<close>)
qed

definition joined_pairs :: "('p \<Rightarrow> 'b \<Rightarrow> 'r) \<Rightarrow> 'b list \<Rightarrow> 'p list \<Rightarrow> 'r list" where
  "joined_pairs join bs rows = concat (map (\<lambda>r. map (join r) bs) rows)"

lemma pairs_by_position:
  "map (\<lambda>k. case nth_pair (length bs) k of (i, j) \<Rightarrow> join (rows ! i) (bs ! j)) [0..<length rows * length bs] = joined_pairs join bs rows"
proof (induction rows rule: rev_induct)
  case Nil
  then show ?case by (simp add: joined_pairs_def)
next
  case (snoc r rows)
  let ?nb = "length bs" and ?np = "length rows"
  let ?f = "\<lambda>rows k. case nth_pair ?nb k of (i, j) \<Rightarrow> join (rows ! i) (bs ! j)"
  have "map (?f (rows @ [r])) [0..<?np * ?nb] = map (?f rows) [0..<?np * ?nb]"
  proof (rule map_cong [OF refl])
    fix k assume "k \<in> set [0..<?np * ?nb]"
    then have "k div ?nb < ?np" using less_mult_imp_div_less [of k ?np ?nb] by simp
    then show "?f (rows @ [r]) k = ?f rows k" by (simp add: nth_pair_def nth_append)
  qed
  moreover have "map (?f (rows @ [r])) [?np * ?nb..<?np * ?nb + ?nb] = map (join r) bs"
  proof -
    have "map (Pair ?np) [0..<?nb] = map (nth_pair ?nb) [?np * ?nb..<?np * ?nb + ?nb]"
      using row_pairs [of 0 ?nb ?nb ?np] by (simp add: cursor_pos_def)
    then have "map (\<lambda>(i, j). join ((rows @ [r]) ! i) (bs ! j)) (map (Pair ?np) [0..<?nb]) =
        map (\<lambda>(i, j). join ((rows @ [r]) ! i) (bs ! j)) (map (nth_pair ?nb) [?np * ?nb..<?np * ?nb + ?nb])" by simp
    then have "map (?f (rows @ [r])) [?np * ?nb..<?np * ?nb + ?nb] = map (\<lambda>(i, j). join ((rows @ [r]) ! i) (bs ! j)) (map (Pair ?np) [0..<?nb])"
      by (simp add: comp_def)
    also have "\<dots> = map (\<lambda>j. join r (bs ! j)) [0..<?nb]" by simp
    also have "\<dots> = map (join r) bs" by (rule nth_equalityI) simp_all
    finally show ?thesis .
  qed
  moreover have "[0..<length (rows @ [r]) * ?nb] = [0..<?np * ?nb] @ [?np * ?nb..<?np * ?nb + ?nb]"
    using upt_add_eq_append [of 0 "?np * ?nb" ?nb] by (simp add: add.commute)
  ultimately show ?case using snoc by (simp add: joined_pairs_def)
qed

text \<open>From a cursor, the executions emit the rest of the pairs piece by piece, and then ask for input.\<close>

abbreviation idle_cross :: "cross_state \<Rightarrow> bool" where
  "idle_cross st \<equiv> st = GetCrossOperatorState"

lemma cross_rows_emits_from:
  assumes "0 < N"
  shows "\<not> xs_drained st \<Longrightarrow> q = cursor_pos (length bs) (xs_probe_row_idx st) (xs_build_row_idx st) \<Longrightarrow>
    emits idle_cross (cross_rows N join bs) st rows (chunked N (drop q (joined_pairs join bs rows)))"
proof (induction "length rows * length bs - q" arbitrary: st q rule: less_induct)
  case less
  let ?nb = "length bs" and ?total = "length rows * length bs"
  let ?q' = "min ?total (q + N)"
  let ?f = "\<lambda>k. case nth_pair ?nb k of (i, j) \<Rightarrow> join (rows ! i) (bs ! j)"
  have all: "joined_pairs join bs rows = map ?f [0..<?total]" by (simp only: pairs_by_position)
  have piece: "map ?f [q..<?q'] = take N (drop q (joined_pairs join bs rows))"
    unfolding all drop_map take_map by (simp add: take_upt min_def)
  have exec: "cross_rows N join bs st rows = (map ?f [q..<?q'], if q < ?q' then OP_HAVE_MORE_OUTPUT else OP_NEED_MORE_INPUT,
      if ?total \<le> ?q' then \<lparr>xs_drained = q < ?q', xs_probe_row_idx = 0, xs_build_row_idx = 0\<rparr>
      else st\<lparr>xs_probe_row_idx := ?q' div ?nb, xs_build_row_idx := ?q' mod ?nb\<rparr>)"
    unfolding cross_rows_def Let_def less.prems(2) [symmetric] using less.prems(1) by simp
  show ?case
  proof (cases "q < ?total")
    case False
    then have "drop q (joined_pairs join bs rows) = []" unfolding all by simp
    then show ?thesis using False by (subst chunked.simps) (simp add: exec GetCrossOperatorState_def)
  next
    case True
    have pieces: "chunked N (drop q (joined_pairs join bs rows)) =
        map ?f [q..<?q'] # chunked N (drop (q + N) (joined_pairs join bs rows))"
      using True assms unfolding piece by (subst chunked.simps) (simp add: all add.commute)
    have q': "q < ?q'" using True assms by simp
    show ?thesis
    proof (cases "?total \<le> q + N")
      case last: True
      then have "chunked N (drop (q + N) (joined_pairs join bs rows)) = []" unfolding all by (subst chunked.simps) simp
      then show ?thesis unfolding pieces using q' last
        by (simp add: exec) (simp add: cross_rows_def GetCrossOperatorState_def)
    next
      case more: False
      let ?st = "st\<lparr>xs_probe_row_idx := ?q' div ?nb, xs_build_row_idx := ?q' mod ?nb\<rparr>"
      have "emits idle_cross (cross_rows N join bs) ?st rows (chunked N (drop (q + N) (joined_pairs join bs rows)))"
        by (rule less.hyps) (use more assms less.prems in \<open>simp_all add: cursor_pos_def\<close>)
      then show ?thesis unfolding pieces using q' more by (simp add: exec)
    qed
  qed
qed

lemma cross_rows_emits:
  assumes "0 < N"
  shows "emits idle_cross (cross_rows N join bs) GetCrossOperatorState rows (chunked N (joined_pairs join bs rows))"
  using cross_rows_emits_from [OF assms, of GetCrossOperatorState 0 bs join rows]
  by (simp add: GetCrossOperatorState_def cursor_pos_def)

text \<open>Executions on one input chunk, whatever the output chunk holds before each.\<close>

fun answers :: "(data_chunk \<Rightarrow> 's \<Rightarrow> (data_chunk \<times> operator_result \<times> 's) result) \<Rightarrow> ('s \<Rightarrow> bool) \<Rightarrow>
    (data_chunk \<Rightarrow> 'r) \<Rightarrow> 's \<Rightarrow> 'r list \<Rightarrow> bool" where
  "answers exec idle rows st [] \<longleftrightarrow> (\<forall>out. \<exists>out' st'. exec out st = Inr (out', OP_NEED_MORE_INPUT, st') \<and> idle st')"
| "answers exec idle rows st (r # rs) \<longleftrightarrow>
     (\<forall>out. \<exists>out' st'. exec out st = Inr (out', OP_HAVE_MORE_OUTPUT, st') \<and> rows out' = r \<and> answers exec idle rows st' rs)"

lemma emits_answers:
  assumes sim: "\<And>out st. ok st \<Longrightarrow> \<exists>out' res st'. exec out st = Inr (out', res, st') \<and> f st c = (rows out', res, st') \<and> ok st'"
  shows "ok st \<Longrightarrow> emits idle f st c rs \<Longrightarrow> answers exec idle rows st rs"
proof (induction rs arbitrary: st)
  case Nil
  then show ?case using sim [OF Nil.prems(1)] by fastforce
next
  case (Cons r rs)
  show ?case unfolding answers.simps
  proof
    fix out
    obtain out' res st' where e: "exec out st = Inr (out', res, st')" "f st c = (rows out', res, st')" "ok st'"
      using sim [OF Cons.prems(1)] by blast
    then have "res = OP_HAVE_MORE_OUTPUT" "rows out' = r" "emits idle f st' c rs" using Cons.prems(2) by simp_all
    then show "\<exists>out' st'. exec out st = Inr (out', OP_HAVE_MORE_OUTPUT, st') \<and> rows out' = r \<and> answers exec idle rows st' rs"
      using e Cons.IH [of st'] by blast
  qed
qed

text \<open>C7: On one probe chunk, Execute returns the joined rows of every probe row with every build row, probe rows
  in order and build rows in order within them, cut into chunks of 2048 rows, resuming from its cursor in
  between; then it asks for the next input with its state as new. No pair is lost, doubled or reordered at
  a chunk boundary, and nothing is raised while the strings are sound.\<close>

theorem cross_product_joins_every_pair:
  assumes "cp_finalized p" "cp_release_state p = 0" "build = cp_collections p (cp_build_rows_dp p)"
    and "ocs \<noteq> []" "resolve_columns l ocs = Inr cols" "cols_ok cols"
    and "\<And>i j. i < chunk_count input \<Longrightarrow> j < tdc_row_count build \<Longrightarrow> match_ok input cols (cross_match build (i, j))"
  shows "answers (CrossExecute (\<lambda>_. False) (Some p) l ocs input) idle_cross (out_rows cols) GetCrossOperatorState
    (chunked PIPELINE_DEFAULT_CHUNK_SIZE
      (joined_pairs (\<lambda>i j. join_row input cols (cross_match build (i, j))) [0..<tdc_row_count build] [0..<chunk_count input]))"
proof (rule emits_answers [where ok = "cursor_ok (chunk_count input) (tdc_row_count build)" and c = "[0..<chunk_count input]"
      and f = "cross_rows PIPELINE_DEFAULT_CHUNK_SIZE (\<lambda>i j. join_row input cols (cross_match build (i, j))) [0..<tdc_row_count build]"])
  show "cursor_ok (chunk_count input) (tdc_row_count build) GetCrossOperatorState"
    by (simp add: cursor_ok_def GetCrossOperatorState_def)
  show "emits idle_cross (cross_rows PIPELINE_DEFAULT_CHUNK_SIZE (\<lambda>i j. join_row input cols (cross_match build (i, j)))
      [0..<tdc_row_count build]) GetCrossOperatorState [0..<chunk_count input]
    (chunked PIPELINE_DEFAULT_CHUNK_SIZE
      (joined_pairs (\<lambda>i j. join_row input cols (cross_match build (i, j))) [0..<tdc_row_count build] [0..<chunk_count input]))"
    by (rule cross_rows_emits) (simp add: PIPELINE_DEFAULT_CHUNK_SIZE_def)
qed (use cross_execute_rows [OF assms(1,2) assms(3) [symmetric] assms(4-7)] in blast)

definition demo_payload :: cross_payload where
  "demo_payload = \<lparr>cp_collections = (\<lambda>_. demo_tdc\<lparr>tdc_row_count := 2\<rparr>), cp_next_address = 1, cp_build_rows_dp = 0,
     cp_finalized = True, cp_release_state = 0, cp_combined_row_count = 2\<rparr>"

theorem cross_product_joins_every_pair_witness:
  "answers (CrossExecute (\<lambda>_. False) (Some demo_payload) demo_layout demo_columns demo_chunk) idle_cross (out_rows demo_resolved)
    GetCrossOperatorState
    [[[(0, Some (GInt32 7)), (0, Some (GString []))], [(0, Some (GInt32 7)), (0, Some (GString []))]]]"
proof -
  let ?build = "demo_tdc\<lparr>tdc_row_count := 2\<rparr>"
  have row: "TupleDataCollectionGetRow ?build j = demo_row" if "j < 2" for j
    using that by (simp add: TupleDataCollectionGetRow_def demo_tdc_def TupleDataCollectionInit_def demo_row_def)
  have ref: "read_string_ref 0 demo_row = \<lparr>ref_len = 0, ref_offset = 0, ref_prefix = 0\<rparr>"
    by (simp add: demo_row_def read_string_ref_zeros)
  have ok: "match_ok demo_chunk demo_resolved (cross_match ?build (i, j))" if "j < 2" for i j
    using that by (simp add: match_ok_def cross_match_def demo_resolved_def short_ref_def ref_ok_def demo_layout_def q1_layout row ref)
  have joined: "join_row demo_chunk demo_resolved (cross_match ?build (0, j)) = [(0, Some (GInt32 7)), (0, Some (GString []))]" if "j < 2" for j
    using that by (simp add: join_row_def join_cell_def cross_match_def demo_resolved_def demo_layout_def q1_layout row ref
        demo_chunk_def empty_chunk_def class_defs plain_class_def ref_string_def VecStringRefDataPtr_def)
  have "cols_ok demo_resolved" by (simp add: cols_ok_def demo_resolved_def N_SLOTS_def)
  moreover have "demo_columns \<noteq> []" by (simp add: demo_columns_def)
  moreover have "joined_pairs (\<lambda>i j. join_row demo_chunk demo_resolved (cross_match ?build (i, j))) [0..<2] [0..<1] =
      [[(0, Some (GInt32 7)), (0, Some (GString []))], [(0, Some (GInt32 7)), (0, Some (GString []))]]"
    using joined [of 0] joined [of 1] by (simp add: joined_pairs_def upt_rec numeral_2_eq_2)
  moreover have "chunk_count demo_chunk = 1" by (simp add: demo_chunk_def)
  moreover have "chunked PIPELINE_DEFAULT_CHUNK_SIZE [x, y] = [[x, y]]" for x y :: "cell list"
    by (simp add: chunked.simps PIPELINE_DEFAULT_CHUNK_SIZE_def)
  moreover have "answers (CrossExecute (\<lambda>_. False) (Some demo_payload) demo_layout demo_columns demo_chunk) idle_cross (out_rows demo_resolved)
      GetCrossOperatorState (chunked PIPELINE_DEFAULT_CHUNK_SIZE
        (joined_pairs (\<lambda>i j. join_row demo_chunk demo_resolved (cross_match ?build (i, j))) [0..<tdc_row_count ?build] [0..<chunk_count demo_chunk]))"
    by (rule cross_product_joins_every_pair)
      (use ok calculation(1,2) demo_resolve in \<open>simp_all add: demo_payload_def\<close>)
  ultimately show ?thesis by simp
qed

end
