(* ===== verification/Like.thy ===== *)
theory Like
  imports Prelude
begin

text \<open>
  The LIKE matchers for patterns whose only wildcard is the percent sign: MatchPercentLikePattern of
  physical_filter.cpp and the one that physical_seq_scan.cpp and physical_hash_join.cpp share. Both search
  the tokens between percent signs from left to right; the reference is the usual matching relation.
\<close>

section \<open>The reference\<close>

definition percent :: u8 where
  "percent = 37"

fun like :: "u8 list \<Rightarrow> u8 list \<Rightarrow> bool" where
  "like [] s \<longleftrightarrow> s = []"
| "like (c # p) [] \<longleftrightarrow> c = percent \<and> like p []"
| "like (c # p) (x # s) \<longleftrightarrow> (if c = percent then like p (x # s) \<or> like (c # p) s else c = x \<and> like p s)"

lemma like_percent: "like (percent # p) s \<longleftrightarrow> (\<exists>k\<le>length s. like p (drop k s))"
proof (induction s)
  case (Cons x s)
  have "(\<exists>k\<le>length (x # s). like p (drop k (x # s))) \<longleftrightarrow> like p (x # s) \<or> (\<exists>k\<le>length s. like p (drop k s))"
    by (metis Suc_le_mono drop0 drop_Suc_Cons length_Cons not0_implies_Suc zero_le)
  then show ?case using Cons by simp
qed simp

lemma like_percent_alone [simp]: "like [percent] s"
  by (induction s) auto

lemma like_token: "percent \<notin> set t \<Longrightarrow> like (t @ p) s \<longleftrightarrow> take (length t) s = t \<and> like p (drop (length t) s)"
proof (induction t arbitrary: s)
  case (Cons c t)
  then show ?case by (cases s) auto
qed simp

lemma like_percents [simp]: "like (percent # percent # p) s \<longleftrightarrow> like (percent # p) s"
proof
  assume "like (percent # percent # p) s"
  then obtain k j where "k \<le> length s" "j \<le> length s - k" "like p (drop (j + k) s)" by (auto simp: like_percent)
  then show "like (percent # p) s" unfolding like_percent by (intro exI [of _ "j + k"]) simp
qed (use like_percent [of "percent # p"] in \<open>force intro: exI [of _ 0]\<close>)

text \<open>A pattern that starts with a percent sign matches a text when it matches a suffix of it.\<close>

lemma like_percent_mono: "like (percent # p) (drop k s) \<Longrightarrow> like (percent # p) s"
  using like_percents [of p s] like_percent [of "percent # p" s] by (cases "k \<le> length s") force+

text \<open>Taking the leftmost occurrence of a token loses nothing when a percent sign follows.\<close>

lemma like_leftmost:
  assumes "percent \<notin> set t" "take (length t) (drop m s) = t" "m \<le> length s"
    and first: "\<And>k. k < m \<Longrightarrow> take (length t) (drop k s) \<noteq> t"
  shows "like (percent # t @ percent # p) s \<longleftrightarrow> like (percent # p) (drop (m + length t) s)"
proof
  assume "like (percent # t @ percent # p) s"
  then obtain k where k: "take (length t) (drop k s) = t" "like (percent # p) (drop (k + length t) s)"
    using like_token [OF assms(1)] by (auto simp: like_percent [of "t @ percent # p"] add.commute)
  then have "m \<le> k" using first by (metis not_le)
  then have "drop (k + length t) s = drop (k - m) (drop (m + length t) s)" by simp
  then show "like (percent # p) (drop (m + length t) s)" using k(2) like_percent_mono by metis
next
  assume "like (percent # p) (drop (m + length t) s)"
  then have "like (t @ percent # p) (drop m s)" using assms(1,2) by (simp add: like_token add.commute)
  then show "like (percent # t @ percent # p) s" unfolding like_percent [of "t @ percent # p"] using assms(3) by blast
qed

section \<open>The matcher of the filter\<close>

definition memcmp_eq :: "nat \<Rightarrow> u8 list \<Rightarrow> u8 list \<Rightarrow> bool" where
  "memcmp_eq n a b \<longleftrightarrow> take n a = take n b"

text \<open>The search loop: the position behind the first occurrence at or after \<open>match_pos\<close>.\<close>

function find_token :: "u8 list \<Rightarrow> u8 list \<Rightarrow> nat \<Rightarrow> nat option" where
  "find_token lhs token match_pos =
     (if match_pos + length token \<le> length lhs
      then if memcmp_eq (length token) (drop match_pos lhs) token then Some (match_pos + length token)
           else find_token lhs token (match_pos + 1)
      else None)"
  by pat_completeness auto
termination
  by (relation "measure (\<lambda>(lhs, token, match_pos). length lhs + 1 - match_pos)") auto

declare find_token.simps [simp del]

text \<open>One round of the loop at \<open>i\<close>; the state is token_start, match_pos and first_token, and None is "return false".\<close>

definition like_round :: "u8 list \<Rightarrow> u8 list \<Rightarrow> bool \<Rightarrow> nat \<Rightarrow> nat \<times> nat \<times> bool \<Rightarrow> (nat \<times> nat \<times> bool) option" where
  "like_round lhs pattern anchored_start i st =
     (let (token_start, match_pos, first_token) = st
      in if i < length pattern \<and> pattern ! i \<noteq> percent then Some st
         else let token = take (i - token_start) (drop token_start pattern)
              in if token = [] then Some (i + 1, match_pos, first_token)
                 else if first_token \<and> anchored_start
                 then if length lhs < length token \<or> \<not> memcmp_eq (length token) lhs token then None
                      else Some (i + 1, length token, False)
                 else map_option (\<lambda>pos. (i + 1, pos, False)) (find_token lhs token match_pos))"

fun like_rounds :: "u8 list \<Rightarrow> u8 list \<Rightarrow> bool \<Rightarrow> nat list \<Rightarrow> nat \<times> nat \<times> bool \<Rightarrow> (nat \<times> nat \<times> bool) option" where
  "like_rounds lhs pattern anchored_start [] st = Some st"
| "like_rounds lhs pattern anchored_start (i # is) st =
     Option.bind (like_round lhs pattern anchored_start i st) (like_rounds lhs pattern anchored_start is)"

text \<open>The trailing token's length is a 32-bit subtraction.\<close>

definition sub32 :: "nat \<Rightarrow> nat \<Rightarrow> nat" where
  "sub32 a b = (a + 2 ^ 32 - b mod 2 ^ 32) mod 2 ^ 32"

definition MatchPercentLikePattern :: "u8 list option \<Rightarrow> u8 list option \<Rightarrow> bool" where
  "MatchPercentLikePattern lhs pattern =
     (case (lhs, pattern) of
        (Some lhs, Some pattern) \<Rightarrow>
          if pattern = [] then lhs = []
          else (case like_rounds lhs pattern (pattern ! 0 \<noteq> percent) [0..<length pattern + 1] (0, 0, True) of
                  None \<Rightarrow> False
                | Some (token_start, match_pos, first_token) \<Rightarrow>
                    if last pattern \<noteq> percent
                    then let trailing_len = sub32 (length pattern) token_start
                         in if trailing_len > length lhs then False
                            else memcmp_eq trailing_len (drop (length lhs - trailing_len) lhs) (drop token_start pattern)
                    else True)
      | _ \<Rightarrow> False)"

section \<open>What it computes\<close>

declare upt_Suc [simp del]

lemma upt_single: "[n..<n + 1] = [n]"
  by (simp add: upt_rec)

lemma memcmp_token: "memcmp_eq (length t) s t \<longleftrightarrow> take (length t) s = t"
  by (simp add: memcmp_eq_def)

lemma find_token_cases:
  "case find_token s t m of
     Some e \<Rightarrow> \<exists>k\<ge>m. e = k + length t \<and> e \<le> length s \<and> take (length t) (drop k s) = t \<and>
       (\<forall>j. m \<le> j \<longrightarrow> j < k \<longrightarrow> take (length t) (drop j s) \<noteq> t)
   | None \<Rightarrow> \<forall>k\<ge>m. k + length t \<le> length s \<longrightarrow> take (length t) (drop k s) \<noteq> t"
proof (induction s t m rule: find_token.induct)
  case (1 s t m)
  show ?case
  proof (cases "m + length t \<le> length s \<and> take (length t) (drop m s) \<noteq> t")
    case True
    then have "find_token s t m = find_token s t (m + 1)" by (subst find_token.simps) (simp add: memcmp_token)
    then show ?thesis using "1.IH" True
      by (fastforce simp: memcmp_token le_eq_less_or_eq [of m] Suc_le_eq [symmetric] split: option.splits)
  next
    case False
    then show ?thesis by (subst find_token.simps) (auto simp: memcmp_token)
  qed
qed

lemma like_search:
  assumes "percent \<notin> set t" "m \<le> length s"
  shows "case find_token s t m of
      Some e \<Rightarrow> e \<le> length s \<and> like (percent # t @ percent # p) (drop m s) = like (percent # p) (drop e s)
    | None \<Rightarrow> t \<noteq> [] \<longrightarrow> \<not> like (percent # t @ percent # p) (drop m s)"
proof (cases "find_token s t m")
  case None
  have "\<not> like (percent # t @ percent # p) (drop m s)" if t: "t \<noteq> []"
  proof
    assume "like (percent # t @ percent # p) (drop m s)"
    then obtain k where k: "take (length t) (drop (k + m) s) = t"
      using like_token [OF assms(1)] by (auto simp: like_percent [of "t @ percent # p"])
    then have "length t \<le> length (drop (k + m) s)" by (metis length_take min.cobounded1)
    moreover have "0 < length t" using t by simp
    ultimately have "k + m + length t \<le> length s" unfolding length_drop by linarith
    then show False using find_token_cases [where s = s and t = t and m = m] None k by auto
  qed
  then show ?thesis using None by simp
next
  case (Some e)
  then obtain k where k: "m \<le> k" "e = k + length t" "e \<le> length s" "take (length t) (drop k s) = t"
    "\<And>j. m \<le> j \<Longrightarrow> j < k \<Longrightarrow> take (length t) (drop j s) \<noteq> t"
    using find_token_cases [where s = s and t = t and m = m] by auto
  have "like (percent # t @ percent # p) (drop m s) \<longleftrightarrow> like (percent # p) (drop ((k - m) + length t) (drop m s))"
    by (rule like_leftmost [OF assms(1)]) (use k in auto)
  then show ?thesis using Some k by (simp add: add.commute)
qed

text \<open>The rounds return false unless \<open>b\<close>, and then leave token_start at \<open>n\<close>.\<close>

definition ends :: "nat \<Rightarrow> (nat \<times> nat \<times> bool) option \<Rightarrow> bool \<Rightarrow> bool" where
  "ends n r b \<longleftrightarrow> (case r of None \<Rightarrow> \<not> b | Some (ts, _) \<Rightarrow> ts = n \<and> b)"

lemma ends_None [simp]: "ends n None b \<longleftrightarrow> \<not> b"
  by (simp add: ends_def)

lemma ends_Some [simp]: "ends n (Some (ts, x)) b \<longleftrightarrow> ts = n \<and> b"
  by (simp add: ends_def)

lemma like_rounds_search:
  assumes "\<not> (first \<and> anchored)"
  shows "ts \<le> i \<Longrightarrow> i \<le> length pat \<Longrightarrow> mp \<le> length s \<Longrightarrow> percent \<notin> set (take (i - ts) (drop ts pat)) \<Longrightarrow>
    ends (Suc (length pat)) (like_rounds s pat anchored [i..<Suc (length pat)] (ts, mp, first))
      (like (percent # take (i - ts) (drop ts pat) @ drop i pat @ [percent]) (drop mp s))"
  using assms
proof (induction "length pat - i" arbitrary: i ts mp first)
  case 0
  let ?t = "take (i - ts) (drop ts pat)"
  have i: "i = length pat" using 0 by simp
  show ?case using like_search [OF "0.prems"(4,3), of "[]"] "0.prems"(5)
    by (auto simp: i upt_single [simplified] like_round_def Let_def split: option.splits)
next
  case (Suc n)
  let ?t = "take (i - ts) (drop ts pat)" and ?r = "drop (Suc i) pat @ [percent]"
  have i: "i < length pat" using Suc.hyps(2) by simp
  have upt: "[i..<Suc (length pat)] = i # [Suc i..<Suc (length pat)]" using i upt_conv_Cons by simp
  have rest: "drop i pat = pat ! i # drop (Suc i) pat" using i by (simp add: Cons_nth_drop_Suc)
  have n: "n = length pat - Suc i" using Suc.hyps(2) by simp
  consider (literal) "pat ! i \<noteq> percent" | (empty) "pat ! i = percent" "?t = []" | (token) "pat ! i = percent" "?t \<noteq> []" by blast
  then show ?case
  proof cases
    case literal
    have t': "take (Suc i - ts) (drop ts pat) = ?t @ [pat ! i]"
      using Suc.prems(1) i by (simp add: Suc_diff_le take_Suc_conv_app_nth)
    show ?thesis using Suc.hyps(1) [OF n, of ts mp first] Suc.prems i literal
      by (simp add: upt like_round_def t' rest)
  next
    case empty
    show ?thesis using Suc.hyps(1) [OF n, of "Suc i" mp first] Suc.prems i empty
      by (simp add: upt like_round_def rest Let_def del: take_eq_Nil)
  next
    case token
    then have step: "like_round s pat anchored i (ts, mp, first) = map_option (\<lambda>pos. (Suc i, pos, False)) (find_token s ?t mp)"
      using Suc.prems(5) i by (auto simp: like_round_def Let_def)
    show ?thesis
    proof (cases "find_token s ?t mp")
      case None
      then show ?thesis using like_search [OF Suc.prems(4,3), of "?r"] token by (simp add: upt step rest del: take_eq_Nil)
    next
      case (Some e)
      then show ?thesis
        using like_search [OF Suc.prems(4,3), of "?r"] Suc.hyps(1) [OF n, of "Suc i" e False] Suc.prems i token
        by (simp add: upt step rest)
    qed
  qed
qed

lemma like_rounds_anchored:
  assumes "pat \<noteq> []" "pat ! 0 \<noteq> percent"
  shows "i \<le> length pat \<Longrightarrow> percent \<notin> set (take i pat) \<Longrightarrow>
    ends (Suc (length pat)) (like_rounds s pat True [i..<Suc (length pat)] (0, 0, True)) (like (pat @ [percent]) s)"
proof (induction "length pat - i" arbitrary: i)
  case 0
  then have i: "i = length pat" by simp
  then show ?case using like_token [of pat "[percent]" s] "0.prems"(2) assms(1)
    by (auto simp: upt_single [simplified] like_round_def Let_def memcmp_token dest: arg_cong [where f = length])
next
  case (Suc n)
  then have i: "i < length pat" "n = length pat - Suc i" by simp_all
  have upt: "[i..<Suc (length pat)] = i # [Suc i..<Suc (length pat)]" using i upt_conv_Cons by simp
  show ?case
  proof (cases "pat ! i = percent")
    case False
    have "percent \<notin> set (take (Suc i) pat)" using Suc.prems(2) i False by (simp add: take_Suc_conv_app_nth)
    then show ?thesis using Suc.hyps(1) [OF i(2)] i False by (simp add: upt like_round_def)
  next
    case True
    then have pos: "0 < i" using assms(2) by (metis gr0I)
    have pat: "pat @ [percent] = take i pat @ percent # drop (Suc i) pat @ [percent]"
      using True i id_take_nth_drop [of i pat] by simp
    have token: "like (pat @ [percent]) s \<longleftrightarrow> take i s = take i pat \<and> like (percent # drop (Suc i) pat @ [percent]) (drop i s)"
      unfolding pat like_token [OF Suc.prems(2)] using i by simp
    have round: "like_round s pat True i (0, 0, True) = (if take i s = take i pat then Some (Suc i, i, False) else None)"
      using True pos i by (auto simp: like_round_def Let_def memcmp_eq_def min_def dest: arg_cong [where f = length])
    show ?thesis
    proof (cases "take i s = take i pat")
      case match: True
      then have "i \<le> length s" using i by (metis length_take less_imp_le_nat min.absorb2 min.cobounded1)
      then show ?thesis using like_rounds_search [of False True "Suc i" "Suc i" pat i s] i match token
        by (simp add: upt round)
    next
      case False
      then show ?thesis using token by (simp add: upt round)
    qed
  qed
qed

lemma like_rounds_result:
  assumes "pat \<noteq> []"
  shows "ends (Suc (length pat)) (like_rounds s pat (pat ! 0 \<noteq> percent) [0..<Suc (length pat)] (0, 0, True)) (like (pat @ [percent]) s)"
proof (cases "pat ! 0 = percent")
  case True
  then have "pat = percent # drop 1 pat" using True assms by (cases pat) auto
  then have "like (percent # pat @ [percent]) s \<longleftrightarrow> like (pat @ [percent]) s" by (metis like_percents append_Cons)
  then show ?thesis using like_rounds_search [of True False 0 0 pat 0 s] True by simp
next
  case False
  then show ?thesis using like_rounds_anchored [OF assms False, of 0 s] by simp
qed

lemma like_append_percent: "p \<noteq> [] \<Longrightarrow> last p = percent \<Longrightarrow> like (p @ [percent]) s \<longleftrightarrow> like p s"
proof (induction p s rule: like.induct)
  case (2 c p)
  then show ?case by (cases "p = []") auto
next
  case (3 c p x s)
  then show ?case by (cases "p = []") auto
qed simp

text \<open>C29: The LIKE matcher of the filter decides exactly the patterns that end in a percent sign, and the empty
  pattern: for these it agrees with the matching relation on every text. For every other pattern it answers
  false, whatever the text, because the trailing length is taken from behind the end of the pattern.\<close>

theorem filter_like_exactly:
  assumes "length pattern < 2 ^ 32" "length lhs < 2 ^ 32 - 1"
  shows "MatchPercentLikePattern (Some lhs) (Some pattern) \<longleftrightarrow>
    (pattern = [] \<or> last pattern = percent) \<and> like pattern lhs"
proof (cases "pattern = []")
  case False
  have "sub32 (length pattern) (Suc (length pattern)) = 2 ^ 32 - 1"
  proof (cases "Suc (length pattern) = 2 ^ 32")
    case True
    then show ?thesis by (simp add: sub32_def)
  next
    case False
    then show ?thesis using assms(1) by (simp add: sub32_def)
  qed
  then have trailing: "length lhs < sub32 (length pattern) (Suc (length pattern))" using assms(2) by simp
  show ?thesis
  proof (cases "like_rounds lhs pattern (pattern ! 0 \<noteq> percent) [0..<Suc (length pattern)] (0, 0, True)")
    case None
    then have "\<not> like (pattern @ [percent]) lhs" using like_rounds_result [OF False, of lhs] by simp
    then show ?thesis using None False like_append_percent [OF False] by (auto simp: MatchPercentLikePattern_def)
  next
    case (Some st)
    obtain ts mp f where st: "st = (ts, mp, f)" by (metis prod_cases3)
    then have "ts = Suc (length pattern)" "like (pattern @ [percent]) lhs" using like_rounds_result [OF False, of lhs] Some by simp_all
    then show ?thesis using Some st False trailing like_append_percent [OF False] by (auto simp: MatchPercentLikePattern_def Let_def)
  qed
qed (simp add: MatchPercentLikePattern_def)

theorem filter_like_exactly_witness:
  "MatchPercentLikePattern (Some [66, 82, 65, 83, 83]) (Some [66, 37]) \<and>
   \<not> MatchPercentLikePattern (Some [66, 82, 65, 83, 83]) (Some [37, 83, 83]) \<and> like [37, 83, 83] [66, 82, 65, 83, 83]"
  using filter_like_exactly [of "[66, 37]" "[66, 82, 65, 83, 83]"] filter_like_exactly [of "[37, 83, 83]" "[66, 82, 65, 83, 83]"]
  by (simp add: percent_def)

section \<open>The matcher of the scan and the hash join\<close>

text \<open>\<^verbatim>\<open>std::string_view::find\<close> of a character or a non-empty token, from a position.\<close>

definition view_find_char :: "u8 list \<Rightarrow> nat \<Rightarrow> nat option" where
  "view_find_char s pos = List.find (\<lambda>i. s ! i = percent) [pos..<length s]"

function skip_percents :: "u8 list \<Rightarrow> nat \<Rightarrow> nat" where
  "skip_percents spec pat_pos =
     (if pat_pos < length spec \<and> spec ! pat_pos = percent then skip_percents spec (pat_pos + 1) else pat_pos)"
  by pat_completeness auto
termination
  by (relation "measure (\<lambda>(spec, pat_pos). length spec - pat_pos)") auto

declare skip_percents.simps [simp del]

lemma skip_percents_ge: "pat_pos \<le> skip_percents spec pat_pos"
  by (induction spec pat_pos rule: skip_percents.induct) (subst skip_percents.simps, auto)

lemma view_find_char_ge:
  assumes "view_find_char s pos = Some i"
  shows "pos \<le> i" "i < length s" "s ! i = percent" "\<And>j. pos \<le> j \<Longrightarrow> j < i \<Longrightarrow> s ! j \<noteq> percent"
proof -
  obtain k where k: "k < length s - pos" "i = pos + k" "s ! i = percent" "\<And>l. l < k \<Longrightarrow> s ! (pos + l) \<noteq> percent"
    using assms by (auto simp: view_find_char_def find_Some_iff)
  then show "pos \<le> i" "i < length s" "s ! i = percent" by auto
  show "s ! j \<noteq> percent" if "pos \<le> j" "j < i" for j
    using k(2) k(4) [of "j - pos"] that by auto
qed

lemma skip_percents_spec:
  "skip_percents spec pat_pos < length spec \<Longrightarrow> spec ! skip_percents spec pat_pos \<noteq> percent"
  by (induction spec pat_pos rule: skip_percents.induct) (subst (asm) (1) skip_percents.simps, subst skip_percents.simps, auto)

lemma skip_percents_less:
  "view_find_char spec (skip_percents spec pat_pos) = Some i \<Longrightarrow> skip_percents spec pat_pos < length spec \<Longrightarrow>
   pat_pos < i \<and> skip_percents spec pat_pos < i"
  using skip_percents_ge [of pat_pos spec] skip_percents_spec [of spec pat_pos] view_find_char_ge(1,3) [of spec "skip_percents spec pat_pos" i]
  by (metis le_neq_implies_less le_less_trans)

text \<open>
  A token is never empty here, so the code's test for an empty one is left out: the scan over percent signs
  stops at another character.
\<close>

function scan_like_loop :: "u8 list \<Rightarrow> u8 list \<Rightarrow> nat \<Rightarrow> nat \<Rightarrow> bool \<Rightarrow> bool" where
  "scan_like_loop subj spec text_pos pat_pos first_token =
     (let anchored_start = spec ! 0 \<noteq> percent; anchored_end = last spec \<noteq> percent
      in if pat_pos < length spec then
           let pos = skip_percents spec pat_pos
           in if length spec \<le> pos then True
              else
                let next_pct = view_find_char spec pos;
                    token = (case next_pct of None \<Rightarrow> drop pos spec | Some i \<Rightarrow> take (i - pos) (drop pos spec));
                    at_end = (\<lambda>text_pos. \<not> anchored_end \<or> text_pos = length subj)
                in if first_token \<and> anchored_start
                   then if length subj < length token \<or> \<not> memcmp_eq (length token) subj token then False
                        else (case next_pct of None \<Rightarrow> at_end (length token)
                              | Some i \<Rightarrow> scan_like_loop subj spec (length token) i False)
                   else (case find_token subj token text_pos of
                           None \<Rightarrow> False
                         | Some e \<Rightarrow> (case next_pct of None \<Rightarrow> at_end e | Some i \<Rightarrow> scan_like_loop subj spec e i False))
         else \<not> anchored_end \<or> text_pos = length subj)"
  by pat_completeness auto
termination
  by (relation "measure (\<lambda>(subj, spec, text_pos, pat_pos, first_token). length spec - pat_pos)")
    (auto simp: not_le intro!: diff_less_mono2 intro: skip_percents_less [OF sym, THEN conjunct1])

declare scan_like_loop.simps [simp del]

definition ScanMatchPercentLikePattern :: "u8 list option \<Rightarrow> u8 list option \<Rightarrow> bool" where
  "ScanMatchPercentLikePattern lhs pattern =
     (case pattern of
        None \<Rightarrow> False
      | Some spec \<Rightarrow>
          let subj = (case lhs of None \<Rightarrow> [] | Some t \<Rightarrow> t)
          in if spec = [] then subj = [] else if spec = [percent] then True else scan_like_loop subj spec 0 0 True)"


text \<open>The token from a position that is not a percent sign, and what follows it.\<close>

lemma view_find_token:
  assumes "pos < length spec" "spec ! pos \<noteq> percent"
  shows "case view_find_char spec pos of
      None \<Rightarrow> percent \<notin> set (drop pos spec) \<and> last spec \<noteq> percent
    | Some i \<Rightarrow> percent \<notin> set (take (i - pos) (drop pos spec)) \<and> take (i - pos) (drop pos spec) \<noteq> [] \<and>
        drop pos spec = take (i - pos) (drop pos spec) @ drop i spec \<and> drop i spec = percent # drop (Suc i) spec"
proof (cases "view_find_char spec pos")
  case None
  then have none: "pos \<le> i \<Longrightarrow> i < length spec \<Longrightarrow> spec ! i \<noteq> percent" for i by (auto simp: view_find_char_def find_None_iff)
  have "last spec \<noteq> percent" using none [of "length spec - 1"] assms(1) by (cases "spec = []") (auto simp: last_conv_nth)
  moreover have "percent \<notin> set (drop pos spec)" using none [of "pos + _"] by (auto simp: in_set_conv_nth)
  ultimately show ?thesis using None by simp
next
  case (Some i)
  note i = view_find_char_ge [OF Some]
  have "percent \<notin> set (take (i - pos) (drop pos spec))"
    using i(1,2) i(4) [of "pos + _"] by (auto simp: in_set_conv_nth)
  moreover have "drop i spec = percent # drop (Suc i) spec" using i by (metis Cons_nth_drop_Suc)
  moreover have "drop pos spec = take (i - pos) (drop pos spec) @ drop i spec"
    using i(1,2) append_take_drop_id [of "i - pos" "drop pos spec"] by simp
  moreover have "pos \<noteq> i" using i(3) assms(2) by auto
  ultimately show ?thesis using Some i(1,2) by simp
qed

lemma like_skip: "like (percent # drop pp spec) s \<longleftrightarrow> like (percent # drop (skip_percents spec pp) spec) s"
proof (induction spec pp rule: skip_percents.induct)
  case (1 spec pp)
  show ?case
  proof (cases "pp < length spec \<and> spec ! pp = percent")
    case True
    then have "drop pp spec = percent # drop (pp + 1) spec" by (metis Cons_nth_drop_Suc Suc_eq_plus1)
    then show ?thesis using "1.IH" True by (subst skip_percents.simps) simp
  qed (subst skip_percents.simps, auto)
qed

text \<open>The round at a position, with the percent signs skipped.\<close>

lemma scan_round:
  assumes "pp < length spec" "pos = skip_percents spec pp" "pos < length spec"
    and "token = (case view_find_char spec pos of None \<Rightarrow> drop pos spec | Some i \<Rightarrow> take (i - pos) (drop pos spec))"
  shows "scan_like_loop subj spec tp pp first =
    (let at_end = (\<lambda>e. last spec = percent \<or> e = length subj);
         next_round = (\<lambda>e. case view_find_char spec pos of None \<Rightarrow> at_end e | Some i \<Rightarrow> scan_like_loop subj spec e i False)
     in if first \<and> spec ! 0 \<noteq> percent then take (length token) subj = token \<and> next_round (length token)
        else (case find_token subj token tp of None \<Rightarrow> False | Some e \<Rightarrow> next_round e))"
proof -
  have "take (length token) subj = token \<longleftrightarrow> \<not> (length subj < length token \<or> \<not> memcmp_eq (length token) subj token)"
    by (auto simp: memcmp_token dest: arg_cong [where f = length])
  then show ?thesis
    using assms by (subst scan_like_loop.simps) (auto simp: Let_def split: option.splits)
qed

lemma scan_loop_search:
  assumes "spec \<noteq> []"
  shows "\<not> (first \<and> spec ! 0 \<noteq> percent) \<Longrightarrow> tp \<le> length subj \<Longrightarrow>
    (scan_like_loop subj spec tp pp first \<longrightarrow> like (percent # drop pp spec) (drop tp subj)) \<and>
    (last spec = percent \<longrightarrow> like (percent # drop pp spec) (drop tp subj) \<longrightarrow> scan_like_loop subj spec tp pp first)"
proof (induction "length spec - pp" arbitrary: pp tp first rule: less_induct)
  case less
  let ?pos = "skip_percents spec pp"
  consider (over) "length spec \<le> pp" | (rest) "pp < length spec" "length spec \<le> ?pos" | (token) "pp < length spec" "?pos < length spec"
    by linarith
  then show ?case
  proof cases
    case over
    then show ?thesis by (subst (1 2) scan_like_loop.simps) (auto simp: Let_def)
  next
    case rest
    then have "like (percent # drop pp spec) (drop tp subj)" using like_skip [of pp spec] by simp
    moreover have "scan_like_loop subj spec tp pp first" using rest by (subst scan_like_loop.simps) (simp add: Let_def)
    ultimately show ?thesis by simp
  next
    case token
    define t where "t = (case view_find_char spec ?pos of None \<Rightarrow> drop ?pos spec | Some i \<Rightarrow> take (i - ?pos) (drop ?pos spec))"
    note round = scan_round [OF token(1) refl token(2) t_def, of subj tp first, unfolded Let_def if_not_P [OF less.prems(1)]]
    note found = view_find_token [OF token(2) skip_percents_spec [OF token(2)]]
    show ?thesis
    proof (cases "view_find_char spec ?pos")
      case None
      then have t: "t = drop ?pos spec" "percent \<notin> set t" "last spec \<noteq> percent" using found by (simp_all add: t_def)
      have "like (percent # t) (drop tp subj)" if e: "find_token subj t tp = Some (length subj)"
      proof -
        obtain k where k: "tp \<le> k" "length subj = k + length t" "take (length t) (drop k subj) = t"
          using find_token_cases [where s = subj and t = t and m = tp] e by auto
        moreover have "drop k subj = t" using k(2,3) by (metis add_diff_cancel_left' length_drop take_all order_refl)
        ultimately have "like t (drop k subj)" using like_token [OF t(2), of "[]" t] by simp
        then show ?thesis unfolding like_percent using k by (intro exI [of _ "k - tp"]) simp
      qed
      then show ?thesis using None t round like_skip [of pp spec] by (auto split: option.splits)
    next
      case (Some i)
      then have t: "percent \<notin> set t" "t \<noteq> []" "drop ?pos spec = t @ percent # drop (Suc i) spec" "drop i spec = percent # drop (Suc i) spec"
        using found unfolding t_def Some option.case by metis+
      have i: "pp < i" "i < length spec" using skip_percents_less [OF Some token(2)] view_find_char_ge(2) [OF Some] by simp_all
      have whole: "like (percent # drop pp spec) (drop tp subj) \<longleftrightarrow> like (percent # t @ percent # drop (Suc i) spec) (drop tp subj)"
        using like_skip [of pp spec] t(3) by simp
      note search = like_search [OF t(1) less.prems(2), of "drop (Suc i) spec"]
      show ?thesis
      proof (cases "find_token subj t tp")
        case None
        then show ?thesis using round search t(2) unfolding whole by simp
      next
        case (Some e)
        have "length spec - i < length spec - pp" using i by simp
        from less.hyps [OF this, of False e] Some search have
          "(scan_like_loop subj spec e i False \<longrightarrow> like (percent # drop i spec) (drop e subj)) \<and>
           (last spec = percent \<longrightarrow> like (percent # drop i spec) (drop e subj) \<longrightarrow> scan_like_loop subj spec e i False)" by simp
        then show ?thesis using round search Some \<open>view_find_char spec ?pos = Some i\<close> unfolding whole t(4) by simp
      qed
    qed
  qed
qed

lemma like_self: "percent \<notin> set t \<Longrightarrow> like t s \<longleftrightarrow> s = t"
  using like_token [of t "[]" s] by auto

text \<open>The first token of a pattern that does not start with a percent sign stands at the start of the text.\<close>

lemma scan_loop_anchored:
  assumes "spec \<noteq> []" "spec ! 0 \<noteq> percent"
  shows "(scan_like_loop subj spec 0 0 True \<longrightarrow> like spec subj) \<and>
    (last spec = percent \<or> percent \<notin> set spec \<longrightarrow> like spec subj \<longrightarrow> scan_like_loop subj spec 0 0 True)"
proof -
  have pos: "skip_percents spec 0 = 0" "0 < length spec" using assms by (simp_all add: skip_percents.simps [of spec 0])
  define t where "t = (case view_find_char spec 0 of None \<Rightarrow> drop 0 spec | Some i \<Rightarrow> take (i - 0) (drop 0 spec))"
  have round: "scan_like_loop subj spec 0 0 True \<longleftrightarrow>
    take (length t) subj = t \<and> (case view_find_char spec 0 of None \<Rightarrow> last spec = percent \<or> length t = length subj
      | Some i \<Rightarrow> scan_like_loop subj spec (length t) i False)"
    using scan_round [OF pos(2) pos(1) [symmetric] pos(2) t_def, of subj 0 True] assms(2) unfolding Let_def by simp
  note found = view_find_token [OF pos(2) assms(2)]
  show ?thesis
  proof (cases "view_find_char spec 0")
    case None
    then have "t = spec" "percent \<notin> set spec" "last spec \<noteq> percent" using found by (simp_all add: t_def)
    then show ?thesis using round None like_self [of spec subj] by auto
  next
    case (Some i)
    then have t: "percent \<notin> set t" "spec = t @ drop i spec" "drop i spec = percent # drop (Suc i) spec"
      using found unfolding t_def Some option.case drop_0 diff_zero by metis+
    then have has: "percent \<in> set spec" by (metis in_set_conv_decomp)
    have whole: "like spec subj \<longleftrightarrow> take (length t) subj = t \<and> like (drop i spec) (drop (length t) subj)"
      using like_token [OF t(1), of "drop i spec" subj] t(2) by simp
    show ?thesis
    proof (cases "take (length t) subj = t")
      case True
      then have "length t \<le> length subj" by (metis length_take min.cobounded1)
      then show ?thesis
        using scan_loop_search [OF assms(1), of False "length t" subj i] round Some True whole has t(3) by simp
    qed (use round whole in simp)
  qed
qed

text \<open>C28: The LIKE matcher of the scan and the hash join never accepts a text that does not match. It decides
  exactly the patterns that end in a percent sign and those without one. For other patterns it can reject
  a matching text, because it takes the leftmost occurrence of the last token and then asks for the end:
  it says that 'abab' is not like '%ab'.\<close>

theorem scan_like_is_sound:
  "(ScanMatchPercentLikePattern (Some subj) (Some pattern) \<longrightarrow> like pattern subj) \<and>
   (pattern = [] \<or> last pattern = percent \<or> percent \<notin> set pattern \<longrightarrow> like pattern subj \<longrightarrow>
     ScanMatchPercentLikePattern (Some subj) (Some pattern)) \<and>
   \<not> ScanMatchPercentLikePattern (Some [97, 98, 97, 98]) (Some [percent, 97, 98]) \<and> like [percent, 97, 98] [97, 98, 97, 98]"
proof -
  have "(ScanMatchPercentLikePattern (Some subj) (Some pattern) \<longrightarrow> like pattern subj) \<and>
   (pattern = [] \<or> last pattern = percent \<or> percent \<notin> set pattern \<longrightarrow> like pattern subj \<longrightarrow>
     ScanMatchPercentLikePattern (Some subj) (Some pattern))"
  proof (cases "pattern = [] \<or> pattern = [percent]")
    case True
    then show ?thesis by (auto simp: ScanMatchPercentLikePattern_def)
  next
    case False
    then have scan: "ScanMatchPercentLikePattern (Some subj) (Some pattern) = scan_like_loop subj pattern 0 0 True"
      by (auto simp: ScanMatchPercentLikePattern_def)
    show ?thesis
    proof (cases "pattern ! 0 = percent")
      case True
      then have "pattern = percent # drop 1 pattern" using False by (cases pattern) auto
      then have "like (percent # pattern) subj \<longleftrightarrow> like pattern subj" "percent \<in> set pattern"
        by (metis like_percents, metis list.set_intros(1))
      then show ?thesis using scan_loop_search [of pattern True 0 subj 0] True False scan by simp
    next
      case False': False
      then show ?thesis using scan_loop_anchored [of pattern subj] False scan by simp
    qed
  qed
  moreover have "\<not> ScanMatchPercentLikePattern (Some [97, 98, 97, 98]) (Some [percent, 97, 98])"
    by code_simp
  moreover have "like [percent, 97, 98] [97, 98, 97, 98]"
    by (simp add: percent_def)
  ultimately show ?thesis by blast
qed

theorem scan_like_is_sound_witness:
  "ScanMatchPercentLikePattern (Some [66, 82, 65]) (Some [66, 37])"
  using scan_like_is_sound [of "[66, 82, 65]" "[66, 37]"] by (simp add: percent_def)

declare upt_Suc [simp]

end
