(* ===== verification/FilterExec.thy ===== *)
theory FilterExec
  imports JoinRows TaskRun Like
begin

text \<open>
  The filter, physical_filter.cpp: the steps of a predicate program, its two evaluators (one for a single
  comparison, one for a program over boolean registers), the copy of the input columns into the chunk the
  steps read, and Execute, which keeps the rows that pass and moves them together.
\<close>

section \<open>Predicate programs\<close>

datatype qual_op = Q_LE | Q_LT | Q_EQ | Q_GE | Q_GT | Q_NE

datatype filter_step_op =
    INT32_CMP_CONST | INT64_CMP_CONST | STRING_EQ_CONST | STRING_NE_CONST | STRING_PREFIX_LIKE
  | STRING_CONTAINS_LIKE | STRING_SQL_LIKE | BOOL_AND | BOOL_OR | BOOL_NOT | INT32_CMP_VAR | INT64_CMP_VAR

record filter_step =
  fs_op :: filter_step_op
  fs_cmp_op :: qual_op
  fs_left_idx :: nat
  fs_right_idx :: nat
  fs_out_bool_reg :: nat
  fs_const_offset :: u32
  fs_const_len :: u32
  fs_const_value :: u64

record filter_input =
  fi_attno :: nat
  fi_dst_col :: nat
  fi_decode_kind :: column_decode_kind
  fi_source_decode_kind :: column_decode_kind
  fi_numeric_scale :: nat

record filter_expr =
  fe_first_step_idx :: nat
  fe_n_steps :: nat
  fe_output_bool_reg :: nat

definition FILTER_MAX_BOOL_REGS :: nat where
  "FILTER_MAX_BOOL_REGS = 64"

text \<open>The constant strings follow each other in one buffer; a short constant sits in the step itself.\<close>

definition ResolveFilterConstPtr :: "filter_step \<Rightarrow> u8 list option \<Rightarrow> u8 list option" where
  "ResolveFilterConstPtr step string_consts =
     (if fs_const_len step = 0 then Some []
      else if fs_const_offset step = 0xFFFFFFFF then Some (le_bytes 8 (unat (fs_const_value step)))
      else map_option (drop (unat (fs_const_offset step))) string_consts)"

definition RequiredFilterBoolRegs :: "filter_expr list \<Rightarrow> nat" where
  "RequiredFilterBoolRegs exprs = fold (\<lambda>expr max_reg. max max_reg ((fe_output_bool_reg expr + 1) mod 65536)) exprs 0"

section \<open>Numeric comparison\<close>

definition PG_INT64_MAX :: int where
  "PG_INT64_MAX = 2 ^ 63 - 1"

fun pow10_loop :: "nat \<Rightarrow> int \<Rightarrow> int option" where
  "pow10_loop 0 v = Some v"
| "pow10_loop (Suc n) v = (if v > PG_INT64_MAX div 10 then None else pow10_loop n (v * 10))"

definition Pow10Int64Local :: "nat \<Rightarrow> int option" where
  "Pow10Int64Local exp = pow10_loop exp 1"

text \<open>The product is taken in 128 bits, which holds every product of two 64-bit values.\<close>

definition RescaleNumericForCompare :: "int \<Rightarrow> nat \<Rightarrow> nat \<Rightarrow> int option" where
  "RescaleNumericForCompare v from_scale to_scale =
     (if from_scale = to_scale then Some v
      else if from_scale > to_scale then None
      else Option.bind (Pow10Int64Local (to_scale - from_scale))
             (\<lambda>factor. if - (2 ^ 63) \<le> v * factor \<and> v * factor \<le> PG_INT64_MAX then Some (v * factor) else None))"

fun compare :: "qual_op \<Rightarrow> int \<Rightarrow> int \<Rightarrow> bool" where
  "compare Q_LE l r \<longleftrightarrow> l \<le> r"
| "compare Q_LT l r \<longleftrightarrow> l < r"
| "compare Q_EQ l r \<longleftrightarrow> l = r"
| "compare Q_GE l r \<longleftrightarrow> l \<ge> r"
| "compare Q_GT l r \<longleftrightarrow> l > r"
| "compare Q_NE l r \<longleftrightarrow> l \<noteq> r"

section \<open>The comparison steps\<close>

definition not_null :: "data_chunk \<Rightarrow> nat \<Rightarrow> nat \<Rightarrow> bool" where
  "not_null ch slot row \<longleftrightarrow> nulls ch slot row = 0"

definition numeric_input :: "filter_input list \<Rightarrow> nat \<Rightarrow> bool" where
  "numeric_input inputs i \<longleftrightarrow> i < length inputs \<and> fi_decode_kind (inputs ! i) = INT64_NUMERIC_SCALED"

definition compare_int64_vars :: "filter_step \<Rightarrow> filter_input list \<Rightarrow> data_chunk \<Rightarrow> nat \<Rightarrow> bool result" where
  "compare_int64_vars step inputs ch row =
     (let l = sint (get_int64 ch (fs_left_idx step) row); r = sint (get_int64 ch (fs_right_idx step) row)
      in if numeric_input inputs (fs_left_idx step) \<and> numeric_input inputs (fs_right_idx step)
         then let ls = fi_numeric_scale (inputs ! fs_left_idx step); rs = fi_numeric_scale (inputs ! fs_right_idx step);
                  target_scale = max ls rs
              in case (RescaleNumericForCompare l ls target_scale, RescaleNumericForCompare r rs target_scale) of
                   (Some l, Some r) \<Rightarrow> Inr (compare (fs_cmp_op step) l r)
                 | _ \<Rightarrow> Inl (Elog ''filter numeric compare rescale failed'')
         else Inr (compare (fs_cmp_op step) l r))"

definition string_equal :: "filter_step \<Rightarrow> data_chunk \<Rightarrow> u8 list option \<Rightarrow> nat \<Rightarrow> bool" where
  "string_equal step ch consts row =
     (let len = ref_len (get_string_ref ch (fs_left_idx step) row); lhs = get_string_ptr ch (fs_left_idx step) row;
          rhs = ResolveFilterConstPtr step consts
      in (lhs \<noteq> None \<or> len = 0) \<and> rhs \<noteq> None \<and> len = fs_const_len step \<and>
         (fs_const_len step = 0 \<or> memcmp_eq (unat (fs_const_len step)) (the lhs) (the rhs)))"

definition string_prefix_like :: "filter_step \<Rightarrow> data_chunk \<Rightarrow> u8 list option \<Rightarrow> nat \<Rightarrow> bool" where
  "string_prefix_like step ch consts row =
     (let ref = get_string_ref ch (fs_left_idx step) row; rhs = ResolveFilterConstPtr step consts; n = fs_const_len step
      in rhs \<noteq> None \<and> n \<le> ref_len ref \<and>
         (n = 0 \<or>
          (if n \<le> 8 then memcmp_eq (unat n) (le_bytes 8 (unat (ref_prefix ref))) (the rhs)
           else let lhs = get_string_ptr ch (fs_left_idx step) row
                in lhs \<noteq> None \<and> memcmp_eq (unat n) (the lhs) (the rhs))))"

definition string_contains_like :: "filter_step \<Rightarrow> data_chunk \<Rightarrow> u8 list option \<Rightarrow> nat \<Rightarrow> bool" where
  "string_contains_like step ch consts row =
     (let len = unat (ref_len (get_string_ref ch (fs_left_idx step) row)); lhs = get_string_ptr ch (fs_left_idx step) row;
          rhs = ResolveFilterConstPtr step consts; n = unat (fs_const_len step)
      in rhs \<noteq> None \<and> lhs \<noteq> None \<and> n \<le> len \<and>
         list_ex (\<lambda>start. memcmp_eq n (drop start (the lhs)) (the rhs)) [0..<len - n + 1])"

text \<open>
  The value of a step that compares columns, the same in both evaluators: false on a null operand.
  \<^verbatim>\<open>None\<close> for the steps on boolean registers.
\<close>

definition compare_step ::
  "filter_step \<Rightarrow> filter_input list \<Rightarrow> data_chunk \<Rightarrow> u8 list option \<Rightarrow> nat \<Rightarrow> bool result option" where
  "compare_step step inputs ch consts row =
     (let l = fs_left_idx step; r = fs_right_idx step;
          left = (\<lambda>v. Some (if not_null ch l row then v else Inr False));
          both = (\<lambda>v. Some (if not_null ch l row \<and> not_null ch r row then v else Inr False))
      in case fs_op step of
           INT32_CMP_CONST \<Rightarrow> left (Inr (compare (fs_cmp_op step) (sint (get_int32 ch l row)) (sint (ucast (fs_const_value step) :: u32))))
         | INT64_CMP_CONST \<Rightarrow> left (Inr (compare (fs_cmp_op step) (sint (get_int64 ch l row)) (sint (fs_const_value step))))
         | INT32_CMP_VAR \<Rightarrow> both (Inr (compare (fs_cmp_op step) (sint (get_int32 ch l row)) (sint (get_int32 ch r row))))
         | INT64_CMP_VAR \<Rightarrow> both (compare_int64_vars step inputs ch row)
         | STRING_EQ_CONST \<Rightarrow> left (Inr (string_equal step ch consts row))
         | STRING_NE_CONST \<Rightarrow> left (Inr (\<not> string_equal step ch consts row))
         | STRING_PREFIX_LIKE \<Rightarrow> left (Inr (string_prefix_like step ch consts row))
         | STRING_CONTAINS_LIKE \<Rightarrow> left (Inr (string_contains_like step ch consts row))
         | STRING_SQL_LIKE \<Rightarrow>
             left (Inr (MatchPercentLikePattern (get_string_ptr ch l row)
               (map_option (take (unat (fs_const_len step))) (ResolveFilterConstPtr step consts))))
         | _ \<Rightarrow> None)"

section \<open>The evaluators\<close>

definition EvalFilterStepAtRow ::
  "filter_step \<Rightarrow> filter_input list \<Rightarrow> data_chunk \<Rightarrow> u8 list option \<Rightarrow> nat \<Rightarrow> (nat \<Rightarrow> bool) \<Rightarrow> (nat \<Rightarrow> bool) result" where
  "EvalFilterStepAtRow step inputs ch consts row bools =
     rbind (case compare_step step inputs ch consts row of
              Some r \<Rightarrow> r
            | None \<Rightarrow>
                (case fs_op step of
                   BOOL_AND \<Rightarrow> Inr (bools (fs_left_idx step) \<and> bools (fs_right_idx step))
                 | BOOL_OR \<Rightarrow> Inr (bools (fs_left_idx step) \<or> bools (fs_right_idx step))
                 | BOOL_NOT \<Rightarrow> Inr (\<not> bools (fs_left_idx step))
                 | _ \<Rightarrow> Inl (Elog ''unsupported filter step op'')))
       (\<lambda>v. Inr (bools(fs_out_bool_reg step := v)))"

definition is_bool_op :: "filter_step_op \<Rightarrow> bool" where
  "is_bool_op op \<longleftrightarrow> op = BOOL_AND \<or> op = BOOL_OR \<or> op = BOOL_NOT"

definition IsSimpleFilterStep :: "filter_expr list \<Rightarrow> filter_step list \<Rightarrow> filter_step option" where
  "IsSimpleFilterStep exprs steps =
     (case exprs of
        [expr] \<Rightarrow>
          if fe_n_steps expr \<noteq> 1 \<or> fe_first_step_idx expr \<ge> length steps then None
          else let step = steps ! fe_first_step_idx expr
               in if fe_output_bool_reg expr \<noteq> fs_out_bool_reg step then None
                  else if is_bool_op (fs_op step) then None else Some step
      | _ \<Rightarrow> None)"

definition EvalSimpleFilterStepAtRow ::
  "filter_step \<Rightarrow> filter_input list \<Rightarrow> data_chunk \<Rightarrow> u8 list option \<Rightarrow> nat \<Rightarrow> bool result" where
  "EvalSimpleFilterStepAtRow step inputs ch consts row =
     (case compare_step step inputs ch consts row of Some r \<Rightarrow> r | None \<Rightarrow> Inr False)"

text \<open>
  The loop over the expressions of a row: the first one that is false ends it. The registers outlive the
  row; the row's evaluation clears those that expressions end in.
\<close>

fun eval_exprs ::
  "filter_step list \<Rightarrow> filter_input list \<Rightarrow> data_chunk \<Rightarrow> u8 list option \<Rightarrow> nat \<Rightarrow> filter_expr list \<Rightarrow> (nat \<Rightarrow> bool) \<Rightarrow>
   (bool \<times> (nat \<Rightarrow> bool)) result" where
  "eval_exprs steps inputs ch consts row [] bools = Inr (True, bools)"
| "eval_exprs steps inputs ch consts row (expr # exprs) bools =
     (let expr_end = (fe_first_step_idx expr + fe_n_steps expr) mod 65536
      in if expr_end > length steps then Inl (Elog ''filter expression step range overflow'')
         else rbind (fold_res (\<lambda>i bools. EvalFilterStepAtRow (steps ! i) inputs ch consts row bools) [fe_first_step_idx expr..<expr_end] bools)
                (\<lambda>bools. if fe_output_bool_reg expr \<ge> FILTER_MAX_BOOL_REGS \<or> \<not> bools (fe_output_bool_reg expr) then Inr (False, bools)
                         else eval_exprs steps inputs ch consts row exprs bools))"

record physical_filter =
  pf_inputs :: "filter_input list"
  pf_exprs :: "filter_expr list"
  pf_steps :: "filter_step list"
  pf_string_consts :: "u8 list"

definition string_consts_ptr :: "physical_filter \<Rightarrow> u8 list option" where
  "string_consts_ptr pf = (if pf_string_consts pf = [] then None else Some (pf_string_consts pf))"

definition eval_row :: "physical_filter \<Rightarrow> data_chunk \<Rightarrow> nat \<Rightarrow> (nat \<Rightarrow> bool) \<Rightarrow> (bool \<times> (nat \<Rightarrow> bool)) result" where
  "eval_row pf ch row bools =
     (case IsSimpleFilterStep (pf_exprs pf) (pf_steps pf) of
        Some step \<Rightarrow> rbind (EvalSimpleFilterStepAtRow step (pf_inputs pf) ch (string_consts_ptr pf) row) (\<lambda>v. Inr (v, bools))
      | None \<Rightarrow> eval_exprs (pf_steps pf) (pf_inputs pf) ch (string_consts_ptr pf) row (pf_exprs pf)
                  (\<lambda>reg. RequiredFilterBoolRegs (pf_exprs pf) \<le> reg \<and> bools reg))"

text \<open>The row loop: the indices of the rows that pass, in order.\<close>

fun select_rows :: "physical_filter \<Rightarrow> data_chunk \<Rightarrow> nat list \<Rightarrow> (nat \<Rightarrow> bool) \<Rightarrow> (nat list \<times> (nat \<Rightarrow> bool)) result" where
  "select_rows pf ch [] bools = Inr ([], bools)"
| "select_rows pf ch (row # rows) bools =
     rbind (eval_row pf ch row bools) (\<lambda>(pass, bools).
     rbind (select_rows pf ch rows bools) (\<lambda>(selected, bools).
       Inr (if pass then row # selected else selected, bools)))"

section \<open>The filter's chunk\<close>

definition is_int32_kind :: "column_decode_kind \<Rightarrow> bool" where
  "is_int32_kind k \<longleftrightarrow> k = INT32_INT4 \<or> k = INT32_CHAR \<or> k = INT32_DATE"

text \<open>The scale factor is a 64-bit product.\<close>

definition scale_factor :: "nat \<Rightarrow> u64" where
  "scale_factor scale = fold (\<lambda>_ factor. factor * 10) [0..<scale] 1"

definition populate_cell :: "data_chunk \<Rightarrow> filter_input \<Rightarrow> nat \<Rightarrow> data_chunk \<Rightarrow> data_chunk result" where
  "populate_cell src_chunk input row fc =
     (let src = (if fi_attno input > 0 then (fi_attno input - 1) mod 256 else fi_dst_col input); dst = fi_dst_col input;
          fc = set_null dst row (nulls src_chunk src row) fc;
          put64 = (\<lambda>v. Inr (fc\<lparr>int64_class := set_cell dst row v (int64_class fc)\<rparr>));
          from_int32 = is_int32_kind (fi_source_decode_kind input);
          int32_val = (scast (get_int32 src_chunk src row) :: u64); int64_val = get_int64 src_chunk src row;
          factor = scale_factor (fi_numeric_scale input)
      in if nulls src_chunk src row \<noteq> 0 then Inr fc
         else if is_int32_kind (fi_decode_kind input)
         then Inr (fc\<lparr>int32_class := set_cell dst row (get_int32 src_chunk src row) (int32_class fc)\<rparr>)
         else (case fi_decode_kind input of
           INT64_INT8 \<Rightarrow> put64 (if from_int32 then int32_val else int64_val)
         | INT64_NUMERIC_SCALED \<Rightarrow>
             put64 (if from_int32 then int32_val * factor
                    else if fi_source_decode_kind input = INT64_INT8 then int64_val * factor else int64_val)
         | DECODE_STRING_REF \<Rightarrow>
             rbind (store_string_bytes (get_string_ptr src_chunk src row) (ref_len (get_string_ref src_chunk src row)) fc)
               (\<lambda>(ref, fc). Inr (fc\<lparr>string_class := set_cell dst row ref (string_class fc)\<rparr>))
         | _ \<Rightarrow> Inl (Elog ''unsupported filter decode kind'')))"

definition PopulateFilterChunk :: "filter_input list \<Rightarrow> data_chunk \<Rightarrow> data_chunk \<Rightarrow> data_chunk result" where
  "PopulateFilterChunk inputs src_chunk fc =
     fold_res (\<lambda>input. fold_res (populate_cell src_chunk input) [0..<chunk_count src_chunk]) inputs
       ((reset_lightweight fc)\<lparr>chunk_count := chunk_count src_chunk\<rparr>)"

section \<open>Execute\<close>

text \<open>Moving a row to a lower index, in all sixteen slots of each class.\<close>

definition copy_row_class :: "nat \<Rightarrow> nat \<Rightarrow> 'a column_class \<Rightarrow> 'a column_class" where
  "copy_row_class from to cc = fold (\<lambda>slot cc. set_cell slot to (cells cc slot from) cc) [0..<N_SLOTS] cc"

definition copy_row :: "nat \<Rightarrow> nat \<Rightarrow> data_chunk \<Rightarrow> data_chunk" where
  "copy_row from to ch =
     fold (\<lambda>slot ch. set_null slot to (nulls ch slot from) ch) [0..<N_SLOTS]
       (ch\<lparr>double_class := copy_row_class from to (double_class ch), int64_class := copy_row_class from to (int64_class ch),
          int32_class := copy_row_class from to (int32_class ch), string_class := copy_row_class from to (string_class ch)\<rparr>)"

definition CompactSelectedRows :: "nat list \<Rightarrow> data_chunk \<Rightarrow> data_chunk" where
  "CompactSelectedRows selected_rows out =
     (if length selected_rows = chunk_count out then out
      else (fold (\<lambda>(write_idx, row) out. if write_idx = row then out else copy_row row write_idx out)
              (enumerate 0 selected_rows) out)\<lparr>chunk_count := length selected_rows\<rparr>)"

record filter_state =
  ft_drained :: bool
  ft_filter_chunk :: data_chunk
  ft_bool_values :: "nat \<Rightarrow> bool"

definition FilterExecute :: "physical_filter \<Rightarrow> data_chunk \<Rightarrow> data_chunk \<Rightarrow> filter_state \<Rightarrow>
    (data_chunk \<times> operator_result \<times> filter_state) result" where
  "FilterExecute pf input out st =
     (if ft_drained st then Inr (chunk_reset out, OP_NEED_MORE_INPUT, st\<lparr>ft_drained := False\<rparr>)
      else let out = (if has_any_dictionary input then flatten input else input)
           in if pf_exprs pf = []
              then Inr (out, if 0 < chunk_count out then OP_HAVE_MORE_OUTPUT else OP_NEED_MORE_INPUT,
                        st\<lparr>ft_drained := 0 < chunk_count out\<rparr>)
              else rbind (PopulateFilterChunk (pf_inputs pf) out (ft_filter_chunk st)) (\<lambda>fc.
                   rbind (select_rows pf fc [0..<chunk_count out] (ft_bool_values st)) (\<lambda>(selected, bools).
                     let st = st\<lparr>ft_filter_chunk := fc, ft_bool_values := bools\<rparr>
                     in if selected = [] then Inr (chunk_reset out, OP_NEED_MORE_INPUT, st)
                        else let out = CompactSelectedRows selected out
                             in Inr (out, OP_HAVE_MORE_OUTPUT, st\<lparr>ft_drained := 0 < chunk_count out\<rparr>))))"


section \<open>The copied inputs\<close>

lemma fold_res_product:
  "fold_res (\<lambda>x. fold_res (f x) ys) xs s = fold_res (\<lambda>(x, y). f x y) (List.product xs ys) s"
proof (induction xs arbitrary: s)
  case (Cons x xs)
  have "fold_res (\<lambda>(x, y). f x y) (map (Pair x) ys) s = fold_res (f x) ys s" for s
    by (induction ys arbitrary: s) (auto intro!: arg_cong [where f = "rbind _"] ext)
  then show ?case using Cons.IH by (cases "fold_res (f x) ys s") (simp_all add: fold_res_append)
qed simp

definition src_slot :: "filter_input \<Rightarrow> nat" where
  "src_slot input = (if fi_attno input > 0 then (fi_attno input - 1) mod 256 else fi_dst_col input)"

text \<open>The value the steps should see: the column's, widened and scaled as the input asks.\<close>

definition input_value :: "data_chunk \<Rightarrow> filter_input \<Rightarrow> nat \<Rightarrow> gval" where
  "input_value src input row =
     (let s = src_slot input; factor = 10 ^ fi_numeric_scale input; narrow = is_int32_kind (fi_source_decode_kind input)
      in case fi_decode_kind input of
           INT64_INT8 \<Rightarrow> GInt64 (if narrow then scast (get_int32 src s row) else get_int64 src s row)
         | INT64_NUMERIC_SCALED \<Rightarrow>
             GInt64 (if narrow then scast (get_int32 src s row) * factor
                     else if fi_source_decode_kind input = INT64_INT8 then get_int64 src s row * factor else get_int64 src s row)
         | DECODE_STRING_REF \<Rightarrow> GString (ref_string (string_arena src) (get_string_ref src s row))
         | _ \<Rightarrow> GInt32 (get_int32 src s row))"

definition supported_kind :: "column_decode_kind \<Rightarrow> bool" where
  "supported_kind k \<longleftrightarrow> is_int32_kind k \<or> k = INT64_INT8 \<or> k = INT64_NUMERIC_SCALED \<or> k = DECODE_STRING_REF"

definition input_ok :: "data_chunk \<Rightarrow> filter_input \<times> nat \<Rightarrow> bool" where
  "input_ok src ir \<longleftrightarrow> (case ir of (input, row) \<Rightarrow> fi_dst_col input < N_SLOTS \<and> supported_kind (fi_decode_kind input) \<and>
     (fi_decode_kind input = DECODE_STRING_REF \<longrightarrow>
        short_ref (string_arena src) (length (string_arena src)) (get_string_ref src (src_slot input) row)))"

definition cell_populated :: "data_chunk \<Rightarrow> data_chunk \<Rightarrow> filter_input \<times> nat \<Rightarrow> bool" where
  "cell_populated src fc ir \<longleftrightarrow> (case ir of (input, row) \<Rightarrow>
     nulls fc (fi_dst_col input) row = nulls src (src_slot input) row \<and>
     (nulls src (src_slot input) row = 0 \<longrightarrow>
        slot_val (the (ColumnDecodeKindToTdcKind (fi_decode_kind input))) fc (fi_dst_col input) row = input_value src input row \<and>
        (fi_decode_kind input = DECODE_STRING_REF \<longrightarrow>
           ref_ok (string_arena fc) (length (string_arena fc)) (get_string_ref fc (fi_dst_col input) row))))"

lemma scale_factor: "scale_factor n = 10 ^ n"
  by (induction n) (simp_all add: scale_factor_def)

definition cell_step :: "data_chunk \<Rightarrow> filter_input \<times> nat \<Rightarrow> data_chunk \<Rightarrow> data_chunk \<Rightarrow> bool" where
  "cell_step src ir fc fc' \<longleftrightarrow>
     plain_slots fc' \<and> chunk_count fc' = chunk_count fc \<and> length (string_arena fc') \<le> length (string_arena fc) + 65536 \<and>
     cell_populated src fc' ir \<and>
     (\<forall>ir'. fi_dst_col (fst ir') \<noteq> fi_dst_col (fst ir) \<or> snd ir' \<noteq> snd ir \<longrightarrow> input_ok src ir' \<longrightarrow> cell_populated src fc ir' \<longrightarrow>
        cell_populated src fc' ir')"

lemma cell_populated_frame:
  assumes "plain_slots fc" "plain_slots fc'" "input_ok src (input, row)" "cell_populated src fc (input, row)"
    and "string_arena fc' = string_arena fc @ ext" "nulls fc' (fi_dst_col input) row = nulls fc (fi_dst_col input) row"
    and "cells (int32_class fc') (fi_dst_col input) row = cells (int32_class fc) (fi_dst_col input) row"
    and "cells (int64_class fc') (fi_dst_col input) row = cells (int64_class fc) (fi_dst_col input) row"
    and "cells (string_class fc') (fi_dst_col input) row = cells (string_class fc) (fi_dst_col input) row"
  shows "cell_populated src fc' (input, row)"
proof -
  have d: "fi_dst_col input < N_SLOTS" "supported_kind (fi_decode_kind input)" using assms(3) by (auto simp: input_ok_def)
  have get: "get_int32 fc' (fi_dst_col input) row = get_int32 fc (fi_dst_col input) row"
    "get_int64 fc' (fi_dst_col input) row = get_int64 fc (fi_dst_col input) row"
    "get_string_ref fc' (fi_dst_col input) row = get_string_ref fc (fi_dst_col input) row"
    using d(1) assms by (simp_all add: plain_slots_def class_defs)
  note kept = string_cell_kept [of "string_arena fc" "get_string_ref fc (fi_dst_col input) row" ext]
  show ?thesis using assms(4-6) d(2) get kept
    by (cases "fi_decode_kind input") (simp_all add: cell_populated_def supported_kind_def is_int32_kind_def)
qed

lemma populate_cell_ok:
  assumes "plain_slots fc" "input_ok src (input, row)" and arena: "length (string_arena fc) + 65536 < 2 ^ 32 - 1"
  shows "\<exists>fc'. populate_cell src input row fc = Inr fc' \<and> cell_step src (input, row) fc fc'"
proof (cases "nulls src (src_slot input) row = 0 \<and> fi_decode_kind input = DECODE_STRING_REF")
  case True
  let ?ref = "get_string_ref src (src_slot input) row"
  have short: "unat (ref_len ?ref) = length (ref_string (string_arena src) ?ref)" "length (ref_string (string_arena src) ?ref) \<le> 65536"
    using assms(2) True length_ref_string by (auto simp: input_ok_def short_ref_def)
  let ?fc = "set_null (fi_dst_col input) row 0 fc"
  have fc: "string_arena ?fc = string_arena fc" by (simp add: set_null_def)
  obtain r ext where r: "store_string_bytes (Some (ref_string (string_arena src) ?ref)) (ref_len ?ref) ?fc = Inr (r, ?fc\<lparr>string_arena := string_arena fc @ ext\<rparr>)"
    "length ext \<le> 65536" "ref_ok (string_arena fc @ ext) (length (string_arena fc @ ext)) r"
    "ref_string (string_arena fc @ ext) r = ref_string (string_arena src) ?ref"
    using store_string_ok [OF short, of ?fc] arena short(2) unfolding fc by force
  let ?fc' = "?fc\<lparr>string_arena := string_arena fc @ ext, string_class := set_cell (fi_dst_col input) row r (string_class fc)\<rparr>"
  have ptr: "get_string_ptr src (src_slot input) row = Some (ref_string (string_arena src) ?ref)"
    by (simp add: get_string_ptr_def)
  have "populate_cell src input row fc = Inr ?fc'"
    using True r(1) ptr by (simp add: populate_cell_def Let_def src_slot_def [symmetric] is_int32_kind_def set_null_def)
  moreover have "cell_step src (input, row) fc ?fc'"
    unfolding cell_step_def
  proof (intro conjI)
    show plain: "plain_slots ?fc'" using assms(1) by (auto simp: plain_slots_def set_null_def set_cell_def)
    show "cell_populated src ?fc' (input, row)" using assms True r(3,4)
      by (auto simp: cell_populated_def plain_slots_def class_defs input_ok_def input_value_def Let_def)
    have "cell_populated src ?fc' (i, k)" if "fi_dst_col i \<noteq> fi_dst_col input \<or> k \<noteq> row" "input_ok src (i, k)" "cell_populated src fc (i, k)" for i k
      using that by (intro cell_populated_frame [OF assms(1) plain that(2,3)]) (auto simp: set_null_def set_cell_def)
    then show "\<forall>ir'. fi_dst_col (fst ir') \<noteq> fi_dst_col (fst (input, row)) \<or> snd ir' \<noteq> snd (input, row) \<longrightarrow> input_ok src ir' \<longrightarrow>
        cell_populated src fc ir' \<longrightarrow> cell_populated src ?fc' ir'" by auto
  qed (use r(2) in \<open>simp_all add: set_null_def\<close>)
  ultimately show ?thesis by blast
next
  case False
  let ?fc = "\<lambda>v. case v of GInt32 w \<Rightarrow> put_int32 (fi_dst_col input) row fc (w, 0) | GInt64 w \<Rightarrow> put_int64 (fi_dst_col input) row fc (w, 0)"
  have "populate_cell src input row fc = Inr (if nulls src (src_slot input) row = 0 then ?fc (input_value src input row)
      else set_null (fi_dst_col input) row (nulls src (src_slot input) row) fc)"
    using False assms(2) by (cases "fi_decode_kind input") (auto simp: populate_cell_def Let_def src_slot_def [symmetric] is_int32_kind_def input_value_def
        scale_factor input_ok_def supported_kind_def put_int32_def put_int64_def set_null_def)
  moreover have "cell_step src (input, row) fc (if nulls src (src_slot input) row = 0 then ?fc (input_value src input row)
      else set_null (fi_dst_col input) row (nulls src (src_slot input) row) fc)"
    using assms(1,2) False by (cases "fi_decode_kind input") (auto simp: cell_step_def cell_populated_def plain_slots_def class_defs slot_val_case
        input_ok_def put_int32_def put_int64_def input_value_def is_int32_kind_def supported_kind_def Let_def split: tdc_column_kind.splits)
  ultimately show ?thesis by blast
qed


lemma populate_cells:
  "plain_slots fc \<Longrightarrow> list_all (input_ok src) irs \<Longrightarrow> distinct (map (\<lambda>(input, row). (fi_dst_col input, row)) irs) \<Longrightarrow>
   length (string_arena fc) + 65536 * length irs < 2 ^ 32 - 1 \<Longrightarrow>
   \<exists>fc'. fold_res (\<lambda>(input, row). populate_cell src input row) irs fc = Inr fc' \<and> plain_slots fc' \<and> chunk_count fc' = chunk_count fc \<and>
     list_all (cell_populated src fc') irs \<and>
     (\<forall>input row. (fi_dst_col input, row) \<notin> set (map (\<lambda>(input, row). (fi_dst_col input, row)) irs) \<longrightarrow> input_ok src (input, row) \<longrightarrow>
        cell_populated src fc (input, row) \<longrightarrow> cell_populated src fc' (input, row))"
proof (induction irs arbitrary: fc)
  case (Cons ir irs)
  obtain input row where ir: "ir = (input, row)" by (cases ir)
  obtain fc1 where fc1: "populate_cell src input row fc = Inr fc1" "cell_step src (input, row) fc fc1"
    using populate_cell_ok [of fc src input row] Cons.prems ir by auto
  have "plain_slots fc1" "length (string_arena fc1) + 65536 * length irs < 2 ^ 32 - 1" "chunk_count fc1 = chunk_count fc"
    using fc1(2) Cons.prems(4) by (auto simp: cell_step_def)
  moreover obtain fc2 where fc2: "fold_res (\<lambda>(input, row). populate_cell src input row) irs fc1 = Inr fc2" "plain_slots fc2"
    "chunk_count fc2 = chunk_count fc1" "list_all (cell_populated src fc2) irs"
    "\<forall>input row. (fi_dst_col input, row) \<notin> set (map (\<lambda>(input, row). (fi_dst_col input, row)) irs) \<longrightarrow> input_ok src (input, row) \<longrightarrow>
        cell_populated src fc1 (input, row) \<longrightarrow> cell_populated src fc2 (input, row)"
    using Cons.IH [OF calculation(1) _ _ calculation(2)] Cons.prems by auto
  moreover have "cell_populated src fc2 (input, row)"
    using fc2(5) fc1(2) Cons.prems(2,3) ir by (auto simp: cell_step_def)
  moreover have "cell_populated src fc1 (i, r)" if "(fi_dst_col i, r) \<noteq> (fi_dst_col input, row)" "input_ok src (i, r)" "cell_populated src fc (i, r)" for i r
    using fc1(2) that unfolding cell_step_def by (metis fst_conv snd_conv)
  ultimately show ?case using fc1(1) ir by auto
qed simp

lemma cleared_class: "s < N_SLOTS \<Longrightarrow> \<not> dict_active (clear_dictionaries_class cc) s"
proof -
  have "dict_active (fold clear_dictionary [0..<k] cc) s = (k \<le> s \<and> dict_active cc s)" for k
    by (induction k) (auto simp: clear_dictionary_def)
  then show "s < N_SLOTS \<Longrightarrow> \<not> dict_active (clear_dictionaries_class cc) s" by (simp add: clear_dictionaries_class_def)
qed

lemma PopulateFilterChunk_reads:
  assumes "distinct (map fi_dst_col inputs)" "list_all (\<lambda>input. list_all (\<lambda>row. input_ok src (input, row)) [0..<chunk_count src]) inputs"
    and "65536 * length inputs * chunk_count src < 2 ^ 32 - 1"
  shows "\<exists>fc'. PopulateFilterChunk inputs src fc = Inr fc' \<and>
    list_all (\<lambda>input. list_all (\<lambda>row. cell_populated src fc' (input, row)) [0..<chunk_count src]) inputs"
proof -
  let ?irs = "List.product inputs [0..<chunk_count src]" and ?fc = "(reset_lightweight fc)\<lparr>chunk_count := chunk_count src\<rparr>"
  have "plain_slots ?fc" by (simp add: cleared_class plain_slots_def reset_lightweight_def clear_dictionaries_def)
  moreover have "list_all (input_ok src) ?irs" using assms(2) by (auto simp: list_all_iff)
  moreover have "map (\<lambda>(input, row). (fi_dst_col input, row)) ?irs = List.product (map fi_dst_col inputs) [0..<chunk_count src]"
    by (induction inputs) simp_all
  then have "distinct (map (\<lambda>(input, row). (fi_dst_col input, row)) ?irs)" using assms(1) by (simp add: distinct_product)
  moreover have "string_arena ?fc = []" by (simp add: reset_lightweight_def)
  then have "length (string_arena ?fc) + 65536 * length ?irs < 2 ^ 32 - 1" using assms(3) by (simp add: mult.assoc)
  ultimately obtain fc' where "fold_res (\<lambda>(input, row). populate_cell src input row) ?irs ?fc = Inr fc'" "list_all (cell_populated src fc') ?irs"
    using populate_cells [of ?fc src ?irs] by blast
  then show ?thesis by (auto simp: PopulateFilterChunk_def fold_res_product list_all_iff)
qed

text \<open>The chunk that the steps of a filter read holds, row by row, the null flags of the input columns and, where they
  are not null, their values: unchanged, widened to 64 bits, or scaled with 64-bit wrap-around; strings byte for byte.\<close>

theorem filter_reads_its_inputs:
  assumes "distinct (map fi_dst_col inputs)" "list_all (\<lambda>input. list_all (\<lambda>row. input_ok src (input, row)) [0..<chunk_count src]) inputs"
    and "65536 * length inputs * chunk_count src < 2 ^ 32 - 1"
  shows "\<exists>fc'. PopulateFilterChunk inputs src fc = Inr fc' \<and>
    list_all (\<lambda>input. list_all (\<lambda>row. cell_populated src fc' (input, row)) [0..<chunk_count src]) inputs"
  using PopulateFilterChunk_reads [OF assms] .

text \<open>The filter \<open>c > 5 AND c <> 9\<close> on an integer column.\<close>

definition demo_cmp :: "qual_op \<Rightarrow> u64 \<Rightarrow> nat \<Rightarrow> filter_step" where
  "demo_cmp cmp const reg = \<lparr>fs_op = INT32_CMP_CONST, fs_cmp_op = cmp, fs_left_idx = 0, fs_right_idx = 0, fs_out_bool_reg = reg,
     fs_const_offset = 0xFFFFFFFF, fs_const_len = 0, fs_const_value = const\<rparr>"

definition demo_inputs :: "filter_input list" where
  "demo_inputs = [\<lparr>fi_attno = 1, fi_dst_col = 0, fi_decode_kind = INT32_INT4, fi_source_decode_kind = INT32_INT4, fi_numeric_scale = 0\<rparr>,
     \<lparr>fi_attno = 1, fi_dst_col = 1, fi_decode_kind = INT64_NUMERIC_SCALED, fi_source_decode_kind = INT32_INT4, fi_numeric_scale = 2\<rparr>]"

definition demo_filter :: physical_filter where
  "demo_filter = \<lparr>pf_inputs = demo_inputs,
     pf_exprs = [\<lparr>fe_first_step_idx = 0, fe_n_steps = 3, fe_output_bool_reg = 2\<rparr>],
     pf_steps = [demo_cmp Q_GT 5 0, demo_cmp Q_NE 9 1,
       (demo_cmp Q_EQ 0 2)\<lparr>fs_op := BOOL_AND, fs_right_idx := 1\<rparr>],
     pf_string_consts = []\<rparr>"

definition demo_input :: data_chunk where
  "demo_input = empty_chunk\<lparr>chunk_count := 4,
     int32_class := (plain_class 0)\<lparr>cells := (\<lambda>slot row. word_of_nat ([3, 7, 9, 8] ! row))\<rparr>\<rparr>"

definition idle_filter :: filter_state where
  "idle_filter = \<lparr>ft_drained = False, ft_filter_chunk = empty_chunk, ft_bool_values = (\<lambda>_. False)\<rparr>"

section \<open>Well-formed programs\<close>

text \<open>
  The type system of filter programs: every step of an expression reads only registers that an earlier
  step of the expression wrote, registers fit the array, and numeric columns are compared at one scale.
\<close>

definition step_reads :: "filter_step \<Rightarrow> nat list" where
  "step_reads step =
     (case fs_op step of BOOL_AND \<Rightarrow> [fs_left_idx step, fs_right_idx step]
      | BOOL_OR \<Rightarrow> [fs_left_idx step, fs_right_idx step] | BOOL_NOT \<Rightarrow> [fs_left_idx step] | _ \<Rightarrow> [])"

definition same_scale :: "filter_input list \<Rightarrow> filter_step \<Rightarrow> bool" where
  "same_scale inputs step \<longleftrightarrow>
     \<not> (fs_op step = INT64_CMP_VAR \<and> numeric_input inputs (fs_left_idx step) \<and> numeric_input inputs (fs_right_idx step) \<and>
        fi_numeric_scale (inputs ! fs_left_idx step) \<noteq> fi_numeric_scale (inputs ! fs_right_idx step))"

fun typed_steps :: "filter_input list \<Rightarrow> nat list \<Rightarrow> filter_step list \<Rightarrow> bool" where
  "typed_steps inputs regs [] \<longleftrightarrow> True"
| "typed_steps inputs regs (step # steps) \<longleftrightarrow>
     list_all (\<lambda>r. r \<in> set regs) (step_reads step) \<and> fs_out_bool_reg step < FILTER_MAX_BOOL_REGS \<and> same_scale inputs step \<and>
     typed_steps inputs (fs_out_bool_reg step # regs) steps"

definition expr_steps :: "filter_step list \<Rightarrow> filter_expr \<Rightarrow> filter_step list" where
  "expr_steps steps expr = take (fe_n_steps expr) (drop (fe_first_step_idx expr) steps)"

definition typed_expr :: "filter_input list \<Rightarrow> filter_step list \<Rightarrow> filter_expr \<Rightarrow> bool" where
  "typed_expr inputs steps expr \<longleftrightarrow>
     fe_first_step_idx expr + fe_n_steps expr \<le> length steps \<and> fe_first_step_idx expr + fe_n_steps expr < 65536 \<and>
     typed_steps inputs [] (expr_steps steps expr) \<and>
     fe_output_bool_reg expr \<in> set (map fs_out_bool_reg (expr_steps steps expr))"

definition typed_filter :: "physical_filter \<Rightarrow> bool" where
  "typed_filter pf \<longleftrightarrow> list_all (typed_expr (pf_inputs pf) (pf_steps pf)) (pf_exprs pf)"

text \<open>
  What a program means: a register holds the value of the last step that wrote it, a comparison what
  its operands say. The steps are given last first.
\<close>

definition cmp_value :: "filter_input list \<Rightarrow> data_chunk \<Rightarrow> u8 list option \<Rightarrow> nat \<Rightarrow> filter_step \<Rightarrow> bool" where
  "cmp_value inputs ch consts row step \<longleftrightarrow> compare_step step inputs ch consts row = Some (Inr True)"

fun reg_value :: "(filter_step \<Rightarrow> bool) \<Rightarrow> filter_step list \<Rightarrow> nat \<Rightarrow> bool" where
  "reg_value cmp [] r \<longleftrightarrow> False"
| "reg_value cmp (step # before) r \<longleftrightarrow>
     (if fs_out_bool_reg step = r
      then (case fs_op step of
              BOOL_AND \<Rightarrow> reg_value cmp before (fs_left_idx step) \<and> reg_value cmp before (fs_right_idx step)
            | BOOL_OR \<Rightarrow> reg_value cmp before (fs_left_idx step) \<or> reg_value cmp before (fs_right_idx step)
            | BOOL_NOT \<Rightarrow> \<not> reg_value cmp before (fs_left_idx step)
            | _ \<Rightarrow> cmp step)
      else reg_value cmp before r)"

definition verdict :: "physical_filter \<Rightarrow> data_chunk \<Rightarrow> nat \<Rightarrow> bool" where
  "verdict pf ch row \<longleftrightarrow>
     list_all (\<lambda>expr. reg_value (cmp_value (pf_inputs pf) ch (string_consts_ptr pf) row)
                        (rev (expr_steps (pf_steps pf) expr)) (fe_output_bool_reg expr)) (pf_exprs pf)"

lemma compare_step_None: "compare_step step inputs ch consts row = None \<longleftrightarrow> is_bool_op (fs_op step)"
  by (cases "fs_op step") (simp_all add: compare_step_def Let_def is_bool_op_def)

lemma RescaleNumericForCompare_same [simp]: "RescaleNumericForCompare v s s = Some v"
  by (simp add: RescaleNumericForCompare_def)

lemma compare_int64_vars_ok:
  "same_scale inputs step \<Longrightarrow> fs_op step = INT64_CMP_VAR \<Longrightarrow> \<exists>v. compare_int64_vars step inputs ch row = Inr v"
  by (auto simp: compare_int64_vars_def same_scale_def Let_def)

lemma compare_step_typed:
  assumes "same_scale inputs step" "\<not> is_bool_op (fs_op step)"
  shows "compare_step step inputs ch consts row = Some (Inr (cmp_value inputs ch consts row step))"
proof -
  have "\<exists>v. compare_step step inputs ch consts row = Some (Inr v)"
    using compare_int64_vars_ok [OF assms(1), of ch row] assms(2)
    by (cases "fs_op step") (auto simp: compare_step_def Let_def is_bool_op_def)
  then show ?thesis by (auto simp: cmp_value_def)
qed

text \<open>Running typed steps leaves the value of the dataflow in every register they wrote.\<close>

lemma EvalFilterStepAtRow_typed:
  assumes "same_scale inputs step"
    and regs: "list_all (\<lambda>r. bools r = reg_value (cmp_value inputs ch consts row) before r) (step_reads step)"
  shows "EvalFilterStepAtRow step inputs ch consts row bools =
    Inr (bools(fs_out_bool_reg step := reg_value (cmp_value inputs ch consts row) (step # before) (fs_out_bool_reg step)))"
proof (cases "is_bool_op (fs_op step)")
  case True
  then have "compare_step step inputs ch consts row = None" by (simp add: compare_step_None)
  then show ?thesis using True regs by (auto simp: EvalFilterStepAtRow_def is_bool_op_def step_reads_def)
next
  case False
  then show ?thesis
    using compare_step_typed [OF assms(1) False, of ch "consts" row]
    by (cases "fs_op step") (simp_all add: EvalFilterStepAtRow_def is_bool_op_def)
qed

lemma typed_steps_run:
  "typed_steps inputs regs steps \<Longrightarrow> (\<And>r. r \<in> set regs \<Longrightarrow> bools r = reg_value cmp before r) \<Longrightarrow>
   cmp = cmp_value inputs ch consts row \<Longrightarrow>
   \<exists>bools'. fold_res (\<lambda>step. EvalFilterStepAtRow step inputs ch consts row) steps bools = Inr bools' \<and>
     (\<forall>r \<in> set regs \<union> set (map fs_out_bool_reg steps). bools' r = reg_value cmp (rev steps @ before) r)"
proof (induction steps arbitrary: regs bools before)
  case (Cons step steps)
  let ?b = "bools(fs_out_bool_reg step := reg_value (cmp_value inputs ch consts row) (step # before) (fs_out_bool_reg step))"
  have run: "EvalFilterStepAtRow step inputs ch consts row bools = Inr ?b"
    by (rule EvalFilterStepAtRow_typed) (use Cons.prems in \<open>auto simp: list_all_iff\<close>)
  have regs: "\<And>r. r \<in> set (fs_out_bool_reg step # regs) \<Longrightarrow> ?b r = reg_value cmp (step # before) r"
    using Cons.prems(2,3) by auto
  have typed: "typed_steps inputs (fs_out_bool_reg step # regs) steps" using Cons.prems(1) by simp
  obtain bools' where "fold_res (\<lambda>step. EvalFilterStepAtRow step inputs ch consts row) steps ?b = Inr bools'"
    "\<forall>r \<in> set (fs_out_bool_reg step # regs) \<union> set (map fs_out_bool_reg steps). bools' r = reg_value cmp (rev steps @ step # before) r"
    using Cons.IH [OF typed regs Cons.prems(3)] by blast
  then show ?case using run by (intro exI [of _ bools']) (simp del: reg_value.simps)
qed auto

lemma fold_res_nth:
  "b \<le> length xs \<Longrightarrow> a \<le> b \<Longrightarrow> fold_res (\<lambda>i. f (xs ! i)) [a..<b] s = fold_res f (take (b - a) (drop a xs)) s"
proof (induction "b - a" arbitrary: a s)
  case (Suc n)
  then have a: "a < b" "n = b - Suc a" by simp_all
  then have "take (b - a) (drop a xs) = xs ! a # take (b - Suc a) (drop (Suc a) xs)"
    using Suc.prems by (metis Cons_nth_drop_Suc Suc_diff_Suc less_le_trans take_Suc_Cons)
  moreover have "[a..<b] = a # [Suc a..<b]" using a by (simp add: upt_conv_Cons)
  ultimately show ?case using Suc.hyps(1) [OF a(2)] a Suc.prems by (auto intro!: arg_cong [where f = "rbind _"] ext)
qed simp

lemma typed_expr_run:
  assumes "typed_expr inputs steps expr"
  shows "\<exists>bools'. fold_res (\<lambda>i. EvalFilterStepAtRow (steps ! i) inputs ch consts row)
      [fe_first_step_idx expr..<(fe_first_step_idx expr + fe_n_steps expr) mod 65536] bools = Inr bools' \<and>
    bools' (fe_output_bool_reg expr) = reg_value (cmp_value inputs ch consts row) (rev (expr_steps steps expr)) (fe_output_bool_reg expr)"
proof -
  let ?ss = "expr_steps steps expr"
  have range: "fe_first_step_idx expr + fe_n_steps expr \<le> length steps"
    "(fe_first_step_idx expr + fe_n_steps expr) mod 65536 = fe_first_step_idx expr + fe_n_steps expr"
    and out: "fe_output_bool_reg expr \<in> set (map fs_out_bool_reg ?ss)" and typed: "typed_steps inputs [] ?ss"
    using assms by (simp_all add: typed_expr_def)
  obtain bools' where run: "fold_res (\<lambda>step. EvalFilterStepAtRow step inputs ch consts row) ?ss bools = Inr bools'"
    and regs: "\<forall>r \<in> set [] \<union> set (map fs_out_bool_reg ?ss). bools' r = reg_value (cmp_value inputs ch consts row) (rev ?ss @ []) r"
    using typed_steps_run [OF typed _ refl, where before = "[]"] by (metis empty_iff empty_set)
  have "fold_res (\<lambda>i. EvalFilterStepAtRow (steps ! i) inputs ch consts row)
      [fe_first_step_idx expr..<fe_first_step_idx expr + fe_n_steps expr] bools = Inr bools'"
    using fold_res_nth [OF range(1), of "fe_first_step_idx expr" "\<lambda>step. EvalFilterStepAtRow step inputs ch consts row" bools] run
    by (simp add: expr_steps_def)
  then show ?thesis using regs out range(2) by auto
qed

lemma typed_out_fits:
  "typed_steps inputs regs steps \<Longrightarrow> r \<in> set (map fs_out_bool_reg steps) \<Longrightarrow> r < FILTER_MAX_BOOL_REGS"
  by (induction steps arbitrary: regs) auto

lemma eval_exprs_typed:
  "list_all (typed_expr inputs steps) exprs \<Longrightarrow>
   \<exists>bools'. eval_exprs steps inputs ch consts row exprs bools =
     Inr (list_all (\<lambda>expr. reg_value (cmp_value inputs ch consts row) (rev (expr_steps steps expr)) (fe_output_bool_reg expr)) exprs, bools')"
proof (induction exprs arbitrary: bools)
  case (Cons expr exprs)
  have te: "typed_expr inputs steps expr" and tes: "list_all (typed_expr inputs steps) exprs" using Cons.prems by simp_all
  obtain bools' where run: "fold_res (\<lambda>i. EvalFilterStepAtRow (steps ! i) inputs ch consts row)
      [fe_first_step_idx expr..<(fe_first_step_idx expr + fe_n_steps expr) mod 65536] bools = Inr bools'"
    and out: "bools' (fe_output_bool_reg expr) = reg_value (cmp_value inputs ch consts row) (rev (expr_steps steps expr)) (fe_output_bool_reg expr)"
    using typed_expr_run [OF te] by blast
  have fits: "fe_output_bool_reg expr < FILTER_MAX_BOOL_REGS" "\<not> (fe_first_step_idx expr + fe_n_steps expr) mod 65536 > length steps"
    using te typed_out_fits by (auto simp: typed_expr_def)
  show ?case using run out fits Cons.IH [OF tes, of bools'] by (auto simp: Let_def)
qed simp

lemma simple_step:
  assumes "IsSimpleFilterStep exprs steps = Some step"
  obtains expr where "exprs = [expr]" "expr_steps steps expr = [step]" "fe_output_bool_reg expr = fs_out_bool_reg step"
    "\<not> is_bool_op (fs_op step)"
proof -
  obtain expr where e: "exprs = [expr]" using assms by (auto simp: IsSimpleFilterStep_def split: list.splits)
  then have "fe_n_steps expr = 1" "fe_first_step_idx expr < length steps" "step = steps ! fe_first_step_idx expr"
    "fe_output_bool_reg expr = fs_out_bool_reg step" "\<not> is_bool_op (fs_op step)"
    using assms by (auto simp: IsSimpleFilterStep_def Let_def split: if_splits)
  then show ?thesis using e that [of expr] by (simp add: expr_steps_def Cons_nth_drop_Suc [symmetric])
qed

lemma typed_filters_evaluate':
  assumes "typed_filter pf"
  shows "\<exists>bools'. eval_row pf ch row bools = Inr (verdict pf ch row, bools')"
proof (cases "IsSimpleFilterStep (pf_exprs pf) (pf_steps pf)")
  case None
  then show ?thesis
    using eval_exprs_typed assms by (simp add: eval_row_def verdict_def typed_filter_def)
next
  case (Some step)
  obtain expr where e: "pf_exprs pf = [expr]" "expr_steps (pf_steps pf) expr = [step]"
      "fe_output_bool_reg expr = fs_out_bool_reg step" and cmp: "\<not> is_bool_op (fs_op step)"
    using simple_step [OF Some] by blast
  have "same_scale (pf_inputs pf) step" using assms e by (simp add: typed_filter_def typed_expr_def)
  then have "compare_step step (pf_inputs pf) ch (string_consts_ptr pf) row =
      Some (Inr (cmp_value (pf_inputs pf) ch (string_consts_ptr pf) row step))" using compare_step_typed cmp by blast
  moreover have "verdict pf ch row = cmp_value (pf_inputs pf) ch (string_consts_ptr pf) row step"
    using e cmp by (cases "fs_op step") (simp_all add: verdict_def is_bool_op_def)
  ultimately show ?thesis using Some by (simp add: eval_row_def EvalSimpleFilterStepAtRow_def)
qed

text \<open>C13: A well-formed filter program evaluates on every row without an error, to the value its comparisons and
  connectives give: whichever of the two evaluators runs it, and whatever earlier rows left in the registers.\<close>

theorem typed_filters_evaluate:
  assumes "typed_filter pf"
  shows "\<exists>bools'. eval_row pf ch row bools = Inr (verdict pf ch row, bools')"
  using typed_filters_evaluate' [OF assms] .

section \<open>The rows that pass\<close>

lemma select_rows_typed:
  assumes "typed_filter pf"
  shows "\<exists>bools'. select_rows pf ch rows bools = Inr (filter (verdict pf ch) rows, bools')"
proof (induction rows arbitrary: bools)
  case (Cons row rows)
  obtain b where "eval_row pf ch row bools = Inr (verdict pf ch row, b)" using typed_filters_evaluate' [OF assms] by blast
  moreover obtain b' where "select_rows pf ch rows b = Inr (filter (verdict pf ch) rows, b')" using Cons.IH by blast
  ultimately show ?case by simp
qed simp

text \<open>The five values of a slot in a row, as they are stored.\<close>

definition raw_cell :: "data_chunk \<Rightarrow> nat \<Rightarrow> nat \<Rightarrow> u8 \<times> u64 \<times> u64 \<times> u32 \<times> vec_string_ref" where
  "raw_cell ch slot row = (nulls ch slot row, cells (double_class ch) slot row, cells (int64_class ch) slot row,
     cells (int32_class ch) slot row, cells (string_class ch) slot row)"

lemma copy_row_class_prefix:
  "fold (\<lambda>slot cc. set_cell slot to (cells cc slot from) cc) [0..<k] cc =
    cc\<lparr>cells := \<lambda>slot row. if slot < k \<and> row = to then cells cc slot from else cells cc slot row\<rparr>"
  by (induction k) (auto simp: set_cell_def fun_eq_iff less_Suc_eq intro!: arg_cong [where f = "\<lambda>x. cc\<lparr>cells := x\<rparr>"])

lemma copy_row_class: "copy_row_class from to cc =
    cc\<lparr>cells := \<lambda>slot row. if slot < N_SLOTS \<and> row = to then cells cc slot from else cells cc slot row\<rparr>"
  unfolding copy_row_class_def by (rule copy_row_class_prefix)

lemma copy_row_nulls:
  "fold (\<lambda>slot ch. set_null slot to (nulls ch slot from) ch) [0..<k] ch =
    ch\<lparr>nulls := \<lambda>slot row. if slot < k \<and> row = to then nulls ch slot from else nulls ch slot row\<rparr>"
  by (induction k) (auto simp: set_null_def fun_eq_iff less_Suc_eq intro!: arg_cong [where f = "\<lambda>x. ch\<lparr>nulls := x\<rparr>"])

lemma raw_cell_copy_row:
  "raw_cell (copy_row from to ch) slot row = raw_cell ch slot (if slot < N_SLOTS \<and> row = to then from else row)"
  by (simp add: raw_cell_def copy_row_def copy_row_nulls copy_row_class)

text \<open>What a row move leaves alone.\<close>

definition same_frame :: "data_chunk \<Rightarrow> data_chunk \<Rightarrow> bool" where
  "same_frame ch ch' \<longleftrightarrow> chunk_count ch' = chunk_count ch \<and> string_arena ch' = string_arena ch \<and>
     dict_active (double_class ch') = dict_active (double_class ch) \<and> dict_active (int64_class ch') = dict_active (int64_class ch) \<and>
     dict_active (int32_class ch') = dict_active (int32_class ch) \<and> dict_active (string_class ch') = dict_active (string_class ch)"

lemma copy_row_frame: "same_frame ch (copy_row from to ch)"
  by (simp add: same_frame_def copy_row_def copy_row_nulls copy_row_class)

text \<open>Moving the rows down in order overwrites no row that is still to be moved.\<close>

definition move_rows :: "nat \<Rightarrow> nat list \<Rightarrow> data_chunk \<Rightarrow> data_chunk" where
  "move_rows k rows ch = fold (\<lambda>(write_idx, row) out. if write_idx = row then out else copy_row row write_idx out) (enumerate k rows) ch"

lemma move_rows:
  "sorted_wrt (<) rows \<Longrightarrow> (\<And>row. row \<in> set rows \<Longrightarrow> k \<le> row) \<Longrightarrow>
   same_frame ch (move_rows k rows ch) \<and>
   (\<forall>i<length rows. \<forall>slot<N_SLOTS. raw_cell (move_rows k rows ch) slot (k + i) = raw_cell ch slot (rows ! i)) \<and>
   (\<forall>i<k. \<forall>slot. raw_cell (move_rows k rows ch) slot i = raw_cell ch slot i)"
proof (induction rows arbitrary: k ch)
  case (Cons row rows)
  let ?ch = "if k = row then ch else copy_row row k ch"
  have later: "Suc k \<le> r" if "r \<in> set rows" for r using Cons.prems that by fastforce
  have moved: "raw_cell ?ch slot k = raw_cell ch slot row" if "slot < N_SLOTS" for slot
    using that by (simp add: raw_cell_copy_row)
  have kept: "raw_cell ?ch slot i = raw_cell ch slot i" if "i \<noteq> k" for i slot
    using that by (simp add: raw_cell_copy_row)
  have unfold: "move_rows k (row # rows) ch = move_rows (Suc k) rows ?ch" by (simp add: move_rows_def)
  have ih: "same_frame ?ch (move_rows (Suc k) rows ?ch)"
    "\<forall>i<length rows. \<forall>slot<N_SLOTS. raw_cell (move_rows (Suc k) rows ?ch) slot (Suc k + i) = raw_cell ?ch slot (rows ! i)"
    "\<forall>i<Suc k. \<forall>slot. raw_cell (move_rows (Suc k) rows ?ch) slot i = raw_cell ?ch slot i"
    using Cons.IH [of "Suc k" ?ch] Cons.prems(1) later by auto
  have "raw_cell (move_rows k (row # rows) ch) slot (k + i) = raw_cell ch slot ((row # rows) ! i)"
    if "i < length (row # rows)" "slot < N_SLOTS" for i slot
  proof (cases i)
    case 0
    then show ?thesis unfolding unfold using ih(3) moved [OF that(2)] by simp
  next
    case (Suc j)
    then have "rows ! j \<noteq> k" using later [of "rows ! j"] that by fastforce
    then show ?thesis unfolding unfold using ih(2) kept Suc that by simp
  qed
  moreover have "raw_cell (move_rows k (row # rows) ch) slot i = raw_cell ch slot i" if "i < k" for i slot
    unfolding unfold using ih(3) kept that by simp
  moreover have "same_frame ch (move_rows k (row # rows) ch)"
    unfolding unfold using ih(1) copy_row_frame [of ch row k] by (auto simp: same_frame_def split: if_splits)
  ultimately show ?case by blast
qed (simp add: move_rows_def same_frame_def)


text \<open>The values of a slot in a row, as they are read: through the dictionaries, strings by their bytes.\<close>

definition logical_cell :: "data_chunk \<Rightarrow> nat \<Rightarrow> nat \<Rightarrow> u8 \<times> u64 \<times> u64 \<times> u32 \<times> u8 list option" where
  "logical_cell ch slot row = (nulls ch slot row, get_double ch slot row, get_int64 ch slot row, get_int32 ch slot row,
     get_string_ptr ch slot row)"

definition can_flatten :: "data_chunk \<Rightarrow> bool" where
  "can_flatten ch \<longleftrightarrow> flattenable (int32_class ch) \<and> flattenable (int64_class ch) \<and> flattenable (double_class ch) \<and>
     flattenable (string_class ch)"

definition flat_input :: "data_chunk \<Rightarrow> data_chunk" where
  "flat_input ch = (if has_any_dictionary ch then flatten ch else ch)"

lemma flat_input:
  assumes "can_flatten ch"
  shows "chunk_count (flat_input ch) = chunk_count ch" "\<not> has_any_dictionary (flat_input ch)"
    "slot < N_SLOTS \<Longrightarrow> row < chunk_count ch \<Longrightarrow> logical_cell (flat_input ch) slot row = logical_cell ch slot row"
  using assms by (auto simp: flat_input_def can_flatten_def logical_cell_def flatten_class_plain flatten_class_get flatten_classes get_int32_def
      get_int64_def get_double_def get_string_ptr_def get_string_ref_def has_any_dictionary_def list_ex_iff)

lemma logical_cell_plain:
  "\<not> has_any_dictionary ch \<Longrightarrow> slot < N_SLOTS \<Longrightarrow>
   logical_cell ch slot row = (case raw_cell ch slot row of (n, d, l, i, s) \<Rightarrow> (n, d, l, i, VecStringRefDataPtr s (Some (string_arena ch))))"
  by (auto simp: logical_cell_def raw_cell_def get_int32_def get_int64_def get_double_def get_string_ptr_def get_string_ref_def get_cell_def
      has_any_dictionary_def list_ex_iff)

lemma CompactSelectedRows:
  assumes "sorted_wrt (<) rows" "set rows \<subseteq> {..<chunk_count ch}" "\<not> has_any_dictionary ch"
  shows "chunk_count (CompactSelectedRows rows ch) = length rows"
    "i < length rows \<Longrightarrow> slot < N_SLOTS \<Longrightarrow> logical_cell (CompactSelectedRows rows ch) slot i = logical_cell ch slot (rows ! i)"
proof -
  have moved: "same_frame ch (move_rows 0 rows ch)"
    "\<forall>i<length rows. \<forall>slot<N_SLOTS. raw_cell (move_rows 0 rows ch) slot i = raw_cell ch slot (rows ! i)"
    using move_rows [OF assms(1), of 0 ch] by simp_all
  have plain: "\<not> has_any_dictionary (move_rows 0 rows ch)" using moved(1) assms(3) by (simp add: same_frame_def has_any_dictionary_def)
  have all: "rows = [0..<length rows]" if "length rows = chunk_count ch"
  proof -
    have "distinct rows" "sorted rows" using assms(1) by (auto simp: strict_sorted_iff)
    moreover have "set rows = {..<chunk_count ch}"
      using assms(2) that distinct_card [OF \<open>distinct rows\<close>] by (intro card_subset_eq) simp_all
    ultimately show ?thesis using that by (intro sorted_distinct_set_unique) (auto simp: atLeast0LessThan)
  qed
  have unfold: "CompactSelectedRows rows ch = (if length rows = chunk_count ch then ch else (move_rows 0 rows ch)\<lparr>chunk_count := length rows\<rparr>)"
    by (simp add: CompactSelectedRows_def move_rows_def)
  show "chunk_count (CompactSelectedRows rows ch) = length rows" by (simp add: unfold)
  show "logical_cell (CompactSelectedRows rows ch) slot i = logical_cell ch slot (rows ! i)" if "i < length rows" "slot < N_SLOTS"
  proof (cases "length rows = chunk_count ch")
    case True
    then show ?thesis using all that by (metis unfold add_0 nth_upt)
  next
    case False
    have "logical_cell (CompactSelectedRows rows ch) slot i = logical_cell (move_rows 0 rows ch) slot i"
      using False by (simp add: unfold logical_cell_def get_int32_def get_int64_def get_double_def get_string_ptr_def get_string_ref_def)
    also have "\<dots> = logical_cell ch slot (rows ! i)"
      using logical_cell_plain [OF plain that(2)] logical_cell_plain [OF assms(3) that(2)] moved that by (simp add: same_frame_def)
    finally show ?thesis .
  qed
qed

lemma FilterExecute_rows:
  assumes "typed_filter pf" "pf_exprs pf \<noteq> []" "\<not> ft_drained st" "can_flatten input"
    and "PopulateFilterChunk (pf_inputs pf) (flat_input input) (ft_filter_chunk st) = Inr fc"
    and "rows = filter (verdict pf fc) [0..<chunk_count input]"
  shows "\<exists>output st'. FilterExecute pf input out st =
      Inr (output, if rows = [] then OP_NEED_MORE_INPUT else OP_HAVE_MORE_OUTPUT, st') \<and>
    chunk_count output = length rows \<and>
    (\<forall>i slot. i < length rows \<and> slot < N_SLOTS \<longrightarrow> logical_cell output slot i = logical_cell input slot (rows ! i)) \<and>
    (rows \<noteq> [] \<longrightarrow> FilterExecute pf input out st' = Inr (chunk_reset out, OP_NEED_MORE_INPUT, st'\<lparr>ft_drained := False\<rparr>)) \<and>
    (ft_drained st' \<longleftrightarrow> rows \<noteq> [])"
proof -
  note flat = flat_input [OF assms(4)]
  obtain b where sel: "select_rows pf fc [0..<chunk_count (flat_input input)] (ft_bool_values st) = Inr (rows, b)"
    using select_rows_typed [OF assms(1)] unfolding flat(1) assms(6) by blast
  have run: "FilterExecute pf input out st =
      (let st = st\<lparr>ft_filter_chunk := fc, ft_bool_values := b\<rparr>
       in if rows = [] then Inr (chunk_reset (flat_input input), OP_NEED_MORE_INPUT, st)
          else let o' = CompactSelectedRows rows (flat_input input)
               in Inr (o', OP_HAVE_MORE_OUTPUT, st\<lparr>ft_drained := 0 < chunk_count o'\<rparr>))"
    using assms(2,3,5) sel by (simp add: FilterExecute_def flat_input_def [symmetric] Let_def)
  show ?thesis
  proof (cases "rows = []")
    case True
    then show ?thesis using run assms(3) by (simp add: Let_def chunk_reset_def reset_lightweight_def clear_dictionaries_def)
  next
    case False
    have rows: "sorted_wrt (<) rows" "set rows \<subseteq> {..<chunk_count (flat_input input)}"
      unfolding assms(6) by (auto intro: sorted_wrt_filter simp: flat(1))
    note compact = CompactSelectedRows [OF rows flat(2)]
    have "logical_cell (CompactSelectedRows rows (flat_input input)) slot i = logical_cell input slot (rows ! i)"
      if "i < length rows" "slot < N_SLOTS" for i slot
    proof -
      have "rows ! i < chunk_count input" using rows(2) that(1) nth_mem flat(1) by fastforce
      then show ?thesis using compact(2) flat(3) that by simp
    qed
    then show ?thesis using run False compact(1) by (simp add: Let_def FilterExecute_def)
  qed
qed

text \<open>C8: Given a chunk, a filter returns the rows that pass, in their order and with all their values, and asks for the
  next chunk on the following call; if no row passes it asks for the next chunk at once.\<close>

theorem filter_keeps_passing_rows:
  assumes "typed_filter pf" "pf_exprs pf \<noteq> []" "\<not> ft_drained st" "can_flatten input"
    and "PopulateFilterChunk (pf_inputs pf) (flat_input input) (ft_filter_chunk st) = Inr fc"
    and "rows = filter (verdict pf fc) [0..<chunk_count input]"
  shows "\<exists>output st'. FilterExecute pf input out st =
      Inr (output, if rows = [] then OP_NEED_MORE_INPUT else OP_HAVE_MORE_OUTPUT, st') \<and>
    chunk_count output = length rows \<and>
    (\<forall>i slot. i < length rows \<and> slot < N_SLOTS \<longrightarrow> logical_cell output slot i = logical_cell input slot (rows ! i)) \<and>
    (rows \<noteq> [] \<longrightarrow> FilterExecute pf input out st' = Inr (chunk_reset out, OP_NEED_MORE_INPUT, st'\<lparr>ft_drained := False\<rparr>)) \<and>
    (ft_drained st' \<longleftrightarrow> rows \<noteq> [])"
  using assms by (rule FilterExecute_rows)


lemma demo_filter_typed: "typed_filter demo_filter"
  by (simp add: typed_filter_def demo_filter_def typed_expr_def expr_steps_def demo_cmp_def step_reads_def same_scale_def
      FILTER_MAX_BOOL_REGS_def)

lemma upt_16: "[0..<N_SLOTS] = [0,1,2,3,4,5,6,7,8,9,10,11,12,13,14,15]"
  by (simp add: N_SLOTS_def upt_rec)

lemma demo_input_flat: "can_flatten demo_input" "flat_input demo_input = demo_input"
  by (simp_all add: can_flatten_def flattenable_def demo_input_def empty_chunk_def plain_class_def flat_input_def has_any_dictionary_def
      list_all_iff list_ex_iff)

lemma demo_cells: "get_int32 demo_input 0 row = word_of_nat ([3, 7, 9, 8] ! row)" "nulls demo_input slot row = 0"
  "[0..<chunk_count demo_input] = [0, 1, 2, 3]"
  by (simp_all add: demo_input_def empty_chunk_def plain_class_def get_int32_def get_cell_def upt_rec)

lemma demo_inputs_ok:
  "list_all (\<lambda>input. list_all (\<lambda>row. input_ok demo_input (input, row)) [0..<chunk_count demo_input]) demo_inputs"
  "distinct (map fi_dst_col demo_inputs)" "65536 * length demo_inputs * chunk_count demo_input < 2 ^ 32 - 1"
  by (simp_all add: demo_inputs_def input_ok_def supported_kind_def is_int32_kind_def N_SLOTS_def list_all_iff demo_input_def)

theorem filter_reads_its_inputs_witness:
  "\<exists>fc'. PopulateFilterChunk demo_inputs demo_input empty_chunk = Inr fc' \<and> get_int32 fc' 0 2 = 9 \<and> get_int64 fc' 1 2 = 900"
proof -
  obtain fc where fc: "PopulateFilterChunk demo_inputs demo_input empty_chunk = Inr fc"
    "list_all (\<lambda>input. list_all (\<lambda>row. cell_populated demo_input fc (input, row)) [0..<chunk_count demo_input]) demo_inputs"
    using filter_reads_its_inputs [OF demo_inputs_ok(2,1,3)] by blast
  have "get_int32 fc 0 2 = 9" "get_int64 fc 1 2 = scast (9 :: u32) * 10 ^ 2"
    using fc(2) unfolding demo_cells(3)
    by (simp_all add: demo_inputs_def cell_populated_def src_slot_def demo_cells input_value_def is_int32_kind_def Let_def)
  moreover have "scast (9 :: u32) * 10 ^ 2 = (900 :: u64)" by simp
  ultimately show ?thesis using fc(1) by metis
qed

lemma demo_populated:
  "\<exists>fc. PopulateFilterChunk (pf_inputs demo_filter) (flat_input demo_input) (ft_filter_chunk idle_filter) = Inr fc \<and>
    [1, 3] = filter (verdict demo_filter fc) [0..<chunk_count demo_input]"
proof -
  obtain fc where fc: "PopulateFilterChunk demo_inputs demo_input empty_chunk = Inr fc"
    "list_all (\<lambda>input. list_all (\<lambda>row. cell_populated demo_input fc (input, row)) [0..<chunk_count demo_input]) demo_inputs"
    using PopulateFilterChunk_reads [OF demo_inputs_ok(2,1,3)] by blast
  have "nulls fc 0 0 = 0" "nulls fc 0 1 = 0" "nulls fc 0 2 = 0" "nulls fc 0 3 = 0"
    "get_int32 fc 0 0 = 3" "get_int32 fc 0 1 = 7" "get_int32 fc 0 2 = 9" "get_int32 fc 0 3 = 8"
    using fc(2) unfolding demo_cells(3)
    by (simp_all add: demo_inputs_def cell_populated_def src_slot_def demo_cells input_value_def)
  then have "[1, 3] = filter (verdict demo_filter fc) [0..<chunk_count demo_input]"
    unfolding demo_cells(3) by (simp add: verdict_def demo_filter_def expr_steps_def demo_cmp_def cmp_value_def compare_step_def Let_def not_null_def)
  then show ?thesis using fc(1) by (simp add: demo_filter_def demo_input_flat(2) idle_filter_def)
qed

theorem filter_keeps_passing_rows_witness:
  "\<exists>output st'. FilterExecute demo_filter demo_input empty_chunk idle_filter = Inr (output, OP_HAVE_MORE_OUTPUT, st') \<and>
    chunk_count output = 2 \<and> get_int32 output 0 0 = 7 \<and> get_int32 output 0 1 = 8 \<and>
    FilterExecute demo_filter demo_input empty_chunk st' = Inr (chunk_reset empty_chunk, OP_NEED_MORE_INPUT, st'\<lparr>ft_drained := False\<rparr>)"
proof -
  obtain fc where fc: "PopulateFilterChunk (pf_inputs demo_filter) (flat_input demo_input) (ft_filter_chunk idle_filter) = Inr fc"
    "[1, 3] = filter (verdict demo_filter fc) [0..<chunk_count demo_input]"
    using demo_populated by blast
  have "pf_exprs demo_filter \<noteq> []" "\<not> ft_drained idle_filter" by (simp_all add: demo_filter_def idle_filter_def)
  from filter_keeps_passing_rows [OF demo_filter_typed this demo_input_flat(1) fc, of empty_chunk]
  obtain ch st' where o: "FilterExecute demo_filter demo_input empty_chunk idle_filter = Inr (ch, OP_HAVE_MORE_OUTPUT, st')"
    "chunk_count ch = 2" "FilterExecute demo_filter demo_input empty_chunk st' = Inr (chunk_reset empty_chunk, OP_NEED_MORE_INPUT, st'\<lparr>ft_drained := False\<rparr>)"
    "\<forall>i slot. i < 2 \<and> slot < N_SLOTS \<longrightarrow> logical_cell ch slot i = logical_cell demo_input slot ([1, 3] ! i)"
    by (auto simp: numeral_2_eq_2)
  have "logical_cell ch 0 0 = logical_cell demo_input 0 1" "logical_cell ch 0 1 = logical_cell demo_input 0 3"
    using o(4) [rule_format, of 0 0] o(4) [rule_format, of 1 0] by (simp_all add: N_SLOTS_def)
  then have "get_int32 ch 0 0 = 7" "get_int32 ch 0 1 = 8"
    by (simp_all add: logical_cell_def demo_cells)
  then show ?thesis using o by blast
qed

theorem typed_filters_evaluate_witness:
  "\<exists>bools'. eval_row demo_filter demo_input 1 (\<lambda>_. True) = Inr (True, bools')"
proof -
  have "verdict demo_filter demo_input 1"
    by (simp add: verdict_def demo_filter_def expr_steps_def demo_cmp_def cmp_value_def compare_step_def Let_def not_null_def
        demo_cells)
  then show ?thesis using typed_filters_evaluate [OF demo_filter_typed, of demo_input 1 "\<lambda>_. True"] by simp
qed

end
