(* ===== verification/HashBuild.thy ===== *)
theory HashBuild
  imports CrossProduct
begin

text \<open>
  The build side of the hash join, physical_hash_join_combine.cpp and Finalize of physical_hash_join.cpp:
  sizing the table, copying the workers' key rows into one collection, hashing them, and linking them into
  the bucket chains. Workers combine at the same time; they copy into ranges of their own and link through
  atomic exchanges of the bucket heads, so Combine is a step relation over the workers' positions.
\<close>

section \<open>State\<close>

definition HASH_JOIN_INVALID_ROW :: nat where
  "HASH_JOIN_INVALID_ROW = UINT32_MAX"

datatype match_mode = JOIN_INNER | JOIN_SEMI | JOIN_ANTI | JOIN_LEFT

text \<open>A collection that a slot never created is a null pointer; it counts no rows.\<close>

record registry_entry =
  re_build_keys :: "tuple_data_collection option"
  re_build_rows :: "tuple_data_collection option"
  re_row_count :: nat
  re_key_heap_used :: nat
  re_row_heap_used :: nat
  re_global_row_offset :: nat
  re_global_key_heap_offset :: nat
  re_global_row_heap_offset :: nat

text \<open>
  The shared payload. With \<^verbatim>\<open>build_rows_use_keys\<close> the rows pointer is the keys pointer. Heads, buckets,
  links and salts are the arrays behind their pointers.
\<close>

record hash_payload =
  hp_capacity :: nat
  hp_shared_local :: bool
  hp_use_keys :: bool
  hp_combined :: bool
  hp_finalized :: bool
  hp_release_state :: nat
  hp_prepare_state :: nat
  hp_combined_row_count :: nat
  hp_combined_key_heap_used :: nat
  hp_combined_row_heap_used :: nat
  hp_registry :: "registry_entry list"
  hp_build_keys :: tuple_data_collection
  hp_build_rows :: tuple_data_collection
  hp_row_slots :: "nat list option"
  hp_row_local_idxs :: "nat list option"
  hp_heads :: "nat list option"
  hp_buckets :: "nat list option"
  hp_links :: "nat list option"
  hp_salts :: "u16 list option"

section \<open>Sizing\<close>

definition HashJoinSalt :: "u64 \<Rightarrow> u16" where
  "HashJoinSalt hash = ucast (drop_bit 48 hash)"

text \<open>The doubling wraps around at 32 bits; from zero it never ends.\<close>

partial_function (option) capacity_loop :: "nat \<Rightarrow> nat \<Rightarrow> nat option" where
  "capacity_loop hash_capacity target =
     (if hash_capacity < target then capacity_loop (wrap32 (hash_capacity * 2)) target else Some hash_capacity)"

definition ComputeHashTableCapacity :: "nat \<Rightarrow> nat option" where
  "ComputeHashTableCapacity row_count = capacity_loop 1 (wrap32 (row_count * 2))"

section \<open>Hashing the build keys\<close>

definition TryHashSingleJoinKeyRow :: "tuple_data_layout \<Rightarrow> u8 list \<Rightarrow> u64 option" where
  "TryHashSingleJoinKeyRow layout row =
     (if column_count layout \<noteq> 1 then None
      else let col = columns layout ! 0; off = unat (col_offset col)
           in case col_kind col of
                INT32 \<Rightarrow> Some (HashSingleGroupInt32Value (get_u32 off row))
              | INT64 \<Rightarrow> Some (HashSingleGroupInt64Value (get_u64 off row))
              | _ \<Rightarrow> None)"

definition join_row_hash :: "tuple_data_layout \<Rightarrow> tuple_data_collection \<Rightarrow> u8 list \<Rightarrow> u64 result" where
  "join_row_hash layout tdc row =
     (case TryHashSingleJoinKeyRow layout row of Some h \<Rightarrow> Inr h | None \<Rightarrow> HashGroupRow layout (Some tdc) row)"

text \<open>\<^verbatim>\<open>(uint32_t) hash & (capacity - 1)\<close>.\<close>

definition join_bucket :: "nat \<Rightarrow> u64 \<Rightarrow> nat" where
  "join_bucket hash_capacity hash = unat ((ucast hash :: u32) AND (word_of_nat hash_capacity - 1))"

definition PrecomputeJoinHashes ::
  "tuple_data_layout \<Rightarrow> tuple_data_collection \<Rightarrow> nat \<Rightarrow> nat \<Rightarrow> hash_payload \<Rightarrow> hash_payload result" where
  "PrecomputeJoinHashes layout src row_offset row_count p =
     (if row_count = 0 then Inr p
      else case (hp_buckets p, hp_salts p) of
        (Some buckets, Some salts) \<Rightarrow>
          if hp_capacity p = 0 \<or> hp_capacity p AND (hp_capacity p - 1) \<noteq> 0
          then Inl (Elog ''invalid precomputed hash table capacity'')
          else rbind (fold_res (\<lambda>row_idx (buckets, salts).
                   rbind (join_row_hash layout src (TupleDataCollectionGetRow src row_idx)) (\<lambda>hash.
                     Inr (buckets[row_offset + row_idx := join_bucket (hp_capacity p) hash],
                          salts[row_offset + row_idx := HashJoinSalt hash])))
                 [0..<row_count] (buckets, salts))
               (\<lambda>(buckets, salts). Inr (p\<lparr>hp_buckets := Some buckets, hp_salts := Some salts\<rparr>))
      | _ \<Rightarrow> Inl (Elog ''hash join precomputed hash arrays missing''))"

section \<open>Copying rows\<close>

text \<open>A string behind the inline limit moves with its worker's heap.\<close>

definition rebase_column :: "nat \<Rightarrow> u8 list \<Rightarrow> tdc_column_desc \<Rightarrow> u8 list \<Rightarrow> u8 list" where
  "rebase_column heap_offset src_row col row =
     (if col_kind col \<noteq> STRING_REF then row
      else let ref = read_string_ref (unat (col_offset col)) src_row
           in if ref_len ref = 0 \<or> VecStringRefIsInline ref then row
              else write_string_ref (unat (col_offset col)) (ref\<lparr>ref_offset := ref_offset ref + word_of_nat heap_offset\<rparr>) row)"

definition rebased_row :: "tuple_data_layout \<Rightarrow> nat \<Rightarrow> u8 list \<Rightarrow> u8 list" where
  "rebased_row layout heap_offset src_row =
     (if LayoutHasStringRef layout then fold (rebase_column heap_offset src_row) (columns layout) src_row else src_row)"

definition CopyLocalTdcIntoGlobal ::
  "tuple_data_layout \<Rightarrow> tuple_data_collection \<Rightarrow> nat \<Rightarrow> nat \<Rightarrow> tuple_data_collection \<Rightarrow> tuple_data_collection" where
  "CopyLocalTdcIntoGlobal layout src row_offset heap_offset dst =
     fold (\<lambda>row_idx dst. set_row (row_offset + row_idx) (rebased_row layout heap_offset (TupleDataCollectionGetRow src row_idx)) dst)
       [0..<tdc_row_count src]
       (if tdc_heap_used src = 0 then dst
        else dst\<lparr>tdc_heap := mem_write heap_offset (take (tdc_heap_used src) (tdc_heap src)) (tdc_heap dst)\<rparr>)"

section \<open>Preparing\<close>

text \<open>The global collection is still empty; if it is too small a larger one replaces it.\<close>

definition EnsureEmptyJoinGlobalCapacity ::
  "nat \<Rightarrow> tuple_data_layout \<Rightarrow> nat \<Rightarrow> nat \<Rightarrow> tuple_data_collection \<Rightarrow> tuple_data_collection result" where
  "EnsureEmptyJoinGlobalCapacity hdr layout target_rows target_heap_used tdc =
     (if tdc_row_capacity tdc \<ge> target_rows \<and> tdc_heap_capacity tdc \<ge> target_heap_used then Inr tdc
      else if tdc_row_count tdc \<noteq> 0 \<or> tdc_heap_used tdc \<noteq> 0 then Inl (Elog ''hash join combine prepare expected empty global TDC'')
      else let width = unat (layout_row_width layout)
           in rbind (TupleDataCollectionClampRowCapacity hdr (max (tdc_row_capacity tdc) (max 1 target_rows)) width
                  target_heap_used (max 1 target_rows)) (\<lambda>new_row_capacity.
              rbind (if tdc_heap_capacity tdc < target_heap_used
                     then TupleDataCollectionGrowHeapCapacity hdr (Some layout) tdc new_row_capacity target_heap_used
                     else Inr (tdc_heap_capacity tdc)) (\<lambda>new_heap_capacity.
                if new_heap_capacity < target_heap_used then Inl (Elog ''hash join combine prepare failed to size string heap'')
                else rbind (TupleDataCollectionCheckedAllocSize hdr new_row_capacity width new_heap_capacity)
                       (\<lambda>_. Inr (TupleDataCollectionInit new_row_capacity width new_heap_capacity)))))"

definition count_of :: "tuple_data_collection option \<Rightarrow> nat" where
  "count_of tdc = (case tdc of None \<Rightarrow> 0 | Some t \<Rightarrow> tdc_row_count t)"

definition heap_of :: "tuple_data_collection option \<Rightarrow> nat" where
  "heap_of tdc = (case tdc of None \<Rightarrow> 0 | Some t \<Rightarrow> tdc_heap_used t)"

text \<open>The totals are 64 bits wide, the offsets 32.\<close>

fun prepare_registry :: "registry_entry list \<Rightarrow> nat \<times> nat \<times> nat \<Rightarrow> registry_entry list \<times> nat \<times> nat \<times> nat" where
  "prepare_registry [] totals = ([], totals)"
| "prepare_registry (e # es) (rows, key_heap, row_heap) =
     (let n = count_of (re_build_keys e); k = heap_of (re_build_keys e); r = heap_of (re_build_rows e);
          (es, totals) = prepare_registry es (rows + n, key_heap + k, row_heap + r)
      in (e\<lparr>re_row_count := n, re_key_heap_used := k, re_row_heap_used := r, re_global_row_offset := wrap32 rows,
           re_global_key_heap_offset := wrap32 key_heap, re_global_row_heap_offset := wrap32 row_heap\<rparr> # es, totals))"

text \<open>
  What the worker that wins the race to prepare does. \<open>mem\<close> is the memory that the allocator hands out
  uninitialised. The outer \<^verbatim>\<open>None\<close> is the sizing loop not returning.
\<close>

definition PrepareHashJoinCombine ::
  "nat \<Rightarrow> (nat \<Rightarrow> nat) \<Rightarrow> tuple_data_layout \<Rightarrow> tuple_data_layout \<Rightarrow> hash_payload \<Rightarrow> hash_payload result option" where
  "PrepareHashJoinCombine hdr mem key_layout row_layout p =
     (let (registry, total_rows, total_key_heap, total_row_heap) = prepare_registry (hp_registry p) (0, 0, 0)
      in if total_rows > UINT32_MAX \<or> total_key_heap > UINT32_MAX \<or> total_row_heap > UINT32_MAX
         then Some (Inl (Elog ''hash join combine totals exceed uint32 range''))
         else Option.bind (if total_rows = 0 then Some 0 else ComputeHashTableCapacity total_rows) (\<lambda>capacity.
           Some (rbind (EnsureEmptyJoinGlobalCapacity hdr key_layout total_rows total_key_heap (hp_build_keys p)) (\<lambda>keys.
             rbind (if hp_use_keys p then Inr keys
                    else if hp_shared_local p then Inr (hp_build_rows p)
                    else EnsureEmptyJoinGlobalCapacity hdr row_layout total_rows total_row_heap (hp_build_rows p)) (\<lambda>rows.
               let fresh = (\<lambda>n. Some (map mem [0..<n]));
                   p = p\<lparr>hp_registry := registry, hp_capacity := capacity, hp_build_keys := keys, hp_build_rows := rows\<rparr>;
                   p = (if hp_shared_local p \<and> hp_row_slots p = None then p\<lparr>hp_row_slots := fresh (max 1 total_rows)\<rparr> else p);
                   p = (if hp_shared_local p \<and> hp_row_local_idxs p = None then p\<lparr>hp_row_local_idxs := fresh (max 1 total_rows)\<rparr> else p);
                   p = (if total_rows > 0
                        then p\<lparr>hp_heads := Some (replicate capacity HASH_JOIN_INVALID_ROW), hp_buckets := fresh total_rows,
                               hp_links := fresh total_rows, hp_salts := Some (map (\<lambda>i. word_of_nat (mem i)) [0..<total_rows])\<rparr>
                        else p)
               in Inr (p\<lparr>hp_combined_row_count := total_rows, hp_combined_key_heap_used := total_key_heap,
                       hp_combined_row_heap_used := if hp_use_keys p then total_key_heap else total_row_heap,
                       hp_prepare_state := 2\<rparr>))))))"


section \<open>Combining\<close>

definition payload_rows :: "hash_payload \<Rightarrow> tuple_data_collection" where
  "payload_rows p = (if hp_use_keys p then hp_build_keys p else hp_build_rows p)"

text \<open>Where a worker is in Combine: before its copy, before and within the link of a row, and behind its last row.\<close>

datatype combine_pc = ToCopy | ToExchange nat | ToStore nat nat | Combined

record combine_state =
  cs_payload :: hash_payload
  cs_pc :: "nat \<Rightarrow> combine_pc"

definition entry_of :: "hash_payload \<Rightarrow> nat \<Rightarrow> registry_entry" where
  "entry_of p w = hp_registry p ! w"

definition copy_and_hash :: "tuple_data_layout \<Rightarrow> nat \<Rightarrow> hash_payload \<Rightarrow> hash_payload result" where
  "copy_and_hash key_layout w p =
     (let entry = entry_of p w
      in case re_build_keys entry of
           None \<Rightarrow> Inl (Elog ''hash join combine local build rows missing'')
         | Some src \<Rightarrow>
             PrecomputeJoinHashes key_layout src (re_global_row_offset entry) (re_row_count entry)
               (p\<lparr>hp_build_keys := CopyLocalTdcIntoGlobal key_layout src (re_global_row_offset entry)
                    (re_global_key_heap_offset entry) (hp_build_keys p)\<rparr>))"

definition link_exchange :: "nat \<Rightarrow> hash_payload \<Rightarrow> (nat \<times> hash_payload) result" where
  "link_exchange g p =
     (case (hp_heads p, hp_buckets p, hp_links p) of
        (Some heads, Some buckets, Some _) \<Rightarrow>
          let bucket = buckets ! g in Inr (heads ! bucket, p\<lparr>hp_heads := Some (heads[bucket := g])\<rparr>)
      | _ \<Rightarrow> Inl (Elog ''hash join prelinked arrays missing''))"

definition link_store :: "nat \<Rightarrow> nat \<Rightarrow> hash_payload \<Rightarrow> hash_payload" where
  "link_store g old p = p\<lparr>hp_links := map_option (\<lambda>links. links[g := old]) (hp_links p)\<rparr>"

text \<open>Behind the links: the payload rows are copied, or the map from build rows to the workers' rows is filled in.\<close>

definition publish_rows :: "tuple_data_layout \<Rightarrow> nat \<Rightarrow> hash_payload \<Rightarrow> hash_payload result" where
  "publish_rows row_layout w p =
     (let entry = entry_of p w; off = re_global_row_offset entry
      in if hp_shared_local p
         then (case (hp_row_slots p, hp_row_local_idxs p) of
                 (Some slots, Some idxs) \<Rightarrow>
                   Inr (p\<lparr>hp_row_slots := Some (fold (\<lambda>i slots. slots[off + i := w]) [0..<re_row_count entry] slots),
                          hp_row_local_idxs := Some (fold (\<lambda>i idxs. idxs[off + i := i]) [0..<re_row_count entry] idxs)\<rparr>)
               | _ \<Rightarrow> Inl (Elog ''hash join shared-payload combine mapping arrays missing''))
         else if hp_use_keys p then Inr p
         else case re_build_rows entry of
                None \<Rightarrow> Inl (Elog ''hash join combine local build rows missing'')
              | Some src \<Rightarrow> Inr (p\<lparr>hp_build_rows := CopyLocalTdcIntoGlobal row_layout src off
                               (re_global_row_heap_offset entry) (hp_build_rows p)\<rparr>))"

definition cs_move :: "nat \<Rightarrow> combine_pc \<Rightarrow> hash_payload \<Rightarrow> combine_state \<Rightarrow> combine_state" where
  "cs_move w pc p s = s\<lparr>cs_payload := p, cs_pc := (cs_pc s)(w := pc)\<rparr>"

inductive combine_step :: "tuple_data_layout \<Rightarrow> tuple_data_layout \<Rightarrow> combine_state \<Rightarrow> combine_state \<Rightarrow> bool"
  for key_layout row_layout where
  step_copy: "w < length (hp_registry (cs_payload s)) \<Longrightarrow> cs_pc s w = ToCopy \<Longrightarrow>
    copy_and_hash key_layout w (cs_payload s) = Inr p \<Longrightarrow> combine_step key_layout row_layout s (cs_move w (ToExchange 0) p s)"
| step_exchange: "w < length (hp_registry (cs_payload s)) \<Longrightarrow> cs_pc s w = ToExchange i \<Longrightarrow>
    i < re_row_count (entry_of (cs_payload s) w) \<Longrightarrow>
    link_exchange (re_global_row_offset (entry_of (cs_payload s) w) + i) (cs_payload s) = Inr (old, p) \<Longrightarrow>
    combine_step key_layout row_layout s (cs_move w (ToStore i old) p s)"
| step_store: "w < length (hp_registry (cs_payload s)) \<Longrightarrow> cs_pc s w = ToStore i old \<Longrightarrow>
    p = link_store (re_global_row_offset (entry_of (cs_payload s) w) + i) old (cs_payload s) \<Longrightarrow>
    combine_step key_layout row_layout s (cs_move w (ToExchange (i + 1)) p s)"
| step_rows: "w < length (hp_registry (cs_payload s)) \<Longrightarrow> cs_pc s w = ToExchange i \<Longrightarrow>
    i = re_row_count (entry_of (cs_payload s) w) \<Longrightarrow> publish_rows row_layout w (cs_payload s) = Inr p \<Longrightarrow>
    combine_step key_layout row_layout s (cs_move w Combined p s)"

text \<open>The same in the order of one worker.\<close>

definition link_row :: "nat \<Rightarrow> hash_payload \<Rightarrow> hash_payload result" where
  "link_row g p = rbind (link_exchange g p) (\<lambda>(old, p). Inr (link_store g old p))"

definition LinkPrecomputedJoinHashes :: "nat \<Rightarrow> nat \<Rightarrow> hash_payload \<Rightarrow> hash_payload result" where
  "LinkPrecomputedJoinHashes row_offset row_count = fold_res (\<lambda>row_idx. link_row (row_offset + row_idx)) [0..<row_count]"

definition ExecuteHashJoinCombine :: "tuple_data_layout \<Rightarrow> tuple_data_layout \<Rightarrow> nat \<Rightarrow> hash_payload \<Rightarrow> hash_payload result" where
  "ExecuteHashJoinCombine key_layout row_layout w p =
     (let entry = entry_of p w
      in rbind (copy_and_hash key_layout w p) (\<lambda>p.
         rbind (LinkPrecomputedJoinHashes (re_global_row_offset entry) (re_row_count entry) p) (publish_rows row_layout w)))"

definition combine_start :: "hash_payload \<Rightarrow> combine_state" where
  "combine_start p = \<lparr>cs_payload = p, cs_pc = (\<lambda>_. ToCopy)\<rparr>"

section \<open>Combining string keys\<close>

text \<open>
  Without shared local rows, string keys are combined row by row under a lock, growing the global
  collections as needed. One fuel unit is one round of the growth loop. With \<^verbatim>\<open>build_rows_use_keys\<close> both
  appends go to the one collection.
\<close>

definition GrowJoinTdc :: "nat \<Rightarrow> tuple_data_layout \<Rightarrow> tuple_data_collection \<Rightarrow> nat \<Rightarrow> tuple_data_collection result" where
  "GrowJoinTdc hdr layout old_tdc required_heap_bytes =
     (let old_count = tdc_row_count old_tdc; width = unat (layout_row_width layout);
          new_capacity = max (wrap32 (tdc_row_capacity old_tdc * 2)) (wrap32 (old_count + 1))
      in rbind (TupleDataCollectionClampRowCapacity hdr new_capacity width required_heap_bytes (wrap32 (old_count + 1))) (\<lambda>new_capacity.
         rbind (TupleDataCollectionGrowHeapCapacity hdr (Some layout) old_tdc new_capacity required_heap_bytes) (\<lambda>heap_capacity.
         rbind (TupleDataCollectionCheckedAllocSize hdr new_capacity width heap_capacity)
           (\<lambda>_. fold_res (\<lambda>row_idx new_tdc.
                  append_copy ''hash join TDC grow overflow'' layout old_tdc (TupleDataCollectionGetRow old_tdc row_idx) new_tdc)
                [0..<old_count] (TupleDataCollectionInit new_capacity width heap_capacity)))))"

definition grow_if_needed ::
  "nat \<Rightarrow> tuple_data_layout \<Rightarrow> tuple_data_collection \<Rightarrow> u8 list \<Rightarrow> tuple_data_collection \<Rightarrow> tuple_data_collection result" where
  "grow_if_needed hdr layout src src_row tdc =
     rbind (TdcNeedsGrowForStoredRow layout tdc src src_row) (\<lambda>grow.
       if grow then rbind (TupleDataCollectionRequiredHeapBytesForRow layout (Some src) src_row) (GrowJoinTdc hdr layout tdc)
       else Inr tdc)"

fun EnsureJoinGlobalCapacity ::
  "nat \<Rightarrow> nat \<Rightarrow> tuple_data_layout \<Rightarrow> tuple_data_layout \<Rightarrow> tuple_data_collection \<Rightarrow> u8 list \<Rightarrow> tuple_data_collection \<Rightarrow> u8 list \<Rightarrow>
   hash_payload \<Rightarrow> hash_payload result option" where
  "EnsureJoinGlobalCapacity 0 hdr key_layout row_layout key_src key_row row_src row p = None"
| "EnsureJoinGlobalCapacity (Suc fuel) hdr key_layout row_layout key_src key_row row_src row p =
     (case rbind (TdcNeedsGrowForStoredRow key_layout (hp_build_keys p) key_src key_row) (\<lambda>keys_grow.
           if keys_grow then Inr True
           else if hp_use_keys p then Inr False
           else TdcNeedsGrowForStoredRow row_layout (hp_build_rows p) row_src row) of
        Inl e \<Rightarrow> Some (Inl e)
      | Inr False \<Rightarrow> Some (Inr p)
      | Inr True \<Rightarrow>
          (case rbind (grow_if_needed hdr key_layout key_src key_row (hp_build_keys p)) (\<lambda>keys.
                rbind (if hp_use_keys p then Inr (hp_build_rows p)
                       else grow_if_needed hdr row_layout row_src row (hp_build_rows p)) (\<lambda>rows.
                  Inr (p\<lparr>hp_build_keys := keys, hp_build_rows := rows\<rparr>))) of
             Inl e \<Rightarrow> Some (Inl e)
           | Inr p \<Rightarrow> EnsureJoinGlobalCapacity fuel hdr key_layout row_layout key_src key_row row_src row p))"

definition append_key_and_row ::
  "tuple_data_layout \<Rightarrow> tuple_data_layout \<Rightarrow> tuple_data_collection \<Rightarrow> u8 list \<Rightarrow> tuple_data_collection \<Rightarrow> u8 list \<Rightarrow>
   hash_payload \<Rightarrow> hash_payload result" where
  "append_key_and_row key_layout row_layout key_src key_row row_src row p =
     (let (key_idx, keys) = TupleDataCollectionAppendRow (hp_build_keys p); p = p\<lparr>hp_build_keys := keys\<rparr>;
          (idx, rows) = TupleDataCollectionAppendRow (payload_rows p);
          p = (if hp_use_keys p then p\<lparr>hp_build_keys := rows\<rparr> else p\<lparr>hp_build_rows := rows\<rparr>)
      in if key_idx = TDC_INVALID_ROW_INDEX then Inl (Elog ''hash join global build key row capacity exceeded during combine'')
         else if idx = TDC_INVALID_ROW_INDEX then Inl (Elog ''hash join global build row capacity exceeded during combine'')
         else rbind (CopyBuildRow key_layout (Some key_src) key_row (TupleDataCollectionGetRow (hp_build_keys p) key_idx, hp_build_keys p))
           (\<lambda>(dst, keys).
             let p = p\<lparr>hp_build_keys := set_row key_idx dst keys\<rparr>
             in rbind (CopyBuildRow row_layout (Some row_src) row (TupleDataCollectionGetRow (payload_rows p) idx, payload_rows p))
               (\<lambda>(dst, rows).
                 Inr (if hp_use_keys p then p\<lparr>hp_build_keys := set_row idx dst rows\<rparr> else p\<lparr>hp_build_rows := set_row idx dst rows\<rparr>))))"

definition string_combine_row ::
  "nat \<Rightarrow> nat \<Rightarrow> tuple_data_layout \<Rightarrow> tuple_data_layout \<Rightarrow> tuple_data_collection \<Rightarrow> tuple_data_collection \<Rightarrow> nat \<Rightarrow>
   hash_payload \<Rightarrow> hash_payload result option" where
  "string_combine_row fuel hdr key_layout row_layout keys rows row_idx p =
     (let key_row = TupleDataCollectionGetRow keys row_idx; row = TupleDataCollectionGetRow rows row_idx
      in case EnsureJoinGlobalCapacity fuel hdr key_layout row_layout keys key_row rows row p of
           Some (Inr p) \<Rightarrow> Some (append_key_and_row key_layout row_layout keys key_row rows row p)
         | r \<Rightarrow> r)"

section \<open>Finalizing\<close>

definition PublishHashJoinCombinedRows :: "hash_payload \<Rightarrow> hash_payload" where
  "PublishHashJoinCombinedRows p =
     (if hp_prepare_state p \<noteq> 2 then p
      else let p = p\<lparr>hp_build_keys := (hp_build_keys p)\<lparr>tdc_row_count := hp_combined_row_count p, tdc_heap_used := hp_combined_key_heap_used p\<rparr>\<rparr>;
               p = (if hp_shared_local p \<or> hp_use_keys p then p
                    else p\<lparr>hp_build_rows := (hp_build_rows p)\<lparr>tdc_row_count := hp_combined_row_count p, tdc_heap_used := hp_combined_row_heap_used p\<rparr>\<rparr>)
           in p\<lparr>hp_combined := True\<rparr>)"

text \<open>One row of the chain build: its bucket is cached or computed, with its salt.\<close>

definition finalize_row :: "tuple_data_layout \<Rightarrow> tuple_data_collection \<Rightarrow> nat \<Rightarrow> nat list option \<Rightarrow> nat \<Rightarrow>
    nat list \<times> nat list \<times> u16 list \<Rightarrow> (nat list \<times> nat list \<times> u16 list) result" where
  "finalize_row layout keys capacity buckets row_idx arrays =
     (let (heads, links, salts) = arrays
      in rbind (case buckets of Some bs \<Rightarrow> Inr (bs ! row_idx, salts)
                | None \<Rightarrow> rbind (join_row_hash layout keys (TupleDataCollectionGetRow keys row_idx)) (\<lambda>hash.
                    Inr (join_bucket capacity hash, salts[row_idx := HashJoinSalt hash])))
           (\<lambda>(bucket, salts). Inr (heads[bucket := row_idx], links[row_idx := heads ! bucket], salts)))"

definition build_chains :: "(nat \<Rightarrow> nat) \<Rightarrow> tuple_data_layout \<Rightarrow> nat \<Rightarrow> hash_payload \<Rightarrow> hash_payload result" where
  "build_chains mem layout capacity p =
     (let n = tdc_row_count (hp_build_keys p)
      in rbind (fold_res (finalize_row layout (hp_build_keys p) capacity (hp_buckets p)) [0..<n]
                 (replicate capacity HASH_JOIN_INVALID_ROW, map mem [0..<n], map (\<lambda>i. word_of_nat (mem i)) [0..<n]))
           (\<lambda>(heads, links, salts).
             Inr (p\<lparr>hp_capacity := capacity, hp_heads := Some heads, hp_links := Some links, hp_salts := Some salts\<rparr>)))"

definition finish_scan :: "tuple_data_collection \<Rightarrow> tuple_data_collection" where
  "finish_scan tdc = (TupleDataCollectionResetScan tdc)\<lparr>tdc_finalized := True\<rparr>"

text \<open>Finalize without cancellation; the outer \<^verbatim>\<open>None\<close> is the sizing loop not returning.\<close>

definition HashFinalize :: "(nat \<Rightarrow> nat) \<Rightarrow> tuple_data_layout \<Rightarrow> hash_payload \<Rightarrow> hash_payload result option" where
  "HashFinalize mem key_layout p =
     (let p = PublishHashJoinCombinedRows p; n = tdc_row_count (hp_build_keys p)
      in if \<not> hp_shared_local p \<and> \<not> hp_use_keys p \<and> n \<noteq> tdc_row_count (hp_build_rows p)
         then Some (Inl (Elog ''hash join finalize key/payload row counts diverged''))
         else Option.bind
           (if n = 0
            then Some (Inr (p\<lparr>hp_capacity := 0, hp_heads := None, hp_buckets := None, hp_links := None, hp_salts := None\<rparr>))
            else if hp_heads p \<noteq> None \<and> hp_links p \<noteq> None \<and> hp_salts p \<noteq> None then Some (Inr p)
            else Option.bind (if hp_capacity p = 0 then capacity_loop 1 (wrap32 (n * 2)) else Some (hp_capacity p))
              (\<lambda>capacity. Some (build_chains mem key_layout capacity p)))
           (\<lambda>r. Some (rbind r (\<lambda>p.
             Inr (p\<lparr>hp_build_keys := finish_scan (hp_build_keys p), hp_build_rows := finish_scan (hp_build_rows p), hp_finalized := True\<rparr>)))))"


section \<open>The size of the table\<close>

lemma capacity_loop_pow2:
  "k \<le> 31 \<Longrightarrow> target \<le> 2 ^ 31 \<Longrightarrow> \<exists>c. capacity_loop (2 ^ k) target = Some c \<and> is_pow2 c \<and> target \<le> c \<and> (c = 2 ^ k \<or> c < 2 * target)"
proof (induction "31 - k" arbitrary: k)
  case 0
  then have "k = 31" by simp
  then show ?case using 0 is_pow2_power [of 31] by (subst capacity_loop.simps) auto
next
  case (Suc n)
  show ?case
  proof (cases "2 ^ k < target")
    case True
    have "(2 :: nat) ^ Suc k < 2 ^ 32" using Suc.hyps(2) by (intro power_strict_increasing) auto
    then have "wrap32 (2 ^ k * 2) = 2 ^ Suc k" by (simp add: mult.commute)
    then have step: "capacity_loop (2 ^ k) target = capacity_loop (2 ^ Suc k) target" using True by (subst capacity_loop.simps) simp
    obtain c where "capacity_loop (2 ^ Suc k) target = Some c" "is_pow2 c" "target \<le> c" "c = 2 ^ Suc k \<or> c < 2 * target"
      using Suc.hyps(1) [of "Suc k"] Suc.hyps(2) Suc.prems unfolding power_Suc by (metis Suc_leI Suc_diff_Suc diff_Suc_Suc old.nat.inject zero_less_Suc zero_less_diff)
    then show ?thesis using step True by auto
  next
    case False
    then show ?thesis by (subst capacity_loop.simps) auto
  qed
qed

definition doubled :: "nat \<Rightarrow> bool" where
  "doubled c \<longleftrightarrow> c = 0 \<or> (\<exists>k\<le>31. c = 2 ^ k)"

lemma doubled_step: "doubled c \<Longrightarrow> doubled (wrap32 (c * 2))"
proof -
  assume "doubled c"
  then consider "c = 0" | "c = 2 ^ 31" | k where "c = 2 ^ k" "k < 31" unfolding doubled_def by (metis le_neq_implies_less)
  then show ?thesis
  proof cases
    case 3
    then have "(2 :: nat) ^ Suc k < 2 ^ 32" by (intro power_strict_increasing) auto
    then have "wrap32 (c * 2) = 2 ^ Suc k" using 3 by (simp add: mult.commute)
    then show ?thesis using 3(2) unfolding doubled_def by (intro disjI2 exI [of _ "Suc k"]) simp
  qed (simp_all add: wrap32_def doubled_def)
qed

lemma capacity_loop_reaches:
  assumes "capacity_loop c target = Some r"
  shows "doubled c \<longrightarrow> target \<le> r \<and> doubled r"
proof (rule capacity_loop.raw_induct [OF _ assms])
  fix loop c target r
  assume ih: "\<And>c target r. loop c target = Some r \<Longrightarrow> doubled c \<longrightarrow> target \<le> r \<and> doubled r"
    and run: "(if c < target then loop (wrap32 (c * 2)) target else Some c) = Some r"
  show "doubled c \<longrightarrow> target \<le> r \<and> doubled r"
  proof (cases "c < target")
    case True
    then show ?thesis using ih [of "wrap32 (c * 2)" target r] run doubled_step by auto
  qed (use run in simp)
qed

lemma table_capacity:
  assumes "0 < n" "n \<le> 2 ^ 30"
  shows "\<exists>c. ComputeHashTableCapacity n = Some c \<and> is_pow2 c \<and> 2 * n \<le> c \<and> c < 4 * n"
proof -
  have t: "wrap32 (n * 2) = 2 * n" "2 * n \<le> 2 ^ 31" using assms(2) by (simp_all add: mult.commute)
  obtain c where "capacity_loop 1 (2 * n) = Some c" "is_pow2 c" "2 * n \<le> c" "c = 1 \<or> c < 2 * (2 * n)"
    using capacity_loop_pow2 [OF _ t(2), of 0] by auto
  then show ?thesis using assms(1) unfolding ComputeHashTableCapacity_def t(1) by auto
qed

text \<open>The table for n build rows is sized to the power of two from 2 n to below 4 n as long as there are at
  most 2 ^ 30 rows; from there to 2 ^ 31 rows the 32-bit doubling wraps to zero and the loop never ends.\<close>

theorem ComputeHashTableCapacity_result:
  assumes "0 < n" "n < 2 ^ 31"
  shows "if n \<le> 2 ^ 30 then \<exists>c. ComputeHashTableCapacity n = Some c \<and> is_pow2 c \<and> 2 * n \<le> c \<and> c < 4 * n
    else ComputeHashTableCapacity n = None"
proof (cases "n \<le> 2 ^ 30")
  case False
  then have t: "wrap32 (n * 2) = 2 * n" "2 ^ 31 < 2 * n" using assms(2) by (simp_all add: mult.commute)
  have "ComputeHashTableCapacity n \<noteq> Some r" for r
  proof
    assume "ComputeHashTableCapacity n = Some r"
    then have "2 * n \<le> r" "doubled r"
      using capacity_loop_reaches [of 1 "2 * n" r] unfolding ComputeHashTableCapacity_def t(1) by (auto simp: doubled_def)
    moreover have "(2 :: nat) ^ k \<le> 2 ^ 31" if "k \<le> 31" for k using that by (intro power_increasing) auto
    ultimately have "r \<le> 2 ^ 31" by (auto simp: doubled_def)
    then show False using t(2) \<open>2 * n \<le> r\<close> by linarith
  qed
  then show ?thesis using False by (cases "ComputeHashTableCapacity n") auto
qed (use table_capacity assms in simp)

theorem ComputeHashTableCapacity_result_witness:
  "(\<exists>c. ComputeHashTableCapacity 1000 = Some c \<and> is_pow2 c \<and> 2000 \<le> c \<and> c < 4000) \<and> ComputeHashTableCapacity (2 ^ 30 + 1) = None"
  using ComputeHashTableCapacity_result [of 1000] ComputeHashTableCapacity_result [of "2 ^ 30 + 1"] by simp

section \<open>Copied rows\<close>

text \<open>Long strings start behind \<open>lo\<close>.\<close>

definition ref_above :: "nat \<Rightarrow> vec_string_ref \<Rightarrow> bool" where
  "ref_above lo r \<longleftrightarrow> ref_len r = 0 \<or> VecStringRefIsInline r \<or> lo \<le> unat (ref_offset r)"

text \<open>A stored row has a key, and its strings lie in the range from \<open>lo\<close> to \<open>hi\<close> of the heap.\<close>

definition key_at :: "tuple_data_layout \<Rightarrow> u8 list \<Rightarrow> nat \<Rightarrow> nat \<Rightarrow> u8 list \<Rightarrow> gval list \<Rightarrow> bool" where
  "key_at l heap lo hi row key \<longleftrightarrow>
     length row = unat (layout_row_width l) \<and> row_key l heap row = key \<and> hi \<le> length heap \<and>
     (\<forall>c\<in>set (columns l). col_kind c = STRING_REF \<longrightarrow>
        ref_ok heap hi (read_string_ref (unat (col_offset c)) row) \<and> ref_above lo (read_string_ref (unat (col_offset c)) row))"

lemma mem_read_within:
  assumes "mem_read lo n heap' = mem_read lo' n heap" "off + k \<le> n" 
  shows "mem_read (lo + off) k heap' = mem_read (lo' + off) k heap"
proof -
  have *: "mem_read (lo + off) k h = take k (drop off (mem_read lo n h))" for h and lo :: nat
    using assms(2) by (simp add: mem_read_def drop_take min_def add.commute)
  show ?thesis unfolding * assms(1) ..
qed

lemma ref_rebased:
  assumes ref: "ref_ok heap used r" "ref_above lo r" and used: "used \<le> length heap" "lo \<le> used"
    and copied: "mem_read lo' (used - lo) heap' = mem_read lo (used - lo) heap" and heap': "lo' + (used - lo) \<le> length heap'"
    and r': "ref_len r' = ref_len r" "ref_prefix r' = ref_prefix r"
      "ref_len r = 0 \<or> VecStringRefIsInline r \<Longrightarrow> ref_offset r' = ref_offset r"
      "ref_len r \<noteq> 0 \<Longrightarrow> \<not> VecStringRefIsInline r \<Longrightarrow> unat (ref_offset r') = unat (ref_offset r) - lo + lo'"
  shows "ref_ok heap' (lo' + (used - lo)) r'" "ref_above lo' r'" "ref_string heap' r' = ref_string heap r"
proof -
  have inline: "ref_len r = 0 \<or> VecStringRefIsInline r \<Longrightarrow> VecStringRefIsInline r' = VecStringRefIsInline r"
    using r' by (simp add: VecStringRefIsInline_def)
  have "ref_ok heap' (lo' + (used - lo)) r' \<and> ref_above lo' r' \<and> ref_string heap' r' = ref_string heap r"
  proof (cases "ref_len r = 0 \<or> VecStringRefIsInline r")
    case True
    then show ?thesis using assms inline by (auto simp: ref_ok_def ref_above_def ref_string_def VecStringRefDataPtr_def VecStringRefIsInline_def)
  next
    case False
    then have len: "\<not> ref_len r \<le> 8" using ref(1) by (auto simp: ref_ok_def)
    then have noninline: "\<not> VecStringRefIsInline r'" using r'(1) by (simp add: VecStringRefIsInline_def)
    let ?o = "unat (ref_offset r)" and ?n = "unat (ref_len r)"
    have o: "lo \<le> ?o" "?o + ?n \<le> used" "ref_prefix r = string_prefix (mem_read ?o ?n heap)"
      using ref False len by (auto simp: ref_ok_def ref_above_def)
    have o': "unat (ref_offset r') = ?o - lo + lo'" using r'(4) False by auto
    have "mem_read (lo' + (?o - lo)) ?n heap' = mem_read (lo + (?o - lo)) ?n heap"
      by (rule mem_read_within [OF copied]) (use o in simp)
    then have read: "mem_read (unat (ref_offset r')) ?n heap' = mem_read ?o ?n heap" using o o' by (simp add: add.commute)
    show ?thesis
      using False len noninline o o' read r'(1,2) heap' used by (auto simp: ref_ok_def ref_above_def ref_string_def VecStringRefDataPtr_def)
  qed
  then show "ref_ok heap' (lo' + (used - lo)) r'" "ref_above lo' r'" "ref_string heap' r' = ref_string heap r" by auto
qed

lemma rebased_row_fold: "rebased_row l ho row = fold (rebase_column ho row) (columns l) row"
proof (cases "LayoutHasStringRef l")
  case False
  have "(\<forall>c\<in>set cs. col_kind c \<noteq> STRING_REF) \<Longrightarrow> fold (rebase_column ho row) cs r = r" for cs r
    by (induction cs) (simp_all add: rebase_column_def)
  then show ?thesis using False by (auto simp: rebased_row_def LayoutHasStringRef_def list_ex_iff)
qed (simp add: rebased_row_def)

definition column_moved :: "u8 list \<Rightarrow> nat \<Rightarrow> u8 list \<Rightarrow> nat \<Rightarrow> nat \<Rightarrow> u8 list \<Rightarrow> u8 list \<Rightarrow> tdc_column_desc \<Rightarrow> bool" where
  "column_moved heap used heap' lo hi src row c \<longleftrightarrow>
     row_val heap' row c = row_val heap src c \<and>
     (col_kind c = STRING_REF \<longrightarrow> ref_ok heap' hi (read_string_ref (unat (col_offset c)) row) \<and>
        ref_above lo (read_string_ref (unat (col_offset c)) row))"

lemma column_fits: "layout_ok l \<Longrightarrow> c \<in> set (columns l) \<Longrightarrow>
    unat (col_offset c) + unat (col_width c) \<le> unat (layout_row_width l) \<and> (col_kind c = STRING_REF \<longrightarrow> unat (col_width c) = 16)"
  using layout_ok_column [of l c] by (auto simp: layout_ok_def)

lemma rebase_columns:
  assumes l: "layout_ok l" and key: "key_at l heap 0 used src key"
    and copied: "mem_read ho used heap' = mem_read 0 used heap" and heap': "ho + used \<le> length heap'" "ho + used < 2 ^ 32"
  shows "columns l = xs @ ys \<Longrightarrow>
    length (fold (rebase_column ho src) xs src) = unat (layout_row_width l) \<and>
    (\<forall>c\<in>set xs. column_moved heap used heap' ho (ho + used) src (fold (rebase_column ho src) xs src) c) \<and>
    (\<forall>c\<in>set ys. (\<forall>h. row_val h (fold (rebase_column ho src) xs src) c = row_val h src c) \<and>
       (col_kind c = STRING_REF \<longrightarrow>
         read_string_ref (unat (col_offset c)) (fold (rebase_column ho src) xs src) = read_string_ref (unat (col_offset c)) src))"
proof (induction xs arbitrary: ys rule: rev_induct)
  case Nil
  then show ?case using key by (simp add: key_at_def)
next
  case (snoc d xs)
  let ?row = "fold (rebase_column ho src) xs src"
  have cols: "columns l = xs @ d # ys" using snoc.prems by simp
  note ih = snoc.IH [OF cols]
  have d: "d \<in> set (columns l)" using cols by simp
  show ?case
  proof (cases "col_kind d = STRING_REF \<and> \<not> (ref_len (read_string_ref (unat (col_offset d)) src) = 0 \<or>
      VecStringRefIsInline (read_string_ref (unat (col_offset d)) src))")
    case True
    let ?off = "unat (col_offset d)" and ?r = "read_string_ref (unat (col_offset d)) src"
    let ?r' = "?r\<lparr>ref_offset := ref_offset ?r + word_of_nat ho\<rparr>"
    have step: "fold (rebase_column ho src) (xs @ [d]) src = write_string_ref ?off ?r' ?row"
      using True by (simp add: rebase_column_def Let_def)
    have off: "?off + 16 \<le> length ?row" using column_fits [OF l d] True ih by simp
    have ref: "ref_ok heap used ?r" "ref_above 0 ?r" "used \<le> length heap" using key d True by (auto simp: key_at_def)
    have "\<not> ref_len ?r \<le> 8" using ref(1) True by (auto simp: ref_ok_def)
    then have o: "unat (ref_offset ?r) + ho < 2 ^ 32" using ref(1) True heap'(2) by (auto simp: ref_ok_def)
    have "unat (ref_offset ?r') = unat (ref_offset ?r) - 0 + ho"
      using o by (simp add: unat_word_ariths unat_of_nat)
    then have moved: "ref_ok heap' (ho + used) ?r'" "ref_above ho ?r'" "ref_string heap' ?r' = ref_string heap ?r"
      using ref_rebased [OF ref(1,2,3), of ho heap' ?r'] copied heap'(1) True by auto
    have reread: "read_string_ref ?off (write_string_ref ?off ?r' ?row) = ?r'" by (rule read_write_string_ref [OF off])
    have "column_moved heap used heap' ho (ho + used) src (write_string_ref ?off ?r' ?row) d"
      using moved True by (simp add: column_moved_def row_val_def reread)
    moreover have apart: "row_val h (write_string_ref ?off ?r' ?row) c = row_val h ?row c"
      "col_kind c = STRING_REF \<Longrightarrow> read_string_ref (unat (col_offset c)) (write_string_ref ?off ?r' ?row) = read_string_ref (unat (col_offset c)) ?row"
      if "c \<in> set xs \<union> set ys" for c h
    proof -
      have c: "c \<in> set (columns l)" using that cols by auto
      have "unat (col_offset c) + unat (col_width c) \<le> ?off \<or> ?off + 16 \<le> unat (col_offset c)"
        using columns_apart [OF l cols that] column_fits [OF l d] True by auto
      then show "row_val h (write_string_ref ?off ?r' ?row) c = row_val h ?row c"
        "col_kind c = STRING_REF \<Longrightarrow> read_string_ref (unat (col_offset c)) (write_string_ref ?off ?r' ?row) = read_string_ref (unat (col_offset c)) ?row"
        unfolding write_string_ref_def using row_val_apart [OF l c, of ?row ?off] ih off by auto
    qed
    ultimately show ?thesis unfolding step using ih off by (auto simp: column_moved_def)
  next
    case False
    then have step: "fold (rebase_column ho src) (xs @ [d]) src = ?row" by (auto simp: rebase_column_def)
    have "column_moved heap used heap' ho (ho + used) src ?row d"
    proof (cases "col_kind d = STRING_REF")
      case True
      let ?r = "read_string_ref (unat (col_offset d)) src"
      have inline: "ref_len ?r = 0 \<or> VecStringRefIsInline ?r" using False True by auto
      have "ref_ok heap used ?r" "ref_above 0 ?r" "used \<le> length heap" using key d True by (auto simp: key_at_def)
      from ref_rebased [OF this(1,2,3), of ho heap' ?r] inline copied heap'(1)
      show ?thesis using ih True by (auto simp: column_moved_def row_val_def)
    next
      case False
      have "row_val heap' ?row d = row_val heap ?row d" using False by (cases "col_kind d") (simp_all add: row_val_def)
      then show ?thesis using ih False by (simp add: column_moved_def)
    qed
    then show ?thesis unfolding step using ih by auto
  qed
qed

lemma rebased_key:
  assumes "layout_ok l" "key_at l heap 0 used src key"
    and "mem_read ho used heap' = mem_read 0 used heap" "ho + used \<le> length heap'" "ho + used < 2 ^ 32"
  shows "key_at l heap' ho (ho + used) (rebased_row l ho src) key"
  using rebase_columns [OF assms, of "columns l" "[]"] assms(2,4)
  unfolding rebased_row_fold key_at_def row_key_def by (auto simp: column_moved_def)

lemma key_at_heap:
  assumes "key_at l heap lo hi row key" "lo \<le> hi" "mem_read lo (hi - lo) heap' = mem_read lo (hi - lo) heap" "hi \<le> length heap'"
  shows "key_at l heap' lo hi row key"
proof -
  have val: "row_val heap' row c = row_val heap row c \<and> (col_kind c = STRING_REF \<longrightarrow> ref_ok heap' hi (read_string_ref (unat (col_offset c)) row))"
    if c: "c \<in> set (columns l)" for c
  proof (cases "col_kind c = STRING_REF")
    case True
    let ?r = "read_string_ref (unat (col_offset c)) row"
    have "ref_ok heap hi ?r" "ref_above lo ?r" "hi \<le> length heap" using assms(1) c True by (auto simp: key_at_def)
    from ref_rebased [OF this assms(2,3), of ?r] assms(2,4) this(2) show ?thesis
      by (auto simp: row_val_def True ref_above_def)
  next
    case False
    then show ?thesis by (cases "col_kind c") (simp_all add: row_val_def)
  qed
  then have "row_key l heap' row = row_key l heap row" by (simp add: row_key_def)
  then show ?thesis using assms(1,4) val by (auto simp: key_at_def)
qed


section \<open>Chains\<close>

fun chain :: "(nat \<Rightarrow> nat) \<Rightarrow> nat \<Rightarrow> nat list \<Rightarrow> bool" where
  "chain nx h [] \<longleftrightarrow> h = HASH_JOIN_INVALID_ROW"
| "chain nx h (r # rs) \<longleftrightarrow> h = r \<and> r \<noteq> HASH_JOIN_INVALID_ROW \<and> chain nx (nx r) rs"

lemma chain_cong: "(\<And>r. r \<in> set rs \<Longrightarrow> nx r = nx' r) \<Longrightarrow> chain nx h rs = chain nx' h rs"
  by (induction rs arbitrary: h) auto

section \<open>A combined table\<close>

definition src_of :: "hash_payload \<Rightarrow> nat \<Rightarrow> tuple_data_collection" where
  "src_of p w = the (re_build_keys (entry_of p w))"

definition global_row :: "hash_payload \<Rightarrow> nat \<Rightarrow> nat \<Rightarrow> nat" where
  "global_row p w i = re_global_row_offset (entry_of p w) + i"

definition rows_of :: "hash_payload \<Rightarrow> nat \<Rightarrow> nat" where
  "rows_of p w = re_row_count (entry_of p w)"

definition key_heap_from :: "hash_payload \<Rightarrow> nat \<Rightarrow> nat" where
  "key_heap_from p w = re_global_key_heap_offset (entry_of p w)"

definition key_heap_to :: "hash_payload \<Rightarrow> nat \<Rightarrow> nat" where
  "key_heap_to p w = key_heap_from p w + re_key_heap_used (entry_of p w)"

definition local_key :: "tuple_data_layout \<Rightarrow> hash_payload \<Rightarrow> nat \<Rightarrow> nat \<Rightarrow> gval list" where
  "local_key l p w i = row_key l (tdc_heap (src_of p w)) (TupleDataCollectionGetRow (src_of p w) i)"

text \<open>The rows and heap ranges that Prepare hands out: apart, inside the global collection, and without gaps.\<close>

definition ranges_ok :: "hash_payload \<Rightarrow> bool" where
  "ranges_ok p \<longleftrightarrow>
     (\<forall>w < length (hp_registry p). global_row p w (rows_of p w) \<le> hp_combined_row_count p \<and>
        key_heap_to p w \<le> length (tdc_heap (hp_build_keys p))) \<and>
     (\<forall>v w. v < w \<longrightarrow> w < length (hp_registry p) \<longrightarrow>
        global_row p v (rows_of p v) \<le> global_row p w 0 \<and> key_heap_to p v \<le> key_heap_from p w) \<and>
     (\<forall>r < hp_combined_row_count p. \<exists>w < length (hp_registry p). \<exists>i < rows_of p w. r = global_row p w i)"

text \<open>What the workers bring: their key rows, with their strings in the used part of their heap.\<close>

definition local_ok :: "tuple_data_layout \<Rightarrow> hash_payload \<Rightarrow> nat \<Rightarrow> bool" where
  "local_ok l p w \<longleftrightarrow>
     (case re_build_keys (entry_of p w) of None \<Rightarrow> rows_of p w = 0
      | Some src \<Rightarrow> rows_of p w = tdc_row_count src \<and> re_key_heap_used (entry_of p w) = tdc_heap_used src \<and>
          tdc_heap_used src \<le> length (tdc_heap src) \<and>
          (\<forall>i < tdc_row_count src. key_at l (tdc_heap src) 0 (tdc_heap_used src) (TupleDataCollectionGetRow src i) (local_key l p w i)))"

definition arrays_ok :: "hash_payload \<Rightarrow> bool" where
  "arrays_ok p \<longleftrightarrow>
     (\<exists>heads buckets links salts. hp_heads p = Some heads \<and> hp_buckets p = Some buckets \<and> hp_links p = Some links \<and>
        hp_salts p = Some salts \<and> length heads = hp_capacity p \<and> length buckets = hp_combined_row_count p \<and>
        length links = hp_combined_row_count p \<and> length salts = hp_combined_row_count p)"

lemma arrays_ok_alt:
  "arrays_ok p \<longleftrightarrow> hp_heads p \<noteq> None \<and> hp_buckets p \<noteq> None \<and> hp_links p \<noteq> None \<and> hp_salts p \<noteq> None \<and>
     length (the (hp_heads p)) = hp_capacity p \<and> length (the (hp_buckets p)) = hp_combined_row_count p \<and>
     length (the (hp_links p)) = hp_combined_row_count p \<and> length (the (hp_salts p)) = hp_combined_row_count p"
  by (auto simp: arrays_ok_def)

definition prepared :: "tuple_data_layout \<Rightarrow> hash_payload \<Rightarrow> bool" where
  "prepared l p \<longleftrightarrow>
     layout_ok l \<and> ranges_ok p \<and> (\<forall>w < length (hp_registry p). local_ok l p w) \<and> arrays_ok p \<and>
     set (the (hp_heads p)) \<subseteq> {HASH_JOIN_INVALID_ROW} \<and> is_pow2 (hp_capacity p) \<and> hp_capacity p < 2 ^ 32 \<and>
     hp_combined_row_count p \<le> UINT32_MAX \<and> hp_combined_row_count p \<le> length (tdc_rows (hp_build_keys p)) \<and>
     length (tdc_heap (hp_build_keys p)) < 2 ^ 32"

definition linked :: "hash_payload \<Rightarrow> combine_pc \<Rightarrow> nat \<Rightarrow> nat" where
  "linked p pc w = (case pc of ToCopy \<Rightarrow> 0 | ToExchange i \<Rightarrow> i | ToStore i old \<Rightarrow> Suc i | Combined \<Rightarrow> rows_of p w)"

definition stored :: "hash_payload \<Rightarrow> combine_pc \<Rightarrow> nat \<Rightarrow> nat" where
  "stored p pc w = (case pc of ToStore i old \<Rightarrow> i | _ \<Rightarrow> linked p pc w)"

definition same_shape :: "hash_payload \<Rightarrow> hash_payload \<Rightarrow> bool" where
  "same_shape p q \<longleftrightarrow>
     hp_registry q = hp_registry p \<and> hp_capacity q = hp_capacity p \<and> hp_combined_row_count q = hp_combined_row_count p \<and>
     length (tdc_rows (hp_build_keys q)) = length (tdc_rows (hp_build_keys p)) \<and>
     length (tdc_heap (hp_build_keys q)) = length (tdc_heap (hp_build_keys p)) \<and> arrays_ok q"

text \<open>Rows that were copied: their key is that of the worker's row, their bucket and salt its hash.\<close>

definition row_copied_ok :: "tuple_data_layout \<Rightarrow> hash_payload \<Rightarrow> nat \<Rightarrow> nat \<Rightarrow> bool" where
  "row_copied_ok l p w i \<longleftrightarrow>
     key_at l (tdc_heap (hp_build_keys p)) (key_heap_from p w) (key_heap_to p w)
       (TupleDataCollectionGetRow (hp_build_keys p) (global_row p w i)) (local_key l p w i) \<and>
     the (hp_buckets p) ! global_row p w i = join_bucket (hp_capacity p) (hash_key (local_key l p w i)) \<and>
     the (hp_salts p) ! global_row p w i = HashJoinSalt (hash_key (local_key l p w i))"

definition linked_rows :: "hash_payload \<Rightarrow> (nat \<Rightarrow> combine_pc) \<Rightarrow> nat \<Rightarrow> nat set" where
  "linked_rows p pc b = {global_row p w i | w i. w < length (hp_registry p) \<and> i < linked p (pc w) w \<and>
     the (hp_buckets p) ! global_row p w i = b}"

text \<open>
  The chains at any moment: a row whose link is not stored yet is followed by the head that its worker holds.
\<close>

definition chains_ok :: "hash_payload \<Rightarrow> (nat \<Rightarrow> combine_pc) \<Rightarrow> bool" where
  "chains_ok p pc \<longleftrightarrow> (\<exists>nx L.
     (\<forall>w < length (hp_registry p). \<forall>i old. pc w = ToStore i old \<longrightarrow> nx (global_row p w i) = old) \<and>
     (\<forall>w < length (hp_registry p). \<forall>i < stored p (pc w) w. nx (global_row p w i) = the (hp_links p) ! global_row p w i) \<and>
     (\<forall>b < hp_capacity p. chain nx (the (hp_heads p) ! b) (L b) \<and> distinct (L b) \<and> set (L b) = linked_rows p pc b))"

definition combine_inv :: "tuple_data_layout \<Rightarrow> hash_payload \<Rightarrow> combine_state \<Rightarrow> bool" where
  "combine_inv l p0 s \<longleftrightarrow>
     same_shape p0 (cs_payload s) \<and>
     (\<forall>w < length (hp_registry p0). linked p0 (cs_pc s w) w \<le> rows_of p0 w \<and>
        (cs_pc s w \<noteq> ToCopy \<longrightarrow> (\<forall>i < rows_of p0 w. row_copied_ok l (cs_payload s) w i))) \<and>
     chains_ok (cs_payload s) (cs_pc s)"

lemma same_shape_simps:
  assumes "same_shape p q"
  shows "entry_of q w = entry_of p w" "rows_of q w = rows_of p w" "global_row q w i = global_row p w i"
    "key_heap_from q w = key_heap_from p w" "key_heap_to q w = key_heap_to p w" "local_key l q w i = local_key l p w i"
    "src_of q w = src_of p w" "linked q pc w = linked p pc w" "stored q pc w = stored p pc w" "hp_registry q = hp_registry p"
    "hp_capacity q = hp_capacity p" "hp_combined_row_count q = hp_combined_row_count p"
  using assms by (simp_all add: same_shape_def entry_of_def rows_of_def global_row_def key_heap_from_def key_heap_to_def local_key_def
      src_of_def linked_def stored_def split: combine_pc.split)

text \<open>Rows of different workers, and different rows of one worker, are different global rows.\<close>

lemma global_row_eq:
  assumes "ranges_ok p" "v < length (hp_registry p)" "w < length (hp_registry p)" "i < rows_of p v" "j < rows_of p w"
    and "global_row p v i = global_row p w j"
  shows "v = w \<and> i = j"
proof -
  have "global_row p v (rows_of p v) \<le> global_row p w 0" if "v < w" using assms(1,3) that by (auto simp: ranges_ok_def)
  moreover have "global_row p w (rows_of p w) \<le> global_row p v 0" if "w < v" using assms(1,2) that by (auto simp: ranges_ok_def)
  ultimately show ?thesis using assms(4-6) by (cases v w rule: linorder_cases) (auto simp: global_row_def)
qed

lemma global_row_less: "ranges_ok p \<Longrightarrow> w < length (hp_registry p) \<Longrightarrow> i < rows_of p w \<Longrightarrow> global_row p w i < hp_combined_row_count p"
  by (fastforce simp: ranges_ok_def global_row_def)

section \<open>The steps keep the invariant\<close>

lemma fold_set_rows:
  "length (tdc_rows (fold (\<lambda>i dst. set_row (off + i) (f i) dst) [0..<n] dst)) = length (tdc_rows dst) \<and>
   tdc_heap (fold (\<lambda>i dst. set_row (off + i) (f i) dst) [0..<n] dst) = tdc_heap dst \<and>
   (\<forall>r < length (tdc_rows dst). tdc_rows (fold (\<lambda>i dst. set_row (off + i) (f i) dst) [0..<n] dst) ! r =
     (if off \<le> r \<and> r < off + n then f (r - off) else tdc_rows dst ! r))"
proof (induction n)
  case (Suc n)
  then show ?case by (auto simp: set_row_def nth_list_update less_Suc_eq)
qed auto

lemma CopyLocalTdcIntoGlobal_effect:
  fixes l off
  assumes "ho + tdc_heap_used src \<le> length (tdc_heap dst)" "tdc_heap_used src \<le> length (tdc_heap src)"
  defines "dst' \<equiv> CopyLocalTdcIntoGlobal l src off ho dst"
  shows "length (tdc_rows dst') = length (tdc_rows dst)" "length (tdc_heap dst') = length (tdc_heap dst)"
    "r < length (tdc_rows dst) \<Longrightarrow> TupleDataCollectionGetRow dst' r =
       (if off \<le> r \<and> r < off + tdc_row_count src then rebased_row l ho (TupleDataCollectionGetRow src (r - off))
        else TupleDataCollectionGetRow dst r)"
    "mem_read ho (tdc_heap_used src) (tdc_heap dst') = mem_read 0 (tdc_heap_used src) (tdc_heap src)"
    "lo + n \<le> ho \<or> ho + tdc_heap_used src \<le> lo \<Longrightarrow> lo + n \<le> length (tdc_heap dst) \<Longrightarrow>
       mem_read lo n (tdc_heap dst') = mem_read lo n (tdc_heap dst)"
proof -
  let ?bs = "take (tdc_heap_used src) (tdc_heap src)"
  let ?dst = "if tdc_heap_used src = 0 then dst else dst\<lparr>tdc_heap := mem_write ho ?bs (tdc_heap dst)\<rparr>"
  have bs: "length ?bs = tdc_heap_used src" using assms(2) by simp
  have heap: "tdc_heap ?dst = mem_write ho ?bs (tdc_heap dst)" "tdc_rows ?dst = tdc_rows dst"
    using assms(1) by (simp_all add: mem_write_def)
  note rows = fold_set_rows [of off "\<lambda>i. rebased_row l ho (TupleDataCollectionGetRow src i)" "tdc_row_count src" ?dst]
  have dst': "dst' = fold (\<lambda>i dst. set_row (off + i) (rebased_row l ho (TupleDataCollectionGetRow src i)) dst) [0..<tdc_row_count src] ?dst"
    by (simp add: dst'_def CopyLocalTdcIntoGlobal_def)
  show "length (tdc_rows dst') = length (tdc_rows dst)" "length (tdc_heap dst') = length (tdc_heap dst)"
    using rows heap bs assms(1) unfolding dst' by simp_all
  show "TupleDataCollectionGetRow dst' r = (if off \<le> r \<and> r < off + tdc_row_count src then rebased_row l ho (TupleDataCollectionGetRow src (r - off))
        else TupleDataCollectionGetRow dst r)" if "r < length (tdc_rows dst)"
    using rows heap that unfolding dst' by (simp add: TupleDataCollectionGetRow_def)
  show "mem_read ho (tdc_heap_used src) (tdc_heap dst') = mem_read 0 (tdc_heap_used src) (tdc_heap src)"
    using rows heap bs assms(1) unfolding dst' by (simp add: mem_read_write mem_read_def [of 0])
  show "mem_read lo n (tdc_heap dst') = mem_read lo n (tdc_heap dst)"
    if "lo + n \<le> ho \<or> ho + tdc_heap_used src \<le> lo" "lo + n \<le> length (tdc_heap dst)"
    using rows heap bs assms(1) that unfolding dst' by (simp add: mem_read_write_apart)
qed

lemma join_row_hash_refs:
  assumes "row_refs_ok l (tdc_heap t) hi row"
  shows "join_row_hash l t row = Inr (hash_key (row_key l (tdc_heap t) row))"
proof (cases "TryHashSingleJoinKeyRow l row")
  case None
  then show ?thesis using HashGroupRow_key [OF assms] by (simp add: join_row_hash_def)
next
  case (Some h)
  then obtain c where c: "columns l = [c]" by (auto simp: TryHashSingleJoinKeyRow_def column_count_def length_Suc_conv split: if_splits)
  then have "hash_key (row_key l (tdc_heap t) row) = h" using Some
    by (cases "col_kind c") (auto simp: TryHashSingleJoinKeyRow_def column_count_def row_key_def row_val_def hash_key_single)
  then show ?thesis using Some by (simp add: join_row_hash_def)
qed

lemma join_row_hash_key:
  assumes "key_at l (tdc_heap t) lo hi row key"
  shows "join_row_hash l t row = Inr (hash_key key)"
  using join_row_hash_refs [of l t hi row] assms by (auto simp: key_at_def row_refs_ok_def)

text \<open>The arrays after hashing a worker's rows.\<close>

lemma hash_loop:
  assumes "\<And>i. i < n \<Longrightarrow> join_row_hash l src (TupleDataCollectionGetRow src i) = Inr (hash_key (key i))"
    and "off + n \<le> length bs" "length ss = length bs"
  shows "\<exists>bs' ss'. fold_res (\<lambda>i (bs, ss). rbind (join_row_hash l src (TupleDataCollectionGetRow src i)) (\<lambda>hash.
      Inr (bs[off + i := join_bucket c hash], ss[off + i := HashJoinSalt hash]))) [0..<n] (bs, ss) = Inr (bs', ss') \<and>
    length bs' = length bs \<and> length ss' = length bs \<and>
    (\<forall>r < length bs. bs' ! r = (if off \<le> r \<and> r < off + n then join_bucket c (hash_key (key (r - off))) else bs ! r) \<and>
      ss' ! r = (if off \<le> r \<and> r < off + n then HashJoinSalt (hash_key (key (r - off))) else ss ! r))"
  using assms(1,2)
proof (induction n)
  case 0
  have "\<not> (off \<le> r \<and> r < off)" for r by simp
  then show ?case using assms(3) by auto
next
  case (Suc n)
  then obtain bs' ss' where run: "fold_res (\<lambda>i (bs, ss). rbind (join_row_hash l src (TupleDataCollectionGetRow src i)) (\<lambda>hash.
      Inr (bs[off + i := join_bucket c hash], ss[off + i := HashJoinSalt hash]))) [0..<n] (bs, ss) = Inr (bs', ss')"
    "length bs' = length bs" "length ss' = length bs"
    "\<forall>r < length bs. bs' ! r = (if off \<le> r \<and> r < off + n then join_bucket c (hash_key (key (r - off))) else bs ! r) \<and>
      ss' ! r = (if off \<le> r \<and> r < off + n then HashJoinSalt (hash_key (key (r - off))) else ss ! r)" by auto
  show ?case using run Suc.prems
    by (intro exI [of _ "bs'[off + n := join_bucket c (hash_key (key n))]"] exI [of _ "ss'[off + n := HashJoinSalt (hash_key (key n))]"])
      (auto simp: fold_res_append nth_list_update less_Suc_eq)
qed


lemma join_bucket_less:
  assumes "is_pow2 c" "c < 2 ^ 32"
  shows "join_bucket c h < c"
proof -
  have c: "unat (word_of_nat c :: u32) = c" using assms(2) by (rule unat_of_nat_u32)
  have "join_bucket c h = unat (ucast h :: u32) mod c"
    unfolding join_bucket_def using unat_and_pow2_mask [of "word_of_nat c :: u32" "ucast h"] assms(1) c by simp
  then show ?thesis using assms(1) by simp
qed

text \<open>The part of the payload that the rows' invariant is about.\<close>

lemma row_copied_same:
  assumes "hp_registry q = hp_registry p" "hp_build_keys q = hp_build_keys p" "hp_buckets q = hp_buckets p" "hp_salts q = hp_salts p"
    "hp_capacity q = hp_capacity p"
  shows "row_copied_ok l q w i = row_copied_ok l p w i"
  using assms by (simp add: row_copied_ok_def key_heap_from_def key_heap_to_def global_row_def local_key_def src_of_def entry_of_def)

lemma copy_and_hash_effect:
  assumes prep: "prepared l p0" and shape: "same_shape p0 p" and w: "w < length (hp_registry p0)" and run: "copy_and_hash l w p = Inr p'"
  shows "same_shape p0 p'" "hp_heads p' = hp_heads p" "hp_links p' = hp_links p"
    "\<And>i. i < rows_of p0 w \<Longrightarrow> row_copied_ok l p' w i"
    "\<And>v i. v < length (hp_registry p0) \<Longrightarrow> v \<noteq> w \<Longrightarrow> i < rows_of p0 v \<Longrightarrow> row_copied_ok l p v i \<Longrightarrow>
       row_copied_ok l p' v i \<and> the (hp_buckets p') ! global_row p0 v i = the (hp_buckets p) ! global_row p0 v i"
proof -
  let ?off = "re_global_row_offset (entry_of p0 w)" and ?ho = "key_heap_from p0 w" and ?n = "rows_of p0 w"
  note [simp] = same_shape_simps [OF shape]
  obtain src where src: "re_build_keys (entry_of p0 w) = Some src" using run by (auto simp: copy_and_hash_def Let_def split: option.splits)
  have local: "rows_of p0 w = tdc_row_count src" "key_heap_to p0 w = ?ho + tdc_heap_used src" "tdc_heap_used src \<le> length (tdc_heap src)"
    "\<And>i. i < ?n \<Longrightarrow> key_at l (tdc_heap src) 0 (tdc_heap_used src) (TupleDataCollectionGetRow src i) (local_key l p0 w i)"
    using prep w src by (auto simp: prepared_def local_ok_def key_heap_to_def)
  have rg: "ranges_ok p0" "layout_ok l" "length (tdc_heap (hp_build_keys p0)) < 2 ^ 32"
    "hp_combined_row_count p0 \<le> length (tdc_rows (hp_build_keys p0))" "is_pow2 (hp_capacity p0)"
    using prep by (auto simp: prepared_def)
  have range: "?off + ?n \<le> hp_combined_row_count p0" "?ho + tdc_heap_used src \<le> length (tdc_heap (hp_build_keys p0))"
    using rg(1) w local(2) by (auto simp: ranges_ok_def global_row_def)
  have len: "length (tdc_rows (hp_build_keys p)) = length (tdc_rows (hp_build_keys p0))"
    "length (tdc_heap (hp_build_keys p)) = length (tdc_heap (hp_build_keys p0))" using shape by (simp_all add: same_shape_def)
  obtain heads bs links ss where arr: "hp_heads p = Some heads" "hp_buckets p = Some bs" "hp_links p = Some links" "hp_salts p = Some ss"
    "length heads = hp_capacity p" "length bs = hp_combined_row_count p" "length links = hp_combined_row_count p"
    "length ss = hp_combined_row_count p" using shape by (auto simp: same_shape_def arrays_ok_def)
  define keys where "keys = CopyLocalTdcIntoGlobal l src ?off ?ho (hp_build_keys p)"
  note copy = CopyLocalTdcIntoGlobal_effect [where ho = ?ho and src = src and dst = "hp_build_keys p" and l = l and off = ?off, OF _ local(3), folded keys_def]
  have cap: "\<not> (hp_capacity p0 = 0 \<or> hp_capacity p0 AND (hp_capacity p0 - 1) \<noteq> 0)"
    using rg(5) nat_and_pow2_mask [OF rg(5), of "hp_capacity p0"] by (auto simp del: One_nat_def dest: is_pow2_pos)
  have hash: "join_row_hash l src (TupleDataCollectionGetRow src i) = Inr (hash_key (local_key l p0 w i))" if "i < ?n" for i
    using join_row_hash_key [OF local(4) [OF that]] .
  obtain bs' ss' where loop: "fold_res (\<lambda>i (bs, ss). rbind (join_row_hash l src (TupleDataCollectionGetRow src i)) (\<lambda>hash.
      Inr (bs[?off + i := join_bucket (hp_capacity p0) hash], ss[?off + i := HashJoinSalt hash]))) [0..<?n] (bs, ss) = Inr (bs', ss')"
    "length bs' = length bs" "length ss' = length bs"
    "\<forall>r < length bs. bs' ! r = (if ?off \<le> r \<and> r < ?off + ?n then join_bucket (hp_capacity p0) (hash_key (local_key l p0 w (r - ?off))) else bs ! r) \<and>
      ss' ! r = (if ?off \<le> r \<and> r < ?off + ?n then HashJoinSalt (hash_key (local_key l p0 w (r - ?off))) else ss ! r)"
    using hash_loop [of ?n l src "local_key l p0 w" ?off bs ss "hp_capacity p0"] hash range(1) arr by auto
  have run': "PrecomputeJoinHashes l src ?off ?n (p\<lparr>hp_build_keys := keys\<rparr>) = Inr p'"
    using run src by (simp add: copy_and_hash_def Let_def keys_def key_heap_from_def rows_of_def)
  have same: "q\<lparr>hp_buckets := hp_buckets q, hp_salts := hp_salts q\<rparr> = q" for q :: hash_payload by simp
  have p': "p' = p\<lparr>hp_build_keys := keys, hp_buckets := Some bs', hp_salts := Some ss'\<rparr>"
  proof (cases "?n = 0")
    case True
    then have "bs' = bs" "ss' = ss" "p' = p\<lparr>hp_build_keys := keys\<rparr>" using loop(1) run' by (simp_all add: PrecomputeJoinHashes_def)
    then show ?thesis using arr(2,4) same [of p'] by simp
  next
    case False
    then show ?thesis using run' arr(2,4) cap loop(1) by (simp add: PrecomputeJoinHashes_def)
  qed
  show shape': "same_shape p0 p'" using shape arr loop(2,3) copy(1,2) range(2) len by (simp add: same_shape_def p' arrays_ok_def)
  show "hp_heads p' = hp_heads p" "hp_links p' = hp_links p" by (simp_all add: p')
  have fields: "hp_build_keys p' = keys" "hp_buckets p' = Some bs'" "hp_salts p' = Some ss'" by (simp_all add: p')
  note [simp] = same_shape_simps [OF shape']
  have inside: "?off + i < length (tdc_rows (hp_build_keys p))" "?off + i < length bs" if "i < ?n" for i
    using that range(1) rg(4) len(1) arr(6) by simp_all
  show "row_copied_ok l p' w i" if i: "i < ?n" for i
  proof -
    have "key_at l (tdc_heap keys) ?ho (?ho + tdc_heap_used src) (rebased_row l ?ho (TupleDataCollectionGetRow src i)) (local_key l p0 w i)"
      by (rule rebased_key [OF rg(2) local(4) [OF i]]) (use copy(2,4) range(2) len rg(3) in simp_all)
    moreover have "TupleDataCollectionGetRow keys (?off + i) = rebased_row l ?ho (TupleDataCollectionGetRow src i)"
      using copy(3) [OF _ inside(1) [OF i]] i local(1) range(2) len by simp
    moreover have "bs' ! (?off + i) = join_bucket (hp_capacity p0) (hash_key (local_key l p0 w i))"
      "ss' ! (?off + i) = HashJoinSalt (hash_key (local_key l p0 w i))" using loop(4) inside(2) [OF i] i by simp_all
    ultimately show ?thesis using local(2) by (simp add: row_copied_ok_def fields global_row_def)
  qed
  fix v i assume v: "v < length (hp_registry p0)" "v \<noteq> w" "i < rows_of p0 v" and ok: "row_copied_ok l p v i"
  have g: "global_row p0 v i < length bs" "global_row p0 v i < length (tdc_rows (hp_build_keys p))"
    using global_row_less [OF rg(1) v(1,3)] arr(6) rg(4) len by simp_all
  have apart: "\<not> (?off \<le> global_row p0 v i \<and> global_row p0 v i < ?off + ?n)"
  proof
    assume "?off \<le> global_row p0 v i \<and> global_row p0 v i < ?off + ?n"
    then have "global_row p0 v i = global_row p0 w (global_row p0 v i - ?off)" "global_row p0 v i - ?off < ?n" by (auto simp: global_row_def [of p0 w])
    then show False using global_row_eq [OF rg(1) v(1) w v(3)] v(2) by blast
  qed
  have heaps: "key_heap_to p0 v \<le> ?ho \<or> key_heap_to p0 w \<le> key_heap_from p0 v" "key_heap_to p0 v \<le> length (tdc_heap (hp_build_keys p0))"
  proof -
    have "key_heap_to p0 v \<le> ?ho" if "v < w" using rg(1) w that unfolding ranges_ok_def by blast
    moreover have "key_heap_to p0 w \<le> key_heap_from p0 v" if "w < v" using rg(1) v(1) that unfolding ranges_ok_def by blast
    ultimately show "key_heap_to p0 v \<le> ?ho \<or> key_heap_to p0 w \<le> key_heap_from p0 v" using v(2) by (meson linorder_neqE_nat)
    show "key_heap_to p0 v \<le> length (tdc_heap (hp_build_keys p0))" using rg(1) v(1) by (simp add: ranges_ok_def)
  qed
  have lo: "key_heap_from p0 v \<le> key_heap_to p0 v" by (simp add: key_heap_to_def)
  have frame: "mem_read (key_heap_from p0 v) (key_heap_to p0 v - key_heap_from p0 v) (tdc_heap keys) =
      mem_read (key_heap_from p0 v) (key_heap_to p0 v - key_heap_from p0 v) (tdc_heap (hp_build_keys p))"
    by (rule copy(5)) (use heaps local(2) range(2) len lo in auto)
  have "key_at l (tdc_heap (hp_build_keys p)) (key_heap_from p0 v) (key_heap_to p0 v)
      (TupleDataCollectionGetRow (hp_build_keys p) (global_row p0 v i)) (local_key l p0 v i)" using ok by (simp add: row_copied_ok_def)
  from key_at_heap [OF this lo frame] have "key_at l (tdc_heap keys) (key_heap_from p0 v) (key_heap_to p0 v)
      (TupleDataCollectionGetRow (hp_build_keys p) (global_row p0 v i)) (local_key l p0 v i)"
    using heaps(2) len(2) copy(2) range(2) by simp
  moreover have "TupleDataCollectionGetRow keys (global_row p0 v i) = TupleDataCollectionGetRow (hp_build_keys p) (global_row p0 v i)"
    using copy(3) [OF _ g(2)] apart local(1) range(2) len by auto
  moreover have "bs' ! global_row p0 v i = bs ! global_row p0 v i" "ss' ! global_row p0 v i = ss ! global_row p0 v i"
    using loop(4) g(1) apart by auto
  ultimately show "row_copied_ok l p' v i \<and> the (hp_buckets p') ! global_row p0 v i = the (hp_buckets p) ! global_row p0 v i"
    using ok arr by (simp add: row_copied_ok_def fields)
qed


text \<open>The other steps leave the copied rows alone.\<close>

lemma chains_ok_cong:
  assumes "same_shape p0 p" "same_shape p0 p'" "hp_heads p' = hp_heads p" "hp_links p' = hp_links p"
    and "\<And>w. w < length (hp_registry p0) \<Longrightarrow> linked p0 (pc' w) w = linked p0 (pc w) w"
    and "\<And>w. w < length (hp_registry p0) \<Longrightarrow> stored p0 (pc' w) w = stored p0 (pc w) w"
    and "\<And>w i old. w < length (hp_registry p0) \<Longrightarrow> pc' w = ToStore i old \<Longrightarrow> pc w = ToStore i old"
    and "\<And>w i. w < length (hp_registry p0) \<Longrightarrow> i < linked p0 (pc w) w \<Longrightarrow>
      the (hp_buckets p') ! global_row p0 w i = the (hp_buckets p) ! global_row p0 w i"
    and ok: "chains_ok p pc"
  shows "chains_ok p' pc'"
proof -
  note [simp] = same_shape_simps [OF assms(1)] same_shape_simps [OF assms(2)]
  have "linked_rows p' pc' b = linked_rows p pc b" for b
    using assms(5,8) unfolding linked_rows_def by fastforce
  moreover obtain nx L where "\<forall>w < length (hp_registry p0). \<forall>i old. pc w = ToStore i old \<longrightarrow> nx (global_row p0 w i) = old"
    "\<forall>w < length (hp_registry p0). \<forall>i < stored p0 (pc w) w. nx (global_row p0 w i) = the (hp_links p) ! global_row p0 w i"
    "\<forall>b < hp_capacity p0. chain nx (the (hp_heads p) ! b) (L b) \<and> distinct (L b) \<and> set (L b) = linked_rows p pc b"
    using ok unfolding chains_ok_def by auto
  ultimately show ?thesis using assms(3,4,6,7) unfolding chains_ok_def by (intro exI [of _ nx] exI [of _ L]) simp
qed

lemma linked_row_inside:
  assumes "prepared l p0" "w < length (hp_registry p0)" "i < linked p0 pc w" "linked p0 pc w \<le> rows_of p0 w"
  shows "global_row p0 w i < hp_combined_row_count p0" "global_row p0 w i \<noteq> HASH_JOIN_INVALID_ROW"
proof -
  show "global_row p0 w i < hp_combined_row_count p0"
    using global_row_less assms by (simp add: prepared_def)
  then show "global_row p0 w i \<noteq> HASH_JOIN_INVALID_ROW"
    using assms(1) by (simp add: prepared_def HASH_JOIN_INVALID_ROW_def)
qed

lemma step_copy_inv:
  assumes prep: "prepared l p0" and inv: "combine_inv l p0 s" and w: "w < length (hp_registry p0)" "cs_pc s w = ToCopy"
    and run: "copy_and_hash l w (cs_payload s) = Inr p"
  shows "combine_inv l p0 (cs_move w (ToExchange 0) p s)"
proof -
  have shape: "same_shape p0 (cs_payload s)" using inv by (simp add: combine_inv_def)
  note eff = copy_and_hash_effect [OF prep shape w(1) run]
  have copied: "row_copied_ok l (cs_payload s) v i" "linked p0 (cs_pc s v) v \<le> rows_of p0 v"
    if "v < length (hp_registry p0)" "cs_pc s v \<noteq> ToCopy" "i < rows_of p0 v" for v i
    using inv that by (simp_all add: combine_inv_def)
  have "chains_ok p ((cs_pc s)(w := ToExchange 0))"
  proof (rule chains_ok_cong [OF shape eff(1-3)])
    fix v i assume v: "v < length (hp_registry p0)" "i < linked p0 (cs_pc s v) v"
    then have "cs_pc s v \<noteq> ToCopy" by (auto simp: linked_def)
    moreover have "i < rows_of p0 v" using v inv by (fastforce simp: combine_inv_def)
    ultimately show "the (hp_buckets p) ! global_row p0 v i = the (hp_buckets (cs_payload s)) ! global_row p0 v i"
      using eff(5) [OF v(1), of i] copied v(1) w(2) by metis
  qed (use w inv in \<open>auto simp: linked_def stored_def combine_inv_def split: if_splits\<close>)
  then show ?thesis
    using inv eff(1,4,5) copied w unfolding combine_inv_def cs_move_def by (auto simp: linked_def)
qed

lemma step_exchange_inv:
  assumes prep: "prepared l p0" and inv: "combine_inv l p0 s" and w: "w < length (hp_registry p0)" "cs_pc s w = ToExchange i"
    and i: "i < rows_of p0 w" and run: "link_exchange (global_row p0 w i) (cs_payload s) = Inr (old, p)"
  shows "combine_inv l p0 (cs_move w (ToStore i old) p s)"
proof -
  let ?g = "global_row p0 w i" and ?p = "cs_payload s" and ?pc = "(cs_pc s)(w := ToStore i old)"
  have shape: "same_shape p0 ?p" using inv by (simp add: combine_inv_def)
  have rg: "ranges_ok p0" using prep by (simp add: prepared_def)
  obtain heads buckets links where arr: "hp_heads ?p = Some heads" "hp_buckets ?p = Some buckets" "hp_links ?p = Some links"
    "length heads = hp_capacity p0" using shape by (auto simp: same_shape_def arrays_ok_def)
  let ?b = "buckets ! ?g"
  have old: "old = heads ! ?b" and p: "p = ?p\<lparr>hp_heads := Some (heads[?b := ?g])\<rparr>" using run arr by (auto simp: link_exchange_def Let_def)
  have shape': "same_shape p0 p" using shape arr(1) unfolding same_shape_def arrays_ok_alt p by simp
  have fields: "hp_heads p = Some (heads[?b := ?g])" "hp_buckets p = Some buckets" "hp_links p = Some links" using arr by (simp_all add: p)
  have copied: "row_copied_ok l p v j = row_copied_ok l ?p v j" for v j by (rule row_copied_same) (simp_all add: p)
  note [simp] = same_shape_simps [OF shape] same_shape_simps [OF shape']
  have own: "row_copied_ok l ?p w i" using inv w i by (simp add: combine_inv_def)
  then have b: "?b < hp_capacity p0"
    using join_bucket_less prep arr(2) by (simp add: row_copied_ok_def prepared_def)
  have len: "linked p0 (cs_pc s v) v \<le> rows_of p0 v" if "v < length (hp_registry p0)" for v using inv that by (simp add: combine_inv_def)
  have fresh: "global_row p0 v j \<noteq> ?g" if "v < length (hp_registry p0)" "j < linked p0 (cs_pc s v) v" for v j
    using global_row_eq [OF rg that(1) w(1) _ i, of j] that len [OF that(1)] w(2) by (fastforce simp: linked_def)
  obtain nx L where nx: "\<forall>v < length (hp_registry p0). \<forall>j old. cs_pc s v = ToStore j old \<longrightarrow> nx (global_row p0 v j) = old"
    "\<forall>v < length (hp_registry p0). \<forall>j < stored p0 (cs_pc s v) v. nx (global_row p0 v j) = links ! global_row p0 v j"
    and L: "\<forall>b < hp_capacity p0. chain nx (heads ! b) (L b) \<and> distinct (L b) \<and> set (L b) = linked_rows ?p (cs_pc s) b"
    using inv arr unfolding combine_inv_def chains_ok_def by auto
  have rows: "linked_rows p ?pc b = (if b = ?b then insert ?g (linked_rows ?p (cs_pc s) b) else linked_rows ?p (cs_pc s) b)" for b
  proof -
    have l: "linked p0 (?pc v) v = (if v = w then Suc i else linked p0 (cs_pc s v) v)" "linked p0 (cs_pc s w) w = i" for v
      using w(2) by (simp_all add: linked_def)
    have "r \<in> linked_rows p ?pc b \<longleftrightarrow> r \<in> linked_rows ?p (cs_pc s) b \<or> r = ?g \<and> b = ?b" for r
    proof -
      have "r \<in> linked_rows p ?pc b \<longleftrightarrow> (\<exists>v j. r = global_row p0 v j \<and> v < length (hp_registry p0) \<and>
          (j < linked p0 (cs_pc s v) v \<or> v = w \<and> j = i) \<and> buckets ! r = b)"
      proof -
        have "j < linked p0 (?pc v) v \<longleftrightarrow> j < linked p0 (cs_pc s v) v \<or> v = w \<and> j = i" for v j
          unfolding l using l(2) by (auto simp: less_Suc_eq)
        then show ?thesis unfolding linked_rows_def by (auto simp only: fields option.sel same_shape_simps [OF shape'] mem_Collect_eq)
      qed
      then show ?thesis using w(1) arr unfolding linked_rows_def by auto
    qed
    then show ?thesis by auto
  qed
  have notin: "?g \<notin> linked_rows ?p (cs_pc s) b" for b
  proof
    assume "?g \<in> linked_rows ?p (cs_pc s) b"
    then obtain v j where "?g = global_row p0 v j" "v < length (hp_registry p0)" "j < linked p0 (cs_pc s v) v"
      unfolding linked_rows_def by auto
    then show False using fresh [of v j] by simp
  qed
  have "chains_ok p ?pc" unfolding chains_ok_def
  proof (intro exI conjI allI impI)
    fix b assume "b < hp_capacity p"
    then have b': "b < hp_capacity p0" by simp
    have "chain (nx(?g := old)) h (L b) = chain nx h (L b)" for h using L b' notin by (intro chain_cong) auto
    then show "chain (nx(?g := old)) (the (hp_heads p) ! b) ((L(?b := ?g # L ?b)) b)"
      using L b b' linked_row_inside(2) [OF prep w(1), of i "ToStore i old"] i arr(4) old by (auto simp: fields linked_def)
    show "distinct ((L(?b := ?g # L ?b)) b)" "set ((L(?b := ?g # L ?b)) b) = linked_rows p ?pc b"
      using L b b' notin by (auto simp: rows)
  next
    fix v j o1 assume v: "v < length (hp_registry p)" "?pc v = ToStore j o1"
    show "(nx(?g := old)) (global_row p v j) = o1"
    proof (cases "v = w")
      case False
      then have "cs_pc s v = ToStore j o1" using v(2) by simp
      then show ?thesis using nx(1) v(1) fresh [of v j] by (simp add: linked_def)
    qed (use v in simp)
  next
    fix v j assume v: "v < length (hp_registry p)" "j < stored p (?pc v) v"
    then have j: "j < stored p0 (cs_pc s v) v" using w(2) by (auto simp: stored_def linked_def split: if_splits combine_pc.splits)
    then have "j < linked p0 (cs_pc s v) v" by (auto simp: stored_def linked_def split: combine_pc.splits)
    then show "(nx(?g := old)) (global_row p v j) = the (hp_links p) ! global_row p v j"
      using nx(2) v(1) j fresh by (simp add: fields)
  qed
  then show ?thesis using inv shape' w i copied unfolding combine_inv_def cs_move_def by (auto simp: linked_def)
qed

lemma step_store_inv:
  assumes prep: "prepared l p0" and inv: "combine_inv l p0 s" and w: "w < length (hp_registry p0)" "cs_pc s w = ToStore i old"
  shows "combine_inv l p0 (cs_move w (ToExchange (i + 1)) (link_store (global_row p0 w i) old (cs_payload s)) s)"
proof -
  let ?g = "global_row p0 w i" and ?p = "cs_payload s" and ?pc = "(cs_pc s)(w := ToExchange (i + 1))"
  let ?q = "link_store ?g old ?p"
  have shape: "same_shape p0 ?p" using inv by (simp add: combine_inv_def)
  have rg: "ranges_ok p0" using prep by (simp add: prepared_def)
  obtain links where arr: "hp_links ?p = Some links" "length links = hp_combined_row_count p0"
    using shape by (auto simp: same_shape_def arrays_ok_def)
  have fields: "hp_heads ?q = hp_heads ?p" "hp_buckets ?q = hp_buckets ?p" "hp_links ?q = Some (links[?g := old])"
    using arr by (simp_all add: link_store_def)
  have shape': "same_shape p0 ?q" using shape arr(1) unfolding same_shape_def arrays_ok_alt link_store_def by simp
  have copied: "row_copied_ok l ?q v j = row_copied_ok l ?p v j" for v j by (rule row_copied_same) (simp_all add: link_store_def)
  note [simp] = same_shape_simps [OF shape] same_shape_simps [OF shape']
  have len: "linked p0 (cs_pc s v) v \<le> rows_of p0 v" if "v < length (hp_registry p0)" for v using inv that by (simp add: combine_inv_def)
  have i: "i < rows_of p0 w" using len [OF w(1)] w(2) by (simp add: linked_def)
  have g: "?g < length links" using global_row_less [OF rg w(1) i] arr(2) by simp
  obtain nx L where nx: "\<forall>v < length (hp_registry p0). \<forall>j old. cs_pc s v = ToStore j old \<longrightarrow> nx (global_row p0 v j) = old"
    "\<forall>v < length (hp_registry p0). \<forall>j < stored p0 (cs_pc s v) v. nx (global_row p0 v j) = links ! global_row p0 v j"
    and L: "\<forall>b < hp_capacity p0. chain nx (the (hp_heads ?p) ! b) (L b) \<and> distinct (L b) \<and> set (L b) = linked_rows ?p (cs_pc s) b"
    using inv arr unfolding combine_inv_def chains_ok_def by auto
  have rows: "linked_rows ?q ?pc b = linked_rows ?p (cs_pc s) b" for b
  proof -
    have "linked p0 (?pc v) v = linked p0 (cs_pc s v) v" for v using w(2) by (simp add: linked_def)
    then show ?thesis by (simp add: linked_rows_def fields)
  qed
  have "chains_ok ?q ?pc" unfolding chains_ok_def
  proof (intro exI conjI allI impI)
    fix b assume "b < hp_capacity ?q"
    then show "chain nx (the (hp_heads ?q) ! b) (L b)" "distinct (L b)" "set (L b) = linked_rows ?q ?pc b"
      using L by (simp_all add: rows [simplified] fields)
  next
    fix v j o1 assume v: "v < length (hp_registry ?q)" "?pc v = ToStore j o1"
    then show "nx (global_row ?q v j) = o1" using nx(1) by (simp split: if_splits)
  next
    fix v j assume v: "v < length (hp_registry ?q)" "j < stored ?q (?pc v) v"
    show "nx (global_row ?q v j) = the (hp_links ?q) ! global_row ?q v j"
    proof (cases "v = w \<and> j = i")
      case True
      then show ?thesis using nx(1) w g by (simp add: fields)
    next
      case False
      have "j < stored p0 (?pc v) v" using v(2) by simp
      then have j: "j < stored p0 (cs_pc s v) v" using False w(2) by (auto simp: stored_def linked_def split: if_splits)
      then have "j < rows_of p0 v" using len [of v] v(1) by (auto simp: stored_def linked_def split: combine_pc.splits)
      then have "global_row p0 v j \<noteq> ?g" using global_row_eq [OF rg _ w(1) _ i, of v j] v(1) False by auto
      then show ?thesis using nx(2) v(1) j by (simp add: fields)
    qed
  qed
  then show ?thesis using inv shape' w i copied unfolding combine_inv_def cs_move_def by (auto simp: linked_def)
qed

lemma publish_rows_fields:
  assumes "publish_rows rl w p = Inr q"
  shows "hp_registry q = hp_registry p" "hp_build_keys q = hp_build_keys p" "hp_buckets q = hp_buckets p" "hp_salts q = hp_salts p"
    "hp_capacity q = hp_capacity p" "hp_heads q = hp_heads p" "hp_links q = hp_links p" "hp_combined_row_count q = hp_combined_row_count p"
  using assms by (auto simp: publish_rows_def Let_def split: if_splits option.splits)

lemma step_rows_inv:
  assumes inv: "combine_inv l p0 s" and w: "w < length (hp_registry p0)" "cs_pc s w = ToExchange (rows_of p0 w)"
    and run: "publish_rows rl w (cs_payload s) = Inr p"
  shows "combine_inv l p0 (cs_move w Combined p s)"
proof -
  have shape: "same_shape p0 (cs_payload s)" using inv by (simp add: combine_inv_def)
  note fields = publish_rows_fields [OF run]
  have shape': "same_shape p0 p" using shape fields by (simp add: same_shape_def arrays_ok_alt)
  have "row_copied_ok l p v j = row_copied_ok l (cs_payload s) v j" for v j by (rule row_copied_same) (use fields in simp_all)
  moreover have "chains_ok p ((cs_pc s)(w := Combined))"
    by (rule chains_ok_cong [OF shape shape' fields(6,7), where pc = "cs_pc s"]) (use w inv fields in \<open>auto simp: linked_def stored_def combine_inv_def split: if_splits\<close>)
  ultimately show ?thesis using inv shape' w unfolding combine_inv_def cs_move_def by (auto simp: linked_def)
qed

lemma combine_step_inv:
  assumes "prepared l p0" "combine_inv l p0 s" "combine_step l rl s t"
  shows "combine_inv l p0 t"
proof -
  have shape: "same_shape p0 (cs_payload s)" using assms(2) by (simp add: combine_inv_def)
  note eqs = same_shape_simps [OF shape]
  from assms(3) show ?thesis
  proof cases
    case (step_copy w p)
    then show ?thesis using step_copy_inv [OF assms(1,2)] eqs by simp
  next
    case (step_exchange w i old p)
    then show ?thesis using step_exchange_inv [OF assms(1,2)] eqs by (simp add: rows_of_def global_row_def)
  next
    case (step_store w i old p)
    then show ?thesis using step_store_inv [OF assms(1,2)] eqs by (simp add: global_row_def)
  next
    case (step_rows w i p)
    then show ?thesis using step_rows_inv [OF assms(2)] eqs by (simp add: rows_of_def)
  qed
qed

section \<open>One worker's combine is a run of steps\<close>

lemma cs_move_simps [simp]:
  "cs_move w a p (cs_move w b q s) = cs_move w a p s" "cs_payload (cs_move w a p s) = p" "cs_pc (cs_move w a p s) w = a"
  "v \<noteq> w \<Longrightarrow> cs_pc (cs_move w a p s) v = cs_pc s v"
  by (simp_all add: cs_move_def)

lemma copy_and_hash_registry: "copy_and_hash l w p = Inr q \<Longrightarrow> hp_registry q = hp_registry p"
  by (auto simp: copy_and_hash_def PrecomputeJoinHashes_def Let_def rbind_Inr_iff split: option.splits if_splits)

lemma link_row_steps:
  assumes "w < length (hp_registry (cs_payload s))" "cs_pc s w = ToExchange i" "i < re_row_count (entry_of (cs_payload s) w)"
    and "link_row (re_global_row_offset (entry_of (cs_payload s) w) + i) (cs_payload s) = Inr p"
  shows "(combine_step l rl)\<^sup>*\<^sup>* s (cs_move w (ToExchange (Suc i)) p s) \<and> hp_registry p = hp_registry (cs_payload s)"
proof -
  let ?g = "re_global_row_offset (entry_of (cs_payload s) w) + i"
  obtain old q where q: "link_exchange ?g (cs_payload s) = Inr (old, q)" "p = link_store ?g old q"
    using assms(4) by (auto simp: link_row_def rbind_Inr_iff)
  have reg: "hp_registry q = hp_registry (cs_payload s)" "hp_registry p = hp_registry q"
    using q by (auto simp: link_exchange_def link_store_def Let_def split: option.splits)
  have "combine_step l rl s (cs_move w (ToStore i old) q s)" by (rule step_exchange [OF assms(1-3) q(1)])
  moreover have "combine_step l rl (cs_move w (ToStore i old) q s) (cs_move w (ToExchange (i + 1)) p (cs_move w (ToStore i old) q s))"
    by (rule step_store) (use assms(1) reg q(2) in \<open>simp_all add: entry_of_def\<close>)
  ultimately show ?thesis using reg by (simp add: converse_rtranclp_into_rtranclp)
qed

lemma link_rows_steps:
  assumes "w < length (hp_registry (cs_payload s))" "cs_pc s w = ToExchange 0"
  shows "n \<le> re_row_count (entry_of (cs_payload s) w) \<Longrightarrow>
    LinkPrecomputedJoinHashes (re_global_row_offset (entry_of (cs_payload s) w)) n (cs_payload s) = Inr p \<Longrightarrow>
    (combine_step l rl)\<^sup>*\<^sup>* s (cs_move w (ToExchange n) p s) \<and> hp_registry p = hp_registry (cs_payload s)"
proof (induction n arbitrary: p)
  case 0
  have "cs_move w (ToExchange 0) (cs_payload s) s = s" using assms(2) by (simp add: cs_move_def fun_upd_idem)
  then show ?case using 0 by (simp add: LinkPrecomputedJoinHashes_def)
next
  case (Suc n)
  let ?off = "re_global_row_offset (entry_of (cs_payload s) w)"
  obtain q where q: "LinkPrecomputedJoinHashes ?off n (cs_payload s) = Inr q" "link_row (?off + n) q = Inr p"
    using Suc.prems(2) by (auto simp: LinkPrecomputedJoinHashes_def fold_res_append rbind_Inr_iff)
  have ih: "(combine_step l rl)\<^sup>*\<^sup>* s (cs_move w (ToExchange n) q s)" "hp_registry q = hp_registry (cs_payload s)"
    using Suc.IH [OF _ q(1)] Suc.prems(1) by simp_all
  have "(combine_step l rl)\<^sup>*\<^sup>* (cs_move w (ToExchange n) q s) (cs_move w (ToExchange (Suc n)) p (cs_move w (ToExchange n) q s)) \<and>
      hp_registry p = hp_registry q"
    using link_row_steps [of w "cs_move w (ToExchange n) q s" n p] q(2) ih(2) assms(1) Suc.prems(1) by (simp add: entry_of_def)
  then show ?case using ih by auto
qed

lemma ExecuteHashJoinCombine_steps:
  assumes "w < length (hp_registry (cs_payload s))" "cs_pc s w = ToCopy"
    and run: "ExecuteHashJoinCombine l rl w (cs_payload s) = Inr p"
  shows "(combine_step l rl)\<^sup>*\<^sup>* s (cs_move w Combined p s) \<and> hp_registry p = hp_registry (cs_payload s)"
proof -
  let ?e = "entry_of (cs_payload s) w"
  obtain q r where q: "copy_and_hash l w (cs_payload s) = Inr q" "LinkPrecomputedJoinHashes (re_global_row_offset ?e) (re_row_count ?e) q = Inr r"
    "publish_rows rl w r = Inr p" using run by (auto simp: ExecuteHashJoinCombine_def Let_def rbind_Inr_iff)
  note reg = copy_and_hash_registry [OF q(1)]
  let ?s1 = "cs_move w (ToExchange 0) q s"
  have "combine_step l rl s ?s1" by (rule step_copy [OF assms(1,2) q(1)])
  moreover have 2: "(combine_step l rl)\<^sup>*\<^sup>* ?s1 (cs_move w (ToExchange (re_row_count ?e)) r ?s1) \<and> hp_registry r = hp_registry q"
    using link_rows_steps [of w ?s1 "re_row_count ?e" r] q(2) assms(1) reg by (simp add: entry_of_def)
  moreover have "combine_step l rl (cs_move w (ToExchange (re_row_count ?e)) r s) (cs_move w Combined p (cs_move w (ToExchange (re_row_count ?e)) r s))"
    by (rule step_rows [where i = "re_row_count ?e"]) (use assms(1) reg 2 q(3) in \<open>simp_all add: entry_of_def\<close>)
  ultimately show ?thesis
    using publish_rows_fields(1) [OF q(3)] reg by (auto intro: converse_rtranclp_into_rtranclp rtranclp.rtrancl_into_rtrancl)
qed

section \<open>Preparing\<close>

lemma prepare_registry_ranges:
  "prepare_registry es (r, k, h) = (es', R, K, H) \<Longrightarrow> R \<le> UINT32_MAX \<Longrightarrow> K \<le> UINT32_MAX \<Longrightarrow>
   length es' = length es \<and> r \<le> R \<and> k \<le> K \<and>
   (\<forall>w < length es. re_build_keys (es' ! w) = re_build_keys (es ! w) \<and> re_build_rows (es' ! w) = re_build_rows (es ! w) \<and>
      re_row_count (es' ! w) = count_of (re_build_keys (es ! w)) \<and> re_key_heap_used (es' ! w) = heap_of (re_build_keys (es ! w)) \<and>
      r \<le> re_global_row_offset (es' ! w) \<and> re_global_row_offset (es' ! w) + re_row_count (es' ! w) \<le> R \<and>
      k \<le> re_global_key_heap_offset (es' ! w) \<and> re_global_key_heap_offset (es' ! w) + re_key_heap_used (es' ! w) \<le> K) \<and>
   (\<forall>v w. v < w \<longrightarrow> w < length es \<longrightarrow>
      re_global_row_offset (es' ! v) + re_row_count (es' ! v) \<le> re_global_row_offset (es' ! w) \<and>
      re_global_key_heap_offset (es' ! v) + re_key_heap_used (es' ! v) \<le> re_global_key_heap_offset (es' ! w)) \<and>
   (\<forall>x. r \<le> x \<longrightarrow> x < R \<longrightarrow> (\<exists>w < length es. \<exists>i < re_row_count (es' ! w). x = re_global_row_offset (es' ! w) + i))"
proof (induction es arbitrary: r k h es')
  case (Cons e es)
  let ?n = "count_of (re_build_keys e)" and ?k = "heap_of (re_build_keys e)"
  obtain es1 where es1: "prepare_registry es (r + ?n, k + ?k, h + heap_of (re_build_rows e)) = (es1, R, K, H)"
    "es' = e\<lparr>re_row_count := ?n, re_key_heap_used := ?k, re_row_heap_used := heap_of (re_build_rows e), re_global_row_offset := wrap32 r,
       re_global_key_heap_offset := wrap32 k, re_global_row_heap_offset := wrap32 h\<rparr> # es1"
    using Cons.prems(1) by (auto simp: Let_def split: prod.splits)
  note ih = Cons.IH [OF es1(1) Cons.prems(2,3)]
  have exact: "wrap32 r = r" "wrap32 k = k" using ih Cons.prems(2,3) by (simp_all add: UINT32_MAX_def)
  have len: "length es' = length (e # es) \<and> r \<le> R \<and> k \<le> K" using ih by (simp add: es1(2))
  have each: "re_build_keys (es' ! w) = re_build_keys ((e # es) ! w) \<and> re_build_rows (es' ! w) = re_build_rows ((e # es) ! w) \<and>
      re_row_count (es' ! w) = count_of (re_build_keys ((e # es) ! w)) \<and> re_key_heap_used (es' ! w) = heap_of (re_build_keys ((e # es) ! w)) \<and>
      r \<le> re_global_row_offset (es' ! w) \<and> re_global_row_offset (es' ! w) + re_row_count (es' ! w) \<le> R \<and>
      k \<le> re_global_key_heap_offset (es' ! w) \<and> re_global_key_heap_offset (es' ! w) + re_key_heap_used (es' ! w) \<le> K"
    if "w < length (e # es)" for w
    using ih exact that by (cases w) (auto simp: es1(2))
  have order: "re_global_row_offset (es' ! v) + re_row_count (es' ! v) \<le> re_global_row_offset (es' ! w) \<and>
      re_global_key_heap_offset (es' ! v) + re_key_heap_used (es' ! v) \<le> re_global_key_heap_offset (es' ! w)"
    if "v < w" "w < length (e # es)" for v w
    using ih exact that by (cases v; cases w) (auto simp: es1(2))
  have hit: "\<exists>w < length (e # es). \<exists>i < re_row_count (es' ! w). x = re_global_row_offset (es' ! w) + i" if x: "r \<le> x" "x < R" for x
  proof (cases "x < r + ?n")
    case True
    then show ?thesis using x exact by (intro exI [of _ 0]) (auto simp: es1(2) intro: exI [of _ "x - r"])
  next
    case False
    then obtain w i where "w < length es" "i < re_row_count (es1 ! w)" "x = re_global_row_offset (es1 ! w) + i"
      using ih x(2) by (meson not_less)
    then show ?thesis by (intro exI [of _ "Suc w"]) (auto simp: es1(2))
  qed
  show ?case by (intro conjI allI impI) (use len each order hit in blast)+
qed simp

lemma grow_heap_bounded:
  "TupleDataCollectionGrowHeapCapacity hdr layout t cap required = Inr hc \<Longrightarrow> hc \<le> UINT32_MAX"
  by (auto simp: TupleDataCollectionGrowHeapCapacity_def TupleDataCollectionDefaultHeapCapacity_def Let_def rbind_Inr_iff
      split: if_splits option.splits)

lemma clamp_between:
  assumes "TupleDataCollectionClampRowCapacity hdr p w h m = Inr n" "m \<le> p" "p < 2 ^ 32"
  shows "m \<le> n \<and> n \<le> p"
proof -
  define rows where "rows = sub64 (sub64 kTupleDataCollectionMaxFlatAllocBytes hdr) h div w"
  have "m \<le> rows" "n = (if p > rows then wrap32 rows else p)"
    using assms(1) unfolding TupleDataCollectionClampRowCapacity_def rows_def [symmetric] Let_def by (auto split: if_splits)
  then show ?thesis using assms(2,3) by (cases "p > rows") simp_all
qed

lemma EnsureEmptyJoinGlobalCapacity_result:
  assumes "EnsureEmptyJoinGlobalCapacity hdr l rows heap t = Inr t'" "tdc_ok t" "rows \<le> UINT32_MAX"
  shows "tdc_ok t' \<and> rows \<le> tdc_row_capacity t' \<and> heap \<le> tdc_heap_capacity t'"
proof (cases "tdc_row_capacity t \<ge> rows \<and> tdc_heap_capacity t \<ge> heap")
  case False
  let ?w = "unat (layout_row_width l)"
  have "rbind (TupleDataCollectionClampRowCapacity hdr (max (tdc_row_capacity t) (max 1 rows)) ?w heap (max 1 rows)) (\<lambda>n.
      rbind (if tdc_heap_capacity t < heap then TupleDataCollectionGrowHeapCapacity hdr (Some l) t n heap else Inr (tdc_heap_capacity t)) (\<lambda>hc.
        if hc < heap then Inl (Elog ''hash join combine prepare failed to size string heap'')
        else rbind (TupleDataCollectionCheckedAllocSize hdr n ?w hc) (\<lambda>_. Inr (TupleDataCollectionInit n ?w hc)))) = Inr t'"
    using assms(1) False unfolding EnsureEmptyJoinGlobalCapacity_def Let_def by (simp only: if_False sum.distinct split: if_split_asm)
  then obtain n hc where n: "TupleDataCollectionClampRowCapacity hdr (max (tdc_row_capacity t) (max 1 rows)) ?w heap (max 1 rows) = Inr n"
    and hc: "(if tdc_heap_capacity t < heap then TupleDataCollectionGrowHeapCapacity hdr (Some l) t n heap else Inr (tdc_heap_capacity t)) = Inr hc"
    and t: "(if hc < heap then Inl (Elog ''hash join combine prepare failed to size string heap'')
        else rbind (TupleDataCollectionCheckedAllocSize hdr n ?w hc) (\<lambda>_. Inr (TupleDataCollectionInit n ?w hc))) = Inr t'"
    unfolding rbind_Inr_iff by blast
  have t': "heap \<le> hc" "t' = TupleDataCollectionInit n ?w hc" using t by (auto simp: rbind_Inr_iff split: if_splits)
  let ?p = "max (tdc_row_capacity t) (max 1 rows)"
  have p: "?p < 2 ^ 32" using assms(2,3) by (simp add: tdc_ok_def UINT32_MAX_def)
  have np: "max 1 rows \<le> n \<and> n \<le> ?p" by (rule clamp_between [OF n _ p]) simp
  have "hc < 2 ^ 32"
    using hc grow_heap_bounded [of hdr "Some l" t n heap hc] assms(2) by (auto simp: tdc_ok_def UINT32_MAX_def split: if_splits)
  then have "tdc_ok t'" unfolding t'(2) using tdc_ok_Init le_less_trans [OF conjunct2 [OF np] p] by blast
  then show ?thesis using t' np by (simp add: TupleDataCollectionInit_def)
qed (use assms in \<open>auto simp: EnsureEmptyJoinGlobalCapacity_def\<close>)

text \<open>What the workers must bring to Combine: their key rows, with the strings in the used part of their heaps.\<close>

definition source_ok :: "tuple_data_layout \<Rightarrow> registry_entry \<Rightarrow> bool" where
  "source_ok l e \<longleftrightarrow>
     (case re_build_keys e of None \<Rightarrow> True
      | Some src \<Rightarrow> tdc_heap_used src \<le> length (tdc_heap src) \<and>
          (\<forall>i < tdc_row_count src. key_at l (tdc_heap src) 0 (tdc_heap_used src) (TupleDataCollectionGetRow src i)
             (row_key l (tdc_heap src) (TupleDataCollectionGetRow src i))))"

lemma table_capacity_pow2:
  assumes "ComputeHashTableCapacity n = Some c"
  shows "is_pow2 c \<and> c < 2 ^ 32"
proof -
  let ?t = "wrap32 (n * 2)"
  have run: "capacity_loop 1 ?t = Some c" using assms by (simp add: ComputeHashTableCapacity_def)
  then have reach: "?t \<le> c" "doubled c" using capacity_loop_reaches [OF run] by (auto simp: doubled_def)
  have "c \<noteq> 0"
  proof
    assume "c = 0"
    then show False using reach(1) run by (subst (asm) capacity_loop.simps) simp
  qed
  then obtain k where "k \<le> 31" "c = 2 ^ k" using reach(2) by (auto simp: doubled_def)
  moreover have "(2 :: nat) ^ k < 2 ^ 32" using \<open>k \<le> 31\<close> by (intro power_strict_increasing) auto
  ultimately show ?thesis by simp
qed

lemma prepared_prepare:
  assumes run: "PrepareHashJoinCombine hdr mem l rl p0 = Some (Inr p)"
    and l: "layout_ok l" and tdc: "tdc_ok (hp_build_keys p0)" and src: "\<forall>e\<in>set (hp_registry p0). source_ok l e"
    and some: "0 < hp_combined_row_count p"
  shows "prepared l p \<and> length (hp_registry p) = length (hp_registry p0) \<and>
    (\<forall>w < length (hp_registry p). re_build_keys (entry_of p w) = re_build_keys (entry_of p0 w) \<and> rows_of p w = count_of (re_build_keys (entry_of p0 w)))"
proof -
  obtain reg R K H where reg: "prepare_registry (hp_registry p0) (0, 0, 0) = (reg, R, K, H)" by (metis prod_cases4)
  have le: "R \<le> UINT32_MAX" "K \<le> UINT32_MAX" using run reg by (auto simp: PrepareHashJoinCombine_def split: if_splits)
  obtain c keys where c: "(if R = 0 then Some 0 else ComputeHashTableCapacity R) = Some c"
    and keys: "EnsureEmptyJoinGlobalCapacity hdr l R K (hp_build_keys p0) = Inr keys"
    and p: "hp_registry p = reg" "hp_capacity p = c" "hp_build_keys p = keys" "hp_combined_row_count p = R"
      "R > 0 \<Longrightarrow> hp_heads p = Some (replicate c HASH_JOIN_INVALID_ROW) \<and> hp_buckets p = Some (map mem [0..<R]) \<and>
        hp_links p = Some (map mem [0..<R]) \<and> hp_salts p = Some (map (\<lambda>i. word_of_nat (mem i)) [0..<R])"
    using run reg le unfolding PrepareHashJoinCombine_def by (auto simp: Let_def rbind_Inr_iff bind_eq_Some_conv split: if_splits)
  have R: "0 < R" using some p(4) by simp
  note rng = prepare_registry_ranges [OF reg le]
  note keys_ok = EnsureEmptyJoinGlobalCapacity_result [OF keys tdc le(1)]
  have ents: "entry_of p w = reg ! w" "entry_of p0 w = hp_registry p0 ! w" for w by (simp_all add: entry_of_def p)
  have "ranges_ok p"
    using rng keys_ok unfolding ranges_ok_def global_row_def rows_of_def key_heap_from_def key_heap_to_def ents p
    by (auto simp: tdc_ok_def)
  moreover have "local_ok l p w" if "w < length (hp_registry p)" for w
  proof -
    have w: "w < length (hp_registry p0)" using that rng p(1) by simp
    then have "source_ok l (hp_registry p0 ! w)" using src by simp
    then show ?thesis using rng w
      by (auto simp: local_ok_def source_ok_def rows_of_def ents local_key_def src_of_def count_of_def heap_of_def split: option.splits)
  qed
  moreover have "arrays_ok p" "set (the (hp_heads p)) \<subseteq> {HASH_JOIN_INVALID_ROW}" using p(2,4) p(5) [OF R] by (auto simp: arrays_ok_alt)
  moreover have "is_pow2 (hp_capacity p) \<and> hp_capacity p < 2 ^ 32" using c R table_capacity_pow2 p(2) by simp
  ultimately have "prepared l p" using l le keys_ok by (auto simp: prepared_def p(3,4) tdc_ok_def)
  then show ?thesis using rng p(1) by (simp add: ents rows_of_def)
qed

section \<open>The combined table\<close>

text \<open>
  What the probe relies on: every build row has its key, every bucket's chain ends and holds the rows whose key
  hashes there, once each, and every row has its key's salt.
\<close>

definition built_key :: "tuple_data_layout \<Rightarrow> hash_payload \<Rightarrow> nat \<Rightarrow> gval list" where
  "built_key l p r = row_key l (tdc_heap (hp_build_keys p)) (TupleDataCollectionGetRow (hp_build_keys p) r)"

definition table_ok :: "tuple_data_layout \<Rightarrow> nat \<Rightarrow> hash_payload \<Rightarrow> bool" where
  "table_ok l n p \<longleftrightarrow>
     is_pow2 (hp_capacity p) \<and> hp_capacity p < 2 ^ 32 \<and> n \<le> UINT32_MAX \<and> hp_heads p \<noteq> None \<and> hp_links p \<noteq> None \<and> hp_salts p \<noteq> None \<and>
     (\<forall>r < n. row_refs_ok l (tdc_heap (hp_build_keys p)) (length (tdc_heap (hp_build_keys p))) (TupleDataCollectionGetRow (hp_build_keys p) r) \<and>
        the (hp_salts p) ! r = HashJoinSalt (hash_key (built_key l p r))) \<and>
     (\<forall>b < hp_capacity p. \<exists>rs. chain (\<lambda>r. the (hp_links p) ! r) (the (hp_heads p) ! b) rs \<and> distinct rs \<and>
        set rs = {r. r < n \<and> join_bucket (hp_capacity p) (hash_key (built_key l p r)) = b})"

lemma combine_start_inv:
  assumes "prepared l p"
  shows "combine_inv l p (combine_start p)"
proof -
  have "set (the (hp_heads p)) \<subseteq> {HASH_JOIN_INVALID_ROW}" "length (the (hp_heads p)) = hp_capacity p"
    using assms by (simp_all add: prepared_def arrays_ok_alt)
  then have "the (hp_heads p) ! b = HASH_JOIN_INVALID_ROW" if "b < hp_capacity p" for b using that by (metis nth_mem singletonD subsetD)
  then have "chains_ok p (\<lambda>_. ToCopy)"
    unfolding chains_ok_def by (intro exI [of _ "\<lambda>_. 0"] exI [of _ "\<lambda>_. []"]) (auto simp: linked_rows_def linked_def stored_def)
  then show ?thesis using assms by (simp add: combine_inv_def combine_start_def same_shape_def prepared_def linked_def)
qed

lemma combine_run_inv: "(combine_step l rl)\<^sup>*\<^sup>* s t \<Longrightarrow> prepared l p \<Longrightarrow> combine_inv l p s \<Longrightarrow> combine_inv l p t"
  by (induction rule: rtranclp_induct) (auto intro: combine_step_inv)

lemma combined_table:
  assumes prep: "prepared l p0" and inv: "combine_inv l p0 s" 
    and fin: "\<And>w. w < length (hp_registry p0) \<Longrightarrow> rows_of p0 w \<noteq> 0 \<Longrightarrow> cs_pc s w = Combined"
  shows "table_ok l (hp_combined_row_count p0) (cs_payload s) \<and>
    (\<forall>w < length (hp_registry p0). \<forall>i < rows_of p0 w. built_key l (cs_payload s) (global_row p0 w i) = local_key l p0 w i)"
proof -
  let ?p = "cs_payload s"
  have shape: "same_shape p0 ?p" using inv by (simp add: combine_inv_def)
  note [simp] = same_shape_simps [OF shape]
  have copied: "row_copied_ok l ?p w i" if "w < length (hp_registry p0)" "i < rows_of p0 w" for w i
    using inv fin that by (simp add: combine_inv_def)
  have lk: "linked p0 (cs_pc s w) w = rows_of p0 w" if "w < length (hp_registry p0)" for w
    using inv fin [OF that] that by (cases "rows_of p0 w = 0") (auto simp: combine_inv_def linked_def)
  have key: "built_key l ?p (global_row p0 w i) = local_key l p0 w i \<and>
      row_refs_ok l (tdc_heap (hp_build_keys ?p)) (length (tdc_heap (hp_build_keys ?p))) (TupleDataCollectionGetRow (hp_build_keys ?p) (global_row p0 w i))"
    if "w < length (hp_registry p0)" "i < rows_of p0 w" for w i
    using copied [OF that] by (auto simp: row_copied_ok_def key_at_def built_key_def row_refs_ok_def ref_ok_def)
  have each: "\<exists>w i. w < length (hp_registry p0) \<and> i < rows_of p0 w \<and> r = global_row p0 w i" if "r < hp_combined_row_count p0" for r
    using prep that by (fastforce simp: prepared_def ranges_ok_def)
  have row: "row_refs_ok l (tdc_heap (hp_build_keys ?p)) (length (tdc_heap (hp_build_keys ?p))) (TupleDataCollectionGetRow (hp_build_keys ?p) r) \<and>
      the (hp_salts ?p) ! r = HashJoinSalt (hash_key (built_key l ?p r)) \<and>
      the (hp_buckets ?p) ! r = join_bucket (hp_capacity p0) (hash_key (built_key l ?p r))"
    if r: "r < hp_combined_row_count p0" for r
  proof -
    obtain w i where w: "w < length (hp_registry p0)" "i < rows_of p0 w" "r = global_row p0 w i" using each [OF r] by blast
    show ?thesis using copied [OF w(1,2)] key [OF w(1,2)] by (simp add: row_copied_ok_def w(3))
  qed
  have rg: "ranges_ok p0" using prep by (simp add: prepared_def)
  have rows: "linked_rows ?p (cs_pc s) b = {r. r < hp_combined_row_count p0 \<and> join_bucket (hp_capacity p0) (hash_key (built_key l ?p r)) = b}" for b
  proof -
    have eq: "linked_rows ?p (cs_pc s) b =
        {global_row p0 w i | w i. w < length (hp_registry p0) \<and> i < rows_of p0 w \<and> the (hp_buckets ?p) ! global_row p0 w i = b}"
      by (simp add: linked_rows_def lk cong: conj_cong)
    show ?thesis unfolding eq
    proof (intro set_eqI iffI)
      fix r assume "r \<in> {r. r < hp_combined_row_count p0 \<and> join_bucket (hp_capacity p0) (hash_key (built_key l ?p r)) = b}"
      then show "r \<in> {global_row p0 w i | w i. w < length (hp_registry p0) \<and> i < rows_of p0 w \<and> the (hp_buckets ?p) ! global_row p0 w i = b}"
        using each [of r] row [of r] by auto
    qed (use row global_row_less [OF rg] in auto)
  qed
  have st: "i < rows_of p0 w \<Longrightarrow> i < stored p0 (cs_pc s w) w" if "w < length (hp_registry p0)" for w i
    using fin [OF that] by (simp add: stored_def linked_def)
  obtain nx L where nx0: "\<forall>w < length (hp_registry p0). \<forall>i < stored p0 (cs_pc s w) w. nx (global_row p0 w i) = the (hp_links ?p) ! global_row p0 w i"
    and L: "\<forall>b < hp_capacity p0. chain nx (the (hp_heads ?p) ! b) (L b) \<and> distinct (L b) \<and> set (L b) = linked_rows ?p (cs_pc s) b"
    using inv unfolding combine_inv_def chains_ok_def by auto
  have nx: "\<forall>w < length (hp_registry p0). \<forall>i < rows_of p0 w. nx (global_row p0 w i) = the (hp_links ?p) ! global_row p0 w i"
    using nx0 st by blast
  have "\<exists>rs. chain (\<lambda>r. the (hp_links ?p) ! r) (the (hp_heads ?p) ! b) rs \<and> distinct rs \<and>
      set rs = {r. r < hp_combined_row_count p0 \<and> join_bucket (hp_capacity p0) (hash_key (built_key l ?p r)) = b}" if b: "b < hp_capacity p0" for b
  proof -
    have "nx r = the (hp_links ?p) ! r" if "r \<in> set (L b)" for r
      using L b that rows each nx by (metis (mono_tags, lifting) mem_Collect_eq)
    then have "chain (\<lambda>r. the (hp_links ?p) ! r) (the (hp_heads ?p) ! b) (L b)" using L b chain_cong [of "L b" nx "\<lambda>r. the (hp_links ?p) ! r"] by auto
    then show ?thesis using L b rows by blast
  qed
  then show ?thesis using prep row key shape unfolding table_ok_def by (simp add: prepared_def same_shape_def arrays_ok_alt)
qed

text \<open>No worker gets stuck, and each can run to its end whatever the others have done.\<close>

definition publish_ok :: "hash_payload \<Rightarrow> bool" where
  "publish_ok p \<longleftrightarrow> (hp_shared_local p \<longrightarrow> hp_row_slots p \<noteq> None \<and> hp_row_local_idxs p \<noteq> None) \<and>
     (\<not> hp_shared_local p \<longrightarrow> \<not> hp_use_keys p \<longrightarrow>
        (\<forall>w < length (hp_registry p). re_build_keys (entry_of p w) \<noteq> None \<longrightarrow> re_build_rows (entry_of p w) \<noteq> None))"

lemma copy_and_hash_runs:
  assumes prep: "prepared l p0" and shape: "same_shape p0 p" and w: "w < length (hp_registry p0)" "re_build_keys (entry_of p0 w) = Some src"
  shows "\<exists>p'. copy_and_hash l w p = Inr p'"
proof -
  let ?off = "re_global_row_offset (entry_of p0 w)" and ?n = "rows_of p0 w"
  note [simp] = same_shape_simps [OF shape]
  have hash: "join_row_hash l src (TupleDataCollectionGetRow src i) = Inr (hash_key (local_key l p0 w i))" if "i < ?n" for i
    using prep w that join_row_hash_key by (fastforce simp: prepared_def local_ok_def)
  obtain bs ss where arr: "hp_buckets p = Some bs" "hp_salts p = Some ss" "length bs = hp_combined_row_count p0" "length ss = length bs"
    using shape by (auto simp: same_shape_def arrays_ok_def)
  have "?off + ?n \<le> length bs" using prep w(1) arr(3) by (auto simp: prepared_def ranges_ok_def global_row_def)
  from hash_loop [OF hash this arr(4), of "hp_capacity p0"]
  obtain r where loop: "fold_res (\<lambda>i (bs, ss). rbind (join_row_hash l src (TupleDataCollectionGetRow src i)) (\<lambda>hash.
      Inr (bs[?off + i := join_bucket (hp_capacity p0) hash], ss[?off + i := HashJoinSalt hash]))) [0..<?n] (bs, ss) = Inr r" by blast
  have pow: "is_pow2 (hp_capacity p0)" using prep by (simp add: prepared_def)
  then have "\<not> (hp_capacity p0 = 0 \<or> hp_capacity p0 AND (hp_capacity p0 - 1) \<noteq> 0)"
    using nat_and_pow2_mask [OF pow, of "hp_capacity p0"] by (auto simp del: One_nat_def dest: is_pow2_pos)
  then show ?thesis using w(2) arr loop by (cases r) (auto simp: copy_and_hash_def PrecomputeJoinHashes_def Let_def rows_of_def)
qed

definition steps_left :: "hash_payload \<Rightarrow> (nat \<Rightarrow> combine_pc) \<Rightarrow> nat \<Rightarrow> nat" where
  "steps_left p pc w = (case pc w of ToCopy \<Rightarrow> 2 * rows_of p w + 2 | ToExchange i \<Rightarrow> 2 * (rows_of p w - i) + 1
     | ToStore i old \<Rightarrow> 2 * (rows_of p w - i) | Combined \<Rightarrow> 0)"

lemma combine_progress:
  assumes prep: "prepared l p0" and inv: "combine_inv l p0 s" and pub: "publish_ok (cs_payload s)"
    and w: "w < length (hp_registry p0)" "re_build_keys (entry_of p0 w) \<noteq> None" "cs_pc s w \<noteq> Combined"
  shows "\<exists>pc p. combine_step l rl s (cs_move w pc p s) \<and> publish_ok p \<and> steps_left p0 (\<lambda>_. pc) w < steps_left p0 (cs_pc s) w"
proof -
  let ?p = "cs_payload s"
  have shape: "same_shape p0 ?p" using inv by (simp add: combine_inv_def)
  note [simp] = same_shape_simps [OF shape]
  have n: "re_row_count (entry_of p0 w) = rows_of p0 w" by (simp add: rows_of_def)
  have len: "linked p0 (cs_pc s w) w \<le> rows_of p0 w" using inv w(1) by (simp add: combine_inv_def)
  show ?thesis
  proof (cases "cs_pc s w")
    case ToCopy
    obtain p where p: "copy_and_hash l w ?p = Inr p" using copy_and_hash_runs [OF prep shape w(1)] w(2) by blast
    have "publish_ok p" using pub p
      by (auto simp: publish_ok_def copy_and_hash_def PrecomputeJoinHashes_def Let_def rbind_Inr_iff entry_of_def split: option.splits if_splits)
    then show ?thesis using step_copy [of w s l p rl] ToCopy p w(1) by (intro exI [of _ "ToExchange 0"] exI [of _ p]) (simp add: steps_left_def)
  next
    case (ToExchange i)
    show ?thesis
    proof (cases "i = rows_of p0 w")
      case True
      have "\<exists>p. publish_rows rl w ?p = Inr p" using pub w(1,2) by (auto simp: publish_rows_def publish_ok_def Let_def)
      then obtain p where p: "publish_rows rl w ?p = Inr p" ..
      have "publish_ok p" using pub p
        by (auto simp: publish_ok_def publish_rows_def Let_def entry_of_def split: option.splits if_splits)
      then show ?thesis using step_rows [of w s i rl p l] True ToExchange p w(1) n
        by (intro exI [of _ Combined] exI [of _ p]) (simp add: steps_left_def)
    next
      case False
      then have i: "i < rows_of p0 w" using len ToExchange by (simp add: linked_def)
      obtain old p where p: "link_exchange (global_row p0 w i) ?p = Inr (old, p)" "publish_ok p"
        using shape pub by (auto simp: same_shape_def arrays_ok_def link_exchange_def Let_def publish_ok_def entry_of_def)
      then show ?thesis using step_exchange [of w s i old p l rl] i ToExchange w(1) n
        by (intro exI [of _ "ToStore i old"] exI [of _ p]) (simp add: steps_left_def global_row_def)
    qed
  next
    case (ToStore i old)
    have "publish_ok (link_store (global_row p0 w i) old ?p)" using pub by (simp add: publish_ok_def link_store_def entry_of_def)
    moreover have "i < rows_of p0 w" using len ToStore by (simp add: linked_def)
    ultimately show ?thesis using step_store [of w s i old "link_store (global_row p0 w i) old ?p" l rl] ToStore w(1)
      by (intro exI [of _ "ToExchange (i + 1)"] exI [of _ "link_store (global_row p0 w i) old ?p"]) (simp add: steps_left_def global_row_def)
  qed (use w(3) in simp)
qed

lemma combine_runs_to_end:
  assumes prep: "prepared l p0" and inv: "combine_inv l p0 s" and pub: "publish_ok (cs_payload s)"
  shows "\<exists>t. (combine_step l rl)\<^sup>*\<^sup>* s t \<and> (\<forall>w < length (hp_registry p0). re_build_keys (entry_of p0 w) \<noteq> None \<longrightarrow> cs_pc t w = Combined)"
  using inv pub
proof (induction "\<Sum>w < length (hp_registry p0). steps_left p0 (cs_pc s) w" arbitrary: s rule: less_induct)
  case less
  show ?case
  proof (cases "\<forall>w < length (hp_registry p0). re_build_keys (entry_of p0 w) \<noteq> None \<longrightarrow> cs_pc s w = Combined")
    case False
    then obtain w where w: "w < length (hp_registry p0)" "re_build_keys (entry_of p0 w) \<noteq> None" "cs_pc s w \<noteq> Combined" by blast
    obtain pc p where p: "combine_step l rl s (cs_move w pc p s)" "publish_ok p" "steps_left p0 (\<lambda>_. pc) w < steps_left p0 (cs_pc s) w"
      using combine_progress [OF prep less.prems w] by blast
    let ?t = "cs_move w pc p s"
    have "steps_left p0 (cs_pc ?t) v = (if v = w then steps_left p0 (\<lambda>_. pc) w else steps_left p0 (cs_pc s) v)" for v
      by (auto simp: steps_left_def cs_move_def)
    then have "(\<Sum>v < length (hp_registry p0). steps_left p0 (cs_pc ?t) v) < (\<Sum>v < length (hp_registry p0). steps_left p0 (cs_pc s) v)"
      using w(1) p(3) by (intro sum_strict_mono_ex1) auto
    from less.hyps [OF this combine_step_inv [OF prep less.prems(1) p(1)]] p(2)
    obtain t where t: "(combine_step l rl)\<^sup>*\<^sup>* ?t t" "\<forall>w < length (hp_registry p0). re_build_keys (entry_of p0 w) \<noteq> None \<longrightarrow> cs_pc t w = Combined"
      by auto
    then show ?thesis using converse_rtranclp_into_rtranclp [of "combine_step l rl", OF p(1) t(1)] by blast
  qed blast
qed



lemma prepared_publish_ok:
  assumes "PrepareHashJoinCombine hdr mem l rl p0 = Some (Inr p)"
    and "\<forall>e\<in>set (hp_registry p0). re_build_keys e \<noteq> None \<longrightarrow> re_build_rows e \<noteq> None"
  shows "publish_ok p"
proof -
  obtain reg R K H where reg: "prepare_registry (hp_registry p0) (0, 0, 0) = (reg, R, K, H)" by (metis prod_cases4)
  have le: "R \<le> UINT32_MAX" "K \<le> UINT32_MAX" using assms(1) reg by (auto simp: PrepareHashJoinCombine_def split: if_splits)
  have p: "hp_registry p = reg" "hp_shared_local p = hp_shared_local p0"
    "hp_shared_local p0 \<longrightarrow> hp_row_slots p \<noteq> None \<and> hp_row_local_idxs p \<noteq> None"
    using assms(1) reg le unfolding PrepareHashJoinCombine_def by (auto simp: Let_def rbind_Inr_iff bind_eq_Some_conv split: if_splits)
  show ?thesis using prepare_registry_ranges [OF reg le] p assms(2) by (auto simp: publish_ok_def entry_of_def)
qed

text \<open>C2: Workers combine their build rows at the same time, and whatever the order of their steps: once every worker
  that has rows is through, every bucket's chain ends and links exactly the build rows whose key hashes to it, once each,
  every row has its key's salt, and the rows that a worker brought have their keys, long strings included, at the places
  that Prepare gave them.\<close>

theorem concurrent_combine_builds_the_table:
  assumes "PrepareHashJoinCombine hdr mem l rl p0 = Some (Inr p)"
    and "layout_ok l" "tdc_ok (hp_build_keys p0)" "\<forall>e\<in>set (hp_registry p0). source_ok l e" "0 < hp_combined_row_count p"
    and "(combine_step l rl)\<^sup>*\<^sup>* (combine_start p) s"
    and "\<forall>w < length (hp_registry p0). re_build_keys (entry_of p0 w) \<noteq> None \<longrightarrow> cs_pc s w = Combined"
  shows "table_ok l (hp_combined_row_count p) (cs_payload s) \<and>
    (\<forall>w < length (hp_registry p0). \<forall>i < count_of (re_build_keys (entry_of p0 w)).
       built_key l (cs_payload s) (re_global_row_offset (entry_of p w) + i) =
       row_key l (tdc_heap (the (re_build_keys (entry_of p0 w)))) (TupleDataCollectionGetRow (the (re_build_keys (entry_of p0 w))) i))"
proof -
  note prep = prepared_prepare [OF assms(1-5)]
  have "combine_inv l p s" using combine_run_inv [OF assms(6)] prep combine_start_inv by blast
  moreover have "cs_pc s w = Combined" if "w < length (hp_registry p)" "rows_of p w \<noteq> 0" for w
    using assms(7) prep that by (auto simp: count_of_def split: option.splits)
  ultimately have "table_ok l (hp_combined_row_count p) (cs_payload s) \<and>
      (\<forall>w < length (hp_registry p). \<forall>i < rows_of p w. built_key l (cs_payload s) (global_row p w i) = local_key l p w i)"
    using combined_table [of l p s] prep by blast
  then show ?thesis using prep by (simp add: global_row_def local_key_def src_of_def)
qed


definition demo_source :: "nat \<Rightarrow> registry_entry" where
  "demo_source n = \<lparr>re_build_keys = Some (demo_tdc\<lparr>tdc_row_count := n\<rparr>), re_build_rows = Some (demo_tdc\<lparr>tdc_row_count := n\<rparr>),
     re_row_count = 0, re_key_heap_used = 0, re_row_heap_used = 0, re_global_row_offset = 0, re_global_key_heap_offset = 0,
     re_global_row_heap_offset = 0\<rparr>"

definition demo_join :: hash_payload where
  "demo_join = \<lparr>hp_capacity = 0, hp_shared_local = False, hp_use_keys = False, hp_combined = False, hp_finalized = False,
     hp_release_state = 0, hp_prepare_state = 1, hp_combined_row_count = 0, hp_combined_key_heap_used = 0, hp_combined_row_heap_used = 0,
     hp_registry = [demo_source 2, demo_source 1], hp_build_keys = demo_tdc, hp_build_rows = demo_tdc, hp_row_slots = None,
     hp_row_local_idxs = None, hp_heads = None, hp_buckets = None, hp_links = None, hp_salts = None\<rparr>"

lemma demo_join_facts:
  "\<exists>p. PrepareHashJoinCombine 64 (\<lambda>_. 0) demo_layout demo_layout demo_join = Some (Inr p) \<and> hp_combined_row_count p = 3 \<and>
     re_global_row_offset (entry_of p 1) = 2"
  "layout_ok demo_layout" "tdc_ok (hp_build_keys demo_join)" "\<forall>e\<in>set (hp_registry demo_join). source_ok demo_layout e"
  "\<forall>e\<in>set (hp_registry demo_join). re_build_keys e \<noteq> None \<longrightarrow> re_build_rows e \<noteq> None"
proof -
  have cap: "ComputeHashTableCapacity 3 = Some 8" by (simp add: ComputeHashTableCapacity_def capacity_loop.simps)
  show "\<exists>p. PrepareHashJoinCombine 64 (\<lambda>_. 0) demo_layout demo_layout demo_join = Some (Inr p) \<and> hp_combined_row_count p = 3 \<and>
     re_global_row_offset (entry_of p 1) = 2"
    by (simp add: PrepareHashJoinCombine_def demo_join_def demo_source_def count_of_def heap_of_def demo_tdc_def TupleDataCollectionInit_def
        UINT32_MAX_def EnsureEmptyJoinGlobalCapacity_def cap Let_def entry_of_def)
  show "layout_ok demo_layout" "tdc_ok (hp_build_keys demo_join)" using demo_facts by (simp_all add: demo_join_def)
  have "key_at demo_layout (tdc_heap demo_tdc) 0 0 demo_row (row_key demo_layout (tdc_heap demo_tdc) demo_row)"
    using demo_facts by (auto simp: key_at_def row_ok_def demo_row_def demo_layout_def q1_layout ref_ok_def ref_above_def read_string_ref_zeros)
  moreover have "TupleDataCollectionGetRow demo_tdc i = demo_row" if "i < 2" for i
    using that by (simp add: TupleDataCollectionGetRow_def demo_tdc_def TupleDataCollectionInit_def demo_row_def)
  ultimately show "\<forall>e\<in>set (hp_registry demo_join). source_ok demo_layout e"
    by (simp add: demo_join_def demo_source_def source_ok_def TupleDataCollectionGetRow_def) (simp add: demo_tdc_def TupleDataCollectionInit_def)
qed (simp add: demo_join_def demo_source_def)


theorem concurrent_combine_builds_the_table_witness:
  "\<exists>p s. PrepareHashJoinCombine 64 (\<lambda>_. 0) demo_layout demo_layout demo_join = Some (Inr p) \<and>
     (combine_step demo_layout demo_layout)\<^sup>*\<^sup>* (combine_start p) s \<and> table_ok demo_layout 3 (cs_payload s) \<and>
     built_key demo_layout (cs_payload s) 2 = row_key demo_layout (tdc_heap demo_tdc) demo_row"
proof -
  obtain p where p: "PrepareHashJoinCombine 64 (\<lambda>_. 0) demo_layout demo_layout demo_join = Some (Inr p)" "hp_combined_row_count p = 3"
    "re_global_row_offset (entry_of p 1) = 2"
    using demo_join_facts(1) by blast
  note prep = prepared_prepare [OF p(1) demo_join_facts(2-4)]
  obtain s where s: "(combine_step demo_layout demo_layout)\<^sup>*\<^sup>* (combine_start p) s"
    "\<forall>w < length (hp_registry demo_join). re_build_keys (entry_of demo_join w) \<noteq> None \<longrightarrow> cs_pc s w = Combined"
    using combine_runs_to_end [of demo_layout p "combine_start p" demo_layout] prep p(2) combine_start_inv
      prepared_publish_ok [OF p(1) demo_join_facts(5)] by (auto simp: combine_start_def)
  note built = concurrent_combine_builds_the_table [OF p(1) demo_join_facts(2-4) _ s]
  have "1 < length (hp_registry demo_join)" "0 < count_of (re_build_keys (entry_of demo_join 1))"
    "the (re_build_keys (entry_of demo_join 1)) = demo_tdc\<lparr>tdc_row_count := 1\<rparr>"
    by (simp_all add: demo_join_def demo_source_def entry_of_def count_of_def)
  then have "built_key demo_layout (cs_payload s) (2 + 0) =
      row_key demo_layout (tdc_heap (demo_tdc\<lparr>tdc_row_count := 1\<rparr>)) (TupleDataCollectionGetRow (demo_tdc\<lparr>tdc_row_count := 1\<rparr>) 0)"
    "table_ok demo_layout 3 (cs_payload s)" using built p(2,3) by (metis zero_less_numeral)+
  moreover have "TupleDataCollectionGetRow (demo_tdc\<lparr>tdc_row_count := 1\<rparr>) 0 = demo_row"
    by (simp add: TupleDataCollectionGetRow_def demo_tdc_def TupleDataCollectionInit_def demo_row_def)
  ultimately show ?thesis using p(1) s(1) by auto
qed

section \<open>Finalizing without a concurrent combine\<close>

text \<open>The arrays after the first \<open>k\<close> rows.\<close>

definition chains_upto :: "nat \<Rightarrow> (nat \<Rightarrow> gval list) \<Rightarrow> nat \<Rightarrow> nat list \<times> nat list \<times> u16 list \<Rightarrow> bool" where
  "chains_upto c key k arrays \<longleftrightarrow>
     (case arrays of (heads, links, salts) \<Rightarrow>
        (\<forall>r < k. salts ! r = HashJoinSalt (hash_key (key r))) \<and>
        (\<forall>b < c. \<exists>rs. chain ((!) links) (heads ! b) rs \<and> distinct rs \<and> set rs = {r. r < k \<and> join_bucket c (hash_key (key r)) = b}))"

lemma build_chains_loop:
  assumes c: "is_pow2 c" "c < 2 ^ 32" and n: "n \<le> UINT32_MAX" "length heads = c" "length links = n" "length salts = n"
    and empty: "\<forall>b < c. heads ! b = HASH_JOIN_INVALID_ROW"
    and hash: "\<And>r. r < n \<Longrightarrow> join_row_hash l keys (TupleDataCollectionGetRow keys r) = Inr (hash_key (key r))"
  shows "k \<le> n \<Longrightarrow> \<exists>hs ls ss. fold_res (finalize_row l keys c None) [0..<k] (heads, links, salts) = Inr (hs, ls, ss) \<and>
    length hs = c \<and> length ls = n \<and> length ss = n \<and> chains_upto c key k (hs, ls, ss)"
proof (induction k)
  case 0
  have "\<exists>rs. chain ((!) links) (heads ! b) rs \<and> distinct rs \<and> rs = []" if "b < c" for b using empty that by simp
  then show ?case using n by (simp add: chains_upto_def)
next
  case (Suc k)
  then obtain hs ls ss where run: "fold_res (finalize_row l keys c None) [0..<k] (heads, links, salts) = Inr (hs, ls, ss)"
    and len: "length hs = c" "length ls = n" "length ss = n" and inv: "chains_upto c key k (hs, ls, ss)" by auto
  let ?h = "hash_key (key k)"
  let ?b = "join_bucket c ?h"
  let ?hs = "hs[?b := k]" and ?ls = "ls[k := hs ! ?b]" and ?ss = "ss[k := HashJoinSalt ?h]"
  have step: "finalize_row l keys c None k (hs, ls, ss) = Inr (?hs, ?ls, ?ss)"
    using hash [of k] Suc.prems by (simp add: finalize_row_def)
  have b: "?b < c" by (rule join_bucket_less [OF c])
  have "\<exists>rs. chain ((!) ?ls) (?hs ! d) rs \<and> distinct rs \<and> set rs = {r. r < Suc k \<and> join_bucket c (hash_key (key r)) = d}" if d: "d < c" for d
  proof -
    obtain rs where rs: "chain ((!) ls) (hs ! d) rs" "distinct rs" "set rs = {r. r < k \<and> join_bucket c (hash_key (key r)) = d}"
      using inv d by (auto simp: chains_upto_def)
    have same: "chain ((!) ?ls) h rs = chain ((!) ls) h rs" for h using rs(3) by (intro chain_cong) auto
    show ?thesis
    proof (cases "d = ?b")
      case True
      have "k \<noteq> HASH_JOIN_INVALID_ROW" using Suc.prems n(1) by (simp add: HASH_JOIN_INVALID_ROW_def)
      then have "chain ((!) ?ls) (?hs ! d) (k # rs)" using rs(1) same True b len Suc.prems by simp
      then show ?thesis using rs True by (intro exI [of _ "k # rs"]) (auto simp: less_Suc_eq)
    next
      case False
      then show ?thesis using rs same by (intro exI [of _ rs]) (auto simp: less_Suc_eq)
    qed
  qed
  then have "chains_upto c key (Suc k) (?hs, ?ls, ?ss)" using inv len Suc.prems by (auto simp: chains_upto_def nth_list_update less_Suc_eq)
  then show ?case using run step len by (simp add: fold_res_append)
qed

lemma build_chains_table:
  assumes c: "is_pow2 c" "c < 2 ^ 32" and n: "tdc_row_count (hp_build_keys p) \<le> UINT32_MAX" and "hp_buckets p = None"
    and refs: "\<forall>r < tdc_row_count (hp_build_keys p). row_refs_ok l (tdc_heap (hp_build_keys p)) (length (tdc_heap (hp_build_keys p)))
        (TupleDataCollectionGetRow (hp_build_keys p) r)"
  shows "\<exists>q. build_chains mem l c p = Inr q \<and> table_ok l (tdc_row_count (hp_build_keys p)) q \<and> hp_build_keys q = hp_build_keys p"
proof -
  let ?n = "tdc_row_count (hp_build_keys p)"
  have hash: "join_row_hash l (hp_build_keys p) (TupleDataCollectionGetRow (hp_build_keys p) r) = Inr (hash_key (built_key l p r))" if "r < ?n" for r
    using join_row_hash_refs refs that by (auto simp: built_key_def)
  obtain hs ls ss where loop: "fold_res (finalize_row l (hp_build_keys p) c None) [0..<?n]
      (replicate c HASH_JOIN_INVALID_ROW, map mem [0..<?n], map (\<lambda>i. word_of_nat (mem i)) [0..<?n]) = Inr (hs, ls, ss)"
    "chains_upto c (built_key l p) ?n (hs, ls, ss)"
    using build_chains_loop [OF c n _ _ _ _ hash, of "replicate c HASH_JOIN_INVALID_ROW" "map mem [0..<?n]" "map (\<lambda>i. word_of_nat (mem i)) [0..<?n]" ?n]
    by auto
  let ?q = "p\<lparr>hp_capacity := c, hp_heads := Some hs, hp_links := Some ls, hp_salts := Some ss\<rparr>"
  have "build_chains mem l c p = Inr ?q" using loop(1) assms(4) by (simp add: build_chains_def Let_def)
  moreover have "built_key l ?q = built_key l p" by (simp add: built_key_def fun_eq_iff)
  then have "table_ok l ?n ?q" using loop(2) c n refs by (simp add: table_ok_def chains_upto_def)
  ultimately show ?thesis by simp
qed

lemma table_ok_finish:
  assumes "table_ok l n p"
  shows "table_ok l n (p\<lparr>hp_build_keys := finish_scan (hp_build_keys p), hp_build_rows := r, hp_finalized := f\<rparr>)"
proof -
  let ?q = "p\<lparr>hp_build_keys := finish_scan (hp_build_keys p), hp_build_rows := r, hp_finalized := f\<rparr>"
  have keys: "tdc_heap (finish_scan t) = tdc_heap t" "TupleDataCollectionGetRow (finish_scan t) i = TupleDataCollectionGetRow t i" for t i
    by (simp_all add: finish_scan_def TupleDataCollectionResetScan_def TupleDataCollectionGetRow_def)
  have "built_key l ?q = built_key l p" by (simp add: built_key_def fun_eq_iff keys)
  then show ?thesis using assms by (simp add: table_ok_def keys)
qed

lemma finalized_table:
  fixes p
  defines "n \<equiv> tdc_row_count (hp_build_keys p)"
  assumes "hp_prepare_state p \<noteq> 2" "hp_heads p = None" "hp_buckets p = None" "hp_capacity p = 0" "0 < n" "n \<le> 2 ^ 30"
    and "hp_shared_local p \<or> hp_use_keys p \<or> tdc_row_count (hp_build_rows p) = n"
    and "\<forall>r < n. row_refs_ok l (tdc_heap (hp_build_keys p)) (length (tdc_heap (hp_build_keys p))) (TupleDataCollectionGetRow (hp_build_keys p) r)"
  shows "\<exists>q. HashFinalize mem l p = Some (Inr q) \<and> table_ok l n q \<and> hp_finalized q \<and> (\<forall>r < n. built_key l q r = built_key l p r)"
proof -
  have t: "wrap32 (n * 2) = 2 * n" "2 * n \<le> 2 ^ 31" using assms(7) by (simp_all add: mult.commute)
  obtain c where c: "capacity_loop 1 (2 * n) = Some c" "is_pow2 c" "c < 2 ^ 32"
    using table_capacity [OF assms(6,7)] table_capacity_pow2 [of n] t(1) by (auto simp: ComputeHashTableCapacity_def)
  have "n \<le> UINT32_MAX" using assms(7) by (simp add: UINT32_MAX_def)
  from build_chains_table [OF c(2,3) this [unfolded n_def] assms(4) assms(9) [unfolded n_def], of mem]
  obtain q where q: "build_chains mem l c p = Inr q" "table_ok l n q" "hp_build_keys q = hp_build_keys p" by (auto simp: n_def)
  let ?r = "q\<lparr>hp_build_keys := finish_scan (hp_build_keys q), hp_build_rows := finish_scan (hp_build_rows q), hp_finalized := True\<rparr>"
  have "HashFinalize mem l p = Some (Inr ?r)"
    using assms(2-6,8) c(1) q(1) t(1) by (auto simp: HashFinalize_def PublishHashJoinCombinedRows_def Let_def n_def)
  moreover have "built_key l ?r r = built_key l p r" for r
    using q(3) by (simp add: built_key_def finish_scan_def TupleDataCollectionResetScan_def TupleDataCollectionGetRow_def)
  ultimately show ?thesis using table_ok_finish [OF q(2)] by simp
qed

text \<open>C25: When the rows did not go through the concurrent combine, Finalize itself sizes the table and chains every build
  row into the bucket of its key, once each and with its salt, and it keeps the rows as they are.\<close>

theorem HashFinalize_builds_the_table:
  fixes p
  defines "n \<equiv> tdc_row_count (hp_build_keys p)"
  assumes "hp_prepare_state p \<noteq> 2" "hp_heads p = None" "hp_buckets p = None" "hp_capacity p = 0" "0 < n" "n \<le> 2 ^ 30"
    and "hp_shared_local p \<or> hp_use_keys p \<or> tdc_row_count (hp_build_rows p) = n"
    and "\<forall>r < n. row_refs_ok l (tdc_heap (hp_build_keys p)) (length (tdc_heap (hp_build_keys p))) (TupleDataCollectionGetRow (hp_build_keys p) r)"
  shows "\<exists>q. HashFinalize mem l p = Some (Inr q) \<and> table_ok l n q \<and> hp_finalized q \<and> (\<forall>r < n. built_key l q r = built_key l p r)"
  unfolding n_def by (rule finalized_table) (use assms in \<open>simp_all add: n_def\<close>)

lemma demo_finalized:
  "\<exists>q. HashFinalize (\<lambda>_. 0) demo_layout (demo_join\<lparr>hp_build_keys := demo_tdc\<lparr>tdc_row_count := 2\<rparr>, hp_use_keys := True\<rparr>) = Some (Inr q) \<and>
     table_ok demo_layout 2 q \<and> hp_finalized q"
  "\<forall>r < 2. row_refs_ok demo_layout (tdc_heap demo_tdc) (length (tdc_heap demo_tdc)) (TupleDataCollectionGetRow (demo_tdc\<lparr>tdc_row_count := 2\<rparr>) r)"
proof -
  have "row_refs_ok demo_layout (tdc_heap demo_tdc) (length (tdc_heap demo_tdc)) demo_row"
    by (auto simp: row_refs_ok_def demo_row_def demo_layout_def q1_layout ref_ok_def read_string_ref_zeros)
  moreover have "TupleDataCollectionGetRow (demo_tdc\<lparr>tdc_row_count := 2\<rparr>) r = demo_row" if "r < 2" for r
    using that by (simp add: TupleDataCollectionGetRow_def demo_tdc_def TupleDataCollectionInit_def demo_row_def)
  ultimately show refs: "\<forall>r < 2. row_refs_ok demo_layout (tdc_heap demo_tdc) (length (tdc_heap demo_tdc)) (TupleDataCollectionGetRow (demo_tdc\<lparr>tdc_row_count := 2\<rparr>) r)"
    by simp
  show "\<exists>q. HashFinalize (\<lambda>_. 0) demo_layout (demo_join\<lparr>hp_build_keys := demo_tdc\<lparr>tdc_row_count := 2\<rparr>, hp_use_keys := True\<rparr>) = Some (Inr q) \<and>
     table_ok demo_layout 2 q \<and> hp_finalized q"
    using finalized_table [of "demo_join\<lparr>hp_build_keys := demo_tdc\<lparr>tdc_row_count := 2\<rparr>, hp_use_keys := True\<rparr>" demo_layout "\<lambda>_. 0"] refs
    by (auto simp: demo_join_def)
qed

theorem HashFinalize_builds_the_table_witness:
  "\<exists>q. HashFinalize (\<lambda>_. 0) demo_layout (demo_join\<lparr>hp_build_keys := demo_tdc\<lparr>tdc_row_count := 2\<rparr>, hp_use_keys := True\<rparr>) = Some (Inr q) \<and>
     table_ok demo_layout 2 q"
  using HashFinalize_builds_the_table [of "demo_join\<lparr>hp_build_keys := demo_tdc\<lparr>tdc_row_count := 2\<rparr>, hp_use_keys := True\<rparr>" demo_layout "\<lambda>_. 0"]
    demo_finalized(2)
  by (auto simp: demo_join_def)

text \<open>After a concurrent combine Finalize publishes the counts and keeps the table.\<close>

lemma HashFinalize_keeps_the_table:
  assumes "hp_prepare_state p = 2" "table_ok l (hp_combined_row_count p) p" "0 < hp_combined_row_count p"
  shows "\<exists>q. HashFinalize mem l p = Some (Inr q) \<and> table_ok l (hp_combined_row_count p) q \<and> hp_finalized q \<and>
    tdc_row_count (hp_build_keys q) = hp_combined_row_count p \<and> (\<forall>r. built_key l q r = built_key l p r)"
proof -
  let ?p = "PublishHashJoinCombinedRows p"
  have row: "TupleDataCollectionGetRow (hp_build_keys ?p) r = TupleDataCollectionGetRow (hp_build_keys p) r" for r
    using assms(1) by (simp add: PublishHashJoinCombinedRows_def Let_def TupleDataCollectionGetRow_def)
  have p: "tdc_heap (hp_build_keys ?p) = tdc_heap (hp_build_keys p)" "hp_capacity ?p = hp_capacity p" "hp_heads ?p = hp_heads p"
    "hp_links ?p = hp_links p" "hp_salts ?p = hp_salts p" "tdc_row_count (hp_build_keys ?p) = hp_combined_row_count p"
    "hp_shared_local ?p \<or> hp_use_keys ?p \<or> tdc_row_count (hp_build_rows ?p) = hp_combined_row_count p"
    using assms(1) by (simp_all add: PublishHashJoinCombinedRows_def Let_def)
  have key: "built_key l ?p = built_key l p" by (simp add: built_key_def fun_eq_iff row p)
  then have ok: "table_ok l (hp_combined_row_count p) ?p" using assms(2) by (simp add: table_ok_def row p)
  let ?q = "?p\<lparr>hp_build_keys := finish_scan (hp_build_keys ?p), hp_build_rows := finish_scan (hp_build_rows ?p), hp_finalized := True\<rparr>"
  have "HashFinalize mem l p = Some (Inr ?q)"
    using assms(2,3) p unfolding HashFinalize_def Let_def by (auto simp: table_ok_def)
  moreover have "built_key l ?q r = built_key l p r" for r
    using fun_cong [OF key, of r] by (simp add: built_key_def finish_scan_def TupleDataCollectionResetScan_def TupleDataCollectionGetRow_def)
  moreover have "tdc_row_count (hp_build_keys ?q) = hp_combined_row_count p" using p(6) by (simp add: finish_scan_def TupleDataCollectionResetScan_def)
  ultimately show ?thesis using table_ok_finish [OF ok] by (intro exI [of _ ?q]) simp
qed

end
