(* ===== verification/HashProbe.thy ===== *)
theory HashProbe
  imports HashBuild
begin

text \<open>
  The probe side of the hash join: Execute of physical_hash_join.cpp with its cursor over probe rows and
  bucket chains, and the fast path for inner joins on one integer key of physical_hash_join_fast_probe.cpp.
  The residual join filter is a parameter. The reference is the list of matched pairs that each probe row
  contributes in each join mode; the executions on a chunk return the joined rows of these pairs.
\<close>

section \<open>State\<close>

record probe_cursor =
  pc_active :: bool
  pc_drained :: bool
  pc_row :: nat
  pc_build :: nat
  pc_have_build :: bool
  pc_salt :: u16
  pc_matched :: bool

definition NewProbeCursor :: probe_cursor where
  "NewProbeCursor = \<lparr>pc_active = False, pc_drained = False, pc_row = 0, pc_build = UINT32_MAX, pc_have_build = False,
     pc_salt = 0, pc_matched = False\<rparr>"

record fast_probe =
  fp_enabled :: bool
  fp_key_is_int32 :: bool
  fp_chunk_slot :: nat
  fp_key_offset :: nat
  fp_columns :: "resolved_column list"

text \<open>The fast probe state is filled in by the first execution that finds a table.\<close>

record join_state =
  js_cursor :: probe_cursor
  js_fast :: "fast_probe option"

definition GetJoinOperatorState :: join_state where
  "GetJoinOperatorState = \<lparr>js_cursor = NewProbeCursor, js_fast = None\<rparr>"

text \<open>
  What Execute reads from its descriptor. The counts are those of the residual filter's inputs, expressions
  and steps, \<open>hj_residual\<close> is the evaluator on a probe row and a build row.
\<close>

record hash_join =
  hj_payload :: hash_payload
  hj_mode :: match_mode
  hj_probe_layout :: tuple_data_layout
  hj_key_layout :: tuple_data_layout
  hj_row_layout :: tuple_data_layout
  hj_columns :: "output_column list"
  hj_n_filter :: "nat \<times> nat \<times> nat"
  hj_residual :: "data_chunk \<Rightarrow> matched \<Rightarrow> bool result"

section \<open>Setting up\<close>

definition OutputColumnsReferenceRight :: "output_column list \<Rightarrow> bool" where
  "OutputColumnsReferenceRight = list_ex (\<lambda>oc. oc_side oc = RIGHT_SIDE \<and> oc_decode_kind oc \<noteq> DECODE_NONE)"

definition has_join_filter :: "hash_join \<Rightarrow> bool" where
  "has_join_filter j \<longleftrightarrow> (case hj_n_filter j of (inputs, exprs, steps) \<Rightarrow> inputs > 0 \<and> exprs > 0 \<and> steps > 0)"

definition needs_build_row :: "hash_join \<Rightarrow> bool" where
  "needs_build_row j \<longleftrightarrow> has_join_filter j \<or> OutputColumnsReferenceRight (hj_columns j)"

definition fast_inner_possible :: "hash_join \<Rightarrow> bool" where
  "fast_inner_possible j \<longleftrightarrow>
     hj_mode j = JOIN_INNER \<and> \<not> list_ex (\<lambda>oc. oc_decode_kind oc = DECODE_NONE) (hj_columns j) \<and> hj_n_filter j = (0, 0, 0) \<and>
     column_count (hj_probe_layout j) = 1 \<and> column_count (hj_key_layout j) = 1 \<and>
     (let probe_col = columns (hj_probe_layout j) ! 0; build_col = columns (hj_key_layout j) ! 0
      in col_kind probe_col = col_kind build_col \<and> col_width probe_col = col_width build_col \<and>
         unat (col_src_col_idx probe_col) < 16 \<and> (col_kind probe_col = INT32 \<or> col_kind probe_col = INT64))"

definition InitializeHashJoinFastProbeState :: "hash_join \<Rightarrow> fast_probe result" where
  "InitializeHashJoinFastProbeState j =
     rbind (resolve_columns (hj_row_layout j) (hj_columns j)) (\<lambda>cols.
       if fast_inner_possible j
       then let probe_col = columns (hj_probe_layout j) ! 0
            in Inr \<lparr>fp_enabled = True, fp_key_is_int32 = (col_kind probe_col = INT32), fp_chunk_slot = unat (col_src_col_idx probe_col),
                 fp_key_offset = unat (col_offset (columns (hj_key_layout j) ! 0)), fp_columns = cols\<rparr>
       else Inr \<lparr>fp_enabled = False, fp_key_is_int32 = False, fp_chunk_slot = 0, fp_key_offset = 0, fp_columns = cols\<rparr>)"

definition TryHashSingleJoinKeyChunkRow :: "tuple_data_layout \<Rightarrow> data_chunk \<Rightarrow> nat \<Rightarrow> u64 option" where
  "TryHashSingleJoinKeyChunkRow layout chunk row_idx =
     (if column_count layout \<noteq> 1 then None
      else let col = columns layout ! 0; slot = unat (col_src_col_idx col)
           in if slot \<ge> 16 then None
              else case col_kind col of
                     INT32 \<Rightarrow> Some (HashSingleGroupInt32Value (get_int32 chunk slot row_idx))
                   | INT64 \<Rightarrow> Some (HashSingleGroupInt64Value (get_int64 chunk slot row_idx))
                   | _ \<Rightarrow> None)"

definition probe_hash :: "tuple_data_layout \<Rightarrow> data_chunk \<Rightarrow> nat \<Rightarrow> u64 result" where
  "probe_hash layout chunk row_idx =
     (case TryHashSingleJoinKeyChunkRow layout chunk row_idx of Some h \<Rightarrow> Inr h | None \<Rightarrow> HashGroup layout chunk row_idx)"

section \<open>Build rows\<close>

text \<open>A payload row that stayed in its worker's own collection is found through the maps that Combine filled in.\<close>

definition ResolveSharedLocalBuildRow :: "hash_payload \<Rightarrow> nat \<Rightarrow> (tuple_data_collection option \<times> u8 list option) result" where
  "ResolveSharedLocalBuildRow p build_row_idx =
     (case (hp_row_slots p, hp_row_local_idxs p) of
        (Some slots, Some idxs) \<Rightarrow>
          let slot = slots ! build_row_idx; idx = idxs ! build_row_idx
          in if slot \<ge> length (hp_registry p) then Inl (Elog ''shared-local hash join registry slot out of range'')
             else (case re_build_rows (entry_of p slot) of
                     None \<Rightarrow> Inl (Elog ''shared-local hash join row store missing'')
                   | Some rows \<Rightarrow>
                       if idx \<ge> tdc_row_count rows then Inl (Elog ''shared-local hash join local row index out of range'')
                       else Inr (Some rows, Some (TupleDataCollectionGetRow rows idx)))
      | _ \<Rightarrow> Inl (Elog ''shared-local hash join payload mappings missing''))"

definition build_side :: "hash_join \<Rightarrow> nat \<Rightarrow> (tuple_data_collection option \<times> u8 list option) result" where
  "build_side j r =
     (let p = hj_payload j
      in if \<not> needs_build_row j then Inr (None, None)
         else if hp_shared_local p then ResolveSharedLocalBuildRow p r
         else Inr (Some (payload_rows p), Some (TupleDataCollectionGetRow (payload_rows p) r)))"

text \<open>Whether a build row of the chain matches a probe row: equal keys, and the residual filter passes.\<close>

definition consider_row :: "hash_join \<Rightarrow> data_chunk \<Rightarrow> nat \<Rightarrow> nat \<Rightarrow> matched option result" where
  "consider_row j input i r =
     (let keys = hp_build_keys (hj_payload j)
      in rbind (MatchGroupLayouts (hj_key_layout j) (Some keys) (TupleDataCollectionGetRow keys r) (hj_probe_layout j) input i)
           (\<lambda>equal. if \<not> equal then Inr None
             else rbind (build_side j r) (\<lambda>(tdc, row).
               if has_join_filter j
               then rbind (hj_residual j input (i, tdc, row)) (\<lambda>pass. Inr (if pass then Some (i, tdc, row) else None))
               else Inr (Some (i, tdc, row)))))"

section \<open>The probe loops\<close>

text \<open>Following a chain to the next row with the salt. A cyclic chain would be followed for ever.\<close>

partial_function (option) skip_salts :: "nat list \<Rightarrow> u16 list \<Rightarrow> u16 \<Rightarrow> nat \<Rightarrow> nat option" where
  "skip_salts links salts salt r =
     (if r \<noteq> HASH_JOIN_INVALID_ROW \<and> salts ! r \<noteq> salt then skip_salts links salts salt (links ! r) else Some r)"

abbreviation next_row :: "hash_payload \<Rightarrow> u16 \<Rightarrow> nat \<Rightarrow> nat option" where
  "next_row p salt r \<equiv> skip_salts (the (hp_links p)) (the (hp_salts p)) salt r"

text \<open>The chain of one probe row: the next build row, whether the probe row has matched, and the batch.\<close>

partial_function (option) match_loop ::
  "hash_join \<Rightarrow> data_chunk \<Rightarrow> nat \<Rightarrow> nat \<Rightarrow> u16 \<Rightarrow> nat \<Rightarrow> bool \<Rightarrow> matched list \<Rightarrow> (nat \<times> bool \<times> matched list) result option" where
  "match_loop j input i out_count salt r found batch =
     (if r = HASH_JOIN_INVALID_ROW then Some (Inr (r, found, batch))
      else Option.bind (next_row (hj_payload j) salt (the (hp_links (hj_payload j)) ! r)) (\<lambda>succ.
        case consider_row j input i r of
          Inl e \<Rightarrow> Some (Inl e)
        | Inr None \<Rightarrow> match_loop j input i out_count salt succ found batch
        | Inr (Some m) \<Rightarrow>
            if hj_mode j = JOIN_ANTI then Some (Inr (HASH_JOIN_INVALID_ROW, True, []))
            else if hj_mode j = JOIN_SEMI then Some (Inr (HASH_JOIN_INVALID_ROW, True, batch @ [m]))
            else if out_count + length (batch @ [m]) \<ge> PIPELINE_DEFAULT_CHUNK_SIZE then Some (Inr (succ, True, batch @ [m]))
            else match_loop j input i out_count salt succ True (batch @ [m])))"

text \<open>A probe row whose chain is not under way: its hash selects the chain.\<close>

definition enter_row :: "hash_join \<Rightarrow> data_chunk \<Rightarrow> probe_cursor \<Rightarrow> probe_cursor result option" where
  "enter_row j input c =
     (if pc_have_build c then Some (Inr c)
      else case probe_hash (hj_probe_layout j) input (pc_row c) of
             Inl e \<Rightarrow> Some (Inl e)
           | Inr hash \<Rightarrow>
               Option.bind (next_row (hj_payload j) (HashJoinSalt hash)
                   (the (hp_heads (hj_payload j)) ! join_bucket (hp_capacity (hj_payload j)) hash))
                 (\<lambda>r. Some (Inr (c\<lparr>pc_salt := HashJoinSalt hash, pc_build := r, pc_have_build := True, pc_matched := False\<rparr>))))"

definition leave_row :: "probe_cursor \<Rightarrow> probe_cursor" where
  "leave_row c = c\<lparr>pc_matched := False, pc_have_build := False, pc_row := pc_row c + 1\<rparr>"

definition probe_row :: "hash_join \<Rightarrow> resolved_column list \<Rightarrow> data_chunk \<Rightarrow> probe_cursor \<Rightarrow> data_chunk \<Rightarrow>
    (probe_cursor \<times> data_chunk) result option" where
  "probe_row j cols input c out =
     Option.bind (enter_row j input c) (\<lambda>rc. case rc of
       Inl e \<Rightarrow> Some (Inl e)
     | Inr c \<Rightarrow>
         Option.bind (match_loop j input (pc_row c) (chunk_count out) (pc_salt c) (pc_build c) (pc_matched c) []) (\<lambda>rm. case rm of
           Inl e \<Rightarrow> Some (Inl e)
         | Inr (r, found, batch) \<Rightarrow>
             let complete = (r = HASH_JOIN_INVALID_ROW);
                 batch = (if (hj_mode j = JOIN_ANTI \<or> hj_mode j = JOIN_LEFT) \<and> complete \<and> batch = [] \<and> \<not> found
                          then [(pc_row c, None, None)] else batch);
                 c = c\<lparr>pc_build := r, pc_matched := found\<rparr>
             in Some (rbind (append_batch input cols batch out) (\<lambda>out. Inr (if complete then leave_row c else c, out)))))"

text \<open>The loop over the probe rows; \<open>body\<close> is one round.\<close>

partial_function (option) probe_loop ::
  "(nat \<Rightarrow> bool) \<Rightarrow> (probe_cursor \<Rightarrow> data_chunk \<Rightarrow> (probe_cursor \<times> data_chunk) result option) \<Rightarrow> data_chunk \<Rightarrow>
   probe_cursor \<Rightarrow> data_chunk \<Rightarrow> (probe_cursor \<times> data_chunk) result option" where
  "probe_loop cancel body input c out =
     (if pc_row c < chunk_count input \<and> \<not> cancel (pc_row c) \<and> chunk_count out < PIPELINE_DEFAULT_CHUNK_SIZE
      then Option.bind (body c out) (\<lambda>rc. case rc of
             Inl e \<Rightarrow> Some (Inl e)
           | Inr (c, out) \<Rightarrow>
               if chunk_count out \<ge> PIPELINE_DEFAULT_CHUNK_SIZE then Some (Inr (c, out))
               else probe_loop cancel body input c out)
      else Some (Inr (c, out)))"

section \<open>The fast path\<close>

definition fast_key_equal :: "fast_probe \<Rightarrow> u8 list \<Rightarrow> data_chunk \<Rightarrow> nat \<Rightarrow> bool" where
  "fast_key_equal f build_key_row input i =
     (if fp_key_is_int32 f then get_u32 (fp_key_offset f) build_key_row = get_int32 input (fp_chunk_slot f) i
      else get_u64 (fp_key_offset f) build_key_row = get_int64 input (fp_chunk_slot f) i)"

partial_function (option) fast_match_loop ::
  "hash_payload \<Rightarrow> fast_probe \<Rightarrow> data_chunk \<Rightarrow> nat \<Rightarrow> u16 \<Rightarrow> nat \<Rightarrow> data_chunk \<Rightarrow> (nat \<times> data_chunk) result option" where
  "fast_match_loop p f input i salt r out =
     (if r = HASH_JOIN_INVALID_ROW then Some (Inr (r, out))
      else Option.bind (next_row p salt (the (hp_links p) ! r)) (\<lambda>succ.
        if \<not> fast_key_equal f (TupleDataCollectionGetRow (hp_build_keys p) r) input i
        then fast_match_loop p f input i salt succ out
        else case CopyResolvedJoinRow input i (Some (payload_rows p)) (Some (TupleDataCollectionGetRow (payload_rows p) r))
                    (fp_columns f) out (chunk_count out) of
               Inl e \<Rightarrow> Some (Inl e)
             | Inr out \<Rightarrow>
                 let out = out\<lparr>chunk_count := chunk_count out + 1\<rparr>
                 in if chunk_count out \<ge> PIPELINE_DEFAULT_CHUNK_SIZE then Some (Inr (succ, out))
                    else fast_match_loop p f input i salt succ out))"

definition fast_enter :: "hash_payload \<Rightarrow> fast_probe \<Rightarrow> data_chunk \<Rightarrow> probe_cursor \<Rightarrow> probe_cursor option" where
  "fast_enter p f input c =
     (if pc_have_build c then Some c
      else let hash = (if fp_key_is_int32 f then HashSingleGroupInt32Value (get_int32 input (fp_chunk_slot f) (pc_row c))
                       else HashSingleGroupInt64Value (get_int64 input (fp_chunk_slot f) (pc_row c)))
           in Option.bind (next_row p (HashJoinSalt hash) (the (hp_heads p) ! join_bucket (hp_capacity p) hash))
                (\<lambda>r. Some (c\<lparr>pc_salt := HashJoinSalt hash, pc_build := r, pc_have_build := True\<rparr>)))"

text \<open>A null key of a row that was not entered yet is skipped.\<close>

definition fast_row :: "hash_payload \<Rightarrow> fast_probe \<Rightarrow> data_chunk \<Rightarrow> probe_cursor \<Rightarrow> data_chunk \<Rightarrow>
    (probe_cursor \<times> data_chunk) result option" where
  "fast_row p f input c out =
     (if \<not> pc_have_build c \<and> nulls input (fp_chunk_slot f) (pc_row c) \<noteq> 0 then Some (Inr (c\<lparr>pc_row := pc_row c + 1\<rparr>, out))
      else Option.bind (fast_enter p f input c) (\<lambda>c.
        Option.bind (fast_match_loop p f input (pc_row c) (pc_salt c) (pc_build c) out) (\<lambda>rm. case rm of
          Inl e \<Rightarrow> Some (Inl e)
        | Inr (r, out) \<Rightarrow>
            let c = c\<lparr>pc_build := r\<rparr>
            in Some (Inr (if r = HASH_JOIN_INVALID_ROW then c\<lparr>pc_have_build := False, pc_row := pc_row c + 1\<rparr> else c, out)))))"

section \<open>Execute\<close>

definition start_probe :: "probe_cursor \<Rightarrow> probe_cursor" where
  "start_probe c =
     (if pc_active c then c
      else c\<lparr>pc_active := True, pc_row := 0, pc_build := HASH_JOIN_INVALID_ROW, pc_have_build := False, pc_salt := 0, pc_matched := False\<rparr>)"

definition finish_probe :: "data_chunk \<Rightarrow> data_chunk \<Rightarrow> probe_cursor \<Rightarrow> probe_cursor" where
  "finish_probe input out c =
     (if pc_row c \<ge> chunk_count input
      then c\<lparr>pc_active := False, pc_drained := chunk_count out > 0, pc_build := HASH_JOIN_INVALID_ROW, pc_have_build := False,
             pc_salt := 0, pc_matched := False\<rparr>
      else c)"

text \<open>
  One execution; the outer \<^verbatim>\<open>None\<close> is a probe that does not return. Without a table, that is without build
  rows, it returns at once.
\<close>

definition HashExecute :: "(nat \<Rightarrow> bool) \<Rightarrow> hash_join \<Rightarrow> data_chunk \<Rightarrow> data_chunk \<Rightarrow> join_state \<Rightarrow>
    (data_chunk \<times> operator_result \<times> join_state) result option" where
  "HashExecute cancel j input out st =
     (let c = js_cursor st; p = hj_payload j
      in if pc_drained c then Some (Inr (chunk_reset out, OP_NEED_MORE_INPUT, st\<lparr>js_cursor := c\<lparr>pc_drained := False\<rparr>\<rparr>))
         else if \<not> hp_finalized p then Some (Inl (Elog ''hash join probe ran before build/finalize completed''))
         else if hp_release_state p \<noteq> 0 then Some (Inl (Elog ''hash join payload used after release''))
         else if hp_shared_local p \<and> (hp_row_slots p = None \<or> hp_row_local_idxs p = None)
         then Some (Inl (Elog ''shared-local hash join payload mappings missing''))
         else if hj_columns j = [] then Some (Inl (Elog ''hash join probe missing output column mapping''))
         else if hp_heads p = None \<or> hp_links p = None \<or> hp_salts p = None then Some (Inr (out, OP_NEED_MORE_INPUT, st))
         else case (case js_fast st of Some f \<Rightarrow> Inr f | None \<Rightarrow> InitializeHashJoinFastProbeState j) of
                Inl e \<Rightarrow> Some (Inl e)
              | Inr f \<Rightarrow>
                  let body = (if \<not> hp_shared_local p \<and> fp_enabled f then fast_row p f input else probe_row j (fp_columns f) input)
                  in Option.bind (probe_loop cancel body input (start_probe c) (chunk_reset out)) (\<lambda>r.
                       Some (rbind r (\<lambda>(c, out).
                         Inr (out, if chunk_count out > 0 then OP_HAVE_MORE_OUTPUT else OP_NEED_MORE_INPUT,
                           \<lparr>js_cursor = finish_probe input out c, js_fast = Some f\<rparr>)))))"


section \<open>Chains\<close>

lemma chain_unique: "chain nx h xs \<Longrightarrow> chain nx h ys \<Longrightarrow> xs = ys"
proof (induction xs arbitrary: h ys)
  case Nil
  then show ?case by (cases ys) auto
next
  case (Cons x xs)
  then show ?case by (cases ys) auto
qed

lemma skip_salts_chain:
  "chain ((!) links) h rs \<Longrightarrow> \<exists>h' xs ys. skip_salts links salts s h = Some h' \<and> rs = xs @ ys \<and> chain ((!) links) h' ys \<and> (\<forall>x\<in>set xs. salts ! x \<noteq> s)"
proof (induction rs arbitrary: h)
  case Nil
  then show ?case by (subst skip_salts.simps) auto
next
  case (Cons r rs)
  then have h: "h = r" "r \<noteq> HASH_JOIN_INVALID_ROW" "chain ((!) links) (links ! r) rs" by auto
  show ?case
  proof (cases "salts ! r = s")
    case True
    then have "skip_salts links salts s h = Some h" using h by (subst skip_salts.simps) simp
    then show ?thesis using Cons.prems by (intro exI [of _ h] exI [of _ "[]"] exI [of _ "r # rs"]) simp
  next
    case False
    obtain h' xs ys where ih: "skip_salts links salts s (links ! r) = Some h'" "rs = xs @ ys" "chain ((!) links) h' ys" "\<forall>x\<in>set xs. salts ! x \<noteq> s"
      using Cons.IH [OF h(3)] by blast
    have "skip_salts links salts s h = Some h'" using h(1,2) False ih(1) by (subst skip_salts.simps) simp
    then show ?thesis using ih False by (intro exI [of _ h'] exI [of _ "r # xs"] exI [of _ ys]) simp
  qed
qed

section \<open>The rows of a probe loop\<close>

text \<open>
  One round takes a first piece off the pairs that the cursor still has to deliver, and leaves the probe row
  or fills the output chunk.
\<close>

definition round_ok :: "resolved_column list \<Rightarrow> data_chunk \<Rightarrow> probe_cursor \<Rightarrow> data_chunk \<Rightarrow> matched list \<Rightarrow> probe_cursor \<Rightarrow> data_chunk \<Rightarrow> bool" where
  "round_ok cols input c out now c' out' \<longleftrightarrow>
     out_ok cols out' \<and> out_rows cols out' = out_rows cols out @ map (join_row input cols) now \<and>
     chunk_count out' = chunk_count out + length now \<and> chunk_count out' \<le> PIPELINE_DEFAULT_CHUNK_SIZE \<and>
     (pc_row c' = pc_row c + 1 \<or> pc_row c' = pc_row c \<and> chunk_count out' = PIPELINE_DEFAULT_CHUNK_SIZE) \<and>
     pc_active c' = pc_active c \<and> pc_drained c' = pc_drained c"

definition body_ok :: "(probe_cursor \<Rightarrow> matched list \<Rightarrow> bool) \<Rightarrow> resolved_column list \<Rightarrow> data_chunk \<Rightarrow>
    (probe_cursor \<Rightarrow> data_chunk \<Rightarrow> (probe_cursor \<times> data_chunk) result option) \<Rightarrow> bool" where
  "body_ok at_rest cols input body \<longleftrightarrow>
     (\<forall>c rest out. at_rest c rest \<longrightarrow> pc_row c < chunk_count input \<longrightarrow> out_ok cols out \<longrightarrow>
        chunk_count out < PIPELINE_DEFAULT_CHUNK_SIZE \<longrightarrow>
        (\<exists>c' out' now rest'. body c out = Some (Inr (c', out')) \<and> rest = now @ rest' \<and> at_rest c' rest' \<and> round_ok cols input c out now c' out')) \<and>
     (\<forall>c rest. at_rest c rest \<longrightarrow> pc_row c = chunk_count input \<longrightarrow> rest = [])"

lemma body_ok_end: "body_ok at_rest cols input body \<Longrightarrow> at_rest c rest \<Longrightarrow> pc_row c = chunk_count input \<Longrightarrow> rest = []"
  by (simp add: body_ok_def)

lemma body_okD:
  assumes "body_ok at_rest cols input body" "at_rest c rest" "pc_row c < chunk_count input" "out_ok cols out"
    "chunk_count out < PIPELINE_DEFAULT_CHUNK_SIZE"
  shows "\<exists>c' out' now rest'. body c out = Some (Inr (c', out')) \<and> rest = now @ rest' \<and> at_rest c' rest' \<and> round_ok cols input c out now c' out'"
  using assms unfolding body_ok_def by blast

lemma probe_loop_rows:
  assumes body: "body_ok at_rest cols input body"
  shows "at_rest c rest \<Longrightarrow> pc_row c \<le> chunk_count input \<Longrightarrow> out_ok cols out \<Longrightarrow> chunk_count out \<le> PIPELINE_DEFAULT_CHUNK_SIZE \<Longrightarrow>
    \<exists>c' out'. probe_loop (\<lambda>_. False) body input c out = Some (Inr (c', out')) \<and> out_ok cols out' \<and>
      at_rest c' (drop (PIPELINE_DEFAULT_CHUNK_SIZE - chunk_count out) rest) \<and>
      out_rows cols out' = out_rows cols out @ map (join_row input cols) (take (PIPELINE_DEFAULT_CHUNK_SIZE - chunk_count out) rest) \<and>
      chunk_count out' = chunk_count out + length (take (PIPELINE_DEFAULT_CHUNK_SIZE - chunk_count out) rest) \<and>
      pc_row c' \<le> chunk_count input \<and> (pc_row c' = chunk_count input \<or> chunk_count out' = PIPELINE_DEFAULT_CHUNK_SIZE) \<and>
      pc_active c' = pc_active c \<and> pc_drained c' = pc_drained c"
proof (induction "chunk_count input - pc_row c" arbitrary: c rest out rule: less_induct)
  case less
  let ?N = PIPELINE_DEFAULT_CHUNK_SIZE
  note step = probe_loop.simps [of "\<lambda>_. False" body input c out]
  show ?case
  proof (cases "pc_row c < chunk_count input \<and> chunk_count out < ?N")
    case False
    then have "chunk_count out = ?N \<or> pc_row c = chunk_count input \<and> rest = []" using less.prems body_ok_end [OF body less.prems(1)] by linarith
    then show ?thesis using False less.prems by (subst step) auto
  next
    case True
    obtain c1 out1 now rest1 where b0: "body c out = Some (Inr (c1, out1))" "rest = now @ rest1" "at_rest c1 rest1" "round_ok cols input c out now c1 out1"
      using body_okD [OF body less.prems(1) _ less.prems(3)] True by blast
    then have b: "body c out = Some (Inr (c1, out1))" "rest = now @ rest1" "at_rest c1 rest1" "out_ok cols out1"
      "out_rows cols out1 = out_rows cols out @ map (join_row input cols) now"
      "chunk_count out1 = chunk_count out + length now" "chunk_count out1 \<le> ?N"
      "pc_row c1 = pc_row c + 1 \<or> pc_row c1 = pc_row c \<and> chunk_count out1 = ?N"
      "pc_active c1 = pc_active c" "pc_drained c1 = pc_drained c" unfolding round_ok_def by blast+
    have now: "take (?N - chunk_count out) rest = now @ take (?N - chunk_count out1) rest1"
      "drop (?N - chunk_count out) rest = drop (?N - chunk_count out1) rest1"
      using b(2,6,7) by simp_all
    show ?thesis
    proof (cases "chunk_count out1 = ?N")
      case full: True
      then have "probe_loop (\<lambda>_. False) body input c out = Some (Inr (c1, out1))" using True b(1) by (subst step) simp
      then show ?thesis using b full True now by auto
    next
      case False
      then have c1: "pc_row c1 = pc_row c + 1" "chunk_count out1 < ?N" using b(7,8) by auto
      have "chunk_count input - pc_row c1 < chunk_count input - pc_row c" "pc_row c1 \<le> chunk_count input" using c1 True by linarith+
      from less.hyps [OF this(1) b(3) this(2) b(4,7)] obtain c2 out2 where r:
        "probe_loop (\<lambda>_. False) body input c1 out1 = Some (Inr (c2, out2))" "out_ok cols out2"
        "at_rest c2 (drop (?N - chunk_count out1) rest1)"
        "out_rows cols out2 = out_rows cols out1 @ map (join_row input cols) (take (?N - chunk_count out1) rest1)"
        "chunk_count out2 = chunk_count out1 + length (take (?N - chunk_count out1) rest1)"
        "pc_row c2 \<le> chunk_count input" "pc_row c2 = chunk_count input \<or> chunk_count out2 = ?N"
        "pc_active c2 = pc_active c1" "pc_drained c2 = pc_drained c1" by blast
      have "probe_loop (\<lambda>_. False) body input c out = probe_loop (\<lambda>_. False) body input c1 out1" using True b(1) c1 by (subst step) simp
      then show ?thesis using r b(5,6,9,10) unfolding now by (intro exI [of _ c2] exI [of _ out2]) (simp add: add.assoc)
    qed
  qed
qed

section \<open>Executions\<close>

text \<open>The cursor between executions: drained, at its start, or under way.\<close>

definition join_rest :: "(probe_cursor \<Rightarrow> matched list \<Rightarrow> bool) \<Rightarrow> nat \<Rightarrow> probe_cursor \<Rightarrow> matched list \<Rightarrow> bool" where
  "join_rest at_rest np c rest \<longleftrightarrow>
     (if pc_drained c then \<not> pc_active c \<and> rest = [] else at_rest (start_probe c) rest \<and> pc_row (start_probe c) \<le> np)"

definition idle_join :: "join_state \<Rightarrow> bool" where
  "idle_join st \<longleftrightarrow> \<not> pc_active (js_cursor st) \<and> \<not> pc_drained (js_cursor st)"

text \<open>What Execute checks before it probes, and the state that its first execution caches.\<close>

definition join_ready :: "hash_join \<Rightarrow> fast_probe \<Rightarrow> bool" where
  "join_ready j f \<longleftrightarrow>
     (let p = hj_payload j
      in hp_finalized p \<and> hp_release_state p = 0 \<and> (hp_shared_local p \<longrightarrow> hp_row_slots p \<noteq> None \<and> hp_row_local_idxs p \<noteq> None) \<and>
         hj_columns j \<noteq> [] \<and> hp_heads p \<noteq> None \<and> hp_links p \<noteq> None \<and> hp_salts p \<noteq> None \<and>
         InitializeHashJoinFastProbeState j = Inr f)"

definition join_body :: "hash_join \<Rightarrow> fast_probe \<Rightarrow> data_chunk \<Rightarrow> probe_cursor \<Rightarrow> data_chunk \<Rightarrow> (probe_cursor \<times> data_chunk) result option" where
  "join_body j f input =
     (if \<not> hp_shared_local (hj_payload j) \<and> fp_enabled f then fast_row (hj_payload j) f input else probe_row j (fp_columns f) input)"

lemma HashExecute_probe:
  assumes "join_ready j f" "js_fast st = None \<or> js_fast st = Some f" "\<not> pc_drained (js_cursor st)"
  shows "HashExecute cancel j input out st =
    Option.bind (probe_loop cancel (join_body j f input) input (start_probe (js_cursor st)) (chunk_reset out)) (\<lambda>r.
      Some (rbind r (\<lambda>(c, out). Inr (out, if chunk_count out > 0 then OP_HAVE_MORE_OUTPUT else OP_NEED_MORE_INPUT,
        \<lparr>js_cursor = finish_probe input out c, js_fast = Some f\<rparr>))))"
  using assms by (auto simp: HashExecute_def join_ready_def join_body_def Let_def split: option.splits)

text \<open>An execution that returns; \<open>Inl\<close> never is one here.\<close>

abbreviation returns :: "'a result option \<Rightarrow> 'a result" where
  "returns r \<equiv> (case r of Some x \<Rightarrow> x | None \<Rightarrow> Inl (Elog ''does not return''))"

lemma join_answers:
  assumes ready: "join_ready j f" and body: "body_ok at_rest (fp_columns f) input (join_body j f input)"
  shows "join_rest at_rest (chunk_count input) (js_cursor st) rest \<Longrightarrow> js_fast st = None \<or> js_fast st = Some f \<Longrightarrow>
    answers (\<lambda>out st. returns (HashExecute (\<lambda>_. False) j input out st)) idle_join (out_rows (fp_columns f)) st
      (map (map (join_row input (fp_columns f))) (chunked PIPELINE_DEFAULT_CHUNK_SIZE rest))"
proof (induction "length rest" arbitrary: st rest rule: less_induct)
  case less
  let ?N = PIPELINE_DEFAULT_CHUNK_SIZE and ?c = "js_cursor st"
  have N: "0 < ?N" by (simp add: PIPELINE_DEFAULT_CHUNK_SIZE_def)
  show ?case
  proof (cases "pc_drained ?c")
    case True
    then have "rest = []" "\<not> pc_active ?c" using less.prems(1) by (simp_all add: join_rest_def)
    moreover have "HashExecute (\<lambda>_. False) j input out st = Some (Inr (chunk_reset out, OP_NEED_MORE_INPUT, st\<lparr>js_cursor := ?c\<lparr>pc_drained := False\<rparr>\<rparr>))" for out
      using True by (simp add: HashExecute_def Let_def)
    ultimately show ?thesis by (subst chunked.simps) (simp add: idle_join_def)
  next
    case False
    let ?s = "start_probe ?c"
    have s: "at_rest ?s rest" "pc_row ?s \<le> chunk_count input" "pc_active ?s" "\<not> pc_drained ?s"
      using less.prems(1) False by (simp_all add: join_rest_def start_probe_def)
    have exec: "\<exists>c' out'. HashExecute (\<lambda>_. False) j input out st = Some (Inr (out', if chunk_count out' > 0 then OP_HAVE_MORE_OUTPUT else OP_NEED_MORE_INPUT,
        \<lparr>js_cursor = finish_probe input out' c', js_fast = Some f\<rparr>)) \<and> at_rest c' (drop ?N rest) \<and>
        out_rows (fp_columns f) out' = map (join_row input (fp_columns f)) (take ?N rest) \<and> chunk_count out' = length (take ?N rest) \<and>
        pc_row c' \<le> chunk_count input \<and> (pc_row c' = chunk_count input \<or> chunk_count out' = ?N) \<and> pc_active c' \<and> \<not> pc_drained c'" for out
      using probe_loop_rows [OF body s(1,2), of "chunk_reset out"] HashExecute_probe [OF ready less.prems(2) False] s(3,4) by fastforce
    have next_at: "join_rest at_rest (chunk_count input) (finish_probe input out' c') (drop ?N rest)"
      if "at_rest c' (drop ?N rest)" "pc_row c' \<le> chunk_count input" "pc_active c'" "\<not> pc_drained c'"
        "chunk_count out' = length (take ?N rest)" "rest \<noteq> []" for c' out'
    proof (cases "pc_row c' = chunk_count input")
      case True
      then have "drop ?N rest = []" using body_ok_end [OF body that(1)] by simp
      moreover have "0 < chunk_count out'" using that(5,6) N by simp
      ultimately show ?thesis using True by (simp add: join_rest_def finish_probe_def)
    qed (use that in \<open>simp add: join_rest_def finish_probe_def start_probe_def\<close>)
    show ?thesis
    proof (cases "rest = []")
      case True
      have none: "\<exists>c' out'. HashExecute (\<lambda>_. False) j input out st = Some (Inr (out', OP_NEED_MORE_INPUT, \<lparr>js_cursor = finish_probe input out' c', js_fast = Some f\<rparr>)) \<and>
          chunk_count out' = 0 \<and> pc_row c' = chunk_count input \<and> \<not> pc_drained c'" for out
        using exec [of out] True N by fastforce
      have "\<exists>out' st'. returns (HashExecute (\<lambda>_. False) j input out st) = Inr (out', OP_NEED_MORE_INPUT, st') \<and> idle_join st'" for out
      proof -
        obtain c' out' where e: "HashExecute (\<lambda>_. False) j input out st = Some (Inr (out', OP_NEED_MORE_INPUT, \<lparr>js_cursor = finish_probe input out' c', js_fast = Some f\<rparr>))"
          "chunk_count out' = 0" "pc_row c' = chunk_count input" using none [of out] by blast
        then show ?thesis by (simp add: finish_probe_def idle_join_def)
      qed
      then show ?thesis using True by (subst chunked.simps) simp
    next
      case False
      have "\<exists>out' st'. returns (HashExecute (\<lambda>_. False) j input out st) = Inr (out', OP_HAVE_MORE_OUTPUT, st') \<and>
          out_rows (fp_columns f) out' = map (join_row input (fp_columns f)) (take ?N rest) \<and>
          answers (\<lambda>out st. returns (HashExecute (\<lambda>_. False) j input out st)) idle_join (out_rows (fp_columns f)) st'
            (map (map (join_row input (fp_columns f))) (chunked ?N (drop ?N rest)))" for out
      proof -
        obtain c' out' where e: "HashExecute (\<lambda>_. False) j input out st = Some (Inr (out', if chunk_count out' > 0 then OP_HAVE_MORE_OUTPUT else OP_NEED_MORE_INPUT,
            \<lparr>js_cursor = finish_probe input out' c', js_fast = Some f\<rparr>))" "at_rest c' (drop ?N rest)"
          "out_rows (fp_columns f) out' = map (join_row input (fp_columns f)) (take ?N rest)" "chunk_count out' = length (take ?N rest)"
          "pc_row c' \<le> chunk_count input" "pc_active c'" "\<not> pc_drained c'" using exec [of out] by blast
        have "chunk_count out' > 0" using e(4) False N by simp
        moreover have "length (drop ?N rest) < length rest" using False N by simp
        ultimately show ?thesis
          using e(1,3) less.hyps [of "drop ?N rest" "\<lparr>js_cursor = finish_probe input out' c', js_fast = Some f\<rparr>"]
            next_at [OF e(2,5,6,7,4) False] by simp
      qed
      then show ?thesis using False N by (subst chunked.simps) simp
    qed
  qed
qed

section \<open>The pairs of a probe row\<close>

text \<open>What a probe row still contributes when the rest of its chain has the matches \<open>ms\<close>.\<close>

definition pending :: "match_mode \<Rightarrow> nat \<Rightarrow> bool \<Rightarrow> matched list \<Rightarrow> matched list" where
  "pending mode i found ms =
     (case mode of
        JOIN_INNER \<Rightarrow> ms
      | JOIN_SEMI \<Rightarrow> take 1 ms
      | JOIN_ANTI \<Rightarrow> if ms = [] \<and> \<not> found then [(i, None, None)] else []
      | JOIN_LEFT \<Rightarrow> if ms = [] \<and> \<not> found then [(i, None, None)] else ms)"

lemma match_loop_all:
  fixes j defines "links \<equiv> the (hp_links (hj_payload j))" and "salts \<equiv> the (hp_salts (hj_payload j))"
  assumes mode: "hj_mode j \<noteq> JOIN_SEMI" "hj_mode j \<noteq> JOIN_ANTI"
  shows "chain ((!) links) h rs \<Longrightarrow> \<forall>r\<in>set rs. consider_row j input i r = Inr (hitf r) \<and> (salts ! r \<noteq> s \<longrightarrow> hitf r = None) \<Longrightarrow>
    cnt + length b < PIPELINE_DEFAULT_CHUNK_SIZE \<Longrightarrow> k = PIPELINE_DEFAULT_CHUNK_SIZE - (cnt + length b) \<Longrightarrow>
    \<exists>h' rs'. match_loop j input i cnt s h found b = Some (Inr (h', found \<or> List.map_filter hitf rs \<noteq> [], b @ take k (List.map_filter hitf rs))) \<and>
      chain ((!) links) h' rs' \<and> set rs' \<subseteq> set rs \<and> List.map_filter hitf rs' = drop k (List.map_filter hitf rs) \<and>
      (length (List.map_filter hitf rs) < k \<longrightarrow> rs' = [])"
proof (induction "length rs" arbitrary: h rs found b k rule: less_induct)
  case less
  note step = match_loop.simps [of j input i cnt s h found b]
  show ?case
  proof (cases rs)
    case Nil
    then have "match_loop j input i cnt s h found b = Some (Inr (h, found, b))" using less.prems(1) by (subst step) simp
    then show ?thesis using Nil less.prems(1) by (intro exI [of _ h] exI [of _ "[]"]) simp
  next
    case (Cons r rs0)
    then have h: "h = r" "r \<noteq> HASH_JOIN_INVALID_ROW" "chain ((!) links) (links ! r) rs0" using less.prems(1) by auto
    obtain h1 xs ys where skip: "skip_salts links salts s (links ! r) = Some h1" "rs0 = xs @ ys" "chain ((!) links) h1 ys"
      "\<forall>x\<in>set xs. salts ! x \<noteq> s" using skip_salts_chain [OF h(3), of salts s] by (elim exE conjE) (rule that)
    have "\<forall>x\<in>set xs. hitf x = None" using skip(2,4) less.prems(2) Cons by auto
    then have none: "List.map_filter hitf xs = []" by (induction xs) (simp_all add: List.map_filter_simps)
    have ms: "List.map_filter hitf rs0 = List.map_filter hitf ys" using none skip(2) by (simp add: List.map_filter_def)
    have r: "consider_row j input i r = Inr (hitf r)" and ys: "\<forall>r\<in>set ys. consider_row j input i r = Inr (hitf r) \<and> (salts ! r \<noteq> s \<longrightarrow> hitf r = None)"
      and shorter: "length ys < length rs" and sub: "set ys \<subseteq> set rs"
      using less.prems(2) Cons skip(2) by auto
    show ?thesis
    proof (cases "hitf r")
      case None
      then have "match_loop j input i cnt s h found b = match_loop j input i cnt s h1 found b"
        using h skip(1) r by (subst step) (simp add: links_def salts_def)
      then show ?thesis using less.hyps [OF shorter skip(3) ys less.prems(3,4), of found] None Cons ms sub
        by (auto simp: List.map_filter_simps)
    next
      case (Some m)
      then have hits: "List.map_filter hitf rs = m # List.map_filter hitf ys" using Cons ms by (simp add: List.map_filter_simps)
      show ?thesis
      proof (cases "cnt + length (b @ [m]) < PIPELINE_DEFAULT_CHUNK_SIZE")
        case True
        then have "match_loop j input i cnt s h found b = match_loop j input i cnt s h1 True (b @ [m])"
          using h skip(1) r Some mode by (subst step) (simp add: links_def salts_def)
        moreover have "k = Suc (PIPELINE_DEFAULT_CHUNK_SIZE - (cnt + length (b @ [m])))" using True less.prems(4) by simp
        ultimately show ?thesis using less.hyps [OF shorter skip(3) ys True refl, of True] hits sub by auto
      next
        case False
        then have "match_loop j input i cnt s h found b = Some (Inr (h1, True, b @ [m]))" "k = 1"
          using h skip(1) r Some mode less.prems(3,4) by (subst step, simp_all add: links_def salts_def)
        then show ?thesis using hits skip(3) sub by (intro exI [of _ h1] exI [of _ ys]) simp
      qed
    qed
  qed
qed

lemma match_loop_first:
  fixes j defines "links \<equiv> the (hp_links (hj_payload j))" and "salts \<equiv> the (hp_salts (hj_payload j))"
  assumes mode: "hj_mode j = JOIN_SEMI \<or> hj_mode j = JOIN_ANTI"
  shows "chain ((!) links) h rs \<Longrightarrow> \<forall>r\<in>set rs. consider_row j input i r = Inr (hitf r) \<and> (salts ! r \<noteq> s \<longrightarrow> hitf r = None) \<Longrightarrow>
    match_loop j input i cnt s h found [] = Some (Inr (HASH_JOIN_INVALID_ROW, found \<or> List.map_filter hitf rs \<noteq> [],
      if hj_mode j = JOIN_SEMI then take 1 (List.map_filter hitf rs) else []))"
proof (induction "length rs" arbitrary: h rs rule: less_induct)
  case less
  note step = match_loop.simps [of j input i cnt s h found "[]"]
  show ?case
  proof (cases rs)
    case Nil
    then show ?thesis using less.prems(1) by (subst step) (simp add: List.map_filter_simps)
  next
    case (Cons r rs0)
    then have h: "h = r" "r \<noteq> HASH_JOIN_INVALID_ROW" "chain ((!) links) (links ! r) rs0" using less.prems(1) by auto
    obtain h1 xs ys where skip: "skip_salts links salts s (links ! r) = Some h1" "rs0 = xs @ ys" "chain ((!) links) h1 ys"
      "\<forall>x\<in>set xs. salts ! x \<noteq> s" using skip_salts_chain [OF h(3), of salts s] by (elim exE conjE) (rule that)
    have "\<forall>x\<in>set xs. hitf x = None" using skip(2,4) less.prems(2) Cons by auto
    then have none: "List.map_filter hitf xs = []" by (induction xs) (simp_all add: List.map_filter_simps)
    have ms: "List.map_filter hitf rs0 = List.map_filter hitf ys" using none skip(2) by (simp add: List.map_filter_def)
    have r: "consider_row j input i r = Inr (hitf r)" using less.prems(2) Cons by simp
    show ?thesis
    proof (cases "hitf r")
      case None
      then have "match_loop j input i cnt s h found [] = match_loop j input i cnt s h1 found []"
        using h skip(1) r by (subst step) (simp add: links_def salts_def)
      then show ?thesis using less.hyps [of ys h1] less.prems(2) skip(2,3) None Cons ms by (auto simp: List.map_filter_simps)
    next
      case (Some m)
      then show ?thesis using h skip(1) r mode Cons by (subst step) (auto simp: links_def salts_def List.map_filter_simps)
    qed
  qed
qed

section \<open>What a sound join contributes\<close>

text \<open>
  The hypotheses on one input chunk: the built table of \<open>n\<close> rows, sound keys and layouts, the build side of each
  row, a total residual filter, and sound strings in all matched pairs.
\<close>

definition join_sound :: "hash_join \<Rightarrow> nat \<Rightarrow> data_chunk \<Rightarrow> resolved_column list \<Rightarrow>
    (nat \<Rightarrow> tuple_data_collection option \<times> u8 list option) \<Rightarrow> (nat \<Rightarrow> nat \<Rightarrow> bool) \<Rightarrow> bool" where
  "join_sound j n input cols side pass \<longleftrightarrow>
     table_ok (hj_key_layout j) n (hj_payload j) \<and> layout_ok (hj_key_layout j) \<and> layout_ok (hj_probe_layout j) \<and> cols_ok cols \<and>
     (\<forall>i < chunk_count input. chunk_row_ok (hj_probe_layout j) input i \<and> match_ok input cols (i, None, None)) \<and>
     (\<forall>r < n. build_side j r = Inr (side r)) \<and>
     (\<forall>i < chunk_count input. \<forall>r < n. match_ok input cols (i, side r) \<and> (has_join_filter j \<longrightarrow> hj_residual j input (i, side r) = Inr (pass i r)))"

text \<open>A build row matches a probe row: equal keys, and the residual filter passes.\<close>

definition matches :: "hash_join \<Rightarrow> data_chunk \<Rightarrow> (nat \<Rightarrow> nat \<Rightarrow> bool) \<Rightarrow> nat \<Rightarrow> nat \<Rightarrow> bool" where
  "matches j input pass i r \<longleftrightarrow>
     built_key (hj_key_layout j) (hj_payload j) r = chunk_key (hj_probe_layout j) input i \<and> (has_join_filter j \<longrightarrow> pass i r)"

definition hit :: "hash_join \<Rightarrow> data_chunk \<Rightarrow> (nat \<Rightarrow> tuple_data_collection option \<times> u8 list option) \<Rightarrow> (nat \<Rightarrow> nat \<Rightarrow> bool) \<Rightarrow>
    nat \<Rightarrow> nat \<Rightarrow> matched option" where
  "hit j input side pass i r = (if matches j input pass i r then Some (i, side r) else None)"

lemma hits_filter: "List.map_filter (hit j input side pass i) rs = map (\<lambda>r. (i, side r)) (filter (matches j input pass i) rs)"
  by (induction rs) (simp_all add: List.map_filter_simps hit_def)

lemma consider_row_hit:
  assumes "join_sound j n input cols side pass" "i < chunk_count input" "r < n"
  shows "consider_row j input i r = Inr (hit j input side pass i r)"
proof -
  let ?t = "hp_build_keys (hj_payload j)"
  have "row_refs_ok (hj_key_layout j) (tdc_heap ?t) (length (tdc_heap ?t)) (TupleDataCollectionGetRow ?t r)"
    using assms(1,3) by (simp add: join_sound_def table_ok_def)
  then have "MatchGroupLayouts (hj_key_layout j) (Some ?t) (TupleDataCollectionGetRow ?t r) (hj_probe_layout j) input i =
      Inr (built_key (hj_key_layout j) (hj_payload j) r = chunk_key (hj_probe_layout j) input i)"
    using assms(1,2) unfolding built_key_def by (intro MatchGroupLayouts_key) (simp_all add: join_sound_def)
  moreover have "build_side j r = Inr (side r)" "has_join_filter j \<Longrightarrow> hj_residual j input (i, side r) = Inr (pass i r)"
    using assms by (simp_all add: join_sound_def)
  ultimately show ?thesis by (cases "side r") (auto simp: consider_row_def hit_def matches_def Let_def)
qed

lemma probe_hash_key:
  assumes "chunk_row_ok l input i"
  shows "probe_hash l input i = Inr (hash_key (chunk_key l input i))"
proof (cases "TryHashSingleJoinKeyChunkRow l input i")
  case None
  then show ?thesis using HashGroup_key [OF assms] by (simp add: probe_hash_def)
next
  case (Some h)
  then obtain c where c: "columns l = [c]" by (auto simp: TryHashSingleJoinKeyChunkRow_def column_count_def length_Suc_conv split: if_splits)
  then have "hash_key (chunk_key l input i) = h" using Some
    by (cases "col_kind c") (auto simp: TryHashSingleJoinKeyChunkRow_def column_count_def chunk_key_def chunk_val_def hash_key_single Let_def split: if_splits)
  then show ?thesis using Some by (simp add: probe_hash_def)
qed

text \<open>
  The chains are those of \<open>L\<close>. A cursor within a chain still has the matches behind it to deliver, and then, like
  a cursor between probe rows, those of the probe rows that follow.
\<close>

definition chains_are :: "nat \<Rightarrow> hash_payload \<Rightarrow> (nat \<Rightarrow> nat list) \<Rightarrow> bool" where
  "chains_are n p L \<longleftrightarrow> (\<forall>b < hp_capacity p. chain ((!) (the (hp_links p))) (the (hp_heads p) ! b) (L b) \<and> set (L b) \<subseteq> {..<n})"

definition row_chain :: "hash_join \<Rightarrow> (nat \<Rightarrow> nat list) \<Rightarrow> data_chunk \<Rightarrow> nat \<Rightarrow> nat list" where
  "row_chain j L input i = L (join_bucket (hp_capacity (hj_payload j)) (hash_key (chunk_key (hj_probe_layout j) input i)))"

definition row_pairs_from :: "hash_join \<Rightarrow> data_chunk \<Rightarrow> (nat \<Rightarrow> nat \<Rightarrow> matched option) \<Rightarrow> (nat \<Rightarrow> nat list) \<Rightarrow> nat \<Rightarrow> matched list" where
  "row_pairs_from j input hitf L k =
     concat (map (\<lambda>i. pending (hj_mode j) i False (List.map_filter (hitf i) (row_chain j L input i))) [k..<chunk_count input])"

definition join_at :: "hash_join \<Rightarrow> nat \<Rightarrow> data_chunk \<Rightarrow> (nat \<Rightarrow> nat \<Rightarrow> matched option) \<Rightarrow> (nat \<Rightarrow> nat list) \<Rightarrow>
    probe_cursor \<Rightarrow> matched list \<Rightarrow> bool" where
  "join_at j n input hitf L c rest \<longleftrightarrow>
     (if pc_have_build c
      then pc_row c < chunk_count input \<and> pc_salt c = HashJoinSalt (hash_key (chunk_key (hj_probe_layout j) input (pc_row c))) \<and>
        (\<exists>rs. chain ((!) (the (hp_links (hj_payload j)))) (pc_build c) rs \<and> set rs \<subseteq> {..<n} \<and>
           rest = pending (hj_mode j) (pc_row c) (pc_matched c) (List.map_filter (hitf (pc_row c)) rs) @ row_pairs_from j input hitf L (pc_row c + 1))
      else rest = row_pairs_from j input hitf L (pc_row c))"

lemma row_pairs_step:
  "k < chunk_count input \<Longrightarrow> row_pairs_from j input hitf L k =
     pending (hj_mode j) k False (List.map_filter (hitf k) (row_chain j L input k)) @ row_pairs_from j input hitf L (k + 1)"
  by (simp add: row_pairs_from_def upt_rec)

lemma row_pairs_end [simp]: "row_pairs_from j input hitf L (chunk_count input) = []"
  by (simp add: row_pairs_from_def)

lemma hit_salt:
  assumes "join_sound j n input cols side pass" "r < n" "hit j input side pass i r \<noteq> None"
  shows "the (hp_salts (hj_payload j)) ! r = HashJoinSalt (hash_key (chunk_key (hj_probe_layout j) input i))"
  using assms by (auto simp: join_sound_def table_ok_def hit_def matches_def split: if_splits)

lemma skipped_hits:
  assumes "join_sound j n input cols side pass" "set xs \<subseteq> {..<n}"
    "\<forall>x\<in>set xs. the (hp_salts (hj_payload j)) ! x \<noteq> HashJoinSalt (hash_key (chunk_key (hj_probe_layout j) input i))"
  shows "List.map_filter (hit j input side pass i) (xs @ ys) = List.map_filter (hit j input side pass i) ys"
proof -
  have "\<forall>x\<in>set xs. hit j input side pass i x = None" using assms hit_salt [OF assms(1)] by blast
  then have "List.map_filter (hit j input side pass i) xs = []" by (induction xs) (simp_all add: List.map_filter_simps)
  then show ?thesis by (simp add: List.map_filter_def)
qed

lemma enter_row_at:
  assumes sound: "join_sound j n input cols side pass" and L: "chains_are n (hj_payload j) L"
    and at: "join_at j n input (hit j input side pass) L c rest" and i: "pc_row c < chunk_count input"
  shows "\<exists>c'. enter_row j input c = Some (Inr c') \<and> join_at j n input (hit j input side pass) L c' rest \<and> pc_have_build c' \<and>
    pc_row c' = pc_row c \<and> pc_active c' = pc_active c \<and> pc_drained c' = pc_drained c"
proof (cases "pc_have_build c")
  case False
  let ?key = "chunk_key (hj_probe_layout j) input (pc_row c)"
  let ?b = "join_bucket (hp_capacity (hj_payload j)) (hash_key ?key)"
  have hash: "probe_hash (hj_probe_layout j) input (pc_row c) = Inr (hash_key ?key)" using sound i by (simp add: join_sound_def probe_hash_key)
  have "?b < hp_capacity (hj_payload j)" using sound by (intro join_bucket_less) (simp_all add: join_sound_def table_ok_def)
  then have L': "chain ((!) (the (hp_links (hj_payload j)))) (the (hp_heads (hj_payload j)) ! ?b) (L ?b)" "set (L ?b) \<subseteq> {..<n}"
    using L by (simp_all add: chains_are_def)
  obtain h xs ys where skip: "next_row (hj_payload j) (HashJoinSalt (hash_key ?key)) (the (hp_heads (hj_payload j)) ! ?b) = Some h"
    "L ?b = xs @ ys" "chain ((!) (the (hp_links (hj_payload j)))) h ys" "\<forall>x\<in>set xs. the (hp_salts (hj_payload j)) ! x \<noteq> HashJoinSalt (hash_key ?key)"
    using skip_salts_chain [OF L'(1), of "the (hp_salts (hj_payload j))" "HashJoinSalt (hash_key ?key)"] by (elim exE conjE) (rule that)
  let ?c = "c\<lparr>pc_salt := HashJoinSalt (hash_key ?key), pc_build := h, pc_have_build := True, pc_matched := False\<rparr>"
  have "enter_row j input c = Some (Inr ?c)" using False hash skip(1) by (simp add: enter_row_def)
  moreover have "List.map_filter (hit j input side pass (pc_row c)) (row_chain j L input (pc_row c)) = List.map_filter (hit j input side pass (pc_row c)) ys"
    unfolding row_chain_def skip(2) by (rule skipped_hits [OF sound _ skip(4)]) (use L'(2) skip(2) in auto)
  then have "join_at j n input (hit j input side pass) L ?c rest"
    using at False i skip(2,3) L'(2) row_pairs_step [OF i] by (auto simp: join_at_def)
  ultimately show ?thesis by (intro exI [of _ ?c]) simp
qed (use at in \<open>simp add: enter_row_def\<close>)

lemma pending_all: "mode \<noteq> JOIN_SEMI \<Longrightarrow> mode \<noteq> JOIN_ANTI \<Longrightarrow>
    pending mode i found ms = (if mode = JOIN_LEFT \<and> ms = [] \<and> \<not> found then [(i, None, None)] else ms)"
  by (cases mode) (simp_all add: pending_def)

text \<open>One round of the loop within a chain: the batch it takes and the cursor it leaves.\<close>

lemma match_loop_at:
  assumes sound: "join_sound j n input cols side pass"
    and at: "join_at j n input (hit j input side pass) L c rest" "pc_have_build c" and room: "cnt < PIPELINE_DEFAULT_CHUNK_SIZE"
  shows "\<exists>r found batch now rest'. match_loop j input (pc_row c) cnt (pc_salt c) (pc_build c) (pc_matched c) [] = Some (Inr (r, found, batch)) \<and>
    now = (if (hj_mode j = JOIN_ANTI \<or> hj_mode j = JOIN_LEFT) \<and> r = HASH_JOIN_INVALID_ROW \<and> batch = [] \<and> \<not> found then [(pc_row c, None, None)] else batch) \<and>
    rest = now @ rest' \<and> cnt + length now \<le> PIPELINE_DEFAULT_CHUNK_SIZE \<and> (\<forall>m\<in>set now. match_ok input cols m) \<and>
    (if r = HASH_JOIN_INVALID_ROW then rest' = row_pairs_from j input (hit j input side pass) L (pc_row c + 1)
     else join_at j n input (hit j input side pass) L (c\<lparr>pc_build := r, pc_matched := found\<rparr>) rest' \<and> cnt + length now = PIPELINE_DEFAULT_CHUNK_SIZE)"
proof -
  let ?i = "pc_row c" and ?hit = "hit j input side pass" and ?N = PIPELINE_DEFAULT_CHUNK_SIZE
  let ?links = "the (hp_links (hj_payload j))" and ?salts = "the (hp_salts (hj_payload j))" and ?tail = "row_pairs_from j input (hit j input side pass) L (pc_row c + 1)"
  have i: "?i < chunk_count input" and salt: "pc_salt c = HashJoinSalt (hash_key (chunk_key (hj_probe_layout j) input ?i))"
    using at by (simp_all add: join_at_def)
  obtain rs where rs: "chain ((!) ?links) (pc_build c) rs" "set rs \<subseteq> {..<n}"
    "rest = pending (hj_mode j) ?i (pc_matched c) (List.map_filter (?hit ?i) rs) @ ?tail" using at by (auto simp: join_at_def)
  let ?ms = "List.map_filter (?hit ?i) rs"
  have rows: "\<forall>r\<in>set rs. consider_row j input ?i r = Inr (?hit ?i r) \<and> (?salts ! r \<noteq> pc_salt c \<longrightarrow> ?hit ?i r = None)"
  proof
    fix r assume "r \<in> set rs"
    then have r: "r < n" using rs(2) by auto
    show "consider_row j input ?i r = Inr (?hit ?i r) \<and> (?salts ! r \<noteq> pc_salt c \<longrightarrow> ?hit ?i r = None)"
      using consider_row_hit [OF sound i r] hit_salt [OF sound r, of ?i] salt by (cases "?hit ?i r = None") simp_all
  qed
  have ok: "\<forall>m\<in>set ?ms. match_ok input cols m" "match_ok input cols (?i, None, None)"
    using sound i rs(2) by (auto simp: join_sound_def hits_filter)
  show ?thesis
  proof (cases "hj_mode j = JOIN_SEMI \<or> hj_mode j = JOIN_ANTI")
    case True
    have "\<forall>m\<in>set (take 1 ?ms). match_ok input cols m" using ok(1) by (meson in_set_takeD)
    then show ?thesis using match_loop_first [OF True rs(1) rows, of cnt "pc_matched c"] True rs(3) room ok(2)
      by (auto simp: pending_def)
  next
    case False
    then have mode: "hj_mode j \<noteq> JOIN_SEMI" "hj_mode j \<noteq> JOIN_ANTI" by simp_all
    obtain h' rs' where run: "match_loop j input ?i cnt (pc_salt c) (pc_build c) (pc_matched c) [] = Some (Inr (h', pc_matched c \<or> ?ms \<noteq> [], take (?N - cnt) ?ms))"
      "chain ((!) ?links) h' rs'" "set rs' \<subseteq> set rs" "List.map_filter (?hit ?i) rs' = drop (?N - cnt) ?ms" "length ?ms < ?N - cnt \<longrightarrow> rs' = []"
      using match_loop_all [OF mode rs(1) rows, of cnt "[]" "?N - cnt" "pc_matched c"] room by auto
    have taken: "\<forall>m\<in>set (take (?N - cnt) ?ms). match_ok input cols m" using ok(1) by (meson in_set_takeD)
    show ?thesis
    proof (cases rs')
      case Nil
      then have "take (?N - cnt) ?ms = ?ms" "h' = HASH_JOIN_INVALID_ROW" using run(2,4) by (simp_all add: List.map_filter_simps)
      moreover have "length ?ms \<le> ?N - cnt" using Nil run(4) by (simp add: List.map_filter_simps)
      ultimately show ?thesis using run(1) rs(3) taken room ok(2) mode pending_all [OF mode, of ?i "pc_matched c" ?ms] by auto
    next
      case (Cons r0 rs0)
      then have h': "h' \<noteq> HASH_JOIN_INVALID_ROW" and full: "\<not> length ?ms < ?N - cnt" using run(2,5) by auto
      then have ms: "?ms \<noteq> []" using room by auto
      have "join_at j n input ?hit L (c\<lparr>pc_build := h', pc_matched := True\<rparr>) (drop (?N - cnt) ?ms @ ?tail)"
        using at(2) i salt run(2,4) subset_trans [OF run(3) rs(2)] pending_all [OF mode, of ?i True]
        unfolding join_at_def by (auto intro!: exI [of _ rs'])
      moreover have "rest = take (?N - cnt) ?ms @ drop (?N - cnt) ?ms @ ?tail" using rs(3) ms pending_all [OF mode, of ?i "pc_matched c" ?ms] by simp
      ultimately show ?thesis using run(1) h' full ms taken room
        by (intro exI [of _ h'] exI [of _ True] exI [of _ "take (?N - cnt) ?ms"] exI [of _ "drop (?N - cnt) ?ms @ ?tail"]) simp
    qed
  qed
qed

lemma probe_row_body:
  assumes sound: "join_sound j n input cols side pass" and L: "chains_are n (hj_payload j) L"
  shows "body_ok (join_at j n input (hit j input side pass) L) cols input (probe_row j cols input)"
proof -
  let ?at = "join_at j n input (hit j input side pass) L" and ?N = PIPELINE_DEFAULT_CHUNK_SIZE
  have "\<exists>c' out' now rest'. probe_row j cols input c out = Some (Inr (c', out')) \<and> rest = now @ rest' \<and> ?at c' rest' \<and> round_ok cols input c out now c' out'"
    if at: "?at c rest" and i: "pc_row c < chunk_count input" and out: "out_ok cols out" "chunk_count out < ?N" for c rest out
  proof -
    obtain c1 where c1: "enter_row j input c = Some (Inr c1)" "?at c1 rest" "pc_have_build c1" "pc_row c1 = pc_row c"
      "pc_active c1 = pc_active c" "pc_drained c1 = pc_drained c" using enter_row_at [OF sound L at i] by blast
    obtain r found batch now rest' where m: "match_loop j input (pc_row c1) (chunk_count out) (pc_salt c1) (pc_build c1) (pc_matched c1) [] = Some (Inr (r, found, batch))"
      "now = (if (hj_mode j = JOIN_ANTI \<or> hj_mode j = JOIN_LEFT) \<and> r = HASH_JOIN_INVALID_ROW \<and> batch = [] \<and> \<not> found then [(pc_row c1, None, None)] else batch)"
      "rest = now @ rest'" "chunk_count out + length now \<le> ?N" "\<forall>m\<in>set now. match_ok input cols m"
      "if r = HASH_JOIN_INVALID_ROW then rest' = row_pairs_from j input (hit j input side pass) L (pc_row c1 + 1)
       else ?at (c1\<lparr>pc_build := r, pc_matched := found\<rparr>) rest' \<and> chunk_count out + length now = ?N"
      using match_loop_at [OF sound c1(2,3) out(2)] by blast
    have cols: "cols_ok cols" using sound by (simp add: join_sound_def)
    obtain out' where out': "append_batch input cols now out = Inr out'" "out_ok cols out'" "chunk_count out' = chunk_count out + length now"
      "out_rows cols out' = out_rows cols out @ map (join_row input cols) now" using append_batch_ok [OF cols m(5) out(1) m(4)] by blast
    let ?c = "c1\<lparr>pc_build := r, pc_matched := found\<rparr>"
    let ?c' = "if r = HASH_JOIN_INVALID_ROW then leave_row ?c else ?c"
    have "probe_row j cols input c out = Some (Inr (?c', out'))"
      using c1(1) m(1) out'(1) unfolding probe_row_def by (simp add: Let_def m(2) [symmetric])
    moreover have "?at ?c' rest'" using m(6) by (auto simp: leave_row_def join_at_def)
    moreover have "round_ok cols input c out now ?c' out'" using out' m(4,6) c1(4-6) by (auto simp: round_ok_def leave_row_def split: if_splits)
    ultimately show ?thesis using m(3) by blast
  qed
  then show ?thesis unfolding body_ok_def by (auto simp: join_at_def)
qed

section \<open>The fast path delivers the same\<close>

text \<open>What the fast path needs besides: a key of one integer column, and no null among the chunk's keys.\<close>

definition fast_for :: "hash_join \<Rightarrow> fast_probe \<Rightarrow> bool" where
  "fast_for j f \<longleftrightarrow> hj_mode j = JOIN_INNER \<and> \<not> has_join_filter j \<and>
     (\<exists>pc bc. columns (hj_probe_layout j) = [pc] \<and> columns (hj_key_layout j) = [bc] \<and> col_kind pc = col_kind bc \<and>
        (col_kind pc = INT32 \<or> col_kind pc = INT64) \<and> fp_key_is_int32 f = (col_kind pc = INT32) \<and>
        fp_chunk_slot f = unat (col_src_col_idx pc) \<and> fp_key_offset f = unat (col_offset bc))"

lemma fast_for_enabled: "InitializeHashJoinFastProbeState j = Inr f \<Longrightarrow> fp_enabled f \<Longrightarrow> fast_for j f"
  by (auto simp: InitializeHashJoinFastProbeState_def fast_inner_possible_def fast_for_def has_join_filter_def column_count_def
      Let_def rbind_Inr_iff length_Suc_conv split: if_splits)

lemma fast_key:
  assumes "fast_for j f"
  shows "fast_key_equal f (TupleDataCollectionGetRow (hp_build_keys (hj_payload j)) r) input i \<longleftrightarrow>
      built_key (hj_key_layout j) (hj_payload j) r = chunk_key (hj_probe_layout j) input i"
    "(if fp_key_is_int32 f then HashSingleGroupInt32Value (get_int32 input (fp_chunk_slot f) i)
      else HashSingleGroupInt64Value (get_int64 input (fp_chunk_slot f) i)) = hash_key (chunk_key (hj_probe_layout j) input i)"
  using assms by (auto simp: fast_for_def fast_key_equal_def built_key_def row_key_def chunk_key_def row_val_def chunk_val_def hash_key_single)

lemma append_single: "append_batch input cols [(i, t, row)] out =
    rbind (CopyResolvedJoinRow input i t row cols out (chunk_count out mod 65536)) (\<lambda>out'. Inr (out'\<lparr>chunk_count := chunk_count out' + 1\<rparr>))"
  by (cases "CopyResolvedJoinRow input i t row cols out (chunk_count out mod 65536)")
    (simp_all add: append_batch_def CopyRowsByResolvedMappingBatch_def)

lemma fast_match_loop_rows:
  fixes j defines "p \<equiv> hj_payload j" and "links \<equiv> the (hp_links (hj_payload j))" and "salts \<equiv> the (hp_salts (hj_payload j))"
  assumes fast: "fast_for j f" and cols: "cols_ok (fp_columns f)"
    and hitf: "\<And>r. hitf r = (if fast_key_equal f (TupleDataCollectionGetRow (hp_build_keys p) r) input i
        then Some (i, Some (payload_rows p), Some (TupleDataCollectionGetRow (payload_rows p) r)) else None)"
  shows "chain ((!) links) h rs \<Longrightarrow> \<forall>r\<in>set rs. salts ! r \<noteq> s \<longrightarrow> hitf r = None \<Longrightarrow>
    \<forall>m\<in>set (List.map_filter hitf rs). match_ok input (fp_columns f) m \<Longrightarrow> out_ok (fp_columns f) out \<Longrightarrow>
    chunk_count out < PIPELINE_DEFAULT_CHUNK_SIZE \<Longrightarrow> k = PIPELINE_DEFAULT_CHUNK_SIZE - chunk_count out \<Longrightarrow>
    \<exists>h' rs' out'. fast_match_loop p f input i s h out = Some (Inr (h', out')) \<and> out_ok (fp_columns f) out' \<and>
      out_rows (fp_columns f) out' = out_rows (fp_columns f) out @ map (join_row input (fp_columns f)) (take k (List.map_filter hitf rs)) \<and>
      chunk_count out' = chunk_count out + length (take k (List.map_filter hitf rs)) \<and>
      chain ((!) links) h' rs' \<and> set rs' \<subseteq> set rs \<and> List.map_filter hitf rs' = drop k (List.map_filter hitf rs) \<and>
      (length (List.map_filter hitf rs) < k \<longrightarrow> rs' = [])"
proof (induction "length rs" arbitrary: h rs out k rule: less_induct)
  case less
  note step = fast_match_loop.simps [of p f input i s h out]
  show ?case
  proof (cases rs)
    case Nil
    then have "fast_match_loop p f input i s h out = Some (Inr (h, out))" using less.prems(1) by (subst step) simp
    then show ?thesis using Nil less.prems(1,4) by (intro exI [of _ h] exI [of _ "[]"] exI [of _ out]) (simp add: List.map_filter_simps)
  next
    case (Cons r rs0)
    then have h: "h = r" "r \<noteq> HASH_JOIN_INVALID_ROW" "chain ((!) links) (links ! r) rs0" using less.prems(1) by auto
    obtain h1 xs ys where skip: "skip_salts links salts s (links ! r) = Some h1" "rs0 = xs @ ys" "chain ((!) links) h1 ys"
      "\<forall>x\<in>set xs. salts ! x \<noteq> s" using skip_salts_chain [OF h(3), of salts s] by (elim exE conjE) (rule that)
    have "\<forall>x\<in>set xs. hitf x = None" using skip(2,4) less.prems(2) Cons by auto
    then have none: "List.map_filter hitf xs = []" by (induction xs) (simp_all add: List.map_filter_simps)
    have ms: "List.map_filter hitf rs0 = List.map_filter hitf ys" using none skip(2) by (simp add: List.map_filter_def)
    have ys: "\<forall>r\<in>set ys. salts ! r \<noteq> s \<longrightarrow> hitf r = None" and shorter: "length ys < length rs" and sub: "set ys \<subseteq> set rs"
      using less.prems(2) Cons skip(2) by auto
    show ?thesis
    proof (cases "hitf r")
      case None
      then have hits: "List.map_filter hitf rs = List.map_filter hitf ys" using Cons ms by (simp add: List.map_filter_simps)
      have "fast_match_loop p f input i s h out = fast_match_loop p f input i s h1 out"
        using h skip(1) None hitf by (subst step) (auto simp: links_def salts_def p_def split: if_splits)
      moreover obtain h' rs' out' where "fast_match_loop p f input i s h1 out = Some (Inr (h', out'))" "out_ok (fp_columns f) out'"
        "out_rows (fp_columns f) out' = out_rows (fp_columns f) out @ map (join_row input (fp_columns f)) (take k (List.map_filter hitf ys))"
        "chunk_count out' = chunk_count out + length (take k (List.map_filter hitf ys))"
        "chain ((!) links) h' rs'" "set rs' \<subseteq> set ys" "List.map_filter hitf rs' = drop k (List.map_filter hitf ys)"
        "length (List.map_filter hitf ys) < k \<longrightarrow> rs' = []"
        using less.hyps [OF shorter skip(3) ys _ less.prems(4-6)] less.prems(3) hits by auto
      ultimately show ?thesis unfolding hits using sub by (intro exI [of _ h'] exI [of _ rs'] exI [of _ out']) auto
    next
      case (Some m)
      then have m: "m = (i, Some (payload_rows p), Some (TupleDataCollectionGetRow (payload_rows p) r))"
        "fast_key_equal f (TupleDataCollectionGetRow (hp_build_keys p) r) input i" using hitf by (auto split: if_splits)
      have hits: "List.map_filter hitf rs = m # List.map_filter hitf ys" using Some Cons ms by (simp add: List.map_filter_simps)
      obtain out1 where out1: "append_batch input (fp_columns f) [m] out = Inr out1" "out_ok (fp_columns f) out1" "chunk_count out1 = chunk_count out + 1"
        "out_rows (fp_columns f) out1 = out_rows (fp_columns f) out @ [join_row input (fp_columns f) m]"
        using append_batch_ok [OF cols, of "[m]" input out] less.prems(3-5) hits by auto
      have "chunk_count out mod 65536 = chunk_count out" using less.prems(5) by (simp add: PIPELINE_DEFAULT_CHUNK_SIZE_def)
      then obtain out0 where out0: "CopyResolvedJoinRow input i (Some (payload_rows p)) (Some (TupleDataCollectionGetRow (payload_rows p) r))
          (fp_columns f) out (chunk_count out) = Inr out0" "out1 = out0\<lparr>chunk_count := chunk_count out0 + 1\<rparr>"
        using out1(1) unfolding m(1) append_single by (auto simp: rbind_Inr_iff)
      show ?thesis
      proof (cases "chunk_count out1 < PIPELINE_DEFAULT_CHUNK_SIZE")
        case True
        then have "fast_match_loop p f input i s h out = fast_match_loop p f input i s h1 out1"
          using h skip(1) m(2) out0 by (subst step) (simp add: links_def salts_def p_def Let_def)
        moreover have "k = Suc (PIPELINE_DEFAULT_CHUNK_SIZE - chunk_count out1)" using True less.prems(6) out1(3) by simp
        moreover obtain h' rs' out' where "fast_match_loop p f input i s h1 out1 = Some (Inr (h', out'))" "out_ok (fp_columns f) out'"
          "out_rows (fp_columns f) out' = out_rows (fp_columns f) out1 @ map (join_row input (fp_columns f)) (take (PIPELINE_DEFAULT_CHUNK_SIZE - chunk_count out1) (List.map_filter hitf ys))"
          "chunk_count out' = chunk_count out1 + length (take (PIPELINE_DEFAULT_CHUNK_SIZE - chunk_count out1) (List.map_filter hitf ys))"
          "chain ((!) links) h' rs'" "set rs' \<subseteq> set ys" "List.map_filter hitf rs' = drop (PIPELINE_DEFAULT_CHUNK_SIZE - chunk_count out1) (List.map_filter hitf ys)"
          "length (List.map_filter hitf ys) < PIPELINE_DEFAULT_CHUNK_SIZE - chunk_count out1 \<longrightarrow> rs' = []"
          using less.hyps [OF shorter skip(3) ys _ out1(2) True refl] less.prems(3) hits by auto
        ultimately show ?thesis unfolding hits using sub out1(3,4) by (intro exI [of _ h'] exI [of _ rs'] exI [of _ out']) auto
      next
        case False
        then have "fast_match_loop p f input i s h out = Some (Inr (h1, out1))" "k = 1"
          using h skip(1) m(2) out0 less.prems(5,6) out1(3) by (subst step, simp_all add: links_def salts_def p_def Let_def)
        then show ?thesis using hits skip(3) sub out1 by (intro exI [of _ h1] exI [of _ ys] exI [of _ out1]) simp
      qed
    qed
  qed
qed

definition null_free :: "fast_probe \<Rightarrow> data_chunk \<Rightarrow> bool" where
  "null_free f input \<longleftrightarrow> (\<forall>i < chunk_count input. nulls input (fp_chunk_slot f) i = 0)"

lemma fast_enter_at:
  assumes sound: "join_sound j n input cols side pass" and L: "chains_are n (hj_payload j) L" and fast: "fast_for j f"
    and at: "join_at j n input (hit j input side pass) L c rest" and i: "pc_row c < chunk_count input"
  shows "\<exists>c'. fast_enter (hj_payload j) f input c = Some c' \<and> join_at j n input (hit j input side pass) L c' rest \<and> pc_have_build c' \<and>
    pc_row c' = pc_row c \<and> pc_active c' = pc_active c \<and> pc_drained c' = pc_drained c"
proof (cases "pc_have_build c")
  case False
  obtain c1 where c1: "enter_row j input c = Some (Inr c1)" "join_at j n input (hit j input side pass) L c1 rest"
    "pc_row c1 = pc_row c" "pc_active c1 = pc_active c" "pc_drained c1 = pc_drained c" using enter_row_at [OF sound L at i] by blast
  let ?h = "hash_key (chunk_key (hj_probe_layout j) input (pc_row c))"
  have hash: "probe_hash (hj_probe_layout j) input (pc_row c) = Inr ?h" using sound i by (simp add: join_sound_def probe_hash_key)
  obtain r where r: "next_row (hj_payload j) (HashJoinSalt ?h) (the (hp_heads (hj_payload j)) ! join_bucket (hp_capacity (hj_payload j)) ?h) = Some r"
    "c1 = c\<lparr>pc_salt := HashJoinSalt ?h, pc_build := r, pc_have_build := True, pc_matched := False\<rparr>"
    using c1(1) False hash by (auto simp: enter_row_def bind_eq_Some_conv)
  let ?c = "c\<lparr>pc_salt := HashJoinSalt ?h, pc_build := r, pc_have_build := True\<rparr>"
  have "fast_enter (hj_payload j) f input c = Some ?c"
    using False r(1) unfolding fast_enter_def Let_def fast_key(2) [OF fast, symmetric] by simp
  moreover have "hj_mode j = JOIN_INNER" using fast by (simp add: fast_for_def)
  then have "join_at j n input (hit j input side pass) L ?c rest" using c1(2) unfolding r(2) by (auto simp: join_at_def pending_def)
  ultimately show ?thesis by (intro exI [of _ ?c]) simp
qed (use at in \<open>simp add: fast_enter_def\<close>)

lemma fast_row_body:
  assumes sound: "join_sound j n input (fp_columns f) side pass" and L: "chains_are n (hj_payload j) L" and fast: "fast_for j f"
    and nulls: "null_free f input"
    and plain: "\<forall>r < n. side r = (Some (payload_rows (hj_payload j)), Some (TupleDataCollectionGetRow (payload_rows (hj_payload j)) r))"
  shows "body_ok (join_at j n input (hit j input side pass) L) (fp_columns f) input (fast_row (hj_payload j) f input)"
proof -
  let ?p = "hj_payload j" and ?hit = "hit j input side pass" and ?cols = "fp_columns f" and ?N = PIPELINE_DEFAULT_CHUNK_SIZE
  let ?at = "join_at j n input ?hit L"
  have mode: "hj_mode j = JOIN_INNER" "\<not> has_join_filter j" using fast by (simp_all add: fast_for_def)
  have "\<exists>c' out' now rest'. fast_row ?p f input c out = Some (Inr (c', out')) \<and> rest = now @ rest' \<and> ?at c' rest' \<and> round_ok ?cols input c out now c' out'"
    if at: "?at c rest" and i: "pc_row c < chunk_count input" and out: "out_ok ?cols out" "chunk_count out < ?N" for c rest out
  proof -
    obtain c1 where c1: "fast_enter ?p f input c = Some c1" "?at c1 rest" "pc_have_build c1" "pc_row c1 = pc_row c"
      "pc_active c1 = pc_active c" "pc_drained c1 = pc_drained c" using fast_enter_at [OF sound L fast at i] by blast
    let ?i = "pc_row c"
    obtain rs where rs: "chain ((!) (the (hp_links ?p))) (pc_build c1) rs" "set rs \<subseteq> {..<n}"
      "rest = List.map_filter (?hit ?i) rs @ row_pairs_from j input ?hit L (?i + 1)"
      and salt: "pc_salt c1 = HashJoinSalt (hash_key (chunk_key (hj_probe_layout j) input ?i))"
      using c1(2,3,4) mode by (auto simp: join_at_def pending_def)
    define hitf where "hitf = (\<lambda>r. if fast_key_equal f (TupleDataCollectionGetRow (hp_build_keys ?p) r) input ?i
        then Some (?i, Some (payload_rows ?p), Some (TupleDataCollectionGetRow (payload_rows ?p) r)) else None)"
    have hitf_alt: "hitf r = (if fast_key_equal f (TupleDataCollectionGetRow (hp_build_keys ?p) r) input ?i
        then Some (?i, Some (payload_rows ?p), Some (TupleDataCollectionGetRow (payload_rows ?p) r)) else None)" for r
      by (simp add: hitf_def)
    have same: "hitf r = ?hit ?i r" if "r < n" for r
      using plain that mode fast_key(1) [OF fast] by (simp add: hitf_def hit_def matches_def)
    have eq: "List.map_filter hitf xs = List.map_filter (?hit ?i) xs" if "set xs \<subseteq> {..<n}" for xs
      using that same by (induction xs) (simp_all add: List.map_filter_simps split: option.split)
    have skip: "\<forall>r\<in>set rs. the (hp_salts ?p) ! r \<noteq> pc_salt c1 \<longrightarrow> hitf r = None"
    proof
      fix r assume "r \<in> set rs"
      then have r: "r < n" using rs(2) by auto
      show "the (hp_salts ?p) ! r \<noteq> pc_salt c1 \<longrightarrow> hitf r = None"
        using hit_salt [OF sound r, of ?i] salt same [OF r] by (cases "hitf r = None") simp_all
    qed
    have ok: "\<forall>m\<in>set (List.map_filter hitf rs). match_ok input ?cols m"
      unfolding eq [OF rs(2)] hits_filter using sound i rs(2) by (auto simp: join_sound_def)
    have cols: "cols_ok ?cols" using sound by (simp add: join_sound_def)
    obtain h' rs' out' where m: "fast_match_loop ?p f input ?i (pc_salt c1) (pc_build c1) out = Some (Inr (h', out'))" "out_ok ?cols out'"
      "out_rows ?cols out' = out_rows ?cols out @ map (join_row input ?cols) (take (?N - chunk_count out) (List.map_filter hitf rs))"
      "chunk_count out' = chunk_count out + length (take (?N - chunk_count out) (List.map_filter hitf rs))"
      "chain ((!) (the (hp_links ?p))) h' rs'" "set rs' \<subseteq> set rs" "List.map_filter hitf rs' = drop (?N - chunk_count out) (List.map_filter hitf rs)"
      "length (List.map_filter hitf rs) < ?N - chunk_count out \<longrightarrow> rs' = []"
      using fast_match_loop_rows [OF fast cols hitf_alt rs(1) skip ok out refl] by (elim exE conjE) (rule that)
    let ?now = "take (?N - chunk_count out) (List.map_filter hitf rs)" and ?tail = "row_pairs_from j input ?hit L (?i + 1)"
    let ?rest = "drop (?N - chunk_count out) (List.map_filter hitf rs) @ ?tail"
    let ?c = "c1\<lparr>pc_build := h'\<rparr>"
    let ?c' = "if h' = HASH_JOIN_INVALID_ROW then ?c\<lparr>pc_have_build := False, pc_row := pc_row ?c + 1\<rparr> else ?c"
    have run: "fast_row ?p f input c out = Some (Inr (?c', out'))"
      using c1(1,4) m(1) nulls i by (auto simp: fast_row_def null_free_def Let_def)
    have split: "rest = ?now @ ?rest" using rs(3) by (simp add: eq [OF rs(2)])
    have at': "?at ?c' ?rest"
    proof (cases "h' = HASH_JOIN_INVALID_ROW")
      case True
      then have "rs' = []" using m(5) by (cases rs') auto
      then show ?thesis using True c1(4) m(7) by (simp add: join_at_def List.map_filter_simps)
    next
      case False
      have "drop (?N - chunk_count out) (List.map_filter hitf rs) = List.map_filter (?hit ?i) rs'"
        using m(7) eq [of rs'] subset_trans [OF m(6) rs(2)] by simp
      then show ?thesis using False c1(3,4) i salt mode(1) m(5) subset_trans [OF m(6) rs(2)]
        unfolding join_at_def by (auto simp: pending_def intro!: exI [of _ rs'])
    qed
    have full: "chunk_count out' = ?N" if "h' \<noteq> HASH_JOIN_INVALID_ROW"
      using that m(4,5,8) out(2) by (cases rs') auto
    have "round_ok ?cols input c out ?now ?c' out'" using m(2-4) full c1(4-6) out(2) by (auto simp: round_ok_def)
    then show ?thesis using run split at' by blast
  qed
  then show ?thesis unfolding body_ok_def by (auto simp: join_at_def)
qed

section \<open>The join\<close>

definition row_pairs :: "hash_join \<Rightarrow> data_chunk \<Rightarrow> (nat \<Rightarrow> tuple_data_collection option \<times> u8 list option) \<Rightarrow> (nat \<Rightarrow> nat list) \<Rightarrow> matched list" where
  "row_pairs j input side ms = concat (map (\<lambda>i. pending (hj_mode j) i False (map (\<lambda>r. (i, side r)) (ms i))) [0..<chunk_count input])"

lemma join_body_ok:
  assumes ready: "join_ready j f" and sound: "join_sound j n input (fp_columns f) side pass" and L: "chains_are n (hj_payload j) L"
    and fast: "fp_enabled f \<Longrightarrow> \<not> hp_shared_local (hj_payload j) \<Longrightarrow> null_free f input \<and> needs_build_row j"
  shows "body_ok (join_at j n input (hit j input side pass) L) (fp_columns f) input (join_body j f input)"
proof (cases "fp_enabled f \<and> \<not> hp_shared_local (hj_payload j)")
  case True
  have "fast_for j f" using ready True fast_for_enabled by (auto simp: join_ready_def Let_def)
  moreover have "\<forall>r < n. side r = (Some (payload_rows (hj_payload j)), Some (TupleDataCollectionGetRow (payload_rows (hj_payload j)) r))"
    using sound fast True by (auto simp: join_sound_def build_side_def Let_def)
  ultimately show ?thesis using fast_row_body [OF sound L] fast True by (simp add: join_body_def)
next
  case False
  then show ?thesis using probe_row_body [OF sound L] by (auto simp: join_body_def)
qed

text \<open>C1: Over a finished table the executions on a probe chunk return, in chunks of 2048 rows and in the order of the
  probe rows, the joined rows of exactly the matching pairs, for every join mode: an inner join each pair of a probe row and a
  build row with equal keys that passes the residual filter, once; a semi join the first of them; an anti join the probe rows
  without any; a left join every match, and the unmatched probe rows with nulls. Then the join asks for input with its cursor
  idle. It always returns, also where a chunk boundary falls into a chain, and the fast path for one integer key
  delivers the same when no key is null. Null flags of the keys are not looked at otherwise.\<close>

theorem hash_join_emits_matches:
  assumes "join_ready j f" "join_sound j n input (fp_columns f) side pass"
    and "fp_enabled f \<Longrightarrow> \<not> hp_shared_local (hj_payload j) \<Longrightarrow> null_free f input \<and> needs_build_row j"
  shows "\<exists>ms. (\<forall>i < chunk_count input. distinct (ms i) \<and> set (ms i) = {r. r < n \<and> matches j input pass i r}) \<and>
    answers (\<lambda>out st. returns (HashExecute (\<lambda>_. False) j input out st)) idle_join (out_rows (fp_columns f)) GetJoinOperatorState
      (map (map (join_row input (fp_columns f))) (chunked PIPELINE_DEFAULT_CHUNK_SIZE (row_pairs j input side ms)))"
proof -
  let ?p = "hj_payload j" and ?key = "\<lambda>i. chunk_key (hj_probe_layout j) input i"
  let ?b = "\<lambda>i. join_bucket (hp_capacity ?p) (hash_key (?key i))"
  have table: "table_ok (hj_key_layout j) n ?p" using assms(2) by (simp add: join_sound_def)
  then have "\<forall>b. \<exists>rs. b < hp_capacity ?p \<longrightarrow> chain ((!) (the (hp_links ?p))) (the (hp_heads ?p) ! b) rs \<and> distinct rs \<and>
      set rs = {r. r < n \<and> join_bucket (hp_capacity ?p) (hash_key (built_key (hj_key_layout j) ?p r)) = b}"
    by (auto simp: table_ok_def)
  from choice [OF this] obtain L where L: "\<forall>b. b < hp_capacity ?p \<longrightarrow> chain ((!) (the (hp_links ?p))) (the (hp_heads ?p) ! b) (L b) \<and> distinct (L b) \<and>
      set (L b) = {r. r < n \<and> join_bucket (hp_capacity ?p) (hash_key (built_key (hj_key_layout j) ?p r)) = b}"
    by (elim exE) (rule that)
  then have chains: "chains_are n ?p L" by (auto simp: chains_are_def)
  define ms where "ms = (\<lambda>i. filter (matches j input pass i) (row_chain j L input i))"
  have b: "?b i < hp_capacity ?p" for i using table by (intro join_bucket_less) (simp_all add: table_ok_def)
  have "distinct (ms i) \<and> set (ms i) = {r. r < n \<and> matches j input pass i r}" for i
    using L b [of i] by (auto simp: ms_def row_chain_def matches_def)
  moreover have "row_pairs_from j input (hit j input side pass) L 0 = row_pairs j input side ms"
    by (simp add: row_pairs_from_def row_pairs_def ms_def hits_filter)
  moreover have "join_at j n input (hit j input side pass) L (start_probe NewProbeCursor) (row_pairs_from j input (hit j input side pass) L 0)"
    by (simp add: join_at_def start_probe_def NewProbeCursor_def)
  then have "join_rest (join_at j n input (hit j input side pass) L) (chunk_count input) (js_cursor GetJoinOperatorState)
      (row_pairs_from j input (hit j input side pass) L 0)"
    by (simp add: join_rest_def GetJoinOperatorState_def start_probe_def NewProbeCursor_def)
  from join_answers [OF assms(1) join_body_ok [OF assms(1,2) chains assms(3)] this]
  have "answers (\<lambda>out st. returns (HashExecute (\<lambda>_. False) j input out st)) idle_join (out_rows (fp_columns f)) GetJoinOperatorState
      (map (map (join_row input (fp_columns f))) (chunked PIPELINE_DEFAULT_CHUNK_SIZE (row_pairs_from j input (hit j input side pass) L 0)))"
    by (simp add: GetJoinOperatorState_def)
  ultimately show ?thesis by auto
qed

lemma HashFinalize_fields:
  assumes "HashFinalize mem l p = Some (Inr q)"
  shows "hp_release_state q = hp_release_state p" "hp_shared_local q = hp_shared_local p" "hp_use_keys q = hp_use_keys p"
    "tdc_rows (hp_build_keys q) = tdc_rows (hp_build_keys p)" "tdc_heap (hp_build_keys q) = tdc_heap (hp_build_keys p)"
proof -
  have pub: "hp_release_state (PublishHashJoinCombinedRows p) = hp_release_state p" "hp_shared_local (PublishHashJoinCombinedRows p) = hp_shared_local p"
    "hp_use_keys (PublishHashJoinCombinedRows p) = hp_use_keys p"
    "tdc_rows (hp_build_keys (PublishHashJoinCombinedRows p)) = tdc_rows (hp_build_keys p)"
    "tdc_heap (hp_build_keys (PublishHashJoinCombinedRows p)) = tdc_heap (hp_build_keys p)"
    by (simp_all add: PublishHashJoinCombinedRows_def Let_def)
  have "hp_release_state q = hp_release_state (PublishHashJoinCombinedRows p) \<and> hp_shared_local q = hp_shared_local (PublishHashJoinCombinedRows p) \<and>
    hp_use_keys q = hp_use_keys (PublishHashJoinCombinedRows p) \<and> tdc_rows (hp_build_keys q) = tdc_rows (hp_build_keys (PublishHashJoinCombinedRows p)) \<and>
    tdc_heap (hp_build_keys q) = tdc_heap (hp_build_keys (PublishHashJoinCombinedRows p))"
    using assms unfolding HashFinalize_def Let_def
    by (auto simp: build_chains_def rbind_Inr_iff bind_eq_Some_conv finish_scan_def TupleDataCollectionResetScan_def Let_def split: if_splits)
  then show "hp_release_state q = hp_release_state p" "hp_shared_local q = hp_shared_local p" "hp_use_keys q = hp_use_keys p"
    "tdc_rows (hp_build_keys q) = tdc_rows (hp_build_keys p)" "tdc_heap (hp_build_keys q) = tdc_heap (hp_build_keys p)"
    by (simp_all add: pub)
qed


definition demo_hash_join :: "match_mode \<Rightarrow> hash_payload \<Rightarrow> hash_join" where
  "demo_hash_join mode p = \<lparr>hj_payload = p, hj_mode = mode, hj_probe_layout = demo_layout, hj_key_layout = demo_layout,
     hj_row_layout = demo_layout, hj_columns = demo_columns, hj_n_filter = (0, 0, 0), hj_residual = (\<lambda>_ _. Inr True)\<rparr>"


definition zero_chunk :: data_chunk where
  "zero_chunk = empty_chunk\<lparr>chunk_count := 1\<rparr>"

lemma zero_chunk_ok: "chunk_row_ok demo_layout zero_chunk 0"
  by (simp add: chunk_row_ok_def zero_chunk_def get_string_ref_def get_cell_def empty_chunk_def plain_class_def demo_layout_def q1_layout ref_ok_def)

theorem hash_join_emits_matches_witness:
  "\<exists>j ms. hj_mode j = JOIN_INNER \<and> distinct ms \<and> set ms = {0, 1 :: nat} \<and>
    answers (\<lambda>out st. returns (HashExecute (\<lambda>_. False) j zero_chunk out st)) idle_join (out_rows demo_resolved) GetJoinOperatorState
      (map (map (join_row zero_chunk demo_resolved)) (chunked PIPELINE_DEFAULT_CHUNK_SIZE
        (map (\<lambda>r. (0, Some (payload_rows (hj_payload j)), Some demo_row)) ms)))"
proof -
  let ?p = "demo_join\<lparr>hp_build_keys := demo_tdc\<lparr>tdc_row_count := 2\<rparr>, hp_use_keys := True\<rparr>"
  obtain q where q: "HashFinalize (\<lambda>_. 0) demo_layout ?p = Some (Inr q)" "table_ok demo_layout 2 q" "hp_finalized q"
    using demo_finalized(1) by blast
  note fields = HashFinalize_fields [OF q(1)]
  let ?j = "demo_hash_join JOIN_INNER q"
  let ?side = "\<lambda>r. (Some (payload_rows q), Some (TupleDataCollectionGetRow (payload_rows q) r))"
  have rows: "TupleDataCollectionGetRow (hp_build_keys q) r = demo_row" if "r < 2" for r
    using that fields(4) by (simp add: TupleDataCollectionGetRow_def demo_tdc_def TupleDataCollectionInit_def demo_row_def)
  have pay: "payload_rows q = hp_build_keys q" using fields(3) by (simp add: payload_rows_def)
  have demo_columns_two: "column_count demo_layout = 2" by (simp add: demo_layout_def q1_layout column_count_def)
  have "InitializeHashJoinFastProbeState ?j = Inr \<lparr>fp_enabled = False, fp_key_is_int32 = False, fp_chunk_slot = 0, fp_key_offset = 0, fp_columns = demo_resolved\<rparr>"
    using demo_columns_two by (simp add: InitializeHashJoinFastProbeState_def demo_hash_join_def demo_resolve fast_inner_possible_def)
  then have ready: "join_ready ?j \<lparr>fp_enabled = False, fp_key_is_int32 = False, fp_chunk_slot = 0, fp_key_offset = 0, fp_columns = demo_resolved\<rparr>"
    using q(2,3) fields by (simp add: join_ready_def Let_def demo_hash_join_def demo_columns_def table_ok_def demo_join_def)
  have ref: "read_string_ref 0 demo_row = \<lparr>ref_len = 0, ref_offset = 0, ref_prefix = 0\<rparr>"
    by (simp add: demo_row_def read_string_ref_zeros)
  have needs: "needs_build_row ?j" "\<not> has_join_filter ?j"
    by (simp_all add: needs_build_row_def OutputColumnsReferenceRight_def demo_hash_join_def demo_columns_def has_join_filter_def)
  have ok: "match_ok zero_chunk demo_resolved (0, ?side r)" if "r < 2" for r
    using that rows by (simp add: match_ok_def demo_resolved_def short_ref_def ref_ok_def demo_layout_def q1_layout ref pay)
  have ok2: "match_ok zero_chunk demo_resolved (0, None, None)" by (simp add: match_ok_def demo_resolved_def)
  have cols: "cols_ok demo_resolved" by (simp add: cols_ok_def demo_resolved_def N_SLOTS_def)
  have sound: "join_sound ?j 2 zero_chunk demo_resolved ?side (\<lambda>_ _. True)"
    using q(2) ok ok2 cols demo_facts(2) zero_chunk_ok needs fields unfolding join_sound_def
    by (auto simp: build_side_def Let_def) (simp_all add: demo_hash_join_def zero_chunk_def demo_join_def)
  let ?f = "\<lparr>fp_enabled = False, fp_key_is_int32 = False, fp_chunk_slot = 0, fp_key_offset = 0, fp_columns = demo_resolved\<rparr>"
  obtain ms where ms: "\<forall>i < chunk_count zero_chunk. distinct (ms i) \<and> set (ms i) = {r. r < 2 \<and> matches ?j zero_chunk (\<lambda>_ _. True) i r}"
    "answers (\<lambda>out st. returns (HashExecute (\<lambda>_. False) ?j zero_chunk out st)) idle_join (out_rows demo_resolved) GetJoinOperatorState
      (map (map (join_row zero_chunk demo_resolved)) (chunked PIPELINE_DEFAULT_CHUNK_SIZE (row_pairs ?j zero_chunk ?side ms)))"
    using hash_join_emits_matches [OF ready, of 2 zero_chunk ?side "\<lambda>_ _. True"] sound by auto
  have one: "chunk_count zero_chunk = 1" by (simp add: zero_chunk_def)
  have zero: "get_u32 16 demo_row = 0" by (simp add: demo_row_def get_u32_def mem_read_zeros)
  have equal: "matches ?j zero_chunk (\<lambda>_ _. True) 0 r" if "r < 2" for r
    using rows [OF that] ref zero needs(2) by (simp add: matches_def built_key_def row_key_def chunk_key_def row_val_def chunk_val_def demo_layout_def q1_layout
        demo_hash_join_def ref_string_def VecStringRefDataPtr_def zero_chunk_def empty_chunk_def class_defs plain_class_def)
  then have hits: "distinct (ms 0)" "set (ms 0) = {0, 1}" using ms(1) one by auto
  have pj: "hj_payload ?j = q" "hj_mode ?j = JOIN_INNER" by (simp_all add: demo_hash_join_def)
  have pairs: "row_pairs ?j zero_chunk ?side ms = map (\<lambda>r. (0, Some (payload_rows q), Some demo_row)) (ms 0)"
    using hits(2) rows by (auto simp: row_pairs_def one pj pending_def pay)
  show ?thesis
    by (rule exI [of _ ?j], rule exI [of _ "ms 0"]) (use ms(2) [unfolded pairs] hits in \<open>simp add: pj\<close>)
qed

end
