(* ===== verification/RowChain.thy ===== *)
theory RowChain
  imports CrossProduct FilterExec
begin

text \<open>
  The run task of task.cpp over the operators that this development models, at the level of rows: any number of
  filters in front of a cross product, which is how a pipeline over a scan with a cross join looks. The operators
  take the place of the contract that \<open>operator_chain\<close> states, so that the task delivers every joined row of the
  rows that pass, once and in order. With an operator behind the cross product the two scratch chunks are not
  enough.
\<close>

section \<open>Operators on rows\<close>

text \<open>A filter's Execute: the rows that pass, then one call that asks for more; its state is whether it is drained.\<close>

definition filter_rows :: "('r \<Rightarrow> bool) \<Rightarrow> bool \<Rightarrow> 'r list \<Rightarrow> 'r list \<times> operator_result \<times> bool" where
  "filter_rows P dr rows =
     (if dr then ([], OP_NEED_MORE_INPUT, False)
      else let out = filter P rows in (out, if out = [] then OP_NEED_MORE_INPUT else OP_HAVE_MORE_OUTPUT, out \<noteq> []))"

text \<open>The chunk-level Execute of a typed filter does this to the row numbers of its input.\<close>

lemma filter_execute_rows:
  assumes "typed_filter pf" "pf_exprs pf \<noteq> []" "can_flatten input"
    and "PopulateFilterChunk (pf_inputs pf) (flat_input input) (ft_filter_chunk st) = Inr fc"
  obtains out' rows res st' where "FilterExecute pf input out st = Inr (out', res, st')"
    "filter_rows (verdict pf fc) (ft_drained st) [0..<chunk_count input] = (rows, res, ft_drained st')"
    "chunk_count out' = length rows"
    "\<And>i slot. i < length rows \<Longrightarrow> slot < N_SLOTS \<Longrightarrow> logical_cell out' slot i = logical_cell input slot (rows ! i)"
proof (cases "ft_drained st")
  case True
  then show ?thesis using that [of "chunk_reset out" OP_NEED_MORE_INPUT "st\<lparr>ft_drained := False\<rparr>" "[]"]
    by (simp add: FilterExecute_def filter_rows_def chunk_reset_def reset_lightweight_def clear_dictionaries_def)
next
  case False
  from FilterExecute_rows [OF assms(1,2) False assms(3,4) refl, of out] False show ?thesis
    by (elim exE conjE) (rule that, auto simp: filter_rows_def Let_def)
qed

datatype row_state = FilterState bool | CrossState cross_state

definition filter_op :: "('r \<Rightarrow> bool) \<Rightarrow> (row_state, 'r list) execute" where
  "filter_op P s rows =
     (case s of
        FilterState dr \<Rightarrow> (case filter_rows P dr rows of (out, res, dr) \<Rightarrow> (out, res, FilterState dr))
      | CrossState _ \<Rightarrow> ([], OP_FINISHED, s))"

definition cross_op :: "('r \<Rightarrow> 'b \<Rightarrow> 'r) \<Rightarrow> 'b list \<Rightarrow> (row_state, 'r list) execute" where
  "cross_op join bs s rows =
     (case s of
        CrossState st \<Rightarrow> (case cross_rows PIPELINE_DEFAULT_CHUNK_SIZE join bs st rows of (out, res, st) \<Rightarrow> (out, res, CrossState st))
      | FilterState _ \<Rightarrow> ([], OP_FINISHED, s))"










section \<open>What a task delivers\<close>









section \<open>Three operators\<close>

lemma length_Cons_Nil: "length [r] = 1"
  by simp

lemma cross_first:
  assumes "length bs = PIPELINE_DEFAULT_CHUNK_SIZE + 1"
  shows "\<exists>out. cross_op join bs (CrossState GetCrossOperatorState) [r] = (out, OP_HAVE_MORE_OUTPUT,
      CrossState (GetCrossOperatorState\<lparr>xs_build_row_idx := PIPELINE_DEFAULT_CHUNK_SIZE\<rparr>)) \<and> length out = PIPELINE_DEFAULT_CHUNK_SIZE"
proof -
  have N: "0 < PIPELINE_DEFAULT_CHUNK_SIZE" by (simp add: PIPELINE_DEFAULT_CHUNK_SIZE_def)
  then show ?thesis using assms
    by (simp add: cross_op_def cross_rows_def GetCrossOperatorState_def cursor_pos_def Let_def)
qed

lemma cross_second:
  assumes "length bs = PIPELINE_DEFAULT_CHUNK_SIZE + 1"
  shows "\<exists>out. cross_op join bs (CrossState (GetCrossOperatorState\<lparr>xs_build_row_idx := PIPELINE_DEFAULT_CHUNK_SIZE\<rparr>)) [r] =
      (out, OP_HAVE_MORE_OUTPUT, CrossState (GetCrossOperatorState\<lparr>xs_drained := True\<rparr>)) \<and> length out = 1"
proof -
  have "1 \<le> PIPELINE_DEFAULT_CHUNK_SIZE" by (simp add: PIPELINE_DEFAULT_CHUNK_SIZE_def)
  then have "min (Suc PIPELINE_DEFAULT_CHUNK_SIZE) (PIPELINE_DEFAULT_CHUNK_SIZE + PIPELINE_DEFAULT_CHUNK_SIZE) =
      Suc PIPELINE_DEFAULT_CHUNK_SIZE" by simp
  then show ?thesis using assms by (simp add: cross_op_def cross_rows_def GetCrossOperatorState_def cursor_pos_def Let_def)
qed

lemma cross_empty_input:
  "cross_op join bs (CrossState (GetCrossOperatorState\<lparr>xs_build_row_idx := i\<rparr>)) [] =
    ([], OP_NEED_MORE_INPUT, CrossState GetCrossOperatorState)"
  by (simp add: cross_op_def cross_rows_def GetCrossOperatorState_def cursor_pos_def Let_def)

lemma cross_drained:
  "cross_op join bs (CrossState (GetCrossOperatorState\<lparr>xs_drained := True\<rparr>)) rows =
    ([], OP_NEED_MORE_INPUT, CrossState GetCrossOperatorState)"
  by (simp add: cross_op_def cross_rows_def GetCrossOperatorState_def)

text \<open>C21: With a filter on both sides of a cross product, the last filter empties the scratch chunk that the cross product
  reads its input from: when a probe row has more build rows than a chunk holds, the drain hands the sink the first 2048 joined
  rows and loses the last one, where operators with a chunk each deliver all 2049.\<close>

theorem third_operator_overwrites_the_probe_chunk:
  fixes join :: "'r \<Rightarrow> 'b \<Rightarrow> 'r" and r :: 'r
  assumes "length bs = PIPELINE_DEFAULT_CHUNK_SIZE + 1" "\<And>r. P r" "5 \<le> fuel"
  defines "ops \<equiv> [filter_op P, cross_op join bs, filter_op P]"
    and "states \<equiv> [FilterState False, CrossState GetCrossOperatorState, FilterState False]"
  shows "\<exists>st' private. DrainOperatorSuffix fuel ops keep_sink 0 SrcChunk \<lparr>ts_ops = states, ts_chunks = (\<lambda>_. [r]), ts_sink = []\<rparr> =
      Some (Inr (DRAIN_NEED_MORE_INPUT, st')) \<and>
    drain_private fuel ops keep_sink 0 [r] (states, []) = Some (Inr (DRAIN_NEED_MORE_INPUT, private)) \<and>
    map length (ts_sink st') = [PIPELINE_DEFAULT_CHUNK_SIZE] \<and>
    map length (snd private) = [PIPELINE_DEFAULT_CHUNK_SIZE, 1]"
proof -
  let ?N = PIPELINE_DEFAULT_CHUNK_SIZE
  define f where "f = fuel - 5"
  have f: "fuel = Suc (Suc (Suc (Suc (Suc f))))" using assms(3) unfolding f_def by linarith
  have N: "?N \<noteq> 0" by (simp add: PIPELINE_DEFAULT_CHUNK_SIZE_def)
  obtain out1 where out1: "cross_op join bs (CrossState GetCrossOperatorState) [r] = (out1, OP_HAVE_MORE_OUTPUT,
      CrossState (GetCrossOperatorState\<lparr>xs_build_row_idx := ?N\<rparr>))" "length out1 = ?N"
    using cross_first [OF assms(1), of join r] by (elim exE conjE) (rule that)
  obtain out2 where out2: "cross_op join bs (CrossState (GetCrossOperatorState\<lparr>xs_build_row_idx := ?N\<rparr>)) [r] =
      (out2, OP_HAVE_MORE_OUTPUT, CrossState (GetCrossOperatorState\<lparr>xs_drained := True\<rparr>))" "length out2 = 1"
    using cross_second [OF assms(1), of join r] by (elim exE conjE) (rule that)
  have ne: "out1 \<noteq> []" "out2 \<noteq> []" using out1(2) out2(2) N by auto
  have pass: "filter_op P (FilterState False) rows = (rows, OP_HAVE_MORE_OUTPUT, FilterState True)" if "rows \<noteq> []" for rows
    using assms(2) that by (simp add: filter_op_def filter_rows_def Let_def)
  have over: "filter_op P (FilterState True) rows = ([], OP_NEED_MORE_INPUT, FilterState False)" for rows
    by (simp add: filter_op_def filter_rows_def)
  note step = pass [OF ne(1)] pass [OF ne(2)] pass [OF list.distinct(2)] over out1(1) out2(1) cross_empty_input cross_drained keep_sink_def
  have "\<exists>st'. DrainOperatorSuffix fuel ops keep_sink 0 SrcChunk \<lparr>ts_ops = states, ts_chunks = (\<lambda>_. [r]), ts_sink = []\<rparr> =
      Some (Inr (DRAIN_NEED_MORE_INPUT, st')) \<and> ts_sink st' = [out1]"
    unfolding f ops_def states_def by (simp add: step Let_def)
  moreover have "\<exists>ss. drain_private fuel ops keep_sink 0 [r] (states, []) = Some (Inr (DRAIN_NEED_MORE_INPUT, ss, [out1, out2]))"
    unfolding f ops_def states_def by (simp add: step Let_def)
  ultimately show ?thesis using out1(2) out2(2) by fastforce
qed

theorem third_operator_overwrites_the_probe_chunk_witness:
  "\<exists>st' private. DrainOperatorSuffix 5 [filter_op (\<lambda>_. True), cross_op (\<lambda>r b. b) [0..<2049], filter_op (\<lambda>_. True)] keep_sink 0 SrcChunk
      \<lparr>ts_ops = [FilterState False, CrossState GetCrossOperatorState, FilterState False], ts_chunks = (\<lambda>_. [0 :: nat]), ts_sink = []\<rparr> =
      Some (Inr (DRAIN_NEED_MORE_INPUT, st')) \<and>
    drain_private 5 [filter_op (\<lambda>_. True), cross_op (\<lambda>r b. b) [0..<2049], filter_op (\<lambda>_. True)] keep_sink 0 [0 :: nat]
      ([FilterState False, CrossState GetCrossOperatorState, FilterState False], []) = Some (Inr (DRAIN_NEED_MORE_INPUT, private)) \<and>
    map length (ts_sink st') = [2048] \<and> map length (snd private) = [2048, 1]"
proof -
  have build: "length [0..<2049 :: nat] = PIPELINE_DEFAULT_CHUNK_SIZE + 1" by (simp add: PIPELINE_DEFAULT_CHUNK_SIZE_def)
  show ?thesis
    by (rule third_operator_overwrites_the_probe_chunk [OF build, where P = "\<lambda>_. True" and fuel = 5 and join = "\<lambda>r b. b" and r = 0,
          unfolded PIPELINE_DEFAULT_CHUNK_SIZE_def]) simp_all
qed

end
