(* ===== verification/RowOrder.thy ===== *)
theory RowOrder
  imports AggHash JoinRows
begin

text \<open>
  Ordering rows, as the sort operator (physical_order.cpp) and the top-N operator (physical_top_n.cpp) do it: the
  comparisons of two stored rows and of a chunk row with a stored row, what they compute on the rows' keys, and the
  selection of the best rows that a bounded buffer makes when it replaces its worst row. The sort itself is the
  \<^verbatim>\<open>std::sort\<close> of the C++ library: a parameter with the contract of the standard.
\<close>

section \<open>Sort keys\<close>

record sort_key =
  sk_col_idx :: nat
  sk_asc :: bool
  sk_nulls_first :: bool

section \<open>Comparisons\<close>

definition three_way :: "int \<Rightarrow> int \<Rightarrow> int" where
  "three_way a b = (if a < b then -1 else if b < a then 1 else 0)"

text \<open>Doubles are bit patterns; \<^verbatim>\<open><\<close> is the comparison of IEEE 754, false when an operand is not a number.\<close>

definition double_nan :: "u64 \<Rightarrow> bool" where
  "double_nan v \<longleftrightarrow> 0x7ff0000000000000 < v AND 0x7fffffffffffffff"

definition double_rank :: "u64 \<Rightarrow> int" where
  "double_rank v = (let m = uint (v AND 0x7fffffffffffffff) in if bit v 63 then - m else m)"

definition double_less :: "u64 \<Rightarrow> u64 \<Rightarrow> bool" where
  "double_less a b \<longleftrightarrow> \<not> double_nan a \<and> \<not> double_nan b \<and> double_rank a < double_rank b"

definition compare_doubles :: "u64 \<Rightarrow> u64 \<Rightarrow> int" where
  "compare_doubles a b = (if double_less a b then -1 else if double_less b a then 1 else 0)"

fun memcmp :: "u8 list \<Rightarrow> u8 list \<Rightarrow> int" where
  "memcmp (a # as) (b # bs) = (if a < b then -1 else if b < a then 1 else memcmp as bs)"
| "memcmp _ _ = 0"

definition compare_string_refs :: "vec_string_ref \<Rightarrow> u8 list option \<Rightarrow> vec_string_ref \<Rightarrow> u8 list option \<Rightarrow> int" where
  "compare_string_refs lhs_ref lhs_ptr rhs_ref rhs_ptr =
     (let cmp_len = min (unat (ref_len lhs_ref)) (unat (ref_len rhs_ref));
          cmp = (if 0 < cmp_len then memcmp (take cmp_len (the lhs_ptr)) (take cmp_len (the rhs_ptr)) else 0)
      in if cmp \<noteq> 0 then (if cmp < 0 then -1 else 1)
         else three_way (int (unat (ref_len lhs_ref))) (int (unat (ref_len rhs_ref))))"

definition compare_stored_column ::
  "tdc_column_desc \<Rightarrow> tuple_data_collection \<Rightarrow> u8 list \<Rightarrow> tuple_data_collection \<Rightarrow> u8 list \<Rightarrow> int" where
  "compare_stored_column col lhs_tdc lhs_row rhs_tdc rhs_row =
     (let off = unat (col_offset col)
      in case col_kind col of
           INT32 \<Rightarrow> three_way (sint (get_u32 off lhs_row)) (sint (get_u32 off rhs_row))
         | INT64 \<Rightarrow> three_way (sint (get_u64 off lhs_row)) (sint (get_u64 off rhs_row))
         | DOUBLE \<Rightarrow> compare_doubles (get_u64 off lhs_row) (get_u64 off rhs_row)
         | STRING_REF \<Rightarrow>
             let lhs_ref = read_string_ref off lhs_row; rhs_ref = read_string_ref off rhs_row
             in compare_string_refs lhs_ref (VecStringRefDataPtr lhs_ref (Some (tdc_heap lhs_tdc)))
                  rhs_ref (VecStringRefDataPtr rhs_ref (Some (tdc_heap rhs_tdc))))"

text \<open>The loop over the sort keys that both comparisons run: the first key that decides.\<close>

fun compare_by :: "(sort_key \<Rightarrow> int) \<Rightarrow> sort_key list \<Rightarrow> int" where
  "compare_by f [] = 0"
| "compare_by f (key # keys) =
     (let cmp = f key in if cmp \<noteq> 0 then (if sk_asc key then cmp else - cmp) else compare_by f keys)"

definition CompareStoredRows ::
  "tuple_data_layout \<Rightarrow> sort_key list \<Rightarrow> tuple_data_collection \<Rightarrow> u8 list \<Rightarrow> tuple_data_collection \<Rightarrow> u8 list \<Rightarrow> int" where
  "CompareStoredRows layout keys lhs_tdc lhs_row rhs_tdc rhs_row =
     compare_by (\<lambda>key. if column_count layout \<le> sk_col_idx key then 0
       else compare_stored_column (columns layout ! sk_col_idx key) lhs_tdc lhs_row rhs_tdc rhs_row) keys"

text \<open>The chunk side reads the cells of the schema's slot directly, without looking at dictionaries.\<close>

definition compare_chunk_column ::
  "nat \<Rightarrow> tdc_column_desc \<Rightarrow> data_chunk \<Rightarrow> nat \<Rightarrow> tuple_data_collection \<Rightarrow> u8 list \<Rightarrow> int" where
  "compare_chunk_column slot col chunk row_idx stored_tdc stored_row =
     (let off = unat (col_offset col)
      in case col_kind col of
           INT32 \<Rightarrow> three_way (sint (column_class.cells (int32_class chunk) slot row_idx)) (sint (get_u32 off stored_row))
         | INT64 \<Rightarrow> three_way (sint (column_class.cells (int64_class chunk) slot row_idx)) (sint (get_u64 off stored_row))
         | DOUBLE \<Rightarrow> compare_doubles (column_class.cells (double_class chunk) slot row_idx) (get_u64 off stored_row)
         | STRING_REF \<Rightarrow>
             let lhs_ref = column_class.cells (string_class chunk) slot row_idx; rhs_ref = read_string_ref off stored_row
             in compare_string_refs lhs_ref
                  (VecStringRefDataPtr lhs_ref (if string_arena chunk = [] then None else Some (string_arena chunk)))
                  rhs_ref (VecStringRefDataPtr rhs_ref (Some (tdc_heap stored_tdc))))"

definition CompareChunkRowToStoredRow ::
  "nat list \<Rightarrow> tuple_data_layout \<Rightarrow> sort_key list \<Rightarrow> data_chunk \<Rightarrow> nat \<Rightarrow> tuple_data_collection \<Rightarrow> u8 list \<Rightarrow> int" where
  "CompareChunkRowToStoredRow schema_slots layout keys chunk row_idx stored_tdc stored_row =
     compare_by (\<lambda>key. if column_count layout \<le> sk_col_idx key then 0
       else compare_chunk_column (schema_slots ! sk_col_idx key) (columns layout ! sk_col_idx key) chunk row_idx
              stored_tdc stored_row) keys"

text \<open>The index of the row that no other exceeds: the first one, since only a greater row replaces it.\<close>

definition FindWorstStoredRowIndex :: "tuple_data_layout \<Rightarrow> sort_key list \<Rightarrow> tuple_data_collection \<Rightarrow> nat" where
  "FindWorstStoredRowIndex layout keys tdc =
     fold (\<lambda>row_idx worst_idx.
         if 0 < CompareStoredRows layout keys tdc (TupleDataCollectionGetRow tdc row_idx) tdc (TupleDataCollectionGetRow tdc worst_idx)
         then row_idx else worst_idx) [1..<tdc_row_count tdc] 0"

section \<open>Comparisons as an interface\<close>

text \<open>A three-way comparison on the values that are \<open>ok\<close>.\<close>

locale comparison =
  fixes cmp :: "'a \<Rightarrow> 'a \<Rightarrow> int"
    and ok :: "'a \<Rightarrow> bool"
  assumes flip: "ok a \<Longrightarrow> ok b \<Longrightarrow> cmp b a = - cmp a b"
    and le_trans: "ok a \<Longrightarrow> ok b \<Longrightarrow> ok c \<Longrightarrow> cmp a b \<le> 0 \<Longrightarrow> cmp b c \<le> 0 \<Longrightarrow> cmp a c \<le> 0"
begin

lemma cmp_refl: "ok a \<Longrightarrow> cmp a a = 0"
  using flip [of a a] by simp

lemma le_total: "ok a \<Longrightarrow> ok b \<Longrightarrow> cmp a b \<le> 0 \<or> cmp b a \<le> 0"
  using flip [of a b] by linarith

lemma less_le_trans: "ok a \<Longrightarrow> ok b \<Longrightarrow> ok c \<Longrightarrow> cmp a b < 0 \<Longrightarrow> cmp b c \<le> 0 \<Longrightarrow> cmp a c < 0"
  using le_trans [of b c a] flip [of a c] flip [of a b] by linarith

lemma le_less_trans: "ok a \<Longrightarrow> ok b \<Longrightarrow> ok c \<Longrightarrow> cmp a b \<le> 0 \<Longrightarrow> cmp b c < 0 \<Longrightarrow> cmp a c < 0"
  using le_trans [of c a b] flip [of a c] flip [of b c] by linarith

lemma equal_trans: "ok a \<Longrightarrow> ok b \<Longrightarrow> ok c \<Longrightarrow> cmp a b = 0 \<Longrightarrow> cmp b c = 0 \<Longrightarrow> cmp a c = 0"
  using le_trans [of a b c] le_trans [of c b a] flip [of a b] flip [of b c] flip [of a c] by linarith

end

lemma comparison_cong:
  assumes "comparison f ok" "\<And>a b. ok a \<Longrightarrow> ok b \<Longrightarrow> g a b = f a b"
  shows "comparison g ok"
proof
  fix a b c assume ok: "ok a" "ok b"
  show "g b a = - g a b" using comparison.flip [OF assms(1) ok] assms(2) [OF ok] assms(2) [OF ok(2,1)] by simp
  assume c: "ok c" "g a b \<le> 0" "g b c \<le> 0"
  then show "g a c \<le> 0"
    using comparison.le_trans [OF assms(1) ok c(1)] assms(2) [OF ok] assms(2) [OF ok(2) c(1)] assms(2) [OF ok(1) c(1)] by simp
qed

lemma comparison_minus:
  assumes *: "comparison cmp ok"
  shows "comparison (\<lambda>a b. - cmp a b) ok"
proof
  fix a b c assume ok: "ok a" "ok b"
  show "- cmp b a = - (- cmp a b)" using comparison.flip [OF * ok] by simp
  assume "ok c" "- cmp a b \<le> 0" "- cmp b c \<le> 0"
  then show "- cmp a c \<le> 0"
    using comparison.le_trans [OF * \<open>ok c\<close> ok(2,1)] comparison.flip [OF * ok] comparison.flip [OF * ok(2) \<open>ok c\<close>]
      comparison.flip [OF * ok(1) \<open>ok c\<close>] by simp
qed

lemma comparison_zero: "comparison (\<lambda>a b. 0) ok"
  by unfold_locales simp_all

lemma comparison_first:
  assumes "comparison f ok" "comparison g ok"
  shows "comparison (\<lambda>a b. if f a b \<noteq> 0 then f a b else g a b) ok"
proof
  fix a b assume "ok a" "ok b"
  then show "(if f b a \<noteq> 0 then f b a else g b a) = - (if f a b \<noteq> 0 then f a b else g a b)"
    using comparison.flip [OF assms(1), of a b] comparison.flip [OF assms(2), of a b] by simp
next
  fix a b c assume ok: "ok a" "ok b" "ok c"
    and le: "(if f a b \<noteq> 0 then f a b else g a b) \<le> 0" "(if f b c \<noteq> 0 then f b c else g b c) \<le> 0"
  note f = comparison.less_le_trans [OF assms(1) ok] comparison.le_less_trans [OF assms(1) ok]
    comparison.equal_trans [OF assms(1) ok]
  have g: "g a b \<le> 0 \<Longrightarrow> g b c \<le> 0 \<Longrightarrow> g a c \<le> 0" by (rule comparison.le_trans [OF assms(2) ok])
  show "(if f a c \<noteq> 0 then f a c else g a c) \<le> 0"
    using f g le by (auto split: if_splits)
qed

section \<open>Comparing keys\<close>

text \<open>Strings compare byte by byte as unsigned values, a proper prefix first.\<close>

fun bytes_compare :: "u8 list \<Rightarrow> u8 list \<Rightarrow> int" where
  "bytes_compare [] [] = 0"
| "bytes_compare [] (_ # _) = -1"
| "bytes_compare (_ # _) [] = 1"
| "bytes_compare (a # as) (b # bs) = (if a < b then -1 else if b < a then 1 else bytes_compare as bs)"

fun val_compare :: "gval \<Rightarrow> gval \<Rightarrow> int" where
  "val_compare (GInt32 a) (GInt32 b) = three_way (sint a) (sint b)"
| "val_compare (GInt64 a) (GInt64 b) = three_way (sint a) (sint b)"
| "val_compare (GDouble a) (GDouble b) = compare_doubles a b"
| "val_compare (GString a) (GString b) = bytes_compare a b"
| "val_compare _ _ = 0"

definition key_compare :: "sort_key list \<Rightarrow> gval list \<Rightarrow> gval list \<Rightarrow> int" where
  "key_compare keys a b =
     compare_by (\<lambda>key. if length a \<le> sk_col_idx key then 0 else val_compare (a ! sk_col_idx key) (b ! sk_col_idx key)) keys"

fun val_kind :: "gval \<Rightarrow> tdc_column_kind" where
  "val_kind (GInt32 _) = INT32" | "val_kind (GInt64 _) = INT64" | "val_kind (GDouble _) = DOUBLE" | "val_kind (GString _) = STRING_REF"

fun comparable :: "gval \<Rightarrow> bool" where
  "comparable (GDouble v) \<longleftrightarrow> \<not> double_nan v" | "comparable _ \<longleftrightarrow> True"

text \<open>A key of the layout in which no sort column is a NaN.\<close>

definition key_ok :: "tdc_column_kind list \<Rightarrow> sort_key list \<Rightarrow> gval list \<Rightarrow> bool" where
  "key_ok kinds keys a \<longleftrightarrow> map val_kind a = kinds \<and>
     list_all (\<lambda>key. sk_col_idx key < length a \<longrightarrow> comparable (a ! sk_col_idx key)) keys"

lemma three_way_flip: "three_way b a = - three_way a b"
  by (simp add: three_way_def)

lemma three_way_le: "three_way a b \<le> 0 \<longleftrightarrow> a \<le> b"
  by (simp add: three_way_def)

lemma compare_doubles_rank:
  "\<not> double_nan a \<Longrightarrow> \<not> double_nan b \<Longrightarrow> compare_doubles a b = three_way (double_rank a) (double_rank b)"
  by (simp add: compare_doubles_def double_less_def three_way_def)

lemma bytes_compare_flip: "bytes_compare b a = - bytes_compare a b"
  by (induction a b rule: bytes_compare.induct) auto

lemma bytes_compare_trans: "bytes_compare a b \<le> 0 \<Longrightarrow> bytes_compare b c \<le> 0 \<Longrightarrow> bytes_compare a c \<le> 0"
proof (induction a b arbitrary: c rule: bytes_compare.induct)
  case (4 a as b bs)
  then show ?case by (cases c) (auto split: if_splits)
next
  case 1
  then show ?case by simp
next
  case (2 b bs)
  then show ?case by (cases c) simp_all
next
  case (3 a as)
  then show ?case by simp
qed

lemma val_compare_comparison: "comparison val_compare (\<lambda>v. val_kind v = k \<and> comparable v)"
proof
  fix a b c assume ok: "val_kind a = k \<and> comparable a" "val_kind b = k \<and> comparable b"
  show "val_compare b a = - val_compare a b"
    using ok by (cases a; cases b) (auto simp: compare_doubles_rank three_way_def intro: bytes_compare_flip)
  assume "val_kind c = k \<and> comparable c" "val_compare a b \<le> 0" "val_compare b c \<le> 0"
  then show "val_compare a c \<le> 0"
    using ok by (cases k; cases a; cases b; cases c) (simp_all add: three_way_le compare_doubles_rank bytes_compare_trans)
qed

lemma comparison_on:
  assumes "comparison cmp ok" "\<And>a. ok' a \<Longrightarrow> ok (f a)"
  shows "comparison (\<lambda>a b. cmp (f a) (f b)) ok'"
  using assms unfolding comparison_def by blast

lemma key_compare_Cons:
  "key_compare (key # keys) a b =
    (let first = (if length a \<le> sk_col_idx key then 0
       else if sk_asc key then val_compare (a ! sk_col_idx key) (b ! sk_col_idx key)
       else - val_compare (a ! sk_col_idx key) (b ! sk_col_idx key))
     in if first \<noteq> 0 then first else key_compare keys a b)"
  by (simp add: key_compare_def Let_def)

lemma key_column_comparison:
  "comparison (\<lambda>a b. if length a \<le> i then 0 else val_compare (a ! i) (b ! i))
    (\<lambda>a. map val_kind a = kinds \<and> (i < length a \<longrightarrow> comparable (a ! i)))"
proof (cases "length kinds \<le> i")
  case True
  then show ?thesis by unfold_locales (auto dest: map_eq_imp_length_eq)
next
  case False
  have "comparison (\<lambda>a b. val_compare (a ! i) (b ! i)) (\<lambda>a. map val_kind a = kinds \<and> (i < length a \<longrightarrow> comparable (a ! i)))"
    by (rule comparison_on [OF val_compare_comparison [of "kinds ! i"]]) (use False in auto)
  then show ?thesis
    by (rule comparison_cong) (use False in \<open>auto dest: map_eq_imp_length_eq\<close>)
qed

lemma key_compare_comparison: "comparison (key_compare keys) (key_ok kinds keys)"
proof (induction keys)
  case Nil
  show ?case using comparison_zero by (simp add: key_compare_def)
next
  case (Cons key keys)
  let ?i = "sk_col_idx key"
  let ?col = "\<lambda>a b. if length a \<le> ?i then 0 else val_compare (a ! ?i) (b ! ?i)"
  let ?first = "\<lambda>a b. if sk_asc key then ?col a b else - ?col a b"
  have "comparison ?first (\<lambda>a. map val_kind a = kinds \<and> (?i < length a \<longrightarrow> comparable (a ! ?i)))"
    using key_column_comparison comparison_minus [OF key_column_comparison] by (cases "sk_asc key") simp_all
  then have "comparison ?first (key_ok kinds (key # keys))"
    by (rule comparison_on [where f = "\<lambda>a. a"]) (auto simp: key_ok_def)
  moreover have "comparison (key_compare keys) (key_ok kinds (key # keys))"
    by (rule comparison_on [OF Cons.IH, where f = "\<lambda>a. a"]) (auto simp: key_ok_def)
  ultimately have "comparison (\<lambda>a b. if ?first a b \<noteq> 0 then ?first a b else key_compare keys a b) (key_ok kinds (key # keys))"
    by (rule comparison_first)
  moreover have "key_compare (key # keys) a b = (if ?first a b \<noteq> 0 then ?first a b else key_compare keys a b)" for a b
    by (simp add: key_compare_Cons Let_def)
  ultimately show ?case by simp
qed

interpretation key_order: comparison "key_compare keys" "key_ok kinds keys" for keys kinds
  by (rule key_compare_comparison)

section \<open>The comparisons of the code compare keys\<close>

lemma memcmp_bytes_compare:
  "memcmp (take (min (length a) (length b)) a) (take (min (length a) (length b)) b) \<noteq> 0 \<Longrightarrow>
     bytes_compare a b = memcmp (take (min (length a) (length b)) a) (take (min (length a) (length b)) b)"
  "memcmp (take (min (length a) (length b)) a) (take (min (length a) (length b)) b) = 0 \<Longrightarrow>
     bytes_compare a b = three_way (int (length a)) (int (length b))"
proof (induction a b rule: bytes_compare.induct)
  case (4 a as b bs)
  { case 1 then show ?case using "4.IH"(1) by (auto split: if_splits) }
  { case 2 then show ?case using "4.IH"(2) by (auto simp: three_way_def split: if_splits) }
qed (simp_all add: three_way_def)

lemma memcmp_values: "memcmp a b \<noteq> 0 \<Longrightarrow> memcmp a b = (if memcmp a b < 0 then -1 else 1)"
  by (induction a b rule: memcmp.induct) auto

lemma compare_string_refs_bytes:
  assumes "unat (ref_len r) = length a" "unat (ref_len q) = length b"
  shows "compare_string_refs r (Some a) q (Some b) = bytes_compare a b"
proof -
  let ?n = "min (length a) (length b)"
  have cut: "(if 0 < ?n then memcmp (take ?n a) (take ?n b) else 0) = memcmp (take ?n a) (take ?n b)" by (cases "0 < ?n") auto
  show ?thesis
    using memcmp_bytes_compare [of a b] memcmp_values [of "take ?n a" "take ?n b"]
    unfolding compare_string_refs_def assms cut Let_def option.sel by (cases "memcmp (take ?n a) (take ?n b) = 0") auto
qed

lemma compare_stored_column_val:
  assumes "col_kind c = STRING_REF \<Longrightarrow> ref_ok (tdc_heap t) used (read_string_ref (unat (col_offset c)) row)"
    and "col_kind c = STRING_REF \<Longrightarrow> ref_ok (tdc_heap u) used' (read_string_ref (unat (col_offset c)) row')"
  shows "compare_stored_column c t row u row' = val_compare (row_val (tdc_heap t) row c) (row_val (tdc_heap u) row' c)"
  using assms length_ref_string
  by (cases "col_kind c") (auto simp: compare_stored_column_def row_val_def Let_def compare_string_refs_bytes)

lemma CompareStoredRows_key:
  assumes "row_ok l (tdc_heap t) used row" "row_ok l (tdc_heap u) used' row'"
  shows "CompareStoredRows l keys t row u row' = key_compare keys (row_key l (tdc_heap t) row) (row_key l (tdc_heap u) row')"
proof -
  have "compare_stored_column (columns l ! i) t row u row' =
      val_compare (row_val (tdc_heap t) row (columns l ! i)) (row_val (tdc_heap u) row' (columns l ! i))" if "i < column_count l" for i
    by (rule compare_stored_column_val) (use assms that in \<open>auto simp: row_ok_def row_refs_ok_def column_count_def\<close>)
  then have "(\<lambda>key. if column_count l \<le> sk_col_idx key then 0 else compare_stored_column (columns l ! sk_col_idx key) t row u row') =
    (\<lambda>key. if length (row_key l (tdc_heap t) row) \<le> sk_col_idx key then 0
      else val_compare (row_key l (tdc_heap t) row ! sk_col_idx key) (row_key l (tdc_heap u) row' ! sk_col_idx key))"
    by (auto simp: row_key_def column_count_def)
  then show ?thesis unfolding CompareStoredRows_def key_compare_def by (rule arg_cong)
qed

text \<open>The slots the schema names for the sort columns are the ones the layout scatters from, and hold plain cells.\<close>

definition schema_ok :: "nat list \<Rightarrow> tuple_data_layout \<Rightarrow> bool" where
  "schema_ok slots l \<longleftrightarrow> slots = map (\<lambda>c. unat (col_src_col_idx c)) (columns l) \<and> list_all (\<lambda>s. s < N_SLOTS) slots"

lemma compare_chunk_column_val:
  assumes "plain_slots ch" "unat (col_src_col_idx c) < N_SLOTS"
    and "col_kind c = STRING_REF \<Longrightarrow> ref_ok (string_arena ch) (length (string_arena ch)) (get_string_ref ch (unat (col_src_col_idx c)) i)"
    and "col_kind c = STRING_REF \<Longrightarrow> ref_ok (tdc_heap u) used (read_string_ref (unat (col_offset c)) row)"
  shows "compare_chunk_column (unat (col_src_col_idx c)) c ch i u row = val_compare (chunk_val ch i c) (row_val (tdc_heap u) row c)"
proof (cases "col_kind c = STRING_REF")
  case True
  let ?r = "get_string_ref ch (unat (col_src_col_idx c)) i"
  have r: "column_class.cells (string_class ch) (unat (col_src_col_idx c)) i = ?r"
    using assms(1,2) by (simp add: plain_slots_def get_string_ref_def get_cell_def)
  have ok: "ref_ok (string_arena ch) (length (string_arena ch)) ?r" using assms(3) True .
  have "VecStringRefDataPtr ?r (if string_arena ch = [] then None else Some (string_arena ch)) = Some (ref_string (string_arena ch) ?r)"
    using ok by (auto simp: ref_ok_def VecStringRefDataPtr_def ref_string_def unat_eq_0 split: if_splits)
  then show ?thesis
    using True assms(4) length_ref_string [OF ok] length_ref_string [of "tdc_heap u" used "read_string_ref (unat (col_offset c)) row"]
    by (simp add: compare_chunk_column_def r chunk_val_def row_val_def Let_def compare_string_refs_bytes)
next
  case False
  then show ?thesis using assms(1,2)
    by (cases "col_kind c")
      (auto simp: compare_chunk_column_def chunk_val_def row_val_def Let_def plain_slots_def get_int32_def get_int64_def
        get_double_def get_cell_def)
qed

lemma CompareChunkRowToStoredRow_key:
  assumes "schema_ok slots l" "plain_slots ch" "chunk_row_ok l ch i" "row_ok l (tdc_heap u) used row"
  shows "CompareChunkRowToStoredRow slots l keys ch i u row = key_compare keys (chunk_key l ch i) (row_key l (tdc_heap u) row)"
proof -
  have "compare_chunk_column (slots ! k) (columns l ! k) ch i u row =
      val_compare (chunk_val ch i (columns l ! k)) (row_val (tdc_heap u) row (columns l ! k))" if "k < column_count l" for k
  proof -
    have "slots ! k = unat (col_src_col_idx (columns l ! k))" "unat (col_src_col_idx (columns l ! k)) < N_SLOTS"
      using assms(1) that by (auto simp: schema_ok_def column_count_def list_all_length)
    then show ?thesis
      using compare_chunk_column_val [OF assms(2), of "columns l ! k" i u used row] assms(3,4) that
      by (auto simp: chunk_row_ok_def row_ok_def row_refs_ok_def column_count_def)
  qed
  then have "(\<lambda>key. if column_count l \<le> sk_col_idx key then 0
      else compare_chunk_column (slots ! sk_col_idx key) (columns l ! sk_col_idx key) ch i u row) =
    (\<lambda>key. if length (chunk_key l ch i) \<le> sk_col_idx key then 0
      else val_compare (chunk_key l ch i ! sk_col_idx key) (row_key l (tdc_heap u) row ! sk_col_idx key))"
    by (auto simp: row_key_def chunk_key_def column_count_def)
  then show ?thesis unfolding CompareChunkRowToStoredRow_def key_compare_def by (rule arg_cong)
qed

section \<open>Keeping the best\<close>

text \<open>A buffer of at most \<open>N\<close> values: a value that finds it full replaces the worst one if it is better.\<close>

definition worst_index :: "('a \<Rightarrow> 'a \<Rightarrow> int) \<Rightarrow> 'a list \<Rightarrow> nat" where
  "worst_index cmp xs = fold (\<lambda>i worst. if 0 < cmp (xs ! i) (xs ! worst) then i else worst) [1..<length xs] 0"

definition drop_nth :: "nat \<Rightarrow> 'a list \<Rightarrow> 'a list" where
  "drop_nth i xs = take i xs @ drop (Suc i) xs"

definition keep_best :: "('a \<Rightarrow> 'a \<Rightarrow> int) \<Rightarrow> nat \<Rightarrow> 'a \<Rightarrow> 'a list \<Rightarrow> 'a list" where
  "keep_best cmp N x xs =
     (if length xs < N then xs @ [x]
      else let worst = worst_index cmp xs in if cmp x (xs ! worst) < 0 then drop_nth worst xs @ [x] else xs)"

text \<open>What the buffer should hold: as many of the values as fit, and none that was left out is better than a kept one.\<close>

definition best_of :: "('a \<Rightarrow> 'a \<Rightarrow> int) \<Rightarrow> nat \<Rightarrow> 'a multiset \<Rightarrow> 'a multiset \<Rightarrow> bool" where
  "best_of cmp N kept all \<longleftrightarrow> kept \<subseteq># all \<and> size kept = min N (size all) \<and>
     (\<forall>x\<in>#kept. \<forall>y\<in>#all - kept. cmp x y \<le> 0)"

lemma mset_drop_nth: "i < length xs \<Longrightarrow> mset xs = add_mset (xs ! i) (mset (drop_nth i xs))"
  using id_take_nth_drop [of i xs] by (metis drop_nth_def mset_append mset.simps(2) union_mset_add_mset_right)

context comparison
begin

lemma worst_index_prefix:
  assumes "\<forall>x\<in>set xs. ok x" "n \<le> length xs" "0 < n"
  shows "fold (\<lambda>i worst. if 0 < cmp (xs ! i) (xs ! worst) then i else worst) [1..<n] 0 < n \<and>
    (\<forall>j<n. cmp (xs ! j) (xs ! fold (\<lambda>i worst. if 0 < cmp (xs ! i) (xs ! worst) then i else worst) [1..<n] 0) \<le> 0)"
  using assms(2,3)
proof (induction n)
  case (Suc n)
  let ?w = "fold (\<lambda>i worst. if 0 < cmp (xs ! i) (xs ! worst) then i else worst) [1..<n] 0"
  show ?case
  proof (cases "n = 0")
    case True
    then have "0 < length xs" using Suc.prems by linarith
    then have "ok (xs ! 0)" using assms(1) nth_mem by blast
    then show ?thesis using True cmp_refl [of "xs ! 0"] by simp
  next
    case False
    then have w: "?w < n" "\<forall>j<n. cmp (xs ! j) (xs ! ?w) \<le> 0" using Suc by auto
    have ok: "ok (xs ! j)" if "j < Suc n" for j using assms(1) Suc.prems that by auto
    have fold: "fold (\<lambda>i worst. if 0 < cmp (xs ! i) (xs ! worst) then i else worst) [1..<Suc n] 0 =
        (if 0 < cmp (xs ! n) (xs ! ?w) then n else ?w)" using False by simp
    show ?thesis
    proof (cases "0 < cmp (xs ! n) (xs ! ?w)")
      case True
      then have "cmp (xs ! ?w) (xs ! n) \<le> 0" using flip [OF ok [of ?w] ok [of n]] w(1) by simp
      then have "cmp (xs ! j) (xs ! n) \<le> 0" if "j < n" for j
        using le_trans [OF ok [of j] ok [of ?w] ok [of n]] w that by simp
      then show ?thesis unfolding fold using True cmp_refl [OF ok [of n]] by (auto simp: less_Suc_eq)
    next
      case False
      then show ?thesis unfolding fold using w by (auto simp: less_Suc_eq)
    qed
  qed
qed simp

lemma worst_index_worst:
  assumes "\<forall>x\<in>set xs. ok x" "xs \<noteq> []"
  shows "worst_index cmp xs < length xs" "x \<in> set xs \<Longrightarrow> cmp x (xs ! worst_index cmp xs) \<le> 0"
  using worst_index_prefix [OF assms(1) order_refl] assms(2) by (auto simp: worst_index_def in_set_conv_nth)

lemma best_of_full:
  assumes all: "\<forall>y\<in>#all. ok y" and x: "ok x" and best: "best_of cmp N (mset xs) all" and xs: "length xs = N" "xs \<noteq> []"
  shows "best_of cmp N (mset (keep_best cmp N x xs)) (add_mset x all)"
proof -
  let ?w = "xs ! worst_index cmp xs"
  have sub: "mset xs \<subseteq># all" "\<forall>k\<in>set xs. \<forall>y\<in>#all - mset xs. cmp k y \<le> 0" "N \<le> size all"
    using best xs by (auto simp: best_of_def min_def split: if_splits)
  have ok: "\<forall>k\<in>set xs. ok k" "\<forall>y\<in>#all - mset xs. ok y" using sub(1) all by (auto dest: mset_subset_eqD in_diffD)
  note w = worst_index_worst [OF ok(1) xs(2)]
  obtain R where R: "all = mset xs + R" using sub(1) by (auto simp: mset_subset_eq_exists_conv)
  have w_in: "?w \<in> set xs" using w(1) by simp
  show ?thesis
  proof (cases "cmp x ?w < 0")
    case True
    define ys where "ys = drop_nth (worst_index cmp xs) xs"
    have ys: "mset xs = add_mset ?w (mset ys)" using mset_drop_nth [OF w(1)] by (simp add: ys_def)
    have kept: "keep_best cmp N x xs = ys @ [x]" using True xs(1) by (simp add: keep_best_def ys_def)
    have left: "add_mset x all - mset (ys @ [x]) = add_mset ?w (all - mset xs)"
      by (simp add: R ys)
    have "cmp k y \<le> 0" if k: "k \<in># mset (ys @ [x])" and y: "y \<in># add_mset ?w (all - mset xs)" for k y
    proof -
      have kw: "cmp k ?w \<le> 0" and ok_k: "ok k" using k True w(2) x ok(1) by (auto simp: arg_cong [OF ys, of set_mset, simplified])
      have wy: "cmp ?w y \<le> 0" using y sub(2) w_in cmp_refl ok(1) by auto
      show ?thesis using le_trans [OF ok_k _ _ kw wy] ok y w_in by auto
    qed
    moreover have "size (mset (ys @ [x])) = N" using xs(1) arg_cong [OF ys, of size] by simp
    moreover have "mset (ys @ [x]) \<subseteq># add_mset x all"
      by (simp add: R ys)
    ultimately show ?thesis using sub(3) unfolding best_of_def kept left by simp
  next
    case False
    then have wx: "cmp ?w x \<le> 0" using flip [of ?w x] ok(1) w_in x by auto
    have left: "add_mset x all - mset xs = add_mset x (all - mset xs)" by (simp add: R)
    have "cmp k x \<le> 0" if "k \<in> set xs" for k using le_trans [OF _ _ x w(2) [OF that] wx] ok(1) that w_in by blast
    then show ?thesis
      using False xs sub unfolding best_of_def by (auto simp: keep_best_def left Let_def intro: subset_mset.order_trans)
  qed
qed

lemma best_of_add:
  assumes "\<forall>y\<in>#all. ok y" "ok x" "best_of cmp N (mset xs) all" "0 < N"
  shows "best_of cmp N (mset (keep_best cmp N x xs)) (add_mset x all)"
proof (cases "length xs < N")
  case True
  then have "mset xs = all" using assms(3) by (auto simp: best_of_def mset_subset_size subset_mset.le_less min_def dest!: mset_subset_size split: if_splits)
  then show ?thesis using True by (auto simp: best_of_def keep_best_def)
next
  case False
  then have "length xs = N" using assms(3) by (simp add: best_of_def)
  then show ?thesis using best_of_full [OF assms(1-3)] assms(4) by auto
qed

end

section \<open>The sort of the library\<close>

text \<open>
  The standard asks of the comparison of \<^verbatim>\<open>std::sort\<close> that it be a strict weak order on the elements; the result is
  then some permutation in which no element is less than an earlier one. Equal elements may come in any order.
\<close>

definition strict_weak :: "('a \<Rightarrow> 'a \<Rightarrow> bool) \<Rightarrow> 'a set \<Rightarrow> bool" where
  "strict_weak lt S \<longleftrightarrow>
     (\<forall>a\<in>S. \<not> lt a a) \<and> (\<forall>a\<in>S. \<forall>b\<in>S. \<forall>c\<in>S. lt a b \<longrightarrow> lt b c \<longrightarrow> lt a c) \<and>
     (\<forall>a\<in>S. \<forall>b\<in>S. \<forall>c\<in>S. \<not> lt a b \<longrightarrow> \<not> lt b c \<longrightarrow> \<not> lt a c)"

lemma strict_weak_cong: "(\<And>a b. a \<in> S \<Longrightarrow> b \<in> S \<Longrightarrow> f a b = g a b) \<Longrightarrow> strict_weak f S = strict_weak g S"
  by (simp add: strict_weak_def)

definition std_sort_ok :: "((nat \<Rightarrow> nat \<Rightarrow> bool) \<Rightarrow> nat list \<Rightarrow> nat list) \<Rightarrow> bool" where
  "std_sort_ok std_sort \<longleftrightarrow>
     (\<forall>lt xs. strict_weak lt (set xs) \<longrightarrow>
        mset (std_sort lt xs) = mset xs \<and> sorted_wrt (\<lambda>a b. \<not> lt b a) (std_sort lt xs))"

text \<open>Insertion sort is such a sort.\<close>

fun insert_by :: "('a \<Rightarrow> 'a \<Rightarrow> bool) \<Rightarrow> 'a \<Rightarrow> 'a list \<Rightarrow> 'a list" where
  "insert_by lt x [] = [x]"
| "insert_by lt x (y # ys) = (if lt y x then y # insert_by lt x ys else x # y # ys)"

definition insertion_sort :: "('a \<Rightarrow> 'a \<Rightarrow> bool) \<Rightarrow> 'a list \<Rightarrow> 'a list" where
  "insertion_sort lt xs = foldr (insert_by lt) xs []"

lemma mset_insert_by [simp]: "mset (insert_by lt x ys) = add_mset x (mset ys)"
  by (induction ys) auto

lemma set_insert_by [simp]: "set (insert_by lt x ys) = insert x (set ys)"
  by (induction ys) auto

lemma strict_weak_asym: "strict_weak lt S \<Longrightarrow> a \<in> S \<Longrightarrow> b \<in> S \<Longrightarrow> lt a b \<Longrightarrow> \<not> lt b a"
  unfolding strict_weak_def by blast

lemma strict_weak_leq_trans: "strict_weak lt S \<Longrightarrow> a \<in> S \<Longrightarrow> b \<in> S \<Longrightarrow> c \<in> S \<Longrightarrow> \<not> lt a b \<Longrightarrow> \<not> lt b c \<Longrightarrow> \<not> lt a c"
  unfolding strict_weak_def by blast

lemma sorted_insert_by:
  assumes "strict_weak lt S" "insert x (set ys) \<subseteq> S" "sorted_wrt (\<lambda>a b. \<not> lt b a) ys"
  shows "sorted_wrt (\<lambda>a b. \<not> lt b a) (insert_by lt x ys)"
  using assms(2,3)
proof (induction ys)
  case (Cons y ys)
  have S: "x \<in> S" "y \<in> S" "set ys \<subseteq> S" using Cons.prems(1) by auto
  show ?case
  proof (cases "lt y x")
    case True
    then show ?thesis using Cons S strict_weak_asym [OF assms(1) S(2,1)] by simp
  next
    case False
    then have "\<not> lt z x" if "z \<in> set ys" for z
      using strict_weak_leq_trans [OF assms(1) _ S(2,1), of z] that S(3) Cons.prems(2) by auto
    then show ?thesis using False Cons.prems(2) by simp
  qed
qed simp

lemma insertion_sort_ok: "std_sort_ok insertion_sort"
proof -
  have "mset (insertion_sort lt xs) = mset xs \<and> sorted_wrt (\<lambda>a b. \<not> lt b a) (insertion_sort lt xs)"
    if "strict_weak lt S" "set xs \<subseteq> S" for lt S and xs :: "nat list"
    using that(2)
  proof (induction xs)
    case (Cons x xs)
    then have IH: "mset (insertion_sort lt xs) = mset xs" "sorted_wrt (\<lambda>a b. \<not> lt b a) (insertion_sort lt xs)" by auto
    have "set (insertion_sort lt xs) = set xs" using IH(1) by (rule mset_eq_setD)
    then show ?case
      using sorted_insert_by [OF that(1), of x "insertion_sort lt xs"] IH Cons.prems by (simp add: insertion_sort_def)
  qed (simp add: insertion_sort_def)
  then show ?thesis unfolding std_sort_ok_def by blast
qed

text \<open>A comparison gives a strict weak order, also through an index.\<close>

context comparison
begin

lemma strict_weak_index:
  assumes "\<And>i. i \<in> S \<Longrightarrow> ok (f i)"
  shows "strict_weak (\<lambda>i j. cmp (f i) (f j) < 0) S"
  unfolding strict_weak_def
proof (intro conjI ballI impI)
  fix a assume "a \<in> S"
  then show "\<not> cmp (f a) (f a) < 0" using cmp_refl assms by simp
next
  fix a b c assume S: "a \<in> S" "b \<in> S" "c \<in> S"
  note ok = assms [OF S(1)] assms [OF S(2)] assms [OF S(3)]
  show "cmp (f a) (f c) < 0" if "cmp (f a) (f b) < 0" "cmp (f b) (f c) < 0"
    using less_le_trans [OF ok that(1)] that(2) by simp
  show "\<not> cmp (f a) (f c) < 0" if "\<not> cmp (f a) (f b) < 0" "\<not> cmp (f b) (f c) < 0"
    using le_trans [OF ok(3,2,1)] flip [OF ok(1,2)] flip [OF ok(2,3)] flip [OF ok(1,3)] that by linarith
qed

end

end
