(* ===== verification/RowStore.thy ===== *)
theory RowStore
  imports RowOrder
begin

text \<open>
  Appending rows to a collection, seen on keys: a collection is the list of its rows' keys, and appending a chunk row or
  a copy of a row of another collection adds that row's key at the end. The sort and the top-N operator, which keep their
  rows in such collections, share these lemmas.
\<close>

section \<open>Operations\<close>

text \<open>Copying the columns of a stored row, with the message of the operator that copies.\<close>

definition copy_stored_column ::
  "string \<Rightarrow> tuple_data_collection \<Rightarrow> u8 list \<Rightarrow> tdc_column_desc \<Rightarrow> u8 list \<times> tuple_data_collection \<Rightarrow>
   (u8 list \<times> tuple_data_collection) result" where
  "copy_stored_column err src_tdc src_row col st =
     (let (dst_row, dst_tdc) = st; off = unat (col_offset col)
      in if col_kind col \<noteq> STRING_REF
         then Inr (mem_write off (mem_read off (unat (col_width col)) src_row) dst_row, dst_tdc)
         else let src_ref = read_string_ref off src_row
              in case TupleDataCollectionStoreStringBytes dst_tdc (VecStringRefDataPtr src_ref (Some (tdc_heap src_tdc))) (ref_len src_ref) of
                   (ok, dst_ref, dst_tdc') \<Rightarrow>
                     if ok then Inr (write_string_ref off dst_ref dst_row, dst_tdc') else Inl (Elog err))"

text \<open>AppendRow followed by a write of the new row.\<close>

definition append_with ::
  "string \<Rightarrow> (u8 list \<times> tuple_data_collection \<Rightarrow> (u8 list \<times> tuple_data_collection) result) \<Rightarrow> tuple_data_collection \<Rightarrow>
   tuple_data_collection result" where
  "append_with err put tdc =
     (let (idx, tdc) = TupleDataCollectionAppendRow tdc
      in if idx = TDC_INVALID_ROW_INDEX then Inl (Elog err)
         else rbind (put (TupleDataCollectionGetRow tdc idx, tdc)) (\<lambda>(row, tdc). Inr (set_row idx row tdc)))"

definition scatter_row :: "tuple_data_layout \<Rightarrow> data_chunk \<Rightarrow> nat \<Rightarrow> u8 list \<times> tuple_data_collection \<Rightarrow> (u8 list \<times> tuple_data_collection) result" where
  "scatter_row layout chunk row_idx st =
     rbind (Scatter layout chunk row_idx (fst st, Some (snd st))) (\<lambda>(row, tdc). Inr (row, the tdc))"

section \<open>The keys of a collection\<close>

definition stored_keys :: "tuple_data_layout \<Rightarrow> tuple_data_collection \<Rightarrow> gval list list" where
  "stored_keys l t = map (key_of l t) [0..<tdc_row_count t]"

lemma length_stored_keys [simp]: "length (stored_keys l t) = tdc_row_count t"
  by (simp add: stored_keys_def)

lemma nth_stored_keys: "i < tdc_row_count t \<Longrightarrow> stored_keys l t ! i = key_of l t i"
  by (simp add: stored_keys_def)

lemma key_kinds: "map val_kind (row_key l heap row) = map col_kind (columns l)" "map val_kind (chunk_key l ch i) = map col_kind (columns l)"
  by (auto simp: row_key_def chunk_key_def row_val_def chunk_val_def Let_def split: tdc_column_kind.splits)

lemma rows_ok_Init:
  assumes "layout_ok l" "cap < 2 ^ 32" "hc < 2 ^ 32"
  shows "rows_ok l (TupleDataCollectionInit cap (unat (layout_row_width l)) hc)"
    and "stored_keys l (TupleDataCollectionInit cap (unat (layout_row_width l)) hc) = []"
  using tdc_ok_Init [OF assms(2,3)] by (simp_all add: rows_ok_def stored_keys_def TupleDataCollectionInit_def)

text \<open>The heap bytes that a stored row's strings take, and what the code computes for them.\<close>

definition row_need :: "tuple_data_layout \<Rightarrow> u8 list \<Rightarrow> nat" where
  "row_need l row = sum_list (map (copy_need row) (columns l))"

text \<open>The frame of an append: one more row, the heap grown by \<open>need\<close>.\<close>

definition appended :: "tuple_data_layout \<Rightarrow> gval list \<Rightarrow> nat \<Rightarrow> tuple_data_collection \<Rightarrow> tuple_data_collection \<Rightarrow> bool" where
  "appended l k need t t' \<longleftrightarrow>
     rows_ok l t' \<and> stored_keys l t' = stored_keys l t @ [k] \<and> tdc_row_capacity t' = tdc_row_capacity t \<and>
     tdc_heap_capacity t' = tdc_heap_capacity t \<and> tdc_heap_used t' = tdc_heap_used t + need"

lemma appended_count: "appended l k need t t' \<Longrightarrow> tdc_row_count t' = Suc (tdc_row_count t)"
  unfolding appended_def by (metis length_stored_keys length_append_singleton)

lemma append_with_ok:
  assumes l: "layout_ok l" and t: "rows_ok l t" and cap: "tdc_row_count t < tdc_row_capacity t"
    and room: "need \<le> tdc_heap_capacity t - tdc_heap_used t"
    and wr: "\<And>t1. tdc_ok t1 \<Longrightarrow> tdc_heap_capacity t1 = tdc_heap_capacity t \<Longrightarrow> tdc_heap_used t1 = tdc_heap_used t \<Longrightarrow>
      \<exists>row u. put (replicate (unat (layout_row_width l)) 0, t1) = Inr (row, u) \<and> row_ok l (tdc_heap u) (tdc_heap_used u) row \<and>
        row_key l (tdc_heap u) row = k \<and> tdc_ok u \<and> tdc_ext t1 u \<and> tdc_heap_used u = tdc_heap_used t1 + need"
  obtains t' where "append_with err put t = Inr t'" "appended l k need t t'"
proof -
  have ok: "tdc_ok t" using t by (simp add: rows_ok_def)
  let ?t1 = "t\<lparr>tdc_row_count := tdc_row_count t + 1\<rparr>" and ?g = "tdc_row_count t"
  have app: "TupleDataCollectionAppendRow t = (?g, ?t1)"
    using AppendRow_index [OF ok] cap by (cases "TupleDataCollectionAppendRow t") auto
  have t1: "tdc_ok ?t1" using tdc_ok_AppendRow [OF ok app] .
  obtain row u where u: "put (replicate (unat (layout_row_width l)) 0, ?t1) = Inr (row, u)"
    "row_ok l (tdc_heap u) (tdc_heap_used u) row" "row_key l (tdc_heap u) row = k" "tdc_ok u" "tdc_ext ?t1 u"
    "tdc_heap_used u = tdc_heap_used t + need"
    using wr [OF t1] by auto
  have zero: "TupleDataCollectionGetRow ?t1 ?g = replicate (unat (layout_row_width l)) 0"
    using t cap by (simp add: rows_ok_def TupleDataCollectionGetRow_def)
  have same: "tdc_rows u = tdc_rows t" "tdc_row_count u = Suc ?g" "tdc_row_width u = tdc_row_width t"
    "tdc_row_capacity u = tdc_row_capacity t" "tdc_heap_capacity u = tdc_heap_capacity t"
    using u(5) by (simp_all add: tdc_ext_def)
  let ?t' = "set_row ?g row u"
  have len: "?g < length (tdc_rows t)" using ok cap by (simp add: tdc_ok_def)
  have old: "row_ok l (tdc_heap u) (tdc_heap_used u) (tdc_rows t ! r)" "row_key l (tdc_heap u) (tdc_rows t ! r) = key_of l t r"
    if "r < ?g" for r
  proof -
    have "row_ok l (tdc_heap ?t1) (tdc_heap_used ?t1) (tdc_rows t ! r)" using t that by (simp add: rows_ok_def)
    from tdc_ext_row_ok [OF u(5,4) this] tdc_ext_row(2) [OF u(5,4)] this
    show "row_ok l (tdc_heap u) (tdc_heap_used u) (tdc_rows t ! r)" "row_key l (tdc_heap u) (tdc_rows t ! r) = key_of l t r"
      by (auto simp: row_ok_def key_of_def)
  qed
  have "tdc_ok ?t'" using tdc_ok_set_row [OF u(4)] u(2) t same by (simp add: row_ok_def rows_ok_def)
  then have "rows_ok l ?t'"
    using t u(2) old(1) same len by (auto simp: rows_ok_def set_row_def nth_list_update less_Suc_eq)
  moreover have "stored_keys l ?t' = stored_keys l t @ [k]"
    using old(2) u(3) same len by (auto simp: stored_keys_def set_row_def key_of_def nth_list_update)
  ultimately have "appended l k need t ?t'" using same u(6) by (simp add: appended_def set_row_def)
  moreover have "append_with err put t = Inr ?t'"
    using cap ok u(1) zero app AppendRow_valid [OF ok app] by (simp add: append_with_def Let_def)
  ultimately show thesis by (rule that [rotated])
qed

lemma zero_row: "layout_ok l \<Longrightarrow> length (replicate (unat (layout_row_width l)) (0 :: u8)) = unat (layout_row_width l)"
  "layout_ok l \<Longrightarrow> row_pad_ok l (replicate (unat (layout_row_width l)) 0)"
  using zero_row_ok by (auto simp: row_ok_def)

lemma append_scatter:
  assumes "layout_ok l" "aggregates l = []" "rows_ok l t" "tdc_row_count t < tdc_row_capacity t" "chunk_row_ok l ch i"
    and "key_need l ch i \<le> tdc_heap_capacity t - tdc_heap_used t"
  obtains t' where "append_with err (scatter_row l ch i) t = Inr t'" "appended l (chunk_key l ch i) (key_need l ch i) t t'"
proof (rule append_with_ok [OF assms(1,3,4,6)])
  fix t1 assume t1: "tdc_ok t1" "tdc_heap_capacity t1 = tdc_heap_capacity t" "tdc_heap_used t1 = tdc_heap_used t"
  obtain row u where "ScatterGroupColumns l ch i (replicate (unat (layout_row_width l)) 0, Some t1) = Inr (row, Some u)"
    "row_ok l (tdc_heap u) (tdc_heap_used u) row" "row_key l (tdc_heap u) row = chunk_key l ch i" "tdc_ok u" "tdc_ext t1 u"
    "tdc_heap_used u = tdc_heap_used t1 + key_need l ch i"
    by (rule ScatterGroupColumns_ok [OF assms(1,5) t1(1) zero_row [OF assms(1)]]) (use assms(6) t1 in auto)
  then show "\<exists>row u. scatter_row l ch i (replicate (unat (layout_row_width l)) 0, t1) = Inr (row, u) \<and>
      row_ok l (tdc_heap u) (tdc_heap_used u) row \<and> row_key l (tdc_heap u) row = chunk_key l ch i \<and> tdc_ok u \<and> tdc_ext t1 u \<and>
      tdc_heap_used u = tdc_heap_used t1 + key_need l ch i"
    using assms(2) by (auto simp: scatter_row_def Scatter_def)
qed (rule that)

lemma copy_stored_column_group:
  "CopyGroupColumn (Some s) row c st = Inr st' \<Longrightarrow> copy_stored_column err s row c st = Inr st'"
  by (auto simp: CopyGroupColumn_def copy_stored_column_def heap_base_def Let_def split: if_splits prod.splits)

lemma column_step_copy_stored:
  assumes "layout_ok l" "row_ok l (tdc_heap s) used src_row"
  shows "column_step l (row_val (tdc_heap s) src_row) (copy_need src_row) (\<lambda>t. t) (copy_stored_column err s src_row)"
  using column_step_copy [OF assms] copy_stored_column_group unfolding column_step_def by (metis (no_types, lifting))

lemma append_stored:
  assumes "layout_ok l" "rows_ok l t" "tdc_row_count t < tdc_row_capacity t" "row_ok l (tdc_heap s) used row"
    and "row_need l row \<le> tdc_heap_capacity t - tdc_heap_used t"
  obtains t' where "append_with err (fold_res (copy_stored_column err' s row) (columns l)) t = Inr t'"
    "appended l (row_key l (tdc_heap s) row) (row_need l row) t t'"
proof (rule append_with_ok [OF assms(1-3,5)])
  fix t1 assume t1: "tdc_ok t1" "tdc_heap_capacity t1 = tdc_heap_capacity t" "tdc_heap_used t1 = tdc_heap_used t"
  have room: "sum_list (map (copy_need row) (columns l)) \<le> tdc_heap_capacity t1 - tdc_heap_used t1"
    using assms(5) t1 by (simp add: row_need_def)
  obtain row' u where "fold_res (copy_stored_column err' s row) (columns l) (replicate (unat (layout_row_width l)) 0, t1) = Inr (row', u)"
    "row_ok l (tdc_heap u) (tdc_heap_used u) row'" "row_key l (tdc_heap u) row' = map (row_val (tdc_heap s) row) (columns l)"
    "tdc_ok u" "tdc_ext t1 u" "tdc_heap_used u = tdc_heap_used t1 + sum_list (map (copy_need row) (columns l))"
    by (rule column_loop [OF assms(1) column_step_copy_stored [OF assms(1,4)] t1(1) zero_row [OF assms(1)] room]) (rule that; assumption)
  then show "\<exists>row' u. fold_res (copy_stored_column err' s row) (columns l) (replicate (unat (layout_row_width l)) 0, t1) = Inr (row', u) \<and>
      row_ok l (tdc_heap u) (tdc_heap_used u) row' \<and> row_key l (tdc_heap u) row' = row_key l (tdc_heap s) row \<and> tdc_ok u \<and>
      tdc_ext t1 u \<and> tdc_heap_used u = tdc_heap_used t1 + row_need l row"
    unfolding row_need_def row_key_def by blast
qed (rule that)

section \<open>What the code computes as a row's need\<close>

lemma copy_need_bound: "copy_need row c < 2 ^ 32"
  using unat_less_u32 by (simp add: copy_need_def HeapBytesNeededForStringLength_def)

lemma row_need_bound:
  assumes "layout_ok l"
  shows "row_need l row < 2 ^ 64"
proof -
  have "sum_list (map (copy_need row) cs) \<le> length cs * 2 ^ 32" for cs
  proof (induction cs)
    case (Cons c cs)
    then show ?case using copy_need_bound [of row c] by simp
  qed simp
  from this [of "columns l"] show ?thesis using assms by (simp add: row_need_def layout_ok_def)
qed

lemma RequiredHeapBytesForRow_need:
  assumes "layout_ok l"
  shows "TupleDataCollectionRequiredHeapBytesForRow l (Some t) row = Inr (min (row_need l row) UINT32_MAX)"
proof -
  have "fold_res (\<lambda>c required.
        if col_kind c \<noteq> STRING_REF then Inr required
        else let ref = read_string_ref (unat (col_offset c)) row
             in if ref_len ref \<noteq> 0 \<and> VecStringRefDataPtr ref (heap_base (Some t)) = None
                then Inl (Elog ''STRING_REF row-store copy missing heap backing'')
                else Inr (wrap64 (required + HeapBytesNeededForStringLength (unat (ref_len ref))))) cs r0 =
      Inr (r0 + sum_list (map (copy_need row) cs))"
    if "r0 + sum_list (map (copy_need row) cs) < 2 ^ 64" for cs r0
    using that
  proof (induction cs arbitrary: r0)
    case (Cons c cs)
    show ?case
    proof (cases "col_kind c = STRING_REF")
      case True
      then have "wrap64 (r0 + HeapBytesNeededForStringLength (unat (ref_len (read_string_ref (unat (col_offset c)) row)))) =
          r0 + copy_need row c" using Cons.prems by (simp add: copy_need_def)
      then show ?thesis using True Cons.IH [of "r0 + copy_need row c"] Cons.prems by (simp add: heap_base_def Let_def)
    next
      case False
      then show ?thesis using Cons.IH [of r0] Cons.prems by (simp add: copy_need_def)
    qed
  qed simp
  then show ?thesis
    using row_need_bound [OF assms, of row] by (simp add: TupleDataCollectionRequiredHeapBytesForRow_def row_need_def min_def)
qed

text \<open>The need is a matter of the key.\<close>

fun val_need :: "gval \<Rightarrow> nat" where
  "val_need (GString bs) = HeapBytesNeededForStringLength (length bs)"
| "val_need _ = 0"

definition vals_need :: "gval list \<Rightarrow> nat" where
  "vals_need k = sum_list (map val_need k)"

lemma row_need_key: "row_ok l heap used row \<Longrightarrow> row_need l row = vals_need (row_key l heap row)"
  unfolding row_need_def vals_need_def row_key_def map_map
  by (rule arg_cong [where f = sum_list], rule map_cong [OF refl])
    (auto simp: copy_need_def row_val_def Let_def row_ok_def row_refs_ok_def length_ref_string split: tdc_column_kind.splits)

lemma key_need_key: "chunk_row_ok l ch i \<Longrightarrow> key_need l ch i = vals_need (chunk_key l ch i)"
  unfolding key_need_def vals_need_def chunk_key_def map_map
  by (rule arg_cong [where f = sum_list], rule map_cong [OF refl])
    (auto simp: string_need_def chunk_val_def Let_def chunk_row_ok_def length_ref_string split: tdc_column_kind.splits)

lemma stored_row_need: "rows_ok l t \<Longrightarrow> r < tdc_row_count t \<Longrightarrow> row_need l (tdc_rows t ! r) = vals_need (key_of l t r)"
  unfolding key_of_def by (rule row_need_key [of l "tdc_heap t" "tdc_heap_used t"]) (simp add: rows_ok_def)

lemma drop_nth_filter: "drop_nth i (map f [0..<n]) = map f (filter (\<lambda>j. j \<noteq> i) [0..<n])"
proof (cases "i < n")
  case True
  then have "[0..<n] = [0..<i] @ i # [Suc i..<n]" using upt_add_eq_append [of 0 i "n - i"] by (simp add: upt_conv_Cons)
  then show ?thesis using True by (simp add: drop_nth_def take_map drop_map filter_id_conv)
next
  case False
  then show ?thesis by (simp add: drop_nth_def filter_id_conv)
qed

lemma sum_list_le_length: "(\<And>x. x \<in> set xs \<Longrightarrow> f x \<le> (b :: nat)) \<Longrightarrow> sum_list (map f xs) \<le> length xs * b"
proof (induction xs)
  case (Cons x xs)
  have "f x \<le> b" "sum_list (map f xs) \<le> length xs * b" using Cons by auto
  then show ?case by simp
qed simp

text \<open>The loop that sums up the heap bytes of the rows that stay when one is replaced.\<close>

definition kept_rows_heap :: "tuple_data_layout \<Rightarrow> tuple_data_collection \<Rightarrow> nat \<Rightarrow> nat \<Rightarrow> nat result" where
  "kept_rows_heap layout tdc replace_row_idx start =
     fold_res (\<lambda>row_idx needed. if row_idx = replace_row_idx then Inr needed
         else rbind (TupleDataCollectionRequiredHeapBytesForRow layout (Some tdc) (TupleDataCollectionGetRow tdc row_idx))
                (\<lambda>bytes. Inr (wrap64 (needed + bytes)))) [0..<tdc_row_count tdc] start"

lemma kept_rows_heap_sum:
  assumes l: "layout_ok l" and t: "rows_ok l t" and key: "\<forall>r<tdc_row_count t. vals_need (key_of l t r) \<le> UINT32_MAX"
    and less: "start + sum_list (map (\<lambda>r. vals_need (key_of l t r)) (filter (\<lambda>r. r \<noteq> replace) [0..<tdc_row_count t])) < 2 ^ 64"
  shows "kept_rows_heap l t replace start =
    Inr (start + sum_list (map (\<lambda>r. vals_need (key_of l t r)) (filter (\<lambda>r. r \<noteq> replace) [0..<tdc_row_count t])))"
proof -
  let ?need = "\<lambda>n. sum_list (map (\<lambda>r. vals_need (key_of l t r)) (filter (\<lambda>r. r \<noteq> replace) [0..<n]))"
  have "fold_res (\<lambda>row_idx needed. if row_idx = replace then Inr needed
              else rbind (TupleDataCollectionRequiredHeapBytesForRow l (Some t) (TupleDataCollectionGetRow t row_idx))
                     (\<lambda>bytes. Inr (wrap64 (needed + bytes)))) [0..<n] start = Inr (start + ?need n)"
    if "n \<le> tdc_row_count t" "start + ?need n < 2 ^ 64" for n
    using that
  proof (induction n)
    case (Suc n)
    have "row_need l (tdc_rows t ! n) = vals_need (key_of l t n)" using stored_row_need [OF t] Suc.prems by simp
    moreover have "vals_need (key_of l t n) \<le> UINT32_MAX" using key Suc.prems by simp
    moreover have "start + ?need n < 2 ^ 64" using Suc.prems(2) by (auto split: if_splits)
    moreover have "n \<noteq> replace \<Longrightarrow> start + ?need n + vals_need (key_of l t n) < 2 ^ 64"
      using Suc.prems(2) by (simp add: add.assoc)
    ultimately show ?case using Suc
      by (auto simp: fold_res_append RequiredHeapBytesForRow_need [OF l] TupleDataCollectionGetRow_def min_absorb1 add.assoc)
  qed simp
  then show ?thesis using less by (simp add: kept_rows_heap_def)
qed

section \<open>Copying rows between collections\<close>

text \<open>
  The operators copy stored rows with functions of their own; what they share is that a copy into a fresh row, with room
  for its strings, holds the same key.
\<close>

locale row_copy =
  fixes put :: "tuple_data_layout \<Rightarrow> tuple_data_collection \<Rightarrow> u8 list \<Rightarrow> u8 list \<times> tuple_data_collection \<Rightarrow>
    (u8 list \<times> tuple_data_collection) result"
  assumes put_row: "layout_ok l \<Longrightarrow> aggregates l = [] \<Longrightarrow> row_ok l (tdc_heap s) used row \<Longrightarrow> tdc_ok t \<Longrightarrow>
    row_need l row \<le> tdc_heap_capacity t - tdc_heap_used t \<Longrightarrow>
    \<exists>row' u. put l s row (replicate (unat (layout_row_width l)) 0, t) = Inr (row', u) \<and>
      row_ok l (tdc_heap u) (tdc_heap_used u) row' \<and> row_key l (tdc_heap u) row' = row_key l (tdc_heap s) row \<and> tdc_ok u \<and>
      tdc_ext t u \<and> tdc_heap_used u = tdc_heap_used t + row_need l row"
begin

lemma append_copy:
  assumes "layout_ok l" "aggregates l = []" "rows_ok l t" "tdc_row_count t < tdc_row_capacity t" "row_ok l (tdc_heap s) used row"
    and room: "row_need l row \<le> tdc_heap_capacity t - tdc_heap_used t"
  obtains t' where "append_with err (put l s row) t = Inr t'" "appended l (row_key l (tdc_heap s) row) (row_need l row) t t'"
proof (rule append_with_ok [OF assms(1,3,4) room])
  fix t1 assume t1: "tdc_ok t1" "tdc_heap_capacity t1 = tdc_heap_capacity t" "tdc_heap_used t1 = tdc_heap_used t"
  have "row_need l row \<le> tdc_heap_capacity t1 - tdc_heap_used t1" using room t1 by simp
  from put_row [OF assms(1,2,5) t1(1) this]
  show "\<exists>row' u. put l s row (replicate (unat (layout_row_width l)) 0, t1) = Inr (row', u) \<and>
      row_ok l (tdc_heap u) (tdc_heap_used u) row' \<and> row_key l (tdc_heap u) row' = row_key l (tdc_heap s) row \<and> tdc_ok u \<and>
      tdc_ext t1 u \<and> tdc_heap_used u = tdc_heap_used t1 + row_need l row" .
qed (rule that)

text \<open>The loop that copies the rows of a collection that satisfy a condition into an empty one.\<close>

lemma copied_rows:
  assumes l: "layout_ok l" "aggregates l = []" and t: "rows_ok l t" and t0: "rows_ok l t0" "tdc_row_count t0 = 0" "tdc_heap_used t0 = 0"
    and cap: "length (filter P [0..<n]) \<le> tdc_row_capacity t0"
    and heap: "sum_list (map (\<lambda>r. vals_need (key_of l t r)) (filter P [0..<n])) \<le> tdc_heap_capacity t0"
    and n: "n \<le> tdc_row_count t"
  shows "\<exists>t'. fold_res (\<lambda>r new_tdc. if P r then append_with err (put l t (TupleDataCollectionGetRow t r)) new_tdc else Inr new_tdc) [0..<n] t0 =
        Inr t' \<and>
      rows_ok l t' \<and> stored_keys l t' = map (key_of l t) (filter P [0..<n]) \<and>
      tdc_row_capacity t' = tdc_row_capacity t0 \<and> tdc_heap_capacity t' = tdc_heap_capacity t0 \<and>
      tdc_heap_used t' = sum_list (map (\<lambda>r. vals_need (key_of l t r)) (filter P [0..<n]))"
  using n cap heap
proof (induction n)
  case 0
  then show ?case using t0 by (simp add: stored_keys_def)
next
  case (Suc n)
  then obtain t' where t': "fold_res (\<lambda>r new_tdc. if P r then append_with err (put l t (TupleDataCollectionGetRow t r)) new_tdc else Inr new_tdc)
        [0..<n] t0 = Inr t'"
      "rows_ok l t'" "stored_keys l t' = map (key_of l t) (filter P [0..<n])"
      "tdc_row_capacity t' = tdc_row_capacity t0" "tdc_heap_capacity t' = tdc_heap_capacity t0"
      "tdc_heap_used t' = sum_list (map (\<lambda>r. vals_need (key_of l t r)) (filter P [0..<n]))"
    by auto
  show ?case
  proof (cases "P n")
    case False
    then show ?thesis using t' by (simp add: fold_res_append)
  next
    case True
    have count: "tdc_row_count t' < tdc_row_capacity t'"
      using Suc.prems(2) True t'(4) arg_cong [OF t'(3), of length] by simp
    have row: "row_ok l (tdc_heap t) (tdc_heap_used t) (tdc_rows t ! n)" using t Suc.prems(1) by (simp add: rows_ok_def)
    have need: "row_need l (tdc_rows t ! n) = vals_need (key_of l t n)"
      using stored_row_need [OF t] Suc.prems(1) by simp
    have "row_need l (tdc_rows t ! n) \<le> tdc_heap_capacity t' - tdc_heap_used t'"
      using Suc.prems(3) True t'(5,6) by (simp add: need)
    from append_copy [OF l t'(2) count row this] obtain u where
      u: "append_with err (put l t (tdc_rows t ! n)) t' = Inr u" "appended l (key_of l t n) (row_need l (tdc_rows t ! n)) t' u"
      unfolding key_of_def by metis
    then show ?thesis using t' True need by (auto simp: fold_res_append appended_def TupleDataCollectionGetRow_def)
  qed
qed

end

definition copy_row_columns ::
  "string \<Rightarrow> tuple_data_layout \<Rightarrow> tuple_data_collection \<Rightarrow> u8 list \<Rightarrow> u8 list \<times> tuple_data_collection \<Rightarrow>
   (u8 list \<times> tuple_data_collection) result" where
  "copy_row_columns err layout src_tdc src_row dst = fold_res (copy_stored_column err src_tdc src_row) (columns layout) dst"

lemma copy_row_columns_ok:
  assumes l: "layout_ok l" and src: "row_ok l (tdc_heap s) used row" and t: "tdc_ok t"
    and need: "row_need l row \<le> tdc_heap_capacity t - tdc_heap_used t"
  shows "\<exists>row' u. copy_row_columns err l s row (replicate (unat (layout_row_width l)) 0, t) = Inr (row', u) \<and>
      row_ok l (tdc_heap u) (tdc_heap_used u) row' \<and> row_key l (tdc_heap u) row' = row_key l (tdc_heap s) row \<and> tdc_ok u \<and>
      tdc_ext t u \<and> tdc_heap_used u = tdc_heap_used t + row_need l row"
proof -
  have room: "sum_list (map (copy_need row) (columns l)) \<le> tdc_heap_capacity t - tdc_heap_used t"
    using need by (simp add: row_need_def)
  obtain row' u where "fold_res (copy_stored_column err s row) (columns l) (replicate (unat (layout_row_width l)) 0, t) = Inr (row', u)"
    "row_ok l (tdc_heap u) (tdc_heap_used u) row'" "row_key l (tdc_heap u) row' = map (row_val (tdc_heap s) row) (columns l)"
    "tdc_ok u" "tdc_ext t u" "tdc_heap_used u = tdc_heap_used t + sum_list (map (copy_need row) (columns l))"
    by (rule column_loop [OF l column_step_copy_stored [OF l src] t zero_row [OF l] room]) (rule that; assumption)
  then show ?thesis unfolding row_need_def row_key_def copy_row_columns_def by blast
qed

interpretation column_copy: row_copy "copy_row_columns err" for err
  by unfold_locales (rule copy_row_columns_ok)

text \<open>With the aggregate states behind the columns, as the sort and the output sink copy them.\<close>

definition copy_row_aggregates :: "tuple_data_layout \<Rightarrow> u8 list \<Rightarrow> u8 list \<Rightarrow> u8 list" where
  "copy_row_aggregates layout src_row dst_row =
     fold (\<lambda>agg row. mem_write (unat (agg_offset agg)) (mem_read (unat (agg_offset agg)) (if agg_kind agg = AVG_NUMERIC then 16 else 8) src_row) row)
       (aggregates layout) dst_row"

definition CopyTdcRow ::
  "string \<Rightarrow> tuple_data_layout \<Rightarrow> tuple_data_collection \<Rightarrow> u8 list \<Rightarrow> u8 list \<times> tuple_data_collection \<Rightarrow>
   (u8 list \<times> tuple_data_collection) result" where
  "CopyTdcRow err layout src_tdc src_row dst =
     rbind (copy_row_columns err layout src_tdc src_row dst) (\<lambda>(row, tdc). Inr (copy_row_aggregates layout src_row row, tdc))"

interpretation tdc_copy: row_copy "CopyTdcRow err" for err
proof
  fix l and s t :: tuple_data_collection and used :: nat and row
  assume "layout_ok l" "aggregates l = []" "row_ok l (tdc_heap s) used row" "tdc_ok t" "row_need l row \<le> tdc_heap_capacity t - tdc_heap_used t"
  then show "\<exists>row' u. CopyTdcRow err l s row (replicate (unat (layout_row_width l)) 0, t) = Inr (row', u) \<and>
      row_ok l (tdc_heap u) (tdc_heap_used u) row' \<and> row_key l (tdc_heap u) row' = row_key l (tdc_heap s) row \<and> tdc_ok u \<and>
      tdc_ext t u \<and> tdc_heap_used u = tdc_heap_used t + row_need l row"
    using copy_row_columns_ok [of l s used row t err] by (auto simp: CopyTdcRow_def copy_row_aggregates_def)
qed

text \<open>A layout without strings lets the output sink copy the whole row at once.\<close>

definition CopyOutputRow ::
  "tuple_data_layout \<Rightarrow> tuple_data_collection \<Rightarrow> u8 list \<Rightarrow> u8 list \<times> tuple_data_collection \<Rightarrow> (u8 list \<times> tuple_data_collection) result" where
  "CopyOutputRow layout src_tdc src_row dst =
     (if \<not> LayoutHasStringColumns layout
      then Inr (mem_write 0 (mem_read 0 (unat (layout_row_width layout)) src_row) (fst dst), snd dst)
      else CopyTdcRow ''output TDC grow ran out of heap'' layout src_tdc src_row dst)"

interpretation output_copy: row_copy CopyOutputRow
proof
  fix l and s t :: tuple_data_collection and used :: nat and row
  assume a: "layout_ok l" "aggregates l = []" "row_ok l (tdc_heap s) used row" "tdc_ok t" "row_need l row \<le> tdc_heap_capacity t - tdc_heap_used t"
  show "\<exists>row' u. CopyOutputRow l s row (replicate (unat (layout_row_width l)) 0, t) = Inr (row', u) \<and>
      row_ok l (tdc_heap u) (tdc_heap_used u) row' \<and> row_key l (tdc_heap u) row' = row_key l (tdc_heap s) row \<and> tdc_ok u \<and>
      tdc_ext t u \<and> tdc_heap_used u = tdc_heap_used t + row_need l row"
  proof (cases "LayoutHasStringColumns l")
    case True
    then show ?thesis using tdc_copy.put_row [OF a] by (simp add: CopyOutputRow_def)
  next
    case False
    then have kinds: "c \<in> set (columns l) \<Longrightarrow> col_kind c \<noteq> STRING_REF" for c by (auto simp: LayoutHasStringColumns_def list_ex_iff)
    have len: "length row = unat (layout_row_width l)" using a(3) by (simp add: row_ok_def)
    have whole: "mem_write 0 (mem_read 0 (unat (layout_row_width l)) row) (replicate (unat (layout_row_width l)) 0) = row"
      using len by (simp add: mem_write_def mem_read_def)
    have "row_need l row = 0" using kinds by (auto simp: row_need_def copy_need_def intro!: sum_list_0)
    moreover have "row_key l (tdc_heap t) row = row_key l (tdc_heap s) row" "row_ok l (tdc_heap t) (tdc_heap_used t) row"
      using kinds a(3) by (auto simp: row_key_def row_val_def row_ok_def row_refs_ok_def Let_def split: tdc_column_kind.splits)
    ultimately show ?thesis using False whole a(4) by (simp add: CopyOutputRow_def)
  qed
qed

section \<open>The worst row\<close>

lemma fold_worst_cong:
  assumes "\<And>i j. i < n \<Longrightarrow> j < n \<Longrightarrow> (0 < (f i j :: int)) = (0 < (g i j :: int))" "m \<le> n" "0 < n"
  shows "fold (\<lambda>i w. if 0 < f i w then i else w) [1..<m] 0 = fold (\<lambda>i w. if 0 < g i w then i else w) [1..<m] 0 \<and>
    fold (\<lambda>i w. if 0 < g i w then i else w) [1..<m] 0 < n"
  using assms(2)
proof (induction m)
  case (Suc m)
  then show ?case using assms(1,3) by (cases m) auto
qed (use assms(3) in simp)

lemma FindWorstStoredRowIndex_key:
  assumes "rows_ok l t" "0 < tdc_row_count t"
  shows "FindWorstStoredRowIndex l keys t = worst_index (key_compare keys) (stored_keys l t)"
proof -
  have "CompareStoredRows l keys t (tdc_rows t ! i) t (tdc_rows t ! j) = key_compare keys (stored_keys l t ! i) (stored_keys l t ! j)"
    if "i < tdc_row_count t" "j < tdc_row_count t" for i j
    using CompareStoredRows_key [of l t "tdc_heap_used t" "tdc_rows t ! i" t "tdc_heap_used t" "tdc_rows t ! j" keys] assms(1) that
    by (simp add: rows_ok_def nth_stored_keys key_of_def)
  then show ?thesis
    using fold_worst_cong [of "tdc_row_count t" "\<lambda>i j. CompareStoredRows l keys t (tdc_rows t ! i) t (tdc_rows t ! j)"
        "\<lambda>i j. key_compare keys (stored_keys l t ! i) (stored_keys l t ! j)" "tdc_row_count t"] assms(2)
    by (simp add: FindWorstStoredRowIndex_def worst_index_def TupleDataCollectionGetRow_def)
qed

section \<open>Sorting the rows by their index\<close>

lemma sort_rows:
  assumes "std_sort_ok std_sort" and ok: "\<forall>k\<in>set (stored_keys l t). key_ok kinds keys k"
    and cmp: "\<And>i j. i < tdc_row_count t \<Longrightarrow> j < tdc_row_count t \<Longrightarrow> lt i j \<longleftrightarrow> key_compare keys (key_of l t i) (key_of l t j) < 0"
  shows "mset (std_sort lt [0..<tdc_row_count t]) = mset [0..<tdc_row_count t]"
    and "sorted_wrt (\<lambda>a b. key_compare keys a b \<le> 0) (map (key_of l t) (std_sort lt [0..<tdc_row_count t]))"
proof -
  let ?n = "tdc_row_count t"
  define indices where "indices = std_sort lt [0..<?n]"
  have ok: "key_ok kinds keys (key_of l t i)" if "i < ?n" for i using ok that by (auto simp: stored_keys_def)
  have "strict_weak (\<lambda>i j. key_compare keys (key_of l t i) (key_of l t j) < 0) (set [0..<?n])"
    by (rule key_order.strict_weak_index) (rule ok, simp)
  moreover have "strict_weak lt (set [0..<?n]) = strict_weak (\<lambda>i j. key_compare keys (key_of l t i) (key_of l t j) < 0) (set [0..<?n])"
    by (rule strict_weak_cong) (simp add: cmp)
  ultimately have "strict_weak lt (set [0..<?n])" by simp
  then have sorted: "mset indices = mset [0..<?n]" "sorted_wrt (\<lambda>i j. \<not> lt j i) indices"
    using assms(1) unfolding std_sort_ok_def indices_def by blast+
  have range: "set indices = {0..<?n}" using mset_eq_setD [OF sorted(1)] by simp
  have "sorted_wrt (\<lambda>i j. key_compare keys (key_of l t i) (key_of l t j) \<le> 0) indices"
  proof (rule sorted_wrt_mono_rel [OF _ sorted(2)])
    fix i j assume "i \<in> set indices" "j \<in> set indices" "\<not> lt j i"
    moreover from this have "i < ?n" "j < ?n" using range by auto
    ultimately show "key_compare keys (key_of l t i) (key_of l t j) \<le> 0"
      using cmp [of j i] key_order.flip [OF ok [of j] ok [of i]] by simp
  qed
  then show "sorted_wrt (\<lambda>a b. key_compare keys a b \<le> 0) (map (key_of l t) (std_sort lt [0..<?n]))"
    by (simp add: sorted_wrt_map indices_def)
  show "mset (std_sort lt [0..<?n]) = mset [0..<?n]" using sorted(1) by (simp add: indices_def)
qed

end
