(* ===== verification/GatherRows.thy ===== *)
theory GatherRows
  imports RowStore TaskRun
begin

text \<open>
  Reading stored rows back into chunks, as the sources over a sorted collection do: rows are gathered in the order of an
  index array until the output chunk is full. Gathering a row writes the cells that the join's copy loop writes for a build
  row, so its lemmas carry over; the keys of the chunk are the keys of the gathered rows.
\<close>

section \<open>The loop\<close>

fun gather_rows ::
  "(nat \<Rightarrow> bool) \<Rightarrow> tuple_data_layout \<Rightarrow> tuple_data_collection \<Rightarrow> nat list \<Rightarrow> nat \<times> data_chunk \<Rightarrow> (nat \<times> data_chunk) result" where
  "gather_rows cancel layout tdc [] (cursor, out) = Inr (cursor, out)"
| "gather_rows cancel layout tdc (row_idx # rest) (cursor, out) =
     (if chunk_count out < PIPELINE_DEFAULT_CHUNK_SIZE \<and> \<not> cancel cursor
      then rbind (Gather layout (Some tdc) (TupleDataCollectionGetRow tdc row_idx) (chunk_count out) out)
             (\<lambda>out. gather_rows cancel layout tdc rest (cursor + 1, out\<lparr>chunk_count := chunk_count out + 1\<rparr>))
      else Inr (cursor, out))"

section \<open>Gathering is copying a build row\<close>

fun kind_decode :: "tdc_column_kind \<Rightarrow> column_decode_kind" where
  "kind_decode INT32 = INT32_INT4" | "kind_decode INT64 = INT64_INT8" | "kind_decode DOUBLE = DOUBLE_FLOAT8"
| "kind_decode STRING_REF = DECODE_STRING_REF"

definition gather_desc :: "tdc_column_desc \<Rightarrow> resolved_column" where
  "gather_desc c = \<lparr>oc_side = RIGHT_SIDE, oc_input_chunk_slot = 0, oc_decode_kind = kind_decode (col_kind c),
     oc_output_chunk_slot = unat (col_src_col_idx c), oc_right_col = Some c\<rparr>"

definition no_nulls :: "data_chunk \<Rightarrow> bool" where
  "no_nulls ch \<longleftrightarrow> (\<forall>slot row. nulls ch slot row = 0)"

lemma kind_decode_inverse [simp]: "ColumnDecodeKindToTdcKind (kind_decode k) = Some k"
  by (cases k) simp_all

lemma set_null_zero: "no_nulls ch \<Longrightarrow> set_null slot row 0 ch = ch"
  unfolding no_nulls_def set_null_def by (cases ch) (simp add: fun_eq_iff)

lemma no_nulls_class [simp]:
  "no_nulls (ch\<lparr>int32_class := a\<rparr>) = no_nulls ch" "no_nulls (ch\<lparr>int64_class := b\<rparr>) = no_nulls ch"
  "no_nulls (ch\<lparr>double_class := c\<rparr>) = no_nulls ch" "no_nulls (ch\<lparr>string_class := d\<rparr>) = no_nulls ch"
  "no_nulls (ch\<lparr>string_arena := e\<rparr>) = no_nulls ch" "no_nulls (ch\<lparr>chunk_count := n\<rparr>) = no_nulls ch"
  by (simp_all add: no_nulls_def)

lemma store_string_nulls: "store_string_bytes p len ch = Inr (r, ch') \<Longrightarrow> no_nulls ch \<Longrightarrow> no_nulls ch'"
  by (auto simp: store_string_bytes_def Let_def split: option.splits if_splits)

lemma GatherColumn_copy:
  assumes "copy_join_column left i (Some t) (Some row) r (gather_desc c) out = Inr out'" "no_nulls out"
  shows "GatherColumn (Some t) row r c out = Inr out' \<and> no_nulls out'"
proof (cases "col_kind c = STRING_REF")
  case True
  let ?ref = "read_string_ref (unat (col_offset c)) row"
  let ?ptr = "VecStringRefDataPtr ?ref (Some (tdc_heap t))"
  obtain ref ch where st: "store_string_bytes ?ptr (ref_len ?ref) out = Inr (ref, ch)"
    "put_string (unat (col_src_col_idx c)) r 0 (ref, ch) = Inr out'" "\<not> (?ptr = None \<and> ref_len ?ref \<noteq> 0)"
    using assms(1) True by (auto simp: copy_join_column_def gather_desc_def heap_base_def Let_def res_simps split: if_splits)
  then show ?thesis
    using True assms(2) store_string_nulls [OF st(1)]
    by (auto simp: GatherColumn_def put_string_def heap_base_def Let_def set_null_zero)
next
  case False
  then show ?thesis using assms
    by (cases "col_kind c")
      (auto simp: copy_join_column_def gather_desc_def fixed_cell_def GatherColumn_def Let_def put_int32_def put_int64_def
        put_double_def set_null_zero)
qed

lemma Gather_copy:
  assumes "CopyResolvedJoinRow left i (Some t) (Some row) (map gather_desc (columns l)) out r = Inr out'" "no_nulls out" "aggregates l = []"
  shows "Gather l (Some t) row r out = Inr out' \<and> no_nulls out'"
proof -
  have "fold_res (GatherColumn (Some t) row r) cs out = Inr out' \<and> no_nulls out'"
    if "fold_res (copy_join_column left i (Some t) (Some row) r) (map gather_desc cs) out = Inr out'" "no_nulls out" for cs out
    using that
  proof (induction cs arbitrary: out)
    case (Cons c cs)
    obtain out1 where "copy_join_column left i (Some t) (Some row) r (gather_desc c) out = Inr out1"
      "fold_res (copy_join_column left i (Some t) (Some row) r) (map gather_desc cs) out1 = Inr out'"
      using Cons.prems(1) by (auto simp: res_simps)
    then show ?case using Cons.IH GatherColumn_copy Cons.prems(2) by fastforce
  qed simp
  then show ?thesis using assms by (simp add: Gather_def CopyResolvedJoinRow_def)
qed

section \<open>The keys of a chunk\<close>

definition chunk_keys :: "tuple_data_layout \<Rightarrow> data_chunk \<Rightarrow> gval list list" where
  "chunk_keys l ch = map (chunk_key l ch) [0..<chunk_count ch]"

text \<open>Each column has its slot of the chunk, and the strings are short enough for one.\<close>

definition gatherable :: "tuple_data_layout \<Rightarrow> bool" where
  "gatherable l \<longleftrightarrow> aggregates l = [] \<and> distinct (map (\<lambda>c. unat (col_src_col_idx c)) (columns l)) \<and>
     list_all (\<lambda>c. unat (col_src_col_idx c) < N_SLOTS) (columns l)"

definition short_strings :: "gval list \<Rightarrow> bool" where
  "short_strings k \<longleftrightarrow> list_all (\<lambda>v. case v of GString bs \<Rightarrow> length bs \<le> 65536 | _ \<Rightarrow> True) k"

lemma gatherable_cols: "gatherable l \<Longrightarrow> cols_ok (map gather_desc (columns l))"
  by (auto simp: gatherable_def cols_ok_def gather_desc_def o_def list_all_iff)

lemma out_cell_key:
  "no_nulls out \<Longrightarrow> map (out_cell out r) (map gather_desc (columns l)) = map (\<lambda>v. (0, Some v)) (chunk_key l out r)"
  by (auto simp: out_cell_def gather_desc_def chunk_key_def chunk_val_def no_nulls_def Let_def split: tdc_column_kind.splits)

lemma join_row_key:
  "join_row left (map gather_desc (columns l)) (i, Some t, Some row) = map (\<lambda>v. (0, Some v)) (row_key l (tdc_heap t) row)"
  by (auto simp: join_row_def join_cell_def gather_desc_def row_key_def row_val_def Let_def split: tdc_column_kind.splits)

lemma gather_match_ok:
  assumes "row_ok l (tdc_heap t) used row" "short_strings (row_key l (tdc_heap t) row)"
  shows "match_ok left (map gather_desc (columns l)) (i, Some t, Some row)"
proof -
  have "short_ref (tdc_heap t) used (read_string_ref (unat (col_offset c)) row)"
    if "c \<in> set (columns l)" "col_kind c = STRING_REF" for c
  proof -
    have "ref_ok (tdc_heap t) used (read_string_ref (unat (col_offset c)) row)"
      using assms(1) that by (auto simp: row_ok_def row_refs_ok_def)
    moreover have "length (ref_string (tdc_heap t) (read_string_ref (unat (col_offset c)) row)) \<le> 65536"
      using assms(2) that by (force simp: short_strings_def row_key_def row_val_def list_all_iff)
    ultimately show ?thesis by (simp add: short_ref_def length_ref_string)
  qed
  then show ?thesis by (auto simp: match_ok_def gather_desc_def split: tdc_column_kind.splits) (metis kind_decode.elims column_decode_kind.distinct)+
qed

text \<open>The chunk under construction.\<close>

definition gathered :: "tuple_data_layout \<Rightarrow> data_chunk \<Rightarrow> bool" where
  "gathered l out \<longleftrightarrow> filled (map gather_desc (columns l)) (chunk_count out) out \<and> no_nulls out"

lemma gathered_reset: "gathered l (chunk_reset out)"
proof -
  have "chunk_count (chunk_reset out) = 0" "string_arena (chunk_reset out) = []" "no_nulls (chunk_reset out)"
    by (simp_all add: no_nulls_def chunk_reset_def reset_lightweight_def clear_dictionaries_def)
  moreover have "plain_slots (chunk_reset out)"
    by (simp add: plain_slots_def chunk_reset_def reset_lightweight_def clear_dictionaries_def clear_dictionaries_class_def fold_clear)
  ultimately show ?thesis by (simp add: gathered_def filled_def)
qed

lemma Gather_key:
  assumes "gatherable l" "row_ok l (tdc_heap t) used row" "short_strings (row_key l (tdc_heap t) row)" "gathered l out"
    and "chunk_count out < PIPELINE_DEFAULT_CHUNK_SIZE"
  obtains out' where "Gather l (Some t) row (chunk_count out) out = Inr out'" "chunk_count out' = chunk_count out"
    "gathered l (out'\<lparr>chunk_count := chunk_count out + 1\<rparr>)"
    "chunk_keys l (out'\<lparr>chunk_count := chunk_count out + 1\<rparr>) = chunk_keys l out @ [row_key l (tdc_heap t) row]"
proof -
  let ?cols = "map gather_desc (columns l)" and ?n = "chunk_count out"
  have out: "filled ?cols ?n out" "no_nulls out" using assms(4) by (simp_all add: gathered_def)
  obtain out' where out': "CopyResolvedJoinRow empty_chunk 0 (Some t) (Some row) ?cols out ?n = Inr out'" "filled ?cols (Suc ?n) out'"
    "chunk_count out' = ?n" "first_rows ?cols (Suc ?n) out' = first_rows ?cols ?n out @ [join_row empty_chunk ?cols (0, Some t, Some row)]"
    by (rule copy_row [OF gatherable_cols [OF assms(1)] gather_match_ok [OF assms(2,3)] out(1) assms(5)])
  have gather: "Gather l (Some t) row ?n out = Inr out'" "no_nulls out'"
    using Gather_copy [OF out'(1) out(2)] assms(1) by (auto simp: gatherable_def)
  let ?z = "map (\<lambda>v. (0 :: u8, Some v))"
  have rows: "first_rows ?cols n ch = map ?z (map (chunk_key l ch) [0..<n])" if "no_nulls ch" for n ch
    using out_cell_key [OF that] by (simp add: first_rows_def)
  have "map ?z (map (chunk_key l out') [0..<Suc ?n]) = map ?z (map (chunk_key l out) [0..<?n] @ [row_key l (tdc_heap t) row])"
    using out'(4) unfolding rows [OF out(2)] rows [OF gather(2)] join_row_key by simp
  moreover have "inj ?z" by (rule inj_mapI) (simp add: inj_def)
  ultimately have keys: "map (chunk_key l out') [0..<Suc ?n] = map (chunk_key l out) [0..<?n] @ [row_key l (tdc_heap t) row]"
    by (rule map_injective)
  have same: "chunk_key l (out'\<lparr>chunk_count := m\<rparr>) r = chunk_key l out' r" for m r
    by (simp add: chunk_key_def chunk_val_def get_int32_def get_int64_def get_double_def get_string_ref_def cong: tdc_column_kind.case_cong)
  have "filled ?cols (Suc ?n) (out'\<lparr>chunk_count := m\<rparr>)" for m
    using out'(2) by (simp add: filled_def plain_slots_def cell_ok_def get_string_ref_def)
  then show thesis
    using that [OF gather(1) out'(3)] keys gather(2) unfolding gathered_def chunk_keys_def same by simp
qed

text \<open>One pass of the loop fills the chunk as far as rows are left.\<close>

definition readable :: "tuple_data_layout \<Rightarrow> tuple_data_collection \<Rightarrow> nat list \<Rightarrow> bool" where
  "readable l t rows \<longleftrightarrow> (\<forall>r\<in>set rows. r < tdc_row_count t \<and> short_strings (key_of l t r))"

lemma gather_rows_keys:
  assumes "gatherable l" "rows_ok l t"
  shows "readable l t rows \<Longrightarrow> gathered l out \<Longrightarrow> chunk_count out \<le> PIPELINE_DEFAULT_CHUNK_SIZE \<Longrightarrow>
    n = min (length rows) (PIPELINE_DEFAULT_CHUNK_SIZE - chunk_count out) \<Longrightarrow>
    \<exists>out'. gather_rows (\<lambda>_. False) l t rows (cursor, out) = Inr (cursor + n, out') \<and> gathered l out' \<and>
      chunk_count out' = chunk_count out + n \<and> chunk_keys l out' = chunk_keys l out @ map (key_of l t) (take n rows)"
proof (induction rows arbitrary: cursor out n)
  case Nil
  then show ?case by simp
next
  case (Cons r rows)
  show ?case
  proof (cases "chunk_count out < PIPELINE_DEFAULT_CHUNK_SIZE")
    case False
    then show ?thesis using Cons.prems by simp
  next
    case True
    have r: "row_ok l (tdc_heap t) (tdc_heap_used t) (tdc_rows t ! r)" "short_strings (row_key l (tdc_heap t) (tdc_rows t ! r))"
      using Cons.prems(1) assms(2) by (auto simp: readable_def rows_ok_def key_of_def)
    obtain out1 where out1: "Gather l (Some t) (tdc_rows t ! r) (chunk_count out) out = Inr out1" "chunk_count out1 = chunk_count out"
      "gathered l (out1\<lparr>chunk_count := chunk_count out + 1\<rparr>)"
      "chunk_keys l (out1\<lparr>chunk_count := chunk_count out + 1\<rparr>) = chunk_keys l out @ [key_of l t r]"
      unfolding key_of_def by (rule Gather_key [OF assms(1) r Cons.prems(2) True])
    have rest: "readable l t rows" using Cons.prems(1) by (simp add: readable_def)
    define m where "m = min (length rows) (PIPELINE_DEFAULT_CHUNK_SIZE - (chunk_count out + 1))"
    have n: "n = Suc m" using Cons.prems(4) True by (auto simp: m_def)
    obtain out' where "gather_rows (\<lambda>_. False) l t rows (cursor + 1, out1\<lparr>chunk_count := chunk_count out + 1\<rparr>) = Inr (cursor + 1 + m, out')"
      "gathered l out'" "chunk_count out' = chunk_count out + 1 + m"
      "chunk_keys l out' = (chunk_keys l out @ [key_of l t r]) @ map (key_of l t) (take m rows)"
      using Cons.IH [OF rest out1(3), of m "cursor + 1"] True out1(4) by (auto simp: m_def)
    then show ?thesis using True out1(1,2) n by (simp add: TupleDataCollectionGetRow_def)
  qed
qed

lemma finalized_keys [simp]: "key_of l (t\<lparr>tdc_finalized := v\<rparr>) = key_of l t"
  by (simp add: key_of_def fun_eq_iff)

lemma finalized_rows_ok: "rows_ok l t \<Longrightarrow> rows_ok l (t\<lparr>tdc_finalized := v\<rparr>)"
  by (simp add: rows_ok_def tdc_ok_def)

lemma vals_need_short: "vals_need k \<le> b \<Longrightarrow> b \<le> 65536 \<Longrightarrow> short_strings k"
proof -
  assume "vals_need k \<le> b" "b \<le> 65536"
  moreover have "val_need v \<le> vals_need k" if "v \<in> set k" for v
    unfolding vals_need_def using that by (intro member_le_sum_list) auto
  ultimately have "val_need v \<le> 65536" if "v \<in> set k" for v using that by (meson le_trans)
  then show ?thesis
    by (fastforce simp: short_strings_def list_all_iff HeapBytesNeededForStringLength_def split: gval.splits if_splits)
qed

section \<open>Reading a source to its end\<close>

text \<open>The calls of a source's GetData until it is finished: the chunks it returned.\<close>

fun read_all ::
  "nat \<Rightarrow> (nat \<Rightarrow> data_chunk \<Rightarrow> (source_result \<times> nat \<times> data_chunk) result) \<Rightarrow> nat \<Rightarrow> data_chunk \<Rightarrow> data_chunk list result option" where
  "read_all 0 get_data cursor out = None"
| "read_all (Suc fuel) get_data cursor out =
     (case get_data cursor out of
        Inl e \<Rightarrow> Some (Inl e)
      | Inr (SRC_HAVE_MORE_OUTPUT, cursor, out) \<Rightarrow> map_option (map_sum id (\<lambda>chunks. out # chunks)) (read_all fuel get_data cursor out)
      | Inr _ \<Rightarrow> Some (Inr []))"

lemma read_all_rows:
  assumes l: "gatherable l" "rows_ok l t" "readable l t rows" and fuel: "length rows < cursor + fuel" "cursor \<le> length rows"
    and get: "\<And>cursor out. get_data cursor out =
      rbind (gather_rows (\<lambda>_. False) l t (drop cursor rows) (cursor, chunk_reset out))
        (\<lambda>(cursor, out). Inr (if 0 < chunk_count out then SRC_HAVE_MORE_OUTPUT else SRC_FINISHED, cursor, out))"
  shows "\<exists>chunks. read_all fuel get_data cursor out = Some (Inr chunks) \<and>
    concat (map (chunk_keys l) chunks) = map (key_of l t) (drop cursor rows) \<and>
    list_all (\<lambda>ch. 0 < chunk_count ch \<and> chunk_count ch \<le> PIPELINE_DEFAULT_CHUNK_SIZE) chunks"
  using fuel
proof (induction fuel arbitrary: cursor out)
  case (Suc fuel)
  have N: "0 < PIPELINE_DEFAULT_CHUNK_SIZE" by (simp add: PIPELINE_DEFAULT_CHUNK_SIZE_def)
  have "readable l t (drop cursor rows)" using l(3) by (auto simp: readable_def dest: in_set_dropD)
  from gather_rows_keys [OF l(1,2) this gathered_reset, of out "min (length rows - cursor) PIPELINE_DEFAULT_CHUNK_SIZE" cursor]
  obtain out' where out': "gather_rows (\<lambda>_. False) l t (drop cursor rows) (cursor, chunk_reset out) =
      Inr (cursor + min (length rows - cursor) PIPELINE_DEFAULT_CHUNK_SIZE, out')"
    "chunk_count out' = min (length rows - cursor) PIPELINE_DEFAULT_CHUNK_SIZE"
    "chunk_keys l out' = map (key_of l t) (take (min (length rows - cursor) PIPELINE_DEFAULT_CHUNK_SIZE) (drop cursor rows))"
    by (auto simp: chunk_keys_def)
  have call: "get_data cursor out = Inr (if 0 < chunk_count out' then SRC_HAVE_MORE_OUTPUT else SRC_FINISHED,
      cursor + min (length rows - cursor) PIPELINE_DEFAULT_CHUNK_SIZE, out')" unfolding get out'(1) by simp
  show ?case
  proof (cases "cursor = length rows")
    case True
    then show ?thesis using call out'(2) by simp
  next
    case False
    define n where "n = min (length rows - cursor) PIPELINE_DEFAULT_CHUNK_SIZE"
    have n: "0 < n" "cursor + n \<le> length rows" "n \<le> PIPELINE_DEFAULT_CHUNK_SIZE" using False Suc.prems N by (auto simp: n_def)
    obtain chunks where chunks: "read_all fuel get_data (cursor + n) out' = Some (Inr chunks)"
      "concat (map (chunk_keys l) chunks) = map (key_of l t) (drop (cursor + n) rows)"
      "list_all (\<lambda>ch. 0 < chunk_count ch \<and> chunk_count ch \<le> PIPELINE_DEFAULT_CHUNK_SIZE) chunks"
      using Suc.IH [of "cursor + n" out'] n Suc.prems by auto
    have "map (key_of l t) (drop cursor rows) = map (key_of l t) (take n (drop cursor rows)) @ map (key_of l t) (drop (cursor + n) rows)"
      by (metis append_take_drop_id drop_drop map_append add.commute)
    then show ?thesis using call out'(2,3) n chunks unfolding n_def [symmetric]
      by (intro exI [of _ "out' # chunks"]) simp
  qed
qed simp

section \<open>A small example\<close>

text \<open>One integer column, and chunks of it; the example that the operators' properties are evaluated on.\<close>

definition int_layout :: tuple_data_layout where
  "int_layout = \<lparr>columns = [\<lparr>col_kind = INT32, col_offset = 0, col_width = 4, col_src_col_idx = 0, col_numeric_scale = 0,
     col_pg_type_oid = 23\<rparr>], aggregates = [], layout_row_width = 8, validity_width = 0\<rparr>"

definition int_chunk :: "u32 list \<Rightarrow> data_chunk" where
  "int_chunk vs = empty_chunk\<lparr>chunk_count := length vs, int32_class := (plain_class 0)\<lparr>column_class.cells := (\<lambda>slot row. vs ! row)\<rparr>\<rparr>"

lemma int_layout_facts: "layout_ok int_layout" "gatherable int_layout" "chunk_key int_layout (int_chunk vs) i = [GInt32 (vs ! i)]"
  "chunk_row_ok int_layout (int_chunk vs) i" "plain_slots (int_chunk vs)" "chunk_count (int_chunk vs) = length vs"
proof -
  show "layout_ok int_layout" by (simp add: layout_ok_def int_layout_def row_fields_def)
  show "gatherable int_layout" by (simp add: gatherable_def int_layout_def N_SLOTS_def)
  show "chunk_key int_layout (int_chunk vs) i = [GInt32 (vs ! i)]"
    by (simp add: chunk_key_def int_layout_def chunk_val_def int_chunk_def get_int32_def get_cell_def plain_class_def)
  show "chunk_row_ok int_layout (int_chunk vs) i" by (simp add: chunk_row_ok_def int_layout_def)
  show "plain_slots (int_chunk vs)" by (simp add: plain_slots_def int_chunk_def empty_chunk_def plain_class_def)
  show "chunk_count (int_chunk vs) = length vs" by (simp add: int_chunk_def)
qed

lemma int_chunk_keys: "chunk_keys int_layout (int_chunk vs) = map (\<lambda>v. [GInt32 v]) vs"
  by (rule nth_equalityI) (simp_all add: chunk_keys_def int_layout_facts)

end
