(* ===== verification/TopN.thy ===== *)
theory TopN
  imports GatherRows
begin

text \<open>
  The top-N operator, physical_top_n.cpp: a shared collection of at most \<open>max_rows\<close> rows behind a spinlock. A row that
  finds it full replaces the worst row, in a rebuilt collection, if it sorts before it; Finalize sorts the indices of the
  rows and GetData returns the rows in that order. A worker handles each row under the lock, so a row is one step.
\<close>

section \<open>State\<close>

record top_n =
  tn_schema_slots :: "nat list"
  tn_layout :: tuple_data_layout
  tn_sort_keys :: "sort_key list"
  tn_max_rows :: nat

record top_n_payload =
  tp_tdc :: "tuple_data_collection option"
  tp_sort_indices :: "nat list option"
  tp_finalized :: bool

section \<open>Rebuilding the collection\<close>

datatype new_row = ChunkRow data_chunk nat | StoredRow tuple_data_collection "u8 list"

definition heap_needed ::
  "tuple_data_layout \<Rightarrow> tuple_data_collection \<Rightarrow> new_row \<Rightarrow> nat \<Rightarrow> nat result" where
  "heap_needed layout old_tdc new replace_row_idx =
     rbind (kept_rows_heap layout old_tdc replace_row_idx 0)
       (\<lambda>needed. rbind (case new of
            ChunkRow chunk row_idx \<Rightarrow> Inr (TupleDataCollectionRequiredHeapBytesForChunkRow layout chunk row_idx)
          | StoredRow tdc row \<Rightarrow> TupleDataCollectionRequiredHeapBytesForRow layout (Some tdc) row)
          (\<lambda>bytes. Inr (wrap64 (needed + bytes))))"

definition copy_kept_rows ::
  "tuple_data_layout \<Rightarrow> tuple_data_collection \<Rightarrow> nat \<Rightarrow> tuple_data_collection \<Rightarrow> tuple_data_collection result" where
  "copy_kept_rows layout old_tdc replace_row_idx new_tdc =
     fold_res (\<lambda>row_idx new_tdc. if row_idx \<noteq> replace_row_idx
         then append_with ''global top-N rebuild overflow''
                (copy_row_columns ''top-N TDC ran out of heap'' layout old_tdc (TupleDataCollectionGetRow old_tdc row_idx)) new_tdc
         else Inr new_tdc) [0..<tdc_row_count old_tdc] new_tdc"

definition RebuildGlobalTdc ::
  "nat \<Rightarrow> top_n \<Rightarrow> tuple_data_collection \<Rightarrow> new_row \<Rightarrow> nat \<Rightarrow> tuple_data_collection result" where
  "RebuildGlobalTdc hdr tn old_tdc new replace_row_idx =
     (let layout = tn_layout tn; width = unat (layout_row_width layout)
      in rbind (heap_needed layout old_tdc new replace_row_idx) (\<lambda>needed.
         let default = TupleDataCollectionDefaultHeapCapacity (Some layout) (tn_max_rows tn);
             heap_capacity = (if needed > default then wrap32 needed else default)
         in rbind (TupleDataCollectionCheckedAllocSize hdr (tn_max_rows tn) width heap_capacity) (\<lambda>_.
            rbind (copy_kept_rows layout old_tdc replace_row_idx (TupleDataCollectionInit (tn_max_rows tn) width heap_capacity))
              (append_with ''global top-N append overflow''
                 (case new of ChunkRow chunk row_idx \<Rightarrow> scatter_row layout chunk row_idx
                  | StoredRow tdc row \<Rightarrow> copy_row_columns ''top-N TDC ran out of heap'' layout tdc row)))))"

section \<open>The sink\<close>

definition sink_top_n_row :: "nat \<Rightarrow> top_n \<Rightarrow> data_chunk \<Rightarrow> nat \<Rightarrow> top_n_payload \<Rightarrow> top_n_payload result" where
  "sink_top_n_row hdr tn chunk row_idx p =
     (case tp_tdc p of
        None \<Rightarrow> Inl (Elog ''top-N sink missing global TDC'')
      | Some tdc \<Rightarrow>
          rbind
           (if tn_max_rows tn \<le> tdc_row_count tdc then
              let worst_idx = FindWorstStoredRowIndex (tn_layout tn) (tn_sort_keys tn) tdc
              in if CompareChunkRowToStoredRow (tn_schema_slots tn) (tn_layout tn) (tn_sort_keys tn) chunk row_idx tdc
                      (TupleDataCollectionGetRow tdc worst_idx) < 0
                 then RebuildGlobalTdc hdr tn tdc (ChunkRow chunk row_idx) worst_idx
                 else Inr tdc
            else if \<not> TupleDataCollectionHasSpaceForAppend tdc
                       (TupleDataCollectionRequiredHeapBytesForChunkRow (tn_layout tn) chunk row_idx)
            then RebuildGlobalTdc hdr tn tdc (ChunkRow chunk row_idx) UINT32_MAX
            else append_with ''global top-N row capacity exceeded'' (scatter_row (tn_layout tn) chunk row_idx) tdc)
           (\<lambda>tdc. Inr (p\<lparr>tp_tdc := Some tdc\<rparr>)))"

definition TopNSinkChunk :: "nat \<Rightarrow> top_n \<Rightarrow> data_chunk \<Rightarrow> top_n_payload \<Rightarrow> (sink_result \<times> top_n_payload) result" where
  "TopNSinkChunk hdr tn chunk p =
     rbind (fold_res (sink_top_n_row hdr tn chunk) [0..<chunk_count chunk] p) (\<lambda>p. Inr (SINK_NEED_MORE_INPUT, p))"

section \<open>Finalize and the source\<close>

definition TopNFinalize :: "((nat \<Rightarrow> nat \<Rightarrow> bool) \<Rightarrow> nat list \<Rightarrow> nat list) \<Rightarrow> top_n \<Rightarrow> top_n_payload \<Rightarrow> top_n_payload result" where
  "TopNFinalize std_sort tn p =
     (case tp_tdc p of
        None \<Rightarrow> Inl (Elog ''top-N finalize missing global TDC'')
      | Some tdc \<Rightarrow>
          let indices = std_sort (\<lambda>lhs rhs. CompareStoredRows (tn_layout tn) (tn_sort_keys tn) tdc (TupleDataCollectionGetRow tdc lhs)
                tdc (TupleDataCollectionGetRow tdc rhs) < 0) [0..<tdc_row_count tdc]
          in Inr (p\<lparr>tp_sort_indices := Some indices, tp_finalized := True, tp_tdc := Some (tdc\<lparr>tdc_finalized := True\<rparr>)\<rparr>))"

definition TopNGetData :: "top_n \<Rightarrow> top_n_payload \<Rightarrow> nat \<Rightarrow> data_chunk \<Rightarrow> (source_result \<times> nat \<times> data_chunk) result" where
  "TopNGetData tn p cursor out =
     (let out = chunk_reset out
      in case (tp_tdc p, tp_sort_indices p) of
           (Some tdc, Some indices) \<Rightarrow>
             if \<not> tp_finalized p then Inr (SRC_FINISHED, cursor, out)
             else rbind (gather_rows (\<lambda>_. False) (tn_layout tn) tdc (drop cursor indices) (cursor, out))
                    (\<lambda>(cursor, out). Inr (if 0 < chunk_count out then SRC_HAVE_MORE_OUTPUT else SRC_FINISHED, cursor, out))
         | _ \<Rightarrow> Inr (SRC_FINISHED, cursor, out))"

section \<open>The sink keeps the best rows\<close>

text \<open>Keys whose strings need at most \<open>b\<close> bytes of a heap; the collection fits the allocation limit for such keys.\<close>

definition top_n_ok :: "nat \<Rightarrow> nat \<Rightarrow> top_n \<Rightarrow> bool" where
  "top_n_ok hdr b tn \<longleftrightarrow>
     layout_ok (tn_layout tn) \<and> aggregates (tn_layout tn) = [] \<and> schema_ok (tn_schema_slots tn) (tn_layout tn) \<and>
     0 < tn_max_rows tn \<and> tn_max_rows tn < UINT32_MAX \<and>
     hdr + tn_max_rows tn * unat (layout_row_width (tn_layout tn)) +
       max (tn_max_rows tn * b) (TupleDataCollectionDefaultHeapCapacity (Some (tn_layout tn)) (tn_max_rows tn))
       < kTupleDataCollectionMaxFlatAllocBytes"

text \<open>A row that comes in: sound, without dictionaries, its strings within the bound, and no NaN in a sort column.\<close>

definition input_row_ok :: "nat \<Rightarrow> top_n \<Rightarrow> data_chunk \<Rightarrow> nat \<Rightarrow> bool" where
  "input_row_ok b tn ch i \<longleftrightarrow>
     plain_slots ch \<and> chunk_row_ok (tn_layout tn) ch i \<and> vals_need (chunk_key (tn_layout tn) ch i) \<le> b \<and>
     key_ok (map col_kind (columns (tn_layout tn))) (tn_sort_keys tn) (chunk_key (tn_layout tn) ch i)"

definition store_ok :: "nat \<Rightarrow> top_n \<Rightarrow> tuple_data_collection \<Rightarrow> bool" where
  "store_ok b tn t \<longleftrightarrow>
     rows_ok (tn_layout tn) t \<and> tdc_row_capacity t = tn_max_rows tn \<and> tdc_heap_capacity t < UINT32_MAX \<and>
     (\<forall>k\<in>set (stored_keys (tn_layout tn) t). vals_need k \<le> b \<and> key_ok (map col_kind (columns (tn_layout tn))) (tn_sort_keys tn) k)"

lemma heap_needed_sum:
  assumes l: "layout_ok l" and t: "rows_ok l t" and keys: "\<forall>k\<in>set (stored_keys l t). vals_need k \<le> b"
    and ch: "chunk_row_ok l ch i" "vals_need (chunk_key l ch i) \<le> b" and b32: "b < 2 ^ 32 - 1"
  shows "heap_needed l t (ChunkRow ch i) replace =
    Inr (sum_list (map (\<lambda>r. vals_need (key_of l t r)) (filter (\<lambda>r. r \<noteq> replace) [0..<tdc_row_count t])) + vals_need (chunk_key l ch i))"
proof -
  let ?need = "sum_list (map (\<lambda>r. vals_need (key_of l t r)) (filter (\<lambda>r. r \<noteq> replace) [0..<tdc_row_count t]))"
  have key: "vals_need (key_of l t r) \<le> b" if "r < tdc_row_count t" for r using keys that by (auto simp: stored_keys_def)
  have "?need \<le> length (filter (\<lambda>r. r \<noteq> replace) [0..<tdc_row_count t]) * b"
    by (rule sum_list_le_length) (use key in auto)
  also have "\<dots> \<le> tdc_row_count t * b"
    using length_filter_le [of "\<lambda>r. r \<noteq> replace" "[0..<tdc_row_count t]"] by (simp add: mult_le_mono1)
  also have "\<dots> + b = Suc (tdc_row_count t) * b" by simp
  also have "\<dots> \<le> 2 ^ 32 * (2 ^ 32 - 1)" using b32 t by (intro mult_le_mono) (auto simp: rows_ok_def tdc_ok_def)
  finally have limit: "?need + b < 2 ^ 64" by simp
  have need: "vals_need (chunk_key l ch i) \<le> UINT32_MAX" "\<forall>r<tdc_row_count t. vals_need (key_of l t r) \<le> UINT32_MAX"
    using ch(2) key b32 by (simp add: UINT32_MAX_def) (use key b32 in \<open>fastforce simp: UINT32_MAX_def dest: le_less_trans\<close>)
  have "kept_rows_heap l t replace 0 = Inr (0 + ?need)" by (rule kept_rows_heap_sum [OF l t need(2)]) (use limit in simp)
  then show ?thesis
    using limit ch(2) need(1) by (simp add: heap_needed_def RequiredHeapBytesForChunkRow_need [OF l] key_need_key [OF ch(1)] min_absorb1)
qed

text \<open>A rebuilt collection holds the kept rows in their order and then the new one.\<close>

lemma RebuildGlobalTdc_keys:
  assumes tn: "top_n_ok hdr b tn" and t: "store_ok b tn t" and ch: "input_row_ok b tn ch i"
    and room: "replace < tdc_row_count t \<or> tdc_row_count t < tn_max_rows tn"
  obtains t' where "RebuildGlobalTdc hdr tn t (ChunkRow ch i) replace = Inr t'" "store_ok b tn t'"
    "stored_keys (tn_layout tn) t' = drop_nth replace (stored_keys (tn_layout tn) t) @ [chunk_key (tn_layout tn) ch i]"
proof -
  let ?l = "tn_layout tn" and ?M = "tn_max_rows tn" and ?n = "tdc_row_count t"
  let ?kept = "filter (\<lambda>r. r \<noteq> replace) [0..<?n]" and ?k = "chunk_key (tn_layout tn) ch i"
  let ?default = "TupleDataCollectionDefaultHeapCapacity (Some ?l) ?M"
  have l: "layout_ok ?l" "aggregates ?l = []" using tn by (simp_all add: top_n_ok_def)
  have t': "rows_ok ?l t" "\<forall>k\<in>set (stored_keys ?l t). vals_need k \<le> b" "?n \<le> ?M"
    using t by (auto simp: store_ok_def rows_ok_def tdc_ok_def)
  have ch': "chunk_row_ok ?l ch i" "vals_need ?k \<le> b" using ch by (simp_all add: input_row_ok_def)
  have size: "hdr + ?M * unat (layout_row_width ?l) + max (?M * b) ?default < 3221225472"
    using tn by (simp add: top_n_ok_def kTupleDataCollectionMaxFlatAllocBytes_def)
  define need where "need = sum_list (map (\<lambda>r. vals_need (key_of ?l t r)) ?kept)"
  have kept: "length ?kept < ?M"
  proof (cases "replace < ?n")
    case True
    then have "length ?kept < length [0..<?n]" by (intro length_filter_less [of replace]) simp_all
    then show ?thesis using t'(3) by simp
  next
    case False
    then show ?thesis using room length_filter_le [of "\<lambda>r. r \<noteq> replace" "[0..<?n]"] by simp
  qed
  have need: "need + vals_need ?k \<le> ?M * b"
  proof -
    have "need \<le> length ?kept * b"
      unfolding need_def by (rule sum_list_le_length) (use t'(2) in \<open>auto simp: stored_keys_def\<close>)
    also have "\<dots> + b \<le> ?M * b" using kept mult_le_mono1 [of "Suc (length ?kept)" ?M b] by simp
    finally show ?thesis using ch'(2) by simp
  qed
  have b32: "b < 2 ^ 32 - 1"
  proof -
    have "1 * b \<le> ?M * b" using tn by (intro mult_le_mono1) (auto simp: top_n_ok_def)
    then have "b < 3221225472" using size by linarith
    then show ?thesis by simp
  qed
  have needed: "heap_needed ?l t (ChunkRow ch i) replace = Inr (need + vals_need ?k)"
    unfolding need_def by (rule heap_needed_sum [OF l(1) t'(1,2) ch' b32])
  define cap where "cap = (if need + vals_need ?k > ?default then wrap32 (need + vals_need ?k) else ?default)"
  have cap: "need + vals_need ?k \<le> cap" "cap \<le> max (?M * b) ?default" "cap < 2 ^ 32"
    using need size by (auto simp: cap_def)
  have alloc: "\<exists>n. TupleDataCollectionCheckedAllocSize hdr ?M (unat (layout_row_width ?l)) cap = Inr n"
    using cap size by (simp add: TupleDataCollectionCheckedAllocSize_def TupleDataCollectionCheckFlatAllocSize_def
        kTupleDataCollectionMaxFlatAllocBytes_def)
  let ?t0 = "TupleDataCollectionInit ?M (unat (layout_row_width ?l)) cap"
  have M32: "?M < 2 ^ 32" using tn by (simp add: top_n_ok_def UINT32_MAX_def)
  note t0 = rows_ok_Init [OF l(1) M32 cap(3)]
  obtain t1 where t1: "copy_kept_rows ?l t replace ?t0 = Inr t1" "rows_ok ?l t1" "stored_keys ?l t1 = map (key_of ?l t) ?kept"
    "tdc_row_capacity t1 = ?M" "tdc_heap_capacity t1 = cap" "tdc_heap_used t1 = need"
    using column_copy.copied_rows [OF l t'(1) t0(1), of "\<lambda>r. r \<noteq> replace" ?n "''global top-N rebuild overflow''" "''top-N TDC ran out of heap''"] kept cap(1)
    by (auto simp: copy_kept_rows_def need_def TupleDataCollectionInit_def)
  have count: "tdc_row_count t1 < tdc_row_capacity t1" using kept t1(4) arg_cong [OF t1(3), of length] by simp
  have room: "key_need ?l ch i \<le> tdc_heap_capacity t1 - tdc_heap_used t1"
    using cap(1) t1(5,6) by (simp add: key_need_key [OF ch'(1)])
  obtain t2 where t2: "append_with ''global top-N append overflow'' (scatter_row ?l ch i) t1 = Inr t2"
    "appended ?l ?k (key_need ?l ch i) t1 t2"
    by (rule append_scatter [OF l t1(2) count ch'(1) room])
  have keys: "stored_keys ?l t2 = drop_nth replace (stored_keys ?l t) @ [?k]"
    using t2(2) t1(3) by (simp add: appended_def stored_keys_def [of ?l t] drop_nth_filter)
  have "store_ok b tn t2"
    using t2(2) t1(4,5) cap(2,3) size t ch t'(2) unfolding store_ok_def keys
    by (auto simp: appended_def UINT32_MAX_def input_row_ok_def drop_nth_def dest: in_set_takeD in_set_dropD)
  moreover have "RebuildGlobalTdc hdr tn t (ChunkRow ch i) replace = Inr t2"
    using alloc needed t1(1) t2(1) by (auto simp: RebuildGlobalTdc_def Let_def cap_def [symmetric])
  ultimately show thesis using keys that by blast
qed

text \<open>One row under the lock: the buffer keeps the best rows, and nothing fails.\<close>

abbreviation tn_compare :: "top_n \<Rightarrow> gval list \<Rightarrow> gval list \<Rightarrow> int" where
  "tn_compare tn \<equiv> key_compare (tn_sort_keys tn)"

lemma sink_top_n_row_keys:
  assumes tn: "top_n_ok hdr b tn" and p: "tp_tdc p = Some t" and t: "store_ok b tn t" and ch: "input_row_ok b tn ch i"
  obtains t' where "sink_top_n_row hdr tn ch i p = Inr (p\<lparr>tp_tdc := Some t'\<rparr>)" "store_ok b tn t'"
    "stored_keys (tn_layout tn) t' =
      keep_best (tn_compare tn) (tn_max_rows tn) (chunk_key (tn_layout tn) ch i) (stored_keys (tn_layout tn) t)"
proof -
  let ?l = "tn_layout tn" and ?M = "tn_max_rows tn" and ?k = "chunk_key (tn_layout tn) ch i"
  have l: "layout_ok ?l" "aggregates ?l = []" "schema_ok (tn_schema_slots tn) ?l" "0 < ?M" "?M < UINT32_MAX"
    using tn by (simp_all add: top_n_ok_def)
  have t': "rows_ok ?l t" "tdc_row_capacity t = ?M" "tdc_row_count t \<le> ?M" "tdc_ok t" "tdc_heap_capacity t < UINT32_MAX"
    using t by (auto simp: store_ok_def rows_ok_def tdc_ok_def)
  have ch': "plain_slots ch" "chunk_row_ok ?l ch i" using ch by (simp_all add: input_row_ok_def)
  show thesis
  proof (cases "?M \<le> tdc_row_count t")
    case True
    then have count: "0 < tdc_row_count t" using l(4) by simp
    let ?w = "worst_index (tn_compare tn) (stored_keys ?l t)"
    have keys_ok: "\<forall>k\<in>set (stored_keys ?l t). key_ok (map col_kind (columns ?l)) (tn_sort_keys tn) k"
      using t by (simp add: store_ok_def)
    have "stored_keys ?l t \<noteq> []" using count length_stored_keys [of ?l t] by fastforce
    then have w: "?w < tdc_row_count t" using key_order.worst_index_worst(1) [OF keys_ok] by simp
    have "row_ok ?l (tdc_heap t) (tdc_heap_used t) (tdc_rows t ! ?w)" using t'(1) w by (simp add: rows_ok_def)
    from CompareChunkRowToStoredRow_key [OF l(3) ch' this]
    have cmp: "CompareChunkRowToStoredRow (tn_schema_slots tn) ?l (tn_sort_keys tn) ch i t (TupleDataCollectionGetRow t ?w) =
        tn_compare tn ?k (stored_keys ?l t ! ?w)"
      using w by (simp add: nth_stored_keys key_of_def TupleDataCollectionGetRow_def)
    have run: "sink_top_n_row hdr tn ch i p =
        rbind (if tn_compare tn ?k (stored_keys ?l t ! ?w) < 0 then RebuildGlobalTdc hdr tn t (ChunkRow ch i) ?w else Inr t)
          (\<lambda>tdc. Inr (p\<lparr>tp_tdc := Some tdc\<rparr>))"
      using True by (simp add: sink_top_n_row_def p FindWorstStoredRowIndex_key [OF t'(1) count] cmp)
    show ?thesis
    proof (cases "tn_compare tn ?k (stored_keys ?l t ! ?w) < 0")
      case better: True
      obtain u where u: "RebuildGlobalTdc hdr tn t (ChunkRow ch i) ?w = Inr u" "store_ok b tn u"
        "stored_keys ?l u = drop_nth ?w (stored_keys ?l t) @ [?k]"
        by (rule RebuildGlobalTdc_keys [OF tn t ch disjI1 [OF w]])
      have "sink_top_n_row hdr tn ch i p = Inr (p\<lparr>tp_tdc := Some u\<rparr>)" unfolding run u(1) using better by simp
      moreover have "stored_keys ?l u = keep_best (tn_compare tn) ?M ?k (stored_keys ?l t)"
        unfolding u(3) using better True by (simp add: keep_best_def)
      ultimately show ?thesis using that u(2) by blast
    next
      case False
      have "sink_top_n_row hdr tn ch i p = Inr (p\<lparr>tp_tdc := Some t\<rparr>)" unfolding run using False by simp
      moreover have "stored_keys ?l t = keep_best (tn_compare tn) ?M ?k (stored_keys ?l t)"
        using False True by (simp add: keep_best_def)
      ultimately show ?thesis using that t by blast
    qed
  next
    case False
    have keep: "keep_best (tn_compare tn) ?M ?k (stored_keys ?l t) = stored_keys ?l t @ [?k]" using False by (simp add: keep_best_def)
    show ?thesis
    proof (cases "TupleDataCollectionHasSpaceForAppend t (TupleDataCollectionRequiredHeapBytesForChunkRow ?l ch i)")
      case True
      note space = HasSpace_need [OF l(1) t'(4,5) True]
      obtain u where u: "append_with ''global top-N row capacity exceeded'' (scatter_row ?l ch i) t = Inr u"
        "appended ?l ?k (key_need ?l ch i) t u"
        by (rule append_scatter [OF l(1,2) t'(1) space(1) ch'(2) space(2)])
      have "store_ok b tn u" using u(2) t ch by (auto simp: store_ok_def appended_def input_row_ok_def)
      then show ?thesis using that [of u] False True u keep by (simp add: sink_top_n_row_def p appended_def)
    next
      case full: False
      have beyond: "drop_nth UINT32_MAX (stored_keys ?l t) = stored_keys ?l t" using t'(3) l(5) by (simp add: drop_nth_def)
      obtain u where "RebuildGlobalTdc hdr tn t (ChunkRow ch i) UINT32_MAX = Inr u" "store_ok b tn u"
        "stored_keys ?l u = drop_nth UINT32_MAX (stored_keys ?l t) @ [?k]"
        by (rule RebuildGlobalTdc_keys [OF tn t ch disjI2]) (use False in auto)
      then show ?thesis using that [of u] False full keep beyond by (simp add: sink_top_n_row_def p)
    qed
  qed
qed

section \<open>Several workers\<close>

text \<open>
  The rows that each worker still has to sink, in its order; any worker may take the lock next.
\<close>

inductive sink_step :: "nat \<Rightarrow> top_n \<Rightarrow> top_n_payload \<times> (data_chunk \<times> nat) list list \<Rightarrow>
    top_n_payload \<times> (data_chunk \<times> nat) list list \<Rightarrow> bool" for hdr tn where
  sink: "w < length pending \<Longrightarrow> pending ! w = (ch, i) # rest \<Longrightarrow> sink_top_n_row hdr tn ch i p = Inr p' \<Longrightarrow>
    sink_step hdr tn (p, pending) (p', pending[w := rest])"

inductive_cases sink_stepE: "sink_step hdr tn (p, pending) s"

definition row_keys :: "tuple_data_layout \<Rightarrow> (data_chunk \<times> nat) list list \<Rightarrow> gval list multiset" where
  "row_keys l pending = mset (map (\<lambda>(ch, i). chunk_key l ch i) (concat pending))"

definition sink_inv :: "nat \<Rightarrow> top_n \<Rightarrow> gval list multiset \<Rightarrow> top_n_payload \<times> (data_chunk \<times> nat) list list \<Rightarrow> bool" where
  "sink_inv b tn all s \<longleftrightarrow> (case s of (p, pending) \<Rightarrow>
     (\<exists>t sunk. tp_tdc p = Some t \<and> store_ok b tn t \<and> all = sunk + row_keys (tn_layout tn) pending \<and>
        best_of (tn_compare tn) (tn_max_rows tn) (mset (stored_keys (tn_layout tn) t)) sunk \<and>
        (\<forall>k\<in>#sunk. key_ok (map col_kind (columns (tn_layout tn))) (tn_sort_keys tn) k)) \<and>
     (\<forall>rows\<in>set pending. \<forall>(ch, i)\<in>set rows. input_row_ok b tn ch i))"

lemma row_keys_step:
  assumes "w < length pending" "pending ! w = (ch, i) # rest"
  shows "row_keys l pending = add_mset (chunk_key l ch i) (row_keys l (pending[w := rest]))"
proof -
  define xs ys where "xs = take w pending" and "ys = drop (Suc w) pending"
  have "pending = xs @ ((ch, i) # rest) # ys" using id_take_nth_drop [OF assms(1)] by (simp add: xs_def ys_def assms(2))
  moreover have "pending[w := rest] = xs @ rest # ys" using upd_conv_take_nth_drop [OF assms(1)] by (simp add: xs_def ys_def)
  ultimately show ?thesis unfolding row_keys_def by (simp only:) simp
qed

lemma sink_row_inv:
  assumes tn: "top_n_ok hdr b tn" and inv: "sink_inv b tn all (p, pending)" and w: "w < length pending" "pending ! w = (ch, i) # rest"
  obtains p' where "sink_top_n_row hdr tn ch i p = Inr p'" "sink_inv b tn all (p', pending[w := rest])"
proof -
  let ?l = "tn_layout tn" and ?k = "chunk_key (tn_layout tn) ch i"
  obtain t sunk where t: "tp_tdc p = Some t" "store_ok b tn t" "all = sunk + row_keys ?l pending"
    "best_of (tn_compare tn) (tn_max_rows tn) (mset (stored_keys ?l t)) sunk"
    "\<forall>k\<in>#sunk. key_ok (map col_kind (columns ?l)) (tn_sort_keys tn) k"
    using inv by (auto simp: sink_inv_def)
  have rows: "\<forall>rows\<in>set pending. \<forall>(ch, i)\<in>set rows. input_row_ok b tn ch i" using inv by (simp add: sink_inv_def)
  then have ch: "input_row_ok b tn ch i" using w nth_mem [OF w(1)] by fastforce
  obtain u where u: "sink_top_n_row hdr tn ch i p = Inr (p\<lparr>tp_tdc := Some u\<rparr>)" "store_ok b tn u"
    "stored_keys ?l u = keep_best (tn_compare tn) (tn_max_rows tn) ?k (stored_keys ?l t)"
    by (rule sink_top_n_row_keys [OF tn t(1,2) ch])
  have k: "key_ok (map col_kind (columns ?l)) (tn_sort_keys tn) ?k" using ch by (simp add: input_row_ok_def)
  have "best_of (tn_compare tn) (tn_max_rows tn) (mset (stored_keys ?l u)) (add_mset ?k sunk)"
    unfolding u(3) using tn by (intro key_order.best_of_add [OF t(5) k t(4)]) (simp add: top_n_ok_def)
  moreover have "all = add_mset ?k sunk + row_keys ?l (pending[w := rest])" using t(3) row_keys_step [OF w, of ?l] by simp
  moreover have "\<forall>rows\<in>set (pending[w := rest]). \<forall>(ch, i)\<in>set rows. input_row_ok b tn ch i"
    using rows w nth_mem [OF w(1)] by (fastforce dest: set_update_subset_insert [THEN subsetD])
  ultimately have "sink_inv b tn all (p\<lparr>tp_tdc := Some u\<rparr>, pending[w := rest])"
    unfolding sink_inv_def using u(2) k t(5) by (simp del: add_mset_add_single)
  then show thesis using that u(1) by blast
qed

lemma sink_inv_reach:
  assumes "top_n_ok hdr b tn" "sink_inv b tn all s" "(sink_step hdr tn)\<^sup>*\<^sup>* s s'"
  shows "sink_inv b tn all s'"
  using assms(3,2)
proof induction
  case (step s' s'')
  from step.hyps(2) show ?case
  proof cases
    case (sink w pending ch i rest p p')
    have "sink_inv b tn all (p, pending)" using step.IH [OF step.prems] sink(1) by simp
    from sink_row_inv [OF assms(1) this sink(3,4)] obtain p1
      where "sink_top_n_row hdr tn ch i p = Inr p1" "sink_inv b tn all (p1, pending[w := rest])" by blast
    then show ?thesis using sink(2,5) by simp
  qed
qed simp

text \<open>The workers can always run to the end.\<close>

lemma sink_completes:
  assumes "top_n_ok hdr b tn" "sink_inv b tn all (p, pending)"
  shows "\<exists>p' done. (sink_step hdr tn)\<^sup>*\<^sup>* (p, pending) (p', done) \<and> concat done = []"
  using assms(2)
proof (induction "length (concat pending)" arbitrary: p pending rule: less_induct)
  case less
  show ?case
  proof (cases "concat pending = []")
    case False
    then obtain rows where "rows \<in> set pending" "rows \<noteq> []" by auto
    then obtain w ch i rest where w: "w < length pending" "pending ! w = (ch, i) # rest"
      by (metis in_set_conv_nth neq_Nil_conv surj_pair)
    obtain p1 where p1: "sink_top_n_row hdr tn ch i p = Inr p1" "sink_inv b tn all (p1, pending[w := rest])"
      by (rule sink_row_inv [OF assms(1) less.prems w])
    have "length (concat pending) = Suc (length (concat (pending[w := rest])))"
      using arg_cong [OF row_keys_step [OF w], of size] by (simp add: row_keys_def)
    then obtain p' "done" where "(sink_step hdr tn)\<^sup>*\<^sup>* (p1, pending[w := rest]) (p', done)" "concat done = []"
      using less.hyps [of "pending[w := rest]" p1] p1(2) by auto
    moreover have "sink_step hdr tn (p, pending) (p1, pending[w := rest])" by (rule sink [OF w p1(1)])
    ultimately show ?thesis by (blast intro: converse_rtranclp_into_rtranclp)
  qed blast
qed

section \<open>The rows that come out\<close>

lemma TopNFinalize_sorted:
  assumes t: "store_ok b tn t" and p: "tp_tdc p = Some t" and sort: "std_sort_ok std_sort"
  obtains indices where
    "TopNFinalize std_sort tn p = Inr (p\<lparr>tp_sort_indices := Some indices, tp_finalized := True, tp_tdc := Some (t\<lparr>tdc_finalized := True\<rparr>)\<rparr>)"
    "mset indices = mset [0..<tdc_row_count t]"
    "sorted_wrt (\<lambda>a b. tn_compare tn a b \<le> 0) (map (key_of (tn_layout tn) t) indices)"
proof -
  let ?l = "tn_layout tn" and ?n = "tdc_row_count t"
  let ?lt = "\<lambda>i j. CompareStoredRows ?l (tn_sort_keys tn) t (TupleDataCollectionGetRow t i) t (TupleDataCollectionGetRow t j) < 0"
  define indices where "indices = std_sort ?lt [0..<?n]"
  have cmp: "?lt i j \<longleftrightarrow> key_compare (tn_sort_keys tn) (key_of ?l t i) (key_of ?l t j) < 0" if "i < ?n" "j < ?n" for i j
    using CompareStoredRows_key [of ?l t "tdc_heap_used t" "tdc_rows t ! i" t "tdc_heap_used t" "tdc_rows t ! j" "tn_sort_keys tn"] t that
    by (simp add: store_ok_def rows_ok_def key_of_def TupleDataCollectionGetRow_def)
  have ok: "\<forall>k\<in>set (stored_keys ?l t). key_ok (map col_kind (columns ?l)) (tn_sort_keys tn) k"
    using t by (simp add: store_ok_def)
  have "mset indices = mset [0..<?n]" "sorted_wrt (\<lambda>a b. tn_compare tn a b \<le> 0) (map (key_of ?l t) indices)"
    using sort_rows [OF sort ok cmp] unfolding indices_def by auto
  moreover have "TopNFinalize std_sort tn p =
      Inr (p\<lparr>tp_sort_indices := Some indices, tp_finalized := True, tp_tdc := Some (t\<lparr>tdc_finalized := True\<rparr>)\<rparr>)"
    by (simp add: TopNFinalize_def p indices_def)
  ultimately show thesis using that by blast
qed

lemma finished_top_n:
  assumes tn: "gatherable (tn_layout tn)" "b \<le> 65536" and sort: "std_sort_ok std_sort"
    and inv: "sink_inv b tn all (p, done)" "concat done = []"
  shows "\<exists>p' chunks. TopNFinalize std_sort tn p = Inr p' \<and>
    read_all (tn_max_rows tn + 1) (TopNGetData tn p') 0 out = Some (Inr chunks) \<and>
    sorted_wrt (\<lambda>a b. tn_compare tn a b \<le> 0) (concat (map (chunk_keys (tn_layout tn)) chunks)) \<and>
    best_of (tn_compare tn) (tn_max_rows tn) (mset (concat (map (chunk_keys (tn_layout tn)) chunks))) all"
proof -
  let ?l = "tn_layout tn"
  have "row_keys ?l done = {#}" by (simp add: row_keys_def inv(2))
  then obtain t where t: "tp_tdc p = Some t" "store_ok b tn t" "best_of (tn_compare tn) (tn_max_rows tn) (mset (stored_keys ?l t)) all"
    using inv(1) by (auto simp: sink_inv_def)
  obtain indices where fin: "TopNFinalize std_sort tn p =
      Inr (p\<lparr>tp_sort_indices := Some indices, tp_finalized := True, tp_tdc := Some (t\<lparr>tdc_finalized := True\<rparr>)\<rparr>)"
    "mset indices = mset [0..<tdc_row_count t]" "sorted_wrt (\<lambda>a b. tn_compare tn a b \<le> 0) (map (key_of ?l t) indices)"
    by (rule TopNFinalize_sorted [OF t(2,1) sort])
  let ?p = "p\<lparr>tp_sort_indices := Some indices, tp_finalized := True, tp_tdc := Some (t\<lparr>tdc_finalized := True\<rparr>)\<rparr>"
  have len: "length indices \<le> tn_max_rows tn"
    using arg_cong [OF fin(2), of size] t(2) by (simp add: store_ok_def rows_ok_def tdc_ok_def)
  have "readable ?l (t\<lparr>tdc_finalized := True\<rparr>) indices"
    using mset_eq_setD [OF fin(2)] t(2) vals_need_short [OF _ tn(2)] by (auto simp: readable_def store_ok_def stored_keys_def)
  moreover have "rows_ok ?l (t\<lparr>tdc_finalized := True\<rparr>)" using t(2) by (simp add: store_ok_def finalized_rows_ok)
  ultimately obtain chunks where chunks: "read_all (tn_max_rows tn + 1) (TopNGetData tn ?p) 0 out = Some (Inr chunks)"
    "concat (map (chunk_keys ?l) chunks) = map (key_of ?l t) indices"
    using read_all_rows [OF tn(1), of "t\<lparr>tdc_finalized := True\<rparr>" indices 0 "tn_max_rows tn + 1" "TopNGetData tn ?p" out] len
    by (auto simp: TopNGetData_def)
  have "mset (map (key_of ?l t) indices) = mset (stored_keys ?l t)" unfolding stored_keys_def mset_map fin(2) ..
  then show ?thesis using fin(1,3) chunks t(3) by auto
qed

section \<open>The operator\<close>

text \<open>C15: Whatever the interleaving of the workers' rows, no row fails and the workers can always finish; when they have, Finalize
  and the calls of GetData return, in sort order, as many of the rows as the limit allows, and none that was left out sorts before
  a returned one.\<close>

theorem top_n_returns_the_best:
  assumes tn: "top_n_ok hdr b tn" "gatherable (tn_layout tn)" "b \<le> 65536" and sort: "std_sort_ok std_sort"
    and rows: "\<forall>rows\<in>set pending. \<forall>(ch, i)\<in>set rows. input_row_ok b tn ch i"
    and start: "tp_tdc p = Some (TupleDataCollectionInit (tn_max_rows tn) (unat (layout_row_width (tn_layout tn))) heap_capacity)"
      "heap_capacity < UINT32_MAX"
    and steps: "(sink_step hdr tn)\<^sup>*\<^sup>* (p, pending) (p1, pending1)"
  shows "(\<exists>p2 done. (sink_step hdr tn)\<^sup>*\<^sup>* (p1, pending1) (p2, done) \<and> concat done = []) \<and>
    (concat pending1 = [] \<longrightarrow> (\<exists>p2 chunks. TopNFinalize std_sort tn p1 = Inr p2 \<and>
      read_all (tn_max_rows tn + 1) (TopNGetData tn p2) 0 out = Some (Inr chunks) \<and>
      sorted_wrt (\<lambda>a b. tn_compare tn a b \<le> 0) (concat (map (chunk_keys (tn_layout tn)) chunks)) \<and>
      best_of (tn_compare tn) (tn_max_rows tn) (mset (concat (map (chunk_keys (tn_layout tn)) chunks)))
        (row_keys (tn_layout tn) pending)))"
proof -
  have "layout_ok (tn_layout tn)" "tn_max_rows tn < 2 ^ 32" "heap_capacity < 2 ^ 32"
    using tn(1) start(2) by (auto simp: top_n_ok_def UINT32_MAX_def)
  note init = rows_ok_Init [OF this]
  have "sink_inv b tn (row_keys (tn_layout tn) pending) (p, pending)"
    unfolding sink_inv_def using start rows init
    by (auto simp: store_ok_def best_of_def TupleDataCollectionInit_def intro!: exI [of _ "{#}"])
  then have inv: "sink_inv b tn (row_keys (tn_layout tn) pending) (p1, pending1)" by (rule sink_inv_reach [OF tn(1) _ steps])
  show ?thesis
    using sink_completes [OF tn(1) inv] finished_top_n [OF tn(2,3) sort inv] by blast
qed

definition top_two :: top_n where
  "top_two = \<lparr>tn_schema_slots = [0], tn_layout = int_layout, tn_sort_keys = [\<lparr>sk_col_idx = 0, sk_asc = True, sk_nulls_first = False\<rparr>],
     tn_max_rows = 2\<rparr>"

definition empty_top_two :: top_n_payload where
  "empty_top_two = \<lparr>tp_tdc = Some (TupleDataCollectionInit 2 8 0), tp_sort_indices = None, tp_finalized = False\<rparr>"

lemma top_two_facts: "top_n_ok 64 0 top_two" "input_row_ok 0 top_two (int_chunk vs) i"
proof -
  show "top_n_ok 64 0 top_two"
    using int_layout_facts(1) by (simp add: top_n_ok_def top_two_def schema_ok_def int_layout_def N_SLOTS_def UINT32_MAX_def
        TupleDataCollectionDefaultHeapCapacity_def kTupleDataCollectionMaxFlatAllocBytes_def)
  show "input_row_ok 0 top_two (int_chunk vs) i"
    by (simp add: input_row_ok_def top_two_def vals_need_def key_ok_def int_layout_facts) (simp add: int_layout_def)
qed

theorem top_n_returns_the_best_witness:
  "\<exists>p1 done p2 chunks. (sink_step 64 top_two)\<^sup>*\<^sup>* (empty_top_two, [[(int_chunk [5, 3], 0), (int_chunk [5, 3], 1)], [(int_chunk [4], 0)]]) (p1, done) \<and>
    concat done = [] \<and> TopNFinalize insertion_sort top_two p1 = Inr p2 \<and>
    read_all 3 (TopNGetData top_two p2) 0 empty_chunk = Some (Inr chunks) \<and>
    concat (map (chunk_keys int_layout) chunks) = [[GInt32 3], [GInt32 4]]"
proof -
  let ?rows = "[[(int_chunk [5, 3], 0), (int_chunk [5, 3], 1)], [(int_chunk [4], 0)]]"
  have rows: "\<forall>rows\<in>set ?rows. \<forall>(ch, i)\<in>set rows. input_row_ok 0 top_two ch i" using top_two_facts(2) by simp
  have start: "tp_tdc empty_top_two = Some (TupleDataCollectionInit (tn_max_rows top_two) (unat (layout_row_width (tn_layout top_two))) 0)"
    by (simp add: empty_top_two_def top_two_def int_layout_def)
  have g: "gatherable (tn_layout top_two)" using int_layout_facts(2) by (simp add: top_two_def)
  have small: "(0 :: nat) \<le> 65536" "(0 :: nat) < UINT32_MAX" by (simp_all add: UINT32_MAX_def)
  note returns = top_n_returns_the_best [OF top_two_facts(1) g small(1) insertion_sort_ok rows start small(2), where out = empty_chunk]
  obtain p1 "done" where steps: "(sink_step 64 top_two)\<^sup>*\<^sup>* (empty_top_two, ?rows) (p1, done)" "concat done = []"
    using returns [OF rtranclp.rtrancl_refl, THEN conjunct1] by (elim exE conjE) (rule that)
  obtain p2 chunks where out: "TopNFinalize insertion_sort top_two p1 = Inr p2"
      "read_all (tn_max_rows top_two + 1) (TopNGetData top_two p2) 0 empty_chunk = Some (Inr chunks)"
      "sorted_wrt (\<lambda>a b. tn_compare top_two a b \<le> 0) (concat (map (chunk_keys (tn_layout top_two)) chunks))"
      "best_of (tn_compare top_two) (tn_max_rows top_two) (mset (concat (map (chunk_keys (tn_layout top_two)) chunks)))
        (row_keys (tn_layout top_two) ?rows)"
    using mp [OF conjunct2 [OF returns [OF steps(1)]] steps(2)] by (elim exE conjE) (rule that)
  define ks where "ks = concat (map (chunk_keys int_layout) chunks)"
  have all: "row_keys int_layout ?rows = {#[GInt32 5], [GInt32 3], [GInt32 4]#}"
    by (simp add: row_keys_def int_layout_facts(3))
  have ks: "sorted_wrt (\<lambda>a b. tn_compare top_two a b \<le> 0) ks" "best_of (tn_compare top_two) 2 (mset ks) {#[GInt32 5], [GInt32 3], [GInt32 4]#}"
    using out(3,4) all unfolding ks_def by (simp_all add: top_two_def)
  then obtain x y where xy: "ks = [x, y]" by (auto simp: best_of_def length_Suc_conv numeral_2_eq_2)
  have "ks = [[GInt32 3], [GInt32 4]]"
    using ks unfolding xy
    by (auto simp: best_of_def insert_subset_eq_iff top_two_def key_compare_def three_way_def)
  moreover have "read_all 3 (TopNGetData top_two p2) 0 empty_chunk = Some (Inr chunks)" using out(2) by (simp add: top_two_def)
  ultimately show ?thesis using steps out(1) unfolding ks_def by blast
qed

end
