(* ===== verification/RowGrow.thy ===== *)
theory RowGrow
  imports RowStore
begin

text \<open>
  Growing a collection, as the sort (physical_order.cpp) and the output sink (output_sink.cpp) do it before they append a
  row: a collection of twice the rows and one and a half times the heap takes the rows over. The copy keeps the keys,
  one growth makes the room that is asked for, and it fails only when the grown collection would pass the limit on
  flat allocations.
\<close>

section \<open>Growing and appending\<close>

type_synonym row_put = "tuple_data_layout \<Rightarrow> tuple_data_collection \<Rightarrow> u8 list \<Rightarrow> u8 list \<times> tuple_data_collection \<Rightarrow>
  (u8 list \<times> tuple_data_collection) result"

definition grow_tdc ::
  "row_put \<Rightarrow> string \<Rightarrow> nat \<Rightarrow> tuple_data_layout \<Rightarrow> tuple_data_collection \<Rightarrow> nat \<Rightarrow> tuple_data_collection result" where
  "grow_tdc put err hdr layout old_tdc required_heap_bytes =
     (let old_count = tdc_row_count old_tdc; width = tdc_row_width old_tdc;
          new_capacity = max (wrap32 (tdc_row_capacity old_tdc * 2)) (wrap32 (old_count + 1))
      in rbind (TupleDataCollectionClampRowCapacity hdr new_capacity width required_heap_bytes (wrap32 (old_count + 1))) (\<lambda>new_capacity.
         rbind (TupleDataCollectionGrowHeapCapacity hdr (Some layout) old_tdc new_capacity required_heap_bytes) (\<lambda>heap_capacity.
         rbind (TupleDataCollectionCheckedAllocSize hdr new_capacity width heap_capacity) (\<lambda>_.
           fold_res (\<lambda>row_idx new_tdc. append_with err (put layout old_tdc (TupleDataCollectionGetRow old_tdc row_idx)) new_tdc)
             [0..<old_count] (TupleDataCollectionInit new_capacity width heap_capacity)))))"

text \<open>\<^verbatim>\<open>while (!HasSpaceForAppend(...)) Grow(...)\<close>; \<^verbatim>\<open>None\<close> would be a loop that never ends.\<close>

partial_function (option) make_room ::
  "(tuple_data_collection \<Rightarrow> nat \<Rightarrow> tuple_data_collection result) \<Rightarrow> nat \<Rightarrow> tuple_data_collection \<Rightarrow> tuple_data_collection result option" where
  "make_room grow required tdc =
     (if TupleDataCollectionHasSpaceForAppend tdc required then Some (Inr tdc)
      else case grow tdc required of Inl e \<Rightarrow> Some (Inl e) | Inr tdc \<Rightarrow> make_room grow required tdc)"

definition append_chunk_row ::
  "(tuple_data_collection \<Rightarrow> nat \<Rightarrow> tuple_data_collection result) \<Rightarrow> string \<Rightarrow> tuple_data_layout \<Rightarrow> data_chunk \<Rightarrow> nat \<Rightarrow>
   tuple_data_collection \<Rightarrow> tuple_data_collection result option" where
  "append_chunk_row grow err layout chunk row_idx tdc =
     Option.bind (make_room grow (TupleDataCollectionRequiredHeapBytesForChunkRow layout chunk row_idx) tdc)
       (\<lambda>r. Some (rbind r (append_with err (scatter_row layout chunk row_idx))))"

text \<open>A loop whose body may raise or not end.\<close>

fun fold_opt :: "('a \<Rightarrow> 's \<Rightarrow> 's result option) \<Rightarrow> 'a list \<Rightarrow> 's \<Rightarrow> 's result option" where
  "fold_opt f [] s = Some (Inr s)"
| "fold_opt f (x # xs) s = (case f x s of None \<Rightarrow> None | Some (Inl e) \<Rightarrow> Some (Inl e) | Some (Inr s) \<Rightarrow> fold_opt f xs s)"

section \<open>What growing promises\<close>

text \<open>A collection within the allocation limit whose heap holds the strings of its rows and nothing else.\<close>

definition row_store :: "nat \<Rightarrow> tuple_data_layout \<Rightarrow> tuple_data_collection \<Rightarrow> bool" where
  "row_store hdr l t \<longleftrightarrow>
     rows_ok l t \<and> 0 < tdc_row_width t \<and>
     hdr + tdc_row_capacity t * tdc_row_width t + tdc_heap_capacity t < kTupleDataCollectionMaxFlatAllocBytes \<and>
     tdc_heap_used t = sum_list (map vals_need (stored_keys l t)) \<and>
     (LayoutHasStringColumns l \<longleftrightarrow> tdc_heap_capacity t \<noteq> 0)"

text \<open>The bytes that the code asks for, cut off at the width of its type.\<close>

definition key_bytes :: "gval list \<Rightarrow> nat" where
  "key_bytes k = min (vals_need k) UINT32_MAX"

definition grown_rows :: "tuple_data_collection \<Rightarrow> nat" where
  "grown_rows t = max (2 * tdc_row_capacity t) (tdc_row_count t + 1)"

definition grown_heap :: "tuple_data_collection \<Rightarrow> nat \<Rightarrow> nat" where
  "grown_heap t need = (if tdc_heap_capacity t = 0 then 0
     else max (tdc_heap_used t + need) (tdc_heap_capacity t + max (tdc_heap_capacity t div 2) (1024 * 1024)))"

definition grow_fits :: "nat \<Rightarrow> tuple_data_collection \<Rightarrow> nat \<Rightarrow> bool" where
  "grow_fits hdr t need \<longleftrightarrow>
     hdr + grown_rows t * tdc_row_width t + grown_heap t need < kTupleDataCollectionMaxFlatAllocBytes"

text \<open>Storing the rows was refused: some of them are stored, there is no space for the next one, and growing would pass the limit.\<close>

definition refused :: "nat \<Rightarrow> tuple_data_layout \<Rightarrow> gval list list \<Rightarrow> bool" where
  "refused hdr l keys \<longleftrightarrow>
     (\<exists>s k ks. row_store hdr l s \<and> keys = stored_keys l s @ k # ks \<and>
        \<not> TupleDataCollectionHasSpaceForAppend s (key_bytes k) \<and> \<not> grow_fits hdr s (key_bytes k))"

lemma refused_append: "refused hdr l keys \<Longrightarrow> refused hdr l (keys @ keys')"
  unfolding refused_def by fastforce

lemma layout_width_less: "layout_ok l \<Longrightarrow> unat (layout_row_width l) \<le> 1024"
  by (auto simp: layout_ok_def)

lemma row_store_bounds:
  assumes "layout_ok l" "row_store hdr l t"
  shows "8 \<le> tdc_row_width t" "tdc_row_width t \<le> 1024" "tdc_row_capacity t < 2 ^ 29" "tdc_row_count t \<le> tdc_row_capacity t"
    "wrap32 (tdc_row_capacity t * 2) = 2 * tdc_row_capacity t" "wrap32 (tdc_row_count t + 1) = tdc_row_count t + 1"
    "grown_rows t < 2 ^ 32"
proof -
  have w: "tdc_row_width t = unat (layout_row_width l)" "0 < tdc_row_width t" using assms(2) by (auto simp: row_store_def rows_ok_def)
  have "8 dvd tdc_row_width t" using assms(1) by (simp add: w layout_ok_def)
  then show w8: "8 \<le> tdc_row_width t" using w(2) by (rule dvd_imp_le)
  show "tdc_row_width t \<le> 1024" using layout_width_less [OF assms(1)] by (simp add: w)
  have "tdc_row_capacity t * 8 \<le> tdc_row_capacity t * tdc_row_width t" using w8 by simp
  also have "\<dots> < 3221225472" using assms(2) by (simp add: row_store_def kTupleDataCollectionMaxFlatAllocBytes_def)
  finally show cap: "tdc_row_capacity t < 2 ^ 29" by simp
  show count: "tdc_row_count t \<le> tdc_row_capacity t" using assms(2) by (auto simp: row_store_def rows_ok_def tdc_ok_def)
  show "wrap32 (tdc_row_capacity t * 2) = 2 * tdc_row_capacity t" "wrap32 (tdc_row_count t + 1) = tdc_row_count t + 1"
    "grown_rows t < 2 ^ 32"
    using cap count by (simp_all add: grown_rows_def)
qed


lemma stored_needs: "sum_list (map (\<lambda>r. vals_need (key_of l t r)) [0..<tdc_row_count t]) = sum_list (map vals_need (stored_keys l t))"
  by (simp add: stored_keys_def comp_def)

lemma check_alloc:
  assumes "hdr < 2 ^ 16" "cap < 2 ^ 32" "w \<le> 1024" "hc < 2 ^ 32"
  shows "TupleDataCollectionCheckFlatAllocSize hdr cap w hc =
    (if hdr + cap * w + hc < kTupleDataCollectionMaxFlatAllocBytes then Inr () else Inl (Elog ''TDC flat allocation exceeds limit''))"
proof -
  have "cap * w \<le> 2 ^ 32 * 1024" using assms by (intro mult_le_mono) auto
  then have "hdr + cap * w + hc < 2 ^ 64" using assms by simp
  then show ?thesis by (simp add: TupleDataCollectionCheckFlatAllocSize_def)
qed

lemma DefaultHeap_strings: "\<not> LayoutHasStringColumns l \<Longrightarrow> TupleDataCollectionDefaultHeapCapacity (Some l) cap = 0"
  by (auto simp: TupleDataCollectionDefaultHeapCapacity_def LayoutHasStringColumns_def list_ex_iff filter_empty_conv)

lemma DefaultHeap:
  assumes "layout_ok l" "cap < 2 ^ 29"
  shows "TupleDataCollectionDefaultHeapCapacity (Some l) cap < 2 ^ 32"
    and "0 < cap \<Longrightarrow> LayoutHasStringColumns l \<Longrightarrow> 0 < TupleDataCollectionDefaultHeapCapacity (Some l) cap"
proof -
  let ?n = "length (filter (\<lambda>c. col_kind c = STRING_REF) (columns l))"
  have "?n \<le> 32" using length_filter_le assms(1) unfolding layout_ok_def by (blast intro: order_trans)
  then have "cap * ?n \<le> 2 ^ 29 * 32" using assms(2) by (intro mult_le_mono) simp_all
  then have "cap * ?n * 96 < 2 ^ 64" by simp
  then have bytes: "wrap64 (cap * ?n * 96) = cap * ?n * 96" by simp
  show "TupleDataCollectionDefaultHeapCapacity (Some l) cap < 2 ^ 32"
    by (auto simp: TupleDataCollectionDefaultHeapCapacity_def Let_def UINT32_MAX_def)
  assume "0 < cap" "LayoutHasStringColumns l"
  then have "0 < cap * ?n * 96" by (auto simp: LayoutHasStringColumns_def list_ex_iff filter_empty_conv)
  then show "0 < TupleDataCollectionDefaultHeapCapacity (Some l) cap"
    unfolding TupleDataCollectionDefaultHeapCapacity_def Let_def bytes option.case by (auto simp: UINT32_MAX_def)
qed

lemma vals_need_strings: "LayoutHasStringColumns l \<or> vals_need (chunk_key l ch i) = 0"
proof (rule disjCI)
  assume "vals_need (chunk_key l ch i) \<noteq> 0"
  then obtain v where "v \<in> set (chunk_key l ch i)" "val_need v \<noteq> 0" by (auto simp: vals_need_def sum_list_eq_0_iff)
  then show "LayoutHasStringColumns l"
    by (auto simp: chunk_key_def chunk_val_def LayoutHasStringColumns_def list_ex_iff Let_def split: tdc_column_kind.splits)
qed

text \<open>The new heap, whether or not there is one yet.\<close>

lemma grow_heap:
  assumes l: "layout_ok l" and t: "row_store hdr l t" and hdr: "hdr < 2 ^ 16"
    and need: "need < 2 ^ 32" "LayoutHasStringColumns l \<or> need = 0" and cap: "cap < 2 ^ 32"
  shows "TupleDataCollectionGrowHeapCapacity hdr (Some l) t cap need = Inr hc \<Longrightarrow>
      tdc_heap_used t + need \<le> hc \<and> hc < 2 ^ 32 \<and> (tdc_heap_capacity t \<noteq> 0 \<longleftrightarrow> hc \<noteq> 0)"
    and "hdr + cap * tdc_row_width t + grown_heap t need < kTupleDataCollectionMaxFlatAllocBytes \<Longrightarrow>
      TupleDataCollectionGrowHeapCapacity hdr (Some l) t cap need = Inr (grown_heap t need)"
proof -
  note bounds = row_store_bounds [OF l t]
  have ok: "tdc_ok t" using t by (simp add: row_store_def rows_ok_def)
  have used: "tdc_heap_used t \<le> tdc_heap_capacity t" using ok by (simp add: tdc_ok_def)
  have width: "tdc_row_width t < 2 ^ 16" using bounds(2) by simp
  have none: "TupleDataCollectionGrowHeapCapacity hdr (Some l) t cap need =
      (if hdr + cap * tdc_row_width t < kTupleDataCollectionMaxFlatAllocBytes then Inr 0 else Inl (Elog ''TDC flat allocation exceeds limit''))"
    and need0: "need = 0" if "tdc_heap_capacity t = 0"
  proof -
    have strings: "\<not> LayoutHasStringColumns l" using t that by (auto simp: row_store_def)
    then show "need = 0" using need by simp
    have "TupleDataCollectionDefaultHeapCapacity (Some l) cap = 0" using strings by (rule DefaultHeap_strings)
    then show "TupleDataCollectionGrowHeapCapacity hdr (Some l) t cap need =
      (if hdr + cap * tdc_row_width t < kTupleDataCollectionMaxFlatAllocBytes then Inr 0 else Inl (Elog ''TDC flat allocation exceeds limit''))"
      using that by (simp add: TupleDataCollectionGrowHeapCapacity_def check_alloc [OF hdr cap bounds(2)])
  qed
  show "tdc_heap_used t + need \<le> hc \<and> hc < 2 ^ 32 \<and> (tdc_heap_capacity t \<noteq> 0 \<longleftrightarrow> hc \<noteq> 0)"
    if G: "TupleDataCollectionGrowHeapCapacity hdr (Some l) t cap need = Inr hc"
  proof (cases "tdc_heap_capacity t = 0")
    case True
    then show ?thesis using G none [OF True] need0 [OF True] used by (simp split: if_splits)
  next
    case False
    note H = GrowHeap_Inr [OF G ok False hdr cap width need(1)]
    have "hc \<le> kTupleDataCollectionMaxFlatAllocBytes" unfolding H(3) by simp
    then have "hc < 2 ^ 32" using kMax_less by (rule le_less_trans)
    moreover have "tdc_heap_used t + need \<le> hc" unfolding H(3) using H(2) by simp
    moreover have "0 < hc" unfolding H(3) using H(1) False by (simp add: less_max_iff_disj)
    ultimately show ?thesis using False by simp
  qed
  show "TupleDataCollectionGrowHeapCapacity hdr (Some l) t cap need = Inr (grown_heap t need)"
    if fits: "hdr + cap * tdc_row_width t + grown_heap t need < kTupleDataCollectionMaxFlatAllocBytes"
  proof (cases "tdc_heap_capacity t = 0")
    case True
    then show ?thesis using none [OF True] fits by (simp add: grown_heap_def)
  next
    case False
    then have g: "grown_heap t need = max (tdc_heap_used t + need) (tdc_heap_capacity t + max (tdc_heap_capacity t div 2) (1024 * 1024))"
      by (simp add: grown_heap_def)
    have "tdc_heap_used t + need \<le> grown_heap t need" by (simp add: g)
    then show ?thesis
      unfolding GrowHeap_cases [OF ok False hdr cap width need(1)] Let_def g [symmetric]
      using fits by (simp add: min_def)
  qed
qed

context row_copy
begin

lemma grow_tdc_sound:
  assumes l: "layout_ok l" "aggregates l = []" and t: "row_store hdr l t" and hdr: "hdr < 2 ^ 16"
    and need: "need < 2 ^ 32" "LayoutHasStringColumns l \<or> need = 0" and G: "grow_tdc put err hdr l t need = Inr t'"
  shows "row_store hdr l t' \<and> stored_keys l t' = stored_keys l t \<and> TupleDataCollectionHasSpaceForAppend t' need"
proof -
  note bounds = row_store_bounds [OF l(1) t]
  have rows: "rows_ok l t" "tdc_row_width t = unat (layout_row_width l)" using t by (auto simp: row_store_def rows_ok_def)
  obtain n hc where n: "TupleDataCollectionClampRowCapacity hdr (grown_rows t) (tdc_row_width t) need (tdc_row_count t + 1) = Inr n"
    and hc: "TupleDataCollectionGrowHeapCapacity hdr (Some l) t n need = Inr hc"
    and alloc: "TupleDataCollectionCheckFlatAllocSize hdr n (tdc_row_width t) hc = Inr ()"
    and copied: "fold_res (\<lambda>r u. append_with err (put l t (TupleDataCollectionGetRow t r)) u) [0..<tdc_row_count t]
      (TupleDataCollectionInit n (tdc_row_width t) hc) = Inr t'"
    using G bounds(5,6) by (auto simp: grow_tdc_def Let_def res_simps grown_rows_def TupleDataCollectionCheckedAllocSize_def)
  have n': "tdc_row_count t + 1 \<le> n" "n < 2 ^ 32"
  proof -
    have c: "need < kTupleDataCollectionMaxFlatAllocBytes" using n by (auto simp: TupleDataCollectionClampRowCapacity_def split: if_splits)
    have le: "tdc_row_count t + 1 \<le> grown_rows t" by (simp add: grown_rows_def)
    have w: "0 < tdc_row_width t" "tdc_row_width t < 2 ^ 16" using bounds(1,2) by simp_all
    show "tdc_row_count t + 1 \<le> n" "n < 2 ^ 32"
      using ClampRowCapacity_result [OF w hdr bounds(7) le c n] bounds(7) le by (auto split: if_splits)
  qed
  note H = grow_heap(1) [OF l(1) t hdr need n'(2) hc]
  have fits: "hdr + n * tdc_row_width t + hc < kTupleDataCollectionMaxFlatAllocBytes"
    using alloc H by (simp add: check_alloc [OF hdr n'(2) bounds(2)] split: if_splits)
  have hc32: "hc < 2 ^ 32" using H by simp
  note t0 = rows_ok_Init [OF l(1) n'(2) hc32]
  have cap: "length (filter (\<lambda>_. True) [0..<tdc_row_count t]) \<le> tdc_row_capacity (TupleDataCollectionInit n (tdc_row_width t) hc)"
    using n' by (simp add: TupleDataCollectionInit_def)
  have heap: "sum_list (map (\<lambda>r. vals_need (key_of l t r)) (filter (\<lambda>_. True) [0..<tdc_row_count t]))
      \<le> tdc_heap_capacity (TupleDataCollectionInit n (tdc_row_width t) hc)"
    using H t by (simp add: stored_needs row_store_def TupleDataCollectionInit_def)
  have empty: "tdc_row_count (TupleDataCollectionInit n (tdc_row_width t) hc) = 0" "tdc_heap_used (TupleDataCollectionInit n (tdc_row_width t) hc) = 0"
    by (simp_all add: TupleDataCollectionInit_def)
  have t': "rows_ok l t'" "stored_keys l t' = stored_keys l t" "tdc_row_capacity t' = n" "tdc_heap_capacity t' = hc"
    "tdc_heap_used t' = sum_list (map vals_need (stored_keys l t))"
    using copied_rows [OF l rows(1) t0(1) [folded rows(2)] empty cap heap order_refl, of err] copied
    by (auto simp: stored_needs stored_keys_def [of l t, symmetric] TupleDataCollectionInit_def)
  have count: "tdc_row_count t' = tdc_row_count t" using arg_cong [OF t'(2), of length] by simp
  have "row_store hdr l t'"
    using t' fits t H rows bounds(1) by (auto simp: row_store_def rows_ok_def)
  moreover have "TupleDataCollectionHasSpaceForAppend t' need"
    using n' H t t'(3-5) count by (auto simp: TupleDataCollectionHasSpaceForAppend_def row_store_def)
  ultimately show ?thesis using t'(2) by blast
qed

lemma grow_tdc_succeeds:
  assumes l: "layout_ok l" "aggregates l = []" and t: "row_store hdr l t" and hdr: "hdr < 2 ^ 16"
    and need: "need < 2 ^ 32" "LayoutHasStringColumns l \<or> need = 0" and fits: "grow_fits hdr t need"
  shows "\<exists>t'. grow_tdc put err hdr l t need = Inr t'"
proof -
  note bounds = row_store_bounds [OF l(1) t]
  let ?K = kTupleDataCollectionMaxFlatAllocBytes
  have rows: "rows_ok l t" "tdc_row_width t = unat (layout_row_width l)" using t by (auto simp: row_store_def rows_ok_def)
  have heap_need: "need \<le> grown_heap t need"
    using t need(2) by (auto simp: grown_heap_def row_store_def max_def)
  have total: "hdr + grown_rows t * tdc_row_width t + need < ?K" using fits heap_need by (simp add: grow_fits_def)
  have K: "?K < 2 ^ 32" by (rule kMax_less)
  have "sub64 (sub64 ?K hdr) need = ?K - hdr - need" using total K by simp
  moreover have "grown_rows t \<le> (?K - hdr - need) div tdc_row_width t"
    using total bounds(1) by (simp add: less_eq_div_iff_mult_less_eq)
  moreover have "tdc_row_count t + 1 \<le> grown_rows t" by (simp add: grown_rows_def)
  ultimately have clamp: "TupleDataCollectionClampRowCapacity hdr (grown_rows t) (tdc_row_width t) need (tdc_row_count t + 1) = Inr (grown_rows t)"
    using total bounds(1) by (simp add: TupleDataCollectionClampRowCapacity_def Let_def)
  have fits': "hdr + grown_rows t * tdc_row_width t + grown_heap t need < ?K" using fits by (simp add: grow_fits_def)
  note hc = grow_heap(2) [OF l(1) t hdr need bounds(7) fits']
  note H = grow_heap(1) [OF l(1) t hdr need bounds(7) hc]
  have alloc: "TupleDataCollectionCheckFlatAllocSize hdr (grown_rows t) (tdc_row_width t) (grown_heap t need) = Inr ()"
    using fits' H by (simp add: check_alloc [OF hdr bounds(7) bounds(2)])
  have hc32: "grown_heap t need < 2 ^ 32" using H by simp
  let ?t0 = "TupleDataCollectionInit (grown_rows t) (tdc_row_width t) (grown_heap t need)"
  note t0 = rows_ok_Init [OF l(1) bounds(7) hc32]
  have cap: "length (filter (\<lambda>_. True) [0..<tdc_row_count t]) \<le> tdc_row_capacity ?t0"
    by (simp add: TupleDataCollectionInit_def grown_rows_def)
  have heap: "sum_list (map (\<lambda>r. vals_need (key_of l t r)) (filter (\<lambda>_. True) [0..<tdc_row_count t])) \<le> tdc_heap_capacity ?t0"
    using H t by (simp add: stored_needs row_store_def TupleDataCollectionInit_def)
  have empty: "tdc_row_count ?t0 = 0" "tdc_heap_used ?t0 = 0" by (simp_all add: TupleDataCollectionInit_def)
  have "\<exists>t'. fold_res (\<lambda>r u. append_with err (put l t (TupleDataCollectionGetRow t r)) u) [0..<tdc_row_count t] ?t0 = Inr t'"
    using copied_rows [OF l rows(1) t0(1) [folded rows(2)] empty cap heap order_refl, of err] by auto
  then show ?thesis
    unfolding grow_tdc_def Let_def bounds(5,6) grown_rows_def [symmetric]
    using clamp hc alloc by (simp add: TupleDataCollectionCheckedAllocSize_def)
qed

text \<open>One row of a chunk: at most one growth makes the room, and only the limit can refuse it.\<close>

lemma append_chunk_row_ok:
  assumes l: "layout_ok l" "aggregates l = []" and t: "row_store hdr l t" and hdr: "hdr < 2 ^ 16" and ch: "chunk_row_ok l ch i"
  shows "\<exists>r. append_chunk_row (grow_tdc put err hdr l) err' l ch i t = Some r \<and>
    (case r of
       Inl e \<Rightarrow> \<not> TupleDataCollectionHasSpaceForAppend t (key_bytes (chunk_key l ch i)) \<and> \<not> grow_fits hdr t (key_bytes (chunk_key l ch i))
     | Inr t' \<Rightarrow> row_store hdr l t' \<and> stored_keys l t' = stored_keys l t @ [chunk_key l ch i])"
proof -
  let ?need = "key_bytes (chunk_key l ch i)"
  have required: "TupleDataCollectionRequiredHeapBytesForChunkRow l ch i = ?need"
    by (simp add: RequiredHeapBytesForChunkRow_need [OF l(1)] key_need_key [OF ch] key_bytes_def)
  have need: "?need < 2 ^ 32" by (simp add: key_bytes_def UINT32_MAX_def)
  have strings: "LayoutHasStringColumns l \<or> ?need = 0" using vals_need_strings [of l ch i] by (auto simp: key_bytes_def)
  have put_in: "\<exists>u. append_with err' (scatter_row l ch i) s = Inr u \<and> row_store hdr l u \<and> stored_keys l u = stored_keys l s @ [chunk_key l ch i]"
    if s: "row_store hdr l s" and space: "TupleDataCollectionHasSpaceForAppend s ?need" for s
  proof -
    have rows: "rows_ok l s" using s by (simp add: row_store_def)
    have count: "tdc_row_count s < tdc_row_capacity s" using space by (simp add: TupleDataCollectionHasSpaceForAppend_def split: if_splits)
    have "tdc_heap_capacity s < UINT32_MAX"
      using s by (simp add: row_store_def kTupleDataCollectionMaxFlatAllocBytes_def UINT32_MAX_def)
    moreover have "?need \<le> tdc_heap_capacity s - tdc_heap_used s"
      using space by (auto simp: TupleDataCollectionHasSpaceForAppend_def split: if_splits)
    ultimately have room: "key_need l ch i \<le> tdc_heap_capacity s - tdc_heap_used s"
      by (auto simp: key_need_key [OF ch] key_bytes_def min_def split: if_splits)
    obtain u where u: "append_with err' (scatter_row l ch i) s = Inr u" "appended l (chunk_key l ch i) (key_need l ch i) s u"
      by (rule append_scatter [OF l rows count ch room])
    then have "row_store hdr l u" "stored_keys l u = stored_keys l s @ [chunk_key l ch i]"
      using s by (auto simp: appended_def row_store_def rows_ok_def key_need_key [OF ch])
    then show ?thesis using u by blast
  qed
  show ?thesis
  proof (cases "TupleDataCollectionHasSpaceForAppend t ?need")
    case True
    obtain u where "append_with err' (scatter_row l ch i) t = Inr u" "row_store hdr l u" "stored_keys l u = stored_keys l t @ [chunk_key l ch i]"
      using put_in [OF t True] by blast
    then show ?thesis using True by (simp add: append_chunk_row_def required make_room.simps [of _ ?need t])
  next
    case False
    show ?thesis
    proof (cases "grow_tdc put err hdr l t ?need")
      case (Inl e)
      then have "\<not> grow_fits hdr t ?need" using grow_tdc_succeeds [OF l t hdr need strings, of err] by fastforce
      then show ?thesis using False Inl by (simp add: append_chunk_row_def required make_room.simps [of _ ?need t])
    next
      case (Inr s)
      note S = grow_tdc_sound [OF l t hdr need strings Inr]
      obtain u where "append_with err' (scatter_row l ch i) s = Inr u" "row_store hdr l u" "stored_keys l u = stored_keys l s @ [chunk_key l ch i]"
        using put_in S by blast
      then show ?thesis
        using False Inr S by (simp add: append_chunk_row_def required make_room.simps [of _ ?need t] make_room.simps [of _ ?need s])
    qed
  qed
qed

lemma append_rows_ok:
  assumes l: "layout_ok l" "aggregates l = []" and hdr: "hdr < 2 ^ 16"
  shows "row_store hdr l t \<Longrightarrow> \<forall>i\<in>set rows. chunk_row_ok l ch i \<Longrightarrow>
    \<exists>r. fold_opt (append_chunk_row (grow_tdc put err hdr l) err' l ch) rows t = Some r \<and>
     (case r of
        Inl e \<Rightarrow> refused hdr l (stored_keys l t @ map (chunk_key l ch) rows)
      | Inr t' \<Rightarrow> row_store hdr l t' \<and> stored_keys l t' = stored_keys l t @ map (chunk_key l ch) rows)"
proof (induction rows arbitrary: t)
  case Nil
  then show ?case by simp
next
  case (Cons i rows)
  then have "chunk_row_ok l ch i" by simp
  from append_chunk_row_ok [OF l Cons.prems(1) hdr this, of err err'] obtain r where
    r: "append_chunk_row (grow_tdc put err hdr l) err' l ch i t = Some r"
      "case r of
         Inl e \<Rightarrow> \<not> TupleDataCollectionHasSpaceForAppend t (key_bytes (chunk_key l ch i)) \<and> \<not> grow_fits hdr t (key_bytes (chunk_key l ch i))
       | Inr t' \<Rightarrow> row_store hdr l t' \<and> stored_keys l t' = stored_keys l t @ [chunk_key l ch i]" by blast
  show ?case
  proof (cases r)
    case (Inl e)
    then have "refused hdr l (stored_keys l t @ chunk_key l ch i # map (chunk_key l ch) rows)"
      unfolding refused_def using r(2) Cons.prems(1) by auto
    then show ?thesis using r(1) Inl by simp
  next
    case (Inr t1)
    then have t1: "row_store hdr l t1" "stored_keys l t1 = stored_keys l t @ [chunk_key l ch i]" using r(2) by simp_all
    have "\<forall>i\<in>set rows. chunk_row_ok l ch i" using Cons.prems(2) by simp
    from Cons.IH [OF t1(1) this] show ?thesis using r(1) Inr t1(2) by (simp cong: sum.case_cong)
  qed
qed

end

end
