(* ===== verification/OrderBy.thy ===== *)
theory OrderBy
  imports RowGrow GatherRows
begin

text \<open>
  The sort operator, physical_order.cpp. One worker sinks the chunks into a growing collection, Finalize sorts the
  indices of the rows by the columns of the key layout, and GetData returns the rows in that order. \<open>hdr\<close> is the size of
  a collection's header; the checks of the cancel flag are functions of the position where the code makes them.
\<close>

section \<open>State\<close>

record order_op =
  oo_sort_keys :: "sort_key list"
  oo_key_layout :: "tuple_data_layout option"
  oo_payload_layout :: "tuple_data_layout option"

record order_state =
  os_payload :: "tuple_data_collection option"
  os_sort_indices :: "nat list option"

section \<open>The sink\<close>

definition GrowOrderTdc :: "nat \<Rightarrow> tuple_data_layout \<Rightarrow> tuple_data_collection \<Rightarrow> nat \<Rightarrow> tuple_data_collection result" where
  "GrowOrderTdc hdr layout = grow_tdc (CopyTdcRow ''order TDC grow ran out of heap'') ''order TDC grow copy overflow'' hdr layout"

fun order_sink_rows ::
  "(nat \<Rightarrow> bool) \<Rightarrow> nat \<Rightarrow> tuple_data_layout \<Rightarrow> data_chunk \<Rightarrow> nat list \<Rightarrow> tuple_data_collection \<Rightarrow>
   (sink_result \<times> tuple_data_collection) result option" where
  "order_sink_rows cancel hdr layout chunk [] tdc = Some (Inr (SINK_NEED_MORE_INPUT, tdc))"
| "order_sink_rows cancel hdr layout chunk (row_idx # rest) tdc =
     (if cancel row_idx then Some (Inr (SINK_FINISHED, tdc))
      else case append_chunk_row (GrowOrderTdc hdr layout) ''order sink row capacity exceeded'' layout chunk row_idx tdc of
             None \<Rightarrow> None
           | Some (Inl e) \<Rightarrow> Some (Inl e)
           | Some (Inr tdc) \<Rightarrow> order_sink_rows cancel hdr layout chunk rest tdc)"

definition OrderSinkChunk ::
  "(nat \<Rightarrow> bool) \<Rightarrow> nat \<Rightarrow> order_op \<Rightarrow> data_chunk \<Rightarrow> order_state \<Rightarrow> (sink_result \<times> order_state) result option" where
  "OrderSinkChunk cancel hdr op chunk st =
     (case (os_payload st, oo_payload_layout op) of
        (Some tdc, Some layout) \<Rightarrow>
          map_option (map_sum id (\<lambda>(res, tdc). (res, st\<lparr>os_payload := Some tdc\<rparr>)))
            (order_sink_rows cancel hdr layout chunk [0..<chunk_count chunk] tdc)
      | _ \<Rightarrow> Some (Inl (Elog ''order sink payload not initialized'')))"

section \<open>Finalize\<close>

text \<open>
  The lambda of the sort. CompareKeyColumn raises an error when a string has no heap behind it; the heap is
  that of the payload, which is there.
\<close>

fun order_less :: "tdc_column_desc list \<Rightarrow> sort_key list \<Rightarrow> tuple_data_collection \<Rightarrow> u8 list \<Rightarrow> u8 list \<Rightarrow> bool" where
  "order_less [] keys payload row_a row_b = False"
| "order_less (col # cols) keys payload row_a row_b =
     (let cmp = compare_stored_column col payload row_a payload row_b; asc = (case keys of [] \<Rightarrow> True | key # _ \<Rightarrow> sk_asc key)
      in if cmp \<noteq> 0 then (if asc then cmp < 0 else 0 < cmp) else order_less cols (tl keys) payload row_a row_b)"

text \<open>\<open>cancel_fill\<close> is asked while the indices are filled in, \<open>cancel_sort\<close> once before the sort.\<close>

definition OrderFinalize ::
  "((nat \<Rightarrow> nat \<Rightarrow> bool) \<Rightarrow> nat list \<Rightarrow> nat list) \<Rightarrow> (nat \<Rightarrow> bool) \<Rightarrow> bool \<Rightarrow> order_op \<Rightarrow> order_state \<Rightarrow> order_state result" where
  "OrderFinalize std_sort cancel_fill cancel_sort op st =
     (case os_payload st of
        None \<Rightarrow> Inr st
      | Some payload \<Rightarrow>
          (case (oo_key_layout op, oo_payload_layout op) of
             (Some key_layout, Some _) \<Rightarrow>
               if list_ex cancel_fill [0..<tdc_row_count payload] then Inr st
               else if cancel_sort then Inr (st\<lparr>os_sort_indices := Some [0..<tdc_row_count payload]\<rparr>)
               else Inr (st\<lparr>os_sort_indices := Some (std_sort (\<lambda>lhs rhs. order_less (columns key_layout) (oo_sort_keys op) payload
                              (TupleDataCollectionGetRow payload lhs) (TupleDataCollectionGetRow payload rhs)) [0..<tdc_row_count payload]),
                           os_payload := Some (payload\<lparr>tdc_finalized := True\<rparr>)\<rparr>)
           | _ \<Rightarrow> Inl (Elog ''order finalize missing key/payload layouts'')))"

section \<open>The source\<close>

definition OrderGetData :: "(nat \<Rightarrow> bool) \<Rightarrow> order_op \<Rightarrow> order_state \<Rightarrow> nat \<Rightarrow> data_chunk \<Rightarrow> (source_result \<times> nat \<times> data_chunk) result" where
  "OrderGetData cancel op st cursor out =
     (let out = chunk_reset out
      in case os_payload st of
           None \<Rightarrow> Inr (SRC_FINISHED, cursor, out)
         | Some payload \<Rightarrow>
             if \<not> tdc_finalized payload then Inr (SRC_FINISHED, cursor, out)
             else case oo_payload_layout op of
                    None \<Rightarrow> Inl (Elog ''order source missing payload layout'')
                  | Some layout \<Rightarrow>
                      case os_sort_indices st of
                        None \<Rightarrow> Inl (Elog ''order source missing sort indices'')
                      | Some indices \<Rightarrow>
                          rbind (gather_rows cancel layout payload (drop cursor indices) (cursor, out))
                            (\<lambda>(cursor, out). Inr (if 0 < chunk_count out then SRC_HAVE_MORE_OUTPUT else SRC_FINISHED, cursor, out)))"

section \<open>The sort order\<close>

text \<open>The columns of the key layout are fields of the payload's rows; as sort keys of the payload they name those fields.\<close>

definition same_field :: "tdc_column_desc \<Rightarrow> tdc_column_desc \<Rightarrow> bool" where
  "same_field c c' \<longleftrightarrow> col_offset c = col_offset c' \<and> col_kind c = col_kind c'"

definition field_index :: "tuple_data_layout \<Rightarrow> tdc_column_desc \<Rightarrow> nat" where
  "field_index l c = length (takeWhile (\<lambda>c'. \<not> same_field c c') (columns l))"

fun order_keys :: "tuple_data_layout \<Rightarrow> tdc_column_desc list \<Rightarrow> sort_key list \<Rightarrow> sort_key list" where
  "order_keys l [] keys = []"
| "order_keys l (col # cols) keys =
     \<lparr>sk_col_idx = field_index l col, sk_asc = (case keys of [] \<Rightarrow> True | key # _ \<Rightarrow> sk_asc key), sk_nulls_first = False\<rparr>
       # order_keys l cols (tl keys)"

definition key_fields :: "tuple_data_layout \<Rightarrow> tdc_column_desc list \<Rightarrow> bool" where
  "key_fields l cols \<longleftrightarrow> list_all (\<lambda>c. list_ex (same_field c) (columns l)) cols"

lemma field_index:
  assumes "list_ex (same_field c) (columns l)"
  shows "field_index l c < length (columns l)" "same_field c (columns l ! field_index l c)"
proof -
  obtain c' where c': "c' \<in> set (columns l)" "same_field c c'" using assms by (auto simp: list_ex_iff)
  then have "dropWhile (\<lambda>c'. \<not> same_field c c') (columns l) \<noteq> []" by (auto simp: dropWhile_eq_Nil_conv)
  then show "field_index l c < length (columns l)"
    unfolding field_index_def by (metis takeWhile_dropWhile_id length_append length_greater_0_conv less_add_same_cancel1)
  then show "same_field c (columns l ! field_index l c)"
    unfolding field_index_def using nth_length_takeWhile [of "\<lambda>c'. \<not> same_field c c'" "columns l"] by simp
qed

lemma order_less_key:
  assumes "row_ok l (tdc_heap t) used row_a" "row_ok l (tdc_heap t) used row_b"
  shows "key_fields l cols \<Longrightarrow> order_less cols keys t row_a row_b \<longleftrightarrow>
    key_compare (order_keys l cols keys) (row_key l (tdc_heap t) row_a) (row_key l (tdc_heap t) row_b) < 0"
proof (induction cols arbitrary: keys)
  case (Cons c cols)
  have ex: "list_ex (same_field c) (columns l)" using Cons.prems by (simp add: key_fields_def)
  note field = field_index [OF ex]
  let ?c = "columns l ! field_index l c"
  have same: "compare_stored_column c t row_a t row_b = compare_stored_column ?c t row_a t row_b"
    using field(2) by (simp add: compare_stored_column_def same_field_def)
  have val: "compare_stored_column ?c t row_a t row_b = val_compare (row_val (tdc_heap t) row_a ?c) (row_val (tdc_heap t) row_b ?c)"
    by (rule compare_stored_column_val) (use assms field(1) in \<open>auto simp: row_ok_def row_refs_ok_def\<close>)
  have "key_fields l cols" using Cons.prems by (simp add: key_fields_def)
  from Cons.IH [OF this, of "tl keys"] show ?case
    using field(1) by (auto simp: key_compare_Cons row_key_def same val Let_def)
qed (simp add: key_compare_def)

section \<open>The operator\<close>

definition order_sink_all :: "nat \<Rightarrow> order_op \<Rightarrow> data_chunk list \<Rightarrow> order_state \<Rightarrow> order_state result option" where
  "order_sink_all hdr op = fold_opt (\<lambda>ch st. map_option (map_sum id snd) (OrderSinkChunk (\<lambda>_. False) hdr op ch st))"

lemma order_sink_rows_fold:
  "order_sink_rows (\<lambda>_. False) hdr l ch rows t =
    map_option (map_sum id (\<lambda>t. (SINK_NEED_MORE_INPUT, t)))
      (fold_opt (append_chunk_row (GrowOrderTdc hdr l) ''order sink row capacity exceeded'' l ch) rows t)"
  by (induction rows arbitrary: t) (auto split: option.splits sum.splits)

text \<open>The sink returns, with every row in the collection; only a growth past the allocation limit is an error.\<close>

lemma order_sink_chunk:
  assumes l: "layout_ok l" "aggregates l = []" "oo_payload_layout op = Some l" and hdr: "hdr < 2 ^ 16"
    and st: "os_payload st = Some t" "row_store hdr l t" and rows: "\<forall>i<chunk_count ch. chunk_row_ok l ch i"
  shows "\<exists>r. OrderSinkChunk (\<lambda>_. False) hdr op ch st = Some r \<and>
    (case r of
       Inl e \<Rightarrow> refused hdr l (stored_keys l t @ chunk_keys l ch)
     | Inr (res, st') \<Rightarrow> res = SINK_NEED_MORE_INPUT \<and> (\<exists>t'. st' = st\<lparr>os_payload := Some t'\<rparr> \<and> row_store hdr l t' \<and>
         stored_keys l t' = stored_keys l t @ chunk_keys l ch))"
proof -
  have "\<forall>i\<in>set [0..<chunk_count ch]. chunk_row_ok l ch i" using rows by simp
  from tdc_copy.append_rows_ok [OF l(1,2) hdr st(2) this, of "''order TDC grow ran out of heap''" "''order TDC grow copy overflow''"
      "''order sink row capacity exceeded''", folded GrowOrderTdc_def chunk_keys_def]
  obtain r where r: "fold_opt (append_chunk_row (GrowOrderTdc hdr l) ''order sink row capacity exceeded'' l ch) [0..<chunk_count ch] t = Some r"
    "case r of Inl e \<Rightarrow> refused hdr l (stored_keys l t @ chunk_keys l ch)
      | Inr t' \<Rightarrow> row_store hdr l t' \<and> stored_keys l t' = stored_keys l t @ chunk_keys l ch"
    by (elim exE conjE) (rule that)
  have "OrderSinkChunk (\<lambda>_. False) hdr op ch st =
      Some (map_sum id (\<lambda>(res, t). (res, st\<lparr>os_payload := Some t\<rparr>)) (map_sum id (\<lambda>t. (SINK_NEED_MORE_INPUT, t)) r))"
    by (simp add: OrderSinkChunk_def st l order_sink_rows_fold r(1))
  then show ?thesis using r(2) by (cases r) auto
qed

lemma order_sink_chunks:
  assumes l: "layout_ok l" "aggregates l = []" "oo_payload_layout op = Some l" and hdr: "hdr < 2 ^ 16"
  shows "os_payload st = Some t \<Longrightarrow> row_store hdr l t \<Longrightarrow> \<forall>ch\<in>set chunks. \<forall>i<chunk_count ch. chunk_row_ok l ch i \<Longrightarrow>
    \<exists>r. order_sink_all hdr op chunks st = Some r \<and>
     (case r of
        Inl e \<Rightarrow> refused hdr l (stored_keys l t @ concat (map (chunk_keys l) chunks))
      | Inr st' \<Rightarrow> \<exists>t'. st' = st\<lparr>os_payload := Some t'\<rparr> \<and> row_store hdr l t' \<and>
          stored_keys l t' = stored_keys l t @ concat (map (chunk_keys l) chunks))"
proof (induction chunks arbitrary: st t)
  case Nil
  then have "\<exists>t'. st = st\<lparr>os_payload := Some t'\<rparr> \<and> row_store hdr l t' \<and> stored_keys l t' = stored_keys l t"
    by (intro exI [of _ t]) (cases st, simp)
  then show ?case by (simp add: order_sink_all_def)
next
  case (Cons ch chunks)
  have "\<forall>i<chunk_count ch. chunk_row_ok l ch i" using Cons.prems(3) by simp
  from order_sink_chunk [OF l hdr Cons.prems(1,2) this] obtain r where
    r: "OrderSinkChunk (\<lambda>_. False) hdr op ch st = Some r" and R: "case r of
       Inl e \<Rightarrow> refused hdr l (stored_keys l t @ chunk_keys l ch)
     | Inr (res, st') \<Rightarrow> res = SINK_NEED_MORE_INPUT \<and> (\<exists>t'. st' = st\<lparr>os_payload := Some t'\<rparr> \<and> row_store hdr l t' \<and>
         stored_keys l t' = stored_keys l t @ chunk_keys l ch)" by blast
  show ?case
  proof (cases r)
    case (Inl e)
    then show ?thesis
      using r R refused_append [of hdr l "stored_keys l t @ chunk_keys l ch" "concat (map (chunk_keys l) chunks)"] by (simp add: order_sink_all_def)
  next
    case (Inr x)
    then obtain t1 where t1: "x = (SINK_NEED_MORE_INPUT, st\<lparr>os_payload := Some t1\<rparr>)" "row_store hdr l t1"
      "stored_keys l t1 = stored_keys l t @ chunk_keys l ch" using R by (cases x) auto
    have "\<forall>ch\<in>set chunks. \<forall>i<chunk_count ch. chunk_row_ok l ch i" using Cons.prems(3) by simp
    from Cons.IH [of "st\<lparr>os_payload := Some t1\<rparr>", OF _ t1(2) this] show ?thesis
      using r Inr t1 by (simp add: order_sink_all_def cong: sum.case_cong)
  qed
qed

lemma OrderFinalize_sorted:
  assumes op: "oo_payload_layout op = Some l" "oo_key_layout op = Some kl" "key_fields l (columns kl)"
    and st: "os_payload st = Some t" "rows_ok l t" and sort: "std_sort_ok std_sort"
    and ok: "\<forall>k\<in>set (stored_keys l t). key_ok kinds (order_keys l (columns kl) (oo_sort_keys op)) k"
  obtains indices where "OrderFinalize std_sort (\<lambda>_. False) False op st =
      Inr (st\<lparr>os_sort_indices := Some indices, os_payload := Some (t\<lparr>tdc_finalized := True\<rparr>)\<rparr>)"
    "mset indices = mset [0..<tdc_row_count t]"
    "sorted_wrt (\<lambda>a b. key_compare (order_keys l (columns kl) (oo_sort_keys op)) a b \<le> 0) (map (key_of l t) indices)"
proof -
  let ?lt = "\<lambda>lhs rhs. order_less (columns kl) (oo_sort_keys op) t (TupleDataCollectionGetRow t lhs) (TupleDataCollectionGetRow t rhs)"
  have cmp: "?lt i j \<longleftrightarrow> key_compare (order_keys l (columns kl) (oo_sort_keys op)) (key_of l t i) (key_of l t j) < 0"
    if "i < tdc_row_count t" "j < tdc_row_count t" for i j
    using order_less_key [OF _ _ op(3), of t "tdc_heap_used t" "tdc_rows t ! i" "tdc_rows t ! j"] st(2) that
    by (simp add: rows_ok_def key_of_def TupleDataCollectionGetRow_def)
  have "list_ex (\<lambda>_. False) [0..<tdc_row_count t] = False" by (simp add: list_ex_iff)
  then have "OrderFinalize std_sort (\<lambda>_. False) False op st =
      Inr (st\<lparr>os_sort_indices := Some (std_sort ?lt [0..<tdc_row_count t]), os_payload := Some (t\<lparr>tdc_finalized := True\<rparr>)\<rparr>)"
    by (simp add: OrderFinalize_def st op)
  then show thesis using that sort_rows [OF sort ok cmp] by blast
qed

text \<open>C16: The sort operator never loops. It fails only when growing its collection would pass the allocation limit, with the rows
  before that point stored; otherwise the chunks its source returns hold exactly the rows that came in, in the order of
  the key columns.\<close>

theorem order_returns_sorted_rows:
  assumes op: "oo_payload_layout op = Some l" "oo_key_layout op = Some kl" "key_fields l (columns kl)"
    and l: "layout_ok l" "gatherable l" and hdr: "hdr < 2 ^ 16" and sort: "std_sort_ok std_sort"
    and st: "os_payload st = Some t" "row_store hdr l t" "stored_keys l t = []"
    and rows: "\<forall>ch\<in>set chunks. \<forall>i<chunk_count ch. chunk_row_ok l ch i \<and> short_strings (chunk_key l ch i) \<and>
      key_ok (map col_kind (columns l)) (order_keys l (columns kl) (oo_sort_keys op)) (chunk_key l ch i)"
  shows "\<exists>r. order_sink_all hdr op chunks st = Some r \<and>
    (case r of
       Inl e \<Rightarrow> refused hdr l (concat (map (chunk_keys l) chunks))
     | Inr st1 \<Rightarrow> \<exists>st2 returned. OrderFinalize std_sort (\<lambda>_. False) False op st1 = Inr st2 \<and>
         read_all (Suc (length (concat (map (chunk_keys l) chunks)))) (OrderGetData (\<lambda>_. False) op st2) 0 out = Some (Inr returned) \<and>
         sorted_wrt (\<lambda>a b. key_compare (order_keys l (columns kl) (oo_sort_keys op)) a b \<le> 0) (concat (map (chunk_keys l) returned)) \<and>
         mset (concat (map (chunk_keys l) returned)) = mset (concat (map (chunk_keys l) chunks)))"
proof -
  let ?all = "concat (map (chunk_keys l) chunks)" and ?keys = "order_keys l (columns kl) (oo_sort_keys op)"
  have agg: "aggregates l = []" using l(2) by (simp add: gatherable_def)
  have "\<forall>ch\<in>set chunks. \<forall>i<chunk_count ch. chunk_row_ok l ch i" using rows by blast
  from order_sink_chunks [OF l(1) agg op(1) hdr st(1,2) this] obtain r where r: "order_sink_all hdr op chunks st = Some r"
    and R: "case r of
        Inl e \<Rightarrow> refused hdr l ?all
      | Inr st' \<Rightarrow> \<exists>t'. st' = st\<lparr>os_payload := Some t'\<rparr> \<and> row_store hdr l t' \<and> stored_keys l t' = ?all"
    unfolding st(3) append_Nil by blast
  show ?thesis
  proof (cases r)
    case (Inl e)
    then show ?thesis using r R by simp
  next
    case (Inr st1)
    then obtain t1 where t1: "st1 = st\<lparr>os_payload := Some t1\<rparr>" "row_store hdr l t1" "stored_keys l t1 = ?all" using R by auto
    have rows1: "rows_ok l t1" and pay: "os_payload st1 = Some t1" using t1(1,2) by (simp_all add: row_store_def)
    have all: "k \<in> set ?all \<Longrightarrow> short_strings k \<and> key_ok (map col_kind (columns l)) ?keys k" for k
      using rows by (auto simp: chunk_keys_def)
    then have keys: "\<forall>k\<in>set (stored_keys l t1). key_ok (map col_kind (columns l)) ?keys k" unfolding t1(3) by blast
    obtain indices where fin: "OrderFinalize std_sort (\<lambda>_. False) False op st1 =
        Inr (st1\<lparr>os_sort_indices := Some indices, os_payload := Some (t1\<lparr>tdc_finalized := True\<rparr>)\<rparr>)"
      "mset indices = mset [0..<tdc_row_count t1]" "sorted_wrt (\<lambda>a b. key_compare ?keys a b \<le> 0) (map (key_of l t1) indices)"
      by (rule OrderFinalize_sorted [OF op pay rows1 sort keys])
    let ?st2 = "st1\<lparr>os_sort_indices := Some indices, os_payload := Some (t1\<lparr>tdc_finalized := True\<rparr>)\<rparr>"
    have count: "tdc_row_count t1 = length ?all" using arg_cong [OF t1(3), of length] by simp
    have len: "length indices = length ?all" using arg_cong [OF fin(2), of size] count by simp
    have "readable l (t1\<lparr>tdc_finalized := True\<rparr>) indices"
      unfolding readable_def
    proof
      fix i assume "i \<in> set indices"
      then have i: "i < tdc_row_count t1" using mset_eq_setD [OF fin(2)] by simp
      then have "key_of l t1 i \<in> set (stored_keys l t1)" by (simp add: stored_keys_def)
      then have "short_strings (key_of l t1 i)" unfolding t1(3) using all by blast
      then show "i < tdc_row_count (t1\<lparr>tdc_finalized := True\<rparr>) \<and> short_strings (key_of l (t1\<lparr>tdc_finalized := True\<rparr>) i)"
        using i by simp
    qed
    moreover have "rows_ok l (t1\<lparr>tdc_finalized := True\<rparr>)" using rows1 by (rule finalized_rows_ok)
    moreover have "OrderGetData (\<lambda>_. False) op ?st2 cursor out =
        rbind (gather_rows (\<lambda>_. False) l (t1\<lparr>tdc_finalized := True\<rparr>) (drop cursor indices) (cursor, chunk_reset out))
          (\<lambda>(cursor, out). Inr (if 0 < chunk_count out then SRC_HAVE_MORE_OUTPUT else SRC_FINISHED, cursor, out))" for cursor out
      by (simp add: OrderGetData_def op)
    ultimately obtain returned where returned: "read_all (Suc (length ?all)) (OrderGetData (\<lambda>_. False) op ?st2) 0 out = Some (Inr returned)"
      "concat (map (chunk_keys l) returned) = map (key_of l t1) indices"
      using read_all_rows [OF l(2), of "t1\<lparr>tdc_finalized := True\<rparr>" indices 0 "Suc (length ?all)" "OrderGetData (\<lambda>_. False) op ?st2" out] len
      by auto
    have "mset (map (key_of l t1) indices) = mset ?all"
      unfolding t1(3) [symmetric] stored_keys_def mset_map fin(2) ..
    then show ?thesis using r Inr fin(1,3) returned by auto
  qed
qed

definition descending :: order_op where
  "descending = \<lparr>oo_sort_keys = [\<lparr>sk_col_idx = 0, sk_asc = False, sk_nulls_first = False\<rparr>],
     oo_key_layout = Some int_layout, oo_payload_layout = Some int_layout\<rparr>"

definition one_row_store :: order_state where
  "one_row_store = \<lparr>os_payload = Some (TupleDataCollectionInit 1 8 0), os_sort_indices = None\<rparr>"

lemma ints_not_refused: "length keys < 2 ^ 26 \<Longrightarrow> \<not> refused 64 int_layout (map (\<lambda>v. [GInt32 v]) keys)"
proof
  assume short: "length keys < 2 ^ 26" and "refused 64 int_layout (map (\<lambda>v. [GInt32 v]) keys)"
  then obtain s k ks where s: "row_store 64 int_layout s" "map (\<lambda>v. [GInt32 v]) keys = stored_keys int_layout s @ k # ks"
    "\<not> TupleDataCollectionHasSpaceForAppend s (key_bytes k)" "\<not> grow_fits 64 s (key_bytes k)" unfolding refused_def by blast
  have "k \<in> set (map (\<lambda>v. [GInt32 v]) keys)" unfolding s(2) by simp
  then have k: "key_bytes k = 0" by (auto simp: key_bytes_def vals_need_def)
  have heap: "tdc_heap_capacity s = 0" "tdc_row_width s = 8"
    using s(1) by (auto simp: row_store_def rows_ok_def LayoutHasStringColumns_def int_layout_def)
  have "tdc_row_count s < 2 ^ 26" using arg_cong [OF s(2), of length] short by simp
  moreover have "tdc_row_capacity s \<le> tdc_row_count s"
    using s(3) k by (simp add: TupleDataCollectionHasSpaceForAppend_def split: if_splits)
  ultimately have "grow_fits 64 s 0"
    by (simp add: grow_fits_def grown_rows_def grown_heap_def heap kTupleDataCollectionMaxFlatAllocBytes_def)
  then show False using s(4) k by simp
qed

theorem order_returns_sorted_rows_witness:
  "\<exists>st1 st2 returned. order_sink_all 64 descending [int_chunk [3, 5], int_chunk [4]] one_row_store = Some (Inr st1) \<and>
    OrderFinalize insertion_sort (\<lambda>_. False) False descending st1 = Inr st2 \<and>
    read_all 4 (OrderGetData (\<lambda>_. False) descending st2) 0 empty_chunk = Some (Inr returned) \<and>
    concat (map (chunk_keys int_layout) returned) = [[GInt32 5], [GInt32 4], [GInt32 3]]"
proof -
  let ?chunks = "[int_chunk [3, 5], int_chunk [4]]" and ?t = "TupleDataCollectionInit 1 8 0"
  have op: "oo_payload_layout descending = Some int_layout" "oo_key_layout descending = Some int_layout" by (simp_all add: descending_def)
  have fields: "key_fields int_layout (columns int_layout)" by (simp add: key_fields_def int_layout_def same_field_def)
  have width: "unat (layout_row_width int_layout) = 8" by (simp add: int_layout_def)
  have st: "os_payload one_row_store = Some ?t" by (simp add: one_row_store_def)
  have init: "rows_ok int_layout ?t" "stored_keys int_layout ?t = []"
    using rows_ok_Init [OF int_layout_facts(1), of 1 0] by (simp_all add: width)
  have store: "row_store 64 int_layout ?t"
    using init by (simp add: row_store_def TupleDataCollectionInit_def kTupleDataCollectionMaxFlatAllocBytes_def
        LayoutHasStringColumns_def int_layout_def)
  have all: "concat (map (chunk_keys int_layout) ?chunks) = map (\<lambda>v. [GInt32 v]) [3, 5, 4]" by (simp add: int_chunk_keys)
  have len: "Suc (length (map (\<lambda>v. [GInt32 v]) [3, 5, 4 :: u32])) = 4" by simp
  have keys: "order_keys int_layout (columns int_layout) (oo_sort_keys descending) = [\<lparr>sk_col_idx = 0, sk_asc = False, sk_nulls_first = False\<rparr>]"
    by (simp add: int_layout_def descending_def field_index_def same_field_def)
  have rows: "\<forall>ch\<in>set ?chunks. \<forall>i<chunk_count ch. chunk_row_ok int_layout ch i \<and> short_strings (chunk_key int_layout ch i) \<and>
      key_ok (map col_kind (columns int_layout)) (order_keys int_layout (columns int_layout) (oo_sort_keys descending)) (chunk_key int_layout ch i)"
    unfolding keys by (simp add: int_layout_facts short_strings_def key_ok_def) (simp add: int_layout_def)
  have hdr: "(64 :: nat) < 2 ^ 16" by simp
  note returns = order_returns_sorted_rows [OF op fields int_layout_facts(1,2) hdr insertion_sort_ok st store init(2) rows, where out = empty_chunk]
  obtain r where r: "order_sink_all 64 descending ?chunks one_row_store = Some r" and R: "case r of
      Inl e \<Rightarrow> refused 64 int_layout (map (\<lambda>v. [GInt32 v]) [3, 5, 4])
    | Inr st1 \<Rightarrow> \<exists>st2 returned. OrderFinalize insertion_sort (\<lambda>_. False) False descending st1 = Inr st2 \<and>
         read_all 4 (OrderGetData (\<lambda>_. False) descending st2) 0 empty_chunk = Some (Inr returned) \<and>
         sorted_wrt (\<lambda>a b. key_compare [\<lparr>sk_col_idx = 0, sk_asc = False, sk_nulls_first = False\<rparr>] a b \<le> 0)
           (concat (map (chunk_keys int_layout) returned)) \<and>
         mset (concat (map (chunk_keys int_layout) returned)) = mset (map (\<lambda>v. [GInt32 v]) [3, 5, 4])"
    using returns unfolding all keys len by (elim exE conjE) (rule that)
  have "\<not> refused 64 int_layout (map (\<lambda>v. [GInt32 v]) [3, 5, 4])" by (rule ints_not_refused) simp
  then obtain st1 where st1: "r = Inr st1" using R by (cases r) auto
  then obtain st2 returned where out: "OrderFinalize insertion_sort (\<lambda>_. False) False descending st1 = Inr st2"
    "read_all 4 (OrderGetData (\<lambda>_. False) descending st2) 0 empty_chunk = Some (Inr returned)"
    "sorted_wrt (\<lambda>a b. key_compare [\<lparr>sk_col_idx = 0, sk_asc = False, sk_nulls_first = False\<rparr>] a b \<le> 0)
           (concat (map (chunk_keys int_layout) returned))"
    "mset (concat (map (chunk_keys int_layout) returned)) = mset (map (\<lambda>v. [GInt32 v]) [3, 5, 4])" using R by auto
  define ks where "ks = concat (map (chunk_keys int_layout) returned)"
  have ks: "mset ks = {#[GInt32 3], [GInt32 5], [GInt32 4]#}" using out(4) by (simp add: ks_def)
  have "size (mset ks) = 3" unfolding ks by simp
  then have "length ks = 3" by simp
  then obtain x y z where xyz: "ks = [x, y, z]" by (auto simp: numeral_3_eq_3 length_Suc_conv)
  have "ks = [[GInt32 5], [GInt32 4], [GInt32 3]]"
    using ks out(3) unfolding ks_def [symmetric] xyz
    by (auto simp: key_compare_def three_way_def add_eq_conv_ex)
  then show ?thesis using r st1 out(1,2) unfolding ks_def by blast
qed

end
