(* ===== verification/OutputSink.thy ===== *)
theory OutputSink
  imports RowGrow GatherRows JoinRows
begin

text \<open>
  The output sink, output_sink.cpp: the rows of the query's last pipeline are kept in a growing collection, or, under a
  limit with sort keys, in a collection of that many rows whose worst row gives way; after Finalize the leader sorts the
  rows, encodes them as datums and sends as many as the limit allows to the client.
\<close>

section \<open>State\<close>

record column_schema =
  cs_type_oid :: nat
  cs_typmod :: int
  cs_chunk_slot :: nat
  cs_decode_kind :: column_decode_kind

record output_op =
  ou_schema :: "column_schema list"
  ou_layout :: tuple_data_layout
  ou_sort_keys :: "sort_key list"
  ou_max_emit_rows :: nat

record output_state =
  us_global_tdc :: "tuple_data_collection option"
  us_emitted_rows :: nat

text \<open>A datum: the constructor is the PostgreSQL function that the code calls to make it.\<close>

datatype datum =
    CharDatum u8 | DateADTDatum u32 | Int32Datum u32 | BoolDatum bool | Int64Datum u64 | Float8Datum u64
  | TextDatum "u8 list" | VarcharDatum "u8 list" int | BpcharDatum "u8 list" int | NumericDatum u64 int
  | BpcharByteDatum u8

section \<open>Comparisons\<close>

text \<open>CompareOutputKeyColumn of two rows of the collection; the chunk side reads logical values.\<close>

definition CompareOutputKeyColumn :: "tuple_data_collection \<Rightarrow> tdc_column_desc \<Rightarrow> u8 list \<Rightarrow> u8 list \<Rightarrow> int" where
  "CompareOutputKeyColumn tdc col row_a row_b = compare_stored_column col tdc row_a tdc row_b"

definition CompareStoredOutputRows :: "tuple_data_layout \<Rightarrow> sort_key list \<Rightarrow> tuple_data_collection \<Rightarrow> u8 list \<Rightarrow> u8 list \<Rightarrow> int" where
  "CompareStoredOutputRows layout keys tdc row_a row_b =
     compare_by (\<lambda>key. if column_count layout \<le> sk_col_idx key then 0
       else CompareOutputKeyColumn tdc (columns layout ! sk_col_idx key) row_a row_b) keys"

definition compare_output_column ::
  "nat \<Rightarrow> tdc_column_desc \<Rightarrow> data_chunk \<Rightarrow> nat \<Rightarrow> tuple_data_collection \<Rightarrow> u8 list \<Rightarrow> int" where
  "compare_output_column slot col chunk row_idx tdc stored_row =
     (let off = unat (col_offset col)
      in case col_kind col of
           INT32 \<Rightarrow> three_way (sint (get_int32 chunk slot row_idx)) (sint (get_u32 off stored_row))
         | INT64 \<Rightarrow> three_way (sint (get_int64 chunk slot row_idx)) (sint (get_u64 off stored_row))
         | DOUBLE \<Rightarrow> compare_doubles (get_double chunk slot row_idx) (get_u64 off stored_row)
         | STRING_REF \<Rightarrow>
             let rhs_ref = read_string_ref off stored_row
             in compare_string_refs (get_string_ref chunk slot row_idx) (get_string_ptr chunk slot row_idx)
                  rhs_ref (VecStringRefDataPtr rhs_ref (Some (tdc_heap tdc))))"

definition OutputCompareChunkRow ::
  "column_schema list \<Rightarrow> tuple_data_layout \<Rightarrow> sort_key list \<Rightarrow> data_chunk \<Rightarrow> nat \<Rightarrow> tuple_data_collection \<Rightarrow> u8 list \<Rightarrow> int" where
  "OutputCompareChunkRow schema layout keys chunk row_idx tdc stored_row =
     compare_by (\<lambda>key. if column_count layout \<le> sk_col_idx key \<or> length schema \<le> sk_col_idx key then 0
       else compare_output_column (cs_chunk_slot (schema ! sk_col_idx key)) (columns layout ! sk_col_idx key) chunk row_idx tdc stored_row) keys"

definition FindWorstTopNRowIndex :: "tuple_data_layout \<Rightarrow> sort_key list \<Rightarrow> tuple_data_collection \<Rightarrow> nat" where
  "FindWorstTopNRowIndex layout keys tdc =
     fold (\<lambda>row_idx worst_idx.
         if 0 < CompareStoredOutputRows layout keys tdc (TupleDataCollectionGetRow tdc row_idx) (TupleDataCollectionGetRow tdc worst_idx)
         then row_idx else worst_idx) [1..<tdc_row_count tdc] 0"

section \<open>The sink\<close>

definition GrowOutputTdc :: "nat \<Rightarrow> tuple_data_layout \<Rightarrow> tuple_data_collection \<Rightarrow> nat \<Rightarrow> tuple_data_collection result" where
  "GrowOutputTdc hdr layout = grow_tdc CopyOutputRow ''output TDC grow copy overflow'' hdr layout"

definition replacement_heap ::
  "tuple_data_layout \<Rightarrow> tuple_data_collection \<Rightarrow> data_chunk \<Rightarrow> nat \<Rightarrow> nat \<Rightarrow> nat result" where
  "replacement_heap layout old_tdc chunk row_idx worst_idx =
     kept_rows_heap layout old_tdc worst_idx (TupleDataCollectionRequiredHeapBytesForChunkRow layout chunk row_idx)"

definition ReplaceWorstTopNRow ::
  "nat \<Rightarrow> tuple_data_layout \<Rightarrow> tuple_data_collection \<Rightarrow> data_chunk \<Rightarrow> nat \<Rightarrow> nat \<Rightarrow> tuple_data_collection result" where
  "ReplaceWorstTopNRow hdr layout old_tdc chunk row_idx worst_idx =
     rbind (replacement_heap layout old_tdc chunk row_idx worst_idx) (\<lambda>heap_needed.
       let row_capacity = tdc_row_capacity old_tdc; width = tdc_row_width old_tdc;
           default = TupleDataCollectionDefaultHeapCapacity (Some layout) row_capacity;
           heap_capacity = (if heap_needed > default then wrap32 heap_needed else default)
       in rbind (TupleDataCollectionCheckFlatAllocSize hdr row_capacity width heap_capacity) (\<lambda>_.
          rbind (fold_res (\<lambda>existing_idx new_tdc. if existing_idx \<noteq> worst_idx
                   then append_with ''top-N output replacement overflow while copying survivors''
                          (CopyOutputRow layout old_tdc (TupleDataCollectionGetRow old_tdc existing_idx)) new_tdc
                   else Inr new_tdc) [0..<tdc_row_count old_tdc] (TupleDataCollectionInit row_capacity width heap_capacity))
            (append_with ''top-N output replacement overflow while appending new row'' (scatter_row layout chunk row_idx))))"

definition sink_output_row ::
  "nat \<Rightarrow> output_op \<Rightarrow> data_chunk \<Rightarrow> nat \<Rightarrow> tuple_data_collection \<times> nat \<Rightarrow> (tuple_data_collection \<times> nat) result option" where
  "sink_output_row hdr op chunk row = (\<lambda>(tdc, emitted).
     let layout = ou_layout op; keys = ou_sort_keys op
     in if 0 < ou_max_emit_rows op \<and> 0 < length keys \<and> ou_max_emit_rows op \<le> tdc_row_count tdc
        then let worst_idx = FindWorstTopNRowIndex layout keys tdc
             in if OutputCompareChunkRow (ou_schema op) layout keys chunk row tdc (TupleDataCollectionGetRow tdc worst_idx) < 0
                then Some (rbind (ReplaceWorstTopNRow hdr layout tdc chunk row worst_idx) (\<lambda>tdc. Inr (tdc, emitted + 1)))
                else Some (Inr (tdc, emitted))
        else map_option (\<lambda>r. rbind r (\<lambda>tdc. Inr (tdc, emitted + 1)))
               (append_chunk_row (GrowOutputTdc hdr layout) ''output sink row capacity exceeded'' layout chunk row tdc))"

definition OutputSinkChunk :: "nat \<Rightarrow> output_op \<Rightarrow> data_chunk \<Rightarrow> output_state \<Rightarrow> (sink_result \<times> output_state) result option" where
  "OutputSinkChunk hdr op chunk st =
     (case us_global_tdc st of
        None \<Rightarrow> Some (Inl (Elog ''output sink not initialized''))
      | Some tdc \<Rightarrow>
          map_option (\<lambda>r. rbind r (\<lambda>(tdc, emitted). Inr (SINK_NEED_MORE_INPUT, \<lparr>us_global_tdc = Some tdc, us_emitted_rows = emitted\<rparr>)))
            (fold_opt (sink_output_row hdr op chunk) [0..<chunk_count chunk] (tdc, us_emitted_rows st)))"

definition OutputFinalize :: "output_state \<Rightarrow> output_state" where
  "OutputFinalize st = st\<lparr>us_global_tdc := map_option (\<lambda>tdc. tdc\<lparr>tdc_finalized := True\<rparr>) (us_global_tdc st)\<rparr>"

section \<open>Sending the rows\<close>

definition ResolveRowValueLocation ::
  "tuple_data_layout \<Rightarrow> nat \<Rightarrow> tdc_column_kind \<Rightarrow> (tdc_column_desc + tdc_aggregate_desc) option" where
  "ResolveRowValueLocation layout chunk_slot expected_kind =
     (case filter (\<lambda>c. unat (col_src_col_idx c) = chunk_slot \<and> col_kind c = expected_kind) (columns layout) of
        c # _ \<Rightarrow> Some (Inl c)
      | [] \<Rightarrow> if column_count layout \<le> chunk_slot \<and> chunk_slot - column_count layout < length (aggregates layout)
              then Some (Inr (aggregates layout ! (chunk_slot - column_count layout))) else None)"

abbreviation (input) "BOOLOID \<equiv> 16 :: nat"
abbreviation (input) "INT4OID \<equiv> 23 :: nat"
abbreviation (input) "TEXTOID \<equiv> 25 :: nat"
abbreviation (input) "BPCHAROID \<equiv> 1042 :: nat"
abbreviation (input) "VARCHAROID \<equiv> 1043 :: nat"

definition EncodeStringDatum :: "column_schema \<Rightarrow> u8 list option \<Rightarrow> datum result" where
  "EncodeStringDatum col ptr =
     (case ptr of
        None \<Rightarrow> Inl (Elog ''string output missing arena backing'')
      | Some bytes \<Rightarrow>
          if cs_type_oid col = TEXTOID then Inr (TextDatum bytes)
          else if cs_type_oid col = VARCHAROID then Inr (VarcharDatum bytes (cs_typmod col))
          else if cs_type_oid col = BPCHAROID then Inr (BpcharDatum bytes (cs_typmod col))
          else Inl (Elog ''string decode_kind unsupported for output type''))"

definition EncodeColumnFromRow :: "column_schema \<Rightarrow> tuple_data_layout \<Rightarrow> tuple_data_collection \<Rightarrow> u8 list \<Rightarrow> datum result" where
  "EncodeColumnFromRow col layout tdc row =
     (case Option.bind (ColumnDecodeKindToTdcKind (cs_decode_kind col)) (ResolveRowValueLocation layout (cs_chunk_slot col)) of
        None \<Rightarrow> Inl (Elog ''output chunk slot not present in row layout'')
      | Some loc \<Rightarrow>
          let offset = (case loc of Inl c \<Rightarrow> unat (col_offset c) | Inr a \<Rightarrow> unat (agg_offset a))
          in if cs_decode_kind col \<in> {INT32_CHAR, INT32_INT4, INT32_DATE} then
               (case loc of
                  Inr _ \<Rightarrow> Inl (Elog ''int32 output slot missing row column'')
                | Inl c \<Rightarrow>
                    let value = get_u32 offset row
                    in Inr (if cs_decode_kind col = INT32_CHAR then CharDatum (ucast value)
                            else if cs_decode_kind col = INT32_DATE then DateADTDatum value else Int32Datum value))
             else if cs_decode_kind col = INT64_INT8 then
               let value = get_u64 offset row
               in Inr (if cs_type_oid col = BOOLOID then BoolDatum (value \<noteq> 0)
                       else if cs_type_oid col = INT4OID then Int32Datum (ucast value) else Int64Datum value)
             else if cs_decode_kind col = DOUBLE_FLOAT8 then
               (case loc of
                  Inr _ \<Rightarrow> Inl (Elog ''float8 output slot missing row column'')
                | Inl c \<Rightarrow> Inr (Float8Datum (get_u64 offset row)))
             else if cs_decode_kind col = DECODE_STRING_REF then
               (case loc of
                  Inr _ \<Rightarrow> Inl (Elog ''string output slot missing row column'')
                | Inl c \<Rightarrow> EncodeStringDatum col (VecStringRefDataPtr (read_string_ref offset row) (Some (tdc_heap tdc))))
             else Inr (NumericDatum (get_u64 offset row)
                    (case loc of Inl c \<Rightarrow> sint (col_numeric_scale c) | Inr a \<Rightarrow> sint (agg_numeric_scale a))))"

text \<open>\<open>atts\<close> are the type oids of the client's tuple descriptor.\<close>

definition emit_column :: "nat \<Rightarrow> column_schema \<Rightarrow> datum \<Rightarrow> datum" where
  "emit_column atttypid col d =
     (if atttypid = BPCHAROID \<and> cs_decode_kind col = INT32_CHAR then (case d of CharDatum ch \<Rightarrow> BpcharByteDatum ch | _ \<Rightarrow> d) else d)"

fun emit_row :: "tuple_data_layout \<Rightarrow> tuple_data_collection \<Rightarrow> u8 list \<Rightarrow> (column_schema \<times> nat) list \<Rightarrow> datum list result" where
  "emit_row layout tdc row [] = Inr []"
| "emit_row layout tdc row ((col, atttypid) # cols) =
     rbind (EncodeColumnFromRow col layout tdc row) (\<lambda>d.
     rbind (emit_row layout tdc row cols) (\<lambda>ds. Inr (emit_column atttypid col d # ds)))"

fun emit_rows :: "tuple_data_layout \<Rightarrow> tuple_data_collection \<Rightarrow> (column_schema \<times> nat) list \<Rightarrow> nat list \<Rightarrow> datum list list result" where
  "emit_rows layout tdc cols [] = Inr []"
| "emit_rows layout tdc cols (r # rs) =
     rbind (emit_row layout tdc (TupleDataCollectionGetRow tdc r) cols) (\<lambda>d. rbind (emit_rows layout tdc cols rs) (\<lambda>ds. Inr (d # ds)))"

definition output_less :: "tuple_data_layout \<Rightarrow> sort_key list \<Rightarrow> tuple_data_collection \<Rightarrow> nat \<Rightarrow> nat \<Rightarrow> bool" where
  "output_less layout keys tdc lhs rhs \<longleftrightarrow>
     CompareStoredOutputRows layout keys tdc (TupleDataCollectionGetRow tdc lhs) (TupleDataCollectionGetRow tdc rhs) < 0"

definition EmitGlobalTdcToDest ::
  "((nat \<Rightarrow> nat \<Rightarrow> bool) \<Rightarrow> nat list \<Rightarrow> nat list) \<Rightarrow> output_op \<Rightarrow> nat list \<Rightarrow> output_state \<Rightarrow> datum list list result" where
  "EmitGlobalTdcToDest std_sort op atts st =
     (case us_global_tdc st of
        None \<Rightarrow> Inl (Elog ''EmitGlobalTdcToDest resolve failed'')
      | Some tdc \<Rightarrow>
          if \<not> tdc_finalized tdc then Inl (Elog ''EmitGlobalTdcToDest invoked before TDC finalized'')
          else if length atts < length (ou_schema op) then Inl (Elog ''output schema has more columns than tupdesc'')
          else let row_count = tdc_row_count tdc;
                   row_order = (if ou_sort_keys op = [] then [0..<row_count]
                                else std_sort (output_less (ou_layout op) (ou_sort_keys op) tdc) [0..<row_count]);
                   emit_count = (if 0 < ou_max_emit_rows op \<and> ou_max_emit_rows op < row_count then ou_max_emit_rows op else row_count)
               in emit_rows (ou_layout op) tdc (zip (ou_schema op) atts) (take emit_count row_order))"

section \<open>Comparisons on keys\<close>

text \<open>The schema's columns are the layout's columns, in the same order; a string column has a type that can be sent.\<close>

definition output_schema_ok :: "column_schema list \<Rightarrow> tuple_data_layout \<Rightarrow> bool" where
  "output_schema_ok schema l \<longleftrightarrow>
     list_all2 (\<lambda>s c. cs_chunk_slot s = unat (col_src_col_idx c) \<and> ColumnDecodeKindToTdcKind (cs_decode_kind s) = Some (col_kind c) \<and>
       (col_kind c = STRING_REF \<longrightarrow> cs_type_oid s \<in> {TEXTOID, VARCHAROID, BPCHAROID})) schema (columns l) \<and>
     distinct (map (\<lambda>c. (col_src_col_idx c, col_kind c)) (columns l))"

lemma output_schemaD:
  assumes "output_schema_ok schema l"
  shows "length schema = length (columns l)"
    and "i < length (columns l) \<Longrightarrow> cs_chunk_slot (schema ! i) = unat (col_src_col_idx (columns l ! i)) \<and>
      ColumnDecodeKindToTdcKind (cs_decode_kind (schema ! i)) = Some (col_kind (columns l ! i)) \<and>
      (col_kind (columns l ! i) = STRING_REF \<longrightarrow> cs_type_oid (schema ! i) \<in> {TEXTOID, VARCHAROID, BPCHAROID})"
  using assms by (simp_all add: output_schema_ok_def list_all2_conv_all_nth)

lemma CompareStoredOutputRows_stored: "CompareStoredOutputRows l keys t a b = CompareStoredRows l keys t a t b"
  unfolding CompareStoredOutputRows_def CompareStoredRows_def CompareOutputKeyColumn_def ..

lemma FindWorstTopNRowIndex_stored: "FindWorstTopNRowIndex l keys t = FindWorstStoredRowIndex l keys t"
  by (simp add: FindWorstTopNRowIndex_def FindWorstStoredRowIndex_def CompareStoredOutputRows_stored)

lemma compare_output_column_val:
  assumes "col_kind c = STRING_REF \<Longrightarrow> ref_ok (string_arena ch) (length (string_arena ch)) (get_string_ref ch (unat (col_src_col_idx c)) i)"
    and "col_kind c = STRING_REF \<Longrightarrow> ref_ok (tdc_heap t) used (read_string_ref (unat (col_offset c)) row)"
  shows "compare_output_column (unat (col_src_col_idx c)) c ch i t row = val_compare (chunk_val ch i c) (row_val (tdc_heap t) row c)"
  using assms length_ref_string
  by (cases "col_kind c")
    (auto simp: compare_output_column_def chunk_val_def row_val_def Let_def compare_string_refs_bytes get_string_ptr_def)

lemma OutputCompareChunkRow_key:
  assumes schema: "output_schema_ok schema l" and ok: "chunk_row_ok l ch i" "row_ok l (tdc_heap t) used row"
  shows "OutputCompareChunkRow schema l keys ch i t row = key_compare keys (chunk_key l ch i) (row_key l (tdc_heap t) row)"
proof -
  have "compare_output_column (cs_chunk_slot (schema ! k)) (columns l ! k) ch i t row =
      val_compare (chunk_val ch i (columns l ! k)) (row_val (tdc_heap t) row (columns l ! k))" if "k < column_count l" for k
  proof -
    have "cs_chunk_slot (schema ! k) = unat (col_src_col_idx (columns l ! k))"
      using output_schemaD(2) [OF schema] that by (simp add: column_count_def)
    then show ?thesis
      using compare_output_column_val [of "columns l ! k" ch i t used row] ok that
      by (auto simp: chunk_row_ok_def row_ok_def row_refs_ok_def column_count_def)
  qed
  then have "(\<lambda>key. if column_count l \<le> sk_col_idx key \<or> length schema \<le> sk_col_idx key then 0
      else compare_output_column (cs_chunk_slot (schema ! sk_col_idx key)) (columns l ! sk_col_idx key) ch i t row) =
    (\<lambda>key. if length (chunk_key l ch i) \<le> sk_col_idx key then 0
      else val_compare (chunk_key l ch i ! sk_col_idx key) (row_key l (tdc_heap t) row ! sk_col_idx key))"
    using output_schemaD(1) [OF schema] by (auto simp: row_key_def chunk_key_def column_count_def)
  then show ?thesis unfolding OutputCompareChunkRow_def key_compare_def by (rule arg_cong)
qed

section \<open>Replacing the worst row\<close>

definition replace_fits :: "nat \<Rightarrow> tuple_data_layout \<Rightarrow> tuple_data_collection \<Rightarrow> gval list list \<Rightarrow> bool" where
  "replace_fits hdr l t keys \<longleftrightarrow>
     hdr + tdc_row_capacity t * tdc_row_width t +
       max (sum_list (map vals_need keys)) (TupleDataCollectionDefaultHeapCapacity (Some l) (tdc_row_capacity t))
       < kTupleDataCollectionMaxFlatAllocBytes"

text \<open>A row of at most a gigabyte of strings, which is what PostgreSQL allocates at most.\<close>

definition output_row_ok :: "output_op \<Rightarrow> data_chunk \<Rightarrow> nat \<Rightarrow> bool" where
  "output_row_ok op ch i \<longleftrightarrow>
     chunk_row_ok (ou_layout op) ch i \<and> vals_need (chunk_key (ou_layout op) ch i) \<le> 2 ^ 30 \<and>
     key_ok (map col_kind (columns (ou_layout op))) (ou_sort_keys op) (chunk_key (ou_layout op) ch i)"

lemma ReplaceWorstTopNRow_keys:
  assumes l: "layout_ok l" "aggregates l = []" and t: "row_store hdr l t" and hdr: "hdr < 2 ^ 16"
    and ch: "chunk_row_ok l ch i" "vals_need (chunk_key l ch i) \<le> 2 ^ 30" and w: "worst < tdc_row_count t"
    and keys: "keys = drop_nth worst (stored_keys l t) @ [chunk_key l ch i]"
  shows "replace_fits hdr l t keys \<Longrightarrow>
      \<exists>t'. ReplaceWorstTopNRow hdr l t ch i worst = Inr t' \<and> row_store hdr l t' \<and> stored_keys l t' = keys"
    and "\<not> replace_fits hdr l t keys \<Longrightarrow> \<exists>e. ReplaceWorstTopNRow hdr l t ch i worst = Inl e"
proof -
  let ?k = "chunk_key l ch i" and ?n = "tdc_row_count t" and ?cap = "tdc_row_capacity t" and ?w = "tdc_row_width t"
  let ?kept = "filter (\<lambda>r. r \<noteq> worst) [0..<?n]" and ?default = "TupleDataCollectionDefaultHeapCapacity (Some l) (tdc_row_capacity t)"
  note bounds = row_store_bounds [OF l(1) t]
  have rows: "rows_ok l t" "?w = unat (layout_row_width l)" "tdc_heap_used t < 3221225472"
    "tdc_heap_used t = sum_list (map vals_need (stored_keys l t))"
    using t by (auto simp: row_store_def rows_ok_def tdc_ok_def kTupleDataCollectionMaxFlatAllocBytes_def)
  define need where "need = sum_list (map (\<lambda>r. vals_need (key_of l t r)) ?kept)"
  have stored: "stored_keys l t ! worst \<in> set (stored_keys l t)" using w by simp
  have keys_need: "sum_list (map vals_need keys) = need + vals_need ?k"
    unfolding keys by (simp add: need_def stored_keys_def drop_nth_filter comp_def)
  have need: "need \<le> tdc_heap_used t"
  proof -
    have "mset (map vals_need (stored_keys l t)) = add_mset (vals_need (stored_keys l t ! worst)) (mset (map vals_need (drop_nth worst (stored_keys l t))))"
      using mset_drop_nth [of worst "stored_keys l t"] w by simp
    then have "sum_list (map vals_need (stored_keys l t)) =
        vals_need (stored_keys l t ! worst) + sum_list (map vals_need (drop_nth worst (stored_keys l t)))"
      by (metis sum_mset_sum_list sum_mset.add_mset)
    then show ?thesis unfolding rows(4) by (simp add: need_def stored_keys_def drop_nth_filter comp_def)
  qed
  have small: "\<forall>r<?n. vals_need (key_of l t r) \<le> UINT32_MAX"
  proof (intro allI impI)
    fix r assume "r < ?n"
    then have "vals_need (key_of l t r) \<in> set (map vals_need (stored_keys l t))" by (auto simp: stored_keys_def)
    then have "vals_need (key_of l t r) \<le> tdc_heap_used t" unfolding rows(4) by (rule member_le_sum_list) simp
    then show "vals_need (key_of l t r) \<le> UINT32_MAX" using rows(3) by (simp add: UINT32_MAX_def)
  qed
  have required: "TupleDataCollectionRequiredHeapBytesForChunkRow l ch i = vals_need ?k"
    using ch(2) by (simp add: RequiredHeapBytesForChunkRow_need [OF l(1)] key_need_key [OF ch(1)] UINT32_MAX_def)
  have total: "need + vals_need ?k < 2 ^ 32" using need rows(3) ch(2) by simp
  have needed: "replacement_heap l t ch i worst = Inr (need + vals_need ?k)"
    unfolding replacement_heap_def required need_def
    by (subst kept_rows_heap_sum [OF l(1) rows(1) small]) (use total in \<open>simp_all add: need_def\<close>)
  define hc where "hc = max (need + vals_need ?k) ?default"
  have hc: "(if need + vals_need ?k > ?default then wrap32 (need + vals_need ?k) else ?default) = hc"
    using total by (auto simp: hc_def)
  have fits: "replace_fits hdr l t keys \<longleftrightarrow> hdr + ?cap * ?w + hc < kTupleDataCollectionMaxFlatAllocBytes"
    by (simp add: replace_fits_def keys_need hc_def)
  have cap32: "?cap < 2 ^ 32" using bounds(3) by simp
  let ?t0 = "TupleDataCollectionInit ?cap ?w hc"
  let ?copy = "fold_res (\<lambda>existing_idx new_tdc. if existing_idx \<noteq> worst
                   then append_with ''top-N output replacement overflow while copying survivors''
                          (CopyOutputRow l t (TupleDataCollectionGetRow t existing_idx)) new_tdc
                   else Inr new_tdc) [0..<?n] ?t0"
  have run: "ReplaceWorstTopNRow hdr l t ch i worst =
      rbind (TupleDataCollectionCheckFlatAllocSize hdr ?cap ?w hc) (\<lambda>_. rbind ?copy
        (append_with ''top-N output replacement overflow while appending new row'' (scatter_row l ch i)))"
    by (simp add: ReplaceWorstTopNRow_def needed Let_def hc)
  have default32: "?default < 2 ^ 32" by (rule DefaultHeap(1) [OF l(1) bounds(3)])
  have hc32: "hc < 2 ^ 32" using total default32 by (simp add: hc_def)
  note alloc = check_alloc [OF hdr cap32 bounds(2) hc32]
  show "\<exists>e. ReplaceWorstTopNRow hdr l t ch i worst = Inl e" if "\<not> replace_fits hdr l t keys"
    using that unfolding run fits by (simp add: alloc)
  show "\<exists>t'. ReplaceWorstTopNRow hdr l t ch i worst = Inr t' \<and> row_store hdr l t' \<and> stored_keys l t' = keys"
    if f: "replace_fits hdr l t keys"
  proof -
    note t0 = rows_ok_Init [OF l(1) cap32 hc32, folded rows(2)]
    have kept: "length ?kept < ?n"
    proof -
      have "length ?kept < length [0..<?n]" by (intro length_filter_less [of worst]) (use w in simp_all)
      then show ?thesis by simp
    qed
    have init: "tdc_row_count ?t0 = 0" "tdc_heap_used ?t0 = 0" "tdc_row_capacity ?t0 = ?cap" "tdc_heap_capacity ?t0 = hc"
      by (simp_all add: TupleDataCollectionInit_def)
    have room: "length ?kept \<le> tdc_row_capacity ?t0" "sum_list (map (\<lambda>r. vals_need (key_of l t r)) ?kept) \<le> tdc_heap_capacity ?t0"
      unfolding init using kept bounds(4) by (simp, simp add: hc_def need_def)
    from output_copy.copied_rows [OF l rows(1) t0(1) init(1,2) room order_refl, of "''top-N output replacement overflow while copying survivors''"] obtain t1 where t1: "?copy = Inr t1" "rows_ok l t1"
      "stored_keys l t1 = map (key_of l t) ?kept" "tdc_row_capacity t1 = ?cap" "tdc_heap_capacity t1 = hc" "tdc_heap_used t1 = need"
      unfolding init need_def [symmetric] by (elim exE conjE) (rule that)
    have count: "tdc_row_count t1 < tdc_row_capacity t1" using kept bounds(4) t1(4) arg_cong [OF t1(3), of length] by simp
    have room: "key_need l ch i \<le> tdc_heap_capacity t1 - tdc_heap_used t1"
      using t1(5,6) by (simp add: key_need_key [OF ch(1)] hc_def)
    obtain t2 where t2: "append_with ''top-N output replacement overflow while appending new row'' (scatter_row l ch i) t1 = Inr t2"
      "appended l ?k (key_need l ch i) t1 t2"
      by (rule append_scatter [OF l t1(2) count ch(1) room])
    have stored2: "stored_keys l t2 = keys"
      using t2(2) t1(3) by (simp add: appended_def keys stored_keys_def [of l t] drop_nth_filter)
    have rows2: "rows_ok l t2" "tdc_row_capacity t2 = ?cap" "tdc_heap_capacity t2 = hc" "tdc_heap_used t2 = need + vals_need ?k"
      using t2(2) t1(4-6) by (auto simp: appended_def key_need_key [OF ch(1)])
    have strings: "LayoutHasStringColumns l \<longleftrightarrow> hc \<noteq> 0"
    proof (cases "LayoutHasStringColumns l")
      case True
      then have "0 < ?default" using w bounds(4) by (intro DefaultHeap(2) [OF l(1) bounds(3)]) simp_all
      then show ?thesis using True by (simp add: hc_def)
    next
      case False
      then have "tdc_heap_used t = 0" using t rows(1) by (simp add: row_store_def rows_ok_def tdc_ok_def)
      then have "need = 0" using need by simp
      then show ?thesis using False vals_need_strings [of l ch i] by (simp add: hc_def DefaultHeap_strings)
    qed
    have "row_store hdr l t2"
      using rows2 f bounds(1) rows strings stored2 keys_need unfolding fits row_store_def
      by (auto simp: rows_ok_def)
    then show ?thesis using stored2 f t1(1) t2(1) unfolding run fits by (simp add: alloc)
  qed
qed

section \<open>The rows that are kept\<close>

text \<open>
  What the collection should hold after the rows of \<open>all\<close>: all of them in their order, or, with sort keys and a limit, as
  many of the best as the limit allows.
\<close>

definition holds :: "output_op \<Rightarrow> gval list list \<Rightarrow> gval list list \<Rightarrow> bool" where
  "holds op stored all \<longleftrightarrow>
     (if ou_sort_keys op = [] \<or> ou_max_emit_rows op = 0 then stored = all
      else best_of (key_compare (ou_sort_keys op)) (ou_max_emit_rows op) (mset stored) (mset all))"

definition output_inv :: "nat \<Rightarrow> output_op \<Rightarrow> tuple_data_collection \<Rightarrow> gval list list \<Rightarrow> bool" where
  "output_inv hdr op t all \<longleftrightarrow> row_store hdr (ou_layout op) t \<and> holds op (stored_keys (ou_layout op) t) all \<and>
     (\<forall>k\<in>set all. key_ok (map col_kind (columns (ou_layout op))) (ou_sort_keys op) k)"

definition replaces :: "output_op \<Rightarrow> tuple_data_collection \<Rightarrow> bool" where
  "replaces op t \<longleftrightarrow> 0 < ou_max_emit_rows op \<and> ou_sort_keys op \<noteq> [] \<and> ou_max_emit_rows op \<le> tdc_row_count t"

text \<open>The next row asks for more memory than a flat allocation may have.\<close>

definition row_too_big :: "nat \<Rightarrow> output_op \<Rightarrow> tuple_data_collection \<Rightarrow> gval list \<Rightarrow> bool" where
  "row_too_big hdr op t k \<longleftrightarrow>
     (if replaces op t
      then \<not> replace_fits hdr (ou_layout op) t
        (keep_best (key_compare (ou_sort_keys op)) (ou_max_emit_rows op) k (stored_keys (ou_layout op) t))
      else \<not> TupleDataCollectionHasSpaceForAppend t (key_bytes k) \<and> \<not> grow_fits hdr t (key_bytes k))"

definition output_refused :: "nat \<Rightarrow> output_op \<Rightarrow> gval list list \<Rightarrow> bool" where
  "output_refused hdr op all \<longleftrightarrow>
     (\<exists>t before k rest. all = before @ k # rest \<and> output_inv hdr op t before \<and> row_too_big hdr op t k)"

definition output_op_ok :: "output_op \<Rightarrow> bool" where
  "output_op_ok op \<longleftrightarrow> layout_ok (ou_layout op) \<and> aggregates (ou_layout op) = [] \<and> output_schema_ok (ou_schema op) (ou_layout op)"

lemma output_refused_append: "output_refused hdr op keys \<Longrightarrow> output_refused hdr op (keys @ keys')"
  unfolding output_refused_def by fastforce

lemma holds_replaced:
  assumes "holds op stored all" "0 < ou_max_emit_rows op" "ou_sort_keys op \<noteq> []"
    and "\<forall>k\<in>set (k # all). key_ok (map col_kind (columns (ou_layout op))) (ou_sort_keys op) k"
  shows "holds op (keep_best (key_compare (ou_sort_keys op)) (ou_max_emit_rows op) k stored) (all @ [k])"
proof -
  have "best_of (key_compare (ou_sort_keys op)) (ou_max_emit_rows op)
      (mset (keep_best (key_compare (ou_sort_keys op)) (ou_max_emit_rows op) k stored)) (add_mset k (mset all))"
    by (rule key_order.best_of_add [where kinds = "map col_kind (columns (ou_layout op))"]) (use assms in \<open>auto simp: holds_def\<close>)
  then show ?thesis using assms(2,3) by (simp add: holds_def)
qed

lemma stored_key_ok:
  assumes "output_inv hdr op t all"
  shows "\<forall>k\<in>set (stored_keys (ou_layout op) t). key_ok (map col_kind (columns (ou_layout op))) (ou_sort_keys op) k"
  using assms by (auto simp: output_inv_def holds_def best_of_def dest: mset_subset_eqD split: if_splits)

lemma sink_output_row_ok:
  assumes op: "output_op_ok op" and hdr: "hdr < 2 ^ 16" and inv: "output_inv hdr op t all" and ch: "output_row_ok op ch i"
  shows "\<exists>r. sink_output_row hdr op ch i (t, e) = Some r \<and>
    (case r of
       Inl e \<Rightarrow> row_too_big hdr op t (chunk_key (ou_layout op) ch i)
     | Inr (t', e') \<Rightarrow> output_inv hdr op t' (all @ [chunk_key (ou_layout op) ch i]))"
proof -
  let ?l = "ou_layout op" and ?k = "chunk_key (ou_layout op) ch i" and ?keys = "ou_sort_keys op" and ?N = "ou_max_emit_rows op"
  let ?cmp = "key_compare (ou_sort_keys op)" and ?stored = "stored_keys (ou_layout op) t"
  have l: "layout_ok ?l" "aggregates ?l = []" "output_schema_ok (ou_schema op) ?l" using op by (auto simp: output_op_ok_def)
  have t: "row_store hdr ?l t" "rows_ok ?l t" "holds op ?stored all" using inv by (auto simp: output_inv_def row_store_def)
  have keys: "\<forall>k\<in>set (?k # all). key_ok (map col_kind (columns ?l)) ?keys k"
    using inv ch by (simp add: output_inv_def output_row_ok_def)
  show ?thesis
  proof (cases "replaces op t")
    case True
    then have N: "0 < ?N" "?keys \<noteq> []" "?N \<le> tdc_row_count t" by (auto simp: replaces_def)
    then have count: "0 < tdc_row_count t" by simp
    let ?w = "worst_index ?cmp ?stored"
    have "?stored \<noteq> []" using count length_stored_keys [of ?l t] by fastforce
    then have w: "?w < tdc_row_count t" using key_order.worst_index_worst(1) [OF stored_key_ok [OF inv]] by simp
    have "row_ok ?l (tdc_heap t) (tdc_heap_used t) (tdc_rows t ! ?w)" using t(2) w by (simp add: rows_ok_def)
    from OutputCompareChunkRow_key [OF l(3) _ this] ch
    have cmp: "OutputCompareChunkRow (ou_schema op) ?l ?keys ch i t (TupleDataCollectionGetRow t ?w) = ?cmp ?k (?stored ! ?w)"
      using w by (simp add: nth_stored_keys key_of_def TupleDataCollectionGetRow_def output_row_ok_def)
    have run: "sink_output_row hdr op ch i (t, e) =
        (if ?cmp ?k (?stored ! ?w) < 0
         then Some (rbind (ReplaceWorstTopNRow hdr ?l t ch i ?w) (\<lambda>tdc. Inr (tdc, e + 1))) else Some (Inr (t, e)))"
      using N by (simp add: sink_output_row_def FindWorstTopNRowIndex_stored FindWorstStoredRowIndex_key [OF t(2) count] cmp Let_def)
    note next_holds = holds_replaced [OF t(3) N(1,2) keys]
    show ?thesis
    proof (cases "?cmp ?k (?stored ! ?w) < 0")
      case better: True
      have keep: "keep_best ?cmp ?N ?k ?stored = drop_nth ?w ?stored @ [?k]" using better N(3) by (simp add: keep_best_def)
      note R = ReplaceWorstTopNRow_keys [OF l(1,2) t(1) hdr _ _ w keep]
      have ok: "chunk_row_ok ?l ch i" "vals_need ?k \<le> 2 ^ 30" using ch by (simp_all add: output_row_ok_def)
      show ?thesis
      proof (cases "replace_fits hdr ?l t (keep_best ?cmp ?N ?k ?stored)")
        case fits: True
        then obtain u where u: "ReplaceWorstTopNRow hdr ?l t ch i ?w = Inr u" "row_store hdr ?l u"
          "stored_keys ?l u = keep_best ?cmp ?N ?k ?stored" using R(1) [OF ok] by blast
        then have "output_inv hdr op u (all @ [?k])" using next_holds keys by (simp add: output_inv_def)
        then show ?thesis unfolding run using better u(1) by simp
      next
        case False
        then obtain e where "ReplaceWorstTopNRow hdr ?l t ch i ?w = Inl e" using R(2) [OF ok] by blast
        then show ?thesis unfolding run using better False True by (simp add: row_too_big_def)
      qed
    next
      case worse: False
      then have "keep_best ?cmp ?N ?k ?stored = ?stored" using N(3) by (simp add: keep_best_def)
      then have "output_inv hdr op t (all @ [?k])" using next_holds keys t(1) by (simp add: output_inv_def)
      then show ?thesis unfolding run using worse by simp
    qed
  next
    case False
    have run: "sink_output_row hdr op ch i (t, e) =
        map_option (\<lambda>r. rbind r (\<lambda>tdc. Inr (tdc, e + 1)))
          (append_chunk_row (GrowOutputTdc hdr ?l) ''output sink row capacity exceeded'' ?l ch i t)"
      using False by (auto simp: sink_output_row_def replaces_def Let_def)
    have ok: "chunk_row_ok ?l ch i" using ch by (simp add: output_row_ok_def)
    from output_copy.append_chunk_row_ok [OF l(1,2) t(1) hdr ok, of "''output TDC grow copy overflow''" "''output sink row capacity exceeded''"]
    obtain r where r: "append_chunk_row (GrowOutputTdc hdr ?l) ''output sink row capacity exceeded'' ?l ch i t = Some r"
      "case r of
         Inl e \<Rightarrow> \<not> TupleDataCollectionHasSpaceForAppend t (key_bytes ?k) \<and> \<not> grow_fits hdr t (key_bytes ?k)
       | Inr t' \<Rightarrow> row_store hdr ?l t' \<and> stored_keys ?l t' = ?stored @ [?k]"
      unfolding GrowOutputTdc_def by blast
    show ?thesis
    proof (cases r)
      case (Inl e)
      then show ?thesis using r False by (simp add: run row_too_big_def)
    next
      case (Inr u)
      then have u: "row_store hdr ?l u" "stored_keys ?l u = ?stored @ [?k]" using r(2) by simp_all
      have "holds op (?stored @ [?k]) (all @ [?k])"
      proof (cases "?keys = [] \<or> ?N = 0")
        case True
        then show ?thesis using t(3) by (auto simp: holds_def)
      next
        case sorted: False
        then have "keep_best ?cmp ?N ?k ?stored = ?stored @ [?k]" using False by (simp add: keep_best_def replaces_def)
        then show ?thesis using holds_replaced [OF t(3) _ _ keys] sorted by simp
      qed
      then have "output_inv hdr op u (all @ [?k])" using u keys by (simp add: output_inv_def)
      then show ?thesis using r(1) Inr by (simp add: run)
    qed
  qed
qed

lemma sink_output_rows_ok:
  assumes op: "output_op_ok op" and hdr: "hdr < 2 ^ 16"
  shows "output_inv hdr op t all \<Longrightarrow> \<forall>i\<in>set rows. output_row_ok op ch i \<Longrightarrow>
    \<exists>r. fold_opt (sink_output_row hdr op ch) rows (t, e) = Some r \<and>
     (case r of
        Inl e \<Rightarrow> output_refused hdr op (all @ map (chunk_key (ou_layout op) ch) rows)
      | Inr (t', e') \<Rightarrow> output_inv hdr op t' (all @ map (chunk_key (ou_layout op) ch) rows))"
proof (induction rows arbitrary: t all e)
  case Nil
  then show ?case by simp
next
  case (Cons i rows)
  have "output_row_ok op ch i" using Cons.prems(2) by simp
  from sink_output_row_ok [OF op hdr Cons.prems(1) this, of e] obtain r where r: "sink_output_row hdr op ch i (t, e) = Some r"
    "case r of Inl e \<Rightarrow> row_too_big hdr op t (chunk_key (ou_layout op) ch i)
     | Inr (t', e') \<Rightarrow> output_inv hdr op t' (all @ [chunk_key (ou_layout op) ch i])" by blast
  show ?case
  proof (cases r)
    case (Inl e)
    then have "output_refused hdr op (all @ chunk_key (ou_layout op) ch i # map (chunk_key (ou_layout op) ch) rows)"
      unfolding output_refused_def using r(2) Cons.prems(1) by auto
    then show ?thesis using r(1) Inl by simp
  next
    case (Inr s)
    obtain t1 e1 where s: "s = (t1, e1)" by (cases s)
    then have t1: "output_inv hdr op t1 (all @ [chunk_key (ou_layout op) ch i])" using r(2) Inr by simp
    have "\<forall>i\<in>set rows. output_row_ok op ch i" using Cons.prems(2) by simp
    from Cons.IH [OF t1 this, of e1] show ?thesis using r(1) Inr s by (simp cong: sum.case_cong)
  qed
qed

definition output_sink_all :: "nat \<Rightarrow> output_op \<Rightarrow> data_chunk list \<Rightarrow> output_state \<Rightarrow> output_state result option" where
  "output_sink_all hdr op = fold_opt (\<lambda>ch st. map_option (map_sum id snd) (OutputSinkChunk hdr op ch st))"

lemma output_sink_chunks:
  assumes op: "output_op_ok op" and hdr: "hdr < 2 ^ 16"
  shows "us_global_tdc st = Some t \<Longrightarrow> output_inv hdr op t all \<Longrightarrow> \<forall>ch\<in>set chunks. \<forall>i<chunk_count ch. output_row_ok op ch i \<Longrightarrow>
    \<exists>r. output_sink_all hdr op chunks st = Some r \<and>
     (case r of
        Inl e \<Rightarrow> output_refused hdr op (all @ concat (map (chunk_keys (ou_layout op)) chunks))
      | Inr st' \<Rightarrow> \<exists>t'. us_global_tdc st' = Some t' \<and> output_inv hdr op t' (all @ concat (map (chunk_keys (ou_layout op)) chunks)))"
proof (induction chunks arbitrary: st t all)
  case Nil
  then show ?case by (simp add: output_sink_all_def)
next
  case (Cons ch chunks)
  have "\<forall>i\<in>set [0..<chunk_count ch]. output_row_ok op ch i" using Cons.prems(3) by simp
  from sink_output_rows_ok [OF op hdr Cons.prems(2) this, of "us_emitted_rows st"] obtain r where
    r: "fold_opt (sink_output_row hdr op ch) [0..<chunk_count ch] (t, us_emitted_rows st) = Some r"
    "case r of Inl e \<Rightarrow> output_refused hdr op (all @ chunk_keys (ou_layout op) ch)
      | Inr (t', e') \<Rightarrow> output_inv hdr op t' (all @ chunk_keys (ou_layout op) ch)" unfolding chunk_keys_def by blast
  have run: "OutputSinkChunk hdr op ch st =
      Some (rbind r (\<lambda>(tdc, emitted). Inr (SINK_NEED_MORE_INPUT, \<lparr>us_global_tdc = Some tdc, us_emitted_rows = emitted\<rparr>)))"
    by (simp add: OutputSinkChunk_def Cons.prems(1) r(1))
  show ?case
  proof (cases r)
    case (Inl e)
    then show ?thesis
      using r(2) output_refused_append [of hdr op "all @ chunk_keys (ou_layout op) ch" "concat (map (chunk_keys (ou_layout op)) chunks)"]
      by (simp add: output_sink_all_def run)
  next
    case (Inr s)
    obtain t1 e1 where s: "s = (t1, e1)" by (cases s)
    then have t1: "output_inv hdr op t1 (all @ chunk_keys (ou_layout op) ch)" using r(2) Inr by simp
    have "\<forall>ch\<in>set chunks. \<forall>i<chunk_count ch. output_row_ok op ch i" using Cons.prems(3) by simp
    from Cons.IH [OF _ t1 this, of "\<lparr>us_global_tdc = Some t1, us_emitted_rows = e1\<rparr>"] show ?thesis
      using Inr s by (simp add: output_sink_all_def run cong: sum.case_cong)
  qed
qed

section \<open>The rows that are sent\<close>

text \<open>The datum of a value.\<close>

fun output_datum :: "column_schema \<Rightarrow> tdc_column_desc \<Rightarrow> gval \<Rightarrow> datum" where
  "output_datum s c (GInt32 v) =
     (case cs_decode_kind s of INT32_CHAR \<Rightarrow> CharDatum (ucast v) | INT32_DATE \<Rightarrow> DateADTDatum v | _ \<Rightarrow> Int32Datum v)"
| "output_datum s c (GInt64 v) =
     (if cs_decode_kind s = INT64_NUMERIC_SCALED then NumericDatum v (sint (col_numeric_scale c))
      else if cs_type_oid s = BOOLOID then BoolDatum (v \<noteq> 0)
      else if cs_type_oid s = INT4OID then Int32Datum (ucast v) else Int64Datum v)"
| "output_datum s c (GDouble v) = Float8Datum v"
| "output_datum s c (GString b) =
     (if cs_type_oid s = TEXTOID then TextDatum b
      else if cs_type_oid s = VARCHAROID then VarcharDatum b (cs_typmod s) else BpcharDatum b (cs_typmod s))"

definition output_row :: "output_op \<Rightarrow> nat list \<Rightarrow> gval list \<Rightarrow> datum list" where
  "output_row op atts key =
     map (\<lambda>((s, att), c, v). emit_column att s (output_datum s c v)) (zip (zip (ou_schema op) atts) (zip (columns (ou_layout op)) key))"

lemma resolve_own_column:
  assumes "distinct (map (\<lambda>c. (col_src_col_idx c, col_kind c)) (columns l))" "c \<in> set (columns l)"
  shows "ResolveRowValueLocation l (unat (col_src_col_idx c)) (col_kind c) = Some (Inl c)"
proof -
  let ?cs = "filter (\<lambda>d. unat (col_src_col_idx d) = unat (col_src_col_idx c) \<and> col_kind d = col_kind c) (columns l)"
  have "c \<in> set ?cs" using assms(2) by simp
  then obtain d ds where ds: "?cs = d # ds" by (cases ?cs) auto
  then have "d \<in> set ?cs" by simp
  then have "d \<in> set (columns l)" "col_src_col_idx d = col_src_col_idx c" "col_kind d = col_kind c" by (auto simp: word_unat_eq_iff)
  then have "d = c" using assms by (auto simp: distinct_map dest: inj_onD)
  then show ?thesis using ds by (simp add: ResolveRowValueLocation_def)
qed

lemma EncodeColumn_datum:
  assumes schema: "output_schema_ok schema l" and i: "i < length (columns l)" and row: "row_ok l (tdc_heap t) used row"
  shows "EncodeColumnFromRow (schema ! i) l t row = Inr (output_datum (schema ! i) (columns l ! i) (row_val (tdc_heap t) row (columns l ! i)))"
proof -
  let ?s = "schema ! i" and ?c = "columns l ! i"
  have s: "cs_chunk_slot ?s = unat (col_src_col_idx ?c)" "ColumnDecodeKindToTdcKind (cs_decode_kind ?s) = Some (col_kind ?c)"
    "col_kind ?c = STRING_REF \<longrightarrow> cs_type_oid ?s \<in> {TEXTOID, VARCHAROID, BPCHAROID}"
    using output_schemaD(2) [OF schema i] by auto
  have loc: "ResolveRowValueLocation l (unat (col_src_col_idx ?c)) (col_kind ?c) = Some (Inl ?c)"
    using schema i by (intro resolve_own_column) (auto simp: output_schema_ok_def)
  have ref: "ref_ok (tdc_heap t) used (read_string_ref (unat (col_offset ?c)) row)" if "col_kind ?c = STRING_REF"
    using row i that by (auto simp: row_ok_def row_refs_ok_def)
  show ?thesis
    using s loc ref by (cases "cs_decode_kind ?s") (auto simp: EncodeColumnFromRow_def row_val_def EncodeStringDatum_def Let_def)
qed

lemma emit_row_datums:
  "list_all2 (\<lambda>(col, att) d. EncodeColumnFromRow col l t row = Inr d) cols ds \<Longrightarrow>
    emit_row l t row cols = Inr (map (\<lambda>((col, att), d). emit_column att col d) (zip cols ds))"
  by (induction cols ds rule: list_all2_induct) auto

lemma emit_row_key:
  assumes schema: "output_schema_ok (ou_schema op) (ou_layout op)" and atts: "length (ou_schema op) \<le> length atts"
    and row: "row_ok (ou_layout op) (tdc_heap t) used row"
  shows "emit_row (ou_layout op) t row (zip (ou_schema op) atts) = Inr (output_row op atts (row_key (ou_layout op) (tdc_heap t) row))"
proof -
  let ?l = "ou_layout op" and ?n = "length (columns (ou_layout op))"
  let ?ds = "map (\<lambda>i. output_datum (ou_schema op ! i) (columns ?l ! i) (row_val (tdc_heap t) row (columns ?l ! i))) [0..<?n]"
  note len = output_schemaD(1) [OF schema]
  have "list_all2 (\<lambda>(col, att) d. EncodeColumnFromRow col ?l t row = Inr d) (zip (ou_schema op) atts) ?ds"
    using len atts EncodeColumn_datum [OF schema _ row] by (simp add: list_all2_conv_all_nth)
  note emit_row_datums [OF this]
  moreover have "map (\<lambda>((col, att), d). emit_column att col d) (zip (zip (ou_schema op) atts) ?ds) = output_row op atts (row_key ?l (tdc_heap t) row)"
    using len atts by (intro nth_equalityI) (simp_all add: output_row_def row_key_def)
  ultimately show ?thesis by simp
qed

lemma emit_rows_keys:
  assumes schema: "output_schema_ok (ou_schema op) (ou_layout op)" and atts: "length (ou_schema op) \<le> length atts"
    and t: "rows_ok (ou_layout op) t"
  shows "\<forall>r\<in>set rows. r < tdc_row_count t \<Longrightarrow>
    emit_rows (ou_layout op) t (zip (ou_schema op) atts) rows = Inr (map (output_row op atts) (map (key_of (ou_layout op) t) rows))"
proof (induction rows)
  case (Cons r rows)
  have "row_ok (ou_layout op) (tdc_heap t) (tdc_heap_used t) (tdc_rows t ! r)" using t Cons.prems by (simp add: rows_ok_def)
  from emit_row_key [OF schema atts this] Cons show ?case by (simp add: TupleDataCollectionGetRow_def key_of_def)
qed simp

text \<open>The rows that should be sent.\<close>

definition rows_to_send :: "output_op \<Rightarrow> gval list list \<Rightarrow> gval list list \<Rightarrow> bool" where
  "rows_to_send op rows all \<longleftrightarrow>
     (if ou_sort_keys op = [] then rows = (if ou_max_emit_rows op = 0 then all else take (ou_max_emit_rows op) all)
      else sorted_wrt (\<lambda>a b. key_compare (ou_sort_keys op) a b \<le> 0) rows \<and>
        (if ou_max_emit_rows op = 0 then mset rows = mset all
         else best_of (key_compare (ou_sort_keys op)) (ou_max_emit_rows op) (mset rows) (mset all)))"

lemma Emit_rows:
  assumes op: "output_op_ok op" and sort: "std_sort_ok std_sort" and atts: "length (ou_schema op) \<le> length atts"
    and st: "us_global_tdc st = Some t" "output_inv hdr op t all"
  shows "\<exists>rows. EmitGlobalTdcToDest std_sort op atts (OutputFinalize st) = Inr (map (output_row op atts) rows) \<and> rows_to_send op rows all"
proof -
  let ?l = "ou_layout op" and ?keys = "ou_sort_keys op" and ?N = "ou_max_emit_rows op" and ?n = "tdc_row_count t"
  let ?t = "t\<lparr>tdc_finalized := True\<rparr>" and ?lt = "output_less (ou_layout op) (ou_sort_keys op) (t\<lparr>tdc_finalized := True\<rparr>)"
  have schema: "output_schema_ok (ou_schema op) ?l" using op by (simp add: output_op_ok_def)
  have rows: "rows_ok ?l t" using st(2) by (simp add: output_inv_def row_store_def)
  note rows' = finalized_rows_ok [OF rows, of True]
  define order where "order = (if ?keys = [] then [0..<?n] else std_sort ?lt [0..<?n])"
  define count where "count = (if 0 < ?N \<and> ?N < ?n then ?N else ?n)"
  have run: "EmitGlobalTdcToDest std_sort op atts (OutputFinalize st) =
      emit_rows ?l ?t (zip (ou_schema op) atts) (take count order)"
    using atts by (simp add: EmitGlobalTdcToDest_def OutputFinalize_def st(1) order_def count_def Let_def)
  have cmp: "?lt i j \<longleftrightarrow> key_compare ?keys (key_of ?l ?t i) (key_of ?l ?t j) < 0" if "i < tdc_row_count ?t" "j < tdc_row_count ?t" for i j
    using CompareStoredRows_key [of ?l ?t "tdc_heap_used ?t" "tdc_rows t ! i" ?t "tdc_heap_used ?t" "tdc_rows t ! j" ?keys] rows' that
    by (simp add: rows_ok_def key_of_def TupleDataCollectionGetRow_def output_less_def CompareStoredOutputRows_stored)
  have keys: "stored_keys ?l ?t = stored_keys ?l t" by (simp add: stored_keys_def)
  have ok: "\<forall>k\<in>set (stored_keys ?l ?t). key_ok (map col_kind (columns ?l)) ?keys k"
    using stored_key_ok [OF st(2)] unfolding keys .
  have order: "mset order = mset [0..<?n]" "?keys \<noteq> [] \<Longrightarrow> sorted_wrt (\<lambda>a b. key_compare ?keys a b \<le> 0) (map (key_of ?l t) order)"
    using sort_rows [OF sort ok cmp] by (simp_all add: order_def)
  have range: "set order = {0..<?n}" using mset_eq_setD [OF order(1)] by simp
  let ?sent = "map (key_of ?l t) (take count order)"
  have "\<forall>r\<in>set (take count order). r < tdc_row_count ?t" using range by (auto dest: in_set_takeD)
  then have emitted: "EmitGlobalTdcToDest std_sort op atts (OutputFinalize st) = Inr (map (output_row op atts) ?sent)"
    unfolding run using emit_rows_keys [OF schema atts rows'] by simp
  have stored: "map (key_of ?l t) [0..<?n] = stored_keys ?l t" by (simp add: stored_keys_def)
  have all_sent: "take count order = order" if "count = ?n" using that arg_cong [OF order(1), of size] by simp
  have mset_order: "mset (map (key_of ?l t) order) = mset (stored_keys ?l t)" unfolding mset_map order(1) stored_keys_def ..
  have "rows_to_send op ?sent all"
  proof (cases "?keys = []")
    case True
    then have "stored_keys ?l t = all" using st(2) by (simp add: output_inv_def holds_def)
    moreover have "?sent = take count (stored_keys ?l t)" using True by (simp add: order_def take_map [symmetric] stored)
    moreover have "take count all = (if ?N = 0 then all else take ?N all)" if "?n = length all" using that by (auto simp: count_def)
    ultimately show ?thesis using True length_stored_keys [of ?l t] by (simp add: rows_to_send_def)
  next
    case False
    note holds = st(2) [unfolded output_inv_def holds_def]
    show ?thesis
    proof (cases "?N = 0")
      case True
      then have "take count order = order" by (intro all_sent) (simp add: count_def)
      then show ?thesis using True False holds order(2) mset_order by (simp add: rows_to_send_def)
    next
      case limit: False
      then have best: "best_of (key_compare ?keys) ?N (mset (stored_keys ?l t)) (mset all)" using False holds by simp
      then have "?n \<le> ?N" by (simp add: best_of_def)
      then have "take count order = order" by (intro all_sent) (simp add: count_def)
      then show ?thesis using limit False best order(2) mset_order by (simp add: rows_to_send_def)
    qed
  qed
  then show ?thesis using emitted by blast
qed

text \<open>C17: The output sink never loops. It fails only when the next row would ask for more than a flat allocation may have; otherwise
  the leader sends the client the datums of the rows: the first of them up to the limit, in the order they came, or, with
  sort keys, the best of them in the order of the keys.\<close>

theorem output_sends_the_rows:
  assumes op: "output_op_ok op" and hdr: "hdr < 2 ^ 16" and sort: "std_sort_ok std_sort"
    and atts: "length (ou_schema op) \<le> length atts"
    and st: "us_global_tdc st = Some t" "row_store hdr (ou_layout op) t" "stored_keys (ou_layout op) t = []"
    and rows: "\<forall>ch\<in>set chunks. \<forall>i<chunk_count ch. output_row_ok op ch i"
  shows "\<exists>r. output_sink_all hdr op chunks st = Some r \<and>
    (case r of
       Inl e \<Rightarrow> output_refused hdr op (concat (map (chunk_keys (ou_layout op)) chunks))
     | Inr st' \<Rightarrow> \<exists>rows. EmitGlobalTdcToDest std_sort op atts (OutputFinalize st') = Inr (map (output_row op atts) rows) \<and>
         rows_to_send op rows (concat (map (chunk_keys (ou_layout op)) chunks)))"
proof -
  have "output_inv hdr op t []" using st(2,3) by (simp add: output_inv_def holds_def best_of_def)
  from output_sink_chunks [OF op hdr st(1) this rows] obtain r where r: "output_sink_all hdr op chunks st = Some r"
    "case r of
        Inl e \<Rightarrow> output_refused hdr op (concat (map (chunk_keys (ou_layout op)) chunks))
      | Inr st' \<Rightarrow> \<exists>t'. us_global_tdc st' = Some t' \<and> output_inv hdr op t' (concat (map (chunk_keys (ou_layout op)) chunks))"
    unfolding append_Nil by blast
  then show ?thesis using Emit_rows [OF op sort atts] by (cases r) auto
qed

text \<open>Limit 2, descending, over three rows in two chunks.\<close>

definition two_largest :: output_op where
  "two_largest = \<lparr>ou_schema = [\<lparr>cs_type_oid = INT4OID, cs_typmod = -1, cs_chunk_slot = 0, cs_decode_kind = INT32_INT4\<rparr>],
     ou_layout = int_layout, ou_sort_keys = [\<lparr>sk_col_idx = 0, sk_asc = False, sk_nulls_first = False\<rparr>], ou_max_emit_rows = 2\<rparr>"

definition empty_output :: output_state where
  "empty_output = \<lparr>us_global_tdc = Some (TupleDataCollectionInit 2 8 0), us_emitted_rows = 0\<rparr>"

lemma ints_fit: "\<not> output_refused 64 two_largest (map (\<lambda>v. [GInt32 v]) [3, 5, 4])"
proof
  assume "output_refused 64 two_largest (map (\<lambda>v. [GInt32 v]) [3, 5, 4])"
  then obtain t before k rest where b: "map (\<lambda>v. [GInt32 v]) [3, 5, 4] = before @ k # rest" "output_inv 64 two_largest t before"
    "row_too_big 64 two_largest t k" unfolding output_refused_def by blast
  have layout: "ou_layout two_largest = int_layout" "ou_sort_keys two_largest \<noteq> []" "ou_max_emit_rows two_largest = 2"
    by (simp_all add: two_largest_def)
  have t: "row_store 64 int_layout t" "best_of (key_compare (ou_sort_keys two_largest)) 2 (mset (stored_keys int_layout t)) (mset before)"
    using b(2) by (simp_all add: output_inv_def layout holds_def)
  have few: "tdc_row_count t \<le> 2" using t(2) by (simp add: best_of_def)
  have need: "vals_need v = 0" if "v \<in> set (map (\<lambda>v. [GInt32 v]) [3, 5, 4])" for v using that by (auto simp: vals_need_def)
  have "k \<in> set (before @ k # rest)" by simp
  then have k: "vals_need k = 0" unfolding b(1) [symmetric] by (rule need)
  have "set (stored_keys int_layout t) \<subseteq> set before" using t(2) by (auto simp: best_of_def dest: mset_subset_eqD)
  also have "\<dots> \<subseteq> set (map (\<lambda>v. [GInt32 v]) [3, 5, 4])" unfolding b(1) by auto
  finally have stored: "\<forall>v\<in>set (stored_keys int_layout t). vals_need v = 0" using need by blast
  have heap: "tdc_heap_capacity t = 0" "tdc_row_width t = 8"
    using t(1) by (auto simp: row_store_def rows_ok_def LayoutHasStringColumns_def int_layout_def)
  have default: "TupleDataCollectionDefaultHeapCapacity (Some int_layout) n = 0" for n
    by (rule DefaultHeap_strings) (simp add: LayoutHasStringColumns_def int_layout_def)
  show False
  proof (cases "replaces two_largest t")
    case True
    have zero: "sum_list (map vals_need (keep_best c 2 k (stored_keys int_layout t))) = 0" for c
      using stored k by (auto simp: keep_best_def Let_def drop_nth_def dest: in_set_takeD in_set_dropD)
    have "64 + tdc_row_capacity t * 8 < kTupleDataCollectionMaxFlatAllocBytes" using t(1) heap by (simp add: row_store_def)
    then have "replace_fits 64 int_layout t (keep_best c 2 k (stored_keys int_layout t))" for c
      unfolding replace_fits_def heap default zero by simp
    then show False using b(3) True by (simp add: row_too_big_def layout)
  next
    case False
    then have "tdc_row_capacity t \<le> 2"
      using b(3) few k heap
      by (simp add: row_too_big_def TupleDataCollectionHasSpaceForAppend_def key_bytes_def split: if_splits)
    then have "grow_fits 64 t 0"
      using few by (simp add: grow_fits_def grown_rows_def grown_heap_def heap kTupleDataCollectionMaxFlatAllocBytes_def)
    then show False using b(3) False k by (simp add: row_too_big_def key_bytes_def)
  qed
qed

theorem output_sends_the_rows_witness:
  "\<exists>st. output_sink_all 64 two_largest [int_chunk [3, 5], int_chunk [4]] empty_output = Some (Inr st) \<and>
    EmitGlobalTdcToDest insertion_sort two_largest [INT4OID] (OutputFinalize st) = Inr [[Int32Datum 5], [Int32Datum 4]]"
proof -
  let ?chunks = "[int_chunk [3, 5], int_chunk [4]]" and ?t = "TupleDataCollectionInit 2 8 0"
  have layout: "ou_layout two_largest = int_layout" by (simp add: two_largest_def)
  have schema: "output_schema_ok (ou_schema two_largest) int_layout" by (simp add: output_schema_ok_def two_largest_def int_layout_def)
  have op: "output_op_ok two_largest"
    using int_layout_facts(1) schema by (simp add: output_op_ok_def layout) (simp add: int_layout_def)
  have width: "unat (layout_row_width int_layout) = 8" by (simp add: int_layout_def)
  have st: "us_global_tdc empty_output = Some ?t" by (simp add: empty_output_def)
  have init: "rows_ok int_layout ?t" "stored_keys int_layout ?t = []"
    using rows_ok_Init [OF int_layout_facts(1), of 2 0] by (simp_all add: width)
  have store: "row_store 64 (ou_layout two_largest) ?t"
    unfolding layout using init by (simp add: row_store_def TupleDataCollectionInit_def kTupleDataCollectionMaxFlatAllocBytes_def
        LayoutHasStringColumns_def int_layout_def)
  have empty: "stored_keys (ou_layout two_largest) ?t = []" using init(2) by (simp add: layout)
  have all: "concat (map (chunk_keys (ou_layout two_largest)) ?chunks) = map (\<lambda>v. [GInt32 v]) [3, 5, 4]"
    unfolding layout by (simp add: int_chunk_keys)
  have rows: "\<forall>ch\<in>set ?chunks. \<forall>i<chunk_count ch. output_row_ok two_largest ch i"
    unfolding output_row_ok_def layout by (simp add: int_layout_facts vals_need_def key_ok_def) (simp add: int_layout_def two_largest_def)
  have hdr: "(64 :: nat) < 2 ^ 16" by simp
  have atts: "length (ou_schema two_largest) \<le> length [INT4OID]" by (simp add: two_largest_def)
  note sends = output_sends_the_rows [OF op hdr insertion_sort_ok atts st store empty rows]
  obtain r where r: "output_sink_all 64 two_largest ?chunks empty_output = Some r" and R: "case r of
      Inl e \<Rightarrow> output_refused 64 two_largest (map (\<lambda>v. [GInt32 v]) [3, 5, 4])
    | Inr st' \<Rightarrow> \<exists>rows. EmitGlobalTdcToDest insertion_sort two_largest [INT4OID] (OutputFinalize st') =
          Inr (map (output_row two_largest [INT4OID]) rows) \<and> rows_to_send two_largest rows (map (\<lambda>v. [GInt32 v]) [3, 5, 4])"
    using sends unfolding all by (elim exE conjE) (rule that)
  obtain st' where st': "r = Inr st'" using R ints_fit by (cases r) auto
  then obtain ks where ks: "EmitGlobalTdcToDest insertion_sort two_largest [INT4OID] (OutputFinalize st') =
      Inr (map (output_row two_largest [INT4OID]) ks)" "rows_to_send two_largest ks (map (\<lambda>v. [GInt32 v]) [3, 5, 4])" using R by auto
  have best: "sorted_wrt (\<lambda>a b. key_compare (ou_sort_keys two_largest) a b \<le> 0) ks"
    "best_of (key_compare (ou_sort_keys two_largest)) 2 (mset ks) {#[GInt32 3], [GInt32 5], [GInt32 4]#}"
    using ks(2) by (simp_all add: rows_to_send_def two_largest_def)
  have "length ks = 2" using best(2) by (simp add: best_of_def)
  then obtain x y where xy: "ks = [x, y]" by (auto simp: numeral_2_eq_2 length_Suc_conv)
  have "mset ks \<subseteq># {#[GInt32 3], [GInt32 5], [GInt32 4]#}" using best(2) by (simp add: best_of_def)
  from set_mset_mono [OF this] have "x \<in> {[GInt32 3], [GInt32 5], [GInt32 4]}" "y \<in> {[GInt32 3], [GInt32 5], [GInt32 4]}"
    unfolding xy by simp_all
  then have "ks = [[GInt32 5], [GInt32 4]]"
    using best unfolding xy best_of_def two_largest_def
    by (elim insertE emptyE) (simp_all add: key_compare_def three_way_def Let_def insert_subset_eq_iff)
  then show ?thesis using r st' ks(1) by (simp add: output_row_def two_largest_def int_layout_def emit_column_def)
qed

end
