(* ===== verification/Projection.thy ===== *)
theory Projection
  imports JoinRows TaskRun "HOL-Library.Signed_Division"
begin

text \<open>
  The projection, physical_projection.cpp: a tape of steps, each of which computes one column of the chunk from others, a
  column at a time. The steps are shown to do on every row what a machine for a single row does.
\<close>

section \<open>Programs\<close>

datatype project_op =
    NUMERIC_SCALE_VAR_CONST | NUMERIC_MUL_VAR_VAR | NUMERIC_MUL_VAR_CONST | NUMERIC_SUB_CONST_VAR | NUMERIC_ADD_CONST_VAR
  | NUMERIC_ADD_VAR_VAR | NUMERIC_SUB_VAR_VAR | NUMERIC_ADD_VAR_CONST | NUMERIC_SUB_VAR_CONST | COPY_VAR | NUMERIC_DIV_VAR_VAR
  | STRING_PREFIX_LIKE | NUMERIC_CASE_VAR_CONST | EXTRACT_YEAR_FROM_DATE | STRING_EQ_VAR_CONST | STRING_NE_VAR_CONST
  | NUMERIC_CASE_ELSE_VAR | BOOL_AND_VAR_VAR | BOOL_OR_VAR_VAR | BOOL_NOT_VAR | CONST_INT64 | INT32_TO_INT64_VAR
  | STRING_PREFIX_SLICE | INT64_LT_VAR_CONST | INT64_LE_VAR_CONST | INT64_EQ_VAR_CONST | INT64_GE_VAR_CONST
  | INT64_GT_VAR_CONST | INT64_NE_VAR_CONST

record project_step =
  ps_op :: project_op
  ps_in_a :: nat
  ps_in_b :: nat
  ps_out :: nat
  ps_const :: u64

record project_expr =
  pe_first_step_idx :: nat
  pe_n_steps :: nat
  pe_output_chunk_slot :: nat

section \<open>Loops over the rows\<close>

text \<open>The columns are read and written as they are; Execute flattens dictionaries first.\<close>

abbreviation col_i64 :: "data_chunk \<Rightarrow> nat \<Rightarrow> nat \<Rightarrow> u64" where "col_i64 ch \<equiv> cells (int64_class ch)"
abbreviation col_i32 :: "data_chunk \<Rightarrow> nat \<Rightarrow> nat \<Rightarrow> u32" where "col_i32 ch \<equiv> cells (int32_class ch)"
abbreviation col_str :: "data_chunk \<Rightarrow> nat \<Rightarrow> nat \<Rightarrow> vec_string_ref" where "col_str ch \<equiv> cells (string_class ch)"

definition set_i64 :: "nat \<Rightarrow> nat \<Rightarrow> u64 \<Rightarrow> data_chunk \<Rightarrow> data_chunk" where
  "set_i64 slot row v ch = ch\<lparr>int64_class := set_cell slot row v (int64_class ch)\<rparr>"

definition ColumnHasNulls :: "(nat \<Rightarrow> u8) \<Rightarrow> nat \<Rightarrow> bool" where
  "ColumnHasNulls flags n \<longleftrightarrow> list_ex (\<lambda>row. flags row = 1) [0..<n]"

definition memset_nulls :: "nat \<Rightarrow> data_chunk \<Rightarrow> data_chunk" where
  "memset_nulls slot ch = fold (\<lambda>row. set_null slot row 0) [0..<chunk_count ch] ch"

definition fill_rows :: "nat \<Rightarrow> (data_chunk \<Rightarrow> nat \<Rightarrow> u64) \<Rightarrow> data_chunk \<Rightarrow> data_chunk" where
  "fill_rows out f ch = fold (\<lambda>row ch. set_i64 out row (f ch row) ch) [0..<chunk_count ch] ch"

text \<open>A value \<^verbatim>\<open>None\<close> is a null.\<close>

definition put_value :: "nat \<Rightarrow> nat \<Rightarrow> u64 option \<Rightarrow> data_chunk \<Rightarrow> data_chunk" where
  "put_value out row v ch = (case v of None \<Rightarrow> set_null out row 1 ch | Some v \<Rightarrow> set_null out row 0 (set_i64 out row v ch))"

definition guarded_rows :: "nat \<Rightarrow> (data_chunk \<Rightarrow> nat \<Rightarrow> u64 option) \<Rightarrow> data_chunk \<Rightarrow> data_chunk" where
  "guarded_rows out f ch = fold (\<lambda>row ch. put_value out row (f ch row) ch) [0..<chunk_count ch] ch"

definition if_not_null :: "nat list \<Rightarrow> data_chunk \<Rightarrow> nat \<Rightarrow> 'a \<Rightarrow> 'a option" where
  "if_not_null ins ch row v = (if list_ex (\<lambda>s. nulls ch s row \<noteq> 0) ins then None else Some v)"

text \<open>Without nulls in the inputs, the flags are cleared at once and the values computed without a check.\<close>

definition int64_loop :: "nat list \<Rightarrow> nat \<Rightarrow> (data_chunk \<Rightarrow> nat \<Rightarrow> u64) \<Rightarrow> data_chunk \<Rightarrow> data_chunk" where
  "int64_loop ins out f ch =
     (if list_all (\<lambda>s. \<not> ColumnHasNulls (nulls ch s) (chunk_count ch)) ins
      then fill_rows out f (memset_nulls out ch)
      else guarded_rows out (\<lambda>ch row. if_not_null ins ch row (f ch row)) ch)"

section \<open>Steps\<close>

definition truth :: "bool \<Rightarrow> u64" where
  "truth b = (if b then 1 else 0)"

definition numeric_scale :: "u64 \<Rightarrow> u64 \<Rightarrow> u64" where
  "numeric_scale c v = (if 0 \<le> sint c then v * c else word_of_int (sint v sdiv sint (- c)))"

definition numeric_div_step :: "project_step \<Rightarrow> data_chunk \<Rightarrow> data_chunk result" where
  "numeric_div_step step ch =
     (let a = ps_in_a step; b = ps_in_b step; out = ps_out step;
          ch = (if list_all (\<lambda>s. \<not> ColumnHasNulls (nulls ch s) (chunk_count ch)) [a, b] then memset_nulls out ch else ch)
      in fold_res (\<lambda>row ch.
           if nulls ch a row \<noteq> 0 \<or> nulls ch b row \<noteq> 0 \<or> col_i64 ch b row = 0 then Inr (put_value out row None ch)
           else let quotient = (sint (col_i64 ch a row) * sint (ps_const step)) sdiv sint (col_i64 ch b row)
                in if quotient < - (2 ^ 63) \<or> 2 ^ 63 \<le> quotient
                   then Inl (Elog ''projection numeric division exceeds int64 range'')
                   else Inr (put_value out row (Some (word_of_int quotient)) ch)) [0..<chunk_count ch] ch)"

text \<open>
  The constant is the eight bytes of \<^verbatim>\<open>const_value\<close>; \<open>behind\<close> is what lies behind it in memory, which a longer
  pattern would read.
\<close>

definition const_bytes :: "u8 list \<Rightarrow> project_step \<Rightarrow> u8 list" where
  "const_bytes behind step = le_bytes 8 (unat (ps_const step)) @ behind"

definition prefix_matches :: "u8 list \<Rightarrow> project_step \<Rightarrow> data_chunk \<Rightarrow> nat \<Rightarrow> bool" where
  "prefix_matches behind step ch row =
     (let ref = col_str ch (ps_in_a step) row; n = ps_in_b step; rhs = const_bytes behind step
      in n \<le> unat (ref_len ref) \<and>
         (n = 0 \<or>
          (if n \<le> 8 then take n (le_bytes 8 (unat (ref_prefix ref))) = take n rhs
           else case VecStringRefDataPtr ref (Some (string_arena ch)) of
                  None \<Rightarrow> False | Some lhs \<Rightarrow> take n lhs = take n rhs)))"

definition prefix_like_step :: "u8 list \<Rightarrow> project_step \<Rightarrow> data_chunk \<Rightarrow> data_chunk" where
  "prefix_like_step behind step ch =
     (let a = ps_in_a step; out = ps_out step;
          ch = (if \<not> ColumnHasNulls (nulls ch a) (chunk_count ch) then memset_nulls out ch else ch)
      in guarded_rows out (\<lambda>ch row. if_not_null [a] ch row (truth (prefix_matches behind step ch row))) ch)"

definition case_const_step :: "project_step \<Rightarrow> data_chunk \<Rightarrow> data_chunk" where
  "case_const_step step ch =
     (let a = ps_in_a step; b = ps_in_b step; out = ps_out step; c = ps_const step
      in if \<not> ColumnHasNulls (nulls ch a) (chunk_count ch) \<and> \<not> ColumnHasNulls (nulls ch b) (chunk_count ch)
         then fill_rows out (\<lambda>ch row. if col_i64 ch a row \<noteq> 0 then col_i64 ch b row else c) (memset_nulls out ch)
         else guarded_rows out (\<lambda>ch row.
                if nulls ch a row = 0 \<and> col_i64 ch a row \<noteq> 0 then if_not_null [b] ch row (col_i64 ch b row) else Some c) ch)"

text \<open>\<open>year_of\<close> is the year that \<^verbatim>\<open>j2date\<close> of PostgreSQL gives for a Julian day.\<close>

definition extract_year_step :: "(int \<Rightarrow> int) \<Rightarrow> project_step \<Rightarrow> data_chunk \<Rightarrow> data_chunk" where
  "extract_year_step year_of step =
     guarded_rows (ps_out step) (\<lambda>ch row. if_not_null [ps_in_a step] ch row
       (word_of_int (year_of (sint (col_i32 ch (ps_in_a step) row + 2451545)))))"

fun TrimBpcharLength :: "u8 list \<Rightarrow> nat \<Rightarrow> nat" where
  "TrimBpcharLength data 0 = 0"
| "TrimBpcharLength data (Suc len) = (if data ! len = 32 then TrimBpcharLength data len else Suc len)"

definition string_equals :: "u8 list \<Rightarrow> project_step \<Rightarrow> data_chunk \<Rightarrow> nat \<Rightarrow> bool" where
  "string_equals behind step ch row =
     (let ref = col_str ch (ps_in_a step) row; rhs = const_bytes behind step; rhs_len = ps_in_b step mod 128
      in case VecStringRefDataPtr ref (Some (string_arena ch)) of
           None \<Rightarrow> False
         | Some lhs \<Rightarrow>
             if 128 \<le> ps_in_b step
             then let lhs_len = TrimBpcharLength lhs (unat (ref_len ref))
                  in lhs_len = TrimBpcharLength rhs rhs_len \<and> (lhs_len = 0 \<or> take lhs_len lhs = take lhs_len rhs)
             else unat (ref_len ref) = rhs_len \<and> (rhs_len = 0 \<or> take rhs_len lhs = take rhs_len rhs))"

definition string_compare_step :: "u8 list \<Rightarrow> project_step \<Rightarrow> data_chunk \<Rightarrow> data_chunk" where
  "string_compare_step behind step =
     guarded_rows (ps_out step) (\<lambda>ch row. if_not_null [ps_in_a step] ch row
       (truth (if ps_op step = STRING_EQ_VAR_CONST then string_equals behind step ch row else \<not> string_equals behind step ch row)))"

definition prefix_slice_step :: "project_step \<Rightarrow> data_chunk \<Rightarrow> data_chunk result" where
  "prefix_slice_step step ch =
     (let a = ps_in_a step; out = ps_out step
      in fold_res (\<lambda>row ch.
           if nulls ch a row \<noteq> 0 then Inr (set_null out row 1 ch)
           else let ref = col_str ch a row; ptr = VecStringRefDataPtr ref (Some (string_arena ch))
                in if ptr = None \<and> ref_len ref \<noteq> 0 then Inr (set_null out row 1 ch)
                   else rbind (store_string_bytes ptr (min (ref_len ref) (word_of_nat (ps_in_b step))) ch)
                     (\<lambda>(r, ch). Inr (set_null out row 0 (ch\<lparr>string_class := set_cell out row r (string_class ch)\<rparr>))))
         [0..<chunk_count ch] ch)"

definition case_else_step :: "project_step \<Rightarrow> data_chunk \<Rightarrow> data_chunk" where
  "case_else_step step =
     (let a = ps_in_a step; b = ps_in_b step; e = unat (ucast (ps_const step) :: u8)
      in guarded_rows (ps_out step) (\<lambda>ch row.
           let src = (if nulls ch a row = 0 \<and> col_i64 ch a row \<noteq> 0 then b else e)
           in if_not_null [src] ch row (col_i64 ch src row)))"

definition bool_step :: "project_step \<Rightarrow> data_chunk \<Rightarrow> data_chunk" where
  "bool_step step =
     guarded_rows (ps_out step) (\<lambda>ch row. if_not_null [ps_in_a step, ps_in_b step] ch row
       (let l = col_i64 ch (ps_in_a step) row \<noteq> 0; r = col_i64 ch (ps_in_b step) row \<noteq> 0
        in truth (if ps_op step = BOOL_AND_VAR_VAR then l \<and> r else l \<or> r)))"

definition bool_not_step :: "project_step \<Rightarrow> data_chunk \<Rightarrow> data_chunk" where
  "bool_not_step step =
     guarded_rows (ps_out step) (\<lambda>ch row. if_not_null [ps_in_a step] ch row (truth (col_i64 ch (ps_in_a step) row = 0)))"

definition const_step :: "project_step \<Rightarrow> data_chunk \<Rightarrow> data_chunk" where
  "const_step step ch = fill_rows (ps_out step) (\<lambda>ch row. ps_const step) (memset_nulls (ps_out step) ch)"

definition widen_step :: "project_step \<Rightarrow> data_chunk \<Rightarrow> data_chunk" where
  "widen_step step =
     guarded_rows (ps_out step) (\<lambda>ch row. if_not_null [ps_in_a step] ch row (scast (col_i32 ch (ps_in_a step) row)))"

definition compare_const_step :: "(int \<Rightarrow> int \<Rightarrow> bool) \<Rightarrow> project_step \<Rightarrow> data_chunk \<Rightarrow> data_chunk" where
  "compare_const_step rel step =
     guarded_rows (ps_out step) (\<lambda>ch row. if_not_null [ps_in_a step] ch row
       (truth (rel (sint (col_i64 ch (ps_in_a step) row)) (sint (ps_const step)))))"

definition ExecuteStep :: "(int \<Rightarrow> int) \<Rightarrow> u8 list \<Rightarrow> project_step \<Rightarrow> data_chunk \<Rightarrow> data_chunk result" where
  "ExecuteStep year_of behind step ch =
     (let a = ps_in_a step; b = ps_in_b step; c = ps_const step;
          unary = (\<lambda>f. Inr (int64_loop [a] (ps_out step) (\<lambda>ch row. f (col_i64 ch a row)) ch));
          unary_b = (\<lambda>f. Inr (int64_loop [b] (ps_out step) (\<lambda>ch row. f (col_i64 ch b row)) ch));
          binary = (\<lambda>f. Inr (int64_loop [a, b] (ps_out step) (\<lambda>ch row. f (col_i64 ch a row) (col_i64 ch b row)) ch))
      in case ps_op step of
           NUMERIC_SCALE_VAR_CONST \<Rightarrow> unary (numeric_scale c)
         | NUMERIC_MUL_VAR_VAR \<Rightarrow> binary (*)
         | NUMERIC_ADD_VAR_VAR \<Rightarrow> binary (+)
         | NUMERIC_SUB_VAR_VAR \<Rightarrow> binary (-)
         | NUMERIC_MUL_VAR_CONST \<Rightarrow> unary (\<lambda>v. v * c)
         | NUMERIC_ADD_VAR_CONST \<Rightarrow> unary (\<lambda>v. v + c)
         | NUMERIC_SUB_VAR_CONST \<Rightarrow> unary (\<lambda>v. v - c)
         | COPY_VAR \<Rightarrow> unary (\<lambda>v. v)
         | NUMERIC_SUB_CONST_VAR \<Rightarrow> unary_b (\<lambda>v. c - v)
         | NUMERIC_ADD_CONST_VAR \<Rightarrow> unary_b (\<lambda>v. c + v)
         | NUMERIC_DIV_VAR_VAR \<Rightarrow> numeric_div_step step ch
         | STRING_PREFIX_LIKE \<Rightarrow> Inr (prefix_like_step behind step ch)
         | NUMERIC_CASE_VAR_CONST \<Rightarrow> Inr (case_const_step step ch)
         | EXTRACT_YEAR_FROM_DATE \<Rightarrow> Inr (extract_year_step year_of step ch)
         | STRING_EQ_VAR_CONST \<Rightarrow> Inr (string_compare_step behind step ch)
         | STRING_NE_VAR_CONST \<Rightarrow> Inr (string_compare_step behind step ch)
         | STRING_PREFIX_SLICE \<Rightarrow> prefix_slice_step step ch
         | NUMERIC_CASE_ELSE_VAR \<Rightarrow> Inr (case_else_step step ch)
         | BOOL_AND_VAR_VAR \<Rightarrow> Inr (bool_step step ch)
         | BOOL_OR_VAR_VAR \<Rightarrow> Inr (bool_step step ch)
         | BOOL_NOT_VAR \<Rightarrow> Inr (bool_not_step step ch)
         | CONST_INT64 \<Rightarrow> Inr (const_step step ch)
         | INT32_TO_INT64_VAR \<Rightarrow> Inr (widen_step step ch)
         | INT64_LT_VAR_CONST \<Rightarrow> Inr (compare_const_step (<) step ch)
         | INT64_LE_VAR_CONST \<Rightarrow> Inr (compare_const_step (\<le>) step ch)
         | INT64_EQ_VAR_CONST \<Rightarrow> Inr (compare_const_step (=) step ch)
         | INT64_GE_VAR_CONST \<Rightarrow> Inr (compare_const_step (\<ge>) step ch)
         | INT64_GT_VAR_CONST \<Rightarrow> Inr (compare_const_step (>) step ch)
         | INT64_NE_VAR_CONST \<Rightarrow> Inr (compare_const_step (\<noteq>) step ch))"

section \<open>The operator\<close>

record projection =
  pj_exprs :: "project_expr list"
  pj_steps :: "project_step list"

definition run_expr :: "(int \<Rightarrow> int) \<Rightarrow> u8 list \<Rightarrow> project_step list \<Rightarrow> project_expr \<Rightarrow> data_chunk \<Rightarrow> data_chunk result" where
  "run_expr year_of behind steps expr out =
     (let first = pe_first_step_idx expr; n = pe_n_steps expr
      in if length steps < first + n then Inl (Elog ''projection step range exceeds step tape'')
         else if n = 0 then Inr out
         else rbind (fold_res (\<lambda>step_idx. ExecuteStep year_of behind (steps ! step_idx)) [first..<(first + n) mod 2 ^ 16] out) (\<lambda>out.
              if pe_output_chunk_slot expr \<noteq> ps_out (steps ! (first + n - 1))
              then Inl (Elog ''projection output slot descriptor mismatch'') else Inr out))"

definition ProjectionExecute ::
  "(int \<Rightarrow> int) \<Rightarrow> u8 list \<Rightarrow> projection \<Rightarrow> data_chunk \<Rightarrow> data_chunk \<Rightarrow> bool \<Rightarrow> (data_chunk \<times> operator_result \<times> bool) result" where
  "ProjectionExecute year_of behind pj input out current_input_drained =
     (if current_input_drained then Inr (chunk_reset out, OP_NEED_MORE_INPUT, False)
      else let out = (if has_any_dictionary input then flatten input else input)
           in rbind (fold_res (run_expr year_of behind (pj_steps pj)) (pj_exprs pj) out)
                (\<lambda>out. Inr (out, if 0 < chunk_count out then OP_HAVE_MORE_OUTPUT else OP_NEED_MORE_INPUT, 0 < chunk_count out)))"

section \<open>The fast paths\<close>

text \<open>Values that do not depend on null flags.\<close>

definition ignores_nulls :: "(data_chunk \<Rightarrow> nat \<Rightarrow> 'a) \<Rightarrow> bool" where
  "ignores_nulls f \<longleftrightarrow> (\<forall>s r v ch. f (set_null s r v ch) = f ch)"

lemma ignores_nullsI: "(\<And>s r v ch row. f (set_null s r v ch) row = f ch row) \<Longrightarrow> ignores_nulls f"
  by (auto simp: ignores_nulls_def)

lemma set_i64_null: "set_i64 s r v (set_null t q w ch) = set_null t q w (set_i64 s r v ch)"
  by (simp add: set_i64_def set_null_def)

lemma nulls_set [simp]: "nulls (set_null s r v ch) = (nulls ch)(s := (nulls ch s)(r := v))" "nulls (set_i64 s r w ch) = nulls ch"
  by (simp_all add: set_null_def set_i64_def)

lemma count_set [simp]: "chunk_count (set_null s r v ch) = chunk_count ch" "chunk_count (set_i64 s r w ch) = chunk_count ch"
  by (simp_all add: set_null_def set_i64_def)

abbreviation clear_rows :: "nat \<Rightarrow> nat list \<Rightarrow> data_chunk \<Rightarrow> data_chunk" where
  "clear_rows out \<equiv> fold (\<lambda>row. set_null out row 0)"

lemma clear_rows_simps [simp]:
  "cells (int64_class (clear_rows out rows X)) = cells (int64_class X)" "int32_class (clear_rows out rows X) = int32_class X"
  "string_class (clear_rows out rows X) = string_class X" "string_arena (clear_rows out rows X) = string_arena X"
  "chunk_count (clear_rows out rows X) = chunk_count X"
  by (induction rows arbitrary: X) (simp_all add: set_null_def)

lemma clear_rows_nulls: "nulls (clear_rows out rows X) s r = (if s = out \<and> r \<in> set rows then 0 else nulls X s r)"
  by (induction rows arbitrary: X) auto

lemma ignores_clear: "ignores_nulls f \<Longrightarrow> f (clear_rows out rows X) = f X"
  by (induction rows arbitrary: X) (simp_all add: ignores_nulls_def)

lemma i64_past_clear: "set_i64 s r v (clear_rows out rows X) = clear_rows out rows (set_i64 s r v X)"
  by (induction rows arbitrary: X) (simp_all add: set_i64_null)

lemma null_past_clear: "r \<notin> set rows \<Longrightarrow> set_null out r v (clear_rows out rows X) = clear_rows out rows (set_null out r v X)"
proof (induction rows arbitrary: X)
  case (Cons q rows)
  have "set_null out q 0 (set_null out r v X) = set_null out r v (set_null out q 0 X)"
    using Cons.prems by (auto simp: set_null_def fun_upd_twist)
  then show ?case using Cons by simp
qed simp

lemma put_past_clear: "n < m \<Longrightarrow> put_value out n v (clear_rows out [n..<m] X) = clear_rows out [Suc n..<m] (put_value out n v X)"
proof -
  assume "n < m"
  then have split: "clear_rows out [n..<m] X = clear_rows out [Suc n..<m] (set_null out n 0 X)" by (simp add: upt_conv_Cons)
  have "put_value out n v (set_null out n 0 X) = put_value out n v X" by (auto simp: put_value_def set_i64_def set_null_def split: option.splits)
  then show ?thesis unfolding split by (auto simp: put_value_def null_past_clear i64_past_clear split: option.splits)
qed

lemma rbind_fold_Nil [simp]: "rbind m (fold_res f []) = m"
  by (cases m) simp_all

text \<open>Clearing the flags first can be put off until the loop has passed over the rows.\<close>

lemma clear_first:
  assumes step: "\<And>n X. n < m \<Longrightarrow> P n X \<Longrightarrow> b1 n (clear_rows out [n..<m] X) = map_sum id (clear_rows out [Suc n..<m]) (b2 n X)"
    and inv: "\<And>n X X'. n < m \<Longrightarrow> P n X \<Longrightarrow> b2 n X = Inr X' \<Longrightarrow> P (Suc n) X'" and "P 0 ch"
  shows "fold_res b1 [0..<m] (clear_rows out [0..<m] ch) = fold_res b2 [0..<m] ch"
proof -
  have "fold_res b1 [0..<n] (clear_rows out [0..<m] ch) = map_sum id (clear_rows out [n..<m]) (fold_res b2 [0..<n] ch) \<and>
      (\<forall>X. fold_res b2 [0..<n] ch = Inr X \<longrightarrow> P n X)" if "n \<le> m" for n
    using that
  proof (induction n)
    case (Suc n)
    then show ?case using step [of n] inv [of n] by (cases "fold_res b2 [0..<n] ch") (auto simp: fold_res_append id_def)
  qed (use assms(3) in simp)
  from this [of m] show ?thesis by (simp add: map_sum.id)
qed

lemma fold_res_fold: "fold_res (\<lambda>x s. Inr (g x s)) xs s = Inr (fold g xs s)"
  by (induction xs arbitrary: s) simp_all

lemma memset_clear: "memset_nulls out ch = clear_rows out [0..<chunk_count ch] ch"
  by (simp add: memset_nulls_def)

text \<open>Null flags are 0 or 1, so the search for a 1 finds every null.\<close>

definition flags_ok :: "data_chunk \<Rightarrow> bool" where
  "flags_ok ch \<longleftrightarrow> (\<forall>s. \<forall>r<chunk_count ch. nulls ch s r = 0 \<or> nulls ch s r = 1)"

definition flags_clear :: "nat list \<Rightarrow> nat \<Rightarrow> nat \<Rightarrow> data_chunk \<Rightarrow> bool" where
  "flags_clear ins m n ch \<longleftrightarrow> (\<forall>s\<in>set ins. \<forall>r. n \<le> r \<and> r < m \<longrightarrow> nulls ch s r = 0)"

lemma no_nulls_flags: "flags_ok ch \<Longrightarrow> list_all (\<lambda>s. \<not> ColumnHasNulls (nulls ch s) (chunk_count ch)) ins \<longleftrightarrow>
    flags_clear ins (chunk_count ch) 0 ch"
proof -
  assume "flags_ok ch"
  then have "nulls ch s r = 1 \<longleftrightarrow> nulls ch s r \<noteq> 0" if "r < chunk_count ch" for s r using that by (fastforce simp: flags_ok_def)
  then show ?thesis by (auto simp: ColumnHasNulls_def flags_clear_def list_ex_iff list_all_iff)
qed

lemma flags_clear_put: "flags_clear ins m n X \<Longrightarrow> flags_clear ins m (Suc n) (put_value out n v X)"
  by (auto simp: flags_clear_def put_value_def split: option.splits)

lemma flags_clear_rows: "flags_clear ins m n X \<Longrightarrow> s \<in> set ins \<Longrightarrow> n < m \<Longrightarrow> nulls (clear_rows out [n..<m] X) s n = 0"
  by (auto simp: flags_clear_def clear_rows_nulls)

text \<open>The three shapes of a fast path.\<close>

lemma fill_guarded:
  assumes f: "ignores_nulls f" and v: "\<And>X row. \<forall>s\<in>set ins. nulls X s row = 0 \<Longrightarrow> v X row = Some (f X row)"
    and clear: "flags_clear ins (chunk_count ch) 0 ch"
  shows "fill_rows out f (memset_nulls out ch) = guarded_rows out v ch"
proof -
  let ?m = "chunk_count ch"
  have "fold_res (\<lambda>row ch. Inr (set_i64 out row (f ch row) ch)) [0..<?m] (clear_rows out [0..<?m] ch) =
      fold_res (\<lambda>row ch. Inr (put_value out row (v ch row) ch)) [0..<?m] ch"
  proof (rule clear_first [where P = "flags_clear ins ?m"])
    fix n X assume n: "n < ?m" "flags_clear ins ?m n X"
    then have "v X n = Some (f X n)" by (intro v) (auto simp: flags_clear_def)
    moreover have "clear_rows out [n..<?m] X = clear_rows out [Suc n..<?m] (set_null out n 0 X)" using n by (simp add: upt_conv_Cons)
    ultimately show "Inr (set_i64 out n (f (clear_rows out [n..<?m] X) n) (clear_rows out [n..<?m] X)) =
        map_sum id (clear_rows out [Suc n..<?m]) (Inr (put_value out n (v X n) X))"
      using ignores_clear [OF f] f by (simp add: put_value_def i64_past_clear set_i64_null ignores_nulls_def)
  qed (use clear flags_clear_put in auto)
  then show ?thesis by (simp add: fold_res_fold fill_rows_def guarded_rows_def memset_clear)
qed

lemma memset_guarded:
  assumes f: "ignores_nulls f" and v: "\<And>X row. \<forall>s\<in>set ins. nulls X s row = 0 \<Longrightarrow> v X row = Some (f X row)"
    and clear: "flags_clear ins (chunk_count ch) 0 ch"
  shows "guarded_rows out v (memset_nulls out ch) = guarded_rows out v ch"
proof -
  let ?m = "chunk_count ch"
  have "fold_res (\<lambda>row ch. Inr (put_value out row (v ch row) ch)) [0..<?m] (clear_rows out [0..<?m] ch) =
      fold_res (\<lambda>row ch. Inr (put_value out row (v ch row) ch)) [0..<?m] ch"
  proof (rule clear_first [where P = "flags_clear ins ?m"])
    fix n X assume n: "n < ?m" "flags_clear ins ?m n X"
    then have "v X n = Some (f X n)" by (intro v) (auto simp: flags_clear_def)
    moreover have "v (clear_rows out [n..<?m] X) n = Some (f X n)"
      using flags_clear_rows [OF n(2) _ n(1)] ignores_clear [OF f] by (subst v) auto
    ultimately show "Inr (put_value out n (v (clear_rows out [n..<?m] X) n) (clear_rows out [n..<?m] X)) =
        map_sum id (clear_rows out [Suc n..<?m]) (Inr (put_value out n (v X n) X))"
      using n(1) by (simp add: put_past_clear)
  qed (use clear flags_clear_put in auto)
  then show ?thesis by (simp add: fold_res_fold guarded_rows_def memset_clear)
qed

lemma int64_loop_guarded:
  assumes "flags_ok ch" "ignores_nulls f"
  shows "int64_loop ins out f ch = guarded_rows out (\<lambda>ch row. if_not_null ins ch row (f ch row)) ch"
  using fill_guarded [OF assms(2), of ins "\<lambda>ch row. if_not_null ins ch row (f ch row)" ch out] no_nulls_flags [OF assms(1)]
  by (auto simp: int64_loop_def if_not_null_def list_ex_iff)

lemma const_step_guarded: "const_step step ch = guarded_rows (ps_out step) (\<lambda>ch row. Some (ps_const step)) ch"
  using fill_guarded [of "\<lambda>_ _. ps_const step" "[]" "\<lambda>_ _. Some (ps_const step)" ch]
  by (simp add: ignores_nulls_def const_step_def flags_clear_def)

lemma case_const_guarded:
  assumes "flags_ok ch"
  shows "case_const_step step ch = guarded_rows (ps_out step) (\<lambda>ch row.
    if nulls ch (ps_in_a step) row = 0 \<and> col_i64 ch (ps_in_a step) row \<noteq> 0
    then if_not_null [ps_in_b step] ch row (col_i64 ch (ps_in_b step) row) else Some (ps_const step)) ch"
proof -
  let ?f = "\<lambda>ch row. if col_i64 ch (ps_in_a step) row \<noteq> 0 then col_i64 ch (ps_in_b step) row else ps_const step"
  have f: "ignores_nulls ?f" by (rule ignores_nullsI) (simp add: set_null_def)
  from no_nulls_flags [OF assms, of "[ps_in_a step, ps_in_b step]"] show ?thesis
    using fill_guarded [OF f, of "[ps_in_a step, ps_in_b step]" "\<lambda>ch row. if nulls ch (ps_in_a step) row = 0 \<and> col_i64 ch (ps_in_a step) row \<noteq> 0
        then if_not_null [ps_in_b step] ch row (col_i64 ch (ps_in_b step) row) else Some (ps_const step)" ch "ps_out step"]
    by (auto simp: case_const_step_def Let_def if_not_null_def)
qed

lemma prefix_like_guarded:
  assumes "flags_ok ch"
  shows "prefix_like_step behind step ch =
    guarded_rows (ps_out step) (\<lambda>ch row. if_not_null [ps_in_a step] ch row (truth (prefix_matches behind step ch row))) ch"
proof -
  have f: "ignores_nulls (\<lambda>ch row. truth (prefix_matches behind step ch row))"
    by (rule ignores_nullsI) (simp add: set_null_def prefix_matches_def)
  from no_nulls_flags [OF assms, of "[ps_in_a step]"] show ?thesis
    using memset_guarded [OF f, of "[ps_in_a step]" "\<lambda>ch row. if_not_null [ps_in_a step] ch row (truth (prefix_matches behind step ch row))" ch "ps_out step"]
    by (auto simp: prefix_like_step_def Let_def if_not_null_def)
qed

definition div_row :: "project_step \<Rightarrow> nat \<Rightarrow> data_chunk \<Rightarrow> data_chunk result" where
  "div_row step row ch =
     (let a = ps_in_a step; b = ps_in_b step; out = ps_out step
      in if nulls ch a row \<noteq> 0 \<or> nulls ch b row \<noteq> 0 \<or> col_i64 ch b row = 0 then Inr (put_value out row None ch)
         else let quotient = (sint (col_i64 ch a row) * sint (ps_const step)) sdiv sint (col_i64 ch b row)
              in if quotient < - (2 ^ 63) \<or> 2 ^ 63 \<le> quotient
                 then Inl (Elog ''projection numeric division exceeds int64 range'')
                 else Inr (put_value out row (Some (word_of_int quotient)) ch))"

lemma numeric_div_guarded:
  assumes "flags_ok ch"
  shows "numeric_div_step step ch = fold_res (div_row step) [0..<chunk_count ch] ch"
proof -
  let ?m = "chunk_count ch" and ?ins = "[ps_in_a step, ps_in_b step]"
  have "fold_res (div_row step) [0..<?m] (clear_rows (ps_out step) [0..<?m] ch) = fold_res (div_row step) [0..<?m] ch"
    if "flags_clear ?ins ?m 0 ch"
  proof (rule clear_first [where P = "flags_clear ?ins ?m"])
    fix n X assume n: "n < ?m" "flags_clear ?ins ?m n X"
    have "nulls X s n = 0" if "s \<in> set ?ins" for s using n that by (auto simp: flags_clear_def)
    moreover have "nulls (clear_rows (ps_out step) [n..<?m] X) s n = 0" if "s \<in> set ?ins" for s
      using flags_clear_rows [OF n(2) that n(1)] .
    ultimately show "div_row step n (clear_rows (ps_out step) [n..<?m] X) =
        map_sum id (clear_rows (ps_out step) [Suc n..<?m]) (div_row step n X)"
      using put_past_clear [OF n(1)] by (simp add: div_row_def Let_def)
  next
    show "flags_clear ?ins ?m (Suc n) X'" if "flags_clear ?ins ?m n X" "div_row step n X = Inr X'" for n X X'
      using that flags_clear_put [OF that(1)] by (auto simp: div_row_def Let_def split: if_splits)
  qed (rule that)
  then show ?thesis
    using no_nulls_flags [OF assms, of ?ins]
    by (simp add: numeric_div_step_def Let_def memset_clear div_row_def [abs_def])
qed

section \<open>The machine for one row\<close>

record row_env =
  re_int64 :: "nat \<Rightarrow> u64"
  re_int32 :: "nat \<Rightarrow> u32"
  re_string :: "nat \<Rightarrow> u8 list"
  re_null :: "nat \<Rightarrow> bool"

datatype step_value = NullValue | IntValue u64 | StringValue "u8 list"

text \<open>The short constant of a string step.\<close>

definition short_const :: "project_step \<Rightarrow> nat \<Rightarrow> u8 list" where
  "short_const step n = take n (le_bytes 8 (unat (ps_const step)))"

definition rtrim :: "u8 list \<Rightarrow> u8 list" where
  "rtrim s = rev (dropWhile (\<lambda>b. b = 32) (rev s))"

definition step_string_eq :: "project_step \<Rightarrow> u8 list \<Rightarrow> bool" where
  "step_string_eq step s \<longleftrightarrow>
     (if 128 \<le> ps_in_b step then rtrim s = rtrim (short_const step (ps_in_b step mod 128))
      else s = short_const step (ps_in_b step mod 128))"

definition step_value :: "(int \<Rightarrow> int) \<Rightarrow> project_step \<Rightarrow> row_env \<Rightarrow> step_value result" where
  "step_value year_of step env =
     (let a = ps_in_a step; b = ps_in_b step; c = ps_const step; x = re_int64 env a; y = re_int64 env b;
          strict = (\<lambda>ins v. Inr (if list_ex (re_null env) ins then NullValue else v));
          int = (\<lambda>ins v. strict ins (IntValue v)); bool = (\<lambda>ins v. strict ins (IntValue (truth v)))
      in case ps_op step of
           NUMERIC_SCALE_VAR_CONST \<Rightarrow> int [a] (numeric_scale c x)
         | NUMERIC_MUL_VAR_VAR \<Rightarrow> int [a, b] (x * y)
         | NUMERIC_ADD_VAR_VAR \<Rightarrow> int [a, b] (x + y)
         | NUMERIC_SUB_VAR_VAR \<Rightarrow> int [a, b] (x - y)
         | NUMERIC_MUL_VAR_CONST \<Rightarrow> int [a] (x * c)
         | NUMERIC_ADD_VAR_CONST \<Rightarrow> int [a] (x + c)
         | NUMERIC_SUB_VAR_CONST \<Rightarrow> int [a] (x - c)
         | COPY_VAR \<Rightarrow> int [a] x
         | NUMERIC_SUB_CONST_VAR \<Rightarrow> int [b] (c - y)
         | NUMERIC_ADD_CONST_VAR \<Rightarrow> int [b] (c + y)
         | NUMERIC_DIV_VAR_VAR \<Rightarrow>
             if re_null env a \<or> re_null env b \<or> y = 0 then Inr NullValue
             else let q = (sint x * sint c) sdiv sint y
                  in if q < - (2 ^ 63) \<or> 2 ^ 63 \<le> q then Inl (Elog ''projection numeric division exceeds int64 range'')
                     else Inr (IntValue (word_of_int q))
         | STRING_PREFIX_LIKE \<Rightarrow> bool [a] (b \<le> length (re_string env a) \<and> take b (re_string env a) = short_const step b)
         | NUMERIC_CASE_VAR_CONST \<Rightarrow> if \<not> re_null env a \<and> x \<noteq> 0 then int [b] y else Inr (IntValue c)
         | EXTRACT_YEAR_FROM_DATE \<Rightarrow> int [a] (word_of_int (year_of (sint (re_int32 env a + 2451545))))
         | STRING_EQ_VAR_CONST \<Rightarrow> bool [a] (step_string_eq step (re_string env a))
         | STRING_NE_VAR_CONST \<Rightarrow> bool [a] (\<not> step_string_eq step (re_string env a))
         | STRING_PREFIX_SLICE \<Rightarrow> strict [a] (StringValue (take b (re_string env a)))
         | NUMERIC_CASE_ELSE_VAR \<Rightarrow>
             let e = unat (ucast c :: u8)
             in if \<not> re_null env a \<and> x \<noteq> 0 then int [b] y else int [e] (re_int64 env e)
         | BOOL_AND_VAR_VAR \<Rightarrow> bool [a, b] (x \<noteq> 0 \<and> y \<noteq> 0)
         | BOOL_OR_VAR_VAR \<Rightarrow> bool [a, b] (x \<noteq> 0 \<or> y \<noteq> 0)
         | BOOL_NOT_VAR \<Rightarrow> bool [a] (x = 0)
         | CONST_INT64 \<Rightarrow> int [] c
         | INT32_TO_INT64_VAR \<Rightarrow> int [a] (scast (re_int32 env a))
         | INT64_LT_VAR_CONST \<Rightarrow> bool [a] (sint x < sint c)
         | INT64_LE_VAR_CONST \<Rightarrow> bool [a] (sint x \<le> sint c)
         | INT64_EQ_VAR_CONST \<Rightarrow> bool [a] (sint x = sint c)
         | INT64_GE_VAR_CONST \<Rightarrow> bool [a] (sint x \<ge> sint c)
         | INT64_GT_VAR_CONST \<Rightarrow> bool [a] (sint x > sint c)
         | INT64_NE_VAR_CONST \<Rightarrow> bool [a] (sint x \<noteq> sint c))"

definition put_env :: "nat \<Rightarrow> step_value \<Rightarrow> row_env \<Rightarrow> row_env" where
  "put_env out v env =
     (case v of
        NullValue \<Rightarrow> env\<lparr>re_null := (re_null env)(out := True)\<rparr>
      | IntValue w \<Rightarrow> env\<lparr>re_int64 := (re_int64 env)(out := w), re_null := (re_null env)(out := False)\<rparr>
      | StringValue s \<Rightarrow> env\<lparr>re_string := (re_string env)(out := s), re_null := (re_null env)(out := False)\<rparr>)"

definition step_row :: "(int \<Rightarrow> int) \<Rightarrow> project_step \<Rightarrow> row_env \<Rightarrow> row_env result" where
  "step_row year_of step env = rbind (step_value year_of step env) (\<lambda>v. Inr (put_env (ps_out step) v env))"

definition run_row :: "(int \<Rightarrow> int) \<Rightarrow> project_step list \<Rightarrow> row_env \<Rightarrow> row_env result" where
  "run_row year_of steps = fold_res (step_row year_of) steps"

section \<open>Rows of a chunk\<close>

text \<open>
  Row \<open>r\<close> of the chunk is \<open>env\<close>; strings are looked at in the slots \<open>L\<close> only, where they are not null. A step that
  writes integers into a slot takes it out of \<open>L\<close>, since the flags of a slot are shared by all classes.
\<close>

definition row_is :: "nat set \<Rightarrow> data_chunk \<Rightarrow> nat \<Rightarrow> row_env \<Rightarrow> bool" where
  "row_is L ch r env \<longleftrightarrow>
     (\<forall>s. re_int64 env s = col_i64 ch s r \<and> re_int32 env s = col_i32 ch s r \<and> re_null env s = (nulls ch s r \<noteq> 0) \<and>
        (nulls ch s r = 0 \<or> nulls ch s r = 1)) \<and>
     (\<forall>s\<in>L. nulls ch s r = 0 \<longrightarrow> ref_ok (string_arena ch) (length (string_arena ch)) (col_str ch s r) \<and>
        re_string env s = ref_string (string_arena ch) (col_str ch s r))"

definition next_live :: "project_step \<Rightarrow> nat set \<Rightarrow> nat set" where
  "next_live step L = (if ps_op step = STRING_PREFIX_SLICE then insert (ps_out step) L else L - {ps_out step})"

definition step_ok :: "nat set \<Rightarrow> project_step \<Rightarrow> bool" where
  "step_ok L step \<longleftrightarrow>
     (ps_op step \<in> {STRING_PREFIX_LIKE, STRING_EQ_VAR_CONST, STRING_NE_VAR_CONST, STRING_PREFIX_SLICE} \<longrightarrow> ps_in_a step \<in> L) \<and>
     (ps_op step = STRING_PREFIX_LIKE \<longrightarrow> ps_in_b step \<le> 8) \<and>
     (ps_op step \<in> {STRING_EQ_VAR_CONST, STRING_NE_VAR_CONST} \<longrightarrow> ps_in_b step mod 128 \<le> 8) \<and>
     (ps_op step = STRING_PREFIX_SLICE \<longrightarrow> ps_in_b step < 256)"

text \<open>Only slot \<open>out\<close> of row \<open>r\<close> is written, and the arena grows.\<close>

definition writes :: "nat \<Rightarrow> nat \<Rightarrow> data_chunk \<Rightarrow> data_chunk \<Rightarrow> bool" where
  "writes out r ch ch' \<longleftrightarrow>
     chunk_count ch' = chunk_count ch \<and> (\<exists>ext. string_arena ch' = string_arena ch @ ext \<and> length ext \<le> 65536) \<and>
     (\<forall>s q. s \<noteq> out \<or> q \<noteq> r \<longrightarrow> col_i64 ch' s q = col_i64 ch s q \<and> col_i32 ch' s q = col_i32 ch s q \<and>
        col_str ch' s q = col_str ch s q \<and> nulls ch' s q = nulls ch s q)"

lemma ref_append: "ref_ok a (length a) r \<Longrightarrow> ref_ok (a @ b) (length (a @ b)) r \<and> ref_string (a @ b) r = ref_string a r"
  using ref_ok_grow [of a "length a" r "length (a @ b)" "a @ b"] by (simp add: mem_read_append)

lemma row_is_writes:
  assumes "row_is L ch q env" "writes out r ch ch'" "q \<noteq> r"
  shows "row_is L ch' q env"
proof -
  obtain ext where "string_arena ch' = string_arena ch @ ext" using assms(2) by (auto simp: writes_def)
  then show ?thesis using assms ref_append [of "string_arena ch" _ ext] by (simp add: row_is_def writes_def)
qed

lemma row_is_subset: "row_is L ch r env \<Longrightarrow> L' \<subseteq> L \<Longrightarrow> row_is L' ch r env"
  by (auto simp: row_is_def)

text \<open>A loop whose body does on its row what the step does on the environment.\<close>

lemma row_loop:
  assumes body: "\<And>r X env. row_is L X r env \<Longrightarrow> length (string_arena X) + 65536 < 2 ^ 32 - 1 \<Longrightarrow>
      case step_row year_of step env of
        Inl e \<Rightarrow> body r X = Inl e
      | Inr env' \<Rightarrow> \<exists>X'. body r X = Inr X' \<and> row_is (next_live step L) X' r env' \<and> writes out r X X'"
    and rows: "\<forall>r<m. row_is L ch r (env r)" and arena: "length (string_arena ch) + m * 65536 < 2 ^ 32 - 1"
  shows "n \<le> m \<Longrightarrow> case fold_res body [0..<n] ch of
      Inl e \<Rightarrow> \<exists>r<n. step_row year_of step (env r) = Inl e
    | Inr X \<Rightarrow> (\<forall>r<n. \<exists>env'. step_row year_of step (env r) = Inr env' \<and> row_is (next_live step L) X r env') \<and>
        (\<forall>r. n \<le> r \<and> r < m \<longrightarrow> row_is L X r (env r)) \<and> chunk_count X = chunk_count ch \<and>
        length (string_arena X) \<le> length (string_arena ch) + n * 65536"
proof (induction n)
  case 0
  then show ?case using rows by simp
next
  case (Suc n)
  show ?case
  proof (cases "fold_res body [0..<n] ch")
    case (Inl e)
    then show ?thesis using Suc by (auto simp: fold_res_append intro: less_SucI)
  next
    case (Inr X)
    then have X: "\<forall>r<n. \<exists>env'. step_row year_of step (env r) = Inr env' \<and> row_is (next_live step L) X r env'"
      "\<forall>r. n \<le> r \<and> r < m \<longrightarrow> row_is L X r (env r)" "chunk_count X = chunk_count ch"
      "length (string_arena X) \<le> length (string_arena ch) + n * 65536" using Suc by simp_all
    have "n * 65536 + 65536 \<le> m * 65536" using Suc.prems mult_le_mono1 [of "Suc n" m 65536] by simp
    then have room: "length (string_arena X) + 65536 < 2 ^ 32 - 1" using X(4) arena by linarith
    have "row_is L X n (env n)" using X(2) Suc.prems by simp
    note B = body [OF this room]
    show ?thesis
    proof (cases "step_row year_of step (env n)")
      case (Inl e)
      then show ?thesis using B Inr by (auto simp: fold_res_append)
    next
      case (Inr env')
      then obtain X' where X': "body n X = Inr X'" "row_is (next_live step L) X' n env'" "writes out n X X'" using B by auto
      have "fold_res body [0..<Suc n] ch = Inr X'" using \<open>fold_res body [0..<n] ch = Inr X\<close> X'(1) by (simp add: fold_res_append)
      moreover have "\<forall>r<Suc n. \<exists>env'. step_row year_of step (env r) = Inr env' \<and> row_is (next_live step L) X' r env'"
        using X(1) X'(2) Inr row_is_writes [OF _ X'(3)] by (metis less_SucE nat_neq_iff)
      moreover have "\<forall>r. Suc n \<le> r \<and> r < m \<longrightarrow> row_is L X' r (env r)"
        using X(2) row_is_writes [OF _ X'(3)] by (simp add: Suc_le_eq)
      moreover have "chunk_count X' = chunk_count ch" "length (string_arena X') \<le> length (string_arena X) + 65536"
        using X'(3) X(3) by (auto simp: writes_def)
      ultimately show ?thesis using X(4) by simp
    qed
  qed
qed

section \<open>Every step does what the machine does\<close>

fun of_value :: "u64 option \<Rightarrow> step_value" where
  "of_value None = NullValue"
| "of_value (Some v) = IntValue v"

lemma put_value_row:
  assumes "row_is L X r env"
  shows "row_is (L - {out}) (put_value out r v X) r (put_env out (of_value v) env)" and "writes out r X (put_value out r v X)"
proof -
  show "row_is (L - {out}) (put_value out r v X) r (put_env out (of_value v) env)"
    using assms by (cases v) (simp_all add: row_is_def put_value_def put_env_def set_null_def set_i64_def set_cell_def)
  have "string_arena (put_value out r v X) = string_arena X @ []" "chunk_count (put_value out r v X) = chunk_count X"
    by (simp_all add: put_value_def set_null_def set_i64_def split: option.splits)
  then show "writes out r X (put_value out r v X)"
    unfolding writes_def by (auto simp: put_value_def set_null_def set_i64_def set_cell_def split: option.splits intro!: exI [of _ "[]"])
qed

definition step_done :: "(int \<Rightarrow> int) \<Rightarrow> nat set \<Rightarrow> project_step \<Rightarrow> (nat \<Rightarrow> row_env) \<Rightarrow> data_chunk \<Rightarrow> data_chunk result \<Rightarrow> bool" where
  "step_done year_of L step env ch res \<longleftrightarrow>
     (case res of
        Inl e \<Rightarrow> \<exists>r<chunk_count ch. step_row year_of step (env r) = Inl e
      | Inr X \<Rightarrow> (\<forall>r<chunk_count ch. \<exists>env'. step_row year_of step (env r) = Inr env' \<and> row_is (next_live step L) X r env') \<and>
          chunk_count X = chunk_count ch \<and> length (string_arena X) \<le> length (string_arena ch) + chunk_count ch * 65536)"

lemma loop_done:
  assumes body: "\<And>r X env. row_is L X r env \<Longrightarrow> length (string_arena X) + 65536 < 2 ^ 32 - 1 \<Longrightarrow>
      case step_row year_of step env of
        Inl e \<Rightarrow> body r X = Inl e
      | Inr env' \<Rightarrow> \<exists>X'. body r X = Inr X' \<and> row_is (next_live step L) X' r env' \<and> writes (ps_out step) r X X'"
    and rows: "\<forall>r<chunk_count ch. row_is L ch r (env r)" and arena: "length (string_arena ch) + chunk_count ch * 65536 < 2 ^ 32 - 1"
  shows "step_done year_of L step env ch (fold_res body [0..<chunk_count ch] ch)"
  using row_loop [where m = "chunk_count ch", OF body rows arena order_refl] by (auto simp: step_done_def split: sum.splits)

lemma guarded_done:
  assumes op: "ps_op step \<noteq> STRING_PREFIX_SLICE"
    and v: "\<And>X r env. row_is L X r env \<Longrightarrow> step_value year_of step env = Inr (of_value (v X r))"
    and rows: "\<forall>r<chunk_count ch. row_is L ch r (env r)" and arena: "length (string_arena ch) + chunk_count ch * 65536 < 2 ^ 32 - 1"
  shows "step_done year_of L step env ch (Inr (guarded_rows (ps_out step) v ch))"
proof -
  have "step_done year_of L step env ch (fold_res (\<lambda>r X. Inr (put_value (ps_out step) r (v X r) X)) [0..<chunk_count ch] ch)"
  proof (rule loop_done [OF _ rows arena])
    fix r X env assume row: "row_is L X r env"
    have "next_live step L = L - {ps_out step}" using op by (simp add: next_live_def)
    then show "case step_row year_of step env of Inl e \<Rightarrow> Inr (put_value (ps_out step) r (v X r) X) = Inl e
      | Inr env' \<Rightarrow> \<exists>X'. Inr (put_value (ps_out step) r (v X r) X) = Inr X' \<and> row_is (next_live step L) X' r env' \<and> writes (ps_out step) r X X'"
      using put_value_row [OF row] by (simp add: step_row_def v [OF row])
  qed
  then show ?thesis by (simp add: fold_res_fold guarded_rows_def)
qed

lemma if_not_null_env: "row_is L X r env \<Longrightarrow> of_value (if_not_null ins X r v) = (if list_ex (re_null env) ins then NullValue else IntValue v)"
  by (auto simp: row_is_def if_not_null_def list_ex_iff)

lemma row_isD:
  assumes "row_is L X r env"
  shows "col_i64 X s r = re_int64 env s" "col_i32 X s r = re_int32 env s" "nulls X s r \<noteq> 0 \<longleftrightarrow> re_null env s"
    "nulls X s r = 0 \<longleftrightarrow> \<not> re_null env s"
  using assms by (simp_all add: row_is_def)

lemma row_is_string:
  assumes "row_is L X r env" "s \<in> L" "\<not> re_null env s"
  shows "ref_ok (string_arena X) (length (string_arena X)) (col_str X s r)" "ref_string (string_arena X) (col_str X s r) = re_string env s"
    "unat (ref_len (col_str X s r)) = length (re_string env s)"
  using assms length_ref_string by (auto simp: row_is_def)

lemma prefix_bytes: "n \<le> 8 \<Longrightarrow> n \<le> length s \<Longrightarrow> take n (le_bytes 8 (unat (string_prefix s))) = take n s"
proof -
  assume n: "n \<le> 8" "n \<le> length s"
  have "string_prefix s = string_prefix (take 8 s)" by (simp add: string_prefix_def)
  then have "take (length (take 8 s)) (le_bytes 8 (unat (string_prefix s))) = take 8 s" using le_bytes_prefix [of "take 8 s"] by simp
  then have "take n (take (length (take 8 s)) (le_bytes 8 (unat (string_prefix s)))) = take n (take 8 s)" by (rule arg_cong)
  moreover have "min n (length (take 8 s)) = n" "min n 8 = n" using n by simp_all
  ultimately show ?thesis unfolding take_take by simp
qed

lemma const_bytes_short: "n \<le> 8 \<Longrightarrow> take n (const_bytes behind step) = short_const step n"
  by (simp add: const_bytes_def short_const_def length_le_bytes)

lemma prefix_matches_env:
  assumes "row_is L X r env" "ps_in_a step \<in> L" "\<not> re_null env (ps_in_a step)" "ps_in_b step \<le> 8"
  shows "prefix_matches behind step X r \<longleftrightarrow> ps_in_b step \<le> length (re_string env (ps_in_a step)) \<and>
    take (ps_in_b step) (re_string env (ps_in_a step)) = short_const step (ps_in_b step)"
proof -
  note s = row_is_string [OF assms(1-3)]
  have "ref_prefix (col_str X (ps_in_a step) r) = string_prefix (re_string env (ps_in_a step))" using ref_prefix_string [OF s(1)] s(2) by simp
  then show ?thesis
    using assms(4) s(3) prefix_bytes [of "ps_in_b step" "re_string env (ps_in_a step)"] const_bytes_short [OF assms(4)]
    by (auto simp: prefix_matches_def short_const_def Let_def)
qed

lemma trim_take: "n \<le> length s \<Longrightarrow> take (TrimBpcharLength s n) s = rtrim (take n s)"
proof (induction n)
  case 0
  then show ?case by (simp add: rtrim_def)
next
  case (Suc n)
  then show ?case by (simp add: take_Suc_conv_app_nth rtrim_def)
qed

lemma trim_le: "TrimBpcharLength s n \<le> n"
  by (induction n) simp_all

lemma length_rtrim: "n \<le> length s \<Longrightarrow> length (rtrim (take n s)) = TrimBpcharLength s n"
  using trim_take [of n s] trim_le [of s n] by (metis length_take min.absorb2 order_trans)

lemma string_equals_env:
  assumes "row_is L X r env" "ps_in_a step \<in> L" "\<not> re_null env (ps_in_a step)" "ps_in_b step mod 128 \<le> 8"
  shows "string_equals behind step X r \<longleftrightarrow> step_string_eq step (re_string env (ps_in_a step))"
proof -
  let ?s = "re_string env (ps_in_a step)" and ?n = "ps_in_b step mod 128" and ?c = "const_bytes behind step"
  note s = row_is_string [OF assms(1-3)]
  have n: "?n \<le> length ?c" using assms(4) by (simp add: const_bytes_def length_le_bytes)
  have c: "take ?n ?c = short_const step ?n" by (rule const_bytes_short [OF assms(4)])
  have len: "length (short_const step ?n) = ?n" using assms(4) by (simp add: short_const_def length_le_bytes)
  have trim_s: "take (TrimBpcharLength ?s (length ?s)) ?s = rtrim ?s" "length (rtrim ?s) = TrimBpcharLength ?s (length ?s)"
    using trim_take [of "length ?s" ?s] length_rtrim [of "length ?s" ?s] by simp_all
  have trim_c: "take (TrimBpcharLength ?c ?n) ?c = rtrim (short_const step ?n)" "length (rtrim (short_const step ?n)) = TrimBpcharLength ?c ?n"
    using trim_take [OF n] length_rtrim [OF n] by (simp_all add: c)
  have eq: "rtrim ?s = rtrim (short_const step ?n) \<longleftrightarrow> TrimBpcharLength ?s (length ?s) = TrimBpcharLength ?c ?n \<and>
      (TrimBpcharLength ?s (length ?s) = 0 \<or> take (TrimBpcharLength ?s (length ?s)) ?s = take (TrimBpcharLength ?s (length ?s)) ?c)"
    using trim_s trim_c by (metis take_0)
  have eq': "?s = short_const step ?n \<longleftrightarrow> length ?s = ?n \<and> (?n = 0 \<or> take ?n ?s = take ?n ?c)"
    using len c by (auto simp: take_all_iff)
  show ?thesis
    unfolding string_equals_def step_string_eq_def Let_def DataPtr_Some option.case s(2,3) eq eq' ..
qed

lemma store_cut: "store_string_bytes (Some s) len ch = store_string_bytes (Some (take (unat len) s)) len ch"
  by (simp add: store_string_bytes_def Let_def)

lemma prefix_slice_done:
  assumes op: "ps_op step = STRING_PREFIX_SLICE" and ok: "step_ok L step"
    and rows: "\<forall>r<chunk_count ch. row_is L ch r (env r)" and arena: "length (string_arena ch) + chunk_count ch * 65536 < 2 ^ 32 - 1"
  shows "step_done year_of L step env ch (prefix_slice_step step ch)"
  unfolding prefix_slice_step_def Let_def
proof (rule loop_done [OF _ rows arena])
  fix r X and env :: row_env
  let ?a = "ps_in_a step" and ?out = "ps_out step" and ?b = "ps_in_b step"
  let ?ref = "col_str X (ps_in_a step) r" and ?s = "re_string env (ps_in_a step)"
  let ?ptr = "VecStringRefDataPtr ?ref (Some (string_arena X))"
  assume row: "row_is L X r env" and room: "length (string_arena X) + 65536 < 2 ^ 32 - 1"
  have L: "?a \<in> L" "?b < 256" "next_live step L = insert ?out L" using ok op by (simp_all add: step_ok_def next_live_def)
  have sem: "step_row year_of step env = Inr (put_env ?out (if re_null env ?a then NullValue else StringValue (take ?b ?s)) env)"
    by (simp add: step_row_def step_value_def op Let_def)
  show "case step_row year_of step env of
      Inl e \<Rightarrow> (if nulls X ?a r \<noteq> 0 then Inr (set_null ?out r 1 X)
        else if ?ptr = None \<and> ref_len ?ref \<noteq> 0 then Inr (set_null ?out r 1 X)
        else rbind (store_string_bytes ?ptr (min (ref_len ?ref) (word_of_nat ?b)) X)
          (\<lambda>(ra, ch). Inr (set_null ?out r 0 (ch\<lparr>string_class := set_cell ?out r ra (string_class ch)\<rparr>)))) = Inl e
    | Inr env' \<Rightarrow> \<exists>X'. (if nulls X ?a r \<noteq> 0 then Inr (set_null ?out r 1 X)
        else if ?ptr = None \<and> ref_len ?ref \<noteq> 0 then Inr (set_null ?out r 1 X)
        else rbind (store_string_bytes ?ptr (min (ref_len ?ref) (word_of_nat ?b)) X)
          (\<lambda>(ra, ch). Inr (set_null ?out r 0 (ch\<lparr>string_class := set_cell ?out r ra (string_class ch)\<rparr>)))) = Inr X' \<and>
        row_is (next_live step L) X' r env' \<and> writes ?out r X X'"
  proof (cases "re_null env ?a")
    case True
    have "row_is (insert ?out L) (set_null ?out r 1 X) r (put_env ?out NullValue env)"
      using row by (auto simp: row_is_def put_env_def set_null_def)
    moreover have "writes ?out r X (set_null ?out r 1 X)"
      unfolding writes_def by (auto simp: set_null_def intro!: exI [of _ "[]"])
    ultimately show ?thesis using True row_isD(3) [OF row, of ?a] by (simp add: sem L(3))
  next
    case False
    note s = row_is_string [OF row L(1) False]
    let ?len = "min (ref_len ?ref) (word_of_nat ?b)"
    have b: "unat (word_of_nat ?b :: u32) = ?b" using L(2) by (intro unat_of_nat_u32) simp
    have len: "unat ?len = min (length ?s) ?b"
      using s(3) b by (auto simp: min_def word_le_nat_alt)
    have bytes: "unat ?len = length (take (unat ?len) ?s)" "length (take (unat ?len) ?s) \<le> 65536" "take (unat ?len) ?s = take ?b ?s"
      unfolding len using L(2) by (simp_all add: min_def)
    have fit: "length (string_arena X) + length (take (unat ?len) ?s) < 2 ^ 32 - 1" using room bytes(2) by linarith
    obtain q ext where q: "store_string_bytes (Some ?s) ?len X = Inr (q, X\<lparr>string_arena := string_arena X @ ext\<rparr>)" "length ext \<le> 65536"
      "ref_ok (string_arena X @ ext) (length (string_arena X @ ext)) q" "ref_string (string_arena X @ ext) q = take ?b ?s"
      using store_string_ok [OF bytes(1,2) fit] unfolding store_cut [of ?s] bytes(3) by blast
    let ?X = "set_null ?out r 0 (X\<lparr>string_arena := string_arena X @ ext, string_class := set_cell ?out r q (string_class X)\<rparr>)"
    have row': "row_is (insert ?out L) ?X r (put_env ?out (StringValue (take ?b ?s)) env)"
      using row q(3,4) ref_append [of "string_arena X" _ ext]
      by (auto simp: row_is_def put_env_def set_null_def set_cell_def)
    have "writes ?out r X ?X" unfolding writes_def using q(2) by (auto simp: set_null_def set_cell_def)
    then show ?thesis using False row_isD(3) [OF row, of ?a] q(1) row' by (simp add: sem L(3) s(2))
  qed
qed

lemma ignores_cols: "ignores_nulls (\<lambda>ch row. f (col_i64 ch a row))" "ignores_nulls (\<lambda>ch row. g (col_i64 ch a row) (col_i64 ch b row))"
  by (simp_all add: ignores_nulls_def set_null_def)

lemma loop64_done:
  assumes op: "ps_op step \<noteq> STRING_PREFIX_SLICE" and f: "ignores_nulls f"
    and val: "\<And>env. step_value year_of step env = Inr (if list_ex (re_null env) ins then NullValue else IntValue (g env))"
    and fg: "\<And>X r env. row_is L X r env \<Longrightarrow> f X r = g env"
    and rows: "\<forall>r<chunk_count ch. row_is L ch r (env r)" and arena: "length (string_arena ch) + chunk_count ch * 65536 < 2 ^ 32 - 1"
  shows "step_done year_of L step env ch (Inr (int64_loop ins (ps_out step) f ch))"
proof -
  have flags: "flags_ok ch" using rows by (auto simp: flags_ok_def row_is_def)
  show ?thesis unfolding int64_loop_guarded [OF flags f]
    by (rule guarded_done [OF op _ rows arena]) (simp add: val fg if_not_null_env)
qed

lemma numeric_div_done:
  assumes op: "ps_op step = NUMERIC_DIV_VAR_VAR"
    and rows: "\<forall>r<chunk_count ch. row_is L ch r (env r)" and arena: "length (string_arena ch) + chunk_count ch * 65536 < 2 ^ 32 - 1"
  shows "step_done year_of L step env ch (numeric_div_step step ch)"
proof -
  have flags: "flags_ok ch" using rows by (auto simp: flags_ok_def row_is_def)
  show ?thesis unfolding numeric_div_guarded [OF flags]
  proof (rule loop_done [OF _ rows arena])
    fix r X env assume row: "row_is L X r env"
    have L: "next_live step L = L - {ps_out step}" using op by (simp add: next_live_def)
    note put = put_value_row [OF row, of "ps_out step"]
    show "case step_row year_of step env of Inl e \<Rightarrow> div_row step r X = Inl e
      | Inr env' \<Rightarrow> \<exists>X'. div_row step r X = Inr X' \<and> row_is (next_live step L) X' r env' \<and> writes (ps_out step) r X X'"
      using put [of None] put [of "Some (word_of_int ((sint (re_int64 env (ps_in_a step)) * sint (ps_const step)) sdiv sint (re_int64 env (ps_in_b step))))"]
      by (simp add: step_row_def step_value_def op div_row_def Let_def row_isD [OF row] L)
  qed
qed

text \<open>The steps over one or two integer columns.\<close>

lemma unary_done:
  assumes "ps_op step \<noteq> STRING_PREFIX_SLICE"
    and "\<And>env. step_value year_of step env = Inr (if re_null env a then NullValue else IntValue (f (re_int64 env a)))"
    and "\<forall>r<chunk_count ch. row_is L ch r (env r)" "length (string_arena ch) + chunk_count ch * 65536 < 2 ^ 32 - 1"
  shows "step_done year_of L step env ch (Inr (int64_loop [a] (ps_out step) (\<lambda>ch row. f (col_i64 ch a row)) ch))"
  by (rule loop64_done [OF assms(1) ignores_cols(1) _ _ assms(3,4)]) (simp_all add: assms(2) row_isD)

lemma binary_done:
  assumes "ps_op step \<noteq> STRING_PREFIX_SLICE"
    and "\<And>env. step_value year_of step env = Inr (if re_null env a \<or> re_null env b then NullValue else IntValue (f (re_int64 env a) (re_int64 env b)))"
    and "\<forall>r<chunk_count ch. row_is L ch r (env r)" "length (string_arena ch) + chunk_count ch * 65536 < 2 ^ 32 - 1"
  shows "step_done year_of L step env ch (Inr (int64_loop [a, b] (ps_out step) (\<lambda>ch row. f (col_i64 ch a row) (col_i64 ch b row)) ch))"
  by (rule loop64_done [OF assms(1) ignores_cols(2) _ _ assms(3,4)]) (simp_all add: assms(2) row_isD)

text \<open>The steps that are loops with a null check of their own.\<close>

lemma strict_done:
  assumes op: "ps_op step \<noteq> STRING_PREFIX_SLICE"
    and val: "\<And>env. step_value year_of step env = Inr (if list_ex (re_null env) ins then NullValue else IntValue (w env))"
    and f: "\<And>X r env. row_is L X r env \<Longrightarrow> \<not> list_ex (re_null env) ins \<Longrightarrow> f X r = w env"
    and rows: "\<forall>r<chunk_count ch. row_is L ch r (env r)" and arena: "length (string_arena ch) + chunk_count ch * 65536 < 2 ^ 32 - 1"
  shows "step_done year_of L step env ch (Inr (guarded_rows (ps_out step) (\<lambda>ch row. if_not_null ins ch row (f ch row)) ch))"
  by (rule guarded_done [OF op _ rows arena]) (simp add: val if_not_null_env f)

theorem ExecuteStep_done:
  assumes ok: "step_ok L step" and rows: "\<forall>r<chunk_count ch. row_is L ch r (env r)"
    and arena: "length (string_arena ch) + chunk_count ch * 65536 < 2 ^ 32 - 1"
  shows "step_done year_of L step env ch (ExecuteStep year_of behind step ch)"
proof -
  have flags: "flags_ok ch" using rows by (auto simp: flags_ok_def row_is_def)
  note unary = unary_done [OF _ _ rows arena] and binary = binary_done [OF _ _ rows arena] and guarded = guarded_done [OF _ _ rows arena]
  let ?a = "ps_in_a step" and ?b = "ps_in_b step" and ?c = "ps_const step"
  note defs = ExecuteStep_def Let_def step_value_def and strict = strict_done [OF _ _ _ rows arena]
  have compare: "step_done year_of L step env ch (Inr (guarded_rows (ps_out step) (\<lambda>ch row. if_not_null [?a] ch row
      (truth (rel (sint (col_i64 ch ?a row)) (sint ?c)))) ch))"
    if "ps_op step \<noteq> STRING_PREFIX_SLICE"
      "\<And>env. step_value year_of step env = Inr (if re_null env ?a then NullValue else IntValue (truth (rel (sint (re_int64 env ?a)) (sint ?c))))"
    for rel
    using that by (intro strict [where w = "\<lambda>env. truth (rel (sint (re_int64 env ?a)) (sint ?c))"]) (simp_all add: row_isD)
  show ?thesis
  proof (cases "ps_op step")
    case NUMERIC_SCALE_VAR_CONST
    then show ?thesis using unary [where f = "numeric_scale ?c" and a = ?a] by (simp add: defs)
  next
    case NUMERIC_MUL_VAR_VAR
    then show ?thesis using binary [where f = "(*)" and a = ?a and b = ?b] by (simp add: defs)
  next
    case NUMERIC_ADD_VAR_VAR
    then show ?thesis using binary [where f = "(+)" and a = ?a and b = ?b] by (simp add: defs)
  next
    case NUMERIC_SUB_VAR_VAR
    then show ?thesis using binary [where f = "(-)" and a = ?a and b = ?b] by (simp add: defs)
  next
    case NUMERIC_MUL_VAR_CONST
    then show ?thesis using unary [where f = "\<lambda>v. v * ?c" and a = ?a] by (simp add: defs)
  next
    case NUMERIC_ADD_VAR_CONST
    then show ?thesis using unary [where f = "\<lambda>v. v + ?c" and a = ?a] by (simp add: defs)
  next
    case NUMERIC_SUB_VAR_CONST
    then show ?thesis using unary [where f = "\<lambda>v. v - ?c" and a = ?a] by (simp add: defs)
  next
    case COPY_VAR
    then show ?thesis using unary [where f = "\<lambda>v. v" and a = ?a] by (simp add: defs)
  next
    case NUMERIC_SUB_CONST_VAR
    then show ?thesis using unary [where f = "\<lambda>v. ?c - v" and a = ?b] by (simp add: defs)
  next
    case NUMERIC_ADD_CONST_VAR
    then show ?thesis using unary [where f = "\<lambda>v. ?c + v" and a = ?b] by (simp add: defs)
  next
    case NUMERIC_DIV_VAR_VAR
    then show ?thesis using numeric_div_done [OF _ rows arena] by (simp add: ExecuteStep_def)
  next
    case STRING_PREFIX_SLICE
    then show ?thesis using prefix_slice_done [OF _ ok rows arena] by (simp add: ExecuteStep_def)
  next
    case STRING_PREFIX_LIKE
    then show ?thesis
      using ok strict [where ins = "[?a]" and f = "\<lambda>ch row. truth (prefix_matches behind step ch row)"
          and w = "\<lambda>env. truth (?b \<le> length (re_string env ?a) \<and> take ?b (re_string env ?a) = short_const step ?b)"]
      by (simp add: defs prefix_like_guarded [OF flags] step_ok_def prefix_matches_env)
  next
    case STRING_EQ_VAR_CONST
    then show ?thesis
      using ok strict [where ins = "[?a]" and f = "\<lambda>ch row. truth (string_equals behind step ch row)"
          and w = "\<lambda>env. truth (step_string_eq step (re_string env ?a))"]
      by (simp add: defs string_compare_step_def step_ok_def string_equals_env)
  next
    case STRING_NE_VAR_CONST
    then show ?thesis
      using ok strict [where ins = "[?a]" and f = "\<lambda>ch row. truth (\<not> string_equals behind step ch row)"
          and w = "\<lambda>env. truth (\<not> step_string_eq step (re_string env ?a))"]
      by (simp add: defs string_compare_step_def step_ok_def string_equals_env)
  next
    case NUMERIC_CASE_VAR_CONST
    show ?thesis unfolding NUMERIC_CASE_VAR_CONST ExecuteStep_def Let_def project_op.case case_const_guarded [OF flags]
      by (rule guarded) (simp_all add: NUMERIC_CASE_VAR_CONST step_value_def Let_def if_not_null_env row_isD)
  next
    case NUMERIC_CASE_ELSE_VAR
    show ?thesis unfolding NUMERIC_CASE_ELSE_VAR ExecuteStep_def Let_def project_op.case case_else_step_def
      by (rule guarded) (simp_all add: NUMERIC_CASE_ELSE_VAR step_value_def Let_def if_not_null_env row_isD)
  next
    case EXTRACT_YEAR_FROM_DATE
    then show ?thesis
      using strict [where ins = "[?a]" and f = "\<lambda>ch row. word_of_int (year_of (sint (col_i32 ch ?a row + 2451545)))"
          and w = "\<lambda>env. word_of_int (year_of (sint (re_int32 env ?a + 2451545)))"]
      by (simp add: defs extract_year_step_def row_isD)
  next
    case BOOL_AND_VAR_VAR
    then show ?thesis
      using strict [where ins = "[?a, ?b]" and f = "\<lambda>ch row. truth (col_i64 ch ?a row \<noteq> 0 \<and> col_i64 ch ?b row \<noteq> 0)"
          and w = "\<lambda>env. truth (re_int64 env ?a \<noteq> 0 \<and> re_int64 env ?b \<noteq> 0)"]
      by (simp add: defs bool_step_def row_isD)
  next
    case BOOL_OR_VAR_VAR
    then show ?thesis
      using strict [where ins = "[?a, ?b]" and f = "\<lambda>ch row. truth (col_i64 ch ?a row \<noteq> 0 \<or> col_i64 ch ?b row \<noteq> 0)"
          and w = "\<lambda>env. truth (re_int64 env ?a \<noteq> 0 \<or> re_int64 env ?b \<noteq> 0)"]
      by (simp add: defs bool_step_def row_isD)
  next
    case BOOL_NOT_VAR
    then show ?thesis
      using strict [where ins = "[?a]" and f = "\<lambda>ch row. truth (col_i64 ch ?a row = 0)" and w = "\<lambda>env. truth (re_int64 env ?a = 0)"]
      by (simp add: defs bool_not_step_def row_isD)
  next
    case CONST_INT64
    then show ?thesis using guarded [where v = "\<lambda>_ _. Some ?c"] by (simp add: defs const_step_guarded)
  next
    case INT32_TO_INT64_VAR
    then show ?thesis
      using strict [where ins = "[?a]" and f = "\<lambda>ch row. scast (col_i32 ch ?a row)" and w = "\<lambda>env. scast (re_int32 env ?a)"]
      by (simp add: defs widen_step_def row_isD)
  qed (use compare [of "(<)"] compare [of "(\<le>)"] compare [of "(=)"] compare [of "(\<ge>)"] compare [of "(>)"] compare [of "(\<noteq>)"]
      in \<open>simp_all add: defs compare_const_step_def\<close>)
qed

section \<open>The tape\<close>

fun tape_ok :: "nat set \<Rightarrow> project_step list \<Rightarrow> bool" where
  "tape_ok L [] = True"
| "tape_ok L (step # steps) = (step_ok L step \<and> tape_ok (next_live step L) steps)"

text \<open>Running a tape over the chunk is running it over every row.\<close>

definition tape_done ::
  "(int \<Rightarrow> int) \<Rightarrow> nat set \<Rightarrow> project_step list \<Rightarrow> (nat \<Rightarrow> row_env) \<Rightarrow> data_chunk \<Rightarrow> data_chunk result \<Rightarrow> bool" where
  "tape_done year_of L steps env ch res \<longleftrightarrow>
     (case res of
        Inl e \<Rightarrow> \<exists>r<chunk_count ch. run_row year_of steps (env r) = Inl e
      | Inr X \<Rightarrow> (\<forall>r<chunk_count ch. \<exists>env'. run_row year_of steps (env r) = Inr env' \<and> row_is (fold next_live steps L) X r env') \<and>
          chunk_count X = chunk_count ch)"

lemma run_tape:
  assumes "tape_ok L steps" "\<forall>r<chunk_count ch. row_is L ch r (env r)"
    "length (string_arena ch) + length steps * (chunk_count ch * 65536) < 2 ^ 32 - 1"
  shows "tape_done year_of L steps env ch (fold_res (ExecuteStep year_of behind) steps ch)"
  using assms
proof (induction steps arbitrary: L ch env)
  case Nil
  then show ?case by (simp add: tape_done_def run_row_def)
next
  case (Cons step steps)
  have room: "length (string_arena ch) + chunk_count ch * 65536 < 2 ^ 32 - 1" using Cons.prems(3) by simp
  have done_step: "step_done year_of L step env ch (ExecuteStep year_of behind step ch)"
    using Cons.prems(1) by (intro ExecuteStep_done [OF _ Cons.prems(2) room]) simp
  show ?case
  proof (cases "ExecuteStep year_of behind step ch")
    case (Inl e)
    then show ?thesis using done_step by (fastforce simp: tape_done_def step_done_def run_row_def)
  next
    case (Inr X)
    then have X: "chunk_count X = chunk_count ch" "length (string_arena X) \<le> length (string_arena ch) + chunk_count ch * 65536"
      and "\<forall>r. \<exists>env'. r < chunk_count ch \<longrightarrow> step_row year_of step (env r) = Inr env' \<and> row_is (next_live step L) X r env'"
      using done_step by (auto simp: step_done_def)
    then obtain env' where env': "\<And>r. r < chunk_count ch \<Longrightarrow> step_row year_of step (env r) = Inr (env' r) \<and> row_is (next_live step L) X r (env' r)"
      by metis
    have "tape_done year_of (next_live step L) steps env' X (fold_res (ExecuteStep year_of behind) steps X)"
      using Cons.prems(1,3) X env' by (intro Cons.IH) auto
    then show ?thesis using env' X(1) Inr by (force simp: tape_done_def run_row_def split: sum.splits)
  qed
qed

text \<open>The expressions of a projection name consecutive ranges of the tape.\<close>

definition expr_steps :: "project_step list \<Rightarrow> project_expr \<Rightarrow> project_step list" where
  "expr_steps steps expr = take (pe_n_steps expr) (drop (pe_first_step_idx expr) steps)"

definition expr_ok :: "project_step list \<Rightarrow> project_expr \<Rightarrow> bool" where
  "expr_ok steps expr \<longleftrightarrow>
     pe_first_step_idx expr + pe_n_steps expr \<le> length steps \<and> pe_first_step_idx expr + pe_n_steps expr < 2 ^ 16 \<and>
     (pe_n_steps expr = 0 \<or> pe_output_chunk_slot expr = ps_out (last (expr_steps steps expr)))"

definition projection_tape :: "projection \<Rightarrow> project_step list" where
  "projection_tape pj = concat (map (expr_steps (pj_steps pj)) (pj_exprs pj))"

lemma expr_steps_nth: "first + n \<le> length steps \<Longrightarrow> take n (drop first steps) = map ((!) steps) [first..<first + n]"
  by (intro nth_equalityI) auto

lemma rbind_Inr [simp]: "rbind m Inr = m"
  by (cases m) simp_all

lemma rbind_fun: "(\<And>s. f s = g s) \<Longrightarrow> rbind m f = rbind m g"
  by (cases m) simp_all

lemma fold_res_map: "fold_res f (map g xs) s = fold_res (\<lambda>x. f (g x)) xs s"
  by (induction xs arbitrary: s) (auto intro: rbind_fun)

lemma run_expr_steps:
  assumes "expr_ok steps expr"
  shows "run_expr year_of behind steps expr ch = fold_res (ExecuteStep year_of behind) (expr_steps steps expr) ch"
proof (cases "pe_n_steps expr = 0")
  case True
  then show ?thesis using assms by (simp add: run_expr_def expr_ok_def expr_steps_def Let_def)
next
  case False
  let ?first = "pe_first_step_idx expr" and ?n = "pe_n_steps expr"
  have range: "?first + ?n \<le> length steps" "?first + ?n < 65536" using assms by (simp_all add: expr_ok_def)
  have steps: "expr_steps steps expr = map ((!) steps) [?first..<?first + ?n]"
    using expr_steps_nth [OF range(1)] by (simp add: expr_steps_def)
  moreover have "last (map ((!) steps) [?first..<?first + ?n]) = steps ! (?first + ?n - 1)" using False by (simp add: last_map)
  ultimately have "pe_output_chunk_slot expr = ps_out (steps ! (?first + ?n - 1))" using assms False by (simp add: expr_ok_def)
  then show ?thesis
    using range False unfolding steps fold_res_map
    by (simp add: run_expr_def Let_def)
qed

lemma run_exprs:
  assumes "list_all (expr_ok steps) exprs"
  shows "fold_res (run_expr year_of behind steps) exprs ch =
    fold_res (ExecuteStep year_of behind) (concat (map (expr_steps steps) exprs)) ch"
  using assms
  by (induction exprs arbitrary: ch) (auto simp: run_expr_steps fold_res_append intro: rbind_fun)

section \<open>The rows of the input\<close>

definition chunk_row :: "data_chunk \<Rightarrow> nat \<Rightarrow> row_env" where
  "chunk_row ch r =
     \<lparr>re_int64 = (\<lambda>s. get_int64 ch s r), re_int32 = (\<lambda>s. get_int32 ch s r),
      re_string = (\<lambda>s. ref_string (string_arena ch) (get_string_ref ch s r)), re_null = (\<lambda>s. nulls ch s r \<noteq> 0)\<rparr>"

text \<open>A class with its dictionaries in the slots, none of which reads one that is flattened before it.\<close>

definition class_ok :: "'a column_class \<Rightarrow> bool" where
  "class_ok cc \<longleftrightarrow> flattenable cc \<and> (\<forall>s\<ge>N_SLOTS. \<not> dict_active cc s)"

definition input_ok :: "nat set \<Rightarrow> data_chunk \<Rightarrow> bool" where
  "input_ok L ch \<longleftrightarrow>
     class_ok (int64_class ch) \<and> class_ok (int32_class ch) \<and> class_ok (string_class ch) \<and> flags_ok ch \<and>
     (\<forall>s\<in>L. \<forall>r<chunk_count ch. nulls ch s r = 0 \<longrightarrow> ref_ok (string_arena ch) (length (string_arena ch)) (get_string_ref ch s r))"

definition plain_input :: "data_chunk \<Rightarrow> data_chunk" where
  "plain_input ch = (if has_any_dictionary ch then flatten ch else ch)"

lemma flatten_class_cells:
  assumes "class_ok cc" "r < n"
  shows "cells (flatten_class n cc) s r = get_cell cc s r"
proof (cases "s < N_SLOTS")
  case True
  then show ?thesis using flattened_prefix [OF _ order_refl, of cc n] assms by (auto simp: class_ok_def flatten_class_def flattened_def)
next
  case False
  then show ?thesis using flattened_prefix [OF _ order_refl, of cc n] assms
    by (auto simp: class_ok_def flatten_class_def flattened_def get_cell_def)
qed

lemma no_dictionary_cells: "class_ok cc \<Longrightarrow> list_all (\<lambda>s. \<not> dict_active cc s) [0..<N_SLOTS] \<Longrightarrow> cells cc s r = get_cell cc s r"
  by (cases "s < N_SLOTS") (auto simp: class_ok_def get_cell_def list_all_iff)

lemma plain_input_cells:
  assumes "input_ok L ch" "r < chunk_count ch"
  shows "col_i64 (plain_input ch) s r = get_int64 ch s r" "col_i32 (plain_input ch) s r = get_int32 ch s r"
    "col_str (plain_input ch) s r = get_string_ref ch s r"
  using assms
  by (auto simp: plain_input_def input_ok_def flatten_classes get_int64_def get_int32_def get_string_ref_def
      has_any_dictionary_def list_ex_iff list_all_iff flatten_class_cells no_dictionary_cells)

lemma plain_input_simps [simp]:
  "nulls (plain_input ch) = nulls ch" "string_arena (plain_input ch) = string_arena ch" "chunk_count (plain_input ch) = chunk_count ch"
  by (simp_all add: plain_input_def flatten_classes)

lemma plain_input_row: "input_ok L ch \<Longrightarrow> r < chunk_count ch \<Longrightarrow> row_is L (plain_input ch) r (chunk_row ch r)"
  by (auto simp: row_is_def chunk_row_def plain_input_cells input_ok_def flags_ok_def)

text \<open>C14: The projection runs its whole tape on every row. From an input chunk whose dictionaries can be flattened, whose null
  flags are bytes 0 or 1 and whose live strings are readable, with room in the string arena, and for expressions that
  name ranges of the tape and the slot of their last step: the column-at-a-time loops, with their shortcuts for columns
  without nulls, with outputs that overwrite inputs and with the flags shared by the classes of a slot, leave in every row
  what the machine for one row computes from that row, nulls and live strings included. They stop with an error exactly when a division
  of some row leaves the 64-bit range. The chunk is handed on unless it is empty, and the next call asks for more input.\<close>

theorem projection_runs_every_row:
  assumes "input_ok L input" and "tape_ok L (projection_tape pj)" and "list_all (expr_ok (pj_steps pj)) (pj_exprs pj)"
    and "length (string_arena input) + length (projection_tape pj) * (chunk_count input * 65536) < 2 ^ 32 - 1"
  shows "case ProjectionExecute year_of behind pj input out False of
      Inl e \<Rightarrow> \<exists>r<chunk_count input. run_row year_of (projection_tape pj) (chunk_row input r) = Inl e
    | Inr (X, res, current_input_drained) \<Rightarrow>
        chunk_count X = chunk_count input \<and>
        (\<forall>r<chunk_count input. \<exists>env. run_row year_of (projection_tape pj) (chunk_row input r) = Inr env \<and>
           row_is (fold next_live (projection_tape pj) L) X r env) \<and>
        res = (if 0 < chunk_count input then OP_HAVE_MORE_OUTPUT else OP_NEED_MORE_INPUT) \<and>
        current_input_drained = (0 < chunk_count input) \<and>
        (current_input_drained \<longrightarrow>
           ProjectionExecute year_of behind pj input X current_input_drained = Inr (chunk_reset X, OP_NEED_MORE_INPUT, False))"
proof -
  have "tape_done year_of L (projection_tape pj) (chunk_row input) (plain_input input)
      (fold_res (run_expr year_of behind (pj_steps pj)) (pj_exprs pj) (plain_input input))"
    unfolding run_exprs [OF assms(3)] projection_tape_def [symmetric]
    by (rule run_tape) (use assms plain_input_row in simp_all)
  then show ?thesis
    by (auto simp: ProjectionExecute_def tape_done_def plain_input_def [symmetric] split: sum.splits)
qed

text \<open>Two rows, the first column null in the second: \<open>(a + 5) * b\<close> computed in place, then \<open>a\<close> compared with 9.\<close>

definition sample_input :: data_chunk where
  "sample_input = empty_chunk\<lparr>chunk_count := 2,
     int64_class := (plain_class 0)\<lparr>cells := (\<lambda>s r. if s = 0 then 4 else 7)\<rparr>,
     nulls := (\<lambda>s r. if s = 0 \<and> r = 1 then 1 else 0)\<rparr>"

definition sample_steps :: "project_step list" where
  "sample_steps =
     [\<lparr>ps_op = NUMERIC_ADD_VAR_CONST, ps_in_a = 0, ps_in_b = 0, ps_out = 0, ps_const = 5\<rparr>,
      \<lparr>ps_op = NUMERIC_MUL_VAR_VAR, ps_in_a = 0, ps_in_b = 1, ps_out = 1, ps_const = 0\<rparr>,
      \<lparr>ps_op = INT64_GE_VAR_CONST, ps_in_a = 0, ps_in_b = 0, ps_out = 2, ps_const = 9\<rparr>]"

definition sample_projection :: projection where
  "sample_projection = \<lparr>pj_exprs = [\<lparr>pe_first_step_idx = 0, pe_n_steps = 2, pe_output_chunk_slot = 1\<rparr>,
     \<lparr>pe_first_step_idx = 2, pe_n_steps = 1, pe_output_chunk_slot = 2\<rparr>], pj_steps = sample_steps\<rparr>"

lemma sample_tape: "projection_tape sample_projection = sample_steps"
  by (simp add: projection_tape_def sample_projection_def sample_steps_def expr_steps_def)

lemma sample_cells:
  "re_int64 (chunk_row sample_input r) s = (if s = 0 then 4 else 7)" "re_null (chunk_row sample_input r) s \<longleftrightarrow> s = 0 \<and> r = 1"
  by (simp_all add: chunk_row_def sample_input_def get_int64_def get_cell_def plain_class_def empty_chunk_def)

lemma sample_rows:
  "\<exists>env. run_row (\<lambda>_. 0) sample_steps (chunk_row sample_input 0) = Inr env \<and> re_int64 env 1 = 63 \<and> re_int64 env 2 = 1"
  "\<exists>env. run_row (\<lambda>_. 0) sample_steps (chunk_row sample_input 1) = Inr env \<and> re_null env 1 \<and> re_null env 2"
  by (simp_all add: run_row_def sample_steps_def step_row_def step_value_def put_env_def Let_def sample_cells truth_def)

theorem projection_runs_every_row_witness:
  "\<exists>X res current_input_drained.
     ProjectionExecute (\<lambda>_. 0) [] sample_projection sample_input empty_chunk False = Inr (X, res, current_input_drained) \<and>
     res = OP_HAVE_MORE_OUTPUT \<and> col_i64 X 1 0 = 63 \<and> col_i64 X 2 0 = 1 \<and> nulls X 1 1 = 1 \<and> nulls X 2 1 = 1"
proof -
  have "input_ok {} sample_input"
    by (simp add: input_ok_def class_ok_def flattenable_def flags_ok_def sample_input_def empty_chunk_def plain_class_def list_all_iff)
  moreover have "tape_ok {} (projection_tape sample_projection)"
    unfolding sample_tape by (simp add: sample_steps_def step_ok_def)
  moreover have "list_all (expr_ok (pj_steps sample_projection)) (pj_exprs sample_projection)"
    by (simp add: sample_projection_def sample_steps_def expr_ok_def expr_steps_def)
  moreover have "length (string_arena sample_input) + length (projection_tape sample_projection) * (chunk_count sample_input * 65536) < 2 ^ 32 - 1"
    unfolding sample_tape by (simp add: sample_input_def empty_chunk_def sample_steps_def)
  ultimately have run: "case ProjectionExecute (\<lambda>_. 0) [] sample_projection sample_input empty_chunk False of
      Inl e \<Rightarrow> \<exists>r<2. run_row (\<lambda>_. 0) sample_steps (chunk_row sample_input r) = Inl e
    | Inr (X, res, _) \<Rightarrow> (\<forall>r<2. \<exists>env. run_row (\<lambda>_. 0) sample_steps (chunk_row sample_input r) = Inr env \<and>
        row_is (fold next_live sample_steps {}) X r env) \<and> res = OP_HAVE_MORE_OUTPUT"
    using projection_runs_every_row [of "{}" sample_input sample_projection "\<lambda>_. 0" "[]" empty_chunk]
    unfolding sample_tape by (auto simp: sample_input_def split: sum.splits)
  show ?thesis
  proof (cases "ProjectionExecute (\<lambda>_. 0) [] sample_projection sample_input empty_chunk False")
    case (Inl e)
    then obtain r where "r < 2" "run_row (\<lambda>_. 0) sample_steps (chunk_row sample_input r) = Inl e" using run by auto
    then show ?thesis using sample_rows by (auto simp: less_2_cases_iff)
  next
    case (Inr t)
    obtain X res d where t: "t = (X, res, d)" by (cases t)
    have rows: "\<forall>r<2. \<exists>env. run_row (\<lambda>_. 0) sample_steps (chunk_row sample_input r) = Inr env \<and> row_is (fold next_live sample_steps {}) X r env"
      using run by (simp add: Inr t)
    have "row_is (fold next_live sample_steps {}) X r env"
      if "run_row (\<lambda>_. 0) sample_steps (chunk_row sample_input r) = Inr env" "r < 2" for r env
      using rows that by force
    from this [of 0] this [of 1]
    have "col_i64 X 1 0 = 63" "col_i64 X 2 0 = 1" "nulls X 1 1 = 1" "nulls X 2 1 = 1"
      using sample_rows by (fastforce simp: row_is_def)+
    then show ?thesis using run by (auto simp: Inr t)
  qed
qed

end
