(* ===== verification/PerfectHash.thy ===== *)
theory PerfectHash
  imports RowGrow TaskRun EventDag
begin

text \<open>
  The perfect hash aggregate, physical_perfect_hash_aggregate.cpp: group keys that are small integers are packed into an
  index of an array, which holds the row of the group. Workers aggregate on their own, and their rows are combined
  in a global array afterwards.
\<close>

section \<open>Keys\<close>

text \<open>\<^verbatim>\<open>key = (key << 8) | v\<close> for a value of one byte.\<close>

definition push_key :: "u32 \<Rightarrow> u32 \<Rightarrow> u32 option" where
  "push_key v key = (if v <s 0 \<or> 255 <s v then None else Some (push_bit 8 key OR v))"

definition EncodePerfectHashKey :: "tuple_data_layout \<Rightarrow> data_chunk \<Rightarrow> nat \<Rightarrow> u32 option" where
  "EncodePerfectHashKey layout chunk row_idx =
     fold (\<lambda>col key. Option.bind key (push_key (column_class.cells (int32_class chunk) (unat (col_src_col_idx col)) row_idx))) (columns layout) (Some 0)"

definition EncodePerfectHashRowKey :: "tuple_data_layout \<Rightarrow> u8 list \<Rightarrow> u32 option" where
  "EncodePerfectHashRowKey layout row =
     fold (\<lambda>col key. if col_kind col \<noteq> INT32 \<or> col_width col \<noteq> 4 then None
             else Option.bind key (push_key (get_u32 (unat (col_offset col)) row))) (columns layout) (Some 0)"

section \<open>The sink\<close>

record perfect_local =
  pl_tdc :: tuple_data_collection
  pl_row_indices :: "nat list"

text \<open>The state of GetLocalSinkState; the check of the allocation's size before it is left out.\<close>

definition PerfectLocalInit :: "tuple_data_layout \<Rightarrow> nat \<Rightarrow> nat \<Rightarrow> perfect_local" where
  "PerfectLocalInit layout max_groups perfect_capacity =
     \<lparr>pl_tdc = TupleDataCollectionInit max_groups (unat (layout_row_width layout)) (TupleDataCollectionDefaultHeapCapacity (Some layout) max_groups),
      pl_row_indices = replicate perfect_capacity TDC_INVALID_ROW_INDEX\<rparr>"

definition PerfectCopyTdcRow ::
  "tuple_data_layout \<Rightarrow> tuple_data_collection \<Rightarrow> u8 list \<Rightarrow> u8 list \<times> tuple_data_collection \<Rightarrow> (u8 list \<times> tuple_data_collection) result" where
  "PerfectCopyTdcRow = CopyTdcRow ''perfect hash TDC copy ran out of heap''"

definition GrowPerfectTdc :: "string \<Rightarrow> nat \<Rightarrow> tuple_data_layout \<Rightarrow> tuple_data_collection \<Rightarrow> tuple_data_collection result" where
  "GrowPerfectTdc err hdr layout old_tdc =
     (let old_count = tdc_row_count old_tdc; width = unat (layout_row_width layout);
          new_capacity = max (wrap32 (tdc_row_capacity old_tdc * 2)) (wrap32 (old_count + 1));
          heap_capacity = (if 0 < tdc_heap_capacity old_tdc then wrap32 (tdc_heap_capacity old_tdc * 2)
                           else TupleDataCollectionDefaultHeapCapacity (Some layout) new_capacity)
      in rbind (TupleDataCollectionCheckedAllocSize hdr new_capacity width heap_capacity) (\<lambda>_.
           fold_res (\<lambda>row_idx new_tdc. append_with err (PerfectCopyTdcRow layout old_tdc (TupleDataCollectionGetRow old_tdc row_idx)) new_tdc)
             [0..<old_count] (TupleDataCollectionInit new_capacity width heap_capacity)))"

definition GrowLocalTdc :: "nat \<Rightarrow> tuple_data_layout \<Rightarrow> tuple_data_collection \<Rightarrow> tuple_data_collection result" where
  "GrowLocalTdc = GrowPerfectTdc ''perfect hash local TDC grow overflow''"

definition GrowGlobalTdc :: "nat \<Rightarrow> tuple_data_layout \<Rightarrow> tuple_data_collection \<Rightarrow> tuple_data_collection result" where
  "GrowGlobalTdc = GrowPerfectTdc ''perfect hash global TDC grow overflow''"

text \<open>\<^verbatim>\<open>while (row_count >= row_capacity) Grow\<close>; \<^verbatim>\<open>None\<close> would be a loop that never ends.\<close>

partial_function (option) reserve_row ::
  "(tuple_data_collection \<Rightarrow> tuple_data_collection result) \<Rightarrow> tuple_data_collection \<Rightarrow> tuple_data_collection result option" where
  "reserve_row grow tdc =
     (if tdc_row_count tdc < tdc_row_capacity tdc then Some (Inr tdc)
      else case grow tdc of Inl e \<Rightarrow> Some (Inl e) | Inr tdc \<Rightarrow> reserve_row grow tdc)"

text \<open>A row for the key's slot: reserved, appended and filled in; the result is its index with the collection.\<close>

definition new_group_row ::
  "(tuple_data_collection \<Rightarrow> tuple_data_collection result) \<Rightarrow> string \<Rightarrow>
   (u8 list \<times> tuple_data_collection \<Rightarrow> (u8 list \<times> tuple_data_collection) result) \<Rightarrow> tuple_data_collection \<Rightarrow>
   (nat \<times> tuple_data_collection) result option" where
  "new_group_row grow err put tdc =
     map_option (\<lambda>r. rbind r (\<lambda>tdc. rbind (append_with err put tdc) (\<lambda>tdc'. Inr (fst (TupleDataCollectionAppendRow tdc), tdc'))))
       (reserve_row grow tdc)"

definition scatter_group ::
  "tuple_data_layout \<Rightarrow> data_chunk \<Rightarrow> nat \<Rightarrow> u8 list \<times> tuple_data_collection \<Rightarrow> (u8 list \<times> tuple_data_collection) result" where
  "scatter_group layout chunk row_idx st =
     rbind (ScatterGroupOnly layout chunk row_idx (fst st, Some (snd st))) (\<lambda>(row, tdc). Inr (row, the tdc))"

text \<open>One input row; the state carries the pairs of group row and input row to be updated.\<close>

definition sink_perfect_row ::
  "nat \<Rightarrow> tuple_data_layout \<Rightarrow> nat \<Rightarrow> data_chunk \<Rightarrow> nat \<Rightarrow> perfect_local \<times> (nat \<times> nat) list \<Rightarrow>
   (perfect_local \<times> (nat \<times> nat) list) result option" where
  "sink_perfect_row hdr layout perfect_capacity chunk row_idx st =
     (let (local, updates) = st
      in case EncodePerfectHashKey layout chunk row_idx of
           None \<Rightarrow> Some (Inl (Elog ''perfect hash key out of domain''))
         | Some key \<Rightarrow>
             if perfect_capacity \<le> unat key then Some (Inl (Elog ''perfect hash key out of domain''))
             else let canonical_idx = pl_row_indices local ! unat key
                  in if canonical_idx \<noteq> TDC_INVALID_ROW_INDEX then Some (Inr (local, updates @ [(canonical_idx, row_idx)]))
                     else map_option (map_sum id (\<lambda>(idx, tdc).
                              (local\<lparr>pl_tdc := tdc, pl_row_indices := (pl_row_indices local)[unat key := idx]\<rparr>, updates @ [(idx, row_idx)])))
                            (new_group_row (GrowLocalTdc hdr layout) ''perfect hash local row capacity exceeded''
                              (scatter_group layout chunk row_idx) (pl_tdc local)))"

definition UpdateAggregatesGather ::
  "tuple_data_layout \<Rightarrow> data_chunk \<Rightarrow> (nat \<times> nat) list \<Rightarrow> tuple_data_collection \<Rightarrow> tuple_data_collection option" where
  "UpdateAggregatesGather layout chunk updates tdc =
     map_option (\<lambda>rows. tdc\<lparr>tdc_rows := map rows [0..<length (tdc_rows tdc)]\<rparr>)
       (UpdateAggregatesGatherGroupedGeneric layout chunk updates (\<lambda>r. tdc_rows tdc ! r))"

definition SinkChunkPerfectHash ::
  "nat \<Rightarrow> tuple_data_layout \<Rightarrow> nat \<Rightarrow> data_chunk \<Rightarrow> perfect_local \<Rightarrow> perfect_local result option" where
  "SinkChunkPerfectHash hdr layout perfect_capacity chunk local =
     (case fold_opt (sink_perfect_row hdr layout perfect_capacity chunk) [0..<chunk_count chunk] (local, []) of
        None \<Rightarrow> None
      | Some (Inl e) \<Rightarrow> Some (Inl e)
      | Some (Inr (local, updates)) \<Rightarrow>
          if updates = [] then Some (Inr local)
          else map_option (\<lambda>tdc. Inr (local\<lparr>pl_tdc := tdc\<rparr>)) (UpdateAggregatesGather layout chunk updates (pl_tdc local)))"

section \<open>Combine, finalize and the source\<close>

record perfect_global =
  pg_tdc :: tuple_data_collection
  pg_index :: "nat list"
  pg_finalized :: bool

definition PerfectGlobalInit :: "tuple_data_layout \<Rightarrow> nat \<Rightarrow> nat \<Rightarrow> perfect_global" where
  "PerfectGlobalInit layout max_groups perfect_capacity =
     \<lparr>pg_tdc = TupleDataCollectionInit max_groups (unat (layout_row_width layout)) (TupleDataCollectionDefaultHeapCapacity (Some layout) max_groups),
      pg_index = replicate perfect_capacity TDC_INVALID_ROW_INDEX, pg_finalized = False\<rparr>"

definition copy_whole_row ::
  "tuple_data_layout \<Rightarrow> u8 list \<Rightarrow> u8 list \<times> tuple_data_collection \<Rightarrow> (u8 list \<times> tuple_data_collection) result" where
  "copy_whole_row layout src_row dst = Inr (mem_write 0 (mem_read 0 (unat (layout_row_width layout)) src_row) (fst dst), snd dst)"

definition combine_perfect_row ::
  "nat \<Rightarrow> tuple_data_layout \<Rightarrow> nat \<Rightarrow> u8 list \<Rightarrow> perfect_global \<Rightarrow> perfect_global result option" where
  "combine_perfect_row hdr layout perfect_capacity src_row global =
     (case EncodePerfectHashRowKey layout src_row of
        None \<Rightarrow> Some (Inl (Elog ''perfect hash combine row key out of domain''))
      | Some key \<Rightarrow>
          if perfect_capacity \<le> unat key then Some (Inl (Elog ''perfect hash combine row key out of domain''))
          else let canonical_idx = pg_index global ! unat key
               in if canonical_idx = TDC_INVALID_ROW_INDEX
                  then map_option (map_sum id (\<lambda>(idx, tdc). global\<lparr>pg_tdc := tdc, pg_index := (pg_index global)[unat key := idx]\<rparr>))
                         (new_group_row (GrowGlobalTdc hdr layout) ''perfect hash global row capacity exceeded''
                           (copy_whole_row layout src_row) (pg_tdc global))
                  else Some (Inr (global\<lparr>pg_tdc := set_row canonical_idx
                         (CombineAggregates layout (TupleDataCollectionGetRow (pg_tdc global) canonical_idx) src_row) (pg_tdc global)\<rparr>)))"

definition combine_perfect_rows ::
  "nat \<Rightarrow> tuple_data_layout \<Rightarrow> nat \<Rightarrow> tuple_data_collection \<Rightarrow> perfect_global \<Rightarrow> perfect_global result option" where
  "combine_perfect_rows hdr layout perfect_capacity local_tdc =
     fold_opt (\<lambda>row_idx. combine_perfect_row hdr layout perfect_capacity (TupleDataCollectionGetRow local_tdc row_idx))
       [0..<tdc_row_count local_tdc]"

text \<open>\<open>registry\<close> is what the valid entries of the registry of local collections point to, in the order of its slots.\<close>

definition PerfectCombine ::
  "nat \<Rightarrow> tuple_data_layout \<Rightarrow> nat \<Rightarrow> nat \<Rightarrow> perfect_local option \<Rightarrow> tuple_data_collection list \<Rightarrow> perfect_global \<Rightarrow>
   perfect_global result option" where
  "PerfectCombine hdr layout perfect_capacity partition_id local registry global =
     (if partition_id \<noteq> UINT32_MAX then Some (Inr global)
      else case local of
             Some local \<Rightarrow> combine_perfect_rows hdr layout perfect_capacity (pl_tdc local) global
           | None \<Rightarrow> fold_opt (combine_perfect_rows hdr layout perfect_capacity) registry global)"

definition PerfectFinalize :: "perfect_global \<Rightarrow> perfect_global" where
  "PerfectFinalize global = global\<lparr>pg_tdc := (pg_tdc global)\<lparr>tdc_finalized := True\<rparr>, pg_finalized := True\<rparr>"



definition PerfectExecute :: "data_chunk \<Rightarrow> data_chunk \<Rightarrow> bool \<Rightarrow> data_chunk \<times> operator_result \<times> bool" where
  "PerfectExecute input out current_input_drained =
     (if current_input_drained then (chunk_reset out, OP_NEED_MORE_INPUT, False)
      else (input, if 0 < chunk_count input then OP_HAVE_MORE_OUTPUT else OP_NEED_MORE_INPUT, 0 < chunk_count input))"

section \<open>Packed keys\<close>

fun push_val :: "gval \<Rightarrow> u32 option \<Rightarrow> u32 option" where
  "push_val (GInt32 v) key = Option.bind key (push_key v)"
| "push_val _ key = None"

definition key_code :: "gval list \<Rightarrow> u32 option" where
  "key_code k = fold push_val k (Some 0)"

definition perfect_layout :: "tuple_data_layout \<Rightarrow> bool" where
  "perfect_layout l \<longleftrightarrow> layout_ok l \<and> list_all (\<lambda>c. col_kind c = INT32) (columns l) \<and> length (columns l) \<le> 4"

text \<open>The key columns of the input are not dictionary coded: the packing reads the cells as they are.\<close>

definition perfect_chunk :: "tuple_data_layout \<Rightarrow> data_chunk \<Rightarrow> bool" where
  "perfect_chunk l ch \<longleftrightarrow> list_all (\<lambda>c. \<not> dict_active (int32_class ch) (unat (col_src_col_idx c))) (columns l) \<and> chunk_count ch \<le> 2048"

lemma chunk_code:
  assumes "perfect_layout l" "perfect_chunk l ch"
  shows "EncodePerfectHashKey l ch i = key_code (chunk_key l ch i)"
proof -
  have "fold (\<lambda>col key. Option.bind key (push_key (column_class.cells (int32_class ch) (unat (col_src_col_idx col)) i))) cs key =
      fold push_val (map (chunk_val ch i) cs) key" if "set cs \<subseteq> set (columns l)" for cs key
    using that assms
    by (induction cs arbitrary: key)
      (auto simp: chunk_val_def perfect_layout_def perfect_chunk_def list_all_iff get_int32_def get_cell_def)
  then show ?thesis by (simp add: EncodePerfectHashKey_def key_code_def chunk_key_def)
qed

lemma row_code:
  assumes "perfect_layout l"
  shows "EncodePerfectHashRowKey l row = key_code (row_key l heap row)"
proof -
  have "fold (\<lambda>col key. if col_kind col \<noteq> INT32 \<or> col_width col \<noteq> 4 then None
             else Option.bind key (push_key (get_u32 (unat (col_offset col)) row))) cs key = fold push_val (map (row_val heap row) cs) key"
    if "set cs \<subseteq> set (columns l)" for cs key
    using that
  proof (induction cs arbitrary: key)
    case (Cons c cs)
    then have c: "c \<in> set (columns l)" "col_kind c = INT32" using assms by (auto simp: perfect_layout_def list_all_iff)
    then have "col_width c = 4" using layout_ok_column(2) [of l c] assms by (simp add: perfect_layout_def)
    then show ?case using c Cons by (simp add: row_val_def)
  qed simp
  then show ?thesis by (simp add: EncodePerfectHashRowKey_def key_code_def row_key_def)
qed

lemma push_key_nat:
  assumes "push_key v key = Some key'" "unat key < 2 ^ 24"
  shows "unat v < 256" "unat key' = 256 * unat key + unat v"
proof -
  have v: "0 \<le> sint v" "sint v \<le> 255" and key': "key' = push_bit 8 key OR v"
    using assms(1) by (auto simp: push_key_def word_sless_alt split: if_splits)
  have "uint v = sint v" unfolding uint_sint [of v] using v by (simp add: take_bit_int_eq_self)
  then show small: "unat v < 256" using v(2) by (simp flip: nat_uint_eq)
  have "v = take_bit 8 v" using small by (simp add: word_unat_eq_iff unsigned_take_bit_eq take_bit_nat_eq_self)
  then have low: "n < 8" if "bit v n" for n using that by (metis bit_take_bit_iff)
  have "push_bit 8 key AND v = 0" by (rule bit_eqI) (auto simp: bit_simps dest: low)
  then have "key' = push_bit 8 key + v" unfolding key' by (simp add: disjunctive_add_eq_or)
  moreover have "unat (push_bit 8 key) = 256 * unat key"
    using assms(2) by (simp add: push_bit_eq_mult unat_word_ariths mult.commute)
  ultimately show "unat key' = 256 * unat key + unat v"
    using small assms(2) by (simp add: unat_word_ariths)
qed

lemma byte_digits: "256 * a + v = 256 * a' + v' \<Longrightarrow> v < 256 \<Longrightarrow> v' < 256 \<Longrightarrow> a = a' \<and> v = v'" for a v :: nat
proof -
  assume eq: "256 * a + v = 256 * a' + v'" and v: "v < 256" "v' < 256"
  have "(256 * a + v) div 256 = a" "(256 * a' + v') div 256 = a'" using v by simp_all
  then show ?thesis using eq by simp
qed

lemma key_code_inject:
  assumes "length k = length k'" "length k \<le> 4" "key_code k = Some c" "key_code k' = Some c"
  shows "k = k'"
proof -
  have none: "fold push_val k None = None" for k
  proof (induction k)
    case (Cons v k)
    then show ?case by (cases v) simp_all
  qed simp
  have "a = a' \<and> k = k'"
    if "length k = length k'" "m + length k \<le> 4" "unat a < 256 ^ m" "unat a' < 256 ^ m"
      "fold push_val k (Some a) = Some c" "fold push_val k' (Some a') = Some c" for a a' m
    using that
  proof (induction k k' arbitrary: a a' m rule: list_induct2)
    case Nil
    then show ?case by simp
  next
    case (Cons x xs y ys)
    have room: "unat b < 2 ^ 24" if "unat b < 256 ^ m" for b :: u32
    proof -
      have "(256 :: nat) ^ m \<le> 256 ^ 3" using Cons.prems(1) by (intro power_increasing) simp_all
      then show ?thesis using that by simp
    qed
    have head: "\<exists>v b'. z = GInt32 v \<and> push_key v b = Some b' \<and> unat v < 256 \<and> unat b' = 256 * unat b + unat v \<and> fold push_val zs (Some b') = Some c"
      if code: "fold push_val (z # zs) (Some b) = Some c" and small: "unat b < 256 ^ m" for z zs b
    proof -
      obtain v where v: "z = GInt32 v" using code none by (cases z) auto
      obtain b' where "push_key v b = Some b'" using code none v by (cases "push_key v b") auto
      then show ?thesis using v code push_key_nat [of v b b'] room [OF small] by simp
    qed
    obtain v b where b: "x = GInt32 v" "unat v < 256" "unat b = 256 * unat a + unat v" "fold push_val xs (Some b) = Some c"
      using head [OF Cons.prems(4,2)] by blast
    obtain v' b' where b': "y = GInt32 v'" "unat v' < 256" "unat b' = 256 * unat a' + unat v'" "fold push_val ys (Some b') = Some c"
      using head [OF Cons.prems(5,3)] by blast
    have less: "unat b < 256 ^ Suc m" "unat b' < 256 ^ Suc m" using b b' Cons.prems(2,3) by simp_all
    have "Suc m + length xs \<le> 4" using Cons.prems(1) by simp
    then have eq: "b = b' \<and> xs = ys" by (rule Cons.IH [OF _ less b(4) b'(4)])
    then have sum: "256 * unat a + unat v = 256 * unat a' + unat v'" using b(3) b'(3) by simp
    from byte_digits [OF sum b(2) b'(2)] show ?case using b(1) b'(1) eq by (simp add: word_unat_eq_iff)
  qed
  from this [of 0 0 0] show ?thesis using assms by (simp add: key_code_def)
qed

section \<open>The table of groups\<close>

type_synonym input_row = "data_chunk \<times> nat"

fun input_key :: "tuple_data_layout \<Rightarrow> input_row \<Rightarrow> gval list" where
  "input_key l (ch, i) = chunk_key l ch i"

definition key_inputs :: "tuple_data_layout \<Rightarrow> gval list \<Rightarrow> input_row list \<Rightarrow> input_row list" where
  "key_inputs l k ins = filter (\<lambda>x. input_key l x = k) ins"

lemma key_inputs_append: "key_inputs l k (xs @ ys) = key_inputs l k xs @ key_inputs l k ys"
  by (simp add: key_inputs_def)

lemma key_inputs_none: "k \<notin> input_key l ` set xs \<Longrightarrow> key_inputs l k xs = []"
  by (auto simp: key_inputs_def filter_empty_conv)

lemma key_inputs_all: "input_key l ` set xs \<subseteq> {k} \<Longrightarrow> key_inputs l k xs = xs"
  by (auto simp: key_inputs_def filter_id_conv)

text \<open>One row for each key of the inputs \<open>seen\<close>; the states hold the inputs \<open>ins\<close>, a part of them, and the array leads to the rows.\<close>

definition perfect_table ::
  "tuple_data_layout \<Rightarrow> nat \<Rightarrow> tuple_data_collection \<Rightarrow> nat list \<Rightarrow> input_row list \<Rightarrow> input_row list \<Rightarrow> bool" where
  "perfect_table l N t idx seen ins \<longleftrightarrow>
     rows_ok l t \<and> N \<le> tdc_row_capacity t \<and> length idx = N \<and>
     set (stored_keys l t) = input_key l ` set seen \<and> set ins \<subseteq> set seen \<and>
     (\<forall>r<tdc_row_count t. \<exists>c. key_code (key_of l t r) = Some c \<and> unat c < N \<and> idx ! unat c = r) \<and>
     (\<forall>k<N. idx ! k \<noteq> TDC_INVALID_ROW_INDEX \<longrightarrow>
        idx ! k < tdc_row_count t \<and> (\<exists>c. key_code (key_of l t (idx ! k)) = Some c \<and> unat c = k)) \<and>
     (\<forall>r<tdc_row_count t. holds_states l (tdc_rows t ! r) (key_inputs l (key_of l t r) ins))"

lemma perfect_tableD:
  assumes "perfect_table l N t idx seen ins"
  shows "rows_ok l t" "N \<le> tdc_row_capacity t" "length idx = N" "set (stored_keys l t) = input_key l ` set seen" "set ins \<subseteq> set seen"
    and "r < tdc_row_count t \<Longrightarrow> \<exists>c. key_code (key_of l t r) = Some c \<and> unat c < N \<and> idx ! unat c = r"
    and "k < N \<Longrightarrow> idx ! k \<noteq> TDC_INVALID_ROW_INDEX \<Longrightarrow> idx ! k < tdc_row_count t \<and> (\<exists>c. key_code (key_of l t (idx ! k)) = Some c \<and> unat c = k)"
    and "r < tdc_row_count t \<Longrightarrow> holds_states l (tdc_rows t ! r) (key_inputs l (key_of l t r) ins)"
  using assms by (simp_all add: perfect_table_def)

lemma length_key: "length (key_of l t r) = length (columns l)" "length (chunk_key l ch i) = length (columns l)"
  by (simp_all add: key_of_def row_key_def chunk_key_def)

lemma distinct_groups:
  assumes "perfect_table l N t idx seen ins"
  shows "distinct (stored_keys l t)"
proof -
  have "inj_on (key_of l t) {0..<tdc_row_count t}"
  proof (rule inj_onI)
    fix r r' assume r: "r \<in> {0..<tdc_row_count t}" "r' \<in> {0..<tdc_row_count t}" and eq: "key_of l t r = key_of l t r'"
    obtain c c' where "key_code (key_of l t r) = Some c" "idx ! unat c = r" "key_code (key_of l t r') = Some c'" "idx ! unat c' = r'"
      using perfect_tableD(6) [OF assms, of r] perfect_tableD(6) [OF assms, of r'] r by auto
    then show "r = r'" using eq by simp
  qed
  then show ?thesis by (simp add: stored_keys_def distinct_map)
qed

text \<open>A slot that is taken holds the row of the key; a free one shows that the key is new and that there is room.\<close>

lemma taken_key_slot:
  assumes l: "perfect_layout l" and T: "perfect_table l N t idx seen ins" and k: "length k = length (columns l)" "key_code k = Some c" "unat c < N"
    and e: "idx ! unat c \<noteq> TDC_INVALID_ROW_INDEX"
  shows "idx ! unat c < tdc_row_count t" "key_of l t (idx ! unat c) = k"
proof -
  obtain c' where c': "idx ! unat c < tdc_row_count t" "key_code (key_of l t (idx ! unat c)) = Some c'" "unat c' = unat c"
    using perfect_tableD(7) [OF T k(3) e] by blast
  have "c' = c" using c'(3) by (simp add: word_unat_eq_iff)
  then show "idx ! unat c < tdc_row_count t" "key_of l t (idx ! unat c) = k"
    using c' k l key_code_inject [of "key_of l t (idx ! unat c)" k c] by (simp_all add: length_key perfect_layout_def)
qed

lemma free_key_slot:
  assumes T: "perfect_table l N t idx seen ins" and k: "key_code k = Some c" "unat c < N" "idx ! unat c = TDC_INVALID_ROW_INDEX"
  shows "k \<notin> input_key l ` set seen" "tdc_row_count t < tdc_row_capacity t"
proof -
  have count: "tdc_row_count t \<le> tdc_row_capacity t" "tdc_row_capacity t < 2 ^ 32"
    using perfect_tableD(1) [OF T] by (auto simp: rows_ok_def tdc_ok_def)
  have valid: "\<exists>j. j < N \<and> j \<noteq> unat c \<and> idx ! j = r \<and> key_of l t r \<noteq> k" if r: "r < tdc_row_count t" for r
  proof -
    obtain c' where c': "key_code (key_of l t r) = Some c'" "unat c' < N" "idx ! unat c' = r" using perfect_tableD(6) [OF T r] by blast
    have "r \<noteq> TDC_INVALID_ROW_INDEX" using r count by (simp add: TDC_INVALID_ROW_INDEX_def UINT32_MAX_def)
    then have "unat c' \<noteq> unat c" "key_of l t r \<noteq> k" using c' k by auto
    then show ?thesis using c' by blast
  qed
  have "k \<notin> set (stored_keys l t)"
  proof
    assume "k \<in> set (stored_keys l t)"
    then obtain r where "r < tdc_row_count t" "key_of l t r = k" by (auto simp: stored_keys_def)
    then show False using valid by blast
  qed
  then show "k \<notin> input_key l ` set seen" using perfect_tableD(4) [OF T] by simp
  have "{..<tdc_row_count t} \<subseteq> (!) idx ` ({..<N} - {unat c})" using valid by blast
  then have "card {..<tdc_row_count t} \<le> card ((!) idx ` ({..<N} - {unat c}))" by (rule card_mono [rotated]) simp
  also have "\<dots> \<le> card ({..<N} - {unat c})" by (rule card_image_le) simp
  also have "\<dots> < N" using k(2) by simp
  finally show "tdc_row_count t < tdc_row_capacity t" using perfect_tableD(2) [OF T] by simp
qed

text \<open>The three ways the table changes: a new group, inputs of a known group announced, and the states of a group replaced.\<close>

lemma table_insert:
  assumes T: "perfect_table l N t idx seen ins" and k: "key_code k = Some c" "unat c < N" "idx ! unat c = TDC_INVALID_ROW_INDEX"
    and t': "rows_ok l t'" "stored_keys l t' = stored_keys l t @ [k]" "\<forall>r<tdc_row_count t. tdc_rows t' ! r = tdc_rows t ! r"
      "tdc_row_capacity t' = tdc_row_capacity t" "holds_states l (tdc_rows t' ! tdc_row_count t) js"
    and js: "input_key l ` set xs = {k}" "set js \<subseteq> set xs"
  shows "perfect_table l N t' (idx[unat c := tdc_row_count t]) (seen @ xs) (ins @ js)"
proof -
  note new = free_key_slot [OF T k]
  note D = perfect_tableD [OF T]
  have count: "tdc_row_count t' = Suc (tdc_row_count t)" using arg_cong [OF t'(2), of length] by simp
  have keys: "key_of l t' r = (if r = tdc_row_count t then k else key_of l t r)" if "r < tdc_row_count t'" for r
    using arg_cong [OF t'(2), of "\<lambda>ks. ks ! r"] that count by (auto simp: nth_stored_keys nth_append less_Suc_eq)
  have len: "unat c < length idx" using k(2) D(3) by simp
  have other: "key_of l t r \<noteq> k" if "r < tdc_row_count t" for r using new(1) D(4) that by (auto simp: stored_keys_def)
  have sub: "set ins \<subseteq> set seen" by (rule D(5))
  have "key_inputs l k ins = []" using new(1) sub by (intro key_inputs_none) auto
  moreover have "key_inputs l k js = js" using js by (intro key_inputs_all) auto
  moreover have "key_inputs l (key_of l t r) js = []" if "r < tdc_row_count t" for r
    using other [OF that] js by (intro key_inputs_none) auto
  ultimately have states: "holds_states l (tdc_rows t' ! r) (key_inputs l (key_of l t' r) (ins @ js))" if "r < tdc_row_count t'" for r
    using that t'(3,5) D(8) keys [OF that] by (auto simp: count less_Suc_eq key_inputs_append)
  have slots: "\<exists>c'. key_code (key_of l t' r) = Some c' \<and> unat c' < N \<and> idx[unat c := tdc_row_count t] ! unat c' = r" if "r < tdc_row_count t'" for r
  proof (cases "r = tdc_row_count t")
    case True
    then show ?thesis using k keys [OF that] len by simp
  next
    case False
    then have r: "r < tdc_row_count t" using that count by simp
    obtain c' where c': "key_code (key_of l t r) = Some c'" "unat c' < N" "idx ! unat c' = r" using D(6) [OF r] by blast
    have "r \<noteq> TDC_INVALID_ROW_INDEX" using r D(1) by (auto simp: rows_ok_def tdc_ok_def TDC_INVALID_ROW_INDEX_def UINT32_MAX_def)
    then have "unat c' \<noteq> unat c" using c'(3) k(3) by metis
    then show ?thesis using c' keys [OF that] False by simp
  qed
  have rows: "idx[unat c := tdc_row_count t] ! j < tdc_row_count t' \<and>
      (\<exists>c'. key_code (key_of l t' (idx[unat c := tdc_row_count t] ! j)) = Some c' \<and> unat c' = j)"
    if "j < N" "idx[unat c := tdc_row_count t] ! j \<noteq> TDC_INVALID_ROW_INDEX" for j
  proof (cases "j = unat c")
    case True
    then show ?thesis using len keys [of "tdc_row_count t"] k count by simp
  next
    case False
    then have "idx ! j < tdc_row_count t \<and> (\<exists>c'. key_code (key_of l t (idx ! j)) = Some c' \<and> unat c' = j)" using D(7) [OF that(1)] that(2) by simp
    then show ?thesis using False keys [of "idx ! j"] count by auto
  qed
  have "set (stored_keys l t') = input_key l ` set (seen @ xs)" using t'(2) D(4) js(1) by (auto simp: image_Un)
  then show ?thesis using t'(1,4) D(2,3,5) js(2) slots rows states unfolding perfect_table_def by auto
qed

lemma table_seen:
  assumes "perfect_table l N t idx seen ins" "input_key l ` set xs \<subseteq> set (stored_keys l t)"
  shows "perfect_table l N t idx (seen @ xs) ins"
proof -
  have "input_key l ` set (seen @ xs) = set (stored_keys l t)" using assms perfect_tableD(4) [OF assms(1)] by (auto simp: image_Un)
  then show ?thesis using assms(1) by (auto simp: perfect_table_def)
qed

lemma table_states:
  assumes T: "perfect_table l N t idx seen ins"
    and t': "rows_ok l t'" "stored_keys l t' = stored_keys l t" "tdc_row_capacity t' = tdc_row_capacity t"
    and "\<And>r. r < tdc_row_count t \<Longrightarrow> holds_states l (tdc_rows t' ! r) (key_inputs l (key_of l t r) ins')" and "set ins' \<subseteq> set seen"
  shows "perfect_table l N t' idx seen ins'"
proof -
  have count: "tdc_row_count t' = tdc_row_count t" using arg_cong [OF t'(2), of length] by simp
  have keys: "key_of l t' r = key_of l t r" if "r < tdc_row_count t" for r
    using arg_cong [OF t'(2), of "\<lambda>ks. ks ! r"] that count by (simp add: nth_stored_keys)
  show ?thesis using T assms(5,6) t' unfolding perfect_table_def by (auto simp: count keys)
qed

section \<open>Appending a group\<close>

lemma reserve_row_full: "tdc_row_count t < tdc_row_capacity t \<Longrightarrow> reserve_row grow t = Some (Inr t)"
  by (simp add: reserve_row.simps)

lemma no_string_need: "perfect_layout l \<Longrightarrow> key_need l ch i = 0" "perfect_layout l \<Longrightarrow> chunk_row_ok l ch i"
  by (auto simp: perfect_layout_def key_need_def string_need_def chunk_row_ok_def list_all_iff sum_list_eq_0_iff)

lemma new_group_row_ok:
  assumes l: "layout_ok l" and t: "rows_ok l t" and cap: "tdc_row_count t < tdc_row_capacity t"
    and put: "\<And>t1. tdc_ok t1 \<Longrightarrow> tdc_heap_capacity t1 = tdc_heap_capacity t \<Longrightarrow> tdc_heap_used t1 = tdc_heap_used t \<Longrightarrow>
      \<exists>row u. put (replicate (unat (layout_row_width l)) 0, t1) = Inr (row, u) \<and> row_ok l (tdc_heap u) (tdc_heap_used u) row \<and>
        row_key l (tdc_heap u) row = k \<and> tdc_ok u \<and> tdc_ext t1 u \<and> tdc_heap_used u = tdc_heap_used t1 \<and> holds_states l row js"
  obtains t' where "new_group_row grow err put t = Some (Inr (tdc_row_count t, t'))" "rows_ok l t'" "stored_keys l t' = stored_keys l t @ [k]"
    "\<forall>r<tdc_row_count t. tdc_rows t' ! r = tdc_rows t ! r" "tdc_row_capacity t' = tdc_row_capacity t"
    "holds_states l (tdc_rows t' ! tdc_row_count t) js"
proof -
  let ?g = "tdc_row_count t"
  let ?t1 = "t\<lparr>tdc_row_count := tdc_row_count t + 1\<rparr>"
  have ok: "tdc_ok t" using t by (simp add: rows_ok_def)
  have "\<exists>row u. put (replicate (unat (layout_row_width l)) 0, t1) = Inr (row, u) \<and> row_ok l (tdc_heap u) (tdc_heap_used u) row \<and>
        row_key l (tdc_heap u) row = k \<and> tdc_ok u \<and> tdc_ext t1 u \<and> tdc_heap_used u = tdc_heap_used t1 + 0"
    if "tdc_ok t1" "tdc_heap_capacity t1 = tdc_heap_capacity t" "tdc_heap_used t1 = tdc_heap_used t" for t1
    using put [OF that] by auto
  then obtain t' where t': "append_with err put t = Inr t'" "appended l k 0 t t'"
    using append_with_ok [OF l t cap, of 0 put k err] by auto
  have app: "TupleDataCollectionAppendRow t = (?g, ?t1)"
    using AppendRow_index [OF ok] cap by (cases "TupleDataCollectionAppendRow t") auto
  have zero: "TupleDataCollectionGetRow ?t1 ?g = replicate (unat (layout_row_width l)) 0"
    using t cap by (simp add: rows_ok_def TupleDataCollectionGetRow_def)
  obtain row u where u: "put (replicate (unat (layout_row_width l)) 0, ?t1) = Inr (row, u)" "tdc_ext ?t1 u" "holds_states l row js"
    using put [of ?t1] tdc_ok_AppendRow [OF ok app] by auto
  have "t' = set_row ?g row u"
    using t'(1) u(1) zero app AppendRow_valid [OF ok app] cap by (simp add: append_with_def Let_def)
  moreover have "tdc_rows u = tdc_rows t" "?g < length (tdc_rows t)" using u(2) ok cap by (simp_all add: tdc_ext_def tdc_ok_def)
  ultimately have "\<forall>r<?g. tdc_rows t' ! r = tdc_rows t ! r" "holds_states l (tdc_rows t' ! ?g) js" using u(3) by (simp_all add: set_row_def)
  moreover have "new_group_row grow err put t = Some (Inr (?g, t'))"
    using t'(1) app by (simp add: new_group_row_def reserve_row_full [OF cap])
  ultimately show thesis using that t'(2) by (simp add: appended_def)
qed

lemma scatter_group_ok:
  assumes l: "perfect_layout l" and t1: "tdc_ok t1"
  shows "\<exists>row u. scatter_group l ch i (replicate (unat (layout_row_width l)) 0, t1) = Inr (row, u) \<and> row_ok l (tdc_heap u) (tdc_heap_used u) row \<and>
        row_key l (tdc_heap u) row = chunk_key l ch i \<and> tdc_ok u \<and> tdc_ext t1 u \<and> tdc_heap_used u = tdc_heap_used t1 \<and> holds_states l row []"
proof -
  have lay: "layout_ok l" and room: "key_need l ch i \<le> tdc_heap_capacity t1 - tdc_heap_used t1"
    using l no_string_need by (simp_all add: perfect_layout_def)
  obtain row u where "ScatterGroupOnly l ch i (replicate (unat (layout_row_width l)) 0, Some t1) = Inr (row, Some u)"
    "row_ok l (tdc_heap u) (tdc_heap_used u) row" "row_key l (tdc_heap u) row = chunk_key l ch i" "holds_states l row []" "tdc_ok u"
    "tdc_ext t1 u" "tdc_heap_used u = tdc_heap_used t1 + key_need l ch i"
    by (rule ScatterGroupOnly_ok [OF lay no_string_need(2) [OF l] t1 room]) (rule that; assumption)
  then show ?thesis using no_string_need(1) [OF l] by (simp add: scatter_group_def)
qed

lemma no_string_row:
  assumes "perfect_layout l" "row_ok l heap used row"
  shows "row_ok l heap' used' row" "row_key l heap' row = row_key l heap row"
  using assms by (auto simp: perfect_layout_def row_ok_def row_refs_ok_def row_key_def row_val_def list_all_iff)

lemma copy_whole_row_ok:
  assumes l: "perfect_layout l" and row: "row_ok l heap used row" "holds_states l row js" and t1: "tdc_ok t1"
  shows "\<exists>row' u. copy_whole_row l row (replicate (unat (layout_row_width l)) 0, t1) = Inr (row', u) \<and> row_ok l (tdc_heap u) (tdc_heap_used u) row' \<and>
        row_key l (tdc_heap u) row' = row_key l heap row \<and> tdc_ok u \<and> tdc_ext t1 u \<and> tdc_heap_used u = tdc_heap_used t1 \<and> holds_states l row' js"
proof -
  have len: "length row = unat (layout_row_width l)" using row(1) by (simp add: row_ok_def)
  have "mem_write 0 (mem_read 0 (unat (layout_row_width l)) row) (replicate (unat (layout_row_width l)) 0) = row"
    using len by (simp add: mem_write_def mem_read_def)
  then show ?thesis using no_string_row [OF l row(1)] row(2) t1 by (simp add: copy_whole_row_def)
qed

section \<open>The sink keeps the table\<close>

definition good_key :: "nat \<Rightarrow> gval list \<Rightarrow> bool" where
  "good_key N k \<longleftrightarrow> (case key_code k of None \<Rightarrow> False | Some c \<Rightarrow> unat c < N)"

definition chunk_inputs :: "data_chunk \<Rightarrow> input_row list" where
  "chunk_inputs ch = map (Pair ch) [0..<chunk_count ch]"

text \<open>After \<open>n\<close> rows of the chunk, with their updates still to be done.\<close>

definition sink_inv :: "tuple_data_layout \<Rightarrow> nat \<Rightarrow> data_chunk \<Rightarrow> input_row list \<Rightarrow> nat \<Rightarrow> perfect_local \<times> (nat \<times> nat) list \<Rightarrow> bool" where
  "sink_inv l N ch ins n st \<longleftrightarrow>
     (let (local, updates) = st
      in perfect_table l N (pl_tdc local) (pl_row_indices local) (ins @ map (Pair ch) [0..<n]) ins \<and> map snd updates = [0..<n] \<and>
         (\<forall>u\<in>set updates. fst u < tdc_row_count (pl_tdc local) \<and> key_of l (pl_tdc local) (fst u) = chunk_key l ch (snd u)))"

lemma sink_row_ok:
  assumes l: "perfect_layout l" "perfect_chunk l ch" and inv: "sink_inv l N ch ins n (local, updates)"
  shows "\<exists>r. sink_perfect_row hdr l N ch n (local, updates) = Some r \<and>
    (case r of Inl e \<Rightarrow> \<not> good_key N (chunk_key l ch n) | Inr st \<Rightarrow> good_key N (chunk_key l ch n) \<and> sink_inv l N ch ins (Suc n) st)"
proof (cases "good_key N (chunk_key l ch n)")
  case False
  then show ?thesis
    unfolding sink_perfect_row_def chunk_code [OF l] by (auto simp: good_key_def split: option.splits)
next
  case True
  let ?k = "chunk_key l ch n" and ?t = "pl_tdc local" and ?idx = "pl_row_indices local"
  obtain c where c: "key_code ?k = Some c" "unat c < N" using True by (auto simp: good_key_def split: option.splits)
  have T: "perfect_table l N ?t ?idx (ins @ map (Pair ch) [0..<n]) ins"
    and ups: "map snd updates = [0..<n]" "\<And>u. u \<in> set updates \<Longrightarrow> fst u < tdc_row_count ?t \<and> key_of l ?t (fst u) = chunk_key l ch (snd u)"
    using inv by (simp_all add: sink_inv_def)
  have step: "sink_perfect_row hdr l N ch n (local, updates) =
      (if ?idx ! unat c \<noteq> TDC_INVALID_ROW_INDEX then Some (Inr (local, updates @ [(?idx ! unat c, n)]))
       else map_option (map_sum id (\<lambda>(idx, tdc). (local\<lparr>pl_tdc := tdc, pl_row_indices := ?idx[unat c := idx]\<rparr>, updates @ [(idx, n)])))
              (new_group_row (GrowLocalTdc hdr l) ''perfect hash local row capacity exceeded'' (scatter_group l ch n) ?t))"
    using c by (simp add: sink_perfect_row_def chunk_code [OF l])
  show ?thesis
  proof (cases "?idx ! unat c = TDC_INVALID_ROW_INDEX")
    case False
    note e = taken_key_slot [OF l(1) T length_key(2) c False]
    have "perfect_table l N ?t ?idx ((ins @ map (Pair ch) [0..<n]) @ [(ch, n)]) ins"
    proof (rule table_seen [OF T])
      have "chunk_key l ch n \<in> set (stored_keys l ?t)" unfolding e(2) [symmetric] stored_keys_def using e(1) by simp
      then show "input_key l ` set [(ch, n)] \<subseteq> set (stored_keys l ?t)" by simp
    qed
    then have "sink_inv l N ch ins (Suc n) (local, updates @ [(?idx ! unat c, n)])"
      using ups e by (auto simp: sink_inv_def)
    then show ?thesis using True False by (simp add: step)
  next
    case free: True
    note D = perfect_tableD [OF T]
    have lay: "layout_ok l" using l(1) by (simp add: perfect_layout_def)
    obtain t' where t': "new_group_row (GrowLocalTdc hdr l) ''perfect hash local row capacity exceeded'' (scatter_group l ch n) ?t =
        Some (Inr (tdc_row_count ?t, t'))" "rows_ok l t'" "stored_keys l t' = stored_keys l ?t @ [?k]"
      "\<forall>r<tdc_row_count ?t. tdc_rows t' ! r = tdc_rows ?t ! r" "tdc_row_capacity t' = tdc_row_capacity ?t"
      "holds_states l (tdc_rows t' ! tdc_row_count ?t) []"
      by (rule new_group_row_ok [OF lay D(1) free_key_slot(2) [OF T c free], where put = "scatter_group l ch n" and k = ?k and js = "[]"])
        (rule scatter_group_ok [OF l(1)], assumption, (rule that; assumption))
    have "perfect_table l N t' (?idx[unat c := tdc_row_count ?t]) ((ins @ map (Pair ch) [0..<n]) @ [(ch, n)]) (ins @ [])"
      by (rule table_insert [OF T c free t'(2-6)]) simp_all
    moreover have count: "tdc_row_count t' = Suc (tdc_row_count ?t)" using arg_cong [OF t'(3), of length] by simp
    have keys: "key_of l t' r = (if r = tdc_row_count ?t then ?k else key_of l ?t r)" if "r \<le> tdc_row_count ?t" for r
      using arg_cong [OF t'(3), of "\<lambda>ks. ks ! r"] that count by (auto simp: nth_stored_keys nth_append)
    have "fst u < tdc_row_count t' \<and> key_of l t' (fst u) = chunk_key l ch (snd u)" if "u \<in> set (updates @ [(tdc_row_count ?t, n)])" for u
      using that ups(2) [of u] keys [of "fst u"] count by auto
    ultimately have "sink_inv l N ch ins (Suc n)
        (local\<lparr>pl_tdc := t', pl_row_indices := ?idx[unat c := tdc_row_count ?t]\<rparr>, updates @ [(tdc_row_count ?t, n)])"
      using ups(1) by (simp add: sink_inv_def)
    then show ?thesis using True free t'(1) by (simp add: step)
  qed
qed

lemma fold_opt_append: "fold_opt f (xs @ ys) s = (case fold_opt f xs s of None \<Rightarrow> None | Some (Inl e) \<Rightarrow> Some (Inl e) | Some (Inr s) \<Rightarrow> fold_opt f ys s)"
  by (induction xs arbitrary: s) (auto split: option.splits sum.splits)

lemma sink_rows_ok:
  assumes l: "perfect_layout l" "perfect_chunk l ch" and inv: "sink_inv l N ch ins 0 st"
  shows "\<exists>r. fold_opt (sink_perfect_row hdr l N ch) [0..<n] st = Some r \<and>
    (case r of Inl e \<Rightarrow> \<exists>j<n. \<not> good_key N (chunk_key l ch j) | Inr st \<Rightarrow> (\<forall>j<n. good_key N (chunk_key l ch j)) \<and> sink_inv l N ch ins n st)"
proof (induction n)
  case 0
  then show ?case using inv by simp
next
  case (Suc n)
  obtain r where r: "fold_opt (sink_perfect_row hdr l N ch) [0..<n] st = Some r"
    "case r of Inl e \<Rightarrow> \<exists>j<n. \<not> good_key N (chunk_key l ch j) | Inr st \<Rightarrow> (\<forall>j<n. good_key N (chunk_key l ch j)) \<and> sink_inv l N ch ins n st"
    using Suc by blast
  show ?case
  proof (cases r)
    case (Inl e)
    then show ?thesis using r by (auto simp: fold_opt_append intro: less_SucI)
  next
    case (Inr x)
    obtain local updates where x: "x = (local, updates)" by (cases x)
    obtain r' where "sink_perfect_row hdr l N ch n (local, updates) = Some r'"
      "case r' of Inl e \<Rightarrow> \<not> good_key N (chunk_key l ch n) | Inr st \<Rightarrow> good_key N (chunk_key l ch n) \<and> sink_inv l N ch ins (Suc n) st"
      using sink_row_ok [OF l, of N ins n local updates hdr] r(2) Inr x by auto
    then show ?thesis using r Inr x by (cases r') (auto simp: fold_opt_append less_Suc_eq)
  qed
qed

text \<open>The batched update at the end of the chunk.\<close>

lemma update_states:
  assumes l: "layout_ok l" and row: "length row = unat (layout_row_width l)" "holds_states l row ins"
  shows "holds_states l (fold (UpdateAggregates l ch) is row) (ins @ map (Pair ch) is)"
  using row
proof (induction "is" arbitrary: row ins)
  case (Cons i "is")
  have "holds_states l (fold (UpdateAggregates l ch) is (UpdateAggregates l ch i row)) ((ins @ [(ch, i)]) @ map (Pair ch) is)"
    using Cons.prems by (intro Cons.IH) (simp_all add: l UpdateAggregates_states)
  then show ?case by simp
qed simp

lemma update_row_key:
  assumes "layout_ok l" "row_ok l heap used row"
  shows "row_ok l heap used (fold (UpdateAggregates l ch) is row) \<and> row_key l heap (fold (UpdateAggregates l ch) is row) = row_key l heap row"
  using assms(2) by (induction "is" arbitrary: row) (simp_all add: UpdateAggregates_row [OF assms(1)])

lemma inputs_of_row:
  assumes "\<And>u. u \<in> set updates \<Longrightarrow> fst u < m \<and> key (fst u) = chunk_key l ch (snd u)" "inj_on key {..<m}" "r < m"
  shows "map (Pair ch) (row_inputs r updates) = key_inputs l (key r) (map (Pair ch) (map snd updates))"
proof -
  have "fst u = r \<longleftrightarrow> chunk_key l ch (snd u) = key r" if "u \<in> set updates" for u
    using assms(1) [OF that] assms(2,3) by (metis inj_on_eq_iff lessThan_iff)
  then have "filter (\<lambda>u. fst u = r) updates = filter (\<lambda>u. chunk_key l ch (snd u) = key r) updates" by (rule filter_cong [OF refl])
  then show ?thesis by (simp add: row_inputs_def key_inputs_def filter_map o_def)
qed

lemma UpdateAggregatesGather_ok:
  assumes l: "perfect_layout l" and ch: "chunk_count ch \<le> 2048" and inv: "sink_inv l N ch ins (chunk_count ch) (local, updates)"
  obtains t' where "UpdateAggregatesGather l ch updates (pl_tdc local) = Some t'"
    "perfect_table l N t' (pl_row_indices local) (ins @ chunk_inputs ch) (ins @ chunk_inputs ch)"
proof -
  let ?t = "pl_tdc local"
  have T: "perfect_table l N ?t (pl_row_indices local) (ins @ chunk_inputs ch) ins" and snd: "map snd updates = [0..<chunk_count ch]"
    and ups: "\<And>u. u \<in> set updates \<Longrightarrow> fst u < tdc_row_count ?t \<and> key_of l ?t (fst u) = chunk_key l ch (snd u)"
    using inv by (simp_all add: sink_inv_def chunk_inputs_def)
  note D = perfect_tableD [OF T]
  have lay: "layout_ok l" using l by (simp add: perfect_layout_def)
  have len: "length (tdc_rows ?t) = tdc_row_capacity ?t" "tdc_row_count ?t \<le> tdc_row_capacity ?t" using D(1) by (auto simp: rows_ok_def tdc_ok_def)
  have row: "row_ok l (tdc_heap ?t) (tdc_heap_used ?t) (tdc_rows ?t ! r)" if "r < tdc_row_count ?t" for r using D(1) that by (simp add: rows_ok_def)
  have "length updates \<le> AGG_DELTA_HASH_SLOTS" using arg_cong [OF snd, of length] ch by (simp add: AGG_DELTA_HASH_SLOTS_def)
  moreover have "length (tdc_rows ?t ! r) = unat (layout_row_width l)" if "r \<in> fst ` set updates" for r
    using that ups row by (auto simp: row_ok_def)
  ultimately have run: "UpdateAggregatesGatherGroupedGeneric l ch updates (\<lambda>r. tdc_rows ?t ! r) = Some (update_rows l ch updates (\<lambda>r. tdc_rows ?t ! r))"
    unfolding UpdateAggregatesGatherGroupedGeneric_def by (intro update_grouped_eq [OF lay])
  let ?new = "\<lambda>r. fold (UpdateAggregates l ch) (row_inputs r updates) (tdc_rows ?t ! r)"
  let ?t' = "?t\<lparr>tdc_rows := map ?new [0..<length (tdc_rows ?t)]\<rparr>"
  have new: "UpdateAggregatesGather l ch updates ?t = Some ?t'"
    by (simp add: UpdateAggregatesGather_def run update_rows_at [abs_def])
  have same: "?new r = tdc_rows ?t ! r" if "tdc_row_count ?t \<le> r" for r
  proof -
    have "row_inputs r updates = []" using ups that by (fastforce simp: row_inputs_def filter_empty_conv)
    then show ?thesis by simp
  qed
  have keep: "row_ok l (tdc_heap ?t) (tdc_heap_used ?t) (?new r)" "row_key l (tdc_heap ?t) (?new r) = key_of l ?t r" if "r < tdc_row_count ?t" for r
    using update_row_key [OF lay row [OF that]] by (simp_all add: key_of_def)
  have "length (?new r) = tdc_row_width ?t" if "r < tdc_row_capacity ?t" for r
    using that keep(1) [of r] same [of r] D(1) by (cases "r < tdc_row_count ?t") (auto simp: rows_ok_def row_ok_def tdc_ok_def)
  then have "tdc_ok ?t'" using D(1) len by (auto simp: rows_ok_def tdc_ok_def)
  moreover have "tdc_rows ?t' ! r = replicate (unat (layout_row_width l)) 0" if "tdc_row_count ?t \<le> r" "r < tdc_row_capacity ?t" for r
  proof -
    have "tdc_rows ?t' ! r = ?new r" using that(2) len by simp
    also have "\<dots> = tdc_rows ?t ! r" by (rule same [OF that(1)])
    also have "\<dots> = replicate (unat (layout_row_width l)) 0" using D(1) that by (simp add: rows_ok_def)
    finally show ?thesis .
  qed
  ultimately have rows: "rows_ok l ?t'" using D(1) len keep(1) by (simp add: rows_ok_def)
  have keys: "stored_keys l ?t' = stored_keys l ?t" using keep(2) len by (auto simp: stored_keys_def key_of_def)
  have inj: "inj_on (key_of l ?t) {..<tdc_row_count ?t}"
    using distinct_groups [OF T] by (simp add: stored_keys_def distinct_map atLeast0LessThan)
  have states: "holds_states l (tdc_rows ?t' ! r) (key_inputs l (key_of l ?t r) (ins @ chunk_inputs ch))" if "r < tdc_row_count ?t" for r
  proof -
    have "holds_states l (?new r) (key_inputs l (key_of l ?t r) ins @ map (Pair ch) (row_inputs r updates))"
      by (rule update_states [OF lay _ D(8) [OF that]]) (use row [OF that] in \<open>simp add: row_ok_def\<close>)
    then show ?thesis
      using inputs_of_row [where key = "key_of l ?t", OF ups inj that] that len by (simp add: key_inputs_append chunk_inputs_def snd)
  qed
  have "perfect_table l N ?t' (pl_row_indices local) (ins @ chunk_inputs ch) (ins @ chunk_inputs ch)"
    by (rule table_states [OF T rows keys _ states]) simp_all
  then show thesis using that new by blast
qed

section \<open>Workers and their combination\<close>

text \<open>A worker sinks its chunks into a table of its own.\<close>

definition PerfectSinkAll :: "nat \<Rightarrow> tuple_data_layout \<Rightarrow> nat \<Rightarrow> nat \<Rightarrow> data_chunk list \<Rightarrow> perfect_local result option" where
  "PerfectSinkAll hdr layout max_groups perfect_capacity chunks =
     fold_opt (SinkChunkPerfectHash hdr layout perfect_capacity) chunks (PerfectLocalInit layout max_groups perfect_capacity)"

definition inputs_of :: "data_chunk list \<Rightarrow> input_row list" where
  "inputs_of chunks = concat (map chunk_inputs chunks)"

definition good_inputs :: "tuple_data_layout \<Rightarrow> nat \<Rightarrow> input_row list \<Rightarrow> bool" where
  "good_inputs l N ins \<longleftrightarrow> list_all (\<lambda>x. good_key N (input_key l x)) ins"

lemma sink_chunk_ok:
  assumes l: "perfect_layout l" "perfect_chunk l ch" and T: "perfect_table l N (pl_tdc local) (pl_row_indices local) ins ins"
  shows "\<exists>r. SinkChunkPerfectHash hdr l N ch local = Some r \<and>
    (case r of Inl e \<Rightarrow> \<not> good_inputs l N (chunk_inputs ch)
     | Inr local' \<Rightarrow> good_inputs l N (chunk_inputs ch) \<and>
         perfect_table l N (pl_tdc local') (pl_row_indices local') (ins @ chunk_inputs ch) (ins @ chunk_inputs ch))"
proof -
  have "sink_inv l N ch ins 0 (local, [])" using T by (simp add: sink_inv_def)
  from sink_rows_ok [OF l this, of hdr "chunk_count ch"] obtain r where
    r: "fold_opt (sink_perfect_row hdr l N ch) [0..<chunk_count ch] (local, []) = Some r"
    "case r of Inl e \<Rightarrow> \<exists>j<chunk_count ch. \<not> good_key N (chunk_key l ch j)
     | Inr st \<Rightarrow> (\<forall>j<chunk_count ch. good_key N (chunk_key l ch j)) \<and> sink_inv l N ch ins (chunk_count ch) st" by blast
  have good: "good_inputs l N (chunk_inputs ch) \<longleftrightarrow> (\<forall>j<chunk_count ch. good_key N (chunk_key l ch j))"
    by (auto simp: good_inputs_def chunk_inputs_def list_all_iff)
  show ?thesis
  proof (cases r)
    case (Inl e)
    then show ?thesis using r good by (simp add: SinkChunkPerfectHash_def)
  next
    case (Inr x)
    obtain local1 updates where x: "x = (local1, updates)" by (cases x)
    then have inv: "sink_inv l N ch ins (chunk_count ch) (local1, updates)" "good_inputs l N (chunk_inputs ch)" using r Inr good by simp_all
    have count: "chunk_count ch \<le> 2048" using l(2) by (simp add: perfect_chunk_def)
    obtain t' where t': "UpdateAggregatesGather l ch updates (pl_tdc local1) = Some t'"
      "perfect_table l N t' (pl_row_indices local1) (ins @ chunk_inputs ch) (ins @ chunk_inputs ch)"
      by (rule UpdateAggregatesGather_ok [OF l(1) count inv(1)])
    show ?thesis
    proof (cases "updates = []")
      case True
      then have "chunk_inputs ch = []" using inv(1) by (simp add: sink_inv_def chunk_inputs_def)
      then have "perfect_table l N (pl_tdc local1) (pl_row_indices local1) (ins @ chunk_inputs ch) (ins @ chunk_inputs ch)"
        using inv(1) by (simp add: sink_inv_def chunk_inputs_def)
      then show ?thesis using True r(1) Inr x inv(2) by (simp add: SinkChunkPerfectHash_def)
    next
      case False
      then show ?thesis using t' r(1) Inr x inv(2) by (simp add: SinkChunkPerfectHash_def)
    qed
  qed
qed

lemma perfect_table_Init:
  assumes l: "perfect_layout l" and N: "N \<le> max_groups" "max_groups < 2 ^ 29"
  shows "perfect_table l N (TupleDataCollectionInit max_groups (unat (layout_row_width l)) (TupleDataCollectionDefaultHeapCapacity (Some l) max_groups))
    (replicate N TDC_INVALID_ROW_INDEX) [] []"
proof -
  have lay: "layout_ok l" using l by (simp add: perfect_layout_def)
  have heap: "TupleDataCollectionDefaultHeapCapacity (Some l) max_groups < 2 ^ 32" by (rule DefaultHeap(1) [OF lay N(2)])
  have cap: "max_groups < 2 ^ 32" using N(2) by simp
  note init = rows_ok_Init [OF lay cap heap]
  have "tdc_row_count (TupleDataCollectionInit max_groups w h) = 0" "tdc_row_capacity (TupleDataCollectionInit max_groups w h) = max_groups" for w h
    by (simp_all add: TupleDataCollectionInit_def)
  then show ?thesis using init N(1) by (simp add: perfect_table_def)
qed

lemma sink_chunks_ok:
  assumes l: "perfect_layout l"
  shows "perfect_table l N (pl_tdc local) (pl_row_indices local) ins ins \<Longrightarrow> \<forall>ch\<in>set chunks. perfect_chunk l ch \<Longrightarrow>
    \<exists>r. fold_opt (SinkChunkPerfectHash hdr l N) chunks local = Some r \<and>
    (case r of Inl e \<Rightarrow> \<not> good_inputs l N (inputs_of chunks)
     | Inr local' \<Rightarrow> good_inputs l N (inputs_of chunks) \<and>
         perfect_table l N (pl_tdc local') (pl_row_indices local') (ins @ inputs_of chunks) (ins @ inputs_of chunks))"
proof (induction chunks arbitrary: local ins)
  case Nil
  then show ?case by (simp add: inputs_of_def good_inputs_def)
next
  case (Cons ch chunks)
  have ch: "perfect_chunk l ch" "\<forall>ch\<in>set chunks. perfect_chunk l ch" using Cons.prems(2) by simp_all
  have split: "inputs_of (ch # chunks) = chunk_inputs ch @ inputs_of chunks" by (simp add: inputs_of_def)
  obtain r where r: "SinkChunkPerfectHash hdr l N ch local = Some r"
    "case r of Inl e \<Rightarrow> \<not> good_inputs l N (chunk_inputs ch)
     | Inr local' \<Rightarrow> good_inputs l N (chunk_inputs ch) \<and>
         perfect_table l N (pl_tdc local') (pl_row_indices local') (ins @ chunk_inputs ch) (ins @ chunk_inputs ch)"
    using sink_chunk_ok [OF l ch(1) Cons.prems(1)] by blast
  show ?case
  proof (cases r)
    case (Inl e)
    then show ?thesis using r by (simp add: split good_inputs_def)
  next
    case (Inr local')
    then have "perfect_table l N (pl_tdc local') (pl_row_indices local') (ins @ chunk_inputs ch) (ins @ chunk_inputs ch)" using r by simp
    from Cons.IH [OF this ch(2)] show ?thesis using r Inr by (auto simp: split good_inputs_def cong: sum.case_cong)
  qed
qed

text \<open>Combining a stored row, and all rows of a worker.\<close>

lemma combine_row_ok:
  assumes l: "perfect_layout l" and T: "perfect_table l N (pg_tdc g) (pg_index g) ins ins"
    and src: "row_ok l heap used row" "holds_states l row js" "good_key N (row_key l heap row)" and js: "input_key l ` set js = {row_key l heap row}"
  shows "\<exists>g'. combine_perfect_row hdr l N row g = Some (Inr g') \<and> perfect_table l N (pg_tdc g') (pg_index g') (ins @ js) (ins @ js)"
proof -
  let ?k = "row_key l heap row" and ?t = "pg_tdc g" and ?idx = "pg_index g"
  have lay: "layout_ok l" using l by (simp add: perfect_layout_def)
  obtain c where c: "key_code ?k = Some c" "unat c < N" using src(3) by (auto simp: good_key_def split: option.splits)
  note D = perfect_tableD [OF T]
  show ?thesis
  proof (cases "?idx ! unat c = TDC_INVALID_ROW_INDEX")
    case True
    obtain t' where t': "new_group_row (GrowGlobalTdc hdr l) ''perfect hash global row capacity exceeded'' (copy_whole_row l row) ?t =
        Some (Inr (tdc_row_count ?t, t'))" "rows_ok l t'" "stored_keys l t' = stored_keys l ?t @ [?k]"
      "\<forall>r<tdc_row_count ?t. tdc_rows t' ! r = tdc_rows ?t ! r" "tdc_row_capacity t' = tdc_row_capacity ?t"
      "holds_states l (tdc_rows t' ! tdc_row_count ?t) js"
      by (rule new_group_row_ok [OF lay D(1) free_key_slot(2) [OF T c True], where put = "copy_whole_row l row" and k = ?k and js = js])
        (rule copy_whole_row_ok [OF l src(1,2)], assumption, (rule that; assumption))
    have "perfect_table l N t' (?idx[unat c := tdc_row_count ?t]) (ins @ js) (ins @ js)"
      by (rule table_insert [OF T c True t'(2-6) js]) simp
    then show ?thesis using True t'(1) c by (simp add: combine_perfect_row_def row_code [OF l, of row heap])
  next
    case False
    let ?e = "?idx ! unat c"
    have k: "length ?k = length (columns l)" by (simp add: row_key_def)
    note e = taken_key_slot [OF l T k c False]
    let ?row = "CombineAggregates l (tdc_rows ?t ! ?e) row"
    let ?t' = "set_row ?e ?row ?t"
    have dst: "row_ok l (tdc_heap ?t) (tdc_heap_used ?t) (tdc_rows ?t ! ?e)" using D(1) e(1) by (simp add: rows_ok_def)
    then have len: "length (tdc_rows ?t ! ?e) = unat (layout_row_width l)" by (simp add: row_ok_def)
    note new = CombineAggregates_row [OF lay dst, of row]
    have bound: "?e < length (tdc_rows ?t)" using D(1) e(1) by (simp add: rows_ok_def tdc_ok_def)
    have "tdc_ok ?t'" using D(1) new by (intro tdc_ok_set_row) (simp_all add: rows_ok_def row_ok_def)
    then have rows: "rows_ok l ?t'" using D(1) new e(1) bound by (auto simp: rows_ok_def set_row_def nth_list_update)
    have keys: "stored_keys l ?t' = stored_keys l ?t"
      using new bound by (auto simp: stored_keys_def key_of_def set_row_def nth_list_update)
    have seen: "perfect_table l N ?t ?idx (ins @ js) ins"
    proof (rule table_seen [OF T])
      have "?k \<in> set (stored_keys l ?t)" unfolding e(2) [symmetric] stored_keys_def using e(1) by simp
      then show "input_key l ` set js \<subseteq> set (stored_keys l ?t)" using js by simp
    qed
    have inj: "key_of l ?t r = ?k \<longleftrightarrow> r = ?e" if "r < tdc_row_count ?t" for r
      using distinct_groups [OF T] that e by (auto simp: stored_keys_def distinct_map inj_on_def)
    have states: "holds_states l (tdc_rows ?t' ! r) (key_inputs l (key_of l ?t r) (ins @ js))" if "r < tdc_row_count ?t" for r
    proof (cases "r = ?e")
      case True
      have "key_inputs l ?k js = js" using js by (intro key_inputs_all) simp
      then show ?thesis
        using CombineAggregates_states [OF lay len D(8) [OF e(1)] src(2)] True e(2) bound by (simp add: key_inputs_append set_row_def)
    next
      case other: False
      have "key_inputs l (key_of l ?t r) js = []" using inj [OF that] other js by (intro key_inputs_none) auto
      then show ?thesis using D(8) [OF that] other by (simp add: key_inputs_append set_row_def)
    qed
    have "perfect_table l N ?t' ?idx (ins @ js) (ins @ js)"
      by (rule table_states [OF seen rows keys _ states]) (auto simp: set_row_def)
    then show ?thesis using False c by (simp add: combine_perfect_row_def row_code [OF l, of row heap] TupleDataCollectionGetRow_def Let_def)
  qed
qed

text \<open>The inputs of a table, regrouped by its keys, are the same inputs for every key.\<close>

lemma key_inputs_twice: "key_inputs l k (key_inputs l k' xs) = (if k = k' then key_inputs l k xs else [])"
  by (auto simp: key_inputs_def filter_empty_conv intro: filter_cong)

lemma key_inputs_regroup:
  "distinct ks \<Longrightarrow> key_inputs l k (concat (map (\<lambda>k. key_inputs l k xs) ks)) = (if k \<in> set ks then key_inputs l k xs else [])"
  by (induction ks) (auto simp: key_inputs_append key_inputs_twice, simp_all add: key_inputs_def)

lemma table_cong:
  assumes "perfect_table l N t idx seen ins" "input_key l ` set seen' = input_key l ` set seen" "set ins' \<subseteq> set seen'"
    "\<And>k. key_inputs l k ins' = key_inputs l k ins"
  shows "perfect_table l N t idx seen' ins'"
  using assms by (simp add: perfect_table_def)

lemma combine_rows_ok:
  assumes l: "perfect_layout l" and T: "perfect_table l N (pg_tdc g) (pg_index g) ins ins" and L: "perfect_table l N t idx js js"
  shows "\<exists>g'. combine_perfect_rows hdr l N t g = Some (Inr g') \<and> perfect_table l N (pg_tdc g') (pg_index g') (ins @ js) (ins @ js)"
proof -
  note D = perfect_tableD [OF L]
  let ?part = "\<lambda>n. concat (map (\<lambda>r. key_inputs l (key_of l t r) js) [0..<n])"
  have "\<exists>g'. fold_opt (\<lambda>r. combine_perfect_row hdr l N (TupleDataCollectionGetRow t r)) [0..<n] g = Some (Inr g') \<and>
      perfect_table l N (pg_tdc g') (pg_index g') (ins @ ?part n) (ins @ ?part n)" if "n \<le> tdc_row_count t" for n
    using that
  proof (induction n)
    case 0
    then show ?case using T by simp
  next
    case (Suc n)
    obtain g1 where g1: "fold_opt (\<lambda>r. combine_perfect_row hdr l N (TupleDataCollectionGetRow t r)) [0..<n] g = Some (Inr g1)"
      "perfect_table l N (pg_tdc g1) (pg_index g1) (ins @ ?part n) (ins @ ?part n)" using Suc by auto
    have n: "n < tdc_row_count t" using Suc.prems by simp
    have row: "row_ok l (tdc_heap t) (tdc_heap_used t) (tdc_rows t ! n)" using D(1) n by (simp add: rows_ok_def)
    have good: "good_key N (row_key l (tdc_heap t) (tdc_rows t ! n))" using D(6) [OF n] by (auto simp: good_key_def key_of_def)
    have "key_of l t n \<in> input_key l ` set js" using n unfolding D(4) [symmetric] stored_keys_def by simp
    then have keys: "input_key l ` set (key_inputs l (key_of l t n) js) = {row_key l (tdc_heap t) (tdc_rows t ! n)}"
      by (auto simp: key_inputs_def key_of_def)
    have "holds_states l (tdc_rows t ! n) (key_inputs l (key_of l t n) js)" using D(8) [OF n] .
    from combine_row_ok [OF l g1(2) row this good keys, of hdr] obtain g2 where
      "combine_perfect_row hdr l N (tdc_rows t ! n) g1 = Some (Inr g2)" "perfect_table l N (pg_tdc g2) (pg_index g2) (ins @ ?part (Suc n)) (ins @ ?part (Suc n))"
      by auto
    then show ?case using g1(1) by (simp add: fold_opt_append TupleDataCollectionGetRow_def)
  qed
  from this [of "tdc_row_count t"] obtain g' where g': "combine_perfect_rows hdr l N t g = Some (Inr g')"
    "perfect_table l N (pg_tdc g') (pg_index g') (ins @ ?part (tdc_row_count t)) (ins @ ?part (tdc_row_count t))"
    by (auto simp: combine_perfect_rows_def)
  have part: "?part (tdc_row_count t) = concat (map (\<lambda>k. key_inputs l k js) (stored_keys l t))" by (simp add: stored_keys_def o_def)
  have same: "key_inputs l k (?part (tdc_row_count t)) = key_inputs l k js" for k
    unfolding part key_inputs_regroup [OF distinct_groups [OF L]] using key_inputs_none [of k l js] D(4) by auto
  have set: "set (?part (tdc_row_count t)) = set js"
    unfolding part using D(4) by (auto simp: key_inputs_def)
  have "perfect_table l N (pg_tdc g') (pg_index g') (ins @ js) (ins @ js)"
  proof (rule table_cong [OF g'(2)])
    show "input_key l ` set (ins @ js) = input_key l ` set (ins @ ?part (tdc_row_count t))" unfolding set_append set ..
    show "key_inputs l k (ins @ js) = key_inputs l k (ins @ ?part (tdc_row_count t))" for k unfolding key_inputs_append same ..
  qed simp
  then show ?thesis using g'(1) by blast
qed

text \<open>The result: a row for every key of the inputs, with the states of its inputs.\<close>

definition perfect_result :: "tuple_data_layout \<Rightarrow> tuple_data_collection \<Rightarrow> input_row list \<Rightarrow> bool" where
  "perfect_result l t ins \<longleftrightarrow>
     distinct (stored_keys l t) \<and> set (stored_keys l t) = input_key l ` set ins \<and>
     (\<forall>r<tdc_row_count t. holds_states l (tdc_rows t ! r) (key_inputs l (key_of l t r) ins))"

lemma finalized_key_of: "key_of l (t\<lparr>tdc_finalized := True\<rparr>) = key_of l t"
  by (simp add: key_of_def fun_eq_iff)

lemma perfect_result_finalize: "perfect_table l N (pg_tdc g) idx ins ins \<Longrightarrow> perfect_result l (pg_tdc (PerfectFinalize g)) ins"
  using distinct_groups [of l N "pg_tdc g" idx ins ins] perfect_tableD(4,8) [of l N "pg_tdc g" idx ins ins]
  by (simp add: perfect_result_def PerfectFinalize_def stored_keys_def finalized_key_of)

definition PerfectCombineAll ::
  "nat \<Rightarrow> tuple_data_layout \<Rightarrow> nat \<Rightarrow> tuple_data_collection list \<Rightarrow> perfect_local list \<Rightarrow> perfect_global \<Rightarrow> perfect_global result option" where
  "PerfectCombineAll hdr layout perfect_capacity registry =
     fold_opt (\<lambda>local. PerfectCombine hdr layout perfect_capacity UINT32_MAX (Some local) registry)"

lemma combine_all_ok:
  assumes l: "perfect_layout l" and N: "N \<le> max_groups" "max_groups < 2 ^ 29"
  shows "perfect_table l N (pg_tdc g) (pg_index g) ins ins \<Longrightarrow>
    list_all2 (\<lambda>chunks local. (\<forall>ch\<in>set chunks. perfect_chunk l ch) \<and> PerfectSinkAll hdr l max_groups N chunks = Some (Inr local)) css locals \<Longrightarrow>
    \<exists>g'. PerfectCombineAll hdr l N registry locals g = Some (Inr g') \<and>
      perfect_table l N (pg_tdc g') (pg_index g') (ins @ concat (map inputs_of css)) (ins @ concat (map inputs_of css))"
proof (induction css arbitrary: locals g ins)
  case Nil
  then show ?case by (simp add: PerfectCombineAll_def)
next
  case (Cons chunks css)
  obtain local rest where locals: "locals = local # rest" and ch: "\<forall>ch\<in>set chunks. perfect_chunk l ch"
    and sunk: "PerfectSinkAll hdr l max_groups N chunks = Some (Inr local)"
    and rest: "list_all2 (\<lambda>chunks local. (\<forall>ch\<in>set chunks. perfect_chunk l ch) \<and> PerfectSinkAll hdr l max_groups N chunks = Some (Inr local)) css rest"
    using Cons.prems(2) by (auto simp: list_all2_Cons1)
  let ?init = "PerfectLocalInit l max_groups N"
  have "perfect_table l N (pl_tdc ?init) (pl_row_indices ?init) [] []"
    using perfect_table_Init [OF l N] by (simp add: PerfectLocalInit_def)
  from sink_chunks_ok [OF l this ch, of hdr] sunk have L: "perfect_table l N (pl_tdc local) (pl_row_indices local) (inputs_of chunks) (inputs_of chunks)"
    by (auto simp: PerfectSinkAll_def)
  obtain g1 where g1: "combine_perfect_rows hdr l N (pl_tdc local) g = Some (Inr g1)"
    "perfect_table l N (pg_tdc g1) (pg_index g1) (ins @ inputs_of chunks) (ins @ inputs_of chunks)"
    using combine_rows_ok [OF l Cons.prems(1) L] by blast
  from Cons.IH [OF g1(2) rest] show ?case using g1(1) by (simp add: locals PerfectCombineAll_def PerfectCombine_def)
qed

section \<open>Reading the groups\<close>

text \<open>Row \<open>j\<close> of the output shows a stored row: its key columns and the final values of its aggregates, none of them null.\<close>

definition shows_row :: "tuple_data_layout \<Rightarrow> u8 list \<Rightarrow> data_chunk \<Rightarrow> nat \<Rightarrow> bool" where
  "shows_row l row out j \<longleftrightarrow>
     (\<forall>c\<in>set (columns l). column_class.cells (int32_class out) (unat (col_src_col_idx c)) j = get_u32 (unat (col_offset c)) row) \<and>
     (\<forall>a<aggregate_count l. finalize_aggregate (aggregates l ! a) row = Inr (column_class.cells (int64_class out) (column_count l + a) j))"

definition readable_layout :: "tuple_data_layout \<Rightarrow> bool" where
  "readable_layout l \<longleftrightarrow> perfect_layout l \<and> distinct (map (\<lambda>c. unat (col_src_col_idx c)) (columns l))"






lemma shows_count [simp]: "shows_row l row (ch\<lparr>chunk_count := n\<rparr>) = shows_row l row ch"
  by (simp add: shows_row_def fun_eq_iff)




lemma sink_all_ok:
  assumes l: "perfect_layout l" and N: "N \<le> max_groups" "max_groups < 2 ^ 29" and ch: "\<forall>ch\<in>set chunks. perfect_chunk l ch"
  shows "\<exists>r. PerfectSinkAll hdr l max_groups N chunks = Some r \<and> (isl r \<longleftrightarrow> \<not> good_inputs l N (inputs_of chunks))"
proof -
  let ?init = "PerfectLocalInit l max_groups N"
  have "perfect_table l N (pl_tdc ?init) (pl_row_indices ?init) [] []"
    using perfect_table_Init [OF l N] by (simp add: PerfectLocalInit_def)
  from sink_chunks_ok [OF l this ch, of hdr] obtain r where
    "PerfectSinkAll hdr l max_groups N chunks = Some r" "case r of Inl e \<Rightarrow> \<not> good_inputs l N (inputs_of chunks)
     | Inr local' \<Rightarrow> good_inputs l N (inputs_of chunks) \<and>
         perfect_table l N (pl_tdc local') (pl_row_indices local') ([] @ inputs_of chunks) ([] @ inputs_of chunks)"
    unfolding PerfectSinkAll_def by blast
  then show ?thesis by (cases r) auto
qed

section \<open>Properties\<close>


text \<open>C22: The scheduler makes one combine task for a perfect hash aggregate, for worker 0, and combine then takes the state of that worker alone, although
  the registry names the collections of all workers: a key that only another worker has seen is missing from the result.\<close>

theorem one_combine_task_loses_workers:
  assumes "perfect_layout l" and "N \<le> max_groups" and "max_groups < 2 ^ 29"
    and "pl_sink_type p = SINK_PERFECT_HASH_AGGREGATE" and "pl_payload_partitions p \<noteq> None"
    and "\<forall>ch\<in>set chunks0. perfect_chunk l ch" and "PerfectSinkAll hdr l max_groups N chunks0 = Some (Inr local0)"
    and "PerfectSinkAll hdr l max_groups N chunks1 = Some (Inr local1)"
    and "k \<in> input_key l ` set (inputs_of chunks1)" and "k \<notin> input_key l ` set (inputs_of chunks0)"
  shows "combine_task_count p pid s = Some 1 \<and> td_worker_index (task_desc wc p pid TK_COMBINE eid 0) = 0 \<and>
    (\<exists>g. PerfectCombine hdr l N (td_partition_id (task_desc wc p pid TK_COMBINE eid 0)) (Some local0) [pl_tdc local0, pl_tdc local1]
           (PerfectGlobalInit l max_groups N) = Some (Inr g) \<and>
         k \<notin> set (stored_keys l (pg_tdc (PerfectFinalize g))))"
proof -
  let ?g = "PerfectGlobalInit l max_groups N"
  have T: "perfect_table l N (pg_tdc ?g) (pg_index ?g) [] []"
    using perfect_table_Init [OF assms(1-3)] by (simp add: PerfectGlobalInit_def)
  have sunk: "list_all2 (\<lambda>chunks local. (\<forall>ch\<in>set chunks. perfect_chunk l ch) \<and> PerfectSinkAll hdr l max_groups N chunks = Some (Inr local)) [chunks0] [local0]"
    using assms(6,7) by simp
  from combine_all_ok [OF assms(1-3) T sunk, where registry = "[pl_tdc local0, pl_tdc local1]"] obtain g where
    g: "PerfectCombineAll hdr l N [pl_tdc local0, pl_tdc local1] [local0] ?g = Some (Inr g)"
      "perfect_table l N (pg_tdc g) (pg_index g) (inputs_of chunks0) (inputs_of chunks0)" by auto
  have "PerfectCombine hdr l N UINT32_MAX (Some local0) [pl_tdc local0, pl_tdc local1] ?g = Some (Inr g)"
    using g(1) by (auto simp: PerfectCombineAll_def split: option.splits sum.splits)
  moreover have "k \<notin> set (stored_keys l (pg_tdc (PerfectFinalize g)))"
    using perfect_result_finalize [OF g(2)] assms(10) by (simp add: perfect_result_def)
  ultimately show ?thesis
    using assms(4,5) by (auto simp: combine_task_count_def task_desc_def)
qed

section \<open>Two workers\<close>

definition flag_layout :: tuple_data_layout where
  "flag_layout =
     \<lparr>columns = [\<lparr>col_kind = INT32, col_offset = 0, col_width = 4, col_src_col_idx = 0, col_numeric_scale = 0, col_pg_type_oid = 18\<rparr>],
      aggregates = [\<lparr>agg_kind = COUNT_STAR, agg_offset = 8, agg_width = 8, agg_src_col_idx = 0, agg_numeric_scale = 0, agg_pg_agg_oid = 2803\<rparr>],
      layout_row_width = 16, validity_width = 0\<rparr>"

definition flag_chunk :: "u32 \<Rightarrow> data_chunk" where
  "flag_chunk v = empty_chunk\<lparr>chunk_count := 1, int32_class := set_cell 0 0 v (int32_class empty_chunk)\<rparr>"

lemma flag_layout_ok: "readable_layout flag_layout"
  by (auto simp: readable_layout_def perfect_layout_def flag_layout_def layout_ok_def row_fields_def apart_def pairwise_def)

lemma flag_chunk_ok: "perfect_chunk flag_layout (flag_chunk v)"
  by (simp add: perfect_chunk_def flag_layout_def flag_chunk_def empty_chunk_def plain_class_def set_cell_def)

lemma flag_key: "inputs_of [flag_chunk v] = [(flag_chunk v, 0)]" "chunk_key flag_layout (flag_chunk v) 0 = [GInt32 v]"
  by (simp_all add: inputs_of_def chunk_inputs_def flag_chunk_def chunk_key_def chunk_val_def flag_layout_def get_int32_def get_cell_def
      empty_chunk_def plain_class_def set_cell_def)

lemma flag_good: "good_inputs flag_layout 256 [(flag_chunk 65, 0)]" "good_inputs flag_layout 256 [(flag_chunk 78, 0)]"
  by (simp_all add: good_inputs_def flag_key good_key_def key_code_def push_key_def word_sless_alt)


lemma flag_sink:
  assumes "good_inputs flag_layout 256 [(flag_chunk v, 0)]"
  obtains local where "PerfectSinkAll 64 flag_layout 1024 256 [flag_chunk v] = Some (Inr local)"
proof -
  have l: "perfect_layout flag_layout" using flag_layout_ok by (simp add: readable_layout_def)
  obtain r where "PerfectSinkAll 64 flag_layout 1024 256 [flag_chunk v] = Some r" "\<not> isl r"
    using sink_all_ok [OF l, of 256 1024 "[flag_chunk v]" 64] flag_chunk_ok assms by (auto simp: flag_key)
  then show thesis using that by (cases r) auto
qed

theorem one_combine_task_loses_workers_witness:
  "\<exists>local0 local1 g.
     PerfectSinkAll 64 flag_layout 1024 256 [flag_chunk 65] = Some (Inr local0) \<and> PerfectSinkAll 64 flag_layout 1024 256 [flag_chunk 78] = Some (Inr local1) \<and>
     PerfectCombine 64 flag_layout 256 UINT32_MAX (Some local0) [pl_tdc local0, pl_tdc local1] (PerfectGlobalInit flag_layout 1024 256) = Some (Inr g) \<and>
     [GInt32 78] \<notin> set (stored_keys flag_layout (pg_tdc (PerfectFinalize g)))"
proof -
  let ?p = "\<lparr>pl_depends_on = [], pl_parallel_source = True, pl_source_max_threads = 2, pl_ops_max_threads = [], pl_sink_max_threads = 2,
    pl_sink_type = SINK_PERFECT_HASH_AGGREGATE, pl_combine_is_trivial = False, pl_finalize_is_trivial = False, pl_payload_partitions = Some 0,
    pl_finalize_ready = True\<rparr>"
  have l: "perfect_layout flag_layout" using flag_layout_ok by (simp add: readable_layout_def)
  obtain local0 where 0: "PerfectSinkAll 64 flag_layout 1024 256 [flag_chunk 65] = Some (Inr local0)" by (rule flag_sink [OF flag_good(1)])
  obtain local1 where 1: "PerfectSinkAll 64 flag_layout 1024 256 [flag_chunk 78] = Some (Inr local1)" by (rule flag_sink [OF flag_good(2)])
  have keys: "[GInt32 78] \<in> input_key flag_layout ` set (inputs_of [flag_chunk 78])" "[GInt32 78] \<notin> input_key flag_layout ` set (inputs_of [flag_chunk 65])"
    by (simp_all add: flag_key)
  have chunks: "\<forall>ch\<in>set [flag_chunk 65]. perfect_chunk flag_layout ch" by (simp add: flag_chunk_ok)
  have "td_partition_id (task_desc 2 ?p 0 TK_COMBINE 1 0) = UINT32_MAX" by (simp add: task_desc_def)
  then show ?thesis
    using one_combine_task_loses_workers [of flag_layout 256 1024 ?p "[flag_chunk 65]" 64 local0 "[flag_chunk 78]" local1 "[GInt32 78]" 0 "BuildEvents [?p] 2 8" 2 1]
      l 0 1 keys chunks by auto
qed

end
