(* ===== verification/Spec2Isabelle.thy ===== *)
theory Spec2Isabelle
  imports TupleCollection AggSizing AggBatch TaskQueue EventDag Leader MetaPipeline TaskRun JoinRows CrossProduct Like FilterExec HashProbe RowChain TopN OrderBy OutputSink Projection PerfectHash
begin

text \<open>
  A verification library for pg_yaap, a PostgreSQL extension that runs query plans on its own parallel columnar executor.

  \<^bold>\<open>The program.\<close> The planner side (src/src/optimizer, and the translator of
  src/src/executor/engine/parallel/pipeline) turns a PostgreSQL plan into a tree of physical operators. The tree is sliced
  into pipelines (meta_pipeline.cpp): an operator that needs all of its input before it gives output ends one pipeline and
  starts another. Each pipeline has a run, a combine and a finalize event (event.cpp, task_scheduler.cpp), and events wait
  for the pipelines they depend on. The leader (pipeline_leader.cpp) walks the events and enqueues their tasks in a queue
  in shared memory (dsm_task_queue.cpp); the workers (pipeline_worker_main.cpp) pop and run them. A run task (task.cpp)
  pulls a batch from the source, pushes it through the operators and into the sink. Batches are columnar
  (core/data_chunk.hpp); what an operator keeps is stored row-wise in collections with a string heap
  (tuple_data_collection.cpp, tuple_data_layout.cpp), read and written by the routines of tuple_data_ops.cpp.

  \<^bold>\<open>Theories\<close>, in the order of their dependencies; each names the files it models.

    \<^item> Prelude, Bytes: machine integers, errors as values (\<^verbatim>\<open>elog(ERROR)\<close> is the left of a sum), fallible folds, byte memory.
    \<^item> TupleLayout, Chunk, TupleCollection, TupleOps: the row layout with its invariant (disjoint, aligned fields), the
      columnar batch with dictionaries and arena, the row collection (growth, limits, scan claims), and the codec between them.
    \<^item> GroupKeys, AggStates: the codec seen on keys and on aggregate states; hashing and matching agree with equality of
      keys, batched updates with row-at-a-time updates, combining with appending the inputs.
    \<^item> Probe, AggHash, AggBatch, AggSizing: open addressing once for all tables (locale), and the aggregate hash table as a
      refinement of a finite map, one key at a time and in batches.
    \<^item> PerfectHash: the aggregate over keys of small integers, from the workers' sinks to the reading of the groups, and
      that the scheduler's single combine task takes one worker only.
    \<^item> TaskQueue: the bounded lock-free queue at the granularity of its atomic accesses, for any interleaving.
    \<^item> EventDag, Leader: the event cascade with a bound on its length, and leader and workers as one transition system
      with its safety (dependencies are respected, tasks are counted) and liveness (it never stalls) properties.
    \<^item> MetaPipeline: slicing, and that what it builds satisfies the dependency hypotheses of the scheduler's theorems.
    \<^item> TaskRun, RowChain: the run task over an interface of operators (locale), and its interpretation for filters in
      front of a cross product.
    \<^item> JoinRows, CrossProduct: the writing of joined rows and the cross product with its resumable cursor.
    \<^item> Like, FilterExec: the LIKE matchers, predicate programs and the filter.
    \<^item> Projection: the tape of steps over whole columns, equal to a machine for single rows.
    \<^item> HashBuild, HashProbe: the concurrent build of the join hash table and the probe in every join mode.
    \<^item> RowOrder, RowStore, GatherRows, RowGrow: comparing, copying (locale), gathering and growing collections of stored rows.
    \<^item> TopN, OrderBy, OutputSink: the operators on such collections: top-N under interleaved workers, the sort, and the
      output sink with its limit and the encoding of datums.

  \<^bold>\<open>Conventions.\<close> A record has the fields of the struct it models, under the struct's name; a function has the name of
  the C++ function, and the pieces of a long function are definitions of their own. Integers are words where
  their width matters and naturals with an explicit wrap-around (\<^verbatim>\<open>wrap32\<close>, \<^verbatim>\<open>wrap64\<close>) otherwise. Doubles are
  bit patterns. A section under a spinlock is one step; unlocked shared accesses are steps of their own. A loop
  that has no structural measure in the code carries fuel, with a lemma that the fuel given is enough
  (the probe loops: one round more than the table has slots; the event cascade: a bound computed from the events), or it is a
  \<^verbatim>\<open>partial_function\<close> into an option, with a lemma that it returns.

  \<^bold>\<open>Parameters.\<close> Code outside the repository is an argument: the liveness of processes (\<^verbatim>\<open>BackendPidGetProc\<close>), the
  cancel flag, the size of an allocation's header, \<^verbatim>\<open>std::sort\<close> (with the contract of the C++ standard), the results of
  scans and of operators that are not modelled (as functions from state and input to output, result and state).

  \<^bold>\<open>Not modelled.\<close> PostgreSQL's catalogs and heap access (physical_seq_scan.cpp beyond its LIKE matcher), generated
  machine code (llvmjit\_*.cpp), the planner (src/src/optimizer) and the
  translator from its plans, profiling and tracing, the shared-memory set-up of queries, latches and process start-up. The
  manifest lists each of these parts with its reason.
\<close>

end
